(* ===== verification/Collage_Prelude.thy ===== *)
theory Collage_Prelude
  imports Main "HOL-Library.Word" "HOL-Library.AList"
begin

text \<open>
  Types, automation collections and generic lemmas shared by every component:
  the machine integers the sources use, the little-endian image of a plain data
  item in memory, and facts on association lists, which stand for the hash maps
  of the sources.
\<close>

unbundle bit_operations_syntax

section \<open>Machine integers\<close>

type_synonym byte = "8 word"
type_synonym uint16 = "16 word"
type_synonym uint32 = "32 word"
type_synonym uint64 = "64 word"
type_synonym uint128 = "128 word"
type_synonym NodeID = "128 word"
type_synonym bytes = "8 word list"

named_theorems codec_simps "encoders and decoders of plain data"
named_theorems stream_simps "unfolding of stream operations"
named_theorems inv_intros "every operation keeps its component's invariant"

section \<open>Little-endian images of plain data\<close>

definition le_bytes :: "nat \<Rightarrow> 'a::len word \<Rightarrow> bytes" where
  "le_bytes n w = map (\<lambda>i. ucast (drop_bit (8 * i) w)) [0..<n]"

fun of_le :: "bytes \<Rightarrow> 'a::len word" where
  "of_le [] = 0"
| "of_le (b # bs) = push_bit 8 (of_le bs) OR ucast b"

lemma length_le_bytes [simp]: "length (le_bytes n w) = n"
  by (simp add: le_bytes_def)

lemma bit_of_le:
  "bit (of_le bs :: 'a::len word) k \<longleftrightarrow>
     k < LENGTH('a) \<and> k div 8 < length bs \<and> bit (bs ! (k div 8)) (k mod 8)"
proof (induction bs arbitrary: k)
  case Nil
  then show ?case by simp
next
  case (Cons b bs)
  show ?case
  proof (cases "k < 8")
    case True
    then show ?thesis by (auto simp: bit_or_iff bit_push_bit_iff bit_ucast_iff)
  next
    case False
    then obtain m where k: "k = m + 8" by (metis add.commute le_Suc_ex not_less)
    have high: "\<not> bit b (m + 8)" by (auto dest: bit_imp_le_length)
    have idx: "(m + 8) div 8 = Suc (m div 8)" by simp
    show ?thesis
      unfolding k by (simp add: bit_or_iff bit_push_bit_iff bit_ucast_iff Cons.IH high idx) auto
  qed
qed

lemma of_le_bytes [codec_simps]:
  assumes "LENGTH('a) = 8 * n"
  shows "of_le (le_bytes n (w :: 'a::len word)) = w"
proof (rule bit_word_eqI)
  fix k
  assume k: "k < LENGTH('a)"
  then have div: "k div 8 < n" using assms by (simp add: less_mult_imp_div_less mult.commute)
  then have "bit (of_le (le_bytes n w) :: 'a word) k \<longleftrightarrow>
      bit (ucast (drop_bit (8 * (k div 8)) w) :: byte) (k mod 8)"
    using k by (simp add: bit_of_le) (simp add: le_bytes_def)
  also have "\<dots> \<longleftrightarrow> bit w (8 * (k div 8) + k mod 8)"
    by (simp add: bit_ucast_iff bit_drop_bit_eq)
  finally show "bit (of_le (le_bytes n w) :: 'a word) k \<longleftrightarrow> bit w k" by simp
qed

text \<open>\<open>lunchbox::byteswap\<close> on one plain item reverses its bytes.\<close>

definition byteswap :: "bytes \<Rightarrow> bytes" where
  "byteswap bs = rev bs"

lemma byteswap_byteswap [simp]: "byteswap (byteswap bs) = bs"
  by (simp add: byteswap_def)

lemma length_byteswap [simp]: "length (byteswap bs) = length bs"
  by (simp add: byteswap_def)

section \<open>Association lists with distinct keys\<close>

lemma map_fst_update_present:
  "k \<in> fst ` set al \<Longrightarrow> map fst (AList.update k v al) = map fst al"
  by (induction al) auto

lemma mem_delete_D: "x \<in> set (AList.delete k al) \<Longrightarrow> x \<in> set al"
  by (simp add: AList.delete_eq)

lemma mem_update_D: "(a, b) \<in> set (AList.update k v al) \<Longrightarrow> (a, b) = (k, v) \<or> (a, b) \<in> set al"
  by (induction al) (auto split: if_splits)

lemma mem_update_distinct_D:
  assumes "distinct (map fst al)" and "(a, b) \<in> set (AList.update k v al)"
  shows "(a = k \<and> b = v) \<or> (a \<noteq> k \<and> (a, b) \<in> set al)"
proof -
  have "map_of (AList.update k v al) a = Some b"
    using assms distinct_update by (intro map_of_is_SomeI) auto
  then show ?thesis by (auto simp: update_conv' split: if_splits dest: map_of_SomeD)
qed

lemma map_of_delete_same [simp]: "map_of (AList.delete k al) k = None"
  by (simp add: delete_conv)

lemma map_of_delete_other [simp]: "x \<noteq> k \<Longrightarrow> map_of (AList.delete k al) x = map_of al x"
  by (simp add: delete_conv)

lemma sum_list_alist_update:
  fixes f :: "'k \<times> 'v \<Rightarrow> 'a::ab_group_add"
  assumes "distinct (map fst al)" and "map_of al k = Some v"
  shows "sum_list (map f (AList.update k v' al)) = sum_list (map f al) - f (k, v) + f (k, v')"
  using assms by (induction al) (auto simp: algebra_simps)

lemma update_absent: "map_of al k = None \<Longrightarrow> AList.update k v al = al @ [(k, v)]"
  by (induction al) (auto split: if_splits)

lemma sum_list_alist_delete:
  fixes f :: "'k \<times> 'v \<Rightarrow> 'a::ab_group_add"
  assumes "distinct (map fst al)" and "map_of al k = Some v"
  shows "sum_list (map f (AList.delete k al)) = sum_list (map f al) - f (k, v)"
  using assms
proof (induction al)
  case Nil
  then show ?case by simp
next
  case (Cons a al)
  then show ?case
  proof (cases "fst a = k")
    case True
    with Cons.prems have "AList.delete k al = al"
      by auto
    with True Cons.prems show ?thesis by (cases a) (simp add: AList.delete_eq)
  next
    case False
    with Cons show ?thesis by (cases a) (auto simp: algebra_simps)
  qed
qed

lemma word_minus_Suc: "(a :: 'a::len word) \<noteq> b \<Longrightarrow> unat (b - (a + 1)) < unat (b - a)"
proof -
  assume "a \<noteq> b"
  then have "unat (b - a - 1) = unat (b - a) - 1" "0 < unat (b - a)"
    by (simp_all add: unat_minus_one unat_gt_0)
  moreover have "b - (a + 1) = b - a - 1" by simp
  ultimately show ?thesis by (simp only:)
qed

section \<open>Machines driven by events\<close>

text \<open>The run of a machine over a list of events; \<^term>\<open>None\<close> when an event is not possible.\<close>

fun run_events :: "('e \<Rightarrow> 's \<Rightarrow> 's option) \<Rightarrow> 'e list \<Rightarrow> 's \<Rightarrow> 's option" where
  "run_events step [] s = Some s"
| "run_events step (e # es) s = (case step e s of None \<Rightarrow> None | Some s \<Rightarrow> run_events step es s)"

text \<open>
  A forward simulation between two machines, where \<open>room n c\<close> is what the concrete machine needs so that
  the next \<open>n\<close> events cannot block.
\<close>

locale forward_simulation =
  fixes cstep :: "'e \<Rightarrow> 'c \<Rightarrow> 'c option" and astep :: "'e \<Rightarrow> 'a \<Rightarrow> 'a option"
    and abs :: "'c \<Rightarrow> 'a" and inv :: "'c \<Rightarrow> bool" and room :: "nat \<Rightarrow> 'c \<Rightarrow> bool"
  assumes simulate: "inv c \<Longrightarrow> room (Suc n) c \<Longrightarrow> astep e (abs c) = Some a \<Longrightarrow>
      \<exists>c'. cstep e c = Some c' \<and> abs c' = a \<and> inv c' \<and> room n c'"
begin

lemma simulate_run:
  "inv c \<Longrightarrow> room (length es) c \<Longrightarrow> run_events astep es (abs c) = Some a \<Longrightarrow>
   \<exists>c'. run_events cstep es c = Some c' \<and> abs c' = a \<and> inv c'"
proof (induction es arbitrary: c)
  case (Cons e es)
  from Cons.prems(3) obtain b where b: "astep e (abs c) = Some b" "run_events astep es b = Some a"
    by (auto split: option.splits)
  from simulate [OF Cons.prems(1) _ b(1), of "length es"] Cons.prems(2) obtain d
    where "cstep e c = Some d" "abs d = b" "inv d" "room (length es) d" by auto
  with Cons.IH [of d] b(2) show ?case by simp
qed simp

end

end
