(* ===== verification/Object_Version.thy ===== *)
theory Object_Version
  imports Collage_Prelude
begin

text \<open>
  Object identifiers and versions: \<^verbatim>\<open>src/co/objectVersion.h\<close> and
  \<^verbatim>\<open>objectVersion.cpp\<close>, with the special version values and instance numbers of
  \<^verbatim>\<open>src/co/types.h\<close>. The comparison operators of the struct are proved to be a
  linear order, so that the library's order and sorting facts apply to it.
\<close>

section \<open>Special values\<close>

definition VERSION_NONE :: uint128 where "VERSION_NONE = 0"
definition VERSION_FIRST :: uint128 where "VERSION_FIRST = 1"
definition VERSION_NEWEST :: uint128 where "VERSION_NEWEST = 0xfffffffffffffffb"
definition VERSION_OLDEST :: uint128 where "VERSION_OLDEST = 0xfffffffffffffffc"
definition VERSION_NEXT :: uint128 where "VERSION_NEXT = 0xfffffffffffffffd"
definition VERSION_INVALID :: uint128 where "VERSION_INVALID = 0xfffffffffffffffe"
definition VERSION_HEAD :: uint128 where "VERSION_HEAD = 0xffffffffffffffff"

definition CO_INSTANCE_NONE :: uint32 where "CO_INSTANCE_NONE = 0xfffffffd"
definition CO_INSTANCE_INVALID :: uint32 where "CO_INSTANCE_INVALID = 0xfffffffe"
definition CO_INSTANCE_ALL :: uint32 where "CO_INSTANCE_ALL = 0xffffffff"

lemmas version_defs =
  VERSION_NONE_def VERSION_FIRST_def VERSION_NEWEST_def VERSION_OLDEST_def
  VERSION_NEXT_def VERSION_INVALID_def VERSION_HEAD_def

text \<open>The two halves of a 128 bit value.\<close>

definition low128 :: "uint128 \<Rightarrow> uint64" where "low128 v = ucast v"
definition high128 :: "uint128 \<Rightarrow> uint64" where "high128 v = ucast (drop_bit 64 v)"

section \<open>The struct and its constructors\<close>

datatype object_version = ObjectVersion (ov_identifier: uint128) (ov_version: uint128)

text \<open>What a constructor reads of the object it is given.\<close>

record object_ref =
  isAttached :: bool
  getID :: uint128
  getVersion :: uint128

definition ObjectVersion_default :: object_version where
  "ObjectVersion_default = ObjectVersion 0 VERSION_NONE"

definition ObjectVersion_ptr :: "object_ref option \<Rightarrow> object_version" where
  "ObjectVersion_ptr object =
     (case object of
        Some ob \<Rightarrow> if isAttached ob then ObjectVersion (getID ob) (getVersion ob)
                  else ObjectVersion_default
      | None \<Rightarrow> ObjectVersion_default)"

definition ObjectVersion_ref :: "object_ref \<Rightarrow> object_version" where
  "ObjectVersion_ref ob = ObjectVersion (getID ob) (getVersion ob)"

definition ObjectVersion_assign :: "object_version \<Rightarrow> object_ref option \<Rightarrow> object_version" where
  "ObjectVersion_assign this object =
     (case object of
        Some ob \<Rightarrow> ObjectVersion (getID ob) (getVersion ob)
      | None \<Rightarrow> ObjectVersion 0 VERSION_NONE)"

section \<open>Comparison operators\<close>

definition ov_eq :: "object_version \<Rightarrow> object_version \<Rightarrow> bool" where
  "ov_eq this rhs \<longleftrightarrow> ov_identifier this = ov_identifier rhs \<and> ov_version this = ov_version rhs"

definition ov_neq :: "object_version \<Rightarrow> object_version \<Rightarrow> bool" where
  "ov_neq this rhs \<longleftrightarrow> ov_identifier this \<noteq> ov_identifier rhs \<or> ov_version this \<noteq> ov_version rhs"

definition ov_less :: "object_version \<Rightarrow> object_version \<Rightarrow> bool" where
  "ov_less this rhs \<longleftrightarrow>
     ov_identifier this < ov_identifier rhs \<or>
     (ov_identifier this = ov_identifier rhs \<and> ov_version this < ov_version rhs)"

definition ov_greater :: "object_version \<Rightarrow> object_version \<Rightarrow> bool" where
  "ov_greater this rhs \<longleftrightarrow>
     ov_identifier this > ov_identifier rhs \<or>
     (ov_identifier this = ov_identifier rhs \<and> ov_version this > ov_version rhs)"

lemmas ov_op_defs = ov_eq_def ov_neq_def ov_less_def ov_greater_def

instantiation object_version :: linorder
begin

definition less_object_version :: "object_version \<Rightarrow> object_version \<Rightarrow> bool" where
  "less_object_version = ov_less"

definition less_eq_object_version :: "object_version \<Rightarrow> object_version \<Rightarrow> bool" where
  "less_eq_object_version a b \<longleftrightarrow> ov_less a b \<or> a = b"

instance
proof
  fix x y z :: object_version
  show "x < y \<longleftrightarrow> x \<le> y \<and> \<not> y \<le> x"
    by (auto simp: less_object_version_def less_eq_object_version_def ov_less_def)
  show "x \<le> x" by (simp add: less_eq_object_version_def)
  show "x \<le> y \<Longrightarrow> y \<le> z \<Longrightarrow> x \<le> z"
    by (auto simp: less_eq_object_version_def ov_less_def)
  show "x \<le> y \<Longrightarrow> y \<le> x \<Longrightarrow> x = y"
    by (auto simp: less_eq_object_version_def ov_less_def)
  show "x \<le> y \<or> y \<le> x"
    by (cases x; cases y) (auto simp: less_eq_object_version_def ov_less_def)
qed

end

text \<open>The four operators agree with the order and the equality of the type.\<close>

lemma ov_greater_iff [simp]: "ov_greater a b \<longleftrightarrow> b < a"
  by (auto simp: less_object_version_def ov_less_def ov_greater_def)

lemma ov_less_iff [simp]: "ov_less a b \<longleftrightarrow> a < b"
  by (simp add: less_object_version_def)

lemma ov_eq_iff [simp]: "ov_eq a b \<longleftrightarrow> a = b"
  by (cases a; cases b) (simp add: ov_eq_def)

lemma ov_neq_iff [simp]: "ov_neq a b \<longleftrightarrow> a \<noteq> b"
  by (cases a; cases b) (simp add: ov_neq_def)

section \<open>Runs of versions\<close>

text \<open>Versions that follow each other without a gap.\<close>

fun consecutive :: "uint128 list \<Rightarrow> bool" where
  "consecutive (a # b # vs) \<longleftrightarrow> b = a + 1 \<and> consecutive (b # vs)"
| "consecutive vs \<longleftrightarrow> True"

lemma consecutive_tl: "consecutive vs \<Longrightarrow> consecutive (tl vs)"
  by (cases vs rule: consecutive.cases) auto

lemma consecutive_snoc:
  "consecutive vs \<Longrightarrow> vs = [] \<or> v = last vs + 1 \<Longrightarrow> consecutive (vs @ [v])"
  by (induction vs rule: consecutive.induct) auto

text \<open>The same as an interval of numbers, for versions that do not wrap.\<close>

definition version_run :: "uint128 list \<Rightarrow> nat \<Rightarrow> nat \<Rightarrow> bool" where
  "version_run vs a b \<longleftrightarrow> map unat vs = [a..<b]"

lemma unat_Suc128: "unat (v :: uint128) < 2 ^ 64 \<Longrightarrow> unat (v + 1) = Suc (unat v)"
  by (simp add: unat_word_ariths(1))

lemma version_run_append1:
  "version_run vs a (unat v) \<Longrightarrow> a \<le> unat v \<Longrightarrow> version_run (vs @ [v]) a (Suc (unat v))"
  by (simp add: version_run_def)

lemma version_run_length: "version_run vs a b \<Longrightarrow> length vs = b - a"
  by (metis length_map length_upt version_run_def)

lemma version_run_tl: "version_run (v # vs) a b \<Longrightarrow> version_run vs (Suc a) b"
  by (cases "a < b") (auto simp: version_run_def upt_conv_Cons)

lemma version_run_hd: "version_run (v # vs) a b \<Longrightarrow> unat v = a \<and> a < b"
  by (cases "a < b") (auto simp: version_run_def upt_conv_Cons)

lemma version_run_last: "version_run vs a (Suc b) \<Longrightarrow> vs \<noteq> [] \<Longrightarrow> unat (last vs) = b"
  by (cases "a \<le> b") (auto simp: version_run_def last_map [symmetric])

lemma filter_ge_upt: "filter ((\<le>) s) [a..<b] = [max a s..<b]"
  by (induction b) (auto simp: max_def)

lemma filter_le_upt: "filter (\<lambda>n. n \<le> e) [a..<b] = [a..<min b (Suc e)]"
  by (induction b) (auto simp: min_def le_Suc_eq)

lemma version_run_filter_ge:
  "version_run vs a b \<Longrightarrow> version_run (filter (\<lambda>v. s \<le> v) vs) (max a (unat s)) b"
proof -
  assume run: "version_run vs a b"
  have "map unat (filter (\<lambda>v. s \<le> v) vs) = filter (\<lambda>n. unat s \<le> n) (map unat vs)"
    by (induction vs) (simp_all add: word_le_nat_alt)
  also have "\<dots> = [max a (unat s)..<b]"
    using run by (simp add: version_run_def filter_ge_upt)
  finally show ?thesis by (simp add: version_run_def)
qed

lemma version_run_filter_le:
  "version_run vs a b \<Longrightarrow> version_run (filter (\<lambda>v. v \<le> e) vs) a (min b (Suc (unat e)))"
proof -
  assume run: "version_run vs a b"
  have "map unat (filter (\<lambda>v. v \<le> e) vs) = filter (\<lambda>n. n \<le> unat e) (map unat vs)"
    by (induction vs) (simp_all add: word_le_nat_alt)
  also have "\<dots> = [a..<min b (Suc (unat e))]"
    using run by (simp add: version_run_def filter_le_upt)
  finally show ?thesis by (simp add: version_run_def)
qed

end
