(* ===== verification/Data_IStream.thy ===== *)
theory Data_IStream
  imports Object_Version
begin

text \<open>
  The input stream base class, \<^verbatim>\<open>src/co/dataIStream.cpp\<close>. A subclass supplies
  \<open>getNextBuffer\<close>; here it is the argument \<open>next\<close>, and what the base class relies
  on is the locale \<open>buffer_source\<close>. The decompressor comes from the pression
  library, which is not part of the repository, and is the argument \<open>P\<close>.
\<close>

section \<open>State\<close>

text \<open>\<^verbatim>\<open>detail::DataIStream\<close>; the null input pointer is \<^term>\<open>None\<close>.\<close>

record istream =
  is_input :: "bytes option"
  is_inputSize :: uint64
  is_position :: uint64
  is_swap :: bool

text \<open>The out parameters of \<open>getNextBuffer\<close>.\<close>

record next_buffer =
  nb_compressor :: uint32
  nb_nChunks :: uint32
  nb_data :: bytes
  nb_size :: uint64

text \<open>
  What the sources use of the pression library: the name of the null compressor, the
  decompressor (by name, from chunks, to a number of bytes), whether the chosen
  compressor is usable, its name, and the chunks it produces for a buffer.
\<close>

record pression =
  EQ_COMPRESSOR_NONE :: uint32
  pr_decompress :: "uint32 \<Rightarrow> bytes list \<Rightarrow> uint64 \<Rightarrow> bytes"
  pr_isGood :: bool
  pr_name :: uint32
  pr_compress :: "bytes \<Rightarrow> bytes list"

section \<open>Operations\<close>

definition is_setSwapping :: "'a istream_scheme \<Rightarrow> bool \<Rightarrow> 'a istream_scheme" where
  "is_setSwapping s onOff = s\<lparr>is_swap := onOff\<rparr>"

definition is_isSwapping :: "'a istream_scheme \<Rightarrow> bool" where
  "is_isSwapping s = is_swap s"

definition is_reset :: "'a istream_scheme \<Rightarrow> 'a istream_scheme" where
  "is_reset s = s\<lparr>is_input := None, is_inputSize := 0, is_position := 0, is_swap := False\<rparr>"

definition is_assign :: "'a istream_scheme \<Rightarrow> 'b istream_scheme \<Rightarrow> 'a istream_scheme" where
  "is_assign this rhs = is_setSwapping (is_reset this) (is_isSwapping rhs)"

text \<open>Each chunk is preceded by its size, an unsigned 64 bit integer.\<close>

fun split_chunks :: "nat \<Rightarrow> bytes \<Rightarrow> bytes list" where
  "split_chunks 0 src = []"
| "split_chunks (Suc n) src =
     (let size = unat (of_le (take 8 src) :: uint64); src = drop 8 src
      in take size src # split_chunks n (drop size src))"

definition is_decompress :: "pression \<Rightarrow> bytes \<Rightarrow> uint32 \<Rightarrow> uint32 \<Rightarrow> uint64 \<Rightarrow> bytes" where
  "is_decompress P data name nChunks dataSize =
     (if name = EQ_COMPRESSOR_NONE P then data
      else pr_decompress P name (split_chunks (unat nChunks) data) dataSize)"

text \<open>
  \<^verbatim>\<open>_checkBuffer\<close> loops as long as the current buffer is exhausted and there is a next
  one. The loop is bounded by fuel; \<^term>\<open>None\<close> means out of fuel, and the locale below
  shows that one more than the number of remaining buffers is enough.
\<close>

fun is_checkBuffer ::
  "pression \<Rightarrow> ('a istream_scheme \<Rightarrow> 'a istream_scheme \<times> next_buffer option) \<Rightarrow>
   nat \<Rightarrow> 'a istream_scheme \<Rightarrow> (bool \<times> 'a istream_scheme) option" where
  "is_checkBuffer P next fuel s =
     (if is_position s < is_inputSize s then Some (True, s)
      else case fuel of
        0 \<Rightarrow> None
      | Suc fuel \<Rightarrow>
          (case next (s\<lparr>is_position := 0, is_input := None, is_inputSize := 0\<rparr>) of
             (s, None) \<Rightarrow> Some (False, s)
           | (s, Some b) \<Rightarrow>
               is_checkBuffer P next fuel
                 (s\<lparr>is_inputSize := nb_size b,
                    is_input := Some (is_decompress P (nb_data b) (nb_compressor b)
                                        (nb_nChunks b) (nb_size b))\<rparr>)))"

declare is_checkBuffer.simps [simp del]

text \<open>
  \<^verbatim>\<open>_read\<close>: the bytes copied to the caller, or \<^term>\<open>None\<close> where the source logs an error
  and returns without touching the caller's memory.
\<close>

definition is_read ::
  "pression \<Rightarrow> ('a istream_scheme \<Rightarrow> 'a istream_scheme \<times> next_buffer option) \<Rightarrow>
   nat \<Rightarrow> 'a istream_scheme \<Rightarrow> uint64 \<Rightarrow> (bytes option \<times> 'a istream_scheme) option" where
  "is_read P next fuel s n =
     (case is_checkBuffer P next fuel s of
        None \<Rightarrow> None
      | Some (False, s) \<Rightarrow> Some (None, s)
      | Some (True, s) \<Rightarrow>
          (if n > is_inputSize s - is_position s then Some (None, s)
           else Some (Some (take (unat n) (drop (unat (is_position s)) (the (is_input s)))),
                      s\<lparr>is_position := is_position s + n\<rparr>)))"

text \<open>The const overload neither advances the position nor looks for the next buffer.\<close>

definition is_read_const :: "'a istream_scheme \<Rightarrow> uint64 \<Rightarrow> bytes option" where
  "is_read_const s n =
     (if n > is_inputSize s - is_position s then None
      else Some (take (unat n) (drop (unat (is_position s)) (the (is_input s)))))"

definition is_getRemainingBuffer ::
  "pression \<Rightarrow> ('a istream_scheme \<Rightarrow> 'a istream_scheme \<times> next_buffer option) \<Rightarrow>
   nat \<Rightarrow> 'a istream_scheme \<Rightarrow> uint64 \<Rightarrow> (bytes option \<times> 'a istream_scheme) option" where
  "is_getRemainingBuffer P next fuel s n =
     (case is_checkBuffer P next fuel s of
        None \<Rightarrow> None
      | Some (False, s) \<Rightarrow> Some (None, s)
      | Some (True, s) \<Rightarrow>
          (if is_position s + n > is_inputSize s then Some (None, s)
           else Some (Some (drop (unat (is_position s)) (the (is_input s))),
                      s\<lparr>is_position := is_position s + n\<rparr>)))"

definition is_getRemainingBufferSize ::
  "pression \<Rightarrow> ('a istream_scheme \<Rightarrow> 'a istream_scheme \<times> next_buffer option) \<Rightarrow>
   nat \<Rightarrow> 'a istream_scheme \<Rightarrow> (uint64 \<times> 'a istream_scheme) option" where
  "is_getRemainingBufferSize P next fuel s =
     (case is_checkBuffer P next fuel s of
        None \<Rightarrow> None
      | Some (False, s) \<Rightarrow> Some (0, s)
      | Some (True, s) \<Rightarrow> Some (is_inputSize s - is_position s, s))"

definition is_wasUsed :: "'a istream_scheme \<Rightarrow> bool" where
  "is_wasUsed s \<longleftrightarrow> is_input s \<noteq> None"

definition is_hasData ::
  "pression \<Rightarrow> ('a istream_scheme \<Rightarrow> 'a istream_scheme \<times> next_buffer option) \<Rightarrow>
   nat \<Rightarrow> 'a istream_scheme \<Rightarrow> (bool \<times> 'a istream_scheme) option" where
  "is_hasData P next fuel s = is_checkBuffer P next fuel s"

section \<open>What the base class relies on\<close>

text \<open>
  A buffer source is a \<open>getNextBuffer\<close> together with the number of buffers it still
  holds: every buffer it hands out makes that number smaller, and the read position is
  not its business.
\<close>

locale buffer_source =
  fixes getNextBuffer :: "'a istream_scheme \<Rightarrow> 'a istream_scheme \<times> next_buffer option"
    and nRemainingBuffers :: "'a istream_scheme \<Rightarrow> nat"
  assumes next_less:
      "getNextBuffer s = (s', Some b) \<Longrightarrow> nRemainingBuffers s' < nRemainingBuffers s"
    and remaining_frame [simp]:
      "nRemainingBuffers (s\<lparr>is_position := p, is_input := i, is_inputSize := n\<rparr>) =
       nRemainingBuffers s"
    and remaining_frame2 [simp]:
      "nRemainingBuffers (s\<lparr>is_inputSize := n, is_input := i\<rparr>) = nRemainingBuffers s"
begin

text \<open>The loop ends: the fuel of one more than the remaining buffers is enough.\<close>

lemma checkBuffer_terminates:
  "nRemainingBuffers s < fuel \<Longrightarrow> is_checkBuffer P getNextBuffer fuel s \<noteq> None"
proof (induction fuel arbitrary: s)
  case 0
  then show ?case by simp
next
  case (Suc fuel)
  let ?s0 = "s\<lparr>is_position := 0, is_input := None, is_inputSize := 0\<rparr>"
  show ?case
  proof (cases "getNextBuffer ?s0")
    case (Pair s1 r)
    show ?thesis
    proof (cases r)
      case None
      with Pair show ?thesis by (auto simp: is_checkBuffer.simps)
    next
      case (Some b)
      with Pair next_less have "nRemainingBuffers s1 < nRemainingBuffers s" by fastforce
      with Suc.prems have "nRemainingBuffers (s1\<lparr>is_inputSize := nb_size b,
          is_input := Some (is_decompress P (nb_data b) (nb_compressor b) (nb_nChunks b) (nb_size b))\<rparr>) < fuel"
        by simp
      with Pair Some show ?thesis
        using Suc.IH by (subst is_checkBuffer.simps) auto
    qed
  qed
qed

text \<open>A successful check leaves unread data; a failed one leaves an empty buffer.\<close>

lemma checkBuffer_True:
  "is_checkBuffer P getNextBuffer fuel s = Some (True, s') \<Longrightarrow> is_position s' < is_inputSize s'"
proof (induction fuel arbitrary: s)
  case 0
  then show ?case by (auto simp: is_checkBuffer.simps split: if_splits)
next
  case (Suc fuel)
  then show ?case
    by (subst (asm) (2) is_checkBuffer.simps)
       (auto split: if_splits option.splits prod.splits)
qed

lemma read_terminates:
  "nRemainingBuffers s < fuel \<Longrightarrow> is_read P getNextBuffer fuel s n \<noteq> None"
  using checkBuffer_terminates [of s fuel P]
  by (auto simp: is_read_def split: option.splits bool.splits)

end

section \<open>Chunk framing\<close>

text \<open>The sender's framing of compressed chunks is undone by \<^const>\<open>split_chunks\<close>.\<close>

definition frame_chunks :: "bytes list \<Rightarrow> bytes" where
  "frame_chunks cs = concat (map (\<lambda>c. le_bytes 8 (of_nat (length c) :: uint64) @ c) cs)"

lemma of_le_bytes64 [simp]: "of_le (le_bytes 8 w) = (w :: uint64)"
  by (rule of_le_bytes) simp

lemma split_frame_chunks:
  "\<forall>c \<in> set cs. length c < 2 ^ 64 \<Longrightarrow> split_chunks (length cs) (frame_chunks cs @ r) = cs"
  by (induction cs) (simp_all add: frame_chunks_def unat_of_nat Let_def)

end
