(* ===== verification/Object_Data_IStream.thy ===== *)
theory Object_Data_IStream
  imports Data_IStream
begin

text \<open>
  Input streams made of object data commands (\<^verbatim>\<open>src/co/objectDataIStream.cpp\<close>) and the
  queue that assembles them (\<^verbatim>\<open>src/co/dataIStreamQueue.cpp\<close>). A command is the parsed
  view of a received \<^verbatim>\<open>ObjectDataICommand\<close>; the theory of commands shows how that view is
  read from the bytes. Assertions (\<^verbatim>\<open>LBASSERT\<close>) are compiled out of the builds modelled
  here; where the code relies on one it is a lemma.
\<close>

section \<open>Object data commands\<close>

text \<open>\<^verbatim>\<open>ObjectCommand\<close> of \<^verbatim>\<open>src/co/objectCommand.h\<close>.\<close>

definition CMD_OBJECT_INSTANCE :: uint32 where "CMD_OBJECT_INSTANCE = 0"
definition CMD_OBJECT_DELTA :: uint32 where "CMD_OBJECT_DELTA = 1"
definition CMD_OBJECT_SLAVE_DELTA :: uint32 where "CMD_OBJECT_SLAVE_DELTA = 2"
definition CMD_OBJECT_MAX_VERSION :: uint32 where "CMD_OBJECT_MAX_VERSION = 3"

lemmas CMD_OBJECT_defs =
  CMD_OBJECT_INSTANCE_def CMD_OBJECT_DELTA_def CMD_OBJECT_SLAVE_DELTA_def CMD_OBJECT_MAX_VERSION_def

text \<open>
  What is read of a command: the fields of \<^verbatim>\<open>ICommand\<close>, \<^verbatim>\<open>ObjectICommand\<close> and
  \<^verbatim>\<open>ObjectDataICommand\<close>, and the bytes of the buffer that follow them.
\<close>

record odcommand =
  oc_valid :: bool
  oc_size :: uint64
  oc_type :: uint32
  oc_cmd :: uint32
  oc_objectID :: uint128
  oc_instanceID :: uint32
  oc_version :: uint128
  oc_datasize :: uint64
  oc_sequence :: uint32
  oc_isLast :: bool
  oc_compressor :: uint32
  oc_chunks :: uint32
  oc_rest :: bytes
  oc_remote :: NodeID
  oc_local :: NodeID
  oc_swapping :: bool

section \<open>ObjectDataIStream\<close>

record odistream = istream +
  od_commands :: "odcommand list"
  od_usedCommand :: "odcommand option"
  od_version :: uint128

definition od_reset_members :: "odistream \<Rightarrow> odistream" where
  "od_reset_members s =
     s\<lparr>od_usedCommand := None, od_commands := [], od_version := VERSION_INVALID\<rparr>"

definition od_new :: odistream where
  "od_new = od_reset_members
     \<lparr>is_input = None, is_inputSize = 0, is_position = 0, is_swap = False,
      od_commands = [], od_usedCommand = None, od_version = 0\<rparr>"

definition od_reset :: "odistream \<Rightarrow> odistream" where
  "od_reset s = od_reset_members (is_reset s)"

definition od_assign :: "odistream \<Rightarrow> odistream \<Rightarrow> odistream" where
  "od_assign this rhs =
     (is_assign this rhs)\<lparr>od_commands := od_commands rhs, od_version := od_version rhs\<rparr>"

text \<open>The copy constructor: fresh base state, no used command, then the assignment.\<close>

definition od_copy :: "odistream \<Rightarrow> odistream" where
  "od_copy rhs = od_assign
     \<lparr>is_input = None, is_inputSize = 0, is_position = 0, is_swap = is_swap rhs,
      od_commands = [], od_usedCommand = None, od_version = 0\<rparr> rhs"

definition od_isReady :: "odistream \<Rightarrow> bool" where
  "od_isReady s \<longleftrightarrow> od_version s \<noteq> VERSION_INVALID"

definition od_getPendingVersion :: "odistream \<Rightarrow> uint128" where
  "od_getPendingVersion s =
     (if od_commands s = [] then VERSION_INVALID else oc_version (last (od_commands s)))"

definition od_setReady :: "odistream \<Rightarrow> odistream" where
  "od_setReady s = s\<lparr>od_version := od_getPendingVersion s\<rparr>"

definition od_addDataCommand :: "odistream \<Rightarrow> odcommand \<Rightarrow> odistream" where
  "od_addDataCommand s command =
     (let s = s\<lparr>od_commands := od_commands s @ [command]\<rparr>
      in if oc_isLast command then od_setReady s else s)"

text \<open>The command that \<open>hasInstanceData\<close>, \<open>getRemoteNode\<close> and \<open>getLocalNode\<close> look at.\<close>

definition od_currentCommand :: "odistream \<Rightarrow> odcommand option" where
  "od_currentCommand s =
     (case od_usedCommand s of
        Some c \<Rightarrow> if oc_valid c then Some c
                 else (case od_commands s of [] \<Rightarrow> None | d # _ \<Rightarrow> Some d)
      | None \<Rightarrow> (case od_commands s of [] \<Rightarrow> None | d # _ \<Rightarrow> Some d))"

definition od_hasInstanceData :: "odistream \<Rightarrow> bool" where
  "od_hasInstanceData s =
     (case od_currentCommand s of
        None \<Rightarrow> False
      | Some c \<Rightarrow> oc_cmd c = CMD_OBJECT_INSTANCE)"

definition od_getRemoteNode :: "odistream \<Rightarrow> NodeID option" where
  "od_getRemoteNode s = map_option oc_remote (od_currentCommand s)"

definition od_getLocalNode :: "odistream \<Rightarrow> NodeID option" where
  "od_getLocalNode s = map_option oc_local (od_currentCommand s)"

definition od_getDataSize :: "odistream \<Rightarrow> uint64" where
  "od_getDataSize s = sum_list (map oc_size (od_commands s))"

definition od_nRemainingBuffers :: "odistream \<Rightarrow> nat" where
  "od_nRemainingBuffers s = length (od_commands s)"

text \<open>
  \<open>getNextBuffer\<close> skips empty commands by calling itself: the remaining commands, the used
  command, and the command whose data is handed out.
\<close>

fun od_nextCommand :: "odcommand list \<Rightarrow> odcommand list \<times> odcommand option \<times> odcommand option" where
  "od_nextCommand [] = ([], None, None)"
| "od_nextCommand (c # cs) =
     (if \<not> oc_valid c then (cs, Some c, None)
      else if oc_datasize c = 0 then od_nextCommand cs
      else (cs, Some c, Some c))"

text \<open>The bytes after the header fields that depend on the command.\<close>

definition od_chunkData :: "odcommand \<Rightarrow> bytes" where
  "od_chunkData c =
     (if oc_cmd c = CMD_OBJECT_INSTANCE then drop 20 (oc_rest c)
      else if oc_cmd c = CMD_OBJECT_SLAVE_DELTA then drop 16 (oc_rest c)
      else oc_rest c)"

definition od_getNextBuffer :: "odistream \<Rightarrow> odistream \<times> next_buffer option" where
  "od_getNextBuffer s =
     (case od_nextCommand (od_commands s) of
        (cs, used, result) \<Rightarrow>
          (let s = s\<lparr>od_commands := cs, od_usedCommand := used\<rparr>
           in case result of
                None \<Rightarrow> (s, None)
              | Some c \<Rightarrow>
                  (is_setSwapping s (oc_swapping c),
                   Some \<lparr>nb_compressor = oc_compressor c, nb_nChunks = oc_chunks c,
                         nb_data = od_chunkData c, nb_size = oc_datasize c\<rparr>)))"

section \<open>Facts about streams\<close>

lemmas od_defs =
  od_reset_members_def od_new_def od_reset_def od_assign_def od_copy_def od_isReady_def
  od_getPendingVersion_def od_setReady_def od_addDataCommand_def od_getDataSize_def
  is_reset_def is_assign_def is_setSwapping_def is_isSwapping_def

lemma od_nextCommand_length:
  "od_nextCommand cs = (cs', u, Some c) \<Longrightarrow> length cs' < length cs"
  by (induction cs rule: od_nextCommand.induct) (auto split: if_splits)

interpretation od: buffer_source od_getNextBuffer od_nRemainingBuffers
  by unfold_locales
     (auto simp: od_getNextBuffer_def od_nRemainingBuffers_def Let_def is_setSwapping_def
       dest: od_nextCommand_length split: prod.splits option.splits)

lemma od_new_simps [simp]:
  "od_commands od_new = []" "od_version od_new = VERSION_INVALID" "\<not> od_isReady od_new"
  "od_usedCommand od_new = None" "is_position od_new = 0" "is_inputSize od_new = 0"
  by (simp_all add: od_defs)

lemma od_addDataCommand_commands [simp]:
  "od_commands (od_addDataCommand s c) = od_commands s @ [c]"
  by (simp add: od_defs Let_def)

lemma od_addDataCommand_version:
  "od_version (od_addDataCommand s c) = (if oc_isLast c then oc_version c else od_version s)"
  by (simp add: od_defs Let_def)

lemma od_addDataCommand_pending [simp]:
  "od_getPendingVersion (od_addDataCommand s c) = oc_version c"
  by (simp add: od_defs Let_def)

lemma od_addDataCommand_isReady:
  "oc_version c \<noteq> VERSION_INVALID \<Longrightarrow>
   od_isReady (od_addDataCommand s c) \<longleftrightarrow> oc_isLast c \<or> od_isReady s"
  by (simp add: od_isReady_def od_addDataCommand_version)

lemma od_copy_simps [simp]:
  "od_commands (od_copy s) = od_commands s" "od_version (od_copy s) = od_version s"
  "od_usedCommand (od_copy s) = None" "is_swap (od_copy s) = is_swap s"
  by (simp_all add: od_defs)

section \<open>DataIStreamQueue\<close>

text \<open>
  \<^verbatim>\<open>_pending\<close> is a hash map, \<^verbatim>\<open>_queued\<close> a thread-safe FIFO; streams are values, since a
  stream is owned by exactly one of them.
\<close>

record data_istream_queue =
  dq_pending :: "(uint128 \<times> odistream) list"
  dq_queued :: "(uint128 \<times> odistream) list"

definition dq_new :: data_istream_queue where
  "dq_new = \<lparr>dq_pending = [], dq_queued = []\<rparr>"

definition dq_tryPop :: "data_istream_queue \<Rightarrow> odistream option \<times> data_istream_queue" where
  "dq_tryPop q =
     (case dq_queued q of
        [] \<Rightarrow> (None, q)
      | (k, is) # rest \<Rightarrow> (Some is, q\<lparr>dq_queued := rest\<rparr>))"

text \<open>\<open>pop\<close> blocks on an empty queue: \<^term>\<open>None\<close> as the whole result.\<close>

definition dq_pop :: "data_istream_queue \<Rightarrow> (odistream \<times> data_istream_queue) option" where
  "dq_pop q =
     (case dq_queued q of
        [] \<Rightarrow> None
      | (k, is) # rest \<Rightarrow> Some (is, q\<lparr>dq_queued := rest\<rparr>))"

text \<open>
  \<open>pull\<close> pops until the key is found, keeping the rejected candidates, and pushes them back
  to the front. With the key absent it blocks: \<^term>\<open>None\<close>.
\<close>

fun dq_pull_loop ::
  "uint128 \<Rightarrow> (uint128 \<times> odistream) list \<Rightarrow> (uint128 \<times> odistream) list \<Rightarrow>
   (odistream \<times> (uint128 \<times> odistream) list \<times> (uint128 \<times> odistream) list) option" where
  "dq_pull_loop key [] unusedStreams = None"
| "dq_pull_loop key (candidate # queued) unusedStreams =
     (if fst candidate = key then Some (snd candidate, unusedStreams, queued)
      else dq_pull_loop key queued (unusedStreams @ [candidate]))"

definition dq_pull :: "data_istream_queue \<Rightarrow> uint128 \<Rightarrow> (odistream \<times> data_istream_queue) option" where
  "dq_pull q key =
     (case dq_pull_loop key (dq_queued q) [] of
        None \<Rightarrow> None
      | Some (is, unusedStreams, queued) \<Rightarrow> Some (is, q\<lparr>dq_queued := unusedStreams @ queued\<rparr>))"

definition dq_addDataCommand ::
  "data_istream_queue \<Rightarrow> uint128 \<Rightarrow> odcommand \<Rightarrow> bool \<times> data_istream_queue" where
  "dq_addDataCommand q key command =
     (let i = map_of (dq_pending q) key;
          istream = od_addDataCommand (case i of None \<Rightarrow> od_new | Some is \<Rightarrow> is) command
      in if od_isReady istream then
           (True, q\<lparr>dq_pending := AList.delete key (dq_pending q),
                    dq_queued := dq_queued q @ [(key, istream)]\<rparr>)
         else (False, q\<lparr>dq_pending := AList.update key istream (dq_pending q)\<rparr>))"

lemma dq_pull_loop_Some:
  "dq_pull_loop key queued u0 = Some (is, u, r) \<Longrightarrow>
   \<exists>v. u = u0 @ v \<and> queued = v @ (key, is) # r \<and> key \<notin> fst ` set v"
proof (induction queued arbitrary: u0)
  case Nil
  then show ?case by simp
next
  case (Cons c cs)
  show ?case
  proof (cases "fst c = key")
    case True
    with Cons.prems show ?thesis by (cases c) auto
  next
    case False
    with Cons.prems have "dq_pull_loop key cs (u0 @ [c]) = Some (is, u, r)" by simp
    from Cons.IH [OF this] obtain v where
      "u = u0 @ [c] @ v" "cs = v @ (key, is) # r" "key \<notin> fst ` set v" by auto
    with False show ?thesis by (intro exI [of _ "c # v"]) auto
  qed
qed

lemma dq_pull_loop_None: "dq_pull_loop key queued u = None \<longleftrightarrow> key \<notin> fst ` set queued"
  by (induction queued arbitrary: u) auto

end
