(* ===== verification/Instance_Cache.thy ===== *)
theory Instance_Cache
  imports Object_Data_IStream
begin

text \<open>
  The cache of object instance data, \<^verbatim>\<open>src/co/instanceCache.cpp\<close>. The hash map of items
  is an association list with distinct keys; the order in which the code iterates over it
  is not determined by the sources and is the argument \<open>order\<close> of the operations that
  iterate. The clock is the argument \<open>now\<close>, and the high-water mark
  \<^verbatim>\<open>uint64_t( float( _maxSize ) * 0.8f )\<close>, computed in floating point, is the argument
  \<open>target\<close>.
\<close>

section \<open>State\<close>

record ic_item =
  it_masterInstanceID :: uint32
  it_versions :: "odistream list"
  it_used :: uint32
  it_access :: uint32
  it_from :: NodeID
  it_times :: "int list"

record instance_cache =
  ic_items :: "(uint128 \<times> ic_item) list"
  ic_maxSize :: uint64
  ic_size :: uint64

definition ic_new :: "uint64 \<Rightarrow> instance_cache" where
  "ic_new maxSize = \<lparr>ic_items = [], ic_maxSize = maxSize, ic_size = 0\<rparr>"

definition it_new :: ic_item where
  "it_new = \<lparr>it_masterInstanceID = CO_INSTANCE_INVALID, it_versions = [], it_used = 0,
             it_access = 0, it_from = 0, it_times = []\<rparr>"

abbreviation ic_get :: "instance_cache \<Rightarrow> uint128 \<Rightarrow> ic_item option" where
  "ic_get c k \<equiv> map_of (ic_items c) k"

definition ic_put :: "instance_cache \<Rightarrow> uint128 \<Rightarrow> ic_item \<times> uint64 \<Rightarrow> instance_cache" where
  "ic_put c k r = c\<lparr>ic_items := AList.update k (fst r) (ic_items c), ic_size := snd r\<rparr>"

definition ic_remove_key :: "instance_cache \<Rightarrow> uint128 \<Rightarrow> instance_cache" where
  "ic_remove_key c k = c\<lparr>ic_items := AList.delete k (ic_items c)\<rparr>"

section \<open>Releasing streams\<close>

definition ic_deleteStream :: "uint64 \<Rightarrow> odistream \<Rightarrow> uint64" where
  "ic_deleteStream sz stream = sz - od_getDataSize stream"

definition ic_releaseFirstStream :: "ic_item \<times> uint64 \<Rightarrow> ic_item \<times> uint64" where
  "ic_releaseFirstStream r =
     (case r of (item, sz) \<Rightarrow>
       (case it_versions item of
          [] \<Rightarrow> (item, sz)
        | stream # rest \<Rightarrow>
            (item\<lparr>it_versions := rest, it_times := tl (it_times item)\<rparr>, ic_deleteStream sz stream)))"

text \<open>\<^verbatim>\<open>_releaseStreams( item )\<close> deletes from the back until the deque is empty.\<close>

definition ic_releaseStreams :: "ic_item \<times> uint64 \<Rightarrow> ic_item \<times> uint64" where
  "ic_releaseStreams r =
     (case r of (item, sz) \<Rightarrow>
       (item\<lparr>it_versions := [], it_times := []\<rparr>,
        fold (\<lambda>stream sz. ic_deleteStream sz stream) (rev (it_versions item)) sz))"

text \<open>\<^verbatim>\<open>_releaseStreams( item, minTime )\<close> deletes old, complete streams from the front.\<close>

fun ic_releaseOld ::
  "int \<Rightarrow> odistream list \<Rightarrow> int list \<Rightarrow> uint64 \<Rightarrow> odistream list \<times> int list \<times> uint64" where
  "ic_releaseOld minTime (v # vs) (t # ts) sz =
     (if t \<le> minTime \<and> od_isReady v then ic_releaseOld minTime vs ts (ic_deleteStream sz v)
      else (v # vs, t # ts, sz))"
| "ic_releaseOld minTime vs ts sz = (vs, ts, sz)"

definition ic_releaseStreams_before :: "int \<Rightarrow> ic_item \<times> uint64 \<Rightarrow> ic_item \<times> uint64" where
  "ic_releaseStreams_before minTime r =
     (case r of (item, sz) \<Rightarrow>
       (case ic_releaseOld minTime (it_versions item) (it_times item) sz of
          (vs, ts, sz) \<Rightarrow> (item\<lparr>it_versions := vs, it_times := ts\<rparr>, sz)))"

section \<open>Evicting items\<close>

definition ic_evictable :: "uint32 \<Rightarrow> ic_item \<Rightarrow> bool" where
  "ic_evictable minUsage item \<longleftrightarrow> it_access item = 0 \<and> it_used item \<ge> minUsage"

text \<open>The first loop: the first stream of every evictable item, until below the target.\<close>

fun ic_releaseFirstPass ::
  "uint64 \<Rightarrow> uint32 \<Rightarrow> uint128 list \<Rightarrow> instance_cache \<times> uint128 list \<times> bool \<Rightarrow>
   instance_cache \<times> uint128 list \<times> bool" where
  "ic_releaseFirstPass target minUsage [] st = st"
| "ic_releaseFirstPass target minUsage (i # is) (c, keys, streamsLeft) =
     (if \<not> ic_size c > target then (c, keys, streamsLeft)
      else case ic_get c i of
        None \<Rightarrow> ic_releaseFirstPass target minUsage is (c, keys, streamsLeft)
      | Some item \<Rightarrow>
          if ic_evictable minUsage item then
            (let r = ic_releaseFirstStream (item, ic_size c)
             in ic_releaseFirstPass target minUsage is
                  (ic_put c i r, keys @ [i], streamsLeft \<or> it_versions (fst r) \<noteq> []))
          else ic_releaseFirstPass target minUsage is (c, keys, streamsLeft))"

text \<open>One round of the second loop: the next stream of every item of \<open>keys\<close>.\<close>

fun ic_releaseNextPass ::
  "uint64 \<Rightarrow> uint32 \<Rightarrow> uint128 list \<Rightarrow> instance_cache \<times> bool \<Rightarrow> instance_cache \<times> bool" where
  "ic_releaseNextPass target minUsage [] st = st"
| "ic_releaseNextPass target minUsage (i # is) (c, streamsLeft) =
     (if \<not> ic_size c > target then (c, streamsLeft)
      else case ic_get c i of
        None \<Rightarrow> ic_releaseNextPass target minUsage is (c, streamsLeft)
      | Some item \<Rightarrow>
          if it_versions item \<noteq> [] \<and> ic_evictable minUsage item then
            (let r = ic_releaseFirstStream (item, ic_size c)
             in ic_releaseNextPass target minUsage is
                  (ic_put c i r, streamsLeft \<or> it_versions (fst r) \<noteq> []))
          else ic_releaseNextPass target minUsage is (c, streamsLeft))"

definition ic_nStreams :: "instance_cache \<Rightarrow> nat" where
  "ic_nStreams c = sum_list (map (\<lambda>(k, item). length (it_versions item)) (ic_items c))"

lemma nStreams_put_release:
  assumes "ic_get c k = Some item" and "it_versions item \<noteq> []"
  shows "ic_nStreams (ic_put c k (ic_releaseFirstStream (item, sz))) < ic_nStreams c"
proof -
  obtain v vs where vs: "it_versions item = v # vs" using assms(2) by (cases "it_versions item") auto
  have "map_of al k = Some item \<Longrightarrow>
      sum_list (map (\<lambda>(k, item). length (it_versions item)) (AList.update k (item\<lparr>it_versions := vs, it_times := ts\<rparr>) al))
      < sum_list (map (\<lambda>(k, item). length (it_versions item)) al)" for al ts
    by (induction al) (auto simp: vs split: if_splits)
  then show ?thesis
    using assms(1) by (simp add: ic_nStreams_def ic_put_def ic_releaseFirstStream_def vs)
qed

lemma releaseNextPass_nStreams:
  "ic_nStreams (fst (ic_releaseNextPass target minUsage is (c, left))) \<le> ic_nStreams c \<and>
   (snd (ic_releaseNextPass target minUsage is (c, left)) \<and> \<not> left \<longrightarrow>
    ic_nStreams (fst (ic_releaseNextPass target minUsage is (c, left))) < ic_nStreams c)"
proof (induction "is" arbitrary: c left)
  case Nil
  then show ?case by simp
next
  case (Cons i "is")
  show ?case
  proof (cases "ic_get c i")
    case None
    with Cons show ?thesis by simp
  next
    case (Some item)
    let ?r = "ic_releaseFirstStream (item, ic_size c)"
    note IH = Cons.IH [of "ic_put c i ?r" "left \<or> it_versions (fst ?r) \<noteq> []"]
    have less: "it_versions item \<noteq> [] \<Longrightarrow> ic_nStreams (ic_put c i ?r) < ic_nStreams c"
      by (rule nStreams_put_release [OF Some])
    show ?thesis
      using IH less Cons.IH [of c left] by (auto simp: Some Let_def)
  qed
qed

lemma releaseNextPass_measure:
  "(case ic_releaseNextPass target minUsage keys (c, False) of
      (c, left) \<Rightarrow> 2 * ic_nStreams c + of_bool left) < Suc (2 * ic_nStreams c)"
  using releaseNextPass_nStreams [of target minUsage keys c False]
  by (cases "ic_releaseNextPass target minUsage keys (c, False)") auto

function ic_releaseRest ::
  "uint64 \<Rightarrow> uint32 \<Rightarrow> uint128 list \<Rightarrow> instance_cache \<Rightarrow> bool \<Rightarrow> instance_cache" where
  "ic_releaseRest target minUsage keys c streamsLeft =
     (if streamsLeft \<and> ic_size c > target then
        (case ic_releaseNextPass target minUsage keys (c, False) of
           (c, streamsLeft) \<Rightarrow> ic_releaseRest target minUsage keys c streamsLeft)
      else c)"
  by pat_completeness auto
termination
  by (relation "measure (\<lambda>(target, minUsage, keys, c, left). 2 * ic_nStreams c + of_bool left)")
     (auto simp: releaseNextPass_measure)

declare ic_releaseRest.simps [simp del]

text \<open>The last loop erases the items of \<open>keys\<close> that have no stream left.\<close>

fun ic_eraseEmpty :: "uint128 list \<Rightarrow> instance_cache \<Rightarrow> instance_cache" where
  "ic_eraseEmpty [] c = c"
| "ic_eraseEmpty (i # is) c =
     (case ic_get c i of
        None \<Rightarrow> ic_eraseEmpty is c
      | Some item \<Rightarrow>
          ic_eraseEmpty is (if it_versions item = [] then ic_remove_key c i else c))"

definition ic_releaseItems ::
  "uint64 \<Rightarrow> uint128 list \<Rightarrow> uint32 \<Rightarrow> instance_cache \<Rightarrow> instance_cache" where
  "ic_releaseItems target order minUsage c =
     (if ic_size c \<le> ic_maxSize c then c
      else case ic_releaseFirstPass target minUsage order (c, [], False) of
        (c, keys, streamsLeft) \<Rightarrow>
          ic_eraseEmpty keys (ic_releaseRest target minUsage keys c streamsLeft))"

section \<open>Public operations\<close>

text \<open>
  The two decisions of \<open>add\<close>: what to do with an item of another master mapping, and which
  stream takes the command. \<^term>\<open>None\<close>, or a first component \<^term>\<open>False\<close>, is the early
  \<^verbatim>\<open>return false\<close>.
\<close>

definition ic_add_master ::
  "uint32 \<Rightarrow> NodeID \<Rightarrow> uint32 \<Rightarrow> ic_item \<times> uint64 \<Rightarrow> (ic_item \<times> uint64) option" where
  "ic_add_master instanceID nodeID usage r =
     (case r of (item, sz) \<Rightarrow>
       if it_masterInstanceID item \<noteq> instanceID \<or> it_from item \<noteq> nodeID then
         (if it_access item \<noteq> 0 then None
          else case ic_releaseStreams (item, sz) of
            (item, sz) \<Rightarrow>
              Some (item\<lparr>it_masterInstanceID := instanceID, it_from := nodeID, it_used := usage\<rparr>, sz))
       else Some (item\<lparr>it_used := max (it_used item) usage\<rparr>, sz))"

definition it_newStream :: "int \<Rightarrow> ic_item \<Rightarrow> ic_item" where
  "it_newStream now item =
     item\<lparr>it_versions := it_versions item @ [od_new], it_times := it_times item @ [now]\<rparr>"

definition ic_add_stream ::
  "int \<Rightarrow> uint128 \<Rightarrow> ic_item \<times> uint64 \<Rightarrow> bool \<times> ic_item \<times> uint64" where
  "ic_add_stream now version r =
     (case r of (item, sz) \<Rightarrow>
       if it_versions item = [] then (True, it_newStream now item, sz)
       else (let previous = last (it_versions item);
                 previousVersion = od_getPendingVersion previous
             in if previousVersion = version then (\<not> od_isReady previous, item, sz)
                else if previousVersion > version then (False, item, sz)
                else if previousVersion + 1 \<noteq> version then
                  (if it_access item \<noteq> 0 then (False, item, sz)
                   else case ic_releaseStreams (item, sz) of
                     (item, sz) \<Rightarrow> (True, it_newStream now item, sz))
                else (True, it_newStream now item, sz)))"

text \<open>The command goes to the last stream; a completed stream is counted.\<close>

definition ic_append :: "odcommand \<Rightarrow> ic_item \<times> uint64 \<Rightarrow> ic_item \<times> uint64" where
  "ic_append command r =
     (case r of (item, sz) \<Rightarrow>
       (let stream = od_addDataCommand (last (it_versions item)) command
        in (item\<lparr>it_versions := butlast (it_versions item) @ [stream]\<rparr>,
            if od_isReady stream then sz + od_getDataSize stream else sz)))"

definition ic_add ::
  "uint64 \<Rightarrow> uint128 list \<Rightarrow> uint128 list \<Rightarrow> int \<Rightarrow> object_version \<Rightarrow> uint32 \<Rightarrow> odcommand \<Rightarrow>
   uint32 \<Rightarrow> instance_cache \<Rightarrow> bool \<times> instance_cache" where
  "ic_add target order1 order0 now rv instanceID command usage c =
     (let nodeID = oc_remote command;
          k = ov_identifier rv;
          c = (case ic_get c k of
                 None \<Rightarrow> ic_put c k
                   (it_new\<lparr>it_masterInstanceID := instanceID, it_from := nodeID\<rparr>, ic_size c)
               | Some _ \<Rightarrow> c)
      in case ic_add_master instanceID nodeID usage (the (ic_get c k), ic_size c) of
           None \<Rightarrow> (False, c)
         | Some r \<Rightarrow>
             (case ic_add_stream now (ov_version rv) r of
                (False, r) \<Rightarrow> (False, ic_put c k r)
              | (True, r) \<Rightarrow>
                  (True, ic_releaseItems target order0 0
                           (ic_releaseItems target order1 1 (ic_put c k (ic_append command r))))))"

fun ic_remove_loop ::
  "NodeID \<Rightarrow> uint128 list \<Rightarrow> instance_cache \<times> uint128 list \<Rightarrow> instance_cache \<times> uint128 list" where
  "ic_remove_loop nodeID [] st = st"
| "ic_remove_loop nodeID (i # is) (c, keys) =
     (case ic_get c i of
        None \<Rightarrow> ic_remove_loop nodeID is (c, keys)
      | Some item \<Rightarrow>
          if it_from item \<noteq> nodeID then ic_remove_loop nodeID is (c, keys)
          else if it_access item \<noteq> 0 then ic_remove_loop nodeID is (c, keys)
          else ic_remove_loop nodeID is
                 (ic_put c i (ic_releaseStreams (item, ic_size c)), keys @ [i]))"

definition ic_erase_keys :: "instance_cache \<times> uint128 list \<Rightarrow> instance_cache" where
  "ic_erase_keys st = (case st of (c, keys) \<Rightarrow> fold (\<lambda>k c. ic_remove_key c k) keys c)"

definition ic_remove :: "uint128 list \<Rightarrow> NodeID \<Rightarrow> instance_cache \<Rightarrow> instance_cache" where
  "ic_remove order nodeID c = ic_erase_keys (ic_remove_loop nodeID order (c, []))"

text \<open>\<^verbatim>\<open>operator[]\<close>: the cached data, or \<^term>\<open>None\<close> for \<^verbatim>\<open>Data::NONE\<close>, and the pinned cache.\<close>

definition ic_lookup ::
  "uint128 \<Rightarrow> instance_cache \<Rightarrow> (uint32 \<times> odistream list) option \<times> instance_cache" where
  "ic_lookup k c =
     (case ic_get c k of
        None \<Rightarrow> (None, c)
      | Some item \<Rightarrow>
          (Some (it_masterInstanceID item, it_versions item),
           ic_put c k (item\<lparr>it_access := it_access item + 1, it_used := it_used item + 1\<rparr>, ic_size c)))"

definition ic_release ::
  "uint64 \<Rightarrow> uint128 list \<Rightarrow> uint128 \<Rightarrow> uint32 \<Rightarrow> instance_cache \<Rightarrow> bool \<times> instance_cache" where
  "ic_release target order k count c =
     (case ic_get c k of
        None \<Rightarrow> (False, c)
      | Some item \<Rightarrow>
          (True, ic_releaseItems target order 1
                   (ic_put c k (item\<lparr>it_access := it_access item - count\<rparr>, ic_size c))))"

definition ic_erase :: "uint128 \<Rightarrow> instance_cache \<Rightarrow> bool \<times> instance_cache" where
  "ic_erase k c =
     (case ic_get c k of
        None \<Rightarrow> (False, c)
      | Some item \<Rightarrow>
          if it_access item \<noteq> 0 then (False, c)
          else (True, ic_remove_key (ic_put c k (ic_releaseStreams (item, ic_size c))) k))"

fun ic_expire_loop ::
  "int \<Rightarrow> uint128 list \<Rightarrow> instance_cache \<times> uint128 list \<Rightarrow> instance_cache \<times> uint128 list" where
  "ic_expire_loop time [] st = st"
| "ic_expire_loop time (i # is) (c, keys) =
     (case ic_get c i of
        None \<Rightarrow> ic_expire_loop time is (c, keys)
      | Some item \<Rightarrow>
          if it_access item \<noteq> 0 then ic_expire_loop time is (c, keys)
          else (let r = ic_releaseStreams_before time (item, ic_size c)
                in ic_expire_loop time is
                     (ic_put c i r, if it_versions (fst r) = [] then keys @ [i] else keys)))"

definition ic_expire :: "uint128 list \<Rightarrow> int \<Rightarrow> int \<Rightarrow> instance_cache \<Rightarrow> instance_cache" where
  "ic_expire order now timeout c =
     (let time = now - timeout
      in if time \<le> 0 then c else ic_erase_keys (ic_expire_loop time order (c, [])))"

section \<open>Invariants\<close>

text \<open>
  Cached versions of one object follow each other without a gap, every stream has at least
  one command, and every stream has its time stamp.
\<close>

definition it_ok :: "ic_item \<Rightarrow> bool" where
  "it_ok item \<longleftrightarrow>
     length (it_times item) = length (it_versions item) \<and>
     (\<forall>s \<in> set (it_versions item). od_commands s \<noteq> []) \<and>
     consecutive (map od_getPendingVersion (it_versions item))"

definition ic_wf :: "instance_cache \<Rightarrow> bool" where
  "ic_wf c \<longleftrightarrow> distinct (map fst (ic_items c)) \<and> (\<forall>(k, item) \<in> set (ic_items c). it_ok item)"

definition ic_inv :: "instance_cache \<Rightarrow> bool" where
  "ic_inv c \<longleftrightarrow> ic_wf c \<and> (\<forall>(k, item) \<in> set (ic_items c). it_versions item \<noteq> [])"

text \<open>The bytes held by the cache, and that it holds complete streams only.\<close>

definition it_bytes :: "ic_item \<Rightarrow> uint64" where
  "it_bytes item = sum_list (map od_getDataSize (it_versions item))"

definition ic_bytes :: "instance_cache \<Rightarrow> uint64" where
  "ic_bytes c = sum_list (map (\<lambda>(k, item). it_bytes item) (ic_items c))"

definition ic_complete :: "instance_cache \<Rightarrow> bool" where
  "ic_complete c \<longleftrightarrow> (\<forall>(k, item) \<in> set (ic_items c). \<forall>s \<in> set (it_versions item). od_isReady s)"

definition ic_accounted :: "instance_cache \<Rightarrow> bool" where
  "ic_accounted c \<longleftrightarrow> ic_wf c \<and> ic_complete c \<and> ic_size c = ic_bytes c"

section \<open>Frame and preservation lemmas\<close>

lemma ic_put_simps [simp]:
  "ic_size (ic_put c k r) = snd r" "ic_maxSize (ic_put c k r) = ic_maxSize c"
  "ic_items (ic_put c k r) = AList.update k (fst r) (ic_items c)"
  by (simp_all add: ic_put_def)

lemma ic_remove_key_simps [simp]:
  "ic_size (ic_remove_key c k) = ic_size c" "ic_maxSize (ic_remove_key c k) = ic_maxSize c"
  "ic_items (ic_remove_key c k) = AList.delete k (ic_items c)"
  by (simp_all add: ic_remove_key_def)

lemma ic_releaseFirstStream_fields:
  "it_versions (fst (ic_releaseFirstStream (item, sz))) = tl (it_versions item)"
  "it_access (fst (ic_releaseFirstStream (item, sz))) = it_access item"
  "it_used (fst (ic_releaseFirstStream (item, sz))) = it_used item"
  "it_from (fst (ic_releaseFirstStream (item, sz))) = it_from item"
  by (cases "it_versions item"; simp add: ic_releaseFirstStream_def)+

lemma it_ok_releaseFirst: "it_ok item \<Longrightarrow> it_ok (fst (ic_releaseFirstStream (item, sz)))"
  by (cases "it_versions item")
     (auto simp: it_ok_def ic_releaseFirstStream_def dest: consecutive_tl)

lemma it_ok_releaseStreams: "it_ok (fst (ic_releaseStreams (item, sz)))"
  by (simp add: it_ok_def ic_releaseStreams_def)

lemma it_ok_releaseOld:
  assumes "length ts = length vs" "\<forall>s \<in> set vs. od_commands s \<noteq> []"
    "consecutive (map od_getPendingVersion vs)"
    "ic_releaseOld t vs ts sz = (vs', ts', sz')"
  shows "length ts' = length vs' \<and> (\<forall>s \<in> set vs'. od_commands s \<noteq> []) \<and>
    consecutive (map od_getPendingVersion vs')"
  using assms
proof (induction t vs ts sz rule: ic_releaseOld.induct)
  case (1 t v vs u us sz)
  from consecutive_tl [OF "1.prems"(3)] have "consecutive (map od_getPendingVersion vs)" by simp
  with 1 show ?case by (auto split: if_splits)
qed auto

lemma it_ok_releaseBefore: "it_ok item \<Longrightarrow> it_ok (fst (ic_releaseStreams_before t (item, sz)))"
proof -
  assume ok: "it_ok item"
  obtain vs ts sz' where r: "ic_releaseOld t (it_versions item) (it_times item) sz = (vs, ts, sz')"
    by (metis prod_cases3)
  from it_ok_releaseOld [OF _ _ _ r] ok show ?thesis
    by (simp add: it_ok_def ic_releaseStreams_before_def r)
qed

lemma ic_wf_put: "ic_wf c \<Longrightarrow> it_ok (fst r) \<Longrightarrow> ic_wf (ic_put c k r)"
  by (auto simp: ic_wf_def distinct_update dest!: mem_update_D)

lemma ic_wf_remove_key: "ic_wf c \<Longrightarrow> ic_wf (ic_remove_key c k)"
  by (auto simp: ic_wf_def distinct_delete dest: mem_delete_D)

lemma ic_wf_get: "ic_wf c \<Longrightarrow> ic_get c k = Some item \<Longrightarrow> it_ok item"
  by (auto simp: ic_wf_def dest: map_of_SomeD)

text \<open>Rules for the eviction loops: what one release and one erasure keep is kept by all.\<close>

lemma releaseFirstPass_rule:
  assumes put: "\<And>c i item. Q c \<Longrightarrow> ic_get c i = Some item \<Longrightarrow> ic_evictable minUsage item \<Longrightarrow>
      Q (ic_put c i (ic_releaseFirstStream (item, ic_size c)))"
    and "Q c"
  shows "Q (fst (ic_releaseFirstPass target minUsage is (c, keys, left)))"
  using assms(2)
  by (induction "is" arbitrary: c keys left) (auto simp: Let_def put split: option.splits)

lemma releaseNextPass_rule:
  assumes put: "\<And>c i item. i \<in> set keys \<Longrightarrow> Q c \<Longrightarrow> ic_get c i = Some item \<Longrightarrow>
      ic_evictable minUsage item \<Longrightarrow> Q (ic_put c i (ic_releaseFirstStream (item, ic_size c)))"
    and "set is \<subseteq> set keys" and "Q c"
  shows "Q (fst (ic_releaseNextPass target minUsage is (c, left)))"
  using assms(2,3)
  by (induction "is" arbitrary: c left) (auto simp: Let_def put split: option.splits)

lemma releaseRest_rule:
  assumes put: "\<And>c i item. i \<in> set keys \<Longrightarrow> Q c \<Longrightarrow> ic_get c i = Some item \<Longrightarrow>
      ic_evictable minUsage item \<Longrightarrow> Q (ic_put c i (ic_releaseFirstStream (item, ic_size c)))"
    and "Q c"
  shows "Q (ic_releaseRest target minUsage keys c left)"
  using assms
proof (induction target minUsage keys c left rule: ic_releaseRest.induct)
  case (1 target minUsage keys c left)
  show ?case
  proof (cases "left \<and> ic_size c > target")
    case False
    with "1.prems"(2) show ?thesis by (subst ic_releaseRest.simps) auto
  next
    case True
    obtain c' left' where pass: "ic_releaseNextPass target minUsage keys (c, False) = (c', left')"
      by fastforce
    have "Q (fst (ic_releaseNextPass target minUsage keys (c, False)))"
      using "1.prems"(1) subset_refl "1.prems"(2) by (rule releaseNextPass_rule [where Q = Q])
    then have "Q c'" by (simp add: pass)
    have "Q (ic_releaseRest target minUsage keys c' left')"
      using True pass [symmetric] "1.prems"(1) \<open>Q c'\<close> by (rule "1.IH")
    with True pass show ?thesis by (subst ic_releaseRest.simps) simp
  qed
qed

lemma eraseEmpty_rule:
  assumes del: "\<And>c i item. Q c \<Longrightarrow> ic_get c i = Some item \<Longrightarrow> it_versions item = [] \<Longrightarrow>
      Q (ic_remove_key c i)"
    and "Q c"
  shows "Q (ic_eraseEmpty keys c)"
  using assms(2) by (induction keys arbitrary: c) (auto simp: del split: option.splits)

lemma releaseItems_rule:
  assumes put: "\<And>c i item. Q c \<Longrightarrow> ic_get c i = Some item \<Longrightarrow> ic_evictable minUsage item \<Longrightarrow>
      Q (ic_put c i (ic_releaseFirstStream (item, ic_size c)))"
    and del: "\<And>c i item. Q c \<Longrightarrow> ic_get c i = Some item \<Longrightarrow> it_versions item = [] \<Longrightarrow>
      Q (ic_remove_key c i)"
    and "Q c"
  shows "Q (ic_releaseItems target order minUsage c)"
proof -
  obtain c' keys left where
    pass: "ic_releaseFirstPass target minUsage order (c, [], False) = (c', keys, left)"
    by (metis prod_cases3)
  have "Q (fst (ic_releaseFirstPass target minUsage order (c, [], False)))"
    using put \<open>Q c\<close> by (rule releaseFirstPass_rule [where Q = Q])
  then have "Q c'" by (simp add: pass)
  then have "Q (ic_releaseRest target minUsage keys c' left)"
    by (rule releaseRest_rule [where Q = Q, rotated]) (rule put)
  then have "Q (ic_eraseEmpty keys (ic_releaseRest target minUsage keys c' left))"
    by (rule eraseEmpty_rule [where Q = Q, rotated]) (rule del)
  with pass \<open>Q c\<close> show ?thesis by (simp add: ic_releaseItems_def)
qed

lemma ic_wf_releaseItems: "ic_wf c \<Longrightarrow> ic_wf (ic_releaseItems target order minUsage c)"
  by (rule releaseItems_rule [where Q = ic_wf]) (auto intro: ic_wf_put ic_wf_remove_key it_ok_releaseFirst ic_wf_get)

text \<open>The keys collected by the first pass include every item it emptied.\<close>

definition ic_empties :: "instance_cache \<Rightarrow> uint128 list \<Rightarrow> bool" where
  "ic_empties c keys \<longleftrightarrow> (\<forall>(k, item) \<in> set (ic_items c). it_versions item = [] \<longrightarrow> k \<in> set keys)"

lemma ic_empties_put:
  "ic_empties c keys \<Longrightarrow> it_versions (fst r) = [] \<longrightarrow> k \<in> set keys \<Longrightarrow> ic_empties (ic_put c k r) keys"
  by (auto simp: ic_empties_def dest!: mem_update_D)

lemma ic_empties_mono: "ic_empties c keys \<Longrightarrow> set keys \<subseteq> set keys' \<Longrightarrow> ic_empties c keys'"
  by (auto simp: ic_empties_def)

lemma releaseFirstPass_empties:
  "ic_empties c keys \<Longrightarrow>
   (case ic_releaseFirstPass target minUsage is (c, keys, left) of (c, keys, left) \<Rightarrow> ic_empties c keys)"
proof (induction "is" arbitrary: c keys left)
  case Nil
  then show ?case by simp
next
  case (Cons i "is")
  have "ic_empties (ic_put c i r) (keys @ [i])" for r
    by (rule ic_empties_put [OF ic_empties_mono [OF Cons.prems]]) auto
  with Cons show ?case by (auto simp: Let_def split: option.splits)
qed

lemma releaseRest_empties:
  "ic_empties c keys \<Longrightarrow> ic_empties (ic_releaseRest target minUsage keys c left) keys"
  by (rule releaseRest_rule [where Q = "\<lambda>c. ic_empties c keys"]) (auto intro: ic_empties_put)

lemma ic_empties_remove:
  "ic_empties c (k # keys) \<Longrightarrow> ic_empties (ic_remove_key c k) keys"
  by (fastforce simp: ic_empties_def AList.delete_eq)

lemma eraseEmpty_empties:
  "distinct (map fst (ic_items c)) \<Longrightarrow> ic_empties c keys \<Longrightarrow> ic_empties (ic_eraseEmpty keys c) []"
proof (induction keys arbitrary: c)
  case Nil
  then show ?case by simp
next
  case (Cons k keys)
  show ?case
  proof (cases "\<exists>item. ic_get c k = Some item \<and> it_versions item = []")
    case True
    then show ?thesis
      using Cons.IH [of "ic_remove_key c k"] Cons.prems(1) ic_empties_remove [OF Cons.prems(2)]
      by (auto simp: distinct_delete)
  next
    case False
    with Cons.prems have "ic_empties c keys" by (fastforce simp: ic_empties_def)
    with False Cons.IH [of c] Cons.prems(1) show ?thesis by (auto split: option.splits)
  qed
qed

lemma ic_inv_iff: "ic_inv c \<longleftrightarrow> ic_wf c \<and> ic_empties c []"
  by (auto simp: ic_inv_def ic_empties_def)

lemma ic_inv_releaseItems:
  assumes "ic_inv c"
  shows "ic_inv (ic_releaseItems target order minUsage c)"
proof -
  obtain c' keys left where
    pass: "ic_releaseFirstPass target minUsage order (c, [], False) = (c', keys, left)"
    by (metis prod_cases3)
  have wf: "ic_wf c" and empties: "ic_empties c []" using assms by (simp_all add: ic_inv_iff)
  have "ic_wf (fst (ic_releaseFirstPass target minUsage order (c, [], False)))"
    by (rule releaseFirstPass_rule [where Q = ic_wf, OF _ wf]) (auto intro: ic_wf_put it_ok_releaseFirst ic_wf_get)
  then have "ic_wf c'" by (simp add: pass)
  then have "ic_wf (ic_releaseRest target minUsage keys c' left)"
    by (rule releaseRest_rule [where Q = ic_wf, rotated]) (auto intro: ic_wf_put it_ok_releaseFirst ic_wf_get)
  moreover have "ic_empties c' keys"
    using releaseFirstPass_empties [OF empties, of target minUsage order False] pass by simp
  ultimately have "ic_empties (ic_eraseEmpty keys (ic_releaseRest target minUsage keys c' left)) []"
    by (intro eraseEmpty_empties releaseRest_empties) (auto simp: ic_wf_def)
  with assms pass ic_wf_releaseItems [OF wf, of target order minUsage] show ?thesis
    by (auto simp: ic_inv_iff ic_releaseItems_def split: if_splits)
qed

subsection \<open>Accounting of bytes\<close>

text \<open>
  The difference between the counter and the bytes held is unchanged by every release.
\<close>

definition it_excess :: "ic_item \<times> uint64 \<Rightarrow> uint64" where
  "it_excess r = snd r - it_bytes (fst r)"

definition ic_excess :: "instance_cache \<Rightarrow> uint64" where
  "ic_excess c = ic_size c - ic_bytes c"

lemma it_bytes_update [simp]:
  "it_bytes (item\<lparr>it_used := u\<rparr>) = it_bytes item"
  "it_bytes (item\<lparr>it_access := a\<rparr>) = it_bytes item"
  "it_bytes (item\<lparr>it_access := a, it_used := u\<rparr>) = it_bytes item"
  "it_bytes (item\<lparr>it_masterInstanceID := m, it_from := n\<rparr>) = it_bytes item"
  "it_bytes (item\<lparr>it_masterInstanceID := m, it_from := n, it_used := u\<rparr>) = it_bytes item"
  by (simp_all add: it_bytes_def)

lemma fold_deleteStream:
  "fold (\<lambda>stream sz. ic_deleteStream sz stream) vs sz = sz - sum_list (map od_getDataSize vs)"
  by (induction vs arbitrary: sz) (simp_all add: ic_deleteStream_def algebra_simps)

lemma it_excess_releaseFirst: "it_excess (ic_releaseFirstStream (item, sz)) = it_excess (item, sz)"
  by (cases "it_versions item")
     (simp_all add: it_excess_def ic_releaseFirstStream_def ic_deleteStream_def it_bytes_def)

lemma it_excess_releaseStreams: "it_excess (ic_releaseStreams (item, sz)) = it_excess (item, sz)"
  by (simp add: it_excess_def ic_releaseStreams_def fold_deleteStream it_bytes_def rev_map [symmetric])

lemma releaseOld_excess:
  "ic_releaseOld t vs ts sz = (vs', ts', sz') \<Longrightarrow>
   sz' - sum_list (map od_getDataSize vs') = sz - sum_list (map od_getDataSize vs)"
  by (induction t vs ts sz rule: ic_releaseOld.induct)
     (auto simp: ic_deleteStream_def algebra_simps split: if_splits)

lemma it_excess_releaseBefore:
  "it_excess (ic_releaseStreams_before t (item, sz)) = it_excess (item, sz)"
  using releaseOld_excess
  by (auto simp: ic_releaseStreams_before_def it_excess_def it_bytes_def split: prod.splits)

lemma ic_excess_put:
  assumes "distinct (map fst (ic_items c))" and "ic_get c k = Some item"
  shows "ic_excess (ic_put c k r) = ic_excess c + (it_excess r - it_excess (item, ic_size c))"
  using sum_list_alist_update [OF assms, of "\<lambda>(k, item). it_bytes item" "fst r"]
  by (simp add: ic_excess_def ic_bytes_def it_excess_def algebra_simps)

lemma ic_excess_put_same:
  assumes "distinct (map fst (ic_items c))" and "ic_get c k = Some item"
    and "it_excess r = it_excess (item, ic_size c)"
  shows "ic_excess (ic_put c k r) = ic_excess c"
  using ic_excess_put [OF assms(1,2)] assms(3) by simp

lemma ic_excess_remove_key:
  assumes "distinct (map fst (ic_items c))" and "ic_get c k = Some item" and "it_versions item = []"
  shows "ic_excess (ic_remove_key c k) = ic_excess c"
  using sum_list_alist_delete [OF assms(1,2), of "\<lambda>(k, item). it_bytes item"] assms(3)
  by (simp add: ic_excess_def ic_bytes_def it_bytes_def)

lemma ic_wf_mem: "ic_wf c \<Longrightarrow> (k, item) \<in> set (ic_items c) \<Longrightarrow> it_ok item"
  by (auto simp: ic_wf_def)

lemma ic_wf_distinct: "ic_wf c \<Longrightarrow> distinct (map fst (ic_items c))"
  by (simp add: ic_wf_def)

lemma ic_excess_releaseItems:
  assumes "ic_wf c"
  shows "ic_excess (ic_releaseItems target order minUsage c) = ic_excess c"
proof -
  have "ic_wf (ic_releaseItems target order minUsage c) \<and>
      ic_excess (ic_releaseItems target order minUsage c) = ic_excess c"
    by (rule releaseItems_rule [where Q = "\<lambda>d. ic_wf d \<and> ic_excess d = ic_excess c"])
       (auto simp: assms ic_excess_put_same it_excess_releaseFirst ic_excess_remove_key ic_wf_distinct
         intro: ic_wf_put it_ok_releaseFirst ic_wf_mem ic_wf_remove_key)
  then show ?thesis by simp
qed

subsection \<open>The steps of \<open>add\<close>\<close>

lemma add_master_Some:
  assumes "ic_add_master instanceID nodeID usage (item, sz) = Some (item', sz')" and "it_ok item"
  shows "it_ok item' \<and> it_excess (item', sz') = it_excess (item, sz) \<and>
    (\<forall>s \<in> set (it_versions item'). s \<in> set (it_versions item))"
proof (cases "it_masterInstanceID item \<noteq> instanceID \<or> it_from item \<noteq> nodeID")
  case True
  with assms(1) have r: "item' = (fst (ic_releaseStreams (item, sz)))
      \<lparr>it_masterInstanceID := instanceID, it_from := nodeID, it_used := usage\<rparr>"
    "sz' = snd (ic_releaseStreams (item, sz))"
    by (auto simp: ic_add_master_def split: if_splits prod.splits)
  with it_excess_releaseStreams [of item sz] show ?thesis
    by (simp add: it_excess_def it_ok_def ic_releaseStreams_def)
next
  case False
  with assms show ?thesis by (auto simp: ic_add_master_def it_ok_def it_excess_def)
qed

lemma add_stream_False:
  assumes "ic_add_stream now v (item, sz) = (False, item', sz')"
  shows "item' = item \<and> sz' = sz \<and> it_versions item \<noteq> []"
  using assms by (auto simp: ic_add_stream_def Let_def split: if_splits prod.splits)

text \<open>The stream that takes the command: the last one, or a new one after it.\<close>

lemma newStream_props:
  assumes "it_ok item" and "it_versions item = [] \<or> v = od_getPendingVersion (last (it_versions item)) + 1"
  shows "length (it_times (it_newStream now item)) = length (it_versions (it_newStream now item))"
    "consecutive (map od_getPendingVersion (butlast (it_versions (it_newStream now item))) @ [v])"
  using assms consecutive_snoc [of "map od_getPendingVersion (it_versions item)" v]
  by (cases "it_versions item = []"; simp add: it_ok_def it_newStream_def last_map)+

lemma map_butlast_last: "vs \<noteq> [] \<Longrightarrow> map f (butlast vs) @ [f (last vs)] = map f vs"
  by (induction vs) auto

lemma it_newStream_simps [simp]:
  "it_versions (it_newStream now item) = it_versions item @ [od_new]"
  "it_excess (it_newStream now item, sz) = it_excess (item, sz)"
  by (simp_all add: it_newStream_def it_excess_def it_bytes_def od_getDataSize_def)

lemma add_stream_True:
  assumes "ic_add_stream now v (item, sz) = (True, item', sz')" and ok: "it_ok item"
  shows "it_excess (item', sz') = it_excess (item, sz) \<and> \<not> od_isReady (last (it_versions item')) \<and>
    length (it_times item') = length (it_versions item') \<and> it_versions item' \<noteq> [] \<and>
    (\<forall>s \<in> set (butlast (it_versions item')). od_commands s \<noteq> [] \<and> s \<in> set (it_versions item)) \<and>
    consecutive (map od_getPendingVersion (butlast (it_versions item')) @ [v]) \<and>
    (last (it_versions item') = od_new \<or> last (it_versions item') \<in> set (it_versions item))"
proof -
  let ?last = "last (it_versions item)"
  have append: ?thesis
    if "it_versions item = [] \<or> v = od_getPendingVersion ?last + 1" "item' = it_newStream now item" "sz' = sz"
    using newStream_props [OF ok that(1), of now] ok that(2,3) by (simp add: it_ok_def)
  have gap: ?thesis
    if "item' = it_newStream now (fst (ic_releaseStreams (item, sz)))" "sz' = snd (ic_releaseStreams (item, sz))"
    using it_excess_releaseStreams [of item sz] newStream_props [OF it_ok_releaseStreams, of item sz v now] that
    by (simp add: ic_releaseStreams_def)
  have same: ?thesis
    if "it_versions item \<noteq> []" "od_getPendingVersion ?last = v" "\<not> od_isReady ?last" "item' = item" "sz' = sz"
    using ok that map_butlast_last [OF that(1), of od_getPendingVersion]
    by (simp add: it_ok_def) (blast dest: in_set_butlastD)
  show ?thesis
  proof (cases "it_versions item = []")
    case True
    with assms(1) have "item' = it_newStream now item \<and> sz' = sz" by (simp add: ic_add_stream_def)
    with True append show ?thesis by blast
  next
    case nonempty: False
    show ?thesis
    proof (cases "od_getPendingVersion ?last = v")
      case True
      with nonempty assms(1) have "item' = item \<and> sz' = sz \<and> \<not> od_isReady ?last"
        by (auto simp: ic_add_stream_def)
      with True nonempty same show ?thesis by blast
    next
      case False
      show ?thesis
      proof (cases "od_getPendingVersion ?last + 1 = v")
        case True
        with nonempty False assms(1) have "item' = it_newStream now item \<and> sz' = sz"
          by (simp add: ic_add_stream_def Let_def split: if_splits)
        with True append show ?thesis by blast
      next
        case hole: False
        with nonempty False assms(1) have "item' = it_newStream now (fst (ic_releaseStreams (item, sz))) \<and>
            sz' = snd (ic_releaseStreams (item, sz))"
          by (simp add: ic_add_stream_def Let_def split: if_splits prod.splits)
        with gap show ?thesis by blast
      qed
    qed
  qed
qed

lemma append_ok:
  assumes "ic_add_stream now v (item, sz) = (True, r)" and "it_ok item" and "oc_version command = v"
  shows "it_ok (fst (ic_append command r)) \<and> it_versions (fst (ic_append command r)) \<noteq> []"
proof -
  obtain item' sz' where r: "r = (item', sz')" by fastforce
  from add_stream_True [OF assms(1) [unfolded r] assms(2)] assms(3) show ?thesis
    by (auto simp: r ic_append_def Let_def it_ok_def)
qed

lemma it_bytes_last_new:
  assumes "it_versions item \<noteq> []" and "last (it_versions item) = od_new"
  shows "it_bytes item = sum_list (map od_getDataSize (butlast (it_versions item)))"
proof -
  have "it_versions item = butlast (it_versions item) @ [od_new]"
    using assms by (metis append_butlast_last_id)
  then have "it_bytes item = sum_list (map od_getDataSize (butlast (it_versions item) @ [od_new]))"
    by (simp only: it_bytes_def)
  then show ?thesis by (simp add: od_getDataSize_def)
qed

lemma append_excess:
  assumes "ic_add_stream now v (item, sz) = (True, r)" and "it_ok item"
    and "\<forall>s \<in> set (it_versions item). od_isReady s"
    and "oc_isLast command" and "oc_version command \<noteq> VERSION_INVALID"
  shows "it_excess (ic_append command r) = it_excess (item, sz) \<and>
    (\<forall>s \<in> set (it_versions (fst (ic_append command r))). od_isReady s)"
proof -
  obtain item' sz' where r: "r = (item', sz')" by fastforce
  have last: "last (it_versions item') = od_new" and ne: "it_versions item' \<noteq> []"
    and ex: "it_excess (item', sz') = it_excess (item, sz)"
    and ready: "\<forall>s \<in> set (butlast (it_versions item')). od_isReady s"
    using add_stream_True [OF assms(1) [unfolded r] assms(2)] assms(3) by auto
  have "od_isReady (od_addDataCommand od_new command)"
    using assms(4,5) by (simp add: od_addDataCommand_isReady)
  with ready last ex show ?thesis
    using it_bytes_last_new [OF ne last]
    by (simp add: r ic_append_def Let_def it_excess_def) (simp add: it_bytes_def)
qed

subsection \<open>Every operation keeps the invariants\<close>

lemma ic_empties_Nil_put: "ic_empties c [] \<Longrightarrow> it_versions (fst r) \<noteq> [] \<Longrightarrow> ic_empties (ic_put c k r) []"
  by (auto simp: ic_empties_def dest!: mem_update_D)

lemma ic_inv_put: "ic_inv c \<Longrightarrow> it_ok (fst r) \<Longrightarrow> it_versions (fst r) \<noteq> [] \<Longrightarrow> ic_inv (ic_put c k r)"
  by (simp add: ic_inv_iff ic_wf_put ic_empties_Nil_put)

lemma ic_inv_get: "ic_inv c \<Longrightarrow> ic_get c k = Some item \<Longrightarrow> it_ok item \<and> it_versions item \<noteq> []"
  by (auto simp: ic_inv_def ic_wf_def dest!: map_of_SomeD)

text \<open>The cache with the entry that \<open>add\<close> creates for a new object.\<close>

definition ic_enter :: "uint128 \<Rightarrow> uint32 \<Rightarrow> NodeID \<Rightarrow> instance_cache \<Rightarrow> instance_cache" where
  "ic_enter k instanceID nodeID c =
     (case ic_get c k of
        None \<Rightarrow> ic_put c k (it_new\<lparr>it_masterInstanceID := instanceID, it_from := nodeID\<rparr>, ic_size c)
      | Some _ \<Rightarrow> c)"

lemma ic_add_eq:
  "ic_add target order1 order0 now rv instanceID command usage c =
     (let c = ic_enter (ov_identifier rv) instanceID (oc_remote command) c;
          k = ov_identifier rv
      in case ic_add_master instanceID (oc_remote command) usage (the (ic_get c k), ic_size c) of
           None \<Rightarrow> (False, c)
         | Some r \<Rightarrow>
             (case ic_add_stream now (ov_version rv) r of
                (False, r) \<Rightarrow> (False, ic_put c k r)
              | (True, r) \<Rightarrow>
                  (True, ic_releaseItems target order0 0
                           (ic_releaseItems target order1 1 (ic_put c k (ic_append command r))))))"
  by (simp add: ic_add_def ic_enter_def Let_def)

lemma it_new_ok [simp]: "it_ok (it_new\<lparr>it_masterInstanceID := m, it_from := n\<rparr>)"
  by (simp add: it_ok_def it_new_def)

lemma ic_enter_wf: "ic_wf c \<Longrightarrow> ic_wf (ic_enter k instanceID nodeID c)"
  by (auto simp: ic_enter_def intro: ic_wf_put split: option.splits)

lemma ic_enter_get: "\<exists>item. ic_get (ic_enter k instanceID nodeID c) k = Some item"
  by (auto simp: ic_enter_def update_conv' split: option.splits)

lemma ic_enter_empties:
  "ic_inv c \<Longrightarrow> ic_empties (ic_enter k instanceID nodeID c) [k]"
  by (auto simp: ic_enter_def ic_inv_iff intro!: ic_empties_put intro: ic_empties_mono split: option.splits)

lemma ic_enter_absent:
  assumes "ic_get c k = None" and "the (ic_get (ic_enter k instanceID nodeID c) k) = item"
  shows "it_access item = 0 \<and> it_masterInstanceID item = instanceID \<and> it_from item = nodeID \<and>
    it_versions item = []"
  using assms by (auto simp: ic_enter_def update_conv' it_new_def)

lemma ic_empties_put_key:
  "ic_wf c \<Longrightarrow> ic_empties c [k] \<Longrightarrow> it_versions (fst r) \<noteq> [] \<Longrightarrow> ic_empties (ic_put c k r) []"
  by (fastforce simp: ic_empties_def ic_wf_def dest!: mem_update_distinct_D)

lemma ic_enter_inv_put:
  "ic_inv c \<Longrightarrow> it_ok (fst r) \<Longrightarrow> it_versions (fst r) \<noteq> [] \<Longrightarrow>
   ic_inv (ic_put (ic_enter k instanceID nodeID c) k r)"
  using ic_enter_wf ic_enter_empties by (auto simp: ic_inv_iff intro: ic_wf_put ic_empties_put_key)

lemma ic_inv_add:
  assumes inv: "ic_inv c" and ver: "oc_version command = ov_version rv"
  shows "ic_inv (snd (ic_add target order1 order0 now rv instanceID command usage c))"
proof -
  let ?k = "ov_identifier rv" and ?node = "oc_remote command"
  let ?c = "ic_enter ?k instanceID ?node c"
  obtain item where item: "ic_get ?c ?k = Some item" using ic_enter_get by blast
  have ok: "it_ok item" using ic_wf_get [OF ic_enter_wf item] inv by (simp add: ic_inv_def)
  show ?thesis
  proof (cases "ic_add_master instanceID ?node usage (item, ic_size ?c)")
    case None
    have "ic_get c ?k \<noteq> None"
      using None ic_enter_absent [of c ?k instanceID ?node item] item
      by (auto simp: ic_add_master_def split: if_splits prod.splits)
    then have "?c = c" by (auto simp: ic_enter_def)
    with None item inv show ?thesis by (simp add: ic_add_eq Let_def)
  next
    case (Some r)
    obtain item' sz' where r: "r = (item', sz')" by fastforce
    have ok': "it_ok item'" using add_master_Some [OF Some [unfolded r] ok] by simp
    obtain b r2 where st: "ic_add_stream now (ov_version rv) r = (b, r2)" by (metis surj_pair)
    show ?thesis
    proof (cases b)
      case True
      have "ic_inv (ic_put ?c ?k (ic_append command r2))"
        using append_ok [OF _ ok' ver] st True r by (intro ic_enter_inv_put [OF inv]) auto
      with True st Some item show ?thesis by (simp add: ic_add_eq Let_def ic_inv_releaseItems)
    next
      case False
      obtain item2 sz2 where r2: "r2 = (item2, sz2)" by fastforce
      have "ic_inv (ic_put ?c ?k r2)"
        using add_stream_False [of now "ov_version rv" item' sz' item2 sz2] st ok' False r
        by (intro ic_enter_inv_put [OF inv]) (auto simp: r2)
      with False st Some item show ?thesis by (simp add: ic_add_eq Let_def)
    qed
  qed
qed

text \<open>
  The loops of \<open>remove\<close> and \<open>expire\<close>: the collected keys are exactly those of the emptied
  items, so that erasing them loses no bytes.
\<close>

definition ic_sweep :: "uint64 \<Rightarrow> instance_cache \<times> uint128 list \<Rightarrow> bool" where
  "ic_sweep e st = (case st of (c, keys) \<Rightarrow>
     ic_wf c \<and> ic_excess c = e \<and>
     (\<forall>(k, item) \<in> set (ic_items c). it_versions item = [] \<longleftrightarrow> k \<in> set keys))"

lemma ic_sweep_put:
  assumes "ic_sweep e (c, keys)" and "ic_get c i = Some item" and "it_ok (fst r)"
    and "it_excess r = it_excess (item, ic_size c)"
    and "it_versions (fst r) = [] \<longleftrightarrow> i \<in> set keys'" and "set keys \<subseteq> set keys'" "set keys' \<subseteq> insert i (set keys)"
  shows "ic_sweep e (ic_put c i r, keys')"
proof -
  have "(\<forall>(k, item) \<in> set (ic_items (ic_put c i r)). it_versions item = [] \<longleftrightarrow> k \<in> set keys')"
    using assms(1,5-7) by (fastforce simp: ic_sweep_def ic_wf_def dest!: mem_update_distinct_D)
  with assms(1-4) show ?thesis
    by (simp add: ic_sweep_def ic_wf_put ic_excess_put_same ic_wf_distinct)
qed

lemma ic_sweep_remove_loop: "ic_sweep e (c, keys) \<Longrightarrow> ic_sweep e (ic_remove_loop nodeID order (c, keys))"
proof (induction order arbitrary: c keys)
  case Nil
  then show ?case by simp
next
  case (Cons i order)
  have "ic_sweep e (ic_put c i (ic_releaseStreams (item, ic_size c)), keys @ [i])"
    if "ic_get c i = Some item" for item
    using ic_sweep_put [OF Cons.prems that it_ok_releaseStreams it_excess_releaseStreams, of "keys @ [i]"]
    by (auto simp: ic_releaseStreams_def)
  with Cons show ?case by (auto split: option.splits)
qed

lemma releaseBefore_Nil: "it_versions item = [] \<Longrightarrow> it_versions (fst (ic_releaseStreams_before t (item, sz))) = []"
  by (simp add: ic_releaseStreams_before_def)

lemma ic_sweep_expire_loop: "ic_sweep e (c, keys) \<Longrightarrow> ic_sweep e (ic_expire_loop t order (c, keys))"
proof (induction order arbitrary: c keys)
  case Nil
  then show ?case by simp
next
  case (Cons i order)
  have "ic_sweep e (ic_put c i r, if it_versions (fst r) = [] then keys @ [i] else keys)"
    if get: "ic_get c i = Some item" and r: "r = ic_releaseStreams_before t (item, ic_size c)" for item r
  proof (rule ic_sweep_put [OF Cons.prems get])
    show "it_ok (fst r)"
      unfolding r using Cons.prems ic_wf_get [OF _ get] by (simp add: ic_sweep_def it_ok_releaseBefore)
    show "it_excess r = it_excess (item, ic_size c)" by (simp add: r it_excess_releaseBefore)
    have "i \<in> set keys \<Longrightarrow> it_versions item = []"
      using Cons.prems get by (auto simp: ic_sweep_def dest!: map_of_SomeD)
    then show "(it_versions (fst r) = []) = (i \<in> set (if it_versions (fst r) = [] then keys @ [i] else keys))"
      using releaseBefore_Nil [of item] by (auto simp: r)
  qed auto
  with Cons show ?case by (auto simp: Let_def split: option.splits)
qed

lemma ic_remove_key_excess:
  assumes "ic_wf c" and "\<forall>(j, item) \<in> set (ic_items c). j = k \<longrightarrow> it_versions item = []"
  shows "ic_excess (ic_remove_key c k) = ic_excess c"
proof (cases "ic_get c k")
  case None
  then have "k \<notin> fst ` set (ic_items c)" by (simp add: map_of_eq_None_iff)
  then show ?thesis by (simp add: ic_excess_def ic_bytes_def)
next
  case (Some item)
  with assms show ?thesis by (auto intro: ic_excess_remove_key ic_wf_distinct dest: map_of_SomeD)
qed

lemma ic_sweep_erase_keys:
  "ic_sweep e (c, keys) \<Longrightarrow> ic_inv (ic_erase_keys (c, keys)) \<and> ic_excess (ic_erase_keys (c, keys)) = e"
proof (induction keys arbitrary: c)
  case Nil
  then show ?case by (auto simp: ic_sweep_def ic_erase_keys_def ic_inv_def)
next
  case (Cons k keys)
  have "\<forall>(j, item) \<in> set (ic_items c). j = k \<longrightarrow> it_versions item = []"
    using Cons.prems by (auto simp: ic_sweep_def)
  then have "ic_sweep e (ic_remove_key c k, keys)"
    using Cons.prems ic_remove_key_excess [of c k]
    by (auto simp: ic_sweep_def ic_wf_remove_key AList.delete_eq split: prod.splits)
  from Cons.IH [OF this] show ?case by (simp add: ic_erase_keys_def)
qed

lemma ic_sweep_start: "ic_inv c \<Longrightarrow> ic_sweep (ic_excess c) (c, [])"
  by (auto simp: ic_sweep_def ic_inv_def)

lemma ic_remove_inv: "ic_inv c \<Longrightarrow> ic_inv (ic_remove order nodeID c) \<and> ic_excess (ic_remove order nodeID c) = ic_excess c"
  using ic_sweep_erase_keys ic_sweep_remove_loop [OF ic_sweep_start]
  by (metis ic_remove_def surj_pair)

lemma ic_expire_inv:
  "ic_inv c \<Longrightarrow> ic_inv (ic_expire order now timeout c) \<and> ic_excess (ic_expire order now timeout c) = ic_excess c"
  using ic_sweep_erase_keys ic_sweep_expire_loop [OF ic_sweep_start, of c "now - timeout" order]
  by (cases "ic_expire_loop (now - timeout) order (c, [])") (simp add: ic_expire_def Let_def)

lemma ic_inv_wf: "ic_inv c \<Longrightarrow> ic_wf c"
  by (simp add: ic_inv_def)

text \<open>Changing counters of an item touches neither the structure nor the bytes.\<close>

lemma ic_inv_put_frame:
  assumes inv: "ic_inv c" and get: "ic_get c k = Some item"
    and "it_versions item' = it_versions item" and "it_times item' = it_times item"
  shows "ic_inv (ic_put c k (item', ic_size c)) \<and> ic_excess (ic_put c k (item', ic_size c)) = ic_excess c"
proof
  from ic_inv_get [OF inv get] assms(3,4) show "ic_inv (ic_put c k (item', ic_size c))"
    by (intro ic_inv_put [OF inv]) (simp_all add: it_ok_def)
  from assms(3) show "ic_excess (ic_put c k (item', ic_size c)) = ic_excess c"
    by (intro ic_excess_put_same [OF ic_wf_distinct [OF ic_inv_wf [OF inv]] get])
       (simp add: it_excess_def it_bytes_def)
qed

lemma ic_lookup_inv:
  assumes "ic_inv c"
  shows "ic_inv (snd (ic_lookup k c)) \<and> ic_excess (snd (ic_lookup k c)) = ic_excess c"
  using assms ic_inv_put_frame [OF assms] by (cases "ic_get c k") (simp_all add: ic_lookup_def)

lemma ic_release_inv:
  assumes "ic_inv c"
  shows "ic_inv (snd (ic_release target order k n c)) \<and> ic_excess (snd (ic_release target order k n c)) = ic_excess c"
proof (cases "ic_get c k")
  case None
  with assms show ?thesis by (simp add: ic_release_def)
next
  case (Some item)
  with ic_inv_put_frame [OF assms Some, of "item\<lparr>it_access := it_access item - n\<rparr>"] show ?thesis
    by (simp add: ic_release_def ic_inv_releaseItems ic_excess_releaseItems ic_inv_wf)
qed

lemma ic_erase_inv:
  assumes "ic_inv c"
  shows "ic_inv (snd (ic_erase k c)) \<and> ic_excess (snd (ic_erase k c)) = ic_excess c"
proof (cases "\<exists>item. ic_get c k = Some item \<and> it_access item = 0")
  case False
  with assms show ?thesis by (auto simp: ic_erase_def split: option.splits)
next
  case True
  then obtain item where item: "ic_get c k = Some item" "it_access item = 0" by blast
  let ?r = "ic_releaseStreams (item, ic_size c)"
  have "ic_sweep (ic_excess c) (ic_put c k ?r, [k])"
    by (rule ic_sweep_put [OF ic_sweep_start [OF assms] item(1) it_ok_releaseStreams it_excess_releaseStreams])
       (auto simp: ic_releaseStreams_def)
  from ic_sweep_erase_keys [OF this] item show ?thesis
    by (simp add: ic_erase_def ic_erase_keys_def)
qed

subsection \<open>Streams only leave the cache\<close>

definition ic_streams :: "instance_cache \<Rightarrow> odistream set" where
  "ic_streams c = (\<Union>(k, item) \<in> set (ic_items c). set (it_versions item))"

lemma ic_streams_put: "ic_streams (ic_put c k r) \<subseteq> ic_streams c \<union> set (it_versions (fst r))"
  by (fastforce simp: ic_streams_def dest!: mem_update_D)

lemma ic_streams_get: "ic_get c k = Some item \<Longrightarrow> set (it_versions item) \<subseteq> ic_streams c"
  by (force simp: ic_streams_def dest: map_of_SomeD)

lemma ic_streams_put_subset:
  "ic_get c k = Some item \<Longrightarrow> set (it_versions (fst r)) \<subseteq> set (it_versions item) \<Longrightarrow>
   ic_streams (ic_put c k r) \<subseteq> ic_streams c"
  using ic_streams_put ic_streams_get by blast

lemma ic_streams_remove_key: "ic_streams (ic_remove_key c k) \<subseteq> ic_streams c"
  by (fastforce simp: ic_streams_def dest: mem_delete_D)

lemma set_tl_subset: "set (tl xs) \<subseteq> set xs"
  by (cases xs) auto

lemma ic_streams_releaseItems: "ic_streams (ic_releaseItems target order minUsage c) \<subseteq> ic_streams c"
proof (rule releaseItems_rule [where Q = "\<lambda>d. ic_streams d \<subseteq> ic_streams c"])
  fix d i item
  assume "ic_streams d \<subseteq> ic_streams c" and get: "ic_get d i = Some item"
  then show "ic_streams (ic_put d i (ic_releaseFirstStream (item, ic_size d))) \<subseteq> ic_streams c"
    using ic_streams_put_subset [OF get, of "ic_releaseFirstStream (item, ic_size d)"]
      set_tl_subset [of "it_versions item"] by (auto simp: ic_releaseFirstStream_fields)
qed (use ic_streams_remove_key in blast)+

lemma ic_streams_erase_keys: "ic_streams (ic_erase_keys (c, keys)) \<subseteq> ic_streams c"
  by (induction keys arbitrary: c) (use ic_streams_remove_key in \<open>fastforce simp: ic_erase_keys_def\<close>)+

lemma ic_streams_remove_loop: "ic_streams (fst (ic_remove_loop nodeID order (c, keys))) \<subseteq> ic_streams c"
proof (induction order arbitrary: c keys)
  case (Cons i order)
  have "ic_streams (ic_put c i (ic_releaseStreams (item, ic_size c))) \<subseteq> ic_streams c" for item
    using ic_streams_put [of c i "ic_releaseStreams (item, ic_size c)"] by (simp add: ic_releaseStreams_def)
  with Cons.IH show ?case by (auto split: option.splits) blast+
qed simp

lemma releaseOld_subset: "ic_releaseOld t vs ts sz = (vs', ts', sz') \<Longrightarrow> set vs' \<subseteq> set vs"
  by (induction t vs ts sz rule: ic_releaseOld.induct) (auto split: if_splits)

lemma ic_streams_expire_loop: "ic_streams (fst (ic_expire_loop t order (c, keys))) \<subseteq> ic_streams c"
proof (induction order arbitrary: c keys)
  case (Cons i order)
  have "ic_streams (ic_put c i (ic_releaseStreams_before t (item, ic_size c))) \<subseteq> ic_streams c"
    if "ic_get c i = Some item" for item
    using ic_streams_put_subset [OF that, of "ic_releaseStreams_before t (item, ic_size c)"] releaseOld_subset
    by (fastforce simp: ic_releaseStreams_before_def split: prod.splits)
  with Cons.IH show ?case by (auto simp: Let_def split: option.splits) blast+
qed simp

lemma ic_streams_enter: "ic_streams (ic_enter k instanceID nodeID c) \<subseteq> ic_streams c"
  using ic_streams_put [of c k "(it_new\<lparr>it_masterInstanceID := instanceID, it_from := nodeID\<rparr>, ic_size c)"]
  by (auto simp: ic_enter_def it_new_def split: option.splits)

lemma ic_complete_iff: "ic_complete c \<longleftrightarrow> (\<forall>s \<in> ic_streams c. od_isReady s)"
  by (auto simp: ic_complete_def ic_streams_def)

lemma ic_excess_enter:
  assumes "ic_wf c"
  shows "ic_excess (ic_enter k instanceID nodeID c) = ic_excess c \<and> ic_size (ic_enter k instanceID nodeID c) = ic_size c"
  using assms
  by (auto simp: ic_enter_def ic_excess_def ic_bytes_def update_absent it_bytes_def it_new_def
      split: option.splits)

lemma ic_add_accounted:
  assumes inv: "ic_inv c" and acc: "ic_accounted c"
    and cmd: "oc_isLast command" "oc_version command \<noteq> VERSION_INVALID"
    and ver: "oc_version command = ov_version rv"
  shows "ic_complete (snd (ic_add target order1 order0 now rv instanceID command usage c)) \<and>
    ic_excess (snd (ic_add target order1 order0 now rv instanceID command usage c)) = 0"
proof -
  let ?k = "ov_identifier rv" and ?node = "oc_remote command"
  let ?c = "ic_enter ?k instanceID ?node c"
  let ?rel = "\<lambda>d. ic_releaseItems target order0 0 (ic_releaseItems target order1 1 d)"
  obtain item where item: "ic_get ?c ?k = Some item" using ic_enter_get by blast
  have wf: "ic_wf ?c" using inv by (simp add: ic_inv_wf ic_enter_wf)
  have ok: "it_ok item" by (rule ic_wf_get [OF wf item])
  have ready: "\<forall>s \<in> ic_streams ?c. od_isReady s"
    using acc ic_streams_enter by (fastforce simp: ic_accounted_def ic_complete_iff)
  then have ready_item: "\<forall>s \<in> set (it_versions item). od_isReady s"
    using ic_streams_get [OF item] by blast
  have ex: "ic_excess ?c = 0"
    using acc ic_excess_enter [OF ic_inv_wf [OF inv]] by (simp add: ic_accounted_def ic_excess_def)
  have put: "ic_complete (ic_put ?c ?k r) \<and> ic_excess (ic_put ?c ?k r) = 0"
    if "it_excess r = it_excess (item, ic_size ?c)" "\<forall>s \<in> set (it_versions (fst r)). od_isReady s" for r
    using that ready ex ic_streams_put [of ?c ?k r] ic_excess_put_same [OF ic_wf_distinct [OF wf] item]
    by (auto simp: ic_complete_iff)
  have rel: "ic_complete (?rel d) \<and> ic_excess (?rel d) = 0"
    if "ic_wf d" "ic_complete d \<and> ic_excess d = 0" for d
    using that ic_streams_releaseItems [of target order0 0 "ic_releaseItems target order1 1 d"]
      ic_streams_releaseItems [of target order1 1 d]
    by (auto simp: ic_complete_iff ic_excess_releaseItems ic_wf_releaseItems)
  show ?thesis
  proof (cases "ic_add_master instanceID ?node usage (item, ic_size ?c)")
    case None
    with ready ex item show ?thesis by (simp add: ic_add_eq Let_def ic_complete_iff)
  next
    case (Some r)
    obtain item' sz' where r: "r = (item', sz')" by fastforce
    note m = add_master_Some [OF Some [unfolded r] ok]
    obtain b r2 where st: "ic_add_stream now (ov_version rv) r = (b, r2)" by (metis surj_pair)
    show ?thesis
    proof (cases b)
      case True
      have ap: "it_excess (ic_append command r2) = it_excess (item, ic_size ?c) \<and>
          (\<forall>s \<in> set (it_versions (fst (ic_append command r2))). od_isReady s)"
        using append_excess [of now "ov_version rv" item' sz' r2 command] st True r m ready_item cmd by auto
      have "it_ok (fst (ic_append command r2))" using append_ok [OF _ _ ver] st True r m by auto
      with rel put ap True st Some item wf show ?thesis
        by (simp add: ic_add_eq Let_def ic_wf_put)
    next
      case False
      obtain item2 sz2 where r2: "r2 = (item2, sz2)" by fastforce
      from add_stream_False [of now "ov_version rv" item' sz' item2 sz2] st False r r2 m ready_item
      have "it_excess r2 = it_excess (item, ic_size ?c) \<and> (\<forall>s \<in> set (it_versions (fst r2)). od_isReady s)"
        by auto
      with put False st Some item show ?thesis by (simp add: ic_add_eq Let_def)
    qed
  qed
qed

subsection \<open>Eviction reaches the target or only pinned items are left\<close>

text \<open>Evicted out: an item that could be evicted has no stream left.\<close>

definition ic_drained :: "uint32 \<Rightarrow> instance_cache \<Rightarrow> uint128 \<Rightarrow> bool" where
  "ic_drained minUsage c k \<longleftrightarrow>
     (\<forall>item. ic_get c k = Some item \<and> ic_evictable minUsage item \<longrightarrow> it_versions item = [])"

lemma evictable_releaseFirst [simp]:
  "ic_evictable minUsage (fst (ic_releaseFirstStream (item, sz))) = ic_evictable minUsage item"
  by (simp add: ic_evictable_def ic_releaseFirstStream_fields)

lemma drained_put:
  "ic_drained minUsage c k \<Longrightarrow> ic_get c i = Some item \<Longrightarrow>
   ic_drained minUsage (ic_put c i (ic_releaseFirstStream (item, sz))) k"
  by (auto simp: ic_drained_def update_conv' ic_releaseFirstStream_fields)

lemma drained_nextPass:
  "ic_drained minUsage c k \<Longrightarrow> ic_drained minUsage (fst (ic_releaseNextPass target minUsage is (c, left))) k"
  by (rule releaseNextPass_rule [where Q = "\<lambda>d. ic_drained minUsage d k", OF _ subset_refl])
     (auto intro: drained_put)

lemma drained_firstPass:
  "ic_drained minUsage c k \<Longrightarrow> ic_drained minUsage (fst (ic_releaseFirstPass target minUsage is (c, keys, left))) k"
  by (rule releaseFirstPass_rule [where Q = "\<lambda>d. ic_drained minUsage d k"]) (auto intro: drained_put)

lemma nextPass_left: "left \<Longrightarrow> snd (ic_releaseNextPass target minUsage is (c, left))"
  by (induction "is" arbitrary: c left) (auto simp: Let_def split: option.splits)

lemma firstPass_left: "left \<Longrightarrow> snd (snd (ic_releaseFirstPass target minUsage is (c, keys, left)))"
  by (induction "is" arbitrary: c keys left) (auto simp: Let_def split: option.splits)

lemma nextPass_drains:
  assumes "\<not> snd (ic_releaseNextPass target minUsage is (c, left))"
    and "ic_size (fst (ic_releaseNextPass target minUsage is (c, left))) > target" and "k \<in> set is"
  shows "ic_drained minUsage (fst (ic_releaseNextPass target minUsage is (c, left))) k"
  using assms
proof (induction "is" arbitrary: c left)
  case Nil
  then show ?case by simp
next
  case (Cons i "is")
  have big: "ic_size c > target" using Cons.prems(2) by (auto split: if_splits)
  show ?case
  proof (cases "\<exists>item. ic_get c i = Some item \<and> it_versions item \<noteq> [] \<and> ic_evictable minUsage item")
    case False
    then have eq: "ic_releaseNextPass target minUsage (i # is) (c, left) = ic_releaseNextPass target minUsage is (c, left)"
      using big by (auto split: option.splits)
    have "ic_drained minUsage c i" using False by (auto simp: ic_drained_def)
    then show ?thesis using Cons.IH [of c left] Cons.prems drained_nextPass unfolding eq by auto
  next
    case True
    then obtain item where item: "ic_get c i = Some item" "it_versions item \<noteq> []" "ic_evictable minUsage item"
      by blast
    let ?r = "ic_releaseFirstStream (item, ic_size c)"
    have eq: "ic_releaseNextPass target minUsage (i # is) (c, left) =
        ic_releaseNextPass target minUsage is (ic_put c i ?r, left \<or> it_versions (fst ?r) \<noteq> [])"
      using big item by (simp add: Let_def)
    have "it_versions (fst ?r) = []"
      using Cons.prems(1) nextPass_left [of "left \<or> it_versions (fst ?r) \<noteq> []" target minUsage "is" "ic_put c i ?r"]
      unfolding eq by blast
    then have "ic_drained minUsage (ic_put c i ?r) i" by (simp add: ic_drained_def update_conv')
    then show ?thesis using Cons.IH Cons.prems drained_nextPass unfolding eq by auto
  qed
qed

lemma firstPass_skip:
  assumes "ic_size c > target" and "\<not> (\<exists>item. ic_get c i = Some item \<and> ic_evictable minUsage item)"
  shows "ic_releaseFirstPass target minUsage (i # is) (c, keys, left) =
    ic_releaseFirstPass target minUsage is (c, keys, left)"
  using assms by (auto split: option.splits)

lemma firstPass_take:
  assumes "ic_size c > target" and "ic_get c i = Some item" and "ic_evictable minUsage item"
  shows "ic_releaseFirstPass target minUsage (i # is) (c, keys, left) =
    ic_releaseFirstPass target minUsage is
      (ic_put c i (ic_releaseFirstStream (item, ic_size c)), keys @ [i],
       left \<or> it_versions (fst (ic_releaseFirstStream (item, ic_size c))) \<noteq> [])"
  using assms by (simp add: Let_def)

lemma firstPass_drains:
  assumes "ic_size (fst (ic_releaseFirstPass target minUsage is (c, keys, left))) > target"
    and "\<not> snd (snd (ic_releaseFirstPass target minUsage is (c, keys, left)))" and "k \<in> set is"
  shows "ic_drained minUsage (fst (ic_releaseFirstPass target minUsage is (c, keys, left))) k"
  using assms
proof (induction "is" arbitrary: c keys left)
  case Nil
  then show ?case by simp
next
  case (Cons i "is")
  have big: "ic_size c > target" using Cons.prems(1) by (auto split: if_splits)
  show ?case
  proof (cases "\<exists>item. ic_get c i = Some item \<and> ic_evictable minUsage item")
    case False
    note eq = firstPass_skip [OF big False, of "is" keys left]
    have "ic_drained minUsage c i" using False by (auto simp: ic_drained_def)
    then show ?thesis using Cons.IH [of c keys left] Cons.prems drained_firstPass unfolding eq by auto
  next
    case True
    then obtain item where item: "ic_get c i = Some item" "ic_evictable minUsage item" by blast
    let ?r = "ic_releaseFirstStream (item, ic_size c)"
    note eq = firstPass_take [OF big item, of "is" keys left]
    have "it_versions (fst ?r) = []"
      using Cons.prems(2) firstPass_left [of "left \<or> it_versions (fst ?r) \<noteq> []" target minUsage "is" "ic_put c i ?r"]
      unfolding eq by blast
    then have "ic_drained minUsage (ic_put c i ?r) i" by (simp add: ic_drained_def update_conv')
    then show ?thesis using Cons.IH Cons.prems drained_firstPass unfolding eq by auto
  qed
qed

lemma firstPass_collects:
  assumes "ic_size (fst (ic_releaseFirstPass target minUsage is (c, keys, left))) > target"
    and "k \<in> set keys \<or> (k \<in> set is \<and> (\<exists>item. ic_get c k = Some item \<and> ic_evictable minUsage item))"
  shows "k \<in> set (fst (snd (ic_releaseFirstPass target minUsage is (c, keys, left))))"
  using assms
proof (induction "is" arbitrary: c keys left)
  case Nil
  then show ?case by simp
next
  case (Cons i "is")
  have big: "ic_size c > target" using Cons.prems(1) by (auto split: if_splits)
  show ?case
  proof (cases "\<exists>item. ic_get c i = Some item \<and> ic_evictable minUsage item")
    case False
    note eq = firstPass_skip [OF big False, of "is" keys left]
    show ?thesis using Cons.IH [of c keys left] Cons.prems False unfolding eq by auto
  next
    case True
    then obtain item where item: "ic_get c i = Some item" "ic_evictable minUsage item" by blast
    let ?r = "ic_releaseFirstStream (item, ic_size c)"
    note eq = firstPass_take [OF big item, of "is" keys left]
    have "k \<in> set (keys @ [i]) \<or>
        (k \<in> set is \<and> (\<exists>item. ic_get (ic_put c i ?r) k = Some item \<and> ic_evictable minUsage item))"
      using Cons.prems(2) by (auto simp: update_conv')
    then show ?thesis using Cons.IH Cons.prems(1) unfolding eq by blast
  qed
qed

lemma releaseRest_drains:
  assumes "\<not> left \<longrightarrow> (\<forall>k \<in> set keys. ic_drained minUsage c k)"
    and "ic_size (ic_releaseRest target minUsage keys c left) > target" and "k \<in> set keys"
  shows "ic_drained minUsage (ic_releaseRest target minUsage keys c left) k"
  using assms
proof (induction target minUsage keys c left rule: ic_releaseRest.induct)
  case (1 target minUsage keys c left)
  show ?case
  proof (cases "left \<and> ic_size c > target")
    case False
    then have eq: "ic_releaseRest target minUsage keys c left = c"
      by (subst ic_releaseRest.simps) auto
    show ?thesis using "1.prems" False unfolding eq by blast
  next
    case True
    obtain c' left' where pass: "ic_releaseNextPass target minUsage keys (c, False) = (c', left')"
      by fastforce
    have eq: "ic_releaseRest target minUsage keys c left = ic_releaseRest target minUsage keys c' left'"
      using True pass by (subst ic_releaseRest.simps) simp
    show ?thesis
    proof (cases "ic_size c' > target")
      case big: True
      have "\<not> left' \<longrightarrow> (\<forall>k \<in> set keys. ic_drained minUsage c' k)"
        using nextPass_drains [of target minUsage keys c False] pass big by auto
      then show ?thesis using "1.IH" [OF True pass [symmetric]] "1.prems"(2,3) unfolding eq by blast
    next
      case False
      then have "ic_releaseRest target minUsage keys c' left' = c'"
        by (subst ic_releaseRest.simps) auto
      with "1.prems"(2) False show ?thesis by (simp add: eq)
    qed
  qed
qed

lemma remove_key_get: "ic_get (ic_remove_key c i) k = Some item \<Longrightarrow> ic_get c k = Some item"
  by (cases "k = i") simp_all

lemma eraseEmpty_get: "ic_get (ic_eraseEmpty keys c) k = Some item \<Longrightarrow> ic_get c k = Some item"
proof (induction keys arbitrary: c)
  case (Cons i keys)
  show ?case
  proof (cases "ic_get c i")
    case (Some it)
    with Cons.prems have "ic_get (ic_eraseEmpty keys (if it_versions it = [] then ic_remove_key c i else c)) k = Some item"
      by simp
    from Cons.IH [OF this] show ?thesis by (auto intro: remove_key_get split: if_splits)
  qed (use Cons in simp)
qed simp

lemma firstPass_keys:
  "set (fst (snd (ic_releaseFirstPass target minUsage is (c, keys, left)))) \<subseteq> set keys \<union> set is"
proof (induction "is" arbitrary: c keys left)
  case (Cons i "is")
  show ?case
  proof (cases "ic_size c > target")
    case big: True
    show ?thesis
    proof (cases "\<exists>item. ic_get c i = Some item \<and> ic_evictable minUsage item")
      case False
      show ?thesis using Cons [of c keys left] unfolding firstPass_skip [OF big False] by auto
    next
      case True
      then obtain item where item: "ic_get c i = Some item" "ic_evictable minUsage item" by blast
      show ?thesis
        using Cons [of "ic_put c i (ic_releaseFirstStream (item, ic_size c))" "keys @ [i]"]
        unfolding firstPass_take [OF big item] by auto
    qed
  qed auto
qed simp

lemma eraseEmpty_size [simp]: "ic_size (ic_eraseEmpty keys c) = ic_size c"
  by (induction keys arbitrary: c) (auto split: option.splits)

lemma releaseRest_evictable:
  assumes "\<forall>k item. ic_get c k = Some item \<and> ic_evictable minUsage item \<longrightarrow> k \<in> set keys"
  shows "\<forall>k item. ic_get (ic_releaseRest target minUsage keys c left) k = Some item \<and>
    ic_evictable minUsage item \<longrightarrow> k \<in> set keys"
  by (rule releaseRest_rule [where Q = "\<lambda>c. \<forall>k item. ic_get c k = Some item \<and>
        ic_evictable minUsage item \<longrightarrow> k \<in> set keys", OF _ assms])
     (auto simp: update_conv' split: if_splits)

lemma firstPass_get:
  assumes "ic_get (fst (ic_releaseFirstPass target minUsage is (c, keys, left))) k = Some item"
    "ic_evictable minUsage item"
  shows "\<exists>item. ic_get c k = Some item \<and> ic_evictable minUsage item"
  using assms
proof -
  have "\<forall>item. ic_get (fst (ic_releaseFirstPass target minUsage is (c, keys, left))) k = Some item \<and>
      ic_evictable minUsage item \<longrightarrow> (\<exists>item. ic_get c k = Some item \<and> ic_evictable minUsage item)"
    by (rule releaseFirstPass_rule [where Q = "\<lambda>d. \<forall>item. ic_get d k = Some item \<and>
          ic_evictable minUsage item \<longrightarrow> (\<exists>item. ic_get c k = Some item \<and> ic_evictable minUsage item)"])
       (auto simp: update_conv' split: if_splits)
  with assms show ?thesis by blast
qed

lemma releaseItems_capacity:
  assumes inv: "ic_inv c" and keys: "fst ` set (ic_items c) \<subseteq> set order"
    and big: "ic_size c > ic_maxSize c"
    and over: "ic_size (ic_releaseItems target order minUsage c) > target"
    and item: "ic_get (ic_releaseItems target order minUsage c) k = Some item"
  shows "\<not> ic_evictable minUsage item"
proof
  assume ev: "ic_evictable minUsage item"
  obtain c' keys left where
    pass: "ic_releaseFirstPass target minUsage order (c, [], False) = (c', keys, left)"
    by (metis prod_cases3)
  let ?c = "ic_releaseRest target minUsage keys c' left"
  have eq: "ic_releaseItems target order minUsage c = ic_eraseEmpty keys ?c"
    using big pass by (simp add: ic_releaseItems_def not_le)
  have "ic_size c' > target"
  proof (rule ccontr)
    assume "\<not> ic_size c' > target"
    then have "?c = c'" by (subst ic_releaseRest.simps) auto
    with over \<open>\<not> ic_size c' > target\<close> show False by (simp add: eq)
  qed
  note fst_pass = this
  have coll: "j \<in> set keys" if g: "ic_get c' j = Some it" "ic_evictable minUsage it" for j it
  proof -
    obtain it0 where it0: "ic_get c j = Some it0" "ic_evictable minUsage it0"
      using firstPass_get [of target minUsage order c "[]" False j it] pass g by auto
    then have "j \<in> set order" using keys by (force dest: map_of_SomeD)
    with it0 firstPass_collects [of target minUsage order c "[]" False j] pass fst_pass show ?thesis by auto
  qed
  have get: "ic_get ?c k = Some item" using eraseEmpty_get item unfolding eq by blast
  have "\<forall>k item. ic_get c' k = Some item \<and> ic_evictable minUsage item \<longrightarrow> k \<in> set keys"
    using coll by blast
  from releaseRest_evictable [OF this] get ev have k: "k \<in> set keys" by blast
  have sub: "set keys \<subseteq> set order"
    using firstPass_keys [of target minUsage order c "[]" False] pass by simp
  have "ic_drained minUsage ?c k"
  proof (rule releaseRest_drains [OF _ _ k])
    show "\<not> left \<longrightarrow> (\<forall>k \<in> set keys. ic_drained minUsage c' k)"
      using firstPass_drains [of target minUsage order c "[]" False] pass fst_pass sub by auto
    show "ic_size ?c > target" using over by (simp add: eq)
  qed
  with get ev have "it_versions item = []" by (simp add: ic_drained_def)
  with ic_inv_get [OF ic_inv_releaseItems [OF inv] item] show False by simp
qed

subsection \<open>Pinned items\<close>

lemma releaseItems_pinned:
  assumes "ic_get c k = Some item" and "it_access item \<noteq> 0" and "it_versions item \<noteq> []"
  shows "ic_get (ic_releaseItems target order minUsage c) k = Some item"
  by (rule releaseItems_rule [where Q = "\<lambda>d. ic_get d k = Some item"])
     (use assms in \<open>auto simp: update_conv' delete_conv' ic_evictable_def\<close>)

lemma remove_loop_pinned:
  assumes "ic_get c k = Some item" and "it_access item \<noteq> 0" and "k \<notin> set keys"
  shows "ic_get (fst (ic_remove_loop nodeID order (c, keys))) k = Some item \<and>
    k \<notin> set (snd (ic_remove_loop nodeID order (c, keys)))"
  using assms(1,3)
proof (induction order arbitrary: c keys)
  case (Cons i order)
  have "k \<noteq> i \<and> ic_get (ic_put c i r) k = Some item" if "ic_get c i = Some x" "it_access x = 0" for r x
    using that Cons.prems assms(2) by (auto simp: update_conv')
  then have "k \<notin> set (keys @ [i])" "ic_get (ic_put c i r) k = Some item"
    if "ic_get c i = Some x" "it_access x = 0" for r x
    using that Cons.prems(2) by auto
  with Cons show ?case by (cases "ic_get c i") (simp_all del: ic_put_simps set_append)
qed simp

lemma expire_loop_pinned:
  assumes "ic_get c k = Some item" and "it_access item \<noteq> 0" and "k \<notin> set keys"
  shows "ic_get (fst (ic_expire_loop t order (c, keys))) k = Some item \<and>
    k \<notin> set (snd (ic_expire_loop t order (c, keys)))"
  using assms(1,3)
proof (induction order arbitrary: c keys)
  case (Cons i order)
  have "k \<noteq> i \<and> ic_get (ic_put c i r) k = Some item" if "ic_get c i = Some x" "it_access x = 0" for r x
    using that Cons.prems assms(2) by (auto simp: update_conv')
  then have "k \<notin> set (keys @ [i])" "ic_get (ic_put c i r) k = Some item"
    if "ic_get c i = Some x" "it_access x = 0" for r x
    using that Cons.prems(2) by auto
  with Cons show ?case by (cases "ic_get c i") (simp_all add: Let_def del: ic_put_simps set_append)
qed simp

lemma erase_keys_get: "k \<notin> set keys \<Longrightarrow> ic_get (ic_erase_keys (c, keys)) k = ic_get c k"
  by (induction keys arbitrary: c) (simp_all add: ic_erase_keys_def)

lemma ic_enter_other: "k \<noteq> i \<Longrightarrow> ic_get (ic_enter i instanceID nodeID c) k = ic_get c k"
  by (simp add: ic_enter_def update_conv' split: option.splits)

lemma ic_add_pinned_other:
  assumes "ic_get c k = Some item" and "it_access item \<noteq> 0" and "it_versions item \<noteq> []"
    and "k \<noteq> ov_identifier rv"
  shows "ic_get (snd (ic_add target order1 order0 now rv instanceID command usage c)) k = Some item"
proof -
  let ?c = "ic_enter (ov_identifier rv) instanceID (oc_remote command) c"
  have get: "ic_get ?c k = Some item" using assms by (simp add: ic_enter_other)
  then have put: "ic_get (ic_put ?c (ov_identifier rv) r) k = Some item" for r
    using assms(4) by (simp add: update_conv')
  show ?thesis
    using get put releaseItems_pinned [OF releaseItems_pinned [OF put assms(2,3)] assms(2,3)]
    by (auto simp: ic_add_eq Let_def split: option.splits prod.splits bool.splits)
qed

text \<open>
  What may happen to the streams of a pinned item: streams are appended, or the last one, as long
  as it is not ready, takes a further command.
\<close>

definition streams_kept :: "odistream list \<Rightarrow> odistream list \<Rightarrow> bool" where
  "streams_kept old new \<longleftrightarrow>
     (\<exists>rest. new = old @ rest) \<or>
     (\<not> od_isReady (last old) \<and> (\<exists>command. new = butlast old @ [od_addDataCommand (last old) command]))"

lemma streams_kept_refl [simp]: "streams_kept old old"
  by (simp add: streams_kept_def)

lemma streams_kept_append [simp]: "streams_kept old (old @ rest)"
  by (simp add: streams_kept_def)

lemma ic_add_pinned_same:
  assumes get: "ic_get c k = Some item" and acc: "it_access item \<noteq> 0" and ne: "it_versions item \<noteq> []"
    and k: "k = ov_identifier rv"
  shows "\<exists>item'. ic_get (snd (ic_add target order1 order0 now rv instanceID command usage c)) k = Some item' \<and>
    it_access item' = it_access item \<and> streams_kept (it_versions item) (it_versions item')"
proof -
  have enter: "ic_enter (ov_identifier rv) instanceID (oc_remote command) c = c"
    using get k by (simp add: ic_enter_def)
  show ?thesis
  proof (cases "ic_add_master instanceID (oc_remote command) usage (item, ic_size c)")
    case None
    with get k show ?thesis by (auto simp: ic_add_eq enter Let_def)
  next
    case (Some r)
    then have r: "r = (item\<lparr>it_used := max (it_used item) usage\<rparr>, ic_size c)"
      using acc by (auto simp: ic_add_master_def split: if_splits prod.splits)
    let ?item = "fst r"
    obtain b r2 where st: "ic_add_stream now (ov_version rv) r = (b, r2)" by (metis surj_pair)
    show ?thesis
    proof (cases b)
      case False
      with st have "it_versions (fst r2) = it_versions item" "it_access (fst r2) = it_access item"
        using acc ne by (auto simp: r ic_add_stream_def Let_def split: if_splits)
      with False st Some get k show ?thesis by (auto simp: ic_add_eq enter Let_def update_conv')
    next
      case True
      with st have r2: "r2 = (it_newStream now ?item, ic_size c) \<or>
          r2 = (?item, ic_size c) \<and> \<not> od_isReady (last (it_versions item))"
        using acc ne by (auto simp: r ic_add_stream_def Let_def split: if_splits)
      let ?a = "ic_append command r2"
      have kept: "streams_kept (it_versions item) (it_versions (fst ?a))"
        using r2 by (auto simp: r ic_append_def Let_def streams_kept_def)
      have ne': "it_versions (fst ?a) \<noteq> []" and acc': "it_access (fst ?a) = it_access item"
        using r2 by (auto simp: r ic_append_def Let_def it_newStream_def)
      have "ic_get (ic_put c k ?a) k = Some (fst ?a)" by (simp add: update_conv')
      with ne' acc acc' have "ic_get (ic_releaseItems target order0 0 (ic_releaseItems target order1 1 (ic_put c k ?a))) k
          = Some (fst ?a)"
        by (intro releaseItems_pinned) auto
      with True st Some get k kept acc' show ?thesis by (auto simp: ic_add_eq enter Let_def)
    qed
  qed
qed

section \<open>Sequences of operations\<close>

datatype ic_op =
    IcAdd uint64 "uint128 list" "uint128 list" int object_version uint32 odcommand uint32
  | IcRemove "uint128 list" NodeID
  | IcLookup uint128
  | IcRelease uint64 "uint128 list" uint128 uint32
  | IcErase uint128
  | IcExpire "uint128 list" int int

fun ic_exec :: "ic_op \<Rightarrow> instance_cache \<Rightarrow> instance_cache" where
  "ic_exec (IcAdd target order1 order0 now rv instanceID command usage) c =
     snd (ic_add target order1 order0 now rv instanceID command usage c)"
| "ic_exec (IcRemove order nodeID) c = ic_remove order nodeID c"
| "ic_exec (IcLookup k) c = snd (ic_lookup k c)"
| "ic_exec (IcRelease target order k n) c = snd (ic_release target order k n c)"
| "ic_exec (IcErase k) c = snd (ic_erase k c)"
| "ic_exec (IcExpire order now timeout) c = ic_expire order now timeout c"

definition ic_run :: "ic_op list \<Rightarrow> instance_cache \<Rightarrow> instance_cache" where
  "ic_run ops c = fold ic_exec ops c"

text \<open>The object store passes the version of the command itself.\<close>

fun ic_op_ok :: "ic_op \<Rightarrow> bool" where
  "ic_op_ok (IcAdd _ _ _ _ rv _ command _) \<longleftrightarrow> oc_version command = ov_version rv"
| "ic_op_ok _ \<longleftrightarrow> True"

text \<open>An object whose instance data fits into one command.\<close>

fun ic_op_complete :: "ic_op \<Rightarrow> bool" where
  "ic_op_complete (IcAdd _ _ _ _ rv _ command _) \<longleftrightarrow>
     oc_version command = ov_version rv \<and> oc_isLast command \<and> oc_version command \<noteq> VERSION_INVALID"
| "ic_op_complete _ \<longleftrightarrow> True"

lemma ic_exec_inv: "ic_inv c \<Longrightarrow> ic_op_ok op \<Longrightarrow> ic_inv (ic_exec op c)"
  by (cases op) (simp_all add: ic_inv_add ic_remove_inv ic_lookup_inv ic_release_inv ic_erase_inv ic_expire_inv)

lemma ic_inv_new: "ic_inv (ic_new maxSize)"
  by (simp add: ic_inv_def ic_wf_def ic_new_def)

lemma ic_run_inv: "ic_inv c \<Longrightarrow> list_all ic_op_ok ops \<Longrightarrow> ic_inv (ic_run ops c)"
  by (induction ops arbitrary: c) (simp_all add: ic_run_def ic_exec_inv)

lemma ic_exec_streams:
  "\<not> (\<exists>t o1 o0 n rv i cmd u. op = IcAdd t o1 o0 n rv i cmd u) \<Longrightarrow> ic_streams (ic_exec op c) \<subseteq> ic_streams c"
proof (cases op)
  case (IcRemove order nodeID)
  then show ?thesis
    using ic_streams_erase_keys ic_streams_remove_loop [of nodeID order c "[]"]
    by (cases "ic_remove_loop nodeID order (c, [])") (force simp: ic_remove_def)
next
  case (IcExpire order now timeout)
  then show ?thesis
    using subset_trans [OF ic_streams_erase_keys] ic_streams_expire_loop [of "now - timeout" order c "[]"]
    by (cases "ic_expire_loop (now - timeout) order (c, [])") (simp add: ic_expire_def Let_def)
next
  case (IcLookup k)
  then show ?thesis using ic_streams_put_subset [of c k] by (auto simp: ic_lookup_def split: option.splits)
next
  case (IcRelease target order k n)
  then show ?thesis
    using ic_streams_put_subset [of c k] subset_trans [OF ic_streams_releaseItems]
    by (simp add: ic_release_def split: option.splits)
next
  case (IcErase k)
  then show ?thesis
    using ic_streams_put_subset [of c k] subset_trans [OF ic_streams_remove_key]
    by (simp add: ic_erase_def ic_releaseStreams_def split: option.splits)
qed simp

lemma ic_accounted_iff: "ic_accounted c \<longleftrightarrow> ic_wf c \<and> ic_complete c \<and> ic_excess c = 0"
  by (auto simp: ic_accounted_def ic_excess_def)

lemma ic_exec_accounted:
  assumes "ic_inv c" and "ic_accounted c" and "ic_op_complete op"
  shows "ic_accounted (ic_exec op c)"
proof (cases "\<exists>t o1 o0 n rv i cmd u. op = IcAdd t o1 o0 n rv i cmd u")
  case True
  then obtain t o1 o0 n rv i cmd u where op: "op = IcAdd t o1 o0 n rv i cmd u" by blast
  with assms(3) have cmd: "oc_version cmd = ov_version rv" "oc_isLast cmd" "oc_version cmd \<noteq> VERSION_INVALID"
    by auto
  show ?thesis
    using ic_inv_wf [OF ic_inv_add [OF assms(1) cmd(1)]] ic_add_accounted [OF assms(1,2) cmd(2,3,1)]
    by (simp add: op ic_accounted_iff)
next
  case False
  then have "ic_op_ok op" by (cases op) auto
  then have "ic_wf (ic_exec op c)" using assms(1) by (simp add: ic_exec_inv ic_inv_wf)
  moreover have "ic_excess (ic_exec op c) = ic_excess c"
    using False assms(1) ic_remove_inv ic_lookup_inv ic_release_inv ic_erase_inv ic_expire_inv by (cases op) auto
  ultimately show ?thesis
    using ic_exec_streams [OF False] assms(2) by (auto simp: ic_accounted_iff ic_complete_iff)
qed

lemma ic_run_accounted:
  "ic_inv c \<Longrightarrow> ic_accounted c \<Longrightarrow> list_all ic_op_complete ops \<Longrightarrow> ic_accounted (ic_run ops c)"
proof (induction ops arbitrary: c)
  case (Cons op ops)
  then have "ic_op_ok op" by (cases op) auto
  with Cons show ?case by (simp add: ic_run_def ic_exec_inv ic_exec_accounted)
qed (simp add: ic_run_def)

lemma ic_accounted_new: "ic_accounted (ic_new maxSize)"
  by (simp add: ic_accounted_def ic_wf_def ic_complete_def ic_bytes_def ic_new_def)

section \<open>Properties\<close>

text \<open>Commands for the concrete runs below: complete instance data of one version.\<close>

definition sample_command :: "uint128 \<Rightarrow> uint64 \<Rightarrow> bool \<Rightarrow> odcommand" where
  "sample_command v sz isLast =
     \<lparr>oc_valid = True, oc_size = sz, oc_type = 1, oc_cmd = CMD_OBJECT_INSTANCE, oc_objectID = 7,
      oc_instanceID = 0, oc_version = v, oc_datasize = sz, oc_sequence = 0, oc_isLast = isLast,
      oc_compressor = 0, oc_chunks = 1, oc_rest = [], oc_remote = 5, oc_local = 6, oc_swapping = False\<rparr>"

definition sample_ops :: "ic_op list" where
  "sample_ops =
     [IcAdd 80 [7] [7] 1 (ObjectVersion 7 1) 3 (sample_command 1 50 True) 0,
      IcAdd 80 [7] [7] 2 (ObjectVersion 7 2) 3 (sample_command 2 40 True) 0]"

text \<open>C1 (instance_cache_invariant): whatever sequence of calls is made on a new cache, its
  entries have distinct object identifiers, no entry is empty, every cached stream has a time stamp
  and at least one command, and the cached versions of each object follow each other without a gap.\<close>

theorem instance_cache_invariant:
  assumes "list_all ic_op_ok ops"
  shows "ic_inv (ic_run ops (ic_new maxSize))"
  using ic_inv_new assms by (rule ic_run_inv)

theorem instance_cache_invariant_witness: "ic_inv (ic_run sample_ops (ic_new 100))"
  by (rule instance_cache_invariant) (simp add: sample_ops_def sample_command_def)

text \<open>C2 (instance_cache_accounting): as long as every object's instance data arrives in one
  complete command, the size counter is exactly the number of bytes of the streams held, whatever was
  evicted, expired, erased or removed in between.\<close>

theorem instance_cache_accounting:
  assumes "list_all ic_op_complete ops"
  shows "ic_size (ic_run ops (ic_new maxSize)) = ic_bytes (ic_run ops (ic_new maxSize))"
  using ic_run_accounted [OF ic_inv_new ic_accounted_new assms] by (simp add: ic_accounted_def)

theorem instance_cache_accounting_witness:
  "ic_size (ic_run sample_ops (ic_new 100)) = ic_bytes (ic_run sample_ops (ic_new 100))"
  by (rule instance_cache_accounting) (simp add: sample_ops_def sample_command_def VERSION_INVALID_def)

text \<open>C3 (instance_cache_capacity): an eviction round without a usage limit leaves a cache that
  does not exceed its maximum size as it is; when the cache is over its maximum size, the round
  brings it down to the target, or every item that is left is pinned by a reader.\<close>

theorem instance_cache_capacity:
  assumes "ic_inv c" and "fst ` set (ic_items c) \<subseteq> set order"
  shows "if ic_size c \<le> ic_maxSize c then ic_releaseItems target order 0 c = c
    else ic_size (ic_releaseItems target order 0 c) \<le> target \<or>
      (\<forall>k item. ic_get (ic_releaseItems target order 0 c) k = Some item \<longrightarrow> it_access item \<noteq> 0)"
proof (cases "ic_size c \<le> ic_maxSize c")
  case True
  then show ?thesis by (simp add: ic_releaseItems_def)
next
  case False
  then show ?thesis
    using releaseItems_capacity [OF assms, of target 0] by (fastforce simp: ic_evictable_def not_le)
qed

definition sample_cache :: instance_cache where
  "sample_cache =
     \<lparr>ic_items = [(7, \<lparr>it_masterInstanceID = 3,
                      it_versions = [od_addDataCommand od_new (sample_command 1 50 True),
                                     od_addDataCommand od_new (sample_command 2 60 True)],
                      it_used = 0, it_access = 0, it_from = 5, it_times = [1, 2]\<rparr>)],
      ic_maxSize = 100, ic_size = 110\<rparr>"

theorem instance_cache_capacity_witness:
  "ic_size (ic_releaseItems 80 [7] 0 sample_cache) \<le> 80 \<or>
    (\<forall>k item. ic_get (ic_releaseItems 80 [7] 0 sample_cache) k = Some item \<longrightarrow> it_access item \<noteq> 0)"
proof -
  have "ic_inv sample_cache" "fst ` set (ic_items sample_cache) \<subseteq> set [7]"
    "\<not> ic_size sample_cache \<le> ic_maxSize sample_cache"
    by (simp_all add: sample_cache_def ic_inv_def ic_wf_def it_ok_def sample_command_def)
  then show ?thesis using instance_cache_capacity [of sample_cache "[7]" 80] by simp
qed

lemma sample_ready: "v \<noteq> VERSION_INVALID \<Longrightarrow> od_isReady (od_addDataCommand od_new (sample_command v sz True))"
  by (simp add: od_isReady_def od_addDataCommand_def od_setReady_def od_new_def od_reset_members_def
      od_getPendingVersion_def sample_command_def)

lemma sample_version: "oc_version (sample_command v sz l) = v"
  by (simp add: sample_command_def)

definition pinned_item :: ic_item where
  "pinned_item = \<lparr>it_masterInstanceID = 3,
                  it_versions = [od_addDataCommand od_new (sample_command 1 50 True),
                                 od_addDataCommand od_new (sample_command 2 60 True)],
                  it_used = 0, it_access = 1, it_from = 5, it_times = [1, 2]\<rparr>"

definition pinned_cache :: instance_cache where
  "pinned_cache = \<lparr>ic_items = [(7, pinned_item)], ic_maxSize = 100, ic_size = 110\<rparr>"

lemma ic_exec_pinned:
  assumes "ic_inv c" and "ic_get c k = Some item" and "it_access item \<noteq> 0"
    and "\<And>t order n. op \<noteq> IcRelease t order k n"
  shows "\<exists>item'. ic_get (ic_exec op c) k = Some item' \<and> streams_kept (it_versions item) (it_versions item')"
proof -
  have ne: "it_versions item \<noteq> []" using ic_inv_get [OF assms(1,2)] by simp
  have keep: ?thesis if "ic_get (ic_exec op c) k = Some item" using that by auto
  show ?thesis
  proof (cases op)
    case (IcAdd t o1 o0 n rv i cmd u)
    then show ?thesis
      using ic_add_pinned_same [OF assms(2,3) ne, of rv t o1 o0 n i cmd u]
        ic_add_pinned_other [OF assms(2,3) ne, of rv t o1 o0 n i cmd u] keep
      by (cases "k = ov_identifier rv") auto
  next
    case (IcRemove order nodeID)
    with remove_loop_pinned [OF assms(2,3), of "[]" nodeID order] show ?thesis
      by (cases "ic_remove_loop nodeID order (c, [])") (simp add: keep ic_remove_def erase_keys_get)
  next
    case (IcLookup i)
    then show ?thesis using assms(2) by (auto simp: ic_lookup_def update_conv' split: option.splits)
  next
    case (IcRelease t order i n)
    with assms(4) have "i \<noteq> k" by blast
    with IcRelease assms(2) show ?thesis
      using releaseItems_pinned [of "ic_put c i r" k item for r] assms(3) ne
      by (auto simp: keep ic_release_def update_conv' split: option.splits)
  next
    case (IcErase i)
    then show ?thesis using assms(2,3) by (auto simp: keep ic_erase_def update_conv' delete_conv' split: option.splits)
  next
    case (IcExpire order now timeout)
    with expire_loop_pinned [OF assms(2,3), of "[]" "now - timeout" order] assms(2) show ?thesis
      by (cases "ic_expire_loop (now - timeout) order (c, [])")
         (simp add: keep ic_expire_def Let_def erase_keys_get)
  qed
qed

text \<open>C4 (instance_cache_pinned): data that a reader has pinned stays: an operation other than the
  release of that object keeps every cached stream of it; it can only append streams, or add a
  further command to the last stream while that is not complete.\<close>

theorem instance_cache_pinned:
  assumes "ic_inv c" and "ic_get c k = Some item" and "it_access item \<noteq> 0"
    and "\<And>t order n. op \<noteq> IcRelease t order k n"
  shows "\<exists>item'. ic_get (ic_exec op c) k = Some item' \<and>
    ((\<exists>rest. it_versions item' = it_versions item @ rest) \<or>
     \<not> od_isReady (last (it_versions item)) \<and>
       (\<exists>command. it_versions item' =
          butlast (it_versions item) @ [od_addDataCommand (last (it_versions item)) command]))"
  using ic_exec_pinned [OF assms] by (simp add: streams_kept_def)

theorem instance_cache_pinned_witness:
  "\<exists>item'. ic_get (ic_exec (IcErase 7) pinned_cache) 7 = Some item' \<and>
     ((\<exists>rest. it_versions item' = it_versions pinned_item @ rest) \<or>
      \<not> od_isReady (last (it_versions pinned_item)) \<and>
       (\<exists>command. it_versions item' =
          butlast (it_versions pinned_item) @ [od_addDataCommand (last (it_versions pinned_item)) command]))"
  by (rule instance_cache_pinned [of pinned_cache 7 "pinned_item" "IcErase 7"])
     (simp_all add: pinned_cache_def pinned_item_def ic_inv_def ic_wf_def it_ok_def
      sample_ready sample_version)

text \<open>Only complete streams are counted into \<^verbatim>\<open>_size\<close>, but
  the eviction loop deletes whatever stream is at the front of an unpinned item. A cache of capacity
  100 that receives the first half (90 bytes) of an instance of object 7 and then a complete
  instance of 110 bytes of object 8 evicts the half stream and subtracts the 90 bytes it never added: the
  unsigned 64-bit counter records 20 bytes too few for what is held.\<close>

theorem instance_cache_incomplete_eviction:
  "let c = ic_run [IcAdd 80 [7] [7] 1 (ObjectVersion 7 1) 3 (sample_command 1 90 False) 0,
                   IcAdd 80 [7, 8] [7, 8] 2 (ObjectVersion 8 1) 3 (sample_command 1 110 True) 0]
             (ic_new 100)
   in ic_size c = 20 \<and> ic_bytes c = 110"
  by code_simp

end
