(* ===== verification/Connections.thy ===== *)
theory Connections
  imports Collage_Prelude
begin

text \<open>
  The connections used to send to a set of nodes, \<^verbatim>\<open>src/co/connections.h\<close>. A node has a unicast
  connection, unless it is closed, and possibly a multicast connection that other nodes
  share; multicast connections are compared by their description, here a number.
\<close>

datatype connection = Unicast NodeID | Multicast nat

record node =
  nd_id :: NodeID
  nd_outgoing :: bool
  nd_multicast :: "nat option"

text \<open>\<^verbatim>\<open>Node::getConnection\<close>, with \<^term>\<open>None\<close> for the null pointer.\<close>

definition nd_getConnection :: "bool \<Rightarrow> node \<Rightarrow> connection option" where
  "nd_getConnection preferMulticast n =
     (case (if preferMulticast then nd_multicast n else None) of
        Some d \<Rightarrow> Some (Multicast d)
      | None \<Rightarrow> if nd_outgoing n then Some (Unicast (nd_id n)) else None)"

text \<open>
  The loop over the nodes: the first nodes of the multicast groups seen once, the groups
  already added, and the result. The map of first nodes is iterated in insertion order.
\<close>

fun gather_loop ::
  "node list \<Rightarrow> (nat \<times> node) list \<Rightarrow> nat list \<Rightarrow> connection list \<Rightarrow> (nat \<times> node) list \<times> connection list" where
  "gather_loop [] mcNodes mcSet result = (mcNodes, result)"
| "gather_loop (n # nodes) mcNodes mcSet result =
     (case nd_getConnection True n of
        None \<Rightarrow> gather_loop nodes mcNodes mcSet result
      | Some (Multicast desc) \<Rightarrow>
          if desc \<in> set mcSet then gather_loop nodes mcNodes mcSet result
          else (case map_of mcNodes desc of
                  None \<Rightarrow> gather_loop nodes (mcNodes @ [(desc, n)]) mcSet result
                | Some _ \<Rightarrow> gather_loop nodes (AList.delete desc mcNodes) (desc # mcSet) (result @ [Multicast desc]))
      | Some (Unicast i) \<Rightarrow> gather_loop nodes mcNodes mcSet (result @ [Unicast i]))"

definition gatherConnections :: "node list \<Rightarrow> connection list" where
  "gatherConnections nodes =
     (case gather_loop nodes [] [] [] of
        (mcNodes, result) \<Rightarrow>
          result @ concat (map (\<lambda>(d, n). case nd_getConnection False n of Some c \<Rightarrow> [c] | None \<Rightarrow> []) mcNodes))"

section \<open>Every node is reached exactly once\<close>

fun delivers :: "node \<Rightarrow> connection \<Rightarrow> bool" where
  "delivers n (Unicast i) \<longleftrightarrow> i = nd_id n"
| "delivers n (Multicast d) \<longleftrightarrow> nd_multicast n = Some d"

definition nodes_ok :: "node list \<Rightarrow> bool" where
  "nodes_ok nodes \<longleftrightarrow> distinct (map nd_id nodes) \<and> list_all nd_outgoing nodes"

text \<open>Another receiver of the multicast group that reaches the node.\<close>

definition shares_group :: "node list \<Rightarrow> node \<Rightarrow> bool" where
  "shares_group nodes n \<longleftrightarrow>
     (\<exists>d. nd_multicast n = Some d \<and> (\<exists>m \<in> set nodes. m \<noteq> n \<and> nd_multicast m = Some d))"

definition two_members :: "node list \<Rightarrow> nat \<Rightarrow> bool" where
  "two_members nodes d \<longleftrightarrow>
     (\<exists>a \<in> set nodes. \<exists>b \<in> set nodes. a \<noteq> b \<and> nd_multicast a = Some d \<and> nd_multicast b = Some d)"

lemma two_members_append: "two_members nodes d \<Longrightarrow> two_members (nodes @ others) d"
  unfolding two_members_def by (metis UnI1 set_append)

lemma two_membersI:
  "m \<in> set nodes \<Longrightarrow> n \<in> set nodes \<Longrightarrow> m \<noteq> n \<Longrightarrow> nd_multicast m = Some d \<Longrightarrow> nd_multicast n = Some d \<Longrightarrow>
   two_members nodes d"
  by (auto simp: two_members_def)

definition gather_inv ::
  "node list \<Rightarrow> (nat \<times> node) list \<Rightarrow> nat list \<Rightarrow> connection list \<Rightarrow> bool" where
  "gather_inv seen mcNodes mcSet result \<longleftrightarrow>
     distinct (map fst mcNodes) \<and> set (map fst mcNodes) \<inter> set mcSet = {} \<and>
     (\<forall>(d, n) \<in> set mcNodes. n \<in> set seen \<and> nd_multicast n = Some d) \<and>
     (\<forall>n \<in> set seen. \<forall>d. nd_multicast n = Some d \<longrightarrow> d \<in> set mcSet \<or> (d, n) \<in> set mcNodes) \<and>
     (\<forall>d \<in> set mcSet. two_members seen d) \<and>
     distinct result \<and> (\<forall>d. Multicast d \<in> set result \<longleftrightarrow> d \<in> set mcSet) \<and>
     (\<forall>i. Unicast i \<in> set result \<longleftrightarrow> (\<exists>n \<in> set seen. nd_id n = i \<and> nd_multicast n = None))"

lemma gather_inv_loop:
  assumes "gather_inv seen mcNodes mcSet result" and "distinct (map nd_id (seen @ nodes))"
    and "list_all nd_outgoing nodes" and "gather_loop nodes mcNodes mcSet result = (mc, r)"
  shows "\<exists>ms. gather_inv (seen @ nodes) mc ms r"
  using assms
proof (induction nodes arbitrary: seen mcNodes mcSet result)
  case Nil
  then show ?case by auto
next
  case (Cons n nodes)
  note IH = Cons.IH [of "seen @ [n]"]
  have out: "nd_outgoing n" and dist: "distinct (map nd_id ((seen @ [n]) @ nodes))"
    and outs: "list_all nd_outgoing nodes" using Cons.prems(2,3) by simp_all
  have fresh: "m \<in> set seen \<Longrightarrow> nd_id m \<noteq> nd_id n" for m using dist by (auto simp: image_iff)
  show ?case
  proof (cases "nd_multicast n")
    case None
    then have conn: "nd_getConnection True n = Some (Unicast (nd_id n))"
      using out by (simp add: nd_getConnection_def)
    have "gather_inv (seen @ [n]) mcNodes mcSet (result @ [Unicast (nd_id n)])"
      using Cons.prems(1) None fresh by (auto simp: gather_inv_def two_members_append)
    from IH [OF this dist outs] show ?thesis using Cons.prems(4) by (simp add: conn)
  next
    case (Some d)
    then have conn: "nd_getConnection True n = Some (Multicast d)"
      by (simp add: nd_getConnection_def)
    consider "d \<in> set mcSet" | "d \<notin> set mcSet" "map_of mcNodes d = None"
      | m where "d \<notin> set mcSet" "map_of mcNodes d = Some m" by fastforce
    then show ?thesis
    proof cases
      case 1
      have "gather_inv (seen @ [n]) mcNodes mcSet result"
        using Cons.prems(1) Some 1 by (auto simp: gather_inv_def two_members_append)
      from IH [OF this dist outs] show ?thesis using Cons.prems(4) 1 by (simp add: conn)
    next
      case 2
      have "gather_inv (seen @ [n]) (mcNodes @ [(d, n)]) mcSet result"
        using Cons.prems(1) Some 2
        by (auto simp: gather_inv_def map_of_eq_None_iff two_members_append)
      from IH [OF this dist outs] show ?thesis using Cons.prems(4) 2 by (simp add: conn)
    next
      case 3
      then have m: "m \<in> set seen" "nd_multicast m = Some d" "m \<noteq> n"
        using Cons.prems(1) fresh map_of_SomeD [of mcNodes d m] by (fastforce simp: gather_inv_def)+
      then have "two_members (seen @ [n]) d" using Some by (auto intro: two_membersI [of m _ n])
      then have "gather_inv (seen @ [n]) (AList.delete d mcNodes) (d # mcSet) (result @ [Multicast d])"
        using Cons.prems(1) Some 3
        by (auto simp: gather_inv_def AList.delete_eq distinct_map_filter two_members_append)
      from IH [OF this dist outs] show ?thesis using Cons.prems(4) 3 by (simp add: conn)
    qed
  qed
qed

lemma gather_result:
  assumes "nodes_ok nodes"
  obtains mc ms r where "gather_inv nodes mc ms r"
    and "gatherConnections nodes = r @ map (\<lambda>(d, n). Unicast (nd_id n)) mc"
proof -
  obtain mc r where loop: "gather_loop nodes [] [] [] = (mc, r)" by fastforce
  have "gather_inv [] [] [] []" by (simp add: gather_inv_def)
  from gather_inv_loop [OF this _ _ loop] assms obtain ms where inv: "gather_inv nodes mc ms r"
    by (auto simp: nodes_ok_def)
  have "\<forall>(d, n) \<in> set mc. nd_outgoing n"
    using inv assms by (auto simp: gather_inv_def nodes_ok_def list_all_iff)
  then have "concat (map (\<lambda>(d, n). case nd_getConnection False n of Some c \<Rightarrow> [c] | None \<Rightarrow> []) mc) =
      map (\<lambda>(d, n). Unicast (nd_id n)) mc"
    by (induction mc) (auto simp: nd_getConnection_def)
  with loop inv that show ?thesis by (simp add: gatherConnections_def)
qed

lemma gather_shared:
  assumes inv: "gather_inv nodes mc ms r" and n: "n \<in> set nodes"
  shows "(nd_multicast n = None \<or> the (nd_multicast n) \<notin> set ms) \<longleftrightarrow> \<not> shares_group nodes n"
proof (cases "nd_multicast n")
  case None
  then show ?thesis by (simp add: shares_group_def)
next
  case (Some d)
  have first: "m \<in> set nodes \<Longrightarrow> nd_multicast m = Some d \<Longrightarrow> d \<in> set ms \<or> (d, m) \<in> set mc" for m
    using inv by (auto simp: gather_inv_def)
  have key: "distinct (map fst mc)" using inv by (simp add: gather_inv_def)
  have "d \<in> set ms \<longleftrightarrow> (\<exists>m \<in> set nodes. m \<noteq> n \<and> nd_multicast m = Some d)"
  proof
    assume "d \<in> set ms"
    then obtain a b where "a \<in> set nodes" "b \<in> set nodes" "a \<noteq> b" "nd_multicast a = Some d"
        "nd_multicast b = Some d"
      using inv by (auto simp: gather_inv_def two_members_def)
    then show "\<exists>m \<in> set nodes. m \<noteq> n \<and> nd_multicast m = Some d" by metis
  next
    assume "\<exists>m \<in> set nodes. m \<noteq> n \<and> nd_multicast m = Some d"
    then obtain m where "m \<in> set nodes" "m \<noteq> n" "nd_multicast m = Some d" by blast
    with first [of m] first [OF n Some] key show "d \<in> set ms" by (metis eq_key_imp_eq_value)
  qed
  with Some show ?thesis by (simp add: shares_group_def)
qed

lemma distinct_singleton_set: "distinct xs \<Longrightarrow> set xs = {x} \<Longrightarrow> xs = [x]"
proof (cases xs)
  case (Cons a ys)
  assume "distinct xs" and "set xs = {x}"
  with Cons show ?thesis by (cases ys) auto
qed simp

text \<open>C5 (gather_exactly_once): when the receivers are distinct nodes with an outgoing connection,
  sending once on every gathered connection delivers exactly one copy to every node: over its
  multicast group if another receiver shares the group, over its own connection otherwise.\<close>

theorem gather_exactly_once:
  assumes "nodes_ok nodes" and "n \<in> set nodes"
  shows "filter (delivers n) (gatherConnections nodes) =
    [if shares_group nodes n then Multicast (the (nd_multicast n)) else Unicast (nd_id n)]"
proof -
  obtain mc ms r where inv: "gather_inv nodes mc ms r"
    and result: "gatherConnections nodes = r @ map (\<lambda>(d, n). Unicast (nd_id n)) mc"
    using gather_result [OF assms(1)] by blast
  have same: "a \<in> set nodes \<Longrightarrow> b \<in> set nodes \<Longrightarrow> nd_id a = nd_id b \<Longrightarrow> a = b" for a b
    using assms(1) by (simp add: nodes_ok_def distinct_map inj_on_def)
  have mcD: "(d, m) \<in> set mc \<Longrightarrow> m \<in> set nodes \<and> nd_multicast m = Some d" for d m
    using inv by (auto simp: gather_inv_def)
  have uni: "Unicast (nd_id m) \<in> set r \<longleftrightarrow> nd_multicast m = None" if "m \<in> set nodes" for m
    using inv same that by (auto simp: gather_inv_def)
  have "distinct (map (\<lambda>(d, m). Unicast (nd_id m)) mc)"
    using inv mcD same
    by (auto simp: distinct_map inj_on_def gather_inv_def) (metis option.inject)
  moreover have "set r \<inter> set (map (\<lambda>(d, m). Unicast (nd_id m)) mc) = {}"
    using mcD uni by fastforce
  ultimately have dist: "distinct (gatherConnections nodes)"
    using inv by (simp add: result gather_inv_def)
  have "{c \<in> set (gatherConnections nodes). delivers n c} =
      {if nd_multicast n = None \<or> the (nd_multicast n) \<notin> set ms then Unicast (nd_id n)
       else Multicast (the (nd_multicast n))}"
  proof -
    have grp: "Multicast e \<in> set r \<longleftrightarrow> e \<in> set ms" for e using inv by (auto simp: gather_inv_def)
    have disj: "(e, m) \<in> set mc \<Longrightarrow> e \<notin> set ms" for e m using inv by (force simp: gather_inv_def)
    have first: "nd_multicast n = Some d \<Longrightarrow> d \<in> set ms \<or> (d, n) \<in> set mc" for d
      using inv assms(2) by (auto simp: gather_inv_def)
    have tail: "Unicast (nd_id n) \<in> (\<lambda>(d, m). Unicast (nd_id m)) ` set mc \<longleftrightarrow> (\<exists>d. (d, n) \<in> set mc)"
    proof
      assume "Unicast (nd_id n) \<in> (\<lambda>(d, m). Unicast (nd_id m)) ` set mc"
      then obtain d m where "(d, m) \<in> set mc" "nd_id m = nd_id n" by auto
      with mcD same assms(2) show "\<exists>d. (d, n) \<in> set mc" by blast
    next
      assume "\<exists>d. (d, n) \<in> set mc"
      then show "Unicast (nd_id n) \<in> (\<lambda>(d, m). Unicast (nd_id m)) ` set mc" by force
    qed
    define x where "x = (if nd_multicast n = None \<or> the (nd_multicast n) \<notin> set ms then Unicast (nd_id n)
             else Multicast (the (nd_multicast n)))"
    have mem: "c \<in> set (gatherConnections nodes) \<longleftrightarrow> c \<in> set r \<or> c \<in> (\<lambda>(d, m). Unicast (nd_id m)) ` set mc" for c
      by (auto simp: result)
    have "c \<in> set (gatherConnections nodes) \<and> delivers n c \<longleftrightarrow> c = x" for c
    proof (cases c)
      case (Unicast i)
      have "Unicast (nd_id n) \<in> set (gatherConnections nodes) \<longleftrightarrow> x = Unicast (nd_id n)"
        unfolding mem uni [OF assms(2)] tail x_def
        using first disj mcD [of _ n] by (cases "nd_multicast n") auto
      with Unicast show ?thesis by (auto simp: x_def split: if_splits)
    next
      case (Multicast d)
      then show ?thesis by (auto simp: mem grp x_def split: if_splits)
    qed
    then show ?thesis unfolding x_def by blast
  qed
  moreover have "(nd_multicast n = None \<or> the (nd_multicast n) \<notin> set ms) \<longleftrightarrow> \<not> shares_group nodes n"
    by (rule gather_shared [OF inv assms(2)])
  ultimately have "set (filter (delivers n) (gatherConnections nodes)) =
      {if shares_group nodes n then Multicast (the (nd_multicast n)) else Unicast (nd_id n)}"
    by auto
  with dist show ?thesis by (metis distinct_filter distinct_singleton_set)
qed

theorem gather_exactly_once_witness:
  "filter (delivers \<lparr>nd_id = 2, nd_outgoing = True, nd_multicast = Some 9\<rparr>)
     (gatherConnections [\<lparr>nd_id = 1, nd_outgoing = True, nd_multicast = Some 9\<rparr>,
                         \<lparr>nd_id = 2, nd_outgoing = True, nd_multicast = Some 9\<rparr>,
                         \<lparr>nd_id = 3, nd_outgoing = True, nd_multicast = Some 8\<rparr>]) = [Multicast 9]"
  using gather_exactly_once [of "[\<lparr>nd_id = 1, nd_outgoing = True, nd_multicast = Some 9\<rparr>,
                         \<lparr>nd_id = 2, nd_outgoing = True, nd_multicast = Some 9\<rparr>,
                         \<lparr>nd_id = 3, nd_outgoing = True, nd_multicast = Some 8\<rparr>]"
      "\<lparr>nd_id = 2, nd_outgoing = True, nd_multicast = Some 9\<rparr>"]
  by (simp add: nodes_ok_def shares_group_def)

end
