(* ===== verification/Data_OStream.thy ===== *)
theory Data_OStream
  imports Data_IStream Connections
begin

text \<open>
  The output stream base class, \<^verbatim>\<open>src/co/dataOStream.cpp\<close>: buffering, bucketizing,
  compressing and retaining the data an application writes. A subclass supplies
  \<open>sendData\<close>; here its members are the field \<^verbatim>\<open>os_sub\<close> and its effect is the argument
  \<open>emit\<close>. The compressor comes from the pression library, the argument \<open>P\<close>; the two
  attributes of \<^verbatim>\<open>co::Global\<close> the code reads are the argument \<open>G\<close>. Buffers live in memory,
  so their sizes are natural numbers.
\<close>

section \<open>State\<close>

datatype compressor_state =
  STATE_UNCOMPRESSED | STATE_PARTIAL | STATE_COMPLETE | STATE_UNCOMPRESSIBLE

text \<open>\<^verbatim>\<open>detail::DataOStream\<close>; \<open>os_result\<close> holds the chunks of the compressor's last result.\<close>

record 'a ostream =
  os_state :: compressor_state
  os_buffer :: bytes
  os_bufferStart :: nat
  os_dataSize :: nat
  os_compressedDataSize :: nat
  os_result :: "bytes list"
  os_connections :: "connection list"
  os_enabled :: bool
  os_dataSent :: bool
  os_save :: bool
  os_sub :: 'a

record global_config =
  getObjectBufferSize :: nat
  IATTR_OBJECT_COMPRESSION :: nat

text \<open>What one \<open>sendData\<close> puts on the wire: the data header, the flag and the body.\<close>

record packet =
  pk_compressor :: uint32
  pk_nChunks :: uint32
  pk_size :: uint64
  pk_last :: bool
  pk_bodySize :: nat
  pk_body :: bytes

definition os_new :: "'a \<Rightarrow> 'a ostream" where
  "os_new sub =
     \<lparr>os_state = STATE_UNCOMPRESSED, os_buffer = [], os_bufferStart = 0, os_dataSize = 0,
      os_compressedDataSize = 0, os_result = [], os_connections = [], os_enabled = False,
      os_dataSent = False, os_save = False, os_sub = sub\<rparr>"

section \<open>Compression\<close>

definition os_uncompressed :: "'a ostream \<Rightarrow> bool" where
  "os_uncompressed s \<longleftrightarrow> os_state s = STATE_UNCOMPRESSED \<or> os_state s = STATE_UNCOMPRESSIBLE"

definition os_getCompressor :: "pression \<Rightarrow> 'a ostream \<Rightarrow> uint32" where
  "os_getCompressor P s = (if os_uncompressed s then EQ_COMPRESSOR_NONE P else pr_name P)"

definition os_getNumChunks :: "'a ostream \<Rightarrow> uint32" where
  "os_getNumChunks s = (if os_uncompressed s then 1 else of_nat (length (os_result s)))"

definition os_compress ::
  "global_config \<Rightarrow> pression \<Rightarrow> bytes \<Rightarrow> nat \<Rightarrow> compressor_state \<Rightarrow> 'a ostream \<Rightarrow> 'a ostream" where
  "os_compress G P src n result s =
     (if os_state s = result \<or> os_state s = STATE_UNCOMPRESSIBLE then s
      else if \<not> pr_isGood P \<or> n \<le> IATTR_OBJECT_COMPRESSION G then s\<lparr>os_state := STATE_UNCOMPRESSED\<rparr>
      else
        (let chunks = pr_compress P src;
             compressedDataSize = sum_list (map length chunks);
             s = s\<lparr>os_result := chunks, os_compressedDataSize := compressedDataSize\<rparr>
         in if compressedDataSize \<ge> n then s\<lparr>os_state := STATE_UNCOMPRESSIBLE\<rparr>
            else if result = STATE_COMPLETE then s\<lparr>os_state := result, os_buffer := []\<rparr>
            else s\<lparr>os_state := result\<rparr>))"

text \<open>\<^verbatim>\<open>_getCompressedData\<close>: the chunks with their sizes, and the sum of the sizes.\<close>

definition os_getCompressedData :: "'a ostream \<Rightarrow> (bytes \<times> uint64) list \<times> nat" where
  "os_getCompressedData s =
     (map (\<lambda>c. (c, of_nat (length c))) (os_result s), sum_list (map length (os_result s)))"

definition os_getCompressedDataSize :: "pression \<Rightarrow> 'a ostream \<Rightarrow> nat" where
  "os_getCompressedDataSize P s =
     (if os_getCompressor P s = EQ_COMPRESSOR_NONE P then 0
      else os_compressedDataSize s + unat (os_getNumChunks s) * 8)"

section \<open>Sending\<close>

definition os_streamDataHeader :: "pression \<Rightarrow> 'a ostream \<Rightarrow> bytes" where
  "os_streamDataHeader P s = le_bytes 4 (os_getCompressor P s) @ le_bytes 4 (os_getNumChunks s)"

text \<open>\<^verbatim>\<open>sendBody\<close>: the bytes put on one connection.\<close>

definition os_sendBody :: "pression \<Rightarrow> 'a ostream \<Rightarrow> bytes \<Rightarrow> nat \<Rightarrow> bytes" where
  "os_sendBody P s data n =
     (if os_getCompressor P s = EQ_COMPRESSOR_NONE P then (if n > 0 then take n data else [])
      else concat (map (\<lambda>(c, size). le_bytes 8 size @ take (unat size) c) (fst (os_getCompressedData s))))"

text \<open>
  The packet of one \<open>sendData\<close> call. The body goes out only if its size, compressed or not, is
  positive (\<^verbatim>\<open>ObjectDataOCommand::~ObjectDataOCommand\<close>).
\<close>

definition os_bodySize :: "pression \<Rightarrow> 'a ostream \<Rightarrow> nat \<Rightarrow> nat" where
  "os_bodySize P s n =
     (let size = os_getCompressedDataSize P s in if size = 0 then n else size)"

definition os_packet :: "pression \<Rightarrow> 'a ostream \<Rightarrow> bytes \<Rightarrow> nat \<Rightarrow> bool \<Rightarrow> packet" where
  "os_packet P s data n isLast =
     \<lparr>pk_compressor = os_getCompressor P s, pk_nChunks = os_getNumChunks s,
      pk_size = of_nat n, pk_last = isLast,
      pk_bodySize = os_bodySize P s n,
      pk_body = (if os_bodySize P s n > 0 then os_sendBody P s data (os_bodySize P s n) else [])\<rparr>"

definition os_sendData ::
  "pression \<Rightarrow> (connection list \<Rightarrow> packet \<Rightarrow> 'a \<Rightarrow> 'a) \<Rightarrow> bytes \<Rightarrow> nat \<Rightarrow> bool \<Rightarrow> 'a ostream \<Rightarrow> 'a ostream" where
  "os_sendData P emit data n isLast s =
     s\<lparr>os_sub := emit (os_connections s) (os_packet P s data n isLast) (os_sub s)\<rparr>"

section \<open>Operations\<close>

definition os_enable :: "'a ostream \<Rightarrow> 'a ostream" where
  "os_enable s =
     s\<lparr>os_state := STATE_UNCOMPRESSED, os_bufferStart := 0, os_dataSent := False,
       os_dataSize := 0, os_enabled := True, os_buffer := []\<rparr>"

definition os_setupConnections :: "connection list \<Rightarrow> 'a ostream \<Rightarrow> 'a ostream" where
  "os_setupConnections connections s = s\<lparr>os_connections := connections\<rparr>"

definition os_setupConnection :: "connection \<Rightarrow> 'a ostream \<Rightarrow> 'a ostream" where
  "os_setupConnection connection s = s\<lparr>os_connections := os_connections s @ [connection]\<rparr>"

definition os_clearConnections :: "'a ostream \<Rightarrow> 'a ostream" where
  "os_clearConnections s = s\<lparr>os_connections := []\<rparr>"

definition os_resend ::
  "global_config \<Rightarrow> pression \<Rightarrow> (connection list \<Rightarrow> packet \<Rightarrow> 'a \<Rightarrow> 'a) \<Rightarrow> 'a ostream \<Rightarrow> 'a ostream" where
  "os_resend G P emit s =
     (let s = os_compress G P (os_buffer s) (os_dataSize s) STATE_COMPLETE s
      in os_sendData P emit (os_buffer s) (os_dataSize s) True s)"

definition os_resetBuffer :: "'a ostream \<Rightarrow> 'a ostream" where
  "os_resetBuffer s =
     (let s = s\<lparr>os_state := STATE_UNCOMPRESSED\<rparr>
      in if os_save s then s\<lparr>os_bufferStart := length (os_buffer s)\<rparr>
         else s\<lparr>os_bufferStart := 0, os_buffer := []\<rparr>)"

definition os_flush ::
  "global_config \<Rightarrow> pression \<Rightarrow> (connection list \<Rightarrow> packet \<Rightarrow> 'a \<Rightarrow> 'a) \<Rightarrow> bool \<Rightarrow> 'a ostream \<Rightarrow> 'a ostream" where
  "os_flush G P emit isLast s =
     (let s = (if os_connections s \<noteq> [] then
                 (let ptr = drop (os_bufferStart s) (os_buffer s);
                      n = length (os_buffer s) - os_bufferStart s;
                      s = os_compress G P ptr n STATE_PARTIAL (s\<lparr>os_state := STATE_UNCOMPRESSED\<rparr>)
                  in os_sendData P emit ptr n isLast s)
               else s)
      in os_resetBuffer (s\<lparr>os_dataSent := True\<rparr>))"

definition os_write ::
  "global_config \<Rightarrow> pression \<Rightarrow> (connection list \<Rightarrow> packet \<Rightarrow> 'a \<Rightarrow> 'a) \<Rightarrow> bytes \<Rightarrow> 'a ostream \<Rightarrow> 'a ostream" where
  "os_write G P emit data s =
     (let s = (if length (os_buffer s) - os_bufferStart s > getObjectBufferSize G
               then os_flush G P emit False s else s)
      in s\<lparr>os_buffer := os_buffer s @ data\<rparr>)"

definition os_disable ::
  "global_config \<Rightarrow> pression \<Rightarrow> (connection list \<Rightarrow> packet \<Rightarrow> 'a \<Rightarrow> 'a) \<Rightarrow> 'a ostream \<Rightarrow> 'a ostream" where
  "os_disable G P emit s =
     (if \<not> os_enabled s then s
      else
        (let s = s\<lparr>os_dataSize := length (os_buffer s), os_dataSent := length (os_buffer s) > 0\<rparr>;
             s = (if os_dataSent s \<and> os_connections s \<noteq> [] then
                    (let ptr = drop (os_bufferStart s) (os_buffer s);
                         n = length (os_buffer s) - os_bufferStart s;
                         s = (if n = 0 \<and> os_state s = STATE_PARTIAL
                              then s\<lparr>os_state := STATE_COMPLETE, os_buffer := []\<rparr>
                              else os_compress G P ptr n
                                     (if os_bufferStart s = 0 then STATE_COMPLETE else STATE_PARTIAL)
                                     (s\<lparr>os_state := STATE_UNCOMPRESSED\<rparr>))
                     in os_sendData P emit ptr n True s)
                  else s);
             s = (if os_save s then s else s\<lparr>os_buffer := []\<rparr>)
         in s\<lparr>os_enabled := False, os_connections := []\<rparr>))"

definition os_enableSave :: "'a ostream \<Rightarrow> 'a ostream" where
  "os_enableSave s = s\<lparr>os_save := True\<rparr>"

definition os_disableSave :: "'a ostream \<Rightarrow> 'a ostream" where
  "os_disableSave s = s\<lparr>os_save := False\<rparr>"

definition os_hasSentData :: "'a ostream \<Rightarrow> bool" where
  "os_hasSentData s = os_dataSent s"

definition os_reset :: "'a ostream \<Rightarrow> 'a ostream" where
  "os_reset s = (os_resetBuffer s)\<lparr>os_enabled := False, os_connections := []\<rparr>"

text \<open>
  The constructor that takes over the connections and the buffer of another stream, which is
  disabled without receivers and so sends nothing.
\<close>

definition os_takeover ::
  "global_config \<Rightarrow> pression \<Rightarrow> (connection list \<Rightarrow> packet \<Rightarrow> 'a \<Rightarrow> 'a) \<Rightarrow> 'a \<Rightarrow> 'a ostream \<Rightarrow> 'a ostream \<times> 'a ostream" where
  "os_takeover G P emit sub rhs =
     (let this = (os_new sub)\<lparr>os_state := os_state rhs, os_bufferStart := os_bufferStart rhs,
                   os_dataSize := os_dataSize rhs, os_compressedDataSize := os_compressedDataSize rhs,
                   os_enabled := os_enabled rhs, os_dataSent := os_dataSent rhs, os_save := os_save rhs\<rparr>;
          this = os_setupConnections (os_connections rhs) this;
          swapped = this\<lparr>os_buffer := os_buffer rhs\<rparr>;
          rhs = os_disable G P emit (os_setupConnections [] (rhs\<lparr>os_buffer := os_buffer this\<rparr>))
      in (swapped, rhs))"

section \<open>What the receiver sees\<close>

text \<open>
  The compressor is lossless, names itself differently from the null compressor, and its chunks
  have sizes that fit the 64 bit fields of the wire format.
\<close>

definition pression_ok :: "pression \<Rightarrow> bool" where
  "pression_ok P \<longleftrightarrow>
     (pr_isGood P \<longrightarrow>
       pr_name P \<noteq> EQ_COMPRESSOR_NONE P \<and>
       (\<forall>d. length d < 2 ^ 64 \<longrightarrow>
          pr_compress P d \<noteq> [] \<and> length (pr_compress P d) < 2 ^ 32 \<and> (\<forall>c \<in> set (pr_compress P d). length c < 2 ^ 64) \<and>
          pr_decompress P (pr_name P) (pr_compress P d) (of_nat (length d)) = d))"

text \<open>The bytes a receiver gets out of a packet, by the decompression of the input stream.\<close>

definition pk_payload :: "pression \<Rightarrow> packet \<Rightarrow> bytes" where
  "pk_payload P p = is_decompress P (pk_body p) (pk_compressor p) (pk_nChunks p) (pk_size p)"

text \<open>
  A packet is intact if its size field is the size of its data, its body has the announced size, and
  bytes that follow the body in the receiver's buffer do not change what is decoded.
\<close>

definition pk_intact :: "pression \<Rightarrow> packet \<Rightarrow> bool" where
  "pk_intact P p \<longleftrightarrow>
     length (pk_payload P p) < 2 ^ 64 \<and> pk_size p = of_nat (length (pk_payload P p)) \<and>
     length (pk_body p) = pk_bodySize p \<and> length (pk_body p) < length (pk_payload P p) + 2 ^ 36 \<and>
     (\<forall>r. take (length (pk_payload P p))
            (is_decompress P (pk_body p @ r) (pk_compressor p) (pk_nChunks p) (pk_size p)) = pk_payload P p)"

lemma length_frame_chunks: "length (frame_chunks cs) = sum_list (map length cs) + 8 * length cs"
  by (induction cs) (simp_all add: frame_chunks_def)

lemma sendBody_chunks:
  "\<forall>c \<in> set cs. length c < 2 ^ 64 \<Longrightarrow>
   concat (map (\<lambda>(c, size). le_bytes 8 size @ take (unat size) c)
             (map (\<lambda>c. (c, of_nat (length c) :: uint64)) cs)) = frame_chunks cs"
  by (induction cs) (simp_all add: frame_chunks_def unat_of_nat)

lemma compress_fields [simp]:
  "os_connections (os_compress G P src n r s) = os_connections s"
  "os_enabled (os_compress G P src n r s) = os_enabled s"
  "os_save (os_compress G P src n r s) = os_save s"
  "os_sub (os_compress G P src n r s) = os_sub s"
  "os_bufferStart (os_compress G P src n r s) = os_bufferStart s"
  "os_dataSize (os_compress G P src n r s) = os_dataSize s"
  "os_dataSent (os_compress G P src n r s) = os_dataSent s"
  by (simp_all add: os_compress_def Let_def)

lemma compress_partial_buffer [simp]:
  "os_buffer (os_compress G P src n STATE_PARTIAL s) = os_buffer s"
  by (simp add: os_compress_def Let_def)

text \<open>
  A stream whose compressor state says compressed holds the compressor's result for the data: the
  packet it sends then carries that data, and otherwise the plain bytes.
\<close>

lemma packet_intact:
  assumes "pression_ok P" and "length data < 2 ^ 64"
    and "\<not> os_uncompressed s \<Longrightarrow> pr_isGood P \<and> os_result s = pr_compress P data \<and>
           os_compressedDataSize s = sum_list (map length (os_result s)) \<and> os_compressedDataSize s < length data"
    and "os_uncompressed s \<Longrightarrow> src = data"
  shows "pk_payload P (os_packet P s src (length data) l) = data \<and> pk_intact P (os_packet P s src (length data) l)"
proof (cases "os_uncompressed s")
  case True
  with assms(2,4) show ?thesis
    by (simp add: pk_intact_def pk_payload_def os_packet_def is_decompress_def os_getCompressor_def
        os_sendBody_def os_bodySize_def os_getCompressedDataSize_def)
next
  case False
  let ?cs = "pr_compress P data" and ?p = "os_packet P s src (length data) l"
  from False assms(3) have good: "pr_isGood P" and res: "os_result s = ?cs"
    and csize: "os_compressedDataSize s = sum_list (map length ?cs)"
    and less: "sum_list (map length ?cs) < length data" by auto
  with assms(1,2) have name: "pr_name P \<noteq> EQ_COMPRESSOR_NONE P"
    and len: "length ?cs < 2 ^ 32" and chunks: "\<forall>c \<in> set ?cs. length c < 2 ^ 64"
    and dec: "pr_decompress P (pr_name P) ?cs (of_nat (length data)) = data" and ne: "?cs \<noteq> []"
    by (simp_all add: pression_ok_def)
  have n: "unat (of_nat (length ?cs) :: uint32) = length ?cs"
    using len by (simp add: unat_of_nat)
  have size: "os_bodySize P s k = length (frame_chunks ?cs)" for k
    using False name n res ne by (simp add: os_bodySize_def os_getCompressedDataSize_def Let_def
        os_getCompressor_def os_getNumChunks_def csize length_frame_chunks)
  have body: "pk_body ?p = frame_chunks ?cs"
    using sendBody_chunks [OF chunks] False name ne
    by (simp add: os_packet_def size os_sendBody_def os_getCompressor_def os_getCompressedData_def res
        length_frame_chunks)
  have all: "is_decompress P (pk_body ?p @ r) (pk_compressor ?p) (pk_nChunks ?p) (pk_size ?p) = data" for r
    using False name split_frame_chunks [OF chunks, of r] dec unfolding body
    by (simp add: is_decompress_def os_packet_def os_getCompressor_def os_getNumChunks_def res n)
  have "length (frame_chunks ?cs) < length data + 2 ^ 36"
    using less len by (simp add: length_frame_chunks)
  then show ?thesis
    using assms(2) all all [of "[]"] by (simp add: pk_intact_def pk_payload_def body) (simp add: os_packet_def size)
qed

lemma compress_packet_intact:
  assumes "pression_ok P" and "length data < 2 ^ 64" and "os_state s = STATE_UNCOMPRESSED"
    and "r = STATE_PARTIAL \<or> r = STATE_COMPLETE"
  shows "pk_payload P (os_packet P (os_compress G P data (length data) r s) data (length data) l) = data \<and>
         pk_intact P (os_packet P (os_compress G P data (length data) r s) data (length data) l)"
  using assms(3,4)
  by (intro packet_intact [OF assms(1,2)]) (auto simp: os_compress_def os_uncompressed_def Let_def split: if_splits)

lemma packet_last [simp]: "pk_last (os_packet P s d n l) = l"
  by (simp add: os_packet_def)

section \<open>Bucketizing\<close>

text \<open>
  The specification of the packets of a sequence of writes: a packet is closed by the write that
  finds more than the buffer size in it, so a packet is a group of whole writes.
\<close>

fun bucketize :: "nat \<Rightarrow> bytes list \<Rightarrow> bytes list \<Rightarrow> bytes list list" where
  "bucketize B g [] = [g]"
| "bucketize B g (w # ws) =
     (if length (concat g) > B then g # bucketize B [w] ws else bucketize B (g @ [w]) ws)"

lemma bucketize_nonempty [simp]: "bucketize B g ws \<noteq> []"
  by (induction ws arbitrary: g) auto

lemma concat_bucketize: "concat (bucketize B g ws) = g @ ws"
  by (induction ws arbitrary: g) auto

text \<open>The last packet is never without data when the last write is not.\<close>

lemma last_bucketize: "ws \<noteq> [] \<Longrightarrow> last ws \<noteq> [] \<Longrightarrow> concat (last (bucketize B g ws)) \<noteq> []"
proof (induction ws arbitrary: g)
  case (Cons w ws)
  then show ?case by (cases "ws = []") auto
qed simp

text \<open>No packet but the last is empty, and every packet holds at most one write beyond the limit.\<close>

lemma bucketize_sizes:
  "x \<in> set (butlast (bucketize B g ws)) \<Longrightarrow> length (concat x) > B"
  by (induction ws arbitrary: g) (auto split: if_splits)

section \<open>Every subclass sends what was written\<close>

text \<open>The base class touches the members of the subclass only through \<open>sendData\<close>.\<close>

lemma os_write_sub:
  assumes "\<And>c p x. Q x \<Longrightarrow> Q (emit c p x)" and "Q (os_sub s)"
  shows "Q (os_sub (os_write G P emit d s))"
  using assms by (simp add: os_write_def os_flush_def os_resetBuffer_def os_sendData_def Let_def)

lemma os_writes_sub:
  "(\<And>c p x. Q x \<Longrightarrow> Q (emit c p x)) \<Longrightarrow> Q (os_sub s) \<Longrightarrow> Q (os_sub (fold (os_write G P emit) ws s))"
  by (induction ws arbitrary: s) (simp_all add: os_write_sub)

lemma os_disable_sub:
  assumes "\<And>c p x. Q x \<Longrightarrow> Q (emit c p x)" and "Q (os_sub s)"
  shows "Q (os_sub (os_disable G P emit s))"
  using assms by (simp add: os_disable_def os_sendData_def Let_def)

text \<open>
  A sender is a subclass whose \<open>sendData\<close> appends the packet, with its receivers, to what
  has been sent.
\<close>

locale data_sender =
  fixes emit :: "connection list \<Rightarrow> packet \<Rightarrow> 'a \<Rightarrow> 'a"
    and sent :: "'a \<Rightarrow> (connection list \<times> packet) list"
  assumes sent_emit: "sent (emit connections p sub) = sent sub @ [(connections, p)]"
begin

text \<open>What the receivers have got so far: receivers, decompressed data, final flag.\<close>

definition received :: "pression \<Rightarrow> 'a ostream \<Rightarrow> (connection list \<times> bytes \<times> bool) list" where
  "received P s = map (\<lambda>(c, p). (c, pk_payload P p, pk_last p)) (sent (os_sub s))"

lemma received_sendData:
  "received P (os_sendData P emit d n l s) =
   received P s @ [(os_connections s, pk_payload P (os_packet P s d n l), l)]"
  by (simp add: received_def os_sendData_def sent_emit)

definition intact :: "pression \<Rightarrow> 'a ostream \<Rightarrow> bool" where
  "intact P s \<longleftrightarrow> list_all (\<lambda>(c, p). pk_intact P p) (sent (os_sub s))"

lemma intact_sendData:
  "intact P (os_sendData P emit d n l s) \<longleftrightarrow> intact P s \<and> pk_intact P (os_packet P s d n l)"
  by (simp add: intact_def os_sendData_def sent_emit)

lemma intact_sub: "os_sub s = os_sub s' \<Longrightarrow> intact P s \<longleftrightarrow> intact P s'"
  by (simp add: intact_def)

lemma received_sub: "os_sub s = os_sub s' \<Longrightarrow> received P s = received P s'"
  by (simp add: received_def)

text \<open>The state of an enabled stream between two writes, with the data not yet sent.\<close>

definition writing :: "connection list \<Rightarrow> bytes \<Rightarrow> 'a ostream \<Rightarrow> bool" where
  "writing cs pending s \<longleftrightarrow>
     os_enabled s \<and> os_connections s = cs \<and> os_state s = STATE_UNCOMPRESSED \<and>
     os_bufferStart s \<le> length (os_buffer s) \<and> (\<not> os_save s \<longrightarrow> os_bufferStart s = 0) \<and>
     drop (os_bufferStart s) (os_buffer s) = pending"

lemma writing_length: "writing cs g s \<Longrightarrow> length (os_buffer s) - os_bufferStart s = length g"
  by (auto simp: writing_def)

lemma flush_writing:
  assumes "writing cs g s" and "cs \<noteq> []" and "pression_ok P" and "length g < 2 ^ 64"
  shows "writing cs [] (os_flush G P emit l s) \<and>
         received P (os_flush G P emit l s) = received P s @ [(cs, g, l)] \<and>
         (intact P s \<longrightarrow> intact P (os_flush G P emit l s))"
proof -
  let ?s0 = "s\<lparr>os_state := STATE_UNCOMPRESSED\<rparr>"
  let ?s1 = "os_compress G P g (length g) STATE_PARTIAL ?s0"
  let ?s2 = "os_sendData P emit g (length g) l ?s1"
  have flush: "os_flush G P emit l s = os_resetBuffer (?s2\<lparr>os_dataSent := True\<rparr>)"
    using assms(1,2) writing_length [OF assms(1)] by (simp add: os_flush_def writing_def Let_def)
  have "received P ?s2 = received P s @ [(cs, g, l)] \<and> (intact P s \<longrightarrow> intact P ?s2)"
    using assms compress_packet_intact [of P g ?s0 STATE_PARTIAL G l] received_sub [of ?s1 s] intact_sub [of ?s1 s]
    by (simp add: received_sendData intact_sendData writing_def)
  moreover have "os_sub (os_resetBuffer (?s2\<lparr>os_dataSent := True\<rparr>)) = os_sub ?s2"
    by (simp add: os_resetBuffer_def Let_def)
  note received_sub [OF this] intact_sub [OF this]
  moreover have "writing cs [] (os_resetBuffer (?s2\<lparr>os_dataSent := True\<rparr>))"
    using assms(1) by (simp add: writing_def os_resetBuffer_def os_sendData_def Let_def)
  ultimately show ?thesis by (simp add: flush)
qed

lemma write_writing:
  assumes "writing cs g s" and "cs \<noteq> []" and "pression_ok P" and "length g < 2 ^ 64"
  shows "(intact P s \<longrightarrow> intact P (os_write G P emit w s)) \<and>
        (if length g > getObjectBufferSize G
         then writing cs w (os_write G P emit w s) \<and>
              received P (os_write G P emit w s) = received P s @ [(cs, g, False)]
         else writing cs (g @ w) (os_write G P emit w s) \<and>
              received P (os_write G P emit w s) = received P s)"
proof -
  have app: "writing cs (g' @ w) (t\<lparr>os_buffer := os_buffer t @ w\<rparr>)" if "writing cs g' t" for g' t
    using that by (auto simp: writing_def)
  have rec: "received P (t\<lparr>os_buffer := b\<rparr>) = received P t" for t b
    by (rule received_sub) simp
  have int: "intact P (t\<lparr>os_buffer := b\<rparr>) = intact P t" for t b
    by (rule intact_sub) simp
  show ?thesis
    using flush_writing [OF assms, of G False] app [of "[]" "os_flush G P emit False s"] app [OF assms(1)]
    by (simp add: os_write_def writing_length [OF assms(1)] rec int Let_def)
qed

lemma writes_writing:
  assumes "writing cs (concat g) s" and "cs \<noteq> []" and "pression_ok P"
    and "length (concat (g @ ws)) < 2 ^ 64"
  shows "writing cs (concat (last (bucketize (getObjectBufferSize G) g ws))) (fold (os_write G P emit) ws s) \<and>
         received P (fold (os_write G P emit) ws s) =
           received P s @ map (\<lambda>b. (cs, concat b, False)) (butlast (bucketize (getObjectBufferSize G) g ws)) \<and>
         (intact P s \<longrightarrow> intact P (fold (os_write G P emit) ws s))"
  using assms
proof (induction ws arbitrary: g s)
  case Nil
  then show ?case by simp
next
  case (Cons w ws)
  let ?B = "getObjectBufferSize G" and ?s = "os_write G P emit w s"
  have len: "length (concat g) < 2 ^ 64" using Cons.prems(4) by simp
  note step = write_writing [OF Cons.prems(1-3) len, of G w]
  show ?case
  proof (cases "length (concat g) > ?B")
    case True
    with step Cons.IH [of "[w]" ?s] Cons.prems show ?thesis by simp
  next
    case False
    with step Cons.IH [of "g @ [w]" ?s] Cons.prems show ?thesis by simp
  qed
qed

text \<open>Without receivers the stream goes through the same states and sends nothing.\<close>

lemma write_writing_any: "writing cs g s \<Longrightarrow> \<exists>g'. writing cs g' (os_write G P emit w s)"
proof -
  assume w: "writing cs g s"
  have "writing cs [] (os_flush G P emit False s)"
    using w by (simp add: writing_def os_flush_def os_resetBuffer_def os_sendData_def Let_def)
  with w show ?thesis by (auto simp: writing_def os_write_def Let_def)
qed

lemma writes_writing_any: "writing cs g s \<Longrightarrow> \<exists>g'. writing cs g' (fold (os_write G P emit) ws s)"
proof (induction ws arbitrary: g s)
  case (Cons w ws)
  from write_writing_any [OF Cons.prems] Cons.IH show ?case by fastforce
qed auto

lemma disable_writing:
  assumes "writing cs g s" and "cs \<noteq> []" and "pression_ok P" and "length g < 2 ^ 64"
    and "os_buffer s \<noteq> []"
  shows "received P (os_disable G P emit s) = received P s @ [(cs, g, True)] \<and>
         (intact P s \<longrightarrow> intact P (os_disable G P emit s))"
proof -
  let ?d = "s\<lparr>os_dataSize := length (os_buffer s), os_dataSent := True, os_state := STATE_UNCOMPRESSED\<rparr>"
  let ?r = "if os_bufferStart s = 0 then STATE_COMPLETE else STATE_PARTIAL"
  let ?s1 = "os_compress G P g (length g) ?r ?d"
  have sub: "os_sub (os_disable G P emit s) = os_sub (os_sendData P emit g (length g) True ?s1)"
    using assms writing_length [OF assms(1)] by (simp add: os_disable_def writing_def Let_def)
  have "received P (os_sendData P emit g (length g) True ?s1) = received P s @ [(cs, g, True)] \<and>
      (intact P s \<longrightarrow> intact P (os_sendData P emit g (length g) True ?s1))"
    using assms compress_packet_intact [of P g ?d ?r G True] received_sub [of ?s1 s] intact_sub [of ?s1 s]
    by (simp add: received_sendData intact_sendData writing_def)
  then show ?thesis by (simp add: received_sub [OF sub] intact_sub [OF sub])
qed

lemma writing_enable: "os_connections s = cs \<Longrightarrow> writing cs [] (os_enable s)"
  by (simp add: writing_def os_enable_def)

lemma received_enable: "received P (os_enable s) = received P s"
  by (rule received_sub) (simp add: os_enable_def)

lemma intact_enable: "intact P (os_enable s) = intact P s"
  by (rule intact_sub) (simp add: os_enable_def)

theorem write_disable_received:
  assumes "os_connections s \<noteq> []" and "pression_ok P" and "length (concat ws) < 2 ^ 64"
    and "ws \<noteq> []" and "last ws \<noteq> []"
  shows "received P (os_disable G P emit (fold (os_write G P emit) ws (os_enable s))) =
         received P s @
         map (\<lambda>b. (os_connections s, concat b, False)) (butlast (bucketize (getObjectBufferSize G) [] ws)) @
         [(os_connections s, concat (last (bucketize (getObjectBufferSize G) [] ws)), True)] \<and>
         (intact P s \<longrightarrow> intact P (os_disable G P emit (fold (os_write G P emit) ws (os_enable s))))"
proof -
  let ?s = "fold (os_write G P emit) ws (os_enable s)" and ?B = "getObjectBufferSize G"
  let ?g = "concat (last (bucketize ?B [] ws))"
  have w: "writing (os_connections s) ?g ?s"
    and r: "received P ?s = received P s @
              map (\<lambda>b. (os_connections s, concat b, False)) (butlast (bucketize ?B [] ws))"
    and i: "intact P s \<longrightarrow> intact P ?s"
    using writes_writing [of "os_connections s" "[]" "os_enable s" P ws G] assms
    by (simp_all add: writing_enable received_enable intact_enable)
  have ne: "?g \<noteq> []" using last_bucketize assms(4,5) by blast
  then have "os_buffer ?s \<noteq> []" using w by (auto simp: writing_def)
  moreover have "length ?g < 2 ^ 64"
  proof -
    have "concat ws = concat (concat (butlast (bucketize ?B [] ws))) @ ?g"
      using concat_bucketize [of ?B "[]" ws] append_butlast_last_id [OF bucketize_nonempty, of ?B "[]" ws]
      by (metis append_Nil concat_append concat.simps append_Nil2)
    then show ?thesis using assms(3) by simp
  qed
  ultimately show ?thesis
    using disable_writing [OF w assms(1,2)] i by (simp add: r)
qed

text \<open>
  A stream that saves its data retains it after \<open>disable\<close>, compressed or not, and every
  \<open>resend\<close> delivers all of it in one final packet.
\<close>

definition retains :: "pression \<Rightarrow> bytes \<Rightarrow> 'a ostream \<Rightarrow> bool" where
  "retains P data s \<longleftrightarrow>
     os_dataSize s = length data \<and> length data < 2 ^ 64 \<and>
     (if os_state s = STATE_COMPLETE
      then pr_isGood P \<and> os_result s = pr_compress P data \<and>
           os_compressedDataSize s = sum_list (map length (os_result s)) \<and>
           os_compressedDataSize s < length data
      else os_buffer s = data)"

lemma retains_complete:
  "retains P data s \<Longrightarrow> os_state s = STATE_COMPLETE \<Longrightarrow>
   pr_isGood P \<and> os_result s = pr_compress P data \<and>
   os_compressedDataSize s = sum_list (map length (os_result s)) \<and> os_compressedDataSize s < length data"
  by (auto simp: retains_def)

lemma retains_sendData: "retains P data (os_sendData P emit d n l s) = retains P data s"
  by (simp add: retains_def os_sendData_def)

lemma compress_retains:
  "retains P data s \<Longrightarrow> src = os_buffer s \<Longrightarrow> n = os_dataSize s \<Longrightarrow>
   retains P data (os_compress G P src n STATE_COMPLETE s) \<and>
   (os_state (os_compress G P src n STATE_COMPLETE s) \<noteq> STATE_PARTIAL)"
  by (auto simp: retains_def os_compress_def Let_def split: if_splits)

lemma resend_retains:
  assumes "retains P data s" and "pression_ok P"
  shows "retains P data (os_resend G P emit s) \<and>
         received P (os_resend G P emit s) = received P s @ [(os_connections s, data, True)] \<and>
         (intact P s \<longrightarrow> intact P (os_resend G P emit s))"
proof -
  let ?s = "os_compress G P (os_buffer s) (os_dataSize s) STATE_COMPLETE s"
  have r: "retains P data ?s" and st: "os_state ?s \<noteq> STATE_PARTIAL"
    using compress_retains [OF assms(1) refl refl] by blast+
  have "pk_payload P (os_packet P ?s (os_buffer ?s) (length data) True) = data \<and>
      pk_intact P (os_packet P ?s (os_buffer ?s) (length data) True)"
  proof (rule packet_intact [OF assms(2)])
    show "length data < 2 ^ 64" using r by (simp add: retains_def)
    assume "\<not> os_uncompressed ?s"
    with st have "os_state ?s = STATE_COMPLETE"
      by (cases "os_state ?s") (simp_all add: os_uncompressed_def)
    then show "pr_isGood P \<and> os_result ?s = pr_compress P data \<and>
        os_compressedDataSize ?s = sum_list (map length (os_result ?s)) \<and> os_compressedDataSize ?s < length data"
      using retains_complete [OF r] by blast
  next
    assume "os_uncompressed ?s"
    with r show "os_buffer ?s = data" by (auto simp: retains_def os_uncompressed_def)
  qed
  moreover have "os_dataSize s = length data" using assms(1) by (simp add: retains_def)
  ultimately show ?thesis
    using r retains_sendData [of P data _ _ _ ?s] received_sub [of ?s s] intact_sub [of ?s s]
    by (simp add: os_resend_def Let_def received_sendData intact_sendData)
qed

lemma write_saved:
  "os_save s \<Longrightarrow> os_buffer (os_write G P emit w s) = os_buffer s @ w \<and> os_save (os_write G P emit w s)"
  by (simp add: os_write_def os_flush_def os_resetBuffer_def os_sendData_def Let_def)

lemma writes_saved:
  "os_save s \<Longrightarrow> os_buffer (fold (os_write G P emit) ws s) = os_buffer s @ concat ws \<and>
     os_save (fold (os_write G P emit) ws s)"
  by (induction ws arbitrary: s) (simp_all add: write_saved)

lemma disable_retains:
  assumes "writing cs g s" and "os_save s" and "length (os_buffer s) < 2 ^ 64"
  shows "retains P (os_buffer s) (os_disable G P emit s)"
proof -
  let ?d = "s\<lparr>os_dataSize := length (os_buffer s), os_dataSent := os_buffer s \<noteq> [], os_state := STATE_UNCOMPRESSED\<rparr>"
  have start: "os_bufferStart s = 0 \<Longrightarrow> g = os_buffer s"
    using assms(1) by (simp add: writing_def)
  let ?c = "\<lambda>r. os_compress G P g (length g) r ?d"
  have partial: "retains P (os_buffer s) (?c STATE_PARTIAL)"
    using assms(3) by (simp add: retains_def) (simp add: os_compress_def Let_def)
  have full: "retains P (os_buffer s) (?c STATE_COMPLETE)" if "os_bufferStart s = 0"
    using assms(3) start [OF that]
    by (intro conjunct1 [OF compress_retains]) (simp_all add: retains_def)
  note frame = retains_sendData
  have frame2: "retains P data (t\<lparr>os_enabled := b, os_connections := []\<rparr>) = retains P data t" for data t b
    by (simp add: retains_def)
  have save: "os_save (os_sendData P emit d n l t) = os_save t" for d n l t
    by (simp add: os_sendData_def)
  show ?thesis
  proof (cases "os_buffer s = [] \<or> cs = []")
    case True
    then show ?thesis
      using assms by (auto simp: os_disable_def Let_def writing_def frame2 retains_def)
  next
    case False
    then have "os_disable G P emit s = (os_sendData P emit g (length g) True
        (?c (if os_bufferStart s = 0 then STATE_COMPLETE else STATE_PARTIAL)))
        \<lparr>os_enabled := False, os_connections := []\<rparr>"
      using assms(1,2) writing_length [OF assms(1)]
      by (simp add: os_disable_def Let_def writing_def save)
    with partial full show ?thesis by (simp add: frame frame2)
  qed
qed

end

end
