(* ===== verification/Commands.thy ===== *)
theory Commands
  imports Data_OStream Object_Data_IStream
begin

text \<open>
  The wire format of commands, byte by byte: \<^verbatim>\<open>OCommand\<close>, \<^verbatim>\<open>ObjectOCommand\<close>,
  \<^verbatim>\<open>ObjectDataOCommand\<close> and \<^verbatim>\<open>CustomOCommand\<close> on the sending side (\<^verbatim>\<open>src/co/oCommand.cpp\<close>,
  \<^verbatim>\<open>objectOCommand.cpp\<close>, \<^verbatim>\<open>objectDataOCommand.cpp\<close>, \<^verbatim>\<open>customOCommand.cpp\<close>), \<^verbatim>\<open>ICommand\<close>,
  \<^verbatim>\<open>ObjectICommand\<close>, \<^verbatim>\<open>ObjectDataICommand\<close> and \<^verbatim>\<open>CustomICommand\<close> on the receiving side.
  An output command is an output stream whose members are the record \<open>ocommand\<close>; the bytes it
  puts on its connections are the log \<open>om_wire\<close>. The padding up to the minimal size is memory
  the code does not initialise, the argument \<open>pad\<close>.
\<close>

section \<open>Constants\<close>

definition COMMANDTYPE_NODE :: uint32 where "COMMANDTYPE_NODE = 0"
definition COMMANDTYPE_OBJECT :: uint32 where "COMMANDTYPE_OBJECT = 1"
definition COMMANDTYPE_CUSTOM :: uint32 where "COMMANDTYPE_CUSTOM = 128"
definition COMMANDTYPE_INVALID :: uint32 where "COMMANDTYPE_INVALID = 0xFFFFFFFF"
definition CMD_INVALID :: uint32 where "CMD_INVALID = 0xFFFFFFFF"
definition CMD_NODE_COMMAND :: uint32 where "CMD_NODE_COMMAND = 40"
definition COMMAND_MINSIZE :: nat where "COMMAND_MINSIZE = 256"

section \<open>OCommand\<close>

record ocommand =
  om_isLocked :: bool
  om_size :: nat
  om_local :: bool
  om_wire :: "(connection list \<times> bytes) list"

text \<open>Commands do not set up a compressor.\<close>

definition om_pression :: "pression \<Rightarrow> pression" where
  "om_pression P = P\<lparr>pr_isGood := False\<rparr>"

text \<open>\<^verbatim>\<open>sendData\<close> writes the size field and sends at least \<^const>\<open>COMMAND_MINSIZE\<close> bytes.\<close>

definition om_sendData :: "(nat \<Rightarrow> bytes) \<Rightarrow> connection list \<Rightarrow> packet \<Rightarrow> ocommand \<Rightarrow> ocommand" where
  "om_sendData pad connections p c =
     (let size = length (pk_body p);
          bytes = le_bytes 8 (of_nat (om_size c + size) :: uint64) @ drop 8 (pk_body p);
          sendSize = (if om_isLocked c then size else max size COMMAND_MINSIZE)
      in c\<lparr>om_wire := om_wire c @ [(connections, bytes @ pad (sendSize - size))]\<rparr>)"

definition om_write ::
  "global_config \<Rightarrow> pression \<Rightarrow> (nat \<Rightarrow> bytes) \<Rightarrow> bytes \<Rightarrow> ocommand ostream \<Rightarrow> ocommand ostream" where
  "om_write G P pad = os_write G (om_pression P) (om_sendData pad)"

definition om_init ::
  "global_config \<Rightarrow> pression \<Rightarrow> (nat \<Rightarrow> bytes) \<Rightarrow> uint32 \<Rightarrow> uint32 \<Rightarrow> ocommand ostream \<Rightarrow> ocommand ostream" where
  "om_init G P pad cmd type s =
     fold (om_write G P pad) [le_bytes 8 (0 :: uint64), le_bytes 4 type, le_bytes 4 cmd]
       (os_enable (os_enableSave s))"

definition om_new ::
  "global_config \<Rightarrow> pression \<Rightarrow> (nat \<Rightarrow> bytes) \<Rightarrow> connection list \<Rightarrow> uint32 \<Rightarrow> uint32 \<Rightarrow> ocommand ostream" where
  "om_new G P pad receivers cmd type =
     om_init G P pad cmd type (os_setupConnections receivers
       (os_new \<lparr>om_isLocked = False, om_size = 0, om_local = False, om_wire = []\<rparr>))"

definition om_newLocal ::
  "global_config \<Rightarrow> pression \<Rightarrow> (nat \<Rightarrow> bytes) \<Rightarrow> uint32 \<Rightarrow> uint32 \<Rightarrow> ocommand ostream" where
  "om_newLocal G P pad cmd type =
     om_init G P pad cmd type
       (os_new \<lparr>om_isLocked = False, om_size = 0, om_local = True, om_wire = []\<rparr>)"

text \<open>The constructor that takes over another command's buffer and receivers.\<close>

definition om_takeover ::
  "global_config \<Rightarrow> pression \<Rightarrow> (nat \<Rightarrow> bytes) \<Rightarrow> ocommand ostream \<Rightarrow> ocommand ostream \<times> ocommand ostream" where
  "om_takeover G P pad rhs = os_takeover G (om_pression P) (om_sendData pad) (os_sub rhs) rhs"

definition om_sendHeader ::
  "global_config \<Rightarrow> pression \<Rightarrow> (nat \<Rightarrow> bytes) \<Rightarrow> nat \<Rightarrow> ocommand ostream \<Rightarrow> ocommand ostream" where
  "om_sendHeader G P pad additionalSize s =
     os_flush G (om_pression P) (om_sendData pad) True
       (s\<lparr>os_sub := (os_sub s)\<lparr>om_isLocked := True, om_size := additionalSize\<rparr>\<rparr>)"

text \<open>A direct \<^verbatim>\<open>send\<close> on all connections.\<close>

definition om_send :: "bytes \<Rightarrow> ocommand ostream \<Rightarrow> ocommand ostream" where
  "om_send bytes s =
     s\<lparr>os_sub := (os_sub s)\<lparr>om_wire := om_wire (os_sub s) @ [(os_connections s, bytes)]\<rparr>\<rparr>"

text \<open>The destructor, with the buffer of the command dispatched locally, if any.\<close>

definition om_destroy ::
  "global_config \<Rightarrow> pression \<Rightarrow> (nat \<Rightarrow> bytes) \<Rightarrow> ocommand ostream \<Rightarrow> ocommand ostream \<times> bytes option" where
  "om_destroy G P pad s =
     (let s = (if om_isLocked (os_sub s) then
                 (let size = om_size (os_sub s) + length (os_buffer s);
                      s = (if size < COMMAND_MINSIZE then om_send (pad (COMMAND_MINSIZE - size)) s else s)
                  in os_reset (s\<lparr>os_sub := (os_sub s)\<lparr>om_isLocked := False, om_size := 0\<rparr>\<rparr>))
               else os_disable G (om_pression P) (om_sendData pad) s)
      in (s, if om_local (os_sub s)
             then Some (le_bytes 8 (of_nat (length (os_buffer s)) :: uint64) @ drop 8 (os_buffer s))
             else None))"

section \<open>ObjectOCommand, ObjectDataOCommand and CustomOCommand\<close>

definition oom_init ::
  "global_config \<Rightarrow> pression \<Rightarrow> (nat \<Rightarrow> bytes) \<Rightarrow> uint128 \<Rightarrow> uint32 \<Rightarrow> ocommand ostream \<Rightarrow> ocommand ostream" where
  "oom_init G P pad objectID instanceID = fold (om_write G P pad) [le_bytes 16 objectID, le_bytes 4 instanceID]"

definition oom_new ::
  "global_config \<Rightarrow> pression \<Rightarrow> (nat \<Rightarrow> bytes) \<Rightarrow> connection list \<Rightarrow> uint32 \<Rightarrow> uint32 \<Rightarrow> uint128 \<Rightarrow> uint32 \<Rightarrow>
   ocommand ostream" where
  "oom_new G P pad receivers cmd type objectID instanceID =
     oom_init G P pad objectID instanceID (om_new G P pad receivers cmd type)"

definition odm_init ::
  "global_config \<Rightarrow> pression \<Rightarrow> (nat \<Rightarrow> bytes) \<Rightarrow> uint128 \<Rightarrow> uint32 \<Rightarrow> packet \<Rightarrow> ocommand ostream \<Rightarrow>
   ocommand ostream" where
  "odm_init G P pad version sequence p =
     fold (om_write G P pad)
       [le_bytes 16 version, le_bytes 8 (pk_size p), le_bytes 4 sequence, [of_bool (pk_last p)],
        le_bytes 4 (pk_compressor p), le_bytes 4 (pk_nChunks p)]"

definition odm_new ::
  "global_config \<Rightarrow> pression \<Rightarrow> (nat \<Rightarrow> bytes) \<Rightarrow> connection list \<Rightarrow> uint32 \<Rightarrow> uint32 \<Rightarrow> uint128 \<Rightarrow> uint32 \<Rightarrow>
   uint128 \<Rightarrow> uint32 \<Rightarrow> packet \<Rightarrow> ocommand ostream" where
  "odm_new G P pad receivers cmd type objectID instanceID version sequence p =
     odm_init G P pad version sequence p (oom_new G P pad receivers cmd type objectID instanceID)"

definition odm_destroy ::
  "global_config \<Rightarrow> pression \<Rightarrow> (nat \<Rightarrow> bytes) \<Rightarrow> packet \<Rightarrow> ocommand ostream \<Rightarrow> ocommand ostream \<times> bytes option" where
  "odm_destroy G P pad p s =
     om_destroy G P pad
       (if pk_bodySize p > 0 then om_send (pk_body p) (om_sendHeader G P pad (pk_bodySize p) s) else s)"

text \<open>
  \<^verbatim>\<open>send( ... ) << extra\<close>: the whole life of a data command, from its construction to its
  destruction at the end of the statement.
\<close>

definition odm_send ::
  "global_config \<Rightarrow> pression \<Rightarrow> (nat \<Rightarrow> bytes) \<Rightarrow> connection list \<Rightarrow> uint32 \<Rightarrow> uint32 \<Rightarrow> uint128 \<Rightarrow> uint32 \<Rightarrow>
   uint128 \<Rightarrow> uint32 \<Rightarrow> packet \<Rightarrow> bytes list \<Rightarrow> (connection list \<times> bytes) list" where
  "odm_send G P pad receivers cmd type objectID instanceID version sequence p extra =
     om_wire (os_sub (fst (odm_destroy G P pad p
       (fold (om_write G P pad) extra
         (odm_new G P pad receivers cmd type objectID instanceID version sequence p)))))"

definition cuo_init ::
  "global_config \<Rightarrow> pression \<Rightarrow> (nat \<Rightarrow> bytes) \<Rightarrow> uint128 \<Rightarrow> ocommand ostream \<Rightarrow> ocommand ostream" where
  "cuo_init G P pad commandID = om_write G P pad (le_bytes 16 commandID)"

definition cuo_new ::
  "global_config \<Rightarrow> pression \<Rightarrow> (nat \<Rightarrow> bytes) \<Rightarrow> connection list \<Rightarrow> uint128 \<Rightarrow> ocommand ostream" where
  "cuo_new G P pad receivers commandID =
     cuo_init G P pad commandID (om_new G P pad receivers CMD_NODE_COMMAND COMMANDTYPE_NODE)"

definition cuo_newLocal ::
  "global_config \<Rightarrow> pression \<Rightarrow> (nat \<Rightarrow> bytes) \<Rightarrow> uint128 \<Rightarrow> ocommand ostream" where
  "cuo_newLocal G P pad commandID =
     cuo_init G P pad commandID (om_newLocal G P pad CMD_NODE_COMMAND COMMANDTYPE_NODE)"

text \<open>The copy constructor takes over the buffer, and writes the command identifier once more.\<close>

definition cuo_copy ::
  "global_config \<Rightarrow> pression \<Rightarrow> (nat \<Rightarrow> bytes) \<Rightarrow> uint128 \<Rightarrow> ocommand ostream \<Rightarrow> ocommand ostream" where
  "cuo_copy G P pad commandID rhs = cuo_init G P pad commandID (fst (om_takeover G P pad rhs))"

section \<open>The bytes on the wire\<close>

text \<open>A command that fits the stream's buffer is only accumulated.\<close>

definition building :: "connection list \<Rightarrow> bytes \<Rightarrow> bool \<Rightarrow> ocommand ostream \<Rightarrow> bool" where
  "building cs header loc s \<longleftrightarrow>
     os_enabled s \<and> os_save s \<and> os_connections s = cs \<and> os_state s = STATE_UNCOMPRESSED \<and>
     os_bufferStart s = 0 \<and> os_buffer s = header \<and>
     os_sub s = \<lparr>om_isLocked = False, om_size = 0, om_local = loc, om_wire = []\<rparr>"

lemma write_building:
  "building cs h loc s \<Longrightarrow> length h \<le> getObjectBufferSize G \<Longrightarrow> building cs (h @ d) loc (om_write G P pad d s)"
  by (simp add: building_def om_write_def os_write_def Let_def)

lemma writes_building:
  "building cs h loc s \<Longrightarrow> length (h @ concat (butlast ds)) \<le> getObjectBufferSize G \<Longrightarrow>
   building cs (h @ concat ds) loc (fold (om_write G P pad) ds s)"
proof (induction ds arbitrary: h s)
  case (Cons d ds)
  then have "building cs (h @ d) loc (om_write G P pad d s)"
    by (intro write_building) (auto split: if_splits)
  with Cons.IH [of "h @ d"] Cons.prems(2) show ?case by (cases "ds = []") auto
qed simp

definition om_header :: "uint64 \<Rightarrow> uint32 \<Rightarrow> uint32 \<Rightarrow> bytes" where
  "om_header sz type cmd = le_bytes 8 sz @ le_bytes 4 type @ le_bytes 4 cmd"

lemma length_om_header [simp]: "length (om_header sz type cmd) = 16"
  by (simp add: om_header_def)

lemma drop_om_header [simp]: "drop 8 (om_header sz type cmd @ r) = le_bytes 4 type @ le_bytes 4 cmd @ r"
  by (simp add: om_header_def)

lemma init_building:
  assumes "16 \<le> getObjectBufferSize G" and "os_connections s = cs"
    and "os_sub s = \<lparr>om_isLocked = False, om_size = 0, om_local = loc, om_wire = []\<rparr>"
  shows "building cs (om_header 0 type cmd) loc (om_init G P pad cmd type s)"
proof -
  have "building cs [] loc (os_enable (os_enableSave s))"
    using assms by (simp add: building_def os_enable_def os_enableSave_def)
  from writes_building [OF this, of "[le_bytes 8 (0 :: uint64), le_bytes 4 type, le_bytes 4 cmd]" G P pad]
  show ?thesis using assms(1) by (simp add: om_init_def om_header_def)
qed

lemma new_building:
  assumes "16 \<le> getObjectBufferSize G"
  shows "building receivers (om_header 0 type cmd) False (om_new G P pad receivers cmd type)"
    and "building [] (om_header 0 type cmd) True (om_newLocal G P pad cmd type)"
  using assms unfolding om_new_def om_newLocal_def
  by (auto intro!: init_building simp: os_setupConnections_def os_new_def)

definition odm_fields :: "uint128 \<Rightarrow> uint32 \<Rightarrow> uint128 \<Rightarrow> uint32 \<Rightarrow> packet \<Rightarrow> bytes" where
  "odm_fields objectID instanceID version sequence p =
     le_bytes 16 objectID @ le_bytes 4 instanceID @ le_bytes 16 version @ le_bytes 8 (pk_size p) @
     le_bytes 4 sequence @ [of_bool (pk_last p)] @ le_bytes 4 (pk_compressor p) @ le_bytes 4 (pk_nChunks p)"

lemma length_odm_fields [simp]: "length (odm_fields objectID instanceID version sequence p) = 57"
  by (simp add: odm_fields_def)

lemma odm_new_building:
  assumes "128 \<le> getObjectBufferSize G"
  shows "building receivers (om_header 0 type cmd @ odm_fields objectID instanceID version sequence p) False
           (odm_new G P pad receivers cmd type objectID instanceID version sequence p)"
proof -
  let ?a = "[le_bytes 16 objectID, le_bytes 4 instanceID]"
  let ?b = "[le_bytes 16 version, le_bytes 8 (pk_size p), le_bytes 4 sequence, [of_bool (pk_last p)],
             le_bytes 4 (pk_compressor p), le_bytes 4 (pk_nChunks p)]"
  have "building receivers (om_header 0 type cmd) False (om_new G P pad receivers cmd type)"
    using assms by (intro new_building) simp
  then have "building receivers (om_header 0 type cmd @ concat ?a) False
      (oom_new G P pad receivers cmd type objectID instanceID)"
    unfolding oom_new_def oom_init_def using assms by (intro writes_building) simp_all
  then have "building receivers ((om_header 0 type cmd @ concat ?a) @ concat ?b) False
      (odm_new G P pad receivers cmd type objectID instanceID version sequence p)"
    unfolding odm_new_def odm_init_def using assms by (intro writes_building) simp_all
  then show ?thesis by (simp add: odm_fields_def)
qed

lemma om_compress [simp]:
  "os_compress G (om_pression P) d n r (s\<lparr>os_state := STATE_UNCOMPRESSED\<rparr>) = s\<lparr>os_state := STATE_UNCOMPRESSED\<rparr>"
  by (simp add: os_compress_def om_pression_def)

lemma uncompressed_packet:
  "os_state s = STATE_UNCOMPRESSED \<Longrightarrow> n = length d \<Longrightarrow> pk_body (os_packet P s d n l) = d"
  by (simp add: os_packet_def os_sendBody_def os_bodySize_def os_getCompressedDataSize_def Let_def
      os_getCompressor_def os_uncompressed_def)

text \<open>The wire image of a command without a body, and of one with a body.\<close>

lemma destroy_building:
  assumes "building cs (om_header 0 type cmd @ r) False s" and "cs \<noteq> []"
  shows "om_wire (os_sub (fst (om_destroy G P pad s))) =
           [(cs, om_header (of_nat (16 + length r)) type cmd @ r @ pad (COMMAND_MINSIZE - (16 + length r)))]"
  using assms
  by (simp add: om_destroy_def building_def os_disable_def os_sendData_def om_sendData_def Let_def
      uncompressed_packet om_header_def max_def)

lemma header_building:
  assumes "building cs (om_header 0 type cmd @ r) False s" and "cs \<noteq> []"
  shows "om_wire (os_sub (fst (om_destroy G P pad (om_send body (om_sendHeader G P pad n s))))) =
           [(cs, om_header (of_nat (n + (16 + length r))) type cmd @ r @ pad 0), (cs, body)] @
           (if n + (16 + length r) < COMMAND_MINSIZE then [(cs, pad (COMMAND_MINSIZE - (n + (16 + length r))))] else [])"
  using assms
  by (simp add: uncompressed_packet om_destroy_def om_send_def om_sendHeader_def building_def os_flush_def os_resetBuffer_def
      os_reset_def os_sendData_def om_sendData_def Let_def om_header_def)

text \<open>
  A data command puts on every connection its header, with the size of header and body in front, the
  body, and padding up to the minimal size.
\<close>

lemma odm_send_wire:
  assumes "128 \<le> getObjectBufferSize G" and "length (concat extra) \<le> 40" and "receivers \<noteq> []"
    and "length (pk_body p) = pk_bodySize p" and "\<forall>n. length (pad n) = n"
  shows "concat (map snd (odm_send G P pad receivers cmd type objectID instanceID version sequence p extra)) =
           om_header (of_nat (73 + length (concat extra) + length (pk_body p))) type cmd @
           odm_fields objectID instanceID version sequence p @ concat extra @ pk_body p @
           pad (COMMAND_MINSIZE - (73 + length (concat extra) + length (pk_body p)))"
    and "\<forall>(cs, d) \<in> set (odm_send G P pad receivers cmd type objectID instanceID version sequence p extra).
           cs = receivers"
proof -
  let ?s = "odm_new G P pad receivers cmd type objectID instanceID version sequence p"
  let ?r = "odm_fields objectID instanceID version sequence p @ concat extra"
  have pad0: "pad 0 = []" using assms(5) by (metis length_0_conv)
  have e: "length (concat (butlast extra)) \<le> length (concat extra)"
    by (cases extra rule: rev_cases) auto
  have "building receivers ((om_header 0 type cmd @ odm_fields objectID instanceID version sequence p) @ concat extra)
      False (fold (om_write G P pad) extra ?s)"
    using assms(1,2) e by (intro writes_building odm_new_building) simp_all
  then have b: "building receivers (om_header 0 type cmd @ ?r) False (fold (om_write G P pad) extra ?s)"
    by simp
  let ?ws = "odm_send G P pad receivers cmd type objectID instanceID version sequence p extra"
  have wire: "?ws = (if pk_bodySize p > 0 then
      [(receivers, om_header (of_nat (pk_bodySize p + (16 + length ?r))) type cmd @ ?r), (receivers, pk_body p)] @
        (if pk_bodySize p + (16 + length ?r) < COMMAND_MINSIZE
         then [(receivers, pad (COMMAND_MINSIZE - (pk_bodySize p + (16 + length ?r))))] else [])
     else [(receivers, om_header (of_nat (16 + length ?r)) type cmd @ ?r @ pad (COMMAND_MINSIZE - (16 + length ?r)))])"
    using destroy_building [OF b assms(3)] header_building [OF b assms(3)]
    by (simp add: odm_send_def odm_destroy_def pad0)
  show "\<forall>(cs, d) \<in> set ?ws. cs = receivers"
    by (auto simp: wire split: if_splits)
  have "\<not> m < COMMAND_MINSIZE \<Longrightarrow> pad (COMMAND_MINSIZE - m) = []" for m
    by (simp add: pad0)
  then show "concat (map snd ?ws) =
           om_header (of_nat (73 + length (concat extra) + length (pk_body p))) type cmd @
           odm_fields objectID instanceID version sequence p @ concat extra @ pk_body p @
           pad (COMMAND_MINSIZE - (73 + length (concat extra) + length (pk_body p)))"
    using assms(4) by (auto simp: wire ac_simps)
qed

section \<open>ICommand\<close>

record icommand = istream +
  im_local :: "NodeID option"
  im_remote :: "NodeID option"
  im_buffer :: "bytes option"
  im_size :: uint64
  im_type :: uint32
  im_cmd :: uint32
  im_consumed :: bool

text \<open>
  The buffer is handed out once; its size is the field in front of it, not the allocation's.
\<close>

definition im_getNextBuffer :: "pression \<Rightarrow> icommand \<Rightarrow> icommand \<times> next_buffer option" where
  "im_getNextBuffer P s =
     (let s = (if im_consumed s then s\<lparr>im_buffer := None\<rparr> else s)
      in case im_buffer s of
           None \<Rightarrow> (s, None)
         | Some b \<Rightarrow>
             (s\<lparr>im_consumed := True\<rparr>,
              Some \<lparr>nb_compressor = EQ_COMPRESSOR_NONE P, nb_nChunks = 1, nb_data = b,
                    nb_size = of_le (take 8 b)\<rparr>))"

definition im_nRemainingBuffers :: "icommand \<Rightarrow> nat" where
  "im_nRemainingBuffers s = (if im_buffer s = None then 0 else 1)"

definition im_unread :: "icommand \<Rightarrow> nat" where
  "im_unread s = (if im_buffer s = None \<or> im_consumed s then 0 else 1)"

interpretation im: buffer_source "im_getNextBuffer P" im_unread for P
  by unfold_locales (auto simp: im_getNextBuffer_def im_unread_def Let_def split: if_splits option.splits)

text \<open>
  Reading from a command: two rounds of the buffer loop always suffice, so the fuel is fixed.
  \<^verbatim>\<open>operator >>\<close> on a plain item leaves the item as it was when the read fails.
\<close>

definition im_get :: "pression \<Rightarrow> nat \<Rightarrow> icommand \<Rightarrow> bytes option \<times> icommand" where
  "im_get P n s = (case is_read P (im_getNextBuffer P) 2 s (of_nat n) of Some r \<Rightarrow> r | None \<Rightarrow> (None, s))"

definition im_read :: "pression \<Rightarrow> nat \<Rightarrow> 'a::len word \<Rightarrow> icommand \<Rightarrow> 'a word \<times> icommand" where
  "im_read P n value s =
     (case im_get P n s of
        (None, s) \<Rightarrow> (value, s)
      | (Some bs, s) \<Rightarrow> (of_le (if is_swap s then byteswap bs else bs), s))"

lemma im_fuel: "is_read P (im_getNextBuffer P) 2 s n \<noteq> None"
  by (rule im.read_terminates) (simp add: im_unread_def)

definition im_remainingSize :: "pression \<Rightarrow> icommand \<Rightarrow> uint64 \<times> icommand" where
  "im_remainingSize P s =
     (case is_getRemainingBufferSize P (im_getNextBuffer P) 2 s of Some r \<Rightarrow> r | None \<Rightarrow> (0, s))"

definition im_remainingBuffer :: "pression \<Rightarrow> uint64 \<Rightarrow> icommand \<Rightarrow> bytes option \<times> icommand" where
  "im_remainingBuffer P n s =
     (case is_getRemainingBuffer P (im_getNextBuffer P) 2 s n of Some r \<Rightarrow> r | None \<Rightarrow> (None, s))"

definition im_isValid :: "icommand \<Rightarrow> bool" where
  "im_isValid s \<longleftrightarrow>
     im_buffer s \<noteq> None \<and> the (im_buffer s) \<noteq> [] \<and> im_type s \<noteq> COMMANDTYPE_INVALID \<and>
     im_cmd s \<noteq> CMD_INVALID \<and> im_size s > 0"

definition im_empty :: icommand where
  "im_empty =
     \<lparr>is_input = None, is_inputSize = 0, is_position = 0, is_swap = False,
      im_local = None, im_remote = None, im_buffer = None, im_size = 0,
      im_type = COMMANDTYPE_INVALID, im_cmd = CMD_INVALID, im_consumed = False\<rparr>"

definition im_new :: "pression \<Rightarrow> NodeID \<Rightarrow> NodeID \<Rightarrow> bytes option \<Rightarrow> bool \<Rightarrow> icommand" where
  "im_new P local remote buffer swap =
     (let s = im_empty\<lparr>is_swap := swap, im_local := Some local, im_remote := Some remote, im_buffer := buffer\<rparr>
      in if buffer = None then s
         else case im_read P 8 (im_size s) s of
           (sz, s) \<Rightarrow> (case im_read P 4 (im_type s) (s\<lparr>im_size := sz\<rparr>) of
             (type, s) \<Rightarrow> (case im_read P 4 (im_cmd s) (s\<lparr>im_type := type\<rparr>) of
               (cmd, s) \<Rightarrow> s\<lparr>im_cmd := cmd\<rparr>)))"

definition im_skipHeader :: "pression \<Rightarrow> icommand \<Rightarrow> icommand" where
  "im_skipHeader P s =
     (if im_isValid s then
        (case im_remainingSize P s of
           (n, s) \<Rightarrow> if n \<ge> 16 then snd (im_remainingBuffer P 16 s) else s)
      else s)"

definition im_copy :: "pression \<Rightarrow> icommand \<Rightarrow> icommand" where
  "im_copy P rhs =
     im_skipHeader P
       (rhs\<lparr>is_input := None, is_inputSize := 0, is_position := 0, im_consumed := False\<rparr>)"

definition im_assign :: "pression \<Rightarrow> icommand \<Rightarrow> icommand \<Rightarrow> icommand" where
  "im_assign P this rhs =
     im_skipHeader P
       ((is_assign this rhs)\<lparr>im_local := im_local rhs, im_remote := im_remote rhs,
          im_buffer := im_buffer rhs, im_size := im_size rhs, im_type := im_type rhs,
          im_cmd := im_cmd rhs, im_consumed := False\<rparr>)"

definition im_clear :: "icommand \<Rightarrow> icommand" where
  "im_clear s =
     s\<lparr>im_local := None, im_remote := None, im_buffer := None, im_size := 0,
       im_type := COMMANDTYPE_INVALID, im_cmd := CMD_INVALID, im_consumed := False\<rparr>"

definition im_setType :: "uint32 \<Rightarrow> icommand \<Rightarrow> icommand" where
  "im_setType type s = s\<lparr>im_type := type\<rparr>"

definition im_setCommand :: "uint32 \<Rightarrow> icommand \<Rightarrow> icommand" where
  "im_setCommand cmd s = s\<lparr>im_cmd := cmd\<rparr>"

section \<open>ObjectICommand, ObjectDataICommand and CustomICommand\<close>

definition oim_init :: "pression \<Rightarrow> icommand \<Rightarrow> (uint128 \<times> uint32) \<times> icommand" where
  "oim_init P s =
     (if im_isValid s then
        (case im_read P 16 (0 :: uint128) s of
           (objectID, s) \<Rightarrow> (case im_read P 4 CO_INSTANCE_INVALID s of
             (instanceID, s) \<Rightarrow> ((objectID, instanceID), s)))
      else ((0, CO_INSTANCE_INVALID), s))"

text \<open>
  \<^verbatim>\<open>ObjectDataICommand( const ICommand& )\<close>: the fields in their order, then what is left of the
  buffer. A flag byte is read as a boolean.
\<close>

definition odcommand_of :: "pression \<Rightarrow> icommand \<Rightarrow> odcommand" where
  "odcommand_of P command =
     (case oim_init P (im_copy P command) of
        ((objectID, instanceID), s) \<Rightarrow>
          (let c = \<lparr>oc_valid = im_isValid s, oc_size = im_size s, oc_type = im_type s, oc_cmd = im_cmd s,
                    oc_objectID = objectID, oc_instanceID = instanceID, oc_version = 0, oc_datasize = 0,
                    oc_sequence = 0, oc_isLast = False, oc_compressor = EQ_COMPRESSOR_NONE P, oc_chunks = 1,
                    oc_rest = [], oc_remote = (case im_remote s of Some n \<Rightarrow> n | None \<Rightarrow> 0),
                    oc_local = (case im_local s of Some n \<Rightarrow> n | None \<Rightarrow> 0), oc_swapping = is_swap s\<rparr>
           in if \<not> im_isValid s then c
              else case im_read P 16 (0 :: uint128) s of
                (version, s) \<Rightarrow> (case im_read P 8 (0 :: uint64) s of
                  (datasize, s) \<Rightarrow> (case im_read P 4 (0 :: uint32) s of
                    (sequence, s) \<Rightarrow> (case im_read P 1 (0 :: byte) s of
                      (isLast, s) \<Rightarrow> (case im_read P 4 (EQ_COMPRESSOR_NONE P) s of
                        (compressor, s) \<Rightarrow> (case im_read P 4 (1 :: uint32) s of
                          (chunks, s) \<Rightarrow>
                            c\<lparr>oc_version := version, oc_datasize := datasize, oc_sequence := sequence,
                              oc_isLast := isLast \<noteq> 0, oc_compressor := compressor, oc_chunks := chunks,
                              oc_rest := (case is_input s of Some b \<Rightarrow> drop (unat (is_position s)) b | None \<Rightarrow> [])\<rparr>)))))))"

definition cui_commandID :: "pression \<Rightarrow> icommand \<Rightarrow> uint128 \<times> icommand" where
  "cui_commandID P command =
     (let s = im_copy P command in if im_isValid s then im_read P 16 (0 :: uint128) s else (0, s))"

section \<open>Reading a command back\<close>

definition im_at :: "bytes \<Rightarrow> nat \<Rightarrow> nat \<Rightarrow> icommand \<Rightarrow> bool" where
  "im_at b n k s \<longleftrightarrow>
     is_input s = Some b \<and> is_inputSize s = of_nat n \<and> is_position s = of_nat k \<and> \<not> is_swap s"

lemma im_read_at:
  assumes "im_at b n k s" and "0 < m" and "k + m \<le> n" and "n < 2 ^ 64"
  shows "im_read P m v s = (of_le (take m (drop k b)), s\<lparr>is_position := of_nat (k + m)\<rparr>)"
proof -
  have u: "unat (of_nat i :: uint64) = i" if "i \<le> n" for i
    using that assms(4) by (simp add: unat_of_nat)
  have "is_position s < is_inputSize s"
    using assms u [of k] u [of n] by (simp add: im_at_def word_less_nat_alt)
  moreover have "\<not> (of_nat m :: uint64) > is_inputSize s - is_position s"
  proof -
    have "is_inputSize s - is_position s = (of_nat (n - k) :: uint64)"
      using assms by (simp add: im_at_def)
    then show ?thesis using assms u [of m] u [of "n - k"] by (simp add: word_less_nat_alt)
  qed
  ultimately show ?thesis
    using assms u [of k] u [of m]
    by (simp add: im_read_def im_get_def is_read_def is_checkBuffer.simps im_at_def)
qed

lemma im_at_advance: "im_at b n k s \<Longrightarrow> im_at b n k' (s\<lparr>is_position := of_nat k'\<rparr>)"
  by (simp add: im_at_def)

text \<open>The first access to a fresh command fetches its buffer.\<close>

lemma im_read_fresh:
  assumes "im_buffer s = Some b" and "\<not> im_consumed s" and "is_position s = 0" and "is_inputSize s = 0"
    and "of_le (take 8 b) = (of_nat n :: uint64)" and "0 < n" and "n < 2 ^ 64"
  shows "is_checkBuffer P (im_getNextBuffer P) 2 s =
         Some (True, s\<lparr>is_position := 0, is_input := Some b, is_inputSize := of_nat n, im_consumed := True\<rparr>)"
proof -
  have "(0 :: uint64) < of_nat n"
    using assms(6,7) by (simp add: word_less_nat_alt unat_of_nat)
  with assms show ?thesis
    by (simp add: is_checkBuffer.simps numeral_2_eq_2 im_getNextBuffer_def is_decompress_def)
qed

text \<open>Reading the next plain item of the buffer.\<close>

lemma im_read_item:
  assumes "im_at b n k s" and "drop k b = le_bytes m w @ r" and "LENGTH('a) = 8 * m" and "k + m \<le> n"
    and "n < 2 ^ 64"
  shows "im_read P m v s = (w :: 'a::len word, s\<lparr>is_position := of_nat (k + m)\<rparr>)"
proof -
  have "0 < m" using assms(3) len_gt_0 [where 'a = 'a] by linarith
  with im_read_at [OF assms(1) _ assms(4,5), of P v] assms(2) of_le_bytes [OF assms(3), of w]
  show ?thesis by simp
qed

text \<open>The state after the construction of a command from its buffer.\<close>

definition im_loaded :: "NodeID \<Rightarrow> NodeID \<Rightarrow> bytes \<Rightarrow> nat \<Rightarrow> nat \<Rightarrow> uint32 \<Rightarrow> uint32 \<Rightarrow> icommand" where
  "im_loaded local remote b n k type cmd =
     \<lparr>is_input = Some b, is_inputSize = of_nat n, is_position = of_nat k, is_swap = False,
      im_local = Some local, im_remote = Some remote, im_buffer = Some b, im_size = of_nat n,
      im_type = type, im_cmd = cmd, im_consumed = True\<rparr>"

lemma loaded_at: "im_at b n k (im_loaded local remote b n k type cmd)"
  by (simp add: im_at_def im_loaded_def)

lemma loaded_position:
  "(im_loaded local remote b n k type cmd)\<lparr>is_position := of_nat k'\<rparr> = im_loaded local remote b n k' type cmd"
  by (simp add: im_loaded_def)

lemma loaded_read:
  assumes "drop k b = le_bytes m w @ r" and "LENGTH('a) = 8 * m" and "k + m \<le> n"
    and "n < 2 ^ 64"
  shows "im_read P m v (im_loaded local remote b n k type cmd) =
           (w :: 'a::len word, im_loaded local remote b n (k + m) type cmd)"
  using im_read_item [OF loaded_at assms, of P v] by (simp only: loaded_position)

lemma im_new_loaded:
  assumes "b = om_header (of_nat n) type cmd @ r" and "16 \<le> n" and "n < 2 ^ 64"
  shows "im_new P local remote (Some b) False = im_loaded local remote b n 16 type cmd"
proof -
  let ?s = "im_empty\<lparr>is_swap := False, im_local := Some local, im_remote := Some remote, im_buffer := Some b\<rparr>"
  have n8: "of_le (take 8 b) = (of_nat n :: uint64)" by (simp add: assms(1) om_header_def)
  have size: "im_read P 8 0 ?s =
      (of_nat n :: uint64, (im_loaded local remote b n 8 COMMANDTYPE_INVALID CMD_INVALID)\<lparr>im_size := 0\<rparr>)"
  proof -
    have fresh: "is_checkBuffer P (im_getNextBuffer P) 2 ?s =
        Some (True, ?s\<lparr>is_position := 0, is_input := Some b, is_inputSize := of_nat n, im_consumed := True\<rparr>)"
      using assms(2,3) n8 by (intro im_read_fresh) (simp_all add: im_empty_def)
    have "\<not> (8 :: uint64) > of_nat n"
      using assms(2,3) by (simp add: word_less_nat_alt unat_of_nat)
    then show ?thesis
      using n8 unfolding im_read_def im_get_def is_read_def fresh by (simp add: im_loaded_def im_empty_def)
  qed
  have d8: "drop 8 b = le_bytes 4 type @ le_bytes 4 cmd @ r" and d12: "drop 12 b = le_bytes 4 cmd @ r"
    by (simp_all add: assms(1) om_header_def)
  have set_size: "(im_loaded local remote b n 8 t c)\<lparr>im_size := 0\<rparr>\<lparr>im_size := of_nat n\<rparr> =
      im_loaded local remote b n 8 t c"
    and set_type: "(im_loaded local remote b n k t c)\<lparr>im_type := t'\<rparr> = im_loaded local remote b n k t' c"
    and set_cmd: "(im_loaded local remote b n k t c)\<lparr>im_cmd := c'\<rparr> = im_loaded local remote b n k t c'" for t c t' c' k
    by (simp_all add: im_loaded_def)
  have sz: "im_size ?s = 0" by (simp add: im_empty_def)
  show ?thesis
    using assms(2,3)
    by (simp add: im_new_def Let_def sz size set_size set_type set_cmd
        loaded_read [OF d8] loaded_read [OF d12])
qed

lemma im_copy_loaded:
  assumes "b = om_header (of_nat n) t0 c0 @ r" and "16 \<le> n" and "n < 2 ^ 64" and "n \<le> length b"
    and "type \<noteq> COMMANDTYPE_INVALID" and "cmd \<noteq> CMD_INVALID"
  shows "im_copy P (im_loaded local remote b n k type cmd) = im_loaded local remote b n 16 type cmd"
proof -
  let ?s = "(im_loaded local remote b n k type cmd)\<lparr>is_input := None, is_inputSize := 0, is_position := 0,
              im_consumed := False\<rparr>"
  have n0: "(0 :: uint64) < of_nat n" and n16: "(16 :: uint64) \<le> of_nat n"
    using assms(2,3) by (simp_all add: word_less_nat_alt word_le_nat_alt unat_of_nat)
  have "b \<noteq> []" using assms(1) by (simp add: om_header_def) (metis length_0_conv length_le_bytes zero_neq_numeral)
  then have valid: "im_isValid ?s"
    using assms(5,6) n0 by (simp add: im_isValid_def im_loaded_def)
  have fresh: "is_checkBuffer P (im_getNextBuffer P) 2 ?s =
      Some (True, im_loaded local remote b n 0 type cmd)"
    using assms(1-3) im_read_fresh [of ?s b n P] by (simp add: im_loaded_def om_header_def)
  have again: "is_checkBuffer P (im_getNextBuffer P) 2 (im_loaded local remote b n 0 type cmd) =
      Some (True, im_loaded local remote b n 0 type cmd)"
    using n0 by (simp add: is_checkBuffer.simps im_loaded_def)
  show ?thesis
    using valid n16 fresh again
    by (simp add: im_copy_def im_skipHeader_def im_remainingSize_def im_remainingBuffer_def
        is_getRemainingBufferSize_def is_getRemainingBuffer_def) (simp add: im_loaded_def)
qed

lemma odcommand_of_loaded:
  assumes "b = om_header (of_nat n) t0 c0 @ odm_fields objectID instanceID version sequence p @ r"
    and "73 \<le> n" and "n < 2 ^ 64" and "n \<le> length b"
    and "type \<noteq> COMMANDTYPE_INVALID" and "cmd \<noteq> CMD_INVALID"
  shows "odcommand_of P (im_loaded local remote b n k type cmd) =
    \<lparr>oc_valid = True, oc_size = of_nat n, oc_type = type, oc_cmd = cmd, oc_objectID = objectID,
     oc_instanceID = instanceID, oc_version = version, oc_datasize = pk_size p, oc_sequence = sequence,
     oc_isLast = pk_last p, oc_compressor = pk_compressor p, oc_chunks = pk_nChunks p, oc_rest = r,
     oc_remote = remote, oc_local = local, oc_swapping = False\<rparr>"
proof -
  note n = assms(2-4)
  let ?l = "\<lambda>k. im_loaded local remote b n k type cmd"
  have copy: "im_copy P (?l k) = ?l 16"
    using assms by (intro im_copy_loaded) simp_all
  have "(0 :: uint64) < of_nat n"
    using n by (simp add: word_less_nat_alt unat_of_nat)
  moreover have "b \<noteq> []" using n by auto
  ultimately have valid: "im_isValid (?l k')" for k'
    using assms(5,6) by (simp add: im_isValid_def im_loaded_def)
  have one: "[of_bool l] = le_bytes 1 (of_bool l :: byte)" for l
    by (simp add: le_bytes_def)
  have f: "drop 16 b = le_bytes 16 objectID @ drop 32 b" "drop 32 b = le_bytes 4 instanceID @ drop 36 b"
    "drop 36 b = le_bytes 16 version @ drop 52 b" "drop 52 b = le_bytes 8 (pk_size p) @ drop 60 b"
    "drop 60 b = le_bytes 4 sequence @ drop 64 b" "drop 64 b = le_bytes 1 (of_bool (pk_last p) :: byte) @ drop 65 b"
    "drop 65 b = le_bytes 4 (pk_compressor p) @ drop 69 b" "drop 69 b = le_bytes 4 (pk_nChunks p) @ drop 73 b"
    "drop 73 b = r"
    by (simp_all add: assms(1) odm_fields_def one)
  have u: "unat (of_nat 73 :: uint64) = 73" by simp
  have fields: "is_swap (?l k) = False" "im_size (?l k) = of_nat n" "im_type (?l k) = type" "im_cmd (?l k) = cmd"
    "im_remote (?l k) = Some remote" "im_local (?l k) = Some local" "is_input (?l k) = Some b"
    "is_position (?l k) = of_nat k" for k
    by (simp_all add: im_loaded_def)
  show ?thesis
    using n by (simp add: odcommand_of_def oim_init_def copy valid fields Let_def f(9)
        loaded_read [OF f(1)] loaded_read [OF f(2)] loaded_read [OF f(3)] loaded_read [OF f(4)]
        loaded_read [OF f(5)] loaded_read [OF f(6), unfolded One_nat_def] loaded_read [OF f(7)] loaded_read [OF f(8)])
qed

lemma odm_send_loaded:
  assumes "128 \<le> getObjectBufferSize G" and "length (concat extra) \<le> 40" and "receivers \<noteq> []"
    and "length (pk_body p) = pk_bodySize p" and "\<forall>n. length (pad n) = n"
    and "n = 73 + length (concat extra) + length (pk_body p)" and "n < 2 ^ 64"
  shows "im_new P local remote
      (Some (concat (map snd (odm_send G P pad receivers cmd type objectID instanceID version sequence p extra)))) False =
    im_loaded local remote
      (om_header (of_nat n) type cmd @ odm_fields objectID instanceID version sequence p @ concat extra @ pk_body p @ pad (COMMAND_MINSIZE - n))
      n 16 type cmd"
proof -
  let ?r = "concat extra @ pk_body p @ pad (COMMAND_MINSIZE - n)"
  let ?b = "om_header (of_nat n) type cmd @ odm_fields objectID instanceID version sequence p @ ?r"
  have wire: "concat (map snd (odm_send G P pad receivers cmd type objectID instanceID version sequence p extra)) = ?b"
    using odm_send_wire(1) [OF assms(1-5)] assms(6) by simp
  have len: "73 \<le> n" "n \<le> length ?b" using assms(6) by simp_all
  show ?thesis unfolding wire using assms(7) len by (intro im_new_loaded) simp_all
qed

lemma odm_send_parsed:
  assumes "128 \<le> getObjectBufferSize G" and "length (concat extra) \<le> 40" and "receivers \<noteq> []"
    and "length (pk_body p) = pk_bodySize p" and "\<forall>n. length (pad n) = n"
    and "n = 73 + length (concat extra) + length (pk_body p)" and "n < 2 ^ 64"
    and "type' \<noteq> COMMANDTYPE_INVALID" and "cmd' \<noteq> CMD_INVALID"
  shows "odcommand_of P (im_setCommand cmd' (im_setType type' (im_new P local remote
      (Some (concat (map snd (odm_send G P pad receivers cmd type objectID instanceID version sequence p extra))))
      False))) =
    \<lparr>oc_valid = True, oc_size = of_nat n, oc_type = type', oc_cmd = cmd', oc_objectID = objectID,
     oc_instanceID = instanceID, oc_version = version, oc_datasize = pk_size p, oc_sequence = sequence,
     oc_isLast = pk_last p, oc_compressor = pk_compressor p, oc_chunks = pk_nChunks p,
     oc_rest = concat extra @ pk_body p @ pad (COMMAND_MINSIZE - n),
     oc_remote = remote, oc_local = local, oc_swapping = False\<rparr>"
proof -
  let ?b = "om_header (of_nat n) type cmd @ odm_fields objectID instanceID version sequence p @ concat extra @ pk_body p @ pad (COMMAND_MINSIZE - n)"
  have len: "73 \<le> n" "n \<le> length ?b" using assms(6) by simp_all
  have "im_setCommand cmd' (im_setType type' (im_loaded local remote ?b n 16 type cmd)) = im_loaded local remote ?b n 16 type' cmd'"
    by (simp add: im_setCommand_def im_setType_def im_loaded_def)
  then show ?thesis
    unfolding odm_send_loaded [OF assms(1-7)] using odcommand_of_loaded [OF refl len(1) assms(7) len(2) assms(8,9)] by simp
qed

text \<open>C29 (data_command_roundtrip): the bytes a data command puts on a connection, read as a command by the
  receiver, give back its size, type, command and every field of the header, and what follows the header is the
  extra fields, the body and the padding, in this order. Type and command are valid ones, there are at most 40 bytes
  of extra fields, and the buffer of a stream has at least 128 bytes.\<close>

theorem data_command_roundtrip:
  assumes "128 \<le> getObjectBufferSize G" and "length (concat extra) \<le> 40" and "receivers \<noteq> []"
    and "length (pk_body p) = pk_bodySize p" and "\<forall>n. length (pad n) = n"
    and "n = 73 + length (concat extra) + length (pk_body p)" and "n < 2 ^ 64"
    and "type \<noteq> COMMANDTYPE_INVALID" and "cmd \<noteq> CMD_INVALID"
  shows "odcommand_of P (im_new P local remote
      (Some (concat (map snd (odm_send G P pad receivers cmd type objectID instanceID version sequence p extra)))) False) =
    \<lparr>oc_valid = True, oc_size = of_nat n, oc_type = type, oc_cmd = cmd, oc_objectID = objectID,
     oc_instanceID = instanceID, oc_version = version, oc_datasize = pk_size p, oc_sequence = sequence,
     oc_isLast = pk_last p, oc_compressor = pk_compressor p, oc_chunks = pk_nChunks p,
     oc_rest = concat extra @ pk_body p @ pad (COMMAND_MINSIZE - n),
     oc_remote = remote, oc_local = local, oc_swapping = False\<rparr>"
proof -
  let ?c = "im_new P local remote
      (Some (concat (map snd (odm_send G P pad receivers cmd type objectID instanceID version sequence p extra)))) False"
  have "?c = im_loaded local remote
      (om_header (of_nat n) type cmd @ odm_fields objectID instanceID version sequence p @ concat extra @ pk_body p @ pad (COMMAND_MINSIZE - n))
      n 16 type cmd"
    by (rule odm_send_loaded [OF assms(1-7)])
  then have "im_setCommand cmd (im_setType type ?c) = ?c" by (simp add: im_setCommand_def im_setType_def im_loaded_def)
  with odm_send_parsed [OF assms] show ?thesis by metis
qed

definition sample_pression :: pression where
  "sample_pression = \<lparr>EQ_COMPRESSOR_NONE = 0, pr_decompress = (\<lambda>name cs n. concat cs), pr_isGood = True,
                      pr_name = 7, pr_compress = (\<lambda>d. [d])\<rparr>"

definition sample_config :: global_config where
  "sample_config = \<lparr>getObjectBufferSize = 60000, IATTR_OBJECT_COMPRESSION = 1023\<rparr>"

definition sample_packet :: packet where
  "sample_packet = \<lparr>pk_compressor = 0, pk_nChunks = 1, pk_size = 3, pk_last = True, pk_bodySize = 3,
                    pk_body = [1, 2, 3]\<rparr>"

theorem data_command_roundtrip_witness:
  "odcommand_of sample_pression
      (im_new sample_pression 5 6 (Some (concat (map snd (odm_send sample_config sample_pression
        (\<lambda>n. replicate n 0) [Unicast 5] CMD_OBJECT_DELTA COMMANDTYPE_OBJECT 11 CO_INSTANCE_ALL 4 0 sample_packet []))))
      False) =
    \<lparr>oc_valid = True, oc_size = 76, oc_type = COMMANDTYPE_OBJECT, oc_cmd = CMD_OBJECT_DELTA, oc_objectID = 11,
     oc_instanceID = CO_INSTANCE_ALL, oc_version = 4, oc_datasize = 3, oc_sequence = 0, oc_isLast = True,
     oc_compressor = 0, oc_chunks = 1, oc_rest = [1, 2, 3] @ replicate 180 0,
     oc_remote = 6, oc_local = 5, oc_swapping = False\<rparr>"
  using data_command_roundtrip [of sample_config "[]" "[Unicast 5]" sample_packet "\<lambda>n. replicate n 0" 76
      COMMANDTYPE_OBJECT CMD_OBJECT_DELTA sample_pression 5 6 11 CO_INSTANCE_ALL 4 0]
  by (simp add: sample_config_def sample_packet_def COMMANDTYPE_OBJECT_def COMMANDTYPE_INVALID_def
      CMD_INVALID_def CMD_OBJECT_DELTA_def COMMAND_MINSIZE_def)

text \<open>Copying a custom command, as a function that returns one by value does
  when the copy is not elided, writes the command identifier twice: the receiver would read the
  second copy as the first item of the application's data.\<close>

theorem custom_command_copy:
  assumes "128 \<le> getObjectBufferSize G"
  shows "os_buffer (cuo_copy G P pad commandID (cuo_new G P pad receivers commandID)) =
         om_header 0 COMMANDTYPE_NODE CMD_NODE_COMMAND @ le_bytes 16 commandID @ le_bytes 16 commandID"
proof -
  let ?h = "om_header 0 COMMANDTYPE_NODE CMD_NODE_COMMAND"
  have "building receivers (?h @ le_bytes 16 commandID) False (cuo_new G P pad receivers commandID)"
    unfolding cuo_new_def cuo_init_def using assms
    by (intro write_building) (auto intro: new_building(1))
  then have "building receivers (?h @ le_bytes 16 commandID) False
      (fst (om_takeover G P pad (cuo_new G P pad receivers commandID)))"
    by (simp add: building_def om_takeover_def os_takeover_def os_setupConnections_def os_new_def Let_def)
  then have "building receivers ((?h @ le_bytes 16 commandID) @ le_bytes 16 commandID) False
      (cuo_copy G P pad commandID (cuo_new G P pad receivers commandID))"
    unfolding cuo_copy_def cuo_init_def using assms by (intro write_building) simp_all
  then show ?thesis by (simp add: building_def)
qed

theorem custom_command_copy_witness:
  "os_buffer (cuo_copy sample_config sample_pression (\<lambda>n. replicate n 0) 9
      (cuo_new sample_config sample_pression (\<lambda>n. replicate n 0) [Unicast 5] 9)) =
   om_header 0 COMMANDTYPE_NODE CMD_NODE_COMMAND @ le_bytes 16 (9 :: uint128) @ le_bytes 16 (9 :: uint128)"
  by (rule custom_command_copy) (simp add: sample_config_def)

end
