(* ===== verification/Object_Data_OStream.thy ===== *)
theory Object_Data_OStream
  imports Commands
begin

text \<open>
  The output streams of distributed objects, \<^verbatim>\<open>src/co/objectDataOStream.cpp\<close>,
  \<^verbatim>\<open>objectInstanceDataOStream.cpp\<close>, \<^verbatim>\<open>objectDeltaDataOStream.cpp\<close> and
  \<^verbatim>\<open>objectSlaveDataOStream.cpp\<close>. Each supplies the \<open>sendData\<close> of an output stream; the
  data commands it sends are the log \<open>oo_sent\<close>, and \<open>oo_image\<close> is the command's wire image.
\<close>

section \<open>State\<close>

text \<open>What the streams read of the object they belong to.\<close>

record object_info =
  oi_id :: uint128
  oi_instanceID :: uint32
  oi_masterInstanceID :: uint32
  oi_changeType :: uint32

record data_message =
  dm_receivers :: "connection list"
  dm_cmd :: uint32
  dm_type :: uint32
  dm_objectID :: uint128
  dm_instanceID :: uint32
  dm_version :: uint128
  dm_sequence :: uint32
  dm_packet :: packet
  dm_extra :: "bytes list"

record odostream =
  oo_object :: object_info
  oo_version :: uint128
  oo_sequence :: uint32
  oo_sent :: "data_message list"

record instance_ostream = odostream +
  io_nodeID :: NodeID
  io_instanceID :: uint32
  io_command :: uint32

text \<open>Commit identifiers come from \<^verbatim>\<open>lunchbox::make_UUID\<close>: a source and how many were drawn.\<close>

record slave_ostream = odostream +
  so_commit :: uint128
  so_uuids :: "nat \<Rightarrow> uint128"
  so_drawn :: nat

definition CMD_NODE_OBJECT_INSTANCE :: uint32 where "CMD_NODE_OBJECT_INSTANCE = 32"
definition CMD_NODE_OBJECT_INSTANCE_MAP :: uint32 where "CMD_NODE_OBJECT_INSTANCE_MAP = 33"
definition CMD_NODE_OBJECT_INSTANCE_COMMIT :: uint32 where "CMD_NODE_OBJECT_INSTANCE_COMMIT = 34"
definition CMD_NODE_OBJECT_INSTANCE_PUSH :: uint32 where "CMD_NODE_OBJECT_INSTANCE_PUSH = 35"
definition CMD_NODE_OBJECT_INSTANCE_SYNC :: uint32 where "CMD_NODE_OBJECT_INSTANCE_SYNC = 36"

section \<open>ObjectDataOStream\<close>

definition oo_new :: "object_info \<Rightarrow> odostream" where
  "oo_new object = \<lparr>oo_object = object, oo_version = VERSION_INVALID, oo_sequence = 0, oo_sent = []\<rparr>"

definition oo_reset :: "('a odostream_scheme) ostream \<Rightarrow> ('a odostream_scheme) ostream" where
  "oo_reset s =
     (let s = os_reset s in s\<lparr>os_sub := (os_sub s)\<lparr>oo_sequence := 0, oo_version := VERSION_INVALID\<rparr>\<rparr>)"

definition oo_enableCommit ::
  "uint128 \<Rightarrow> node list \<Rightarrow> ('a odostream_scheme) ostream \<Rightarrow> ('a odostream_scheme) ostream" where
  "oo_enableCommit version receivers s =
     os_enable (os_setupConnections (gatherConnections receivers)
       (s\<lparr>os_sub := (os_sub s)\<lparr>oo_version := version\<rparr>\<rparr>))"

text \<open>\<^verbatim>\<open>send\<close>, with the fields the caller streams into the returned command.\<close>

definition oo_send ::
  "uint32 \<Rightarrow> uint32 \<Rightarrow> uint32 \<Rightarrow> bytes list \<Rightarrow> connection list \<Rightarrow> packet \<Rightarrow> 'a odostream_scheme \<Rightarrow>
   'a odostream_scheme" where
  "oo_send cmd type instanceID extra connections p s =
     s\<lparr>oo_sequence := (if pk_last p then 0 else oo_sequence s + 1),
       oo_sent := oo_sent s @
         [\<lparr>dm_receivers = connections, dm_cmd = cmd, dm_type = type, dm_objectID = oi_id (oo_object s),
           dm_instanceID = instanceID, dm_version = oo_version s, dm_sequence = oo_sequence s,
           dm_packet = p, dm_extra = extra\<rparr>]\<rparr>"

definition oo_image ::
  "global_config \<Rightarrow> pression \<Rightarrow> (nat \<Rightarrow> bytes) \<Rightarrow> data_message \<Rightarrow> (connection list \<times> bytes) list" where
  "oo_image G P pad m =
     odm_send G P pad (dm_receivers m) (dm_cmd m) (dm_type m) (dm_objectID m) (dm_instanceID m)
       (dm_version m) (dm_sequence m) (dm_packet m) (dm_extra m)"

section \<open>ObjectDeltaDataOStream\<close>

definition do_sendData :: "connection list \<Rightarrow> packet \<Rightarrow> odostream \<Rightarrow> odostream" where
  "do_sendData = oo_send CMD_OBJECT_DELTA COMMANDTYPE_OBJECT CO_INSTANCE_ALL []"

section \<open>ObjectSlaveDataOStream\<close>

definition so_new :: "(nat \<Rightarrow> uint128) \<Rightarrow> object_info \<Rightarrow> slave_ostream" where
  "so_new uuids object =
     \<lparr>oo_object = object, oo_version = VERSION_INVALID, oo_sequence = 0, oo_sent = [],
      so_commit = uuids 0, so_uuids = uuids, so_drawn = 1\<rparr>"

definition so_enableSlaveCommit :: "node \<Rightarrow> slave_ostream ostream \<Rightarrow> slave_ostream ostream" where
  "so_enableSlaveCommit n s =
     (let sub = os_sub s;
          s = s\<lparr>os_sub := sub\<lparr>oo_version := so_uuids sub (so_drawn sub), so_drawn := so_drawn sub + 1\<rparr>\<rparr>
      in os_enable (case nd_getConnection False n of
                      Some c \<Rightarrow> os_setupConnection c s | None \<Rightarrow> s))"

definition so_sendData :: "connection list \<Rightarrow> packet \<Rightarrow> slave_ostream \<Rightarrow> slave_ostream" where
  "so_sendData connections p s =
     (let s = oo_send CMD_OBJECT_SLAVE_DELTA COMMANDTYPE_OBJECT (oi_masterInstanceID (oo_object s))
                [le_bytes 16 (so_commit s)] connections p s
      in if pk_last p then s\<lparr>so_commit := so_uuids s (so_drawn s), so_drawn := so_drawn s + 1\<rparr> else s)"

section \<open>ObjectInstanceDataOStream\<close>

definition io_new :: "object_info \<Rightarrow> instance_ostream" where
  "io_new object =
     \<lparr>oo_object = object, oo_version = VERSION_INVALID, oo_sequence = 0, oo_sent = [],
      io_nodeID = 0, io_instanceID = CO_INSTANCE_ALL, io_command = 0\<rparr>"

definition io_set :: "uint32 \<Rightarrow> NodeID \<Rightarrow> uint32 \<Rightarrow> instance_ostream ostream \<Rightarrow> instance_ostream ostream" where
  "io_set command nodeID instanceID s =
     s\<lparr>os_sub := (os_sub s)\<lparr>io_command := command, io_nodeID := nodeID, io_instanceID := instanceID\<rparr>\<rparr>"

definition io_reset :: "instance_ostream ostream \<Rightarrow> instance_ostream ostream" where
  "io_reset s = io_set 0 0 CO_INSTANCE_NONE (oo_reset s)"

definition io_enableCommit :: "uint128 \<Rightarrow> node list \<Rightarrow> instance_ostream ostream \<Rightarrow> instance_ostream ostream" where
  "io_enableCommit version receivers s =
     oo_enableCommit version receivers (io_set CMD_NODE_OBJECT_INSTANCE_COMMIT 0 CO_INSTANCE_NONE s)"

definition io_enablePush :: "uint128 \<Rightarrow> node list \<Rightarrow> instance_ostream ostream \<Rightarrow> instance_ostream ostream" where
  "io_enablePush version receivers s =
     oo_enableCommit version receivers (io_set CMD_NODE_OBJECT_INSTANCE_PUSH 0 CO_INSTANCE_NONE s)"

definition io_enableSync :: "uint128 \<Rightarrow> node \<Rightarrow> uint32 \<Rightarrow> instance_ostream ostream \<Rightarrow> instance_ostream ostream" where
  "io_enableSync version n requestID s =
     oo_enableCommit version [n] (io_set CMD_NODE_OBJECT_INSTANCE_SYNC (nd_id n) requestID s)"

definition io_enableMap :: "uint128 \<Rightarrow> node \<Rightarrow> uint32 \<Rightarrow> instance_ostream ostream \<Rightarrow> instance_ostream ostream" where
  "io_enableMap version n instanceID s =
     (let s = io_set CMD_NODE_OBJECT_INSTANCE_MAP (nd_id n) instanceID s;
          s = s\<lparr>os_sub := (os_sub s)\<lparr>oo_version := version\<rparr>\<rparr>
      in os_enable (case nd_getConnection True n of Some c \<Rightarrow> os_setupConnection c s | None \<Rightarrow> s))"

definition io_sendData :: "connection list \<Rightarrow> packet \<Rightarrow> instance_ostream \<Rightarrow> instance_ostream" where
  "io_sendData connections p s =
     oo_send (io_command s) COMMANDTYPE_NODE (io_instanceID s)
       [le_bytes 16 (io_nodeID s), le_bytes 4 (oi_instanceID (oo_object s))] connections p s"

text \<open>The operations that send the retained buffer again.\<close>

definition io_resend ::
  "global_config \<Rightarrow> pression \<Rightarrow> connection list \<Rightarrow> instance_ostream ostream \<Rightarrow> instance_ostream ostream" where
  "io_resend G P connections s =
     os_clearConnections (os_resend G P io_sendData (os_setupConnections connections s))"

text \<open>\<^verbatim>\<open>push\<close> also sends a \<^verbatim>\<open>CMD_NODE_OBJECT_PUSH\<close> to the same connections: the second result.\<close>

definition io_push ::
  "global_config \<Rightarrow> pression \<Rightarrow> node list \<Rightarrow> uint128 \<Rightarrow> uint128 \<Rightarrow> uint128 \<Rightarrow> instance_ostream ostream \<Rightarrow>
   instance_ostream ostream \<times> (connection list \<times> uint128 \<times> uint128 \<times> uint128)" where
  "io_push G P receivers objectID groupID typeID s =
     (io_resend G P (gatherConnections receivers)
        (io_set CMD_NODE_OBJECT_INSTANCE_PUSH 0 CO_INSTANCE_NONE s),
      (gatherConnections receivers, objectID, groupID, typeID))"

definition io_sync ::
  "global_config \<Rightarrow> pression \<Rightarrow> node \<Rightarrow> uint32 \<Rightarrow> instance_ostream ostream \<Rightarrow> instance_ostream ostream" where
  "io_sync G P n requestID s =
     io_resend G P (gatherConnections [n]) (io_set CMD_NODE_OBJECT_INSTANCE_SYNC (nd_id n) requestID s)"

definition io_sendInstanceData ::
  "global_config \<Rightarrow> pression \<Rightarrow> node list \<Rightarrow> instance_ostream ostream \<Rightarrow> instance_ostream ostream" where
  "io_sendInstanceData G P receivers s =
     io_resend G P (gatherConnections receivers) (io_set CMD_NODE_OBJECT_INSTANCE 0 CO_INSTANCE_NONE s)"

definition io_sendMapData ::
  "global_config \<Rightarrow> pression \<Rightarrow> node \<Rightarrow> uint32 \<Rightarrow> instance_ostream ostream \<Rightarrow> instance_ostream ostream" where
  "io_sendMapData G P n instanceID s =
     io_resend G P (case nd_getConnection True n of
                      Some c \<Rightarrow> os_connections s @ [c] | None \<Rightarrow> os_connections s)
       (io_set CMD_NODE_OBJECT_INSTANCE_MAP (nd_id n) instanceID s)"

section \<open>The streams are senders\<close>

definition oo_packets :: "'a odostream_scheme \<Rightarrow> (connection list \<times> packet) list" where
  "oo_packets s = map (\<lambda>m. (dm_receivers m, dm_packet m)) (oo_sent s)"

lemma oo_packets_send [simp]: "oo_packets (oo_send cmd type i e cs p s) = oo_packets s @ [(cs, p)]"
  by (simp add: oo_packets_def oo_send_def)

interpretation delta: data_sender do_sendData oo_packets
  by unfold_locales (simp add: do_sendData_def)

interpretation inst: data_sender io_sendData oo_packets
  by unfold_locales (simp add: io_sendData_def)

interpretation slave: data_sender so_sendData oo_packets
  by unfold_locales (simp add: so_sendData_def Let_def oo_packets_def oo_send_def)

text \<open>
  A commit to an instance stream that saves its data: the stream has the committed version, retains
  everything that was written, has released its connections, and knows whether there was data.
\<close>

lemma io_commit_facts:
  assumes "os_save s" and "length (concat ws) < 2 ^ 64"
    and "f = os_disable G P io_sendData (fold (os_write G P io_sendData) ws (io_enableCommit version receivers s))"
  shows "oo_version (os_sub f) = version" and "inst.retains P (concat ws) f" and "os_connections f = []"
    and "os_hasSentData f \<longleftrightarrow> concat ws \<noteq> []" and "os_save f"
proof -
  let ?e = "io_enableCommit version receivers s" and ?w = "os_write G P io_sendData"
  let ?s1 = "fold ?w ws ?e" and ?cs = "gatherConnections receivers"
  have e: "inst.writing ?cs [] ?e" "os_save ?e" "os_buffer ?e = []"
    using assms(1) by (auto simp: inst.writing_def io_enableCommit_def oo_enableCommit_def os_enable_def
        os_setupConnections_def io_set_def)
  have buffer: "os_buffer ?s1 = concat ws" and save: "os_save ?s1"
    using inst.writes_saved [OF e(2), of G P ws] e(3) by simp_all
  obtain g where g: "inst.writing ?cs g ?s1"
    using inst.writes_writing_any [OF e(1)] by blast
  then show "inst.retains P (concat ws) f"
    using inst.disable_retains [OF g save, of P G] assms(2,3) buffer by simp
  show "oo_version (os_sub f) = version"
    unfolding assms(3)
    by (intro os_disable_sub [where Q = "\<lambda>x. oo_version x = version"]
        os_writes_sub [where Q = "\<lambda>x. oo_version x = version"])
       (simp_all add: io_sendData_def oo_send_def io_enableCommit_def oo_enableCommit_def os_enable_def
         os_setupConnections_def)
  have "os_enabled ?s1" using g by (simp add: inst.writing_def)
  then show "os_connections f = []" "os_save f" "os_hasSentData f \<longleftrightarrow> concat ws \<noteq> []"
    unfolding assms(3) using buffer save
    by (simp_all add: os_disable_def Let_def os_hasSentData_def os_sendData_def)
qed

text \<open>Sending a retained version to a node that maps it.\<close>

lemma io_sendMapData_facts:
  assumes "inst.retains P data f" and "pression_ok P" and "nd_getConnection True n = Some c" and "os_connections f = []"
    and "t = io_sendMapData G P n instanceID f"
  shows "oo_version (os_sub t) = oo_version (os_sub f)" and "inst.retains P data t" and "os_connections t = []"
    and "oo_sent (os_sub t) = oo_sent (os_sub f) @ [last (oo_sent (os_sub t))]"
    and "pk_payload P (dm_packet (last (oo_sent (os_sub t)))) = data"
    and "pk_last (dm_packet (last (oo_sent (os_sub t))))"
    and "dm_receivers (last (oo_sent (os_sub t))) = [c]"
    and "dm_version (last (oo_sent (os_sub t))) = oo_version (os_sub f)"
    and "dm_cmd (last (oo_sent (os_sub t))) = CMD_NODE_OBJECT_INSTANCE_MAP"
    and "dm_instanceID (last (oo_sent (os_sub t))) = instanceID"
proof -
  let ?t = "os_setupConnections [c] (io_set CMD_NODE_OBJECT_INSTANCE_MAP (nd_id n) instanceID f)"
  let ?r = "os_resend G P io_sendData ?t"
  have t: "t = os_clearConnections ?r"
    by (simp add: assms(3-5) io_sendMapData_def io_resend_def)
  have ret: "inst.retains P data ?t"
    using assms(1) by (auto simp: inst.retains_def os_setupConnections_def io_set_def)
  note resend = inst.resend_retains [OF ret assms(2), of G]
  then show "inst.retains P data t"
    by (auto simp: t inst.retains_def os_clearConnections_def)
  show "os_connections t = []" by (simp add: t os_clearConnections_def)
  obtain p where p: "os_sub t = io_sendData [c] p (os_sub ?t)"
    by (simp add: t os_clearConnections_def os_resend_def os_sendData_def Let_def os_setupConnections_def)
  then show "oo_version (os_sub t) = oo_version (os_sub f)"
    and "oo_sent (os_sub t) = oo_sent (os_sub f) @ [last (oo_sent (os_sub t))]"
    and "dm_receivers (last (oo_sent (os_sub t))) = [c]"
    and "dm_version (last (oo_sent (os_sub t))) = oo_version (os_sub f)"
    and "dm_cmd (last (oo_sent (os_sub t))) = CMD_NODE_OBJECT_INSTANCE_MAP"
    and "dm_instanceID (last (oo_sent (os_sub t))) = instanceID"
    and "pk_payload P (dm_packet (last (oo_sent (os_sub t)))) = data"
    and "pk_last (dm_packet (last (oo_sent (os_sub t))))"
    using resend
    by (simp_all add: io_sendData_def oo_send_def os_setupConnections_def io_set_def t os_clearConnections_def
        inst.received_def oo_packets_def)
qed

end
