(* ===== verification/Stream_Roundtrip.thy ===== *)
theory Stream_Roundtrip
  imports Object_Data_OStream
begin

text \<open>
  From the application's writes on one node to its reads on another: \<^verbatim>\<open>DataOStream\<close> buckets and
  compresses, the object streams send data commands, the receiver assembles them in an
  \<^verbatim>\<open>ObjectDataIStream\<close>, and symmetric reads give back the writes.
\<close>

section \<open>Reading assembled commands\<close>

definition cmd_carries :: "pression \<Rightarrow> odcommand \<Rightarrow> bytes \<Rightarrow> bool" where
  "cmd_carries P c d \<longleftrightarrow>
     oc_valid c \<and> d \<noteq> [] \<and> length d < 2 ^ 64 \<and> oc_datasize c = of_nat (length d) \<and>
     take (length d) (is_decompress P (od_chunkData c) (oc_compressor c) (oc_chunks c) (oc_datasize c)) = d"

text \<open>A stream with the unread rest of the current buffer and the data of the queued commands.\<close>

definition reader :: "pression \<Rightarrow> odistream \<Rightarrow> bytes \<Rightarrow> bytes list \<Rightarrow> bool" where
  "reader P s u ds \<longleftrightarrow>
     list_all2 (cmd_carries P) (od_commands s) ds \<and>
     unat (is_position s) + length u = unat (is_inputSize s) \<and>
     (u \<noteq> [] \<longrightarrow> (\<exists>b. is_input s = Some b \<and> take (length u) (drop (unat (is_position s)) b) = u))"

text \<open>Reads of the given sizes; the fuel is one more than the remaining buffers.\<close>

fun od_reads :: "pression \<Rightarrow> odistream \<Rightarrow> nat list \<Rightarrow> bytes option list \<times> odistream" where
  "od_reads P s [] = ([], s)"
| "od_reads P s (n # ns) =
     (case is_read P od_getNextBuffer (Suc (od_nRemainingBuffers s)) s (of_nat n) of
        None \<Rightarrow> ([], s)
      | Some (r, s) \<Rightarrow> (case od_reads P s ns of (rs, s) \<Rightarrow> (r # rs, s)))"

lemma reader_read:
  assumes "reader P s (w @ u) ds" and "w \<noteq> []"
  shows "\<exists>s'. is_read P od_getNextBuffer fuel s (of_nat (length w)) = Some (Some w, s') \<and> reader P s' u ds"
proof -
  from assms obtain b where b: "is_input s = Some b"
    and take: "take (length w + length u) (drop (unat (is_position s)) b) = w @ u"
    and pos: "unat (is_position s) + length w + length u = unat (is_inputSize s)"
    by (auto simp: reader_def)
  have lt: "unat (is_inputSize s) < 2 ^ 64" using unsigned_less [of "is_inputSize s", where 'a = nat] by simp
  then have w: "unat (of_nat (length w) :: uint64) = length w" using pos by (simp add: unat_of_nat)
  have less: "is_position s < is_inputSize s"
    using pos assms(2) length_greater_0_conv [of w] unfolding word_less_nat_alt by linarith
  then have "unat (is_inputSize s - is_position s) = length w + length u"
    using pos by (simp add: unat_sub word_le_nat_alt word_less_nat_alt)
  then have ge: "\<not> (of_nat (length w) :: uint64) > is_inputSize s - is_position s"
    by (simp add: word_less_nat_alt w)
  have pos': "unat (is_position s + of_nat (length w)) = unat (is_position s) + length w"
    using pos lt w by (subst unat_add_lem [THEN iffD1]) simp_all
  let ?s = "s\<lparr>is_position := is_position s + of_nat (length w)\<rparr>"
  have tw: "take (length w) (drop (unat (is_position s)) b) = w"
    using arg_cong [OF take, of "take (length w)"] by (simp add: min_def)
  have "take (length u) (drop (unat (is_position s) + length w) b) = u"
    using arg_cong [OF take, of "drop (length w)"] by (simp add: drop_take add.commute)
  then have "reader P ?s u ds"
    using assms(1) pos pos' b by (simp add: reader_def)
  moreover have "is_read P od_getNextBuffer fuel s (of_nat (length w)) = Some (Some w, ?s)"
    using less ge tw b w by (simp add: is_read_def is_checkBuffer.simps)
  ultimately show ?thesis by blast
qed

lemma reader_next:
  assumes "reader P s [] (d # ds)"
  shows "\<exists>s'. is_checkBuffer P od_getNextBuffer (Suc fuel) s = is_checkBuffer P od_getNextBuffer fuel s' \<and>
           reader P s' d ds \<and> od_nRemainingBuffers s = Suc (od_nRemainingBuffers s')"
proof -
  from assms obtain c cs where cs: "od_commands s = c # cs" and c: "cmd_carries P c d"
    and rest: "list_all2 (cmd_carries P) cs ds"
    by (auto simp: reader_def list_all2_Cons2)
  have pos: "is_position s = is_inputSize s" using assms by (simp add: reader_def word_unat_eq_iff)
  have valid: "oc_valid c" and len: "unat (oc_datasize c) = length d" and ne: "d \<noteq> []"
    using c by (auto simp: cmd_carries_def unat_of_nat)
  then have size: "oc_datasize c \<noteq> 0" by auto
  let ?s = "s\<lparr>is_position := 0, od_commands := cs, od_usedCommand := Some c, is_swap := oc_swapping c,
              is_inputSize := oc_datasize c,
              is_input := Some (is_decompress P (od_chunkData c) (oc_compressor c) (oc_chunks c) (oc_datasize c))\<rparr>"
  have "is_checkBuffer P od_getNextBuffer (Suc fuel) s = is_checkBuffer P od_getNextBuffer fuel ?s"
    by (subst is_checkBuffer.simps)
       (simp add: pos od_getNextBuffer_def cs size valid is_setSwapping_def)
  moreover have "reader P ?s d ds"
    using rest len c by (auto simp: reader_def cmd_carries_def)
  ultimately show ?thesis
    by (intro exI [of _ ?s]) (simp add: od_nRemainingBuffers_def cs)
qed

lemma reader_read_next:
  assumes "reader P s [] ((w @ u) # ds)" and "w \<noteq> []"
  shows "\<exists>s'. is_read P od_getNextBuffer (Suc fuel) s (of_nat (length w)) = Some (Some w, s') \<and> reader P s' u ds"
proof -
  from reader_next [OF assms(1)] obtain s1 where
    "is_checkBuffer P od_getNextBuffer (Suc fuel) s = is_checkBuffer P od_getNextBuffer fuel s1"
    and "reader P s1 (w @ u) ds" by blast
  with reader_read [OF _ assms(2), of P s1 u ds fuel] show ?thesis
    by (simp add: is_read_def)
qed

lemma reads_groups:
  assumes "reader P s (concat g) (map concat gs)" and "[] \<notin> set (g @ concat gs)" and "[] \<notin> set gs"
  shows "\<exists>s'. od_reads P s (map length (g @ concat gs)) = (map Some (g @ concat gs), s') \<and> reader P s' [] []"
  using assms
proof (induction "length (g @ concat gs)" arbitrary: s g gs)
  case 0
  then show ?case by (cases gs) auto
next
  case (Suc n)
  show ?case
  proof (cases g)
    case (Cons w g')
    with Suc.prems obtain s1 where
      read: "is_read P od_getNextBuffer (Suc (od_nRemainingBuffers s)) s (of_nat (length w)) = Some (Some w, s1)"
      and r: "reader P s1 (concat g') (map concat gs)"
      using reader_read [of P s w "concat g'"] by fastforce
    with Suc.hyps(1) [of g' gs s1] Suc.hyps(2) Suc.prems Cons show ?thesis by auto
  next
    case Nil
    with Suc.hyps(2) Suc.prems(3) obtain w g' gs' where gs: "gs = (w # g') # gs'"
      by (cases gs; cases "hd gs") auto
    with Suc.prems Nil obtain s1 where
      read: "is_read P od_getNextBuffer (Suc (od_nRemainingBuffers s)) s (of_nat (length w)) = Some (Some w, s1)"
      and r: "reader P s1 (concat g') (map concat gs')"
      using reader_read_next [of P s w "concat g'"] by fastforce
    with Suc.hyps(1) [of g' gs' s1] Suc.hyps(2) Suc.prems gs Nil show ?thesis by auto
  qed
qed

lemma reader_end:
  assumes "reader P s [] []"
  shows "\<exists>s'. is_hasData P od_getNextBuffer (Suc fuel) s = Some (False, s')"
proof -
  have "is_position s = is_inputSize s" and "od_commands s = []"
    using assms by (simp_all add: reader_def word_unat_eq_iff)
  then show ?thesis
    by (simp add: is_hasData_def is_checkBuffer.simps od_getNextBuffer_def)
qed

section \<open>Assembling the messages of a stream\<close>

text \<open>A message as the receiver gets it, retyped the way the object store does.\<close>

definition receive_message ::
  "global_config \<Rightarrow> pression \<Rightarrow> (nat \<Rightarrow> bytes) \<Rightarrow> NodeID \<Rightarrow> NodeID \<Rightarrow> uint32 \<Rightarrow> data_message \<Rightarrow> odcommand" where
  "receive_message G P pad local remote cmd m =
     odcommand_of P (im_setCommand cmd (im_setType COMMANDTYPE_OBJECT (im_new P local remote
       (Some (concat (map snd (oo_image G P pad m)))) False)))"

definition receive_stream ::
  "global_config \<Rightarrow> pression \<Rightarrow> (nat \<Rightarrow> bytes) \<Rightarrow> NodeID \<Rightarrow> NodeID \<Rightarrow> uint32 \<Rightarrow> data_message list \<Rightarrow> odistream" where
  "receive_stream G P pad local remote cmd ms =
     fold (\<lambda>m s. od_addDataCommand s (receive_message G P pad local remote cmd m)) ms od_new"

definition message_ok :: "uint128 \<Rightarrow> uint32 \<Rightarrow> connection list \<Rightarrow> data_message \<Rightarrow> bool" where
  "message_ok version cmd connections m \<longleftrightarrow>
     dm_version m = version \<and> dm_receivers m = connections \<and>
     length (concat (dm_extra m)) =
       (if cmd = CMD_OBJECT_INSTANCE then 20 else if cmd = CMD_OBJECT_SLAVE_DELTA then 16 else 0)"

lemma receive_message_carries:
  assumes "128 \<le> getObjectBufferSize G" and "\<forall>n. length (pad n) = n" and "connections \<noteq> []"
    and "message_ok version cmd connections m" and "pk_intact P (dm_packet m)" and "cmd \<noteq> CMD_INVALID"
    and "pk_payload P (dm_packet m) \<noteq> []" and "length (pk_payload P (dm_packet m)) < 2 ^ 63"
  shows "cmd_carries P (receive_message G P pad local remote cmd m) (pk_payload P (dm_packet m))"
    and "oc_version (receive_message G P pad local remote cmd m) = version"
    and "oc_isLast (receive_message G P pad local remote cmd m) = pk_last (dm_packet m)"
proof -
  let ?p = "dm_packet m" and ?e = "concat (dm_extra m)"
  define n where "n = 73 + length ?e + length (pk_body ?p)"
  have extra: "length ?e = (if cmd = CMD_OBJECT_INSTANCE then 20 else if cmd = CMD_OBJECT_SLAVE_DELTA then 16 else 0)"
    using assms(4) by (simp add: message_ok_def)
  have e: "length ?e \<le> 40" by (simp add: extra)
  moreover have n64: "n < 2 ^ 64"
    using assms(5,8) e by (simp add: n_def pk_intact_def)
  have "COMMANDTYPE_OBJECT \<noteq> COMMANDTYPE_INVALID"
    by (simp add: COMMANDTYPE_OBJECT_def COMMANDTYPE_INVALID_def)
  moreover have "dm_receivers m \<noteq> []" and "length (pk_body ?p) = pk_bodySize ?p"
    using assms(3-5) by (simp_all add: message_ok_def pk_intact_def)
  ultimately have rt: "receive_message G P pad local remote cmd m =
    \<lparr>oc_valid = True, oc_size = of_nat n, oc_type = COMMANDTYPE_OBJECT, oc_cmd = cmd, oc_objectID = dm_objectID m,
     oc_instanceID = dm_instanceID m, oc_version = dm_version m, oc_datasize = pk_size ?p,
     oc_sequence = dm_sequence m, oc_isLast = pk_last ?p, oc_compressor = pk_compressor ?p,
     oc_chunks = pk_nChunks ?p, oc_rest = ?e @ pk_body ?p @ pad (COMMAND_MINSIZE - n),
     oc_remote = remote, oc_local = local, oc_swapping = False\<rparr>"
    unfolding receive_message_def oo_image_def using assms(1,2,6) n64
    by (intro odm_send_parsed) (simp_all add: n_def)
  have chunk: "od_chunkData (receive_message G P pad local remote cmd m) = pk_body ?p @ pad (COMMAND_MINSIZE - n)"
    using extra by (auto simp: rt od_chunkData_def)
  show "cmd_carries P (receive_message G P pad local remote cmd m) (pk_payload P ?p)"
    using assms(5,7) unfolding cmd_carries_def chunk by (auto simp: rt pk_intact_def)
  show "oc_version (receive_message G P pad local remote cmd m) = version"
    and "oc_isLast (receive_message G P pad local remote cmd m) = pk_last ?p"
    using assms(4) by (simp_all add: rt message_ok_def)
qed

lemma receive_stream_commands:
  "od_commands (receive_stream G P pad local remote cmd ms) = map (receive_message G P pad local remote cmd) ms"
proof -
  have "od_commands (fold (\<lambda>m s. od_addDataCommand s (receive_message G P pad local remote cmd m)) ms s) =
      od_commands s @ map (receive_message G P pad local remote cmd) ms" for s
    by (induction ms arbitrary: s) simp_all
  then show ?thesis by (simp add: receive_stream_def)
qed

lemma addDataCommand_istream [simp]:
  "is_position (od_addDataCommand s c) = is_position s" "is_inputSize (od_addDataCommand s c) = is_inputSize s"
  by (simp_all add: od_addDataCommand_def od_setReady_def Let_def)

lemma receive_stream_istream:
  "is_position (receive_stream G P pad local remote cmd ms) = 0"
  "is_inputSize (receive_stream G P pad local remote cmd ms) = 0"
proof -
  have "is_position (fold (\<lambda>m s. od_addDataCommand s (f m)) ms s) = is_position s \<and>
      is_inputSize (fold (\<lambda>m s. od_addDataCommand s (f m)) ms s) = is_inputSize s" for f s
    by (induction ms arbitrary: s) simp_all
  then show "is_position (receive_stream G P pad local remote cmd ms) = 0"
    and "is_inputSize (receive_stream G P pad local remote cmd ms) = 0"
    by (simp_all add: receive_stream_def)
qed

text \<open>The assembled stream is complete as soon as the message with the final flag has arrived.\<close>

lemma receive_stream_version:
  "ms \<noteq> [] \<Longrightarrow> oc_isLast (receive_message G P pad local remote cmd (last ms)) \<Longrightarrow>
   od_version (receive_stream G P pad local remote cmd ms) =
   oc_version (receive_message G P pad local remote cmd (last ms))"
  by (cases ms rule: rev_cases) (simp_all add: receive_stream_def od_addDataCommand_version)

text \<open>Messages whose packets carry groups of writes give back the writes.\<close>

lemma receive_groups:
  assumes "128 \<le> getObjectBufferSize G" and "\<forall>n. length (pad n) = n" and "connections \<noteq> []"
    and "cmd \<noteq> CMD_INVALID" and "version \<noteq> VERSION_INVALID" and "\<forall>m \<in> set ms. message_ok version cmd connections m"
    and "\<forall>m \<in> set ms. pk_intact P (dm_packet m)"
    and "map (\<lambda>m. (dm_receivers m, pk_payload P (dm_packet m), pk_last (dm_packet m))) ms =
           map (\<lambda>g. (connections, concat g, False)) (butlast gs) @ [(connections, concat (last gs), True)]"
    and "gs \<noteq> []" and "[] \<notin> set gs" and "[] \<notin> set (concat gs)" and "length (concat (concat gs)) < 2 ^ 63"
  shows "od_isReady (receive_stream G P pad local remote cmd ms) \<and>
         od_version (receive_stream G P pad local remote cmd ms) = version \<and>
         (\<exists>s'. od_reads P (receive_stream G P pad local remote cmd ms) (map length (concat gs)) =
                 (map Some (concat gs), s') \<and>
               (\<exists>s''. is_hasData P od_getNextBuffer 1 s' = Some (False, s'')))"
proof -
  let ?s = "receive_stream G P pad local remote cmd ms"
  let ?rm = "receive_message G P pad local remote cmd"
  have payloads: "map (\<lambda>m. pk_payload P (dm_packet m)) ms = map concat gs"
    using arg_cong [OF assms(8), of "map (\<lambda>(c, d, l). d)"] append_butlast_last_id [OF assms(9)]
    by (simp add: comp_def) (metis list.simps(8,9) map_append)
  have flags: "map (\<lambda>m. pk_last (dm_packet m)) ms = map (\<lambda>g. False) (butlast gs) @ [True]"
    using arg_cong [OF assms(8), of "map (\<lambda>(c, d, l). l)"] by (simp add: comp_def)
  have small: "g \<in> set gs \<Longrightarrow> length (concat g) < 2 ^ 63 \<and> concat g \<noteq> []" for g
  proof
    assume g: "g \<in> set gs"
    then show "length (concat g) < 2 ^ 63"
      using assms(12) by (auto simp: in_set_conv_decomp)
    from g assms(10,11) have "g \<noteq> []" and "[] \<notin> set g" by auto
    then show "concat g \<noteq> []" by (cases g) auto
  qed
  have carries: "cmd_carries P (?rm m) (pk_payload P (dm_packet m)) \<and> oc_version (?rm m) = version \<and>
      oc_isLast (?rm m) = pk_last (dm_packet m)" if "m \<in> set ms" for m
  proof -
    have "pk_payload P (dm_packet m) \<in> concat ` set gs"
      using that payloads by (metis image_eqI image_set set_map)
    then obtain g where "pk_payload P (dm_packet m) = concat g" and "g \<in> set gs" by (rule imageE)
    then have "pk_payload P (dm_packet m) \<noteq> []" "length (pk_payload P (dm_packet m)) < 2 ^ 63"
      using small [of g] by simp_all
    from receive_message_carries [OF assms(1-3) bspec [OF assms(6) that] bspec [OF assms(7) that] assms(4) this]
    show ?thesis by (intro conjI)
  qed
  have ne: "ms \<noteq> []" using flags by auto
  then have "pk_last (dm_packet (last ms))"
    using flags by (metis last_map last_snoc)
  with ne carries [of "last ms"] have v: "od_version ?s = version"
    by (simp add: receive_stream_version)
  have "list_all2 (cmd_carries P) (map ?rm ms) (map (\<lambda>m. pk_payload P (dm_packet m)) ms)"
    using carries by (simp add: list_all2_conv_all_nth)
  then have "reader P ?s (concat []) (map concat gs)"
    by (simp add: reader_def receive_stream_commands receive_stream_istream payloads)
  from reads_groups [OF this] assms(10,11) obtain s' where
    "od_reads P ?s (map length (concat gs)) = (map Some (concat gs), s')" and "reader P s' [] []" by auto
  moreover from reader_end [OF this(2), of 0]
  have "\<exists>s''. is_hasData P od_getNextBuffer 1 s' = Some (False, s'')" by simp
  ultimately show ?thesis
    using v assms(5) by (auto simp: od_isReady_def)
qed

section \<open>The round trip\<close>

lemma bucketize_no_empty_group: "g \<noteq> [] \<or> ws \<noteq> [] \<Longrightarrow> [] \<notin> set (bucketize B g ws)"
proof (induction ws arbitrary: g)
  case (Cons w ws)
  then show ?case by (cases "g = []") auto
qed simp

text \<open>
  A fresh stream that has sent nothing, after any number of writes and the final
  \<open>disable\<close>: the messages of a stream whose \<open>sendData\<close> tags them correctly read back as
  the writes.
\<close>

lemma stream_messages:
  fixes s :: "('a odostream_scheme) ostream"
  assumes snd: "data_sender emit (oo_packets :: 'a odostream_scheme \<Rightarrow> _)"
    and tag: "\<And>c p x. Q x \<Longrightarrow> Q (emit c p x)" and init: "Q (os_sub s)"
    and ok: "\<And>x. Q x \<Longrightarrow> \<forall>m \<in> set (oo_sent x). dm_version m = version \<and> length (concat (dm_extra m)) =
           (if cmd = CMD_OBJECT_INSTANCE then 20 else if cmd = CMD_OBJECT_SLAVE_DELTA then 16 else 0)"
    and "oo_sent (os_sub s) = []" and conn: "os_connections s \<noteq> []" and P: "pression_ok P"
    and G: "128 \<le> getObjectBufferSize G" and pad: "\<forall>n. length (pad n) = n" and cmd: "cmd \<noteq> CMD_INVALID"
    and v: "version \<noteq> VERSION_INVALID" and ws: "ws \<noteq> []" "[] \<notin> set ws" "length (concat ws) < 2 ^ 63"
  shows "let st = receive_stream G P pad local remote cmd
                    (oo_sent (os_sub (os_disable G P emit (fold (os_write G P emit) ws (os_enable s)))))
         in od_isReady st \<and> od_version st = version \<and>
            (\<exists>s'. od_reads P st (map length ws) = (map Some ws, s') \<and>
                  (\<exists>s''. is_hasData P od_getNextBuffer 1 s' = Some (False, s'')))"
proof -
  let ?f = "os_disable G P emit (fold (os_write G P emit) ws (os_enable s))"
  let ?ms = "oo_sent (os_sub ?f)" and ?gs = "bucketize (getObjectBufferSize G) [] ws"
  let ?rec = "data_sender.received oo_packets P" and ?int = "data_sender.intact oo_packets P"
  have none: "?rec s = []" "?int s"
    by (simp_all add: data_sender.received_def [OF snd] data_sender.intact_def [OF snd] oo_packets_def assms(5))
  have "last ws \<noteq> []" using ws(1,2) last_in_set by metis
  from data_sender.write_disable_received [OF snd conn P _ ws(1) this, of G] ws(3) none
  have rec: "?rec ?f = map (\<lambda>g. (os_connections s, concat g, False)) (butlast ?gs) @
      [(os_connections s, concat (last ?gs), True)]" and int: "?int ?f" by simp_all
  have Q: "Q (os_sub ?f)"
    using init by (intro os_disable_sub [where Q = Q, OF tag] os_writes_sub [where Q = Q, OF tag])
      (simp_all add: os_enable_def)
  have obs: "map (\<lambda>m. (dm_receivers m, pk_payload P (dm_packet m), pk_last (dm_packet m))) ?ms = ?rec ?f"
    by (simp add: data_sender.received_def [OF snd] oo_packets_def)
  have "dm_receivers m = os_connections s" if "m \<in> set ?ms" for m
  proof -
    have "(dm_receivers m, pk_payload P (dm_packet m), pk_last (dm_packet m)) \<in> set (?rec ?f)"
      unfolding obs [symmetric] set_map using that by (rule imageI)
    then show ?thesis unfolding rec by auto
  qed
  then have tagged: "\<forall>m \<in> set ?ms. message_ok version cmd (os_connections s) m"
    using ok [OF Q] by (auto simp: message_ok_def)
  have good: "\<forall>m \<in> set ?ms. pk_intact P (dm_packet m)"
    using int by (auto simp: data_sender.intact_def [OF snd] oo_packets_def list_all_iff)
  have cat: "concat ?gs = ws" using concat_bucketize [of _ "[]"] by simp
  have groups: "?gs \<noteq> []" "[] \<notin> set ?gs" "[] \<notin> set (concat ?gs)" "length (concat (concat ?gs)) < 2 ^ 63"
    using bucketize_no_empty_group [of "[]" ws] ws unfolding cat by simp_all
  show ?thesis
    using receive_groups [OF G pad conn cmd v tagged good obs [unfolded rec] groups, of local remote]
    unfolding cat Let_def by blast
qed

text \<open>C25 (delta_stream_roundtrip): a commit's delta data arrives unchanged. Whatever the application writes between
  \<open>enableCommit\<close> and \<open>disable\<close>, split into packets and compressed in any way, is delivered as a
  complete stream of the committed version whose symmetric reads return exactly the writes, and
  after which no data is left. There is at least one write and no empty one, a connected receiver, a
  buffer of at least 128 bytes, less than \<open>2 ^ 63\<close> bytes in all, and the compressor inverts itself.\<close>

theorem delta_stream_roundtrip:
  assumes "pression_ok P" and "128 \<le> getObjectBufferSize G" and "\<forall>n. length (pad n) = n"
    and "gatherConnections receivers \<noteq> []" and "version \<noteq> VERSION_INVALID"
    and "oo_sent (os_sub s) = []" and "ws \<noteq> []" and "[] \<notin> set ws" and "length (concat ws) < 2 ^ 63"
  shows "let st = receive_stream G P pad local remote CMD_OBJECT_DELTA
                    (oo_sent (os_sub (os_disable G P do_sendData
                       (fold (os_write G P do_sendData) ws (oo_enableCommit version receivers s)))))
         in od_isReady st \<and> od_version st = version \<and>
            (\<exists>s'. od_reads P st (map length ws) = (map Some ws, s') \<and>
                  (\<exists>s''. is_hasData P od_getNextBuffer 1 s' = Some (False, s'')))"
  unfolding oo_enableCommit_def using assms
  by (intro stream_messages [OF delta.data_sender_axioms, where
        Q = "\<lambda>x. oo_version x = version \<and> (\<forall>m \<in> set (oo_sent x). dm_version m = version \<and> dm_extra m = [])"])
     (auto simp: do_sendData_def oo_send_def os_setupConnections_def CMD_OBJECT_DELTA_def CMD_INVALID_def
       CMD_OBJECT_INSTANCE_def CMD_OBJECT_SLAVE_DELTA_def)

definition sample_receivers :: "node list" where
  "sample_receivers = [\<lparr>nd_id = 5, nd_outgoing = True, nd_multicast = None\<rparr>]"

theorem delta_stream_roundtrip_witness:
  "let st = receive_stream sample_config sample_pression (\<lambda>n. replicate n 0) 5 6 CMD_OBJECT_DELTA
              (oo_sent (os_sub (os_disable sample_config sample_pression do_sendData
                 (fold (os_write sample_config sample_pression do_sendData) [[1, 2], [3]]
                   (oo_enableCommit 4 sample_receivers
                     (os_new (oo_new \<lparr>oi_id = 11, oi_instanceID = 0, oi_masterInstanceID = 0, oi_changeType = 0\<rparr>)))))))
   in od_isReady st \<and> od_version st = 4 \<and>
      (\<exists>s'. od_reads sample_pression st (map length [[1, 2], [3 :: byte]]) = (map Some [[1, 2], [3]], s') \<and>
            (\<exists>s''. is_hasData sample_pression od_getNextBuffer 1 s' = Some (False, s'')))"
  by (rule delta_stream_roundtrip)
     (simp_all add: pression_ok_def sample_pression_def sample_config_def sample_receivers_def
       gatherConnections_def nd_getConnection_def VERSION_INVALID_def os_new_def oo_new_def)

text \<open>The same for instance data, which carries the receiving node and the
  master's instance in front of the data and which the object store retypes before it is queued.\<close>

theorem instance_stream_roundtrip:
  assumes "pression_ok P" and "128 \<le> getObjectBufferSize G" and "\<forall>n. length (pad n) = n"
    and "gatherConnections receivers \<noteq> []" and "version \<noteq> VERSION_INVALID"
    and "oo_sent (os_sub s) = []" and "ws \<noteq> []" and "[] \<notin> set ws" and "length (concat ws) < 2 ^ 63"
  shows "let st = receive_stream G P pad local remote CMD_OBJECT_INSTANCE
                    (oo_sent (os_sub (os_disable G P io_sendData
                       (fold (os_write G P io_sendData) ws (io_enableCommit version receivers s)))))
         in od_isReady st \<and> od_version st = version \<and>
            (\<exists>s'. od_reads P st (map length ws) = (map Some ws, s') \<and>
                  (\<exists>s''. is_hasData P od_getNextBuffer 1 s' = Some (False, s'')))"
  unfolding io_enableCommit_def oo_enableCommit_def using assms
  by (intro stream_messages [OF inst.data_sender_axioms, where
        Q = "\<lambda>x. oo_version x = version \<and>
               (\<forall>m \<in> set (oo_sent x). dm_version m = version \<and> length (concat (dm_extra m)) = 20)"])
     (auto simp: io_sendData_def io_set_def oo_send_def os_setupConnections_def CMD_INVALID_def CMD_OBJECT_INSTANCE_def)

theorem instance_stream_roundtrip_witness:
  "let st = receive_stream sample_config sample_pression (\<lambda>n. replicate n 0) 5 6 CMD_OBJECT_INSTANCE
              (oo_sent (os_sub (os_disable sample_config sample_pression io_sendData
                 (fold (os_write sample_config sample_pression io_sendData) [[1, 2], [3]]
                   (io_enableCommit 4 sample_receivers
                     (os_new (io_new \<lparr>oi_id = 11, oi_instanceID = 0, oi_masterInstanceID = 0, oi_changeType = 0\<rparr>)))))))
   in od_isReady st \<and> od_version st = 4 \<and>
      (\<exists>s'. od_reads sample_pression st (map length [[1, 2], [3 :: byte]]) = (map Some [[1, 2], [3]], s') \<and>
            (\<exists>s''. is_hasData sample_pression od_getNextBuffer 1 s' = Some (False, s'')))"
  by (rule instance_stream_roundtrip)
     (simp_all add: pression_ok_def sample_pression_def sample_config_def sample_receivers_def
       gatherConnections_def nd_getConnection_def VERSION_INVALID_def os_new_def io_new_def)

text \<open>Instance data committed with saving enabled stays available: sending it to a
  node that maps the object later puts out one message, marked as last, with the version, the
  mapping command and the node's identifier, whose data is everything that was written.\<close>

theorem retained_instance_resend:
  assumes "pression_ok P" and "length (concat ws) < 2 ^ 64" and "nd_getConnection True n = Some c"
    and "os_save s" and "f = os_disable G P io_sendData (fold (os_write G P io_sendData) ws
           (io_enableCommit version receivers s))"
  shows "\<exists>m. oo_sent (os_sub (io_sendMapData G P n instanceID f)) = oo_sent (os_sub f) @ [m] \<and>
           pk_payload P (dm_packet m) = concat ws \<and> pk_last (dm_packet m) \<and> dm_receivers m = [c] \<and>
           dm_version m = version \<and> dm_cmd m = CMD_NODE_OBJECT_INSTANCE_MAP \<and> dm_instanceID m = instanceID"
proof -
  note commit = io_commit_facts [OF assms(4,2,5)]
  note sent = io_sendMapData_facts [OF commit(2) assms(1,3) commit(3) refl, of G instanceID]
  show ?thesis using sent(4-10) commit(1) by metis
qed

theorem retained_instance_resend_witness:
  "\<exists>m. oo_sent (os_sub (io_sendMapData sample_config sample_pression (hd sample_receivers) 3
          (os_disable sample_config sample_pression io_sendData
            (fold (os_write sample_config sample_pression io_sendData) [[1, 2], [3]]
              (io_enableCommit 4 [] (os_enableSave
                (os_new (io_new \<lparr>oi_id = 11, oi_instanceID = 0, oi_masterInstanceID = 0, oi_changeType = 0\<rparr>)))))))) =
        oo_sent (os_sub (os_disable sample_config sample_pression io_sendData
            (fold (os_write sample_config sample_pression io_sendData) [[1, 2], [3]]
              (io_enableCommit 4 [] (os_enableSave
                (os_new (io_new \<lparr>oi_id = 11, oi_instanceID = 0, oi_masterInstanceID = 0, oi_changeType = 0\<rparr>))))))) @ [m] \<and>
       pk_payload sample_pression (dm_packet m) = concat [[1, 2], [3]] \<and> pk_last (dm_packet m) \<and>
       dm_receivers m = [Unicast 5] \<and> dm_version m = 4 \<and> dm_cmd m = CMD_NODE_OBJECT_INSTANCE_MAP \<and>
       dm_instanceID m = 3"
  by (rule retained_instance_resend [OF _ _ _ _ refl])
     (simp_all add: pression_ok_def sample_pression_def sample_receivers_def nd_getConnection_def os_enableSave_def)

text \<open>Without saving, a stream whose buffer has just been flushed by a write of no
  bytes is disabled without a final packet: with a buffer of 2 bytes, the writes of 3 bytes and of 0 bytes
  (an empty array) send one packet, which is not marked as the last, and \<open>hasSentData\<close> is false. The
  receiver never completes the stream.\<close>

theorem empty_write_loses_final_packet:
  "let G = \<lparr>getObjectBufferSize = 2, IATTR_OBJECT_COMPRESSION = 1048576\<rparr>;
       s = os_disable G sample_pression do_sendData
             (fold (os_write G sample_pression do_sendData) [[1, 2, 3], []]
               (oo_enableCommit 4 sample_receivers
                 (os_new (oo_new \<lparr>oi_id = 11, oi_instanceID = 0, oi_masterInstanceID = 0, oi_changeType = 0\<rparr>))))
   in map (\<lambda>m. (pk_body (dm_packet m), pk_last (dm_packet m))) (oo_sent (os_sub s)) = [([1, 2, 3], False)] \<and>
      \<not> os_hasSentData s"
  by (simp add: sample_pression_def sample_receivers_def gatherConnections_def nd_getConnection_def oo_new_def
      os_new_def oo_enableCommit_def os_setupConnections_def os_enable_def os_write_def os_flush_def
      os_compress_def os_sendData_def os_packet_def os_sendBody_def os_bodySize_def os_getCompressedDataSize_def
      os_getCompressor_def os_uncompressed_def os_resetBuffer_def os_disable_def os_hasSentData_def
      do_sendData_def oo_send_def Let_def)

end
