(* ===== verification/Master_CM.thy ===== *)
theory Master_CM
  imports Object_Data_OStream
begin

text \<open>
  The change managers of master objects: \<^verbatim>\<open>src/co/objectCM.cpp\<close>, \<^verbatim>\<open>versionedMasterCM.cpp\<close>,
  \<^verbatim>\<open>fullMasterCM.cpp\<close>, \<^verbatim>\<open>deltaMasterCM.cpp\<close>, \<^verbatim>\<open>unbufferedMasterCM.cpp\<close> and \<^verbatim>\<open>staticMasterCM.h\<close>.
  What the application writes in \<open>getInstanceData\<close> and \<open>pack\<close> is an argument, a list of writes;
  commands sent to a node that maps or synchronises the object are a list of \<open>cm_event\<close>s; an
  operation that would block is \<^term>\<open>None\<close>.
\<close>

section \<open>Commands of slaves\<close>

text \<open>\<^verbatim>\<open>MasterCMCommand\<close>: the fields of a map or sync request, and the node that sent it.\<close>

record master_cm_command =
  mc_requestedVersion :: uint128
  mc_minCachedVersion :: uint128
  mc_maxCachedVersion :: uint128
  mc_objectID :: uint128
  mc_maxVersion :: uint64
  mc_requestID :: uint32
  mc_instanceID :: uint32
  mc_masterInstanceID :: uint32
  mc_useCache :: bool
  mc_node :: node

definition mc_init :: "pression \<Rightarrow> node \<Rightarrow> icommand \<Rightarrow> master_cm_command" where
  "mc_init P n command =
     (let s = im_copy P command;
          c = \<lparr>mc_requestedVersion = 0, mc_minCachedVersion = 0, mc_maxCachedVersion = 0, mc_objectID = 0,
               mc_maxVersion = 0, mc_requestID = 0, mc_instanceID = CO_INSTANCE_INVALID,
               mc_masterInstanceID = CO_INSTANCE_INVALID, mc_useCache = False, mc_node = n\<rparr>
      in if \<not> im_isValid s then c
         else case im_read P 16 (0 :: uint128) s of
           (requested, s) \<Rightarrow> (case im_read P 16 (0 :: uint128) s of
             (minCached, s) \<Rightarrow> (case im_read P 16 (0 :: uint128) s of
               (maxCached, s) \<Rightarrow> (case im_read P 16 (0 :: uint128) s of
                 (objectID, s) \<Rightarrow> (case im_read P 8 (0 :: uint64) s of
                   (maxVersion, s) \<Rightarrow> (case im_read P 4 (0 :: uint32) s of
                     (requestID, s) \<Rightarrow> (case im_read P 4 CO_INSTANCE_INVALID s of
                       (instanceID, s) \<Rightarrow> (case im_read P 4 CO_INSTANCE_INVALID s of
                         (masterInstanceID, s) \<Rightarrow> (case im_read P 1 (0 :: byte) s of
                           (useCache, s) \<Rightarrow>
                             c\<lparr>mc_requestedVersion := requested, mc_minCachedVersion := minCached,
                               mc_maxCachedVersion := maxCached, mc_objectID := objectID,
                               mc_maxVersion := maxVersion, mc_requestID := requestID,
                               mc_instanceID := instanceID, mc_masterInstanceID := masterInstanceID,
                               mc_useCache := useCache \<noteq> 0\<rparr>)))))))))"

text \<open>
  The answers: \<^verbatim>\<open>CMD_NODE_MAP_OBJECT_SUCCESS\<close>, \<^verbatim>\<open>CMD_NODE_MAP_OBJECT_REPLY\<close>, the empty version, a data
  message of a stream, and \<^verbatim>\<open>CMD_NODE_SYNC_OBJECT_REPLY\<close>. The flag is whether multicast is preferred.
\<close>

datatype cm_event =
    MapSuccess NodeID uint128 uint32 uint32 uint32 uint32 bool
  | MapReply NodeID uint128 uint128 uint32 bool bool bool bool
  | EmptyVersion NodeID uint128 uint32 uint32 uint128 bool
  | InstanceMessage data_message
  | SyncReply NodeID uint128 uint32 bool bool bool bool

section \<open>ObjectCM\<close>

definition cm_sendMapSuccess :: "object_info \<Rightarrow> master_cm_command \<Rightarrow> bool \<Rightarrow> cm_event" where
  "cm_sendMapSuccess object command multicast =
     MapSuccess (nd_id (mc_node command)) (mc_objectID command) (mc_requestID command)
       (mc_instanceID command) (oi_changeType object) (oi_instanceID object) multicast"

definition cm_sendMapReply :: "master_cm_command \<Rightarrow> uint128 \<Rightarrow> bool \<Rightarrow> bool \<Rightarrow> bool \<Rightarrow> cm_event" where
  "cm_sendMapReply command version result useCache multicast =
     MapReply (nd_id (mc_node command)) (mc_objectID command) version (mc_requestID command) result
       (mc_useCache command) useCache multicast"

definition cm_sendEmptyVersion :: "object_info \<Rightarrow> master_cm_command \<Rightarrow> uint128 \<Rightarrow> bool \<Rightarrow> cm_event" where
  "cm_sendEmptyVersion object command version multicast =
     EmptyVersion (nd_id (mc_node command)) (oi_id object) (mc_instanceID command) (oi_instanceID object)
       version multicast"

text \<open>The messages a temporary stream has sent when it goes out of scope.\<close>

definition io_messages :: "instance_ostream ostream \<Rightarrow> cm_event list" where
  "io_messages os = map InstanceMessage (oo_sent (os_sub os))"

text \<open>\<^verbatim>\<open>_initSlave\<close> of the base class; \<open>attached\<close> is whether the object is still there.\<close>

definition cm_initSlave ::
  "global_config \<Rightarrow> pression \<Rightarrow> object_info \<Rightarrow> bool \<Rightarrow> bytes list \<Rightarrow> master_cm_command \<Rightarrow> uint128 \<Rightarrow> bool \<Rightarrow>
   bool \<times> cm_event list" where
  "cm_initSlave G P object attached instanceData command replyVersion replyUseCache =
     (if replyUseCache \<and> mc_minCachedVersion command \<le> replyVersion \<and>
         mc_maxCachedVersion command \<ge> replyVersion then
        (True, [cm_sendMapSuccess object command False,
                cm_sendMapReply command replyVersion True replyUseCache False])
      else if \<not> attached then (False, [])
      else
        (let os = os_disable G P io_sendData (fold (os_write G P io_sendData) instanceData
                    (io_enableMap replyVersion (mc_node command) (mc_instanceID command)
                      (os_new (io_new object))))
         in (True,
             [cm_sendMapSuccess object command True] @ io_messages os @
             (if os_hasSentData os then [] else [cm_sendEmptyVersion object command replyVersion True]) @
             [cm_sendMapReply command replyVersion True False True])))"

text \<open>\<^verbatim>\<open>_addSlave\<close>, with the virtual \<open>_initSlave\<close> as an argument.\<close>

definition cm_addSlave ::
  "object_info \<Rightarrow> (bool \<Rightarrow> bool \<times> 's \<times> cm_event list) \<Rightarrow> 's \<Rightarrow> master_cm_command \<Rightarrow> bool \<times> 's \<times> cm_event list" where
  "cm_addSlave object initSlave s command =
     (if mc_requestedVersion command = VERSION_NONE then
        (True, s, [cm_sendMapSuccess object command False,
                   cm_sendEmptyVersion object command VERSION_NONE False,
                   cm_sendMapReply command VERSION_NONE True False False])
      else initSlave (mc_useCache command \<and> mc_masterInstanceID command = oi_instanceID object))"

definition cm_useCache :: "object_info \<Rightarrow> uint128 \<Rightarrow> master_cm_command \<Rightarrow> bool" where
  "cm_useCache object version command \<longleftrightarrow>
     mc_useCache command \<and> mc_masterInstanceID command = oi_instanceID object \<and>
     mc_maxCachedVersion command = version"

definition cm_syncReply :: "master_cm_command \<Rightarrow> bool \<Rightarrow> cm_event" where
  "cm_syncReply command useCache =
     SyncReply (nd_id (mc_node command)) (mc_objectID command) (mc_requestID command) True
       (mc_useCache command) useCache useCache"

definition cm_sendSync ::
  "global_config \<Rightarrow> pression \<Rightarrow> object_info \<Rightarrow> bool \<Rightarrow> bytes list \<Rightarrow> uint128 \<Rightarrow> master_cm_command \<Rightarrow>
   bool \<times> cm_event list" where
  "cm_sendSync G P object attached instanceData version command =
     (if \<not> attached then (False, [])
      else
        (let useCache = cm_useCache object version command
         in (True,
             (if useCache then []
              else io_messages (os_disable G P io_sendData (fold (os_write G P io_sendData) instanceData
                     (io_enableSync version (mc_node command) (mc_requestID command) (os_new (io_new object)))))) @
             [cm_syncReply command useCache])))"

text \<open>
  \<^verbatim>\<open>push\<close> of an unbuffered object: the notification goes out before the stream is disabled, so
  before its last packet.
\<close>

definition cm_push ::
  "global_config \<Rightarrow> pression \<Rightarrow> object_info \<Rightarrow> bytes list \<Rightarrow> uint128 \<Rightarrow> node list \<Rightarrow>
   data_message list \<times> connection list \<times> data_message list" where
  "cm_push G P object instanceData version nodes =
     (if nodes = [] then ([], [], [])
      else
        (let os = fold (os_write G P io_sendData) instanceData
                    (io_enablePush version nodes (os_new (io_new object)));
             before = oo_sent (os_sub os)
         in (before, os_connections os,
             drop (length before) (oo_sent (os_sub (os_disable G P io_sendData os))))))"

section \<open>VersionedMasterCM\<close>

record slave_data =
  sd_node :: node
  sd_maxVersion :: uint64
  sd_instanceID :: uint32

record versioned_master =
  vm_object :: object_info
  vm_slaves :: "node list"
  vm_version :: uint128
  vm_maxVersion :: uint64
  vm_slaveData :: "slave_data list"
  vm_slaveCommits :: data_istream_queue
  vm_unpacked :: "odistream list"

definition vm_new :: "object_info \<Rightarrow> versioned_master" where
  "vm_new object =
     \<lparr>vm_object = object, vm_slaves = [], vm_version = VERSION_NONE, vm_maxVersion = - 1,
      vm_slaveData = [], vm_slaveCommits = dq_new, vm_unpacked = []\<rparr>"

text \<open>\<open>vm_unpacked\<close> is the log of the streams handed to the object's \<open>unpack\<close>.\<close>

definition vm_apply :: "odistream \<Rightarrow> 'a versioned_master_scheme \<Rightarrow> uint128 \<times> 'a versioned_master_scheme" where
  "vm_apply is s = (od_version is, s\<lparr>vm_unpacked := vm_unpacked s @ [is]\<rparr>)"

fun vm_sync_head :: "(uint128 \<times> odistream) list \<Rightarrow> uint128 \<Rightarrow> 'a versioned_master_scheme \<Rightarrow>
  uint128 \<times> 'a versioned_master_scheme" where
  "vm_sync_head [] version s = (version, s)"
| "vm_sync_head ((key, is) # queued) version s =
     (case vm_apply is s of (version, s) \<Rightarrow> vm_sync_head queued version s)"

definition vm_sync ::
  "uint128 \<Rightarrow> 'a versioned_master_scheme \<Rightarrow> (uint128 \<times> 'a versioned_master_scheme) option" where
  "vm_sync inVersion s =
     (if inVersion = VERSION_NEXT then
        (case dq_pop (vm_slaveCommits s) of
           None \<Rightarrow> None
         | Some (is, q) \<Rightarrow> Some (vm_apply is (s\<lparr>vm_slaveCommits := q\<rparr>)))
      else if inVersion = VERSION_HEAD then
        Some (vm_sync_head (dq_queued (vm_slaveCommits s)) VERSION_NONE
                (s\<lparr>vm_slaveCommits := (vm_slaveCommits s)\<lparr>dq_queued := []\<rparr>\<rparr>))
      else
        (case dq_pull (vm_slaveCommits s) inVersion of
           None \<Rightarrow> None
         | Some (is, q) \<Rightarrow> Some (vm_apply is (s\<lparr>vm_slaveCommits := q\<rparr>))))"

definition usort :: "node list \<Rightarrow> node list" where
  "usort nodes = sort_key nd_id (remdups nodes)"

text \<open>\<^verbatim>\<open>_updateMaxVersion\<close>; the largest value means no limit.\<close>

fun vm_minVersion :: "slave_data list \<Rightarrow> uint64 \<Rightarrow> uint64" where
  "vm_minVersion [] maxVersion = maxVersion"
| "vm_minVersion (d # ds) maxVersion =
     vm_minVersion ds
       (if sd_maxVersion d \<noteq> - 1 \<and> maxVersion > sd_maxVersion d then sd_maxVersion d else maxVersion)"

definition vm_updateMaxVersion :: "'a versioned_master_scheme \<Rightarrow> 'a versioned_master_scheme" where
  "vm_updateMaxVersion s = s\<lparr>vm_maxVersion := vm_minVersion (vm_slaveData s) (- 1)\<rparr>"

definition vm_slaveMax :: "uint64 \<Rightarrow> uint128 \<Rightarrow> uint64" where
  "vm_slaveMax maxVersion version =
     (if maxVersion = 0 then - 1
      else if maxVersion < - 1 then maxVersion + low128 version
      else maxVersion)"

definition vm_subscribe :: "master_cm_command \<Rightarrow> 'a versioned_master_scheme \<Rightarrow> 'a versioned_master_scheme" where
  "vm_subscribe command s =
     (let data = \<lparr>sd_node = mc_node command, sd_maxVersion = vm_slaveMax (mc_maxVersion command) (vm_version s),
                  sd_instanceID = mc_instanceID command\<rparr>;
          s = vm_updateMaxVersion (s\<lparr>vm_slaveData := vm_slaveData s @ [data]\<rparr>)
      in s\<lparr>vm_slaves := usort (vm_slaves s @ [sd_node data])\<rparr>)"

definition vm_addSlave ::
  "('a versioned_master_scheme \<Rightarrow> bool \<Rightarrow> bool \<times> 'a versioned_master_scheme \<times> cm_event list) \<Rightarrow>
   master_cm_command \<Rightarrow> 'a versioned_master_scheme \<Rightarrow> bool \<times> 'a versioned_master_scheme \<times> cm_event list" where
  "vm_addSlave initSlave command s =
     (case cm_addSlave (vm_object s) (initSlave s) s command of
        (False, s, events) \<Rightarrow> (False, s, events)
      | (True, s, events) \<Rightarrow> (True, vm_subscribe command s, events))"

fun vm_eraseSlave :: "node \<Rightarrow> uint32 \<Rightarrow> slave_data list \<Rightarrow> slave_data list option" where
  "vm_eraseSlave n instanceID [] = None"
| "vm_eraseSlave n instanceID (d # ds) =
     (if sd_node d = n \<and> sd_instanceID d = instanceID then Some ds
      else map_option (\<lambda>ds. d # ds) (vm_eraseSlave n instanceID ds))"

definition vm_removeSlave :: "node \<Rightarrow> uint32 \<Rightarrow> 'a versioned_master_scheme \<Rightarrow> 'a versioned_master_scheme" where
  "vm_removeSlave n instanceID s =
     (case vm_eraseSlave n instanceID (vm_slaveData s) of
        None \<Rightarrow> s
      | Some ds \<Rightarrow>
          vm_updateMaxVersion (s\<lparr>vm_slaveData := ds, vm_slaves := usort (map sd_node ds)\<rparr>))"

definition vm_removeSlaves :: "node \<Rightarrow> 'a versioned_master_scheme \<Rightarrow> 'a versioned_master_scheme" where
  "vm_removeSlaves n s =
     (if n \<notin> set (vm_slaves s) then s
      else vm_updateMaxVersion
             (s\<lparr>vm_slaves := remove1 n (vm_slaves s),
                vm_slaveData := filter (\<lambda>d. sd_node d \<noteq> n) (vm_slaveData s)\<rparr>))"

definition vm_cmdSlaveDelta ::
  "uint128 \<Rightarrow> odcommand \<Rightarrow> 'a versioned_master_scheme \<Rightarrow> bool \<times> 'a versioned_master_scheme" where
  "vm_cmdSlaveDelta commit command s =
     (case dq_addDataCommand (vm_slaveCommits s) commit command of
        (notify, q) \<Rightarrow> (notify, s\<lparr>vm_slaveCommits := q\<rparr>))"

fun vm_setMax :: "node \<Rightarrow> uint32 \<Rightarrow> uint64 \<Rightarrow> slave_data list \<Rightarrow> slave_data list option" where
  "vm_setMax n slaveID version [] = None"
| "vm_setMax n slaveID version (d # ds) =
     (if sd_node d = n \<and> sd_instanceID d = slaveID then Some (d\<lparr>sd_maxVersion := version\<rparr> # ds)
      else map_option (\<lambda>ds. d # ds) (vm_setMax n slaveID version ds))"

definition vm_cmdMaxVersion ::
  "node \<Rightarrow> uint64 \<Rightarrow> uint32 \<Rightarrow> 'a versioned_master_scheme \<Rightarrow> 'a versioned_master_scheme" where
  "vm_cmdMaxVersion n version slaveID s =
     (case vm_setMax n slaveID version (vm_slaveData s) of
        None \<Rightarrow> s
      | Some ds \<Rightarrow> vm_updateMaxVersion (s\<lparr>vm_slaveData := ds\<rparr>))"

section \<open>FullMasterCM\<close>

record instance_data =
  id_os :: "instance_ostream ostream"
  id_commitCount :: uint32

record full_master = versioned_master +
  fm_commitCount :: uint32
  fm_nVersions :: uint32
  fm_instanceDatas :: "instance_data list"
  fm_instanceDataCache :: "instance_data list"

definition CO_COMMIT_NEXT :: uint32 where "CO_COMMIT_NEXT = 0xFFFFFFFF"

definition id_version :: "instance_data \<Rightarrow> uint128" where
  "id_version d = oo_version (os_sub (id_os d))"

definition fm_new :: "object_info \<Rightarrow> full_master" where
  "fm_new object =
     versioned_master.extend (vm_new object)
       (full_master.fields 0 0 [] [])"

definition fm_newInstanceData :: "'a full_master_scheme \<Rightarrow> instance_data \<times> 'a full_master_scheme" where
  "fm_newInstanceData s =
     (let (os, s) = (if fm_instanceDataCache s = [] then (os_new (io_new (vm_object s)), s)
                     else (id_os (last (fm_instanceDataCache s)),
                           s\<lparr>fm_instanceDataCache := butlast (fm_instanceDataCache s)\<rparr>))
      in (\<lparr>id_os = os_enableSave (io_reset os), id_commitCount = fm_commitCount s\<rparr>, s))"

definition fm_addInstanceData :: "instance_data \<Rightarrow> 'a full_master_scheme \<Rightarrow> 'a full_master_scheme" where
  "fm_addInstanceData data s = s\<lparr>fm_instanceDatas := fm_instanceDatas s @ [data]\<rparr>"

text \<open>One version written to a stream: \<open>enableCommit\<close>, the application's writes, \<open>disable\<close>.\<close>

definition id_write ::
  "global_config \<Rightarrow> pression \<Rightarrow> uint128 \<Rightarrow> node list \<Rightarrow> bytes list \<Rightarrow> instance_data \<Rightarrow> instance_data" where
  "id_write G P version receivers ws d =
     d\<lparr>id_os := os_disable G P io_sendData
                  (fold (os_write G P io_sendData) ws (io_enableCommit version receivers (id_os d)))\<rparr>"

definition fm_init :: "global_config \<Rightarrow> pression \<Rightarrow> bytes list \<Rightarrow> 'a full_master_scheme \<Rightarrow> 'a full_master_scheme" where
  "fm_init G P instanceData s =
     (case fm_newInstanceData s of
        (data, s) \<Rightarrow>
          s\<lparr>fm_instanceDatas := fm_instanceDatas s @ [id_write G P VERSION_FIRST (vm_slaves s) instanceData data],
            vm_version := vm_version s + 1, fm_commitCount := fm_commitCount s + 1\<rparr>)"

text \<open>The loops of \<open>_updateCommitCount\<close> and \<open>_obsolete\<close>, over the deque of instance datas.\<close>

function fm_popFuture :: "uint32 \<Rightarrow> instance_data list \<Rightarrow> instance_data list" where
  "fm_popFuture commitCount datas =
     (if length datas > 1 \<and> \<not> id_commitCount (last datas) \<le> commitCount
      then fm_popFuture commitCount (butlast datas) else datas)"
  by pat_completeness auto
termination by (relation "measure (\<lambda>(c, datas). length datas)") auto

declare fm_popFuture.simps [simp del]

definition fm_updateCommitCount :: "uint32 \<Rightarrow> 'a full_master_scheme \<Rightarrow> 'a full_master_scheme" where
  "fm_updateCommitCount incarnation s =
     (if incarnation = CO_COMMIT_NEXT then s\<lparr>fm_commitCount := fm_commitCount s + 1\<rparr>
      else if incarnation \<ge> fm_commitCount s then s\<lparr>fm_commitCount := incarnation\<rparr>
      else
        (let s = s\<lparr>fm_commitCount := incarnation, fm_instanceDatas := fm_popFuture incarnation (fm_instanceDatas s)\<rparr>;
             data = last (fm_instanceDatas s)
         in if id_commitCount data > fm_commitCount s
            then s\<lparr>fm_instanceDatas := butlast (fm_instanceDatas s) @ [data\<lparr>id_commitCount := 0\<rparr>],
                   vm_version := id_version data\<rparr>
            else s))"

fun fm_popOld :: "uint32 \<Rightarrow> uint32 \<Rightarrow> instance_data list \<Rightarrow> instance_data list" where
  "fm_popOld commitCount nVersions (d # d' # ds) =
     (if commitCount > nVersions \<and> \<not> id_commitCount d \<ge> commitCount - nVersions
      then fm_popOld commitCount nVersions (d' # ds) else d # d' # ds)"
| "fm_popOld commitCount nVersions ds = ds"

definition fm_obsolete :: "'a full_master_scheme \<Rightarrow> 'a full_master_scheme" where
  "fm_obsolete s = s\<lparr>fm_instanceDatas := fm_popOld (fm_commitCount s) (fm_nVersions s) (fm_instanceDatas s)\<rparr>"

definition fm_setAutoObsolete :: "uint32 \<Rightarrow> 'a full_master_scheme \<Rightarrow> 'a full_master_scheme" where
  "fm_setAutoObsolete count s = fm_obsolete (s\<lparr>fm_nVersions := count\<rparr>)"

definition fm_commit_version ::
  "global_config \<Rightarrow> pression \<Rightarrow> bytes list \<Rightarrow> 'a full_master_scheme \<Rightarrow> 'a full_master_scheme" where
  "fm_commit_version G P instanceData s =
     (case fm_newInstanceData s of
        (data, s) \<Rightarrow>
          (let data = id_write G P (vm_version s + 1) (vm_slaves s) instanceData data
           in if os_hasSentData (id_os data)
              then fm_addInstanceData data (s\<lparr>vm_version := vm_version s + 1\<rparr>)
              else s\<lparr>fm_instanceDataCache := fm_instanceDataCache s @ [data]\<rparr>))"

text \<open>
  \<^verbatim>\<open>commit\<close>, with the virtual \<open>_commit\<close> as an argument. It blocks while the version after the
  current one exceeds what a slave has allowed.
\<close>

definition fm_commit_with ::
  "('a full_master_scheme \<Rightarrow> 'a full_master_scheme) \<Rightarrow> bool \<Rightarrow> uint32 \<Rightarrow> 'a full_master_scheme \<Rightarrow>
   (uint128 \<times> 'a full_master_scheme) option" where
  "fm_commit_with commit dirty incarnation s =
     (if \<not> dirty then
        (let s = fm_obsolete (fm_updateCommitCount incarnation s) in Some (vm_version s, s))
      else if \<not> vm_maxVersion s \<ge> low128 (vm_version s) + 1 then None
      else (let s = fm_obsolete (commit (fm_updateCommitCount incarnation s)) in Some (vm_version s, s)))"

definition fm_commit ::
  "global_config \<Rightarrow> pression \<Rightarrow> bool \<Rightarrow> uint32 \<Rightarrow> bytes list \<Rightarrow> 'a full_master_scheme \<Rightarrow>
   (uint128 \<times> 'a full_master_scheme) option" where
  "fm_commit G P dirty incarnation instanceData = fm_commit_with (fm_commit_version G P instanceData) dirty incarnation"

text \<open>The part of \<open>_initSlave\<close> that chooses the versions to send: first, last and reply version.\<close>

definition fm_sendRange :: "uint128 \<Rightarrow> uint128 \<Rightarrow> master_cm_command \<Rightarrow> bool \<Rightarrow> uint128 \<times> uint128 \<times> uint128" where
  "fm_sendRange oldest head command replyUseCache =
     (let version = mc_requestedVersion command;
          start = (if version = VERSION_OLDEST \<or> version < oldest then oldest else version);
          end = head;
          minCached = mc_minCachedVersion command;
          maxCached = mc_maxCachedVersion command
      in if replyUseCache then
           (if minCached \<le> start \<and> maxCached \<ge> start then (maxCached + 1, end, start)
            else if maxCached = end then (start, max start (minCached - 1), start)
            else (start, end, start))
         else (start, end, start))"

text \<open>The loop that sends the instance datas up to the last version, with the messages sent.\<close>

fun fm_sendDatas ::
  "global_config \<Rightarrow> pression \<Rightarrow> master_cm_command \<Rightarrow> uint128 \<Rightarrow> instance_data list \<Rightarrow>
   instance_data list \<times> data_message list" where
  "fm_sendDatas G P command end [] = ([], [])"
| "fm_sendDatas G P command end (d # ds) =
     (if id_version d \<le> end then
        (let os = io_sendMapData G P (mc_node command) (mc_instanceID command) (id_os d)
         in case fm_sendDatas G P command end ds of
              (ds, ms) \<Rightarrow> (d\<lparr>id_os := os\<rparr> # ds, last (oo_sent (os_sub os)) # ms))
      else (d # ds, []))"

definition fm_initSlave ::
  "global_config \<Rightarrow> pression \<Rightarrow> master_cm_command \<Rightarrow> 'a full_master_scheme \<Rightarrow> bool \<Rightarrow>
   bool \<times> 'a full_master_scheme \<times> cm_event list" where
  "fm_initSlave G P command s replyUseCache =
     (case fm_sendRange (id_version (hd (fm_instanceDatas s))) (vm_version s) command replyUseCache of
        (start, end, replyVersion) \<Rightarrow>
          (let skipped = takeWhile (\<lambda>d. id_version d < start) (fm_instanceDatas s);
               rest = dropWhile (\<lambda>d. id_version d < start) (fm_instanceDatas s)
           in case fm_sendDatas G P command end rest of
                (datas, ms) \<Rightarrow>
                  (True, s\<lparr>fm_instanceDatas := skipped @ datas\<rparr>,
                   (if ms = [] then
                      [cm_sendMapSuccess (vm_object s) command False,
                       cm_sendMapReply command replyVersion True replyUseCache False]
                    else
                      [cm_sendMapSuccess (vm_object s) command True] @ map InstanceMessage ms @
                      [cm_sendMapReply command replyVersion True replyUseCache True]))))"

definition fm_addSlave ::
  "global_config \<Rightarrow> pression \<Rightarrow> master_cm_command \<Rightarrow> 'a full_master_scheme \<Rightarrow>
   bool \<times> 'a full_master_scheme \<times> cm_event list" where
  "fm_addSlave G P command s = vm_addSlave (fm_initSlave G P command) command s"

text \<open>An operation on the stream of the newest version.\<close>

definition fm_onLast ::
  "(instance_ostream ostream \<Rightarrow> instance_ostream ostream) \<Rightarrow> 'a full_master_scheme \<Rightarrow> 'a full_master_scheme" where
  "fm_onLast f s =
     s\<lparr>fm_instanceDatas := butlast (fm_instanceDatas s) @
         [(last (fm_instanceDatas s))\<lparr>id_os := f (id_os (last (fm_instanceDatas s)))\<rparr>]\<rparr>"

definition fm_sendInstanceData ::
  "global_config \<Rightarrow> pression \<Rightarrow> node list \<Rightarrow> 'a full_master_scheme \<Rightarrow> 'a full_master_scheme" where
  "fm_sendInstanceData G P nodes s =
     (if vm_slaves s \<noteq> [] then s else fm_onLast (io_sendInstanceData G P nodes) s)"

definition fm_push ::
  "global_config \<Rightarrow> pression \<Rightarrow> uint128 \<Rightarrow> uint128 \<Rightarrow> node list \<Rightarrow> 'a full_master_scheme \<Rightarrow> 'a full_master_scheme" where
  "fm_push G P groupID typeID nodes s =
     fm_onLast (\<lambda>os. fst (io_push G P nodes (oi_id (vm_object s)) groupID typeID os)) s"

definition fm_sendSync ::
  "global_config \<Rightarrow> pression \<Rightarrow> master_cm_command \<Rightarrow> 'a full_master_scheme \<Rightarrow>
   bool \<times> 'a full_master_scheme \<times> cm_event" where
  "fm_sendSync G P command s =
     (let useCache = cm_useCache (vm_object s) (vm_version s) command;
          s = (if useCache then s
               else fm_onLast (io_sync G P (mc_node command) (mc_requestID command)) s)
      in (True, s, cm_syncReply command useCache))"

section \<open>DeltaMasterCM, UnbufferedMasterCM and StaticMasterCM\<close>

record delta_master = full_master +
  dm_deltaData :: "odostream ostream"

definition dm_commit_version ::
  "global_config \<Rightarrow> pression \<Rightarrow> bytes list \<Rightarrow> bytes list \<Rightarrow> delta_master \<Rightarrow> delta_master" where
  "dm_commit_version G P packData instanceData s =
     (let s = (if vm_slaves s = [] then s
               else s\<lparr>dm_deltaData :=
                        os_disable G P do_sendData (fold (os_write G P do_sendData) packData
                          (oo_enableCommit (vm_version s + 1) (vm_slaves s) (oo_reset (dm_deltaData s))))\<rparr>)
      in if vm_slaves s = [] \<or> os_hasSentData (dm_deltaData s) then
           (case fm_newInstanceData s of
              (data, s) \<Rightarrow>
                (let data = id_write G P (vm_version s + 1) [] instanceData data
                 in if os_hasSentData (dm_deltaData s) \<or> os_hasSentData (id_os data)
                    then fm_addInstanceData data (s\<lparr>vm_version := vm_version s + 1\<rparr>)
                    else s))
         else s)"

definition dm_commit ::
  "global_config \<Rightarrow> pression \<Rightarrow> bool \<Rightarrow> uint32 \<Rightarrow> bytes list \<Rightarrow> bytes list \<Rightarrow> delta_master \<Rightarrow>
   (uint128 \<times> delta_master) option" where
  "dm_commit G P dirty incarnation packData instanceData =
     fm_commit_with (dm_commit_version G P packData instanceData) dirty incarnation"

definition um_new :: "object_info \<Rightarrow> versioned_master" where
  "um_new object = (vm_new object)\<lparr>vm_version := VERSION_FIRST\<rparr>"

text \<open>The unbuffered commit, with the delta messages sent.\<close>

definition um_commit ::
  "global_config \<Rightarrow> pression \<Rightarrow> bool \<Rightarrow> bytes list \<Rightarrow> versioned_master \<Rightarrow>
   (uint128 \<times> versioned_master \<times> data_message list) option" where
  "um_commit G P dirty packData s =
     (if \<not> dirty then Some (vm_version s, s, [])
      else if \<not> vm_maxVersion s \<ge> low128 (vm_version s) + 1 then None
      else if vm_slaves s = [] then Some (vm_version s, s, [])
      else
        (let os = os_disable G P do_sendData (fold (os_write G P do_sendData) packData
                    (oo_enableCommit (vm_version s + 1) (vm_slaves s) (os_new (oo_new (vm_object s)))));
             s = (if os_hasSentData os then s\<lparr>vm_version := vm_version s + 1\<rparr> else s)
         in Some (vm_version s, s, oo_sent (os_sub os))))"

definition um_addSlave ::
  "global_config \<Rightarrow> pression \<Rightarrow> bool \<Rightarrow> bytes list \<Rightarrow> master_cm_command \<Rightarrow> versioned_master \<Rightarrow>
   bool \<times> versioned_master \<times> cm_event list" where
  "um_addSlave G P attached instanceData command s =
     vm_addSlave (\<lambda>s useCache.
         case cm_initSlave G P (vm_object s) attached instanceData command (vm_version s) useCache of
           (r, events) \<Rightarrow> (r, s, events)) command s"

definition sm_addSlave ::
  "global_config \<Rightarrow> pression \<Rightarrow> object_info \<Rightarrow> bool \<Rightarrow> bytes list \<Rightarrow> master_cm_command \<Rightarrow> bool \<times> cm_event list" where
  "sm_addSlave G P object attached instanceData command =
     (case cm_addSlave object (\<lambda>useCache.
           case cm_initSlave G P object attached instanceData command VERSION_FIRST useCache of
             (r, events) \<Rightarrow> (r, (), events)) () command of
        (r, u, events) \<Rightarrow> (r, events))"

end
