(* ===== verification/Master_Facts.thy ===== *)
theory Master_Facts
  imports Master_CM
begin

text \<open>
  The versioned master change managers: the retained instance datas are always an unbroken run of
  versions that ends with the head version, a commit never outruns the slowest slave, and what a
  slave receives when it maps the object is exactly what its cache does not provide.
\<close>

section \<open>Flow control\<close>

lemma minVersion_le: "vm_minVersion ds m \<le> m"
  by (induction ds m rule: vm_minVersion.induct) (auto intro: order_trans)

lemma minVersion_lower: "d \<in> set ds \<Longrightarrow> vm_minVersion ds m \<le> sd_maxVersion d"
proof (induction ds m rule: vm_minVersion.induct)
  case (2 x ds m)
  have top: "y \<le> (- 1 :: uint64)" for y by (rule word_order.extremum)
  show ?case
  proof (cases "d = x")
    case True
    have "vm_minVersion ds (if sd_maxVersion x \<noteq> - 1 \<and> m > sd_maxVersion x then sd_maxVersion x else m)
        \<le> sd_maxVersion x"
      using minVersion_le [of ds] top by (auto simp: not_less intro: order_trans)
    with True show ?thesis by simp
  qed (use 2 in auto)
qed simp

lemma minVersion_attained: "vm_minVersion ds m = m \<or> (\<exists>d \<in> set ds. vm_minVersion ds m = sd_maxVersion d)"
  by (induction ds m rule: vm_minVersion.induct) (auto split: if_splits)

text \<open>The book-keeping of subscribed slaves: the limit and the node list follow the slave datas.\<close>

definition vm_inv :: "'a versioned_master_scheme \<Rightarrow> bool" where
  "vm_inv s \<longleftrightarrow>
     vm_maxVersion s = vm_minVersion (vm_slaveData s) (- 1) \<and>
     distinct (vm_slaves s) \<and> set (vm_slaves s) = sd_node ` set (vm_slaveData s)"

lemma distinct_usort [simp]: "distinct (usort ns)" and set_usort [simp]: "set (usort ns) = set ns"
  by (simp_all add: usort_def)

lemma updateMaxVersion_fields [simp]:
  "vm_maxVersion (vm_updateMaxVersion s) = vm_minVersion (vm_slaveData s) (- 1)"
  "vm_slaves (vm_updateMaxVersion s) = vm_slaves s" "vm_slaveData (vm_updateMaxVersion s) = vm_slaveData s"
  "vm_version (vm_updateMaxVersion s) = vm_version s" "vm_object (vm_updateMaxVersion s) = vm_object s"
  by (simp_all add: vm_updateMaxVersion_def)

lemma vm_inv_subscribe: "vm_inv s \<Longrightarrow> vm_inv (vm_subscribe command s)"
  by (simp add: vm_inv_def vm_subscribe_def Let_def)

lemma vm_inv_removeSlave: "vm_inv s \<Longrightarrow> vm_inv (vm_removeSlave n i s)"
  by (auto simp: vm_inv_def vm_removeSlave_def split: option.splits)

lemma vm_inv_removeSlaves: "vm_inv s \<Longrightarrow> vm_inv (vm_removeSlaves n s)"
  by (auto simp: vm_inv_def vm_removeSlaves_def)

lemma setMax_map: "vm_setMax n i v ds = Some ds' \<Longrightarrow> map sd_node ds' = map sd_node ds"
  by (induction ds arbitrary: ds') (auto split: if_splits)

lemma setMax_nodes: "vm_setMax n i v ds = Some ds' \<Longrightarrow> sd_node ` set ds' = sd_node ` set ds"
  using setMax_map by (metis set_map)

lemma vm_inv_cmdMaxVersion: "vm_inv s \<Longrightarrow> vm_inv (vm_cmdMaxVersion n v i s)"
  by (simp add: vm_inv_def vm_cmdMaxVersion_def setMax_nodes split: option.splits)

lemma vm_inv_cong:
  "vm_slaves s' = vm_slaves s \<Longrightarrow> vm_slaveData s' = vm_slaveData s \<Longrightarrow> vm_maxVersion s' = vm_maxVersion s \<Longrightarrow>
   vm_inv s' \<longleftrightarrow> vm_inv s"
  by (simp add: vm_inv_def)

section \<open>Retained versions\<close>

definition fm_keep :: "uint32 \<Rightarrow> uint32 \<Rightarrow> instance_data \<Rightarrow> bool" where
  "fm_keep commitCount nVersions d \<longleftrightarrow> unat commitCount \<le> unat (id_commitCount d) + unat nVersions"

lemma popOld_cond:
  "(cc > n \<and> \<not> id_commitCount d \<ge> cc - n) \<longleftrightarrow> \<not> fm_keep cc n d" for cc n :: uint32
  by (auto simp: fm_keep_def word_less_nat_alt word_le_nat_alt unat_sub)

lemma popOld_Cons:
  "fm_popOld cc n (d # d' # ds) = (if fm_keep cc n d then d # d' # ds else fm_popOld cc n (d' # ds))"
  using popOld_cond [of n cc d] by (simp only: fm_popOld.simps) simp

lemmas popOld_simps = popOld_Cons fm_popOld.simps(2,3)
declare fm_popOld.simps [simp del]
declare popOld_simps [simp]

text \<open>
  With commit counts in order, obsoleting keeps the versions of the last \<open>nVersions\<close> commits, and
  always the newest one.
\<close>

lemma popOld_filter:
  assumes "sorted (map (unat \<circ> id_commitCount) ds)" and "ds \<noteq> []"
  shows "fm_popOld cc n ds = (if filter (fm_keep cc n) ds = [] then [last ds] else filter (fm_keep cc n) ds)"
  using assms
proof (induction cc n ds rule: fm_popOld.induct)
  case (1 cc n d d' ds)
  show ?case
  proof (cases "fm_keep cc n d")
    case True
    with 1(2) have "list_all (fm_keep cc n) (d' # ds)"
      by (auto simp: fm_keep_def list_all_iff intro: order_trans)
    with True have "filter (fm_keep cc n) (d # d' # ds) = d # d' # ds"
      by (simp add: list_all_iff filter_id_conv)
    then show ?thesis using True by (simp only: popOld_simps) simp
  next
    case False
    with 1 popOld_cond [of n cc d] show ?thesis by simp
  qed
qed (auto split: if_splits)

lemma popOld_suffix: "\<exists>pre. ds = pre @ fm_popOld cc n ds"
proof (induction cc n ds rule: fm_popOld.induct)
  case (1 cc n d d' ds)
  show ?case
  proof (cases "fm_keep cc n d")
    case False
    with 1 popOld_cond [of n cc d] obtain pre where "d' # ds = pre @ fm_popOld cc n (d' # ds)" by blast
    with False show ?thesis by (intro exI [of _ "d # pre"]) simp
  qed simp
qed auto

lemma popOld_nonempty [simp]: "fm_popOld cc n ds = [] \<longleftrightarrow> ds = []"
proof (induction ds)
  case (Cons d ds)
  then show ?case by (cases ds) simp_all
qed simp

lemma popOld_last: "ds \<noteq> [] \<Longrightarrow> last (fm_popOld cc n ds) = last ds"
  using popOld_suffix [of ds cc n] by (metis last_appendR popOld_nonempty)

section \<open>The versions held by a buffered master\<close>

text \<open>
  The instance datas are the versions \<open>a\<close> to the head version, each retaining its data, with no
  connection left over.
\<close>

definition id_ok :: "pression \<Rightarrow> instance_data \<Rightarrow> bool" where
  "id_ok P d \<longleftrightarrow> (\<exists>data. inst.retains P data (id_os d)) \<and> os_connections (id_os d) = []"

definition fm_run :: "'a full_master_scheme \<Rightarrow> nat \<Rightarrow> bool" where
  "fm_run s a \<longleftrightarrow>
     1 \<le> a \<and> a \<le> unat (vm_version s) \<and>
     version_run (map id_version (fm_instanceDatas s)) a (Suc (unat (vm_version s)))"

definition fm_inv :: "pression \<Rightarrow> 'a full_master_scheme \<Rightarrow> bool" where
  "fm_inv P s \<longleftrightarrow> vm_inv s \<and> (\<exists>a. fm_run s a) \<and> list_all (id_ok P) (fm_instanceDatas s)"

lemma fm_run_nonempty: "fm_run s a \<Longrightarrow> fm_instanceDatas s \<noteq> []"
  by (auto simp: fm_run_def version_run_def)

lemma fm_run_hd: "fm_run s a \<Longrightarrow> unat (id_version (hd (fm_instanceDatas s))) = a"
  by (cases "fm_instanceDatas s") (auto simp: fm_run_def dest: version_run_hd version_run_length)

lemma fm_run_last: "fm_run s a \<Longrightarrow> id_version (last (fm_instanceDatas s)) = vm_version s"
  using version_run_last [of "map id_version (fm_instanceDatas s)" a "unat (vm_version s)"] fm_run_nonempty [of s a]
  by (auto simp: fm_run_def last_map word_unat_eq_iff)

lemma fm_run_cong:
  "vm_version s' = vm_version s \<Longrightarrow> map id_version (fm_instanceDatas s') = map id_version (fm_instanceDatas s) \<Longrightarrow>
   fm_run s' a \<longleftrightarrow> fm_run s a"
  by (simp add: fm_run_def)

lemma version_run_suffix:
  assumes "version_run (xs @ ys) a b" and "ys \<noteq> []"
  shows "version_run ys (a + length xs) b \<and> a + length xs < b"
  using assms
proof (induction xs arbitrary: a)
  case Nil
  then show ?case by (cases ys) (auto dest: version_run_hd)
next
  case (Cons x xs)
  from version_run_tl [of x "xs @ ys"] Cons.prems have "version_run (xs @ ys) (Suc a) b" by simp
  with Cons show ?case by fastforce
qed

lemma fm_run_obsolete: "fm_run s a \<Longrightarrow> \<exists>a'. fm_run (fm_obsolete s) a'"
proof -
  assume run: "fm_run s a"
  obtain pre where pre: "fm_instanceDatas s = pre @ fm_instanceDatas (fm_obsolete s)"
    using popOld_suffix [of "fm_instanceDatas s"] by (auto simp: fm_obsolete_def)
  moreover have "fm_instanceDatas (fm_obsolete s) \<noteq> []"
    using fm_run_nonempty [OF run] by (simp add: fm_obsolete_def)
  moreover have "version_run (map id_version (fm_instanceDatas s)) a (Suc (unat (vm_version s)))"
    using run by (simp add: fm_run_def)
  ultimately have "version_run (map id_version (fm_instanceDatas (fm_obsolete s))) (a + length pre) (Suc (unat (vm_version s)))
      \<and> a + length pre < Suc (unat (vm_version s))"
    using version_run_suffix [of "map id_version pre" "map id_version (fm_instanceDatas (fm_obsolete s))"]
    by (metis length_map list.map_disc_iff map_append)
  with run show ?thesis
    by (intro exI [of _ "a + length pre"]) (simp add: fm_run_def fm_obsolete_def)
qed

lemma fm_inv_obsolete: "fm_inv P s \<Longrightarrow> fm_inv P (fm_obsolete s)"
proof -
  assume inv: "fm_inv P s"
  obtain pre where "fm_instanceDatas s = pre @ fm_instanceDatas (fm_obsolete s)"
    using popOld_suffix [of "fm_instanceDatas s"] by (auto simp: fm_obsolete_def)
  then have "list_all (id_ok P) (fm_instanceDatas (fm_obsolete s))"
    using inv by (metis fm_inv_def list_all_append)
  moreover have "vm_inv (fm_obsolete s)"
    using inv by (simp add: fm_inv_def fm_obsolete_def vm_inv_def)
  ultimately show ?thesis using inv fm_run_obsolete by (auto simp: fm_inv_def)
qed

text \<open>Adding the next version.\<close>

lemma newInstanceData_facts:
  "fm_newInstanceData s = (d, s') \<Longrightarrow>
   os_save (id_os d) \<and> id_commitCount d = fm_commitCount s \<and> vm_version s' = vm_version s \<and>
   vm_slaves s' = vm_slaves s \<and> vm_slaveData s' = vm_slaveData s \<and> vm_maxVersion s' = vm_maxVersion s \<and>
   fm_instanceDatas s' = fm_instanceDatas s \<and> fm_commitCount s' = fm_commitCount s \<and> fm_nVersions s' = fm_nVersions s"
  by (auto simp: fm_newInstanceData_def os_enableSave_def Let_def split: if_splits)

lemma id_write_facts:
  assumes "os_save (id_os d)" and "length (concat ws) < 2 ^ 64" and "d' = id_write G P version receivers ws d"
  shows "id_version d' = version" and "inst.retains P (concat ws) (id_os d')" and "id_ok P d'"
    and "os_hasSentData (id_os d') \<longleftrightarrow> concat ws \<noteq> []" and "id_commitCount d' = id_commitCount d"
proof -
  have os: "id_os d' = os_disable G P io_sendData (fold (os_write G P io_sendData) ws
      (io_enableCommit version receivers (id_os d)))"
    by (simp add: assms(3) id_write_def)
  note facts = io_commit_facts [OF assms(1,2) os]
  show "id_version d' = version" "inst.retains P (concat ws) (id_os d')"
    "os_hasSentData (id_os d') \<longleftrightarrow> concat ws \<noteq> []" "id_commitCount d' = id_commitCount d"
    using facts by (simp_all add: id_version_def) (simp add: assms(3) id_write_def)
  show "id_ok P d'" using facts(2,3) by (auto simp: id_ok_def)
qed

lemma fm_inv_add:
  assumes "fm_inv P s" and "unat (vm_version s) < 2 ^ 63" and "id_version d = vm_version s + 1" and "id_ok P d"
  shows "fm_inv P (fm_addInstanceData d (s\<lparr>vm_version := vm_version s + 1\<rparr>))"
proof -
  from assms(1) obtain a where run: "fm_run s a" by (auto simp: fm_inv_def)
  have suc: "unat (vm_version s + 1) = Suc (unat (vm_version s))"
    using assms(2) by (intro unat_Suc128) simp
  have "fm_run (fm_addInstanceData d (s\<lparr>vm_version := vm_version s + 1\<rparr>)) a"
    using run version_run_append1 [of "map id_version (fm_instanceDatas s)" a "vm_version s + 1"]
    by (simp add: fm_run_def fm_addInstanceData_def suc assms(3))
  then show ?thesis
    using assms(1,4) by (auto simp: fm_inv_def fm_addInstanceData_def vm_inv_def)
qed

lemma fm_inv_commit_version:
  assumes "fm_inv P s" and "unat (vm_version s) < 2 ^ 63" and "length (concat ws) < 2 ^ 64"
  shows "fm_inv P (fm_commit_version G P ws s)"
proof -
  obtain d s' where new: "fm_newInstanceData s = (d, s')" by fastforce
  note facts = newInstanceData_facts [OF new]
  have inv: "fm_inv P s'"
    using assms(1) facts by (simp add: fm_inv_def vm_inv_def fm_run_def)
  let ?d = "id_write G P (vm_version s' + 1) (vm_slaves s') ws d"
  have w: "id_version ?d = vm_version s' + 1" "id_ok P ?d"
    using id_write_facts [OF _ assms(3) refl] facts by blast+
  show ?thesis
  proof (cases "os_hasSentData (id_os ?d)")
    case True
    with fm_inv_add [OF inv _ w] assms(2) facts show ?thesis
      by (simp add: fm_commit_version_def new)
  next
    case False
    then show ?thesis
      using inv by (simp add: fm_commit_version_def new fm_inv_def vm_inv_def fm_run_def)
  qed
qed

lemma updateCommitCount_ok:
  "inc = CO_COMMIT_NEXT \<or> inc \<ge> fm_commitCount s \<Longrightarrow>
   \<exists>cc. fm_updateCommitCount inc s = s\<lparr>fm_commitCount := cc\<rparr>"
  by (auto simp: fm_updateCommitCount_def)

lemma fm_inv_commitCount [simp]: "fm_inv P (s\<lparr>fm_commitCount := cc\<rparr>) = fm_inv P s"
  by (simp add: fm_inv_def vm_inv_def fm_run_def)

lemma fm_inv_commit:
  assumes "fm_inv P s" and "unat (vm_version s) < 2 ^ 63" and "length (concat ws) < 2 ^ 64"
    and "inc = CO_COMMIT_NEXT \<or> inc \<ge> fm_commitCount s" and "fm_commit G P dirty inc ws s = Some (v, s')"
  shows "fm_inv P s'"
proof -
  obtain cc where cc: "fm_updateCommitCount inc s = s\<lparr>fm_commitCount := cc\<rparr>"
    using updateCommitCount_ok [OF assms(4)] by blast
  have "fm_inv P (fm_commit_version G P ws (s\<lparr>fm_commitCount := cc\<rparr>))"
    using assms(1-3) by (intro fm_inv_commit_version) simp_all
  then show ?thesis
    using assms(1,5) cc
    by (auto simp: fm_commit_def fm_commit_with_def Let_def intro!: fm_inv_obsolete split: if_splits)
qed

section \<open>Mapping a slave\<close>

lemma sendDatas_facts:
  assumes "list_all (id_ok P) ds" and "pression_ok P" and "nd_getConnection True (mc_node command) = Some c"
    and "fm_sendDatas G P command e ds = (ds', ms)"
  shows "map id_version ds' = map id_version ds \<and> list_all (id_ok P) ds' \<and>
         map dm_version ms = takeWhile (\<lambda>v. v \<le> e) (map id_version ds) \<and>
         (\<forall>m \<in> set ms. dm_receivers m = [c] \<and> dm_instanceID m = mc_instanceID command \<and>
            dm_cmd m = CMD_NODE_OBJECT_INSTANCE_MAP \<and> pk_last (dm_packet m)) \<and>
         list_all2 (\<lambda>m d. \<exists>data. inst.retains P data (id_os d) \<and> pk_payload P (dm_packet m) = data)
           ms (take (length ms) ds)"
  using assms(1,4)
proof (induction ds arbitrary: ds' ms)
  case Nil
  then show ?case by simp
next
  case (Cons d ds)
  obtain ds1 ms1 where rec: "fm_sendDatas G P command e ds = (ds1, ms1)" by fastforce
  from Cons.prems(1) obtain data where ret: "inst.retains P data (id_os d)" and conn: "os_connections (id_os d) = []"
    by (auto simp: id_ok_def)
  note send = io_sendMapData_facts [OF ret assms(2,3) conn refl, of G "mc_instanceID command"]
  note IH = Cons.IH [OF _ rec]
  show ?case
  proof (cases "id_version d \<le> e")
    case True
    let ?os = "io_sendMapData G P (mc_node command) (mc_instanceID command) (id_os d)"
    from True rec Cons.prems(2) have "ds' = d\<lparr>id_os := ?os\<rparr> # ds1" "ms = last (oo_sent (os_sub ?os)) # ms1"
      by (auto simp: Let_def)
    moreover have "id_ok P (d\<lparr>id_os := ?os\<rparr>)" "id_version (d\<lparr>id_os := ?os\<rparr>) = id_version d"
      using send(1,2,3) by (auto simp: id_ok_def id_version_def)
    ultimately show ?thesis
      using IH Cons.prems(1) True send(5-10) ret by (auto simp: id_version_def)
  next
    case False
    with Cons.prems show ?thesis by auto
  qed
qed

lemma version_run_sorted:
  assumes "version_run (v # vs) a b"
  shows "\<forall>w \<in> set vs. v \<le> w"
proof
  fix w assume "w \<in> set vs"
  then have "unat w \<in> set (map unat vs)" by simp
  then have "unat w \<in> set [Suc a..<b]" using version_run_tl [OF assms] by (simp only: version_run_def)
  then show "v \<le> w" using version_run_hd [OF assms] by (simp add: word_le_nat_alt)
qed

lemma takeWhile_run: "version_run vs a b \<Longrightarrow> takeWhile (\<lambda>v. v \<le> e) vs = filter (\<lambda>v. v \<le> e) vs"
proof (induction vs arbitrary: a)
  case (Cons v vs)
  note run = version_run_tl [OF Cons.prems]
  have "\<not> v \<le> e \<Longrightarrow> filter (\<lambda>v. v \<le> e) vs = []"
    using version_run_sorted [OF Cons.prems] by (intro filter_False) (auto intro: order_trans)
  then show ?case using Cons.IH [OF run] by simp
qed simp

lemma dropWhile_run: "version_run vs a b \<Longrightarrow> dropWhile (\<lambda>v. v < s) vs = filter (\<lambda>v. s \<le> v) vs"
proof (induction vs arbitrary: a)
  case (Cons v vs)
  note run = version_run_tl [OF Cons.prems]
  have "s \<le> v \<Longrightarrow> filter ((\<le>) s) vs = vs"
    using version_run_sorted [OF Cons.prems] by (intro filter_True) (auto intro: order_trans)
  then show ?case using Cons.IH [OF run] by (auto simp: not_less)
qed simp

text \<open>The versions sent are those of the chosen range, in order, and the invariant is kept.\<close>

lemma initSlave_facts:
  assumes "fm_inv P s" and "fm_run s a" and "pression_ok P" and "nd_getConnection True (mc_node command) = Some c"
    and "fm_sendRange (id_version (hd (fm_instanceDatas s))) (vm_version s) command useCache = (start, e, reply)"
    and "fm_initSlave G P command s useCache = (r, s', events)"
  shows "r \<and> fm_inv P s' \<and> vm_version s' = vm_version s \<and> vm_slaveData s' = vm_slaveData s \<and>
         (\<exists>ms. version_run (map dm_version ms) (max a (unat start)) (min (Suc (unat (vm_version s))) (Suc (unat e))) \<and>
            (\<forall>m \<in> set ms. dm_receivers m = [c] \<and> dm_instanceID m = mc_instanceID command \<and>
               dm_cmd m = CMD_NODE_OBJECT_INSTANCE_MAP \<and> pk_last (dm_packet m)) \<and>
            events = [cm_sendMapSuccess (vm_object s) command (ms \<noteq> [])] @ map InstanceMessage ms @
                     [cm_sendMapReply command reply True useCache (ms \<noteq> [])])"
proof -
  let ?ds = "fm_instanceDatas s" and ?p = "\<lambda>d. id_version d < start"
  have run: "version_run (map id_version ?ds) a (Suc (unat (vm_version s)))" and ok: "list_all (id_ok P) ?ds"
    using assms(1,2) by (simp_all add: fm_run_def fm_inv_def)
  obtain ds' ms where send: "fm_sendDatas G P command e (dropWhile ?p ?ds) = (ds', ms)" by fastforce
  have "list_all (id_ok P) (dropWhile ?p ?ds)"
    using ok by (auto simp: list_all_iff dest: set_dropWhileD)
  note facts = sendDatas_facts [OF this assms(3,4) send]
  have "map id_version (dropWhile ?p ?ds) = filter (\<lambda>v. start \<le> v) (map id_version ?ds)"
    using dropWhile_run [OF run, of start] by (simp add: dropWhile_map comp_def)
  then have run1: "version_run (map id_version (dropWhile ?p ?ds)) (max a (unat start)) (Suc (unat (vm_version s)))"
    using version_run_filter_ge [OF run] by simp
  have "map dm_version ms = filter (\<lambda>v. v \<le> e) (map id_version (dropWhile ?p ?ds))"
    using facts takeWhile_run [OF run1] by simp
  then have sent: "version_run (map dm_version ms) (max a (unat start)) (min (Suc (unat (vm_version s))) (Suc (unat e)))"
    using version_run_filter_le [OF run1] by simp
  have s': "s' = s\<lparr>fm_instanceDatas := takeWhile ?p ?ds @ ds'\<rparr>" "r"
    and ev: "events = [cm_sendMapSuccess (vm_object s) command (ms \<noteq> [])] @ map InstanceMessage ms @
                     [cm_sendMapReply command reply True useCache (ms \<noteq> [])]"
    using assms(5,6) send by (auto simp: fm_initSlave_def Let_def split: if_splits)
  have vs: "map id_version (fm_instanceDatas s') = map id_version ?ds"
    using facts by (simp add: s') (metis map_append takeWhile_dropWhile_id)
  have "list_all (id_ok P) (fm_instanceDatas s')"
    using facts ok by (auto simp: s' list_all_iff dest: set_takeWhileD)
  then have "fm_inv P s'"
    using assms(1) vs by (auto simp: fm_inv_def fm_run_def vm_inv_def s')
  moreover have "\<forall>m \<in> set ms. dm_receivers m = [c] \<and> dm_instanceID m = mc_instanceID command \<and>
      dm_cmd m = CMD_NODE_OBJECT_INSTANCE_MAP \<and> pk_last (dm_packet m)" using facts by blast
  moreover have "vm_version s' = vm_version s" "vm_slaveData s' = vm_slaveData s" by (simp_all add: s')
  ultimately show ?thesis using sent ev s'(2) by blast
qed

section \<open>Reachable masters\<close>

text \<open>
  The operations of a buffered master as a step relation. Commits use incarnations that do not
  decrease, the case the code asserts, and versions stay below half of the 64 bit range.
\<close>

inductive fm_step :: "global_config \<Rightarrow> pression \<Rightarrow> full_master \<Rightarrow> full_master \<Rightarrow> bool" for G P where
  commit: "fm_commit G P dirty inc ws s = Some (v, s') \<Longrightarrow> inc = CO_COMMIT_NEXT \<or> inc \<ge> fm_commitCount s \<Longrightarrow>
    unat (vm_version s) < 2 ^ 63 \<Longrightarrow> length (concat ws) < 2 ^ 64 \<Longrightarrow> fm_step G P s s'"
| obsolete: "fm_step G P s (fm_setAutoObsolete n s)"
| add: "fm_addSlave G P command s = (r, s', events) \<Longrightarrow>
    nd_getConnection True (mc_node command) = Some c \<Longrightarrow> fm_step G P s s'"
| remove: "fm_step G P s (vm_removeSlave n i s)"
| removes: "fm_step G P s (vm_removeSlaves n s)"
| maxVersion: "fm_step G P s (vm_cmdMaxVersion n v i s)"
| slaveDelta: "fm_step G P s (snd (vm_cmdSlaveDelta c command s))"
| sync: "vm_sync v s = Some (v', s') \<Longrightarrow> fm_step G P s s'"
| sendSync: "fm_step G P s (fst (snd (fm_sendSync G P command s)))"
| push: "fm_step G P s (fm_push G P groupID typeID nodes s)"
| sendInstance: "fm_step G P s (fm_sendInstanceData G P nodes s)"

inductive fm_reachable :: "global_config \<Rightarrow> pression \<Rightarrow> full_master \<Rightarrow> bool" for G P where
  init: "length (concat ws) < 2 ^ 64 \<Longrightarrow> fm_reachable G P (fm_init G P ws (fm_new object))"
| step: "fm_reachable G P s \<Longrightarrow> fm_step G P s s' \<Longrightarrow> fm_reachable G P s'"

lemma fm_inv_frame:
  "vm_inv s' \<Longrightarrow> vm_version s' = vm_version s \<Longrightarrow> fm_instanceDatas s' = fm_instanceDatas s \<Longrightarrow> fm_inv P s \<Longrightarrow>
   fm_inv P s'"
  by (auto simp: fm_inv_def fm_run_def)

lemma fm_inv_init:
  assumes "length (concat ws) < 2 ^ 64"
  shows "fm_inv P (fm_init G P ws (fm_new object))"
proof -
  obtain d s where new: "fm_newInstanceData (fm_new object) = (d, s)" by fastforce
  note facts = newInstanceData_facts [OF new]
  let ?d = "id_write G P VERSION_FIRST (vm_slaves s) ws d"
  have w: "id_version ?d = 1" "id_ok P ?d"
    using id_write_facts(1,3) [OF _ assms refl] facts by (simp_all add: VERSION_FIRST_def)
  have base: "vm_version (fm_new object) = 0" "vm_slaves (fm_new object) = []" "vm_slaveData (fm_new object) = []"
    "vm_maxVersion (fm_new object) = - 1" "fm_instanceDatas (fm_new object) = []"
    by (simp_all add: fm_new_def vm_new_def versioned_master.defs full_master.defs VERSION_NONE_def)
  show ?thesis
    using w facts by (auto simp: fm_init_def new fm_inv_def vm_inv_def fm_run_def version_run_def base)
qed

lemma removeSlave_fields [simp]:
  "vm_version (vm_removeSlave n i s) = vm_version s" "fm_instanceDatas (vm_removeSlave n i s) = fm_instanceDatas s"
  "vm_version (vm_removeSlaves n s) = vm_version s" "fm_instanceDatas (vm_removeSlaves n s) = fm_instanceDatas s"
  "vm_version (vm_cmdMaxVersion n v i s) = vm_version s" "fm_instanceDatas (vm_cmdMaxVersion n v i s) = fm_instanceDatas s"
  "vm_version (vm_subscribe command s) = vm_version s" "fm_instanceDatas (vm_subscribe command s) = fm_instanceDatas s"
  by (simp_all add: vm_removeSlave_def vm_removeSlaves_def vm_cmdMaxVersion_def vm_subscribe_def Let_def
      vm_updateMaxVersion_def split: option.split)

lemma fm_inv_subscribe: "fm_inv P s \<Longrightarrow> fm_inv P (vm_subscribe command s)"
  by (rule fm_inv_frame [of _ s]) (auto simp: fm_inv_def intro: vm_inv_subscribe)

lemma fm_inv_onLast:
  assumes "fm_inv P s"
    and "\<And>os. os_connections os = [] \<Longrightarrow> (\<exists>data. inst.retains P data os) \<Longrightarrow>
           os_connections (f os) = [] \<and> (\<exists>data. inst.retains P data (f os)) \<and>
           oo_version (os_sub (f os)) = oo_version (os_sub os)"
  shows "fm_inv P (fm_onLast f s)"
proof -
  from assms(1) obtain a where run: "fm_run s a" and ok: "list_all (id_ok P) (fm_instanceDatas s)"
    by (auto simp: fm_inv_def)
  obtain ds d where ds: "fm_instanceDatas s = ds @ [d]"
    using fm_run_nonempty [OF run] by (cases "fm_instanceDatas s" rule: rev_cases) auto
  with ok assms(2) [of "id_os d"] have "id_ok P (d\<lparr>id_os := f (id_os d)\<rparr>)" "id_version (d\<lparr>id_os := f (id_os d)\<rparr>) = id_version d"
    by (auto simp: id_ok_def id_version_def)
  then show ?thesis
    using assms(1) ds by (auto simp: fm_inv_def fm_onLast_def fm_run_def vm_inv_def)
qed

lemma resend_frame:
  assumes "pression_ok P" and "os_connections os = []" and "\<exists>data. inst.retains P data os"
  shows "os_connections (io_resend G P cs (io_set c n i os)) = [] \<and>
         (\<exists>data. inst.retains P data (io_resend G P cs (io_set c n i os))) \<and>
         oo_version (os_sub (io_resend G P cs (io_set c n i os))) = oo_version (os_sub os)"
proof -
  from assms(3) obtain data where "inst.retains P data os" by blast
  then have "inst.retains P data (os_setupConnections cs (io_set c n i os))"
    by (auto simp: inst.retains_def os_setupConnections_def io_set_def)
  from inst.resend_retains [OF this assms(1), of G]
  have "inst.retains P data (io_resend G P cs (io_set c n i os))"
    by (auto simp: io_resend_def inst.retains_def os_clearConnections_def)
  then show ?thesis
    by (auto simp: io_resend_def os_clearConnections_def os_resend_def os_sendData_def Let_def
        io_sendData_def oo_send_def os_setupConnections_def io_set_def)
qed

lemma sync_head_frame:
  "vm_sync_head q v s = (v', s') \<Longrightarrow>
   vm_inv s' = vm_inv s \<and> vm_version s' = vm_version s \<and> fm_instanceDatas s' = fm_instanceDatas s"
  by (induction q v s rule: vm_sync_head.induct) (auto simp: vm_apply_def vm_inv_def)

lemma sync_frame:
  "vm_sync v s = Some (v', s') \<Longrightarrow>
   vm_inv s' = vm_inv s \<and> vm_version s' = vm_version s \<and> fm_instanceDatas s' = fm_instanceDatas s"
  using sync_head_frame [of "dq_queued (vm_slaveCommits s)" VERSION_NONE
      "s\<lparr>vm_slaveCommits := (vm_slaveCommits s)\<lparr>dq_queued := []\<rparr>\<rparr>"]
  by (auto simp: vm_sync_def vm_apply_def vm_inv_def split: if_splits option.splits)

lemma fm_inv_addSlave:
  assumes "fm_inv P s" and "pression_ok P" and "nd_getConnection True (mc_node command) = Some c"
    and "fm_addSlave G P command s = (r, s', events)"
  shows "fm_inv P s'"
proof (cases "mc_requestedVersion command = VERSION_NONE")
  case True
  with assms(1,4) show ?thesis
    by (auto simp: fm_addSlave_def vm_addSlave_def cm_addSlave_def intro: fm_inv_subscribe)
next
  case False
  let ?use = "mc_useCache command \<and> mc_masterInstanceID command = oi_instanceID (vm_object s)"
  obtain r1 s1 ev where init: "fm_initSlave G P command s ?use = (r1, s1, ev)" by (metis prod_cases3)
  obtain start e reply where range:
    "fm_sendRange (id_version (hd (fm_instanceDatas s))) (vm_version s) command ?use = (start, e, reply)"
    by (metis prod_cases3)
  from assms(1) obtain a where run: "fm_run s a" by (auto simp: fm_inv_def)
  have "r1 \<and> fm_inv P s1" using initSlave_facts [OF assms(1) run assms(2,3) range init] by blast
  with assms(4) False init show ?thesis
    by (auto simp: fm_addSlave_def vm_addSlave_def cm_addSlave_def intro: fm_inv_subscribe)
qed

lemma fm_inv_step:
  assumes "pression_ok P" and "fm_step G P s s'" and "fm_inv P s"
  shows "fm_inv P s'"
  using assms(2,3)
proof cases
  case (commit dirty inc ws v)
  show ?thesis by (rule fm_inv_commit [OF assms(3) commit(3,4,2,1)])
next
  case (obsolete n)
  have "fm_inv P (s\<lparr>fm_nVersions := n\<rparr>)"
    using assms(3) by (simp add: fm_inv_def vm_inv_def fm_run_def)
  then show ?thesis unfolding obsolete(1) fm_setAutoObsolete_def by (rule fm_inv_obsolete)
next
  case (add command r events c)
  show ?thesis by (rule fm_inv_addSlave [OF assms(3,1) add(2,1)])
next
  case (remove n i)
  then show ?thesis
    using assms(3) by (simp add: fm_inv_def fm_run_def vm_inv_removeSlave)
next
  case (removes n)
  then show ?thesis
    using assms(3) by (simp add: fm_inv_def fm_run_def vm_inv_removeSlaves)
next
  case (maxVersion n v i)
  then show ?thesis
    using assms(3) by (simp add: fm_inv_def fm_run_def vm_inv_cmdMaxVersion)
next
  case (slaveDelta c command)
  then show ?thesis
    using assms(3) by (simp add: fm_inv_def fm_run_def vm_inv_def vm_cmdSlaveDelta_def split: prod.splits)
next
  case (sync v v')
  from sync_frame [OF sync] show ?thesis
    using assms(3) by (simp add: fm_inv_def fm_run_def)
next
  case (sendSync command)
  have "fm_inv P (fm_onLast (io_sync G P (mc_node command) (mc_requestID command)) s)"
    unfolding io_sync_def by (rule fm_inv_onLast [OF assms(3)]) (rule resend_frame [OF assms(1)])
  then show ?thesis using assms(3) by (simp add: sendSync fm_sendSync_def Let_def)
next
  case (push groupID typeID nodes)
  show ?thesis
    unfolding push fm_push_def io_push_def fst_conv
    by (rule fm_inv_onLast [OF assms(3)]) (rule resend_frame [OF assms(1)])
next
  case (sendInstance nodes)
  have "fm_inv P (fm_onLast (io_sendInstanceData G P nodes) s)"
    unfolding io_sendInstanceData_def by (rule fm_inv_onLast [OF assms(3)]) (rule resend_frame [OF assms(1)])
  then show ?thesis using assms(3) by (simp add: sendInstance fm_sendInstanceData_def)
qed

lemma fm_reachable_inv: "fm_reachable G P s \<Longrightarrow> pression_ok P \<Longrightarrow> fm_inv P s"
  by (induction rule: fm_reachable.induct) (auto intro: fm_inv_init fm_inv_step)

section \<open>The incarnations of the retained versions\<close>

text \<open>
  \<^verbatim>\<open>_commitCount\<close> is a 32 bit counter. As long as no step makes it wrap around, the retained
  versions are ordered by their incarnation and none is newer than the counter.
\<close>

inductive fm_nowrap :: "global_config \<Rightarrow> pression \<Rightarrow> full_master \<Rightarrow> bool" for G P where
  init: "length (concat ws) < 2 ^ 64 \<Longrightarrow> fm_nowrap G P (fm_init G P ws (fm_new object))"
| step: "fm_nowrap G P s \<Longrightarrow> fm_step G P s s' \<Longrightarrow> fm_commitCount s \<le> fm_commitCount s' \<Longrightarrow> fm_nowrap G P s'"

lemma fm_nowrap_reachable: "fm_nowrap G P s \<Longrightarrow> fm_reachable G P s"
  by (induction rule: fm_nowrap.induct) (auto intro: fm_reachable.intros)

abbreviation fm_counts :: "'a full_master_scheme \<Rightarrow> uint32 list" where
  "fm_counts s \<equiv> map id_commitCount (fm_instanceDatas s)"

definition fm_ordered :: "'a full_master_scheme \<Rightarrow> bool" where
  "fm_ordered s \<longleftrightarrow> sorted (fm_counts s) \<and> (\<forall>c \<in> set (fm_counts s). c \<le> fm_commitCount s)"

lemma fm_ordered_frame:
  "fm_counts s' = fm_counts s \<Longrightarrow> fm_commitCount s' = fm_commitCount s \<Longrightarrow> fm_ordered s' = fm_ordered s"
  by (simp add: fm_ordered_def)

lemma fm_ordered_obsolete: "fm_ordered s \<Longrightarrow> fm_ordered (fm_obsolete s)"
  using popOld_suffix [of "fm_instanceDatas s" "fm_commitCount s" "fm_nVersions s"]
  by (auto simp: fm_ordered_def fm_obsolete_def) (metis map_append sorted_append, metis UnCI set_append)

lemma fm_ordered_raise:
  "fm_ordered s \<Longrightarrow> fm_commitCount s \<le> cc \<Longrightarrow> fm_ordered (s\<lparr>fm_commitCount := cc\<rparr>)"
  by (auto simp: fm_ordered_def intro: order_trans)

lemma fm_ordered_commit_version: "fm_ordered s \<Longrightarrow> fm_ordered (fm_commit_version G P ws s)"
  by (auto simp: fm_commit_version_def fm_newInstanceData_def fm_addInstanceData_def fm_ordered_def id_write_def
      Let_def sorted_append split: prod.splits)

lemma commit_version_commitCount [simp]: "fm_commitCount (fm_commit_version G P ws s) = fm_commitCount s"
  by (simp add: fm_commit_version_def fm_newInstanceData_def fm_addInstanceData_def Let_def split: prod.splits)

lemma fm_ordered_commit:
  assumes "fm_ordered s" and "inc = CO_COMMIT_NEXT \<or> inc \<ge> fm_commitCount s"
    and "fm_commit G P dirty inc ws s = Some (v, s')" and "fm_commitCount s \<le> fm_commitCount s'"
  shows "fm_ordered s'"
proof -
  obtain cc where cc: "fm_updateCommitCount inc s = s\<lparr>fm_commitCount := cc\<rparr>"
    using updateCommitCount_ok [OF assms(2)] by blast
  have "fm_commitCount s' = cc"
    using assms(3) cc by (auto simp: fm_commit_def fm_commit_with_def Let_def fm_obsolete_def split: if_splits)
  with fm_ordered_raise [OF assms(1)] assms(4) have "fm_ordered (s\<lparr>fm_commitCount := cc\<rparr>)" by simp
  then show ?thesis
    using assms(3) cc
    by (auto simp: fm_commit_def fm_commit_with_def Let_def split: if_splits
        intro!: fm_ordered_obsolete fm_ordered_commit_version)
qed

lemma sendDatas_counts: "map id_commitCount (fst (fm_sendDatas G P command e ds)) = map id_commitCount ds"
  by (induction ds) (auto simp: Let_def split: prod.splits)

lemma initSlave_counts:
  "fm_initSlave G P command s useCache = (r, s', events) \<Longrightarrow>
   fm_counts s' = fm_counts s \<and> fm_commitCount s' = fm_commitCount s"
proof -
  assume init: "fm_initSlave G P command s useCache = (r, s', events)"
  obtain start e reply where range:
    "fm_sendRange (id_version (hd (fm_instanceDatas s))) (vm_version s) command useCache = (start, e, reply)"
    by (metis prod_cases3)
  let ?p = "\<lambda>d. id_version d < start"
  have "s' = s\<lparr>fm_instanceDatas := takeWhile ?p (fm_instanceDatas s) @
      fst (fm_sendDatas G P command e (dropWhile ?p (fm_instanceDatas s)))\<rparr>"
    using init range by (auto simp: fm_initSlave_def Let_def split: prod.splits)
  then show ?thesis
    by (simp add: sendDatas_counts) (metis map_append takeWhile_dropWhile_id)
qed

lemma subscribe_counts [simp]:
  "fm_commitCount (vm_subscribe command s) = fm_commitCount s"
  "fm_commitCount (vm_removeSlave n i s) = fm_commitCount s" "fm_commitCount (vm_removeSlaves n s) = fm_commitCount s"
  "fm_commitCount (vm_cmdMaxVersion n v i s) = fm_commitCount s"
  by (simp_all add: vm_removeSlave_def vm_removeSlaves_def vm_cmdMaxVersion_def vm_subscribe_def Let_def
      vm_updateMaxVersion_def split: option.split)

lemma sync_head_count: "vm_sync_head q v s = (v', s') \<Longrightarrow> fm_commitCount s' = fm_commitCount s"
  by (induction q v s rule: vm_sync_head.induct) (auto simp: vm_apply_def)

lemma sync_count: "vm_sync v s = Some (v', s') \<Longrightarrow> fm_commitCount s' = fm_commitCount s"
  using sync_head_count [of "dq_queued (vm_slaveCommits s)" VERSION_NONE
      "s\<lparr>vm_slaveCommits := (vm_slaveCommits s)\<lparr>dq_queued := []\<rparr>\<rparr>"]
  by (auto simp: vm_sync_def vm_apply_def split: if_splits option.splits)

lemma onLast_counts:
  "fm_instanceDatas s \<noteq> [] \<Longrightarrow> fm_counts (fm_onLast f s) = fm_counts s \<and> fm_commitCount (fm_onLast f s) = fm_commitCount s"
  by (cases "fm_instanceDatas s" rule: rev_cases) (auto simp: fm_onLast_def)

lemma fm_ordered_step:
  assumes "fm_step G P s s'" and "fm_commitCount s \<le> fm_commitCount s'" and "fm_instanceDatas s \<noteq> []" and "fm_ordered s"
  shows "fm_ordered s'"
proof -
  have last: "fm_ordered (fm_onLast f s)" for f
    using onLast_counts [OF assms(3)] assms(4) fm_ordered_frame by blast
  show ?thesis
    using assms(1)
  proof cases
    case (commit dirty inc ws v)
    with assms(2,4) show ?thesis by (blast intro: fm_ordered_commit)
  next
    case (obsolete n)
    have "fm_ordered (s\<lparr>fm_nVersions := n\<rparr>)" using assms(4) by (simp add: fm_ordered_def)
    then show ?thesis unfolding obsolete fm_setAutoObsolete_def by (rule fm_ordered_obsolete)
  next
    case (add command r events c)
    then have "fm_counts s' = fm_counts s \<and> fm_commitCount s' = fm_commitCount s"
      by (auto simp: fm_addSlave_def vm_addSlave_def cm_addSlave_def dest!: initSlave_counts
          split: if_splits prod.splits bool.splits)
    then show ?thesis using assms(4) fm_ordered_frame by blast
  next
    case (slaveDelta c command)
    then show ?thesis using assms(4) by (auto simp: vm_cmdSlaveDelta_def fm_ordered_def split: prod.splits)
  next
    case (sync v v')
    then show ?thesis
      using assms(4) fm_ordered_frame [of s' s] sync_frame [OF sync] sync_count [OF sync] by simp
  next
    case (sendSync command)
    then show ?thesis using assms(4) last by (simp add: fm_sendSync_def Let_def)
  next
    case (push groupID typeID nodes)
    then show ?thesis using last by (simp add: fm_push_def)
  next
    case (sendInstance nodes)
    then show ?thesis using assms(4) last by (simp add: fm_sendInstanceData_def)
  qed (use assms(4) in \<open>simp_all add: fm_ordered_def\<close>)
qed

lemma fm_nowrap_ordered: "fm_nowrap G P s \<Longrightarrow> pression_ok P \<Longrightarrow> fm_ordered s"
proof (induction rule: fm_nowrap.induct)
  case (init ws object)
  then show ?case
    by (simp add: fm_init_def fm_newInstanceData_def fm_ordered_def id_write_def Let_def fm_new_def vm_new_def
        versioned_master.defs full_master.defs split: prod.splits)
next
  case (step s s')
  then have "fm_inv P s" by (blast intro: fm_reachable_inv fm_nowrap_reachable)
  then obtain a where "fm_run s a" by (auto simp: fm_inv_def)
  with step show ?case by (blast intro: fm_ordered_step dest: fm_run_nonempty)
qed

section \<open>Properties\<close>

definition sample_object :: object_info where
  "sample_object = \<lparr>oi_id = 11, oi_instanceID = 2, oi_masterInstanceID = 2, oi_changeType = 2\<rparr>"

definition sample_master :: full_master where
  "sample_master = fm_init sample_config sample_pression [[1, 2], [3]] (fm_new sample_object)"

lemma sample_pression_ok: "pression_ok sample_pression"
  by (simp add: pression_ok_def sample_pression_def)

lemma sample_master_reachable: "fm_reachable sample_config sample_pression sample_master"
  unfolding sample_master_def by (rule fm_reachable.init) simp

lemma sample_master_fields:
  "vm_version sample_master = 1" "vm_maxVersion sample_master = - 1" "vm_slaveData sample_master = []"
  "fm_commitCount sample_master = 1" "fm_nVersions sample_master = 0" "vm_object sample_master = sample_object"
  "map id_version (fm_instanceDatas sample_master) = [1]" "map id_commitCount (fm_instanceDatas sample_master) = [0]"
proof -
  obtain d s where new: "fm_newInstanceData (fm_new sample_object) = (d, s)" by fastforce
  note facts = newInstanceData_facts [OF new]
  have base: "vm_version (fm_new sample_object) = 0" "vm_slaveData (fm_new sample_object) = []"
    "vm_maxVersion (fm_new sample_object) = - 1" "fm_instanceDatas (fm_new sample_object) = []"
    "fm_commitCount (fm_new sample_object) = 0" "fm_nVersions (fm_new sample_object) = 0"
    by (simp_all add: fm_new_def vm_new_def versioned_master.defs full_master.defs VERSION_NONE_def)
  have obj: "vm_object s = sample_object"
    using new by (auto simp: fm_newInstanceData_def fm_new_def vm_new_def versioned_master.defs full_master.defs)
  let ?d = "id_write sample_config sample_pression VERSION_FIRST (vm_slaves s) [[1, 2], [3]] d"
  have w: "id_version ?d = 1" "id_commitCount ?d = 0"
    using id_write_facts(1,5) [of d "[[1, 2], [3]]" ?d] facts base by (simp_all add: VERSION_FIRST_def)
  show "vm_version sample_master = 1" "vm_maxVersion sample_master = - 1" "vm_slaveData sample_master = []"
    "fm_commitCount sample_master = 1" "fm_nVersions sample_master = 0" "vm_object sample_master = sample_object"
    "map id_version (fm_instanceDatas sample_master) = [1]" "map id_commitCount (fm_instanceDatas sample_master) = [0]"
    using facts base w obj by (simp_all add: sample_master_def fm_init_def new)
qed

text \<open>C23 (full_master_versions): in every reachable state of a buffered master the retained instance datas are the
  versions from some oldest one up to the head version, one each and in order: no commit, obsoletion, mapping,
  synchronisation or slave command ever leaves a gap.\<close>

theorem full_master_versions:
  assumes "fm_reachable G P s" and "pression_ok P"
  shows "\<exists>a. 1 \<le> a \<and> a \<le> unat (vm_version s) \<and>
             map (\<lambda>d. unat (id_version d)) (fm_instanceDatas s) = [a..<Suc (unat (vm_version s))]"
  using fm_reachable_inv [OF assms]
  by (auto simp: fm_inv_def fm_run_def version_run_def comp_def)

theorem full_master_versions_witness:
  "\<exists>a. 1 \<le> a \<and> a \<le> unat (vm_version sample_master) \<and>
       map (\<lambda>d. unat (id_version d)) (fm_instanceDatas sample_master) = [a..<Suc (unat (vm_version sample_master))]"
  by (rule full_master_versions [OF sample_master_reachable sample_pression_ok])

text \<open>C28 (commit_flow_control): a commit of a dirty object blocks exactly as long as some slave has not yet allowed the
  next version.\<close>

theorem commit_flow_control:
  assumes "fm_reachable G P s" and "pression_ok P"
  shows "fm_commit G P True inc ws s = None \<longleftrightarrow>
         (\<exists>d \<in> set (vm_slaveData s). sd_maxVersion d < low128 (vm_version s) + 1)"
proof -
  have max: "vm_maxVersion s = vm_minVersion (vm_slaveData s) (- 1)"
    using fm_reachable_inv [OF assms] by (simp add: fm_inv_def vm_inv_def)
  have none: "fm_commit G P True inc ws s = None \<longleftrightarrow> vm_maxVersion s < low128 (vm_version s) + 1"
    by (auto simp: fm_commit_def fm_commit_with_def Let_def not_le)
  show ?thesis
    unfolding none max
  proof
    assume less: "vm_minVersion (vm_slaveData s) (- 1) < low128 (vm_version s) + 1"
    then have "vm_minVersion (vm_slaveData s) (- 1) \<noteq> - 1"
      using word_order.extremum [of "low128 (vm_version s) + 1"] by auto
    with less minVersion_attained [of "vm_slaveData s" "- 1"]
    show "\<exists>d \<in> set (vm_slaveData s). sd_maxVersion d < low128 (vm_version s) + 1" by auto
  next
    assume "\<exists>d \<in> set (vm_slaveData s). sd_maxVersion d < low128 (vm_version s) + 1"
    then show "vm_minVersion (vm_slaveData s) (- 1) < low128 (vm_version s) + 1"
      using minVersion_lower by (blast intro: le_less_trans)
  qed
qed

theorem commit_flow_control_witness:
  "fm_commit sample_config sample_pression True CO_COMMIT_NEXT [[1]] sample_master = None \<longleftrightarrow>
   (\<exists>d \<in> set (vm_slaveData sample_master). sd_maxVersion d < low128 (vm_version sample_master) + 1)"
  by (rule commit_flow_control [OF sample_master_reachable sample_pression_ok])

text \<open>A commit with new data, before the obsolete versions are dropped.\<close>

lemma commit_new_data:
  assumes "length (concat ws) < 2 ^ 64" and "concat ws \<noteq> []"
    and "fm_commit G P True CO_COMMIT_NEXT ws s = Some (v, s')"
  shows "v = vm_version s + 1 \<and> vm_version s' = v \<and> fm_commitCount s' = fm_commitCount s + 1 \<and>
         fm_nVersions s' = fm_nVersions s \<and>
         (\<exists>d. id_version d = v \<and> inst.retains P (concat ws) (id_os d) \<and> id_commitCount d = fm_commitCount s + 1 \<and>
            fm_instanceDatas s' = fm_popOld (fm_commitCount s + 1) (fm_nVersions s) (fm_instanceDatas s @ [d]))"
proof -
  let ?s = "s\<lparr>fm_commitCount := fm_commitCount s + 1\<rparr>"
  obtain d t where new: "fm_newInstanceData ?s = (d, t)" by fastforce
  note facts = newInstanceData_facts [OF new]
  let ?d = "id_write G P (vm_version t + 1) (vm_slaves t) ws d"
  have w: "id_version ?d = vm_version s + 1" "inst.retains P (concat ws) (id_os ?d)"
      "os_hasSentData (id_os ?d)" "id_commitCount ?d = fm_commitCount s + 1"
    using id_write_facts [OF _ assms(1) refl] facts assms(2) by simp_all
  let ?u = "fm_addInstanceData ?d (t\<lparr>vm_version := vm_version t + 1\<rparr>)"
  have s': "s' = fm_obsolete ?u" and v: "v = vm_version s'"
    using assms(3) w(3) by (auto simp: fm_commit_def fm_commit_with_def fm_updateCommitCount_def fm_commit_version_def
        new Let_def split: if_splits)
  have u: "fm_instanceDatas ?u = fm_instanceDatas s @ [?d]" "fm_commitCount ?u = fm_commitCount s + 1"
    "fm_nVersions ?u = fm_nVersions s" "vm_version ?u = vm_version s + 1"
    using facts by (simp_all add: fm_addInstanceData_def)
  with v w show ?thesis by (auto simp: s' fm_obsolete_def)
qed

lemma commit_retained:
  assumes "fm_nowrap G P s" and "pression_ok P" and "unat (fm_commitCount s) + 1 < 2 ^ 32"
    and "length (concat ws) < 2 ^ 64" and "concat ws \<noteq> []"
    and "fm_commit G P True CO_COMMIT_NEXT ws s = Some (v, s')"
  shows "v = vm_version s + 1 \<and> vm_version s' = v \<and>
         (\<exists>d. id_version d = v \<and> inst.retains P (concat ws) (id_os d) \<and> id_commitCount d = fm_commitCount s + 1 \<and>
            fm_instanceDatas s' =
              filter (\<lambda>d. unat (fm_commitCount s) + 1 \<le> unat (id_commitCount d) + unat (fm_nVersions s))
                (fm_instanceDatas s) @ [d])"
proof -
  have cc: "unat (fm_commitCount s + 1) = unat (fm_commitCount s) + 1"
    using assms(3) by (subst unat_add_lem [THEN iffD1]) simp_all
  obtain d where v: "v = vm_version s + 1" "vm_version s' = v"
    and d: "id_version d = v" "inst.retains P (concat ws) (id_os d)" "id_commitCount d = fm_commitCount s + 1"
    and datas: "fm_instanceDatas s' = fm_popOld (fm_commitCount s + 1) (fm_nVersions s) (fm_instanceDatas s @ [d])"
    using commit_new_data [OF assms(4-6)] by blast
  let ?keep = "fm_keep (fm_commitCount s + 1) (fm_nVersions s)"
  have "sorted (map unat (fm_counts s))" "\<forall>d \<in> set (fm_instanceDatas s). unat (id_commitCount d) \<le> unat (fm_commitCount s)"
    using fm_nowrap_ordered [OF assms(1,2)]
    by (auto simp: fm_ordered_def word_le_nat_alt sorted_map sorted_wrt_map)
  then have "sorted (map (unat \<circ> id_commitCount) (fm_instanceDatas s @ [d]))"
    using d(3) cc by (auto simp: sorted_append intro: le_SucI)
  moreover have "?keep d" by (simp add: fm_keep_def d(3))
  ultimately have "fm_instanceDatas s' = filter ?keep (fm_instanceDatas s) @ [d]"
    using popOld_filter [of "fm_instanceDatas s @ [d]" "fm_commitCount s + 1" "fm_nVersions s"] by (simp add: datas)
  with v d cc show ?thesis by (auto simp: fm_keep_def [abs_def])
qed

text \<open>C27 (commit_next_version): while the incarnation counter has not wrapped around, a commit of new
  data as the next incarnation adds the version after the head version, which retains exactly what
  the object wrote, and of the older versions keeps exactly those whose incarnation is at least the
  new one minus \<^verbatim>\<open>getAutoObsolete()\<close>. That is one incarnation more than
  \<^verbatim>\<open>object.h\<close> documents.\<close>

theorem commit_next_version:
  assumes "fm_nowrap G P s" and "pression_ok P" and "unat (fm_commitCount s) + 1 < 2 ^ 32"
    and "length (concat ws) < 2 ^ 64" and "concat ws \<noteq> []"
    and "fm_commit G P True CO_COMMIT_NEXT ws s = Some (v, s')"
  shows "v = vm_version s + 1 \<and> vm_version s' = v \<and>
         (\<exists>d. id_version d = v \<and> inst.retains P (concat ws) (id_os d) \<and> id_commitCount d = fm_commitCount s + 1 \<and>
            fm_instanceDatas s' =
              filter (\<lambda>d. unat (fm_commitCount s) + 1 \<le> unat (id_commitCount d) + unat (fm_nVersions s))
                (fm_instanceDatas s) @ [d])"
  using assms by (rule commit_retained)

lemma sample_master_nowrap: "fm_nowrap sample_config sample_pression sample_master"
  unfolding sample_master_def by (rule fm_nowrap.init) simp

lemma sample_master_commit:
  "\<exists>v s'. fm_commit sample_config sample_pression True CO_COMMIT_NEXT [[4]] sample_master = Some (v, s')"
proof -
  have "low128 (1 :: uint128) + 1 \<le> (- 1 :: uint64)" by (rule word_order.extremum)
  then show ?thesis
    by (simp add: fm_commit_def fm_commit_with_def sample_master_fields Let_def)
qed

theorem commit_next_version_witness:
  "\<exists>v s'. fm_commit sample_config sample_pression True CO_COMMIT_NEXT [[4]] sample_master = Some (v, s') \<and>
     v = vm_version sample_master + 1 \<and> vm_version s' = v \<and>
         (\<exists>d. id_version d = v \<and> inst.retains sample_pression (concat [[4]]) (id_os d) \<and>
            id_commitCount d = fm_commitCount sample_master + 1 \<and>
            fm_instanceDatas s' =
              filter (\<lambda>d. unat (fm_commitCount sample_master) + 1 \<le> unat (id_commitCount d) + unat (fm_nVersions sample_master))
                (fm_instanceDatas sample_master) @ [d])"
proof -
  obtain v s' where c: "fm_commit sample_config sample_pression True CO_COMMIT_NEXT [[4]] sample_master = Some (v, s')"
    using sample_master_commit by blast
  have "unat (fm_commitCount sample_master) + 1 < 2 ^ 32" "length (concat [[4 :: 8 word]]) < 2 ^ 64" "concat [[4 :: 8 word]] \<noteq> []"
    by (simp_all add: sample_master_fields)
  from commit_next_version [OF sample_master_nowrap sample_pression_ok this c] c show ?thesis by blast
qed

text \<open>
  With \<^verbatim>\<open>getAutoObsolete() = 1\<close> the documentation of \<^verbatim>\<open>Object::commit\<close> promises the data
  of the last commit call; the versions of the commit before it are retained, too.
\<close>

lemma auto_obsolete_keeps_one_more:
  assumes "fm_nowrap G P s" and "pression_ok P" and "unat (fm_commitCount s) + 1 < 2 ^ 32"
    and "length (concat ws) < 2 ^ 64" and "concat ws \<noteq> []"
    and "fm_commit G P True CO_COMMIT_NEXT ws s = Some (v, s')"
    and "fm_nVersions s = 1" and "d \<in> set (fm_instanceDatas s)" and "id_commitCount d = fm_commitCount s"
  shows "d \<in> set (fm_instanceDatas s')"
  using commit_retained [OF assms(1-6)] assms(7-9) by auto

lemma commit_object:
  assumes "fm_commit G P dirty CO_COMMIT_NEXT ws s = Some (v, s')"
  shows "vm_object s' = vm_object s"
proof -
  obtain cc where cc: "fm_updateCommitCount CO_COMMIT_NEXT s = s\<lparr>fm_commitCount := cc\<rparr>"
    using updateCommitCount_ok [of CO_COMMIT_NEXT s] by blast
  have "vm_object (fm_commit_version G P ws t) = vm_object t" for t :: "'a full_master_scheme"
    by (simp add: fm_commit_version_def fm_newInstanceData_def fm_addInstanceData_def Let_def split: prod.splits)
  with assms cc show ?thesis
    by (auto simp: fm_commit_def fm_commit_with_def Let_def fm_obsolete_def split: if_splits)
qed

text \<open>Two retained versions: the sample master keeps two older incarnations and commits again.\<close>

lemma sample_master_two:
  "\<exists>s. fm_reachable sample_config sample_pression s \<and> vm_version s = 2 \<and> vm_object s = sample_object \<and>
     map id_version (fm_instanceDatas s) = [1, 2]"
proof -
  let ?s = "fm_setAutoObsolete 2 sample_master"
  have s: "vm_version ?s = 1" "vm_maxVersion ?s = - 1" "vm_object ?s = sample_object" "fm_commitCount ?s = 1" "fm_nVersions ?s = 2"
    by (simp_all add: fm_setAutoObsolete_def fm_obsolete_def sample_master_fields)
  obtain d where d: "fm_instanceDatas sample_master = [d]" "id_version d = 1" "id_commitCount d = 0"
    using sample_master_fields(7,8) by (auto simp: map_eq_Cons_conv)
  then have ds: "fm_instanceDatas ?s = [d]" by (simp add: fm_setAutoObsolete_def fm_obsolete_def)
  have reach: "fm_nowrap sample_config sample_pression ?s"
    by (rule fm_nowrap.step [OF sample_master_nowrap fm_step.obsolete]) (simp add: s sample_master_fields)
  have "low128 (1 :: uint128) + 1 \<le> (- 1 :: uint64)" by (rule word_order.extremum)
  then obtain v s' where c: "fm_commit sample_config sample_pression True CO_COMMIT_NEXT [[4]] ?s = Some (v, s')"
    by (simp add: fm_commit_def fm_commit_with_def s Let_def)
  have step: "fm_step sample_config sample_pression ?s s'"
    by (rule fm_step.commit [OF c]) (simp_all add: s)
  have "unat (fm_commitCount ?s) + 1 < 2 ^ 32" "length (concat [[4 :: 8 word]]) < 2 ^ 64" "concat [[4 :: 8 word]] \<noteq> []"
    by (simp_all add: s)
  from commit_retained [OF reach sample_pression_ok this c] obtain e where v: "v = 2" "vm_version s' = v"
    and e: "id_version e = v" and ds': "fm_instanceDatas s' = [d, e]"
    unfolding s ds by (auto simp: d(3))
  have "vm_version s' = 2" by (simp only: v)
  moreover have "map id_version (fm_instanceDatas s') = [1, 2]" by (simp add: ds' d(2) e v(1))
  moreover have "vm_object s' = sample_object"
    using commit_object [OF c] by (simp add: s)
  moreover note fm_reachable.step [OF fm_nowrap_reachable [OF reach] step]
  ultimately show ?thesis by (intro exI [of _ s'] conjI)
qed

text \<open>The range of versions sent, as an interval, and what the slave's cache contributes.\<close>

lemma sendRange_covers:
  assumes "oldest \<le> head" and "unat head < 2 ^ 64"
    and "mc_requestedVersion command = VERSION_OLDEST \<or> mc_requestedVersion command \<le> head"
    and "useCache \<Longrightarrow> mc_minCachedVersion command \<le> mc_maxCachedVersion command \<and> mc_maxCachedVersion command \<le> head"
    and "fm_sendRange oldest head command useCache = (start, e, reply)"
  shows "oldest \<le> reply \<and> reply \<le> head \<and> reply \<le> start \<and> e \<le> head \<and>
         (\<forall>v. reply \<le> v \<and> v \<le> head \<longrightarrow>
            start \<le> v \<and> v \<le> e \<or> useCache \<and> mc_minCachedVersion command \<le> v \<and> v \<le> mc_maxCachedVersion command)"
proof -
  define lo where "lo = mc_minCachedVersion command"
  define hi where "hi = mc_maxCachedVersion command"
  define r where "r = (if mc_requestedVersion command = VERSION_OLDEST \<or> mc_requestedVersion command < oldest
                       then oldest else mc_requestedVersion command)"
  have r: "oldest \<le> r" "r \<le> head" using assms(1,3) by (auto simp: r_def)
  have range: "(start, e, reply) =
      (if useCache then (if lo \<le> r \<and> hi \<ge> r then (hi + 1, head, r)
                         else if hi = head then (r, max r (lo - 1), r) else (r, head, r))
       else (r, head, r))"
    unfolding assms(5) [symmetric] fm_sendRange_def Let_def lo_def hi_def r_def by (rule refl)
  consider "useCache" "lo \<le> r" "r \<le> hi" | "useCache" "\<not> (lo \<le> r \<and> r \<le> hi)" "hi = head"
    | "(start, e, reply) = (r, head, r)" using range by (auto split: if_splits)
  then show ?thesis
  proof cases
    case 1
    then have hi: "hi \<le> head" using assms(4) by (simp add: hi_def)
    have "unat (hi + 1) = Suc (unat hi)"
      using hi assms(2) by (intro unat_Suc128) (simp add: word_le_nat_alt)
    then have "r \<le> hi + 1" "hi + 1 \<le> v \<longleftrightarrow> \<not> v \<le> hi" for v
      using 1 by (simp_all add: word_le_nat_alt not_less_eq_eq)
    with 1 range r show ?thesis unfolding lo_def [symmetric] hi_def [symmetric] by (auto intro: order_trans)
  next
    case 2
    have lo: "lo \<le> head" using 2 assms(4) by (simp add: lo_def hi_def)
    have less: "r < lo" using 2 r by auto
    then have un: "unat (lo - 1) = unat lo - 1" and ge: "1 \<le> unat lo"
      by (auto simp: unat_sub word_less_nat_alt word_le_nat_alt)
    then have "r \<le> lo - 1" "lo - 1 \<le> head" "v \<le> lo - 1 \<longleftrightarrow> \<not> lo \<le> v" for v
      using less lo by (auto simp: word_le_nat_alt word_less_nat_alt)
    moreover have "(start, e, reply) = (r, max r (lo - 1), r)" using range 2 by auto
    ultimately show ?thesis
      using r 2 unfolding lo_def [symmetric] hi_def [symmetric] by (auto simp: max_absorb2)
  next
    case 3
    with r show ?thesis by auto
  qed
qed

lemma addSlave_facts:
  assumes "fm_reachable G P s" and "pression_ok P" and "unat (vm_version s) < 2 ^ 64"
    and "nd_getConnection True (mc_node command) = Some c" and "mc_requestedVersion command \<noteq> VERSION_NONE"
    and "mc_requestedVersion command = VERSION_OLDEST \<or> mc_requestedVersion command \<le> vm_version s"
    and "useCache \<longleftrightarrow> mc_useCache command \<and> mc_masterInstanceID command = oi_instanceID (vm_object s)"
    and "useCache \<longrightarrow> mc_minCachedVersion command \<le> mc_maxCachedVersion command \<and>
           mc_maxCachedVersion command \<le> vm_version s"
    and "fm_addSlave G P command s = (r, s', events)"
  shows "r \<and> mc_node command \<in> set (vm_slaves s') \<and>
         (\<exists>reply ms a b. events = [cm_sendMapSuccess (vm_object s) command (ms \<noteq> [])] @ map InstanceMessage ms @
                       [cm_sendMapReply command reply True useCache (ms \<noteq> [])] \<and>
            1 \<le> unat reply \<and> reply \<le> vm_version s \<and> map (\<lambda>m. unat (dm_version m)) ms = [a..<b] \<and>
            unat reply \<le> a \<and> b \<le> Suc (unat (vm_version s)) \<and>
            (\<forall>v. reply \<le> v \<and> v \<le> vm_version s \<longrightarrow>
               a \<le> unat v \<and> unat v < b \<or>
               useCache \<and> mc_minCachedVersion command \<le> v \<and> v \<le> mc_maxCachedVersion command))"
proof -
  note inv = fm_reachable_inv [OF assms(1,2)]
  from inv obtain a where run: "fm_run s a" by (auto simp: fm_inv_def)
  let ?old = "id_version (hd (fm_instanceDatas s))"
  have old: "unat ?old = a" and le: "?old \<le> vm_version s"
    using fm_run_hd [OF run] run by (simp_all add: fm_run_def word_le_nat_alt)
  obtain start e reply where range: "fm_sendRange ?old (vm_version s) command useCache = (start, e, reply)"
    by (metis prod_cases3)
  obtain r1 s1 ev where init: "fm_initSlave G P command s useCache = (r1, s1, ev)" by (metis prod_cases3)
  have cover: "?old \<le> reply" "reply \<le> vm_version s" "reply \<le> start" "e \<le> vm_version s"
    and all: "\<forall>v. reply \<le> v \<and> v \<le> vm_version s \<longrightarrow>
            start \<le> v \<and> v \<le> e \<or> useCache \<and> mc_minCachedVersion command \<le> v \<and> v \<le> mc_maxCachedVersion command"
    using sendRange_covers [OF le assms(3,6) _ range] assms(8) by blast+
  have facts: "r1" "vm_slaveData s1 = vm_slaveData s"
    and "\<exists>ms. version_run (map dm_version ms) (max a (unat start)) (min (Suc (unat (vm_version s))) (Suc (unat e))) \<and>
       ev = [cm_sendMapSuccess (vm_object s) command (ms \<noteq> [])] @ map InstanceMessage ms @
            [cm_sendMapReply command reply True useCache (ms \<noteq> [])]"
    using initSlave_facts [OF inv run assms(2,4) range init] by blast+
  then obtain ms where sent: "version_run (map dm_version ms) (max a (unat start)) (min (Suc (unat (vm_version s))) (Suc (unat e)))"
    and events: "ev = [cm_sendMapSuccess (vm_object s) command (ms \<noteq> [])] @ map InstanceMessage ms @
            [cm_sendMapReply command reply True useCache (ms \<noteq> [])]" by blast
  have start: "max a (unat start) = unat start"
    using cover old by (simp add: word_le_nat_alt)
  have last: "min (Suc (unat (vm_version s))) (Suc (unat e)) = Suc (unat e)"
    using cover by (simp add: word_le_nat_alt)
  have res: "r = r1" "events = ev" "r1 \<Longrightarrow> s' = vm_subscribe command s1"
    using assms(5,7,9) init by (auto simp: fm_addSlave_def vm_addSlave_def cm_addSlave_def split: bool.splits)
  have "mc_node command \<in> set (vm_slaves s')"
    using res(3) facts(1) by (simp add: vm_subscribe_def Let_def)
  moreover have "map (\<lambda>m. unat (dm_version m)) ms = [unat start..<Suc (unat e)]"
    using sent unfolding start last by (simp add: version_run_def comp_def)
  moreover have "1 \<le> unat reply"
    using cover(1) run old by (simp add: fm_run_def word_le_nat_alt)
  moreover have "unat reply \<le> unat start" "Suc (unat e) \<le> Suc (unat (vm_version s))"
    using cover by (simp_all add: word_le_nat_alt)
  moreover have "\<forall>v. reply \<le> v \<and> v \<le> vm_version s \<longrightarrow> unat start \<le> unat v \<and> unat v < Suc (unat e) \<or>
      useCache \<and> mc_minCachedVersion command \<le> v \<and> v \<le> mc_maxCachedVersion command"
    using all by (auto simp: word_le_nat_alt)
  ultimately show ?thesis using facts(1) res(1,2) events cover(2) by blast
qed


text \<open>C24 (full_master_mapping): when a slave maps a buffered object at its oldest version or at a version up to
  the head, and a cached range it announces is not empty and does not go beyond the head, the master subscribes it for
  later versions, announces the mapping, sends a run of consecutive versions, each once and in ascending order, and
  replies with a version; the versions sent lie between the reply version and the head, and every version of that
  interval that is not sent lies in the cached range the slave has announced.\<close>

theorem full_master_mapping:
  assumes "fm_reachable G P s" and "pression_ok P" and "unat (vm_version s) < 2 ^ 64"
    and "nd_getConnection True (mc_node command) = Some c" and "mc_requestedVersion command \<noteq> VERSION_NONE"
    and "mc_requestedVersion command = VERSION_OLDEST \<or> mc_requestedVersion command \<le> vm_version s"
    and "useCache \<longleftrightarrow> mc_useCache command \<and> mc_masterInstanceID command = oi_instanceID (vm_object s)"
    and "useCache \<longrightarrow> mc_minCachedVersion command \<le> mc_maxCachedVersion command \<and>
           mc_maxCachedVersion command \<le> vm_version s"
    and "fm_addSlave G P command s = (r, s', events)"
  shows "r \<and> mc_node command \<in> set (vm_slaves s') \<and>
         (\<exists>reply ms a b. events = [cm_sendMapSuccess (vm_object s) command (ms \<noteq> [])] @ map InstanceMessage ms @
                       [cm_sendMapReply command reply True useCache (ms \<noteq> [])] \<and>
            reply \<le> vm_version s \<and> map (\<lambda>m. unat (dm_version m)) ms = [a..<b] \<and>
            unat reply \<le> a \<and> b \<le> Suc (unat (vm_version s)) \<and>
            (\<forall>v. reply \<le> v \<and> v \<le> vm_version s \<longrightarrow>
               a \<le> unat v \<and> unat v < b \<or>
               useCache \<and> mc_minCachedVersion command \<le> v \<and> v \<le> mc_maxCachedVersion command))"
  using addSlave_facts [OF assms] by blast

definition sample_map_command :: master_cm_command where
  "sample_map_command =
     \<lparr>mc_requestedVersion = VERSION_OLDEST, mc_minCachedVersion = VERSION_HEAD, mc_maxCachedVersion = VERSION_NONE,
      mc_objectID = 11, mc_maxVersion = 3, mc_requestID = 5, mc_instanceID = 9, mc_masterInstanceID = CO_INSTANCE_INVALID,
      mc_useCache = False, mc_node = \<lparr>nd_id = 4, nd_outgoing = True, nd_multicast = None\<rparr>\<rparr>"

theorem full_master_mapping_witness:
  "\<exists>r s' events. fm_addSlave sample_config sample_pression sample_map_command sample_master = (r, s', events) \<and>
     r \<and> mc_node sample_map_command \<in> set (vm_slaves s') \<and>
     (\<exists>reply ms a b. events = [cm_sendMapSuccess (vm_object sample_master) sample_map_command (ms \<noteq> [])] @
                       map InstanceMessage ms @ [cm_sendMapReply sample_map_command reply True False (ms \<noteq> [])] \<and>
        reply \<le> vm_version sample_master \<and> map (\<lambda>m. unat (dm_version m)) ms = [a..<b] \<and>
        unat reply \<le> a \<and> b \<le> Suc (unat (vm_version sample_master)) \<and>
        (\<forall>v. reply \<le> v \<and> v \<le> vm_version sample_master \<longrightarrow>
           a \<le> unat v \<and> unat v < b \<or>
           False \<and> mc_minCachedVersion sample_map_command \<le> v \<and> v \<le> mc_maxCachedVersion sample_map_command))"
proof -
  obtain r s' events where
    add: "fm_addSlave sample_config sample_pression sample_map_command sample_master = (r, s', events)"
    by (metis prod_cases3)
  have "nd_getConnection True (mc_node sample_map_command) = Some (Unicast 4)"
    by (simp add: sample_map_command_def nd_getConnection_def)
  moreover have "mc_requestedVersion sample_map_command \<noteq> VERSION_NONE"
    by (simp add: sample_map_command_def VERSION_OLDEST_def VERSION_NONE_def)
  moreover have "mc_requestedVersion sample_map_command = VERSION_OLDEST" "\<not> mc_useCache sample_map_command"
    by (simp_all add: sample_map_command_def)
  moreover have "unat (vm_version sample_master) < 2 ^ 64" by (simp add: sample_master_fields)
  ultimately show ?thesis
    using full_master_mapping [OF sample_master_reachable sample_pression_ok _ _ _ _ _ _ add, of "Unicast 4" False] add
    by blast
qed

section \<open>Decreasing incarnation counters\<close>

lemma popFuture_snoc:
  assumes "id_commitCount d' \<le> inc" and "inc < id_commitCount d"
  shows "fm_popFuture inc (ds @ [d', d]) = ds @ [d']"
  using assms by (simp add: fm_popFuture.simps [of inc "ds @ [d', d]"] fm_popFuture.simps [of inc "ds @ [d']"] butlast_append)

text \<open>A commit whose incarnation lies between the commit counts of the two newest
  versions drops the newest one and keeps the head version number, so the head version is one that no slave can map
  and the next commit leaves a gap.\<close>

theorem decreasing_incarnation_gap:
  assumes "fm_reachable G P s" and "pression_ok P" and "fm_instanceDatas s = ds @ [d', d]"
    and "inc < fm_commitCount s" and "id_commitCount d' \<le> inc" and "inc < id_commitCount d"
  shows "\<exists>s'. fm_commit G P False inc ws s = Some (vm_version s, s') \<and> vm_version s' = vm_version s \<and>
              id_version (last (fm_instanceDatas s')) + 1 = vm_version s"
proof -
  have "CO_COMMIT_NEXT = - 1" by (simp add: CO_COMMIT_NEXT_def)
  then have "inc \<noteq> CO_COMMIT_NEXT"
    using assms(4) word_order.extremum [of "fm_commitCount s"] by (auto dest: leD)
  then have upd: "fm_updateCommitCount inc s = s\<lparr>fm_commitCount := inc, fm_instanceDatas := ds @ [d']\<rparr>"
    using assms(4-6) by (simp add: fm_updateCommitCount_def assms(3) popFuture_snoc Let_def)
  obtain a where "map (\<lambda>d. unat (id_version d)) (ds @ [d', d]) = [a..<Suc (unat (vm_version s))]"
    and "a \<le> unat (vm_version s)"
    using fm_reachable_inv [OF assms(1,2)] by (auto simp: fm_inv_def fm_run_def version_run_def assms(3) comp_def)
  then have "map (\<lambda>d. unat (id_version d)) (ds @ [d']) = [a..<unat (vm_version s)]" by simp
  from arg_cong [OF this, of last] arg_cong [OF this, of length]
  have "Suc (unat (id_version d')) = unat (vm_version s)"
    by (cases "a < unat (vm_version s)") (auto simp: last_upt)
  from arg_cong [OF this, of "of_nat :: nat \<Rightarrow> uint128"] have "id_version d' + 1 = vm_version s"
    by (simp add: add.commute)
  then show ?thesis
    by (simp add: fm_commit_def fm_commit_with_def upd fm_obsolete_def Let_def popOld_last)
qed

lemma sample_two_versions:
  "\<exists>s d' d. fm_reachable sample_config sample_pression s \<and> fm_instanceDatas s = [d', d] \<and>
     fm_commitCount s = 2 \<and> id_commitCount d' = 0 \<and> id_commitCount d = 2"
proof -
  let ?s = "fm_setAutoObsolete 5 sample_master"
  obtain d' where d': "fm_instanceDatas sample_master = [d']" "id_commitCount d' = 0"
    using sample_master_fields(8) by (auto simp: map_eq_Cons_conv)
  have s: "fm_instanceDatas ?s = [d']" "fm_commitCount ?s = 1" "fm_nVersions ?s = 5" "vm_version ?s = 1" "vm_maxVersion ?s = - 1"
    by (simp_all add: fm_setAutoObsolete_def fm_obsolete_def d' sample_master_fields)
  have "fm_reachable sample_config sample_pression ?s"
    by (rule fm_reachable.step [OF sample_master_reachable fm_step.obsolete])
  moreover have "low128 (1 :: uint128) + 1 \<le> (- 1 :: uint64)" by (rule word_order.extremum)
  then obtain v s' where c: "fm_commit sample_config sample_pression True CO_COMMIT_NEXT [[4]] ?s = Some (v, s')"
    by (simp add: fm_commit_def fm_commit_with_def s Let_def)
  ultimately have "fm_reachable sample_config sample_pression s'"
    by (intro fm_reachable.step [OF _ fm_step.commit [OF c]]) (simp_all add: s(4))
  moreover obtain d where "id_commitCount d = 2" "fm_commitCount s' = 2" "fm_instanceDatas s' = fm_popOld 2 5 [d', d]"
    using commit_new_data [OF _ _ c] unfolding s by auto
  moreover have "fm_popOld 2 5 [d', d] = [d', d]" by (simp add: fm_keep_def)
  ultimately show ?thesis using d'(2) by metis
qed

theorem decreasing_incarnation_gap_witness:
  "\<exists>(s :: full_master) s'. fm_commit sample_config sample_pression False 1 [] s = Some (vm_version s, s') \<and> vm_version s' = vm_version s \<and>
          id_version (last (fm_instanceDatas s')) + 1 = vm_version s"
proof -
  obtain s d' d where s: "fm_reachable sample_config sample_pression s" "fm_instanceDatas s = [] @ [d', d]"
    "fm_commitCount s = 2" "id_commitCount d' = 0" "id_commitCount d = 2"
    using sample_two_versions by auto
  have "\<exists>s'. fm_commit sample_config sample_pression False 1 [] s = Some (vm_version s, s') \<and> vm_version s' = vm_version s \<and>
          id_version (last (fm_instanceDatas s')) + 1 = vm_version s"
    by (rule decreasing_incarnation_gap [OF s(1) sample_pression_ok s(2)]) (simp_all add: s(3-5))
  then show ?thesis by blast
qed

end
