(* ===== verification/Slave_CM.thy ===== *)
theory Slave_CM
  imports Object_Data_OStream
begin

text \<open>
  The change managers of slave objects: \<^verbatim>\<open>src/co/versionedSlaveCM.cpp\<close> and
  \<^verbatim>\<open>staticSlaveCM.cpp\<close>. The calls into the application's object (\<open>applyInstanceData\<close>,
  \<open>unpack\<close>, \<open>notifyNewHeadVersion\<close>) and the acknowledgements sent to the master are logs of
  the state. \<^verbatim>\<open>_queuedVersions\<close> is a blocking queue: an operation that waits on it while it
  is empty is \<^term>\<open>None\<close>.
\<close>

section \<open>VersionedSlaveCM\<close>

datatype applied = ApplyInstanceData odistream | Unpack odistream

record versioned_slave =
  sv_object :: object_info
  sv_maxVersions :: uint64
  sv_version :: uint128
  sv_currentIStream :: "odistream option"
  sv_queuedVersions :: "odistream list"
  sv_ostream :: "slave_ostream ostream"
  sv_master :: "node option"
  sv_masterInstanceID :: uint32
  sv_applied :: "applied list"
  sv_acks :: "(uint64 \<times> uint32) list"
  sv_newHeads :: "uint128 list"

definition sv_new :: "(nat \<Rightarrow> uint128) \<Rightarrow> uint64 \<Rightarrow> object_info \<Rightarrow> uint32 \<Rightarrow> versioned_slave" where
  "sv_new uuids maxVersions object masterInstanceID =
     \<lparr>sv_object = object, sv_maxVersions = maxVersions, sv_version = VERSION_NONE, sv_currentIStream = None,
      sv_queuedVersions = [], sv_ostream = os_new (so_new uuids object), sv_master = None,
      sv_masterInstanceID = masterInstanceID, sv_applied = [], sv_acks = [], sv_newHeads = []\<rparr>"

text \<open>
  \<^verbatim>\<open>commit\<close>: \<open>packData\<close> is what the object's \<open>pack\<close> writes, \<open>reachable\<close> whether the master
  node is.
\<close>

definition sv_commit ::
  "global_config \<Rightarrow> pression \<Rightarrow> bool \<Rightarrow> bool \<Rightarrow> bytes list \<Rightarrow> versioned_slave \<Rightarrow> uint128 \<times> versioned_slave" where
  "sv_commit G P dirty reachable packData s =
     (case sv_master s of
        None \<Rightarrow> (VERSION_NONE, s)
      | Some master \<Rightarrow>
          if \<not> dirty \<or> \<not> reachable then (VERSION_NONE, s)
          else
            (let os = os_disable G P so_sendData (fold (os_write G P so_sendData) packData
                        (so_enableSlaveCommit master (sv_ostream s)))
             in (if os_hasSentData os then oo_version (os_sub os) else VERSION_NONE, s\<lparr>sv_ostream := os\<rparr>)))"

definition sv_sendAck :: "versioned_slave \<Rightarrow> versioned_slave" where
  "sv_sendAck s =
     (let maxVersion = low128 (sv_version s) + sv_maxVersions s
      in if maxVersion \<le> low128 (sv_version s) then s
         else s\<lparr>sv_acks := sv_acks s @ [(maxVersion, oi_instanceID (sv_object s))]\<rparr>)"

definition sv_unpackOneVersion :: "odistream \<Rightarrow> versioned_slave \<Rightarrow> versioned_slave" where
  "sv_unpackOneVersion is s =
     sv_sendAck
       (s\<lparr>sv_applied := sv_applied s @ [if od_hasInstanceData is then ApplyInstanceData is else Unpack is],
          sv_version := od_version is\<rparr>)"

text \<open>The loop of \<open>sync\<close>: pop and unpack until the version is reached.\<close>

fun sv_unpackUntil :: "uint128 \<Rightarrow> odistream list \<Rightarrow> versioned_slave \<Rightarrow> versioned_slave option" where
  "sv_unpackUntil version [] s =
     (if sv_version s < version then None else Some (s\<lparr>sv_queuedVersions := []\<rparr>))"
| "sv_unpackUntil version (is # queued) s =
     (if sv_version s < version then sv_unpackUntil version queued (sv_unpackOneVersion is s)
      else Some (s\<lparr>sv_queuedVersions := is # queued\<rparr>))"

definition sv_syncToHead :: "versioned_slave \<Rightarrow> versioned_slave" where
  "sv_syncToHead s =
     (if sv_queuedVersions s = [] then s
      else fold sv_unpackOneVersion (sv_queuedVersions s) (s\<lparr>sv_queuedVersions := []\<rparr>))"

definition sv_sync :: "uint128 \<Rightarrow> versioned_slave \<Rightarrow> (uint128 \<times> versioned_slave) option" where
  "sv_sync v s =
     (if sv_version s = v then Some (sv_version s, s)
      else if v = VERSION_HEAD then (let s = sv_syncToHead s in Some (sv_version s, s))
      else
        (let version = (if v = VERSION_NEXT then sv_version s + 1 else v)
         in case sv_unpackUntil version (sv_queuedVersions s) s of
              None \<Rightarrow> None
            | Some s \<Rightarrow> Some (sv_version s, s)))"

definition sv_getHeadVersion :: "versioned_slave \<Rightarrow> uint128" where
  "sv_getHeadVersion s =
     (if sv_queuedVersions s = [] then sv_version s else od_version (last (sv_queuedVersions s)))"

text \<open>
  \<^verbatim>\<open>applyMapData\<close>: streams of other versions are dropped. \<open>hasData\<close> may fetch the next
  buffer; its fuel is one more than the number of buffers.
\<close>

definition od_hasData :: "pression \<Rightarrow> odistream \<Rightarrow> bool \<times> odistream" where
  "od_hasData P is = the (is_hasData P od_getNextBuffer (Suc (od_nRemainingBuffers is)) is)"

fun sv_applyMapData_loop :: "pression \<Rightarrow> uint128 \<Rightarrow> odistream list \<Rightarrow> versioned_slave \<Rightarrow> versioned_slave option" where
  "sv_applyMapData_loop P version [] s = None"
| "sv_applyMapData_loop P version (is # queued) s =
     (if od_version is = version then
        (case od_hasData P is of
           (b, is) \<Rightarrow>
             Some (s\<lparr>sv_queuedVersions := queued,
                     sv_applied := (if b then sv_applied s @ [ApplyInstanceData is] else sv_applied s),
                     sv_version := od_version is\<rparr>))
      else sv_applyMapData_loop P version queued s)"

definition sv_applyMapData :: "pression \<Rightarrow> uint128 \<Rightarrow> versioned_slave \<Rightarrow> versioned_slave option" where
  "sv_applyMapData P version s = sv_applyMapData_loop P version (sv_queuedVersions s) s"

text \<open>
  \<^verbatim>\<open>addInstanceDatas\<close>: the cached streams from the start version on that are older than the
  queued ones, latest first, and those that are newer.
\<close>

fun sv_splitCache ::
  "uint128 \<Rightarrow> uint128 \<Rightarrow> uint128 \<Rightarrow> odistream list \<Rightarrow> odistream list \<Rightarrow> odistream list \<Rightarrow>
   odistream list \<times> odistream list" where
  "sv_splitCache startVersion oldest newest [] head tail = (head, tail)"
| "sv_splitCache startVersion oldest newest (stream # cache) head tail =
     (let version = od_version stream
      in if version < startVersion then sv_splitCache startVersion oldest newest cache head tail
         else if \<not> od_isReady stream then (head, tail)
         else if version < oldest then sv_splitCache startVersion oldest newest cache (stream # head) tail
         else if version > newest then sv_splitCache startVersion oldest newest cache head (tail @ [stream])
         else sv_splitCache startVersion oldest newest cache head tail)"

definition sv_addInstanceDatas :: "odistream list \<Rightarrow> uint128 \<Rightarrow> versioned_slave \<Rightarrow> versioned_slave" where
  "sv_addInstanceDatas cache startVersion s =
     (let queued = sv_queuedVersions s;
          oldest = (if queued = [] then VERSION_NONE else od_version (hd queued));
          newest = (if queued = [] then VERSION_NONE else od_version (last queued))
      in case sv_splitCache startVersion oldest newest cache [] [] of
           (head, tail) \<Rightarrow>
             s\<lparr>sv_queuedVersions :=
                 fold (\<lambda>stream q. q @ [od_copy stream]) tail
                   (fold (\<lambda>stream q. od_copy stream # q) head queued)\<rparr>)"

definition sv_cmdData :: "odcommand \<Rightarrow> versioned_slave \<Rightarrow> versioned_slave" where
  "sv_cmdData command s =
     (let is = od_addDataCommand (case sv_currentIStream s of None \<Rightarrow> od_new | Some is \<Rightarrow> is) command
      in if od_isReady is
         then s\<lparr>sv_queuedVersions := sv_queuedVersions s @ [is], sv_newHeads := sv_newHeads s @ [od_version is],
                sv_currentIStream := None\<rparr>
         else s\<lparr>sv_currentIStream := Some is\<rparr>)"

section \<open>StaticSlaveCM\<close>

record static_slave =
  ss_currentIStream :: "odistream option"
  ss_applied :: "odistream list"

definition ss_new :: static_slave where
  "ss_new = \<lparr>ss_currentIStream = Some od_new, ss_applied = []\<rparr>"

text \<open>\<^verbatim>\<open>applyMapData\<close> waits until the stream is ready.\<close>

definition ss_applyMapData :: "pression \<Rightarrow> static_slave \<Rightarrow> static_slave option" where
  "ss_applyMapData P s =
     (case ss_currentIStream s of
        None \<Rightarrow> None
      | Some is \<Rightarrow>
          if \<not> od_isReady is then None
          else (case od_hasData P is of
                  (b, is) \<Rightarrow> Some \<lparr>ss_currentIStream = None,
                                  ss_applied = (if b then ss_applied s @ [is] else ss_applied s)\<rparr>))"

definition ss_addInstanceDatas :: "odistream list \<Rightarrow> static_slave \<Rightarrow> static_slave" where
  "ss_addInstanceDatas cache s =
     (case cache of
        [] \<Rightarrow> s
      | stream # _ \<Rightarrow>
          if \<not> od_isReady stream \<or> od_version stream \<noteq> VERSION_FIRST then s
          else s\<lparr>ss_currentIStream := Some (od_copy stream)\<rparr>)"

definition ss_cmdInstance :: "odcommand \<Rightarrow> static_slave \<Rightarrow> static_slave" where
  "ss_cmdInstance command s =
     s\<lparr>ss_currentIStream := map_option (\<lambda>is. od_addDataCommand is command) (ss_currentIStream s)\<rparr>"

section \<open>Receiving data\<close>

text \<open>A group of commands that makes up one version: only the last one is marked.\<close>

fun version_group :: "odcommand list \<Rightarrow> bool" where
  "version_group [] \<longleftrightarrow> False"
| "version_group [c] \<longleftrightarrow> oc_isLast c \<and> oc_version c \<noteq> VERSION_INVALID"
| "version_group (c # cs) \<longleftrightarrow> \<not> oc_isLast c \<and> version_group cs"

text \<open>The stream that holds a group.\<close>

definition group_stream :: "odcommand list \<Rightarrow> odistream" where
  "group_stream cs = od_new\<lparr>od_commands := cs, od_version := oc_version (last cs)\<rparr>"

lemma cmdData_pending:
  assumes "version_group cs" and "sv_currentIStream s = Some (od_new\<lparr>od_commands := pre\<rparr>)"
  shows "fold sv_cmdData cs s =
         s\<lparr>sv_currentIStream := None, sv_queuedVersions := sv_queuedVersions s @ [group_stream (pre @ cs)],
           sv_newHeads := sv_newHeads s @ [oc_version (last cs)]\<rparr>"
  using assms
proof (induction cs arbitrary: pre s rule: version_group.induct)
  case (2 c)
  then show ?case
    by (simp add: sv_cmdData_def od_addDataCommand_def od_setReady_def od_getPendingVersion_def od_isReady_def
        group_stream_def Let_def)
next
  case (3 c c' cs)
  have "sv_cmdData c s = s\<lparr>sv_currentIStream := Some (od_new\<lparr>od_commands := pre @ [c]\<rparr>)\<rparr>"
    using "3.prems" by (simp add: sv_cmdData_def od_addDataCommand_def od_isReady_def Let_def)
  with "3.IH" [of "s\<lparr>sv_currentIStream := Some (od_new\<lparr>od_commands := pre @ [c]\<rparr>)\<rparr>" "pre @ [c]"] "3.prems"
  show ?case by simp
qed simp

lemma cmdData_group:
  assumes "version_group cs" and "sv_currentIStream s = None"
  shows "fold sv_cmdData cs s =
         s\<lparr>sv_queuedVersions := sv_queuedVersions s @ [group_stream cs], sv_newHeads := sv_newHeads s @ [oc_version (last cs)]\<rparr>"
proof -
  have start: "sv_cmdData c s = sv_cmdData c (s\<lparr>sv_currentIStream := Some (od_new\<lparr>od_commands := []\<rparr>)\<rparr>)" for c
    using assms(2) by (simp add: sv_cmdData_def od_new_def od_reset_members_def Let_def)
  obtain c cs' where cs: "cs = c # cs'" using assms(1) by (cases cs) auto
  have "fold sv_cmdData cs s = fold sv_cmdData cs (s\<lparr>sv_currentIStream := Some (od_new\<lparr>od_commands := []\<rparr>)\<rparr>)"
    by (simp add: cs start)
  also have "\<dots> = s\<lparr>sv_queuedVersions := sv_queuedVersions s @ [group_stream cs], sv_newHeads := sv_newHeads s @ [oc_version (last cs)]\<rparr>"
    using assms(2) by (simp add: cmdData_pending [OF assms(1)])
  finally show ?thesis .
qed

text \<open>The data commands of any number of versions, each version ended by its last
  command, become one queued stream per version in the order received, holding exactly its commands, and the
  application is told of each new head version once.\<close>

theorem slave_receives_versions:
  assumes "\<forall>cs \<in> set groups. version_group cs" and "sv_currentIStream s = None"
  shows "fold sv_cmdData (concat groups) s =
         s\<lparr>sv_queuedVersions := sv_queuedVersions s @ map group_stream groups,
           sv_newHeads := sv_newHeads s @ map (\<lambda>cs. oc_version (last cs)) groups\<rparr>"
  using assms
proof (induction groups arbitrary: s)
  case (Cons cs groups)
  then show ?case by (simp add: cmdData_group)
qed simp

text \<open>Two versions, of two commands and of one.\<close>

definition sample_data :: "uint128 \<Rightarrow> bool \<Rightarrow> odcommand" where
  "sample_data version isLast =
     \<lparr>oc_valid = True, oc_size = 80, oc_type = 3, oc_cmd = CMD_OBJECT_DELTA, oc_objectID = 11, oc_instanceID = 1,
      oc_version = version, oc_datasize = 2, oc_sequence = 0, oc_isLast = isLast, oc_compressor = 0,
      oc_chunks = 1, oc_rest = [1, 2], oc_remote = 4, oc_local = 5, oc_swapping = False\<rparr>"

definition sample_slave :: versioned_slave where
  "sample_slave = sv_new (\<lambda>n. of_nat n) 2 \<lparr>oi_id = 11, oi_instanceID = 1, oi_masterInstanceID = 2, oi_changeType = 3\<rparr> 2"

theorem slave_receives_versions_witness:
  "fold sv_cmdData (concat [[sample_data 5 False, sample_data 5 True], [sample_data 6 True]]) sample_slave =
   sample_slave\<lparr>sv_queuedVersions := sv_queuedVersions sample_slave @
       map group_stream [[sample_data 5 False, sample_data 5 True], [sample_data 6 True]],
     sv_newHeads := sv_newHeads sample_slave @
       map (\<lambda>cs. oc_version (last cs)) [[sample_data 5 False, sample_data 5 True], [sample_data 6 True]]\<rparr>"
  by (rule slave_receives_versions)
    (simp_all add: sample_data_def sample_slave_def sv_new_def VERSION_INVALID_def)

section \<open>Synchronisation\<close>

text \<open>What unpacking a stream adds to the logs of the application and of the acknowledgements.\<close>

definition applied_as :: "odistream \<Rightarrow> applied" where
  "applied_as is = (if od_hasInstanceData is then ApplyInstanceData is else Unpack is)"

definition acks_of :: "versioned_slave \<Rightarrow> odistream \<Rightarrow> (uint64 \<times> uint32) list" where
  "acks_of s is =
     (let v = low128 (od_version is)
      in if v + sv_maxVersions s \<le> v then [] else [(v + sv_maxVersions s, oi_instanceID (sv_object s))])"

lemma unpackOneVersion_fields:
  "sv_unpackOneVersion is s =
   s\<lparr>sv_version := od_version is, sv_applied := sv_applied s @ [applied_as is], sv_acks := sv_acks s @ acks_of s is\<rparr>"
  by (simp add: sv_unpackOneVersion_def sv_sendAck_def applied_as_def acks_of_def Let_def)

lemma acks_of_frame [simp]:
  "acks_of (s\<lparr>sv_version := v, sv_applied := a, sv_acks := k\<rparr>) = acks_of s"
  "acks_of (s\<lparr>sv_queuedVersions := q\<rparr>) = acks_of s"
  by (simp_all add: acks_of_def fun_eq_iff Let_def)

lemma fold_unpack:
  "fold sv_unpackOneVersion q s =
   s\<lparr>sv_version := (if q = [] then sv_version s else od_version (last q)),
     sv_applied := sv_applied s @ map applied_as q, sv_acks := sv_acks s @ concat (map (acks_of s) q)\<rparr>"
  by (induction q arbitrary: s) (simp_all add: unpackOneVersion_fields)

text \<open>The queue holds the versions after the current one.\<close>

definition sv_run :: "versioned_slave \<Rightarrow> nat \<Rightarrow> bool" where
  "sv_run s b \<longleftrightarrow> version_run (map od_version (sv_queuedVersions s)) (Suc (unat (sv_version s))) b"

lemma unpackUntil_run:
  assumes "version_run (map od_version q) (Suc (unat (sv_version s))) b" and "sv_version s \<le> v"
  shows "sv_unpackUntil v q s =
    (if sv_version s = v \<or> unat v < b
     then Some ((fold sv_unpackOneVersion (take (unat v - unat (sv_version s)) q) s)
                 \<lparr>sv_queuedVersions := drop (unat v - unat (sv_version s)) q\<rparr>)
     else None)"
  using assms
proof (induction v q s rule: sv_unpackUntil.induct)
  case (1 v s)
  then have "b \<le> Suc (unat (sv_version s))" using version_run_length by fastforce
  with 1(2) show ?case by (auto simp: word_le_nat_alt word_less_nat_alt word_unat_eq_iff)
next
  case (2 v "is" q s)
  show ?case
  proof (cases "sv_version s < v")
    case False
    with 2 show ?thesis by simp
  next
    case True
    have hd: "unat (od_version is) = Suc (unat (sv_version s))" "Suc (unat (sv_version s)) < b"
      using version_run_hd 2(2) by fastforce+
    let ?s = "sv_unpackOneVersion is s"
    have "version_run (map od_version q) (Suc (unat (sv_version ?s))) b"
      using version_run_tl 2(2) hd by (fastforce simp: unpackOneVersion_fields)
    moreover have "sv_version ?s \<le> v"
      using True hd by (simp add: unpackOneVersion_fields word_le_nat_alt word_less_nat_alt)
    moreover have "sv_version ?s = v \<or> unat v < b \<longleftrightarrow> unat v < b"
      using hd by (auto simp: unpackOneVersion_fields)
    moreover have "unat v - unat (sv_version s) = Suc (unat v - unat (sv_version ?s))"
      using True hd by (simp add: unpackOneVersion_fields word_less_nat_alt)
    ultimately show ?thesis using 2(1) True by auto
  qed
qed

text \<open>C26 (slave_sync): synchronising to a version applies exactly the queued versions up to it, each once and in
  order, acknowledges each of them and leaves the later ones queued; the call blocks exactly when the version has not
  been received yet.\<close>

theorem slave_sync:
  assumes "sv_run s b" and "v \<noteq> VERSION_HEAD" and "v \<noteq> sv_version s"
    and "target = (if v = VERSION_NEXT then sv_version s + 1 else v)" and "sv_version s < target"
    and "n = unat target - unat (sv_version s)" and "new = take n (sv_queuedVersions s)"
  shows "sv_sync v s =
    (if unat target < b
     then Some (target, s\<lparr>sv_version := target, sv_queuedVersions := drop n (sv_queuedVersions s),
                          sv_applied := sv_applied s @ map applied_as new,
                          sv_acks := sv_acks s @ concat (map (acks_of s) new)\<rparr>)
     else None)"
proof -
  let ?q = "sv_queuedVersions s"
  have "sv_unpackUntil target ?q s =
    (if unat target < b then Some ((fold sv_unpackOneVersion new s)\<lparr>sv_queuedVersions := drop n ?q\<rparr>) else None)"
    using unpackUntil_run [of ?q s b target] assms by (auto simp: sv_run_def)
  moreover have "new \<noteq> [] \<and> od_version (last new) = target" if "unat target < b"
  proof -
    have run: "map (\<lambda>x. unat (od_version x)) ?q = [Suc (unat (sv_version s))..<b]"
      using assms(1) by (simp add: sv_run_def version_run_def comp_def)
    have n: "0 < n" using assms(5,6) by (simp add: word_less_nat_alt)
    have len: "n \<le> length ?q" using arg_cong [OF run, of length] that assms(5,6) by (simp add: word_less_nat_alt)
    have "unat (od_version (?q ! (n - 1))) = Suc (unat (sv_version s)) + (n - 1)"
      using arg_cong [OF run, of "\<lambda>xs. xs ! (n - 1)"] n len that assms(5,6) by (simp add: word_less_nat_alt)
    also have "\<dots> = unat target" using n assms(6) by simp
    finally have "od_version (?q ! (n - 1)) = target" by (simp add: word_unat_eq_iff)
    moreover have ne: "new \<noteq> []" using n len assms(7) by auto
    moreover have "last new = ?q ! (n - 1)" using n len assms(7) last_conv_nth [OF ne] by (simp add: min_absorb2)
    ultimately show ?thesis by simp
  qed
  ultimately show ?thesis
    using assms(2-4) by (simp add: sv_sync_def Let_def fold_unpack)
qed

theorem slave_sync_witness:
  "sv_sync VERSION_NEXT (sample_slave\<lparr>sv_version := 4, sv_queuedVersions := [group_stream [sample_data 5 True]]\<rparr>) =
   (if unat (5 :: uint128) < 6
    then Some (5, (sample_slave\<lparr>sv_version := 4, sv_queuedVersions := [group_stream [sample_data 5 True]]\<rparr>)
         \<lparr>sv_version := 5, sv_queuedVersions := drop 1 [group_stream [sample_data 5 True]],
          sv_applied := [] @ map applied_as [group_stream [sample_data 5 True]],
          sv_acks := [] @ concat (map (acks_of sample_slave) [group_stream [sample_data 5 True]])\<rparr>)
    else None)"
proof -
  let ?s = "sample_slave\<lparr>sv_version := 4, sv_queuedVersions := [group_stream [sample_data 5 True]]\<rparr>"
  have run: "sv_run ?s 6"
    by (simp add: sv_run_def version_run_def group_stream_def sample_data_def)
  have "acks_of ?s = acks_of sample_slave" by (simp add: acks_of_def fun_eq_iff Let_def)
  then show ?thesis
    using slave_sync [OF run, of VERSION_NEXT 5 1 "[group_stream [sample_data 5 True]]"]
    by (simp add: VERSION_NEXT_def VERSION_HEAD_def sample_slave_def sv_new_def)
qed

end
