(* ===== verification/Mapping_Protocol.thy ===== *)
theory Mapping_Protocol
  imports Master_Facts Slave_CM
begin

text \<open>
  Mapping an object end to end: the versions the master sends, received by the slave and merged
  with the versions of its instance cache (\<open>addInstanceDatas\<close>), and what the application of the
  map data and later synchronisations then apply.
\<close>

section \<open>Merging cached versions\<close>

lemma splitCache_filter:
  "\<forall>c \<in> set cache. od_isReady c \<Longrightarrow>
   sv_splitCache start oldest newest cache h t =
     (rev (filter (\<lambda>c. start \<le> od_version c \<and> od_version c < oldest) cache) @ h,
      t @ filter (\<lambda>c. start \<le> od_version c \<and> \<not> od_version c < oldest \<and> newest < od_version c) cache)"
  by (induction cache arbitrary: h t) (auto simp: Let_def not_less)

lemma fold_pushFront: "fold (\<lambda>c q. f c # q) (rev xs) q = map f xs @ q"
  by (induction xs arbitrary: q) simp_all

lemma fold_push: "fold (\<lambda>c q. q @ [f c]) xs q = q @ map f xs"
  by (induction xs arbitrary: q) simp_all

lemma addInstanceDatas_queue:
  assumes "\<forall>c \<in> set cache. od_isReady c" and "queued = sv_queuedVersions s"
    and "oldest = (if queued = [] then VERSION_NONE else od_version (hd queued))"
    and "newest = (if queued = [] then VERSION_NONE else od_version (last queued))"
  shows "sv_addInstanceDatas cache start s =
    s\<lparr>sv_queuedVersions :=
        map od_copy (filter (\<lambda>c. start \<le> od_version c \<and> od_version c < oldest) cache) @ queued @
        map od_copy (filter (\<lambda>c. start \<le> od_version c \<and> \<not> od_version c < oldest \<and> newest < od_version c) cache)\<rparr>"
  using assms by (simp add: sv_addInstanceDatas_def splitCache_filter fold_pushFront fold_push Let_def)

lemma unat_less128: "unat (v :: uint128) < 2 ^ 128"
  using unsigned_less [of v, where 'a = nat] by simp

lemma filter_interval: "filter (\<lambda>n. x \<le> n \<and> n < y) [a..<b] = [max a x..<min b y]"
proof (induction b)
  case (Suc b)
  consider "b < y" | "b = y" | "y < b" by linarith
  then show ?case using Suc by cases (auto simp: max_def)
qed simp

lemma map_filter_versions:
  assumes "version_run (map od_version cache) a b"
    and "\<And>c. Q c \<longleftrightarrow> x \<le> unat (od_version c) \<and> unat (od_version c) < y"
  shows "map (\<lambda>c. unat (od_version c)) (filter Q cache) = [max a x..<min b y]"
proof -
  have "map (\<lambda>c. unat (od_version c)) (filter Q cache) =
      filter (\<lambda>n. x \<le> n \<and> n < y) (map (\<lambda>c. unat (od_version c)) cache)"
    by (induction cache) (simp_all add: assms(2))
  then show ?thesis using assms(1) by (simp add: version_run_def comp_def filter_interval)
qed

text \<open>The interval arithmetic: what is not sent lies in the cached range.\<close>

lemma merge_intervals:
  fixes a b r h lo hi :: nat
  assumes "a < b" "r \<le> a" "b \<le> Suc h" "hi \<le> h"
    and "\<And>v. r \<le> v \<Longrightarrow> v \<le> h \<Longrightarrow> a \<le> v \<and> v < b \<or> lo \<le> v \<and> v \<le> hi"
  shows "[max lo r..<min (Suc hi) a] @ [a..<b] @ [max lo b..<Suc hi] = [r..<Suc h]"
proof -
  have front: "[max lo r..<min (Suc hi) a] = [r..<a]"
  proof (cases "r < a")
    case True
    then have "r \<le> a - 1" "a - 1 \<le> h" "r \<le> h" using assms(1,3) by auto
    with True assms(5) [of r] assms(5) [of "a - 1"] have "lo \<le> r" "a - 1 \<le> hi" by auto
    with True show ?thesis by (simp add: max_absorb2 min_absorb2)
  qed (use assms in auto)
  have rear: "[max lo b..<Suc hi] = [b..<Suc h]"
  proof (cases "b \<le> h")
    case True
    with assms(5) [of b] assms(5) [of h] assms(1-4) have "lo \<le> b" "hi = h" by auto
    then show ?thesis by (simp add: max_absorb2)
  qed (use assms in auto)
  have "[r..<a] @ [a..<b] = [r..<b]" "[r..<b] @ [b..<Suc h] = [r..<Suc h]"
    using assms(1-3) upt_add_eq_append [of r a "b - a"] upt_add_eq_append [of r b "Suc h - b"] by simp_all
  then show ?thesis unfolding front rear by (metis append_assoc)
qed

lemma addInstanceDatas_run:
  assumes "version_run (map od_version (sv_queuedVersions s)) a b"
    and "version_run (map od_version cache) (unat lo) (Suc (unat hi))" and "\<forall>c \<in> set cache. od_isReady c"
    and "1 \<le> unat r" "r \<le> head" "unat r \<le> a" "b \<le> Suc (unat head)" "hi \<le> head"
    and "\<forall>v. r \<le> v \<and> v \<le> head \<longrightarrow> a \<le> unat v \<and> unat v < b \<or> lo \<le> v \<and> v \<le> hi"
  shows "version_run (map od_version (sv_queuedVersions (sv_addInstanceDatas cache r s))) (unat r) (Suc (unat head))"
proof -
  let ?q = "sv_queuedVersions s"
  have cover: "a \<le> v \<and> v < b \<or> unat lo \<le> v \<and> v \<le> unat hi" if "unat r \<le> v" "v \<le> unat head" for v
  proof -
    have "unat (of_nat v :: uint128) = v"
      using that(2) unat_less128 [of head] by (simp add: unsigned_of_nat take_bit_nat_eq_self_iff)
    with that assms(9) [rule_format, of "of_nat v"] show ?thesis by (simp add: word_le_nat_alt)
  qed
  show ?thesis
  proof (cases "a < b")
    case True
    then have ne: "?q \<noteq> []" using version_run_length [OF assms(1)] by auto
    have oldest: "unat (od_version (hd ?q)) = a"
      using assms(1) ne version_run_hd [of "od_version (hd ?q)" "map od_version (tl ?q)" a b]
      by (cases ?q) auto
    have newest: "Suc (unat (od_version (last ?q))) = b"
      using assms(1) ne True version_run_last [of "map od_version ?q" a "b - 1"] by (simp add: last_map)
    let ?head = "\<lambda>c. r \<le> od_version c \<and> od_version c < od_version (hd ?q)"
    let ?tail = "\<lambda>c. r \<le> od_version c \<and> \<not> od_version c < od_version (hd ?q) \<and> od_version (last ?q) < od_version c"
    have "map (\<lambda>c. unat (od_version c)) (filter ?head cache) = [max (unat lo) (unat r)..<min (Suc (unat hi)) a]"
      by (rule map_filter_versions [OF assms(2)]) (simp add: word_le_nat_alt word_less_nat_alt oldest)
    moreover have "map (\<lambda>c. unat (od_version c)) (filter ?tail cache) =
        [max (unat lo) b..<min (Suc (unat hi)) (Suc (unat hi))]"
    proof -
      have "filter ?tail cache = filter (\<lambda>c. b \<le> unat (od_version c) \<and> unat (od_version c) < Suc (unat hi)) cache"
      proof (rule filter_cong [OF refl])
        fix c assume "c \<in> set cache"
        then have "unat (od_version c) \<in> set [unat lo..<Suc (unat hi)]"
          using assms(2) unfolding version_run_def by (metis image_eqI list.set_map map_map comp_apply)
        then show "?tail c \<longleftrightarrow> b \<le> unat (od_version c) \<and> unat (od_version c) < Suc (unat hi)"
          using newest oldest True assms(6) by (auto simp: word_le_nat_alt word_less_nat_alt)
      qed
      then show ?thesis by (simp only: map_filter_versions [OF assms(2) refl])
    qed
    ultimately show ?thesis
      using merge_intervals [OF True assms(6,7), of "unat hi" "unat lo"] cover assms(1,8) ne
      by (simp add: addInstanceDatas_queue [OF assms(3) refl refl refl] version_run_def comp_def word_le_nat_alt)
  next
    case False
    then have empty: "?q = []" using version_run_length [OF assms(1)] by simp
    have "unat lo \<le> unat r" "unat hi = unat head"
      using cover [of "unat r"] cover [of "unat head"] False assms(5,8) by (auto simp: word_le_nat_alt)
    moreover have "map (\<lambda>c. unat (od_version c))
        (filter (\<lambda>c. r \<le> od_version c \<and> \<not> od_version c < VERSION_NONE \<and> VERSION_NONE < od_version c) cache) =
        [max (unat lo) (unat r)..<min (Suc (unat hi)) (2 ^ 128)]"
      using unat_less128 assms(4)
      by (intro map_filter_versions [OF assms(2)]) (auto simp: word_le_nat_alt word_less_nat_alt VERSION_NONE_def)
    moreover have "Suc (unat hi) \<le> 2 ^ 128" using unat_less128 [of hi] by simp
    ultimately show ?thesis
      by (simp add: addInstanceDatas_queue [OF assms(3) refl refl refl] empty version_run_def comp_def
          VERSION_NONE_def max_absorb2 min_absorb1 del: upt_Suc)
  qed
qed

section \<open>The slave after mapping\<close>

definition messages :: "cm_event list \<Rightarrow> data_message list" where
  "messages events = concat (map (\<lambda>e. case e of InstanceMessage m \<Rightarrow> [m] | _ \<Rightarrow> []) events)"

lemma messages_mapping:
  "messages ([cm_sendMapSuccess o' c b] @ map InstanceMessage ms @ [cm_sendMapReply c' v r u b']) = ms"
  by (simp add: messages_def cm_sendMapSuccess_def cm_sendMapReply_def comp_def)

text \<open>A queue that starts with the mapped version: the map data is applied and the later versions stay queued.\<close>

lemma applyMapData_run:
  assumes "version_run (map od_version (sv_queuedVersions s)) (unat r) b" and "unat r < b"
  shows "\<exists>t. sv_applyMapData P r s = Some t \<and> sv_version t = r \<and> sv_run t b"
proof -
  obtain i q where q: "sv_queuedVersions s = i # q"
    using version_run_length [OF assms(1)] assms(2) by (cases "sv_queuedVersions s") auto
  with assms(1) have i: "od_version i = r" and run: "version_run (map od_version q) (Suc (unat r)) b"
    using version_run_hd version_run_tl by (fastforce simp: word_unat_eq_iff)+
  obtain x i' where data: "od_hasData P i = (x, i')" by fastforce
  have "od_version i' = r"
  proof -
    have "is_checkBuffer P od_getNextBuffer fuel j = Some (x, j') \<Longrightarrow> od_version j' = od_version j" for fuel j x j'
    proof (induction fuel arbitrary: j)
      case 0
      then show ?case by (simp add: is_checkBuffer.simps split: if_splits)
    next
      case (Suc fuel)
      have keep: "od_getNextBuffer k = (k', y) \<Longrightarrow> od_version k' = od_version k" for k k' y
        by (auto simp: od_getNextBuffer_def is_setSwapping_def Let_def split: prod.splits option.splits)
      from Suc.prems show ?case
        by (subst (asm) is_checkBuffer.simps)
          (auto split: if_splits option.splits prod.splits dest!: Suc.IH keep)
    qed
    moreover have "is_checkBuffer P od_getNextBuffer (Suc (od_nRemainingBuffers i)) i = Some (x, i')"
      using od.checkBuffer_terminates [of i "Suc (od_nRemainingBuffers i)" P] data
      by (auto simp: od_hasData_def is_hasData_def)
    ultimately show ?thesis using i by blast
  qed
  then show ?thesis
    using q i run data by (simp add: sv_applyMapData_def sv_run_def)
qed

lemma sync_not_blocked:
  assumes "sv_run s b" and "sv_version s \<le> v" and "unat v < b" and "v \<noteq> VERSION_HEAD" and "v \<noteq> VERSION_NEXT"
  shows "\<exists>s'. sv_sync v s = Some (v, s')"
proof (cases "sv_version s = v")
  case True
  then show ?thesis by (simp add: sv_sync_def)
next
  case False
  have "fold sv_unpackOneVersion (take (unat v - unat (sv_version s)) (sv_queuedVersions s)) s = t \<Longrightarrow> sv_version t = v" for t
  proof -
    let ?q = "sv_queuedVersions s" and ?n = "unat v - unat (sv_version s)"
    have n: "0 < ?n" using False assms(2) by (simp add: word_le_nat_alt word_unat_eq_iff)
    have run: "map (\<lambda>x. unat (od_version x)) ?q = [Suc (unat (sv_version s))..<b]"
      using assms(1) by (simp add: sv_run_def version_run_def comp_def)
    have "map (\<lambda>x. unat (od_version x)) (take ?n ?q) = [Suc (unat (sv_version s))..<Suc (unat v)]"
      using n assms(3) by (simp add: take_map [symmetric] run take_upt del: upt_Suc)
    moreover from arg_cong [OF this, of length] have ne: "take ?n ?q \<noteq> []" using n by (auto simp del: upt_Suc)
    ultimately have "unat (od_version (last (take ?n ?q))) = unat v"
      using last_map [OF ne, of "\<lambda>x. unat (od_version x)"] n by (simp add: last_upt del: upt_Suc)
    then show "fold sv_unpackOneVersion (take ?n ?q) s = t \<Longrightarrow> sv_version t = v"
      using ne by (auto simp: fold_unpack word_unat_eq_iff)
  qed
  then show ?thesis
    using unpackUntil_run [of "sv_queuedVersions s" s b v] assms False
    by (simp add: sv_run_def sv_sync_def)
qed

text \<open>C6 (mapping_complete): when a slave maps a buffered object at its oldest version or at a
  version up to the head, and the streams of its cache are complete and cover the range it announces
  without a gap, the versions the master sends and the versions of the slave's cache always
  complement each other: after merging them the slave applies the reply version, and can then
  synchronise to every later version up to the master's head version without blocking.\<close>

theorem mapping_complete:
  assumes "fm_reachable G P s" and "pression_ok P" and "unat (vm_version s) < 2 ^ 63"
    and "nd_getConnection True (mc_node command) = Some c" and "mc_requestedVersion command \<noteq> VERSION_NONE"
    and "mc_requestedVersion command = VERSION_OLDEST \<or> mc_requestedVersion command \<le> vm_version s"
    and "useCache \<longleftrightarrow> mc_useCache command \<and> mc_masterInstanceID command = oi_instanceID (vm_object s)"
    and "useCache \<longrightarrow> mc_minCachedVersion command \<le> mc_maxCachedVersion command \<and>
           mc_maxCachedVersion command \<le> vm_version s"
    and "fm_addSlave G P command s = (r, s', events)"
    and "useCache \<longrightarrow> (\<forall>st \<in> set cache. od_isReady st) \<and>
           version_run (map od_version cache) (unat (mc_minCachedVersion command)) (Suc (unat (mc_maxCachedVersion command)))"
    and "map od_version (sv_queuedVersions slave) = map dm_version (messages events)"
    and "last events = MapReply nodeID objectID reply requestID result releaseCache replyUseCache multicast"
  shows "\<exists>t. sv_applyMapData P reply (if replyUseCache then sv_addInstanceDatas cache reply slave else slave) = Some t \<and>
             sv_version t = reply \<and>
             (\<forall>v. reply \<le> v \<and> v \<le> vm_version s \<longrightarrow> (\<exists>t'. sv_sync v t = Some (v, t')))"
proof -
  have small: "unat (vm_version s) < 2 ^ 64" using assms(3) by simp
  obtain reply' ms a b where ev: "events = [cm_sendMapSuccess (vm_object s) command (ms \<noteq> [])] @ map InstanceMessage ms @
                       [cm_sendMapReply command reply' True useCache (ms \<noteq> [])]"
    and one: "1 \<le> unat reply'" and le: "reply' \<le> vm_version s" and run: "map (\<lambda>m. unat (dm_version m)) ms = [a..<b]"
    and ab: "unat reply' \<le> a" "b \<le> Suc (unat (vm_version s))"
    and cover: "\<forall>v. reply' \<le> v \<and> v \<le> vm_version s \<longrightarrow> a \<le> unat v \<and> unat v < b \<or>
               useCache \<and> mc_minCachedVersion command \<le> v \<and> v \<le> mc_maxCachedVersion command"
    using addSlave_facts [OF assms(1,2) small assms(4-9)] by blast
  have reply: "reply = reply'" "replyUseCache = useCache"
    using assms(12) ev by (simp_all add: cm_sendMapReply_def)
  have queue: "version_run (map od_version (sv_queuedVersions slave)) a b"
    using run assms(11) unfolding ev messages_mapping by (simp add: version_run_def comp_def)
  let ?t = "if useCache then sv_addInstanceDatas cache reply slave else slave"
  have merged: "version_run (map od_version (sv_queuedVersions ?t)) (unat reply) (Suc (unat (vm_version s)))"
  proof (cases useCache)
    case True
    with assms(8,10) cover show ?thesis
      using addInstanceDatas_run [OF queue _ _ one le ab, where lo = "mc_minCachedVersion command"
          and hi = "mc_maxCachedVersion command" and cache = cache] by (simp add: reply)
  next
    case False
    with cover le have "a \<le> unat reply'" "unat (vm_version s) < b" by auto
    with ab have "a = unat reply'" "b = Suc (unat (vm_version s))" by simp_all
    with False queue show ?thesis by (simp add: reply)
  qed
  have less: "unat reply < Suc (unat (vm_version s))" using le by (simp add: reply word_le_nat_alt)
  obtain t where t: "sv_applyMapData P reply ?t = Some t" "sv_version t = reply" "sv_run t (Suc (unat (vm_version s)))"
    using applyMapData_run [OF merged less] by blast
  have "\<exists>t'. sv_sync v t = Some (v, t')" if "reply \<le> v" "v \<le> vm_version s" for v
  proof -
    have "unat v < 2 ^ 63" "unat v < Suc (unat (vm_version s))"
      using that assms(3) by (simp_all add: word_le_nat_alt)
    moreover from this(1) have "v \<noteq> VERSION_HEAD" "v \<noteq> VERSION_NEXT"
      by (auto simp: VERSION_HEAD_def VERSION_NEXT_def)
    ultimately show ?thesis using sync_not_blocked [OF t(3)] that t(2) by blast
  qed
  with t show ?thesis by (auto simp: reply)
qed

definition cached_map_command :: master_cm_command where
  "cached_map_command =
     sample_map_command\<lparr>mc_useCache := True, mc_masterInstanceID := 2, mc_minCachedVersion := 1, mc_maxCachedVersion := 1\<rparr>"

text \<open>The master retains the versions 1 and 2, the cache of the slave holds version 1.\<close>

theorem mapping_complete_witness:
  "\<exists>master r s' events slave nodeID objectID reply requestID result releaseCache multicast t.
     fm_reachable sample_config sample_pression master \<and> vm_version master = 2 \<and>
     fm_addSlave sample_config sample_pression cached_map_command master = (r, s', events) \<and>
     last events = MapReply nodeID objectID reply requestID result releaseCache True multicast \<and>
     sv_applyMapData sample_pression reply
       (sv_addInstanceDatas [group_stream [sample_data 1 True]] reply slave) = Some t \<and>
     sv_version t = reply \<and>
     (\<forall>v. reply \<le> v \<and> v \<le> vm_version master \<longrightarrow> (\<exists>t'. sv_sync v t = Some (v, t')))"
proof -
  obtain master where reach: "fm_reachable sample_config sample_pression master" and head: "vm_version master = 2"
    and obj: "vm_object master = sample_object"
    using sample_master_two by blast
  obtain r s' events where
    add: "fm_addSlave sample_config sample_pression cached_map_command master = (r, s', events)"
    by (metis prod_cases3)
  note defs = cached_map_command_def sample_map_command_def sample_object_def
  have conn: "nd_getConnection True (mc_node cached_map_command) = Some (Unicast 4)"
    and req: "mc_requestedVersion cached_map_command \<noteq> VERSION_NONE"
      "mc_requestedVersion cached_map_command = VERSION_OLDEST \<or> mc_requestedVersion cached_map_command \<le> vm_version master"
    and cache: "True \<longleftrightarrow> mc_useCache cached_map_command \<and> mc_masterInstanceID cached_map_command = oi_instanceID (vm_object master)"
    and range: "True \<longrightarrow> mc_minCachedVersion cached_map_command \<le> mc_maxCachedVersion cached_map_command \<and>
           mc_maxCachedVersion cached_map_command \<le> vm_version master"
    by (simp_all add: defs nd_getConnection_def VERSION_OLDEST_def VERSION_NONE_def obj head)
  have streams: "True \<longrightarrow> (\<forall>st \<in> set [group_stream [sample_data 1 True]]. od_isReady st) \<and>
      version_run (map od_version [group_stream [sample_data 1 True]]) (unat (mc_minCachedVersion cached_map_command))
        (Suc (unat (mc_maxCachedVersion cached_map_command)))"
    by (simp add: defs group_stream_def sample_data_def od_isReady_def version_run_def VERSION_INVALID_def)
  have small: "unat (vm_version master) < 2 ^ 63" "unat (vm_version master) < 2 ^ 64" by (simp_all add: head)
  let ?slave = "sample_slave\<lparr>sv_queuedVersions := map (\<lambda>m. group_stream [sample_data (dm_version m) True]) (messages events)\<rparr>"
  have queue: "map od_version (sv_queuedVersions ?slave) = map dm_version (messages events)"
    by (simp add: comp_def group_stream_def sample_data_def)
  from addSlave_facts [OF reach sample_pression_ok small(2) conn req cache range add]
  obtain reply ms where "events = [cm_sendMapSuccess (vm_object master) cached_map_command (ms \<noteq> [])] @
      map InstanceMessage ms @ [cm_sendMapReply cached_map_command reply True True (ms \<noteq> [])]" by blast
  then obtain nodeID objectID requestID result releaseCache multicast where
    last: "last events = MapReply nodeID objectID reply requestID result releaseCache True multicast"
    unfolding cm_sendMapReply_def by auto
  from mapping_complete [OF reach sample_pression_ok small(1) conn req cache range add streams queue last, unfolded if_True]
    last add reach head
  show ?thesis by blast
qed

end
