(* ===== verification/RSP_Connection.thy ===== *)
theory RSP_Connection
  imports Collage_Prelude
begin

text \<open>
  The reliable stream protocol over UDP multicast, \<^verbatim>\<open>src/co/rspConnection.cpp\<close> and
  \<^verbatim>\<open>rspConnection.h\<close>: datagrams, the reader side kept per writer in a child connection, the
  writer side kept in the listening connection, and the protocol thread's handlers.

  The listening connection is the record \<open>rsp\<close>, a child the record \<open>rsp_child\<close>. A buffer owned by
  a queue is its datagram; a queue of empty buffers is their number. What is sent on the socket is
  the log \<open>rp_sent\<close>, the state of the timer is \<open>rp_timeout\<close>. The token bucket that delays a send
  (\<open>_waitWritable\<close>) and the floating point send rate it uses only change when datagrams are sent.
  Handlers that wait for the application to drain a queue are \<^term>\<open>None\<close>.
\<close>

section \<open>Datagrams\<close>

definition CO_RSP_PROTOCOL_VERSION :: uint16 where "CO_RSP_PROTOCOL_VERSION = 0"
definition CO_RSP_MAX_TIMEOUTS :: int where "CO_RSP_MAX_TIMEOUTS = 1000"
definition CO_RSP_MAX_NACKS :: nat where "CO_RSP_MAX_NACKS = 300"

text \<open>\<^verbatim>\<open>DatagramType\<close>.\<close>

definition DATA :: uint16 where "DATA = 0"
definition ACKREQ :: uint16 where "ACKREQ = 1"
definition NACK :: uint16 where "NACK = 2"
definition ACK :: uint16 where "ACK = 3"
definition ID_HELLO :: uint16 where "ID_HELLO = 4"
definition ID_HELLO_REPLY :: uint16 where "ID_HELLO_REPLY = 5"
definition ID_DENY :: uint16 where "ID_DENY = 6"
definition ID_CONFIRM :: uint16 where "ID_CONFIRM = 7"
definition ID_EXIT :: uint16 where "ID_EXIT = 8"
definition COUNTNODE :: uint16 where "COUNTNODE = 9"

lemmas datagram_types =
  DATA_def ACKREQ_def NACK_def ACK_def ID_HELLO_def ID_HELLO_REPLY_def ID_DENY_def ID_CONFIRM_def
  ID_EXIT_def COUNTNODE_def

record datagram_node =
  dn_type :: uint16
  dn_protocolVersion :: uint16
  dn_connectionID :: uint16
  dn_data :: uint16

record nack =
  nk_start :: uint16
  nk_end :: uint16

record datagram_data =
  dd_size :: uint16
  dd_writerID :: uint16
  dd_sequence :: uint16
  dd_payload :: bytes

datatype datagram =
    Data datagram_data
  | AckRequest uint16 uint16
  | Nack uint16 uint16 "nack list"
  | Ack uint16 uint16 uint16
  | DgNode datagram_node

text \<open>
  The memory of a datagram, which the sources write to and read from through pointers to the structs: \<open>encode\<close> is the layout of
  the structs, \<open>field16\<close> and the functions after it read the members a handler uses. The builds modelled are little-endian, so
  \<^verbatim>\<open>byteswap\<close> does nothing.
\<close>

definition encode_nack :: "nack \<Rightarrow> bytes" where
  "encode_nack n = le_bytes 2 (nk_start n) @ le_bytes 2 (nk_end n)"

fun encode :: "datagram \<Rightarrow> bytes" where
  "encode (Data d) =
     le_bytes 2 DATA @ le_bytes 2 (dd_size d) @ le_bytes 2 (dd_writerID d) @ le_bytes 2 (dd_sequence d) @ dd_payload d"
| "encode (AckRequest w s) = le_bytes 2 ACKREQ @ le_bytes 2 w @ le_bytes 2 s"
| "encode (Nack r w ns) =
     le_bytes 2 NACK @ le_bytes 2 r @ le_bytes 2 w @ le_bytes 2 (of_nat (length ns) :: uint16) @
     concat (map encode_nack ns)"
| "encode (Ack r w s) = le_bytes 2 ACK @ le_bytes 2 r @ le_bytes 2 w @ le_bytes 2 s"
| "encode (DgNode n) =
     le_bytes 2 (dn_type n) @ le_bytes 2 (dn_protocolVersion n) @ le_bytes 2 (dn_connectionID n) @
     le_bytes 2 (dn_data n)"

text \<open>The \<open>i\<close>th 16 bit field of the receive buffer.\<close>

definition field16 :: "nat \<Rightarrow> bytes \<Rightarrow> uint16" where
  "field16 i bs = of_le (take 2 (drop (2 * i) bs))"

definition decode_data :: "bytes \<Rightarrow> datagram_data" where
  "decode_data bs =
     \<lparr>dd_size = field16 1 bs, dd_writerID = field16 2 bs, dd_sequence = field16 3 bs, dd_payload = drop 8 bs\<rparr>"

definition decode_node :: "bytes \<Rightarrow> datagram_node" where
  "decode_node bs =
     \<lparr>dn_type = field16 0 bs, dn_protocolVersion = field16 1 bs, dn_connectionID = field16 2 bs,
      dn_data = field16 3 bs\<rparr>"

definition decode_nacks :: "bytes \<Rightarrow> nack list" where
  "decode_nacks bs =
     map (\<lambda>i. \<lparr>nk_start = field16 (4 + 2 * i) bs, nk_end = field16 (5 + 2 * i) bs\<rparr>) [0..<unat (field16 3 bs)]"

section \<open>State\<close>

record rsp_config =
  rc_numBuffers :: uint16
  rc_payloadSize :: uint32
  rc_ackFreq :: int
  rc_ackTimeout :: int

datatype rsp_state = STATE_CLOSED | STATE_CONNECTING | STATE_CONNECTED | STATE_LISTENING | STATE_CLOSING

text \<open>
  A child: \<open>ch_recvBuffers\<close> holds the datagrams received out of order, with \<^term>\<open>None\<close> for a null
  pointer, \<open>ch_appBuffers\<close> those ready to be read, with \<^term>\<open>None\<close> for the null buffer that
  tells the reader the connection is gone, and \<open>ch_threadBuffers\<close> is the number of empty buffers.
\<close>

record rsp_child =
  ch_id :: uint16
  ch_state :: rsp_state
  ch_sequence :: uint16
  ch_acked :: uint16
  ch_threadBuffers :: nat
  ch_recvBuffers :: "datagram_data option list"
  ch_appBuffers :: "datagram_data option list"
  ch_readBuffer :: "datagram_data option"
  ch_readBufferPos :: nat
  ch_event :: bool

text \<open>
  The listening connection. \<open>rp_appBuffers\<close> is the queue of empty write buffers, where \<^term>\<open>False\<close> is
  the null buffer that unlocks a writer; random identifiers come from the source \<open>rp_rng\<close>.
\<close>

record rsp =
  rp_id :: uint16
  rp_idAccepted :: bool
  rp_state :: rsp_state
  rp_timeouts :: int
  rp_sequence :: uint16
  rp_threadBuffers :: "datagram_data list"
  rp_appBuffers :: "bool list"
  rp_writeBuffers :: "datagram_data list"
  rp_repeatQueue :: "nack list"
  rp_children :: "rsp_child list"
  rp_newChildren :: "uint16 list"
  rp_event :: bool
  rp_timeout :: "int option"
  rp_clock :: int
  rp_stopped :: bool
  rp_rng :: "nat \<Rightarrow> uint16"
  rp_drawn :: nat
  rp_sent :: "datagram list"

definition rp_send :: "datagram \<Rightarrow> rsp \<Rightarrow> rsp" where
  "rp_send d s = s\<lparr>rp_sent := rp_sent s @ [d]\<rparr>"

definition rp_isListening :: "rsp \<Rightarrow> bool" where
  "rp_isListening s \<longleftrightarrow> rp_state s = STATE_LISTENING"

definition rp_findConnection :: "uint16 \<Rightarrow> rsp \<Rightarrow> rsp_child option" where
  "rp_findConnection i s = List.find (\<lambda>c. ch_id c = i) (rp_children s)"

text \<open>Changes to a child are seen through every pointer to it.\<close>

fun update_child :: "uint16 \<Rightarrow> rsp_child \<Rightarrow> rsp_child list \<Rightarrow> rsp_child list" where
  "update_child i c [] = []"
| "update_child i c (d # ds) = (if ch_id d = i then c # ds else d # update_child i c ds)"

definition rp_updateChild :: "uint16 \<Rightarrow> rsp_child \<Rightarrow> rsp \<Rightarrow> rsp" where
  "rp_updateChild i c s = s\<lparr>rp_children := update_child i c (rp_children s)\<rparr>"

section \<open>Sending\<close>

definition rp_sendCountNode :: "rsp \<Rightarrow> rsp" where
  "rp_sendCountNode s =
     (if rp_findConnection (rp_id s) s = None then s
      else rp_send (DgNode \<lparr>dn_type = COUNTNODE, dn_protocolVersion = CO_RSP_PROTOCOL_VERSION,
                            dn_connectionID = rp_id s, dn_data = of_nat (length (rp_children s))\<rparr>) s)"

definition rp_sendSimpleDatagram :: "uint16 \<Rightarrow> uint16 \<Rightarrow> rsp \<Rightarrow> rsp" where
  "rp_sendSimpleDatagram type i s =
     rp_send (DgNode \<lparr>dn_type = type, dn_protocolVersion = CO_RSP_PROTOCOL_VERSION, dn_connectionID = i,
                      dn_data = rp_sequence s\<rparr>) s"

definition rp_sendAck :: "uint16 \<Rightarrow> uint16 \<Rightarrow> rsp \<Rightarrow> rsp" where
  "rp_sendAck writerID sequence s = rp_send (Ack (rp_id s) writerID sequence) s"

definition rp_sendAckRequest :: "rsp \<Rightarrow> rsp" where
  "rp_sendAckRequest s = rp_send (AckRequest (rp_id s) (rp_sequence s - 1)) s"

text \<open>The inner loop of \<open>_addRepeat\<close>: extend the first overlapping request.\<close>

fun merge_repeat :: "nack \<Rightarrow> nack list \<Rightarrow> nack list option" where
  "merge_repeat n [] = None"
| "merge_repeat n (old # q) =
     (if nk_start old \<le> nk_end n \<and> nk_end old \<ge> nk_start n \<and> (nk_start old > nk_start n \<or> nk_end old < nk_end n)
      then Some (\<lparr>nk_start = (if nk_start old > nk_start n then nk_start n else nk_start old),
                  nk_end = (if nk_end old < nk_end n then nk_end n else nk_end old)\<rparr> # q)
      else map_option ((#) old) (merge_repeat n q))"

fun add_repeat :: "nack list \<Rightarrow> nack list \<Rightarrow> nack list" where
  "add_repeat [] q = q"
| "add_repeat (n # ns) q =
     add_repeat ns (case merge_repeat n q of None \<Rightarrow> q @ [n] | Some q' \<Rightarrow> q')"

definition rp_addRepeat :: "nack list \<Rightarrow> rsp \<Rightarrow> rsp" where
  "rp_addRepeat nacks s = s\<lparr>rp_repeatQueue := add_repeat nacks (rp_repeatQueue s)\<rparr>"

definition rp_sendNack :: "uint16 \<Rightarrow> nack list \<Rightarrow> rsp \<Rightarrow> rsp" where
  "rp_sendNack writerID nacks s =
     (if writerID = rp_id s then rp_addRepeat nacks s
      else rp_send (Nack (rp_id s) writerID nacks) s)"

section \<open>The reader side\<close>

text \<open>\<^verbatim>\<open>_newDataBuffer\<close>: whether there was an empty buffer.\<close>

definition ch_newDataBuffer :: "rsp_child \<Rightarrow> bool \<times> rsp_child" where
  "ch_newDataBuffer c =
     (if ch_threadBuffers c > 0 then (True, c\<lparr>ch_threadBuffers := ch_threadBuffers c - 1\<rparr>)
      else (False, c\<lparr>ch_event := ch_event c \<or> ch_appBuffers c \<noteq> []\<rparr>))"

text \<open>\<^verbatim>\<open>_pushDataBuffer\<close>, with the sequence numbers acknowledged on behalf of the parent.\<close>

definition ch_pushDataBuffer ::
  "rsp_config \<Rightarrow> uint16 \<Rightarrow> datagram_data \<Rightarrow> rsp_child \<Rightarrow> rsp_child \<times> uint16 list" where
  "ch_pushDataBuffer C parentID d c =
     (c\<lparr>ch_sequence := ch_sequence c + 1, ch_appBuffers := ch_appBuffers c @ [Some d]\<rparr>,
      if (uint (ch_sequence c) + uint parentID) mod rc_ackFreq C = 0 then [ch_sequence c] else [])"

text \<open>The loop over pending data, and the removal of the null pointer it stopped at.\<close>

fun ch_pushPending ::
  "rsp_config \<Rightarrow> uint16 \<Rightarrow> datagram_data option list \<Rightarrow> rsp_child \<Rightarrow> rsp_child \<times> uint16 list" where
  "ch_pushPending C parentID [] c = (c\<lparr>ch_recvBuffers := []\<rparr>, [])"
| "ch_pushPending C parentID (None # recv) c = (c\<lparr>ch_recvBuffers := recv\<rparr>, [])"
| "ch_pushPending C parentID (Some d # recv) c =
     (case ch_pushDataBuffer C parentID d c of
        (c, acks) \<Rightarrow> (case ch_pushPending C parentID recv c of (c, acks') \<Rightarrow> (c, acks @ acks')))"

text \<open>Whether a datagram is a repetition for another reader; the comparisons are on \<^verbatim>\<open>int\<close>.\<close>

definition ch_ignored :: "rsp_config \<Rightarrow> uint16 \<Rightarrow> uint16 \<Rightarrow> bool" where
  "ch_ignored C expected sequence \<longleftrightarrow>
     (expected > sequence \<and> 65535 - uint expected + uint sequence > uint (rc_numBuffers C)) \<or>
     (expected < sequence \<and> uint sequence - uint expected > uint (rc_numBuffers C))"

text \<open>The early nack for the datagrams missing before the one stored at index \<open>i\<close>.\<close>

fun last_received :: "datagram_data option list \<Rightarrow> nat \<Rightarrow> nat option" where
  "last_received recv 0 = (if recv ! 0 \<noteq> None then Some 0 else None)"
| "last_received recv (Suc i) = (if recv ! Suc i \<noteq> None then Some (Suc i) else last_received recv i)"

definition wrap_nack :: "nack \<Rightarrow> nack" where
  "wrap_nack n = (if nk_end n < nk_start n then n\<lparr>nk_end := - 1\<rparr> else n)"

definition early_nack :: "uint16 \<Rightarrow> uint16 \<Rightarrow> datagram_data option list \<Rightarrow> nat \<Rightarrow> nack list" where
  "early_nack expected sequence recv i =
     (let n = \<lparr>nk_start = expected, nk_end = sequence - 1\<rparr>
      in if i > 1 then
           (if recv ! (i - 1) \<noteq> None then []
            else (case last_received recv (i - 1) of
                    None \<Rightarrow> [wrap_nack n]
                  | Some j \<Rightarrow> [wrap_nack (n\<lparr>nk_start := expected + of_nat j\<rparr>)]))
         else [wrap_nack n])"

text \<open>\<^verbatim>\<open>_handleData\<close> on the child: its new state, the acknowledgements and the nack sent.\<close>

definition ch_handleData ::
  "rsp_config \<Rightarrow> uint16 \<Rightarrow> datagram_data \<Rightarrow> rsp_child \<Rightarrow> rsp_child \<times> uint16 list \<times> nack list" where
  "ch_handleData C parentID d c =
     (let sequence = dd_sequence d
      in if ch_sequence c = sequence then
           (case ch_newDataBuffer c of
              (False, c) \<Rightarrow> (c, [], [])
            | (True, c) \<Rightarrow>
                (case ch_pushDataBuffer C parentID d c of
                   (c, acks) \<Rightarrow>
                     (case ch_pushPending C parentID (ch_recvBuffers c) c of
                        (c, acks') \<Rightarrow> (c\<lparr>ch_event := True\<rparr>, acks @ acks', []))))
         else if ch_ignored C (ch_sequence c) sequence then (c, [], [])
         else
           (let size = unat (sequence - ch_sequence c); i = size - 1; recv = ch_recvBuffers c
            in if length recv \<ge> size \<and> recv ! i \<noteq> None then (c, [], [])
               else (case ch_newDataBuffer c of
                       (False, c) \<Rightarrow> (c, [], [])
                     | (True, c) \<Rightarrow>
                         (let recv = (recv @ replicate (size - length recv) None)[i := Some d]
                          in (c\<lparr>ch_recvBuffers := recv\<rparr>, [], early_nack (ch_sequence c) sequence recv i)))))"

definition rp_sendAcks :: "uint16 \<Rightarrow> uint16 list \<Rightarrow> rsp \<Rightarrow> rsp" where
  "rp_sendAcks writerID acks s = fold (rp_sendAck writerID) acks s"

definition rp_handleData :: "rsp_config \<Rightarrow> bytes \<Rightarrow> rsp \<Rightarrow> rsp" where
  "rp_handleData C packet s =
     (if length packet < 8 then s
      else
        (let d = decode_data packet; writerID = dd_writerID d
         in case rp_findConnection writerID s of
              None \<Rightarrow> s
            | Some c \<Rightarrow>
                (case ch_handleData C (rp_id s) d c of
                   (c, acks, nacks) \<Rightarrow>
                     (let s = rp_sendAcks writerID acks (rp_updateChild writerID c s)
                      in if nacks = [] then s else rp_sendNack writerID nacks s))))"

text \<open>
  \<^verbatim>\<open>_handleAckRequest\<close>: the loop that lists the missing datagrams, over the received buffers with
  the offset of the first one. The result is the closed nacks, the start of an open one unless the
  loop ran off the end while closing a nack, and whether it stopped before the end of the list.
\<close>

definition close_nack :: "uint16 \<Rightarrow> uint16 \<Rightarrow> nack list" where
  "close_nack start e =
     (if e < start then [\<lparr>nk_start = start, nk_end = - 1\<rparr>, \<lparr>nk_start = 0, nk_end = e\<rparr>]
      else [\<lparr>nk_start = start, nk_end = e\<rparr>])"

datatype nack_scan = Open uint16 | OpenAtEnd uint16 | Done

function nack_loop ::
  "uint16 \<Rightarrow> nat \<Rightarrow> datagram_data option list \<Rightarrow> nack list \<Rightarrow> uint16 \<Rightarrow> nack list \<times> nack_scan" where
  "nack_loop expected j recv nacks start =
     (if recv = [] then (nacks, OpenAtEnd start)
      else if length nacks \<ge> CO_RSP_MAX_NACKS - 2 then (nacks, Open start)
      else if hd recv = None then nack_loop expected (Suc j) (tl recv) nacks start
      else
        (let nacks = nacks @ close_nack start (expected + of_nat j);
             received = takeWhile (\<lambda>b. b \<noteq> None) recv;
             rest = dropWhile (\<lambda>b. b \<noteq> None) recv;
             j = j + length received
         in if rest = [] then (nacks, Done)
            else nack_loop expected (Suc j) (tl rest) nacks (expected + of_nat j + 1)))"
  by pat_completeness auto
termination
proof (relation "measure (\<lambda>(e, j, recv, ns, s). length recv)", goal_cases)
  case (3 expected j recv nacks start ns received rest j')
  then have "length (tl rest) < length recv"
    using length_dropWhile_le [of "\<lambda>b. b \<noteq> None" recv] by (cases recv) (auto simp: less_Suc_eq_le)
  then show ?case by simp
qed auto

declare nack_loop.simps [simp del]

text \<open>
  After the loop: a nack up to the requested sequence if the loop stopped early or closed no nack,
  else one from the last nack on if the request is not far ahead.
\<close>

definition nack_list :: "rsp_config \<Rightarrow> uint16 \<Rightarrow> uint16 \<Rightarrow> datagram_data option list \<Rightarrow> nack list" where
  "nack_list C expected reqID recv =
     (case nack_loop expected 0 recv [] expected of
        (nacks, Open start) \<Rightarrow> nacks @ close_nack start reqID
      | (nacks, scan) \<Rightarrow>
          if nacks = [] then close_nack expected reqID
          else if reqID - nk_end (last nacks) < rc_numBuffers C
          then nacks @ close_nack (nk_end (last nacks) + 1) reqID
          else nacks)"

text \<open>
  The nacks are written to an array of \<open>CO_RSP_MAX_NACKS\<close> elements on the stack, without a check:
  \<open>None\<close> stands for a write behind its end.
\<close>

definition missing_nacks :: "rsp_config \<Rightarrow> uint16 \<Rightarrow> uint16 \<Rightarrow> datagram_data option list \<Rightarrow> nack list option" where
  "missing_nacks C expected reqID recv =
     (let nacks = nack_list C expected reqID recv
      in if length nacks \<le> CO_RSP_MAX_NACKS then Some nacks else None)"

definition rp_handleAckRequest :: "rsp_config \<Rightarrow> bytes \<Rightarrow> rsp \<Rightarrow> rsp option" where
  "rp_handleAckRequest C packet s =
     (if length packet < 6 then Some s
      else
        (let writerID = field16 1 packet
         in case rp_findConnection writerID s of
              None \<Rightarrow> Some s
            | Some c \<Rightarrow>
                (let reqID = field16 2 packet; gotID = ch_sequence c - 1; distance = reqID - gotID
                 in if reqID = gotID \<or>
                       (gotID > reqID \<and> uint gotID - uint reqID \<le> uint (rc_numBuffers C)) \<or>
                       (gotID < reqID \<and> distance > rc_numBuffers C)
                    then Some (rp_sendAck (ch_id c) gotID s)
                    else map_option (\<lambda>nacks. rp_sendNack (ch_id c) nacks s)
                           (missing_nacks C (ch_sequence c) reqID (ch_recvBuffers c)))))"

section \<open>The writer side\<close>

text \<open>
  \<^verbatim>\<open>_finishWriteQueue\<close>: the acknowledged datagrams go to the own child, where they are read like
  those of any other writer, and their buffers become empty write buffers again. It waits for the
  reader of the own child if that has too few empty buffers; without an own child it would
  dereference a null pointer.
\<close>

definition ch_selfReceive :: "datagram_data list \<Rightarrow> rsp_child \<Rightarrow> rsp_child" where
  "ch_selfReceive ds c =
     (let sequence = ch_sequence c + of_nat (length ds)
      in c\<lparr>ch_threadBuffers := ch_threadBuffers c - length ds, ch_appBuffers := ch_appBuffers c @ map Some ds,
           ch_sequence := sequence, ch_event := ch_event c \<or> ds \<noteq> [], ch_acked := sequence - 1\<rparr>)"

definition rp_finishWriteQueue :: "uint16 \<Rightarrow> rsp \<Rightarrow> rsp option" where
  "rp_finishWriteQueue sequence s =
     (case rp_findConnection (rp_id s) s of
        None \<Rightarrow> None
      | Some c \<Rightarrow>
          (let size = unat (rp_sequence s - sequence - 1);
               n = length (rp_writeBuffers s) - size
           in if ch_threadBuffers c < n then None
              else Some ((rp_updateChild (rp_id s) (ch_selfReceive (take n (rp_writeBuffers s)) c) s)
                     \<lparr>rp_writeBuffers := drop n (rp_writeBuffers s),
                      rp_appBuffers := rp_appBuffers s @ replicate n True, rp_timeouts := 0\<rparr>)))"

definition rp_clearWriteQueues :: "rsp \<Rightarrow> rsp option" where
  "rp_clearWriteQueues s =
     rp_finishWriteQueue (rp_sequence s - 1)
       (s\<lparr>rp_writeBuffers := rp_writeBuffers s @ rp_threadBuffers s, rp_threadBuffers := []\<rparr>)"

text \<open>The loop that merges small datagrams: the merged one, the others left, and how many were merged.\<close>

fun merge_writes :: "rsp_config \<Rightarrow> datagram_data \<Rightarrow> datagram_data list \<Rightarrow> datagram_data \<times> datagram_data list \<times> nat" where
  "merge_writes C h [] = (h, [], 0)"
| "merge_writes C h (h2 # ds) =
     (if uint (dd_size h) < uint (rc_payloadSize C) \<and> \<not> uint (dd_size h) + uint (dd_size h2) > uint (rc_payloadSize C)
      then (case merge_writes C (h\<lparr>dd_size := dd_size h + dd_size h2,
                                   dd_payload := take (unat (dd_size h)) (dd_payload h) @
                                                 take (unat (dd_size h2)) (dd_payload h2)\<rparr>) ds of
              (h, ds, n) \<Rightarrow> (h, ds, Suc n))
      else (h, h2 # ds, 0))"

text \<open>
  \<^verbatim>\<open>_waitWritable\<close> waits until the bucket of the send rate has room for the datagram. Each reading of
  the clock resets it, so the time since the last reset counts from here on; the rate itself has no
  influence on what is sent.
\<close>

definition rp_waitWritable :: "rsp \<Rightarrow> rsp" where
  "rp_waitWritable s = s\<lparr>rp_clock := 0\<rparr>"

definition rp_writeData :: "rsp_config \<Rightarrow> rsp \<Rightarrow> rsp option" where
  "rp_writeData C s =
     (case rp_threadBuffers s of
        [] \<Rightarrow> Some s
      | h # ds \<Rightarrow>
          (case merge_writes C (h\<lparr>dd_sequence := rp_sequence s\<rparr>) ds of
             (h, ds, merged) \<Rightarrow>
               (let s = s\<lparr>rp_timeouts := 0, rp_threadBuffers := ds, rp_sequence := rp_sequence s + 1,
                          rp_appBuffers := rp_appBuffers s @ replicate merged True\<rparr>;
                    s = rp_send (Data h) (rp_waitWritable s);
                    s = s\<lparr>rp_writeBuffers := rp_writeBuffers s @ [h]\<rparr>
                in if length (rp_children s) = 1 then rp_finishWriteQueue (rp_sequence s - 1) s
                   else Some s)))"

text \<open>
  \<^verbatim>\<open>_repeatData\<close>: requests are taken from the front until one datagram has been sent again.
\<close>

function rp_repeatLoop :: "uint16 \<Rightarrow> datagram_data list \<Rightarrow> nack list \<Rightarrow> nack list \<times> datagram_data option" where
  "rp_repeatLoop sequence writeBuffers [] = ([], None)"
| "rp_repeatLoop sequence writeBuffers (request # q) =
     (let distance = unat (sequence - nk_start request);
          q' = (if nk_start request = nk_end request then q
                else request\<lparr>nk_start := nk_start request + 1\<rparr> # q)
      in if distance = 0 then rp_repeatLoop sequence writeBuffers q
         else if distance \<le> length writeBuffers
         then (q', Some (writeBuffers ! (length writeBuffers - distance)))
         else rp_repeatLoop sequence writeBuffers q')"
  by pat_completeness auto
termination
  by (relation "measure (\<lambda>(sequence, w, q). sum_list (map (\<lambda>n. Suc (unat (nk_end n - nk_start n))) q))")
     (auto simp: word_minus_Suc)

definition rp_repeatData :: "rsp \<Rightarrow> rsp" where
  "rp_repeatData s =
     (case rp_repeatLoop (rp_sequence s) (rp_writeBuffers s) (rp_repeatQueue s) of
        (q, sent) \<Rightarrow>
          (let s = s\<lparr>rp_timeouts := 0, rp_repeatQueue := q\<rparr>
           in case sent of None \<Rightarrow> s | Some d \<Rightarrow> rp_send (Data d) (rp_waitWritable s)))"

definition rp_setTimeout :: "int \<Rightarrow> rsp \<Rightarrow> rsp" where
  "rp_setTimeout t s = s\<lparr>rp_timeout := Some t\<rparr>"

text \<open>\<^verbatim>\<open>_processOutgoing\<close>; \<open>rp_clock\<close> is the time since the clock was last reset.\<close>

definition rp_processOutgoing :: "rsp_config \<Rightarrow> rsp \<Rightarrow> rsp option" where
  "rp_processOutgoing C s =
     (case (if rp_repeatQueue s \<noteq> [] then Some (rp_repeatData s) else rp_writeData C s) of
        None \<Rightarrow> None
      | Some s \<Rightarrow>
          Some (if rp_threadBuffers s \<noteq> [] \<or> rp_repeatQueue s \<noteq> [] then rp_setTimeout 0 s
                else if rp_writeBuffers s = [] then s\<lparr>rp_timeouts := 0, rp_timeout := None\<rparr>
                else
                  (let left = rc_ackTimeout C - rp_clock s
                   in if left > 0 then rp_setTimeout left s
                      else
                        (let s = s\<lparr>rp_clock := 0, rp_timeouts := rp_timeouts s + 1\<rparr>;
                             s = (if rp_timeouts s < CO_RSP_MAX_TIMEOUTS then rp_sendAckRequest s else s)
                         in rp_setTimeout (rc_ackTimeout C) s))))"

text \<open>The loop of \<^verbatim>\<open>_handleAck\<close> over the children: the oldest acknowledgement of the other ones.\<close>

definition min_acked :: "rsp_config \<Rightarrow> uint16 \<Rightarrow> rsp_child list \<Rightarrow> uint16 \<Rightarrow> uint16" where
  "min_acked C own children sequence =
     fold (\<lambda>child acked.
       if ch_id child \<noteq> own \<and> ch_acked child - acked > rc_numBuffers C then ch_acked child else acked)
     children sequence"

definition rp_handleAck :: "rsp_config \<Rightarrow> bytes \<Rightarrow> rsp \<Rightarrow> rsp option" where
  "rp_handleAck C packet s =
     (let readerID = field16 1 packet; writerID = field16 2 packet; sequence = field16 3 packet
      in if length packet < 8 \<or> writerID \<noteq> rp_id s then Some s
         else (case rp_findConnection readerID s of
                 None \<Rightarrow> Some s
               | Some c \<Rightarrow>
                   if ch_acked c \<ge> sequence \<and> uint (ch_acked c) - uint sequence \<le> uint (rc_numBuffers C) then Some s
                   else
                     (let s = (rp_updateChild readerID (c\<lparr>ch_acked := sequence\<rparr>) s)\<lparr>rp_timeouts := 0\<rparr>;
                          acked = min_acked C (rp_id s) (rp_children s) sequence
                      in case rp_findConnection (rp_id s) s of
                           None \<Rightarrow> None
                         | Some self \<Rightarrow>
                             if acked - ch_acked self \<le> rc_numBuffers C then rp_finishWriteQueue acked s
                             else Some s)))"

text \<open>
  \<^verbatim>\<open>_handleNack\<close> does not look at the size of the packet: \<open>memory\<close> is the packet followed by what
  is behind it in the receive buffer and in memory.
\<close>

definition rp_handleNack :: "bytes \<Rightarrow> rsp \<Rightarrow> rsp" where
  "rp_handleNack memory s =
     (if rp_id s \<noteq> field16 2 memory then s
      else (case rp_findConnection (field16 1 memory) s of
              None \<Rightarrow> s
            | Some c \<Rightarrow> rp_addRepeat (decode_nacks memory) (s\<lparr>rp_timeouts := 0\<rparr>)))"

section \<open>Identifiers and membership\<close>

definition rp_buildNewID :: "rsp \<Rightarrow> rsp" where
  "rp_buildNewID s = s\<lparr>rp_id := rp_rng s (rp_drawn s), rp_drawn := Suc (rp_drawn s)\<rparr>"

definition rp_checkNewID :: "uint16 \<Rightarrow> rsp \<Rightarrow> rsp" where
  "rp_checkNewID i s =
     (if i = rp_id s \<or> rp_findConnection i s \<noteq> None then rp_sendSimpleDatagram ID_DENY (rp_id s) s
      else rp_sendSimpleDatagram ID_HELLO_REPLY (rp_id s) s)"

definition ch_new :: "rsp_config \<Rightarrow> uint16 \<Rightarrow> uint16 \<Rightarrow> rsp_child" where
  "ch_new C i sequence =
     \<lparr>ch_id = i, ch_state = STATE_CONNECTED, ch_sequence = sequence, ch_acked = - 1,
      ch_threadBuffers = unat (rc_numBuffers C), ch_recvBuffers = [], ch_appBuffers = [], ch_readBuffer = None,
      ch_readBufferPos = 0, ch_event = False\<rparr>"

definition rp_addConnection :: "rsp_config \<Rightarrow> uint16 \<Rightarrow> uint16 \<Rightarrow> rsp \<Rightarrow> rsp" where
  "rp_addConnection C i sequence s =
     (if rp_findConnection i s \<noteq> None then s
      else
        (let s = rp_sendCountNode (s\<lparr>rp_children := rp_children s @ [ch_new C i sequence]\<rparr>)
         in s\<lparr>rp_newChildren := rp_newChildren s @ [i], rp_event := True\<rparr>))"

text \<open>A child that is removed stays with its reader, which finds the null buffer: the second result.\<close>

definition ch_disconnect :: "rsp_child \<Rightarrow> rsp_child" where
  "ch_disconnect c = c\<lparr>ch_appBuffers := ch_appBuffers c @ [None], ch_event := True\<rparr>"

definition rp_removeConnection :: "uint16 \<Rightarrow> rsp \<Rightarrow> rsp \<times> rsp_child list" where
  "rp_removeConnection i s =
     (if i = rp_id s then (s, [])
      else
        (let removed = (case rp_findConnection i s of None \<Rightarrow> [] | Some c \<Rightarrow> [ch_disconnect c]);
             children = takeWhile (\<lambda>c. ch_id c \<noteq> i) (rp_children s) @
                        tl (dropWhile (\<lambda>c. ch_id c \<noteq> i) (rp_children s))
         in (rp_sendCountNode (s\<lparr>rp_children := children\<rparr>), removed)))"

text \<open>\<^verbatim>\<open>acceptSync\<close>: the identifier of the accepted child.\<close>

definition rp_acceptSync :: "rsp \<Rightarrow> uint16 option \<times> rsp" where
  "rp_acceptSync s =
     (if \<not> rp_isListening s \<or> rp_newChildren s = [] then (None, s)
      else
        (let s' = s\<lparr>rp_newChildren := butlast (rp_newChildren s)\<rparr>
         in (Some (last (rp_newChildren s)), s'\<lparr>rp_event := rp_newChildren s' \<noteq> []\<rparr>)))"

definition rp_getDatagramNode :: "bytes \<Rightarrow> datagram_node option" where
  "rp_getDatagramNode packet =
     (if length packet < 8 then None
      else if dn_protocolVersion (decode_node packet) \<noteq> CO_RSP_PROTOCOL_VERSION then None
      else Some (decode_node packet))"

definition rp_handleAcceptIDData :: "rsp_config \<Rightarrow> bytes \<Rightarrow> rsp \<Rightarrow> rsp" where
  "rp_handleAcceptIDData C packet s =
     (case rp_getDatagramNode packet of
        None \<Rightarrow> s
      | Some n \<Rightarrow>
          if dn_type n = ID_HELLO then rp_checkNewID (dn_connectionID n) s
          else if dn_type n = ID_HELLO_REPLY then rp_addConnection C (dn_connectionID n) (dn_data n) s
          else if dn_type n = ID_DENY then
            (if dn_connectionID n = rp_id s
             then (let s = rp_buildNewID (s\<lparr>rp_timeouts := 0\<rparr>) in rp_sendSimpleDatagram ID_HELLO (rp_id s) s)
             else s)
          else if dn_type n = ID_EXIT then fst (rp_removeConnection (dn_connectionID n) s)
          else s)"

definition rp_handleInitData :: "rsp_config \<Rightarrow> bytes \<Rightarrow> bool \<Rightarrow> rsp \<Rightarrow> rsp" where
  "rp_handleInitData C packet connected s =
     (case rp_getDatagramNode packet of
        None \<Rightarrow> s
      | Some n \<Rightarrow>
          (let s0 = (if connected then s else s\<lparr>rp_timeouts := 0\<rparr>)
           in if dn_type n = ID_HELLO then rp_checkNewID (dn_connectionID n) s0
              else if dn_type n = ID_CONFIRM then rp_addConnection C (dn_connectionID n) (dn_data n) s0
              else if dn_type n = COUNTNODE then s
              else if dn_type n = ID_HELLO_REPLY then rp_addConnection C (dn_connectionID n) (dn_data n) s
              else if dn_type n = ID_EXIT then fst (rp_removeConnection (dn_connectionID n) s)
              else s))"

section \<open>The protocol thread\<close>

text \<open>\<open>stale\<close> is what lies behind the packet in the receive buffer.\<close>

definition rp_handleConnectedData :: "rsp_config \<Rightarrow> bytes \<Rightarrow> bytes \<Rightarrow> rsp \<Rightarrow> rsp option" where
  "rp_handleConnectedData C packet stale s =
     (if length packet < 2 then Some s
      else
        (let type = field16 0 packet
         in if type = DATA then Some (rp_handleData C packet s)
            else if type = ACK then rp_handleAck C packet s
            else if type = NACK then Some (rp_handleNack (packet @ stale) s)
            else if type = ACKREQ then rp_handleAckRequest C packet s
            else if type \<in> {ID_HELLO, ID_HELLO_REPLY, ID_CONFIRM, ID_EXIT, ID_DENY, COUNTNODE}
            then Some (rp_handleInitData C packet True s)
            else Some s))"

definition rp_handlePacket :: "rsp_config \<Rightarrow> bytes \<Rightarrow> bytes \<Rightarrow> rsp \<Rightarrow> rsp option" where
  "rp_handlePacket C packet stale s =
     (if rp_isListening s then
        (case rp_handleConnectedData C packet stale s of
           None \<Rightarrow> None
         | Some s \<Rightarrow> if rp_isListening s then rp_processOutgoing C s else Some (s\<lparr>rp_stopped := True\<rparr>))
      else if length packet \<ge> 8 then
        Some (if rp_idAccepted s then rp_handleInitData C packet False s else rp_handleAcceptIDData C packet s)
      else Some s)"

definition rp_handleAcceptIDTimeout :: "rsp_config \<Rightarrow> rsp \<Rightarrow> rsp" where
  "rp_handleAcceptIDTimeout C s =
     (let s = s\<lparr>rp_timeouts := rp_timeouts s + 1\<rparr>
      in rp_setTimeout 10
           (if rp_timeouts s < 20 then rp_sendSimpleDatagram ID_HELLO (rp_id s) s
            else
              (let s = rp_sendSimpleDatagram ID_CONFIRM (rp_id s) s;
                   s = rp_addConnection C (rp_id s) (rp_sequence s) s
               in rp_sendCountNode (s\<lparr>rp_idAccepted := True, rp_timeouts := 0\<rparr>))))"

definition rp_handleInitTimeout :: "rsp \<Rightarrow> rsp" where
  "rp_handleInitTimeout s =
     (let s = s\<lparr>rp_timeouts := rp_timeouts s + 1\<rparr>
      in rp_setTimeout 10
           (if rp_timeouts s < 20 then rp_sendCountNode s
            else s\<lparr>rp_state := STATE_LISTENING, rp_timeouts := 0, rp_stopped := True\<rparr>))"

text \<open>
  The children that have not acknowledged the last datagram are removed when there were too many
  timeouts; the comparisons are on \<^verbatim>\<open>int\<close>.
\<close>

definition ch_alive :: "rsp_config \<Rightarrow> rsp \<Rightarrow> rsp_child \<Rightarrow> bool" where
  "ch_alive C s c \<longleftrightarrow>
     uint (ch_acked c) \<ge> uint (rp_sequence s) - uint (rc_numBuffers C) \<and> ch_id c \<noteq> rp_id s"

definition rp_removeFailed :: "rsp_child \<Rightarrow> rsp \<Rightarrow> rsp" where
  "rp_removeFailed child s =
     (if uint (ch_acked child) < uint (rp_sequence s) - 1 \<and> rp_id s \<noteq> ch_id child
      then fst (rp_removeConnection (ch_id child) (rp_sendSimpleDatagram ID_EXIT (ch_id child) s))
      else rp_updateChild (ch_id child)
             (child\<lparr>ch_acked := rp_sequence s - of_nat (length (rp_writeBuffers s))\<rparr>) s)"

definition rp_handleConnectedTimeout :: "rsp_config \<Rightarrow> rsp \<Rightarrow> rsp option" where
  "rp_handleConnectedTimeout C s =
     (if \<not> rp_isListening s then map_option (\<lambda>s. s\<lparr>rp_stopped := True\<rparr>) (rp_clearWriteQueues s)
      else (case rp_processOutgoing C s of
              None \<Rightarrow> None
            | Some s \<Rightarrow>
                if rp_timeouts s < CO_RSP_MAX_TIMEOUTS then Some s
                else if list_all (\<lambda>c. \<not> ch_alive C s c) (rp_children s) then
                  (let s = rp_sendSimpleDatagram ID_EXIT (rp_id s) s;
                       s = s\<lparr>rp_appBuffers := False # rp_appBuffers s,
                             rp_children := map (\<lambda>c. c\<lparr>ch_state := STATE_CLOSING,
                                                       ch_appBuffers := ch_appBuffers c @ [None]\<rparr>) (rp_children s)\<rparr>
                   in map_option (\<lambda>s. s\<lparr>rp_stopped := True\<rparr>) (rp_clearWriteQueues s))
                else Some ((fold rp_removeFailed (rp_children s) s)\<lparr>rp_timeouts := 0\<rparr>)))"

definition rp_handleTimeout :: "rsp_config \<Rightarrow> rsp \<Rightarrow> rsp option" where
  "rp_handleTimeout C s =
     (if rp_isListening s then rp_handleConnectedTimeout C s
      else if rp_idAccepted s then Some (rp_handleInitTimeout s)
      else Some (rp_handleAcceptIDTimeout C s))"

definition rp_initThread :: "rsp \<Rightarrow> rsp" where
  "rp_initThread s = rp_setTimeout 10 (rp_sendSimpleDatagram ID_HELLO (rp_id s) (s\<lparr>rp_timeouts := 0\<rparr>))"

definition rp_runThread :: "rsp \<Rightarrow> rsp" where
  "rp_runThread s = s\<lparr>rp_stopped := False\<rparr>"

section \<open>The application side\<close>

text \<open>
  \<^verbatim>\<open>write\<close>: the data is cut into datagrams, one per empty write buffer. An empty queue makes it wait;
  a null buffer makes it close the connection and fail, which is \<^term>\<open>False\<close> in the result.
\<close>

fun rp_writeLoop :: "nat \<Rightarrow> rsp_config \<Rightarrow> bytes \<Rightarrow> rsp \<Rightarrow> (bool \<times> rsp) option" where
  "rp_writeLoop 0 C bs s = Some (True, s)"
| "rp_writeLoop (Suc n) C bs s =
     (let packetSize = min (length bs) (unat (rc_payloadSize C))
      in case rp_appBuffers s of
           [] \<Rightarrow> None
         | False # _ \<Rightarrow> Some (False, s\<lparr>rp_appBuffers := tl (rp_appBuffers s)\<rparr>)
         | True # rest \<Rightarrow>
             rp_writeLoop n C (drop packetSize bs)
               (s\<lparr>rp_appBuffers := rest,
                  rp_threadBuffers := rp_threadBuffers s @
                    [\<lparr>dd_size = of_nat packetSize, dd_writerID = rp_id s, dd_sequence = 0,
                      dd_payload = take packetSize bs\<rparr>]\<rparr>))"

definition rp_nDatagrams :: "rsp_config \<Rightarrow> bytes \<Rightarrow> nat" where
  "rp_nDatagrams C bs =
     (let p = unat (rc_payloadSize C); n = length bs div p in if n * p \<noteq> length bs then Suc n else n)"

definition rp_write :: "rsp_config \<Rightarrow> bytes \<Rightarrow> rsp \<Rightarrow> (int \<times> rsp) option" where
  "rp_write C bs s =
     (case rp_writeLoop (rp_nDatagrams C bs) C bs s of
        None \<Rightarrow> None
      | Some (False, s) \<Rightarrow> Some (- 1, s)
      | Some (True, s) \<Rightarrow> Some (int (length bs), s))"

text \<open>
  \<^verbatim>\<open>readSync\<close> on a child: the bytes read, or \<^term>\<open>None\<close> while it waits for more data. A null buffer
  ends the loop.
\<close>

function ch_readLoop :: "nat \<Rightarrow> bytes \<Rightarrow> rsp_child \<Rightarrow> (bytes \<times> bool \<times> rsp_child) option" where
  "ch_readLoop bytesLeft acc c =
     (if bytesLeft = 0 then Some (acc, True, c)
      else (case ch_readBuffer c of
              None \<Rightarrow>
                (case ch_appBuffers c of
                   [] \<Rightarrow> None
                 | None # rest \<Rightarrow> Some (acc, False, c\<lparr>ch_appBuffers := rest\<rparr>)
                 | Some d # rest \<Rightarrow> ch_readLoop bytesLeft acc (c\<lparr>ch_appBuffers := rest, ch_readBuffer := Some d\<rparr>))
            | Some d \<Rightarrow>
                (let n = min bytesLeft (unat (dd_size d) - ch_readBufferPos c);
                     acc = acc @ take n (drop (ch_readBufferPos c) (dd_payload d))
                 in if ch_readBufferPos c + n \<ge> unat (dd_size d)
                    then ch_readLoop (bytesLeft - n) acc
                           (c\<lparr>ch_readBuffer := None, ch_readBufferPos := 0,
                              ch_threadBuffers := Suc (ch_threadBuffers c)\<rparr>)
                    else Some (acc, True, c\<lparr>ch_readBufferPos := ch_readBufferPos c + n\<rparr>))))"
  by pat_completeness auto
termination
  by (relation "measure (\<lambda>(n, acc, c). 2 * length (ch_appBuffers c) + (if ch_readBuffer c = None then 0 else 1))")
     auto

declare ch_readLoop.simps [simp del]

definition ch_readSync :: "nat \<Rightarrow> rsp_child \<Rightarrow> (int \<times> bytes \<times> rsp_child) option" where
  "ch_readSync n c =
     (if ch_state c \<noteq> STATE_CONNECTED then Some (- 1, [], c)
      else (case ch_readLoop n [] c of
              None \<Rightarrow> None
            | Some (acc, False, c) \<Rightarrow> Some (if acc = [] then - 1 else int (length acc), acc, c\<lparr>ch_state := STATE_CLOSED\<rparr>)
            | Some (acc, True, c) \<Rightarrow>
                Some (int n, acc, c\<lparr>ch_event := ch_readBuffer c \<noteq> None \<or> ch_appBuffers c \<noteq> []\<rparr>)))"

end
