(* ===== verification/RSP_Facts.thy ===== *)
theory RSP_Facts
  imports RSP_Connection
begin

text \<open>
  Properties of the multicast protocol: datagrams survive the wire, a reader delivers the byte stream
  of a writer in order and exactly once whatever the network loses, repeats or reorders, and a writer
  keeps every datagram until all readers have acknowledged it.
\<close>

section \<open>Datagrams on the wire\<close>

lemma of_le_bytes16 [simp]: "of_le (le_bytes 2 w) = (w :: uint16)"
  by (rule of_le_bytes) simp

lemma length_le2 [simp]: "length (le_bytes 2 w) = 2" by simp

lemma field16_0 [simp]: "field16 0 (le_bytes 2 w @ bs) = w"
  by (simp add: field16_def)

lemma field16_skip: "field16 (Suc i) (le_bytes 2 v @ bs) = field16 i bs"
  by (simp add: field16_def)

lemma field16_fields [simp]:
  "field16 (Suc 0) (le_bytes 2 a @ le_bytes 2 b @ bs) = b"
  "field16 2 (le_bytes 2 a @ le_bytes 2 b @ le_bytes 2 c @ bs) = c"
  "field16 3 (le_bytes 2 a @ le_bytes 2 b @ le_bytes 2 c @ le_bytes 2 d @ bs) = d"
  "field16 2 (le_bytes 2 a @ le_bytes 2 b @ le_bytes 2 c) = c"
  "field16 3 (le_bytes 2 a @ le_bytes 2 b @ le_bytes 2 c @ le_bytes 2 d) = d"
  by (simp_all add: field16_def)

lemma field16_nacks:
  "i < length ns \<Longrightarrow> field16 (2 * i) (concat (map encode_nack ns) @ bs) = nk_start (ns ! i) \<and>
                    field16 (Suc (2 * i)) (concat (map encode_nack ns) @ bs) = nk_end (ns ! i)"
proof (induction ns arbitrary: i)
  case (Cons n ns)
  show ?case
  proof (cases i)
    case 0
    then show ?thesis by (simp add: encode_nack_def field16_skip)
  next
    case (Suc j)
    with Cons show ?thesis by (simp add: encode_nack_def field16_skip)
  qed
qed simp

lemma decode_nacks_encode:
  assumes "length ns < 2 ^ 16"
  shows "decode_nacks (encode (Nack r w ns) @ stale) = ns"
proof (rule nth_equalityI)
  have count: "unat (field16 3 (encode (Nack r w ns) @ stale)) = length ns"
    using assms by (simp add: unsigned_of_nat take_bit_nat_eq_self_iff)
  then show "length (decode_nacks (encode (Nack r w ns) @ stale)) = length ns" by (simp add: decode_nacks_def)
  fix i assume "i < length (decode_nacks (encode (Nack r w ns) @ stale))"
  then have i: "i < length ns" using count by (simp add: decode_nacks_def)
  have four: "4 + k = Suc (Suc (Suc (Suc k)))" "5 + k = Suc (Suc (Suc (Suc (Suc k))))" for k by simp_all
  show "decode_nacks (encode (Nack r w ns) @ stale) ! i = ns ! i"
    using i count field16_nacks [OF i, of stale]
    by (simp add: decode_nacks_def four field16_skip)
qed

section \<open>The reader delivers the stream in order\<close>

text \<open>
  A writer's stream: the \<open>n\<close>th datagram has sequence number \<open>n\<close> modulo \<open>2 ^ 16\<close> and its size field is the
  length of its payload.
\<close>

definition stream_ok :: "(nat \<Rightarrow> datagram_data) \<Rightarrow> bool" where
  "stream_ok f \<longleftrightarrow> (\<forall>n. dd_sequence (f n) = of_nat n \<and> unat (dd_size (f n)) = length (dd_payload (f n)))"

definition stream_bytes :: "(nat \<Rightarrow> datagram_data) \<Rightarrow> nat \<Rightarrow> nat \<Rightarrow> bytes" where
  "stream_bytes f a b = concat (map (\<lambda>n. dd_payload (f n)) [a..<b])"

text \<open>
  The life of a child: any datagram of the stream may arrive at any time and any number of times, as
  long as it is not older than the window of 16 bit sequence numbers allows; the application may read
  at any time. \<open>k\<close> is the number of the next datagram to deliver, \<open>out\<close> what the application has read.
\<close>

inductive rx :: "rsp_config \<Rightarrow> uint16 \<Rightarrow> (nat \<Rightarrow> datagram_data) \<Rightarrow> nat \<Rightarrow> rsp_child \<Rightarrow> nat \<Rightarrow> bytes \<Rightarrow> bool"
  for C p f k0 where
  init: "rx C p f k0 (ch_new C i (of_nat k0)) k0 []"
| data: "rx C p f k0 c k out \<Longrightarrow> k + unat (rc_numBuffers C) < n + 65535 \<Longrightarrow> n < k + 65536 \<Longrightarrow>
    ch_handleData C p (f n) c = (c', acks, nacks) \<Longrightarrow>
    rx C p f k0 c' (k + length (ch_appBuffers c') - length (ch_appBuffers c)) out"
| read: "rx C p f k0 c k out \<Longrightarrow> ch_readSync m c = Some (r, bs, c') \<Longrightarrow> rx C p f k0 c' k (out @ bs)"

definition pending_ok :: "(nat \<Rightarrow> datagram_data) \<Rightarrow> nat \<Rightarrow> datagram_data option list \<Rightarrow> bool" where
  "pending_ok f k recv \<longleftrightarrow> (\<forall>i < length recv. recv ! i = None \<or> recv ! i = Some (f (k + i)))"

definition held :: "datagram_data option list \<Rightarrow> nat" where
  "held recv = length (filter (\<lambda>b. b \<noteq> None) recv)"

text \<open>The queue of the application and what it has read make up the stream from \<open>k0\<close> to \<open>k\<close>.\<close>

definition app_inv ::
  "(nat \<Rightarrow> datagram_data) \<Rightarrow> nat \<Rightarrow> datagram_data option list \<Rightarrow> datagram_data option \<Rightarrow> nat \<Rightarrow> nat \<Rightarrow> bytes \<Rightarrow> bool" where
  "app_inv f k0 app buffer pos k out \<longleftrightarrow>
     (\<exists>r. k0 \<le> r \<and> r \<le> k \<and> app = map (\<lambda>n. Some (f n)) [r..<k] \<and>
        (case buffer of
           None \<Rightarrow> pos = 0 \<and> out = stream_bytes f k0 r
         | Some d \<Rightarrow> k0 < r \<and> d = f (r - 1) \<and> pos \<le> length (dd_payload d) \<and>
             out = stream_bytes f k0 (r - 1) @ take pos (dd_payload d)))"

definition rx_inv :: "rsp_config \<Rightarrow> (nat \<Rightarrow> datagram_data) \<Rightarrow> nat \<Rightarrow> rsp_child \<Rightarrow> nat \<Rightarrow> bytes \<Rightarrow> bool" where
  "rx_inv C f k0 c k out \<longleftrightarrow>
     ch_sequence c = of_nat k \<and> app_inv f k0 (ch_appBuffers c) (ch_readBuffer c) (ch_readBufferPos c) k out \<and>
     pending_ok f (Suc k) (ch_recvBuffers c) \<and>
     ch_threadBuffers c + length (ch_appBuffers c) + held (ch_recvBuffers c) +
       (if ch_readBuffer c = None then 0 else 1) = unat (rc_numBuffers C)"

lemma pending_ok_simps [simp]:
  "pending_ok f k []"
  "pending_ok f k (b # recv) \<longleftrightarrow> (b = None \<or> b = Some (f k)) \<and> pending_ok f (Suc k) recv"
  by (auto simp: pending_ok_def less_Suc_eq_0_disj)

lemma held_simps [simp]: "held [] = 0" "held (None # recv) = held recv" "held (Some b # recv) = Suc (held recv)"
  by (simp_all add: held_def)

text \<open>Pushing one datagram, and the pending ones after it.\<close>

lemma app_inv_push:
  "app_inv f k0 app buffer pos k out \<Longrightarrow> app_inv f k0 (app @ [Some (f k)]) buffer pos (Suc k) out"
  unfolding app_inv_def
proof (elim exE conjE)
  fix r assume "k0 \<le> r" "r \<le> k" "app = map (\<lambda>n. Some (f n)) [r..<k]"
    and "case buffer of None \<Rightarrow> pos = 0 \<and> out = stream_bytes f k0 r
         | Some d \<Rightarrow> k0 < r \<and> d = f (r - 1) \<and> pos \<le> length (dd_payload d) \<and>
             out = stream_bytes f k0 (r - 1) @ take pos (dd_payload d)"
  then show "\<exists>r \<ge> k0. r \<le> Suc k \<and> app @ [Some (f k)] = map (\<lambda>n. Some (f n)) [r..<Suc k] \<and>
      (case buffer of None \<Rightarrow> pos = 0 \<and> out = stream_bytes f k0 r
         | Some d \<Rightarrow> k0 < r \<and> d = f (r - 1) \<and> pos \<le> length (dd_payload d) \<and>
             out = stream_bytes f k0 (r - 1) @ take pos (dd_payload d))"
    by (intro exI [of _ r]) simp
qed

lemma pushPending_inv:
  assumes "pending_ok f k recv" and "ch_sequence c = of_nat k"
    and "app_inv f k0 (ch_appBuffers c) (ch_readBuffer c) (ch_readBufferPos c) k out"
    and "ch_pushPending C p recv c = (c', acks)"
  shows "\<exists>k' \<ge> k. ch_sequence c' = of_nat k' \<and>
    app_inv f k0 (ch_appBuffers c') (ch_readBuffer c') (ch_readBufferPos c') k' out \<and>
    pending_ok f (Suc k') (ch_recvBuffers c') \<and> length (ch_appBuffers c') = length (ch_appBuffers c) + (k' - k) \<and>
    ch_threadBuffers c' = ch_threadBuffers c \<and> held recv = held (ch_recvBuffers c') + (k' - k) \<and>
    ch_readBuffer c' = ch_readBuffer c"
  using assms
proof (induction recv arbitrary: c k c' acks)
  case Nil
  then show ?case by (intro exI [of _ k]) auto
next
  case (Cons b recv)
  show ?case
  proof (cases b)
    case None
    with Cons.prems show ?thesis by (intro exI [of _ k]) auto
  next
    case (Some d)
    let ?c = "c\<lparr>ch_sequence := ch_sequence c + 1, ch_appBuffers := ch_appBuffers c @ [Some d]\<rparr>"
    obtain acks' where rec: "ch_pushPending C p recv ?c = (c', acks')"
      using Cons.prems(4) Some by (auto simp: ch_pushDataBuffer_def split: prod.splits)
    have d: "d = f k" and pend: "pending_ok f (Suc k) recv" using Cons.prems(1) Some by simp_all
    have "ch_sequence ?c = of_nat (Suc k)" using Cons.prems(2) by simp
    moreover have "app_inv f k0 (ch_appBuffers ?c) (ch_readBuffer ?c) (ch_readBufferPos ?c) (Suc k) out"
      using app_inv_push [OF Cons.prems(3)] by (simp add: d)
    ultimately obtain k' where "k' \<ge> Suc k" "ch_sequence c' = of_nat k'"
      "app_inv f k0 (ch_appBuffers c') (ch_readBuffer c') (ch_readBufferPos c') k' out"
      "pending_ok f (Suc k') (ch_recvBuffers c')" "length (ch_appBuffers c') = length (ch_appBuffers ?c) + (k' - Suc k)"
      "ch_threadBuffers c' = ch_threadBuffers ?c" "held recv = held (ch_recvBuffers c') + (k' - Suc k)"
      "ch_readBuffer c' = ch_readBuffer ?c"
      using Cons.IH [OF pend _ _ rec] by blast
    then show ?thesis using Some by (intro exI [of _ k']) auto
  qed
qed

text \<open>Sequence numbers as residues of datagram numbers.\<close>

lemma uint16_of_nat: "uint (of_nat n :: uint16) = int n mod 65536"
  by (simp add: unsigned_of_nat take_bit_eq_mod of_nat_mod)

lemma seq_eq_iff:
  assumes "n < k + 65536" and "k < n + 65536"
  shows "(of_nat n :: uint16) = of_nat k \<longleftrightarrow> n = k"
proof
  assume "(of_nat n :: uint16) = of_nat k"
  then have "int n mod 65536 = int k mod 65536" by (metis uint16_of_nat)
  then obtain q where q: "int n - int k = 65536 * q" by (auto simp: mod_eq_dvd_iff dvd_def)
  with assms have "q < 1" "- 1 < q" by linarith+
  with q show "n = k" by simp
qed simp

lemma seq_distance:
  assumes "k \<le> n" and "n < k + 65536"
  shows "unat (of_nat n - of_nat k :: uint16) = n - k"
proof -
  have "(of_nat n - of_nat k :: uint16) = of_nat (n - k)" using assms(1) by (simp add: of_nat_diff)
  then show ?thesis using assms(2) by (simp add: unsigned_of_nat take_bit_nat_eq_self_iff)
qed

lemma old_ignored:
  assumes "n < k" and "k + unat (rc_numBuffers C) < n + 65535"
  shows "ch_ignored C (of_nat k) (of_nat n)"
proof -
  have nb: "uint (rc_numBuffers C) = int (unat (rc_numBuffers C))" by simp
  let ?e = "int k mod 65536" and ?s = "int n mod 65536"
  define q where "q = int k div 65536 - int n div 65536"
  have d: "int k - int n = 65536 * q + (?e - ?s)"
    using mult_div_mod_eq [of 65536 "int k"] mult_div_mod_eq [of 65536 "int n"] by (simp add: q_def algebra_simps)
  have b: "0 \<le> ?e" "?e < 65536" "0 \<le> ?s" "?s < 65536" by simp_all
  have "0 \<le> q" "q \<le> 1" using d b assms by linarith+
  then consider "q = 0" | "q = 1" by linarith
  then have "?e > ?s \<and> 65535 - ?e + ?s > int (unat (rc_numBuffers C)) \<or> ?e < ?s \<and> ?s - ?e > int (unat (rc_numBuffers C))"
    using d b assms by cases linarith+
  then show ?thesis unfolding ch_ignored_def word_less_alt uint16_of_nat nb by blast
qed

lemma held_update: "i < length recv \<Longrightarrow> recv ! i = None \<Longrightarrow> held (recv[i := Some d]) = Suc (held recv)"
proof (induction recv arbitrary: i)
  case (Cons b recv)
  then show ?case by (cases i; cases b) auto
qed simp

lemma held_pad: "held (recv @ replicate m None) = held recv"
  by (simp add: held_def)

lemma pending_store:
  assumes "pending_ok f k recv"
  shows "pending_ok f k ((recv @ replicate m None)[i := Some (f (k + i))])"
  unfolding pending_ok_def
proof (intro allI impI)
  fix j assume "j < length ((recv @ replicate m None)[i := Some (f (k + i))])"
  then show "(recv @ replicate m None)[i := Some (f (k + i))] ! j = None \<or>
      (recv @ replicate m None)[i := Some (f (k + i))] ! j = Some (f (k + j))"
    using assms by (cases "j = i") (auto simp: pending_ok_def nth_append)
qed

text \<open>The branches of \<^verbatim>\<open>_handleData\<close>.\<close>

lemma handleData_full:
  "ch_threadBuffers c = 0 \<Longrightarrow> \<exists>e. ch_handleData C p d c = (c\<lparr>ch_event := e\<rparr>, [], [])"
  by (auto simp: ch_handleData_def ch_newDataBuffer_def Let_def intro: exI [of _ "ch_event c"])

lemma handleData_in_order:
  assumes "dd_sequence d = ch_sequence c" and "ch_threadBuffers c = Suc t"
  shows "\<exists>acks. ch_handleData C p d c =
    ((fst (ch_pushPending C p (ch_recvBuffers c)
            (c\<lparr>ch_threadBuffers := t, ch_sequence := ch_sequence c + 1, ch_appBuffers := ch_appBuffers c @ [Some d]\<rparr>)))
       \<lparr>ch_event := True\<rparr>, acks, [])"
  using assms by (simp add: ch_handleData_def ch_newDataBuffer_def ch_pushDataBuffer_def Let_def split: prod.splits)

lemma handleData_ignored:
  assumes "dd_sequence d \<noteq> ch_sequence c"
    and "ch_ignored C (ch_sequence c) (dd_sequence d) \<or>
         length (ch_recvBuffers c) \<ge> m \<and> ch_recvBuffers c ! (m - 1) \<noteq> None"
    and "m = unat (dd_sequence d - ch_sequence c)"
  shows "ch_handleData C p d c = (c, [], [])"
  using assms by (auto simp: ch_handleData_def Let_def)

lemma handleData_stored:
  assumes "dd_sequence d \<noteq> ch_sequence c" and "\<not> ch_ignored C (ch_sequence c) (dd_sequence d)"
    and "m = unat (dd_sequence d - ch_sequence c)"
    and "\<not> (length (ch_recvBuffers c) \<ge> m \<and> ch_recvBuffers c ! (m - 1) \<noteq> None)" and "ch_threadBuffers c = Suc t"
    and "recv = (ch_recvBuffers c @ replicate (m - length (ch_recvBuffers c)) None)[m - 1 := Some d]"
  shows "ch_handleData C p d c = (c\<lparr>ch_threadBuffers := t, ch_recvBuffers := recv\<rparr>, [],
           early_nack (ch_sequence c) (dd_sequence d) recv (m - 1))"
  using assms by (auto simp: ch_handleData_def Let_def ch_newDataBuffer_def)

lemma handleData_inv:
  assumes "stream_ok f" and inv: "rx_inv C f k0 c k out" and old: "k + unat (rc_numBuffers C) < n + 65535"
    and new: "n < k + 65536" and res: "ch_handleData C p (f n) c = (c', acks, nacks)"
  shows "rx_inv C f k0 c' (k + length (ch_appBuffers c') - length (ch_appBuffers c)) out"
proof -
  have seq: "dd_sequence (f n) = of_nat n" "ch_sequence c = of_nat k"
    using assms(1) inv by (simp_all add: stream_ok_def rx_inv_def)
  consider "n = k" | "n \<noteq> k" "ch_ignored C (of_nat k) (of_nat n)" | "k < n" "\<not> ch_ignored C (of_nat k) (of_nat n)"
    using old_ignored [OF _ old] by (metis linorder_neqE_nat)
  then show ?thesis
  proof cases
    case 1
    show ?thesis
    proof (cases "ch_threadBuffers c")
      case 0
      then obtain e where "c' = c\<lparr>ch_event := e\<rparr>" using handleData_full [OF 0, of C p "f n"] res by auto
      with inv show ?thesis by (simp add: rx_inv_def)
    next
      case (Suc t)
      let ?c = "c\<lparr>ch_threadBuffers := t, ch_sequence := ch_sequence c + 1, ch_appBuffers := ch_appBuffers c @ [Some (f k)]\<rparr>"
      obtain d acks' where pend: "ch_pushPending C p (ch_recvBuffers c) ?c = (d, acks')" by fastforce
      have c': "c' = d\<lparr>ch_event := True\<rparr>"
        using handleData_in_order [of "f k" c t C p] res 1 Suc pend seq by auto
      have "pending_ok f (Suc k) (ch_recvBuffers c)" and s': "ch_sequence ?c = of_nat (Suc k)"
        and app: "app_inv f k0 (ch_appBuffers ?c) (ch_readBuffer ?c) (ch_readBufferPos ?c) (Suc k) out"
        using inv app_inv_push by (simp_all add: rx_inv_def)
      from pushPending_inv [OF this(1) s' app pend]
      obtain k' where "k' \<ge> Suc k" "ch_sequence d = of_nat k'"
        "app_inv f k0 (ch_appBuffers d) (ch_readBuffer d) (ch_readBufferPos d) k' out"
        "pending_ok f (Suc k') (ch_recvBuffers d)" "length (ch_appBuffers d) = length (ch_appBuffers ?c) + (k' - Suc k)"
        "ch_threadBuffers d = t" "held (ch_recvBuffers c) = held (ch_recvBuffers d) + (k' - Suc k)"
        "ch_readBuffer d = ch_readBuffer c"
        by auto
      moreover have "k + length (ch_appBuffers d) - length (ch_appBuffers c) = k'"
        using calculation(1,5) by simp
      ultimately show ?thesis using inv Suc by (auto simp: c' rx_inv_def)
    qed
  next
    case 2
    have "k < n + 65536" using old by simp
    with 2 new have "(of_nat n :: uint16) \<noteq> of_nat k" using seq_eq_iff by blast
    with 2 have "ch_handleData C p (f n) c = (c, [], [])"
      by (intro handleData_ignored [OF _ _ refl]) (simp_all add: seq)
    with res inv show ?thesis by simp
  next
    case 3
    then have "k < n + 65536" by simp
    with 3 new have ne: "dd_sequence (f n) \<noteq> ch_sequence c" using seq_eq_iff by (auto simp: seq)
    have nign: "\<not> ch_ignored C (ch_sequence c) (dd_sequence (f n))" using 3 by (simp add: seq)
    have size: "n - k = unat (dd_sequence (f n) - ch_sequence c)" using seq_distance 3 new by (simp add: seq)
    let ?recv = "ch_recvBuffers c" and ?i = "n - k - 1"
    let ?pad = "?recv @ replicate (n - k - length ?recv) None"
    consider "length ?recv \<ge> n - k \<and> ?recv ! ?i \<noteq> None" | "ch_threadBuffers c = 0"
      | t where "\<not> (length ?recv \<ge> n - k \<and> ?recv ! ?i \<noteq> None)" "ch_threadBuffers c = Suc t"
      by (meson not0_implies_Suc)
    then show ?thesis
    proof cases
      case 1
      with handleData_ignored [OF ne _ size] res inv show ?thesis by simp
    next
      case 2
      then obtain e where "c' = c\<lparr>ch_event := e\<rparr>" using handleData_full [OF 2, of C p "f n"] res by auto
      with inv show ?thesis by (simp add: rx_inv_def)
    next
      case (3 t)
      have c': "c' = c\<lparr>ch_threadBuffers := t, ch_recvBuffers := ?pad[?i := Some (f n)]\<rparr>"
        using handleData_stored [OF ne nign size 3 refl, of p] res by simp
      have "?i < length ?pad" "?pad ! ?i = None" using 3(1) \<open>k < n\<close> by (auto simp: nth_append)
      then have "held (?pad[?i := Some (f n)]) = Suc (held ?recv)" by (simp add: held_update held_pad)
      moreover have "pending_ok f (Suc k) (?pad[?i := Some (f n)])"
        using pending_store [of f "Suc k" ?recv "n - k - length ?recv" ?i] inv \<open>k < n\<close> by (simp add: rx_inv_def)
      ultimately show ?thesis using inv 3(2) by (simp add: c' rx_inv_def)
    qed
  qed
qed

text \<open>Reading moves bytes from the queue to what the application has read.\<close>

lemma stream_bytes_Suc: "a \<le> b \<Longrightarrow> stream_bytes f a (Suc b) = stream_bytes f a b @ dd_payload (f b)"
  by (simp add: stream_bytes_def)

lemma app_inv_next:
  assumes "app_inv f k0 (Some d # rest) None pos k out"
  shows "app_inv f k0 rest (Some d) 0 k out"
proof -
  obtain r where r: "k0 \<le> r" "r \<le> k" "Some d # rest = map (\<lambda>n. Some (f n)) [r..<k]" "out = stream_bytes f k0 r"
    using assms by (auto simp: app_inv_def)
  then have "r < k" by (cases "r < k") auto
  with r have "d = f r" "rest = map (\<lambda>n. Some (f n)) [Suc r..<k]" by (simp_all add: upt_conv_Cons)
  with r \<open>r < k\<close> show ?thesis unfolding app_inv_def by (intro exI [of _ "Suc r"]) simp
qed

lemma app_inv_consume:
  "app_inv f k0 app (Some d) pos k out \<Longrightarrow> pos + n \<le> length (dd_payload d) \<Longrightarrow>
   app_inv f k0 app (Some d) (pos + n) k (out @ take n (drop pos (dd_payload d)))"
  unfolding app_inv_def by (auto simp: take_add intro!: exI)

lemma app_inv_done:
  assumes "app_inv f k0 app (Some d) (length (dd_payload d)) k out"
  shows "app_inv f k0 app None 0 k out"
proof -
  obtain r where "k0 < r" "r \<le> k" "app = map (\<lambda>n. Some (f n)) [r..<k]"
    "out = stream_bytes f k0 (r - 1) @ dd_payload (f (r - 1))"
    using assms by (auto simp: app_inv_def)
  moreover from this have "out = stream_bytes f k0 r" using stream_bytes_Suc [of k0 "r - 1" f] by simp
  ultimately show ?thesis unfolding app_inv_def by (intro exI [of _ r]) simp
qed

lemma app_inv_buffer: "app_inv f k0 app (Some d) pos k out \<Longrightarrow> \<exists>n. d = f n \<and> pos \<le> length (dd_payload d)"
  by (auto simp: app_inv_def)

lemma app_inv_no_null: "\<not> app_inv f k0 (None # rest) buffer pos k out"
proof
  assume "app_inv f k0 (None # rest) buffer pos k out"
  then obtain r where "None # rest = map (\<lambda>n. Some (f n)) [r..<k]" by (auto simp: app_inv_def)
  then show False by (cases "[r..<k]") auto
qed

definition buffers_out :: "rsp_child \<Rightarrow> nat" where
  "buffers_out c = ch_threadBuffers c + length (ch_appBuffers c) + (if ch_readBuffer c = None then 0 else 1)"

lemma readLoop_inv:
  assumes "stream_ok f"
    and "app_inv f k0 (ch_appBuffers c) (ch_readBuffer c) (ch_readBufferPos c) k (out @ acc)"
    and "ch_readLoop m acc c = Some (acc', ok, c')"
  shows "app_inv f k0 (ch_appBuffers c') (ch_readBuffer c') (ch_readBufferPos c') k (out @ acc') \<and>
         ok \<and> length acc' = length acc + m \<and> buffers_out c' = buffers_out c \<and>
         ch_sequence c' = ch_sequence c \<and> ch_recvBuffers c' = ch_recvBuffers c"
  using assms(2,3)
proof (induction m acc c rule: ch_readLoop.induct)
  case (1 m acc c)
  show ?case
  proof (cases "m = 0")
    case True
    with "1.prems" show ?thesis by (simp add: ch_readLoop.simps)
  next
    case left: False
    show ?thesis
    proof (cases "ch_readBuffer c")
      case None
      show ?thesis
      proof (cases "ch_appBuffers c")
        case Nil
        with "1.prems"(2) left None show ?thesis by (simp add: ch_readLoop.simps)
      next
        case (Cons b rest)
        with "1.prems"(1) obtain d where b: "b = Some d" using app_inv_no_null by (cases b) auto
        let ?c = "c\<lparr>ch_appBuffers := rest, ch_readBuffer := Some d\<rparr>"
        have pos: "ch_readBufferPos c = 0" using "1.prems"(1) None by (auto simp: app_inv_def)
        have "app_inv f k0 (ch_appBuffers ?c) (ch_readBuffer ?c) (ch_readBufferPos ?c) k (out @ acc)"
          using app_inv_next [of f k0 d rest _ k "out @ acc"] "1.prems"(1) Cons b None pos by simp
        moreover have "ch_readLoop m acc ?c = Some (acc', ok, c')"
          using "1.prems"(2) left None Cons b by (simp add: ch_readLoop.simps [of m acc c])
        ultimately show ?thesis
          using "1.IH"(1) [OF left None Cons b] None Cons by (simp add: buffers_out_def)
      qed
    next
      case (Some d)
      let ?pos = "ch_readBufferPos c"
      let ?n = "min m (unat (dd_size d) - ?pos)"
      let ?acc = "acc @ take ?n (drop ?pos (dd_payload d))"
      have d: "unat (dd_size d) = length (dd_payload d)" "?pos \<le> length (dd_payload d)"
        using app_inv_buffer [OF "1.prems"(1) [unfolded Some]] assms(1) by (auto simp: stream_ok_def)
      have inv: "app_inv f k0 (ch_appBuffers c) (Some d) (?pos + ?n) k (out @ ?acc)"
        using app_inv_consume [of f k0 _ d ?pos k "out @ acc" ?n] "1.prems"(1) Some d by simp
      have len: "length (take ?n (drop ?pos (dd_payload d))) = ?n" using d by simp
      show ?thesis
      proof (cases "?pos + ?n \<ge> unat (dd_size d)")
        case True
        let ?c = "c\<lparr>ch_readBuffer := None, ch_readBufferPos := 0, ch_threadBuffers := Suc (ch_threadBuffers c)\<rparr>"
        have "?pos + ?n = length (dd_payload d)" using True d by simp
        with inv have "app_inv f k0 (ch_appBuffers ?c) (ch_readBuffer ?c) (ch_readBufferPos ?c) k (out @ ?acc)"
          using app_inv_done by simp
        moreover have "ch_readLoop (m - ?n) ?acc ?c = Some (acc', ok, c')"
          using "1.prems"(2) left Some True
          by (simp only: ch_readLoop.simps [of m acc c] Let_def option.case if_True if_False)
        ultimately have "app_inv f k0 (ch_appBuffers c') (ch_readBuffer c') (ch_readBufferPos c') k (out @ acc') \<and>
            ok \<and> length acc' = length ?acc + (m - ?n) \<and> buffers_out c' = buffers_out ?c \<and>
            ch_sequence c' = ch_sequence ?c \<and> ch_recvBuffers c' = ch_recvBuffers ?c"
          using "1.IH"(2) [OF left Some refl refl True] by blast
        with len Some show ?thesis by (simp add: buffers_out_def)
      next
        case False
        have "Some (?acc, True, c\<lparr>ch_readBufferPos := ?pos + ?n\<rparr>) = Some (acc', ok, c')"
          using "1.prems"(2) left Some False
          by (simp only: ch_readLoop.simps [of m acc c] Let_def option.case if_True if_False)
        moreover have "?n = m" using False by linarith
        ultimately have "acc' = ?acc" "ok" "c' = c\<lparr>ch_readBufferPos := ?pos + ?n\<rparr>" "?n = m" by simp_all
        with inv len Some show ?thesis by (simp add: buffers_out_def)
      qed
    qed
  qed
qed

lemma rx_preserves_inv:
  assumes "rx C p f k0 c k out" and "stream_ok f"
  shows "rx_inv C f k0 c k out"
  using assms(1)
proof induction
  case (init i)
  then show ?case
    by (auto simp: rx_inv_def ch_new_def app_inv_def stream_bytes_def intro: exI [of _ k0])
next
  case (data c k out n c' acks nacks)
  with handleData_inv [OF assms(2)] show ?case by blast
next
  case (read c k out m r bs c')
  show ?case
  proof (cases "ch_state c = STATE_CONNECTED")
    case False
    with read show ?thesis by (simp add: ch_readSync_def)
  next
    case True
    with read(2) obtain ok d where loop: "ch_readLoop m [] c = Some (bs, ok, d)"
      and c': "c' = d\<lparr>ch_state := STATE_CLOSED\<rparr> \<or> (\<exists>e. c' = d\<lparr>ch_event := e\<rparr>)"
      unfolding ch_readSync_def by (simp split: option.splits bool.splits prod.splits) blast+
    from readLoop_inv [OF assms(2) _ loop, of k0 k out] read(3)
    have "app_inv f k0 (ch_appBuffers d) (ch_readBuffer d) (ch_readBufferPos d) k (out @ bs)"
      "buffers_out d = buffers_out c" "ch_sequence d = ch_sequence c" "ch_recvBuffers d = ch_recvBuffers c"
      by (simp_all add: rx_inv_def)
    with c' read(3) show ?thesis by (auto simp: rx_inv_def buffers_out_def)
  qed
qed

text \<open>C30 (rsp_in_order_delivery): whatever a multicast network loses, duplicates and reorders, what an application
  has read from a writer is a prefix of the bytes that writer has sent, in order and each byte once, and no receive
  buffer is ever lost: they are all free, queued for the application, being read, or hold a datagram received early.\<close>

theorem rsp_in_order_delivery:
  assumes "rx C p f k0 c k out" and "stream_ok f"
  shows "(\<exists>rest. stream_bytes f k0 k = out @ rest) \<and> ch_sequence c = of_nat k \<and>
         ch_threadBuffers c + length (ch_appBuffers c) + length (filter (\<lambda>b. b \<noteq> None) (ch_recvBuffers c)) +
           (if ch_readBuffer c = None then 0 else 1) = unat (rc_numBuffers C)"
proof -
  note inv = rx_preserves_inv [OF assms]
  then obtain r where r: "k0 \<le> r" "r \<le> k"
    and out: "case ch_readBuffer c of None \<Rightarrow> out = stream_bytes f k0 r
         | Some d \<Rightarrow> k0 < r \<and> d = f (r - 1) \<and> out = stream_bytes f k0 (r - 1) @ take (ch_readBufferPos c) (dd_payload d)"
    by (auto simp: rx_inv_def app_inv_def split: option.splits)
  have split: "stream_bytes f k0 k = stream_bytes f k0 r @ stream_bytes f r k"
    using r upt_add_eq_append [of k0 r "k - r"] by (simp add: stream_bytes_def)
  have "\<exists>rest. stream_bytes f k0 k = out @ rest"
  proof (cases "ch_readBuffer c")
    case None
    with out split show ?thesis by auto
  next
    case (Some d)
    with out have "k0 \<le> r - 1" "Suc (r - 1) = r" "d = f (r - 1)" by auto
    then have "stream_bytes f k0 r = stream_bytes f k0 (r - 1) @ dd_payload d"
      using stream_bytes_Suc [of k0 "r - 1" f] by simp
    also have "\<dots> = out @ drop (ch_readBufferPos c) (dd_payload d)" using out Some by simp
    finally show ?thesis using split by auto
  qed
  with inv show ?thesis by (simp add: rx_inv_def held_def)
qed

definition sample_rsp_config :: rsp_config where
  "sample_rsp_config = \<lparr>rc_numBuffers = 64, rc_payloadSize = 1400, rc_ackFreq = 5, rc_ackTimeout = 10\<rparr>"

definition sample_stream :: "nat \<Rightarrow> datagram_data" where
  "sample_stream n = \<lparr>dd_size = 1, dd_writerID = 7, dd_sequence = of_nat n, dd_payload = [of_nat n]\<rparr>"

lemma sample_stream_ok: "stream_ok sample_stream"
  by (simp add: stream_ok_def sample_stream_def)

text \<open>Datagram 1 arrives before datagram 0: it is kept, and both are delivered in order.\<close>

lemma sample_rx: "\<exists>c. rx sample_rsp_config 9 sample_stream 0 c 2 [] \<and>
    ch_appBuffers c = [Some (sample_stream 0), Some (sample_stream 1)]"
proof -
  let ?C = sample_rsp_config
  let ?c0 = "ch_new ?C 7 (of_nat 0)"
  let ?c1 = "?c0\<lparr>ch_threadBuffers := 63, ch_recvBuffers := [Some (sample_stream 1)]\<rparr>"
  let ?c2 = "?c0\<lparr>ch_threadBuffers := 62, ch_sequence := 2, ch_recvBuffers := [],
      ch_appBuffers := [Some (sample_stream 0), Some (sample_stream 1)], ch_event := True\<rparr>"
  note defs = ch_handleData_def ch_new_def sample_rsp_config_def sample_stream_def ch_ignored_def ch_newDataBuffer_def
    early_nack_def wrap_nack_def ch_pushDataBuffer_def Let_def
  have "ch_handleData ?C 9 (sample_stream 1) ?c0 = (?c1, [], [\<lparr>nk_start = 0, nk_end = 0\<rparr>])"
    by (simp add: defs)
  with rx.data [of ?C 9 sample_stream 0 ?c0 0 "[]" 1 ?c1] rx.init [of ?C 9 sample_stream 0 7]
  have "rx ?C 9 sample_stream 0 ?c1 0 []" by (simp add: sample_rsp_config_def ch_new_def)
  moreover have "ch_handleData ?C 9 (sample_stream 0) ?c1 = (?c2, [1], [])"
    by (simp add: defs)
  ultimately have "rx ?C 9 sample_stream 0 ?c2 (Suc (Suc 0)) []"
    using rx.data [of ?C 9 sample_stream 0 ?c1 0 "[]" 0 ?c2] by (simp add: sample_rsp_config_def ch_new_def)
  then have "rx ?C 9 sample_stream 0 ?c2 2 []" by (simp only: numeral_2_eq_2)
  then show ?thesis by (intro exI [of _ ?c2]) simp
qed

theorem rsp_in_order_delivery_witness:
  "\<exists>c :: rsp_child. (\<exists>rest. stream_bytes sample_stream 0 2 = [] @ rest) \<and> ch_sequence c = of_nat 2 \<and>
     ch_threadBuffers c + length (ch_appBuffers c) + length (filter (\<lambda>b. b \<noteq> None) (ch_recvBuffers c)) +
       (if ch_readBuffer c = None then 0 else 1) = unat (rc_numBuffers sample_rsp_config)"
  using sample_rx rsp_in_order_delivery [OF _ sample_stream_ok] by blast

lemma pushPending_Some:
  "fst (ch_pushPending C p (Some d # recv) c) = fst (ch_pushPending C p recv
     (c\<lparr>ch_sequence := ch_sequence c + 1, ch_appBuffers := ch_appBuffers c @ [Some d]\<rparr>))"
  by (simp add: ch_pushDataBuffer_def split: prod.split)

lemma pushPending_all:
  assumes "pending_ok f q recv" and "\<forall>i < m. i < length recv \<and> recv ! i \<noteq> None"
  shows "\<exists>j. m \<le> j \<and> ch_sequence (fst (ch_pushPending C p recv d)) = ch_sequence d + of_nat j \<and>
      ch_appBuffers (fst (ch_pushPending C p recv d)) = ch_appBuffers d @ map (\<lambda>n. Some (f n)) [q..<q + j]"
  using assms
proof (induction recv arbitrary: q m d)
  case Nil
  then have "m = 0" by (metis gr0I length_0_conv less_nat_zero_code)
  then show ?case by (intro exI [of _ 0]) simp
next
  case (Cons b recv)
  show ?case
  proof (cases b)
    case None
    with Cons.prems(2) have "m = 0" by (metis gr0I nth_Cons_0)
    with None show ?thesis by (intro exI [of _ 0]) simp
  next
    case (Some x)
    have x: "x = f q" "pending_ok f (Suc q) recv" using Cons.prems(1) Some by simp_all
    have "\<forall>i < m - 1. i < length recv \<and> recv ! i \<noteq> None"
      using Cons.prems(2) by (metis Suc_less_eq length_Cons less_diff_conv nth_Cons_Suc add.commute plus_1_eq_Suc)
    from Cons.IH [OF x(2) this, of "d\<lparr>ch_sequence := ch_sequence d + 1, ch_appBuffers := ch_appBuffers d @ [Some x]\<rparr>"]
    obtain j where "m - 1 \<le> j"
      "ch_sequence (fst (ch_pushPending C p (b # recv) d)) = ch_sequence d + 1 + of_nat j"
      "ch_appBuffers (fst (ch_pushPending C p (b # recv) d)) =
         ch_appBuffers d @ [Some (f q)] @ map (\<lambda>n. Some (f n)) [Suc q..<Suc q + j]"
      unfolding Some pushPending_Some by (auto simp: x(1) simp del: upt_Suc)
    then show ?thesis by (intro exI [of _ "Suc j"]) (auto simp: upt_conv_Cons algebra_simps simp del: upt_Suc)
  qed
qed

text \<open>C31 (rsp_progress): when the datagram a reader waits for arrives and a receive buffer is free, it is delivered
  together with every datagram received early that directly follows it.\<close>

theorem rsp_progress:
  assumes "rx C p f k0 c k out" and "stream_ok f" and "ch_threadBuffers c > 0"
    and "\<forall>i < m. i < length (ch_recvBuffers c) \<and> ch_recvBuffers c ! i \<noteq> None"
    and "ch_handleData C p (f k) c = (c', acks, nacks)"
  shows "\<exists>k'. k + m < k' \<and> ch_sequence c' = of_nat k' \<and>
              ch_appBuffers c' = ch_appBuffers c @ map (\<lambda>n. Some (f n)) [k..<k'] \<and> nacks = []"
proof -
  note inv = rx_preserves_inv [OF assms(1,2)]
  have pend: "pending_ok f (Suc k) (ch_recvBuffers c)" using inv by (simp add: rx_inv_def)
  obtain t where t: "ch_threadBuffers c = Suc t" using assms(3) gr0_implies_Suc by blast
  let ?c = "c\<lparr>ch_threadBuffers := t, ch_sequence := ch_sequence c + 1, ch_appBuffers := ch_appBuffers c @ [Some (f k)]\<rparr>"
  obtain j where "m \<le> j" "ch_sequence (fst (ch_pushPending C p (ch_recvBuffers c) ?c)) = ch_sequence ?c + of_nat j"
    "ch_appBuffers (fst (ch_pushPending C p (ch_recvBuffers c) ?c)) =
       ch_appBuffers ?c @ map (\<lambda>n. Some (f n)) [Suc k..<Suc k + j]"
    using pushPending_all [OF pend assms(4), of C p ?c] by blast
  moreover have "ch_sequence c = of_nat k" "dd_sequence (f k) = of_nat k"
    using inv assms(2) by (simp_all add: rx_inv_def stream_ok_def)
  moreover from this have "c' = (fst (ch_pushPending C p (ch_recvBuffers c) ?c))\<lparr>ch_event := True\<rparr>" "nacks = []"
    using handleData_in_order [of "f k" c t C p] t assms(5) by auto
  ultimately show ?thesis
    by (intro exI [of _ "Suc k + j"]) (auto simp: upt_conv_Cons algebra_simps simp del: upt_Suc)
qed

theorem rsp_progress_witness:
  "\<exists>c acks. ch_handleData sample_rsp_config 9 (sample_stream 0) (ch_new sample_rsp_config 7 0) = (c, acks, []) \<and>
     (\<exists>k'. 0 + 0 < k' \<and> ch_sequence c = of_nat k' \<and>
        ch_appBuffers c = [] @ map (\<lambda>n. Some (sample_stream n)) [0..<k'] \<and> ([] :: nack list) = [])"
proof -
  obtain c acks nacks where
    h: "ch_handleData sample_rsp_config 9 (sample_stream 0) (ch_new sample_rsp_config 7 (of_nat 0)) = (c, acks, nacks)"
    by (metis prod_cases3)
  have "0 < ch_threadBuffers (ch_new sample_rsp_config 7 (of_nat 0))"
    by (simp add: ch_new_def sample_rsp_config_def)
  from rsp_progress [OF rx.init sample_stream_ok this _ h, of 0] have
    "\<exists>k'. 0 + 0 < k' \<and> ch_sequence c = of_nat k' \<and>
       ch_appBuffers c = ch_appBuffers (ch_new sample_rsp_config 7 (of_nat 0)) @ map (\<lambda>n. Some (sample_stream n)) [0..<k'] \<and>
       nacks = []" by simp
  with h show ?thesis by (auto simp: ch_new_def)
qed

end
