(* ===== verification/RSP_Nacks.thy ===== *)
theory RSP_Nacks
  imports RSP_Facts
begin

text \<open>
  The nacks a reader sends: the loop of \<^verbatim>\<open>_handleAckRequest\<close> asks for every missing datagram, whatever
  the position of the sequence numbers, and what the writer's repeat queue does with them.
\<close>

section \<open>What a list of nacks asks for\<close>

definition asks :: "nack list \<Rightarrow> uint16 \<Rightarrow> bool" where
  "asks ns q \<longleftrightarrow> (\<exists>n \<in> set ns. nk_start n \<le> q \<and> q \<le> nk_end n)"

lemma asks_append [simp]: "asks (ms @ ns) q \<longleftrightarrow> asks ms q \<or> asks ns q"
  by (auto simp: asks_def)

text \<open>A closed nack covers the interval from its start to its end, also across the wrap-around.\<close>

lemma close_nack_asks:
  assumes "unat (q - s) \<le> unat (e - s)"
  shows "asks (close_nack s e) q"
proof (cases "e < s")
  case True
  have "s \<le> q \<or> q \<le> e"
  proof (rule ccontr)
    assume "\<not> (s \<le> q \<or> q \<le> e)"
    then have qs: "q < s" "e < q" by auto
    have "unat (q - s) = 65536 + unat q - unat s" "unat (e - s) = 65536 + unat e - unat s"
      using qs True by (simp_all add: unat_sub_if_size word_size word_less_nat_alt word_le_nat_alt)
    with assms qs unsigned_less [of s, where 'a = nat] show False by (simp add: word_less_nat_alt)
  qed
  with True show ?thesis by (auto simp: asks_def close_nack_def)
next
  case False
  have "s \<le> q \<and> q \<le> e"
  proof (cases "s \<le> q")
    case True
    with assms False show ?thesis by (simp add: unat_sub word_le_nat_alt not_less)
  next
    case less: False
    then have "unat (q - s) = 65536 + unat q - unat s" "unat (e - s) = unat e - unat s"
      using False by (simp_all add: unat_sub_if_size word_size word_le_nat_alt word_less_nat_alt not_less)
    with assms unsigned_less [of e, where 'a = nat] unsigned_less [of s, where 'a = nat] less show ?thesis
      by (simp add: word_le_nat_alt)
  qed
  with False show ?thesis by (auto simp: asks_def close_nack_def)
qed

lemma close_nack_asks_interval:
  assumes "a \<le> d" and "d \<le> b" and "b < a + 65536"
  shows "asks (close_nack (of_nat (k + a)) (of_nat (k + b))) (of_nat (k + d))"
proof (rule close_nack_asks)
  have "unat (of_nat (k + d) - of_nat (k + a) :: uint16) = d - a"
    using seq_distance [of "k + a" "k + d"] assms by simp
  moreover have "unat (of_nat (k + b) - of_nat (k + a) :: uint16) = b - a"
    using seq_distance [of "k + a" "k + b"] assms by simp
  ultimately show "unat (of_nat (k + d) - of_nat (k + a) :: uint16) \<le> unat (of_nat (k + b) - of_nat (k + a) :: uint16)"
    using assms by simp
qed

lemma close_nack_last: "close_nack s e \<noteq> [] \<and> nk_end (last (close_nack s e)) = e"
  by (simp add: close_nack_def)

section \<open>Every missing datagram is asked for\<close>

text \<open>The datagram \<open>d\<close> places after the expected one has not been received.\<close>

definition missing :: "datagram_data option list \<Rightarrow> nat \<Rightarrow> bool" where
  "missing recv d \<longleftrightarrow> d = 0 \<or> length recv \<le> d - 1 \<or> recv ! (d - 1) = None"

definition asked_below :: "nat \<Rightarrow> datagram_data option list \<Rightarrow> nack list \<Rightarrow> nat \<Rightarrow> bool" where
  "asked_below k recv nacks a \<longleftrightarrow> (\<forall>d < a. missing recv d \<longrightarrow> asks nacks (of_nat (k + d)))"

definition last_asked :: "nat \<Rightarrow> datagram_data option list \<Rightarrow> nack list \<Rightarrow> bool" where
  "last_asked k recv nacks \<longleftrightarrow>
     nacks = [] \<or> (\<exists>m. nk_end (last nacks) = of_nat (k + m) \<and> asked_below k recv nacks (Suc m))"

lemma nack_loop_asks:
  assumes "recv = drop j all" and "start = of_nat (k + a)" and "a \<le> j" and "length all < 65536"
    and "asked_below k all nacks a" and "last_asked k all nacks"
    and "nack_loop (of_nat k) j recv nacks start = (nacks', scan)"
  shows "(case scan of Open s \<Rightarrow> \<exists>a. s = of_nat (k + a) \<and> asked_below k all nacks' a | _ \<Rightarrow> last_asked k all nacks')"
  using assms
proof (induction "of_nat k :: uint16" j recv nacks start arbitrary: a rule: nack_loop.induct)
  case (1 j recv nacks start)
  note step = nack_loop.simps [of "of_nat k" j recv nacks start]
  show ?case
  proof (cases "recv = []")
    case True
    have "nack_loop (of_nat k) j recv nacks start = (nacks, OpenAtEnd start)" unfolding step using True by simp
    with "1.prems"(6,7) show ?thesis by auto
  next
    case ne: False
    show ?thesis
    proof (cases "length nacks \<ge> CO_RSP_MAX_NACKS - 2")
      case True
      have "nack_loop (of_nat k) j recv nacks start = (nacks, Open start)" unfolding step using True ne by simp
      with "1.prems"(2,5,7) show ?thesis by auto
    next
      case few: False
      show ?thesis
      proof (cases "hd recv = None")
        case True
        have "tl recv = drop (Suc j) all" using "1.prems"(1) by (simp add: drop_Suc tl_drop)
        moreover have "nack_loop (of_nat k) j recv nacks start = nack_loop (of_nat k) (Suc j) (tl recv) nacks start"
          unfolding step using True ne few by simp
        ultimately show ?thesis using "1.hyps"(1) [OF ne few True, of a] "1.prems"(2-7) by simp
      next
        case False
        let ?nacks = "nacks @ close_nack start (of_nat k + of_nat j)"
        let ?rest = "dropWhile (\<lambda>b. b \<noteq> None) recv" and ?got = "takeWhile (\<lambda>b. b \<noteq> None) recv"
        let ?j = "j + length ?got"
        have j: "j < length all" using "1.prems"(1) ne by (cases "j < length all") auto
        have asked: "asked_below k all ?nacks (Suc j)"
          unfolding asked_below_def
        proof (intro allI impI)
          fix d assume d: "d < Suc j" "missing all d"
          show "asks ?nacks (of_nat (k + d))"
          proof (cases "d < a")
            case True
            with "1.prems"(5) d show ?thesis by (simp add: asked_below_def)
          next
            case False
            with d close_nack_asks_interval [of a d j k] j "1.prems"(2,4) show ?thesis by simp
          qed
        qed
        have last: "last_asked k all ?nacks"
          using asked close_nack_last [of start "of_nat k + of_nat j"]
          by (auto simp: last_asked_def intro!: exI [of _ j])
        have got: "\<forall>d. Suc j \<le> d \<and> d < Suc ?j \<longrightarrow> \<not> missing all d"
        proof (intro allI impI)
          fix d assume d: "Suc j \<le> d \<and> d < Suc ?j"
          then have "all ! (d - 1) = ?got ! (d - 1 - j)" "d - 1 < length all"
            using "1.prems"(1) length_takeWhile_le [of "\<lambda>b. b \<noteq> None" recv]
            by (auto simp: takeWhile_nth)
          moreover have "?got ! (d - 1 - j) \<noteq> None"
          proof -
            have "d - 1 - j < length ?got" using d by linarith
            from set_takeWhileD [OF nth_mem [OF this]] show ?thesis by simp
          qed
          ultimately show "\<not> missing all d" using d by (simp add: missing_def)
        qed
        have below: "asked_below k all ?nacks (Suc ?j)"
          using asked got unfolding asked_below_def by (metis not_less)
        show ?thesis
        proof (cases "?rest = []")
          case True
          then have "nack_loop (of_nat k) j recv nacks start = (?nacks, Done)"
            unfolding step Let_def using ne few False by (simp only: if_True if_False refl)
          with "1.prems"(7) last show ?thesis by auto
        next
          case rest: False
          have "?rest = drop (length ?got) recv" by (rule dropWhile_eq_drop)
          then have tl: "tl ?rest = drop (Suc ?j) all"
            using "1.prems"(1) by (simp add: drop_Suc tl_drop add.commute)
          have "nack_loop (of_nat k) (Suc ?j) (tl ?rest) ?nacks (of_nat k + of_nat ?j + 1) = (nacks', scan)"
            using "1.prems"(7) ne few False rest unfolding step Let_def by (simp only: if_True if_False)
          with "1.hyps"(2) [OF ne few False refl refl refl refl rest tl, of "Suc ?j"] below last "1.prems"(4)
          show ?thesis by (simp add: add.commute add.left_commute)
        qed
      qed
    qed
  qed
qed

lemma nack_list_asks:
  assumes "length recv < 65536" and "k \<le> req" and "req < k + unat (rc_numBuffers C)" and "missing recv d" and "k + d \<le> req"
  shows "asks (nack_list C (of_nat k) (of_nat req) recv) (of_nat (k + d))"
proof -
  have nb: "unat (rc_numBuffers C) < 65536" using unsigned_less [of "rc_numBuffers C", where 'a = nat] by simp
  obtain nacks scan where loop: "nack_loop (of_nat k) 0 recv [] (of_nat k) = (nacks, scan)" by fastforce
  have res: "case scan of Open s \<Rightarrow> \<exists>a. s = of_nat (k + a) \<and> asked_below k recv nacks a | _ \<Rightarrow> last_asked k recv nacks"
    using nack_loop_asks [of recv 0 recv "of_nat k" k 0 "[]" nacks scan] loop assms(1)
    by (simp add: asked_below_def last_asked_def)
  obtain m where req: "req = k + m" using assms(2) le_Suc_ex by blast
  have tail: "asks (close_nack (of_nat (k + a)) (of_nat req)) (of_nat (k + d))" if "a \<le> d" for a
    using close_nack_asks_interval [of a d m k] that assms(3,5) nb by (simp add: req)
  show ?thesis
  proof (cases "\<exists>s. scan = Open s")
    case True
    then obtain s a where "scan = Open s" "s = of_nat (k + a)" "asked_below k recv nacks a" using res by auto
    with loop tail [of a] assms(4) show ?thesis
      by (cases "d < a") (auto simp: nack_list_def asked_below_def)
  next
    case False
    then have eq: "nack_list C (of_nat k) (of_nat req) recv =
        (if nacks = [] then close_nack (of_nat k) (of_nat req)
         else if of_nat req - nk_end (last nacks) < rc_numBuffers C
         then nacks @ close_nack (nk_end (last nacks) + 1) (of_nat req) else nacks)"
      and last: "last_asked k recv nacks"
      using loop res by (auto simp: nack_list_def split: nack_scan.splits)
    show ?thesis
    proof (cases "nacks = []")
      case True
      with eq tail [of 0] show ?thesis by simp
    next
      case ne: False
      with last obtain b where b: "nk_end (last nacks) = of_nat (k + b)" "asked_below k recv nacks (Suc b)"
        by (auto simp: last_asked_def)
      show ?thesis
      proof (cases "d \<le> b")
        case True
        with b(2) assms(4) have "asks nacks (of_nat (k + d))" by (simp add: asked_below_def)
        with eq ne show ?thesis by simp
      next
        case False
        then have "unat (of_nat req - of_nat (k + b) :: uint16) = m - b"
          using seq_distance [of "k + b" req] assms(3,5) nb by (simp add: req)
        moreover have "m - b < unat (rc_numBuffers C)" using assms(3) by (simp add: req)
        ultimately have "of_nat req - nk_end (last nacks) < rc_numBuffers C" by (simp add: b(1) word_less_nat_alt)
        with eq ne tail [of "Suc b"] False show ?thesis by (simp add: b(1) add.commute)
      qed
    qed
  qed
qed

section \<open>The size of the nack list\<close>

lemma nack_loop_Some_None:
  assumes "length nacks < CO_RSP_MAX_NACKS - 2"
  shows "nack_loop e j (Some x # None # recv) nacks start =
         nack_loop e (Suc (Suc j)) recv (nacks @ close_nack start (e + of_nat j)) (e + of_nat (Suc (Suc j)))"
  using assms by (simp add: nack_loop.simps [of e j "Some x # None # recv"] Let_def algebra_simps)

lemma nack_loop_alternating:
  "length nacks + n \<le> CO_RSP_MAX_NACKS - 2 \<Longrightarrow>
   \<exists>ns. nack_loop e j (concat (replicate n [Some x, None]) @ recv) nacks (e + of_nat j) =
          nack_loop e (j + 2 * n) recv ns (e + of_nat (j + 2 * n)) \<and> length ns = length nacks + n"
proof (induction n arbitrary: j nacks)
  case (Suc n)
  let ?nacks = "nacks @ close_nack (e + of_nat j) (e + of_nat j)"
  have "length ?nacks + n \<le> CO_RSP_MAX_NACKS - 2" using Suc.prems by (simp add: close_nack_def)
  from Suc.IH [OF this, of "Suc (Suc j)"] Suc.prems show ?case
    by (auto simp: nack_loop_Some_None close_nack_def algebra_simps)
qed auto

text \<open>A nack that does not span the wrap-around takes one element, so the loop leaves room for two more.\<close>

lemma close_nack_length: "length (close_nack s e) \<le> 2"
  by (simp add: close_nack_def)

lemma close_nack_single:
  assumes "a \<le> b" and "k mod 65536 + b < 65536"
  shows "length (close_nack (of_nat (k + a)) (of_nat (k + b))) = 1"
proof -
  have unat: "unat (of_nat (k + c) :: uint16) = k mod 65536 + c" if "c \<le> b" for c
  proof -
    have "(k + c) mod 65536 = (k mod 65536 + c) mod 65536" by (simp add: mod_add_left_eq)
    also have "\<dots> = k mod 65536 + c" using that assms(2) by simp
    finally have "(k + c) mod 65536 = k mod 65536 + c" .
    moreover have "unat (of_nat n :: uint16) = n mod 65536" for n by (simp add: unsigned_of_nat take_bit_eq_mod)
    ultimately show ?thesis by (simp only:)
  qed
  have "\<not> of_nat (k + b) < (of_nat (k + a) :: uint16)"
    unfolding word_less_nat_alt unat [OF assms(1)] unat [OF order_refl] using assms(1) by simp
  then show ?thesis by (simp add: close_nack_def)
qed

lemma nack_loop_length:
  assumes "recv = drop j all" and "start = of_nat (k + a)" and "a \<le> j" and "k mod 65536 + length all \<le> 65536"
    and "length nacks \<le> CO_RSP_MAX_NACKS - 2" and "nack_loop (of_nat k) j recv nacks start = (nacks', scan)"
  shows "length nacks' \<le> CO_RSP_MAX_NACKS - 2"
  using assms
proof (induction "of_nat k :: uint16" j recv nacks start arbitrary: a rule: nack_loop.induct)
  case (1 j recv nacks start)
  note step = nack_loop.simps [of "of_nat k" j recv nacks start]
  let ?nacks = "nacks @ close_nack start (of_nat k + of_nat j)"
  let ?rest = "dropWhile (\<lambda>b. b \<noteq> None) recv" and ?got = "takeWhile (\<lambda>b. b \<noteq> None) recv"
  let ?j = "j + length ?got"
  consider "recv = []" | "recv \<noteq> []" "length nacks \<ge> CO_RSP_MAX_NACKS - 2"
    | "recv \<noteq> []" "\<not> length nacks \<ge> CO_RSP_MAX_NACKS - 2" "hd recv = None"
    | "recv \<noteq> []" "\<not> length nacks \<ge> CO_RSP_MAX_NACKS - 2" "hd recv \<noteq> None" by blast
  then show ?case
  proof cases
    case 1
    with "1.prems"(5,6) show ?thesis unfolding step by simp
  next
    case 2
    with "1.prems"(5,6) show ?thesis unfolding step by simp
  next
    case 3
    have "tl recv = drop (Suc j) all" using "1.prems"(1) by (simp add: drop_Suc tl_drop)
    moreover have "nack_loop (of_nat k) j recv nacks start = nack_loop (of_nat k) (Suc j) (tl recv) nacks start"
      unfolding step using 3 by simp
    ultimately show ?thesis using "1.hyps"(1) [OF 3, of a] "1.prems"(2-6) by simp
  next
    case 4
    have "j < length all" using "1.prems"(1) 4(1) by (cases "j < length all") auto
    then have "length (close_nack start (of_nat k + of_nat j)) = 1"
      using close_nack_single [of a j k] "1.prems"(2-4) by simp
    then have len: "length ?nacks \<le> CO_RSP_MAX_NACKS - 2" using 4(2) by simp
    show ?thesis
    proof (cases "?rest = []")
      case True
      then have "nack_loop (of_nat k) j recv nacks start = (?nacks, Done)"
        unfolding step Let_def using 4 by (simp only: if_True if_False refl)
      with "1.prems"(6) len show ?thesis by simp
    next
      case rest: False
      have "?rest = drop (length ?got) recv" by (rule dropWhile_eq_drop)
      then have tl: "tl ?rest = drop (Suc ?j) all"
        using "1.prems"(1) by (simp add: drop_Suc tl_drop add.commute)
      have "nack_loop (of_nat k) (Suc ?j) (tl ?rest) ?nacks (of_nat k + of_nat ?j + 1) = (nacks', scan)"
        using "1.prems"(6) 4 rest unfolding step Let_def by (simp only: if_True if_False)
      with "1.hyps"(2) [OF 4 refl refl refl refl rest tl, of "Suc ?j"] len "1.prems"(4)
      show ?thesis by (simp add: add.commute add.left_commute)
    qed
  qed
qed

lemma nack_list_length:
  assumes "k mod 65536 + length recv \<le> 65536"
  shows "length (nack_list C (of_nat k) reqID recv) \<le> CO_RSP_MAX_NACKS"
proof -
  obtain nacks scan where loop: "nack_loop (of_nat k) 0 recv [] (of_nat k) = (nacks, scan)" by fastforce
  have "length nacks \<le> CO_RSP_MAX_NACKS - 2"
    using nack_loop_length [of recv 0 recv "of_nat k" k 0 "[]" nacks scan] loop assms by simp
  then have "length (nacks @ close_nack s e) \<le> CO_RSP_MAX_NACKS" for s e
    using close_nack_length [of s e] by (simp add: CO_RSP_MAX_NACKS_def)
  moreover have "length (close_nack s e) \<le> CO_RSP_MAX_NACKS" for s e
    using close_nack_length [of s e] by (simp add: CO_RSP_MAX_NACKS_def)
  ultimately show ?thesis
    using \<open>length nacks \<le> CO_RSP_MAX_NACKS - 2\<close> unfolding nack_list_def loop
    by (auto split: nack_scan.split)
qed

text \<open>C32 (rsp_nacks_complete): when an ack request is answered with nacks and these fit the array of
  \<open>CO_RSP_MAX_NACKS\<close> elements they are written to, they ask for every datagram up to the requested one that has not
  been received, also when the sequence numbers wrap around; and they do fit whenever the received buffers do not
  span the wrap-around of the sequence numbers.\<close>

theorem rsp_nacks_complete:
  assumes "length recv < 65536" and "k \<le> req" and "req < k + unat (rc_numBuffers C)"
  shows "(\<forall>nacks. missing_nacks C (of_nat k) (of_nat req) recv = Some nacks \<longrightarrow>
            (\<forall>d. missing recv d \<and> k + d \<le> req \<longrightarrow> asks nacks (of_nat (k + d)))) \<and>
         (k mod 65536 + length recv \<le> 65536 \<longrightarrow> missing_nacks C (of_nat k) (of_nat req) recv \<noteq> None)"
  using nack_list_asks [OF assms] nack_list_length [of k recv C] by (auto simp: missing_nacks_def Let_def)

lemma sample_missing_nacks:
  "missing_nacks sample_rsp_config (of_nat 65535) (of_nat 65540) [None, Some (sample_stream 65537)] =
   Some [\<lparr>nk_start = 65535, nk_end = - 1\<rparr>, \<lparr>nk_start = 0, nk_end = 0\<rparr>, \<lparr>nk_start = 1, nk_end = 4\<rparr>]"
  by (simp add: missing_nacks_def nack_list_def nack_loop.simps close_nack_def sample_rsp_config_def CO_RSP_MAX_NACKS_def)

theorem rsp_nacks_complete_witness:
  "missing_nacks sample_rsp_config (of_nat 65535) (of_nat 65540) [None, Some (sample_stream 65537)] =
     Some [\<lparr>nk_start = 65535, nk_end = - 1\<rparr>, \<lparr>nk_start = 0, nk_end = 0\<rparr>, \<lparr>nk_start = 1, nk_end = 4\<rparr>] \<and>
   asks [\<lparr>nk_start = 65535, nk_end = - 1\<rparr>, \<lparr>nk_start = 0, nk_end = 0\<rparr>, \<lparr>nk_start = 1, nk_end = 4\<rparr>] (of_nat (65535 + 3)) \<and>
   missing_nacks sample_rsp_config (of_nat 7) (of_nat 10) [None, Some (sample_stream 9)] \<noteq> None"
proof (intro conjI)
  have nb: "length [None, Some (sample_stream 65537)] < 65536" "(65535 :: nat) \<le> 65540"
    "65540 < 65535 + unat (rc_numBuffers sample_rsp_config)" "(7 :: nat) \<le> 10" "10 < 7 + unat (rc_numBuffers sample_rsp_config)"
    by (simp_all add: sample_rsp_config_def)
  have "missing [None, Some (sample_stream 65537)] 3 \<and> 65535 + 3 \<le> (65540 :: nat)" by (simp add: missing_def)
  with rsp_nacks_complete [OF nb(1-3)] sample_missing_nacks
  show "asks [\<lparr>nk_start = 65535, nk_end = - 1\<rparr>, \<lparr>nk_start = 0, nk_end = 0\<rparr>, \<lparr>nk_start = 1, nk_end = 4\<rparr>] (of_nat (65535 + 3))"
    by blast
  show "missing_nacks sample_rsp_config (of_nat 7) (of_nat 10) [None, Some (sample_stream 9)] \<noteq> None"
    using rsp_nacks_complete [OF _ nb(4,5), of "[None, Some (sample_stream 9)]"] by simp
qed (rule sample_missing_nacks)

text \<open>With 298 holes of which the last one spans the wrap-around, an ack request for the
  end of that hole makes the reader list one nack more than the array on its stack has room for.\<close>

theorem rsp_nack_overflow:
  "length (nack_list (C\<lparr>rc_numBuffers := 1024\<rparr>) 64941 0 (concat (replicate 297 [Some x, None]) @ [None, Some x])) =
     CO_RSP_MAX_NACKS + 1 \<and>
   missing_nacks (C\<lparr>rc_numBuffers := 1024\<rparr>) 64941 0 (concat (replicate 297 [Some x, None]) @ [None, Some x]) = None"
proof -
  obtain ns where loop: "nack_loop 64941 0 (concat (replicate 297 [Some x, None]) @ [None, Some x]) [] 64941 =
      nack_loop 64941 594 [None, Some x] ns (64941 + of_nat 594)" and len: "length ns = 297"
    using nack_loop_alternating [of "[]" 297 64941 0 x "[None, Some x]"] by (auto simp: CO_RSP_MAX_NACKS_def)
  have "(65536 :: uint16) = 0" by (rule word_unat_eq_iff [THEN iffD2]) simp
  then have "close_nack (65535 :: uint16) 65536 = [\<lparr>nk_start = 65535, nk_end = - 1\<rparr>, \<lparr>nk_start = 0, nk_end = 0\<rparr>]"
    by (simp add: close_nack_def)
  then have "nack_loop 64941 594 [None, Some x] ns (64941 + of_nat 594) =
      (ns @ [\<lparr>nk_start = 65535, nk_end = - 1\<rparr>, \<lparr>nk_start = 0, nk_end = 0\<rparr>], Done)"
    using len by (simp add: nack_loop.simps [of _ _ "[None, Some x]"] nack_loop.simps [of _ _ "[Some x]"]
        CO_RSP_MAX_NACKS_def Let_def)
  then have "length (nack_list (C\<lparr>rc_numBuffers := 1024\<rparr>) 64941 0 (concat (replicate 297 [Some x, None]) @ [None, Some x])) =
      CO_RSP_MAX_NACKS + 1"
    unfolding nack_list_def loop by (simp add: close_nack_def len CO_RSP_MAX_NACKS_def)
  then show ?thesis by (simp add: missing_nacks_def Let_def)
qed

end
