(* ===== verification/RSP_Writer.thy ===== *)
theory RSP_Writer
  imports RSP_Facts
begin

text \<open>
  Properties of the writing side: every datagram ever sent belongs to one stream that carries exactly
  the written bytes, and a datagram is kept until every reader has acknowledged it.
\<close>

section \<open>What the handlers do to the queues of the writer\<close>

definition data_sent :: "rsp \<Rightarrow> datagram_data list" where
  "data_sent s = concat (map (\<lambda>d. case d of Data x \<Rightarrow> [x] | _ \<Rightarrow> []) (rp_sent s))"

lemma data_sent_frame [simp]:
  "data_sent (s\<lparr>rp_timeouts := a\<rparr>) = data_sent s" "data_sent (s\<lparr>rp_threadBuffers := b\<rparr>) = data_sent s"
  "data_sent (s\<lparr>rp_appBuffers := c\<rparr>) = data_sent s" "data_sent (s\<lparr>rp_writeBuffers := d\<rparr>) = data_sent s"
  "data_sent (s\<lparr>rp_repeatQueue := e\<rparr>) = data_sent s" "data_sent (s\<lparr>rp_children := f\<rparr>) = data_sent s"
  "data_sent (s\<lparr>rp_newChildren := g\<rparr>) = data_sent s" "data_sent (s\<lparr>rp_event := h\<rparr>) = data_sent s"
  "data_sent (s\<lparr>rp_timeout := i\<rparr>) = data_sent s" "data_sent (s\<lparr>rp_clock := j\<rparr>) = data_sent s"
  "data_sent (s\<lparr>rp_stopped := k\<rparr>) = data_sent s" "data_sent (s\<lparr>rp_sequence := l\<rparr>) = data_sent s"
  "data_sent (s\<lparr>rp_id := m\<rparr>) = data_sent s" "data_sent (s\<lparr>rp_drawn := n\<rparr>) = data_sent s"
  "data_sent (s\<lparr>rp_state := q\<rparr>) = data_sent s" "data_sent (s\<lparr>rp_idAccepted := r\<rparr>) = data_sent s"
  by (simp_all add: data_sent_def)

lemma data_sent_send [simp]:
  "data_sent (rp_send (Data x) s) = data_sent s @ [x]"
  "data_sent (rp_send (AckRequest u v) s) = data_sent s"
  "data_sent (rp_send (Nack u v ns) s) = data_sent s"
  "data_sent (rp_send (Ack u v w) s) = data_sent s"
  "data_sent (rp_send (DgNode n) s) = data_sent s"
  by (simp_all add: data_sent_def rp_send_def)

text \<open>The part of the state that carries the stream.\<close>

definition tx_view :: "rsp \<Rightarrow> datagram_data list \<times> datagram_data list \<times> uint16 \<times> datagram_data list" where
  "tx_view s = (rp_threadBuffers s, rp_writeBuffers s, rp_sequence s, data_sent s)"

named_theorems view_simps "operations that keep the stream part of the state"

lemma send_fields [simp]:
  "rp_threadBuffers (rp_send d s) = rp_threadBuffers s" "rp_writeBuffers (rp_send d s) = rp_writeBuffers s"
  "rp_sequence (rp_send d s) = rp_sequence s" "rp_children (rp_send d s) = rp_children s"
  "rp_stopped (rp_send d s) = rp_stopped s" "rp_id (rp_send d s) = rp_id s" "rp_state (rp_send d s) = rp_state s"
  by (simp_all add: rp_send_def)

lemma view_frame [view_simps]:
  "tx_view (rp_sendSimpleDatagram t i s) = tx_view s" "tx_view (rp_sendCountNode s) = tx_view s"
  "tx_view (rp_sendAck w q s) = tx_view s" "tx_view (rp_sendAckRequest s) = tx_view s"
  "tx_view (rp_sendNack w ns s) = tx_view s" "tx_view (rp_addRepeat ns s) = tx_view s"
  "tx_view (rp_updateChild i c s) = tx_view s" "tx_view (rp_setTimeout ms s) = tx_view s"
  "tx_view (rp_buildNewID s) = tx_view s"
  by (simp_all add: tx_view_def rp_sendSimpleDatagram_def rp_sendCountNode_def rp_sendAck_def rp_sendAckRequest_def
      rp_sendNack_def rp_addRepeat_def rp_updateChild_def rp_setTimeout_def rp_buildNewID_def)

lemma view_updates [view_simps]:
  "tx_view (s\<lparr>rp_timeouts := a\<rparr>) = tx_view s" "tx_view (s\<lparr>rp_children := f\<rparr>) = tx_view s"
  "tx_view (s\<lparr>rp_appBuffers := c\<rparr>) = tx_view s" "tx_view (s\<lparr>rp_newChildren := g\<rparr>) = tx_view s"
  "tx_view (s\<lparr>rp_event := h\<rparr>) = tx_view s" "tx_view (s\<lparr>rp_stopped := k\<rparr>) = tx_view s"
  "tx_view (s\<lparr>rp_clock := j\<rparr>) = tx_view s" "tx_view (s\<lparr>rp_state := st\<rparr>) = tx_view s"
  "tx_view (s\<lparr>rp_idAccepted := b\<rparr>) = tx_view s" "tx_view (s\<lparr>rp_timeout := t\<rparr>) = tx_view s"
  by (simp_all add: tx_view_def)

lemma view_sendAcks [view_simps]: "tx_view (rp_sendAcks w acks s) = tx_view s"
  by (induction acks arbitrary: s) (simp_all add: rp_sendAcks_def view_simps)

lemma view_handlers [view_simps]:
  "tx_view (rp_checkNewID i s) = tx_view s" "tx_view (rp_addConnection C i q s) = tx_view s"
  "tx_view (fst (rp_removeConnection i s)) = tx_view s" "tx_view (rp_removeFailed child s) = tx_view s"
  by (simp_all add: rp_checkNewID_def rp_addConnection_def rp_removeConnection_def rp_removeFailed_def Let_def view_simps)

lemma view_messages [view_simps]:
  "tx_view (rp_handleData C p s) = tx_view s" "tx_view (rp_handleNack m s) = tx_view s"
  "tx_view (rp_handleInitData C p b s) = tx_view s"
  by (simp_all add: rp_handleData_def rp_handleNack_def rp_handleInitData_def Let_def view_simps
      split: option.split prod.split)

lemma view_handleAckRequest: "rp_handleAckRequest C p s = Some s' \<Longrightarrow> tx_view s' = tx_view s"
  by (auto simp: rp_handleAckRequest_def Let_def view_simps split: option.splits if_splits)

lemma view_removeFailed_fold [view_simps]: "tx_view (fold rp_removeFailed cs s) = tx_view s"
  by (induction cs arbitrary: s) (simp_all add: view_simps)

section \<open>One stream\<close>

definition packet_ok :: "datagram_data \<Rightarrow> bool" where
  "packet_ok d \<longleftrightarrow> unat (dd_size d) = length (dd_payload d)"

definition payloads :: "datagram_data list \<Rightarrow> bytes" where
  "payloads ds = concat (map dd_payload ds)"

lemma payloads_simps [simp]:
  "payloads [] = []" "payloads (d # ds) = dd_payload d @ payloads ds" "payloads (ds @ es) = payloads ds @ payloads es"
  by (simp_all add: payloads_def)

text \<open>
  The datagrams sent so far, numbered from 0: the write buffers are the last ones, they are exactly what
  was transmitted and repeated, and with the ones still waiting they carry exactly what was written.
\<close>

definition tx_ok ::
  "datagram_data list \<Rightarrow> datagram_data list \<times> datagram_data list \<times> uint16 \<times> datagram_data list \<Rightarrow> bytes \<Rightarrow> bool" where
  "tx_ok ds v w =
     (case v of (waiting, writeBuffers, sequence, sent) \<Rightarrow>
        sequence = of_nat (length ds) \<and> (\<exists>r. writeBuffers = drop r ds) \<and> set sent = set ds \<and>
        (\<forall>n < length ds. dd_sequence (ds ! n) = of_nat n \<and> packet_ok (ds ! n)) \<and> list_all packet_ok waiting \<and>
        payloads ds @ payloads waiting = w)"

lemma tx_ok_drop: "tx_ok ds (t, wb, q, sent) w \<Longrightarrow> tx_ok ds (t, drop n wb, q, sent) w"
  by (auto simp: tx_ok_def)

lemma tx_ok_repeat: "tx_ok ds (t, wb, q, sent) w \<Longrightarrow> d \<in> set wb \<Longrightarrow> tx_ok ds (t, wb, q, sent @ [d]) w"
  by (auto simp: tx_ok_def dest: in_set_dropD)

lemma tx_ok_next:
  assumes "tx_ok ds (t, wb, q, sent) w" and "packet_ok h" and "dd_sequence h = q" and "list_all packet_ok t'"
    and "dd_payload h @ payloads t' = payloads t"
  shows "tx_ok (ds @ [h]) (t', wb @ [h], q + 1, sent @ [h]) w"
proof -
  obtain r where "wb = drop r ds" using assms(1) by (auto simp: tx_ok_def)
  then have "\<exists>r. wb @ [h] = drop r (ds @ [h])" by (intro exI [of _ "min r (length ds)"]) (simp add: min_def)
  moreover have "\<forall>n < length (ds @ [h]). dd_sequence ((ds @ [h]) ! n) = of_nat n \<and> packet_ok ((ds @ [h]) ! n)"
    using assms(1-3) by (auto simp: tx_ok_def nth_append less_Suc_eq)
  ultimately show ?thesis using assms unfolding tx_ok_def by auto
qed

lemma tx_ok_write:
  "tx_ok ds (t, wb, q, sent) w \<Longrightarrow> list_all packet_ok t' \<Longrightarrow> payloads t' = bs \<Longrightarrow> tx_ok ds (t @ t', wb, q, sent) (w @ bs)"
  by (auto simp: tx_ok_def)

text \<open>Merging keeps the bytes in order.\<close>

lemma merge_writes_ok:
  assumes "uint (rc_payloadSize C) < 65536" and "packet_ok h" and "list_all packet_ok ds" and "merge_writes C h ds = (h', ds', n)"
  shows "packet_ok h' \<and> list_all packet_ok ds' \<and> dd_sequence h' = dd_sequence h \<and>
         dd_payload h' @ payloads ds' = dd_payload h @ payloads ds"
  using assms
proof (induction C h ds arbitrary: h' ds' n rule: merge_writes.induct)
  case (2 C h h2 ds)
  show ?case
  proof (cases "uint (dd_size h) < uint (rc_payloadSize C) \<and> \<not> uint (dd_size h) + uint (dd_size h2) > uint (rc_payloadSize C)")
    case False
    with "2.prems" show ?thesis by auto
  next
    case True
    let ?h = "h\<lparr>dd_size := dd_size h + dd_size h2, dd_payload := take (unat (dd_size h)) (dd_payload h) @
                                                 take (unat (dd_size h2)) (dd_payload h2)\<rparr>"
    have "uint (dd_size h) + uint (dd_size h2) < 65536" using True "2.prems"(1) by auto
    then have "int (unat (dd_size h) + unat (dd_size h2)) < 65536" by simp
    then have "unat (dd_size h) + unat (dd_size h2) < 65536" by (simp only: of_nat_less_numeral_iff)
    then have "unat (dd_size h + dd_size h2) = unat (dd_size h) + unat (dd_size h2)"
      by (simp add: unat_word_ariths(1))
    then have ok: "packet_ok ?h" using "2.prems"(2,3) by (simp add: packet_ok_def)
    obtain m where merge: "merge_writes C ?h ds = (h', ds', m)"
      using "2.prems"(4) True by (auto split: prod.splits)
    have rest: "list_all packet_ok ds" using "2.prems"(3) by simp
    have "dd_payload ?h = dd_payload h @ dd_payload h2" using "2.prems"(2,3) by (simp add: packet_ok_def)
    with "2.IH" [OF True "2.prems"(1) ok rest merge] show ?thesis by simp
  qed
qed auto

text \<open>The operations of the writer on the stream.\<close>

lemma view_finishWriteQueue:
  "rp_finishWriteQueue q s = Some s' \<Longrightarrow>
   \<exists>n. tx_view s' = (rp_threadBuffers s, drop n (rp_writeBuffers s), rp_sequence s, data_sent s) \<and> rp_stopped s' = rp_stopped s"
  by (auto simp: rp_finishWriteQueue_def tx_view_def rp_updateChild_def Let_def split: option.splits if_splits)

lemma tx_finishWriteQueue:
  "rp_finishWriteQueue q s = Some s' \<Longrightarrow> tx_ok ds (tx_view s) w \<Longrightarrow> tx_ok ds (tx_view s') w"
  using view_finishWriteQueue [of q s s'] by (auto simp: tx_view_def tx_ok_drop)

lemma tx_writeData:
  assumes "rp_writeData C s = Some s'" and "tx_ok ds (tx_view s) w" and "uint (rc_payloadSize C) < 65536"
  shows "\<exists>ds'. tx_ok ds' (tx_view s') w"
proof (cases "rp_threadBuffers s")
  case Nil
  with assms(1,2) show ?thesis by (auto simp: rp_writeData_def)
next
  case (Cons h t)
  obtain h' t' n where merge: "merge_writes C (h\<lparr>dd_sequence := rp_sequence s\<rparr>) t = (h', t', n)" by (metis prod_cases3)
  have ok: "packet_ok h" "list_all packet_ok t" using assms(2) Cons by (simp_all add: tx_ok_def tx_view_def)
  then have "packet_ok (h\<lparr>dd_sequence := rp_sequence s\<rparr>)" by (simp add: packet_ok_def)
  from merge_writes_ok [OF assms(3) this ok(2) merge]
  have h': "packet_ok h'" "list_all packet_ok t'" "dd_sequence h' = rp_sequence s" "dd_payload h' @ payloads t' = payloads (h # t)"
    by simp_all
  let ?s1 = "s\<lparr>rp_timeouts := 0, rp_threadBuffers := t', rp_sequence := rp_sequence s + 1,
      rp_appBuffers := rp_appBuffers s @ replicate n True\<rparr>"
  let ?s2 = "rp_send (Data h') (rp_waitWritable ?s1)"
  let ?s3 = "?s2\<lparr>rp_writeBuffers := rp_writeBuffers ?s2 @ [h']\<rparr>"
  have "tx_view ?s3 = (t', rp_writeBuffers s @ [h'], rp_sequence s + 1, data_sent s @ [h'])" by (simp add: tx_view_def rp_waitWritable_def)
  with tx_ok_next [of ds "rp_threadBuffers s" "rp_writeBuffers s" "rp_sequence s" "data_sent s" w h' t'] assms(2) h' Cons
  have nxt: "tx_ok (ds @ [h']) (tx_view ?s3) w" by (simp add: tx_view_def)
  have "rp_writeData C s = (if length (rp_children ?s3) = 1 then rp_finishWriteQueue (rp_sequence ?s3 - 1) ?s3 else Some ?s3)"
    by (simp add: rp_writeData_def Cons merge Let_def)
  with assms(1) nxt tx_finishWriteQueue [OF _ nxt] show ?thesis by (metis option.inject)
qed

lemma repeatLoop_mem: "rp_repeatLoop q wb ns = (ns', Some d) \<Longrightarrow> d \<in> set wb"
proof (induction q wb ns rule: rp_repeatLoop.induct)
  case (2 q wb n ns)
  let ?d = "unat (q - nk_start n)"
  show ?case
  proof (cases "?d = 0")
    case True
    with 2 show ?thesis by (simp add: Let_def)
  next
    case ne: False
    show ?thesis
    proof (cases "?d \<le> length wb")
      case True
      then have "length wb - ?d < length wb" using ne by linarith
      with 2(3) ne True show ?thesis by (auto simp: Let_def)
    next
      case False
      with 2(2) [OF refl refl ne False] 2(3) ne show ?thesis by (simp add: Let_def)
    qed
  qed
qed simp

lemma tx_repeatData: "tx_ok ds (tx_view s) w \<Longrightarrow> tx_ok ds (tx_view (rp_repeatData s)) w"
proof -
  assume ok: "tx_ok ds (tx_view s) w"
  obtain q sent where loop: "rp_repeatLoop (rp_sequence s) (rp_writeBuffers s) (rp_repeatQueue s) = (q, sent)" by fastforce
  show ?thesis
  proof (cases sent)
    case None
    with ok loop show ?thesis by (simp add: rp_repeatData_def tx_view_def Let_def)
  next
    case (Some d)
    with repeatLoop_mem loop have "d \<in> set (rp_writeBuffers s)" by blast
    with ok loop Some show ?thesis by (simp add: rp_repeatData_def rp_waitWritable_def tx_view_def Let_def tx_ok_repeat)
  qed
qed

lemma tx_processOutgoing:
  assumes "rp_processOutgoing C s = Some s'" and "tx_ok ds (tx_view s) w" and "uint (rc_payloadSize C) < 65536"
  shows "\<exists>ds'. tx_ok ds' (tx_view s') w"
proof -
  obtain t where t: "(if rp_repeatQueue s \<noteq> [] then Some (rp_repeatData s) else rp_writeData C s) = Some t"
    using assms(1) by (auto simp: rp_processOutgoing_def split: option.splits if_splits)
  then obtain ds' where "tx_ok ds' (tx_view t) w"
    using tx_repeatData [OF assms(2)] tx_writeData [OF _ assms(2,3)] by (auto split: if_splits)
  moreover have "tx_view s' = tx_view t"
    using assms(1) t by (auto simp: rp_processOutgoing_def Let_def view_simps split: if_splits)
  ultimately show ?thesis by auto
qed

lemma tx_handleAck:
  assumes "rp_handleAck C packet s = Some s'" and "tx_ok ds (tx_view s) w"
  shows "tx_ok ds (tx_view s') w"
proof (cases "length packet < 8 \<or> field16 2 packet \<noteq> rp_id s \<or> rp_findConnection (field16 1 packet) s = None")
  case True
  then have "rp_handleAck C packet s = Some s" by (auto simp: rp_handleAck_def Let_def)
  with assms show ?thesis by simp
next
  case False
  then obtain c where c: "rp_findConnection (field16 1 packet) s = Some c" by blast
  let ?s = "(rp_updateChild (field16 1 packet) (c\<lparr>ch_acked := field16 3 packet\<rparr>) s)\<lparr>rp_timeouts := 0\<rparr>"
  have ok: "tx_ok ds (tx_view ?s) w" using assms(2) by (simp add: view_simps)
  have "rp_handleAck C packet s \<in> {Some s, None, Some ?s, rp_finishWriteQueue (min_acked C (rp_id ?s) (rp_children ?s) (field16 3 packet)) ?s}"
    using False c unfolding rp_handleAck_def Let_def
    by (simp only: option.case if_False split: option.split) (simp split: option.split)
  with assms ok tx_finishWriteQueue [OF _ ok] show ?thesis by auto
qed

lemma tx_handleConnectedData:
  "rp_handleConnectedData C packet stale s = Some s' \<Longrightarrow> tx_ok ds (tx_view s) w \<Longrightarrow> tx_ok ds (tx_view s') w"
  by (auto simp: rp_handleConnectedData_def Let_def view_simps dest: tx_handleAck view_handleAckRequest split: if_splits)

lemma unat_less_of_uint: "uint (x :: uint32) < 65536 \<Longrightarrow> unat x < 65536"
proof -
  assume "uint x < 65536"
  then have "int (unat x) < 65536" by simp
  then show ?thesis by (simp only: of_nat_less_numeral_iff)
qed

lemma writeLoop_appends:
  "rp_writeLoop n C bs s = Some (True, s') \<Longrightarrow> uint (rc_payloadSize C) < 65536 \<Longrightarrow>
   \<exists>t. tx_view s' = (rp_threadBuffers s @ t, rp_writeBuffers s, rp_sequence s, data_sent s) \<and> list_all packet_ok t \<and>
       payloads t = take (n * unat (rc_payloadSize C)) bs"
proof (induction n C bs s rule: rp_writeLoop.induct)
  case (1 C bs s)
  then show ?case by (simp add: tx_view_def)
next
  case (2 n C bs s)
  let ?m = "min (length bs) (unat (rc_payloadSize C))"
  let ?d = "\<lparr>dd_size = of_nat ?m, dd_writerID = rp_id s, dd_sequence = 0, dd_payload = take ?m bs\<rparr>"
  obtain rest where app: "rp_appBuffers s = True # rest" "rp_writeLoop n C (drop ?m bs)
      (s\<lparr>rp_appBuffers := rest, rp_threadBuffers := rp_threadBuffers s @ [?d]\<rparr>) = Some (True, s')"
    using "2.prems"(1) by (simp add: Let_def split: list.split_asm bool.split_asm)
  have "unat (rc_payloadSize C) < 65536" using "2.prems"(2) by (rule unat_less_of_uint)
  then have "packet_ok ?d" by (simp add: packet_ok_def unsigned_of_nat take_bit_nat_eq_self_iff min_less_iff_disj)
  moreover have "take ?m bs @ take (n * unat (rc_payloadSize C)) (drop ?m bs) = take (Suc n * unat (rc_payloadSize C)) bs"
    by (simp add: take_add min_def)
  ultimately show ?case
    using "2.IH" [OF refl app(1) refl app(2) "2.prems"(2)] by (force simp: tx_view_def)
qed


text \<open>
  The life of a writer: the threads' start, packets, timeouts, accepted children and passing time until it is
  stopped, with the data its application has written. The timeout that gives up the connection after all readers
  failed is not a step: it drops the waiting data.
\<close>

inductive tx :: "rsp_config \<Rightarrow> rsp \<Rightarrow> bytes \<Rightarrow> bool" for C where
  init: "rp_threadBuffers s = [] \<Longrightarrow> rp_writeBuffers s = [] \<Longrightarrow> rp_sequence s = 0 \<Longrightarrow> rp_sent s = [] \<Longrightarrow> tx C s []"
| initThread: "tx C s w \<Longrightarrow> tx C (rp_initThread s) w"
| runThread: "tx C s w \<Longrightarrow> tx C (rp_runThread s) w"
| accept: "tx C s w \<Longrightarrow> tx C (snd (rp_acceptSync s)) w"
| app_write: "tx C s w \<Longrightarrow> rp_write C bs s = Some (r, s') \<Longrightarrow> r \<noteq> - 1 \<Longrightarrow> tx C s' (w @ bs)"
| clock: "tx C s w \<Longrightarrow> rp_clock s \<le> now \<Longrightarrow> tx C (s\<lparr>rp_clock := now\<rparr>) w"
| packet: "tx C s w \<Longrightarrow> rp_handlePacket C packet stale s = Some s' \<Longrightarrow> tx C s' w"
| timeout: "tx C s w \<Longrightarrow> rp_handleTimeout C s = Some s' \<Longrightarrow> rp_isListening s \<longrightarrow> \<not> rp_stopped s' \<Longrightarrow> tx C s' w"

lemma view_threads [view_simps]:
  "tx_view (rp_initThread s) = tx_view s" "tx_view (rp_runThread s) = tx_view s"
  "tx_view (snd (rp_acceptSync s)) = tx_view s" "tx_view (rp_handleAcceptIDTimeout C s) = tx_view s"
  "tx_view (rp_handleInitTimeout s) = tx_view s" "tx_view (rp_handleAcceptIDData C p s) = tx_view s"
  by (simp_all add: rp_initThread_def rp_runThread_def rp_acceptSync_def rp_handleAcceptIDTimeout_def
      rp_handleInitTimeout_def rp_handleAcceptIDData_def Let_def view_simps split: option.split)

lemma nDatagrams_enough: "0 < rc_payloadSize C \<Longrightarrow> length bs \<le> rp_nDatagrams C bs * unat (rc_payloadSize C)"
proof -
  assume "0 < rc_payloadSize C"
  then have p: "0 < unat (rc_payloadSize C)" by (simp add: unat_gt_0 word_gt_0)
  let ?p = "unat (rc_payloadSize C)"
  have "length bs = length bs div ?p * ?p + length bs mod ?p" by simp
  moreover have "length bs mod ?p < ?p" using p by simp
  ultimately have "length bs \<le> Suc (length bs div ?p) * ?p" by (metis add.commute add_le_cancel_left less_imp_le_nat mult_Suc)
  then show ?thesis by (simp add: rp_nDatagrams_def Let_def)
qed

lemma tx_write:
  assumes "rp_write C bs s = Some (r, s')" and "r \<noteq> - 1" and "tx_ok ds (tx_view s) w"
    and "0 < rc_payloadSize C" and "uint (rc_payloadSize C) < 65536"
  shows "tx_ok ds (tx_view s') (w @ bs)"
proof -
  have "rp_writeLoop (rp_nDatagrams C bs) C bs s = Some (True, s')"
    using assms(1,2) by (auto simp: rp_write_def split: option.splits bool.splits prod.splits)
  from writeLoop_appends [OF this assms(5)] nDatagrams_enough [OF assms(4), of bs] obtain t
    where "tx_view s' = (rp_threadBuffers s @ t, rp_writeBuffers s, rp_sequence s, data_sent s)"
      "list_all packet_ok t" "payloads t = bs" by auto
  with assms(3) show ?thesis by (simp add: tx_view_def tx_ok_write)
qed

lemma tx_handlePacket:
  assumes "rp_handlePacket C packet stale s = Some s'" and "tx_ok ds (tx_view s) w" and "uint (rc_payloadSize C) < 65536"
  shows "\<exists>ds'. tx_ok ds' (tx_view s') w"
proof (cases "rp_isListening s")
  case False
  then have "tx_view s' = tx_view s"
    using assms(1) by (auto simp: rp_handlePacket_def view_simps split: if_splits)
  with assms(2) show ?thesis by metis
next
  case True
  with assms(1) obtain t where t: "rp_handleConnectedData C packet stale s = Some t"
    "(if rp_isListening t then rp_processOutgoing C t else Some (t\<lparr>rp_stopped := True\<rparr>)) = Some s'"
    by (simp add: rp_handlePacket_def split: option.split_asm)
  from tx_handleConnectedData [OF t(1) assms(2)] have ok: "tx_ok ds (tx_view t) w" .
  show ?thesis
  proof (cases "rp_isListening t")
    case True
    with t(2) tx_processOutgoing [OF _ ok assms(3)] show ?thesis by simp
  next
    case False
    then have "s' = t\<lparr>rp_stopped := True\<rparr>" using t(2) by simp
    with ok show ?thesis by (metis view_updates(6))
  qed
qed

lemma tx_handleTimeout:
  assumes "rp_handleTimeout C s = Some s'" and "rp_isListening s \<longrightarrow> \<not> rp_stopped s'" and "tx_ok ds (tx_view s) w"
    and "uint (rc_payloadSize C) < 65536"
  shows "\<exists>ds'. tx_ok ds' (tx_view s') w"
proof (cases "rp_isListening s")
  case False
  then have "tx_view s' = tx_view s" using assms(1) by (auto simp: rp_handleTimeout_def view_simps split: if_splits)
  with assms(3) show ?thesis by metis
next
  case True
  with assms(1) have "rp_handleConnectedTimeout C s = Some s'" by (simp add: rp_handleTimeout_def)
  with True obtain t where t: "rp_processOutgoing C s = Some t"
    and s': "s' = t \<or> rp_stopped s' \<or> s' = (fold rp_removeFailed (rp_children t) t)\<lparr>rp_timeouts := 0\<rparr>"
    by (auto simp: rp_handleConnectedTimeout_def Let_def split: option.split_asm if_split_asm)
  have "tx_view s' = tx_view t" using s' True assms(2) by (auto simp: view_simps)
  with tx_processOutgoing [OF t assms(3,4)] show ?thesis by simp
qed

lemma tx_invariant:
  assumes "tx C s w" and "0 < rc_payloadSize C" and "uint (rc_payloadSize C) < 65536"
  shows "\<exists>ds. tx_ok ds (tx_view s) w"
  using assms(1)
proof induction
  case (init s)
  then show ?case by (intro exI [of _ "[]"]) (simp add: tx_ok_def tx_view_def data_sent_def)
next
  case (app_write s w bs r s')
  with tx_write assms(2,3) show ?case by blast
next
  case (packet s w p stale s')
  with tx_handlePacket assms(3) show ?case by blast
next
  case (timeout s w s')
  with tx_handleTimeout assms(3) show ?case by blast
qed (simp_all add: view_simps)

text \<open>C33 (rsp_sender_stream): whatever packets and timeouts a writer handles, the datagrams it has transmitted and
  repeated form one stream with consecutive sequence numbers, which together with the data still waiting carries
  exactly the bytes the application has written; the buffers kept for repetition are the end of that stream. It
  holds until the timeout that gives up the connection after all readers failed, which drops the waiting data.\<close>

theorem rsp_sender_stream:
  assumes "tx C s w" and "0 < rc_payloadSize C" and "uint (rc_payloadSize C) < 65536"
  shows "\<exists>ds. (\<forall>n < length ds. dd_sequence (ds ! n) = of_nat n \<and> unat (dd_size (ds ! n)) = length (dd_payload (ds ! n))) \<and>
              {d. Data d \<in> set (rp_sent s)} = set ds \<and> rp_sequence s = of_nat (length ds) \<and>
              (\<exists>r. rp_writeBuffers s = drop r ds) \<and>
              concat (map dd_payload ds) @ concat (map dd_payload (rp_threadBuffers s)) = w"
proof -
  obtain ds where "tx_ok ds (tx_view s) w" using tx_invariant [OF assms] by blast
  moreover have "set (data_sent s) = {d. Data d \<in> set (rp_sent s)}"
    by (force simp: data_sent_def split: datagram.splits)
  ultimately show ?thesis
    by (intro exI [of _ ds]) (simp add: tx_ok_def tx_view_def packet_ok_def payloads_def)
qed


definition sample_writer :: rsp where
  "sample_writer =
     \<lparr>rp_id = 7, rp_idAccepted = True, rp_state = STATE_LISTENING, rp_timeouts = 0, rp_sequence = 0, rp_threadBuffers = [],
      rp_appBuffers = [True, True, True, True], rp_writeBuffers = [], rp_repeatQueue = [],
      rp_children = [ch_new sample_rsp_config 7 0, ch_new sample_rsp_config 9 0], rp_newChildren = [], rp_event = False,
      rp_timeout = None, rp_clock = 0, rp_stopped = False, rp_rng = (\<lambda>_. 5), rp_drawn = 0, rp_sent = []\<rparr>"

theorem rsp_sender_stream_witness:
  "\<exists>r s'. rp_write sample_rsp_config [1, 2, 3] sample_writer = Some (r, s') \<and>
     (\<exists>ds. (\<forall>n < length ds. dd_sequence (ds ! n) = of_nat n \<and> unat (dd_size (ds ! n)) = length (dd_payload (ds ! n))) \<and>
           {d. Data d \<in> set (rp_sent s')} = set ds \<and> rp_sequence s' = of_nat (length ds) \<and>
           (\<exists>r. rp_writeBuffers s' = drop r ds) \<and>
           concat (map dd_payload ds) @ concat (map dd_payload (rp_threadBuffers s')) = [1, 2, 3])"
proof -
  have "\<exists>s'. rp_write sample_rsp_config [1, 2, 3] sample_writer = Some (3, s')"
    by (simp add: rp_write_def rp_nDatagrams_def sample_writer_def sample_rsp_config_def Let_def)
  then obtain s' where s': "rp_write sample_rsp_config [1, 2, 3] sample_writer = Some (3, s')" by blast
  have "tx sample_rsp_config sample_writer []" by (rule tx.init) (simp_all add: sample_writer_def)
  from rsp_sender_stream [OF tx.app_write [OF this s']] s' show ?thesis
    by (simp add: sample_rsp_config_def)
qed

end
