(* ===== verification/RSP_Acks.thy ===== *)
theory RSP_Acks
  imports RSP_Writer
begin

text \<open>
  Acknowledgements of the reliable stream protocol: which datagrams \<^verbatim>\<open>_handleAck\<close> releases, and the
  reader it does not wait for.
\<close>

section \<open>Comparing acknowledgements modulo \<open>2 ^ 16\<close>\<close>

text \<open>The acknowledgement of the first \<open>n\<close> datagrams.\<close>

abbreviation ack_of :: "nat \<Rightarrow> uint16" where
  "ack_of n \<equiv> of_nat n - 1"

lemma ack_distance: "m \<le> n \<Longrightarrow> n < m + 65536 \<Longrightarrow> unat (ack_of n - ack_of m) = n - m"
  using seq_distance [of m n] by simp

lemma ack_distance_back: "n < m \<Longrightarrow> m < n + 65536 \<Longrightarrow> unat (ack_of n - ack_of m) = 65536 - (m - n)"
proof -
  assume "n < m" "m < n + 65536"
  then have "unat (of_nat (n + 65536) - of_nat m :: uint16) = n + 65536 - m"
    by (intro seq_distance) simp_all
  moreover have "(65536 :: uint16) = 0" by simp
  then have "ack_of n - ack_of m = of_nat (n + 65536) - of_nat m" by (simp only: of_nat_add of_nat_numeral) simp
  ultimately have "unat (ack_of n - ack_of m) = n + 65536 - m" by (simp only:)
  with \<open>n < m\<close> show ?thesis by simp
qed

lemma ack_older:
  assumes "n \<le> m + unat B" and "m \<le> n + unat B" and "unat B < 32768"
  shows "ack_of n - ack_of m > B \<longleftrightarrow> n < m"
proof (cases "n < m")
  case True
  with assms ack_distance_back [of n m] have "unat B < unat (ack_of n - ack_of m)" by simp
  with True show ?thesis by (simp add: word_less_nat_alt)
next
  case False
  with assms ack_distance [of m n] have "unat (ack_of n - ack_of m) \<le> unat B" by simp
  with False show ?thesis by (simp add: word_less_nat_alt)
qed

lemma fresh_ack:
  assumes "m < n" and "n \<le> m + unat B" and "unat B < 32768"
  shows "\<not> (ack_of m \<ge> ack_of n \<and> uint (ack_of m) - uint (ack_of n) \<le> uint B)"
proof
  assume le: "ack_of m \<ge> ack_of n \<and> uint (ack_of m) - uint (ack_of n) \<le> uint B"
  then have "uint (ack_of m - ack_of n) = uint (ack_of m) - uint (ack_of n)" by (simp add: uint_sub_lem word_le_def)
  moreover have "unat (ack_of m - ack_of n) = 65536 - (n - m)" using ack_distance_back [of m n] assms by simp
  moreover have "uint (ack_of m - ack_of n) = int (unat (ack_of m - ack_of n))" "uint B = int (unat B)" by simp_all
  ultimately have "int (65536 - (n - m)) \<le> int (unat B)" using le by metis
  then have "65536 - (n - m) \<le> unat B" by (simp only: of_nat_le_iff)
  with assms show False by linarith
qed

section \<open>What is released\<close>

text \<open>
  The acknowledgement state of a writer that has sent \<open>N\<close> datagrams and released \<open>R\<close> of them: reader \<open>j\<close>
  has acknowledged \<open>a j\<close>, and the own child stands for what was released.
\<close>

definition ack_ok :: "rsp_config \<Rightarrow> rsp \<Rightarrow> nat \<Rightarrow> nat \<Rightarrow> (uint16 \<Rightarrow> nat) \<Rightarrow> bool" where
  "ack_ok C s N R a \<longleftrightarrow>
     rp_sequence s = of_nat N \<and> R \<le> N \<and> N - R \<le> unat (rc_numBuffers C) \<and> length (rp_writeBuffers s) = N - R \<and>
     distinct (map ch_id (rp_children s)) \<and>
     (\<exists>self \<in> set (rp_children s). ch_id self = rp_id s \<and> ch_sequence self = of_nat R \<and> ch_acked self = ack_of R) \<and>
     (\<forall>c \<in> set (rp_children s). ch_id c \<noteq> rp_id s \<longrightarrow> R \<le> a (ch_id c) \<and> a (ch_id c) \<le> N \<and> ch_acked c = ack_of (a (ch_id c)))"

lemma find_child: "distinct (map ch_id cs) \<Longrightarrow> c \<in> set cs \<Longrightarrow> List.find (\<lambda>d. ch_id d = ch_id c) cs = Some c"
  by (induction cs) (auto simp: rev_image_eqI)

lemma find_child_mem: "List.find (\<lambda>d. ch_id d = i) cs = Some c \<Longrightarrow> c \<in> set cs \<and> ch_id c = i"
  by (auto simp: find_Some_iff)

lemma update_child_ids: "ch_id c = i \<Longrightarrow> map ch_id (update_child i c cs) = map ch_id cs"
  by (induction cs) auto

lemma update_child_set:
  "distinct (map ch_id cs) \<Longrightarrow> d \<in> set cs \<Longrightarrow> ch_id d = i \<Longrightarrow> set (update_child i c cs) = insert c (set cs - {d})"
proof (induction cs)
  case (Cons b cs)
  show ?case
  proof (cases "ch_id b = i")
    case True
    with Cons.prems have "b = d" by (auto simp: rev_image_eqI)
    with Cons.prems True show ?thesis by (auto simp: rev_image_eqI)
  next
    case False
    with Cons show ?thesis by auto
  qed
qed simp

lemma min_acked_least:
  assumes "\<forall>c \<in> set cs. ch_id c \<noteq> own \<longrightarrow> R \<le> a (ch_id c) \<and> a (ch_id c) \<le> N \<and> ch_acked c = ack_of (a (ch_id c))"
    and "R \<le> m" and "m \<le> N" and "N - R \<le> unat (rc_numBuffers C)" and "unat (rc_numBuffers C) < 32768"
  shows "\<exists>m'. min_acked C own cs (ack_of m) = ack_of m' \<and> R \<le> m' \<and> m' \<le> m \<and>
              (\<forall>c \<in> set cs. ch_id c \<noteq> own \<longrightarrow> m' \<le> a (ch_id c)) \<and>
              (m' = m \<or> (\<exists>c \<in> set cs. ch_id c \<noteq> own \<and> m' = a (ch_id c)))"
  using assms(1-3)
proof (induction cs arbitrary: m)
  case Nil
  then show ?case by (auto simp: min_acked_def)
next
  case (Cons c cs)
  define n where "n = (if ch_id c \<noteq> own \<and> a (ch_id c) < m then a (ch_id c) else m)"
  have "ch_id c \<noteq> own \<Longrightarrow> ch_acked c - ack_of m > rc_numBuffers C \<longleftrightarrow> a (ch_id c) < m"
  proof -
    assume "ch_id c \<noteq> own"
    with Cons.prems(1) have c: "R \<le> a (ch_id c)" "a (ch_id c) \<le> N" "ch_acked c = ack_of (a (ch_id c))" by simp_all
    have "a (ch_id c) \<le> m + unat (rc_numBuffers C)" "m \<le> a (ch_id c) + unat (rc_numBuffers C)"
      using c(1,2) Cons.prems(2,3) assms(4) by linarith+
    from ack_older [OF this assms(5)] show ?thesis unfolding c(3) .
  qed
  then have "(if ch_id c \<noteq> own \<and> ch_acked c - ack_of m > rc_numBuffers C then ch_acked c else ack_of m) = ack_of n"
    using Cons.prems(1) unfolding n_def by (cases "ch_id c = own") simp_all
  then have step: "min_acked C own (c # cs) (ack_of m) = min_acked C own cs (ack_of n)"
    by (simp only: min_acked_def fold_Cons o_apply)
  have n: "R \<le> n" "n \<le> N" "n \<le> m" using Cons.prems by (auto simp: n_def)
  from Cons.IH [OF _ n(1,2)] Cons.prems(1) obtain m' where m': "min_acked C own cs (ack_of n) = ack_of m'" "R \<le> m'" "m' \<le> n"
    "\<forall>c \<in> set cs. ch_id c \<noteq> own \<longrightarrow> m' \<le> a (ch_id c)" "m' = n \<or> (\<exists>c \<in> set cs. ch_id c \<noteq> own \<and> m' = a (ch_id c))" by auto
  then show ?case unfolding step by (intro exI [of _ m']) (auto simp: n_def split: if_splits)
qed


text \<open>The own child receives what is released.\<close>

lemma finishWriteQueue_releases:
  assumes "ack_ok C s N R a" and "R \<le> m" and "m \<le> N" and "rp_finishWriteQueue (ack_of m) s = Some s'"
    and "unat (rc_numBuffers C) < 32768" and "\<forall>c \<in> set (rp_children s). ch_id c \<noteq> rp_id s \<longrightarrow> m \<le> a (ch_id c)"
  shows "ack_ok C s' N m a \<and> rp_writeBuffers s' = drop (m - R) (rp_writeBuffers s)"
proof -
  obtain self where self: "self \<in> set (rp_children s)" "ch_id self = rp_id s" "ch_sequence self = of_nat R"
    using assms(1) by (auto simp: ack_ok_def)
  have dist: "distinct (map ch_id (rp_children s))" using assms(1) by (simp add: ack_ok_def)
  have found: "rp_findConnection (rp_id s) s = Some self"
    using find_child [OF dist self(1)] self(2) by (simp add: rp_findConnection_def)
  have len: "length (rp_writeBuffers s) = N - R" "N - R \<le> unat (rc_numBuffers C)" "rp_sequence s = of_nat N" "R \<le> N"
    using assms(1) by (simp_all add: ack_ok_def)
  have "rp_sequence s - ack_of m - 1 = of_nat N - of_nat m" using len by simp
  then have size: "unat (rp_sequence s - ack_of m - 1) = N - m"
    using seq_distance [of m N] assms(2,3,5) len by simp
  have n: "length (rp_writeBuffers s) - unat (rp_sequence s - ack_of m - 1) = m - R" using size len assms(2,3) by simp
  let ?ds = "take (m - R) (rp_writeBuffers s)"
  let ?self = "ch_selfReceive ?ds self"
  have s': "s' = (rp_updateChild (rp_id s) ?self s)\<lparr>rp_writeBuffers := drop (m - R) (rp_writeBuffers s),
      rp_appBuffers := rp_appBuffers s @ replicate (m - R) True, rp_timeouts := 0\<rparr>"
    using assms(4) unfolding rp_finishWriteQueue_def found Let_def n by (simp split: if_splits)
  have id: "ch_id ?self = rp_id s" using self(2) by (simp add: ch_selfReceive_def Let_def)
  have ids: "map ch_id (rp_children s') = map ch_id (rp_children s)"
    using update_child_ids [OF id] by (simp add: s' rp_updateChild_def)
  have set': "set (rp_children s') = insert ?self (set (rp_children s) - {self})"
    using update_child_set [OF dist self(1,2)] by (simp add: s' rp_updateChild_def)
  have "length ?ds = m - R" using len assms(3) by simp
  then have "ch_sequence ?self = of_nat R + of_nat (m - R)" "ch_acked ?self = of_nat R + of_nat (m - R) - 1"
    using self(3) by (simp_all add: ch_selfReceive_def Let_def)
  then have own: "ch_sequence ?self = of_nat m" "ch_acked ?self = ack_of m" using assms(2) by (simp_all flip: of_nat_add)
  have fields: "rp_id s' = rp_id s" "rp_sequence s' = rp_sequence s" by (simp_all add: s' rp_updateChild_def)
  have "ack_ok C s' N m a"
    using assms(1-3,6) own id set' ids fields unfolding ack_ok_def
    by (auto simp: s' rp_updateChild_def)
  then show ?thesis by (simp add: s')
qed


lemma ack_fields:
  "field16 1 (encode (Ack i w q)) = i" "field16 2 (encode (Ack i w q)) = w" "field16 3 (encode (Ack i w q)) = q"
  "length (encode (Ack i w q)) = 8"
  by simp_all

lemma ack_ok_child:
  assumes "ack_ok C s N R a" and "rp_findConnection i s = Some c" and "i \<noteq> rp_id s" and "R \<le> k" and "k \<le> N"
  shows "ack_ok C ((rp_updateChild i (c\<lparr>ch_acked := ack_of k\<rparr>) s)\<lparr>rp_timeouts := 0\<rparr>) N R (a(i := k))"
proof -
  have c: "c \<in> set (rp_children s)" "ch_id c = i" using find_child_mem assms(2) by (auto simp: rp_findConnection_def)
  have dist: "distinct (map ch_id (rp_children s))" using assms(1) by (simp add: ack_ok_def)
  have ids: "map ch_id (update_child i (c\<lparr>ch_acked := ack_of k\<rparr>) (rp_children s)) = map ch_id (rp_children s)"
    using c(2) by (intro update_child_ids) simp
  have set': "set (update_child i (c\<lparr>ch_acked := ack_of k\<rparr>) (rp_children s)) =
      insert (c\<lparr>ch_acked := ack_of k\<rparr>) (set (rp_children s) - {c})"
    using update_child_set [OF dist c] .
  have others: "d \<in> set (rp_children s) - {c} \<Longrightarrow> ch_id d \<noteq> i" for d
    using dist c by (auto simp: distinct_map dest: inj_onD)
  show ?thesis
    using assms(1,3-5) c(2) ids set' others unfolding ack_ok_def rp_updateChild_def by auto
qed

text \<open>A packet that is the acknowledgement of the first \<open>k\<close> datagrams from reader \<open>i\<close> to writer \<open>w\<close>.\<close>

definition is_ack :: "bytes \<Rightarrow> uint16 \<Rightarrow> uint16 \<Rightarrow> nat \<Rightarrow> bool" where
  "is_ack packet i w k \<longleftrightarrow>
     length packet \<ge> 8 \<and> field16 1 packet = i \<and> field16 2 packet = w \<and> field16 3 packet = ack_of k"

lemma handleAck_releases:
  assumes "ack_ok C s N R a" and "unat (rc_numBuffers C) < 32768" and "i \<noteq> rp_id s" and "R \<le> k" and "k \<le> N"
    and "is_ack packet i (rp_id s) k" and "rp_handleAck C packet s = Some s'"
  shows "\<exists>R' a'. ack_ok C s' N R' a' \<and> R \<le> R' \<and> rp_writeBuffers s' = drop (R' - R) (rp_writeBuffers s) \<and>
           (\<forall>j. j \<noteq> i \<longrightarrow> a' j = a j) \<and> a' i \<in> {a i, k} \<and>
           (rp_findConnection i s \<noteq> None \<and> a i < k \<longrightarrow>
              a' i = k \<and> (\<exists>c \<in> set (rp_children s). ch_id c \<noteq> rp_id s \<and> R' = a' (ch_id c)))"
proof (cases "rp_findConnection i s")
  case None
  then have "s' = s" using assms(6,7) by (simp add: rp_handleAck_def is_ack_def)
  with assms(1) None show ?thesis by (intro exI [of _ R] exI [of _ a]) simp
next
  case (Some c)
  have c: "c \<in> set (rp_children s)" "ch_id c = i" using find_child_mem Some by (auto simp: rp_findConnection_def)
  with assms(1,3) have acked: "R \<le> a i" "a i \<le> N" "ch_acked c = ack_of (a i)" by (auto simp: ack_ok_def)
  have win: "N - R \<le> unat (rc_numBuffers C)" using assms(1) by (simp add: ack_ok_def)
  let ?old = "ch_acked c \<ge> ack_of k \<and> uint (ch_acked c) - uint (ack_of k) \<le> uint (rc_numBuffers C)"
  have fresh: "a i < k \<Longrightarrow> \<not> ?old"
    using fresh_ack [of "a i" k "rc_numBuffers C"] acked assms(2,5) win by simp
  show ?thesis
  proof (cases ?old)
    case True
    then have "s' = s" using assms(6,7) Some by (simp add: rp_handleAck_def is_ack_def)
    with assms(1) fresh True show ?thesis by (intro exI [of _ R] exI [of _ a]) auto
  next
    case False
    let ?s = "(rp_updateChild i (c\<lparr>ch_acked := ack_of k\<rparr>) s)\<lparr>rp_timeouts := 0\<rparr>"
    let ?a = "a(i := k)"
    note ok = ack_ok_child [OF assms(1) Some assms(3-5)]
    have id: "rp_id ?s = rp_id s" "rp_writeBuffers ?s = rp_writeBuffers s" by (simp_all add: rp_updateChild_def)
    from min_acked_least [of "rp_children ?s" "rp_id ?s" R ?a N k C] ok assms(2,4,5) obtain m where
      m: "min_acked C (rp_id ?s) (rp_children ?s) (ack_of k) = ack_of m" "R \<le> m" "m \<le> k"
      "\<forall>c \<in> set (rp_children ?s). ch_id c \<noteq> rp_id ?s \<longrightarrow> m \<le> ?a (ch_id c)"
      "m = k \<or> (\<exists>c \<in> set (rp_children ?s). ch_id c \<noteq> rp_id ?s \<and> m = ?a (ch_id c))"
      by (auto simp: ack_ok_def)
    obtain self where self: "rp_findConnection (rp_id ?s) ?s = Some self" "ch_acked self = ack_of R"
      using ok find_child unfolding ack_ok_def rp_findConnection_def by metis
    have "unat (ack_of m - ack_of R) = m - R" using ack_distance [of R m] m assms(2,5) win by simp
    then have "ack_of m - ch_acked self \<le> rc_numBuffers C" using m(3) assms(5) win self(2) by (simp add: word_le_nat_alt)
    then have fin: "rp_finishWriteQueue (ack_of m) ?s = Some s'"
      using assms(6,7) Some False self(1) m(1) by (simp add: rp_handleAck_def is_ack_def Let_def)
    have mN: "m \<le> N" using m(3) assms(5) by simp
    have "ack_ok C s' N m ?a \<and> rp_writeBuffers s' = drop (m - R) (rp_writeBuffers s)"
      using finishWriteQueue_releases [OF ok m(2) mN fin assms(2) m(4)] unfolding id(2) .
    moreover have "ch_id ` set (rp_children ?s) = ch_id ` set (rp_children s)"
      using update_child_ids [of "c\<lparr>ch_acked := ack_of k\<rparr>" i "rp_children s"] c(2)
      by (simp add: rp_updateChild_def flip: set_map)
    then have "\<exists>c \<in> set (rp_children s). ch_id c \<noteq> rp_id s \<and> m = ?a (ch_id c)"
    proof (cases "m = k")
      case True
      with c assms(3) show ?thesis by (intro bexI [of _ c]) auto
    next
      case False
      with m(5) obtain d :: rsp_child where "ch_id d \<in> ch_id ` set (rp_children ?s)" "ch_id d \<noteq> rp_id s" "m = ?a (ch_id d)"
        unfolding id(1) by blast
      with \<open>ch_id ` set (rp_children ?s) = ch_id ` set (rp_children s)\<close> show ?thesis by (simp only:) (metis imageE)
    qed
    ultimately show ?thesis using m(2) by (intro exI [of _ m] exI [of _ ?a]) simp
  qed
qed


section \<open>The acknowledgement state of a running writer\<close>

text \<open>
  A writer whose readers have joined before its first datagram: \<open>N\<close> counts the datagrams sent, \<open>E\<close> holds the
  acknowledgements received. Its application writes, its thread sends and repeats, readers acknowledge datagrams that
  were sent and not yet released, and it handles nacks, ack requests and data of the other members.
\<close>

inductive ack_run :: "rsp_config \<Rightarrow> rsp \<Rightarrow> nat \<Rightarrow> (uint16 \<times> nat) set \<Rightarrow> bool" for C where
  start: "rp_sequence s = 0 \<Longrightarrow> rp_threadBuffers s = [] \<Longrightarrow> rp_writeBuffers s = [] \<Longrightarrow>
          length (filter id (rp_appBuffers s)) \<le> unat (rc_numBuffers C) \<Longrightarrow> distinct (map ch_id (rp_children s)) \<Longrightarrow>
          \<exists>self \<in> set (rp_children s). ch_id self = rp_id s \<and> ch_sequence self = 0 \<Longrightarrow>
          \<forall>c \<in> set (rp_children s). ch_acked c = - 1 \<Longrightarrow> ack_run C s 0 {}"
| app_write: "ack_run C s N E \<Longrightarrow> rp_write C bs s = Some (r, s') \<Longrightarrow> ack_run C s' N E"
| outgoing: "ack_run C s N E \<Longrightarrow> rp_processOutgoing C s = Some s' \<Longrightarrow> N' \<in> {N, Suc N} \<Longrightarrow> rp_sequence s' = of_nat N' \<Longrightarrow>
             ack_run C s' N' E"
| ack: "ack_run C s N E \<Longrightarrow> i \<noteq> rp_id s \<Longrightarrow> is_ack packet i (rp_id s) k \<Longrightarrow> N - length (rp_writeBuffers s) \<le> k \<Longrightarrow> k \<le> N \<Longrightarrow>
        rp_handleAck C packet s = Some s' \<Longrightarrow> ack_run C s' N (insert (i, k) E)"
| nack: "ack_run C s N E \<Longrightarrow> ack_run C (rp_handleNack memory s) N E"
| request: "ack_run C s N E \<Longrightarrow> rp_handleAckRequest C packet s = Some s' \<Longrightarrow> ack_run C s' N E"
| data: "ack_run C s N E \<Longrightarrow> dd_writerID (decode_data packet) \<noteq> rp_id s \<Longrightarrow> ack_run C (rp_handleData C packet s) N E"
| clock: "ack_run C s N E \<Longrightarrow> rp_clock s \<le> now \<Longrightarrow> ack_run C (s\<lparr>rp_clock := now\<rparr>) N E"

text \<open>Every buffer of the writer is empty, waiting or kept for repetition.\<close>

definition buffers_ok :: "rsp_config \<Rightarrow> rsp \<Rightarrow> bool" where
  "buffers_ok C s \<longleftrightarrow>
     length (filter id (rp_appBuffers s)) + length (rp_threadBuffers s) + length (rp_writeBuffers s) \<le> unat (rc_numBuffers C)"

text \<open>What a reader has acknowledged is an acknowledgement that was received.\<close>

definition acks_from :: "rsp \<Rightarrow> (uint16 \<times> nat) set \<Rightarrow> (uint16 \<Rightarrow> nat) \<Rightarrow> bool" where
  "acks_from s E a \<longleftrightarrow> (\<forall>c \<in> set (rp_children s). ch_id c \<noteq> rp_id s \<longrightarrow> a (ch_id c) = 0 \<or> (ch_id c, a (ch_id c)) \<in> E)"

definition ack_inv :: "rsp_config \<Rightarrow> rsp \<Rightarrow> nat \<Rightarrow> (uint16 \<times> nat) set \<Rightarrow> bool" where
  "ack_inv C s N E \<longleftrightarrow> buffers_ok C s \<and> (\<exists>R a. ack_ok C s N R a \<and> acks_from s E a)"

text \<open>The part of the state that matters for acknowledgements.\<close>

definition ack_view :: "rsp \<Rightarrow> uint16 \<times> uint16 \<times> rsp_child list \<times> datagram_data list \<times> nat" where
  "ack_view s = (rp_id s, rp_sequence s, rp_children s, rp_writeBuffers s,
     length (filter id (rp_appBuffers s)) + length (rp_threadBuffers s))"

lemma ack_inv_view: "ack_view s' = ack_view s \<Longrightarrow> ack_inv C s N E \<Longrightarrow> ack_inv C s' N E"
  by (simp add: ack_view_def ack_inv_def buffers_ok_def ack_ok_def acks_from_def)

lemma ack_view_frame [simp]:
  "ack_view (rp_send d s) = ack_view s" "ack_view (s\<lparr>rp_clock := t\<rparr>) = ack_view s" "ack_view (s\<lparr>rp_timeouts := n\<rparr>) = ack_view s"
  "ack_view (s\<lparr>rp_timeout := u\<rparr>) = ack_view s" "ack_view (s\<lparr>rp_repeatQueue := q\<rparr>) = ack_view s"
  by (simp_all add: ack_view_def rp_send_def)

lemma ack_view_sends [simp]:
  "ack_view (rp_sendAck w q s) = ack_view s" "ack_view (rp_sendAckRequest s) = ack_view s"
  "ack_view (rp_sendNack w ns s) = ack_view s" "ack_view (rp_addRepeat ns s) = ack_view s"
  "ack_view (rp_setTimeout ms s) = ack_view s" "ack_view (rp_waitWritable s) = ack_view s"
  "ack_view (rp_handleNack memory s) = ack_view s" "ack_view (rp_repeatData s) = ack_view s"
  by (simp_all add: rp_sendAck_def rp_sendAckRequest_def rp_sendNack_def rp_addRepeat_def rp_setTimeout_def
      rp_waitWritable_def rp_handleNack_def rp_repeatData_def Let_def split: option.split prod.split)

lemma ack_view_sendAcks [simp]: "ack_view (rp_sendAcks w acks s) = ack_view s"
  by (induction acks arbitrary: s) (simp_all add: rp_sendAcks_def)

lemma ack_view_request: "rp_handleAckRequest C packet s = Some s' \<Longrightarrow> ack_view s' = ack_view s"
  by (auto simp: rp_handleAckRequest_def Let_def split: option.splits if_splits)

lemma ack_view_writeLoop: "rp_writeLoop n C bs s = Some (b, s') \<Longrightarrow> ack_view s' = ack_view s"
proof (induction n C bs s rule: rp_writeLoop.induct)
  case (2 n C bs s)
  show ?case
  proof (cases "rp_appBuffers s")
    case (Cons e rest)
    with 2 show ?thesis by (cases e) (auto simp: Let_def ack_view_def)
  qed (use 2 in simp)
qed simp

lemma ack_view_write: "rp_write C bs s = Some (r, s') \<Longrightarrow> ack_view s' = ack_view s"
  by (auto simp: rp_write_def dest: ack_view_writeLoop split: option.splits prod.splits bool.splits)

text \<open>Data of another member changes neither its identifier nor its acknowledgements.\<close>

abbreviation acked_as :: "rsp_child \<Rightarrow> rsp_child \<Rightarrow> bool" where
  "acked_as c' c \<equiv> ch_id c' = ch_id c \<and> ch_acked c' = ch_acked c"

lemma pushPending_acked: "acked_as (fst (ch_pushPending C p recv c)) c"
  by (induction C p recv c rule: ch_pushPending.induct) (auto simp: ch_pushDataBuffer_def split: prod.splits)

lemma handleData_acked: "acked_as (fst (ch_handleData C p d c)) c"
proof -
  have new: "acked_as (snd (ch_newDataBuffer c)) c" by (simp add: ch_newDataBuffer_def)
  have push: "acked_as (fst (ch_pushDataBuffer C p d c')) c'" for c' by (simp add: ch_pushDataBuffer_def)
  obtain b c1 where c1: "ch_newDataBuffer c = (b, c1)" by fastforce
  obtain c2 acks where c2: "ch_pushDataBuffer C p d c1 = (c2, acks)" by fastforce
  obtain c3 acks' where c3: "ch_pushPending C p (ch_recvBuffers c2) c2 = (c3, acks')" by fastforce
  have "acked_as c3 c" using new push [of c1] pushPending_acked [of C p "ch_recvBuffers c2" c2] c1 c2 c3 by simp
  with new c1 show ?thesis by (simp add: ch_handleData_def c1 c2 c3 Let_def split: bool.split)
qed

lemma ack_inv_member:
  assumes "ack_inv C s N E" and "rp_findConnection i s = Some c" and "i \<noteq> rp_id s" and "ch_id c' = i" and "ch_acked c' = ch_acked c"
  shows "ack_inv C (rp_updateChild i c' s) N E"
proof -
  obtain R a where ok: "ack_ok C s N R a" "acks_from s E a" "buffers_ok C s" using assms(1) by (auto simp: ack_inv_def)
  have c: "c \<in> set (rp_children s)" "ch_id c = i" using find_child_mem assms(2) by (auto simp: rp_findConnection_def)
  have dist: "distinct (map ch_id (rp_children s))" using ok(1) by (simp add: ack_ok_def)
  note set' = update_child_set [OF dist c, of c'] and ids = update_child_ids [OF assms(4), of "rp_children s"]
  have "ack_ok C (rp_updateChild i c' s) N R a" "acks_from (rp_updateChild i c' s) E a" "buffers_ok C (rp_updateChild i c' s)"
    using ok assms(3-5) c set' ids unfolding ack_ok_def acks_from_def buffers_ok_def rp_updateChild_def by auto
  then show ?thesis by (auto simp: ack_inv_def)
qed

lemma ack_inv_data:
  assumes "ack_inv C s N E" and "dd_writerID (decode_data packet) \<noteq> rp_id s"
  shows "ack_inv C (rp_handleData C packet s) N E"
proof (cases "length packet < 8 \<or> rp_findConnection (dd_writerID (decode_data packet)) s = None")
  case True
  with assms(1) show ?thesis by (auto simp: rp_handleData_def Let_def)
next
  case False
  let ?i = "dd_writerID (decode_data packet)"
  from False obtain c where c: "rp_findConnection ?i s = Some c" by blast
  obtain c' acks nacks where h: "ch_handleData C (rp_id s) (decode_data packet) c = (c', acks, nacks)" by (metis prod_cases3)
  have "ch_id c = ?i" using find_child_mem c by (auto simp: rp_findConnection_def)
  with handleData_acked [of C "rp_id s" "decode_data packet" c] h ack_inv_member [OF assms(1) c assms(2), of c'] have "ack_inv C (rp_updateChild ?i c' s) N E" by simp
  moreover have "ack_view (rp_handleData C packet s) = ack_view (rp_updateChild ?i c' s)"
    using False c h by (simp add: rp_handleData_def Let_def)
  ultimately show ?thesis using ack_inv_view by blast
qed

text \<open>Sending a datagram moves a buffer to the write buffers; without readers it is released at once.\<close>

lemma merge_writes_length: "merge_writes C h ds = (h', ds', n) \<Longrightarrow> length ds = length ds' + n"
  by (induction C h ds arbitrary: h' ds' n rule: merge_writes.induct) (auto split: if_splits prod.splits)

lemma update_child_image: "ch_id c = i \<Longrightarrow> ch_id ` set (update_child i c cs) = ch_id ` set cs"
  using arg_cong [where f = set, OF update_child_ids] by simp

lemma finishWriteQueue_fields:
  assumes "rp_finishWriteQueue q s = Some s'"
  shows "rp_id s' = rp_id s \<and> rp_sequence s' = rp_sequence s \<and> (buffers_ok C s \<longrightarrow> buffers_ok C s') \<and>
         ch_id ` set (rp_children s') = ch_id ` set (rp_children s)"
proof -
  obtain c where c: "rp_findConnection (rp_id s) s = Some c" using assms by (auto simp: rp_finishWriteQueue_def split: option.splits)
  then have "ch_id c = rp_id s" using find_child_mem by (auto simp: rp_findConnection_def)
  then have ids: "ch_id ` set (update_child (rp_id s) (ch_selfReceive ds c) (rp_children s)) = ch_id ` set (rp_children s)" for ds
    by (intro update_child_image) (simp add: ch_selfReceive_def Let_def)
  let ?n = "length (rp_writeBuffers s) - unat (rp_sequence s - q - 1)"
  have "s' = (rp_updateChild (rp_id s) (ch_selfReceive (take ?n (rp_writeBuffers s)) c) s)
      \<lparr>rp_writeBuffers := drop ?n (rp_writeBuffers s), rp_appBuffers := rp_appBuffers s @ replicate ?n True, rp_timeouts := 0\<rparr>"
    using assms c by (simp add: rp_finishWriteQueue_def Let_def split: if_splits)
  then show ?thesis using ids by (simp add: rp_updateChild_def buffers_ok_def)
qed

lemma ack_inv_send:
  assumes "ack_inv C s N E" and "rp_writeData C s = Some s'" and "unat (rc_numBuffers C) < 32768"
  shows "\<exists>N'. N' \<in> {N, Suc N} \<and> rp_sequence s' = of_nat N' \<and> ack_inv C s' N' E"
proof (cases "rp_threadBuffers s")
  case Nil
  with assms(1,2) show ?thesis by (auto simp: rp_writeData_def ack_inv_def ack_ok_def)
next
  case (Cons h t)
  obtain h' t' n where merge: "merge_writes C (h\<lparr>dd_sequence := rp_sequence s\<rparr>) t = (h', t', n)" by (metis prod_cases3)
  obtain R a where ok: "ack_ok C s N R a" "acks_from s E a" "buffers_ok C s" using assms(1) by (auto simp: ack_inv_def)
  let ?s1 = "s\<lparr>rp_timeouts := 0, rp_threadBuffers := t', rp_sequence := rp_sequence s + 1,
      rp_appBuffers := rp_appBuffers s @ replicate n True\<rparr>"
  let ?s2 = "rp_send (Data h') (rp_waitWritable ?s1)"
  let ?s3 = "?s2\<lparr>rp_writeBuffers := rp_writeBuffers ?s2 @ [h']\<rparr>"
  have buf: "buffers_ok C ?s3"
    using ok(3) merge_writes_length [OF merge] Cons by (simp add: buffers_ok_def rp_send_def rp_waitWritable_def)
  have "length (rp_writeBuffers s) < unat (rc_numBuffers C)" using ok(3) Cons by (simp add: buffers_ok_def)
  then have ok3: "ack_ok C ?s3 (Suc N) R a" "acks_from ?s3 E a"
    using ok(1,2) by (auto simp: ack_ok_def acks_from_def rp_send_def rp_waitWritable_def)
  have result: "(if length (rp_children ?s3) = 1 then rp_finishWriteQueue (rp_sequence ?s3 - 1) ?s3 else Some ?s3) = Some s'"
    using assms(2) by (simp add: rp_writeData_def Cons merge Let_def)
  show ?thesis
  proof (cases "length (rp_children ?s3) = 1")
    case False
    with result ok3 buf have "s' = ?s3" "ack_inv C ?s3 (Suc N) E" by (auto simp: ack_inv_def)
    then show ?thesis using ok3(1) by (intro exI [of _ "Suc N"]) (simp add: ack_ok_def)
  next
    case True
    then obtain c where "rp_children ?s3 = [c]" by (auto simp: length_Suc_conv)
    with ok3(1) have alone: "\<forall>c \<in> set (rp_children ?s3). ch_id c = rp_id ?s3" by (auto simp: ack_ok_def)
    have seq: "rp_sequence ?s3 - 1 = ack_of (Suc N)" using ok3(1) by (simp add: ack_ok_def)
    have fin: "rp_finishWriteQueue (ack_of (Suc N)) ?s3 = Some s'" using result True unfolding seq by simp
    have "R \<le> Suc N" using ok3(1) by (simp add: ack_ok_def)
    from finishWriteQueue_releases [OF ok3(1) this order_refl fin assms(3)] alone
    have ok': "ack_ok C s' (Suc N) (Suc N) a" by blast
    have fields: "rp_id s' = rp_id ?s3" "buffers_ok C s'" "ch_id ` set (rp_children s') = ch_id ` set (rp_children ?s3)"
      using finishWriteQueue_fields [OF fin, of C] buf by blast+
    with alone have "acks_from s' E a" by (force simp: acks_from_def)
    with ok' fields(2) have "ack_inv C s' (Suc N) E" unfolding ack_inv_def by blast
    then show ?thesis using ok' by (intro exI [of _ "Suc N"]) (simp add: ack_ok_def)
  qed
qed

lemma of_nat_Suc_neq: "of_nat (Suc N) \<noteq> (of_nat N :: uint16)"
  by simp

lemma ack_inv_outgoing:
  assumes "ack_inv C s N E" and "rp_processOutgoing C s = Some s'" and "unat (rc_numBuffers C) < 32768"
    and "N' \<in> {N, Suc N}" and "rp_sequence s' = of_nat N'"
  shows "ack_inv C s' N' E"
proof -
  obtain t where t: "(if rp_repeatQueue s \<noteq> [] then Some (rp_repeatData s) else rp_writeData C s) = Some t"
    using assms(2) by (auto simp: rp_processOutgoing_def split: option.splits if_splits)
  have "\<exists>M. M \<in> {N, Suc N} \<and> rp_sequence t = of_nat M \<and> ack_inv C t M E"
  proof (cases "rp_repeatQueue s = []")
    case True
    with t ack_inv_send [OF assms(1) _ assms(3)] show ?thesis by simp
  next
    case False
    with t have "ack_view t = ack_view s" by auto
    with assms(1) ack_inv_view have "ack_inv C t N E" by blast
    then show ?thesis by (intro exI [of _ N]) (auto simp: ack_inv_def ack_ok_def)
  qed
  then obtain M where M: "M \<in> {N, Suc N}" "rp_sequence t = of_nat M" "ack_inv C t M E" by blast
  have view: "ack_view s' = ack_view t"
    using assms(2) t by (auto simp: rp_processOutgoing_def Let_def split: if_splits)
  then have "rp_sequence s' = of_nat M" using M(2) by (simp add: ack_view_def)
  with assms(4,5) M(1) of_nat_Suc_neq [of N] have "N' = M" by auto
  with ack_inv_view [OF view M(3)] show ?thesis by simp
qed

lemma handleAck_fields:
  assumes "rp_handleAck C packet s = Some s'"
  shows "rp_id s' = rp_id s \<and> (buffers_ok C s \<longrightarrow> buffers_ok C s') \<and> ch_id ` set (rp_children s') = ch_id ` set (rp_children s)"
proof (cases "length packet < 8 \<or> field16 2 packet \<noteq> rp_id s \<or> rp_findConnection (field16 1 packet) s = None")
  case True
  then have "rp_handleAck C packet s = Some s" by (auto simp: rp_handleAck_def Let_def)
  with assms show ?thesis by simp
next
  case False
  then obtain c where c: "rp_findConnection (field16 1 packet) s = Some c" by blast
  let ?s = "(rp_updateChild (field16 1 packet) (c\<lparr>ch_acked := field16 3 packet\<rparr>) s)\<lparr>rp_timeouts := 0\<rparr>"
  have "ch_id c = field16 1 packet" using find_child_mem c by (auto simp: rp_findConnection_def)
  then have s: "rp_id ?s = rp_id s" "buffers_ok C s \<longrightarrow> buffers_ok C ?s" "ch_id ` set (rp_children ?s) = ch_id ` set (rp_children s)"
    using update_child_image [of "c\<lparr>ch_acked := field16 3 packet\<rparr>" "field16 1 packet" "rp_children s"]
    by (simp_all add: rp_updateChild_def buffers_ok_def)
  have "rp_handleAck C packet s \<in> {Some s, None, Some ?s, rp_finishWriteQueue (min_acked C (rp_id ?s) (rp_children ?s) (field16 3 packet)) ?s}"
    using False c unfolding rp_handleAck_def Let_def
    by (simp only: option.case if_False split: option.split) (simp split: option.split)
  with assms consider "s' = s" | "s' = ?s" | "rp_finishWriteQueue (min_acked C (rp_id ?s) (rp_children ?s) (field16 3 packet)) ?s = Some s'" by auto
  then show ?thesis using s finishWriteQueue_fields [of _ ?s s' C] by cases (simp, blast, metis)
qed

lemma ack_inv_ack:
  assumes "ack_inv C s N E" and "unat (rc_numBuffers C) < 32768" and "i \<noteq> rp_id s" and "is_ack packet i (rp_id s) k"
    and "N - length (rp_writeBuffers s) \<le> k" and "k \<le> N" and "rp_handleAck C packet s = Some s'"
  shows "\<exists>R R' a a'. ack_ok C s N R a \<and> acks_from s E a \<and>
           ack_ok C s' N R' a' \<and> acks_from s' (insert (i, k) E) a' \<and> R \<le> R' \<and>
           rp_writeBuffers s' = drop (R' - R) (rp_writeBuffers s) \<and> (\<forall>j. j \<noteq> i \<longrightarrow> a' j = a j) \<and>
           (rp_findConnection i s \<noteq> None \<and> a i < k \<longrightarrow>
              a' i = k \<and> (\<exists>c \<in> set (rp_children s). ch_id c \<noteq> rp_id s \<and> R' = a' (ch_id c)))"
proof -
  obtain R a where ok: "ack_ok C s N R a" "acks_from s E a" using assms(1) by (auto simp: ack_inv_def)
  have "N - length (rp_writeBuffers s) = R" using ok(1) by (simp add: ack_ok_def)
  then have "R \<le> k" using assms(5) by simp
  from handleAck_releases [OF ok(1) assms(2,3) this assms(6,4,7)] obtain R' a' where
    ok': "ack_ok C s' N R' a'" "R \<le> R'" "rp_writeBuffers s' = drop (R' - R) (rp_writeBuffers s)"
    and a': "\<forall>j. j \<noteq> i \<longrightarrow> a' j = a j" "a' i \<in> {a i, k}"
      "rp_findConnection i s \<noteq> None \<and> a i < k \<longrightarrow>
         a' i = k \<and> (\<exists>c \<in> set (rp_children s). ch_id c \<noteq> rp_id s \<and> R' = a' (ch_id c))" by blast
  have "acks_from s' (insert (i, k) E) a'"
    unfolding acks_from_def
  proof (intro ballI impI)
    fix c assume c: "c \<in> set (rp_children s')" "ch_id c \<noteq> rp_id s'"
    with handleAck_fields [OF assms(7)] obtain d where "d \<in> set (rp_children s)" "ch_id d = ch_id c" "ch_id d \<noteq> rp_id s"
      by (metis imageE imageI)
    with ok(2) have "a (ch_id c) = 0 \<or> (ch_id c, a (ch_id c)) \<in> E" by (auto simp: acks_from_def)
    with a'(1,2) show "a' (ch_id c) = 0 \<or> (ch_id c, a' (ch_id c)) \<in> insert (i, k) E" by (cases "ch_id c = i") auto
  qed
  with ok ok' a' show ?thesis by blast
qed

lemma ack_run_inv:
  assumes "ack_run C s N E" and "unat (rc_numBuffers C) < 32768"
  shows "ack_inv C s N E"
  using assms(1)
proof induction
  case (start s)
  then have "ack_ok C s 0 0 (\<lambda>_. 0)" by (auto simp: ack_ok_def)
  with start show ?case by (auto simp: ack_inv_def buffers_ok_def acks_from_def)
next
  case (app_write s N E bs r s')
  with ack_view_write ack_inv_view show ?case by blast
next
  case (outgoing s N E s' N')
  with ack_inv_outgoing assms(2) show ?case by blast
next
  case (ack s N E i packet k s')
  from ack_inv_ack [OF ack.IH assms(2) ack.hyps(2-6)] ack.IH handleAck_fields [OF ack.hyps(6)]
  show ?case by (auto simp: ack_inv_def)
next
  case (nack s N E memory)
  with ack_inv_view ack_view_sends(7) show ?case by blast
next
  case (request s N E packet s')
  with ack_view_request ack_inv_view show ?case by blast
next
  case (data s N E packet)
  with ack_inv_data show ?case by blast
next
  case (clock s N E now)
  with ack_inv_view ack_view_frame(2) show ?case by blast
qed


lemmas sample_ack_defs =
  rp_handleAck_def rp_finishWriteQueue_def rp_findConnection_def rp_updateChild_def min_acked_def ch_selfReceive_def
  sample_writer_def sample_rsp_config_def ch_new_def ack_fields ack_fields(1) [unfolded One_nat_def] Let_def

lemmas sample_send_defs =
  rp_write_def rp_nDatagrams_def rp_processOutgoing_def rp_writeData_def rp_waitWritable_def rp_setTimeout_def rp_send_def

text \<open>A writer that sends one datagram, which reader 9 acknowledges.\<close>

lemma sample_sent:
  "\<exists>s1 s2 s3. rp_write sample_rsp_config [42] sample_writer = Some (1, s1) \<and> rp_processOutgoing sample_rsp_config s1 = Some s2 \<and>
     rp_sequence s2 = of_nat 1 \<and> rp_id s2 = 7 \<and> length (rp_writeBuffers s2) = 1 \<and>
     rp_handleAck sample_rsp_config (encode (Ack 9 7 0)) s2 = Some s3 \<and> rp_writeBuffers s3 = []"
  by (simp add: sample_send_defs sample_ack_defs uint_word_ariths del: encode.simps)


section \<open>A reader that is not waited for\<close>

text \<open>A writer 6 datagrams before its sequence numbers wrap around, all acknowledged.\<close>

definition sample_late_writer :: rsp where
  "sample_late_writer =
     sample_writer\<lparr>rp_sequence := 65530,
       rp_children := [(ch_new sample_rsp_config 7 65530)\<lparr>ch_acked := 65529\<rparr>,
                       (ch_new sample_rsp_config 9 0)\<lparr>ch_acked := 65529\<rparr>]\<rparr>"

text \<open>A reader that joins just before the sequence numbers wrap around is taken to
  have acknowledged everything up to 65535. A datagram sent after it joined is released when the other reader has
  acknowledged it, so the new reader cannot get it repeated.\<close>

theorem rsp_new_reader_not_waited:
  "\<exists>s1 s2 s3 d. rp_addConnection sample_rsp_config 11 0 sample_late_writer = s1 \<and>
     rp_write sample_rsp_config [42] s1 = Some (1, s2) \<and> rp_processOutgoing sample_rsp_config s2 = Some s3 \<and>
     rp_writeBuffers s3 = [d] \<and> dd_sequence d = 65530 \<and>
     map_option rp_writeBuffers (rp_handleAck sample_rsp_config (encode (Ack 9 7 65530)) s3) = Some []"
  by (simp add: sample_late_writer_def rp_addConnection_def rp_sendCountNode_def sample_send_defs sample_ack_defs
      del: encode.simps)

end
