(* ===== verification/Barrier.thy ===== *)
theory Barrier
  imports Collage_Prelude
begin

text \<open>
  The networked, versioned barrier, \<^verbatim>\<open>src/co/barrier.cpp\<close>: every participant has an instance and
  sends an enter command to the node that is the barrier's master, which replies to all of them when
  as many have entered as the barrier is high.

  A node is its identifier. The commands an instance has sent and the receiver has not handled yet
  are in its \<open>br_outbox\<close>; the version is the one of the distributed object. Blocking in \<open>enter\<close> is
  the value the caller waits for. The values of \<^verbatim>\<open>LB_TIMEOUT_INDEFINITE\<close> and \<^verbatim>\<open>LB_TIMEOUT_DEFAULT\<close>
  and the attribute \<^verbatim>\<open>IATTR_TIMEOUT_DEFAULT\<close> are parameters.
\<close>

section \<open>State and operations\<close>

record timeout_values =
  tv_indefinite :: uint32
  tv_default :: uint32
  tv_attribute :: uint32

record barrier_request =
  rq_time :: uint64
  rq_timeout :: uint32
  rq_incarnation :: uint32
  rq_nodes :: "NodeID list"

definition rq_new :: "timeout_values \<Rightarrow> barrier_request" where
  "rq_new T = \<lparr>rq_time = 0, rq_timeout = tv_indefinite T, rq_incarnation = 0, rq_nodes = []\<rparr>"

datatype barrier_command =
    CMD_BARRIER_ENTER uint128 uint32 uint32
  | CMD_BARRIER_ENTER_REPLY uint128

record barrier =
  br_masterID :: NodeID
  br_height :: uint32
  br_master :: bool
  br_enteredNodes :: "(uint128 \<times> barrier_request) list"
  br_incarnation :: uint32
  br_version :: uint128
  br_outbox :: "(NodeID \<times> barrier_command) list"

text \<open>
  The two constructors; \<open>isUUID\<close> is the test of the identifier, and registration or mapping sets the
  version afterwards.
\<close>

definition br_new :: "(uint128 \<Rightarrow> bool) \<Rightarrow> NodeID \<Rightarrow> NodeID \<Rightarrow> uint32 \<Rightarrow> uint128 \<Rightarrow> barrier" where
  "br_new isUUID localID masterNodeID height version =
     \<lparr>br_masterID = (if isUUID masterNodeID then masterNodeID else localID), br_height = height, br_master = False,
      br_enteredNodes = [], br_incarnation = 0, br_version = version, br_outbox = []\<rparr>"

definition br_newSlave :: barrier where
  "br_newSlave =
     \<lparr>br_masterID = 0, br_height = 0, br_master = False, br_enteredNodes = [], br_incarnation = 0, br_version = 0,
      br_outbox = []\<rparr>"

text \<open>Serialization, as the fields streamed in order.\<close>

definition br_getInstanceData :: "barrier \<Rightarrow> uint32 \<times> NodeID" where
  "br_getInstanceData b = (br_height b, br_masterID b)"

definition br_applyInstanceData :: "uint32 \<times> NodeID \<Rightarrow> barrier \<Rightarrow> barrier" where
  "br_applyInstanceData d b = b\<lparr>br_height := fst d, br_masterID := snd d\<rparr>"

definition br_pack :: "barrier \<Rightarrow> uint32" where
  "br_pack b = br_height b"

definition br_unpack :: "uint32 \<Rightarrow> barrier \<Rightarrow> barrier" where
  "br_unpack h b = b\<lparr>br_height := h\<rparr>"

definition br_setHeight :: "uint32 \<Rightarrow> barrier \<Rightarrow> barrier" where
  "br_setHeight h b = b\<lparr>br_height := h\<rparr>"

definition br_increase :: "barrier \<Rightarrow> barrier" where
  "br_increase b = b\<lparr>br_height := br_height b + 1\<rparr>"

text \<open>
  \<^verbatim>\<open>enter\<close> up to its wait: \<open>found\<close> and \<open>reachable\<close> are the outcome of connecting the master node.
\<close>

datatype enter_result = Entered | EnterFailed | WaitFor uint32

definition br_send :: "NodeID \<Rightarrow> barrier_command \<Rightarrow> barrier \<Rightarrow> barrier" where
  "br_send n c b = b\<lparr>br_outbox := br_outbox b @ [(n, c)]\<rparr>"

definition br_enter :: "bool \<Rightarrow> bool \<Rightarrow> uint32 \<Rightarrow> barrier \<Rightarrow> enter_result \<times> barrier" where
  "br_enter found reachable timeout b =
     (if br_height b = 1 then (Entered, b)
      else
        (let b = (if br_master b then b else b\<lparr>br_master := found\<rparr>)
         in if \<not> br_master b \<or> \<not> reachable then (EnterFailed, b)
            else
              (let leaveVal = br_incarnation b + 1
               in (WaitFor leaveVal,
                   br_send (br_masterID b) (CMD_BARRIER_ENTER (br_version b) (leaveVal - 1) timeout) b))))"

text \<open>When the wait ends before the timeout.\<close>

definition br_mayLeave :: "uint32 \<Rightarrow> barrier \<Rightarrow> bool" where
  "br_mayLeave leaveVal b \<longleftrightarrow> br_incarnation b = leaveVal"

definition br_sendNotify :: "NodeID \<Rightarrow> uint128 \<Rightarrow> NodeID \<Rightarrow> barrier \<Rightarrow> barrier" where
  "br_sendNotify localID version n b =
     (if n = localID then
        (if version = br_version b then b\<lparr>br_incarnation := br_incarnation b + 1\<rparr> else b)
      else br_send n (CMD_BARRIER_ENTER_REPLY version) b)"

text \<open>\<^verbatim>\<open>_cleanup\<close> erases the first expired request.\<close>

definition rq_expired :: "timeout_values \<Rightarrow> uint64 \<Rightarrow> barrier_request \<Rightarrow> bool" where
  "rq_expired T time r \<longleftrightarrow>
     rq_timeout r \<noteq> tv_indefinite T \<and>
     time > rq_time r + ucast (if rq_timeout r \<noteq> tv_default T then rq_timeout r else tv_attribute T)"

fun erase_expired ::
  "timeout_values \<Rightarrow> uint64 \<Rightarrow> (uint128 \<times> barrier_request) list \<Rightarrow> (uint128 \<times> barrier_request) list" where
  "erase_expired T time [] = []"
| "erase_expired T time ((v, r) # rs) = (if rq_expired T time r then rs else (v, r) # erase_expired T time rs)"

definition br_cleanup :: "timeout_values \<Rightarrow> uint64 \<Rightarrow> barrier \<Rightarrow> barrier" where
  "br_cleanup T time b =
     (if length (br_enteredNodes b) < 2 then b
      else b\<lparr>br_enteredNodes := erase_expired T time (br_enteredNodes b)\<rparr>)"

definition br_putRequest :: "uint128 \<Rightarrow> barrier_request \<Rightarrow> barrier \<Rightarrow> barrier" where
  "br_putRequest version r b = b\<lparr>br_enteredNodes := AList.update version r (br_enteredNodes b)\<rparr>"

definition br_getRequest :: "timeout_values \<Rightarrow> uint128 \<Rightarrow> barrier \<Rightarrow> barrier_request" where
  "br_getRequest T version b =
     (case map_of (br_enteredNodes b) version of Some r \<Rightarrow> r | None \<Rightarrow> rq_new T)"

text \<open>\<^verbatim>\<open>stde::usort\<close> of the node pointers; their order only decides the order of the replies.\<close>

definition usort_ids :: "NodeID list \<Rightarrow> NodeID list" where
  "usort_ids ns = sort (remdups ns)"

text \<open>\<^verbatim>\<open>_cmdEnter\<close> on the master node, at a time and for the command of a node.\<close>

definition br_cmdEnter ::
  "timeout_values \<Rightarrow> NodeID \<Rightarrow> uint64 \<Rightarrow> NodeID \<Rightarrow> uint128 \<Rightarrow> uint32 \<Rightarrow> uint32 \<Rightarrow> barrier \<Rightarrow> barrier" where
  "br_cmdEnter T localID time n version incarnation timeout b =
     (let request = (br_getRequest T version b)\<lparr>rq_time := time\<rparr>
      in if rq_nodes request \<noteq> [] \<and> rq_timeout request \<noteq> tv_indefinite T \<and> rq_incarnation request < incarnation
         then br_sendNotify localID version n (br_putRequest version request b)
         else
           (let request = (if rq_nodes request = [] then request\<lparr>rq_incarnation := incarnation, rq_timeout := timeout\<rparr>
                           else if rq_timeout request \<noteq> tv_indefinite T \<and> rq_incarnation request > incarnation
                           then request\<lparr>rq_nodes := [], rq_incarnation := incarnation, rq_timeout := timeout\<rparr>
                           else request);
                request = request\<lparr>rq_nodes := rq_nodes request @ [n]\<rparr>;
                b = br_putRequest version request b;
                b = (if rq_timeout request \<noteq> tv_indefinite T then br_cleanup T time b else b)
            in if version > br_version b then b
               else if timeout \<noteq> tv_indefinite T \<and> version < br_version b then br_sendNotify localID version n b
               else if length (rq_nodes request) < unat (br_height b) then b
               else
                 (let b = fold (br_sendNotify localID version) (usort_ids (rq_nodes request)) b
                  in b\<lparr>br_enteredNodes := AList.delete version (br_enteredNodes b)\<rparr>)))"

definition br_cmdEnterReply :: "uint128 \<Rightarrow> barrier \<Rightarrow> barrier" where
  "br_cmdEnterReply version b =
     (if version = br_version b then b\<lparr>br_incarnation := br_incarnation b + 1\<rparr> else b)"

section \<open>A group of participants\<close>

text \<open>
  The instances of a barrier on the participating nodes. Every participant repeatedly enters and
  leaves; the commands in the outboxes reach the receiver in any order. All calls have an indefinite timeout, the
  barrier is not committed meanwhile, and its height is the number of participants. \<open>entered\<close> and \<open>left\<close> count the
  calls of \<open>enter\<close> and their returns.
\<close>

record barrier_group =
  bg_inst :: "NodeID \<Rightarrow> barrier"
  bg_wait :: "NodeID \<Rightarrow> uint32 option"
  bg_entered :: "NodeID \<Rightarrow> nat"
  bg_left :: "NodeID \<Rightarrow> nat"

definition bg_put :: "NodeID \<Rightarrow> barrier \<Rightarrow> barrier_group \<Rightarrow> barrier_group" where
  "bg_put i b s = s\<lparr>bg_inst := (bg_inst s)(i := b)\<rparr>"

definition bg_take :: "NodeID \<Rightarrow> NodeID \<times> barrier_command \<Rightarrow> barrier_group \<Rightarrow> barrier_group" where
  "bg_take i m s = bg_put i ((bg_inst s i)\<lparr>br_outbox := remove1 m (br_outbox (bg_inst s i))\<rparr>) s"

definition bg_init :: "NodeID set \<Rightarrow> NodeID \<Rightarrow> uint128 \<Rightarrow> barrier_group \<Rightarrow> bool" where
  "bg_init P M v s \<longleftrightarrow>
     (\<forall>i \<in> P. br_masterID (bg_inst s i) = M \<and> br_height (bg_inst s i) = of_nat (card P) \<and> br_version (bg_inst s i) = v \<and>
        br_enteredNodes (bg_inst s i) = [] \<and> br_incarnation (bg_inst s i) = 0 \<and> br_outbox (bg_inst s i) = [] \<and>
        bg_wait s i = None \<and> bg_entered s i = 0 \<and> bg_left s i = 0)"

inductive bg_reachable :: "timeout_values \<Rightarrow> NodeID set \<Rightarrow> NodeID \<Rightarrow> uint128 \<Rightarrow> barrier_group \<Rightarrow> bool" for T P M v where
  start: "bg_init P M v s \<Longrightarrow> bg_reachable T P M v s"
| enter: "bg_reachable T P M v s \<Longrightarrow> i \<in> P \<Longrightarrow> bg_wait s i = None \<Longrightarrow>
    br_enter True True (tv_indefinite T) (bg_inst s i) = (WaitFor w, b) \<Longrightarrow>
    bg_reachable T P M v ((bg_put i b s)\<lparr>bg_wait := (bg_wait s)(i := Some w), bg_entered := (bg_entered s)(i := Suc (bg_entered s i))\<rparr>)"
| cmdEnter: "bg_reachable T P M v s \<Longrightarrow> i \<in> P \<Longrightarrow> (M, CMD_BARRIER_ENTER u k t) \<in> set (br_outbox (bg_inst s i)) \<Longrightarrow>
    s1 = bg_take i (M, CMD_BARRIER_ENTER u k t) s \<Longrightarrow>
    bg_reachable T P M v (bg_put M (br_cmdEnter T M time i u k t (bg_inst s1 M)) s1)"
| cmdEnterReply: "bg_reachable T P M v s \<Longrightarrow> i \<in> P \<Longrightarrow> (i, CMD_BARRIER_ENTER_REPLY u) \<in> set (br_outbox (bg_inst s M)) \<Longrightarrow>
    s1 = bg_take M (i, CMD_BARRIER_ENTER_REPLY u) s \<Longrightarrow>
    bg_reachable T P M v (bg_put i (br_cmdEnterReply u (bg_inst s1 i)) s1)"
| leave: "bg_reachable T P M v s \<Longrightarrow> i \<in> P \<Longrightarrow> bg_wait s i = Some w \<Longrightarrow> br_mayLeave w (bg_inst s i) \<Longrightarrow>
    bg_reachable T P M v (s\<lparr>bg_wait := (bg_wait s)(i := None), bg_left := (bg_left s)(i := Suc (bg_left s i))\<rparr>)"

end
