(* ===== verification/Barrier_Facts.thy ===== *)
theory Barrier_Facts
  imports Barrier
begin

text \<open>
  Properties of the barrier, for runs with indefinite timeouts, one fixed version and a height equal to the
  number of participants: nobody leaves before everybody has entered, and nobody stays blocked once everybody
  has entered; and what goes wrong with timeouts.
\<close>

section \<open>Effect of the handlers\<close>

fun is_enter :: "NodeID \<times> barrier_command \<Rightarrow> bool" where
  "is_enter (_, CMD_BARRIER_ENTER _ _ _) = True"
| "is_enter (_, CMD_BARRIER_ENTER_REPLY _) = False"

lemma is_enter_simps [simp]: "is_enter (i, CMD_BARRIER_ENTER v k t)" "\<not> is_enter (i, CMD_BARRIER_ENTER_REPLY v)"
  by simp_all

lemma usort_ids_simps [simp]: "set (usort_ids ns) = set ns" "distinct (usort_ids ns)"
  by (simp_all add: usort_ids_def)

lemma notify_all:
  assumes "distinct ns" and "br_version b = v"
  shows "fold (br_sendNotify M v) ns b =
    b\<lparr>br_incarnation := br_incarnation b + (if M \<in> set ns then 1 else 0),
      br_outbox := br_outbox b @ map (\<lambda>n. (n, CMD_BARRIER_ENTER_REPLY v)) (filter (\<lambda>n. n \<noteq> M) ns)\<rparr>"
  using assms
  by (induction ns arbitrary: b) (auto simp: br_sendNotify_def br_send_def)

text \<open>
  The nodes waiting at the master for version \<open>v\<close>.
\<close>

definition waiting_nodes :: "uint128 \<Rightarrow> barrier \<Rightarrow> NodeID list" where
  "waiting_nodes v b = (case map_of (br_enteredNodes b) v of Some r \<Rightarrow> rq_nodes r | None \<Rightarrow> [])"

definition no_timeouts :: "timeout_values \<Rightarrow> uint128 \<Rightarrow> barrier \<Rightarrow> bool" where
  "no_timeouts T v b \<longleftrightarrow> (\<forall>r. map_of (br_enteredNodes b) v = Some r \<longrightarrow> rq_timeout r = tv_indefinite T)"

lemma cmdEnter_effect:
  assumes "br_version b = v" and "no_timeouts T v b"
  shows "br_cmdEnter T M time i v k (tv_indefinite T) b =
     (let r = (br_getRequest T v b)\<lparr>rq_time := time\<rparr>;
          r = (if rq_nodes r = [] then r\<lparr>rq_incarnation := k, rq_timeout := tv_indefinite T\<rparr> else r);
          r = r\<lparr>rq_nodes := waiting_nodes v b @ [i]\<rparr>;
          b' = br_putRequest v r b
      in if length (waiting_nodes v b @ [i]) < unat (br_height b) then b'
         else (fold (br_sendNotify M v) (usort_ids (waiting_nodes v b @ [i])) b')
                \<lparr>br_enteredNodes := AList.delete v (br_enteredNodes b')\<rparr>)"
proof -
  have t: "rq_timeout (br_getRequest T v b) = tv_indefinite T"
    using assms(2) by (simp add: br_getRequest_def no_timeouts_def rq_new_def split: option.split)
  have n: "rq_nodes (br_getRequest T v b) = waiting_nodes v b"
    by (simp add: br_getRequest_def waiting_nodes_def rq_new_def split: option.split)
  have frame: "br_enteredNodes (fold (br_sendNotify M v) ns c) = br_enteredNodes c" for ns c
    by (induction ns arbitrary: c) (simp_all add: br_sendNotify_def br_send_def)
  have "br_version (br_putRequest v r b) = v" "br_height (br_putRequest v r b) = br_height b" for r
    using assms(1) by (simp_all add: br_putRequest_def)
  then show ?thesis
    unfolding br_cmdEnter_def Let_def frame using t n by simp
qed

lemma cmdEnter_waits:
  assumes "br_version b = v" and "no_timeouts T v b" and "Suc (length (waiting_nodes v b)) < unat (br_height b)"
    and "b' = br_cmdEnter T M time i v k (tv_indefinite T) b"
  shows "waiting_nodes v b' = waiting_nodes v b @ [i]" "no_timeouts T v b'" "br_incarnation b' = br_incarnation b"
    "br_outbox b' = br_outbox b" "br_version b' = v" "br_height b' = br_height b" "br_masterID b' = br_masterID b"
  using assms(3) unfolding assms(4) cmdEnter_effect [OF assms(1,2)]
  by (simp_all add: Let_def waiting_nodes_def no_timeouts_def br_putRequest_def update_conv' assms(1) br_getRequest_def
      rq_new_def split: option.split)
     (use assms(2) in \<open>auto simp: no_timeouts_def\<close>)

lemma cmdEnter_releases:
  assumes "br_version b = v" and "no_timeouts T v b" and "\<not> Suc (length (waiting_nodes v b)) < unat (br_height b)"
    and "b' = br_cmdEnter T M time i v k (tv_indefinite T) b"
  shows "waiting_nodes v b' = []" "no_timeouts T v b'"
    "br_incarnation b' = br_incarnation b + (if M \<in> insert i (set (waiting_nodes v b)) then 1 else 0)"
    "br_outbox b' = br_outbox b @
       map (\<lambda>n. (n, CMD_BARRIER_ENTER_REPLY v)) (filter (\<lambda>n. n \<noteq> M) (usort_ids (waiting_nodes v b @ [i])))"
    "br_version b' = v" "br_height b' = br_height b" "br_masterID b' = br_masterID b"
proof -
  have "br_version (br_putRequest v r b) = v" for r using assms(1) by (simp add: br_putRequest_def)
  note all = notify_all [OF usort_ids_simps(2) this]
  show "waiting_nodes v b' = []" "no_timeouts T v b'"
    "br_incarnation b' = br_incarnation b + (if M \<in> insert i (set (waiting_nodes v b)) then 1 else 0)"
    "br_outbox b' = br_outbox b @
       map (\<lambda>n. (n, CMD_BARRIER_ENTER_REPLY v)) (filter (\<lambda>n. n \<noteq> M) (usort_ids (waiting_nodes v b @ [i])))"
    "br_version b' = v" "br_height b' = br_height b" "br_masterID b' = br_masterID b"
    using assms(3) unfolding assms(4) cmdEnter_effect [OF assms(1,2)] Let_def all
    by (simp_all add: waiting_nodes_def no_timeouts_def br_putRequest_def assms(1))
qed

section \<open>The invariant of a group\<close>

definition queued :: "NodeID \<Rightarrow> barrier_group \<Rightarrow> nat" where
  "queued i s = length (filter is_enter (br_outbox (bg_inst s i)))"

definition replies :: "NodeID \<Rightarrow> uint128 \<Rightarrow> NodeID \<Rightarrow> barrier_group \<Rightarrow> nat" where
  "replies M v i s = length (filter (\<lambda>m. m = (i, CMD_BARRIER_ENTER_REPLY v)) (br_outbox (bg_inst s M)))"

definition commands_ok :: "timeout_values \<Rightarrow> NodeID \<Rightarrow> uint128 \<Rightarrow> barrier \<Rightarrow> bool" where
  "commands_ok T M v b \<longleftrightarrow>
     (\<forall>(n, c) \<in> set (br_outbox b). case c of
        CMD_BARRIER_ENTER u k t \<Rightarrow> n = M \<and> u = v \<and> t = tv_indefinite T
      | CMD_BARRIER_ENTER_REPLY u \<Rightarrow> n \<noteq> M \<and> u = v)"

text \<open>
  \<open>r\<close> is the number of times the master has released the barrier, \<open>n\<close> the number of releases a
  participant has seen.
\<close>

definition wait_ok :: "nat \<Rightarrow> nat \<Rightarrow> uint32 option \<Rightarrow> bool" where
  "wait_ok entered left wait =
     (case wait of None \<Rightarrow> entered = left | Some w \<Rightarrow> entered = Suc left \<and> w = of_nat entered)"

definition member_counts :: "nat \<Rightarrow> uint32 \<Rightarrow> nat \<Rightarrow> nat \<Rightarrow> nat \<Rightarrow> uint32 option \<Rightarrow> nat \<Rightarrow> bool \<Rightarrow> bool" where
  "member_counts r incarnation nreplies left entered wait nqueued waiting \<longleftrightarrow>
     (\<exists>n. incarnation = of_nat n \<and> n + nreplies = r \<and> left \<le> n \<and> n \<le> entered) \<and>
     wait_ok entered left wait \<and> entered = r + nqueued + (if waiting then 1 else 0)"

definition member_ok :: "NodeID \<Rightarrow> uint128 \<Rightarrow> nat \<Rightarrow> barrier_group \<Rightarrow> NodeID \<Rightarrow> bool" where
  "member_ok M v r s i \<longleftrightarrow>
     member_counts r (br_incarnation (bg_inst s i)) (replies M v i s) (bg_left s i) (bg_entered s i) (bg_wait s i)
       (queued i s) (i \<in> set (waiting_nodes v (bg_inst s M)))"

definition bg_inv :: "timeout_values \<Rightarrow> NodeID set \<Rightarrow> NodeID \<Rightarrow> uint128 \<Rightarrow> nat \<Rightarrow> barrier_group \<Rightarrow> bool" where
  "bg_inv T P M v r s \<longleftrightarrow>
     (\<forall>i \<in> P. br_masterID (bg_inst s i) = M \<and> br_height (bg_inst s i) = of_nat (card P) \<and> br_version (bg_inst s i) = v \<and>
        commands_ok T M v (bg_inst s i) \<and> member_ok M v r s i) \<and>
     no_timeouts T v (bg_inst s M) \<and> distinct (waiting_nodes v (bg_inst s M)) \<and>
     set (waiting_nodes v (bg_inst s M)) \<subseteq> P \<and> length (waiting_nodes v (bg_inst s M)) < card P"


lemmas bg_defs = bg_put_def bg_take_def queued_def replies_def

lemma bg_inv_start: "bg_init P M v s \<Longrightarrow> M \<in> P \<Longrightarrow> finite P \<Longrightarrow> bg_inv T P M v 0 s"
  by (auto simp: bg_init_def bg_inv_def member_ok_def member_counts_def wait_ok_def commands_ok_def no_timeouts_def waiting_nodes_def bg_defs card_gt_0_iff)

lemma bg_inv_member: "bg_inv T P M v r s \<Longrightarrow> i \<in> P \<Longrightarrow> member_ok M v r s i"
  by (simp add: bg_inv_def)

lemma bg_inv_static:
  "bg_inv T P M v r s \<Longrightarrow> i \<in> P \<Longrightarrow>
   br_masterID (bg_inst s i) = M \<and> br_height (bg_inst s i) = of_nat (card P) \<and> br_version (bg_inst s i) = v"
  by (simp add: bg_inv_def)

lemma bg_inv_commands: "bg_inv T P M v r s \<Longrightarrow> i \<in> P \<Longrightarrow> commands_ok T M v (bg_inst s i)"
  by (simp add: bg_inv_def)

lemma bg_inv_timeouts: "bg_inv T P M v r s \<Longrightarrow> no_timeouts T v (bg_inst s M)"
  by (simp add: bg_inv_def)

lemma member_okD:
  assumes "member_ok M v r s i"
  shows "\<exists>n. br_incarnation (bg_inst s i) = of_nat n \<and> n + replies M v i s = r \<and> bg_left s i \<le> n \<and> n \<le> bg_entered s i"
    "bg_wait s i = None \<Longrightarrow> bg_entered s i = bg_left s i"
    "bg_wait s i = Some w \<Longrightarrow> bg_entered s i = Suc (bg_left s i) \<and> w = of_nat (bg_entered s i)"
    "bg_entered s i = r + queued i s + (if i \<in> set (waiting_nodes v (bg_inst s M)) then 1 else 0)"
    "wait_ok (bg_entered s i) (bg_left s i) (bg_wait s i)"
proof -
  note m = assms [unfolded member_ok_def member_counts_def]
  show "\<exists>n. br_incarnation (bg_inst s i) = of_nat n \<and> n + replies M v i s = r \<and> bg_left s i \<le> n \<and> n \<le> bg_entered s i"
    "bg_entered s i = r + queued i s + (if i \<in> set (waiting_nodes v (bg_inst s M)) then 1 else 0)"
    "wait_ok (bg_entered s i) (bg_left s i) (bg_wait s i)"
    using m by blast+
  show "bg_wait s i = None \<Longrightarrow> bg_entered s i = bg_left s i"
    "bg_wait s i = Some w \<Longrightarrow> bg_entered s i = Suc (bg_left s i) \<and> w = of_nat (bg_entered s i)"
    using m [THEN conjunct2, THEN conjunct1] by (simp_all add: wait_ok_def)
qed

lemma members_ok:
  assumes "bg_inv T P M v r s" and "\<And>j. j \<noteq> i \<Longrightarrow> member_ok M v r s' j \<longleftrightarrow> member_ok M v r s j" and "member_ok M v r s' i"
  shows "\<forall>j \<in> P. member_ok M v r s' j"
proof
  fix j
  assume "j \<in> P"
  with bg_inv_member [OF assms(1)] assms(2) [of j] assms(3) show "member_ok M v r s' j" by (cases "j = i") simp_all
qed

lemma member_idle:
  assumes "member_ok M v r s i" and "bg_wait s i = None"
  shows "bg_entered s i = r" "queued i s = 0" "i \<notin> set (waiting_nodes v (bg_inst s M))" "br_incarnation (bg_inst s i) = of_nat r"
    "replies M v i s = 0"
proof -
  obtain n where n: "br_incarnation (bg_inst s i) = of_nat n" "n + replies M v i s = r" "bg_left s i \<le> n" "n \<le> bg_entered s i"
    and e: "bg_entered s i = bg_left s i"
      "bg_entered s i = r + queued i s + (if i \<in> set (waiting_nodes v (bg_inst s M)) then 1 else 0)"
    using member_okD [OF assms(1)] assms(2) by blast
  then have "n = r" by (simp split: if_splits)
  with n e show "bg_entered s i = r" "queued i s = 0" "i \<notin> set (waiting_nodes v (bg_inst s M))"
    "br_incarnation (bg_inst s i) = of_nat r" "replies M v i s = 0"
    by (simp_all split: if_splits)
qed

lemma bg_inv_enter:
  assumes "bg_inv T P M v r s" and "M \<in> P" and "i \<in> P" and "bg_wait s i = None"
    and "br_enter True True (tv_indefinite T) (bg_inst s i) = (WaitFor w, b)"
  shows "bg_inv T P M v r ((bg_put i b s)\<lparr>bg_wait := (bg_wait s)(i := Some w),
           bg_entered := (bg_entered s)(i := Suc (bg_entered s i))\<rparr>)" (is "bg_inv T P M v r ?s")
proof -
  have i: "br_masterID (bg_inst s i) = M" "br_version (bg_inst s i) = v" "member_ok M v r s i"
    using assms(1,3) by (auto simp: bg_inv_def)
  note idle = member_idle [OF i(3) assms(4)]
  have b: "b = (bg_inst s i)\<lparr>br_master := True, br_outbox := br_outbox (bg_inst s i) @
      [(M, CMD_BARRIER_ENTER v (br_incarnation (bg_inst s i)) (tv_indefinite T))]\<rparr>" and w: "w = of_nat (Suc r)"
    using assms(5) i idle(4) by (auto simp: br_enter_def br_send_def Let_def split: if_splits)
  have M: "waiting_nodes v (bg_inst ?s M) = waiting_nodes v (bg_inst s M)"
    "no_timeouts T v (bg_inst ?s M) \<longleftrightarrow> no_timeouts T v (bg_inst s M)"
    by (auto simp: waiting_nodes_def no_timeouts_def bg_put_def b)
  have reps: "replies M v j ?s = replies M v j s" for j by (simp add: bg_defs b)
  have other: "j \<noteq> i \<Longrightarrow> member_ok M v r ?s j \<longleftrightarrow> member_ok M v r s j" for j
    unfolding member_ok_def reps M by (simp add: bg_put_def queued_def)
  have own: "member_ok M v r ?s i"
    unfolding member_ok_def reps M using idle i(3) assms(4) w
    by (auto simp: bg_put_def queued_def b member_ok_def member_counts_def wait_ok_def)
  note mem = members_ok [OF assms(1) other own]
  have "commands_ok T M v b" using assms(1,3) by (auto simp: commands_ok_def b bg_inv_def)
  with assms(1) mem show ?thesis
    unfolding bg_inv_def M by (simp add: bg_put_def b)
qed

lemma length_filter_remove1:
  "x \<in> set xs \<Longrightarrow> length (filter Q xs) = length (filter Q (remove1 x xs)) + (if Q x then 1 else 0)"
  by (induction xs) auto

lemma commands_ok_mono: "commands_ok T M v b \<Longrightarrow> set (br_outbox b') \<subseteq> set (br_outbox b) \<Longrightarrow> commands_ok T M v b'"
  unfolding commands_ok_def by blast

lemma bg_inv_cmdEnterReply:
  assumes "bg_inv T P M v r s" and "M \<in> P" and "i \<in> P" and "(i, CMD_BARRIER_ENTER_REPLY u) \<in> set (br_outbox (bg_inst s M))"
    and "s1 = bg_take M (i, CMD_BARRIER_ENTER_REPLY u) s"
  shows "bg_inv T P M v r (bg_put i (br_cmdEnterReply u (bg_inst s1 i)) s1)"
proof -
  define s2 where "s2 = bg_put i (br_cmdEnterReply u (bg_inst s1 i)) s1"
  have "commands_ok T M v (bg_inst s M)" using assms(1,2) by (simp add: bg_inv_def)
  with assms(4) have u: "u = v" "i \<noteq> M" by (auto simp: commands_ok_def)
  let ?m = "(i, CMD_BARRIER_ENTER_REPLY v)"
  have inst: "bg_inst s2 = (bg_inst s)(M := (bg_inst s M)\<lparr>br_outbox := remove1 ?m (br_outbox (bg_inst s M))\<rparr>,
      i := (bg_inst s i)\<lparr>br_incarnation := br_incarnation (bg_inst s i) + 1\<rparr>)"
    using u assms(1,3) by (auto simp: s2_def assms(5) bg_defs br_cmdEnterReply_def bg_inv_def fun_upd_twist)
  have rest: "bg_wait s2 = bg_wait s" "bg_entered s2 = bg_entered s" "bg_left s2 = bg_left s"
    by (simp_all add: s2_def assms(5) bg_defs)
  have M: "waiting_nodes v (bg_inst s2 M) = waiting_nodes v (bg_inst s M)"
    "no_timeouts T v (bg_inst s2 M) \<longleftrightarrow> no_timeouts T v (bg_inst s M)"
    using u by (simp_all add: waiting_nodes_def no_timeouts_def inst)
  have q: "queued j s2 = queued j s" for j
    using u assms(4) length_filter_remove1 [of ?m "br_outbox (bg_inst s M)" is_enter] by (simp add: queued_def inst)
  have reps: "replies M v j s = replies M v j s2 + (if j = i then 1 else 0)" for j
    using u assms(4) length_filter_remove1 [of ?m "br_outbox (bg_inst s M)" "\<lambda>m. m = (j, CMD_BARRIER_ENTER_REPLY v)"]
    by (simp add: replies_def inst)
  have other: "j \<noteq> i \<Longrightarrow> member_ok M v r s2 j \<longleftrightarrow> member_ok M v r s j" for j
    unfolding member_ok_def M q rest using reps [of j] u by (simp add: inst)
  have own: "member_ok M v r s2 i"
  proof -
    note mem = bg_inv_member [OF assms(1,3)]
    obtain n where n: "br_incarnation (bg_inst s i) = of_nat n" "n + replies M v i s = r" "bg_left s i \<le> n" "n \<le> bg_entered s i"
      using member_okD(1) [OF mem] by blast
    note ent = member_okD(4) [OF mem]
    have "br_incarnation (bg_inst s2 i) = of_nat (Suc n)" using n(1) by (simp add: inst)
    moreover have "Suc n + replies M v i s2 = r" using n(2) reps [of i] by simp
    moreover from this have "Suc n \<le> bg_entered s i" using ent by simp
    ultimately show ?thesis
      using ent n(3) member_okD(5) [OF mem] unfolding member_ok_def member_counts_def M q rest
      by (intro conjI exI [of _ "Suc n"]) (simp only: | linarith)+
  qed
  note mem = members_ok [OF assms(1) other own]
  have "commands_ok T M v (bg_inst s2 j)" if "j \<in> P" for j
    using set_remove1_subset [of ?m "br_outbox (bg_inst s M)"] u
    by (intro commands_ok_mono [OF bg_inv_commands [OF assms(1) that]]) (simp add: inst)
  with assms(1) mem u show ?thesis
    unfolding s2_def [symmetric] bg_inv_def M by (simp add: inst) blast
qed

lemma bg_inv_leave:
  assumes "bg_inv T P M v r s" and "i \<in> P" and "bg_wait s i = Some w" and "br_mayLeave w (bg_inst s i)"
  shows "bg_inv T P M v r (s\<lparr>bg_wait := (bg_wait s)(i := None), bg_left := (bg_left s)(i := Suc (bg_left s i))\<rparr>)"
    (is "bg_inv T P M v r ?s")
proof -
  note mem = bg_inv_member [OF assms(1,2)]
  obtain n where n: "br_incarnation (bg_inst s i) = of_nat n" "n + replies M v i s = r" "bg_left s i \<le> n" "n \<le> bg_entered s i"
    using member_okD(1) [OF mem] by blast
  have e: "bg_entered s i = Suc (bg_left s i)" "w = of_nat (bg_entered s i)" using member_okD(3) [OF mem assms(3)] by simp_all
  have "(of_nat n :: uint32) \<noteq> of_nat (Suc n)" by simp
  then have "n = bg_entered s i" using n e assms(4) by (metis br_mayLeave_def le_antisym le_SucE)
  then have own: "member_ok M v r ?s i"
    using n e member_okD(4) [OF mem] unfolding member_ok_def member_counts_def
    by (intro conjI exI [of _ n]) (simp_all add: queued_def replies_def wait_ok_def)
  have "member_ok M v r ?s j \<longleftrightarrow> member_ok M v r s j" if "j \<noteq> i" for j
    using that unfolding member_ok_def by (simp add: queued_def replies_def)
  from assms(1) members_ok [OF assms(1) this own] show ?thesis unfolding bg_inv_def by simp
qed


text \<open>An enter command reaches the master.\<close>

lemma enter_arrives:
  assumes "bg_inv T P M v r s" and "i \<in> P" and "(M, CMD_BARRIER_ENTER u k t) \<in> set (br_outbox (bg_inst s i))"
    and "s1 = bg_take i (M, CMD_BARRIER_ENTER u k t) s"
  shows "u = v" "t = tv_indefinite T" "i \<notin> set (waiting_nodes v (bg_inst s M))"
    "waiting_nodes v (bg_inst s1 M) = waiting_nodes v (bg_inst s M)"
    "no_timeouts T v (bg_inst s1 M)" "queued j s = queued j s1 + (if j = i then 1 else 0)" "replies M v j s1 = replies M v j s"
    "br_incarnation (bg_inst s1 j) = br_incarnation (bg_inst s j)" "br_version (bg_inst s1 j) = br_version (bg_inst s j)"
    "br_height (bg_inst s1 j) = br_height (bg_inst s j)" "br_masterID (bg_inst s1 j) = br_masterID (bg_inst s j)"
    "j \<in> P \<Longrightarrow> commands_ok T M v (bg_inst s1 j)"
    "bg_wait s1 = bg_wait s" "bg_entered s1 = bg_entered s" "bg_left s1 = bg_left s"
proof -
  let ?m = "(M, CMD_BARRIER_ENTER u k t)"
  have "commands_ok T M v (bg_inst s i)" using assms(1,2) by (simp add: bg_inv_def)
  with assms(3) show "u = v" "t = tv_indefinite T" by (auto simp: commands_ok_def)
  show q: "queued j s = queued j s1 + (if j = i then 1 else 0)" for j
    using length_filter_remove1 [OF assms(3), of is_enter] by (simp add: queued_def assms(4) bg_take_def bg_put_def)
  show "replies M v j s1 = replies M v j s"
    using length_filter_remove1 [OF assms(3), of "\<lambda>m. m = (j, CMD_BARRIER_ENTER_REPLY v)"]
    by (simp add: replies_def assms(4) bg_take_def bg_put_def)
  show "commands_ok T M v (bg_inst s1 j)" if "j \<in> P"
    using set_remove1_subset [of ?m "br_outbox (bg_inst s i)"]
    by (cases "j = i"; intro commands_ok_mono [OF bg_inv_commands [OF assms(1) that]]) (simp_all add: assms(4) bg_defs)
  show "waiting_nodes v (bg_inst s1 M) = waiting_nodes v (bg_inst s M)" "no_timeouts T v (bg_inst s1 M)"
    using bg_inv_timeouts [OF assms(1)] by (simp_all add: assms(4) bg_defs waiting_nodes_def no_timeouts_def)
  note mem = bg_inv_member [OF assms(1,2)]
  obtain n where n: "n + replies M v i s = r" "bg_left s i \<le> n" using member_okD(1) [OF mem] by blast
  have "bg_entered s i \<le> Suc (bg_left s i)" using member_okD(2,3) [OF mem] by (cases "bg_wait s i") simp_all
  with n member_okD(4) [OF mem] q [of i] show "i \<notin> set (waiting_nodes v (bg_inst s M))" by (auto split: if_splits)
qed (simp_all add: assms(4) bg_defs)

lemma member_counts_arrived: "member_counts r inc reps l e w (Suc q) False \<longleftrightarrow> member_counts r inc reps l e w q True"
  by (simp add: member_counts_def)

lemma bg_inv_waits:
  assumes "bg_inv T P M v r s" and "M \<in> P" and "i \<in> P" and "(M, CMD_BARRIER_ENTER u k t) \<in> set (br_outbox (bg_inst s i))"
    and "s1 = bg_take i (M, CMD_BARRIER_ENTER u k t) s" and "card P < 2 ^ 32"
    and "Suc (length (waiting_nodes v (bg_inst s M))) < card P"
  shows "bg_inv T P M v r (bg_put M (br_cmdEnter T M time i u k t (bg_inst s1 M)) s1)"
proof -
  note arr = enter_arrives [OF assms(1,3-5)]
  define b where "b = br_cmdEnter T M time i u k t (bg_inst s1 M)"
  have M: "br_version (bg_inst s1 M) = v" "unat (br_height (bg_inst s1 M)) = card P"
    using assms(1,2,6) arr(9,10) by (simp_all add: bg_inv_def unsigned_of_nat take_bit_nat_eq_self_iff)
  have "Suc (length (waiting_nodes v (bg_inst s1 M))) < unat (br_height (bg_inst s1 M))" using assms(7) arr(4) M by simp
  note w = cmdEnter_waits [OF M(1) arr(5) this b_def [unfolded arr(1,2)]]
  have counts: "member_ok M v r (bg_put M b s1) j \<longleftrightarrow>
      member_counts r (br_incarnation (bg_inst s j)) (replies M v j s) (bg_left s j) (bg_entered s j) (bg_wait s j)
        (queued j s1) (j \<in> set (waiting_nodes v (bg_inst s M) @ [i]))" for j
    using w arr(4) arr(7,8) [of j] arr(8) [of M] arr(13-15)
    by (simp add: member_ok_def bg_put_def queued_def replies_def)
  have "member_ok M v r (bg_put M b s1) j" if "j \<in> P" for j
    using bg_inv_member [OF assms(1) that] arr(3) arr(6) [of j] unfolding counts
    by (cases "j = i") (simp_all add: member_ok_def member_counts_arrived)
  moreover have "commands_ok T M v (bg_inst (bg_put M b s1) j)" if "j \<in> P" for j
    using w(4) by (intro commands_ok_mono [OF arr(12) [OF that]]) (simp add: bg_put_def)
  moreover have "br_masterID (bg_inst (bg_put M b s1) j) = M \<and> br_height (bg_inst (bg_put M b s1) j) = of_nat (card P) \<and>
      br_version (bg_inst (bg_put M b s1) j) = v" if "j \<in> P" for j
    using bg_inv_static [OF assms(1) that] bg_inv_static [OF assms(1,2)] arr(9-11) [of j] arr(9-11) [of M] w(5-7)
    by (simp add: bg_put_def)
  moreover have "waiting_nodes v (bg_inst (bg_put M b s1) M) = waiting_nodes v (bg_inst s M) @ [i]"
    "no_timeouts T v (bg_inst (bg_put M b s1) M)"
    using w(1,2) arr(4) by (simp_all add: bg_put_def)
  ultimately show ?thesis
    using assms(1,3,7) arr(3) unfolding b_def [symmetric] bg_inv_def by simp
qed

lemma one_reply:
  "distinct ns \<Longrightarrow> length (filter (\<lambda>m. m = (j, CMD_BARRIER_ENTER_REPLY v)) (map (\<lambda>n. (n, CMD_BARRIER_ENTER_REPLY v)) ns)) =
    (if j \<in> set ns then 1 else 0)"
  by (induction ns) (auto simp: filter_map o_def filter_empty_conv)

lemma no_enters: "filter is_enter (map (\<lambda>n. (n, CMD_BARRIER_ENTER_REPLY v)) ns) = []"
  by (induction ns) auto

lemma bg_inv_releases:
  assumes "bg_inv T P M v r s" and "M \<in> P" and "i \<in> P" and "(M, CMD_BARRIER_ENTER u k t) \<in> set (br_outbox (bg_inst s i))"
    and "s1 = bg_take i (M, CMD_BARRIER_ENTER u k t) s" and "card P < 2 ^ 32" and "finite P"
    and "\<not> Suc (length (waiting_nodes v (bg_inst s M))) < card P"
  shows "bg_inv T P M v (Suc r) (bg_put M (br_cmdEnter T M time i u k t (bg_inst s1 M)) s1)"
proof -
  note arr = enter_arrives [OF assms(1,3-5)]
  define b where "b = br_cmdEnter T M time i u k t (bg_inst s1 M)"
  let ?W = "waiting_nodes v (bg_inst s M)"
  have W: "distinct ?W" "set ?W \<subseteq> P" "length ?W < card P" using assms(1) by (simp_all add: bg_inv_def)
  then have "card (set (?W @ [i])) = card P" using assms(8) arr(3) by (simp add: distinct_card)
  then have all: "set (?W @ [i]) = P" using W(2) assms(3,7) by (intro card_subset_eq) auto
  have M: "br_version (bg_inst s1 M) = v" "unat (br_height (bg_inst s1 M)) = card P"
    using assms(1,2,6) arr(9,10) by (simp_all add: bg_inv_def unsigned_of_nat take_bit_nat_eq_self_iff)
  have "\<not> Suc (length (waiting_nodes v (bg_inst s1 M))) < unat (br_height (bg_inst s1 M))" using assms(8) arr(4) M by simp
  note w = cmdEnter_releases [OF M(1) arr(5) this b_def [unfolded arr(1,2)]]
  have out: "br_outbox b = br_outbox (bg_inst s1 M) @
      map (\<lambda>n. (n, CMD_BARRIER_ENTER_REPLY v)) (filter (\<lambda>n. n \<noteq> M) (usort_ids (?W @ [i])))"
    using w(4) arr(4) by simp
  have inc: "br_incarnation b = br_incarnation (bg_inst s1 M) + 1" using w(3) arr(4) all assms(2) by auto
  have reps: "replies M v j (bg_put M b s1) = replies M v j s + (if j = M then 0 else 1)" if "j \<in> P" for j
    using one_reply [of "filter (\<lambda>n. n \<noteq> M) (usort_ids (?W @ [i]))" j v] arr(7) [of j] that all
    unfolding replies_def by (auto simp: bg_put_def out)
  have q: "queued j (bg_put M b s1) = queued j s1" for j
    by (simp add: queued_def bg_put_def out no_enters)
  have "member_ok M v (Suc r) (bg_put M b s1) j" if "j \<in> P" for j
  proof -
    note mem = bg_inv_member [OF assms(1) that]
    obtain n where n: "br_incarnation (bg_inst s j) = of_nat n" "n + replies M v j s = r" "bg_left s j \<le> n" "n \<le> bg_entered s j"
      using member_okD(1) [OF mem] by blast
    have ent: "bg_entered s j = Suc r + queued j s1"
      using member_okD(4) [OF mem] arr(3) arr(6) [of j] that all by (cases "j = i") auto
    let ?n = "if j = M then Suc n else n"
    have "br_incarnation (bg_inst (bg_put M b s1) j) = of_nat ?n" "?n + replies M v j (bg_put M b s1) = Suc r"
      "bg_left s j \<le> ?n" "?n \<le> bg_entered s j"
      using n ent inc arr(8) [of j] reps [OF that] by (cases "j = M", simp_all add: bg_put_def)+
    then show ?thesis
      using mem ent w(1) arr(13-15) q [of j] unfolding member_ok_def member_counts_def
      by (intro conjI exI [of _ ?n]) (simp_all add: bg_put_def)
  qed
  moreover have "commands_ok T M v (bg_inst (bg_put M b s1) j)" if "j \<in> P" for j
    using arr(12) [OF that] by (auto simp: commands_ok_def bg_put_def out split: if_splits)
  moreover have "br_masterID (bg_inst (bg_put M b s1) j) = M \<and> br_height (bg_inst (bg_put M b s1) j) = of_nat (card P) \<and>
      br_version (bg_inst (bg_put M b s1) j) = v" if "j \<in> P" for j
    using bg_inv_static [OF assms(1) that] bg_inv_static [OF assms(1,2)] arr(9-11) [of j] arr(9-11) [of M] w(5-7)
    by (simp add: bg_put_def)
  moreover have "waiting_nodes v (bg_inst (bg_put M b s1) M) = []" "no_timeouts T v (bg_inst (bg_put M b s1) M)"
    using w(1,2) by (simp_all add: bg_put_def)
  ultimately show ?thesis using W(3) unfolding b_def [symmetric] bg_inv_def by simp
qed


lemma bg_reachable_inv:
  assumes "bg_reachable T P M v s" and "M \<in> P" and "finite P" and "card P < 2 ^ 32"
  shows "\<exists>r. bg_inv T P M v r s"
  using assms(1)
proof induction
  case (start s)
  with bg_inv_start assms(2,3) show ?case by blast
next
  case (enter s i w b)
  then show ?case using bg_inv_enter [OF _ assms(2) enter(2,3,4)] by blast
next
  case (cmdEnter s i u k t s1 time)
  then obtain r where r: "bg_inv T P M v r s" by blast
  show ?case
  proof (cases "Suc (length (waiting_nodes v (bg_inst s M))) < card P")
    case True
    from bg_inv_waits [OF r assms(2) cmdEnter(2-4) assms(4) True] show ?thesis by blast
  next
    case False
    from bg_inv_releases [OF r assms(2) cmdEnter(2-4) assms(4,3) False] show ?thesis by blast
  qed
next
  case (cmdEnterReply s i u s1)
  then show ?case using bg_inv_cmdEnterReply [OF _ assms(2) cmdEnterReply(2-4)] by blast
next
  case (leave s i w)
  then show ?case using bg_inv_leave [OF _ leave(2-4)] by blast
qed

section \<open>Properties\<close>

text \<open>C36 (barrier_no_early_leave): no participant has left the barrier more often than every other participant has
  entered it, with indefinite timeouts, one fixed version and a height equal to the number of participants: nobody returns from \<open>enter\<close> before all members of the group have called it, in every round and whatever
  the order in which the commands arrive.\<close>

theorem barrier_no_early_leave:
  assumes "bg_reachable T P M v s" and "M \<in> P" and "finite P" and "card P < 2 ^ 32" and "i \<in> P" and "j \<in> P"
  shows "bg_left s i \<le> bg_entered s j"
proof -
  obtain r where r: "bg_inv T P M v r s" using bg_reachable_inv [OF assms(1-4)] by blast
  obtain n where "n + replies M v i s = r" "bg_left s i \<le> n"
    using member_okD(1) [OF bg_inv_member [OF r assms(5)]] by blast
  then show ?thesis using member_okD(4) [OF bg_inv_member [OF r assms(6)]] by linarith
qed

text \<open>C37 (barrier_no_deadlock): with indefinite timeouts, one fixed version and a height equal to the number of participants: when
  all commands have been handled and a participant is still blocked in \<open>enter\<close>, there
  is another participant that has entered the barrier less often: nobody stays blocked after everybody has entered.\<close>

theorem barrier_no_deadlock:
  assumes "bg_reachable T P M v s" and "M \<in> P" and "finite P" and "card P < 2 ^ 32" and "i \<in> P"
    and "\<forall>j \<in> P. br_outbox (bg_inst s j) = []" and "bg_wait s i = Some w" and "\<not> br_mayLeave w (bg_inst s i)"
  shows "\<exists>j \<in> P. bg_entered s j < bg_entered s i"
proof -
  obtain r where r: "bg_inv T P M v r s" using bg_reachable_inv [OF assms(1-4)] by blast
  note mem = bg_inv_member [OF r assms(5)]
  have quiet: "queued j s = 0" "replies M v j s = 0" if "j \<in> P" for j
    using assms(2,6) that by (simp_all add: queued_def replies_def)
  have w: "w = of_nat (bg_entered s i)" using member_okD(3) [OF mem assms(7)] by simp
  obtain n where n: "br_incarnation (bg_inst s i) = of_nat n" "n = r"
    using member_okD(1) [OF mem] quiet [OF assms(5)] by auto
  then have "bg_entered s i \<noteq> r" using w assms(8) by (auto simp: br_mayLeave_def)
  then have ent: "bg_entered s i = Suc r" using member_okD(4) [OF mem] quiet [OF assms(5)] by (simp split: if_splits)
  let ?W = "waiting_nodes v (bg_inst s M)"
  have W: "distinct ?W" "length ?W < card P" using r by (simp_all add: bg_inv_def)
  then have "card (set ?W) < card P" by (simp add: distinct_card)
  then obtain j where j: "j \<in> P" "j \<notin> set ?W" using assms(3) by (metis List.finite_set card_mono not_le subsetI)
  then have "bg_entered s j = r" using member_okD(4) [OF bg_inv_member [OF r j(1)]] quiet [OF j(1)] by simp
  with ent j(1) show ?thesis by auto
qed

text \<open>Two participants, of which the master's node 1 has entered.\<close>

definition sample_timeouts :: timeout_values where
  "sample_timeouts = \<lparr>tv_indefinite = 4294967295, tv_default = 4294967294, tv_attribute = 300000\<rparr>"

definition sample_barrier :: "uint32 \<Rightarrow> barrier" where
  "sample_barrier height = br_new (\<lambda>_. True) 1 1 height 1"

definition sample_group :: barrier_group where
  "sample_group =
     \<lparr>bg_inst = (\<lambda>_. sample_barrier 2), bg_wait = (\<lambda>_. None), bg_entered = (\<lambda>_. 0), bg_left = (\<lambda>_. 0)\<rparr>"

definition sample_entered :: barrier_group where
  "sample_entered =
     (bg_put 1 (br_cmdEnter sample_timeouts 1 0 1 1 0 4294967295 ((sample_barrier 2)\<lparr>br_master := True\<rparr>)) sample_group)
       \<lparr>bg_wait := (\<lambda>_. None)(1 := Some 1), bg_entered := (\<lambda>_. 0)(1 := 1)\<rparr>"

lemma sample_entered_reachable: "bg_reachable sample_timeouts {1, 2} 1 1 sample_entered"
proof -
  let ?m = "(1, CMD_BARRIER_ENTER 1 0 4294967295)"
  let ?b = "(sample_barrier 2)\<lparr>br_master := True, br_outbox := [?m]\<rparr>"
  let ?s = "(bg_put 1 ?b sample_group)\<lparr>bg_wait := (\<lambda>_. None)(1 := Some 1), bg_entered := (\<lambda>_. 0)(1 := 1)\<rparr>"
  have init: "bg_init {1, 2} 1 1 sample_group"
    by (simp add: bg_init_def sample_group_def sample_barrier_def br_new_def)
  have "br_enter True True (tv_indefinite sample_timeouts) (bg_inst sample_group 1) = (WaitFor 1, ?b)"
    by (simp add: br_enter_def br_send_def sample_group_def sample_barrier_def br_new_def sample_timeouts_def)
  from bg_reachable.enter [OF bg_reachable.start [OF init] _ _ this] have reach: "bg_reachable sample_timeouts {1, 2} 1 1 ?s"
    by (simp add: sample_group_def bg_put_def)
  have "?m \<in> set (br_outbox (bg_inst ?s 1))" by (simp add: bg_put_def)
  from bg_reachable.cmdEnter [OF reach _ this refl, of 0] show ?thesis
    by (simp add: bg_take_def bg_put_def sample_entered_def sample_group_def sample_barrier_def br_new_def)
qed

theorem barrier_no_early_leave_witness: "bg_left sample_entered 1 \<le> bg_entered sample_entered 2"
  using barrier_no_early_leave [OF sample_entered_reachable, of 1 2] by simp

theorem barrier_no_deadlock_witness: "\<exists>j \<in> {1, 2}. bg_entered sample_entered j < bg_entered sample_entered 1"
  by (rule barrier_no_deadlock [OF sample_entered_reachable, of 1 1])
     (simp_all add: sample_entered_def bg_put_def sample_group_def sample_barrier_def br_new_def br_cmdEnter_def Let_def
       br_getRequest_def rq_new_def br_putRequest_def sample_timeouts_def br_mayLeave_def)

text \<open>With timeouts the barrier of height 3 is released although node 3 never entered:
  nodes 1 and 2 enter and time out, which leaves their incarnation unchanged, and when node 1 enters again the master
  counts it twice.\<close>

theorem barrier_timeout_releases_early:
  "let b = br_cmdEnter sample_timeouts 1 0 1 1 0 1000 (sample_barrier 3);
       b = br_cmdEnter sample_timeouts 1 10 2 1 0 1000 b;
       b = br_cmdEnter sample_timeouts 1 2000 1 1 0 1000 b
   in br_incarnation b = 1 \<and> br_outbox b = [(2, CMD_BARRIER_ENTER_REPLY 1)] \<and> br_enteredNodes b = []"
  by code_simp

end
