(* ===== verification/Distributed_Queue.thy ===== *)
theory Distributed_Queue
  imports Complex_Main Collage_Prelude "HOL-Library.Multiset" "HOL-Library.Sublist"
begin

text \<open>
  The distributed queue: \<^verbatim>\<open>src/co/queueMaster.cpp\<close>, \<^verbatim>\<open>queueSlave.cpp\<close> and the package distributors
  \<^verbatim>\<open>randomDistributor.cpp\<close> and \<^verbatim>\<open>equalDistributor.cpp\<close>. A producer pushes items at the master, which
  gives them to its distributor; a slave requests items ahead of need and pops them.

  An item is the content of its buffer. A position hint is a rational number, and the rounding of the
  product in single precision is the parameter \<open>fl\<close>. \<^term>\<open>None\<close> as the result of a distributor is an
  access beyond the end of a vector. The score of a slave is a floating point number that neither of
  these distributors uses; it is left out.
\<close>

section \<open>Commands\<close>

datatype queue_command =
    CMD_QUEUE_ITEM bool bytes
  | CMD_QUEUE_EMPTY uint32

record get_item =
  gi_itemsRequested :: uint32
  gi_slaveInstanceID :: uint32
  gi_requestID :: uint32

text \<open>What \<^verbatim>\<open>cmdGetItem\<close> sends for the items it has taken from the queue.\<close>

definition item_replies :: "get_item \<Rightarrow> bytes list \<Rightarrow> queue_command list" where
  "item_replies g items =
     map (CMD_QUEUE_ITEM False) (filter (\<lambda>i. i \<noteq> []) items) @
     (if unat (gi_itemsRequested g) > length items then [CMD_QUEUE_EMPTY (gi_requestID g)] else [])"

section \<open>Distributors\<close>

record random_distributor =
  rd_queue :: "bytes list"

definition rd_new :: random_distributor where
  "rd_new = \<lparr>rd_queue = []\<rparr>"

definition rd_pushItem :: "bytes \<Rightarrow> rat \<Rightarrow> random_distributor \<Rightarrow> random_distributor option" where
  "rd_pushItem item pos d = Some (d\<lparr>rd_queue := rd_queue d @ [item]\<rparr>)"

definition rd_cmdGetItem ::
  "NodeID \<Rightarrow> get_item \<Rightarrow> random_distributor \<Rightarrow> (queue_command list \<times> random_distributor) option" where
  "rd_cmdGetItem n g d =
     (let k = unat (gi_itemsRequested g)
      in Some (item_replies g (take k (rd_queue d)), d\<lparr>rd_queue := drop k (rd_queue d)\<rparr>))"

record equal_distributor =
  ed_nodes :: "NodeID list"
  ed_nodeMap :: "(NodeID \<times> nat) list"
  ed_queues :: "bytes list list"
  ed_nNodes :: nat

definition ed_new :: equal_distributor where
  "ed_new = \<lparr>ed_nodes = [], ed_nodeMap = [], ed_queues = [], ed_nNodes = 0\<rparr>"

definition ed_setSlaveNodes :: "NodeID list \<Rightarrow> equal_distributor \<Rightarrow> equal_distributor" where
  "ed_setSlaveNodes nodes d = d\<lparr>ed_nodes := nodes, ed_nNodes := length nodes\<rparr>"

text \<open>The set-up at the first push: a fresh queue for every node, and their indices.\<close>

definition ed_setup :: "equal_distributor \<Rightarrow> equal_distributor" where
  "ed_setup d =
     d\<lparr>ed_queues := replicate (ed_nNodes d) [],
       ed_nodeMap := fold (\<lambda>i m. AList.update (ed_nodes d ! i) i m) [0..<ed_nNodes d] (ed_nodeMap d)\<rparr>"

text \<open>Conversion of a floating point number to an integer, towards zero.\<close>

definition truncated :: "rat \<Rightarrow> int" where
  "truncated x = (if x \<ge> 0 then floor x else - floor (- x))"

definition ed_pushItem ::
  "(rat \<Rightarrow> rat) \<Rightarrow> bytes \<Rightarrow> rat \<Rightarrow> equal_distributor \<Rightarrow> equal_distributor option" where
  "ed_pushItem fl item pos d =
     (let d = (if ed_nodeMap d = [] then ed_setup d else d);
          absPos = truncated (fl (of_nat (ed_nNodes d) * pos))
      in if absPos < 0 \<or> nat absPos \<ge> length (ed_queues d) then None
         else Some (d\<lparr>ed_queues := (ed_queues d)[nat absPos := ed_queues d ! nat absPos @ [item]]\<rparr>))"

text \<open>\<^verbatim>\<open>_nodeMap[ nodeID ]\<close> inserts index 0 for a node that is not there.\<close>

definition ed_index :: "NodeID \<Rightarrow> equal_distributor \<Rightarrow> nat" where
  "ed_index n d = (case map_of (ed_nodeMap d) n of Some i \<Rightarrow> i | None \<Rightarrow> 0)"

definition ed_cmdGetItem ::
  "NodeID \<Rightarrow> get_item \<Rightarrow> equal_distributor \<Rightarrow> (queue_command list \<times> equal_distributor) option" where
  "ed_cmdGetItem n g d =
     (let i = ed_index n d; d = d\<lparr>ed_nodeMap := AList.update n i (ed_nodeMap d)\<rparr>; k = unat (gi_itemsRequested g)
      in if i \<ge> length (ed_queues d) then None
         else Some (item_replies g (take k (ed_queues d ! i)),
                    d\<lparr>ed_queues := (ed_queues d)[i := drop k (ed_queues d ! i)]\<rparr>))"

section \<open>Master and slave\<close>

text \<open>
  The master passes everything on to the distributor, if there is one; pushing without a distributor
  dereferences a null pointer.
\<close>

record 'd queue_master =
  qm_distributor :: "'d option"

definition qm_addItem :: "(bytes \<Rightarrow> rat \<Rightarrow> 'd \<Rightarrow> 'd option) \<Rightarrow> bytes \<Rightarrow> rat \<Rightarrow> 'd queue_master \<Rightarrow> 'd queue_master option" where
  "qm_addItem push item pos m =
     (case qm_distributor m of
        None \<Rightarrow> None
      | Some d \<Rightarrow> map_option (\<lambda>d. m\<lparr>qm_distributor := Some d\<rparr>) (push item pos d))"

definition qm_cmdGetItem ::
  "(NodeID \<Rightarrow> get_item \<Rightarrow> 'd \<Rightarrow> (queue_command list \<times> 'd) option) \<Rightarrow> NodeID \<Rightarrow> get_item \<Rightarrow> 'd queue_master \<Rightarrow>
   (queue_command list \<times> 'd queue_master) option" where
  "qm_cmdGetItem get n g m =
     (case qm_distributor m of
        None \<Rightarrow> Some ([], m)
      | Some d \<Rightarrow> map_option (\<lambda>(rs, d). (rs, m\<lparr>qm_distributor := Some d\<rparr>)) (get n g d))"

record queue_slave =
  qs_queue :: "queue_command list"
  qs_prefetchMark :: uint32
  qs_prefetchAmount :: uint32
  qs_instanceID :: uint32

text \<open>
  One round of the loop in \<^verbatim>\<open>pop\<close>: the request sent when the queue runs low, and then the command
  taken from the queue once there is one.
\<close>

datatype pop_result = Popped bool bytes | QueueEmpty | Retry

definition qs_prefetch :: "uint32 \<Rightarrow> queue_slave \<Rightarrow> get_item list" where
  "qs_prefetch request s =
     (if length (qs_queue s) \<le> unat (qs_prefetchMark s)
      then [\<lparr>gi_itemsRequested = qs_prefetchAmount s, gi_slaveInstanceID = qs_instanceID s, gi_requestID = request\<rparr>]
      else [])"

definition qs_take :: "uint32 \<Rightarrow> queue_slave \<Rightarrow> (pop_result \<times> queue_slave) option" where
  "qs_take request s =
     (case qs_queue s of
        [] \<Rightarrow> None
      | c # q \<Rightarrow>
          Some (case c of
                  CMD_QUEUE_ITEM b i \<Rightarrow> Popped b i
                | CMD_QUEUE_EMPTY r \<Rightarrow> if r = request then QueueEmpty else Retry,
                s\<lparr>qs_queue := q\<rparr>))"

section \<open>A master and its slaves\<close>

text \<open>
  One slave on each node of \<open>N\<close>. Requests and replies travel on FIFO connections; \<open>qy_popping\<close> is the request
  number of the \<^verbatim>\<open>pop\<close> a slave is in, \<open>qy_pushed\<close> and \<open>qy_popped\<close> are the items pushed and returned so far.
\<close>

record 'd queue_system =
  qy_master :: "'d queue_master"
  qy_pushed :: "bytes list"
  qy_slaves :: "NodeID \<Rightarrow> queue_slave"
  qy_requests :: "NodeID \<Rightarrow> get_item list"
  qy_replies :: "NodeID \<Rightarrow> queue_command list"
  qy_popping :: "NodeID \<Rightarrow> uint32 option"
  qy_popped :: "NodeID \<Rightarrow> bytes list"

inductive queue_run ::
  "(bytes \<Rightarrow> rat \<Rightarrow> 'd \<Rightarrow> 'd option) \<Rightarrow> (NodeID \<Rightarrow> get_item \<Rightarrow> 'd \<Rightarrow> (queue_command list \<times> 'd) option) \<Rightarrow> 'd \<Rightarrow>
   NodeID set \<Rightarrow> 'd queue_system \<Rightarrow> bool" for push get d0 N where
  start: "qy_master s = \<lparr>qm_distributor = Some d0\<rparr> \<Longrightarrow> qy_pushed s = [] \<Longrightarrow> (\<And>n. qs_queue (qy_slaves s n) = []) \<Longrightarrow>
    (\<And>n. qy_requests s n = []) \<Longrightarrow> (\<And>n. qy_replies s n = []) \<Longrightarrow> (\<And>n. qy_popped s n = []) \<Longrightarrow>
    queue_run push get d0 N s"
| push: "queue_run push get d0 N s \<Longrightarrow> qm_addItem push i pos (qy_master s) = Some m \<Longrightarrow>
    queue_run push get d0 N (s\<lparr>qy_master := m, qy_pushed := qy_pushed s @ [i]\<rparr>)"
| pop: "queue_run push get d0 N s \<Longrightarrow> n \<in> N \<Longrightarrow>
    queue_run push get d0 N (s\<lparr>qy_popping := (qy_popping s)(n := Some r),
      qy_requests := (qy_requests s)(n := qy_requests s n @ qs_prefetch r (qy_slaves s n))\<rparr>)"
| getItem: "queue_run push get d0 N s \<Longrightarrow> qy_requests s n = g # gs \<Longrightarrow> qm_cmdGetItem get n g (qy_master s) = Some (rs, m) \<Longrightarrow>
    queue_run push get d0 N (s\<lparr>qy_master := m, qy_requests := (qy_requests s)(n := gs),
      qy_replies := (qy_replies s)(n := qy_replies s n @ rs)\<rparr>)"
| receive: "queue_run push get d0 N s \<Longrightarrow> qy_replies s n = c # cs \<Longrightarrow>
    queue_run push get d0 N (s\<lparr>qy_replies := (qy_replies s)(n := cs),
      qy_slaves := (qy_slaves s)(n := (qy_slaves s n)\<lparr>qs_queue := qs_queue (qy_slaves s n) @ [c]\<rparr>)\<rparr>)"
| item: "queue_run push get d0 N s \<Longrightarrow> qy_popping s n = Some r \<Longrightarrow> qs_take r (qy_slaves s n) = Some (Popped b i, q) \<Longrightarrow>
    queue_run push get d0 N (s\<lparr>qy_slaves := (qy_slaves s)(n := q), qy_popping := (qy_popping s)(n := None),
      qy_popped := (qy_popped s)(n := qy_popped s n @ [i])\<rparr>)"
| emptied: "queue_run push get d0 N s \<Longrightarrow> qy_popping s n = Some r \<Longrightarrow> qs_take r (qy_slaves s n) = Some (QueueEmpty, q) \<Longrightarrow>
    queue_run push get d0 N (s\<lparr>qy_slaves := (qy_slaves s)(n := q), qy_popping := (qy_popping s)(n := None)\<rparr>)"
| retry: "queue_run push get d0 N s \<Longrightarrow> qy_popping s n = Some r \<Longrightarrow> qs_take r (qy_slaves s n) = Some (Retry, q) \<Longrightarrow>
    queue_run push get d0 N (s\<lparr>qy_slaves := (qy_slaves s)(n := q),
      qy_requests := (qy_requests s)(n := qy_requests s n @ qs_prefetch r q)\<rparr>)"

section \<open>What a distributor promises\<close>

text \<open>
  \<open>contents\<close> is everything a distributor holds, \<open>avail n\<close> what it may still give to node \<open>n\<close>, in order.
\<close>

definition items_of :: "queue_command list \<Rightarrow> bytes list" where
  "items_of cs = concat (map (\<lambda>c. case c of CMD_QUEUE_ITEM b i \<Rightarrow> [i] | CMD_QUEUE_EMPTY r \<Rightarrow> []) cs)"

lemma items_of_simps [simp]:
  "items_of [] = []" "items_of (CMD_QUEUE_ITEM b i # cs) = i # items_of cs" "items_of (CMD_QUEUE_EMPTY r # cs) = items_of cs"
  "items_of (cs @ ds) = items_of cs @ items_of ds"
  by (simp_all add: items_of_def)

lemma items_of_replies [simp]: "items_of (item_replies g items) = filter (\<lambda>i. i \<noteq> []) items"
  by (simp add: item_replies_def) (induction items, auto)

locale package_distributor =
  fixes push :: "bytes \<Rightarrow> rat \<Rightarrow> 'd \<Rightarrow> 'd option"
    and getItem :: "NodeID \<Rightarrow> get_item \<Rightarrow> 'd \<Rightarrow> (queue_command list \<times> 'd) option"
    and d0 :: 'd
    and valid :: "'d \<Rightarrow> bool"
    and contents :: "'d \<Rightarrow> bytes list"
    and avail :: "NodeID \<Rightarrow> 'd \<Rightarrow> bytes list"
  assumes initial: "valid d0" "contents d0 = []" "avail n d0 = []"
    and push_contents: "valid d \<Longrightarrow> push i pos d = Some d' \<Longrightarrow> valid d' \<and> mset (contents d') = add_mset i (mset (contents d))"
    and push_avail: "valid d \<Longrightarrow> push i pos d = Some d' \<Longrightarrow> avail n d' = avail n d \<or> avail n d' = avail n d @ [i]"
    and getItem_valid: "valid d \<Longrightarrow> getItem n g d = Some (rs, d') \<Longrightarrow> valid d'"
    and getItem_contents: "valid d \<Longrightarrow> getItem n g d = Some (rs, d') \<Longrightarrow>
      \<exists>taken. items_of rs = filter (\<lambda>i. i \<noteq> []) taken \<and> avail n d = taken @ avail n d' \<and>
        mset (contents d) = mset taken + mset (contents d')"
    and getItem_avail: "valid d \<Longrightarrow> getItem n g d = Some (rs, d') \<Longrightarrow> subseq (avail k d') (avail k d)"


text \<open>Everything that has been handed out for a slave: returned, in its queue, or on the way.\<close>

definition slave_items :: "NodeID \<Rightarrow> 'd queue_system \<Rightarrow> bytes list" where
  "slave_items n s = qy_popped s n @ items_of (qs_queue (qy_slaves s n)) @ items_of (qy_replies s n)"

definition nonempty :: "bytes list \<Rightarrow> bytes list" where
  "nonempty items = filter (\<lambda>i. i \<noteq> []) items"

lemma nonempty_append [simp]: "nonempty (xs @ ys) = nonempty xs @ nonempty ys"
  by (simp add: nonempty_def)

lemma subseq_nonempty: "subseq xs ys \<Longrightarrow> subseq (nonempty xs) (nonempty ys)"
  by (simp add: nonempty_def subseq_filter)

lemma sum_change:
  fixes f :: "'a \<Rightarrow> 'b::comm_monoid_add"
  assumes "finite N" and "n \<in> N" and "\<And>m. m \<noteq> n \<Longrightarrow> f' m = f m" and "f' n = f n + x"
  shows "sum f' N = sum f N + x"
proof -
  have "sum f' N = f' n + sum f' (N - {n})" "sum f N = f n + sum f (N - {n})" using assms(1,2) by (simp_all add: sum.remove)
  moreover have "sum f' (N - {n}) = sum f (N - {n})" using assms(3) by (intro sum.cong) auto
  ultimately show ?thesis using assms(4) by (simp add: ac_simps)
qed

context package_distributor
begin

definition queue_inv :: "NodeID set \<Rightarrow> 'd queue_system \<Rightarrow> 'd \<Rightarrow> bool" where
  "queue_inv N s d \<longleftrightarrow>
     qm_distributor (qy_master s) = Some d \<and> valid d \<and>
     (\<forall>n. n \<notin> N \<longrightarrow> qy_requests s n = [] \<and> qy_replies s n = [] \<and> qs_queue (qy_slaves s n) = []) \<and>
     (\<forall>n. subseq (slave_items n s @ nonempty (avail n d)) (nonempty (qy_pushed s))) \<and>
     mset (nonempty (qy_pushed s)) = mset (nonempty (contents d)) + (\<Sum>n \<in> N. mset (slave_items n s))"

lemma queue_inv_idle:
  "queue_inv N s d \<Longrightarrow> n \<notin> N \<Longrightarrow> qy_requests s n = [] \<and> qy_replies s n = [] \<and> qs_queue (qy_slaves s n) = []"
  by (simp add: queue_inv_def)

lemma queue_inv_cong:
  assumes "queue_inv N s d" and "qm_distributor (qy_master s') = qm_distributor (qy_master s)" and "qy_pushed s' = qy_pushed s"
    and "\<And>n. slave_items n s' = slave_items n s"
    and "\<And>n. n \<notin> N \<Longrightarrow> qy_requests s' n = [] \<and> qy_replies s' n = [] \<and> qs_queue (qy_slaves s' n) = []"
  shows "queue_inv N s' d"
  using assms unfolding queue_inv_def by simp

lemma queue_inv_push:
  assumes "queue_inv N s d" and "qm_addItem push i pos (qy_master s) = Some m"
  shows "\<exists>d'. queue_inv N (s\<lparr>qy_master := m, qy_pushed := qy_pushed s @ [i]\<rparr>) d'" (is "\<exists>d'. queue_inv N ?s d'")
proof -
  have d: "qm_distributor (qy_master s) = Some d" "valid d" using assms(1) by (simp_all add: queue_inv_def)
  obtain d' where d': "push i pos d = Some d'" "qm_distributor m = Some d'"
    using assms(2) d(1) by (auto simp: qm_addItem_def)
  have held: "slave_items n ?s = slave_items n s" for n by (simp add: slave_items_def)
  have "subseq (slave_items n s @ nonempty (avail n d')) (nonempty (qy_pushed s @ [i]))" for n
  proof -
    have s: "subseq (slave_items n s @ nonempty (avail n d)) (nonempty (qy_pushed s))" using assms(1) by (simp add: queue_inv_def)
    from push_avail [OF d(2) d'(1), of n] show ?thesis
    proof
      assume "avail n d' = avail n d"
      with list_emb_append_mono [OF s, of "[]" "nonempty [i]"] show ?thesis by simp
    next
      assume "avail n d' = avail n d @ [i]"
      with list_emb_append_mono [OF s, of "nonempty [i]" "nonempty [i]"] show ?thesis by simp
    qed
  qed
  moreover have "mset (nonempty (contents d')) = mset (nonempty (contents d)) + mset (nonempty [i])"
    using push_contents [OF d(2) d'(1)] by (simp add: nonempty_def)
  ultimately show ?thesis
    using assms(1) d' push_contents [OF d(2) d'(1)] unfolding queue_inv_def held by auto
qed

lemma queue_inv_getItem:
  assumes "queue_inv N s d" and "finite N" and "qy_requests s n = g # gs" and "qm_cmdGetItem getItem n g (qy_master s) = Some (rs, m)"
  shows "\<exists>d'. queue_inv N (s\<lparr>qy_master := m, qy_requests := (qy_requests s)(n := gs),
           qy_replies := (qy_replies s)(n := qy_replies s n @ rs)\<rparr>) d'" (is "\<exists>d'. queue_inv N ?s d'")
proof -
  have d: "qm_distributor (qy_master s) = Some d" "valid d" using assms(1) by (simp_all add: queue_inv_def)
  have n: "n \<in> N" using assms(1,3) unfolding queue_inv_def by (metis list.distinct(1))
  obtain d' where d': "getItem n g d = Some (rs, d')" "qm_distributor m = Some d'"
    using assms(4) d(1) by (auto simp: qm_cmdGetItem_def)
  obtain taken where taken: "items_of rs = nonempty taken" "avail n d = taken @ avail n d'"
    "mset (contents d) = mset taken + mset (contents d')"
    using getItem_contents [OF d(2) d'(1)] by (auto simp: nonempty_def)
  have held: "slave_items k ?s = slave_items k s @ (if k = n then nonempty taken else [])" for k
    by (simp add: slave_items_def taken(1))
  have "subseq (slave_items k ?s @ nonempty (avail k d')) (nonempty (qy_pushed s))" for k
  proof -
    have s: "subseq (slave_items k s @ nonempty (avail k d)) (nonempty (qy_pushed s))" using assms(1) by (simp add: queue_inv_def)
    show ?thesis
    proof (cases "k = n")
      case True
      with s taken(2) show ?thesis by (simp add: held)
    next
      case False
      have "subseq (slave_items k s @ nonempty (avail k d')) (slave_items k s @ nonempty (avail k d))"
        by (intro list_emb_append_mono subseq_nonempty getItem_avail [OF d(2) d'(1)]) simp
      with s False show ?thesis by (simp add: held)
    qed
  qed
  moreover have "(\<Sum>k \<in> N. mset (slave_items k ?s)) = (\<Sum>k \<in> N. mset (slave_items k s)) + mset (nonempty taken)"
    by (intro sum_change [OF assms(2) n]) (simp_all add: held)
  moreover have "mset (nonempty (contents d)) = mset (nonempty taken) + mset (nonempty (contents d'))"
    using taken(3) by (simp add: nonempty_def)
  moreover have "mset (nonempty (qy_pushed s)) = mset (nonempty (contents d)) + (\<Sum>k \<in> N. mset (slave_items k s))"
    using assms(1) by (simp add: queue_inv_def)
  moreover have "\<forall>k. k \<notin> N \<longrightarrow> qy_requests ?s k = [] \<and> qy_replies ?s k = [] \<and> qs_queue (qy_slaves ?s k) = []"
    using assms(1) n by (auto simp: queue_inv_def)
  ultimately show ?thesis
    using d' getItem_valid [OF d(2) d'(1)] unfolding queue_inv_def by (intro exI [of _ d']) simp
qed

lemma queue_run_inv:
  assumes "queue_run push getItem d0 N s" and "finite N"
  shows "\<exists>d. queue_inv N s d"
  using assms(1)
proof induction
  case (start s)
  then show ?case using initial by (intro exI [of _ d0]) (simp add: queue_inv_def slave_items_def nonempty_def)
next
  case (push s i pos m)
  with queue_inv_push show ?case by blast
next
  case (pop s n r)
  then obtain d where inv: "queue_inv N s d" by blast
  from inv pop(2) queue_inv_idle [OF inv] show ?case
    by (intro exI [of _ d] queue_inv_cong [OF inv]) (auto simp: slave_items_def)
next
  case (getItem s n g gs rs m)
  with queue_inv_getItem [OF _ assms(2)] show ?case by blast
next
  case (receive s n c cs)
  then obtain d where inv: "queue_inv N s d" by blast
  have "items_of (c # cs) = items_of [c] @ items_of cs" by (simp add: items_of_def)
  moreover have "n \<in> N" using receive(2) queue_inv_idle [OF inv, of n] by auto
  ultimately show ?case
    using receive(2) queue_inv_idle [OF inv] by (intro exI [of _ d] queue_inv_cong [OF inv]) (auto simp: slave_items_def)
next
  case (item s n r b i q)
  then obtain d where inv: "queue_inv N s d" by blast
  have q: "qs_queue (qy_slaves s n) = CMD_QUEUE_ITEM b i # qs_queue q"
    using item(3) by (auto simp: qs_take_def split: list.splits queue_command.splits if_splits)
  then have "n \<in> N" using queue_inv_idle [OF inv, of n] by auto
  with q queue_inv_idle [OF inv] show ?case
    by (intro exI [of _ d] queue_inv_cong [OF inv]) (auto simp: slave_items_def)
next
  case (emptied s n r q)
  then obtain d where inv: "queue_inv N s d" by blast
  obtain e where q: "qs_queue (qy_slaves s n) = CMD_QUEUE_EMPTY e # qs_queue q"
    using emptied(3) by (auto simp: qs_take_def split: list.splits queue_command.splits if_splits)
  then have "n \<in> N" using queue_inv_idle [OF inv, of n] by auto
  with q queue_inv_idle [OF inv] show ?case
    by (intro exI [of _ d] queue_inv_cong [OF inv]) (auto simp: slave_items_def)
next
  case (retry s n r q)
  then obtain d where inv: "queue_inv N s d" by blast
  obtain e where q: "qs_queue (qy_slaves s n) = CMD_QUEUE_EMPTY e # qs_queue q"
    using retry(3) by (auto simp: qs_take_def split: list.splits queue_command.splits if_splits)
  then have "n \<in> N" using queue_inv_idle [OF inv, of n] by auto
  with q queue_inv_idle [OF inv] show ?case
    by (intro exI [of _ d] queue_inv_cong [OF inv]) (auto simp: slave_items_def)
qed

end


section \<open>The distributors keep the promise\<close>

interpretation random: package_distributor rd_pushItem rd_cmdGetItem rd_new "\<lambda>_. True" rd_queue "\<lambda>n. rd_queue"
proof unfold_locales
  fix d n g rs d'
  assume "rd_cmdGetItem n g d = Some (rs, d')"
  then have "rs = item_replies g (take (unat (gi_itemsRequested g)) (rd_queue d))"
    "rd_queue d' = drop (unat (gi_itemsRequested g)) (rd_queue d)"
    by (auto simp: rd_cmdGetItem_def Let_def)
  then show "\<exists>taken. items_of rs = filter (\<lambda>i. i \<noteq> []) taken \<and> rd_queue d = taken @ rd_queue d' \<and>
      mset (rd_queue d) = mset taken + mset (rd_queue d')"
    by (intro exI [of _ "take (unat (gi_itemsRequested g)) (rd_queue d)"]) (simp flip: mset_append)
  show "subseq (rd_queue d') (rd_queue d)"
    by (simp add: \<open>rd_queue d' = _\<close> suffix_drop suffix_imp_subseq)
qed (auto simp: rd_new_def rd_pushItem_def)

definition ed_valid :: "equal_distributor \<Rightarrow> bool" where
  "ed_valid d \<longleftrightarrow> (ed_nodeMap d = [] \<longrightarrow> ed_queues d = [])"

definition ed_avail :: "NodeID \<Rightarrow> equal_distributor \<Rightarrow> bytes list" where
  "ed_avail n d = (if ed_index n d < length (ed_queues d) then ed_queues d ! ed_index n d else [])"

lemma mset_concat_update:
  "i < length qs \<Longrightarrow> mset (concat (qs[i := q])) + mset (qs ! i) = mset (concat qs) + mset q"
proof (induction qs arbitrary: i)
  case (Cons a qs)
  show ?case
  proof (cases i)
    case (Suc j)
    with Cons show ?thesis by (simp add: ac_simps)
  qed (simp add: ac_simps)
qed simp

lemma fold_update_nonempty: "fold (\<lambda>i m. AList.update (f i) i m) is m = [] \<Longrightarrow> is = []"
proof (induction "is" rule: rev_induct)
  case (snoc i "is")
  then show ?case by (simp add: AList.update_nonempty)
qed simp

lemma ed_pushItem_queues:
  assumes "ed_valid d" and "ed_pushItem fl i pos d = Some d'"
  shows "\<exists>d1 k. ed_queues d' = (ed_queues d1)[k := ed_queues d1 ! k @ [i]] \<and> k < length (ed_queues d1) \<and> ed_nodeMap d' = ed_nodeMap d1 \<and>
    ed_nodeMap d1 \<noteq> [] \<and> concat (ed_queues d1) = concat (ed_queues d) \<and> (\<forall>n. ed_avail n d1 = ed_avail n d)"
proof (cases "ed_nodeMap d = []")
  case True
  then have empty: "ed_queues d = []" using assms(1) by (simp add: ed_valid_def)
  let ?d = "ed_setup d"
  have "concat (ed_queues ?d) = []" by (simp add: ed_setup_def)
  moreover have "ed_avail n ?d = []" "ed_avail n d = []" for n
    by (simp_all add: ed_avail_def ed_setup_def empty)
  moreover have "ed_nodeMap ?d \<noteq> [] \<or> ed_queues ?d = []"
  proof (cases "ed_nNodes d")
    case 0
    then show ?thesis by (simp add: ed_setup_def)
  next
    case (Suc k)
    then have "[0..<ed_nNodes d] \<noteq> []" by simp
    with fold_update_nonempty have "ed_nodeMap ?d \<noteq> []" by (auto simp: ed_setup_def simp del: upt_eq_Nil_conv)
    then show ?thesis ..
  qed
  ultimately show ?thesis
    using assms(2) True empty
    by (intro exI [of _ ?d] exI [of _ "nat (truncated (fl (of_nat (ed_nNodes ?d) * pos)))"])
       (auto simp: ed_pushItem_def Let_def split: if_splits)
next
  case False
  then show ?thesis
    using assms(2)
    by (intro exI [of _ d] exI [of _ "nat (truncated (fl (of_nat (ed_nNodes d) * pos)))"])
       (auto simp: ed_pushItem_def Let_def split: if_splits)
qed

lemma ed_index_update [simp]: "ed_index n (d\<lparr>ed_queues := q\<rparr>) = ed_index n d"
  "ed_index n (d\<lparr>ed_nodeMap := AList.update k (ed_index k d) (ed_nodeMap d)\<rparr>) = ed_index n d"
  by (simp_all add: ed_index_def update_conv')

interpretation equal: package_distributor "ed_pushItem fl" ed_cmdGetItem "ed_setSlaveNodes nodes ed_new" ed_valid
  "\<lambda>d. concat (ed_queues d)" ed_avail for fl nodes
proof unfold_locales
  fix d n g rs d'
  assume get: "ed_cmdGetItem n g d = Some (rs, d')" and valid: "ed_valid d"
  let ?k = "unat (gi_itemsRequested g)" and ?i = "ed_index n d"
  have i: "?i < length (ed_queues d)" "rs = item_replies g (take ?k (ed_queues d ! ?i))"
    "ed_queues d' = (ed_queues d)[?i := drop ?k (ed_queues d ! ?i)]"
    "ed_nodeMap d' = AList.update n ?i (ed_nodeMap d)"
    using get by (auto simp: ed_cmdGetItem_def Let_def split: if_splits)
  show "ed_valid d'" by (simp add: ed_valid_def i(4) AList.update_nonempty)
  have index: "ed_index k d' = ed_index k d" for k by (simp add: ed_index_def i(4) update_conv')
  have "mset (concat (ed_queues d')) + mset (ed_queues d ! ?i) = mset (concat (ed_queues d)) + mset (drop ?k (ed_queues d ! ?i))"
    using mset_concat_update [OF i(1)] i(3) by simp
  moreover have "mset (ed_queues d ! ?i) = mset (take ?k (ed_queues d ! ?i)) + mset (drop ?k (ed_queues d ! ?i))"
    by (simp flip: mset_append)
  ultimately have "mset (concat (ed_queues d)) = mset (take ?k (ed_queues d ! ?i)) + mset (concat (ed_queues d'))"
    by (simp add: ac_simps)
  then show "\<exists>taken. items_of rs = filter (\<lambda>i. i \<noteq> []) taken \<and> ed_avail n d = taken @ ed_avail n d' \<and>
      mset (concat (ed_queues d)) = mset taken + mset (concat (ed_queues d'))"
    using i by (intro exI [of _ "take ?k (ed_queues d ! ?i)"]) (simp add: ed_avail_def index)
  show "subseq (ed_avail k d') (ed_avail k d)" for k
    using i by (cases "ed_index k d = ?i") (simp_all add: ed_avail_def index suffix_drop suffix_imp_subseq)
next
  fix d i pos d'
  assume valid: "ed_valid d" and push: "ed_pushItem fl i pos d = Some d'"
  obtain d1 k where d1: "ed_queues d' = (ed_queues d1)[k := ed_queues d1 ! k @ [i]]" "k < length (ed_queues d1)"
    "ed_nodeMap d' = ed_nodeMap d1" "ed_nodeMap d1 \<noteq> []" "concat (ed_queues d1) = concat (ed_queues d)" "\<forall>n. ed_avail n d1 = ed_avail n d"
    using ed_pushItem_queues [OF valid push] by blast
  from mset_concat_update [OF d1(2), of "ed_queues d1 ! k @ [i]"] d1
  show "ed_valid d' \<and> mset (concat (ed_queues d')) = add_mset i (mset (concat (ed_queues d)))"
    by (simp add: ed_valid_def)
  fix n
  have "ed_index n d' = ed_index n d1" by (simp add: ed_index_def d1(3))
  then have "ed_avail n d' = ed_avail n d1 \<or> ed_avail n d' = ed_avail n d1 @ [i]"
    using d1(1,2) by (cases "ed_index n d1 = k") (simp_all add: ed_avail_def)
  with d1(6) show "ed_avail n d' = ed_avail n d \<or> ed_avail n d' = ed_avail n d @ [i]" by simp
qed (simp_all add: ed_setSlaveNodes_def ed_new_def ed_valid_def ed_avail_def)


section \<open>Properties\<close>

text \<open>C38 (distributed_queue_exactly_once): with the random distributor and one slave per node every item with data that was pushed at the master
  is in exactly one place, once: still in the master's queue, on the way to one slave, in that slave's queue or returned by
  its \<open>pop\<close>. Every slave pops its items in the order they were pushed.\<close>

theorem distributed_queue_exactly_once:
  assumes "queue_run rd_pushItem rd_cmdGetItem rd_new N s" and "finite N"
  shows "\<exists>d. qm_distributor (qy_master s) = Some d \<and>
    mset (nonempty (qy_pushed s)) = mset (nonempty (rd_queue d)) +
      (\<Sum>n \<in> N. mset (qy_popped s n @ items_of (qs_queue (qy_slaves s n)) @ items_of (qy_replies s n))) \<and>
    (\<forall>n. subseq (qy_popped s n) (qy_pushed s))"
proof -
  obtain d where inv: "random.queue_inv N s d" using random.queue_run_inv [OF assms] by blast
  have "subseq (qy_popped s n) (qy_pushed s)" for n
  proof -
    have "subseq (slave_items n s @ nonempty (rd_queue d)) (nonempty (qy_pushed s))" using inv by (simp add: random.queue_inv_def)
    moreover have "subseq (qy_popped s n) (slave_items n s @ nonempty (rd_queue d))"
      by (intro prefix_imp_subseq) (simp add: slave_items_def)
    moreover have "subseq (nonempty (qy_pushed s)) (qy_pushed s)" by (simp add: nonempty_def subseq_filter_left)
    ultimately show ?thesis by (meson subseq_order.order_trans)
  qed
  with inv show ?thesis by (intro exI [of _ d]) (simp add: random.queue_inv_def slave_items_def)
qed

text \<open>The same holds with the equal distributor, which keeps one queue per slave node,
  for every rounding of the position.\<close>

theorem equal_distributor_exactly_once:
  assumes "queue_run (ed_pushItem fl) ed_cmdGetItem (ed_setSlaveNodes nodes ed_new) N s" and "finite N"
  shows "\<exists>d. qm_distributor (qy_master s) = Some d \<and>
    mset (nonempty (qy_pushed s)) = mset (nonempty (concat (ed_queues d))) +
      (\<Sum>n \<in> N. mset (qy_popped s n @ items_of (qs_queue (qy_slaves s n)) @ items_of (qy_replies s n)))"
proof -
  obtain d where "equal.queue_inv N s d" using equal.queue_run_inv [OF assms] by blast
  then show ?thesis by (intro exI [of _ d]) (simp add: equal.queue_inv_def slave_items_def)
qed

text \<open>An item without data is taken from the queue but not sent, so the request of a slave
  for one item gets no answer at all and its \<open>pop\<close> keeps waiting.\<close>

theorem queue_empty_item_unanswered:
  assumes "gi_itemsRequested g = 1"
  shows "map_option (\<lambda>d. rd_cmdGetItem n g d) (rd_pushItem [] pos rd_new) = Some (Some ([], rd_new))"
  using assms by (simp add: rd_cmdGetItem_def rd_pushItem_def rd_new_def item_replies_def)

definition sample_request :: get_item where
  "sample_request = \<lparr>gi_itemsRequested = 1, gi_slaveInstanceID = 0, gi_requestID = 1\<rparr>"

theorem queue_empty_item_unanswered_witness:
  "map_option (\<lambda>d. rd_cmdGetItem 7 sample_request d) (rd_pushItem [] 0 rd_new) = Some (Some ([], rd_new))"
  using queue_empty_item_unanswered [of sample_request] by (simp add: sample_request_def)

text \<open>An item pushed for two slaves.\<close>

definition sample_slave :: queue_slave where
  "sample_slave = \<lparr>qs_queue = [], qs_prefetchMark = 1, qs_prefetchAmount = 1, qs_instanceID = 0\<rparr>"

definition sample_queue :: "'d \<Rightarrow> 'd queue_system" where
  "sample_queue d =
     \<lparr>qy_master = \<lparr>qm_distributor = Some d\<rparr>, qy_pushed = [], qy_slaves = (\<lambda>_. sample_slave), qy_requests = (\<lambda>_. []),
      qy_replies = (\<lambda>_. []), qy_popping = (\<lambda>_. None), qy_popped = (\<lambda>_. [])\<rparr>"

lemma sample_queue_run: "queue_run push get d N (sample_queue d)"
  by (rule queue_run.start) (simp_all add: sample_queue_def sample_slave_def)

theorem distributed_queue_exactly_once_witness:
  "\<exists>(s :: random_distributor queue_system) d. qy_pushed s = [[42]] \<and> qm_distributor (qy_master s) = Some d \<and>
    mset (nonempty (qy_pushed s)) = mset (nonempty (rd_queue d)) +
      (\<Sum>n \<in> {1, 2}. mset (qy_popped s n @ items_of (qs_queue (qy_slaves s n)) @ items_of (qy_replies s n))) \<and>
    (\<forall>n. subseq (qy_popped s n) (qy_pushed s))"
proof -
  have "qm_addItem rd_pushItem [42] 0 (qy_master (sample_queue rd_new)) = Some \<lparr>qm_distributor = Some \<lparr>rd_queue = [[42]]\<rparr>\<rparr>"
    by (simp add: qm_addItem_def rd_pushItem_def rd_new_def sample_queue_def)
  from distributed_queue_exactly_once [OF queue_run.push [OF sample_queue_run this], of "{1, 2}"] show ?thesis
    by (intro exI [of _ "(sample_queue rd_new)\<lparr>qy_master := \<lparr>qm_distributor = Some \<lparr>rd_queue = [[42]]\<rparr>\<rparr>,
      qy_pushed := qy_pushed (sample_queue rd_new) @ [[42]]\<rparr>"]) (auto simp: sample_queue_def)
qed

theorem equal_distributor_exactly_once_witness:
  "\<exists>d. qm_distributor (qy_master (sample_queue (ed_setSlaveNodes [1, 2] ed_new))) = Some d \<and>
    mset (nonempty (qy_pushed (sample_queue (ed_setSlaveNodes [1, 2] ed_new)))) = mset (nonempty (concat (ed_queues d))) +
      (\<Sum>n \<in> {1, 2}. mset (qy_popped (sample_queue (ed_setSlaveNodes [1, 2] ed_new)) n @
        items_of (qs_queue (qy_slaves (sample_queue (ed_setSlaveNodes [1, 2] ed_new)) n)) @
        items_of (qy_replies (sample_queue (ed_setSlaveNodes [1, 2] ed_new)) n)))"
  by (rule equal_distributor_exactly_once [OF sample_queue_run]) simp

end
