(* ===== verification/Buffer_Cache.thy ===== *)
theory Buffer_Cache
  imports Collage_Prelude
begin

text \<open>
  The cache of receive buffers, \<^verbatim>\<open>src/co/bufferCache.cpp\<close> and \<^verbatim>\<open>buffer.cpp\<close>. A buffer is its address
  and its \<open>free\<close> flag; the list iterator \<open>_position\<close> is an index, and memory for new buffers comes
  from a counter. A buffer is released by any thread in two steps, since \<^verbatim>\<open>Buffer::notifyFree\<close> first
  increments the counter of the cache and then sets the flag. The counters are unbounded.
\<close>

section \<open>State and operations\<close>

record buf =
  bf_id :: nat
  bf_free :: bool

record buffer_cache =
  bc_cache :: "buf list"
  bc_position :: nat
  bc_free :: int
  bc_minFree :: int
  bc_maxFree :: int
  bc_next :: nat

definition maxFreeShift :: nat where "maxFreeShift = 1"
definition targetShift :: nat where "targetShift = 1"

definition bf_new :: "nat \<Rightarrow> buf" where
  "bf_new i = \<lparr>bf_id = i, bf_free = True\<rparr>"

definition bf_setUsed :: "buf \<Rightarrow> buf" where
  "bf_setUsed b = b\<lparr>bf_free := False\<rparr>"

definition bc_flush :: "buffer_cache \<Rightarrow> buffer_cache" where
  "bc_flush c =
     c\<lparr>bc_cache := [bf_new (bc_next c)], bc_next := Suc (bc_next c), bc_free := 1, bc_maxFree := bc_minFree c,
       bc_position := 0\<rparr>"

definition bc_new :: "int \<Rightarrow> buffer_cache" where
  "bc_new minFree =
     bc_flush \<lparr>bc_cache = [], bc_position = 0, bc_free = 0, bc_minFree = minFree, bc_maxFree = 0, bc_next = 0\<rparr>"

text \<open>
  The search for a free buffer, from the one after the last position up to that position: the index
  found, or \<^term>\<open>None\<close> inside when the loop ends without one. The end of the list is only looked at
  in the loop body, so a search that started at the first buffer does not end there.
\<close>

partial_function (option) bc_search :: "buf list \<Rightarrow> nat \<Rightarrow> nat \<Rightarrow> nat option option" where
  "bc_search cache e i =
     (if i = e then Some None
      else
        (let i = (if i = length cache then 0 else i)
         in if bf_free (cache ! i) then Some (Some i) else bc_search cache e (Suc i)))"

declare bc_search.simps [code]

definition bc_grow :: "buffer_cache \<Rightarrow> nat \<times> buffer_cache" where
  "bc_grow c =
     (let add = length (bc_cache c) div 8 + 1;
          cache = bc_cache c @ map bf_new [bc_next c..<bc_next c + add];
          num = int (length cache) div 2 ^ maxFreeShift
      in (bf_id (last cache),
          c\<lparr>bc_cache := butlast cache @ [bf_setUsed (last cache)], bc_next := bc_next c + add,
            bc_free := bc_free c + int add - 1, bc_maxFree := max (bc_minFree c) num, bc_position := 0\<rparr>))"

definition bc_newBuffer :: "buffer_cache \<Rightarrow> (nat \<times> buffer_cache) option" where
  "bc_newBuffer c =
     (if bc_free c > 0 then
        (case bc_search (bc_cache c) (bc_position c) (Suc (bc_position c)) of
           None \<Rightarrow> None
         | Some (Some i) \<Rightarrow>
             Some (bf_id (bc_cache c ! i),
                   c\<lparr>bc_position := i, bc_free := bc_free c - 1,
                     bc_cache := (bc_cache c)[i := bf_setUsed (bc_cache c ! i)]\<rparr>)
         | Some None \<Rightarrow> Some (bc_grow c))
      else Some (bc_grow c))"

text \<open>The loop of \<^verbatim>\<open>compact\<close>: the buffers kept before the iterator and from it on, and the counter.\<close>

fun bc_compactLoop :: "int \<Rightarrow> int \<Rightarrow> buf list \<Rightarrow> buf list \<Rightarrow> buf list \<times> buf list \<times> int" where
  "bc_compactLoop target n kept [] = (kept, [], n)"
| "bc_compactLoop target n kept (b # bs) =
     (if bf_free b then (if n - 1 \<le> target then (kept, bs, n - 1) else bc_compactLoop target (n - 1) kept bs)
      else bc_compactLoop target n (kept @ [b]) bs)"

definition bc_compact :: "buffer_cache \<Rightarrow> buffer_cache" where
  "bc_compact c =
     (if bc_free c \<le> bc_maxFree c then c
      else
        (let target = max (bc_maxFree c div 2 ^ targetShift) (bc_minFree c)
         in case bc_compactLoop target (bc_free c) [] (bc_cache c) of
              (kept, rest, n) \<Rightarrow>
                c\<lparr>bc_cache := kept @ rest, bc_free := n,
                  bc_maxFree := max (bc_minFree c) (int (length (kept @ rest)) div 2 ^ maxFreeShift),
                  bc_position := (if rest = [] then 0 else length kept)\<rparr>))"

definition bc_notifyFree :: "buffer_cache \<Rightarrow> buffer_cache" where
  "bc_notifyFree c = c\<lparr>bc_free := bc_free c + 1\<rparr>"

definition bf_notifyFree :: "nat \<Rightarrow> buffer_cache \<Rightarrow> buffer_cache" where
  "bf_notifyFree i c = c\<lparr>bc_cache := map (\<lambda>b. if bf_id b = i then b\<lparr>bf_free := True\<rparr> else b) (bc_cache c)\<rparr>"

section \<open>Reachable states\<close>

definition used :: "buffer_cache \<Rightarrow> nat set" where
  "used c = bf_id ` {b \<in> set (bc_cache c). \<not> bf_free b}"

text \<open>\<open>R\<close> are the buffers that have been counted but not been flagged as free yet.\<close>

inductive bc_reachable :: "int \<Rightarrow> buffer_cache \<Rightarrow> nat set \<Rightarrow> bool" for minFree where
  start: "bc_reachable minFree (bc_new minFree) {}"
| alloc: "bc_reachable minFree c R \<Longrightarrow> bc_newBuffer c = Some (b, c') \<Longrightarrow> bc_reachable minFree c' R"
| compacted: "bc_reachable minFree c R \<Longrightarrow> bc_reachable minFree (bc_compact c) R"
| counted: "bc_reachable minFree c R \<Longrightarrow> b \<in> used c - R \<Longrightarrow> bc_reachable minFree (bc_notifyFree c) (insert b R)"
| flagged: "bc_reachable minFree c R \<Longrightarrow> b \<in> R \<Longrightarrow> bc_reachable minFree (bf_notifyFree b c) (R - {b})"

definition nfree :: "buf list \<Rightarrow> nat" where
  "nfree bs = length (filter bf_free bs)"

definition bc_inv :: "int \<Rightarrow> buffer_cache \<Rightarrow> nat set \<Rightarrow> bool" where
  "bc_inv minFree c R \<longleftrightarrow>
     distinct (map bf_id (bc_cache c)) \<and> (\<forall>b \<in> set (bc_cache c). bf_id b < bc_next c) \<and> bc_cache c \<noteq> [] \<and>
     bc_position c < length (bc_cache c) \<and> finite R \<and> R \<subseteq> used c \<and> bc_free c = int (nfree (bc_cache c) + card R) \<and>
     bc_minFree c = minFree \<and> minFree \<le> bc_maxFree c"

section \<open>The search\<close>

lemma nfree_simps [simp]:
  "nfree [] = 0" "nfree (b # bs) = (if bf_free b then Suc (nfree bs) else nfree bs)" "nfree (bs @ bs') = nfree bs + nfree bs'"
  by (simp_all add: nfree_def)

lemma search_result:
  assumes "bc_search cache e i = Some r" and "i \<le> length cache" and "cache \<noteq> []"
  shows "case r of None \<Rightarrow> True | Some k \<Rightarrow> k < length cache \<and> bf_free (cache ! k)"
proof -
  let ?P = "\<lambda>cache e i r. i \<le> length cache \<longrightarrow> cache \<noteq> [] \<longrightarrow> (case r of None \<Rightarrow> True | Some k \<Rightarrow> k < length cache \<and> bf_free (cache ! k))"
  have "?P cache e i r"
  proof (rule bc_search.raw_induct [of ?P, rotated, OF assms(1)], intro impI)
    fix search cache e i r
    assume IH: "\<And>cache e i r. search cache e i = Some r \<Longrightarrow> ?P cache e i r"
      and body: "(if i = e then Some None else let i = if i = length cache then 0 else i
        in if bf_free (cache ! i) then Some (Some i) else search cache e (Suc i)) = Some r"
      and i: "i \<le> length cache" "cache \<noteq> []"
    let ?i = "if i = length cache then 0 else i"
    have len: "?i < length cache" using i by simp
    show "case r of None \<Rightarrow> True | Some k \<Rightarrow> k < length cache \<and> bf_free (cache ! k)"
    proof (cases "i = e")
      case True
      then have "r = None" using body by simp
      then show ?thesis by simp
    next
      case ne: False
      show ?thesis
      proof (cases "bf_free (cache ! ?i)")
        case True
        then have "r = Some ?i" using body unfolding Let_def if_not_P [OF ne] if_P [OF True] by blast
        with True len show ?thesis by (simp only: option.case)
      next
        case False
        then have "search cache e (Suc ?i) = Some r" using body unfolding Let_def if_not_P [OF ne] if_not_P [OF False] by blast
        from IH [OF this] i(2) len show ?thesis by (metis Suc_leI)
      qed
    qed
  qed
  with assms(2,3) show ?thesis by blast
qed

lemma search_step: "i \<noteq> e \<Longrightarrow> i < length cache \<Longrightarrow> \<not> bf_free (cache ! i) \<Longrightarrow> bc_search cache e i = bc_search cache e (Suc i)"
  by (subst bc_search.simps) simp

lemma search_hit: "i \<noteq> e \<Longrightarrow> i < length cache \<Longrightarrow> bf_free (cache ! i) \<Longrightarrow> bc_search cache e i = Some (Some i)"
  by (subst bc_search.simps) simp

lemma search_stop: "bc_search cache e e = Some None"
  by (subst bc_search.simps) simp

lemma search_wrap:
  "length cache \<noteq> e \<Longrightarrow> bc_search cache e (length cache) =
     (if bf_free (cache ! 0) then Some (Some 0) else bc_search cache e (Suc 0))"
  by (subst bc_search.simps) simp

text \<open>Up to the end position the search ends; up to the end of the list it ends or wraps around.\<close>

lemma search_up: "i \<le> e \<Longrightarrow> e \<le> length cache \<Longrightarrow> bc_search cache e i \<noteq> None"
proof (induction "e - i" arbitrary: i)
  case 0
  then show ?case by (simp add: search_stop)
next
  case (Suc d)
  then have i: "i < e" "i < length cache" by linarith+
  show ?case
  proof (cases "bf_free (cache ! i)")
    case True
    with i show ?thesis by (simp add: search_hit)
  next
    case False
    have "bc_search cache e (Suc i) \<noteq> None" using Suc i by (intro Suc.hyps(1)) simp_all
    with i False show ?thesis by (simp add: search_step)
  qed
qed

lemma search_tail:
  "e < i \<Longrightarrow> i \<le> length cache \<Longrightarrow> (\<exists>k. bc_search cache e i = Some (Some k)) \<or>
     ((\<forall>j. i \<le> j \<and> j < length cache \<longrightarrow> \<not> bf_free (cache ! j)) \<and> bc_search cache e i = bc_search cache e (length cache))"
proof (induction "length cache - i" arbitrary: i)
  case 0
  then have "i = length cache" by simp
  then show ?case by auto
next
  case (Suc d)
  then have i: "i \<noteq> e" "i < length cache" by linarith+
  show ?case
  proof (cases "bf_free (cache ! i)")
    case True
    with i show ?thesis by (simp add: search_hit)
  next
    case False
    have "(\<exists>k. bc_search cache e (Suc i) = Some (Some k)) \<or>
        ((\<forall>j. Suc i \<le> j \<and> j < length cache \<longrightarrow> \<not> bf_free (cache ! j)) \<and> bc_search cache e (Suc i) = bc_search cache e (length cache))"
      using Suc i by (intro Suc.hyps(1)) simp_all
    moreover have "\<not> bf_free (cache ! j)" if "\<forall>j. Suc i \<le> j \<and> j < length cache \<longrightarrow> \<not> bf_free (cache ! j)" "i \<le> j" "j < length cache" for j
      using that False by (cases "j = i") auto
    ultimately show ?thesis unfolding search_step [OF i False] by blast
  qed
qed

lemma search_terminates:
  assumes "e < length cache" and "0 < e \<or> (\<exists>b \<in> set cache. bf_free b)"
  shows "bc_search cache e (Suc e) \<noteq> None"
proof -
  have "(\<exists>k. bc_search cache e (Suc e) = Some (Some k)) \<or>
      ((\<forall>j. Suc e \<le> j \<and> j < length cache \<longrightarrow> \<not> bf_free (cache ! j)) \<and> bc_search cache e (Suc e) = bc_search cache e (length cache))"
    using assms(1) by (intro search_tail) simp_all
  then show ?thesis
  proof (elim disjE conjE exE)
    assume none: "\<forall>j. Suc e \<le> j \<and> j < length cache \<longrightarrow> \<not> bf_free (cache ! j)"
      and "bc_search cache e (Suc e) = bc_search cache e (length cache)"
    then have eq: "bc_search cache e (Suc e) = (if bf_free (cache ! 0) then Some (Some 0) else bc_search cache e (Suc 0))"
      using assms(1) by (simp add: search_wrap)
    show ?thesis
    proof (cases "0 < e")
      case True
      with assms(1) have "bc_search cache e (Suc 0) \<noteq> None" by (intro search_up) simp_all
      with eq show ?thesis by simp
    next
      case False
      with assms(2) obtain j where "j < length cache" "bf_free (cache ! j)" by (auto simp: in_set_conv_nth)
      with none False have "bf_free (cache ! 0)" by (cases j) auto
      with eq show ?thesis by simp
    qed
  qed simp
qed


section \<open>The invariant\<close>

lemma nfree_update_used: "i < length bs \<Longrightarrow> bf_free (bs ! i) \<Longrightarrow> nfree bs = Suc (nfree (bs[i := bf_setUsed (bs ! i)]))"
proof (induction bs arbitrary: i)
  case (Cons b bs)
  then show ?case by (cases i) (auto simp: bf_setUsed_def)
qed simp

lemma ids_update_used [simp]: "map bf_id (bs[i := bf_setUsed (bs ! i)]) = map bf_id bs"
proof (cases "i < length bs")
  case True
  then show ?thesis by (intro nth_equalityI) (auto simp: nth_list_update bf_setUsed_def)
qed (simp add: list_update_beyond)

lemma used_update:
  assumes "distinct (map bf_id bs)" and "i < length bs" and "bf_free (bs ! i)"
  shows "bf_id ` {b \<in> set (bs[i := bf_setUsed (bs ! i)]). \<not> bf_free b} = insert (bf_id (bs ! i)) (bf_id ` {b \<in> set bs. \<not> bf_free b})"
proof -
  have "set (bs[i := bf_setUsed (bs ! i)]) = insert (bf_setUsed (bs ! i)) (set bs - {bs ! i})"
    using assms(1,2) by (intro set_update_distinct) (simp_all add: distinct_map)
  then have "{b \<in> set (bs[i := bf_setUsed (bs ! i)]). \<not> bf_free b} = insert (bf_setUsed (bs ! i)) {b \<in> set bs. \<not> bf_free b}"
    using assms(3) by (auto simp: bf_setUsed_def)
  then show ?thesis by (simp add: bf_setUsed_def)
qed

lemma free_not_used:
  assumes "distinct (map bf_id bs)" and "b \<in> set bs" and "bf_free b"
  shows "bf_id b \<notin> bf_id ` {b \<in> set bs. \<not> bf_free b}"
  using assms by (auto simp: distinct_map dest: inj_onD)

text \<open>A buffer found in the cache.\<close>

lemma take_buffer_inv:
  assumes "bc_inv m c R" and "i < length (bc_cache c)" and "bf_free (bc_cache c ! i)"
    and "c' = c\<lparr>bc_position := i, bc_free := bc_free c - 1, bc_cache := (bc_cache c)[i := bf_setUsed (bc_cache c ! i)]\<rparr>"
  shows "bc_inv m c' R" "bf_id (bc_cache c ! i) \<notin> used c" "used c' = insert (bf_id (bc_cache c ! i)) (used c)"
proof -
  have d: "distinct (map bf_id (bc_cache c))" using assms(1) by (simp add: bc_inv_def)
  show u: "used c' = insert (bf_id (bc_cache c ! i)) (used c)"
    using used_update [OF d assms(2,3)] by (simp add: used_def assms(4))
  show "bf_id (bc_cache c ! i) \<notin> used c"
    using free_not_used [OF d nth_mem [OF assms(2)] assms(3)] by (simp add: used_def)
  have "bf_id ` set (bc_cache c') = bf_id ` set (bc_cache c)" by (simp add: assms(4) flip: set_map)
  then have "bf_id b \<in> bf_id ` set (bc_cache c)" if "b \<in> set (bc_cache c')" for b using that by blast
  moreover have "\<forall>n \<in> bf_id ` set (bc_cache c). n < bc_next c'" using assms(1) by (simp add: bc_inv_def assms(4))
  ultimately have "\<forall>b \<in> set (bc_cache c'). bf_id b < bc_next c'" by blast
  with assms(1,2) u nfree_update_used [OF assms(2,3)] show "bc_inv m c' R"
    by (auto simp: bc_inv_def assms(4))
qed

text \<open>New buffers.\<close>

lemma grow_shape:
  "\<exists>k. bc_grow c = (bc_next c + k, c\<lparr>bc_cache := bc_cache c @ map bf_new [bc_next c..<bc_next c + k] @ [bf_setUsed (bf_new (bc_next c + k))],
     bc_next := Suc (bc_next c + k), bc_free := bc_free c + int k,
     bc_maxFree := max (bc_minFree c) (int (length (bc_cache c) + Suc k) div 2), bc_position := 0\<rparr>)"
  by (intro exI [of _ "length (bc_cache c) div 8"]) (simp add: bc_grow_def Let_def maxFreeShift_def bf_new_def bf_setUsed_def butlast_append)

lemma nfree_new: "nfree (map bf_new ns) = length ns"
  by (induction ns) (simp_all add: bf_new_def)

lemma grow_inv:
  assumes "bc_inv m c R" and "bc_grow c = (b, c')"
  shows "bc_inv m c' R \<and> b \<notin> used c \<and> used c' = insert b (used c)"
proof -
  obtain k where c': "b = bc_next c + k" "c' = c\<lparr>bc_cache := bc_cache c @ map bf_new [bc_next c..<bc_next c + k] @
      [bf_setUsed (bf_new (bc_next c + k))], bc_next := Suc (bc_next c + k), bc_free := bc_free c + int k,
      bc_maxFree := max (bc_minFree c) (int (length (bc_cache c) + Suc k) div 2), bc_position := 0\<rparr>"
    using grow_shape [of c] assms(2) by auto
  have new: "map (bf_id \<circ> bf_new) ns = ns" for ns by (induction ns) (simp_all add: bf_new_def)
  have old: "\<forall>x \<in> set (bc_cache c). bf_id x < bc_next c" "distinct (map bf_id (bc_cache c))" using assms(1) by (simp_all add: bc_inv_def)
  have "map bf_id (bc_cache c') = map bf_id (bc_cache c) @ [bc_next c..<Suc (bc_next c + k)]"
    by (simp add: c'(2) new) (simp add: bf_setUsed_def bf_new_def)
  moreover from this have "distinct (map bf_id (bc_cache c'))" using old by (auto simp del: upt_Suc)
  moreover have "{x \<in> set (bc_cache c'). \<not> bf_free x} = insert (bf_setUsed (bf_new b)) {x \<in> set (bc_cache c). \<not> bf_free x}"
    by (auto simp: c' bf_setUsed_def bf_new_def)
  then have u: "used c' = insert b (used c)" by (simp add: used_def bf_setUsed_def bf_new_def)
  moreover have "b \<notin> used c" using old(1) by (auto simp: used_def c'(1))
  moreover have "nfree (bc_cache c') = nfree (bc_cache c) + k" by (simp add: c'(2) nfree_new bf_setUsed_def)
  moreover have "\<forall>x \<in> set (bc_cache c'). bf_id x < bc_next c'"
    using old(1) by (auto simp: c'(2) bf_setUsed_def bf_new_def)
  ultimately show ?thesis using assms(1) u by (auto simp: bc_inv_def c'(2))
qed

lemma newBuffer_inv:
  assumes "bc_inv m c R" and "bc_newBuffer c = Some (b, c')"
  shows "bc_inv m c' R \<and> b \<notin> used c \<and> used c' = insert b (used c)"
proof (cases "bc_grow c = (b, c')")
  case True
  with grow_inv [OF assms(1)] show ?thesis by blast
next
  case False
  then obtain i where i: "bc_search (bc_cache c) (bc_position c) (Suc (bc_position c)) = Some (Some i)"
    and b: "b = bf_id (bc_cache c ! i)"
    and c': "c' = c\<lparr>bc_position := i, bc_free := bc_free c - 1, bc_cache := (bc_cache c)[i := bf_setUsed (bc_cache c ! i)]\<rparr>"
    using assms(2) by (auto simp: bc_newBuffer_def split: if_splits option.splits)
  have "i < length (bc_cache c) \<and> bf_free (bc_cache c ! i)"
    using search_result [OF i] assms(1) by (simp add: bc_inv_def)
  with take_buffer_inv [OF assms(1) _ _ c', of ] b show ?thesis by blast
qed


text \<open>Compaction deletes free buffers only.\<close>

lemma compactLoop_facts:
  assumes "bc_compactLoop t n kept bs = (kept', rest, n')"
  shows "\<exists>del. n' = n - int del \<and> nfree (kept' @ rest) + del = nfree (kept @ bs)"
    "set (kept @ bs) - {b. bf_free b} \<subseteq> set (kept' @ rest)" "set (kept' @ rest) \<subseteq> set (kept @ bs)"
    "distinct (map bf_id (kept @ bs)) \<Longrightarrow> distinct (map bf_id (kept' @ rest))"
    "t < n \<Longrightarrow> t \<le> n'" "(\<forall>b \<in> set kept. \<not> bf_free b) \<longrightarrow> n' \<le> t \<or> nfree (kept' @ rest) = 0"
proof -
  have all: "(\<exists>del. n' = n - int del \<and> nfree (kept' @ rest) + del = nfree (kept @ bs)) \<and>
    set (kept @ bs) - {b. bf_free b} \<subseteq> set (kept' @ rest) \<and> set (kept' @ rest) \<subseteq> set (kept @ bs) \<and>
    (distinct (map bf_id (kept @ bs)) \<longrightarrow> distinct (map bf_id (kept' @ rest))) \<and> (t < n \<longrightarrow> t \<le> n') \<and>
    ((\<forall>b \<in> set kept. \<not> bf_free b) \<longrightarrow> n' \<le> t \<or> nfree (kept' @ rest) = 0)"
    using assms
  proof (induction t n kept bs rule: bc_compactLoop.induct)
    case (1 t n kept)
    then show ?case by (auto simp: nfree_def intro: exI [of _ 0])
  next
    case (2 t n kept b bs)
    show ?case
    proof (cases "bf_free b")
      case False
      with 2(2) [OF False] 2(3) show ?thesis by auto
    next
      case free: True
      show ?thesis
      proof (cases "n - 1 \<le> t")
        case True
        with free 2(3) show ?thesis by (auto intro: exI [of _ 1])
      next
        case False
        with free 2(3) have "bc_compactLoop t (n - 1) kept bs = (kept', rest, n')" by simp
        from 2(1) [OF free False this] obtain del where del: "n' = n - 1 - int del" "nfree (kept' @ rest) + del = nfree (kept @ bs)"
          and rest: "set (kept @ bs) - {b. bf_free b} \<subseteq> set (kept' @ rest)" "set (kept' @ rest) \<subseteq> set (kept @ bs)"
          "distinct (map bf_id (kept @ bs)) \<longrightarrow> distinct (map bf_id (kept' @ rest))" "t < n - 1 \<longrightarrow> t \<le> n'"
          "(\<forall>b \<in> set kept. \<not> bf_free b) \<longrightarrow> n' \<le> t \<or> nfree (kept' @ rest) = 0" by blast
        have "\<exists>del. n' = n - int del \<and> nfree (kept' @ rest) + del = nfree (kept @ b # bs)"
          using del free by (intro exI [of _ "Suc del"]) simp
        with rest free False show ?thesis by auto
      qed
    qed
  qed
  note rest = all [THEN conjunct2]
  note rest2 = rest [THEN conjunct2, THEN conjunct2]
  show "\<exists>del. n' = n - int del \<and> nfree (kept' @ rest) + del = nfree (kept @ bs)" by (rule all [THEN conjunct1])
  show "set (kept @ bs) - {b. bf_free b} \<subseteq> set (kept' @ rest)" by (rule rest [THEN conjunct1])
  show "set (kept' @ rest) \<subseteq> set (kept @ bs)" by (rule rest [THEN conjunct2, THEN conjunct1])
  show "distinct (map bf_id (kept @ bs)) \<Longrightarrow> distinct (map bf_id (kept' @ rest))" by (rule rest2 [THEN conjunct1, rule_format])
  show "t < n \<Longrightarrow> t \<le> n'" by (rule rest2 [THEN conjunct2, THEN conjunct1, rule_format])
  show "(\<forall>b \<in> set kept. \<not> bf_free b) \<longrightarrow> n' \<le> t \<or> nfree (kept' @ rest) = 0" by (rule rest2 [THEN conjunct2, THEN conjunct2])
qed

lemma compact_facts:
  assumes "bc_inv m c R" and "1 \<le> m" and "bc_maxFree c < bc_free c" and "c' = bc_compact c"
  shows "set (bc_cache c') \<subseteq> set (bc_cache c)" "used c' = used c" "m \<le> bc_free c'"
    "bc_free c' \<le> max (bc_maxFree c div 2) m + int (card R)" "bc_inv m c' R"
proof -
  define t where "t = max (bc_maxFree c div 2 ^ targetShift) (bc_minFree c)"
  obtain kept rest n where loop: "bc_compactLoop t (bc_free c) [] (bc_cache c) = (kept, rest, n)" by (metis prod_cases3)
  have c': "c' = c\<lparr>bc_cache := kept @ rest, bc_free := n, bc_maxFree := max (bc_minFree c) (int (length (kept @ rest)) div 2 ^ maxFreeShift),
      bc_position := (if rest = [] then 0 else length kept)\<rparr>"
    using assms(3,4) loop by (simp add: bc_compact_def t_def Let_def)
  have inv: "distinct (map bf_id (bc_cache c))" "\<forall>b \<in> set (bc_cache c). bf_id b < bc_next c" "finite R" "R \<subseteq> used c"
    "bc_free c = int (nfree (bc_cache c) + card R)" "bc_minFree c = m" "m \<le> bc_maxFree c"
    using assms(1) by (simp_all add: bc_inv_def)
  note facts = compactLoop_facts [OF loop, unfolded append_Nil]
  have t: "t < bc_free c" "m \<le> t" using inv(6,7) assms(2,3) by (auto simp: t_def targetShift_def)
  show sub: "set (bc_cache c') \<subseteq> set (bc_cache c)" using facts(3) by (simp add: c')
  show used: "used c' = used c" using facts(2,3) by (auto simp: used_def c')
  show n: "m \<le> bc_free c'" using facts(5) [OF t(1)] t(2) by (simp add: c')
  have free: "n = int (nfree (kept @ rest) + card R)" using facts(1) inv(5) by auto
  have "n \<le> t \<or> nfree (kept @ rest) = 0" using facts(6) by simp
  then show "bc_free c' \<le> max (bc_maxFree c div 2) m + int (card R)"
    using free assms(2) inv(6) by (auto simp: c' t_def targetShift_def)
  have "kept @ rest \<noteq> []"
  proof
    assume "kept @ rest = []"
    then have "used c = {}" using used by (simp add: used_def c')
    then have "R = {}" using inv(4) by simp
    with free n \<open>kept @ rest = []\<close> assms(2) show False by (simp add: c')
  qed
  then show "bc_inv m c' R"
    using facts(3,4) inv used free by (auto simp: bc_inv_def c')
qed


text \<open>Release of a buffer.\<close>

lemma counted_inv:
  assumes "bc_inv m c R" and "b \<in> used c - R"
  shows "bc_inv m (bc_notifyFree c) (insert b R)"
proof -
  have "used (bc_notifyFree c) = used c" by (simp add: used_def bc_notifyFree_def)
  with assms show ?thesis by (auto simp: bc_inv_def bc_notifyFree_def)
qed

lemma used_filter: "used c = bf_id ` set (filter (\<lambda>b. \<not> bf_free b) (bc_cache c))"
  by (simp add: used_def)

lemma nfree_flag:
  "distinct (map bf_id bs) \<Longrightarrow> i \<in> bf_id ` {b \<in> set bs. \<not> bf_free b} \<Longrightarrow>
   nfree (map (\<lambda>b. if bf_id b = i then b\<lparr>bf_free := True\<rparr> else b) bs) = Suc (nfree bs)"
proof (induction bs)
  case (Cons b bs)
  show ?case
  proof (cases "bf_id b = i")
    case True
    have "map (\<lambda>b. if bf_id b = i then b\<lparr>bf_free := True\<rparr> else b) bs = bs"
      using Cons.prems(1) True by (intro map_idI) (auto simp: rev_image_eqI)
    moreover have "\<not> bf_free b" using Cons.prems True by (auto simp: rev_image_eqI)
    ultimately show ?thesis using True by simp
  next
    case False
    with Cons show ?thesis by (auto split: if_splits)
  qed
qed simp

lemma used_flag: "used (bf_notifyFree i c) = used c - {i}"
proof -
  have "{b \<in> set (bc_cache (bf_notifyFree i c)). \<not> bf_free b} = {b \<in> set (bc_cache c). \<not> bf_free b \<and> bf_id b \<noteq> i}"
    by (auto simp: bf_notifyFree_def split: if_splits)
  then show ?thesis by (auto simp: used_def)
qed

lemma flagged_inv:
  assumes "bc_inv m c R" and "b \<in> R"
  shows "bc_inv m (bf_notifyFree b c) (R - {b})"
proof -
  have inv: "distinct (map bf_id (bc_cache c))" "b \<in> used c" "finite R" using assms by (auto simp: bc_inv_def)
  have "map bf_id (bc_cache (bf_notifyFree b c)) = map bf_id (bc_cache c)" by (simp add: bf_notifyFree_def)
  moreover have "nfree (bc_cache (bf_notifyFree b c)) = Suc (nfree (bc_cache c))"
    using nfree_flag [OF inv(1)] inv(2) by (simp add: bf_notifyFree_def used_def)
  moreover have "card R = Suc (card (R - {b}))" using card_Suc_Diff1 [OF inv(3) assms(2)] by simp
  moreover have "\<forall>x \<in> set (bc_cache (bf_notifyFree b c)). bf_id x < bc_next c"
    using assms(1) by (auto simp: bf_notifyFree_def bc_inv_def)
  moreover have "bc_cache (bf_notifyFree b c) \<noteq> []" "bc_position (bf_notifyFree b c) < length (bc_cache (bf_notifyFree b c))"
    "bc_free (bf_notifyFree b c) = bc_free c" "bc_next (bf_notifyFree b c) = bc_next c"
    "bc_minFree (bf_notifyFree b c) = bc_minFree c" "bc_maxFree (bf_notifyFree b c) = bc_maxFree c"
    using assms(1) by (simp_all add: bf_notifyFree_def bc_inv_def)
  moreover have "R - {b} \<subseteq> used (bf_notifyFree b c)" using assms(1) by (auto simp: used_flag bc_inv_def)
  ultimately show ?thesis
    using assms(1) unfolding bc_inv_def by simp
qed

lemma bc_inv_reachable:
  assumes "bc_reachable m c R" and "1 \<le> m"
  shows "bc_inv m c R"
  using assms(1)
proof induction
  case start
  then show ?case by (simp add: bc_inv_def bc_new_def bc_flush_def bf_new_def)
next
  case (alloc c R b c')
  with newBuffer_inv show ?case by blast
next
  case (compacted c R)
  show ?case
  proof (cases "bc_maxFree c < bc_free c")
    case True
    from compact_facts(5) [OF compacted(2) assms(2) True refl] show ?thesis .
  next
    case False
    with compacted(2) show ?thesis by (simp add: bc_compact_def)
  qed
next
  case (counted c R b)
  with counted_inv show ?case by blast
next
  case (flagged c R b)
  with flagged_inv show ?case by blast
qed

section \<open>Properties\<close>

text \<open>C39 (buffer_cache_alloc): in every reachable state, with other threads releasing buffers at any time, an allocation
  returns a buffer that is not in use and marks exactly it as used. It only fails to return while a buffer is being
  released and the counter is already incremented but no buffer is flagged as free, that is, it spins until the
  other thread has set the flag.\<close>

theorem buffer_cache_alloc:
  assumes "bc_reachable minFree c R" and "1 \<le> minFree"
  shows "case bc_newBuffer c of
      Some (b, c') \<Rightarrow> b \<notin> used c \<and> used c' = insert b (used c)
    | None \<Rightarrow> R \<noteq> {} \<and> (\<forall>b \<in> set (bc_cache c). \<not> bf_free b)"
proof -
  note inv = bc_inv_reachable [OF assms]
  show ?thesis
  proof (cases "bc_newBuffer c")
    case None
    then have free: "bc_free c > 0" "bc_search (bc_cache c) (bc_position c) (Suc (bc_position c)) = None"
      by (auto simp: bc_newBuffer_def split: if_splits option.splits)
    have pos: "bc_position c < length (bc_cache c)" using inv by (simp add: bc_inv_def)
    have none: "\<forall>b \<in> set (bc_cache c). \<not> bf_free b" using search_terminates [OF pos] free(2) by blast
    then have "nfree (bc_cache c) = 0" by (simp add: nfree_def)
    with inv free(1) have "R \<noteq> {}" by (auto simp: bc_inv_def)
    with none None show ?thesis by simp
  next
    case (Some r)
    with newBuffer_inv [OF inv] show ?thesis by (cases r) simp
  qed
qed

text \<open>Compaction deletes no buffer that is in use, keeps at least the minimum number of free
  buffers, and when it runs with no release in progress it leaves at most half the limit free.\<close>

theorem buffer_cache_compact:
  assumes "bc_reachable minFree c R" and "1 \<le> minFree" and "bc_maxFree c < bc_free c"
  shows "used (bc_compact c) = used c \<and> set (bc_cache (bc_compact c)) \<subseteq> set (bc_cache c) \<and>
    minFree \<le> bc_free (bc_compact c) \<and> bc_free (bc_compact c) \<le> max (bc_maxFree c div 2) minFree + int (card R)"
  using compact_facts [OF bc_inv_reachable [OF assms(1,2)] assms(2,3) refl] by simp

theorem buffer_cache_alloc_witness:
  "case bc_newBuffer (bc_new 2) of
     Some (b, c') \<Rightarrow> b \<notin> used (bc_new 2) \<and> used c' = insert b (used (bc_new 2))
   | None \<Rightarrow> ({} :: nat set) \<noteq> {} \<and> (\<forall>b \<in> set (bc_cache (bc_new 2)). \<not> bf_free b)"
  by (rule buffer_cache_alloc [OF bc_reachable.start]) simp


text \<open>Two buffers, both allocated and released again.\<close>

definition sample_cache :: buffer_cache where
  "sample_cache =
     \<lparr>bc_cache = [\<lparr>bf_id = 0, bf_free = True\<rparr>, \<lparr>bf_id = 1, bf_free = True\<rparr>], bc_position = 0, bc_free = 2, bc_minFree = 1,
      bc_maxFree = 1, bc_next = 2\<rparr>"

lemma sample_cache_reachable: "bc_reachable 1 sample_cache {}"
proof -
  let ?c = "\<lambda>f0 n. \<lparr>bc_cache = [\<lparr>bf_id = 0, bf_free = f0\<rparr>, \<lparr>bf_id = 1, bf_free = False\<rparr>], bc_position = 0, bc_free = n,
    bc_minFree = 1, bc_maxFree = 1, bc_next = 2\<rparr>"
  let ?c1 = "\<lparr>bc_cache = [\<lparr>bf_id = 0, bf_free = False\<rparr>], bc_position = 0, bc_free = 0, bc_minFree = 1, bc_maxFree = 1,
    bc_next = Suc 0\<rparr>"
  have "bc_newBuffer (bc_new 1) = Some (0, ?c1)"
    by (simp add: bc_newBuffer_def bc_new_def bc_flush_def bf_new_def bf_setUsed_def bc_search.simps [of _ 0 "Suc 0"])
  from bc_reachable.alloc [OF bc_reachable.start this] have "bc_reachable 1 ?c1 {}" .
  moreover have "bc_newBuffer ?c1 = Some (1, ?c False 0)"
    by (simp add: bc_newBuffer_def bc_grow_def Let_def bf_new_def bf_setUsed_def maxFreeShift_def)
  ultimately have "bc_reachable 1 (?c False 0) {}" using bc_reachable.alloc by blast
  from bc_reachable.counted [OF this, of 0] have "bc_reachable 1 (?c False 1) {0}"
    by (simp add: used_filter bc_notifyFree_def)
  from bc_reachable.flagged [OF this, of 0] have "bc_reachable 1 (?c True 1) {}" by (simp add: bf_notifyFree_def)
  from bc_reachable.counted [OF this, of 1] have "bc_reachable 1 (?c True 2) {1}"
    by (simp add: used_filter bc_notifyFree_def)
  from bc_reachable.flagged [OF this, of 1] show ?thesis by (simp add: bf_notifyFree_def sample_cache_def)
qed

theorem buffer_cache_compact_witness:
  "used (bc_compact sample_cache) = used sample_cache \<and> set (bc_cache (bc_compact sample_cache)) \<subseteq> set (bc_cache sample_cache) \<and>
   1 \<le> bc_free (bc_compact sample_cache) \<and> bc_free (bc_compact sample_cache) \<le> max (bc_maxFree sample_cache div 2) 1 + int (card ({} :: nat set))"
  by (rule buffer_cache_compact [OF sample_cache_reachable]) (simp_all add: sample_cache_def)

end
