(* ===== verification/Object_Store.thy ===== *)
theory Object_Store
  imports Master_CM Slave_CM Instance_Cache
begin

text \<open>
  Distributed objects of a node, \<^verbatim>\<open>src/co/object.cpp\<close> and \<^verbatim>\<open>src/co/objectStore.cpp\<close>: registration and
  mapping of objects, their table, and the handlers of the object commands a node receives. Objects
  are kept in a heap indexed by their address. The change managers are those of \<open>Master_CM\<close> and
  \<open>Slave_CM\<close>. A call that sends a command to its own node and waits for it runs the handler in place. Fields of
  node commands are arguments. Requests are those of lunchbox: an identifier given by it, with the data
  and, when served, the result. Application call-backs are left out.
\<close>

section \<open>Change managers\<close>

datatype change_manager =
    NullCM
  | StaticMasterCM
  | UnbufferedMasterCM versioned_master
  | FullMasterCM full_master
  | DeltaMasterCM delta_master
  | StaticSlaveCM static_slave
  | VersionedSlaveCM versioned_slave

text \<open>\<^verbatim>\<open>Object::ChangeType\<close>\<close>

definition CHANGE_NONE :: uint32 where "CHANGE_NONE = 0"
definition CHANGE_STATIC :: uint32 where "CHANGE_STATIC = 1"
definition CHANGE_INSTANCE :: uint32 where "CHANGE_INSTANCE = 2"
definition CHANGE_DELTA :: uint32 where "CHANGE_DELTA = 3"
definition CHANGE_UNBUFFERED :: uint32 where "CHANGE_UNBUFFERED = 4"

fun cg_isMaster :: "change_manager \<Rightarrow> bool" where
  "cg_isMaster StaticMasterCM \<longleftrightarrow> True"
| "cg_isMaster (UnbufferedMasterCM m) \<longleftrightarrow> True"
| "cg_isMaster (FullMasterCM m) \<longleftrightarrow> True"
| "cg_isMaster (DeltaMasterCM m) \<longleftrightarrow> True"
| "cg_isMaster _ \<longleftrightarrow> False"

fun cg_getMasterInstanceID :: "change_manager \<Rightarrow> uint32" where
  "cg_getMasterInstanceID (VersionedSlaveCM s) = sv_masterInstanceID s"
| "cg_getMasterInstanceID _ = CO_INSTANCE_INVALID"

fun cg_getMasterNode :: "change_manager \<Rightarrow> node option" where
  "cg_getMasterNode (VersionedSlaveCM s) = sv_master s"
| "cg_getMasterNode _ = None"

fun cg_setMasterNode :: "node \<Rightarrow> change_manager \<Rightarrow> change_manager" where
  "cg_setMasterNode n (VersionedSlaveCM s) = VersionedSlaveCM (s\<lparr>sv_master := Some n\<rparr>)"
| "cg_setMasterNode n cm = cm"

fun cg_getSlaveNodes :: "change_manager \<Rightarrow> node list" where
  "cg_getSlaveNodes (UnbufferedMasterCM m) = vm_slaves m"
| "cg_getSlaveNodes (FullMasterCM m) = vm_slaves m"
| "cg_getSlaveNodes (DeltaMasterCM m) = vm_slaves m"
| "cg_getSlaveNodes _ = []"

fun cg_getVersion :: "change_manager \<Rightarrow> uint128" where
  "cg_getVersion NullCM = VERSION_NONE"
| "cg_getVersion StaticMasterCM = VERSION_FIRST"
| "cg_getVersion (UnbufferedMasterCM m) = vm_version m"
| "cg_getVersion (FullMasterCM m) = vm_version m"
| "cg_getVersion (DeltaMasterCM m) = vm_version m"
| "cg_getVersion (StaticSlaveCM s) = VERSION_FIRST"
| "cg_getVersion (VersionedSlaveCM s) = sv_version s"

fun cg_removeSlave :: "node \<Rightarrow> uint32 \<Rightarrow> change_manager \<Rightarrow> change_manager" where
  "cg_removeSlave n i (UnbufferedMasterCM m) = UnbufferedMasterCM (vm_removeSlave n i m)"
| "cg_removeSlave n i (FullMasterCM m) = FullMasterCM (vm_removeSlave n i m)"
| "cg_removeSlave n i (DeltaMasterCM m) = DeltaMasterCM (vm_removeSlave n i m)"
| "cg_removeSlave n i cm = cm"

fun cg_removeSlaves :: "node \<Rightarrow> change_manager \<Rightarrow> change_manager" where
  "cg_removeSlaves n (UnbufferedMasterCM m) = UnbufferedMasterCM (vm_removeSlaves n m)"
| "cg_removeSlaves n (FullMasterCM m) = FullMasterCM (vm_removeSlaves n m)"
| "cg_removeSlaves n (DeltaMasterCM m) = DeltaMasterCM (vm_removeSlaves n m)"
| "cg_removeSlaves n cm = cm"

text \<open>
  \<open>attached\<close> is whether the manager still has its object when the lock is taken, \<open>data\<close> what the object's
  \<open>getInstanceData\<close> writes.
\<close>

fun cg_addSlave ::
  "global_config \<Rightarrow> pression \<Rightarrow> object_info \<Rightarrow> bool \<Rightarrow> bytes list \<Rightarrow> master_cm_command \<Rightarrow> change_manager \<Rightarrow>
   bool \<times> change_manager \<times> cm_event list" where
  "cg_addSlave G P info attached data command StaticMasterCM =
     (case sm_addSlave G P info attached data command of (ok, es) \<Rightarrow> (ok, StaticMasterCM, es))"
| "cg_addSlave G P info attached data command (UnbufferedMasterCM m) =
     (case um_addSlave G P attached data command m of (ok, m, es) \<Rightarrow> (ok, UnbufferedMasterCM m, es))"
| "cg_addSlave G P info attached data command (FullMasterCM m) =
     (case fm_addSlave G P command m of (ok, m, es) \<Rightarrow> (ok, FullMasterCM m, es))"
| "cg_addSlave G P info attached data command (DeltaMasterCM m) =
     (case fm_addSlave G P command m of (ok, m, es) \<Rightarrow> (ok, DeltaMasterCM m, es))"
| "cg_addSlave G P info attached data command cm = (False, cm, [])"

fun cg_sendSync ::
  "global_config \<Rightarrow> pression \<Rightarrow> object_info \<Rightarrow> bool \<Rightarrow> bytes list \<Rightarrow> master_cm_command \<Rightarrow> change_manager \<Rightarrow>
   bool \<times> change_manager \<times> cm_event list" where
  "cg_sendSync G P info attached data command (FullMasterCM m) =
     (case fm_sendSync G P command m of (ok, m, e) \<Rightarrow> (ok, FullMasterCM m, [e]))"
| "cg_sendSync G P info attached data command (DeltaMasterCM m) =
     (case fm_sendSync G P command m of (ok, m, e) \<Rightarrow> (ok, DeltaMasterCM m, [e]))"
| "cg_sendSync G P info attached data command NullCM = (False, NullCM, [])"
| "cg_sendSync G P info attached data command cm =
     (case cm_sendSync G P info attached data (cg_getVersion cm) command of (ok, es) \<Rightarrow> (ok, cm, es))"

fun cg_addInstanceDatas :: "odistream list \<Rightarrow> uint128 \<Rightarrow> change_manager \<Rightarrow> change_manager" where
  "cg_addInstanceDatas cache version (StaticSlaveCM s) = StaticSlaveCM (ss_addInstanceDatas cache s)"
| "cg_addInstanceDatas cache version (VersionedSlaveCM s) = VersionedSlaveCM (sv_addInstanceDatas cache version s)"
| "cg_addInstanceDatas cache version cm = cm"

fun cg_applyMapData :: "pression \<Rightarrow> uint128 \<Rightarrow> change_manager \<Rightarrow> change_manager option" where
  "cg_applyMapData P version (StaticSlaveCM s) = map_option StaticSlaveCM (ss_applyMapData P s)"
| "cg_applyMapData P version (VersionedSlaveCM s) = map_option VersionedSlaveCM (sv_applyMapData P version s)"
| "cg_applyMapData P version cm = Some cm"

fun cg_sendInstanceData :: "global_config \<Rightarrow> pression \<Rightarrow> node list \<Rightarrow> change_manager \<Rightarrow> change_manager" where
  "cg_sendInstanceData G P nodes (FullMasterCM m) = FullMasterCM (fm_sendInstanceData G P nodes m)"
| "cg_sendInstanceData G P nodes (DeltaMasterCM m) = DeltaMasterCM (fm_sendInstanceData G P nodes m)"
| "cg_sendInstanceData G P nodes cm = cm"

text \<open>
  A change manager and its streams read the identifiers through a pointer to the object; here they hold
  a copy, which follows the object.
\<close>

definition ot_setObject :: "object_info \<Rightarrow> ('a odostream_scheme) ostream \<Rightarrow> ('a odostream_scheme) ostream" where
  "ot_setObject info s = s\<lparr>os_sub := (os_sub s)\<lparr>oo_object := info\<rparr>\<rparr>"

definition fm_setObject :: "object_info \<Rightarrow> 'a full_master_scheme \<Rightarrow> 'a full_master_scheme" where
  "fm_setObject info m =
     m\<lparr>vm_object := info,
       fm_instanceDatas := map (\<lambda>d. d\<lparr>id_os := ot_setObject info (id_os d)\<rparr>) (fm_instanceDatas m),
       fm_instanceDataCache := map (\<lambda>d. d\<lparr>id_os := ot_setObject info (id_os d)\<rparr>) (fm_instanceDataCache m)\<rparr>"

fun cg_setObject :: "object_info \<Rightarrow> change_manager \<Rightarrow> change_manager" where
  "cg_setObject info (UnbufferedMasterCM m) = UnbufferedMasterCM (m\<lparr>vm_object := info\<rparr>)"
| "cg_setObject info (FullMasterCM m) = FullMasterCM (fm_setObject info m)"
| "cg_setObject info (DeltaMasterCM m) =
     DeltaMasterCM ((fm_setObject info m)\<lparr>dm_deltaData := ot_setObject info (dm_deltaData m)\<rparr>)"
| "cg_setObject info (VersionedSlaveCM s) =
     VersionedSlaveCM (s\<lparr>sv_object := info, sv_ostream := ot_setObject info (sv_ostream s)\<rparr>)"
| "cg_setObject info cm = cm"

definition dm_new :: "object_info \<Rightarrow> delta_master" where
  "dm_new info = full_master.extend (fm_new info) (delta_master.fields (os_new (oo_new info)))"

section \<open>Object\<close>

text \<open>
  The members of an object, what its virtual functions return (change type, maximum number of queued
  versions, the instance data it writes), the commands given to handlers of the application and the streams
  it has applied.
\<close>

record store_object =
  ob_id :: uint128
  ob_instanceID :: uint32
  ob_localNode :: bool
  ob_cm :: change_manager
  ob_changeType :: uint32
  ob_maxVersions :: uint64
  ob_instanceData :: "bytes list"
  ob_uuids :: "nat \<Rightarrow> uint128"
  ob_commands :: "odcommand list"
  ob_applied :: "odistream list"

definition ob_isAttached :: "store_object \<Rightarrow> bool" where
  "ob_isAttached o' \<longleftrightarrow> ob_instanceID o' \<noteq> CO_INSTANCE_INVALID"

definition ob_isMaster :: "store_object \<Rightarrow> bool" where
  "ob_isMaster o' \<longleftrightarrow> cg_isMaster (ob_cm o')"

definition ob_info :: "store_object \<Rightarrow> object_info" where
  "ob_info o' =
     \<lparr>oi_id = ob_id o', oi_instanceID = ob_instanceID o', oi_masterInstanceID = cg_getMasterInstanceID (ob_cm o'),
      oi_changeType = ob_changeType o'\<rparr>"

definition ob_attach :: "uint128 \<Rightarrow> uint32 \<Rightarrow> store_object \<Rightarrow> store_object" where
  "ob_attach i instanceID o' =
     (let o' = o'\<lparr>ob_id := i, ob_instanceID := instanceID\<rparr>
      in o'\<lparr>ob_cm := cg_setObject (ob_info o') (ob_cm o')\<rparr>)"

definition ob_detach :: "store_object \<Rightarrow> store_object" where
  "ob_detach o' = o'\<lparr>ob_instanceID := CO_INSTANCE_INVALID, ob_localNode := False\<rparr>"

text \<open>\<^verbatim>\<open>notifyDetach\<close>: the slave nodes told to unmap.\<close>

definition ob_notifyDetach :: "store_object \<Rightarrow> (NodeID \<times> uint128) list" where
  "ob_notifyDetach o' = (if \<not> ob_isMaster o' then [] else map (\<lambda>n. (nd_id n, ob_id o')) (cg_getSlaveNodes (ob_cm o')))"

text \<open>\<^verbatim>\<open>transfer\<close>: the new object takes over, the old one is left detached.\<close>

definition ob_transfer :: "store_object \<Rightarrow> store_object \<Rightarrow> store_object \<times> store_object" where
  "ob_transfer this from =
     (this\<lparr>ob_id := ob_id from, ob_instanceID := ob_instanceID from, ob_cm := ob_cm from,
           ob_localNode := ob_localNode from\<rparr>,
      from\<lparr>ob_cm := NullCM, ob_localNode := False, ob_instanceID := CO_INSTANCE_INVALID\<rparr>)"

definition ob_setupChangeManager ::
  "global_config \<Rightarrow> pression \<Rightarrow> uint32 \<Rightarrow> bool \<Rightarrow> bool \<Rightarrow> uint32 \<Rightarrow> store_object \<Rightarrow> store_object" where
  "ob_setupChangeManager G P type master localNode masterInstanceID o' =
     (let o' = o'\<lparr>ob_localNode := localNode\<rparr>;
          info = ob_info o';
          slave = VersionedSlaveCM
                    (sv_new (ob_uuids o') (ob_maxVersions o') (info\<lparr>oi_masterInstanceID := masterInstanceID\<rparr>) masterInstanceID)
      in if type = CHANGE_NONE then o'\<lparr>ob_cm := NullCM\<rparr>
         else if type = CHANGE_STATIC then o'\<lparr>ob_cm := if master then StaticMasterCM else StaticSlaveCM ss_new\<rparr>
         else if type = CHANGE_INSTANCE then
           o'\<lparr>ob_cm := if master then FullMasterCM (fm_init G P (ob_instanceData o') (fm_new info)) else slave\<rparr>
         else if type = CHANGE_DELTA then
           o'\<lparr>ob_cm := if master then DeltaMasterCM (fm_init G P (ob_instanceData o') (dm_new info)) else slave\<rparr>
         else if type = CHANGE_UNBUFFERED then
           o'\<lparr>ob_cm := if master then UnbufferedMasterCM (um_new info) else slave\<rparr>
         else o')"

text \<open>
  \<^verbatim>\<open>dispatchCommand\<close> of an object: data commands go to the slave change managers, versioned masters
  discard them, every other command goes to the handler registered for it.
\<close>

definition ob_dispatchCommand :: "odcommand \<Rightarrow> store_object \<Rightarrow> store_object" where
  "ob_dispatchCommand command o' =
     (let isInstance = (oc_cmd command = CMD_OBJECT_INSTANCE);
          isData = (isInstance \<or> oc_cmd command = CMD_OBJECT_DELTA);
          other = o'\<lparr>ob_commands := ob_commands o' @ [command]\<rparr>
      in case ob_cm o' of
           VersionedSlaveCM s \<Rightarrow> if isData then o'\<lparr>ob_cm := VersionedSlaveCM (sv_cmdData command s)\<rparr> else other
         | StaticSlaveCM s \<Rightarrow> if isInstance then o'\<lparr>ob_cm := StaticSlaveCM (ss_cmdInstance command s)\<rparr> else other
         | UnbufferedMasterCM m \<Rightarrow> if isData then o' else other
         | FullMasterCM m \<Rightarrow> if isData then o' else other
         | DeltaMasterCM m \<Rightarrow> if isData then o' else other
         | _ \<Rightarrow> other)"

section \<open>ObjectStore\<close>

text \<open>
  Constants and functions from outside the sources: the largest instance identifier, the test for a UUID, the
  global attributes. The environment of the instance cache holds its clock and iteration orders.
\<close>

record store_config =
  sc_instanceMax :: uint32
  sc_isUUID :: "uint128 \<Rightarrow> bool"
  sc_sendQueueSize :: nat
  sc_sendQueueAge :: int

record cache_env =
  ce_target :: uint64
  ce_order1 :: "uint128 list"
  ce_order0 :: "uint128 list"
  ce_now :: int

datatype request_data = RequestNone | RequestObject nat | RequestStream odistream
datatype served = ServedVoid | ServedVersion uint128 | ServedBool bool | ServedNodeID NodeID

record request =
  rq_data :: request_data
  rq_served :: "served option"

record object_store =
  st_node :: node
  st_instanceIDs :: uint32
  st_sendOnRegister :: int
  st_objects :: "(uint128 \<times> nat list) list"
  st_object :: "nat \<Rightarrow> store_object"
  st_sendQueue :: "(int \<times> nat) list"
  st_instanceCache :: "instance_cache option"
  st_pushData :: data_istream_queue
  st_requests :: "(uint32 \<times> request) list"
  st_mapped :: nat

text \<open>Commands a store sends: the receiver and the fields.\<close>

datatype store_command =
    SendMap NodeID master_cm_command
  | SendSync NodeID master_cm_command
  | SendUnsubscribe NodeID uint128 uint32 uint32 uint32
  | SendDetach NodeID uint128 uint32 uint32
  | SendUnmap NodeID uint128
  | SendMasterID NodeID NodeID uint32
  | SendRegister nat
  | SendEvent cm_event

definition st_new :: "node \<Rightarrow> uint64 \<Rightarrow> (nat \<Rightarrow> store_object) \<Rightarrow> object_store" where
  "st_new n cacheSize objects =
     \<lparr>st_node = n, st_instanceIDs = - 0x7FFFFFFF, st_sendOnRegister = 0, st_objects = [], st_object = objects,
      st_sendQueue = [], st_instanceCache = Some (ic_new cacheSize), st_pushData = dq_new, st_requests = [],
      st_mapped = 0\<rparr>"

definition st_update :: "nat \<Rightarrow> (store_object \<Rightarrow> store_object) \<Rightarrow> object_store \<Rightarrow> object_store" where
  "st_update r f st = st\<lparr>st_object := (st_object st)(r := f (st_object st r))\<rparr>"

definition st_registerRequest :: "uint32 \<Rightarrow> request_data \<Rightarrow> object_store \<Rightarrow> object_store" where
  "st_registerRequest rid d st =
     st\<lparr>st_requests := AList.update rid \<lparr>rq_data = d, rq_served = None\<rparr> (st_requests st)\<rparr>"

definition st_getRequest :: "uint32 \<Rightarrow> object_store \<Rightarrow> request_data \<times> served option" where
  "st_getRequest rid st =
     (case map_of (st_requests st) rid of None \<Rightarrow> (RequestNone, None) | Some q \<Rightarrow> (rq_data q, rq_served q))"

definition st_getRequestData :: "uint32 \<Rightarrow> object_store \<Rightarrow> request_data" where
  "st_getRequestData rid st = fst (st_getRequest rid st)"

definition st_serveRequest :: "uint32 \<Rightarrow> served \<Rightarrow> object_store \<Rightarrow> object_store" where
  "st_serveRequest rid v st =
     (case map_of (st_requests st) rid of
        None \<Rightarrow> st
      | Some q \<Rightarrow> st\<lparr>st_requests := AList.update rid (q\<lparr>rq_served := Some v\<rparr>) (st_requests st)\<rparr>)"

text \<open>An operation on the instance cache, when there is one.\<close>

definition st_onCache :: "(instance_cache \<Rightarrow> instance_cache) \<Rightarrow> object_store \<Rightarrow> object_store" where
  "st_onCache f st = st\<lparr>st_instanceCache := map_option f (st_instanceCache st)\<rparr>"

definition st_releaseCache :: "cache_env \<Rightarrow> uint128 \<Rightarrow> uint32 \<Rightarrow> object_store \<Rightarrow> object_store" where
  "st_releaseCache E i count = st_onCache (\<lambda>c. snd (ic_release (ce_target E) (ce_order1 E) i count c))"

definition st_clear :: "cache_env \<Rightarrow> object_store \<Rightarrow> object_store" where
  "st_clear E st =
     (st_onCache (ic_expire (ce_order0 E) (ce_now E) 0) st)\<lparr>st_objects := [], st_sendQueue := []\<rparr>"

definition st_disableInstanceCache :: "object_store \<Rightarrow> object_store" where
  "st_disableInstanceCache st = st\<lparr>st_instanceCache := None\<rparr>"

definition st_expireInstanceData :: "cache_env \<Rightarrow> int \<Rightarrow> object_store \<Rightarrow> object_store" where
  "st_expireInstanceData E age = st_onCache (ic_expire (ce_order0 E) (ce_now E) age)"

definition st_removeInstanceData :: "cache_env \<Rightarrow> NodeID \<Rightarrow> object_store \<Rightarrow> object_store" where
  "st_removeInstanceData E n = st_onCache (ic_remove (ce_order0 E) n)"

definition st_enableSendOnRegister :: "object_store \<Rightarrow> object_store" where
  "st_enableSendOnRegister st = st\<lparr>st_sendOnRegister := st_sendOnRegister st + 1\<rparr>"

text \<open>\<^verbatim>\<open>findMasterNodeID\<close>, from the answers of the nodes asked one after the other.\<close>

definition st_findMasterNodeID :: "NodeID list \<Rightarrow> NodeID" where
  "st_findMasterNodeID answers = (case find (\<lambda>n. n \<noteq> 0) answers of None \<Rightarrow> 0 | Some n \<Rightarrow> n)"

subsection \<open>Attaching and detaching\<close>

text \<open>The counter is a signed number that wraps around; identifiers above the largest one are skipped.\<close>

function genNextID :: "uint32 \<Rightarrow> uint32 \<Rightarrow> uint32 \<times> uint32" where
  "genNextID instanceMax val =
     (let val = val + 1; result = val + 0x7FFFFFFF
      in if result > instanceMax then genNextID instanceMax val else (result, val))"
  by pat_completeness auto
termination
proof (relation "measure (\<lambda>(m, v). unat (- (v + 0x80000000 :: uint32)))", simp)
  fix m val x xa :: uint32
  assume x: "x = val + 1" and y: "xa = x + 0x7FFFFFFF" and gt: "m < xa"
  have r: "- xa = - (val + 0x80000000)" and n: "- xa - 1 = - (x + 0x80000000)" by (simp_all add: x y)
  have nz: "- xa \<noteq> 0" using gt by auto
  have "unat (- xa - 1) < unat (- xa)" using nz by (metis unat_minus_one unat_gt_0 diff_less zero_less_one)
  then show "((m, x), m, val) \<in> measure (\<lambda>(m, v). unat (- (v + 0x80000000 :: uint32)))" 
    unfolding in_measure prod.case n [symmetric] r [symmetric] .
qed

declare genNextID.simps [simp del]

definition st_attach :: "store_config \<Rightarrow> nat \<Rightarrow> uint128 \<Rightarrow> uint32 \<Rightarrow> object_store \<Rightarrow> object_store" where
  "st_attach C r i inInstanceID st =
     (case (if inInstanceID = CO_INSTANCE_INVALID then genNextID (sc_instanceMax C) (st_instanceIDs st)
            else (inInstanceID, st_instanceIDs st)) of
        (instanceID, val) \<Rightarrow>
          (let st = st_update r (ob_attach i instanceID) (st\<lparr>st_instanceIDs := val\<rparr>);
               objects = (case map_of (st_objects st) i of None \<Rightarrow> [] | Some rs \<Rightarrow> rs)
           in st\<lparr>st_objects := AList.update i (objects @ [r]) (st_objects st)\<rparr>))"

definition st_swap :: "nat \<Rightarrow> nat \<Rightarrow> object_store \<Rightarrow> object_store" where
  "st_swap old new st =
     (if \<not> ob_isAttached (st_object st old) then st
      else
        (let i = ob_id (st_object st old)
         in case map_of (st_objects st) i of
              None \<Rightarrow> st
            | Some rs \<Rightarrow>
                if old \<notin> set rs then st
                else
                  (case ob_transfer (st_object st new) (st_object st old) of
                     (n, o') \<Rightarrow>
                       st\<lparr>st_object := (st_object st)(old := o', new := n),
                          st_objects := AList.update i (takeWhile (\<lambda>r. r \<noteq> old) rs @ new # tl (dropWhile (\<lambda>r. r \<noteq> old) rs))
                                          (st_objects st)\<rparr>)))"

definition st_detach :: "nat \<Rightarrow> object_store \<Rightarrow> object_store" where
  "st_detach r st =
     (if \<not> ob_isAttached (st_object st r) then st
      else
        (let i = ob_id (st_object st r);
             objects = remove1 r (case map_of (st_objects st) i of None \<Rightarrow> [] | Some rs \<Rightarrow> rs)
         in st_update r ob_detach
              (st\<lparr>st_objects := if objects = [] then AList.delete i (st_objects st)
                                else AList.update i objects (st_objects st)\<rparr>)))"

subsection \<open>Mapping and synchronizing\<close>

text \<open>
  \<^verbatim>\<open>_checkInstanceCache\<close>: whether the cache holds the object, which is then pinned, the range of versions and
  the instance of the master.
\<close>

definition st_checkInstanceCache ::
  "uint128 \<Rightarrow> object_store \<Rightarrow> (bool \<times> uint128 \<times> uint128 \<times> uint32) \<times> object_store" where
  "st_checkInstanceCache i st =
     (case st_instanceCache st of
        None \<Rightarrow> ((False, VERSION_HEAD, VERSION_NONE, 0), st)
      | Some c \<Rightarrow>
          (case ic_lookup i c of
             (None, c) \<Rightarrow> ((False, VERSION_HEAD, VERSION_NONE, 0), st\<lparr>st_instanceCache := Some c\<rparr>)
           | (Some (instanceID, versions), c) \<Rightarrow>
               ((True, od_version (hd versions), od_version (last versions), instanceID),
                st\<lparr>st_instanceCache := Some c\<rparr>)))"

text \<open>
  \<^verbatim>\<open>mapNB\<close>: \<open>master\<close> is the node given or found, when there is one, and whether it is reachable; \<^term>\<open>None\<close>
  as request stands for the undefined one.
\<close>

definition st_mapNB ::
  "store_config \<Rightarrow> uint32 \<Rightarrow> nat \<Rightarrow> uint128 \<Rightarrow> uint128 \<Rightarrow> (NodeID \<times> bool) option \<Rightarrow> object_store \<Rightarrow>
   uint32 option \<times> object_store \<times> store_command list" where
  "st_mapNB C rid r i version master st =
     (case master of
        None \<Rightarrow> (None, st, [])
      | Some (m, reachable) \<Rightarrow>
          if \<not> reachable \<or> \<not> sc_isUUID C i \<or> ob_isAttached (st_object st r) \<or> ob_isMaster (st_object st r)
          then (None, st, [])
          else
            (case st_checkInstanceCache i (st_registerRequest rid (RequestObject r) st) of
               ((useCache, minCached, maxCached, masterInstanceID), st) \<Rightarrow>
                 (case genNextID (sc_instanceMax C) (st_instanceIDs st) of
                    (instanceID, val) \<Rightarrow>
                      (Some rid, st\<lparr>st_instanceIDs := val\<rparr>,
                       [SendMap m
                          \<lparr>mc_requestedVersion = version, mc_minCachedVersion = minCached, mc_maxCachedVersion = maxCached,
                           mc_objectID = i, mc_maxVersion = ob_maxVersions (st_object st r), mc_requestID = rid,
                           mc_instanceID = instanceID, mc_masterInstanceID = masterInstanceID, mc_useCache = useCache,
                           mc_node = st_node st\<rparr>]))))"

text \<open>\<^verbatim>\<open>mapSync\<close> waits for the reply; not served yet is \<^term>\<open>None\<close>.\<close>

definition st_mapSync :: "pression \<Rightarrow> uint32 option \<Rightarrow> object_store \<Rightarrow> (bool \<times> object_store) option" where
  "st_mapSync P requestID st =
     (case requestID of
        None \<Rightarrow> Some (False, st)
      | Some rid \<Rightarrow>
          (case st_getRequest rid st of
             (RequestObject r, served) \<Rightarrow>
               (case served of
                  Some (ServedVersion version) \<Rightarrow>
                    (let st = st\<lparr>st_requests := AList.delete rid (st_requests st)\<rparr>
                     in if ob_isAttached (st_object st r) then
                          map_option (\<lambda>cm. (True, st_update r (\<lambda>o'. o'\<lparr>ob_cm := cm\<rparr>) st))
                            (cg_applyMapData P version (ob_cm (st_object st r)))
                        else Some (False, st))
                | _ \<Rightarrow> None)
           | _ \<Rightarrow> Some (False, st)))"

definition st_startSync ::
  "store_config \<Rightarrow> cache_env \<Rightarrow> uint32 \<Rightarrow> (NodeID \<times> bool) option \<Rightarrow> uint128 \<Rightarrow> uint32 \<Rightarrow> object_store \<Rightarrow>
   uint32 option \<times> object_store \<times> store_command list" where
  "st_startSync C E rid master i instanceID st =
     (if \<not> sc_isUUID C i then (None, st, [])
      else
        case master of
          None \<Rightarrow> (None, st, [])
        | Some (m, reachable) \<Rightarrow>
            if \<not> reachable then (None, st, [])
            else
              (case st_checkInstanceCache i (st_registerRequest rid (RequestStream od_new) st) of
                 ((useCache, minCached, maxCached, cacheInstanceID), st) \<Rightarrow>
                   (let mismatch = (useCache \<and> instanceID \<noteq> CO_INSTANCE_ALL \<and> instanceID \<noteq> cacheInstanceID);
                        st = (if mismatch then st_releaseCache E i 1 st else st)
                    in (Some rid, st,
                        [SendSync m
                           \<lparr>mc_requestedVersion = VERSION_NEWEST, mc_minCachedVersion = minCached,
                            mc_maxCachedVersion = maxCached, mc_objectID = i, mc_maxVersion = 0, mc_requestID = rid,
                            mc_instanceID = instanceID, mc_masterInstanceID = cacheInstanceID,
                            mc_useCache = (useCache \<and> \<not> mismatch), mc_node = st_node st\<rparr>]))))"

definition st_finishSync :: "uint32 option \<Rightarrow> nat \<Rightarrow> object_store \<Rightarrow> (bool \<times> object_store) option" where
  "st_finishSync requestID r st =
     (case requestID of
        None \<Rightarrow> Some (False, st)
      | Some rid \<Rightarrow>
          (case st_getRequest rid st of
             (RequestStream is, served) \<Rightarrow>
               (case served of
                  Some (ServedBool ok) \<Rightarrow>
                    (let st = st\<lparr>st_requests := AList.delete rid (st_requests st)\<rparr>
                     in if \<not> ok then Some (False, st)
                        else if \<not> od_isReady is then None
                        else Some (True, st_update r (\<lambda>o'. o'\<lparr>ob_applied := ob_applied o' @ [is]\<rparr>) st))
                | _ \<Rightarrow> None)
           | _ \<Rightarrow> Some (False, st)))"

text \<open>
  \<^verbatim>\<open>unmap\<close>: with a reachable master, unsubscribe and wait for its detach command; else detach directly.
\<close>

definition st_unmap ::
  "global_config \<Rightarrow> pression \<Rightarrow> uint32 \<Rightarrow> (node \<Rightarrow> bool) \<Rightarrow> nat \<Rightarrow> object_store \<Rightarrow> object_store \<times> store_command list" where
  "st_unmap G P rid reachable r st =
     (let o' = st_object st r;
          direct = st_update r (ob_setupChangeManager G P CHANGE_NONE False False CO_INSTANCE_INVALID) (st_detach r st)
      in if \<not> ob_isAttached o' then (st, [])
         else if cg_getMasterInstanceID (ob_cm o') = CO_INSTANCE_INVALID then (direct, [])
         else case cg_getMasterNode (ob_cm o') of
                None \<Rightarrow> (direct, [])
              | Some m \<Rightarrow>
                  if \<not> reachable m then (direct, [])
                  else (st_registerRequest rid RequestNone st,
                        [SendUnsubscribe (nd_id m) (ob_id o') rid (cg_getMasterInstanceID (ob_cm o')) (ob_instanceID o')]))"

definition st_register ::
  "global_config \<Rightarrow> pression \<Rightarrow> store_config \<Rightarrow> nat \<Rightarrow> object_store \<Rightarrow> object_store \<times> store_command list" where
  "st_register G P C r st =
     (let o' = st_object st r;
          st = st_update r (ob_setupChangeManager G P (ob_changeType o') True True CO_INSTANCE_INVALID) st
      in (st_attach C r (ob_id o') CO_INSTANCE_INVALID st, if sc_sendQueueSize C > 0 then [SendRegister r] else []))"

text \<open>\<^verbatim>\<open>_cmdDeregister\<close> takes the first item of the object that is the data of the request.\<close>

fun remove_item :: "nat \<Rightarrow> (int \<times> nat) list \<Rightarrow> (int \<times> nat) list" where
  "remove_item r [] = []"
| "remove_item r ((age, r') # items) = (if r' = r then items else (age, r') # remove_item r items)"

definition st_cmdDeregister :: "uint32 \<Rightarrow> object_store \<Rightarrow> object_store" where
  "st_cmdDeregister rid st =
     st_serveRequest rid ServedVoid
       (case st_getRequestData rid st of
          RequestObject r \<Rightarrow> st\<lparr>st_sendQueue := remove_item r (st_sendQueue st)\<rparr>
        | _ \<Rightarrow> st)"

text \<open>\<^verbatim>\<open>deregister\<close>: its request for the command thread carries no data.\<close>

definition st_deregister ::
  "global_config \<Rightarrow> pression \<Rightarrow> store_config \<Rightarrow> uint32 \<Rightarrow> nat \<Rightarrow> object_store \<Rightarrow> object_store \<times> store_command list" where
  "st_deregister G P C rid r st =
     (let o' = st_object st r
      in if \<not> ob_isAttached o' then (st, [])
         else
           (let st = (if sc_sendQueueSize C > 0 then st_cmdDeregister rid (st_registerRequest rid RequestNone st) else st);
                st = st_update r (ob_setupChangeManager G P CHANGE_NONE True False CO_INSTANCE_INVALID) (st_detach r st)
            in (st_onCache (\<lambda>c. snd (ic_erase (ob_id o') c)) st, map (\<lambda>(n, i). SendUnmap n i) (ob_notifyDetach o'))))"

text \<open>\<^verbatim>\<open>notifyCommandThreadIdle\<close>: \<open>nodes\<close> are the connected nodes without this one.\<close>

definition st_notifyCommandThreadIdle ::
  "global_config \<Rightarrow> pression \<Rightarrow> int \<Rightarrow> node list \<Rightarrow> object_store \<Rightarrow> bool \<times> object_store" where
  "st_notifyCommandThreadIdle G P time nodes st =
     (case st_sendQueue st of
        [] \<Rightarrow> (False, st)
      | (age, r) # items \<Rightarrow>
          if age > time \<and> nodes = [] then (True, st)
          else
            (let st = (if age > time then st_update r (\<lambda>o'. o'\<lparr>ob_cm := cg_sendInstanceData G P nodes (ob_cm o')\<rparr>) st else st)
             in (items \<noteq> [], st\<lparr>st_sendQueue := items\<rparr>)))"

subsection \<open>Command handlers\<close>

text \<open>\<^verbatim>\<open>dispatchObjectCommand\<close>: to the addressed instance, or to all instances of the object.\<close>

definition st_findInstance :: "uint128 \<Rightarrow> uint32 \<Rightarrow> object_store \<Rightarrow> nat option" where
  "st_findInstance i instanceID st =
     (case map_of (st_objects st) i of
        None \<Rightarrow> None
      | Some rs \<Rightarrow> find (\<lambda>r. ob_instanceID (st_object st r) = instanceID) rs)"

definition st_dispatchObjectCommand :: "store_config \<Rightarrow> odcommand \<Rightarrow> object_store \<Rightarrow> bool \<times> object_store" where
  "st_dispatchObjectCommand C command st =
     (let i = oc_objectID command; instanceID = oc_instanceID command
      in case map_of (st_objects st) i of
           None \<Rightarrow> (instanceID = CO_INSTANCE_NONE, st)
         | Some rs \<Rightarrow>
             if instanceID \<le> sc_instanceMax C then
               (case st_findInstance i instanceID st of
                  None \<Rightarrow> (False, st)
                | Some r \<Rightarrow> (True, st_update r (ob_dispatchCommand command) st))
             else (True, fold (\<lambda>r. st_update r (ob_dispatchCommand command)) rs st))"

fun find_master :: "NodeID \<Rightarrow> store_object list \<Rightarrow> NodeID \<Rightarrow> NodeID" where
  "find_master self [] masterNodeID = masterNodeID"
| "find_master self (o' # os) masterNodeID =
     (let masterNodeID =
            (if ob_isMaster o' then self
             else case cg_getMasterNode (ob_cm o') of None \<Rightarrow> masterNodeID | Some m \<Rightarrow> nd_id m)
      in if masterNodeID \<noteq> 0 then masterNodeID else find_master self os masterNodeID)"

definition st_instances :: "uint128 \<Rightarrow> object_store \<Rightarrow> nat list" where
  "st_instances i st = (case map_of (st_objects st) i of None \<Rightarrow> [] | Some rs \<Rightarrow> rs)"

definition st_cmdFindMasterNodeID :: "uint128 \<Rightarrow> uint32 \<Rightarrow> NodeID \<Rightarrow> object_store \<Rightarrow> store_command list" where
  "st_cmdFindMasterNodeID i requestID from st =
     [SendMasterID from (find_master (nd_id (st_node st)) (map (st_object st) (st_instances i st)) 0) requestID]"

definition st_cmdFindMasterNodeIDReply :: "NodeID \<Rightarrow> uint32 \<Rightarrow> object_store \<Rightarrow> object_store" where
  "st_cmdFindMasterNodeIDReply masterNodeID requestID = st_serveRequest requestID (ServedNodeID masterNodeID)"

definition st_cmdAttach :: "store_config \<Rightarrow> uint128 \<Rightarrow> uint32 \<Rightarrow> uint32 \<Rightarrow> object_store \<Rightarrow> object_store" where
  "st_cmdAttach C objectID instanceID requestID st =
     (case st_getRequestData requestID st of
        RequestObject r \<Rightarrow> st_serveRequest requestID ServedVoid (st_attach C r objectID instanceID st)
      | _ \<Rightarrow> st)"

definition st_cmdDetach :: "uint128 \<Rightarrow> uint32 \<Rightarrow> uint32 \<Rightarrow> object_store \<Rightarrow> object_store" where
  "st_cmdDetach objectID instanceID requestID st =
     st_serveRequest requestID ServedVoid
       (case st_findInstance objectID instanceID st of None \<Rightarrow> st | Some r \<Rightarrow> st_detach r st)"

definition st_cmdRegister :: "store_config \<Rightarrow> int \<Rightarrow> nat \<Rightarrow> object_store \<Rightarrow> object_store" where
  "st_cmdRegister C time r st =
     (if st_sendOnRegister st \<le> 0 then st
      else
        (let age = (if sc_sendQueueAge C \<noteq> 0 then sc_sendQueueAge C + time else 2 ^ 63 - 1);
             items = st_sendQueue st @ [(age, r)]
         in st\<lparr>st_sendQueue := drop (length items - sc_sendQueueSize C) items\<rparr>))"

text \<open>\<^verbatim>\<open>_cmdMap\<close> and \<^verbatim>\<open>_cmdSync\<close>; a request that no manager handles is refused.\<close>

definition st_cmdMap ::
  "global_config \<Rightarrow> pression \<Rightarrow> bool \<Rightarrow> master_cm_command \<Rightarrow> object_store \<Rightarrow> object_store \<times> cm_event list" where
  "st_cmdMap G P attached command st =
     (let refuse = MapReply (nd_id (mc_node command)) (mc_objectID command) (mc_requestedVersion command)
                     (mc_requestID command) False (mc_useCache command) False False;
          (st, events) =
            (case find (\<lambda>r. ob_isMaster (st_object st r)) (st_instances (mc_objectID command) st) of
               None \<Rightarrow> (st, [refuse])
             | Some r \<Rightarrow>
                 (let o' = st_object st r
                  in case cg_addSlave G P (ob_info o') attached (ob_instanceData o') command (ob_cm o') of
                       (ok, cm, es) \<Rightarrow> (st_update r (\<lambda>o'. o'\<lparr>ob_cm := cm\<rparr>) st, es @ (if ok then [] else [refuse]))))
      in (st\<lparr>st_mapped := st_mapped st + 1\<rparr>, events))"

fun sync_source :: "uint32 \<Rightarrow> uint32 \<Rightarrow> object_store \<Rightarrow> nat list \<Rightarrow> nat option \<Rightarrow> nat option" where
  "sync_source instanceID cacheInstanceID st [] cm = cm"
| "sync_source instanceID cacheInstanceID st (r # rs) cm =
     (if instanceID = ob_instanceID (st_object st r) then Some r
      else if instanceID \<noteq> CO_INSTANCE_ALL then sync_source instanceID cacheInstanceID st rs cm
      else if cacheInstanceID = ob_instanceID (st_object st r) then Some r
      else sync_source instanceID cacheInstanceID st rs (Some r))"

definition st_cmdSync ::
  "global_config \<Rightarrow> pression \<Rightarrow> bool \<Rightarrow> master_cm_command \<Rightarrow> object_store \<Rightarrow> object_store \<times> cm_event list" where
  "st_cmdSync G P attached command st =
     (let refuse = SyncReply (nd_id (mc_node command)) (mc_objectID command) (mc_requestID command) False
                     (mc_useCache command) False False
      in case sync_source (mc_instanceID command) (mc_masterInstanceID command) st
                (st_instances (mc_objectID command) st) None of
           None \<Rightarrow> (st, [refuse])
         | Some r \<Rightarrow>
             (let o' = st_object st r
              in case cg_sendSync G P (ob_info o') attached (ob_instanceData o') command (ob_cm o') of
                   (ok, cm, es) \<Rightarrow> (st_update r (\<lambda>o'. o'\<lparr>ob_cm := cm\<rparr>) st, es @ (if ok then [] else [refuse]))))"

text \<open>\<^verbatim>\<open>_cmdMapSuccess\<close> and \<^verbatim>\<open>_cmdMapReply\<close>, which may arrive by multicast at other nodes.\<close>

definition st_cmdMapSuccess ::
  "global_config \<Rightarrow> pression \<Rightarrow> store_config \<Rightarrow> NodeID \<Rightarrow> uint128 \<Rightarrow> uint32 \<Rightarrow> uint32 \<Rightarrow> uint32 \<Rightarrow> uint32 \<Rightarrow>
   object_store \<Rightarrow> object_store" where
  "st_cmdMapSuccess G P C nodeID objectID requestID instanceID changeType masterInstanceID st =
     (if nodeID \<noteq> nd_id (st_node st) then st
      else case st_getRequestData requestID st of
             RequestObject r \<Rightarrow>
               st_attach C r objectID instanceID
                 (st_update r (ob_setupChangeManager G P changeType False True masterInstanceID) st)
           | _ \<Rightarrow> st)"

text \<open>The cached streams of an object are merged into it while they are pinned once more.\<close>

definition st_addCached :: "cache_env \<Rightarrow> uint128 \<Rightarrow> uint128 \<Rightarrow> nat \<Rightarrow> object_store \<Rightarrow> object_store" where
  "st_addCached E objectID version r st =
     (case st_instanceCache st of
        None \<Rightarrow> st
      | Some c \<Rightarrow>
          (case ic_lookup objectID c of
             (None, c) \<Rightarrow> st\<lparr>st_instanceCache := Some c\<rparr>
           | (Some (instanceID, versions), c) \<Rightarrow>
               st_releaseCache E objectID 2
                 (st_update r (\<lambda>o'. o'\<lparr>ob_cm := cg_addInstanceDatas versions version (ob_cm o')\<rparr>)
                   (st\<lparr>st_instanceCache := Some c\<rparr>))))"

definition st_cmdMapReply ::
  "cache_env \<Rightarrow> NodeID \<Rightarrow> uint128 \<Rightarrow> uint128 \<Rightarrow> uint32 \<Rightarrow> bool \<Rightarrow> bool \<Rightarrow> bool \<Rightarrow> node \<Rightarrow> object_store \<Rightarrow> object_store" where
  "st_cmdMapReply E nodeID objectID version requestID result releaseCache useCache from st =
     (if nodeID \<noteq> nd_id (st_node st) then st
      else
        st_serveRequest requestID (ServedVersion version)
          (if result then
             (case st_getRequestData requestID st of
                RequestObject r \<Rightarrow>
                  (let st = st_update r (\<lambda>o'. o'\<lparr>ob_cm := cg_setMasterNode from (ob_cm o')\<rparr>) st
                   in if useCache then st_addCached E objectID version r st
                      else if releaseCache then st_releaseCache E objectID 1 st else st)
              | _ \<Rightarrow> st)
           else if releaseCache then st_releaseCache E objectID 1 st else st))"

definition st_cmdUnsubscribe ::
  "uint128 \<Rightarrow> uint32 \<Rightarrow> uint32 \<Rightarrow> uint32 \<Rightarrow> node \<Rightarrow> object_store \<Rightarrow> object_store \<times> store_command list" where
  "st_cmdUnsubscribe i requestID masterInstanceID slaveInstanceID from st =
     ((case find (\<lambda>r. ob_isMaster (st_object st r) \<and> ob_instanceID (st_object st r) = masterInstanceID) (st_instances i st) of
         None \<Rightarrow> st
       | Some r \<Rightarrow> st_update r (\<lambda>o'. o'\<lparr>ob_cm := cg_removeSlave from slaveInstanceID (ob_cm o')\<rparr>) st),
      [SendDetach (nd_id from) i slaveInstanceID requestID])"

definition st_cmdUnmap :: "uint128 \<Rightarrow> object_store \<Rightarrow> object_store" where
  "st_cmdUnmap objectID st =
     (let st = st_onCache (\<lambda>c. snd (ic_erase objectID c)) st
      in case map_of (st_objects st) objectID of
           None \<Rightarrow> st
         | Some rs \<Rightarrow> fold (\<lambda>r. st_update r ob_detach) rs (st\<lparr>st_objects := AList.delete objectID (st_objects st)\<rparr>))"

text \<open>\<^verbatim>\<open>_cmdSyncReply\<close> replaces the stream of the request by the newest cached one.\<close>

definition st_setStream :: "uint32 \<Rightarrow> (odistream \<Rightarrow> odistream) \<Rightarrow> object_store \<Rightarrow> object_store" where
  "st_setStream requestID f st =
     (case map_of (st_requests st) requestID of
        None \<Rightarrow> st
      | Some q \<Rightarrow>
          (case rq_data q of
             RequestStream is \<Rightarrow>
               st\<lparr>st_requests := AList.update requestID (q\<lparr>rq_data := RequestStream (f is)\<rparr>) (st_requests st)\<rparr>
           | _ \<Rightarrow> st))"

definition st_copyCached :: "cache_env \<Rightarrow> uint128 \<Rightarrow> uint32 \<Rightarrow> object_store \<Rightarrow> object_store" where
  "st_copyCached E objectID requestID st =
     (case st_instanceCache st of
        None \<Rightarrow> st
      | Some c \<Rightarrow>
          (case ic_lookup objectID c of
             (None, c) \<Rightarrow> st\<lparr>st_instanceCache := Some c\<rparr>
           | (Some (instanceID, versions), c) \<Rightarrow>
               st_releaseCache E objectID 2
                 (st_setStream requestID (\<lambda>is. od_assign is (last versions)) (st\<lparr>st_instanceCache := Some c\<rparr>))))"

definition st_cmdSyncReply ::
  "cache_env \<Rightarrow> NodeID \<Rightarrow> uint128 \<Rightarrow> uint32 \<Rightarrow> bool \<Rightarrow> bool \<Rightarrow> bool \<Rightarrow> object_store \<Rightarrow> object_store" where
  "st_cmdSyncReply E nodeID i requestID result releaseCache useCache st =
     (if nodeID \<noteq> nd_id (st_node st) then st
      else
        st_serveRequest requestID (ServedBool result)
          (if result \<and> useCache then st_copyCached E i requestID st
           else if releaseCache then st_releaseCache E i 1 st else st))"

text \<open>
  \<^verbatim>\<open>_cmdInstance\<close>: the instance data goes into the cache, unless it was pushed, and to the object, the push queue or
  the waiting request, depending on the command. The copies in the cache and for the object are object commands.
\<close>

definition st_cmdInstance ::
  "store_config \<Rightarrow> cache_env \<Rightarrow> NodeID \<Rightarrow> uint32 \<Rightarrow> odcommand \<Rightarrow> object_store \<Rightarrow> bool \<times> object_store" where
  "st_cmdInstance C E nodeID masterInstanceID command st =
     (let cmd = oc_cmd command;
          command = command\<lparr>oc_type := COMMANDTYPE_OBJECT, oc_cmd := CMD_OBJECT_INSTANCE\<rparr>;
          version = oc_version command;
          st = (if drop_bit 64 version = 0 \<and> cmd \<noteq> CMD_NODE_OBJECT_INSTANCE_PUSH
                then st_onCache (\<lambda>c. snd (ic_add (ce_target E) (ce_order1 E) (ce_order0 E) (ce_now E)
                       (ObjectVersion (oc_objectID command) version) masterInstanceID command 0 c)) st
                else st)
      in if cmd = CMD_NODE_OBJECT_INSTANCE then (True, st)
         else if cmd = CMD_NODE_OBJECT_INSTANCE_MAP then
           (if nodeID \<noteq> nd_id (st_node st) then (True, st) else st_dispatchObjectCommand C command st)
         else if cmd = CMD_NODE_OBJECT_INSTANCE_COMMIT then st_dispatchObjectCommand C command st
         else if cmd = CMD_NODE_OBJECT_INSTANCE_PUSH then
           (True, st\<lparr>st_pushData := snd (dq_addDataCommand (st_pushData st) (oc_objectID command) command)\<rparr>)
         else if cmd = CMD_NODE_OBJECT_INSTANCE_SYNC then
           (True, if nodeID \<noteq> nd_id (st_node st) then st
                  else st_setStream (oc_instanceID command) (\<lambda>is. od_addDataCommand is command) st)
         else (False, st))"

definition st_cmdDisableSendOnRegister :: "uint32 \<Rightarrow> object_store \<Rightarrow> object_store" where
  "st_cmdDisableSendOnRegister requestID st =
     (let st = st\<lparr>st_sendOnRegister := st_sendOnRegister st - 1\<rparr>
      in st_serveRequest requestID ServedVoid (if st_sendOnRegister st = 0 then st\<lparr>st_sendQueue := []\<rparr> else st))"

definition st_disableSendOnRegister :: "store_config \<Rightarrow> uint32 \<Rightarrow> object_store \<Rightarrow> object_store" where
  "st_disableSendOnRegister C rid st =
     (if sc_sendQueueSize C > 0 then st_cmdDisableSendOnRegister rid (st_registerRequest rid RequestNone st)
      else st\<lparr>st_sendOnRegister := st_sendOnRegister st - 1\<rparr>)"

text \<open>\<^verbatim>\<open>_cmdRemoveNode\<close>; no request when the node was disconnected by its peer.\<close>

definition st_cmdRemoveNode :: "node \<Rightarrow> uint32 option \<Rightarrow> object_store \<Rightarrow> object_store" where
  "st_cmdRemoveNode n requestID st =
     (let st = fold (\<lambda>r. st_update r (\<lambda>o'. o'\<lparr>ob_cm := cg_removeSlaves n (ob_cm o')\<rparr>)) (concat (map snd (st_objects st))) st
      in case requestID of None \<Rightarrow> st | Some rid \<Rightarrow> st_serveRequest rid ServedVoid st)"

text \<open>\<^verbatim>\<open>_cmdPush\<close>: the stream given to the push handler; \<^term>\<open>None\<close> while it is not complete.\<close>

definition st_cmdPush :: "uint128 \<Rightarrow> object_store \<Rightarrow> (odistream \<times> object_store) option" where
  "st_cmdPush objectID st =
     (case dq_pull (st_pushData st) objectID of
        None \<Rightarrow> None
      | Some (is, q) \<Rightarrow> Some (is, st\<lparr>st_pushData := q\<rparr>))"

end
