(* ===== verification/Cache_Pins.thy ===== *)
theory Cache_Pins
  imports Instance_Cache
begin

text \<open>
  The access count of a cached object under every operation of the instance cache: only \<^verbatim>\<open>operator[]\<close> and
  \<^verbatim>\<open>release\<close> of that object change it. An object that is not cached counts zero.
\<close>

definition ic_pins :: "instance_cache \<Rightarrow> uint128 \<Rightarrow> uint32" where
  "ic_pins c k = (case ic_get c k of None \<Rightarrow> 0 | Some item \<Rightarrow> it_access item)"

lemma ic_pins_put [simp]: "ic_pins (ic_put c i r) k = (if k = i then it_access (fst r) else ic_pins c k)"
  by (simp add: ic_pins_def update_conv')

lemma ic_pins_remove_key: "ic_pins (ic_remove_key c i) k = (if k = i then 0 else ic_pins c k)"
  by (simp add: ic_pins_def delete_conv')

lemma ic_pins_get: "ic_get c k = Some item \<Longrightarrow> ic_pins c k = it_access item"
  by (simp add: ic_pins_def)

lemma ic_pins_new [simp]: "ic_pins (ic_new m) k = 0"
  by (simp add: ic_pins_def ic_new_def)

lemma releaseStreams_access [simp]: "it_access (fst (ic_releaseStreams (item, sz))) = it_access item"
  by (simp add: ic_releaseStreams_def)

lemma releaseBefore_access [simp]: "it_access (fst (ic_releaseStreams_before t (item, sz))) = it_access item"
  by (simp add: ic_releaseStreams_before_def split: prod.splits)

lemma add_master_access: "ic_add_master instanceID nodeID usage r = Some r' \<Longrightarrow> it_access (fst r') = it_access (fst r)"
  by (cases r) (auto simp: ic_add_master_def ic_releaseStreams_def split: if_splits prod.splits)

lemma add_stream_access: "it_access (fst (snd (ic_add_stream now version r))) = it_access (fst r)"
  by (cases r) (auto simp: ic_add_stream_def it_newStream_def ic_releaseStreams_def Let_def split: prod.splits)

lemma append_access [simp]: "it_access (fst (ic_append command r)) = it_access (fst r)"
  by (cases r) (simp add: ic_append_def Let_def)

lemma append_versions [simp]: "it_versions (fst (ic_append command r)) \<noteq> []"
  by (cases r) (simp add: ic_append_def Let_def)

text \<open>Eviction: a pinned item stays, and an item that is not pinned does not become so.\<close>

lemma releaseItems_unpinned:
  assumes "ic_pins c k = 0"
  shows "ic_pins (ic_releaseItems target order minUsage c) k = 0"
  by (rule releaseItems_rule [where Q = "\<lambda>d. ic_pins d k = 0"])
     (use assms in \<open>auto simp: ic_pins_remove_key ic_releaseFirstStream_fields ic_pins_get\<close>)

lemma releaseItems_pins:
  assumes "\<And>item. ic_get c k = Some item \<Longrightarrow> it_access item \<noteq> 0 \<Longrightarrow> it_versions item \<noteq> []"
  shows "ic_pins (ic_releaseItems target order minUsage c) k = ic_pins c k"
proof (cases "ic_pins c k = 0")
  case True
  then show ?thesis by (simp add: releaseItems_unpinned)
next
  case False
  then obtain item where "ic_get c k = Some item" "it_access item \<noteq> 0" by (auto simp: ic_pins_def split: option.splits)
  then show ?thesis using releaseItems_pinned assms by (metis ic_pins_get)
qed

lemma pins_lookup:
  "ic_pins (snd (ic_lookup i c)) k = (if k = i \<and> ic_get c i \<noteq> None then ic_pins c k + 1 else ic_pins c k)"
  by (auto simp: ic_lookup_def ic_pins_get split: option.splits)

lemma pins_release:
  assumes "ic_inv c"
  shows "ic_pins (snd (ic_release target order i n c)) k =
    (if k = i \<and> ic_get c i \<noteq> None then ic_pins c k - n else ic_pins c k)"
proof (cases "ic_get c i")
  case None
  then show ?thesis by (auto simp: ic_release_def)
next
  case (Some item)
  let ?c = "ic_put c i (item\<lparr>it_access := it_access item - n\<rparr>, ic_size c)"
  have "ic_pins (ic_releaseItems target order 1 ?c) k = ic_pins ?c k"
  proof (rule releaseItems_pins)
    fix x
    assume "ic_get ?c k = Some x"
    then show "it_versions x \<noteq> []"
      using ic_inv_get [OF assms] Some by (cases "k = i") (auto simp: update_conv')
  qed
  with Some show ?thesis by (auto simp: ic_release_def ic_pins_get)
qed

lemma pins_erase: "ic_pins (snd (ic_erase i c)) k = ic_pins c k"
  by (auto simp: ic_erase_def ic_pins_remove_key ic_pins_get split: option.splits)

lemma pins_enter: "ic_pins (ic_enter i instanceID nodeID c) k = ic_pins c k"
  by (auto simp: ic_enter_def it_new_def ic_pins_def update_conv' split: option.splits)

lemma pins_add:
  assumes inv: "ic_inv c"
  shows "ic_pins (snd (ic_add target order1 order0 now rv instanceID command usage c)) k = ic_pins c k"
proof -
  let ?i = "ov_identifier rv" and ?node = "oc_remote command"
  let ?c = "ic_enter ?i instanceID ?node c"
  obtain item where item: "ic_get ?c ?i = Some item" using ic_enter_get by blast
  have access: "it_access item = ic_pins c ?i" using ic_pins_get [OF item] by (simp add: pins_enter)
  show ?thesis
  proof (cases "ic_add_master instanceID ?node usage (item, ic_size ?c)")
    case None
    with item show ?thesis by (simp add: ic_add_eq Let_def pins_enter)
  next
    case (Some r)
    obtain b r2 where st: "ic_add_stream now (ov_version rv) r = (b, r2)" by (metis surj_pair)
    have r2: "it_access (fst r2) = ic_pins c ?i"
      using add_stream_access [of now "ov_version rv" r] add_master_access [OF Some] access by (simp add: st)
    let ?d = "ic_put ?c ?i (ic_append command r2)"
    have ne: "it_versions x \<noteq> []" if "ic_get ?d k = Some x" for x
      using that ic_inv_get [OF inv] ic_enter_other [of k ?i instanceID ?node c]
      by (cases "k = ?i") (auto simp: update_conv')
    have p: "ic_pins (ic_releaseItems target order1 1 ?d) k = ic_pins ?d k"
      using ne by (intro releaseItems_pins) blast
    have ne': "it_versions x \<noteq> []" if "ic_get (ic_releaseItems target order1 1 ?d) k = Some x" "it_access x \<noteq> 0" for x
    proof -
      have "ic_pins ?d k \<noteq> 0" using p that by (simp add: ic_pins_get)
      then obtain y where y: "ic_get ?d k = Some y" "it_access y \<noteq> 0"
        by (auto simp: ic_pins_def simp del: ic_put_simps split: option.splits)
      then show ?thesis using releaseItems_pinned [OF y ne [OF y(1)]] ne that by auto
    qed
    have "ic_pins (ic_releaseItems target order0 0 (ic_releaseItems target order1 1 ?d)) k = ic_pins ?d k"
      using releaseItems_pins [OF ne'] p by simp
    also have "\<dots> = ic_pins c k" by (simp add: r2 pins_enter)
    finally show ?thesis using item Some st r2 by (cases b) (simp_all add: ic_add_eq Let_def pins_enter)
  qed
qed

lemma pins_erase_keys: "ic_pins c k = 0 \<Longrightarrow> ic_pins (ic_erase_keys (c, keys)) k = 0"
  by (induction keys arbitrary: c) (simp_all add: ic_erase_keys_def ic_pins_remove_key)

lemma remove_loop_pins: "ic_pins (fst (ic_remove_loop nodeID order (c, keys))) k = ic_pins c k"
  by (induction order arbitrary: c keys) (auto simp: ic_pins_get split: option.splits)

lemma expire_loop_pins: "ic_pins (fst (ic_expire_loop t order (c, keys))) k = ic_pins c k"
  by (induction order arbitrary: c keys) (auto simp: ic_pins_get Let_def split: option.splits)

lemma pins_remove: "ic_pins (ic_remove order nodeID c) k = ic_pins c k"
proof (cases "ic_pins c k = 0")
  case True
  then show ?thesis
    using pins_erase_keys [of "fst (ic_remove_loop nodeID order (c, []))"] remove_loop_pins
    by (metis ic_remove_def prod.collapse)
next
  case False
  then obtain item where i: "ic_get c k = Some item" "it_access item \<noteq> 0" by (auto simp: ic_pins_def split: option.splits)
  then show ?thesis using remove_loop_pinned [OF i, of "[]" nodeID order]
    by (cases "ic_remove_loop nodeID order (c, [])") (simp add: ic_remove_def erase_keys_get ic_pins_def)
qed

lemma pins_expire: "ic_pins (ic_expire order now timeout c) k = ic_pins c k"
proof (cases "ic_pins c k = 0")
  case True
  then show ?thesis
    using pins_erase_keys [of "fst (ic_expire_loop (now - timeout) order (c, []))"] expire_loop_pins
    by (metis ic_expire_def prod.collapse)
next
  case False
  then obtain item where i: "ic_get c k = Some item" "it_access item \<noteq> 0" by (auto simp: ic_pins_def split: option.splits)
  then show ?thesis using expire_loop_pinned [OF i, of "[]" "now - timeout" order]
    by (cases "ic_expire_loop (now - timeout) order (c, [])") (simp add: ic_expire_def Let_def erase_keys_get ic_pins_def)
qed

end
