(* ===== verification/Store_Protocol.thy ===== *)
theory Store_Protocol
  imports Object_Store Cache_Pins
begin

text \<open>
  The object store of a node as a state machine: the application maps, synchronizes, registers, deregisters and unmaps
  objects, masters answer the outstanding requests of the node once each, and any other command may arrive at any
  time. In every reachable state the object table is the index of the attached objects, their instance
  identifiers are unique, and the access counts of the instance cache are those of the outstanding requests.
\<close>

section \<open>Outstanding requests\<close>

text \<open>A map request with the object and whether the success command has arrived, or a sync request.\<close>

datatype pending = PendingMap nat master_cm_command bool | PendingSync master_cm_command

fun pd_command :: "pending \<Rightarrow> master_cm_command" where
  "pd_command (PendingMap r c b) = c"
| "pd_command (PendingSync c) = c"

fun pd_waits :: "pending \<Rightarrow> bool" where
  "pd_waits (PendingMap r c b) \<longleftrightarrow> \<not> b"
| "pd_waits (PendingSync c) \<longleftrightarrow> False"

fun pd_object :: "pending \<Rightarrow> nat option" where
  "pd_object (PendingMap r c b) = Some r"
| "pd_object (PendingSync c) = None"

definition pd_pins :: "uint128 \<Rightarrow> pending list \<Rightarrow> nat" where
  "pd_pins i ps = length (filter (\<lambda>p. mc_useCache (pd_command p) \<and> mc_objectID (pd_command p) = i) ps)"

definition no_pending :: "nat \<Rightarrow> pending list \<Rightarrow> bool" where
  "no_pending r ps \<longleftrightarrow> (\<forall>p\<in>set ps. pd_object p \<noteq> Some r)"

definition fresh_request :: "uint32 \<Rightarrow> object_store \<Rightarrow> bool" where
  "fresh_request rid st \<longleftrightarrow> map_of (st_requests st) rid = None"

definition st_lastID :: "object_store \<Rightarrow> uint32" where
  "st_lastID st = st_instanceIDs st + 0x7FFFFFFF"

section \<open>Steps\<close>

text \<open>
  The conditions are those of the interface: an object is mapped, registered or swapped in when it is not attached and not being
  mapped, request identifiers are fresh, and neither the instance identifiers nor the counters run over.
\<close>

inductive st_step ::
  "global_config \<Rightarrow> pression \<Rightarrow> store_config \<Rightarrow> object_store \<times> pending list \<Rightarrow> object_store \<times> pending list \<Rightarrow> bool"
  for G :: global_config and P :: pression and C :: store_config where
  map_object: "st_mapNB C rid r i v m st = (Some q, st', [SendMap n c]) \<Longrightarrow> fresh_request rid st \<Longrightarrow> no_pending r ps \<Longrightarrow>
    st_lastID st < sc_instanceMax C \<Longrightarrow> length ps < 2 ^ 31 \<Longrightarrow>
    st_step G P C (st, ps) (st', ps @ [PendingMap r c False])"
| start_sync: "st_startSync C E rid m i inst st = (Some q, st', [SendSync n c]) \<Longrightarrow> fresh_request rid st \<Longrightarrow>
    length ps < 2 ^ 31 \<Longrightarrow> st_step G P C (st, ps) (st', ps @ [PendingSync c])"
| map_success: "st_step G P C (st, ps @ PendingMap r c False # ps')
    (st_cmdMapSuccess G P C (nd_id (mc_node c)) (mc_objectID c) (mc_requestID c) (mc_instanceID c) type masterInst st,
     ps @ PendingMap r c True # ps')"
| map_reply: "(useCache \<longrightarrow> mc_useCache c) \<Longrightarrow> st_step G P C (st, ps @ PendingMap r c True # ps')
    (st_cmdMapReply E (nd_id (mc_node c)) (mc_objectID c) v (mc_requestID c) True (mc_useCache c) useCache from st, ps @ ps')"
| map_refused: "st_step G P C (st, ps @ PendingMap r c False # ps')
    (st_cmdMapReply E (nd_id (mc_node c)) (mc_objectID c) v (mc_requestID c) False (mc_useCache c) False from st, ps @ ps')"
| sync_reply: "(useCache \<longrightarrow> mc_useCache c \<and> result) \<Longrightarrow> st_step G P C (st, ps @ PendingSync c # ps')
    (st_cmdSyncReply E (nd_id (mc_node c)) (mc_objectID c) (mc_requestID c) result (mc_useCache c) useCache st, ps @ ps')"
| map_sync: "st_mapSync P q st = Some (b, st') \<Longrightarrow> st_step G P C (st, ps) (st', ps)"
| finish_sync: "st_finishSync q r st = Some (b, st') \<Longrightarrow> st_step G P C (st, ps) (st', ps)"
| register_object: "\<not> ob_isAttached (st_object st r) \<Longrightarrow> no_pending r ps \<Longrightarrow> st_lastID st < sc_instanceMax C \<Longrightarrow>
    st_step G P C (st, ps) (fst (st_register G P C r st), ps)"
| deregister_object: "fresh_request rid st \<Longrightarrow> st_step G P C (st, ps) (fst (st_deregister G P C rid r st), ps)"
| unmap_object: "fresh_request rid st \<Longrightarrow> st_step G P C (st, ps) (fst (st_unmap G P rid reachable r st), ps)"
| swap_object: "old \<noteq> new \<Longrightarrow> \<not> ob_isAttached (st_object st new) \<Longrightarrow> no_pending new ps \<Longrightarrow>
    st_step G P C (st, ps) (st_swap old new st, ps)"
| detach_command: "st_step G P C (st, ps) (st_cmdDetach i inst rid st, ps)"
| unmap_command: "st_step G P C (st, ps) (st_cmdUnmap i st, ps)"
| object_command: "st_step G P C (st, ps) (snd (st_dispatchObjectCommand C command st), ps)"
| instance_command: "st_step G P C (st, ps) (snd (st_cmdInstance C E n masterInst command st), ps)"
| map_command: "st_step G P C (st, ps) (fst (st_cmdMap G P attached c st), ps)"
| sync_command: "st_step G P C (st, ps) (fst (st_cmdSync G P attached c st), ps)"
| unsubscribe_command: "st_step G P C (st, ps) (fst (st_cmdUnsubscribe i rid masterInst inst from st), ps)"
| remove_node: "st_step G P C (st, ps) (st_cmdRemoveNode node rid' st, ps)"
| push_command: "st_cmdPush i st = Some (is, st') \<Longrightarrow> st_step G P C (st, ps) (st', ps)"
| register_command: "st_step G P C (st, ps) (st_cmdRegister C time r st, ps)"
| idle: "st_step G P C (st, ps) (snd (st_notifyCommandThreadIdle G P time nodes st), ps)"
| enable_send: "st_step G P C (st, ps) (st_enableSendOnRegister st, ps)"
| disable_send: "fresh_request rid st \<Longrightarrow> st_step G P C (st, ps) (st_disableSendOnRegister C rid st, ps)"
| expire: "st_step G P C (st, ps) (st_expireInstanceData E age st, ps)"
| remove_data: "st_step G P C (st, ps) (st_removeInstanceData E n st, ps)"

inductive st_reach :: "global_config \<Rightarrow> pression \<Rightarrow> store_config \<Rightarrow> object_store \<times> pending list \<Rightarrow> bool"
  for G :: global_config and P :: pression and C :: store_config where
  start: "\<forall>r. \<not> ob_isAttached (objects r) \<Longrightarrow> st_reach G P C (st_new n size' objects, [])"
| step: "st_reach G P C s \<Longrightarrow> st_step G P C s s' \<Longrightarrow> st_reach G P C s'"

section \<open>Invariant\<close>

text \<open>The table indexes exactly the attached objects by their identifier.\<close>

definition table_ok :: "object_store \<Rightarrow> bool" where
  "table_ok st \<longleftrightarrow>
     distinct (map fst (st_objects st)) \<and> (\<forall>i. map_of (st_objects st) i \<noteq> Some []) \<and> (\<forall>i. distinct (st_instances i st)) \<and>
     (\<forall>i r. r \<in> set (st_instances i st) \<longleftrightarrow> ob_isAttached (st_object st r) \<and> ob_id (st_object st r) = i)"

definition st_instanceOf :: "object_store \<Rightarrow> nat \<Rightarrow> uint32" where
  "st_instanceOf st r = ob_instanceID (st_object st r)"

text \<open>Instance identifiers in use: those of attached objects and those of map requests that wait for success.\<close>

definition ids_ok :: "store_config \<Rightarrow> object_store \<Rightarrow> pending list \<Rightarrow> bool" where
  "ids_ok C st ps \<longleftrightarrow>
     st_lastID st \<le> sc_instanceMax C \<and>
     inj_on (st_instanceOf st) {r. ob_isAttached (st_object st r)} \<and>
     (\<forall>r. ob_isAttached (st_object st r) \<longrightarrow> st_instanceOf st r \<le> st_lastID st) \<and>
     distinct (map (\<lambda>p. mc_instanceID (pd_command p)) (filter pd_waits ps)) \<and>
     (\<forall>p\<in>set ps. pd_waits p \<longrightarrow> mc_instanceID (pd_command p) \<le> st_lastID st \<and>
        (\<forall>r. ob_isAttached (st_object st r) \<longrightarrow> st_instanceOf st r \<noteq> mc_instanceID (pd_command p)))"

text \<open>The request of a pending map still holds its object and has no result.\<close>

definition map_ok :: "object_store \<Rightarrow> nat \<Rightarrow> master_cm_command \<Rightarrow> bool" where
  "map_ok st r c \<longleftrightarrow>
     fst (st_getRequest (mc_requestID c) st) = RequestObject r \<and>
     (\<forall>v. snd (st_getRequest (mc_requestID c) st) \<noteq> Some (ServedVersion v))"

definition requests_ok :: "object_store \<Rightarrow> pending list \<Rightarrow> bool" where
  "requests_ok st ps \<longleftrightarrow>
     (\<forall>r c b. PendingMap r c b \<in> set ps \<longrightarrow> map_ok st r c \<and> (\<not> b \<longrightarrow> \<not> ob_isAttached (st_object st r))) \<and>
     (\<forall>p\<in>set ps. mc_node (pd_command p) = st_node st) \<and>
     distinct (map (\<lambda>p. mc_requestID (pd_command p)) (filter (\<lambda>p. pd_object p \<noteq> None) ps)) \<and>
     distinct (map pd_object (filter (\<lambda>p. pd_object p \<noteq> None) ps))"

definition pins_ok :: "object_store \<Rightarrow> pending list \<Rightarrow> bool" where
  "pins_ok st ps \<longleftrightarrow>
     length ps \<le> 2 ^ 31 \<and>
     (case st_instanceCache st of
        None \<Rightarrow> \<forall>i. pd_pins i ps = 0
      | Some c \<Rightarrow> ic_inv c \<and> (\<forall>i. ic_pins c i = of_nat (pd_pins i ps)))"

definition store_inv :: "store_config \<Rightarrow> object_store \<times> pending list \<Rightarrow> bool" where
  "store_inv C s \<longleftrightarrow>
     table_ok (fst s) \<and> ids_ok C (fst s) (snd s) \<and> requests_ok (fst s) (snd s) \<and> pins_ok (fst s) (snd s)"

section \<open>Operations that leave the table and the counts alone\<close>

definition same_core :: "object_store \<Rightarrow> object_store \<Rightarrow> bool" where
  "same_core st st' \<longleftrightarrow>
     st_objects st' = st_objects st \<and> st_instanceIDs st' = st_instanceIDs st \<and> st_node st' = st_node st \<and>
     (\<forall>r. ob_id (st_object st' r) = ob_id (st_object st r) \<and> ob_instanceID (st_object st' r) = ob_instanceID (st_object st r))"

definition same_cache :: "instance_cache option \<Rightarrow> instance_cache option \<Rightarrow> bool" where
  "same_cache c c' \<longleftrightarrow>
     (case c of
        None \<Rightarrow> c' = None
      | Some x \<Rightarrow> (case c' of None \<Rightarrow> False | Some x' \<Rightarrow> ic_inv x \<longrightarrow> ic_inv x' \<and> (\<forall>i. ic_pins x' i = ic_pins x i)))"

definition keeps_maps :: "object_store \<Rightarrow> object_store \<Rightarrow> bool" where
  "keeps_maps st st' \<longleftrightarrow> (\<forall>r c. map_ok st r c \<longrightarrow> map_ok st' r c)"

definition keeps :: "object_store \<Rightarrow> object_store \<Rightarrow> bool" where
  "keeps st st' \<longleftrightarrow> same_core st st' \<and> same_cache (st_instanceCache st) (st_instanceCache st') \<and> keeps_maps st st'"

lemma same_core_instances: "same_core st st' \<Longrightarrow> st_instances i st' = st_instances i st"
  by (simp add: same_core_def st_instances_def)

lemma same_core_attached: "same_core st st' \<Longrightarrow> ob_isAttached (st_object st' r) = ob_isAttached (st_object st r)"
  by (simp add: same_core_def ob_isAttached_def)

lemma same_core_instanceOf: "same_core st st' \<Longrightarrow> st_instanceOf st' = st_instanceOf st"
  by (rule ext) (simp add: same_core_def st_instanceOf_def)

lemma same_core_lastID: "same_core st st' \<Longrightarrow> st_lastID st' = st_lastID st"
  by (simp add: same_core_def st_lastID_def)

lemma table_ok_same: "table_ok st \<Longrightarrow> same_core st st' \<Longrightarrow> table_ok st'"
  by (simp add: table_ok_def same_core_instances same_core_attached) (simp add: same_core_def)

lemma ids_ok_same: "ids_ok C st ps \<Longrightarrow> same_core st st' \<Longrightarrow> ids_ok C st' ps"
  by (simp add: ids_ok_def same_core_attached same_core_instanceOf same_core_lastID)

lemma requests_ok_same: "requests_ok st ps \<Longrightarrow> same_core st st' \<Longrightarrow> keeps_maps st st' \<Longrightarrow> requests_ok st' ps"
  by (simp add: requests_ok_def same_core_attached keeps_maps_def) (auto simp: same_core_def)

lemma pins_ok_same: "pins_ok st ps \<Longrightarrow> same_cache (st_instanceCache st) (st_instanceCache st') \<Longrightarrow> pins_ok st' ps"
  by (auto simp: pins_ok_def same_cache_def split: option.splits)

lemma store_inv_keeps: "store_inv C (st, ps) \<Longrightarrow> keeps st st' \<Longrightarrow> store_inv C (st', ps)"
  using table_ok_same ids_ok_same requests_ok_same pins_ok_same by (simp add: store_inv_def keeps_def) blast

lemma same_core_refl [simp]: "same_core st st"
  by (simp add: same_core_def)

lemma keeps_maps_refl [simp]: "keeps_maps st st"
  by (simp add: keeps_maps_def)

lemma same_cache_refl [simp]: "same_cache c c"
  by (simp add: same_cache_def split: option.splits)

lemma same_cache_trans: "same_cache a b \<Longrightarrow> same_cache b c \<Longrightarrow> same_cache a c"
  by (auto simp: same_cache_def split: option.splits)

lemma keeps_refl [simp]: "keeps st st"
  by (simp add: keeps_def same_core_def keeps_maps_def)

lemma keeps_trans: "keeps a b \<Longrightarrow> keeps b c \<Longrightarrow> keeps a c"
  unfolding keeps_def keeps_maps_def by (auto simp: same_core_def intro: same_cache_trans)

text \<open>A change of fields that neither the table, the cache nor the requests depend on.\<close>

lemma keeps_frame:
  "same_core st st' \<Longrightarrow> st_instanceCache st' = st_instanceCache st \<Longrightarrow> st_requests st' = st_requests st \<Longrightarrow> keeps st st'"
  by (simp add: keeps_def keeps_maps_def map_ok_def st_getRequest_def)

lemma keeps_update [inv_intros]:
  assumes "ob_id (f (st_object st r)) = ob_id (st_object st r)" and "ob_instanceID (f (st_object st r)) = ob_instanceID (st_object st r)"
  shows "keeps st (st_update r f st)"
  using assms by (intro keeps_frame) (auto simp: same_core_def st_update_def)

lemma keeps_cache:
  assumes "same_cache (st_instanceCache st) c"
  shows "keeps st (st\<lparr>st_instanceCache := c\<rparr>)"
  using assms by (simp add: keeps_def same_core_def keeps_maps_def map_ok_def st_getRequest_def)

lemma keeps_onCache:
  assumes "\<And>c. ic_inv c \<Longrightarrow> ic_inv (f c) \<and> (\<forall>i. ic_pins (f c) i = ic_pins c i)"
  shows "keeps st (st_onCache f st)"
  unfolding st_onCache_def by (rule keeps_cache) (use assms in \<open>auto simp: same_cache_def split: option.splits\<close>)

lemma keeps_requests:
  assumes "\<And>r c. map_ok st r c \<Longrightarrow> map_ok (st\<lparr>st_requests := q\<rparr>) r c"
  shows "keeps st (st\<lparr>st_requests := q\<rparr>)"
  using assms by (simp add: keeps_def same_core_def keeps_maps_def)

lemma keeps_serve [inv_intros]: "(\<And>v. s \<noteq> ServedVersion v) \<Longrightarrow> keeps st (st_serveRequest rid s st)"
  by (cases "map_of (st_requests st) rid")
     (auto simp: st_serveRequest_def map_ok_def st_getRequest_def update_conv' intro!: keeps_requests)

lemma keeps_register_request [inv_intros]: "fresh_request rid st \<Longrightarrow> keeps st (st_registerRequest rid d st)"
  by (auto simp: st_registerRequest_def fresh_request_def map_ok_def st_getRequest_def update_conv' intro!: keeps_requests
      split: option.splits)

lemma keeps_setStream [inv_intros]: "keeps st (st_setStream rid f st)"
  by (auto simp: st_setStream_def map_ok_def st_getRequest_def update_conv' intro!: keeps_requests
      split: option.splits request_data.splits)

lemma keeps_fold [inv_intros]:
  assumes "\<And>r st. keeps st (f r st)"
  shows "keeps st (fold f rs st)"
  by (induction rs arbitrary: st) (auto intro: keeps_trans assms)

lemma ob_dispatch_fields [simp]:
  "ob_id (ob_dispatchCommand c o') = ob_id o'" "ob_instanceID (ob_dispatchCommand c o') = ob_instanceID o'"
  by (auto simp: ob_dispatchCommand_def Let_def split: change_manager.splits)

lemma keeps_dispatch [inv_intros]: "keeps st (snd (st_dispatchObjectCommand C command st))"
  by (auto simp: st_dispatchObjectCommand_def Let_def split: option.splits intro!: inv_intros)

lemma keeps_instance: "keeps st (snd (st_cmdInstance C E n masterInst command st))"
proof -
  let ?command = "command\<lparr>oc_type := COMMANDTYPE_OBJECT, oc_cmd := CMD_OBJECT_INSTANCE\<rparr>"
  let ?f = "\<lambda>c. snd (ic_add (ce_target E) (ce_order1 E) (ce_order0 E) (ce_now E)
    (ObjectVersion (oc_objectID ?command) (oc_version ?command)) masterInst ?command 0 c)"
  define s' where "s' = (if drop_bit 64 (oc_version ?command) = 0 \<and> oc_cmd command \<noteq> CMD_NODE_OBJECT_INSTANCE_PUSH
    then st_onCache ?f st else st)"
  have "keeps st (st_onCache ?f st)" by (rule keeps_onCache) (simp add: pins_add ic_inv_add)
  then have cache: "keeps st s'" by (simp add: s'_def)
  have rest: "keeps s (snd (st_dispatchObjectCommand C c s))" "keeps s (s\<lparr>st_pushData := q\<rparr>)"
    "keeps s (st_setStream rid g s)" for s q rid g c
    by (auto intro!: inv_intros keeps_frame simp: same_core_def)
  have "keeps s' (snd (st_cmdInstance C E n masterInst command st))"
    unfolding st_cmdInstance_def Let_def s'_def [symmetric] by (simp add: rest)
  with cache show ?thesis by (rule keeps_trans)
qed

lemma keeps_cm [inv_intros]: "keeps st (st_update r (\<lambda>o'. o'\<lparr>ob_cm := f o'\<rparr>) st)"
  by (rule keeps_update) simp_all

lemma keeps_mapped: "keeps st s \<Longrightarrow> keeps st (s\<lparr>st_mapped := m\<rparr>)"
  by (erule keeps_trans) (rule keeps_frame, simp_all add: same_core_def)

lemma keeps_cmdMap: "keeps st (fst (st_cmdMap G P attached c st))"
  by (auto simp: st_cmdMap_def Let_def split: option.splits prod.splits intro!: inv_intros keeps_mapped)

lemma keeps_cmdSync: "keeps st (fst (st_cmdSync G P attached c st))"
  by (auto simp: st_cmdSync_def Let_def split: option.splits prod.splits intro!: inv_intros)

lemma keeps_unsubscribe: "keeps st (fst (st_cmdUnsubscribe i rid masterInst inst from st))"
  by (auto simp: st_cmdUnsubscribe_def split: option.splits intro!: inv_intros)

lemma keeps_removeNode: "keeps st (st_cmdRemoveNode node rid st)"
  by (auto simp: st_cmdRemoveNode_def Let_def split: option.splits intro!: inv_intros intro: keeps_trans)

lemma keeps_push: "st_cmdPush i st = Some (is, st') \<Longrightarrow> keeps st st'"
  by (auto simp: st_cmdPush_def same_core_def split: option.splits intro!: keeps_frame)

lemma keeps_queue [inv_intros]: "keeps st (st\<lparr>st_sendQueue := q\<rparr>)"
  by (rule keeps_frame) (simp_all add: same_core_def)

lemma keeps_send [inv_intros]: "keeps st (st\<lparr>st_sendOnRegister := k\<rparr>)"
  by (rule keeps_frame) (simp_all add: same_core_def)

lemma keeps_cmdRegister: "keeps st (st_cmdRegister C time r st)"
  by (auto simp: st_cmdRegister_def Let_def intro!: inv_intros)

lemma keeps_idle: "keeps st (snd (st_notifyCommandThreadIdle G P time nodes st))"
  by (auto simp: st_notifyCommandThreadIdle_def Let_def split: list.splits intro!: inv_intros intro: keeps_trans)

lemma keeps_enable: "keeps st (st_enableSendOnRegister st)"
  by (auto simp: st_enableSendOnRegister_def intro!: inv_intros)

lemma keeps_cmdDisable: "keeps st (st_cmdDisableSendOnRegister rid st)"
proof -
  have "keeps st (st\<lparr>st_sendOnRegister := k, st_sendQueue := []\<rparr>)" for k
    by (rule keeps_frame) (simp_all add: same_core_def)
  then show ?thesis
    unfolding st_cmdDisableSendOnRegister_def Let_def by (auto intro: keeps_trans inv_intros)
qed

lemma keeps_disable: "fresh_request rid st \<Longrightarrow> keeps st (st_disableSendOnRegister C rid st)"
  unfolding st_disableSendOnRegister_def by (auto intro: keeps_trans keeps_cmdDisable inv_intros)

lemma keeps_expire: "keeps st (st_expireInstanceData E age st)"
  unfolding st_expireInstanceData_def by (rule keeps_onCache) (simp add: pins_expire ic_expire_inv)

lemma keeps_remove: "keeps st (st_removeInstanceData E n st)"
  unfolding st_removeInstanceData_def by (rule keeps_onCache) (simp add: pins_remove ic_remove_inv)

lemma keeps_erase [inv_intros]: "keeps st (st_onCache (\<lambda>c. snd (ic_erase i c)) st)"
  by (rule keeps_onCache) (simp add: pins_erase ic_erase_inv)

text \<open>Taking a result removes a request that is not outstanding.\<close>

lemma keeps_delete:
  assumes "\<And>r c. map_ok st r c \<Longrightarrow> mc_requestID c \<noteq> rid"
  shows "keeps st (st\<lparr>st_requests := AList.delete rid (st_requests st)\<rparr>)"
  using assms by (auto simp: map_ok_def st_getRequest_def delete_conv' intro!: keeps_requests)

lemma keeps_mapSync: "st_mapSync P q st = Some (b, st') \<Longrightarrow> keeps st st'"
proof (cases q)
  case (Some rid)
  assume sync: "st_mapSync P q st = Some (b, st')"
  show ?thesis
  proof (cases "\<exists>r v. st_getRequest rid st = (RequestObject r, Some (ServedVersion v))")
    case True
    then obtain r v where req: "st_getRequest rid st = (RequestObject r, Some (ServedVersion v))" by blast
    then have "keeps st (st\<lparr>st_requests := AList.delete rid (st_requests st)\<rparr>)"
      by (intro keeps_delete) (auto simp: map_ok_def)
    with sync Some req show ?thesis
      by (auto simp: st_mapSync_def Let_def split: if_splits intro: keeps_trans keeps_cm)
  next
    case False
    with sync Some show ?thesis
      by (auto simp: st_mapSync_def Let_def split: if_splits prod.splits request_data.splits option.splits served.splits)
  qed
qed (simp add: st_mapSync_def)

lemma keeps_finishSync: "st_finishSync q r st = Some (b, st') \<Longrightarrow> keeps st st'"
proof (cases q)
  case (Some rid)
  assume sync: "st_finishSync q r st = Some (b, st')"
  show ?thesis
  proof (cases "\<exists>is ok. st_getRequest rid st = (RequestStream is, Some (ServedBool ok))")
    case True
    then obtain "is" ok where req: "st_getRequest rid st = (RequestStream is, Some (ServedBool ok))" by blast
    then have "keeps st (st\<lparr>st_requests := AList.delete rid (st_requests st)\<rparr>)"
      by (intro keeps_delete) (auto simp: map_ok_def)
    moreover have "keeps s (st_update r (\<lambda>o'. o'\<lparr>ob_applied := ob_applied o' @ [is]\<rparr>) s)" for s
      by (rule keeps_update) simp_all
    ultimately show ?thesis using sync Some req
      by (auto simp: st_finishSync_def Let_def split: if_splits intro: keeps_trans)
  next
    case False
    with sync Some show ?thesis
      by (auto simp: st_finishSync_def Let_def split: if_splits prod.splits request_data.splits option.splits served.splits)
  qed
qed (simp add: st_finishSync_def)

section \<open>Operations on the table\<close>

lemma instances_update [simp]:
  "st_instances j (st\<lparr>st_objects := AList.update i rs (st_objects s)\<rparr>) =
   (if j = i then rs else st_instances j (st\<lparr>st_objects := st_objects s\<rparr>))"
  by (simp add: st_instances_def update_conv')

lemma instances_delete [simp]:
  "st_instances j (st\<lparr>st_objects := AList.delete i (st_objects s)\<rparr>) =
   (if j = i then [] else st_instances j (st\<lparr>st_objects := st_objects s\<rparr>))"
  by (simp add: st_instances_def delete_conv')

lemma instances_cong: "st_objects s = st_objects t \<Longrightarrow> st_instances j s = st_instances j t"
  by (simp add: st_instances_def)

lemma ob_attach_fields [simp]: "ob_id (ob_attach i x o') = i" "ob_instanceID (ob_attach i x o') = x"
  by (simp_all add: ob_attach_def Let_def)

lemma ob_detach_fields [simp]: "ob_id (ob_detach o') = ob_id o'" "ob_instanceID (ob_detach o') = CO_INSTANCE_INVALID"
  by (simp_all add: ob_detach_def)

lemma ob_attached_simps [simp]:
  "ob_isAttached (ob_attach i x o') \<longleftrightarrow> x \<noteq> CO_INSTANCE_INVALID" "\<not> ob_isAttached (ob_detach o')"
  by (simp_all add: ob_isAttached_def)

lemma ob_setup_fields [simp]:
  "ob_id (ob_setupChangeManager G P type m l inst o') = ob_id o'"
  "ob_instanceID (ob_setupChangeManager G P type m l inst o') = ob_instanceID o'"
  by (simp_all add: ob_setupChangeManager_def Let_def)

lemma keeps_setup [inv_intros]: "keeps st (st_update r (ob_setupChangeManager G P type m l inst) st)"
  by (rule keeps_update) simp_all

lemma less_inc: "a < b \<Longrightarrow> a < a + (1 :: 'a::len word)"
  by (metis (no_types, lifting) add_cancel_left_right inc_i leI nless_le olen_add_eqv word_less_1)

lemma valid_instance: "x \<le> m \<Longrightarrow> m < CO_INSTANCE_NONE \<Longrightarrow> x \<noteq> CO_INSTANCE_INVALID"
proof -
  have "CO_INSTANCE_NONE < CO_INSTANCE_INVALID" by (simp add: CO_INSTANCE_NONE_def CO_INSTANCE_INVALID_def)
  then show "x \<le> m \<Longrightarrow> m < CO_INSTANCE_NONE \<Longrightarrow> x \<noteq> CO_INSTANCE_INVALID" by order
qed

text \<open>An identifier below the largest one is simply the next number.\<close>

lemma genNextID_next:
  assumes "val + 0x7FFFFFFF < instanceMax"
  shows "genNextID instanceMax val = (val + 0x7FFFFFFF + 1, val + 1)"
proof -
  have "val + 0x7FFFFFFF + 1 \<le> instanceMax" using assms by (rule inc_le)
  then have "\<not> val + 1 + 0x7FFFFFFF > instanceMax" by (simp add: algebra_simps)
  then show ?thesis by (subst genNextID.simps) (simp add: Let_def)
qed

lemma table_ok_attach:
  assumes ok: "table_ok st" and r: "\<not> ob_isAttached (st_object st r)" and x: "x \<noteq> CO_INSTANCE_INVALID"
    and object: "st_object st' = (st_object st)(r := ob_attach i x (st_object st r))"
    and objects: "st_objects st' = AList.update i (st_instances i st @ [r]) (st_objects st)"
  shows "table_ok st'"
proof -
  have inst: "st_instances j st' = (if j = i then st_instances i st @ [r] else st_instances j st)" for j
    by (simp add: st_instances_def objects update_conv')
  have new: "r \<notin> set (st_instances j st)" for j using ok r by (auto simp: table_ok_def)
  have attached: "ob_isAttached (st_object st' r') \<longleftrightarrow> r' = r \<or> ob_isAttached (st_object st r')" for r'
    using x by (simp add: object ob_isAttached_def)
  have "distinct (map fst (st_objects st'))" using ok by (simp add: objects table_ok_def distinct_update)
  moreover have "map_of (st_objects st') j \<noteq> Some []" for j
    using ok by (auto simp: objects table_ok_def update_conv')
  moreover have "distinct (st_instances j st')" for j using ok new by (simp add: inst table_ok_def)
  moreover have "r' \<in> set (st_instances j st') \<longleftrightarrow> ob_isAttached (st_object st' r') \<and> ob_id (st_object st' r') = j" for j r'
    using ok new r x by (auto simp: inst attached table_ok_def object)
  ultimately show ?thesis by (simp add: table_ok_def)
qed

lemma table_ok_detach:
  assumes ok: "table_ok st" and r: "ob_isAttached (st_object st r)" and i: "i = ob_id (st_object st r)"
    and object: "st_object st' = (st_object st)(r := ob_detach (st_object st r))"
    and objects: "st_objects st' = (let rs = remove1 r (st_instances i st)
      in if rs = [] then AList.delete i (st_objects st) else AList.update i rs (st_objects st))"
  shows "table_ok st'"
proof -
  have inst: "st_instances j st' = (if j = i then remove1 r (st_instances i st) else st_instances j st)" for j
    by (auto simp: st_instances_def objects update_conv' delete_conv' Let_def)
  have attached: "ob_isAttached (st_object st' r') \<longleftrightarrow> r' \<noteq> r \<and> ob_isAttached (st_object st r')" for r'
    by (simp add: object ob_isAttached_def)
  have "distinct (map fst (st_objects st'))" using ok by (simp add: objects table_ok_def distinct_update distinct_delete Let_def)
  moreover have "map_of (st_objects st') j \<noteq> Some []" for j
    using ok by (auto simp: objects table_ok_def update_conv' delete_conv' Let_def)
  moreover have "distinct (st_instances j st')" for j using ok by (simp add: inst table_ok_def)
  moreover have "r' \<in> set (st_instances j st') \<longleftrightarrow> ob_isAttached (st_object st' r') \<and> ob_id (st_object st' r') = j" for j r'
    using ok i by (auto simp: inst attached table_ok_def object)
  ultimately show ?thesis by (simp add: table_ok_def)
qed

text \<open>Identifiers stay unique when attached objects only go, or hand theirs over.\<close>

lemma ids_ok_rename:
  assumes ids: "ids_ok C st ps" and "st_instanceIDs st' = st_instanceIDs st"
    and inj: "inj_on g {r. ob_isAttached (st_object st' r)}"
    and g: "\<And>r. ob_isAttached (st_object st' r) \<Longrightarrow>
      ob_isAttached (st_object st (g r)) \<and> ob_instanceID (st_object st' r) = ob_instanceID (st_object st (g r))"
  shows "ids_ok C st' ps"
proof -
  have last: "st_lastID st' = st_lastID st" using assms(2) by (simp add: st_lastID_def)
  have g': "ob_isAttached (st_object st (g r)) \<and> st_instanceOf st' r = st_instanceOf st (g r)"
    if "ob_isAttached (st_object st' r)" for r using g [OF that] by (simp add: st_instanceOf_def)
  have "inj_on (st_instanceOf st') {r. ob_isAttached (st_object st' r)}"
  proof (rule inj_onI, unfold mem_Collect_eq)
    fix r r'
    assume r: "ob_isAttached (st_object st' r)" "ob_isAttached (st_object st' r')" "st_instanceOf st' r = st_instanceOf st' r'"
    then have "st_instanceOf st (g r) = st_instanceOf st (g r')" using g' by simp
    then have "g r = g r'" using ids g' r(1,2) by (auto simp: ids_ok_def dest: inj_onD)
    then show "r = r'" using inj_onD [OF inj] r(1,2) by simp
  qed
  then show ?thesis using ids g' by (simp add: ids_ok_def last)
qed

lemma ids_ok_detach:
  assumes "ids_ok C st ps" and "st_instanceIDs st' = st_instanceIDs st"
    and "\<And>r. ob_isAttached (st_object st' r) \<Longrightarrow>
      ob_isAttached (st_object st r) \<and> ob_instanceID (st_object st' r) = ob_instanceID (st_object st r)"
  shows "ids_ok C st' ps"
  using assms(3) by (intro ids_ok_rename [OF assms(1,2), of "\<lambda>r. r"]) auto

lemma requests_ok_detach:
  assumes "requests_ok st ps" and "st_requests st' = st_requests st" and "st_node st' = st_node st"
    and "\<And>r. no_pending r ps \<or> (ob_isAttached (st_object st' r) \<longrightarrow> ob_isAttached (st_object st r))"
  shows "requests_ok st' ps"
proof -
  have "map_ok st' r c = map_ok st r c" for r c using assms(2) by (simp add: map_ok_def st_getRequest_def)
  moreover have "\<not> ob_isAttached (st_object st' r)" if "PendingMap r c False \<in> set ps" for r c
    using assms(1) assms(4) [of r] that by (force simp: requests_ok_def no_pending_def)
  ultimately show ?thesis using assms(1,3) by (auto simp: requests_ok_def)
qed

lemma st_detach_eqs:
  assumes "ob_isAttached (st_object st r)"
  shows "st_object (st_detach r st) = (st_object st)(r := ob_detach (st_object st r))"
    and "st_objects (st_detach r st) = (let rs = remove1 r (st_instances (ob_id (st_object st r)) st)
      in if rs = [] then AList.delete (ob_id (st_object st r)) (st_objects st)
         else AList.update (ob_id (st_object st r)) rs (st_objects st))"
    and "st_requests (st_detach r st) = st_requests st" and "st_node (st_detach r st) = st_node st"
    and "st_instanceIDs (st_detach r st) = st_instanceIDs st" and "st_instanceCache (st_detach r st) = st_instanceCache st"
  using assms by (simp_all add: st_detach_def Let_def st_update_def st_instances_def)

lemma store_inv_detach:
  assumes inv: "store_inv C (st, ps)"
  shows "store_inv C (st_detach r st, ps)"
proof (cases "ob_isAttached (st_object st r)")
  case True
  note eqs = st_detach_eqs [OF True]
  have a: "ob_isAttached (st_object st r') \<and> ob_instanceID (st_object (st_detach r st) r') = ob_instanceID (st_object st r')"
    if "ob_isAttached (st_object (st_detach r st) r')" for r'
    using that by (cases "r' = r") (auto simp: eqs ob_isAttached_def)
  have "table_ok (st_detach r st)"
    using inv by (intro table_ok_detach [OF _ True refl eqs(1,2)]) (simp add: store_inv_def)
  moreover have "ids_ok C (st_detach r st) ps"
    by (rule ids_ok_detach [OF _ eqs(5) a]) (use inv in \<open>simp_all add: store_inv_def\<close>)
  moreover have "requests_ok (st_detach r st) ps"
    by (rule requests_ok_detach [OF _ eqs(3,4)]) (use inv a in \<open>auto simp: store_inv_def\<close>)
  moreover have "pins_ok (st_detach r st) ps"
    using inv eqs(6) by (simp add: store_inv_def pins_ok_def)
  ultimately show ?thesis by (simp add: store_inv_def)
next
  case False
  with inv show ?thesis by (simp add: st_detach_def)
qed

lemma fold_update:
  "distinct rs \<Longrightarrow> fold (\<lambda>r. st_update r f) rs st =
     st\<lparr>st_object := \<lambda>r. if r \<in> set rs then f (st_object st r) else st_object st r\<rparr>"
proof (induction rs arbitrary: st)
  case (Cons x rs)
  then show ?case by (auto simp: st_update_def fun_eq_iff intro!: arg_cong [where f = "\<lambda>h. st\<lparr>st_object := h\<rparr>"])
qed simp

lemma table_ok_unmap:
  assumes ok: "table_ok st" and rs: "map_of (st_objects st) i = Some rs"
    and object: "st_object st' = (\<lambda>r. if r \<in> set rs then ob_detach (st_object st r) else st_object st r)"
    and objects: "st_objects st' = AList.delete i (st_objects st)"
  shows "table_ok st'"
proof -
  have inst: "st_instances j st' = (if j = i then [] else st_instances j st)" for j
    by (simp add: st_instances_def objects delete_conv')
  have "st_instances i st = rs" using rs by (simp add: st_instances_def)
  then have mem: "r \<in> set rs \<longleftrightarrow> ob_isAttached (st_object st r) \<and> ob_id (st_object st r) = i" for r
    using ok by (auto simp: table_ok_def)
  have "distinct (map fst (st_objects st'))" using ok by (simp add: objects table_ok_def distinct_delete)
  moreover have "map_of (st_objects st') j \<noteq> Some []" for j
    using ok by (auto simp: objects table_ok_def delete_conv')
  moreover have "distinct (st_instances j st')" for j using ok by (simp add: inst table_ok_def)
  moreover have "r \<in> set (st_instances j st') \<longleftrightarrow> ob_isAttached (st_object st' r) \<and> ob_id (st_object st' r) = j" for j r
    using ok mem by (auto simp: inst table_ok_def object)
  ultimately show ?thesis by (simp add: table_ok_def)
qed

lemma store_inv_unmapCommand:
  assumes inv: "store_inv C (st, ps)"
  shows "store_inv C (st_cmdUnmap i st, ps)"
proof -
  define s where "s = st_onCache (\<lambda>c. snd (ic_erase i c)) st"
  have inv: "store_inv C (s, ps)" using store_inv_keeps [OF inv keeps_erase] by (simp add: s_def)
  show ?thesis
  proof (cases "map_of (st_objects s) i")
    case None
    with inv show ?thesis by (simp add: st_cmdUnmap_def Let_def s_def)
  next
    case (Some rs)
    let ?h = "\<lambda>r. if r \<in> set rs then ob_detach (st_object s r) else st_object s r"
    let ?s = "s\<lparr>st_objects := AList.delete i (st_objects s), st_object := ?h\<rparr>"
    have "distinct rs" using inv Some by (auto simp: store_inv_def table_ok_def st_instances_def dest: spec [of _ i])
    then have eq: "st_cmdUnmap i st = ?s"
      using Some by (simp add: st_cmdUnmap_def Let_def fold_update cong: if_cong flip: s_def)
    have a: "ob_isAttached (st_object s r) \<and> ob_instanceID (st_object ?s r) = ob_instanceID (st_object s r)"
      if "ob_isAttached (st_object ?s r)" for r using that by (cases "r \<in> set rs") auto
    have "table_ok ?s" by (rule table_ok_unmap [OF _ Some]) (use inv in \<open>simp_all add: store_inv_def\<close>)
    moreover have "ids_ok C ?s ps" by (rule ids_ok_detach [OF _ _ a]) (use inv in \<open>simp_all add: store_inv_def\<close>)
    moreover have "requests_ok ?s ps" by (rule requests_ok_detach [of s]) (use inv a in \<open>auto simp: store_inv_def\<close>)
    moreover have "pins_ok ?s ps" using inv by (simp add: store_inv_def pins_ok_def)
    ultimately show ?thesis by (simp add: store_inv_def eq)
  qed
qed

lemma store_inv_swap:
  assumes inv: "store_inv C (st, ps)" and ne: "old \<noteq> new" and new: "\<not> ob_isAttached (st_object st new)"
    and idle: "no_pending new ps"
  shows "store_inv C (st_swap old new st, ps)"
proof (cases "ob_isAttached (st_object st old)")
  case True
  define i where "i = ob_id (st_object st old)"
  have tab: "table_ok st" using inv by (simp add: store_inv_def)
  have old: "old \<in> set (st_instances i st)" using tab True by (simp add: table_ok_def i_def)
  then obtain rs where rs: "map_of (st_objects st) i = Some rs" "st_instances i st = rs" "old \<in> set rs"
    by (cases "map_of (st_objects st) i") (auto simp: st_instances_def)
  obtain xs ys where split: "rs = xs @ old # ys" "old \<notin> set xs" using split_list_first [OF rs(3)] by blast
  have dist: "distinct rs" using tab rs(2) by (auto simp: table_ok_def)
  let ?n = "fst (ob_transfer (st_object st new) (st_object st old))"
  let ?o = "snd (ob_transfer (st_object st new) (st_object st old))"
  let ?s = "st\<lparr>st_object := (st_object st)(old := ?o, new := ?n), st_objects := AList.update i (xs @ new # ys) (st_objects st)\<rparr>"
  have cut: "takeWhile (\<lambda>r. r \<noteq> old) rs = xs" "tl (dropWhile (\<lambda>r. r \<noteq> old) rs) = ys"
    using split by (auto simp: takeWhile_append dropWhile_append)
  have eq: "st_swap old new st = ?s"
    using True rs(1,3) by (simp add: st_swap_def Let_def cut flip: i_def split: prod.splits)
  have fields: "ob_id ?n = i" "ob_instanceID ?n = ob_instanceID (st_object st old)" "\<not> ob_isAttached ?o" "ob_isAttached ?n"
    using True by (simp_all add: ob_transfer_def i_def ob_isAttached_def)
  have attached: "ob_isAttached (st_object ?s r) \<longleftrightarrow> r = new \<or> (r \<noteq> old \<and> ob_isAttached (st_object st r))" for r
    using fields by simp
  have inst: "st_instances j ?s = (if j = i then xs @ new # ys else st_instances j st)" for j
    by (simp add: st_instances_def update_conv')
  have mem: "r \<in> set (st_instances j st) \<longleftrightarrow> ob_isAttached (st_object st r) \<and> ob_id (st_object st r) = j" for r j
    using tab by (simp add: table_ok_def)
  have fresh: "new \<notin> set rs" using mem [of new i] new rs(2) by simp
  have "table_ok ?s"
    unfolding table_ok_def attached inst
  proof (intro conjI allI)
    show "distinct (map fst (st_objects ?s))" using tab by (simp add: table_ok_def distinct_update)
    show "map_of (st_objects ?s) j \<noteq> Some []" for j using tab by (auto simp: table_ok_def update_conv')
    show "distinct (if j = i then xs @ new # ys else st_instances j st)" for j
      using tab dist fresh split by (auto simp: table_ok_def)
    show "(r \<in> set (if j = i then xs @ new # ys else st_instances j st)) =
      ((r = new \<or> r \<noteq> old \<and> ob_isAttached (st_object st r)) \<and> ob_id (st_object ?s r) = j)" for j r
      using mem [of r j] mem [of r i] fields(1) split dist rs(2) fresh ne new True by (auto simp: i_def)
  qed
  moreover have "ids_ok C ?s ps"
  proof -
    let ?g = "\<lambda>r. if r = new then old else r"
    have at: "r = new \<or> (r \<noteq> old \<and> ob_isAttached (st_object st r))" if "ob_isAttached (st_object ?s r)" for r
      using that unfolding attached .
    have inj: "inj_on ?g {r. ob_isAttached (st_object ?s r)}" using at by (auto simp: inj_on_def simp del: fun_upd_apply)
    show ?thesis
      by (rule ids_ok_rename [OF _ _ inj]) (use inv fields True in \<open>auto simp: store_inv_def dest!: at\<close>)
  qed
  moreover have "requests_ok ?s ps"
    by (rule requests_ok_detach [of st]) (use inv idle attached in \<open>auto simp: store_inv_def\<close>)
  moreover have "pins_ok ?s ps" using inv by (simp add: store_inv_def pins_ok_def)
  ultimately show ?thesis by (simp add: store_inv_def eq)
next
  case False
  with inv show ?thesis by (simp add: st_swap_def)
qed

section \<open>Attaching\<close>

lemma ids_ok_attach:
  assumes ids: "ids_ok C st ps" and r: "\<not> ob_isAttached (st_object st r)" and x: "x \<noteq> CO_INSTANCE_INVALID"
    and object: "st_object st' = (st_object st)(r := ob_attach i x (st_object st r))"
    and last: "st_lastID st \<le> st_lastID st'" "st_lastID st' \<le> sc_instanceMax C" "x \<le> st_lastID st'"
    and free: "\<And>r'. ob_isAttached (st_object st r') \<Longrightarrow> st_instanceOf st r' \<noteq> x"
    and waits: "\<And>p. p \<in> set ps' \<Longrightarrow> pd_waits p \<Longrightarrow> p \<in> set ps \<and> mc_instanceID (pd_command p) \<noteq> x"
    and dist: "distinct (map (\<lambda>p. mc_instanceID (pd_command p)) (filter pd_waits ps'))"
  shows "ids_ok C st' ps'"
proof -
  have inst: "st_instanceOf st' r' = (if r' = r then x else st_instanceOf st r')" for r'
    by (simp add: object st_instanceOf_def)
  have attached: "ob_isAttached (st_object st' r') \<longleftrightarrow> r' = r \<or> ob_isAttached (st_object st r')" for r'
    using x by (simp add: object)
  have inj: "inj_on (st_instanceOf st) {r. ob_isAttached (st_object st r)}"
    and bound: "ob_isAttached (st_object st r') \<Longrightarrow> st_instanceOf st r' \<le> st_lastID st'" for r'
    using ids last(1) by (auto simp: ids_ok_def intro: order_trans)
  have "inj_on (st_instanceOf st') {r. ob_isAttached (st_object st' r)}"
    using inj free by (auto simp: inj_on_def inst attached)
  moreover have "st_instanceOf st' r' \<le> st_lastID st'" if "ob_isAttached (st_object st' r')" for r'
    using that bound last(3) by (auto simp: inst attached)
  moreover have "mc_instanceID (pd_command p) \<le> st_lastID st'" if "p \<in> set ps'" "pd_waits p" for p
    using waits [OF that] that ids last(1) by (meson ids_ok_def order_trans)
  moreover have "st_instanceOf st' r' \<noteq> mc_instanceID (pd_command p)"
    if "p \<in> set ps'" "pd_waits p" "ob_isAttached (st_object st' r')" for p r'
    using waits [OF that(1,2)] that ids by (auto simp: inst attached ids_ok_def)
  ultimately show ?thesis using last(2) dist by (simp add: ids_ok_def)
qed

lemma st_attach_eqs:
  assumes "(if inst = CO_INSTANCE_INVALID then genNextID (sc_instanceMax C) (st_instanceIDs st)
    else (inst, st_instanceIDs st)) = (x, val)"
  shows "st_object (st_attach C r i inst st) = (st_object st)(r := ob_attach i x (st_object st r))"
    and "st_objects (st_attach C r i inst st) = AList.update i (st_instances i st @ [r]) (st_objects st)"
    and "st_requests (st_attach C r i inst st) = st_requests st" and "st_node (st_attach C r i inst st) = st_node st"
    and "st_instanceIDs (st_attach C r i inst st) = val" and "st_instanceCache (st_attach C r i inst st) = st_instanceCache st"
  unfolding st_attach_def assms by (simp_all add: Let_def st_update_def st_instances_def)

lemma store_inv_attach_new:
  assumes inv: "store_inv C (st, ps)" and r: "\<not> ob_isAttached (st_object st r)" and idle: "no_pending r ps"
    and last: "st_lastID st < sc_instanceMax C" and max: "sc_instanceMax C < CO_INSTANCE_NONE"
  shows "store_inv C (st_attach C r i CO_INSTANCE_INVALID st, ps)"
proof -
  let ?s = "st_attach C r i CO_INSTANCE_INVALID st" and ?x = "st_lastID st + 1"
  have gen: "(if CO_INSTANCE_INVALID = CO_INSTANCE_INVALID then genNextID (sc_instanceMax C) (st_instanceIDs st)
      else (CO_INSTANCE_INVALID, st_instanceIDs st)) = (?x, st_instanceIDs st + 1)"
    using genNextID_next last by (simp add: st_lastID_def)
  note eqs = st_attach_eqs [OF gen, of r i]
  have lastID: "st_lastID ?s = ?x" by (simp add: st_lastID_def eqs algebra_simps)
  have le: "?x \<le> sc_instanceMax C" using last by (rule inc_le)
  have less: "st_lastID st < ?x" using last by (rule less_inc)
  have x: "?x \<noteq> CO_INSTANCE_INVALID" using le max by (rule valid_instance)
  have tab: "table_ok st" and ids: "ids_ok C st ps" and reqs: "requests_ok st ps" using inv by (simp_all add: store_inv_def)
  have "table_ok ?s" by (rule table_ok_attach [OF tab r x eqs(1,2)])
  moreover have "ids_ok C ?s ps"
  proof (rule ids_ok_attach [OF ids r x eqs(1)])
    show "st_instanceOf st r' \<noteq> ?x" if "ob_isAttached (st_object st r')" for r'
      using ids that less by (auto simp: ids_ok_def)
    show "p \<in> set ps \<and> mc_instanceID (pd_command p) \<noteq> ?x" if "p \<in> set ps" "pd_waits p" for p
      using ids that less by (fastforce simp: ids_ok_def)
  qed (use ids less le in \<open>simp_all add: lastID ids_ok_def\<close>)
  moreover have "requests_ok ?s ps"
    by (rule requests_ok_detach [OF reqs eqs(3,4)]) (use idle in \<open>auto simp: eqs(1)\<close>)
  moreover have "pins_ok ?s ps" using inv by (simp add: store_inv_def pins_ok_def eqs)
  ultimately show ?thesis by (simp add: store_inv_def)
qed

lemma pending_map:
  assumes "store_inv C (st, ps)" and "PendingMap r c b \<in> set ps"
  shows "st_getRequestData (mc_requestID c) st = RequestObject r" and "mc_node c = st_node st"
    and "\<not> b \<Longrightarrow> \<not> ob_isAttached (st_object st r)"
  using assms by (force simp: store_inv_def requests_ok_def map_ok_def st_getRequestData_def)+

lemma pins_flag: "pd_pins i (ps @ PendingMap r c b # ps') = pd_pins i (ps @ PendingMap r c b' # ps')"
  by (simp add: pd_pins_def)

lemma store_inv_attach_waiting:
  assumes inv: "store_inv C (st, ps @ PendingMap r c False # ps')" and max: "sc_instanceMax C < CO_INSTANCE_NONE"
  shows "store_inv C (st_attach C r i (mc_instanceID c) st, ps @ PendingMap r c True # ps')"
proof -
  let ?x = "mc_instanceID c" and ?s = "st_attach C r i (mc_instanceID c) st"
  let ?ps = "ps @ PendingMap r c False # ps'" and ?ps' = "ps @ PendingMap r c True # ps'"
  have tab: "table_ok st" and ids: "ids_ok C st ?ps" and reqs: "requests_ok st ?ps" using inv by (simp_all add: store_inv_def)
  have r: "\<not> ob_isAttached (st_object st r)" using pending_map(3) [OF inv, of r c False] by simp
  have le: "?x \<le> st_lastID st" and last: "st_lastID st \<le> sc_instanceMax C" using ids by (auto simp: ids_ok_def)
  have x: "?x \<noteq> CO_INSTANCE_INVALID" using valid_instance [OF order_trans [OF le last] max] .
  have "(if ?x = CO_INSTANCE_INVALID then genNextID (sc_instanceMax C) (st_instanceIDs st) else (?x, st_instanceIDs st)) =
      (?x, st_instanceIDs st)" using x by simp
  note eqs = st_attach_eqs [OF this, of r i]
  have lastID: "st_lastID ?s = st_lastID st" by (simp add: st_lastID_def eqs)
  have "table_ok ?s" by (rule table_ok_attach [OF tab r x eqs(1,2)])
  moreover have "ids_ok C ?s ?ps'"
  proof (rule ids_ok_attach [OF ids r x eqs(1)])
    show "st_instanceOf st r' \<noteq> ?x" if "ob_isAttached (st_object st r')" for r'
      using ids that by (auto simp: ids_ok_def)
    show "p \<in> set ?ps \<and> mc_instanceID (pd_command p) \<noteq> ?x" if "p \<in> set ?ps'" "pd_waits p" for p
      using ids that by (auto simp: ids_ok_def image_iff)
  qed (use ids le last in \<open>simp_all add: lastID ids_ok_def\<close>)
  moreover have "requests_ok ?s ?ps'"
  proof -
    have m: "map_ok ?s r' c' = map_ok st r' c'" for r' c' by (simp add: map_ok_def st_getRequest_def eqs)
    have "distinct (map pd_object (filter (\<lambda>p. pd_object p \<noteq> None) ?ps))" using reqs unfolding requests_ok_def by blast
    then have "Some r \<notin> pd_object ` (set ps \<union> set ps')" by (auto simp: image_iff)
    then have other: "r' \<noteq> r" if "PendingMap r' c' b \<in> set ps \<union> set ps'" for r' c' b
      using that by (metis image_eqI pd_object.simps(1))
    have "PendingMap r' c' b \<in> set ?ps' \<Longrightarrow> map_ok ?s r' c' \<and> (\<not> b \<longrightarrow> \<not> ob_isAttached (st_object ?s r'))" for r' c' b
      using reqs other by (fastforce simp: requests_ok_def m eqs(1))
    then show ?thesis using reqs by (simp add: requests_ok_def eqs(4))
  qed
  moreover have "pins_ok ?s ?ps'"
    using inv pins_flag [of _ ps r c True ps' False] by (simp add: store_inv_def pins_ok_def eqs cong: option.case_cong)
  ultimately show ?thesis by (simp add: store_inv_def)
qed

lemma store_inv_mapSuccess:
  assumes inv: "store_inv C (st, ps @ PendingMap r c False # ps')" and max: "sc_instanceMax C < CO_INSTANCE_NONE"
  shows "store_inv C (st_cmdMapSuccess G P C (nd_id (mc_node c)) (mc_objectID c) (mc_requestID c) (mc_instanceID c)
    type masterInst st, ps @ PendingMap r c True # ps')"
proof -
  have "PendingMap r c False \<in> set (ps @ PendingMap r c False # ps')" by simp
  note pend = pending_map [OF inv this]
  have "store_inv C (st_update r (ob_setupChangeManager G P type False True masterInst) st, ps @ PendingMap r c False # ps')"
    using inv keeps_setup by (rule store_inv_keeps)
  from store_inv_attach_waiting [OF this max] pend show ?thesis by (simp add: st_cmdMapSuccess_def)
qed

section \<open>Counting the users of cached data\<close>

lemma pins_le: "pd_pins i ps \<le> length ps"
  by (simp add: pd_pins_def)

lemma pins_nonzero:
  assumes "0 < pd_pins i ps" and "length ps \<le> 2 ^ 31"
  shows "(of_nat (pd_pins i ps) :: uint32) \<noteq> 0"
proof -
  have "pd_pins i ps < 2 ^ 32" using assms(2) pins_le [of i ps] by simp
  then have "unat (of_nat (pd_pins i ps) :: uint32) = pd_pins i ps" by (simp add: unat_of_nat)
  with assms(1) show ?thesis by (metis unat_0 less_irrefl)
qed

lemma pins_cons:
  "pd_pins i (ps @ p # ps') =
     (if mc_useCache (pd_command p) \<and> mc_objectID (pd_command p) = i then 1 else 0) + pd_pins i (ps @ ps')"
  by (simp add: pd_pins_def)

text \<open>A request that uses cached data finds it in the cache.\<close>

lemma pinned_present:
  assumes "pins_ok st (ps @ p # ps')" and "mc_useCache (pd_command p)"
  obtains c where "st_instanceCache st = Some c" "ic_inv c" "ic_get c (mc_objectID (pd_command p)) \<noteq> None"
    "\<And>i. ic_pins c i = of_nat (pd_pins i (ps @ p # ps'))"
proof -
  let ?i = "mc_objectID (pd_command p)"
  have pos: "0 < pd_pins ?i (ps @ p # ps')" using assms(2) by (simp add: pins_cons)
  then obtain c where c: "st_instanceCache st = Some c" using assms(1) by (cases "st_instanceCache st") (auto simp: pins_ok_def)
  have pins: "ic_inv c" "\<And>i. ic_pins c i = of_nat (pd_pins i (ps @ p # ps'))" using assms(1) c by (auto simp: pins_ok_def)
  have "ic_pins c ?i \<noteq> 0" using pins_nonzero [OF pos] assms(1) pins(2) by (simp add: pins_ok_def)
  then have "ic_get c ?i \<noteq> None" by (auto simp: ic_pins_def split: option.splits)
  with c pins that show thesis by blast
qed

lemma pins_ok_release:
  assumes ok: "pins_ok st (ps @ p # ps')" and use: "mc_useCache (pd_command p)" and i: "i = mc_objectID (pd_command p)"
  shows "pins_ok (st_releaseCache E i 1 st) (ps @ ps')"
proof -
  from ok use obtain c where c: "st_instanceCache st = Some c" "ic_inv c" "ic_get c i \<noteq> None"
    "\<And>j. ic_pins c j = of_nat (pd_pins j (ps @ p # ps'))" using i by (auto elim: pinned_present)
  have "ic_pins (snd (ic_release (ce_target E) (ce_order1 E) i 1 c)) j = of_nat (pd_pins j (ps @ ps'))" for j
    using c use i by (auto simp: pins_release pins_cons)
  then show ?thesis
    using ok c ic_release_inv [OF c(2)] by (simp add: pins_ok_def st_releaseCache_def st_onCache_def)
qed

lemma pins_ok_drop: "pins_ok st (ps @ p # ps') \<Longrightarrow> \<not> mc_useCache (pd_command p) \<Longrightarrow> pins_ok st (ps @ ps')"
  by (auto simp: pins_ok_def pins_cons split: option.splits)

lemma pins_ok_append:
  "pins_ok st ps \<Longrightarrow> length ps < 2 ^ 31 \<Longrightarrow> \<not> mc_useCache (pd_command p) \<Longrightarrow> pins_ok st (ps @ [p])"
  using pins_cons [of _ ps p "[]"] by (auto simp: pins_ok_def split: option.splits)

text \<open>The replies that use the cache look it up once more and release twice.\<close>

lemma pins_relookup:
  assumes ok: "pins_ok st (ps @ p # ps')" and use: "mc_useCache (pd_command p)" and i: "i = mc_objectID (pd_command p)"
    and c: "st_instanceCache st = Some c"
  shows "\<exists>m vs. fst (ic_lookup i c) = Some (m, vs)"
    and "pins_ok (st_releaseCache E i 2 (st\<lparr>st_instanceCache := Some (snd (ic_lookup i c))\<rparr>)) (ps @ ps')"
proof -
  have c': "ic_inv c" "ic_get c i \<noteq> None" "\<And>j. ic_pins c j = of_nat (pd_pins j (ps @ p # ps'))"
    using pinned_present [OF ok use] c i by auto
  show "\<exists>m vs. fst (ic_lookup i c) = Some (m, vs)" using c'(2) by (auto simp: ic_lookup_def)
  let ?c = "snd (ic_lookup i c)"
  have inv: "ic_inv ?c" using ic_lookup_inv [OF c'(1)] by simp
  have get: "ic_get ?c i \<noteq> None" using c'(2) by (auto simp: ic_lookup_def update_conv')
  have "ic_pins (snd (ic_release (ce_target E) (ce_order1 E) i 2 ?c)) j = of_nat (pd_pins j (ps @ ps'))" for j
    unfolding pins_release [OF inv] using c' use i get by (auto simp: pins_lookup pins_cons)
  then show "pins_ok (st_releaseCache E i 2 (st\<lparr>st_instanceCache := Some ?c\<rparr>)) (ps @ ps')"
    using ok ic_release_inv [OF inv] by (simp add: pins_ok_def st_releaseCache_def st_onCache_def)
qed

lemma check_pins:
  assumes ok: "pins_ok st ps" and len: "length ps < 2 ^ 31" and check: "st_checkInstanceCache i st = ((u, a, b, m), st')"
    and p: "mc_useCache (pd_command p) = u" "mc_objectID (pd_command p) = i"
  shows "pins_ok st' (ps @ [p])" and "\<exists>c. st' = st\<lparr>st_instanceCache := c\<rparr>"
proof -
  show "\<exists>c. st' = st\<lparr>st_instanceCache := c\<rparr>"
  proof (cases "st_instanceCache st")
    case None
    with check have "st' = st\<lparr>st_instanceCache := None\<rparr>" by (simp add: st_checkInstanceCache_def)
    then show ?thesis by blast
  qed (use check in \<open>auto simp: st_checkInstanceCache_def split: option.splits prod.splits\<close>)
  show "pins_ok st' (ps @ [p])"
  proof (cases "st_instanceCache st")
    case None
    with check p have "st' = st" "\<not> mc_useCache (pd_command p)" by (auto simp: st_checkInstanceCache_def)
    with ok len show ?thesis by (simp add: pins_ok_append)
  next
    case (Some c)
    have inv: "ic_inv (snd (ic_lookup i c))" using ok Some ic_lookup_inv by (simp add: pins_ok_def)
    have st': "st' = st\<lparr>st_instanceCache := Some (snd (ic_lookup i c))\<rparr>" and u: "u \<longleftrightarrow> ic_get c i \<noteq> None"
      using check Some by (auto simp: st_checkInstanceCache_def ic_lookup_def split: option.splits prod.splits)
    have "ic_pins (snd (ic_lookup i c)) j = of_nat (pd_pins j (ps @ [p]))" for j
      using ok Some p u pins_cons [of j ps p "[]"] by (auto simp: pins_ok_def pins_lookup)
    with inv len show ?thesis by (simp add: st' pins_ok_def)
  qed
qed

lemma table_ok_cong: "st_objects st' = st_objects st \<Longrightarrow> st_object st' = st_object st \<Longrightarrow> table_ok st' = table_ok st"
  using instances_cong [of st' st] by (simp add: table_ok_def)

lemma ids_ok_draw:
  assumes ids: "ids_ok C st ps" and last: "st_lastID st < sc_instanceMax C"
    and st': "st_instanceIDs st' = st_instanceIDs st + 1" "st_object st' = st_object st"
    and c: "mc_instanceID c = st_lastID st + 1"
  shows "ids_ok C st' (ps @ [PendingMap r c False])"
proof -
  have lastID: "st_lastID st' = st_lastID st + 1" by (simp add: st_lastID_def st' algebra_simps)
  have less: "st_lastID st < st_lastID st + 1" using last by (rule less_inc)
  have le: "st_lastID st + 1 \<le> sc_instanceMax C" using last by (rule inc_le)
  have inst: "st_instanceOf st' = st_instanceOf st" by (rule ext) (simp add: st_instanceOf_def st')
  have old: "x < st_lastID st + 1" if "x \<le> st_lastID st" for x using that less by order
  have "st_instanceOf st r' < st_lastID st + 1" if "ob_isAttached (st_object st r')" for r'
    using ids that old by (simp add: ids_ok_def)
  moreover have w: "mc_instanceID (pd_command p) < st_lastID st + 1" if "p \<in> set ps" "pd_waits p" for p
    using ids that old by (simp add: ids_ok_def)
  moreover have "distinct (map (\<lambda>p. mc_instanceID (pd_command p)) (filter pd_waits (ps @ [PendingMap r c False])))"
    using ids w c by (force simp: ids_ok_def)
  ultimately show ?thesis
    using ids le c by (auto simp: ids_ok_def lastID inst st' less_imp_le dest: less_imp_neq)
qed

lemma requests_ok_append_map:
  assumes "requests_ok st ps" and "map_ok st r c" and "\<not> ob_isAttached (st_object st r)" and "mc_node c = st_node st"
    and "\<And>p. p \<in> set ps \<Longrightarrow> pd_object p \<noteq> None \<longrightarrow> mc_requestID (pd_command p) \<noteq> mc_requestID c" and "no_pending r ps"
  shows "requests_ok st (ps @ [PendingMap r c False])"
proof -
  have "mc_requestID c \<notin> (\<lambda>p. mc_requestID (pd_command p)) ` set (filter (\<lambda>p. pd_object p \<noteq> None) ps)"
    using assms(5) by (auto simp: image_iff) metis
  moreover have "Some r \<notin> pd_object ` set (filter (\<lambda>p. pd_object p \<noteq> None) ps)"
    using assms(6) by (auto simp: no_pending_def image_iff)
  ultimately show ?thesis using assms(1-4) unfolding requests_ok_def by auto
qed

lemma store_inv_map:
  assumes inv: "store_inv C (st, ps)" and map: "st_mapNB C rid r i v m st = (Some q, st', [SendMap n c])"
    and new: "fresh_request rid st" and idle: "no_pending r ps" and last: "st_lastID st < sc_instanceMax C"
    and len: "length ps < 2 ^ 31"
  shows "store_inv C (st', ps @ [PendingMap r c False])"
proof -
  let ?s = "st_registerRequest rid (RequestObject r) st" and ?p = "PendingMap r c False"
  obtain u a b mi s2 where check: "st_checkInstanceCache i ?s = ((u, a, b, mi), s2)" by (metis prod_cases4 surj_pair)
  have invs: "store_inv C (?s, ps)" using inv keeps_register_request [OF new] by (rule store_inv_keeps)
  obtain x val where gen: "genNextID (sc_instanceMax C) (st_instanceIDs s2) = (x, val)" by fastforce
  have pre: "\<not> ob_isAttached (st_object st r)" and x: "mc_instanceID c = x" and st': "st' = s2\<lparr>st_instanceIDs := val\<rparr>"
    and c: "mc_useCache c = u" "mc_objectID c = i" "mc_requestID c = rid" "mc_node c = st_node s2"
    using map check gen by (auto simp: st_mapNB_def split: option.splits if_splits)
  have pins: "pins_ok s2 (ps @ [?p])" and "\<exists>x. s2 = ?s\<lparr>st_instanceCache := x\<rparr>"
    using check_pins [OF _ len check, of ?p] invs c by (auto simp: store_inv_def)
  then obtain ca where s2: "s2 = ?s\<lparr>st_instanceCache := ca\<rparr>" by blast
  have eqs: "st_instanceIDs s2 = st_instanceIDs st" "st_object st' = st_object st" "st_objects st' = st_objects st"
    "st_node st' = st_node st" "st_requests st' = st_requests ?s" "st_instanceCache st' = st_instanceCache s2" "st_node s2 = st_node st"
    by (simp_all add: st' s2 st_registerRequest_def)
  have ids': "mc_instanceID c = st_lastID st + 1" "st_instanceIDs st' = st_instanceIDs st + 1"
    using gen genNextID_next [OF last [unfolded st_lastID_def]] by (simp_all add: x st' eqs(1) st_lastID_def)
  have "table_ok st'" using inv table_ok_cong [OF eqs(3,2)] by (simp add: store_inv_def)
  moreover have "ids_ok C st' (ps @ [?p])"
    using inv by (intro ids_ok_draw [OF _ last ids'(2) eqs(2) ids'(1)]) (simp add: store_inv_def)
  moreover have "pins_ok st' (ps @ [?p])" using pins eqs(6) by (simp add: pins_ok_def)
  moreover have "requests_ok st' (ps @ [?p])"
  proof -
    have reqs: "requests_ok ?s ps" using invs by (simp add: store_inv_def)
    have m: "map_ok st' r' c' = map_ok ?s r' c'" for r' c' by (simp add: map_ok_def st_getRequest_def eqs)
    have old: "mc_requestID c' \<noteq> rid" if "PendingMap r' c' b \<in> set ps" for r' c' b
      using inv new that by (force simp: store_inv_def requests_ok_def map_ok_def st_getRequest_def fresh_request_def)
    have "map_ok ?s r c" by (simp add: map_ok_def st_getRequest_def st_registerRequest_def c(3) update_conv')
    then have "map_ok st' r c" unfolding m .
    moreover have "pd_object p \<noteq> None \<longrightarrow> mc_requestID (pd_command p) \<noteq> mc_requestID c" if "p \<in> set ps" for p
      using old that c(3) by (cases p) auto
    moreover have "requests_ok st' ps"
      using reqs unfolding requests_ok_def m eqs by (simp add: st_registerRequest_def)
    ultimately show ?thesis
      using pre c(4) idle by (intro requests_ok_append_map) (auto simp: eqs)
  qed
  ultimately show ?thesis by (simp add: store_inv_def)
qed

lemma requests_ok_append:
  "requests_ok st ps \<Longrightarrow> mc_node c = st_node st \<Longrightarrow> requests_ok st (ps @ [PendingSync c])"
  by (auto simp: requests_ok_def)

lemma ids_ok_append: "ids_ok C st ps \<Longrightarrow> \<not> pd_waits p \<Longrightarrow> ids_ok C st (ps @ [p])"
  by (auto simp: ids_ok_def)

lemma same_core_cache: "same_core st (st\<lparr>st_instanceCache := c\<rparr>)" "keeps_maps st (st\<lparr>st_instanceCache := c\<rparr>)"
  by (simp_all add: same_core_def keeps_maps_def map_ok_def st_getRequest_def)

text \<open>A change of the cache only, with the counts it leads to.\<close>

lemma store_inv_cache:
  assumes "store_inv C (st, ps)" and "st' = st\<lparr>st_instanceCache := c\<rparr>" and "pins_ok st' ps"
  shows "store_inv C (st', ps)"
  using assms same_core_cache [of st c] table_ok_same ids_ok_same requests_ok_same by (simp add: store_inv_def) blast

lemma store_inv_sync:
  assumes inv: "store_inv C (st, ps)" and sync: "st_startSync C E rid m i inst st = (Some q, st', [SendSync n c])"
    and new: "fresh_request rid st" and len: "length ps < 2 ^ 31"
  shows "store_inv C (st', ps @ [PendingSync c])"
proof -
  let ?s = "st_registerRequest rid (RequestStream od_new) st"
  have invs: "store_inv C (?s, ps)" using inv keeps_register_request [OF new] by (rule store_inv_keeps)
  obtain u a b mi s2 where check: "st_checkInstanceCache i ?s = ((u, a, b, mi), s2)" by (metis prod_cases4 surj_pair)
  define mismatch where "mismatch \<longleftrightarrow> u \<and> inst \<noteq> CO_INSTANCE_ALL \<and> inst \<noteq> mi"
  have st': "st' = (if mismatch then st_releaseCache E i 1 s2 else s2)" and c: "mc_useCache c \<longleftrightarrow> u \<and> \<not> mismatch"
    "mc_objectID c = i" "mc_node c = st_node st'"
    using sync check
    by (auto simp: st_startSync_def mismatch_def Let_def split: option.splits if_splits prod.splits)
  let ?p = "PendingSync (c\<lparr>mc_useCache := u\<rparr>)"
  have pins: "pins_ok s2 (ps @ [?p])" and "\<exists>ca. s2 = ?s\<lparr>st_instanceCache := ca\<rparr>"
    using check_pins [OF _ len check, of ?p] invs c(2) by (auto simp: store_inv_def)
  then obtain ca where s2: "s2 = ?s\<lparr>st_instanceCache := ca\<rparr>" by blast
  have "\<exists>ca. st' = ?s\<lparr>st_instanceCache := ca\<rparr>"
    by (auto simp: st' s2 st_releaseCache_def st_onCache_def)
  then obtain ca' where eq: "st' = ?s\<lparr>st_instanceCache := ca'\<rparr>" by blast
  have "pins_ok st' (ps @ [PendingSync c])"
  proof (cases mismatch)
    case True
    then have "pins_ok st' ps"
      using pins_ok_release [of s2 ps ?p "[]" i E] pins c(2) by (simp add: st' mismatch_def)
    with True c(1) len show ?thesis by (intro pins_ok_append) simp_all
  next
    case False
    then have "c\<lparr>mc_useCache := u\<rparr> = c" using c(1) by simp
    with False pins show ?thesis by (simp add: st')
  qed
  moreover have "table_ok st'" "ids_ok C st' (ps @ [PendingSync c])" "requests_ok st' (ps @ [PendingSync c])"
    using invs same_core_cache [of ?s ca'] c(3) ids_ok_append requests_ok_append table_ok_same ids_ok_same requests_ok_same
    unfolding eq [symmetric] store_inv_def by auto
  ultimately show ?thesis by (simp add: store_inv_def)
qed

text \<open>A reply takes a request off the list.\<close>

lemma distinct_remove: "distinct (map f (filter P (ps @ p # ps'))) \<Longrightarrow> distinct (map f (filter P (ps @ ps')))"
  by (auto split: if_splits)

lemma ids_ok_remove: "ids_ok C st (ps @ p # ps') \<Longrightarrow> ids_ok C st (ps @ ps')"
  unfolding ids_ok_def by (elim conjE, intro conjI) (assumption | erule distinct_remove | simp)+

lemma requests_ok_remove: "requests_ok st (ps @ p # ps') \<Longrightarrow> requests_ok st (ps @ ps')"
  unfolding requests_ok_def by (elim conjE, intro conjI) (simp, simp, erule distinct_remove, erule distinct_remove)

text \<open>Serving the request taken off does not touch those of other pending maps.\<close>

lemma requests_ok_serve:
  assumes reqs: "requests_ok st (ps @ PendingMap r c b # ps')" and keep: "same_core st st'" "st_requests st' = st_requests st"
  shows "requests_ok (st_serveRequest (mc_requestID c) v st') (ps @ ps')"
proof -
  let ?s = "st_serveRequest (mc_requestID c) v st'"
  have core: "same_core st ?s" using keep by (auto simp: same_core_def st_serveRequest_def split: option.splits)
  have "distinct (map (\<lambda>p. mc_requestID (pd_command p)) (filter (\<lambda>p. pd_object p \<noteq> None) (ps @ PendingMap r c b # ps')))"
    using reqs unfolding requests_ok_def by blast
  then have "mc_requestID c \<notin> (\<lambda>p. mc_requestID (pd_command p)) ` {p \<in> set ps \<union> set ps'. pd_object p \<noteq> None}"
    by (auto simp: image_iff)
  then have other: "mc_requestID c' \<noteq> mc_requestID c" if "PendingMap r' c' b' \<in> set (ps @ ps')" for r' c' b'
    using that by (force simp: image_iff)
  have "map_ok ?s r' c'" if "PendingMap r' c' b' \<in> set (ps @ ps')" for r' c' b'
  proof -
    have "map_ok st r' c'" using reqs that by (auto simp: requests_ok_def)
    then show ?thesis using other [OF that]
      by (simp add: map_ok_def st_getRequest_def st_serveRequest_def keep(2) update_conv' split: option.splits)
  qed
  then show ?thesis
    using requests_ok_remove [OF reqs] core by (auto simp: requests_ok_def same_core_attached) (auto simp: same_core_def)
qed

lemma pins_ok_cong: "st_instanceCache s = st_instanceCache t \<Longrightarrow> pins_ok s ps = pins_ok t ps"
  by (simp add: pins_ok_def)

lemma releaseCache_eqs [simp]:
  "st_requests (st_releaseCache E i k st) = st_requests st" "same_core s (st_releaseCache E i k st) = same_core s st"
  "st_instanceCache (st_releaseCache E i k st) =
     map_option (\<lambda>c. snd (ic_release (ce_target E) (ce_order1 E) i k c)) (st_instanceCache st)"
  by (simp_all add: st_releaseCache_def st_onCache_def same_core_def)

lemma update_eqs [simp]:
  "st_requests (st_update r f st) = st_requests st" "st_instanceCache (st_update r f st) = st_instanceCache st"
  by (simp_all add: st_update_def)

lemma same_core_update: "same_core st (st_update r (\<lambda>o'. o'\<lparr>ob_cm := f o'\<rparr>) st)"
  by (simp add: same_core_def st_update_def)

lemma same_core_trans: "same_core a b \<Longrightarrow> same_core b c \<Longrightarrow> same_core a c"
  by (simp add: same_core_def)

lemma addCached_ok:
  assumes ok: "pins_ok st (ps @ p # ps')" and use: "mc_useCache (pd_command p)" and i: "i = mc_objectID (pd_command p)"
  shows "pins_ok (st_addCached E i v r st) (ps @ ps')" and "same_core st (st_addCached E i v r st)"
    and "st_requests (st_addCached E i v r st) = st_requests st"
proof -
  obtain c where c: "st_instanceCache st = Some c" using pinned_present [OF ok use] by blast
  obtain m vs c' where look: "ic_lookup i c = (Some (m, vs), c')"
    using pins_relookup(1) [OF ok use i c] by (metis prod.collapse)
  then have c': "snd (ic_lookup i c) = c'" by simp
  let ?f = "\<lambda>o'. o'\<lparr>ob_cm := cg_addInstanceDatas vs v (ob_cm o')\<rparr>"
  let ?s = "st\<lparr>st_instanceCache := Some c'\<rparr>"
  have eq: "st_addCached E i v r st = st_releaseCache E i 2 (st_update r ?f ?s)"
    by (simp add: st_addCached_def c look)
  show "pins_ok (st_addCached E i v r st) (ps @ ps')"
    using pins_relookup(2) [OF ok use i c, of E, unfolded c'] by (subst pins_ok_cong [of _ "st_releaseCache E i 2 ?s"]) (simp_all add: eq)
  show "same_core st (st_addCached E i v r st)"
    using same_core_trans [OF same_core_cache(1) same_core_update] by (simp add: eq)
  show "st_requests (st_addCached E i v r st) = st_requests st" by (simp add: eq)
qed

lemma setStream_eqs: "same_core st (st_setStream rid f st)" "st_instanceCache (st_setStream rid f st) = st_instanceCache st"
  by (auto simp: st_setStream_def same_core_def split: option.splits request_data.splits)

lemma copyCached_ok:
  assumes ok: "pins_ok st (ps @ p # ps')" and use: "mc_useCache (pd_command p)" and i: "i = mc_objectID (pd_command p)"
  shows "pins_ok (st_copyCached E i rid st) (ps @ ps')" and "same_core st (st_copyCached E i rid st)"
    and "keeps_maps st (st_copyCached E i rid st)"
proof -
  obtain c where c: "st_instanceCache st = Some c" using pinned_present [OF ok use] by blast
  obtain m vs c' where look: "ic_lookup i c = (Some (m, vs), c')"
    using pins_relookup(1) [OF ok use i c] by (metis prod.collapse)
  then have c': "snd (ic_lookup i c) = c'" by simp
  let ?f = "\<lambda>is. od_assign is (last vs)"
  let ?s = "st\<lparr>st_instanceCache := Some c'\<rparr>"
  have eq: "st_copyCached E i rid st = st_releaseCache E i 2 (st_setStream rid ?f ?s)"
    by (simp add: st_copyCached_def c look)
  show "pins_ok (st_copyCached E i rid st) (ps @ ps')"
    using pins_relookup(2) [OF ok use i c, of E, unfolded c'] by (subst pins_ok_cong [of _ "st_releaseCache E i 2 ?s"]) (simp_all add: eq setStream_eqs)
  show "same_core st (st_copyCached E i rid st)"
    using same_core_trans [OF same_core_cache(1) setStream_eqs(1)] by (simp add: eq)
  have "keeps_maps st ?s" by (rule same_core_cache)
  moreover have "keeps_maps ?s (st_setStream rid ?f ?s)" using keeps_setStream unfolding keeps_def by blast
  moreover have "keeps_maps s (st_releaseCache E i 2 s)" for s by (simp add: keeps_maps_def map_ok_def st_getRequest_def)
  ultimately show "keeps_maps st (st_copyCached E i rid st)" unfolding eq keeps_maps_def by blast
qed

lemma store_inv_served:
  assumes inv: "store_inv C (st, ps @ PendingMap r c b # ps')" and core: "same_core st s" "st_requests s = st_requests st"
    and pins: "pins_ok s (ps @ ps')"
  shows "store_inv C (st_serveRequest (mc_requestID c) v s, ps @ ps')"
proof -
  let ?s = "st_serveRequest (mc_requestID c) v s"
  have core': "same_core st ?s" using core by (auto simp: same_core_def st_serveRequest_def split: option.splits)
  have "st_instanceCache ?s = st_instanceCache s" by (simp add: st_serveRequest_def split: option.splits)
  then have "pins_ok ?s (ps @ ps')" using pins pins_ok_cong by blast
  moreover have inv': "table_ok st" "ids_ok C st (ps @ PendingMap r c b # ps')" "requests_ok st (ps @ PendingMap r c b # ps')"
    using inv by (simp_all add: store_inv_def)
  note table_ok_same [OF inv'(1) core'] ids_ok_same [OF ids_ok_remove [OF inv'(2)] core'] requests_ok_serve [OF inv'(3) core]
  ultimately show ?thesis by (simp add: store_inv_def)
qed

lemma store_inv_mapReply:
  assumes inv: "store_inv C (st, ps @ PendingMap r c b # ps')" and use: "useCache \<longrightarrow> mc_useCache c \<and> result"
  shows "store_inv C (st_cmdMapReply E (nd_id (mc_node c)) (mc_objectID c) v (mc_requestID c) result (mc_useCache c)
    useCache from st, ps @ ps')"
proof -
  let ?p = "PendingMap r c b" and ?i = "mc_objectID c"
  have mem: "?p \<in> set (ps @ ?p # ps')" by simp
  note pend = pending_map(1,2) [OF inv mem]
  have pins: "pins_ok st (ps @ ?p # ps')" using inv by (simp add: store_inv_def)
  let ?u = "st_update r (\<lambda>o'. o'\<lparr>ob_cm := cg_setMasterNode from (ob_cm o')\<rparr>) st"
  define s where "s = (if result then ?u else st)"
  have s: "same_core st s" "st_requests s = st_requests st" "pins_ok s (ps @ ?p # ps')"
    using same_core_update pins pins_ok_cong [of ?u st] by (auto simp: s_def same_core_def)
  have eq: "st_cmdMapReply E (nd_id (mc_node c)) ?i v (mc_requestID c) result (mc_useCache c) useCache from st =
    st_serveRequest (mc_requestID c) (ServedVersion v)
      (if useCache then st_addCached E ?i v r s else if mc_useCache c then st_releaseCache E ?i 1 s else s)"
    using use pend by (auto simp: st_cmdMapReply_def s_def Let_def)
  show ?thesis
  proof (cases useCache)
    case True
    then have "mc_useCache (pd_command ?p)" "?i = mc_objectID (pd_command ?p)" using use by simp_all
    note cached = addCached_ok [OF s(3) this, of E v r]
    with True show ?thesis unfolding eq
      using store_inv_served [OF inv same_core_trans [OF s(1) cached(2)] _ cached(1)] s(2) by simp
  next
    case False
    have "pins_ok (if mc_useCache c then st_releaseCache E ?i 1 s else s) (ps @ ps')"
      using s(3) pins_ok_release [OF s(3)] pins_ok_drop [OF s(3)] by simp
    with False show ?thesis unfolding eq using s by (auto intro!: store_inv_served [OF inv])
  qed
qed

lemma store_inv_syncReply:
  assumes inv: "store_inv C (st, ps @ PendingSync c # ps')" and use: "useCache \<longrightarrow> mc_useCache c \<and> result"
  shows "store_inv C (st_cmdSyncReply E (nd_id (mc_node c)) (mc_objectID c) (mc_requestID c) result (mc_useCache c)
    useCache st, ps @ ps')"
proof -
  let ?p = "PendingSync c" and ?i = "mc_objectID c" and ?q = "mc_requestID c"
  have pins: "pins_ok st (ps @ ?p # ps')" and reqs: "requests_ok st (ps @ ?p # ps')" using inv by (simp_all add: store_inv_def)
  have n: "mc_node c = st_node st" using reqs by (auto simp: requests_ok_def)
  define s where "s = (if useCache then st_copyCached E ?i ?q st
    else if mc_useCache c then st_releaseCache E ?i 1 st else st)"
  have maps: "keeps_maps st (st_releaseCache E ?i 1 st)" by (simp add: keeps_maps_def map_ok_def st_getRequest_def)
  have s: "pins_ok s (ps @ ps')" "same_core st s" "keeps_maps st s"
    by (simp_all add: s_def copyCached_ok [OF pins] pins_ok_release [OF pins] pins_ok_drop [OF pins] use maps)
  have "table_ok st" "ids_ok C st (ps @ ?p # ps')" using inv by (simp_all add: store_inv_def)
  then have "store_inv C (s, ps @ ps')"
    using table_ok_same [OF _ s(2)] ids_ok_same [OF ids_ok_remove s(2)] requests_ok_same [OF requests_ok_remove [OF reqs] s(2,3)] s(1)
    by (simp add: store_inv_def)
  moreover have "st_cmdSyncReply E (nd_id (mc_node c)) ?i ?q result (mc_useCache c) useCache st =
      st_serveRequest ?q (ServedBool result) s"
    using use n by (auto simp: st_cmdSyncReply_def s_def)
  ultimately show ?thesis using store_inv_keeps keeps_serve by (metis served.distinct(7))
qed

section \<open>The invariant holds in every reachable state\<close>

lemma keeps_cmdDeregister: "keeps st (st_cmdDeregister rid st)"
  unfolding st_cmdDeregister_def by (auto intro!: keeps_trans [OF _ keeps_serve] inv_intros split: request_data.splits)

lemma store_inv_deregister:
  assumes inv: "store_inv C (st, ps)" and new: "fresh_request rid st"
  shows "store_inv C (fst (st_deregister G P C rid r st), ps)"
proof (cases "ob_isAttached (st_object st r)")
  case True
  let ?s = "if sc_sendQueueSize C > 0 then st_cmdDeregister rid (st_registerRequest rid RequestNone st) else st"
  have "keeps st ?s" using keeps_trans [OF keeps_register_request [OF new] keeps_cmdDeregister] by simp
  with inv have "store_inv C (?s, ps)" by (rule store_inv_keeps)
  then have "store_inv C (st_detach r ?s, ps)" by (rule store_inv_detach)
  then show ?thesis
    using True store_inv_keeps [OF store_inv_keeps [OF _ keeps_setup] keeps_erase] by (simp add: st_deregister_def Let_def)
qed (use inv in \<open>simp add: st_deregister_def Let_def\<close>)

lemma store_inv_unmap:
  assumes inv: "store_inv C (st, ps)" and new: "fresh_request rid st"
  shows "store_inv C (fst (st_unmap G P rid reachable r st), ps)"
proof -
  have "store_inv C (st_update r (ob_setupChangeManager G P CHANGE_NONE False False CO_INSTANCE_INVALID) (st_detach r st), ps)"
    using inv store_inv_keeps store_inv_detach keeps_setup by blast
  moreover have "store_inv C (st_registerRequest rid RequestNone st, ps)"
    using inv keeps_register_request [OF new] by (rule store_inv_keeps)
  ultimately show ?thesis using inv by (simp add: st_unmap_def Let_def split: option.split)
qed

lemma store_inv_register:
  assumes "store_inv C (st, ps)" and "\<not> ob_isAttached (st_object st r)" and "no_pending r ps"
    and "st_lastID st < sc_instanceMax C" and "sc_instanceMax C < CO_INSTANCE_NONE"
  shows "store_inv C (fst (st_register G P C r st), ps)"
proof -
  let ?s = "st_update r (ob_setupChangeManager G P (ob_changeType (st_object st r)) True True CO_INSTANCE_INVALID) st"
  have core: "same_core st ?s" using keeps_setup unfolding keeps_def by blast
  have "store_inv C (?s, ps)" using assms(1) keeps_setup by (rule store_inv_keeps)
  from store_inv_attach_new [OF this _ assms(3) _ assms(5)] show ?thesis
    using assms(2,4) same_core_attached [OF core] same_core_lastID [OF core] by (simp add: st_register_def Let_def)
qed

lemma store_inv_detachCommand: "store_inv C (st, ps) \<Longrightarrow> store_inv C (st_cmdDetach i inst rid st, ps)"
  unfolding st_cmdDetach_def
  by (rule store_inv_keeps [OF _ keeps_serve]) (auto intro: store_inv_detach split: option.splits)

lemmas keeps_commands =
  keeps_mapSync keeps_finishSync keeps_dispatch keeps_instance keeps_cmdMap keeps_cmdSync keeps_unsubscribe keeps_removeNode
  keeps_push keeps_cmdRegister keeps_idle keeps_enable keeps_disable keeps_expire keeps_remove

lemmas store_inv_commands = keeps_commands [THEN store_inv_keeps [rotated]]

lemma store_inv_step:
  assumes "st_step G P C s s'" and "store_inv C s" and "sc_instanceMax C < CO_INSTANCE_NONE"
  shows "store_inv C s'"
  using assms
proof cases
  case map_object
  then show ?thesis using store_inv_map assms(2) by blast
next
  case start_sync
  then show ?thesis using store_inv_sync assms(2) by blast
next
  case map_success
  then show ?thesis using store_inv_mapSuccess assms(2,3) by blast
next
  case map_reply
  then show ?thesis using assms(2) by (simp add: store_inv_mapReply)
next
  case map_refused
  then show ?thesis using assms(2) by (simp add: store_inv_mapReply)
next
  case sync_reply
  then show ?thesis using assms(2) by (simp add: store_inv_syncReply)
qed (use assms(2,3) in \<open>auto intro: store_inv_register store_inv_deregister store_inv_unmap store_inv_swap
      store_inv_detachCommand store_inv_unmapCommand store_inv_commands\<close>)

lemma store_inv_new:
  assumes "\<forall>r. \<not> ob_isAttached (objects r)" and "sc_instanceMax C < CO_INSTANCE_NONE"
  shows "store_inv C (st_new n size' objects, [])"
  using assms ic_inv_new
  by (simp add: store_inv_def table_ok_def ids_ok_def requests_ok_def pins_ok_def st_new_def st_instances_def st_lastID_def pd_pins_def)

lemma store_inv_reach:
  assumes "st_reach G P C s" and "sc_instanceMax C < CO_INSTANCE_NONE"
  shows "store_inv C s"
  using assms by (induction rule: st_reach.induct) (auto intro: store_inv_new store_inv_step)

end
