(* ===== verification/Store_Properties.thy ===== *)
theory Store_Properties
  imports Store_Protocol
begin

text \<open>
  What the invariant of the object store gives: the table is an index of the attached objects, dispatch of object commands is
  the direct one, and cached data stays pinned exactly while requests use it.
\<close>

section \<open>The object table\<close>

lemma store_inv_unique:
  assumes "store_inv C (st, ps)" and "ob_isAttached (st_object st r)" and "ob_isAttached (st_object st r')"
    and "ob_instanceID (st_object st r) = ob_instanceID (st_object st r')"
  shows "r = r'"
proof -
  have "inj_on (st_instanceOf st) {r. ob_isAttached (st_object st r)}" using assms(1) by (simp add: store_inv_def ids_ok_def)
  from inj_onD [OF this, of r r'] assms(2-4) show ?thesis by (simp add: st_instanceOf_def)
qed

text \<open>
  C16 (object_store_index): in every reachable state the object table holds exactly the attached objects, each once, in the
  non-empty list of its identifier; every attached object has an instance identifier of its own that is not one of the special
  ones. The largest identifier, a constant of lunchbox, is below them.
\<close>

theorem object_store_index:
  assumes "st_reach G P C (st, ps)" and "sc_instanceMax C < CO_INSTANCE_NONE"
  shows "distinct (map fst (st_objects st)) \<and> (\<forall>i. map_of (st_objects st) i \<noteq> Some []) \<and> (\<forall>i. distinct (st_instances i st)) \<and>
    (\<forall>i r. r \<in> set (st_instances i st) \<longleftrightarrow> ob_isAttached (st_object st r) \<and> ob_id (st_object st r) = i) \<and>
    (\<forall>r. ob_isAttached (st_object st r) \<longrightarrow> ob_instanceID (st_object st r) \<le> sc_instanceMax C) \<and>
    (\<forall>r r'. ob_isAttached (st_object st r) \<and> ob_isAttached (st_object st r') \<and>
       ob_instanceID (st_object st r) = ob_instanceID (st_object st r') \<longrightarrow> r = r')"
proof -
  have inv: "store_inv C (st, ps)" using assms by (rule store_inv_reach)
  have ids: "ids_ok C st ps" using inv by (simp add: store_inv_def)
  have "ob_instanceID (st_object st r) \<le> sc_instanceMax C" if "ob_isAttached (st_object st r)" for r
    using ids that by (auto simp: ids_ok_def st_instanceOf_def intro: order_trans)
  moreover have "r = r'" if "ob_isAttached (st_object st r)" "ob_isAttached (st_object st r')"
    "ob_instanceID (st_object st r) = ob_instanceID (st_object st r')" for r r'
    using store_inv_unique [OF inv that] .
  ultimately show ?thesis using inv by (simp add: store_inv_def table_ok_def)
qed

section \<open>Dispatch of object commands\<close>

text \<open>The objects a command is meant for: the instance it names, or every instance when it names none in particular.\<close>

definition addressed :: "store_config \<Rightarrow> odcommand \<Rightarrow> store_object \<Rightarrow> bool" where
  "addressed C command o' \<longleftrightarrow>
     ob_isAttached o' \<and> ob_id o' = oc_objectID command \<and>
     (oc_instanceID command \<le> sc_instanceMax C \<longrightarrow> ob_instanceID o' = oc_instanceID command)"

definition dispatch_spec :: "store_config \<Rightarrow> odcommand \<Rightarrow> object_store \<Rightarrow> bool \<times> object_store" where
  "dispatch_spec C command st =
     ((\<exists>r. addressed C command (st_object st r)) \<or> oc_instanceID command = CO_INSTANCE_NONE,
      st\<lparr>st_object := \<lambda>r. if addressed C command (st_object st r) then ob_dispatchCommand command (st_object st r)
                          else st_object st r\<rparr>)"

lemma dispatch_none:
  assumes "\<And>r. \<not> addressed C command (st_object st r)"
  shows "dispatch_spec C command st = (oc_instanceID command = CO_INSTANCE_NONE, st)"
  using assms by (simp add: dispatch_spec_def)

lemma object_dispatch_spec:
  assumes "st_reach G P C (st, ps)" and "sc_instanceMax C < CO_INSTANCE_NONE"
  shows "st_dispatchObjectCommand C command st = dispatch_spec C command st"
proof -
  let ?i = "oc_objectID command" and ?x = "oc_instanceID command"
  have inv: "store_inv C (st, ps)" using assms by (rule store_inv_reach)
  have mem: "r \<in> set (st_instances ?i st) \<longleftrightarrow> ob_isAttached (st_object st r) \<and> ob_id (st_object st r) = ?i" for r
    using inv by (simp add: store_inv_def table_ok_def)
  have dist: "distinct (st_instances ?i st)" using inv by (simp add: store_inv_def table_ok_def)
  have inj: "r = r'" if "ob_isAttached (st_object st r)" "ob_isAttached (st_object st r')"
    "ob_instanceID (st_object st r) = ob_instanceID (st_object st r')" for r r'
    using store_inv_unique [OF inv that] .
  show ?thesis
  proof (cases "map_of (st_objects st) ?i")
    case None
    then have "st_instances ?i st = []" by (simp add: st_instances_def)
    then have "\<not> addressed C command (st_object st r)" for r using mem [of r] by (auto simp: addressed_def)
    with None show ?thesis by (simp add: st_dispatchObjectCommand_def dispatch_none)
  next
    case (Some rs)
    then have rs: "st_instances ?i st = rs" by (simp add: st_instances_def)
    show ?thesis
    proof (cases "?x \<le> sc_instanceMax C")
      case named: True
      then have none: "?x \<noteq> CO_INSTANCE_NONE" using assms(2) by auto
      have who: "addressed C command (st_object st r) \<longleftrightarrow> r \<in> set rs \<and> ob_instanceID (st_object st r) = ?x" for r
        using mem [of r] named rs by (auto simp: addressed_def)
      show ?thesis
      proof (cases "find (\<lambda>r. ob_instanceID (st_object st r) = ?x) rs")
        case nobody: None
        then have "\<not> addressed C command (st_object st r)" for r using who by (auto simp: find_None_iff)
        with Some named nobody none show ?thesis
          by (simp add: st_dispatchObjectCommand_def st_findInstance_def dispatch_none)
      next
        case (Some r)
        then have r: "r \<in> set rs" "ob_instanceID (st_object st r) = ?x" by (auto simp: find_Some_iff)
        have "addressed C command (st_object st r') \<longleftrightarrow> r' = r" for r'
          using who [of r'] who [of r] r inj mem rs by auto
        with Some \<open>map_of (st_objects st) ?i = Some rs\<close> named show ?thesis
          by (auto simp: st_dispatchObjectCommand_def st_findInstance_def dispatch_spec_def st_update_def fun_upd_def cong: if_cong)
      qed
    next
      case False
      have who: "addressed C command (st_object st r) \<longleftrightarrow> r \<in> set rs" for r
        using mem [of r] False rs by (auto simp: addressed_def)
      have "rs \<noteq> []" using inv Some by (auto simp: store_inv_def table_ok_def)
      then have "\<exists>r. r \<in> set rs" by (auto simp: neq_Nil_conv)
      with Some False dist rs show ?thesis
        by (simp add: st_dispatchObjectCommand_def dispatch_spec_def who fold_update)
    qed
  qed
qed

text \<open>
  C17 (object_dispatch_exact): in every reachable state \<open>dispatchObjectCommand\<close>, which searches the table, is the direct dispatch: every
  addressed object gets the command exactly once, no other object does, and the command is refused (to be dispatched again
  later) exactly when there is no such object and its instance identifier is not \<open>CO_INSTANCE_NONE\<close>, which makes it be dropped then.
\<close>

theorem object_dispatch_exact:
  assumes "st_reach G P C (st, ps)" and "sc_instanceMax C < CO_INSTANCE_NONE"
  shows "st_dispatchObjectCommand C command st = dispatch_spec C command st"
  using assms by (rule object_dispatch_spec)

section \<open>Pinned data\<close>

text \<open>
  C18 (object_store_pins): in every reachable state the access count of a cached object is the number of map and sync requests that
  announced its cached data and are not answered yet, and the data of such an object is there. So every request, whether it is
  granted with the cache, granted without it, or refused, releases exactly what it has pinned.
\<close>

theorem object_store_pins:
  assumes "st_reach G P C (st, ps)" and "sc_instanceMax C < CO_INSTANCE_NONE" and "st_instanceCache st = Some c"
  shows "unat (ic_pins c i) = pd_pins i ps \<and>
    (pd_pins i ps \<noteq> 0 \<longrightarrow> (\<exists>item. ic_get c i = Some item \<and> it_versions item \<noteq> []))"
proof -
  have pins: "length ps \<le> 2 ^ 31" "ic_inv c" "ic_pins c i = of_nat (pd_pins i ps)"
    using store_inv_reach [OF assms(1,2)] assms(3) by (auto simp: store_inv_def pins_ok_def)
  have "pd_pins i ps < 2 ^ 32" using pins(1) pins_le [of i ps] by simp
  then have count: "unat (ic_pins c i) = pd_pins i ps" by (simp add: pins(3) unat_of_nat)
  have "\<exists>item. ic_get c i = Some item \<and> it_versions item \<noteq> []" if "pd_pins i ps \<noteq> 0"
    using that count ic_inv_get [OF pins(2)] by (cases "ic_get c i") (auto simp: ic_pins_def)
  with count show ?thesis by blast
qed

section \<open>A concrete run\<close>

text \<open>
  A node registers a static object, receives instance data of object 7 from node 5 and maps an object to it: the request announces
  the cached version.
\<close>

definition sample_store_config :: store_config where
  "sample_store_config =
     \<lparr>sc_instanceMax = 0xFFFFFFF0, sc_isUUID = (\<lambda>i. i \<noteq> 0), sc_sendQueueSize = 0, sc_sendQueueAge = 0\<rparr>"

definition sample_object :: "nat \<Rightarrow> store_object" where
  "sample_object r =
     \<lparr>ob_id = of_nat (20 + r), ob_instanceID = CO_INSTANCE_INVALID, ob_localNode = False, ob_cm = NullCM,
      ob_changeType = CHANGE_STATIC, ob_maxVersions = 0, ob_instanceData = [], ob_uuids = (\<lambda>_. 0), ob_commands = [],
      ob_applied = []\<rparr>"

definition sample_env :: cache_env where
  "sample_env = \<lparr>ce_target = 80, ce_order1 = [], ce_order0 = [], ce_now = 1\<rparr>"

definition sample_store0 :: object_store where
  "sample_store0 = fst (st_register sample_config sample_pression sample_store_config 0
     (st_new \<lparr>nd_id = 3, nd_outgoing = True, nd_multicast = None\<rparr> 100 sample_object))"

definition sample_store1 :: object_store where
  "sample_store1 = snd (st_cmdInstance sample_store_config sample_env 0 4
     ((sample_command 1 50 True)\<lparr>oc_cmd := CMD_NODE_OBJECT_INSTANCE\<rparr>) sample_store0)"

definition sample_map :: "uint32 option \<times> object_store \<times> store_command list" where
  "sample_map = st_mapNB sample_store_config 9 1 7 VERSION_OLDEST (Some (5, True)) sample_store1"

definition sample_request :: master_cm_command where
  "sample_request = (case hd (snd (snd sample_map)) of SendMap n c \<Rightarrow> c)"

lemma sample_max: "sc_instanceMax sample_store_config < CO_INSTANCE_NONE"
  by (simp add: sample_store_config_def CO_INSTANCE_NONE_def)

lemma sample_genNextID: "genNextID 0xFFFFFFF0 (- 0x7FFFFFFF) = (1, - 0x7FFFFFFE)"
  by (subst genNextID.simps) simp

lemma sample_store0_fields:
  "st_instanceCache sample_store0 = Some (ic_new 100)" "st_requests sample_store0 = []"
  "st_instanceIDs sample_store0 = - 0x7FFFFFFE" "st_objects sample_store0 = [(20, [0])]"
  by (simp_all add: sample_store0_def st_register_def st_attach_def Let_def st_update_def st_new_def sample_store_config_def
      sample_genNextID sample_object_def)

lemma sample_store1_cache:
  "\<exists>item. it_versions item \<noteq> [] \<and> it_access item = 0 \<and>
     st_instanceCache sample_store1 = Some (ic_put (ic_new 100) 7 (item, 50))"
  by (simp add: sample_store1_def st_cmdInstance_def Let_def st_onCache_def sample_command_def sample_store0_fields
      sample_env_def ic_add_def ic_new_def ic_put_def it_new_def ic_add_master_def ic_add_stream_def it_newStream_def
      ic_append_def ic_releaseItems_def od_addDataCommand_def od_isReady_def od_getPendingVersion_def od_setReady_def od_getDataSize_def od_new_def
      od_reset_members_def VERSION_INVALID_def CMD_NODE_OBJECT_INSTANCE_def CMD_NODE_OBJECT_INSTANCE_PUSH_def)

lemma sample_store1_fields:
  "st_requests sample_store1 = []" "st_instanceIDs sample_store1 = - 0x7FFFFFFE" "st_object sample_store1 = st_object sample_store0"
  by (simp_all add: sample_store1_def st_cmdInstance_def Let_def st_onCache_def sample_store0_fields)

lemma sample_object1: "st_object sample_store0 (Suc 0) = sample_object (Suc 0)"
  by (simp add: sample_store0_def st_register_def st_attach_def Let_def st_update_def st_new_def split: prod.split)

lemma sample_map_eq:
  "sample_map = (Some 9, fst (snd sample_map), [SendMap 5 sample_request]) \<and> mc_useCache sample_request \<and>
   mc_objectID sample_request = 7 \<and> st_instanceCache (fst (snd sample_map)) \<noteq> None"
proof -
  obtain item where c: "st_instanceCache sample_store1 = Some (ic_put (ic_new 100) 7 (item, 50))"
    using sample_store1_cache by blast
  show ?thesis
    by (simp add: sample_request_def sample_map_def st_mapNB_def st_checkInstanceCache_def st_registerRequest_def c
        sample_store1_fields sample_object1 sample_object_def sample_store_config_def ob_isAttached_def ob_isMaster_def
        ic_lookup_def ic_new_def split: prod.split)
qed

lemma sample_reach0: "st_reach sample_config sample_pression sample_store_config (sample_store0, [])"
  unfolding sample_store0_def
  by (rule st_reach.step [OF st_reach.start st_step.register_object])
     (simp_all add: sample_object_def ob_isAttached_def st_new_def no_pending_def st_lastID_def sample_store_config_def)

lemma sample_reach1: "st_reach sample_config sample_pression sample_store_config (sample_store1, [])"
  unfolding sample_store1_def by (rule st_reach.step [OF sample_reach0 st_step.instance_command])

lemma sample_reach:
  "st_reach sample_config sample_pression sample_store_config (fst (snd sample_map), [PendingMap 1 sample_request False])"
proof -
  have m: "st_mapNB sample_store_config 9 1 7 VERSION_OLDEST (Some (5, True)) sample_store1 =
      (Some 9, fst (snd sample_map), [SendMap 5 sample_request])"
    using conjunct1 [OF sample_map_eq] by (subst sample_map_def [symmetric])
  have "st_step sample_config sample_pression sample_store_config (sample_store1, [])
      (fst (snd sample_map), [] @ [PendingMap 1 sample_request False])"
    by (rule st_step.map_object [OF m])
       (simp_all add: fresh_request_def no_pending_def st_lastID_def sample_store1_fields sample_store_config_def)
  with sample_reach1 show ?thesis using st_reach.step by fastforce
qed

theorem object_store_index_witness:
  "st_objects sample_store0 = [(20, [0])] \<and> ob_isAttached (st_object sample_store0 0) \<and>
   ob_id (st_object sample_store0 0) = 20 \<and> ob_instanceID (st_object sample_store0 0) \<le> 0xFFFFFFF0"
proof -
  have objects: "st_objects sample_store0 = [(20, [0])]" by (rule sample_store0_fields(4))
  then have "0 \<in> set (st_instances 20 sample_store0)" by (simp add: st_instances_def)
  with object_store_index [OF sample_reach0 sample_max] objects show ?thesis by (simp add: sample_store_config_def)
qed

theorem object_dispatch_exact_witness:
  "st_dispatchObjectCommand sample_store_config ((sample_command 1 50 True)\<lparr>oc_objectID := 20, oc_instanceID := 1\<rparr>) sample_store0 =
   dispatch_spec sample_store_config ((sample_command 1 50 True)\<lparr>oc_objectID := 20, oc_instanceID := 1\<rparr>) sample_store0"
  by (rule object_dispatch_exact [OF sample_reach0 sample_max])

theorem object_store_pins_witness:
  "unat (ic_pins (the (st_instanceCache (fst (snd sample_map)))) 7) = 1 \<and>
   (\<exists>item. ic_get (the (st_instanceCache (fst (snd sample_map)))) 7 = Some item \<and> it_versions item \<noteq> [])"
proof -
  obtain c where c: "st_instanceCache (fst (snd sample_map)) = Some c" using sample_map_eq by auto
  have "pd_pins 7 [PendingMap 1 sample_request False] = 1" using sample_map_eq by (simp add: pd_pins_def)
  with object_store_pins [OF sample_reach sample_max c, of 7] c show ?thesis by simp
qed

end
