(* ===== verification/Dispatch_Table.thy ===== *)
theory Dispatch_Table
  imports Commands
begin

text \<open>
  The base class of everything that receives commands, \<^verbatim>\<open>src/co/dispatcher.cpp\<close>, the queue of
  commands between two threads, \<^verbatim>\<open>src/co/commandQueue.cpp\<close>, and the thread that works off such a
  queue, \<^verbatim>\<open>src/co/worker.ipp\<close>. Handlers are values of a type \<open>'h\<close>, queues are numbers. The result
  is a refinement: the two tables together with the queues implement a map from commands to
  handlers and threads.
\<close>

section \<open>CommandQueue\<close>

record 'c command_queue =
  cq_maxSize :: nat
  cq_commands :: "'c list"

definition cq_new :: "nat \<Rightarrow> 'c command_queue" where
  "cq_new maxSize = \<lparr>cq_maxSize = maxSize, cq_commands = []\<rparr>"

definition cq_flush :: "'c command_queue \<Rightarrow> 'c command_queue" where
  "cq_flush q = q\<lparr>cq_commands := []\<rparr>"

definition cq_isEmpty :: "'c command_queue \<Rightarrow> bool" where
  "cq_isEmpty q \<longleftrightarrow> cq_commands q = []"

definition cq_getSize :: "'c command_queue \<Rightarrow> nat" where
  "cq_getSize q = length (cq_commands q)"

text \<open>Both pushes wait while the queue is full: \<^term>\<open>None\<close>.\<close>

definition cq_push :: "'c \<Rightarrow> 'c command_queue \<Rightarrow> 'c command_queue option" where
  "cq_push c q = (if cq_getSize q < cq_maxSize q then Some (q\<lparr>cq_commands := cq_commands q @ [c]\<rparr>) else None)"

definition cq_pushFront :: "'c \<Rightarrow> 'c command_queue \<Rightarrow> 'c command_queue option" where
  "cq_pushFront c q = (if cq_getSize q < cq_maxSize q then Some (q\<lparr>cq_commands := c # cq_commands q\<rparr>) else None)"

text \<open>
  \<^verbatim>\<open>pop\<close> when it returns: the front, or the invalid command after the timeout; \<^verbatim>\<open>tryPop\<close> has the
  same result without waiting. \<^verbatim>\<open>popAll\<close> waits for at least one command.
\<close>

definition cq_pop :: "'c command_queue \<Rightarrow> 'c option \<times> 'c command_queue" where
  "cq_pop q = (case cq_commands q of [] \<Rightarrow> (None, q) | c # cs \<Rightarrow> (Some c, q\<lparr>cq_commands := cs\<rparr>))"

definition cq_popAll :: "'c command_queue \<Rightarrow> ('c list \<times> 'c command_queue) option" where
  "cq_popAll q = (if cq_isEmpty q then None else Some (cq_commands q, q\<lparr>cq_commands := []\<rparr>))"

section \<open>WorkerThread\<close>

text \<open>
  The loop over one batch: what a command does to the state is the argument \<open>handle\<close>, the condition
  \<^verbatim>\<open>stopRunning\<close> is \<open>stop\<close>. The rest of a batch is dropped when the thread stops.
\<close>

fun wk_batch :: "('c \<Rightarrow> 's \<Rightarrow> 's) \<Rightarrow> ('s \<Rightarrow> bool) \<Rightarrow> 'c list \<Rightarrow> 's \<Rightarrow> 's" where
  "wk_batch handle stop [] s = s"
| "wk_batch handle stop (c # cs) s =
     (let s = handle c s in if stop s then s else wk_batch handle stop cs s)"

text \<open>
  \<^verbatim>\<open>run\<close>, where \<open>arrivals\<close> are the commands other threads have pushed since the previous \<^verbatim>\<open>popAll\<close>; it
  waits as long as there are none. The second result is the queue it leaves.
\<close>

fun wk_run ::
  "('c \<Rightarrow> 's \<Rightarrow> 's) \<Rightarrow> ('s \<Rightarrow> bool) \<Rightarrow> 'c list list \<Rightarrow> 'c command_queue \<Rightarrow> 's \<Rightarrow> 's \<times> 'c command_queue" where
  "wk_run handle stop [] q s = (s, if stop s then cq_flush q else q)"
| "wk_run handle stop (new # arrivals) q s =
     (if stop s then (s, cq_flush q)
      else
        (case cq_popAll (q\<lparr>cq_commands := cq_commands q @ new\<rparr>) of
           None \<Rightarrow> wk_run handle stop arrivals q s
         | Some (commands, q) \<Rightarrow> wk_run handle stop arrivals q (wk_batch handle stop commands s)))"

lemma wk_batch_append:
  "wk_batch handle stop (xs @ ys) s =
     (let s' = wk_batch handle stop xs s in if xs \<noteq> [] \<and> stop s' then s' else wk_batch handle stop ys s')"
  by (induction xs arbitrary: s) (auto simp: Let_def)

text \<open>Taking the commands in batches changes nothing: it is the same as one after the other.\<close>

lemma wk_run_batches:
  "\<not> stop s \<Longrightarrow> fst (wk_run handle stop arrivals (cq_new m) s) = wk_batch handle stop (concat arrivals) s"
proof (induction arrivals arbitrary: s)
  case (Cons new arrivals)
  show ?case
  proof (cases "new = []")
    case True
    with Cons show ?thesis by (simp add: cq_new_def cq_popAll_def cq_isEmpty_def)
  next
    case False
    let ?s = "wk_batch handle stop new s"
    have stopped: "stop t \<Longrightarrow> fst (wk_run handle stop as q t) = t" for as q t by (cases as) auto
    have "fst (wk_run handle stop (new # arrivals) (cq_new m) s) = fst (wk_run handle stop arrivals (cq_new m) ?s)"
      using Cons.prems False by (simp add: cq_new_def cq_popAll_def cq_isEmpty_def)
    also have "\<dots> = wk_batch handle stop (new @ concat arrivals) s"
      using Cons.IH [of ?s] False stopped by (auto simp: wk_batch_append Let_def)
    finally show ?thesis by simp
  qed
qed simp

section \<open>Dispatcher\<close>

text \<open>\<^term>\<open>None\<close> in the handler table is \<^verbatim>\<open>_cmdUnknown\<close>, in the queue table the null pointer.\<close>

record 'h dispatcher =
  dp_fTable :: "'h option list"
  dp_qTable :: "nat option list"

definition dp_new :: "'h dispatcher" where
  "dp_new = \<lparr>dp_fTable = [], dp_qTable = []\<rparr>"

function dp_fill :: "nat \<Rightarrow> 'h dispatcher \<Rightarrow> 'h dispatcher" where
  "dp_fill command d =
     (if length (dp_fTable d) < command
      then dp_fill command (d\<lparr>dp_fTable := dp_fTable d @ [None], dp_qTable := dp_qTable d @ [None]\<rparr>)
      else d)"
  by pat_completeness auto
termination by (relation "measure (\<lambda>(command, d). command - length (dp_fTable d))") auto

declare dp_fill.simps [simp del]

definition dp_registerCommand :: "uint32 \<Rightarrow> 'h \<Rightarrow> nat option \<Rightarrow> 'h dispatcher \<Rightarrow> 'h dispatcher" where
  "dp_registerCommand command func destinationQueue d =
     (let command = unat command
      in if length (dp_fTable d) \<le> command then
           (let d = dp_fill command d
            in d\<lparr>dp_fTable := dp_fTable d @ [Some func], dp_qTable := dp_qTable d @ [destinationQueue]\<rparr>)
         else d\<lparr>dp_fTable := (dp_fTable d)[command := Some func], dp_qTable := (dp_qTable d)[command := destinationQueue]\<rparr>)"

text \<open>
  What \<^verbatim>\<open>dispatchCommand\<close> does with a command: an access outside of the tables, a call in the receiver
  thread, or a push to a queue together with the handler to be called there.
\<close>

datatype 'h dispatched = OutOfTable | Called "'h option" | Queued nat "'h option"

definition dp_dispatchCommand :: "uint32 \<Rightarrow> 'h dispatcher \<Rightarrow> 'h dispatched" where
  "dp_dispatchCommand command d =
     (let which = unat command
      in if which \<ge> length (dp_qTable d) then OutOfTable
         else case dp_qTable d ! which of
                Some queue \<Rightarrow> Queued queue (dp_fTable d ! which)
              | None \<Rightarrow> Called (dp_fTable d ! which))"

section \<open>Tables as a map\<close>

definition dp_inv :: "'h dispatcher \<Rightarrow> bool" where
  "dp_inv d \<longleftrightarrow> length (dp_fTable d) = length (dp_qTable d)"

definition dp_map :: "'h dispatcher \<Rightarrow> uint32 \<rightharpoonup> 'h \<times> nat option" where
  "dp_map d command =
     (let which = unat command
      in if which < length (dp_fTable d)
         then (case dp_fTable d ! which of None \<Rightarrow> None | Some f \<Rightarrow> Some (f, dp_qTable d ! which))
         else None)"

lemma dp_fill_eq:
  "dp_fill n d = d\<lparr>dp_fTable := dp_fTable d @ replicate (n - length (dp_fTable d)) None,
                   dp_qTable := dp_qTable d @ replicate (n - length (dp_fTable d)) None\<rparr>"
proof (induction n d rule: dp_fill.induct)
  case (1 n d)
  show ?case
  proof (cases "length (dp_fTable d) < n")
    case True
    then obtain k where "n - length (dp_fTable d) = Suc k" "n - Suc (length (dp_fTable d)) = k"
      by (metis Suc_diff_Suc)
    with 1 True show ?thesis by (simp add: dp_fill.simps [of n d])
  qed (simp add: dp_fill.simps [of n d])
qed

lemma dp_new_map: "dp_inv dp_new" "dp_map dp_new = Map.empty"
  by (auto simp: dp_inv_def dp_new_def dp_map_def)

lemma dp_register_inv: "dp_inv d \<Longrightarrow> dp_inv (dp_registerCommand c f q d)"
  by (simp add: dp_inv_def dp_registerCommand_def dp_fill_eq Let_def)

lemma dp_register_map:
  assumes "dp_inv d" shows "dp_map (dp_registerCommand c f q d) = (dp_map d)(c \<mapsto> (f, q))"
proof
  fix x
  have "unat x = unat c \<longleftrightarrow> x = c" by (simp add: word_unat_eq_iff)
  then show "dp_map (dp_registerCommand c f q d) x = ((dp_map d)(c \<mapsto> (f, q))) x"
    using assms
    by (auto simp: dp_inv_def dp_registerCommand_def dp_fill_eq Let_def dp_map_def nth_append nth_list_update split: option.split)
qed

lemma dp_dispatch_map:
  "dp_inv d \<Longrightarrow> dp_map d c = Some (f, q) \<Longrightarrow>
   dp_dispatchCommand c d = (case q of None \<Rightarrow> Called (Some f) | Some q \<Rightarrow> Queued q (Some f))"
  by (auto simp: dp_inv_def dp_map_def dp_dispatchCommand_def Let_def split: if_splits option.splits)

section \<open>Threads, queues and the specification\<close>

text \<open>
  A dispatcher with its queues and, per thread, the log of the handlers called: \<^term>\<open>None\<close> is the
  receiver thread, a number the worker of that queue.
\<close>

record 'h dispatch_system =
  ds_dispatcher :: "'h dispatcher"
  ds_queues :: "nat \<Rightarrow> (icommand \<times> 'h option) command_queue"
  ds_calls :: "nat option \<Rightarrow> (icommand \<times> 'h option) list"

datatype 'h dispatch_event = Register uint32 'h "nat option" | Dispatch icommand | Work nat

definition ds_new :: "(nat \<Rightarrow> nat) \<Rightarrow> 'h dispatch_system" where
  "ds_new maxSize = \<lparr>ds_dispatcher = dp_new, ds_queues = (\<lambda>q. cq_new (maxSize q)), ds_calls = (\<lambda>_. [])\<rparr>"

definition ds_call :: "nat option \<Rightarrow> (icommand \<times> 'h option) list \<Rightarrow> 'h dispatch_system \<Rightarrow> 'h dispatch_system" where
  "ds_call t cs s = s\<lparr>ds_calls := (ds_calls s)(t := ds_calls s t @ cs)\<rparr>"

text \<open>A round of the worker of a queue takes all its commands and handles them with the loop of \<open>run\<close>; no handler stops it.\<close>

fun ds_step :: "'h dispatch_event \<Rightarrow> 'h dispatch_system \<Rightarrow> 'h dispatch_system option" where
  "ds_step (Register command func queue) s =
     Some (s\<lparr>ds_dispatcher := dp_registerCommand command func queue (ds_dispatcher s)\<rparr>)"
| "ds_step (Dispatch command) s =
     (case dp_dispatchCommand (im_cmd command) (ds_dispatcher s) of
        OutOfTable \<Rightarrow> None
      | Called f \<Rightarrow> Some (ds_call None [(command, f)] s)
      | Queued q f \<Rightarrow>
          map_option (\<lambda>queue. s\<lparr>ds_queues := (ds_queues s)(q := queue)\<rparr>) (cq_push (command, f) (ds_queues s q)))"
| "ds_step (Work q) s =
     (case cq_popAll (ds_queues s q) of
        None \<Rightarrow> Some s
      | Some (commands, queue) \<Rightarrow>
          Some (wk_batch (\<lambda>c. ds_call (Some q) [c]) (\<lambda>_. False) commands (s\<lparr>ds_queues := (ds_queues s)(q := queue)\<rparr>)))"

lemma wk_batch_calls: "wk_batch (\<lambda>c. ds_call t [c]) (\<lambda>_. False) commands s = ds_call t commands s"
  by (induction commands arbitrary: s) (simp_all add: ds_call_def)

text \<open>The specification: a map, and for every thread the calls in the order of the commands.\<close>

type_synonym 'h dispatch_model = "(uint32 \<rightharpoonup> 'h \<times> nat option) \<times> (nat option \<Rightarrow> (icommand \<times> 'h option) list)"

fun model_step :: "'h dispatch_event \<Rightarrow> 'h dispatch_model \<Rightarrow> 'h dispatch_model option" where
  "model_step (Register command func queue) (m, calls) = Some (m(command \<mapsto> (func, queue)), calls)"
| "model_step (Dispatch command) (m, calls) =
     (case m (im_cmd command) of
        None \<Rightarrow> None
      | Some (f, t) \<Rightarrow> Some (m, calls(t := calls t @ [(command, Some f)])))"
| "model_step (Work q) a = Some a"

fun ds_waiting :: "nat option \<Rightarrow> 'h dispatch_system \<Rightarrow> (icommand \<times> 'h option) list" where
  "ds_waiting None s = []"
| "ds_waiting (Some q) s = cq_commands (ds_queues s q)"

definition ds_abs :: "'h dispatch_system \<Rightarrow> 'h dispatch_model" where
  "ds_abs s = (dp_map (ds_dispatcher s), \<lambda>t. ds_calls s t @ ds_waiting t s)"

definition ds_inv :: "'h dispatch_system \<Rightarrow> bool" where
  "ds_inv s \<longleftrightarrow> dp_inv (ds_dispatcher s)"

definition ds_room :: "nat \<Rightarrow> 'h dispatch_system \<Rightarrow> bool" where
  "ds_room n s \<longleftrightarrow> (\<forall>q. cq_getSize (ds_queues s q) + n \<le> cq_maxSize (ds_queues s q))"

lemma ds_waiting_dispatcher [simp]:
  "ds_waiting t (s\<lparr>ds_dispatcher := d\<rparr>) = ds_waiting t s" "ds_waiting t (ds_call t' cs s) = ds_waiting t s"
  by (cases t; simp add: ds_call_def)+

lemma ds_roomD: "ds_room n s \<Longrightarrow> length (cq_commands (ds_queues s q)) + n \<le> cq_maxSize (ds_queues s q)"
  by (simp add: ds_room_def cq_getSize_def)

lemma ds_room_less: "ds_room (Suc n) s \<Longrightarrow> ds_room n s"
  unfolding ds_room_def by (metis Suc_leD add_Suc_right)

lemma simulate_dispatch:
  assumes "ds_inv s" and "ds_room (Suc n) s" and m: "dp_map (ds_dispatcher s) (im_cmd c) = Some (f, t)"
  shows "\<exists>s'. ds_step (Dispatch c) s = Some s' \<and>
    ds_abs s' = (dp_map (ds_dispatcher s), (snd (ds_abs s))(t := snd (ds_abs s) t @ [(c, Some f)])) \<and> ds_inv s' \<and> ds_room n s'"
proof (cases t)
  case None
  let ?s = "ds_call None [(c, Some f)] s"
  have "ds_step (Dispatch c) s = Some ?s"
    using dp_dispatch_map [OF _ m] assms(1) None by (simp add: ds_inv_def)
  moreover have "ds_abs ?s = (dp_map (ds_dispatcher s), (snd (ds_abs s))(t := snd (ds_abs s) t @ [(c, Some f)]))"
    using None by (simp add: ds_abs_def fun_eq_iff) (simp add: ds_call_def)
  moreover have "ds_inv ?s \<and> ds_room n ?s"
    using assms ds_room_less [OF assms(2)] by (simp add: ds_call_def ds_inv_def ds_room_def)
  ultimately show ?thesis by blast
next
  case (Some q)
  let ?q = "(ds_queues s q)\<lparr>cq_commands := cq_commands (ds_queues s q) @ [(c, Some f)]\<rparr>"
  let ?s = "s\<lparr>ds_queues := (ds_queues s)(q := ?q)\<rparr>"
  have "ds_step (Dispatch c) s = Some ?s"
    using dp_dispatch_map [OF _ m] assms(1) Some ds_roomD [OF assms(2), of q]
    by (simp add: ds_inv_def cq_push_def cq_getSize_def)
  moreover have "ds_calls ?s t' @ ds_waiting t' ?s =
      ((snd (ds_abs s))(t := snd (ds_abs s) t @ [(c, Some f)])) t'" for t'
    using Some by (cases t') (auto simp: ds_abs_def)
  then have "ds_abs ?s = (dp_map (ds_dispatcher s), (snd (ds_abs s))(t := snd (ds_abs s) t @ [(c, Some f)]))"
    by (simp add: ds_abs_def fun_eq_iff)
  moreover have "ds_inv ?s \<and> ds_room n ?s"
    using assms ds_room_less [OF assms(2)] by (simp add: ds_inv_def ds_room_def cq_getSize_def)
  ultimately show ?thesis by blast
qed

lemma simulate_work:
  assumes "ds_inv s" and "ds_room (Suc n) s"
  shows "\<exists>s'. ds_step (Work q) s = Some s' \<and> ds_abs s' = ds_abs s \<and> ds_inv s' \<and> ds_room n s'"
proof (cases "cq_popAll (ds_queues s q)")
  case None
  with assms ds_room_less [OF assms(2)] show ?thesis by simp
next
  case (Some r)
  let ?q = "(ds_queues s q)\<lparr>cq_commands := []\<rparr>"
  let ?s = "ds_call (Some q) (cq_commands (ds_queues s q)) (s\<lparr>ds_queues := (ds_queues s)(q := ?q)\<rparr>)"
  from Some have "ds_step (Work q) s = Some ?s" by (auto simp: cq_popAll_def wk_batch_calls split: if_splits)
  moreover have "ds_calls ?s t @ ds_waiting t ?s = ds_calls s t @ ds_waiting t s" for t
    by (cases t) (auto simp: ds_call_def)
  then have "ds_abs ?s = ds_abs s" by (simp add: ds_abs_def fun_eq_iff) (simp add: ds_call_def)
  moreover have "ds_inv ?s \<and> ds_room n ?s"
    using assms ds_room_less [OF assms(2)] add_leD2 [OF ds_roomD, of n s q]
    by (simp add: ds_inv_def ds_room_def cq_getSize_def ds_call_def)
  ultimately show ?thesis by blast
qed

interpretation dispatch_sim: forward_simulation ds_step model_step ds_abs ds_inv ds_room
proof
  fix s :: "'h dispatch_system" and n e a
  assume s: "ds_inv s" "ds_room (Suc n) s" and e: "model_step e (ds_abs s) = Some a"
  show "\<exists>s'. ds_step e s = Some s' \<and> ds_abs s' = a \<and> ds_inv s' \<and> ds_room n s'"
  proof (cases e)
    case (Register c f q)
    let ?s = "s\<lparr>ds_dispatcher := dp_registerCommand c f q (ds_dispatcher s)\<rparr>"
    have "ds_inv ?s" "ds_room n ?s" "ds_abs ?s = a"
      using s e Register ds_room_less [OF s(2)]
      by (auto simp: ds_abs_def ds_inv_def ds_room_def dp_register_inv dp_register_map)
    with Register show ?thesis by simp
  next
    case (Dispatch c)
    with e obtain f t where m: "dp_map (ds_dispatcher s) (im_cmd c) = Some (f, t)"
        and a: "a = (dp_map (ds_dispatcher s), (snd (ds_abs s))(t := snd (ds_abs s) t @ [(c, Some f)]))"
      by (auto simp: ds_abs_def split: option.splits)
    with simulate_dispatch [OF s m] Dispatch show ?thesis by simp
  next
    case (Work q)
    with simulate_work [OF s] e show ?thesis by simp
  qed
qed

text \<open>
  C20 (dispatcher_refines_map): the two growing tables and the command queues implement a map from commands to a
  handler and a thread. Whatever the order of registrations, also of a command registered before,
  of dispatched commands and of the rounds of the worker threads, if only registered commands are
  dispatched, the queues have room for all commands and no handler stops a worker, then no dispatch leaves the tables, and every thread has
  called, or has in its queue, exactly the commands registered for it, in the order of arrival, each
  with the handler registered when it was dispatched.
\<close>

theorem dispatcher_refines_map:
  fixes es :: "'h dispatch_event list"
  assumes "run_events model_step es (Map.empty, \<lambda>_. []) = Some (m, calls)" and "\<forall>q. length es \<le> maxSize q"
  shows "\<exists>s. run_events ds_step es (ds_new maxSize) = Some s \<and> dp_map (ds_dispatcher s) = m \<and>
    (\<forall>q. ds_calls s (Some q) @ cq_commands (ds_queues s q) = calls (Some q)) \<and> ds_calls s None = calls None"
proof -
  have waiting: "ds_waiting t (ds_new maxSize :: 'h dispatch_system) = []" for t and maxSize
    by (cases t) (simp_all add: ds_new_def cq_new_def)
  have new: "ds_inv (ds_new maxSize :: 'h dispatch_system)" "ds_room (length es) (ds_new maxSize :: 'h dispatch_system)"
      "ds_abs (ds_new maxSize :: 'h dispatch_system) = (Map.empty, \<lambda>_. [])"
    using assms(2) by (simp_all add: ds_inv_def ds_room_def ds_abs_def cq_getSize_def waiting)
      (simp_all add: ds_new_def dp_new_map cq_new_def)
  from dispatch_sim.simulate_run [OF new(1,2), unfolded new(3), OF assms(1)] obtain s
    where s: "run_events ds_step es (ds_new maxSize) = Some s" "ds_abs s = (m, calls)" by blast
  have "snd (ds_abs s) t = calls t" for t using s(2) by simp
  then have "ds_calls s (Some q) @ cq_commands (ds_queues s q) = calls (Some q)" "ds_calls s None = calls None" for q
    by (metis (no_types, lifting) ds_abs_def ds_waiting.simps append_Nil2 snd_conv)+
  with s show ?thesis by (simp add: ds_abs_def)
qed

definition sample_events :: "nat dispatch_event list" where
  "sample_events =
     [Register 3 10 (Some 0), Register 1 11 None, Dispatch (im_empty\<lparr>im_cmd := 3\<rparr>), Dispatch (im_empty\<lparr>im_cmd := 1\<rparr>),
      Register 3 12 (Some 0), Work 0, Dispatch (im_empty\<lparr>im_cmd := 3\<rparr>)]"

theorem dispatcher_refines_map_witness:
  "\<exists>s. run_events ds_step sample_events (ds_new (\<lambda>_. 100)) = Some s \<and>
     ds_calls s (Some 0) @ cq_commands (ds_queues s 0) =
       [(im_empty\<lparr>im_cmd := 3\<rparr>, Some 10), (im_empty\<lparr>im_cmd := 3\<rparr>, Some 12)] \<and>
     ds_calls s None = [(im_empty\<lparr>im_cmd := 1\<rparr>, Some 11)]"
proof -
  define calls :: "nat option \<Rightarrow> (icommand \<times> nat option) list" where
    "calls = (\<lambda>_. [])(Some 0 := [(im_empty\<lparr>im_cmd := 3\<rparr>, Some 10), (im_empty\<lparr>im_cmd := 3\<rparr>, Some 12)],
                      None := [(im_empty\<lparr>im_cmd := 1\<rparr>, Some 11)])"
  have "run_events model_step sample_events (Map.empty, \<lambda>_. []) =
      Some ([3 \<mapsto> (12, Some 0), 1 \<mapsto> (11, None)], calls)"
    by (simp add: sample_events_def calls_def fun_eq_iff)
  from dispatcher_refines_map [OF this, of "\<lambda>_. 100"] show ?thesis
    by (auto simp: sample_events_def calls_def)
qed

end
