(* ===== verification/Pending_Commands.thy ===== *)
theory Pending_Commands
  imports Store_Properties
begin

text \<open>
  Dispatch in the receiver thread of a node, \<^verbatim>\<open>src/co/localNode.cpp\<close>: commands for objects that are
  not there yet are kept and tried again after every command. The loops take the virtual function
  \<^verbatim>\<open>dispatchCommand\<close> as an argument; what they need of it is a locale, interpreted on the one of
  the local node.
\<close>

section \<open>The loops\<close>

text \<open>One pass of \<^verbatim>\<open>_redispatchCommands\<close>: the first pending command that is accepted, and the others.\<close>

fun try_pending :: "('c \<Rightarrow> 's \<Rightarrow> bool \<times> 's) \<Rightarrow> 'c list \<Rightarrow> 's \<Rightarrow> 'c option \<times> 'c list \<times> 's" where
  "try_pending dispatch [] s = (None, [], s)"
| "try_pending dispatch (c # cs) s =
     (case dispatch c s of
        (True, s) \<Rightarrow> (Some c, cs, s)
      | (False, s) \<Rightarrow> (case try_pending dispatch cs s of (found, ds, s) \<Rightarrow> (found, c # ds, s)))"

lemma try_pending_length:
  "try_pending dispatch cs s = (Some c, ds, s') \<Longrightarrow> length ds < length cs"
  by (induction cs arbitrary: s ds) (auto split: prod.splits bool.splits)

text \<open>\<^verbatim>\<open>_redispatchCommands\<close>: the commands dispatched, in order, and those that stay pending.\<close>

function redispatchCommands :: "('c \<Rightarrow> 's \<Rightarrow> bool \<times> 's) \<Rightarrow> 'c list \<Rightarrow> 's \<Rightarrow> 'c list \<times> 'c list \<times> 's" where
  "redispatchCommands dispatch pending s =
     (case try_pending dispatch pending s of
        (None, pending, s) \<Rightarrow> ([], pending, s)
      | (Some c, pending, s) \<Rightarrow> (case redispatchCommands dispatch pending s of (cs, pending, s) \<Rightarrow> (c # cs, pending, s)))"
  by pat_completeness auto
termination
  by (relation "measure (\<lambda>(dispatch, pending, s). length pending)") (auto dest!: try_pending_length [OF sym])

declare redispatchCommands.simps [simp del]

text \<open>\<^verbatim>\<open>_dispatchCommand\<close> for a command just received.\<close>

definition receiveCommand :: "('c \<Rightarrow> 's \<Rightarrow> bool \<times> 's) \<Rightarrow> 'c \<Rightarrow> 'c list \<Rightarrow> 's \<Rightarrow> 'c list \<times> 'c list \<times> 's" where
  "receiveCommand dispatch command pending s =
     (case dispatch command s of
        (True, s) \<Rightarrow> (case redispatchCommands dispatch pending s of (cs, pending, s) \<Rightarrow> (command # cs, pending, s))
      | (False, s) \<Rightarrow> (case redispatchCommands dispatch pending s of (cs, pending, s) \<Rightarrow> (cs, pending @ [command], s)))"

section \<open>What the loops need\<close>

definition of_key :: "('c \<Rightarrow> 'k) \<Rightarrow> 'k \<Rightarrow> 'c list \<Rightarrow> 'c list" where
  "of_key key k = filter (\<lambda>c. key c = k)"

definition quiet :: "('c \<Rightarrow> 's \<Rightarrow> bool \<times> 's) \<Rightarrow> 'c list \<Rightarrow> 's \<Rightarrow> bool" where
  "quiet dispatch pending s \<longleftrightarrow> (\<forall>c\<in>set pending. \<not> fst (dispatch c s))"

lemma of_key_simps [simp]:
  "of_key key k [] = []" "of_key key k (c # cs) = (if key c = k then c # of_key key k cs else of_key key k cs)"
  "of_key key k (cs @ ds) = of_key key k cs @ of_key key k ds"
  by (simp_all add: of_key_def)

lemma quiet_simps [simp]:
  "quiet dispatch [] s" "quiet dispatch (c # cs) s \<longleftrightarrow> \<not> fst (dispatch c s) \<and> quiet dispatch cs s"
  "quiet dispatch (cs @ ds) s \<longleftrightarrow> quiet dispatch cs s \<and> quiet dispatch ds s"
  by (auto simp: quiet_def)

text \<open>A dispatcher that leaves everything as it is when it refuses, and decides by the key of the command.\<close>

locale pending_dispatch =
  fixes dispatch :: "'c \<Rightarrow> 's \<Rightarrow> bool \<times> 's" and key :: "'c \<Rightarrow> 'k"
  assumes refused: "\<not> fst (dispatch c s) \<Longrightarrow> snd (dispatch c s) = s"
    and same_key: "key c = key d \<Longrightarrow> fst (dispatch c s) = fst (dispatch d s)"
begin

lemma quiet_key: "quiet dispatch pending s \<Longrightarrow> fst (dispatch c s) \<Longrightarrow> of_key key (key c) pending = []"
  unfolding quiet_def of_key_def filter_empty_conv using same_key by blast

lemma try_none: "try_pending dispatch cs s = (None, ds, s') \<Longrightarrow> ds = cs \<and> s' = s \<and> quiet dispatch cs s"
proof (induction cs arbitrary: ds)
  case (Cons c cs)
  obtain b t where d: "dispatch c s = (b, t)" by (cases "dispatch c s")
  have "\<not> b" using Cons.prems d by (auto split: bool.splits)
  moreover have "t = s" using refused [of c s] d \<open>\<not> b\<close> by simp
  ultimately show ?case using Cons d by (auto split: prod.splits)
qed simp

lemma try_some:
  "try_pending dispatch cs s = (Some c, ds, s') \<Longrightarrow>
   dispatch c s = (True, s') \<and> (\<exists>xs ys. cs = xs @ c # ys \<and> ds = xs @ ys \<and> quiet dispatch xs s)"
proof (induction cs arbitrary: ds)
  case (Cons d cs)
  obtain b t where d: "dispatch d s = (b, t)" by (cases "dispatch d s")
  show ?case
  proof (cases b)
    case True
    with Cons.prems d have "dispatch c s = (True, s') \<and> d # cs = [] @ c # ds \<and> ds = [] @ ds \<and> quiet dispatch [] s"
      by simp
    then show ?thesis by blast
  next
    case False
    then have t: "t = s" using refused [of d s] d by simp
    with Cons.prems d False obtain es where es: "try_pending dispatch cs s = (Some c, es, s')" "ds = d # es"
      by (auto split: prod.splits)
    from Cons.IH [OF es(1)] obtain xs ys where "dispatch c s = (True, s')" "cs = xs @ c # ys" "es = xs @ ys" "quiet dispatch xs s"
      by blast
    then have "dispatch c s = (True, s') \<and> d # cs = (d # xs) @ c # ys \<and> ds = (d # xs) @ ys \<and> quiet dispatch (d # xs) s"
      using es(2) d False by simp
    then show ?thesis by blast
  qed
qed simp

text \<open>
  Commands of the same key leave the pending list in order, at the end none can be dispatched, and the effect on
  the state is that of the dispatched commands.
\<close>

lemma redispatch_spec:
  "redispatchCommands dispatch pending s = (cs, pending', s') \<Longrightarrow>
   of_key key k pending = of_key key k cs @ of_key key k pending' \<and> quiet dispatch pending' s' \<and>
   s' = fold (\<lambda>c s. snd (dispatch c s)) cs s"
proof (induction "length pending" arbitrary: pending s cs rule: less_induct)
  case (less pending)
  obtain f ds t where t: "try_pending dispatch pending s = (f, ds, t)" by (metis prod_cases3)
  show ?case
  proof (cases f)
    case None
    with t less.prems try_none [of pending s ds t] show ?thesis by (simp add: redispatchCommands.simps [of dispatch pending])
  next
    case (Some c)
    with t have f: "try_pending dispatch pending s = (Some c, ds, t)" by simp
    from try_some [OF this] obtain xs ys where c: "dispatch c s = (True, t)"
        and xs: "pending = xs @ c # ys" "ds = xs @ ys" "quiet dispatch xs s" by blast
    from less.prems f obtain cs' where cs: "redispatchCommands dispatch ds t = (cs', pending', s')" "cs = c # cs'"
      by (auto simp: redispatchCommands.simps [of dispatch pending] split: prod.splits)
    have "length ds < length pending" using xs by simp
    note less.hyps [OF this cs(1)]
    moreover have "key c = k \<Longrightarrow> of_key key k xs = []" using quiet_key [OF xs(3), of c] c by simp
    ultimately show ?thesis using xs cs(2) c by auto
  qed
qed

lemma quiet_try: "quiet dispatch cs s \<Longrightarrow> try_pending dispatch cs s = (None, cs, s)"
proof (induction cs)
  case (Cons c cs)
  then have "dispatch c s = (False, s)" using refused [of c s] by (metis (full_types) prod.collapse quiet_simps(2))
  with Cons show ?case by simp
qed simp

lemma quiet_redispatch: "quiet dispatch pending s \<Longrightarrow> redispatchCommands dispatch pending s = ([], pending, s)"
  by (simp add: redispatchCommands.simps [of dispatch pending] quiet_try)

lemma receive_spec:
  assumes "receiveCommand dispatch c pending s = (cs, pending', s')" and "quiet dispatch pending s"
  shows "of_key key k (pending @ [c]) = of_key key k cs @ of_key key k pending' \<and> quiet dispatch pending' s' \<and>
    s' = fold (\<lambda>c s. snd (dispatch c s)) cs s"
proof (cases "fst (dispatch c s)")
  case True
  obtain ds p u where r: "redispatchCommands dispatch pending (snd (dispatch c s)) = (ds, p, u)" by (metis prod_cases3)
  have "key c = k \<Longrightarrow> of_key key k pending = []" using quiet_key [OF assms(2) True] by simp
  moreover have "cs = c # ds" "pending' = p" "s' = u"
    using assms(1) r True by (auto simp: receiveCommand_def split: bool.splits prod.splits)
  ultimately show ?thesis using redispatch_spec [OF r, of k] by auto
next
  case False
  then have "dispatch c s = (False, s)" using refused [of c s] by (metis (full_types) prod.collapse)
  then have "cs = []" "pending' = pending @ [c]" "s' = s"
    using assms quiet_redispatch [OF assms(2)] by (simp_all add: receiveCommand_def)
  then show ?thesis using False assms(2) by simp
qed

end

section \<open>LocalNode\<close>

text \<open>
  A received command: a command for the node, with what its handler does to the object store (commands for the
  command thread are only queued), or one for objects.
\<close>

datatype received_command = NodeCommand "object_store \<Rightarrow> object_store" | ObjectCommand odcommand

fun ln_dispatchCommand :: "store_config \<Rightarrow> received_command \<Rightarrow> object_store \<Rightarrow> bool \<times> object_store" where
  "ln_dispatchCommand C (NodeCommand handler) st = (True, handler st)"
| "ln_dispatchCommand C (ObjectCommand command) st = st_dispatchObjectCommand C command st"

text \<open>Node commands have one key, object commands that of the instance they name.\<close>

fun rc_key :: "received_command \<Rightarrow> (uint128 \<times> uint32) option" where
  "rc_key (NodeCommand handler) = None"
| "rc_key (ObjectCommand command) = Some (oc_objectID command, oc_instanceID command)"

lemma dispatch_refused:
  "\<not> fst (st_dispatchObjectCommand C command st) \<Longrightarrow> snd (st_dispatchObjectCommand C command st) = st"
  by (simp add: st_dispatchObjectCommand_def Let_def split: option.splits if_splits)

lemma dispatch_same_key:
  "oc_objectID c = oc_objectID d \<Longrightarrow> oc_instanceID c = oc_instanceID d \<Longrightarrow>
   fst (st_dispatchObjectCommand C c st) = fst (st_dispatchObjectCommand C d st)"
  by (simp add: st_dispatchObjectCommand_def Let_def split: option.splits)

interpretation node_pending: pending_dispatch "ln_dispatchCommand C" rc_key for C
proof
  show "snd (ln_dispatchCommand C c s) = s" if "\<not> fst (ln_dispatchCommand C c s)" for c s
    using that dispatch_refused by (cases c) auto
  show "fst (ln_dispatchCommand C c s) = fst (ln_dispatchCommand C d s)" if "rc_key c = rc_key d" for c d s
    using that by (cases c; cases d) (simp_all, metis dispatch_same_key)
qed

section \<open>Runs of a node\<close>

text \<open>
  A run: the commands received so far, the commands dispatched, both in order, the pending ones, the
  store and its outstanding requests. The receiver thread takes a command, or is interrupted by
  \<^verbatim>\<open>flushCommands\<close>; other threads only take steps that do not change which object commands can be dispatched.
\<close>

record node_run =
  nr_received :: "received_command list"
  nr_dispatched :: "received_command list"
  nr_pending :: "received_command list"
  nr_store :: object_store
  nr_requests :: "pending list"

definition nr_receive :: "store_config \<Rightarrow> received_command \<Rightarrow> pending list \<Rightarrow> node_run \<Rightarrow> node_run" where
  "nr_receive C c ps s =
     (case receiveCommand (ln_dispatchCommand C) c (nr_pending s) (nr_store s) of
        (cs, pending, st) \<Rightarrow>
          \<lparr>nr_received = nr_received s @ [c], nr_dispatched = nr_dispatched s @ cs, nr_pending = pending,
           nr_store = st, nr_requests = ps\<rparr>)"

definition nr_redispatch :: "store_config \<Rightarrow> node_run \<Rightarrow> node_run" where
  "nr_redispatch C s =
     (case redispatchCommands (ln_dispatchCommand C) (nr_pending s) (nr_store s) of
        (cs, pending, st) \<Rightarrow> s\<lparr>nr_dispatched := nr_dispatched s @ cs, nr_pending := pending, nr_store := st\<rparr>)"

definition same_dispatch :: "store_config \<Rightarrow> object_store \<Rightarrow> object_store \<Rightarrow> bool" where
  "same_dispatch C st st' \<longleftrightarrow> (\<forall>c. fst (st_dispatchObjectCommand C c st') = fst (st_dispatchObjectCommand C c st))"

inductive nr_reach :: "global_config \<Rightarrow> pression \<Rightarrow> store_config \<Rightarrow> node_run \<Rightarrow> bool"
  for G :: global_config and P :: pression and C :: store_config where
  start: "\<forall>r. \<not> ob_isAttached (objects r) \<Longrightarrow>
    nr_reach G P C \<lparr>nr_received = [], nr_dispatched = [], nr_pending = [], nr_store = st_new n size' objects, nr_requests = []\<rparr>"
| receive_object: "nr_reach G P C s \<Longrightarrow> nr_reach G P C (nr_receive C (ObjectCommand c) (nr_requests s) s)"
| receive_node: "nr_reach G P C s \<Longrightarrow> st_step G P C (nr_store s, nr_requests s) (handler (nr_store s), ps) \<Longrightarrow>
    nr_reach G P C (nr_receive C (NodeCommand handler) ps s)"
| interrupt: "nr_reach G P C s \<Longrightarrow> nr_reach G P C (nr_redispatch C s)"
| other_thread: "nr_reach G P C s \<Longrightarrow> st_step G P C (nr_store s, nr_requests s) (st, ps) \<Longrightarrow> same_dispatch C (nr_store s) st \<Longrightarrow>
    nr_reach G P C (s\<lparr>nr_store := st, nr_requests := ps\<rparr>)"

text \<open>Only object commands are pending, and none of them can be dispatched.\<close>

definition nr_inv :: "store_config \<Rightarrow> node_run \<Rightarrow> bool" where
  "nr_inv C s \<longleftrightarrow>
     quiet (ln_dispatchCommand C) (nr_pending s) (nr_store s) \<and>
     (\<forall>k. of_key rc_key k (nr_received s) = of_key rc_key k (nr_dispatched s) @ of_key rc_key k (nr_pending s))"

lemma nr_inv_receive:
  assumes "nr_inv C s" shows "nr_inv C (nr_receive C c ps s)"
proof -
  obtain cs p st where r: "receiveCommand (ln_dispatchCommand C) c (nr_pending s) (nr_store s) = (cs, p, st)"
    by (metis prod_cases3)
  have quiet: "quiet (ln_dispatchCommand C) (nr_pending s) (nr_store s)" using assms by (simp add: nr_inv_def)
  have spec: "of_key rc_key k (nr_pending s @ [c]) = of_key rc_key k cs @ of_key rc_key k p" "quiet (ln_dispatchCommand C) p st" for k
    using node_pending.receive_spec [OF r quiet] by blast+
  have "of_key rc_key k (nr_received s @ [c]) = of_key rc_key k (nr_dispatched s) @ of_key rc_key k (nr_pending s @ [c])" for k
    using assms by (simp add: nr_inv_def)
  with spec r show ?thesis by (simp add: nr_inv_def nr_receive_def)
qed

lemma nr_inv_redispatch: "nr_inv C s \<Longrightarrow> nr_inv C (nr_redispatch C s)"
  by (simp add: nr_inv_def nr_redispatch_def node_pending.quiet_redispatch)

lemma nr_inv_other:
  assumes "nr_inv C s" and "same_dispatch C (nr_store s) st"
  shows "nr_inv C (s\<lparr>nr_store := st, nr_requests := ps\<rparr>)"
proof -
  have "fst (ln_dispatchCommand C c st) = fst (ln_dispatchCommand C c (nr_store s))" for c
    using assms(2) by (cases c) (auto simp: same_dispatch_def)
  with assms(1) show ?thesis by (simp add: nr_inv_def quiet_def)
qed

lemma nr_inv_reach: "nr_reach G P C s \<Longrightarrow> nr_inv C s"
proof (induction rule: nr_reach.induct)
  case (start objects n size')
  then show ?case by (simp add: nr_inv_def)
qed (auto intro: nr_inv_receive nr_inv_redispatch nr_inv_other)

text \<open>Dispatched commands are steps of the store, so the store of a run is reachable.\<close>

lemma reach_dispatched:
  "st_reach G P C (st, ps) \<Longrightarrow> \<forall>c\<in>set cs. \<exists>d. c = ObjectCommand d \<Longrightarrow>
   st_reach G P C (fold (\<lambda>c s. snd (ln_dispatchCommand C c s)) cs st, ps)"
proof (induction cs arbitrary: st)
  case (Cons c cs)
  then obtain d where "c = ObjectCommand d" by auto
  moreover have "st_reach G P C (snd (st_dispatchObjectCommand C d st), ps)"
    using Cons.prems(1) st_step.object_command by (rule st_reach.step)
  ultimately show ?case using Cons by simp
qed simp

lemma quiet_objects: "quiet (ln_dispatchCommand C) pending st \<Longrightarrow> \<forall>c\<in>set pending. \<exists>d. c = ObjectCommand d"
  unfolding quiet_def by (metis fst_conv ln_dispatchCommand.simps(1) received_command.exhaust)

lemma of_key_set: "(\<And>k. of_key key k xs = of_key key k cs @ of_key key k ys) \<Longrightarrow> set cs \<subseteq> set xs"
proof
  fix c assume e: "\<And>k. of_key key k xs = of_key key k cs @ of_key key k ys" and "c \<in> set cs"
  then have "c \<in> set (of_key key (key c) cs)" by (simp add: of_key_def)
  with e [of "key c"] have "c \<in> set (of_key key (key c) xs)" by simp
  then show "c \<in> set xs" by (simp add: of_key_def)
qed

lemma reach_receive:
  assumes "nr_inv C s" and "st_reach G P C (snd (ln_dispatchCommand C c (nr_store s)), ps)"
  shows "st_reach G P C (nr_store (nr_receive C c ps s), ps)"
proof -
  have quiet: "quiet (ln_dispatchCommand C) (nr_pending s) (nr_store s)" using assms by (simp add: nr_inv_def)
  obtain b t where d: "ln_dispatchCommand C c (nr_store s) = (b, t)" by (cases "ln_dispatchCommand C c (nr_store s)")
  obtain cs p st where r: "redispatchCommands (ln_dispatchCommand C) (nr_pending s) t = (cs, p, st)" by (metis prod_cases3)
  have "set cs \<subseteq> set (nr_pending s)" using node_pending.redispatch_spec [OF r] by (intro of_key_set) blast
  then have "\<forall>c\<in>set cs. \<exists>d. c = ObjectCommand d" using quiet_objects [OF quiet] by blast
  then have "st_reach G P C (st, ps)"
    using reach_dispatched [of G P C t ps cs] assms(2) d node_pending.redispatch_spec [OF r] by simp
  then show ?thesis using d r by (simp add: nr_receive_def receiveCommand_def split: bool.splits)
qed

lemma nr_store_reach: "nr_reach G P C s \<Longrightarrow> st_reach G P C (nr_store s, nr_requests s)"
proof (induction rule: nr_reach.induct)
  case (start objects n size')
  then show ?case by (simp add: st_reach.start)
next
  case (receive_object s c)
  have "st_reach G P C (snd (ln_dispatchCommand C (ObjectCommand c) (nr_store s)), nr_requests s)"
    using st_reach.step [OF receive_object.IH st_step.object_command] by simp
  from reach_receive [OF nr_inv_reach [OF receive_object.hyps] this] show ?case
    by (simp add: nr_receive_def split: prod.splits)
next
  case (receive_node s handler ps)
  have "st_reach G P C (snd (ln_dispatchCommand C (NodeCommand handler) (nr_store s)), ps)"
    using st_reach.step [OF receive_node.IH receive_node.hyps(2)] by simp
  from reach_receive [OF nr_inv_reach [OF receive_node.hyps(1)] this] show ?case
    by (simp add: nr_receive_def split: prod.splits)
next
  case (interrupt s)
  have "quiet (ln_dispatchCommand C) (nr_pending s) (nr_store s)"
    using nr_inv_reach [OF interrupt.hyps] by (simp add: nr_inv_def)
  then show ?case using interrupt.IH by (simp add: nr_redispatch_def node_pending.quiet_redispatch)
next
  case (other_thread s st ps)
  then show ?case using st_reach.step by simp
qed

text \<open>
  What the other threads do leaves the dispatch alone: the handlers in the command thread keep the table and the
  identifiers, and exchanging an object for another one keeps its identifier and its instance.
\<close>

lemma keeps_same_dispatch: "keeps st st' \<Longrightarrow> same_dispatch C st st'"
  by (simp add: same_dispatch_def keeps_def same_core_def st_dispatchObjectCommand_def st_findInstance_def Let_def
      split: option.split)

lemma swap_same_dispatch:
  assumes "st_reach G P C (st, ps)" and "sc_instanceMax C < CO_INSTANCE_NONE"
    and "old \<noteq> new" and "\<not> ob_isAttached (st_object st new)" and "no_pending new ps"
  shows "same_dispatch C st (st_swap old new st)"
proof -
  have swapped: "st_reach G P C (st_swap old new st, ps)"
    using assms(1) st_step.swap_object [OF assms(3-5)] by (rule st_reach.step)
  have "(\<exists>r. addressed C c (st_object (st_swap old new st) r)) \<longleftrightarrow> (\<exists>r. addressed C c (st_object st r))" for c
  proof (cases "st_swap old new st = st")
    case False
    then have o': "st_object (st_swap old new st) =
        (st_object st)(old := snd (ob_transfer (st_object st new) (st_object st old)),
                       new := fst (ob_transfer (st_object st new) (st_object st old)))"
      by (simp add: st_swap_def Let_def split: if_splits option.splits prod.splits)
    have "addressed C c (st_object (st_swap old new st) new) = addressed C c (st_object st old)"
      "\<not> addressed C c (st_object (st_swap old new st) old)" "\<not> addressed C c (st_object st new)"
      using assms(3,4) by (simp_all add: o' addressed_def ob_transfer_def ob_isAttached_def)
    moreover have "r \<noteq> old \<Longrightarrow> r \<noteq> new \<Longrightarrow> st_object (st_swap old new st) r = st_object st r" for r by (simp add: o')
    ultimately show ?thesis by metis
  qed simp
  then show ?thesis
    using object_dispatch_spec [OF assms(1,2)] object_dispatch_spec [OF swapped assms(2)]
    by (simp add: same_dispatch_def dispatch_spec_def)
qed

text \<open>
  C21 (pending_commands_in_order): in every run of a node, whatever order commands arrive in and objects are attached in, the
  commands for an instance are dispatched in the order they were received, each exactly once: those
  dispatched followed by those still pending are those received. A command is pending only while no
  object it addresses is attached: the retry loop ends only when nothing more can be dispatched.
\<close>

theorem pending_commands_in_order:
  assumes "nr_reach G P C s" and "sc_instanceMax C < CO_INSTANCE_NONE"
  shows "(\<forall>k. filter (\<lambda>c. rc_key c = k) (nr_received s) =
      filter (\<lambda>c. rc_key c = k) (nr_dispatched s) @ filter (\<lambda>c. rc_key c = k) (nr_pending s)) \<and>
    (\<forall>c\<in>set (nr_pending s). \<exists>d. c = ObjectCommand d \<and> (\<forall>r. \<not> addressed C d (st_object (nr_store s) r)))"
proof (intro conjI ballI)
  have inv: "nr_inv C s" using assms(1) by (rule nr_inv_reach)
  then show "\<forall>k. filter (\<lambda>c. rc_key c = k) (nr_received s) =
      filter (\<lambda>c. rc_key c = k) (nr_dispatched s) @ filter (\<lambda>c. rc_key c = k) (nr_pending s)"
    by (simp add: nr_inv_def of_key_def)
  have quiet: "quiet (ln_dispatchCommand C) (nr_pending s) (nr_store s)" using inv by (simp add: nr_inv_def)
  fix c assume c: "c \<in> set (nr_pending s)"
  then obtain d where d: "c = ObjectCommand d" using quiet_objects [OF quiet] by blast
  have "\<not> fst (st_dispatchObjectCommand C d (nr_store s))" using quiet c d by (auto simp: quiet_def)
  then have "\<not> fst (dispatch_spec C d (nr_store s))"
    using object_dispatch_spec [OF nr_store_reach [OF assms(1)] assms(2)] by simp
  then show "\<exists>d. c = ObjectCommand d \<and> (\<forall>r. \<not> addressed C d (st_object (nr_store s) r))"
    using d by (auto simp: dispatch_spec_def)
qed

text \<open>A command that arrives before the object it is for is registered.\<close>

definition early_command :: odcommand where
  "early_command = (sample_command 1 50 True)\<lparr>oc_objectID := 20, oc_instanceID := 1\<rparr>"

definition sample_register :: "object_store \<Rightarrow> object_store" where
  "sample_register st = fst (st_register sample_config sample_pression sample_store_config 0 st)"

definition sample_run0 :: node_run where
  "sample_run0 =
     \<lparr>nr_received = [], nr_dispatched = [], nr_pending = [],
      nr_store = st_new \<lparr>nd_id = 3, nd_outgoing = True, nd_multicast = None\<rparr> 100 sample_object, nr_requests = []\<rparr>"

definition sample_run1 :: node_run where
  "sample_run1 = nr_receive sample_store_config (ObjectCommand early_command) [] sample_run0"

definition sample_run2 :: node_run where
  "sample_run2 = nr_receive sample_store_config (NodeCommand sample_register) [] sample_run1"

lemma sample_run1_eq:
  "sample_run1 = sample_run0\<lparr>nr_received := [ObjectCommand early_command], nr_pending := [ObjectCommand early_command]\<rparr>"
  by (simp add: sample_run1_def sample_run0_def nr_receive_def receiveCommand_def redispatchCommands.simps
      st_dispatchObjectCommand_def st_new_def early_command_def CO_INSTANCE_NONE_def Let_def)

lemma sample_run2_pending: "nr_pending sample_run2 = []"
proof -
  have "sample_register (nr_store sample_run1) = sample_store0"
    by (simp add: sample_run1_eq sample_run0_def sample_register_def sample_store0_def)
  moreover have "ob_instanceID (st_object sample_store0 0) = 1"
    by (simp add: sample_store0_def st_register_def st_attach_def Let_def st_update_def st_new_def sample_store_config_def
        sample_genNextID)
  ultimately show ?thesis
    by (simp add: sample_run2_def nr_receive_def receiveCommand_def sample_run1_eq redispatchCommands.simps
        st_dispatchObjectCommand_def st_findInstance_def sample_store0_fields early_command_def Let_def
        sample_store_config_def split: prod.splits)
qed

lemma sample_run2_reach: "nr_reach sample_config sample_pression sample_store_config sample_run2"
proof -
  have 0: "nr_reach sample_config sample_pression sample_store_config sample_run0"
    unfolding sample_run0_def by (rule nr_reach.start) (simp add: sample_object_def ob_isAttached_def)
  then have 1: "nr_reach sample_config sample_pression sample_store_config sample_run1"
    unfolding sample_run1_def using nr_reach.receive_object [OF 0, of early_command] by (simp add: sample_run0_def)
  have "st_step sample_config sample_pression sample_store_config (nr_store sample_run1, nr_requests sample_run1)
      (sample_register (nr_store sample_run1), nr_requests sample_run1)"
    unfolding sample_register_def
    by (rule st_step.register_object)
       (simp_all add: sample_run1_eq sample_run0_def sample_object_def ob_isAttached_def st_new_def no_pending_def
         st_lastID_def sample_store_config_def)
  from nr_reach.receive_node [where handler = sample_register, OF 1 this] show ?thesis by (simp add: sample_run2_def sample_run1_eq sample_run0_def)
qed

theorem pending_commands_in_order_witness:
  "nr_pending sample_run1 = [ObjectCommand early_command] \<and>
   filter (\<lambda>c. rc_key c = Some (20, 1)) (nr_dispatched sample_run2) = [ObjectCommand early_command]"
proof -
  have "nr_received sample_run2 = [ObjectCommand early_command, NodeCommand sample_register]"
    by (simp add: sample_run2_def nr_receive_def sample_run1_eq split: prod.splits)
  with conjunct1 [OF pending_commands_in_order [OF sample_run2_reach sample_max], THEN spec, of "Some (20, 1)"]
  show ?thesis by (simp add: sample_run2_pending sample_run1_eq early_command_def)
qed

end
