(* ===== verification/Send_Token.thy ===== *)
theory Send_Token
  imports Barrier
begin

text \<open>
  The send token of a node, \<^verbatim>\<open>src/co/localNode.cpp\<close> and \<^verbatim>\<open>src/co/sendToken.cpp\<close>: nodes ask for it before they
  send bulk data and give it back afterwards. Without a timeout it is a fair lock; with one, as by
  default, it is not.
\<close>

section \<open>The node that has the token\<close>

text \<open>A request: the node that asks and the identifier of its request. Grants are replies to it.\<close>

type_synonym token_request = "NodeID \<times> uint32"

record token_node =
  tk_sendToken :: bool
  tk_lastSendToken :: uint64
  tk_sendTokenQueue :: "token_request list"

definition tk_new :: token_node where
  "tk_new = \<lparr>tk_sendToken = True, tk_lastSendToken = 0, tk_sendTokenQueue = []\<rparr>"

text \<open>\<^verbatim>\<open>_cmdAcquireSendToken\<close>: the state and the requests replied to; \<open>now\<close> is \<^verbatim>\<open>getTime64()\<close>.\<close>

definition tk_cmdAcquireSendToken ::
  "uint32 \<Rightarrow> uint32 \<Rightarrow> uint64 \<Rightarrow> token_request \<Rightarrow> token_node \<Rightarrow> token_node \<times> token_request list" where
  "tk_cmdAcquireSendToken indefinite timeout now command s =
     (if \<not> tk_sendToken s \<and> (timeout = indefinite \<or> now - tk_lastSendToken s \<le> ucast timeout)
      then (s\<lparr>tk_sendTokenQueue := tk_sendTokenQueue s @ [command]\<rparr>, [])
      else ((if tk_sendToken s then s else s\<lparr>tk_sendTokenQueue := []\<rparr>)\<lparr>tk_sendToken := False\<rparr>, [command]))"

definition tk_cmdReleaseSendToken :: "uint64 \<Rightarrow> token_node \<Rightarrow> token_node \<times> token_request list" where
  "tk_cmdReleaseSendToken now s =
     (let s = s\<lparr>tk_lastSendToken := now\<rparr>
      in if tk_sendToken s then (s, [])
         else case tk_sendTokenQueue s of
                [] \<Rightarrow> (s\<lparr>tk_sendToken := True\<rparr>, [])
              | request # requests \<Rightarrow> (s\<lparr>tk_sendTokenQueue := requests\<rparr>, [request]))"

section \<open>The token as a lock\<close>

text \<open>
  A run: the node and the requests that were granted the token and have not released it. A token is
  released once, by \<^verbatim>\<open>SendToken::release\<close>, here always by the one granted first.
\<close>

record token_run =
  tr_node :: token_node
  tr_holders :: "token_request list"

datatype token_event = Acquire token_request uint64 | Release uint64

definition tr_new :: token_run where
  "tr_new = \<lparr>tr_node = tk_new, tr_holders = []\<rparr>"

fun tr_step :: "uint32 \<Rightarrow> uint32 \<Rightarrow> token_event \<Rightarrow> token_run \<Rightarrow> token_run option" where
  "tr_step indefinite timeout (Acquire q now) s =
     (case tk_cmdAcquireSendToken indefinite timeout now q (tr_node s) of
        (n, granted) \<Rightarrow> Some \<lparr>tr_node = n, tr_holders = tr_holders s @ granted\<rparr>)"
| "tr_step indefinite timeout (Release now) s =
     (case tr_holders s of
        [] \<Rightarrow> None
      | h # hs \<Rightarrow>
          (case tk_cmdReleaseSendToken now (tr_node s) of
             (n, granted) \<Rightarrow> Some \<lparr>tr_node = n, tr_holders = hs @ granted\<rparr>))"

text \<open>The specification: a line of requests, of which the first one has the token.\<close>

fun line_step :: "token_event \<Rightarrow> token_request list \<Rightarrow> token_request list option" where
  "line_step (Acquire q now) line = Some (line @ [q])"
| "line_step (Release now) line = (case line of [] \<Rightarrow> None | q # line \<Rightarrow> Some line)"

definition tr_line :: "token_run \<Rightarrow> token_request list" where
  "tr_line s = tr_holders s @ tk_sendTokenQueue (tr_node s)"

definition tr_inv :: "token_run \<Rightarrow> bool" where
  "tr_inv s \<longleftrightarrow> length (tr_holders s) \<le> 1 \<and> (tk_sendToken (tr_node s) \<longleftrightarrow> tr_holders s = []) \<and>
     (tr_holders s = [] \<longrightarrow> tk_sendTokenQueue (tr_node s) = [])"

interpretation token_sim: forward_simulation "tr_step x x" line_step tr_line tr_inv "\<lambda>n s. True" for x
proof
  fix s n e line
  assume s: "tr_inv s" and e: "line_step e (tr_line s) = Some line"
  show "\<exists>s'. tr_step x x e s = Some s' \<and> tr_line s' = line \<and> tr_inv s' \<and> True"
  proof (cases e)
    case (Acquire q now)
    with s e show ?thesis
      by (cases "tr_holders s") (auto simp: tr_inv_def tr_line_def tk_cmdAcquireSendToken_def)
  next
    case (Release now)
    with s e show ?thesis
      by (cases "tr_holders s"; cases "tk_sendTokenQueue (tr_node s)")
         (auto simp: tr_inv_def tr_line_def tk_cmdReleaseSendToken_def Let_def)
  qed
qed

text \<open>
  C22 (send_token_fifo): without a timeout the send token is a fair lock. Whatever the order of requests and
  releases, there is never more than one holder, the token is granted in the order of the requests,
  and whenever somebody asks for it somebody has it: the holder is the first of those who asked and
  did not give it back yet, and exactly the others wait.
\<close>

theorem send_token_fifo:
  assumes "run_events line_step es [] = Some line"
  shows "\<exists>s. run_events (tr_step x x) es tr_new = Some s \<and>
    tr_holders s = take 1 line \<and> tk_sendTokenQueue (tr_node s) = drop 1 line"
proof -
  have "tr_inv tr_new" "tr_line tr_new = []" by (simp_all add: tr_inv_def tr_new_def tk_new_def tr_line_def)
  with token_sim.simulate_run [of tr_new es line x] assms obtain s
    where s: "run_events (tr_step x x) es tr_new = Some s" "tr_line s = line" "tr_inv s" by auto
  have "tr_holders s = take 1 line \<and> tk_sendTokenQueue (tr_node s) = drop 1 line"
    using s(2,3) by (cases "tr_holders s") (auto simp: tr_inv_def tr_line_def)
  with s(1) show ?thesis by blast
qed

theorem send_token_fifo_witness:
  "\<exists>s. run_events (tr_step 9 9) [Acquire (1, 5) 10, Acquire (2, 6) 11, Acquire (3, 7) 12, Release 20] tr_new = Some s \<and>
     tr_holders s = [(2, 6)] \<and> tk_sendTokenQueue (tr_node s) = [(3, 7)]"
  using send_token_fifo [of "[Acquire (1, 5) 10, Acquire (2, 6) 11, Acquire (3, 7) 12, Release 20]" "[(2, 6), (3, 7)]" 9]
  by simp

text \<open>
  With a timeout the token has two holders as soon as two nodes ask for it after it was idle for longer than
  the timeout: the time it was last used is only set by a release, so the second request finds the
  token taken and its last use too old, and a new one is made although the first was granted just before.
\<close>

lemma send_token_two_holders:
  assumes "timeout \<noteq> indefinite" and "ucast timeout < now"
  shows "\<exists>s. run_events (tr_step indefinite timeout) [Acquire q now, Acquire q' now] tr_new = Some s \<and> tr_holders s = [q, q']"
  using assms by (simp add: tr_new_def tk_new_def tk_cmdAcquireSendToken_def flip: not_less)

end
