(* ===== verification/Node_Data.thy ===== *)
theory Node_Data
  imports Collage_Prelude
begin

text \<open>
  The string form of connection descriptions and nodes, \<^verbatim>\<open>src/co/connectionDescription.cpp\<close> and
  \<^verbatim>\<open>src/co/node.cpp\<close>, which nodes exchange when they connect. Printing and reading of a 128 bit
  identifier belong to the lunchbox library and are parameters; the version numbers come from the
  build. Locks are left out.
\<close>

section \<open>Numbers in decimal\<close>

definition digit :: "nat \<Rightarrow> char" where
  "digit n = char_of (48 + n)"

definition isdigit :: "char \<Rightarrow> bool" where
  "isdigit c \<longleftrightarrow> 48 \<le> (of_char c :: nat) \<and> (of_char c :: nat) \<le> 57"

fun show_nat :: "nat \<Rightarrow> string" where
  "show_nat n = (if n < 10 then [digit n] else show_nat (n div 10) @ [digit (n mod 10)])"

declare show_nat.simps [simp del]

definition show_int :: "int \<Rightarrow> string" where
  "show_int i = (if i < 0 then ''-'' @ show_nat (nat (- i)) else show_nat (nat i))"

text \<open>\<^verbatim>\<open>atoi\<close>: white space, a sign, and digits up to the first other character.\<close>

definition digits_value :: "string \<Rightarrow> int" where
  "digits_value s = foldl (\<lambda>v c. 10 * v + (int (of_char c) - 48)) 0 (takeWhile isdigit s)"

definition isspace :: "char \<Rightarrow> bool" where
  "isspace c \<longleftrightarrow> (of_char c :: nat) \<in> {9, 10, 11, 12, 13, 32}"

definition atoi :: "string \<Rightarrow> int" where
  "atoi s =
     (case dropWhile isspace s of
        [] \<Rightarrow> 0
      | c # cs \<Rightarrow> if c = CHR ''-'' then - digits_value cs
                   else if c = CHR ''+'' then digits_value cs else digits_value (c # cs))"

text \<open>\<^verbatim>\<open>find\<close> a separator: what is before it and after it.\<close>

definition split_at :: "char \<Rightarrow> string \<Rightarrow> (string \<times> string) option" where
  "split_at c s =
     (case dropWhile (\<lambda>x. x \<noteq> c) s of [] \<Rightarrow> None | _ # rest \<Rightarrow> Some (takeWhile (\<lambda>x. x \<noteq> c) s, rest))"

section \<open>Connection descriptions\<close>

datatype connection_type =
    CONNECTIONTYPE_NONE | CONNECTIONTYPE_TCPIP | CONNECTIONTYPE_SDP | CONNECTIONTYPE_PIPE | CONNECTIONTYPE_NAMEDPIPE
  | CONNECTIONTYPE_IB | CONNECTIONTYPE_RDMA | CONNECTIONTYPE_UDT | CONNECTIONTYPE_MULTICAST | CONNECTIONTYPE_RSP

fun show_type :: "connection_type \<Rightarrow> string" where
  "show_type CONNECTIONTYPE_TCPIP = ''TCPIP''"
| "show_type CONNECTIONTYPE_SDP = ''SDP''"
| "show_type CONNECTIONTYPE_PIPE = ''ANON_PIPE''"
| "show_type CONNECTIONTYPE_NAMEDPIPE = ''PIPE''"
| "show_type CONNECTIONTYPE_RSP = ''RSP''"
| "show_type CONNECTIONTYPE_NONE = ''NONE''"
| "show_type CONNECTIONTYPE_RDMA = ''RDMA''"
| "show_type CONNECTIONTYPE_UDT = ''UDT''"
| "show_type _ = ''ERROR''"

definition getConnectionType :: "string \<Rightarrow> connection_type" where
  "getConnectionType s =
     (if s = ''TCPIP'' then CONNECTIONTYPE_TCPIP
      else if s = ''TCP'' then CONNECTIONTYPE_TCPIP
      else if s = ''SDP'' then CONNECTIONTYPE_SDP
      else if s = ''ANON_PIPE'' then CONNECTIONTYPE_PIPE
      else if s = ''PIPE'' then CONNECTIONTYPE_NAMEDPIPE
      else if s = ''RSP'' then CONNECTIONTYPE_RSP
      else if s = ''RDMA'' then CONNECTIONTYPE_RDMA
      else if s = ''UDT'' then CONNECTIONTYPE_UDT
      else CONNECTIONTYPE_NONE)"

record connection_description =
  cd_type :: connection_type
  cd_bandwidth :: "32 word"
  cd_port :: uint16
  cd_hostname :: string
  cd_interfacename :: string
  cd_filename :: string

definition cd_new :: connection_description where
  "cd_new =
     \<lparr>cd_type = CONNECTIONTYPE_TCPIP, cd_bandwidth = 0, cd_port = 0, cd_hostname = [], cd_interfacename = [],
      cd_filename = ''default''\<rparr>"

definition SEPARATOR :: char where "SEPARATOR = CHR ''#''"

definition cd_serialize :: "connection_description \<Rightarrow> string" where
  "cd_serialize d =
     show_type (cd_type d) @ [SEPARATOR] @ show_int (sint (cd_bandwidth d)) @ [SEPARATOR] @ cd_hostname d @ [SEPARATOR] @
     cd_interfacename d @ [SEPARATOR] @ show_nat (unat (cd_port d)) @ [SEPARATOR] @ cd_filename d @ [SEPARATOR]"

lemma split_at_length: "split_at c s = Some (t, r) \<Longrightarrow> length r < length s"
proof -
  assume "split_at c s = Some (t, r)"
  then have "length (dropWhile (\<lambda>x. x \<noteq> c) s) = Suc (length r)" by (auto simp: split_at_def split: list.splits)
  then show ?thesis using length_dropWhile_le [of "\<lambda>x. x \<noteq> c" s] by simp
qed

text \<open>
  \<^verbatim>\<open>fromString\<close>: success, the description and what is left of the data. The loop over the tokens of
  the human-readable form ends with the token that has no separator after it.
\<close>

function cd_tokens :: "connection_description \<Rightarrow> string \<Rightarrow> bool \<times> connection_description \<times> string" where
  "cd_tokens d data =
     (let (token, more) = (case split_at CHR '':'' data of None \<Rightarrow> (data, None) | Some (t, r) \<Rightarrow> (t, Some r));
          rest = (case more of None \<Rightarrow> data | Some r \<Rightarrow> r);
          (ok, d) = (if token \<noteq> [] \<and> isdigit (hd token) then (True, d\<lparr>cd_port := of_int (atoi token)\<rparr>)
                     else
                       (let type = getConnectionType token; d = d\<lparr>cd_type := type\<rparr>
                        in if type = CONNECTIONTYPE_NAMEDPIPE
                           then (True, d\<lparr>cd_filename := cd_hostname d, cd_hostname := []\<rparr>)
                           else (type \<noteq> CONNECTIONTYPE_NONE, d)))
      in if \<not> ok then (False, d, rest)
         else (case more of None \<Rightarrow> (True, d, []) | Some r \<Rightarrow> cd_tokens d r))"
  by pat_completeness auto

termination
  by (relation "measure (\<lambda>(d, s). length s)") (auto split: option.splits prod.splits dest: split_at_length)

declare cd_tokens.simps [simp del]

definition cd_fromString :: "connection_description \<Rightarrow> string \<Rightarrow> bool \<times> connection_description \<times> string" where
  "cd_fromString d data =
     (case split_at SEPARATOR data of
        None \<Rightarrow>
          (let d = d\<lparr>cd_type := CONNECTIONTYPE_TCPIP\<rparr>
           in case split_at CHR '':'' data of
                None \<Rightarrow> (True, d\<lparr>cd_hostname := data\<rparr>, [])
              | Some (h, r) \<Rightarrow> cd_tokens (d\<lparr>cd_hostname := h\<rparr>) r)
      | Some (t, data) \<Rightarrow>
          (let d = d\<lparr>cd_type := getConnectionType t\<rparr>
           in case split_at SEPARATOR data of
                None \<Rightarrow> (False, d, data)
              | Some (b, data) \<Rightarrow>
                  (let d = d\<lparr>cd_bandwidth := of_int (atoi b)\<rparr>
                   in case split_at SEPARATOR data of
                        None \<Rightarrow> (False, d, data)
                      | Some (h, data) \<Rightarrow>
                          (let d = d\<lparr>cd_hostname := h\<rparr>
                           in case split_at SEPARATOR data of
                                None \<Rightarrow> (False, d, data)
                              | Some (i, data) \<Rightarrow>
                                  (let d = d\<lparr>cd_interfacename := i\<rparr>
                                   in case split_at SEPARATOR data of
                                        None \<Rightarrow> (False, d, data)
                                      | Some (p, data) \<Rightarrow>
                                          (let d = d\<lparr>cd_port := of_int (atoi p)\<rparr>
                                           in case split_at SEPARATOR data of
                                                None \<Rightarrow> (False, d, data)
                                              | Some (f, data) \<Rightarrow> (True, d\<lparr>cd_filename := f\<rparr>, data)))))))"

definition isSameMulticastGroup :: "connection_description \<Rightarrow> connection_description \<Rightarrow> bool" where
  "isSameMulticastGroup d d' \<longleftrightarrow>
     cd_type d \<in> {CONNECTIONTYPE_MULTICAST, CONNECTIONTYPE_RSP} \<and> cd_type d = cd_type d' \<and>
     cd_hostname d = cd_hostname d' \<and> cd_port d = cd_port d'"

section \<open>Lists of descriptions\<close>

definition serialize_descriptions :: "connection_description list \<Rightarrow> string" where
  "serialize_descriptions ds = show_nat (length ds) @ [SEPARATOR] @ concat (map cd_serialize ds)"

fun read_descriptions ::
  "nat \<Rightarrow> string \<Rightarrow> connection_description list \<Rightarrow> bool \<times> connection_description list \<times> string" where
  "read_descriptions 0 data ds = (True, ds, data)"
| "read_descriptions (Suc n) data ds =
     (case cd_fromString cd_new data of
        (True, d, data) \<Rightarrow> read_descriptions n data (ds @ [d])
      | (False, d, data) \<Rightarrow> (False, ds, data))"

definition deserialize_descriptions ::
  "string \<Rightarrow> connection_description list \<Rightarrow> bool \<times> connection_description list \<times> string" where
  "deserialize_descriptions data ds =
     (case split_at SEPARATOR data of
        None \<Rightarrow> (False, ds, data)
      | Some (n, rest) \<Rightarrow>
          if n = [] \<or> \<not> isdigit (hd n) then (False, ds, data)
          else read_descriptions (nat (atoi n)) rest ds)"

section \<open>Nodes\<close>

text \<open>Of the state of a node the fields that are exchanged; its connections are modelled in \<open>Connections\<close>.\<close>

record node_data =
  nx_id :: NodeID
  nx_bigEndian :: bool
  nx_descriptions :: "connection_description list"

record id_format =
  show_id :: "NodeID \<Rightarrow> string"
  read_id :: "string \<Rightarrow> NodeID"

definition nx_addConnectionDescription :: "connection_description \<Rightarrow> node_data \<Rightarrow> node_data" where
  "nx_addConnectionDescription d n = n\<lparr>nx_descriptions := nx_descriptions n @ [d]\<rparr>"

fun erase_description :: "connection_description \<Rightarrow> connection_description list \<Rightarrow> connection_description list option" where
  "erase_description d [] = None"
| "erase_description d (x # xs) = (if d \<noteq> x then map_option ((#) x) (erase_description d xs) else Some xs)"

definition nx_removeConnectionDescription :: "connection_description \<Rightarrow> node_data \<Rightarrow> bool \<times> node_data" where
  "nx_removeConnectionDescription d n =
     (case erase_description d (nx_descriptions n) of
        None \<Rightarrow> (False, n)
      | Some ds \<Rightarrow> (True, n\<lparr>nx_descriptions := ds\<rparr>))"

definition nx_serialize :: "id_format \<Rightarrow> int \<Rightarrow> int \<Rightarrow> node_data \<Rightarrow> string" where
  "nx_serialize F major minor n =
     show_int major @ [SEPARATOR] @ show_int minor @ [SEPARATOR] @ show_id F (nx_id n) @ [SEPARATOR] @
     show_nat (if nx_bigEndian n then 1 else 0) @ [SEPARATOR] @ serialize_descriptions (nx_descriptions n)"

text \<open>
  \<^verbatim>\<open>deserialize\<close>: success, the node, what is left of the data, and the version in the warning that is
  logged when the remote version is not the local one (\<open>major\<close>, \<open>minor\<close>); it has no other effect. The
  numbers are read from a stream into an \<^verbatim>\<open>int32_t\<close>, which takes the nearest value of that type.
\<close>

definition stream_int32 :: "string \<Rightarrow> int" where
  "stream_int32 s = max (- (2 ^ 31)) (min (2 ^ 31 - 1) (atoi s))"

definition nx_deserialize ::
  "id_format \<Rightarrow> int \<Rightarrow> int \<Rightarrow> string \<Rightarrow> node_data \<Rightarrow> bool \<times> node_data \<times> string \<times> (int \<times> int) option" where
  "nx_deserialize F major minor data n =
     (case split_at SEPARATOR data of
        None \<Rightarrow> (False, n, data, None)
      | Some (v, data1) \<Rightarrow>
          if v = [] then (False, n, data, None)
          else (case split_at SEPARATOR data1 of
                  None \<Rightarrow> (False, n, data1, None)
                | Some (w, data2) \<Rightarrow>
                    if w = [] then (False, n, data1, None)
                    else
                      (let remote = (stream_int32 v, stream_int32 w);
                           mismatch = (if fst remote \<noteq> major \<or> snd remote \<noteq> minor then Some remote else None)
                       in case split_at SEPARATOR data2 of
                            None \<Rightarrow> (False, n, data2, mismatch)
                          | Some (i, data3) \<Rightarrow>
                              if i = [] then (False, n, data2, mismatch)
                              else
                                (let n = n\<lparr>nx_id := read_id F i\<rparr>
                                 in case split_at SEPARATOR data3 of
                                      None \<Rightarrow> (False, n, data3, mismatch)
                                    | Some (e, data4) \<Rightarrow>
                                        if e = [] then (False, n, data3, mismatch)
                                        else (case deserialize_descriptions data4 [] of
                                                (ok, ds, rest) \<Rightarrow>
                                                  (ok, n\<lparr>nx_bigEndian := atoi e \<noteq> 0, nx_descriptions := ds\<rparr>, rest,
                                                   mismatch))))))"

section \<open>Round trips\<close>

lemma isdigit_digit [simp]: "n < 10 \<Longrightarrow> isdigit (digit n)"
  by (simp add: isdigit_def digit_def of_char_of)

lemma digit_value [simp]: "n < 10 \<Longrightarrow> int (of_char (digit n)) = 48 + int n"
  by (simp add: digit_def of_char_of)

lemma show_nat_digits: "c \<in> set (show_nat n) \<Longrightarrow> isdigit c"
  by (induction n rule: show_nat.induct) (subst (asm) show_nat.simps, auto split: if_splits)

lemma show_nat_not_Nil [simp]: "show_nat n \<noteq> []"
  by (subst show_nat.simps) simp

lemma takeWhile_show_nat [simp]: "takeWhile isdigit (show_nat n) = show_nat n"
  by (simp add: takeWhile_eq_all_conv show_nat_digits)

lemma foldl_show_nat: "foldl (\<lambda>v c. 10 * v + (int (of_char c) - 48)) 0 (show_nat n) = int n"
proof (induction n rule: show_nat.induct)
  case (1 n)
  show ?case
  proof (cases "n < 10")
    case True
    then show ?thesis by (subst show_nat.simps) simp
  next
    case False
    then show ?thesis using 1 by (subst show_nat.simps) (simp add: zdiv_int zmod_int)
  qed
qed

lemma digits_value_show_nat [simp]: "digits_value (show_nat n) = int n"
  by (simp add: digits_value_def foldl_show_nat)

lemma digit_not_special:
  "isdigit c \<Longrightarrow> \<not> isspace c \<and> c \<noteq> CHR ''-'' \<and> c \<noteq> CHR ''+'' \<and> c \<noteq> SEPARATOR"
  by (auto simp: isdigit_def isspace_def SEPARATOR_def)

lemma isdigit_hd_show_nat [simp]: "isdigit (hd (show_nat n))"
  by (rule show_nat_digits [of _ n]) simp

lemma atoi_show_nat [simp]: "atoi (show_nat n) = int n"
proof -
  obtain c cs where c: "show_nat n = c # cs" by (cases "show_nat n") auto
  then have "isdigit c" using show_nat_digits [of c n] by simp
  then have "atoi (show_nat n) = digits_value (c # cs)"
    using digit_not_special [of c] by (simp add: atoi_def c)
  then show ?thesis by (simp flip: c)
qed

lemma atoi_show_int [simp]: "atoi (show_int i) = i"
  by (simp add: show_int_def) (simp add: atoi_def isspace_def)

lemma show_nat_no_separator [simp]: "SEPARATOR \<notin> set (show_nat n)"
  using show_nat_digits digit_not_special by blast

lemma show_int_no_separator [simp]: "SEPARATOR \<notin> set (show_int i)"
  by (simp add: show_int_def SEPARATOR_def) (use show_nat_no_separator in \<open>simp add: SEPARATOR_def\<close>)

lemma show_int_not_Nil [simp]: "show_int i \<noteq> []"
  by (simp add: show_int_def)

lemma show_type_no_separator [simp]: "SEPARATOR \<notin> set (show_type t)"
  by (cases t) (auto simp: SEPARATOR_def)

lemma split_at_append: "c \<notin> set s \<Longrightarrow> split_at c (s @ c # r) = Some (s, r)"
  by (induction s) (auto simp: split_at_def split: list.splits)

text \<open>What the machine-readable form can carry: the two types that print as an error, and names holding
  the separator, are excluded.\<close>

definition cd_printable :: "connection_description \<Rightarrow> bool" where
  "cd_printable d \<longleftrightarrow>
     cd_type d \<noteq> CONNECTIONTYPE_IB \<and> cd_type d \<noteq> CONNECTIONTYPE_MULTICAST \<and> SEPARATOR \<notin> set (cd_hostname d) \<and>
     SEPARATOR \<notin> set (cd_interfacename d) \<and> SEPARATOR \<notin> set (cd_filename d)"

lemma getConnectionType_show_type:
  "t \<noteq> CONNECTIONTYPE_IB \<Longrightarrow> t \<noteq> CONNECTIONTYPE_MULTICAST \<Longrightarrow> getConnectionType (show_type t) = t"
  by (cases t) (auto simp: getConnectionType_def)

lemma cd_fromString_serialize:
  assumes "cd_printable d"
  shows "cd_fromString d0 (cd_serialize d @ rest) = (True, d, rest)"
  using assms
  by (simp add: cd_fromString_def cd_serialize_def split_at_append cd_printable_def getConnectionType_show_type Let_def)

lemma read_descriptions_serialize:
  "\<forall>d\<in>set ds. cd_printable d \<Longrightarrow>
   read_descriptions (length ds) (concat (map cd_serialize ds) @ rest) acc = (True, acc @ ds, rest)"
  by (induction ds arbitrary: acc) (auto simp: cd_fromString_serialize)

lemma deserialize_descriptions_serialize:
  "\<forall>d\<in>set ds. cd_printable d \<Longrightarrow>
   deserialize_descriptions (serialize_descriptions ds @ rest) acc = (True, acc @ ds, rest)"
  by (simp add: deserialize_descriptions_def serialize_descriptions_def split_at_append read_descriptions_serialize)

definition id_format_ok :: "id_format \<Rightarrow> bool" where
  "id_format_ok F \<longleftrightarrow> (\<forall>i. read_id F (show_id F i) = i \<and> show_id F i \<noteq> [] \<and> SEPARATOR \<notin> set (show_id F i))"

definition nx_printable :: "node_data \<Rightarrow> bool" where
  "nx_printable n \<longleftrightarrow> (\<forall>d\<in>set (nx_descriptions n). cd_printable d) \<and> length (nx_descriptions n) < 2 ^ 31"

text \<open>A version of the remote node that is an \<^verbatim>\<open>int32_t\<close>.\<close>

definition is_int32 :: "int \<Rightarrow> bool" where
  "is_int32 i \<longleftrightarrow> - (2 ^ 31) \<le> i \<and> i < 2 ^ 31"

lemma stream_int32_show [simp]: "is_int32 i \<Longrightarrow> stream_int32 (show_int i) = i"
  by (simp add: is_int32_def stream_int32_def)

lemma nx_deserialize_serialize:
  "id_format_ok F \<Longrightarrow> nx_printable n \<Longrightarrow>
   \<exists>mismatch. nx_deserialize F ma mi (nx_serialize F major minor n @ rest) n0 = (True, n, rest, mismatch) \<and>
     (is_int32 major \<and> is_int32 minor \<longrightarrow> mismatch = (if major = ma \<and> minor = mi then None else Some (major, minor)))"
  by (simp add: id_format_ok_def nx_printable_def nx_deserialize_def nx_serialize_def split_at_append
      deserialize_descriptions_serialize Let_def)

lemma nx_deserialize_node:
  "id_format_ok F \<Longrightarrow> nx_printable n \<Longrightarrow> fst (snd (nx_deserialize F ma mi (nx_serialize F major minor n) n0)) = n"
  using nx_deserialize_serialize [of F n ma mi major minor "[]" n0] by auto

text \<open>
  C40 (node_data_roundtrip): the string a node sends about itself when it connects (version, identifier,
  endianness and connection descriptions) is consumed completely by the receiver, whatever follows it,
  and gives back every field; the version is compared with the receiver's own one and a different one is reported
  as it was sent. Names hold no separator, no description has one of the two types that print as an error
  (\<open>CONNECTIONTYPE_IB\<close>, \<open>CONNECTIONTYPE_MULTICAST\<close>), the descriptions are fewer than an \<open>int\<close> counts, the version
  numbers are of type \<^verbatim>\<open>int32_t\<close>, and the identifier format of the lunchbox library prints a non-empty string without
  separator which it reads back.
\<close>

theorem node_data_roundtrip:
  assumes "\<forall>i. read_id F (show_id F i) = i \<and> show_id F i \<noteq> [] \<and> SEPARATOR \<notin> set (show_id F i)"
    and "\<forall>d\<in>set (nx_descriptions n). cd_printable d"
    and "length (nx_descriptions n) < 2 ^ 31" and "is_int32 major" and "is_int32 minor"
  shows "nx_deserialize F ownMajor ownMinor (nx_serialize F major minor n @ rest) n0 =
         (True, n, rest, if major = ownMajor \<and> minor = ownMinor then None else Some (major, minor))"
  using nx_deserialize_serialize [of F n ownMajor ownMinor major minor rest n0] assms
  by (auto simp: id_format_ok_def nx_printable_def)

definition decimal_ids :: id_format where
  "decimal_ids = \<lparr>show_id = \<lambda>i. show_nat (unat i), read_id = \<lambda>s. of_int (atoi s)\<rparr>"

definition sample_node :: node_data where
  "sample_node =
     \<lparr>nx_id = 4711, nx_bigEndian = False,
      nx_descriptions =
        [\<lparr>cd_type = CONNECTIONTYPE_RSP, cd_bandwidth = 1000, cd_port = 4242, cd_hostname = ''239.255.42.43'',
          cd_interfacename = ''10.1.1.1'', cd_filename = ''default''\<rparr>, cd_new]\<rparr>"

theorem node_data_roundtrip_witness:
  "nx_deserialize decimal_ids 1 4 (nx_serialize decimal_ids 1 3 sample_node @ ''more'')
     \<lparr>nx_id = 0, nx_bigEndian = True, nx_descriptions = []\<rparr> = (True, sample_node, ''more'', Some (1, 3))"
  by (subst node_data_roundtrip)
    (simp_all add: is_int32_def decimal_ids_def sample_node_def cd_new_def cd_printable_def SEPARATOR_def
      show_nat_no_separator [unfolded SEPARATOR_def])

end
