(* ===== verification/Local_Node.thy ===== *)
theory Local_Node
  imports Node_Data
begin

text \<open>
  Nodes that connect to each other, \<^verbatim>\<open>src/co/localNode.cpp\<close> and \<^verbatim>\<open>src/co/node.cpp\<close>: the tables of a local
  node, the handlers of the connection handshake, closing of nodes and loss of connections. The
  objects of class \<^verbatim>\<open>Node\<close> a local node knows are a list, in which the local node itself is the first;
  connections are numbers. Not here: the pipe to the own receiver thread, the time of the last
  command received, and the byte order of the handshake commands.
\<close>

section \<open>Node\<close>

datatype node_state = STATE_CLOSED | STATE_CONNECTED | STATE_LISTENING | STATE_CLOSING

record peer =
  pn_data :: node_data
  pn_type :: uint32
  pn_state :: node_state
  pn_outgoing :: "nat option"
  pn_outMulticast :: "nat option"
  pn_multicasts :: "(nat \<times> nat) list"

definition pn_new :: "uint32 \<Rightarrow> node_data \<Rightarrow> peer" where
  "pn_new type d =
     \<lparr>pn_data = d, pn_type = type, pn_state = STATE_CLOSED, pn_outgoing = None, pn_outMulticast = None, pn_multicasts = []\<rparr>"

definition pn_id :: "peer \<Rightarrow> NodeID" where
  "pn_id n = nx_id (pn_data n)"

definition pn_isReachable :: "peer \<Rightarrow> bool" where
  "pn_isReachable n \<longleftrightarrow> pn_state n = STATE_LISTENING \<or> pn_state n = STATE_CONNECTED"

definition pn_connect :: "nat \<Rightarrow> peer \<Rightarrow> peer" where
  "pn_connect c n = n\<lparr>pn_outgoing := Some c, pn_state := STATE_CONNECTED\<rparr>"

definition pn_disconnect :: "peer \<Rightarrow> peer" where
  "pn_disconnect n = n\<lparr>pn_state := STATE_CLOSED, pn_outgoing := None, pn_outMulticast := None, pn_multicasts := []\<rparr>"

definition pn_addMulticast :: "nat \<Rightarrow> nat \<Rightarrow> peer \<Rightarrow> peer" where
  "pn_addMulticast r c n = n\<lparr>pn_multicasts := pn_multicasts n @ [(c, r)]\<rparr>"

fun erase_multicast :: "nat \<Rightarrow> (nat \<times> nat) list \<Rightarrow> (nat \<times> nat) list" where
  "erase_multicast c [] = []"
| "erase_multicast c ((c', r) # ms) = (if c' = c then ms else (c', r) # erase_multicast c ms)"

definition pn_removeMulticast :: "nat \<Rightarrow> peer \<Rightarrow> peer" where
  "pn_removeMulticast c n =
     (if pn_outMulticast n = Some c then n\<lparr>pn_outMulticast := None\<rparr>
      else n\<lparr>pn_multicasts := erase_multicast c (pn_multicasts n)\<rparr>)"

text \<open>
  \<^verbatim>\<open>_connectMulticast( node )\<close>: the groups both nodes have; \<open>descr\<close> gives the description of a connection. A
  description equals that of the connection in use when it is the same object, here the same value.
\<close>

definition isMulticastType :: "connection_type \<Rightarrow> bool" where
  "isMulticastType t \<longleftrightarrow> t = CONNECTIONTYPE_MULTICAST \<or> t = CONNECTIONTYPE_RSP"

definition join_group :: "(nat \<Rightarrow> connection_description) \<Rightarrow> peer \<Rightarrow> connection_description \<Rightarrow> peer \<Rightarrow> peer" where
  "join_group descr self d n =
     (case pn_outMulticast self of
        Some c \<Rightarrow>
          if descr c = d then n\<lparr>pn_outMulticast := Some c\<rparr>
          else n\<lparr>pn_multicasts := pn_multicasts n @ filter (\<lambda>(c, r). isSameMulticastGroup d (descr c)) (pn_multicasts self)\<rparr>
      | None \<Rightarrow>
          n\<lparr>pn_multicasts := pn_multicasts n @ filter (\<lambda>(c, r). isSameMulticastGroup d (descr c)) (pn_multicasts self)\<rparr>)"

definition pn_connectMulticast :: "(nat \<Rightarrow> connection_description) \<Rightarrow> peer \<Rightarrow> peer \<Rightarrow> peer" where
  "pn_connectMulticast descr self n =
     (if pn_outMulticast n \<noteq> None then n
      else fold (\<lambda>d n. fold (\<lambda>d' n. if isSameMulticastGroup d d' then join_group descr self d n else n)
                              (nx_descriptions (pn_data n)) n)
             (filter (\<lambda>d. isMulticastType (cd_type d)) (nx_descriptions (pn_data self))) n)"

text \<open>
  \<^verbatim>\<open>_connectMulticast( node, connection )\<close>: the new states of this node and of the other one. A connection that
  is not used yet although another one is, is kept with this node.
\<close>

definition pn_useMulticast :: "nat \<Rightarrow> nat \<Rightarrow> peer \<Rightarrow> peer \<Rightarrow> peer \<times> peer" where
  "pn_useMulticast self_ref c self n =
     (let known = (\<exists>m\<in>set (pn_multicasts n). fst m = c)
      in case pn_outMulticast n of
           Some c' \<Rightarrow>
             if c' = c \<or> known then (self, n) else (pn_addMulticast self_ref c self, n)
         | None \<Rightarrow>
             (self, n\<lparr>pn_outMulticast := Some c, pn_multicasts := erase_multicast c (pn_multicasts n)\<rparr>))"

section \<open>LocalNode\<close>

record local_node =
  ln_peers :: "peer list"
  ln_nodes :: "(NodeID \<times> nat) list"
  ln_connectionNodes :: "(nat \<times> nat) list"
  ln_incoming :: "nat list"
  ln_requests :: "(uint32 \<times> nat) list"
  ln_results :: "(uint32 \<times> bool) list"

text \<open>
  What the sources take from elsewhere: the format of identifiers, the version, the constant for no request; the
  virtual function \<^verbatim>\<open>createNode\<close>, which may refuse a type; which connections are multicast ones, and the descriptions of connections.
\<close>

record node_env =
  ne_format :: id_format
  ne_major :: int
  ne_minor :: int
  ne_undefined :: uint32
  ne_creates :: "uint32 \<Rightarrow> bool"
  ne_multicast :: "nat \<Rightarrow> bool"
  ne_descr :: "nat \<Rightarrow> connection_description"

text \<open>Commands of the handshake; a refused connection has the identifier zero.\<close>

datatype message =
    NODE_CONNECT NodeID uint32 uint32 string
  | NODE_CONNECT_REPLY NodeID uint32 uint32 string
  | NODE_CONNECT_ACK
  | NODE_ID NodeID uint32 string

text \<open>What a handler does beyond the tables: commands sent, connections closed, and calls to the object store.\<close>

datatype node_effect = Send nat message | Close nat | RemoveInstanceData NodeID | RemoveNode nat

definition ln_self :: "local_node \<Rightarrow> peer" where
  "ln_self s = ln_peers s ! 0"

definition ln_serialize :: "node_env \<Rightarrow> local_node \<Rightarrow> string" where
  "ln_serialize E s = nx_serialize (ne_format E) (ne_major E) (ne_minor E) (pn_data (ln_self s))"

definition ln_update :: "nat \<Rightarrow> (peer \<Rightarrow> peer) \<Rightarrow> local_node \<Rightarrow> local_node" where
  "ln_update r f s = s\<lparr>ln_peers := (ln_peers s)[r := f (ln_peers s ! r)]\<rparr>"

definition ln_serveRequest :: "uint32 \<Rightarrow> bool \<Rightarrow> local_node \<Rightarrow> local_node" where
  "ln_serveRequest rid v s =
     (case map_of (ln_requests s) rid of
        None \<Rightarrow> s
      | Some r \<Rightarrow> s\<lparr>ln_requests := AList.delete rid (ln_requests s), ln_results := (rid, v) # ln_results s\<rparr>)"

definition ln_removeConnection :: "nat \<Rightarrow> local_node \<Rightarrow> local_node \<times> node_effect list" where
  "ln_removeConnection c s = (s\<lparr>ln_incoming := remove1 c (ln_incoming s)\<rparr>, [Close c])"

text \<open>A connection that may be missing is taken out of the set and the table.\<close>

definition ln_dropConnection :: "nat option \<Rightarrow> local_node \<Rightarrow> local_node \<times> node_effect list" where
  "ln_dropConnection oc s =
     (case oc of
        None \<Rightarrow> (s, [])
      | Some c \<Rightarrow>
          (case ln_removeConnection c s of
             (s, es) \<Rightarrow> (s\<lparr>ln_connectionNodes := AList.delete c (ln_connectionNodes s)\<rparr>, es)))"

definition ln_closeNode :: "nat \<Rightarrow> local_node \<Rightarrow> local_node \<times> node_effect list" where
  "ln_closeNode r s =
     (let n = ln_peers s ! r; s = ln_update r pn_disconnect s;
          (s, es) = ln_dropConnection (pn_outgoing n) s;
          (s, es') = ln_dropConnection (pn_outMulticast n) s
      in (s\<lparr>ln_nodes := AList.delete (pn_id n) (ln_nodes s)\<rparr>, es @ es' @ [RemoveInstanceData (pn_id n)]))"

text \<open>\<^verbatim>\<open>createNode\<close>: the new object, when there is one, is the last of the list.\<close>

definition ln_createNode :: "node_env \<Rightarrow> uint32 \<Rightarrow> node_data \<Rightarrow> local_node \<Rightarrow> nat option \<times> local_node" where
  "ln_createNode E type d s =
     (if ne_creates E type then (Some (length (ln_peers s)), s\<lparr>ln_peers := ln_peers s @ [pn_new type d]\<rparr>) else (None, s))"

definition ln_deserialize :: "node_env \<Rightarrow> nat \<Rightarrow> string \<Rightarrow> local_node \<Rightarrow> local_node" where
  "ln_deserialize E r data =
     ln_update r (\<lambda>n. n\<lparr>pn_data := fst (snd (nx_deserialize (ne_format E) (ne_major E) (ne_minor E) data (pn_data n)))\<rparr>)"

definition ln_setNode :: "nat \<Rightarrow> local_node \<Rightarrow> local_node" where
  "ln_setNode r s = s\<lparr>ln_nodes := AList.update (pn_id (ln_peers s ! r)) r (ln_nodes s)\<rparr>"

definition ln_setConnection :: "nat \<Rightarrow> nat \<Rightarrow> local_node \<Rightarrow> local_node" where
  "ln_setConnection c r s = s\<lparr>ln_connectionNodes := AList.update c r (ln_connectionNodes s)\<rparr>"

definition ln_connectMulticast :: "node_env \<Rightarrow> nat \<Rightarrow> local_node \<Rightarrow> local_node" where
  "ln_connectMulticast E r s = ln_update r (pn_connectMulticast (ne_descr E) (ln_self s)) s"

subsection \<open>The handshake\<close>

text \<open>
  \<^verbatim>\<open>_connect( node, connection )\<close> up to the wait for the request, which \<^verbatim>\<open>ln_connectResult\<close> evaluates;
  \<open>up\<close> says whether the connection is connected.
\<close>

definition ln_connect :: "node_env \<Rightarrow> bool \<Rightarrow> uint32 \<Rightarrow> nat \<Rightarrow> nat \<Rightarrow> local_node \<Rightarrow> (local_node \<times> node_effect list) option" where
  "ln_connect E up rid r c s =
     (if pn_state (ln_self s) \<noteq> STATE_LISTENING \<or> \<not> up \<or> pn_state (ln_peers s ! r) \<noteq> STATE_CLOSED then None
      else Some (s\<lparr>ln_incoming := ln_incoming s @ [c], ln_requests := AList.update rid r (ln_requests s)\<rparr>,
                 [Send c (NODE_CONNECT (pn_id (ln_self s)) rid (pn_type (ln_self s)) (ln_serialize E s))]))"

datatype connect_result = CONNECT_OK | CONNECT_TRY_AGAIN | CONNECT_BAD_STATE | CONNECT_TIMEOUT | CONNECT_UNREACHABLE

text \<open>The result of the request, \<^term>\<open>None\<close> after the timeout.\<close>

definition ln_connectResult :: "bool option \<Rightarrow> nat \<Rightarrow> local_node \<Rightarrow> connect_result" where
  "ln_connectResult connected r s =
     (case connected of
        None \<Rightarrow> CONNECT_TIMEOUT
      | Some b \<Rightarrow> if \<not> b \<or> pn_state (ln_peers s ! r) \<noteq> STATE_CONNECTED then CONNECT_TRY_AGAIN else CONNECT_OK)"

definition ln_unregister :: "uint32 \<Rightarrow> local_node \<Rightarrow> local_node" where
  "ln_unregister rid s = s\<lparr>ln_requests := AList.delete rid (ln_requests s)\<rparr>"

text \<open>\<^verbatim>\<open>_handleConnect\<close>: the new connection, when accepting it worked, is received from.\<close>

definition ln_handleConnect :: "nat option \<Rightarrow> local_node \<Rightarrow> local_node" where
  "ln_handleConnect newConn s =
     (case newConn of None \<Rightarrow> s | Some c \<Rightarrow> s\<lparr>ln_incoming := ln_incoming s @ [c]\<rparr>)"

text \<open>\<^verbatim>\<open>fresh\<close> is the data of a node just constructed: an identifier that is made up.\<close>

definition ln_cmdConnect ::
  "node_env \<Rightarrow> node_data \<Rightarrow> nat \<Rightarrow> NodeID \<Rightarrow> uint32 \<Rightarrow> uint32 \<Rightarrow> string \<Rightarrow> local_node \<Rightarrow> local_node \<times> node_effect list" where
  "ln_cmdConnect E fresh c nodeID requestID nodeType data s =
     (let refuse = (case ln_removeConnection c s of
                      (s, es) \<Rightarrow> (s, Send c (NODE_CONNECT_REPLY 0 requestID 0 []) # es));
          accept = (\<lambda>r s.
            (let s = ln_setNode r (ln_setConnection c r (ln_deserialize E r data s))
             in (s, [Send c (NODE_CONNECT_REPLY (pn_id (ln_self s)) requestID (pn_type (ln_self s)) (ln_serialize E s))])))
      in case map_of (ln_nodes s) nodeID of
           Some r \<Rightarrow> if pn_isReachable (ln_peers s ! r) then refuse else accept r s
         | None \<Rightarrow>
             (case ln_createNode E nodeType fresh s of
                (None, s) \<Rightarrow> refuse
              | (Some r, s) \<Rightarrow> accept r s))"

definition ln_cmdConnectReply ::
  "node_env \<Rightarrow> node_data \<Rightarrow> nat \<Rightarrow> NodeID \<Rightarrow> uint32 \<Rightarrow> uint32 \<Rightarrow> string \<Rightarrow> local_node \<Rightarrow> local_node \<times> node_effect list" where
  "ln_cmdConnectReply E fresh c nodeID requestID nodeType data s =
     (let accept = (\<lambda>r s.
            (let s = ln_deserialize E r data s;
                 s = ln_connectMulticast E r (ln_setNode r (ln_setConnection c r (ln_update r (pn_connect c) s)))
             in (ln_serveRequest requestID True s, [Send c NODE_CONNECT_ACK])))
      in if nodeID = 0 then
           (case ln_removeConnection c s of (s, es) \<Rightarrow> (ln_serveRequest requestID False s, es))
         else
           case map_of (ln_nodes s) nodeID of
             Some r \<Rightarrow>
               if pn_isReachable (ln_peers s ! r) then
                 (case ln_removeConnection c s of
                    (s, es) \<Rightarrow>
                      (case ln_closeNode r s of (s, es') \<Rightarrow> (ln_serveRequest requestID False s, es @ es')))
               else accept r s
           | None \<Rightarrow>
               (case (if requestID \<noteq> ne_undefined E then (map_of (ln_requests s) requestID, s)
                      else ln_createNode E nodeType fresh s) of
                  (None, s) \<Rightarrow> ln_removeConnection c s
                | (Some r, s) \<Rightarrow> accept r s))"

definition ln_cmdConnectAck :: "node_env \<Rightarrow> nat \<Rightarrow> nat \<Rightarrow> local_node \<Rightarrow> local_node \<times> node_effect list" where
  "ln_cmdConnectAck E c r s = (ln_connectMulticast E r (ln_update r (pn_connect c) s), [])"

text \<open>\<^verbatim>\<open>_cmdID\<close>, received on a multicast connection before the sender is known there.\<close>

definition ln_useMulticast :: "nat \<Rightarrow> nat \<Rightarrow> local_node \<Rightarrow> local_node" where
  "ln_useMulticast r c s =
     (case pn_useMulticast 0 c (ln_self s) (ln_peers s ! r) of
        (self, n) \<Rightarrow> if r = 0 then ln_update 0 (\<lambda>_. if pn_outMulticast (ln_self s) = None then n else self) s
                     else ln_update r (\<lambda>_. n) (ln_update 0 (\<lambda>_. self) s))"

definition ln_cmdID ::
  "node_env \<Rightarrow> node_data \<Rightarrow> nat \<Rightarrow> NodeID \<Rightarrow> uint32 \<Rightarrow> string \<Rightarrow> local_node \<Rightarrow> local_node \<times> node_effect list" where
  "ln_cmdID E fresh c nodeID nodeType data s =
     (let use = (\<lambda>r s. (ln_setConnection c r (ln_useMulticast r c s), []))
      in if nodeID = pn_id (ln_self s) then use 0 s
         else case map_of (ln_nodes s) nodeID of
                Some r \<Rightarrow> use r s
              | None \<Rightarrow>
                  (case ln_createNode E nodeType fresh s of
                     (None, s) \<Rightarrow> (s, [])
                   | (Some r, s) \<Rightarrow>
                       (let s = ln_deserialize E r data s
                        in use r (s\<lparr>ln_nodes := AList.update nodeID r (ln_nodes s)\<rparr>))))"

text \<open>
  \<^verbatim>\<open>_setupCommand\<close> and the dispatch of a handshake command: it belongs to the node of the connection; without one
  only the first commands of a connection are handled.
\<close>

definition ln_receive :: "node_env \<Rightarrow> node_data \<Rightarrow> nat \<Rightarrow> message \<Rightarrow> local_node \<Rightarrow> local_node \<times> node_effect list" where
  "ln_receive E fresh c m s =
     (case m of
        NODE_CONNECT i rid t d \<Rightarrow> ln_cmdConnect E fresh c i rid t d s
      | NODE_CONNECT_REPLY i rid t d \<Rightarrow> ln_cmdConnectReply E fresh c i rid t d s
      | NODE_CONNECT_ACK \<Rightarrow>
          (case map_of (ln_connectionNodes s) c of None \<Rightarrow> (s, []) | Some r \<Rightarrow> ln_cmdConnectAck E c r s)
      | NODE_ID i t d \<Rightarrow>
          (case map_of (ln_connectionNodes s) c of None \<Rightarrow> ln_cmdID E fresh c i t d s | Some r \<Rightarrow> (s, [])))"

subsection \<open>Closing\<close>

text \<open>\<^verbatim>\<open>_handleDisconnect\<close>, after the data left on the connection has been read.\<close>

definition ln_handleDisconnect :: "node_env \<Rightarrow> nat \<Rightarrow> local_node \<Rightarrow> local_node \<times> node_effect list" where
  "ln_handleDisconnect E c s =
     (case map_of (ln_connectionNodes s) c of
        None \<Rightarrow> ln_removeConnection c s
      | Some r \<Rightarrow>
          (let (s, es) =
                 (if pn_outgoing (ln_peers s ! r) = Some c then ln_closeNode r s
                  else if ne_multicast E c then (ln_update r (pn_removeMulticast c) s, [])
                  else (s, []));
               (s, es') = ln_removeConnection c s
           in (s, RemoveNode r # es @ es')))"

text \<open>\<^verbatim>\<open>disconnect\<close>, its command to the own receiver thread included; the result is whether the node is closed.\<close>

definition ln_disconnect :: "nat \<Rightarrow> local_node \<Rightarrow> bool \<times> local_node \<times> node_effect list" where
  "ln_disconnect r s =
     (if pn_state (ln_self s) \<noteq> STATE_LISTENING then (False, s, [])
      else if pn_state (ln_peers s ! r) \<noteq> STATE_CONNECTED then (True, s, [])
      else (case ln_closeNode r s of (s, es) \<Rightarrow> (True, s, es @ [RemoveNode r])))"

end
