(* ===== verification/Connect_Protocol.thy ===== *)
theory Connect_Protocol
  imports Local_Node
begin

text \<open>
  A network of local nodes that connect, disconnect, lose connections and announce themselves on multicast
  groups, in any order and at the same time. Every connection delivers what its two ends send in order. Whatever happens, a connection is
  only ever attributed to the node at its other end.
\<close>

section \<open>The network\<close>

text \<open>A connection: the node that opened it, the node that accepted it, and the request of the opener.\<close>

record net_connection =
  cn_opener :: NodeID
  cn_acceptor :: NodeID
  cn_request :: uint32

record network =
  net_node :: "NodeID \<Rightarrow> local_node"
  net_connections :: "net_connection list"
  net_channel :: "nat \<Rightarrow> NodeID \<Rightarrow> message list"

definition other_end :: "network \<Rightarrow> nat \<Rightarrow> NodeID \<Rightarrow> NodeID" where
  "other_end N c p =
     (if cn_opener (net_connections N ! c) = p then cn_acceptor (net_connections N ! c)
      else cn_opener (net_connections N ! c))"

definition at_end :: "network \<Rightarrow> nat \<Rightarrow> NodeID \<Rightarrow> bool" where
  "at_end N c p \<longleftrightarrow>
     c < length (net_connections N) \<and> p \<in> {cn_opener (net_connections N ! c), cn_acceptor (net_connections N ! c)}"

definition net_sends :: "nat \<Rightarrow> node_effect list \<Rightarrow> message list" where
  "net_sends c es = concat (map (\<lambda>e. case e of Send c' m \<Rightarrow> if c' = c then [m] else [] | _ \<Rightarrow> []) es)"

text \<open>The node \<open>p\<close> has a new state and the effects of its handler reach the other ends.\<close>

definition net_apply :: "NodeID \<Rightarrow> local_node \<times> node_effect list \<Rightarrow> network \<Rightarrow> network" where
  "net_apply p r N =
     N\<lparr>net_node := (net_node N)(p := fst r),
       net_channel := (\<lambda>c q. net_channel N c q @ (if at_end N c p \<and> q = other_end N c p then net_sends c (snd r) else []))\<rparr>"

definition net_open :: "net_connection \<Rightarrow> network \<Rightarrow> network" where
  "net_open conn N = N\<lparr>net_connections := net_connections N @ [conn]\<rparr>"

definition net_take :: "nat \<Rightarrow> NodeID \<Rightarrow> network \<Rightarrow> network" where
  "net_take c p N = N\<lparr>net_channel := (net_channel N)(c := (net_channel N c)(p := tl (net_channel N c p)))\<rparr>"

definition referenced :: "nat \<Rightarrow> local_node \<Rightarrow> bool" where
  "referenced r s \<longleftrightarrow>
     r = 0 \<or> r \<in> ran (map_of (ln_nodes s)) \<or> r \<in> ran (map_of (ln_connectionNodes s)) \<or> pn_outgoing (ln_peers s ! r) \<noteq> None"

text \<open>
  Steps. A node object is used for one connection attempt at a time, a node that is known is contacted at
  its own address, and request identifiers are not reused.
\<close>

inductive net_step :: "node_env \<Rightarrow> network \<Rightarrow> network \<Rightarrow> bool" for E :: node_env where
  create: "net_step E N (net_apply p ((net_node N p)\<lparr>ln_peers := ln_peers (net_node N p) @ [pn_new type d]\<rparr>, []) N)"
| connect: "p \<noteq> q \<Longrightarrow> q \<noteq> 0 \<Longrightarrow> r < length (ln_peers (net_node N p)) \<Longrightarrow> r \<notin> ran (map_of (ln_requests (net_node N p))) \<Longrightarrow>
    (referenced r (net_node N p) \<Longrightarrow> pn_id (ln_peers (net_node N p) ! r) = q) \<Longrightarrow>
    (\<forall>conn\<in>set (net_connections N). cn_opener conn = p \<longrightarrow> cn_request conn \<noteq> rid) \<Longrightarrow>
    \<not> ne_multicast E (length (net_connections N)) \<Longrightarrow>
    ln_connect E up rid r (length (net_connections N)) (net_node N p) = Some result \<Longrightarrow>
    net_step E N (net_apply p result (net_open \<lparr>cn_opener = p, cn_acceptor = q, cn_request = rid\<rparr> N))"
| accept: "c < length (net_connections N) \<Longrightarrow> p = cn_acceptor (net_connections N ! c) \<Longrightarrow>
    net_step E N (net_apply p (ln_handleConnect (Some c) (net_node N p), []) N)"
| announce: "p \<noteq> 0 \<Longrightarrow> q \<noteq> 0 \<Longrightarrow> ne_multicast E (length (net_connections N)) \<Longrightarrow>
    (\<forall>conn\<in>set (net_connections N). cn_opener conn = p \<longrightarrow> cn_request conn \<noteq> rid) \<Longrightarrow>
    net_step E N
      (net_apply p (net_node N p, [Send (length (net_connections N))
           (NODE_ID p (pn_type (ln_self (net_node N p))) (ln_serialize E (net_node N p)))])
        (net_open \<lparr>cn_opener = p, cn_acceptor = q, cn_request = rid\<rparr> N))"
| receive: "c \<in> set (ln_incoming (net_node N p)) \<Longrightarrow> net_channel N c p = m # ms \<Longrightarrow>
    net_step E N (net_apply p (ln_receive E fresh c m (net_node N p)) (net_take c p N))"
| lost: "c \<in> set (ln_incoming (net_node N p)) \<Longrightarrow> net_step E N (net_apply p (ln_handleDisconnect E c (net_node N p)) N)"
| disconnect: "r \<noteq> 0 \<Longrightarrow> r < length (ln_peers (net_node N p)) \<Longrightarrow>
    net_step E N (net_apply p (snd (ln_disconnect r (net_node N p))) N)"
| timeout: "net_step E N (net_apply p (ln_unregister rid (net_node N p), []) N)"

text \<open>At the start every node is listening and knows itself only.\<close>

definition ln_listening :: "node_env \<Rightarrow> NodeID \<Rightarrow> local_node \<Rightarrow> bool" where
  "ln_listening E p s \<longleftrightarrow>
     (\<exists>self. ln_peers s = [self] \<and> pn_id self = p \<and> pn_state self = STATE_LISTENING \<and> pn_outgoing self = None \<and>
        nx_printable (pn_data self) \<and> pn_outMulticast self = None \<and> (\<forall>m\<in>set (pn_multicasts self). ne_multicast E (fst m))) \<and>
     ln_nodes s = [(p, 0)] \<and> ln_connectionNodes s = [] \<and> ln_incoming s = [] \<and> ln_requests s = [] \<and> ln_results s = []"

inductive net_reach :: "node_env \<Rightarrow> network \<Rightarrow> bool" for E :: node_env where
  start: "\<forall>p. ln_listening E p (net_node N p) \<Longrightarrow> net_connections N = [] \<Longrightarrow> \<forall>c p. net_channel N c p = [] \<Longrightarrow> net_reach E N"
| step: "net_reach E N \<Longrightarrow> net_step E N N' \<Longrightarrow> net_reach E N'"

section \<open>Invariant\<close>

text \<open>
  The node itself; the nodes it knows, with the connections they are reached by; the tables; the requests of
  connection attempts, whose node objects are not used otherwise or are the ones being connected.
\<close>

definition self_ok :: "NodeID \<Rightarrow> local_node \<Rightarrow> bool" where
  "self_ok p s \<longleftrightarrow>
     ln_peers s \<noteq> [] \<and> pn_id (ln_self s) = p \<and> pn_state (ln_self s) = STATE_LISTENING \<and> nx_printable (pn_data (ln_self s)) \<and>
     pn_outgoing (ln_self s) = None"

definition peers_ok :: "network \<Rightarrow> NodeID \<Rightarrow> local_node \<Rightarrow> bool" where
  "peers_ok N p s \<longleftrightarrow>
     (\<forall>r<length (ln_peers s). \<forall>c. pn_outgoing (ln_peers s ! r) = Some c \<longrightarrow>
        at_end N c p \<and> pn_id (ln_peers s ! r) = other_end N c p) \<and>
     (\<forall>r<length (ln_peers s). r \<noteq> 0 \<longrightarrow>
        pn_state (ln_peers s ! r) = (if pn_outgoing (ln_peers s ! r) = None then STATE_CLOSED else STATE_CONNECTED))"

definition tables_ok :: "network \<Rightarrow> NodeID \<Rightarrow> local_node \<Rightarrow> bool" where
  "tables_ok N p s \<longleftrightarrow>
     (\<forall>c r. map_of (ln_connectionNodes s) c = Some r \<longrightarrow>
        r < length (ln_peers s) \<and> at_end N c p \<and> pn_id (ln_peers s ! r) = other_end N c p) \<and>
     (\<forall>i r. map_of (ln_nodes s) i = Some r \<longrightarrow> r < length (ln_peers s) \<and> pn_id (ln_peers s ! r) = i) \<and>
     (\<forall>c\<in>set (ln_incoming s). at_end N c p)"

definition attempt_of :: "network \<Rightarrow> NodeID \<Rightarrow> uint32 \<Rightarrow> nat \<Rightarrow> bool" where
  "attempt_of N p rid c \<longleftrightarrow>
     c < length (net_connections N) \<and> cn_opener (net_connections N ! c) = p \<and> cn_request (net_connections N ! c) = rid"

definition attempts_ok :: "network \<Rightarrow> NodeID \<Rightarrow> local_node \<Rightarrow> bool" where
  "attempts_ok N p s \<longleftrightarrow>
     (\<forall>rid r. map_of (ln_requests s) rid = Some r \<longrightarrow> r < length (ln_peers s) \<and>
        (\<exists>c. attempt_of N p rid c \<and> (referenced r s \<longrightarrow> pn_id (ln_peers s ! r) = other_end N c p))) \<and>
     inj_on (map_of (ln_requests s)) (dom (map_of (ln_requests s)))"

definition node_ok :: "network \<Rightarrow> NodeID \<Rightarrow> local_node \<Rightarrow> bool" where
  "node_ok N p s \<longleftrightarrow> self_ok p s \<and> peers_ok N p s \<and> tables_ok N p s \<and> attempts_ok N p s"

text \<open>The commands on a connection: they carry the identity of their sender.\<close>

definition data_of :: "node_env \<Rightarrow> NodeID \<Rightarrow> string \<Rightarrow> bool" where
  "data_of E q data \<longleftrightarrow>
     (\<exists>d. data = nx_serialize (ne_format E) (ne_major E) (ne_minor E) d \<and> nx_id d = q \<and> nx_printable d)"

fun message_ok :: "node_env \<Rightarrow> network \<Rightarrow> nat \<Rightarrow> NodeID \<Rightarrow> message \<Rightarrow> bool" where
  "message_ok E N c p (NODE_CONNECT i rid t d) \<longleftrightarrow>
     i = other_end N c p \<and> i \<noteq> p \<and> data_of E i d \<and> attempt_of N i rid c"
| "message_ok E N c p (NODE_CONNECT_REPLY i rid t d) \<longleftrightarrow>
     (i \<noteq> 0 \<longrightarrow> i = other_end N c p \<and> i \<noteq> p \<and> data_of E i d \<and> attempt_of N p rid c)"
| "message_ok E N c p NODE_CONNECT_ACK \<longleftrightarrow> other_end N c p \<noteq> p"
| "message_ok E N c p (NODE_ID i t d) \<longleftrightarrow> i = other_end N c p \<and> data_of E i d"

definition net_inv :: "node_env \<Rightarrow> network \<Rightarrow> bool" where
  "net_inv E N \<longleftrightarrow>
     (\<forall>p. node_ok N p (net_node N p)) \<and>
     (\<forall>c p. \<forall>m\<in>set (net_channel N c p). at_end N c p \<and> message_ok E N c p m) \<and>
     (\<forall>p rid c c'. attempt_of N p rid c \<longrightarrow> attempt_of N p rid c' \<longrightarrow> c = c')"

section \<open>Local operations\<close>

lemmas local_defs = self_ok_def peers_ok_def tables_ok_def attempts_ok_def referenced_def ln_self_def

lemma referenced_tables:
  "map_of (ln_nodes s) i = Some r \<Longrightarrow> referenced r s" "map_of (ln_connectionNodes s) c = Some r \<Longrightarrow> referenced r s"
  by (auto simp: referenced_def intro: ranI)

text \<open>A new node object, which nothing refers to.\<close>

lemma nth_peers_append [simp]: "r < length xs \<Longrightarrow> (xs @ [x]) ! r = xs ! r"
  by (simp add: nth_append)

lemma node_ok_create:
  assumes "node_ok N p s"
  shows "node_ok N p (s\<lparr>ln_peers := ln_peers s @ [pn_new type d]\<rparr>)"
proof -
  have "self_ok p (s\<lparr>ln_peers := ln_peers s @ [pn_new type d]\<rparr>)" using assms by (simp add: node_ok_def self_ok_def ln_self_def nth_append)
  moreover have "peers_ok N p (s\<lparr>ln_peers := ln_peers s @ [pn_new type d]\<rparr>)"
    using assms by (auto simp: node_ok_def peers_ok_def nth_append pn_new_def less_Suc_eq)
  moreover have "tables_ok N p (s\<lparr>ln_peers := ln_peers s @ [pn_new type d]\<rparr>)"
    using assms by (auto simp: node_ok_def tables_ok_def nth_append less_Suc_eq)
  moreover have "attempts_ok N p (s\<lparr>ln_peers := ln_peers s @ [pn_new type d]\<rparr>)"
    using assms by (fastforce simp: node_ok_def attempts_ok_def nth_append less_Suc_eq referenced_def)
  ultimately show ?thesis by (simp add: node_ok_def)
qed

lemma ln_update_simps [simp]:
  "ln_nodes (ln_update r f s) = ln_nodes s" "ln_connectionNodes (ln_update r f s) = ln_connectionNodes s"
  "ln_incoming (ln_update r f s) = ln_incoming s" "ln_requests (ln_update r f s) = ln_requests s"
  "length (ln_peers (ln_update r f s)) = length (ln_peers s)" "ln_peers (ln_update r f s) = [] \<longleftrightarrow> ln_peers s = []"
  by (simp_all add: ln_update_def)

lemma ln_update_nth:
  "r < length (ln_peers s) \<Longrightarrow> ln_peers (ln_update r f s) ! k = (if k = r then f (ln_peers s ! r) else ln_peers s ! k)"
  by (simp add: ln_update_def nth_list_update)

text \<open>A change of one node object that keeps its identity and its connection.\<close>

lemma node_ok_update:
  assumes "node_ok N p s" and "r < length (ln_peers s)"
    and f: "pn_data (f (ln_peers s ! r)) = pn_data (ln_peers s ! r)" "pn_outgoing (f (ln_peers s ! r)) = pn_outgoing (ln_peers s ! r)"
      "pn_state (f (ln_peers s ! r)) = pn_state (ln_peers s ! r)"
  shows "node_ok N p (ln_update r f s)"
proof -
  have eq: "pn_data (ln_peers (ln_update r f s) ! k) = pn_data (ln_peers s ! k)"
    "pn_outgoing (ln_peers (ln_update r f s) ! k) = pn_outgoing (ln_peers s ! k)"
    "pn_state (ln_peers (ln_update r f s) ! k) = pn_state (ln_peers s ! k)"
    "pn_id (ln_peers (ln_update r f s) ! k) = pn_id (ln_peers s ! k)" for k
    using f assms(2) by (auto simp: ln_update_nth pn_id_def)
  show ?thesis using assms(1) unfolding node_ok_def local_defs eq ln_update_simps .
qed

text \<open>The attempts of a node object lead to the node it stands for.\<close>

definition attempts_fit :: "network \<Rightarrow> NodeID \<Rightarrow> nat \<Rightarrow> local_node \<Rightarrow> bool" where
  "attempts_fit N p r s \<longleftrightarrow>
     (\<forall>rid. map_of (ln_requests s) rid = Some r \<longrightarrow> (\<exists>c. attempt_of N p rid c \<and> pn_id (ln_peers s ! r) = other_end N c p))"

lemma referenced_fit: "node_ok N p s \<Longrightarrow> referenced r s \<Longrightarrow> attempts_fit N p r s"
  by (fastforce simp: node_ok_def attempts_ok_def attempts_fit_def)

text \<open>New data for a node object that is not used yet, or the same identity.\<close>

lemma node_ok_data:
  assumes ok: "node_ok N p s" and r: "r < length (ln_peers s)" "r \<noteq> 0" and same: "referenced r s \<Longrightarrow> nx_id d = pn_id (ln_peers s ! r)"
  shows "node_ok N p (ln_update r (\<lambda>n. n\<lparr>pn_data := d\<rparr>) s)" (is "node_ok N p ?s")
proof -
  have pid: "pn_id (ln_peers ?s ! k) = (if k = r then nx_id d else pn_id (ln_peers s ! k))"
    and eq: "pn_outgoing (ln_peers ?s ! k) = pn_outgoing (ln_peers s ! k)" "pn_state (ln_peers ?s ! k) = pn_state (ln_peers s ! k)" for k
    using r(1) by (auto simp: ln_update_nth pn_id_def)
  have keep: "referenced k s \<Longrightarrow> pn_id (ln_peers ?s ! k) = pn_id (ln_peers s ! k)" for k using same by (auto simp: pid)
  have refs: "referenced k ?s \<longleftrightarrow> referenced k s" for k by (simp add: referenced_def eq)
  have "self_ok p ?s" using ok r by (auto simp: node_ok_def self_ok_def ln_self_def eq pid) (simp_all add: ln_update_nth)
  moreover have "peers_ok N p ?s" using ok keep unfolding node_ok_def peers_ok_def eq ln_update_simps referenced_def
    by (metis (no_types, lifting) option.distinct(1))
  moreover have "tables_ok N p ?s"
    using ok by (simp add: node_ok_def tables_ok_def keep [OF referenced_tables(1)] keep [OF referenced_tables(2)])
  moreover have "attempts_ok N p ?s" using ok keep unfolding node_ok_def attempts_ok_def ln_update_simps refs
    by (metis (no_types, lifting))
  ultimately show ?thesis by (simp add: node_ok_def)
qed

text \<open>Node objects that become referenced.\<close>

lemma node_ok_connect:
  assumes ok: "node_ok N p s" and r: "r < length (ln_peers s)" "r \<noteq> 0" and fit: "attempts_fit N p r s"
    and c: "at_end N c p" "pn_id (ln_peers s ! r) = other_end N c p"
  shows "node_ok N p (ln_update r (pn_connect c) s)" (is "node_ok N p ?s") and "attempts_fit N p r (ln_update r (pn_connect c) s)"
proof -
  have eq: "pn_id (ln_peers ?s ! k) = pn_id (ln_peers s ! k)"
    "pn_outgoing (ln_peers ?s ! k) = (if k = r then Some c else pn_outgoing (ln_peers s ! k))"
    "pn_state (ln_peers ?s ! k) = (if k = r then STATE_CONNECTED else pn_state (ln_peers s ! k))" for k
    using r(1) by (auto simp: ln_update_nth pn_id_def pn_connect_def)
  have refs: "k \<noteq> r \<Longrightarrow> referenced k ?s \<longleftrightarrow> referenced k s" for k by (simp add: referenced_def eq)
  have "self_ok p ?s" using ok r by (auto simp: node_ok_def self_ok_def ln_self_def eq) (simp_all add: ln_update_nth)
  moreover have "peers_ok N p ?s" using ok c by (auto simp: node_ok_def peers_ok_def eq)
  moreover have "tables_ok N p ?s" using ok unfolding node_ok_def tables_ok_def ln_update_simps eq by simp
  moreover have "attempts_ok N p ?s" using ok fit refs unfolding node_ok_def attempts_ok_def attempts_fit_def ln_update_simps eq
    by (metis (no_types, lifting))
  ultimately show "node_ok N p ?s" by (simp add: node_ok_def)
  show "attempts_fit N p r ?s" using fit unfolding attempts_fit_def eq ln_update_simps .
qed

lemma node_ok_setConnection:
  assumes ok: "node_ok N p s" and r: "r < length (ln_peers s)" and fit: "attempts_fit N p r s"
    and c: "at_end N c p" "pn_id (ln_peers s ! r) = other_end N c p"
  shows "node_ok N p (ln_setConnection c r s)" (is "node_ok N p ?s") and "attempts_fit N p r (ln_setConnection c r s)"
proof -
  have eq: "ln_peers ?s = ln_peers s" "ln_nodes ?s = ln_nodes s" "ln_incoming ?s = ln_incoming s" "ln_requests ?s = ln_requests s"
    "map_of (ln_connectionNodes ?s) = (map_of (ln_connectionNodes s))(c \<mapsto> r)"
    by (simp_all add: ln_setConnection_def update_conv')
  have refs: "k \<noteq> r \<Longrightarrow> referenced k ?s \<Longrightarrow> referenced k s" for k
    by (auto simp: referenced_def eq ran_def split: if_splits)
  have "attempts_ok N p ?s" using ok fit refs unfolding node_ok_def attempts_ok_def attempts_fit_def eq
    by (metis (no_types, lifting))
  then show "node_ok N p ?s" using ok c r by (auto simp: node_ok_def self_ok_def ln_self_def peers_ok_def tables_ok_def eq)
  show "attempts_fit N p r ?s" using fit unfolding attempts_fit_def eq .
qed

lemma node_ok_setNode:
  assumes ok: "node_ok N p s" and r: "r < length (ln_peers s)" and fit: "attempts_fit N p r s" and i: "pn_id (ln_peers s ! r) = i"
  shows "node_ok N p (s\<lparr>ln_nodes := AList.update i r (ln_nodes s)\<rparr>)" (is "node_ok N p ?s")
    and "attempts_fit N p r (s\<lparr>ln_nodes := AList.update i r (ln_nodes s)\<rparr>)"
proof -
  have eq: "ln_peers ?s = ln_peers s" "ln_connectionNodes ?s = ln_connectionNodes s" "ln_incoming ?s = ln_incoming s"
    "ln_requests ?s = ln_requests s" "map_of (ln_nodes ?s) = (map_of (ln_nodes s))(i \<mapsto> r)"
    by (simp_all add: update_conv')
  have refs: "k \<noteq> r \<Longrightarrow> referenced k ?s \<Longrightarrow> referenced k s" for k
    unfolding referenced_def eq by (auto simp: ran_def split: if_splits)
  have "attempts_ok N p ?s" using ok fit refs unfolding node_ok_def attempts_ok_def attempts_fit_def eq
    by (metis (no_types, lifting))
  moreover have "tables_ok N p ?s" using ok i r unfolding node_ok_def tables_ok_def eq by auto
  moreover have "self_ok p ?s" "peers_ok N p ?s" using ok by (simp_all add: node_ok_def self_ok_def ln_self_def peers_ok_def)
  ultimately show "node_ok N p ?s" by (simp add: node_ok_def)
  show "attempts_fit N p r ?s" using fit unfolding attempts_fit_def eq .
qed

text \<open>Fewer references, requests and connections.\<close>

lemma node_ok_less:
  assumes ok: "node_ok N p s" and eq: "ln_peers s' = ln_peers s"
    and sub: "map_of (ln_nodes s') \<subseteq>\<^sub>m map_of (ln_nodes s)" "map_of (ln_connectionNodes s') \<subseteq>\<^sub>m map_of (ln_connectionNodes s)"
      "map_of (ln_requests s') \<subseteq>\<^sub>m map_of (ln_requests s)" "set (ln_incoming s') \<subseteq> set (ln_incoming s)"
  shows "node_ok N p s'"
proof -
  have le: "m \<subseteq>\<^sub>m m' \<Longrightarrow> m x = Some y \<Longrightarrow> m' x = Some y" for m m' :: "'a \<rightharpoonup> 'b" and x y by (metis domI map_le_def)
  have ran: "m \<subseteq>\<^sub>m m' \<Longrightarrow> ran m \<subseteq> ran m'" for m m' :: "'a \<rightharpoonup> 'b" by (auto simp: ran_def dest: le)
  have refs: "referenced k s' \<Longrightarrow> referenced k s" for k
    using ran [OF sub(1)] ran [OF sub(2)] by (auto simp: referenced_def eq)
  have "inj_on (map_of (ln_requests s')) (dom (map_of (ln_requests s')))"
  proof (rule inj_onI)
    fix x y assume x: "x \<in> dom (map_of (ln_requests s'))" and y: "y \<in> dom (map_of (ln_requests s'))"
      and e: "map_of (ln_requests s') x = map_of (ln_requests s') y"
    have "map_of (ln_requests s) x = map_of (ln_requests s) y" "x \<in> dom (map_of (ln_requests s))" "y \<in> dom (map_of (ln_requests s))"
      using sub(3) x y e map_le_implies_dom_le [OF sub(3)] by (auto simp: map_le_def)
    then show "x = y" using ok by (auto simp: node_ok_def attempts_ok_def dest: inj_onD)
  qed
  moreover have "map_of (ln_requests s') rid = Some r \<Longrightarrow> map_of (ln_requests s) rid = Some r" for rid r using le [OF sub(3)] .
  ultimately have "attempts_ok N p s'"
    using ok refs unfolding node_ok_def attempts_ok_def eq by (metis (no_types, lifting))
  moreover have "tables_ok N p s'" using ok sub(4) le [OF sub(1)] le [OF sub(2)]
    unfolding node_ok_def tables_ok_def eq by blast
  moreover have "self_ok p s'" "peers_ok N p s'" using ok by (simp_all add: node_ok_def self_ok_def ln_self_def peers_ok_def eq)
  ultimately show ?thesis by (simp add: node_ok_def)
qed

lemma node_ok_incoming:
  assumes "node_ok N p s" and "at_end N c p"
  shows "node_ok N p (s\<lparr>ln_incoming := ln_incoming s @ [c]\<rparr>)"
proof -
  have "referenced k (s\<lparr>ln_incoming := ln_incoming s @ [c]\<rparr>) = referenced k s" for k by (simp add: referenced_def)
  with assms show ?thesis by (simp add: node_ok_def self_ok_def ln_self_def peers_ok_def tables_ok_def attempts_ok_def)
qed

lemma map_of_delete_le [simp]: "map_of (AList.delete k xs) \<subseteq>\<^sub>m map_of xs"
  by (simp add: delete_conv' map_le_def)

lemma node_ok_disconnect:
  assumes ok: "node_ok N p s" and r: "r < length (ln_peers s)" "r \<noteq> 0"
  shows "node_ok N p (ln_update r pn_disconnect s)" (is "node_ok N p ?s")
proof -
  have eq: "pn_id (ln_peers ?s ! k) = pn_id (ln_peers s ! k)"
    "pn_outgoing (ln_peers ?s ! k) = (if k = r then None else pn_outgoing (ln_peers s ! k))"
    "pn_state (ln_peers ?s ! k) = (if k = r then STATE_CLOSED else pn_state (ln_peers s ! k))" for k
    using r(1) by (auto simp: ln_update_nth pn_id_def pn_disconnect_def)
  have refs: "referenced k ?s \<Longrightarrow> referenced k s" for k by (auto simp: referenced_def eq split: if_splits)
  have "self_ok p ?s" using ok r by (auto simp: node_ok_def self_ok_def ln_self_def eq) (simp_all add: ln_update_nth)
  moreover have "peers_ok N p ?s" using ok by (auto simp: node_ok_def peers_ok_def eq)
  moreover have "tables_ok N p ?s" using ok unfolding node_ok_def tables_ok_def ln_update_simps eq by simp
  moreover have "attempts_ok N p ?s" using ok refs unfolding node_ok_def attempts_ok_def ln_update_simps eq
    by (metis (no_types, lifting))
  ultimately show ?thesis by (simp add: node_ok_def)
qed

section \<open>Handlers\<close>

definition effects_ok :: "node_env \<Rightarrow> network \<Rightarrow> NodeID \<Rightarrow> node_effect list \<Rightarrow> bool" where
  "effects_ok E N p es \<longleftrightarrow> (\<forall>c m. Send c m \<in> set es \<longrightarrow> at_end N c p \<and> message_ok E N c (other_end N c p) m)"

definition result_ok :: "node_env \<Rightarrow> network \<Rightarrow> NodeID \<Rightarrow> local_node \<times> node_effect list \<Rightarrow> bool" where
  "result_ok E N p x \<longleftrightarrow> node_ok N p (fst x) \<and> effects_ok E N p (snd x)"

lemma effects_ok_simps [simp]:
  "effects_ok E N p []" "effects_ok E N p (es @ es') \<longleftrightarrow> effects_ok E N p es \<and> effects_ok E N p es'"
  "effects_ok E N p (Close c # es) \<longleftrightarrow> effects_ok E N p es" "effects_ok E N p (RemoveInstanceData i # es) \<longleftrightarrow> effects_ok E N p es"
  "effects_ok E N p (RemoveNode r # es) \<longleftrightarrow> effects_ok E N p es"
  "effects_ok E N p (Send c m # es) \<longleftrightarrow> (at_end N c p \<and> message_ok E N c (other_end N c p) m) \<and> effects_ok E N p es"
  by (auto simp: effects_ok_def)

lemma other_other: "at_end N c p \<Longrightarrow> other_end N c (other_end N c p) = p"
  by (auto simp: at_end_def other_end_def)

lemma at_other: "at_end N c p \<Longrightarrow> at_end N c (other_end N c p)"
  by (auto simp: at_end_def other_end_def)

lemma removeConnection_ok: "node_ok N p s \<Longrightarrow> result_ok E N p (ln_removeConnection c s)"
  unfolding result_ok_def ln_removeConnection_def by (auto elim!: node_ok_less dest: set_mp [OF set_remove1_subset])

lemma serveRequest_ok: "node_ok N p s \<Longrightarrow> node_ok N p (ln_serveRequest rid v s)"
  by (auto simp: ln_serveRequest_def elim!: node_ok_less split: option.splits)

lemma dropConnection_ok: "node_ok N p s \<Longrightarrow> result_ok E N p (ln_dropConnection oc s)"
  unfolding result_ok_def ln_dropConnection_def ln_removeConnection_def
  by (auto dest: set_mp [OF set_remove1_subset] elim!: node_ok_less split: option.splits)

lemma dropConnection_peers: "ln_dropConnection oc s = (s', es) \<Longrightarrow> ln_peers s' = ln_peers s"
  by (auto simp: ln_dropConnection_def ln_removeConnection_def split: option.splits)

lemma closeNode_ok:
  assumes "node_ok N p s" and "r < length (ln_peers s)" and "r \<noteq> 0"
  shows "result_ok E N p (ln_closeNode r s)"
proof -
  let ?n = "ln_peers s ! r"
  obtain s1 es1 where 1: "ln_dropConnection (pn_outgoing ?n) (ln_update r pn_disconnect s) = (s1, es1)" by (metis surj_pair)
  obtain s2 es2 where 2: "ln_dropConnection (pn_outMulticast ?n) s1 = (s2, es2)" by (metis surj_pair)
  have s1: "result_ok E N p (s1, es1)" using dropConnection_ok [OF node_ok_disconnect [OF assms]] 1 by metis
  then have s2: "result_ok E N p (s2, es2)" using dropConnection_ok 2 by (metis result_ok_def fst_conv)
  then have "node_ok N p (s2\<lparr>ln_nodes := AList.delete (pn_id ?n) (ln_nodes s2)\<rparr>)"
    unfolding result_ok_def by (auto elim: node_ok_less)
  with s1 s2 1 2 show ?thesis by (simp add: ln_closeNode_def Let_def result_ok_def)
qed

lemma data_of_self: "node_ok N p s \<Longrightarrow> data_of E p (ln_serialize E s)"
  unfolding data_of_def ln_serialize_def node_ok_def self_ok_def pn_id_def by blast

text \<open>Reading what a node sent about itself into a node object that is not used or stands for that node.\<close>

lemma deserialize_ok:
  assumes F: "id_format_ok (ne_format E)" and ok: "node_ok N p s" and r: "r < length (ln_peers s)" "r \<noteq> 0"
    and q: "data_of E q data" "referenced r s \<Longrightarrow> pn_id (ln_peers s ! r) = q"
    and fit: "\<And>rid. map_of (ln_requests s) rid = Some r \<Longrightarrow> \<exists>c. attempt_of N p rid c \<and> q = other_end N c p"
  shows "node_ok N p (ln_deserialize E r data s)" and "attempts_fit N p r (ln_deserialize E r data s)"
    and "pn_id (ln_peers (ln_deserialize E r data s) ! r) = q" and "length (ln_peers (ln_deserialize E r data s)) = length (ln_peers s)"
proof -
  from q(1) obtain d where d: "data = nx_serialize (ne_format E) (ne_major E) (ne_minor E) d" "nx_id d = q" "nx_printable d"
    by (auto simp: data_of_def)
  have eq: "ln_deserialize E r data s = ln_update r (\<lambda>n. n\<lparr>pn_data := d\<rparr>) s"
    using nx_deserialize_node [OF F d(3)] by (simp add: ln_deserialize_def d(1))
  show "node_ok N p (ln_deserialize E r data s)" unfolding eq using ok r q(2) d(2) by (intro node_ok_data) auto
  show pid: "pn_id (ln_peers (ln_deserialize E r data s) ! r) = q" using r d(2) by (simp add: eq ln_update_nth pn_id_def)
  show "attempts_fit N p r (ln_deserialize E r data s)"
    using fit pid by (simp add: attempts_fit_def) (simp add: eq)
  show "length (ln_peers (ln_deserialize E r data s)) = length (ln_peers s)" by (simp add: eq)
qed

lemma known_node:
  assumes "node_ok N p s" and "map_of (ln_nodes s) q = Some r" and "q \<noteq> p"
  shows "r < length (ln_peers s) \<and> r \<noteq> 0 \<and> pn_id (ln_peers s ! r) = q"
  using assms unfolding node_ok_def tables_ok_def self_ok_def ln_self_def by metis

lemma known_connection:
  assumes "node_ok N p s" and "map_of (ln_connectionNodes s) c = Some r"
  shows "r < length (ln_peers s) \<and> at_end N c p \<and> pn_id (ln_peers s ! r) = other_end N c p"
  using assms unfolding node_ok_def tables_ok_def by metis

lemma create_ok:
  assumes "node_ok N p s" and "ln_createNode E t d s = (Some r, s')"
  shows "node_ok N p s'" and "r < length (ln_peers s')" and "r \<noteq> 0" and "\<not> referenced r s'" and "map_of (ln_requests s') rid \<noteq> Some r"
proof -
  have s': "s' = s\<lparr>ln_peers := ln_peers s @ [pn_new t d]\<rparr>" "r = length (ln_peers s)"
    using assms(2) by (auto simp: ln_createNode_def split: if_splits)
  show "node_ok N p s'" "r < length (ln_peers s')" using node_ok_create [OF assms(1)] s' by simp_all
  show "r \<noteq> 0" using assms(1) s' by (simp add: node_ok_def self_ok_def)
  show "map_of (ln_requests s') rid \<noteq> Some r" using assms(1) s' by (auto simp: node_ok_def attempts_ok_def)
  have "r \<notin> ran (map_of (ln_nodes s))" "r \<notin> ran (map_of (ln_connectionNodes s))"
    using assms(1) s' by (fastforce simp: node_ok_def tables_ok_def ran_def)+
  then show "\<not> referenced r s'" using \<open>r \<noteq> 0\<close> s' by (simp add: referenced_def pn_new_def)
qed

lemma createNode_none: "ln_createNode E t d s = (None, s') \<Longrightarrow> s' = s"
  by (auto simp: ln_createNode_def split: if_splits)

lemma setNode_ok:
  assumes "node_ok N p s" and "r < length (ln_peers s)" and "attempts_fit N p r s"
  shows "node_ok N p (ln_setNode r s)" and "attempts_fit N p r (ln_setNode r s)"
  unfolding ln_setNode_def using node_ok_setNode [OF assms refl] by simp_all

lemma connectMulticast_fields [simp]:
  "pn_data (pn_connectMulticast descr self n) = pn_data n" "pn_outgoing (pn_connectMulticast descr self n) = pn_outgoing n"
  "pn_state (pn_connectMulticast descr self n) = pn_state n"
proof -
  define keeps :: "peer \<Rightarrow> peer \<Rightarrow> bool" where
    "keeps n n' \<longleftrightarrow> pn_data n' = pn_data n \<and> pn_outgoing n' = pn_outgoing n \<and> pn_state n' = pn_state n" for n n'
  have fold: "(\<And>x n. x \<in> set xs \<Longrightarrow> keeps n (f x n)) \<Longrightarrow> keeps n (fold f xs n)" for f :: "'a \<Rightarrow> peer \<Rightarrow> peer" and xs n
    by (induction xs arbitrary: n) (auto simp: keeps_def)
  have "keeps n (join_group descr self d n)" for d n by (simp add: keeps_def join_group_def split: option.splits)
  then have inner: "keeps n (fold (\<lambda>d' n. if isSameMulticastGroup d d' then join_group descr self d n else n) ds n)" for d ds n
    by (intro fold) (simp add: keeps_def)
  have "keeps n (fold (\<lambda>d n. fold (\<lambda>d' n. if isSameMulticastGroup d d' then join_group descr self d n else n)
      (nx_descriptions (pn_data n)) n) ds n)" for ds n
    by (rule fold) (rule inner)
  then have "keeps n (pn_connectMulticast descr self n)"
    unfolding pn_connectMulticast_def by (simp only: split: if_split) (simp add: keeps_def)
  then show "pn_data (pn_connectMulticast descr self n) = pn_data n"
    "pn_outgoing (pn_connectMulticast descr self n) = pn_outgoing n"
    "pn_state (pn_connectMulticast descr self n) = pn_state n" by (simp_all add: keeps_def)
qed

lemma connectMulticast_ok:
  "node_ok N p s \<Longrightarrow> r < length (ln_peers s) \<Longrightarrow> node_ok N p (ln_connectMulticast E r s)"
  unfolding ln_connectMulticast_def by (rule node_ok_update) simp_all

text \<open>The part of the handlers that accepts: a node object that stands for the sender, on this connection.\<close>

lemma accept_connect_ok:
  assumes F: "id_format_ok (ne_format E)" and ok: "node_ok N p s" and r: "r < length (ln_peers s)" "r \<noteq> 0"
    and c: "at_end N c p" and q: "data_of E (other_end N c p) data" "referenced r s \<Longrightarrow> pn_id (ln_peers s ! r) = other_end N c p"
    and fit: "\<And>rid. map_of (ln_requests s) rid = Some r \<Longrightarrow> \<exists>c'. attempt_of N p rid c' \<and> other_end N c p = other_end N c' p"
  shows "node_ok N p (ln_setNode r (ln_setConnection c r (ln_deserialize E r data s)))"
    and "node_ok N p (ln_connectMulticast E r (ln_setNode r (ln_setConnection c r (ln_update r (pn_connect c) (ln_deserialize E r data s)))))"
proof -
  note d = deserialize_ok [OF F ok r q fit]
  have r': "r < length (ln_peers (ln_deserialize E r data s))" using r d(4) by simp
  note sc = node_ok_setConnection [OF d(1) r' d(2) c d(3)]
  show "node_ok N p (ln_setNode r (ln_setConnection c r (ln_deserialize E r data s)))"
    using setNode_ok(1) [OF sc(1) _ sc(2)] r' by (simp add: ln_setConnection_def)
  let ?u = "ln_update r (pn_connect c) (ln_deserialize E r data s)"
  note u = node_ok_connect [OF d(1) r' r(2) d(2) c d(3)]
  have ru: "r < length (ln_peers ?u)" "pn_id (ln_peers ?u ! r) = other_end N c p"
    using r' d(3) by (simp_all add: ln_update_nth pn_connect_def pn_id_def)
  note sc = node_ok_setConnection [OF u(1) ru(1) u(2) c ru(2)]
  have "node_ok N p (ln_setNode r (ln_setConnection c r ?u))"
    using setNode_ok(1) [OF sc(1) _ sc(2)] ru(1) by (simp add: ln_setConnection_def)
  then show "node_ok N p (ln_connectMulticast E r (ln_setNode r (ln_setConnection c r ?u)))"
    by (rule connectMulticast_ok) (use ru(1) in \<open>simp add: ln_setConnection_def ln_setNode_def\<close>)
qed

lemma cmdConnect_ok:
  assumes F: "id_format_ok (ne_format E)" and ok: "node_ok N p s" and c: "at_end N c p"
    and m: "message_ok E N c p (NODE_CONNECT i rid t data)"
  shows "result_ok E N p (ln_cmdConnect E fresh c i rid t data s)"
proof -
  have i: "i = other_end N c p" "i \<noteq> p" "data_of E i data" "attempt_of N i rid c" using m by auto
  have refuse: "result_ok E N p (case ln_removeConnection c s of (s, es) \<Rightarrow> (s, Send c (NODE_CONNECT_REPLY 0 rid 0 []) # es))"
    using removeConnection_ok [OF ok, of E c] c by (auto simp: result_ok_def split: prod.splits)
  have accept: "result_ok E N p
      (let s = ln_setNode r (ln_setConnection c r (ln_deserialize E r data s))
       in (s, [Send c (NODE_CONNECT_REPLY (pn_id (ln_self s)) rid (pn_type (ln_self s)) (ln_serialize E s))]))"
    if "node_ok N p s" "r < length (ln_peers s)" "r \<noteq> 0" "referenced r s \<Longrightarrow> pn_id (ln_peers s ! r) = i"
      "\<And>rid. map_of (ln_requests s) rid = Some r \<Longrightarrow> \<exists>c'. attempt_of N p rid c' \<and> i = other_end N c' p" for r s
  proof -
    let ?s = "ln_setNode r (ln_setConnection c r (ln_deserialize E r data s))"
    have s: "node_ok N p ?s" using accept_connect_ok(1) [OF F that(1-3) c] i that(4,5) by simp
    then have "pn_id (ln_self ?s) = p" by (simp add: node_ok_def self_ok_def)
    with s data_of_self [OF s, of E] i c other_other [OF c] show ?thesis by (simp add: result_ok_def Let_def)
  qed
  show ?thesis
  proof (cases "map_of (ln_nodes s) i")
    case None
    obtain o' s' where o': "ln_createNode E t fresh s = (o', s')" by (metis surj_pair)
    show ?thesis
    proof (cases o')
      case none: None
      then show ?thesis using None refuse o' by (simp add: ln_cmdConnect_def)
    next
      case (Some r)
      with o' have new: "ln_createNode E t fresh s = (Some r, s')" by simp
      note k = create_ok [OF ok new]
      have "result_ok E N p
        (let s = ln_setNode r (ln_setConnection c r (ln_deserialize E r data s'))
         in (s, [Send c (NODE_CONNECT_REPLY (pn_id (ln_self s)) rid (pn_type (ln_self s)) (ln_serialize E s))]))"
        by (rule accept [OF k(1-3)]) (use k(4,5) in blast)+
      then show ?thesis using None new by (simp add: ln_cmdConnect_def)
    qed
  next
    case (Some r)
    note k = known_node [OF ok Some i(2)]
    have "\<exists>c'. attempt_of N p rid c' \<and> i = other_end N c' p" if "map_of (ln_requests s) rid = Some r" for rid
      using referenced_fit [OF ok referenced_tables(1) [OF Some]] that k by (auto simp: attempts_fit_def)
    then show ?thesis using Some refuse accept [OF ok] k by (simp add: ln_cmdConnect_def)
  qed
qed

lemma attempt_fits:
  assumes "node_ok N p s" and unique: "\<forall>rid c c'. attempt_of N p rid c \<longrightarrow> attempt_of N p rid c' \<longrightarrow> c = c'"
    and rid: "map_of (ln_requests s) rid = Some r" and c: "attempt_of N p rid c"
  shows "r < length (ln_peers s)" and "referenced r s \<Longrightarrow> pn_id (ln_peers s ! r) = other_end N c p"
    and "map_of (ln_requests s) rid' = Some r \<Longrightarrow> \<exists>c'. attempt_of N p rid' c' \<and> other_end N c p = other_end N c' p"
proof -
  from assms(1) rid obtain c' where "r < length (ln_peers s)" "attempt_of N p rid c'"
      "referenced r s \<longrightarrow> pn_id (ln_peers s ! r) = other_end N c' p"
    unfolding node_ok_def attempts_ok_def by metis
  moreover have "c' = c" using unique calculation(2) c by blast
  ultimately show "r < length (ln_peers s)" "referenced r s \<Longrightarrow> pn_id (ln_peers s ! r) = other_end N c p" by simp_all
  assume "map_of (ln_requests s) rid' = Some r"
  then have "rid' = rid" using assms(1) rid unfolding node_ok_def attempts_ok_def inj_on_def by (metis domI)
  then show "\<exists>c'. attempt_of N p rid' c' \<and> other_end N c p = other_end N c' p" using c by blast
qed

lemma cmdConnectReply_ok:
  assumes F: "id_format_ok (ne_format E)" and ok: "node_ok N p s" and c: "at_end N c p"
    and unique: "\<forall>rid c c'. attempt_of N p rid c \<longrightarrow> attempt_of N p rid c' \<longrightarrow> c = c'"
    and m: "message_ok E N c p (NODE_CONNECT_REPLY i rid t data)"
  shows "result_ok E N p (ln_cmdConnectReply E fresh c i rid t data s)"
proof (cases "i = 0")
  case True
  then show ?thesis using removeConnection_ok [OF ok, of E c]
    by (auto simp: ln_cmdConnectReply_def result_ok_def intro: serveRequest_ok split: prod.splits)
next
  case False
  then have i: "i = other_end N c p" "i \<noteq> p" "data_of E i data" "attempt_of N p rid c" using m by auto
  have accept: "result_ok E N p
      (let s = ln_deserialize E r data s;
           s = ln_connectMulticast E r (ln_setNode r (ln_setConnection c r (ln_update r (pn_connect c) s)))
       in (ln_serveRequest rid True s, [Send c NODE_CONNECT_ACK]))"
    if "node_ok N p s" "r < length (ln_peers s)" "r \<noteq> 0" "referenced r s \<Longrightarrow> pn_id (ln_peers s ! r) = i"
      "\<And>rid. map_of (ln_requests s) rid = Some r \<Longrightarrow> \<exists>c'. attempt_of N p rid c' \<and> i = other_end N c' p" for r s
    using accept_connect_ok(2) [OF F that(1-3) c] i that(4,5) c other_other [OF c]
    by (simp add: result_ok_def Let_def serveRequest_ok)
  show ?thesis
  proof (cases "map_of (ln_nodes s) i")
    case (Some r)
    note k = known_node [OF ok Some i(2)]
    obtain s1 es1 where 1: "ln_removeConnection c s = (s1, es1)" by (metis surj_pair)
    obtain s2 es2 where 2: "ln_closeNode r s1 = (s2, es2)" by (metis surj_pair)
    have "result_ok E N p (s1, es1)" using removeConnection_ok [OF ok] 1 by metis
    moreover have "ln_peers s1 = ln_peers s" using 1 by (auto simp: ln_removeConnection_def)
    ultimately have "result_ok E N p (ln_serveRequest rid False s2, es1 @ es2)"
      using closeNode_ok [of N p s1 r E] k 2 by (auto simp: result_ok_def serveRequest_ok)
    moreover have "\<exists>c'. attempt_of N p rid c' \<and> i = other_end N c' p" if "map_of (ln_requests s) rid = Some r" for rid
      using referenced_fit [OF ok referenced_tables(1) [OF Some]] that k by (auto simp: attempts_fit_def)
    ultimately show ?thesis using Some False accept [OF ok] k 1 2 by (simp add: ln_cmdConnectReply_def)
  next
    case None
    show ?thesis
    proof (cases "rid = ne_undefined E")
      case True
      obtain o' s' where o': "ln_createNode E t fresh s = (o', s')" by (metis surj_pair)
      show ?thesis
      proof (cases o')
        case none: None
        then show ?thesis using None False True o' createNode_none [of E t fresh s s'] removeConnection_ok [OF ok]
          by (simp add: ln_cmdConnectReply_def)
      next
        case (Some r)
        with o' have new: "ln_createNode E t fresh s = (Some r, s')" by simp
        note k = create_ok [OF ok new]
        have "result_ok E N p
          (let s = ln_deserialize E r data s';
               s = ln_connectMulticast E r (ln_setNode r (ln_setConnection c r (ln_update r (pn_connect c) s)))
           in (ln_serveRequest rid True s, [Send c NODE_CONNECT_ACK]))"
          by (rule accept [OF k(1-3)]) (use k(4,5) in blast)+
        then show ?thesis using None False True new by (simp add: ln_cmdConnectReply_def)
      qed
    next
      case rid: False
      show ?thesis
      proof (cases "map_of (ln_requests s) rid")
        case none: None
        then show ?thesis using None False rid removeConnection_ok [OF ok] by (simp add: ln_cmdConnectReply_def)
      next
        case (Some r)
        note fits = attempt_fits [OF ok unique Some i(4)]
        have "pn_id (ln_peers s ! 0) = p" using ok by (simp add: node_ok_def self_ok_def ln_self_def)
        then have "r \<noteq> 0" using fits(2) i(1,2) unfolding referenced_def by metis
        then show ?thesis using None False rid Some accept [OF ok fits(1)] fits(2,3) i(1) by (simp add: ln_cmdConnectReply_def)
      qed
    qed
  qed
qed

lemma cmdConnectAck_ok:
  assumes ok: "node_ok N p s" and r: "map_of (ln_connectionNodes s) c = Some r" and m: "message_ok E N c p NODE_CONNECT_ACK"
  shows "result_ok E N p (ln_cmdConnectAck E c r s)"
proof -
  note k = known_connection [OF ok r]
  have "pn_id (ln_peers s ! 0) = p" using ok by (simp add: node_ok_def self_ok_def ln_self_def)
  then have "r \<noteq> 0" using k m by (metis message_ok.simps(3))
  then have "node_ok N p (ln_update r (pn_connect c) s)"
    using node_ok_connect(1) [OF ok _ _ referenced_fit [OF ok referenced_tables(2) [OF r]]] k by blast
  then show ?thesis using connectMulticast_ok k by (simp add: ln_cmdConnectAck_def result_ok_def)
qed

lemma useMulticast_ok:
  assumes ok: "node_ok N p s" and r: "r < length (ln_peers s)"
  shows "node_ok N p (ln_useMulticast r c s)" and "length (ln_peers (ln_useMulticast r c s)) = length (ln_peers s)"
    and "pn_id (ln_peers (ln_useMulticast r c s) ! k) = pn_id (ln_peers s ! k)" and "ln_requests (ln_useMulticast r c s) = ln_requests s"
proof -
  have 0: "0 < length (ln_peers s)" using ok by (simp add: node_ok_def self_ok_def)
  obtain self n where u: "pn_useMulticast 0 c (ln_self s) (ln_peers s ! r) = (self, n)" by (metis surj_pair)
  have self: "pn_data self = pn_data (ln_peers s ! 0)" "pn_outgoing self = pn_outgoing (ln_peers s ! 0)" "pn_state self = pn_state (ln_peers s ! 0)"
    and n: "pn_data n = pn_data (ln_peers s ! r)" "pn_outgoing n = pn_outgoing (ln_peers s ! r)" "pn_state n = pn_state (ln_peers s ! r)"
    using u by (auto simp: pn_useMulticast_def ln_self_def pn_addMulticast_def Let_def split: option.splits if_splits)
  let ?s = "ln_update 0 (\<lambda>_. self) s"
  have s0: "node_ok N p ?s" using ok 0 self by (intro node_ok_update) simp_all
  have "r \<noteq> 0 \<Longrightarrow> node_ok N p (ln_update r (\<lambda>_. n) ?s)"
    by (rule node_ok_update [OF s0]) (use r n 0 in \<open>simp_all add: ln_update_nth\<close>)
  moreover have "r = 0 \<Longrightarrow> node_ok N p (ln_update 0 (\<lambda>_. if b then n else self) s)" for b
    using ok 0 self n by (intro node_ok_update) simp_all
  ultimately show "node_ok N p (ln_useMulticast r c s)" using u by (simp add: ln_useMulticast_def)
  show "length (ln_peers (ln_useMulticast r c s)) = length (ln_peers s)" "ln_requests (ln_useMulticast r c s) = ln_requests s"
    using u by (simp_all add: ln_useMulticast_def)
  show "pn_id (ln_peers (ln_useMulticast r c s) ! k) = pn_id (ln_peers s ! k)"
    using u self n 0 r by (auto simp: ln_useMulticast_def ln_update_nth pn_id_def)
qed

lemma cmdID_ok:
  assumes F: "id_format_ok (ne_format E)" and ok: "node_ok N p s" and c: "at_end N c p" and m: "message_ok E N c p (NODE_ID i t data)"
  shows "result_ok E N p (ln_cmdID E fresh c i t data s)"
proof -
  have i: "i = other_end N c p" "data_of E i data" using m by auto
  have self: "pn_id (ln_self s) = p" "0 < length (ln_peers s)" using ok by (simp_all add: node_ok_def self_ok_def)
  have use': "result_ok E N p (ln_setConnection c r (ln_useMulticast r c s), [])"
    if "node_ok N p s" "r < length (ln_peers s)" "attempts_fit N p r s" "pn_id (ln_peers s ! r) = i" for r s
  proof -
    note u = useMulticast_ok [OF that(1,2), of c]
    have "attempts_fit N p r (ln_useMulticast r c s)" using that(3) u(3,4) by (simp add: attempts_fit_def)
    from node_ok_setConnection(1) [OF u(1) _ this c] u(2,3) that(2,4) i(1) show ?thesis by (simp add: result_ok_def)
  qed
  show ?thesis
  proof (cases "i = p")
    case True
    then show ?thesis
      using use' [OF ok self(2) referenced_fit [OF ok]] self by (simp add: ln_cmdID_def referenced_def ln_self_def)
  next
    case other: False
    show ?thesis
    proof (cases "map_of (ln_nodes s) i")
      case (Some r)
      then show ?thesis using use' [OF ok _ referenced_fit [OF ok referenced_tables(1) [OF Some]]] known_node [OF ok Some other] other self
        by (simp add: ln_cmdID_def)
    next
      case None
      obtain o' s' where o': "ln_createNode E t fresh s = (o', s')" by (metis surj_pair)
      show ?thesis
      proof (cases o')
        case none: None
        then show ?thesis using None other self o' createNode_none [of E t fresh s s'] ok by (simp add: ln_cmdID_def result_ok_def)
      next
        case (Some r)
        with o' have new: "ln_createNode E t fresh s = (Some r, s')" by simp
        note k = create_ok [OF ok new]
        have fit: "map_of (ln_requests s') rid = Some r \<Longrightarrow> \<exists>c'. attempt_of N p rid c' \<and> i = other_end N c' p" for rid using k(5) by blast
        have ref: "referenced r s' \<Longrightarrow> pn_id (ln_peers s' ! r) = i" using k(4) by blast
        note d = deserialize_ok [OF F k(1-3) i(2) ref fit]
        let ?s = "ln_deserialize E r data s'"
        have r: "r < length (ln_peers ?s)" using k(2) d(4) by simp
        note n = node_ok_setNode [OF d(1) r d(2,3)]
        have "result_ok E N p (ln_setConnection c r (ln_useMulticast r c (?s\<lparr>ln_nodes := AList.update i r (ln_nodes ?s)\<rparr>)), [])"
          using use' [OF n(1) _ n(2)] r d(3) by simp
        then show ?thesis using None other self new by (simp add: ln_cmdID_def Let_def)
      qed
    qed
  qed
qed

lemma receive_ok:
  assumes "id_format_ok (ne_format E)" and "node_ok N p s" and "at_end N c p"
    and "\<forall>rid c c'. attempt_of N p rid c \<longrightarrow> attempt_of N p rid c' \<longrightarrow> c = c'" and "message_ok E N c p m"
  shows "result_ok E N p (ln_receive E fresh c m s)"
proof (cases m)
  case (NODE_CONNECT i rid t d)
  with assms(5) have "message_ok E N c p (NODE_CONNECT i rid t d)" by metis
  from cmdConnect_ok [OF assms(1-3) this] NODE_CONNECT show ?thesis by (simp add: ln_receive_def)
next
  case (NODE_CONNECT_REPLY i rid t d)
  with assms(5) have "message_ok E N c p (NODE_CONNECT_REPLY i rid t d)" by metis
  from cmdConnectReply_ok [OF assms(1-4) this] NODE_CONNECT_REPLY show ?thesis by (simp add: ln_receive_def)
next
  case NODE_CONNECT_ACK
  with assms(5) have "message_ok E N c p NODE_CONNECT_ACK" by metis
  from cmdConnectAck_ok [OF assms(2) _ this] assms(2) NODE_CONNECT_ACK show ?thesis
    by (simp add: ln_receive_def result_ok_def split: option.splits)
next
  case (NODE_ID i t d)
  with assms(5) have "message_ok E N c p (NODE_ID i t d)" by metis
  from cmdID_ok [OF assms(1-3) this] assms(2) NODE_ID show ?thesis by (simp add: ln_receive_def result_ok_def split: option.splits)
qed

lemma handleDisconnect_ok:
  assumes ok: "node_ok N p s" shows "result_ok E N p (ln_handleDisconnect E c s)"
proof (cases "map_of (ln_connectionNodes s) c")
  case None
  then show ?thesis using removeConnection_ok [OF ok] by (simp add: ln_handleDisconnect_def)
next
  case (Some r)
  note k = known_connection [OF ok Some]
  let ?x = "if pn_outgoing (ln_peers s ! r) = Some c then ln_closeNode r s
            else if ne_multicast E c then (ln_update r (pn_removeMulticast c) s, []) else (s, [])"
  have "pn_outgoing (ln_peers s ! 0) = None" using ok by (simp add: node_ok_def self_ok_def ln_self_def)
  then have "pn_outgoing (ln_peers s ! r) = Some c \<Longrightarrow> r \<noteq> 0" by (metis option.distinct(1))
  moreover have "node_ok N p (ln_update r (pn_removeMulticast c) s)"
    by (rule node_ok_update [OF ok]) (use k in \<open>simp_all add: pn_removeMulticast_def\<close>)
  ultimately have x: "result_ok E N p ?x" using closeNode_ok [OF ok] k ok by (simp add: result_ok_def)
  obtain s1 es1 where 1: "?x = (s1, es1)" by (metis surj_pair)
  obtain s2 es2 where 2: "ln_removeConnection c s1 = (s2, es2)" by (metis surj_pair)
  have "result_ok E N p (s2, es2)" using removeConnection_ok [of N p s1 E c] x 1 2 by (simp add: result_ok_def)
  with x 1 have "result_ok E N p (s2, RemoveNode r # es1 @ es2)" by (simp add: result_ok_def)
  then show ?thesis using Some 1 2 by (simp add: ln_handleDisconnect_def)
qed

lemma disconnect_ok:
  "node_ok N p s \<Longrightarrow> r < length (ln_peers s) \<Longrightarrow> r \<noteq> 0 \<Longrightarrow> result_ok E N p (snd (ln_disconnect r s))"
  using closeNode_ok [of N p s r E] by (auto simp: ln_disconnect_def result_ok_def split: prod.splits)

lemma ln_connect_ok:
  assumes ok: "node_ok N p s" and r: "r < length (ln_peers s)" "r \<notin> ran (map_of (ln_requests s))"
    and c: "attempt_of N p rid c" "other_end N c p \<noteq> p" "referenced r s \<Longrightarrow> pn_id (ln_peers s ! r) = other_end N c p"
    and x: "ln_connect E up rid r c s = Some x"
  shows "result_ok E N p x"
proof -
  let ?s = "s\<lparr>ln_incoming := ln_incoming s @ [c], ln_requests := AList.update rid r (ln_requests s)\<rparr>"
  have at: "at_end N c p" using c(1) by (simp add: attempt_of_def at_end_def)
  have m: "map_of (ln_requests ?s) = (map_of (ln_requests s))(rid \<mapsto> r)" by (simp add: update_conv')
  have refs: "referenced k ?s = referenced k s" for k by (simp add: referenced_def)
  have "inj_on (map_of (ln_requests ?s)) (dom (map_of (ln_requests ?s)))"
    using ok r(2) unfolding m node_ok_def attempts_ok_def by (auto simp: inj_on_def ran_def)
  moreover have "\<exists>c. attempt_of N p rid' c \<and> (referenced k ?s \<longrightarrow> pn_id (ln_peers s ! k) = other_end N c p)" "k < length (ln_peers s)"
    if "map_of (ln_requests ?s) rid' = Some k" for rid' k
  proof -
    have "(rid' = rid \<and> k = r) \<or> map_of (ln_requests s) rid' = Some k" using that by (auto simp: update_conv' split: if_splits)
    then show "\<exists>c. attempt_of N p rid' c \<and> (referenced k ?s \<longrightarrow> pn_id (ln_peers s ! k) = other_end N c p)" "k < length (ln_peers s)"
      using ok c(1,3) r(1) unfolding refs node_ok_def attempts_ok_def by blast+
  qed
  ultimately have "attempts_ok N p ?s" by (simp add: attempts_ok_def)
  then have "node_ok N p ?s" using ok at by (simp add: node_ok_def self_ok_def ln_self_def peers_ok_def tables_ok_def)
  moreover have "effects_ok E N p [Send c (NODE_CONNECT p rid t (ln_serialize E s))]" for t
    using at c(1,2) data_of_self [OF ok, of E] by (simp add: other_other attempt_of_def)
  moreover have "pn_id (ln_self s) = p" using ok by (simp add: node_ok_def self_ok_def)
  ultimately show ?thesis using x by (auto simp: ln_connect_def result_ok_def split: if_splits)
qed

section \<open>Runs of the network\<close>

text \<open>The invariant of a node depends on the connections only, and stays with more of them.\<close>

lemma net_apply_ends [simp]:
  "at_end (net_apply p x N) = at_end N" "other_end (net_apply p x N) = other_end N" "attempt_of (net_apply p x N) = attempt_of N"
  "at_end (net_take c p N) = at_end N" "other_end (net_take c p N) = other_end N" "attempt_of (net_take c p N) = attempt_of N"
  by (auto simp: fun_eq_iff at_end_def other_end_def attempt_of_def net_apply_def net_take_def)

lemma node_ok_ends:
  "at_end N' = at_end N \<Longrightarrow> other_end N' = other_end N \<Longrightarrow> attempt_of N' = attempt_of N \<Longrightarrow> node_ok N' p s = node_ok N p s"
  by (simp add: node_ok_def peers_ok_def tables_ok_def attempts_ok_def)

lemma message_ok_ends:
  "other_end N' = other_end N \<Longrightarrow> attempt_of N' = attempt_of N \<Longrightarrow> message_ok E N' c p m = message_ok E N c p m"
  by (cases m) simp_all

lemma net_open_ends:
  "at_end N c p \<Longrightarrow> at_end (net_open conn N) c p" "c < length (net_connections N) \<Longrightarrow> other_end (net_open conn N) c p = other_end N c p"
  "attempt_of N p rid c \<Longrightarrow> attempt_of (net_open conn N) p rid c"
  by (auto simp: at_end_def other_end_def attempt_of_def net_open_def nth_append)

lemma net_open_fields [simp]: "net_node (net_open conn N) = net_node N" "net_channel (net_open conn N) = net_channel N"
  "length (net_connections (net_open conn N)) = Suc (length (net_connections N))"
  "net_connections (net_open conn N) ! length (net_connections N) = conn"
  by (simp_all add: net_open_def)

lemma node_ok_open:
  assumes "node_ok N p s" shows "node_ok (net_open conn N) p s"
proof -
  have same: "at_end N c p \<Longrightarrow> other_end (net_open conn N) c p = other_end N c p"
    "attempt_of N p rid c \<Longrightarrow> other_end (net_open conn N) c p = other_end N c p" for c rid
    by (simp_all add: at_end_def attempt_of_def net_open_ends)
  have "peers_ok (net_open conn N) p s" "tables_ok (net_open conn N) p s"
    using assms by (simp_all add: node_ok_def peers_ok_def tables_ok_def same net_open_ends)
  moreover have "attempts_ok (net_open conn N) p s"
    using assms same net_open_ends(3) unfolding node_ok_def attempts_ok_def by metis
  ultimately show ?thesis using assms by (simp add: node_ok_def)
qed

lemma message_ok_open:
  "at_end N c p \<Longrightarrow> message_ok E N c p m \<Longrightarrow> message_ok E (net_open conn N) c p m"
  by (cases m) (auto simp: net_open_ends at_end_def)

lemma net_inv_open:
  assumes inv: "net_inv E N" and fresh: "\<forall>conn'\<in>set (net_connections N). cn_opener conn' = cn_opener conn \<longrightarrow> cn_request conn' \<noteq> cn_request conn"
  shows "net_inv E (net_open conn N)"
proof -
  have "c = c'" if "attempt_of (net_open conn N) p rid c" "attempt_of (net_open conn N) p rid c'" for p rid c c'
  proof (cases "c < length (net_connections N) \<and> c' < length (net_connections N)")
    case True
    then have "attempt_of N p rid c" "attempt_of N p rid c'" using that by (auto simp: attempt_of_def net_open_def nth_append)
    then show ?thesis using inv by (auto simp: net_inv_def)
  next
    case False
    then show ?thesis using that fresh by (auto simp: attempt_of_def net_open_def nth_append less_Suc_eq split: if_splits)
  qed
  moreover have "at_end (net_open conn N) c p \<and> message_ok E (net_open conn N) c p m" if "m \<in> set (net_channel N c p)" for c p m
    using inv that net_open_ends(1) message_ok_open unfolding net_inv_def by blast
  moreover have "node_ok (net_open conn N) p (net_node N p)" for p using inv node_ok_open by (simp add: net_inv_def)
  ultimately show ?thesis unfolding net_inv_def net_open_fields by blast
qed

lemma net_inv_apply:
  assumes inv: "net_inv E N" and x: "result_ok E N p x" shows "net_inv E (net_apply p x N)"
proof -
  have nodes: "node_ok (net_apply p x N) q (net_node (net_apply p x N) q)" for q
    using inv x node_ok_ends [of "net_apply p x N" N] by (simp add: net_inv_def result_ok_def) (simp add: net_apply_def)
  have sent: "at_end N c p \<and> message_ok E N c (other_end N c p) m" if "m \<in> set (net_sends c (snd x))" for c m
    using that x by (auto simp: net_sends_def result_ok_def effects_ok_def split: node_effect.splits if_splits)
  have "at_end N c q \<and> message_ok E N c q m" if "m \<in> set (net_channel (net_apply p x N) c q)" for c q m
    using that inv sent at_other by (auto simp: net_apply_def net_inv_def split: if_splits)
  then show ?thesis using inv nodes message_ok_ends [of "net_apply p x N" N] by (simp add: net_inv_def)
qed

lemma net_take_node [simp]: "net_node (net_take c p N) = net_node N"
  by (simp add: net_take_def)

lemma net_inv_message: "net_inv E N \<Longrightarrow> m \<in> set (net_channel N c p) \<Longrightarrow> at_end N c p \<and> message_ok E N c p m"
  unfolding net_inv_def by blast

lemma net_inv_unique: "net_inv E N \<Longrightarrow> \<forall>rid c c'. attempt_of N p rid c \<longrightarrow> attempt_of N p rid c' \<longrightarrow> c = c'"
  unfolding net_inv_def by blast

lemma net_inv_take: "net_inv E N \<Longrightarrow> net_inv E (net_take c p N)"
proof -
  assume inv: "net_inv E N"
  have "m \<in> set (net_channel N c' q)" if "m \<in> set (net_channel (net_take c p N) c' q)" for c' q m
    using that by (auto simp: net_take_def split: if_splits) (metis list.sel(2) list.set_sel(2))
  then have "at_end N c' q \<and> message_ok E N c' q m" if "m \<in> set (net_channel (net_take c p N) c' q)" for c' q m
    using net_inv_message [OF inv] that by blast
  moreover have "node_ok (net_take c p N) q (net_node (net_take c p N) q)" for q
    using inv node_ok_ends [of "net_take c p N" N] by (simp add: net_inv_def)
  ultimately show ?thesis using inv message_ok_ends [of "net_take c p N" N] by (simp add: net_inv_def)
qed

lemma net_inv_node: "net_inv E N \<Longrightarrow> node_ok N p (net_node N p)"
  by (simp add: net_inv_def)

lemma net_inv_step:
  assumes F: "id_format_ok (ne_format E)" and "net_step E N N'" and inv: "net_inv E N" shows "net_inv E N'"
  using assms(2)
proof cases
  case (create p type d)
  have "result_ok E N p ((net_node N p)\<lparr>ln_peers := ln_peers (net_node N p) @ [pn_new type d]\<rparr>, [])"
    using node_ok_create [OF net_inv_node [OF inv]] by (simp add: result_ok_def)
  with net_inv_apply [OF inv] create show ?thesis by simp
next
  case (connect p q r rid up x)
  let ?conn = "\<lparr>cn_opener = p, cn_acceptor = q, cn_request = rid\<rparr>" and ?c = "length (net_connections N)"
  have inv': "net_inv E (net_open ?conn N)" using net_inv_open [OF inv] connect(7) by simp
  have c: "attempt_of (net_open ?conn N) p rid ?c" "other_end (net_open ?conn N) ?c p = q"
    by (simp_all add: attempt_of_def other_end_def)
  have "result_ok E (net_open ?conn N) p x"
    using ln_connect_ok [OF net_inv_node [OF inv'], of r p rid ?c E up x] connect c by simp
  with net_inv_apply [OF inv'] connect(1) show ?thesis by simp
next
  case (accept c p)
  then have "at_end N c p" by (simp add: at_end_def)
  then have "node_ok N p (ln_handleConnect (Some c) (net_node N p))"
    unfolding ln_handleConnect_def option.case by (rule node_ok_incoming [OF net_inv_node [OF inv]])
  then show ?thesis using net_inv_apply [OF inv] accept by (simp add: result_ok_def)
next
  case (announce p q rid)
  let ?conn = "\<lparr>cn_opener = p, cn_acceptor = q, cn_request = rid\<rparr>" and ?c = "length (net_connections N)"
  have inv': "net_inv E (net_open ?conn N)" using net_inv_open [OF inv] announce(5) by simp
  have c: "at_end (net_open ?conn N) ?c p" by (simp add: at_end_def)
  have node: "node_ok (net_open ?conn N) p (net_node N p)" using net_inv_node [OF inv', of p] by simp
  have "result_ok E (net_open ?conn N) p (net_node N p, [Send ?c (NODE_ID p t (ln_serialize E (net_node N p)))])" for t
    using c node data_of_self [OF node, of E] by (simp add: result_ok_def other_other)
  with net_inv_apply [OF inv'] announce(1) show ?thesis by simp
next
  case (receive c p m ms fresh)
  then have m: "at_end N c p" "message_ok E N c p m" using net_inv_message [OF inv, of m c p] by simp_all
  let ?N = "net_take c p N"
  have inv': "net_inv E ?N" using inv by (rule net_inv_take)
  have node: "node_ok ?N p (net_node N p)" using net_inv_node [OF inv', of p] by simp
  have "result_ok E ?N p (ln_receive E fresh c m (net_node N p))"
    using m message_ok_ends [of ?N N] net_inv_unique [OF inv'] by (intro receive_ok [OF F node]) simp_all
  with net_inv_apply [OF inv'] receive(1) show ?thesis by simp
next
  case (lost c p)
  then show ?thesis using net_inv_apply [OF inv handleDisconnect_ok [OF net_inv_node [OF inv]]] by simp
next
  case (disconnect r p)
  then show ?thesis using net_inv_apply [OF inv disconnect_ok [OF net_inv_node [OF inv]]] by simp
next
  case (timeout p rid)
  have "node_ok N p (ln_unregister rid (net_node N p))"
    by (rule node_ok_less [OF net_inv_node [OF inv, of p]]) (simp_all add: ln_unregister_def)
  then show ?thesis using net_inv_apply [OF inv] timeout by (simp add: result_ok_def)
qed

lemma net_inv_start:
  assumes "\<forall>p. ln_listening E p (net_node N p)" and "net_connections N = []" and "\<forall>c p. net_channel N c p = []"
  shows "net_inv E N"
proof -
  have "node_ok N p (net_node N p)" for p
    using assms(1) [THEN spec, of p]
    by (auto simp: ln_listening_def node_ok_def self_ok_def ln_self_def peers_ok_def tables_ok_def attempts_ok_def split: if_splits)
  then show ?thesis using assms(2,3) by (simp add: net_inv_def attempt_of_def)
qed

lemma net_inv_reach: "net_reach E N \<Longrightarrow> id_format_ok (ne_format E) \<Longrightarrow> net_inv E N"
  by (induction rule: net_reach.induct) (auto intro: net_inv_start net_inv_step)

text \<open>
  C8 (connection_identity): however the nodes of a network connect, connect to each other at the same time, are refused, give up
  after the timeout, disconnect, lose connections and announce themselves on multicast groups: a
  connection a node uses for a peer leads to the node whose identifier the peer has, every command received
  is attributed to the node that sent it, and the table of nodes is keyed by the identifiers of its nodes.
  Node objects are used for one attempt at a time, requests are not reused, and the identifiers
  are printed and read back faithfully.
\<close>

theorem connection_identity:
  assumes "net_reach E N" and "id_format_ok (ne_format E)"
  shows "(\<forall>r<length (ln_peers (net_node N p)). r \<noteq> 0 \<and> pn_state (ln_peers (net_node N p) ! r) = STATE_CONNECTED \<longrightarrow>
      (\<exists>c. pn_outgoing (ln_peers (net_node N p) ! r) = Some c \<and> at_end N c p \<and>
           other_end N c p = pn_id (ln_peers (net_node N p) ! r))) \<and>
    (\<forall>c r. map_of (ln_connectionNodes (net_node N p)) c = Some r \<longrightarrow>
      at_end N c p \<and> pn_id (ln_peers (net_node N p) ! r) = other_end N c p) \<and>
    (\<forall>i r. map_of (ln_nodes (net_node N p)) i = Some r \<longrightarrow> pn_id (ln_peers (net_node N p) ! r) = i)"
proof -
  have ok: "node_ok N p (net_node N p)" using net_inv_node [OF net_inv_reach [OF assms]] .
  show ?thesis
  proof (intro conjI allI impI)
    fix r assume r: "r < length (ln_peers (net_node N p))" "r \<noteq> 0 \<and> pn_state (ln_peers (net_node N p) ! r) = STATE_CONNECTED"
    then have "pn_outgoing (ln_peers (net_node N p) ! r) \<noteq> None" using ok by (auto simp: node_ok_def peers_ok_def split: if_splits)
    then show "\<exists>c. pn_outgoing (ln_peers (net_node N p) ! r) = Some c \<and> at_end N c p \<and>
        other_end N c p = pn_id (ln_peers (net_node N p) ! r)"
      using ok r(1) by (auto simp: node_ok_def peers_ok_def)
  qed (use ok in \<open>simp_all add: node_ok_def tables_ok_def\<close>)
qed

end
