(* ===== verification/Connect_Handshake.thy ===== *)
theory Connect_Handshake
  imports Connect_Protocol
begin

text \<open>
  The handshake step by step: a node that is not known yet is connected after one exchange, on both sides and over the
  same connection. Two nodes that connect to each other at the same time end up with two connections, of which
  each side uses a different one.
\<close>

section \<open>What the handlers do\<close>

lemma deserialize_serialize:
  assumes "id_format_ok (ne_format E)" and "nx_printable (pn_data (ln_self t))"
  shows "ln_deserialize E r (ln_serialize E t) s = ln_update r (\<lambda>n. n\<lparr>pn_data := pn_data (ln_self t)\<rparr>) s"
  using nx_deserialize_node [OF assms] by (simp add: ln_deserialize_def ln_serialize_def)

text \<open>The fields the handshake is about: identity, state and connection of a node object.\<close>

definition view :: "peer \<Rightarrow> NodeID \<times> node_state \<times> nat option" where
  "view n = (pn_id n, pn_state n, pn_outgoing n)"

definition accepted :: "node_env \<Rightarrow> nat \<Rightarrow> nat \<Rightarrow> local_node \<Rightarrow> string \<Rightarrow> local_node" where
  "accepted E c r s data = ln_setNode r (ln_setConnection c r (ln_deserialize E r data s))"

lemma accepted_view:
  assumes "id_format_ok (ne_format E)" and "nx_printable (pn_data (ln_self t))" and "r < length (ln_peers s)"
  shows "map_of (ln_connectionNodes (accepted E c r s (ln_serialize E t))) c = Some r"
    and "map_of (ln_nodes (accepted E c r s (ln_serialize E t))) (pn_id (ln_self t)) = Some r"
    and "ln_peers (accepted E c r s (ln_serialize E t)) = (ln_peers s)[r := (ln_peers s ! r)\<lparr>pn_data := pn_data (ln_self t)\<rparr>]"
    and "ln_incoming (accepted E c r s (ln_serialize E t)) = ln_incoming s"
  using assms
  by (simp_all add: accepted_def deserialize_serialize ln_setNode_def ln_setConnection_def ln_update_def update_conv' pn_id_def)

lemma cmdConnect_new:
  assumes "map_of (ln_nodes s) i = None" and "ne_creates E t"
  shows "ln_cmdConnect E fresh c i rid t data s =
    (let s' = accepted E c (length (ln_peers s)) (s\<lparr>ln_peers := ln_peers s @ [pn_new t fresh]\<rparr>) data
     in (s', [Send c (NODE_CONNECT_REPLY (pn_id (ln_self s')) rid (pn_type (ln_self s')) (ln_serialize E s'))]))"
  using assms by (simp add: ln_cmdConnect_def ln_createNode_def accepted_def)

definition connected :: "node_env \<Rightarrow> nat \<Rightarrow> nat \<Rightarrow> local_node \<Rightarrow> string \<Rightarrow> local_node" where
  "connected E c r s data =
     ln_connectMulticast E r (ln_setNode r (ln_setConnection c r (ln_update r (pn_connect c) (ln_deserialize E r data s))))"

lemma view_connectMulticast [simp]: "view (pn_connectMulticast descr self n) = view n"
  by (simp add: view_def pn_id_def)

lemma connected_view:
  assumes "id_format_ok (ne_format E)" and "nx_printable (pn_data (ln_self t))" and "r < length (ln_peers s)"
  shows "map_of (ln_nodes (connected E c r s (ln_serialize E t))) (pn_id (ln_self t)) = Some r"
    and "view (ln_peers (connected E c r s (ln_serialize E t)) ! r) = (pn_id (ln_self t), STATE_CONNECTED, Some c)"
    and "ln_requests (connected E c r s (ln_serialize E t)) = ln_requests s"
proof -
  let ?n = "(ln_peers s ! r)\<lparr>pn_data := pn_data (ln_self t), pn_outgoing := Some c, pn_state := STATE_CONNECTED\<rparr>"
  let ?s = "ln_setNode r (ln_setConnection c r (ln_update r (pn_connect c) (ln_deserialize E r (ln_serialize E t) s)))"
  have p: "ln_peers ?s = (ln_peers s)[r := ?n]" and n: "map_of (ln_nodes ?s) (pn_id (ln_self t)) = Some r"
    and q: "ln_requests ?s = ln_requests s"
    using assms
    by (simp_all add: deserialize_serialize ln_setNode_def ln_setConnection_def ln_update_def pn_connect_def update_conv' pn_id_def)
  show "view (ln_peers (connected E c r s (ln_serialize E t)) ! r) = (pn_id (ln_self t), STATE_CONNECTED, Some c)"
    using p assms(3) by (simp add: connected_def ln_connectMulticast_def ln_update_nth) (simp add: view_def pn_id_def)
  show "map_of (ln_nodes (connected E c r s (ln_serialize E t))) (pn_id (ln_self t)) = Some r"
    "ln_requests (connected E c r s (ln_serialize E t)) = ln_requests s"
    using n q by (simp_all add: connected_def ln_connectMulticast_def)
qed

lemma cmdConnectReply_request:
  assumes "i \<noteq> 0" and "map_of (ln_nodes s) i = None" and "map_of (ln_requests s) rid = Some r" and "rid \<noteq> ne_undefined E"
  shows "ln_cmdConnectReply E fresh c i rid t data s =
    (ln_serveRequest rid True (connected E c r s data), [Send c NODE_CONNECT_ACK])"
  using assms by (simp add: ln_cmdConnectReply_def connected_def)

section \<open>One exchange\<close>

lemma net_apply_node: "net_node (net_apply p x N) q = (if q = p then fst x else net_node N q)"
  by (simp add: net_apply_def)

lemma net_apply_channel:
  "net_channel (net_apply p x N) c q =
     net_channel N c q @ (if at_end N c p \<and> q = other_end N c p then net_sends c (snd x) else [])"
  by (simp add: net_apply_def)

lemma net_take_channel:
  "net_channel (net_take c p N) c' q = (if c' = c \<and> q = p then tl (net_channel N c p) else net_channel N c' q)"
  by (simp add: net_take_def)

lemma net_sends_simps [simp]:
  "net_sends c [] = []" "net_sends c [Send c' m] = (if c' = c then [m] else [])"
  by (simp_all add: net_sends_def)

lemmas net_fields = net_apply_node net_apply_channel net_take_channel

lemma new_channel_empty: "net_inv E N \<Longrightarrow> net_channel N (length (net_connections N)) p = []"
  using net_inv_message [of E N _ "length (net_connections N)" p] by (auto simp: at_end_def intro: ccontr [of "_ = []"] dest: hd_in_set)

lemma serve_view [simp]:
  "ln_nodes (ln_serveRequest rid v s) = ln_nodes s" "ln_peers (ln_serveRequest rid v s) = ln_peers s"
  by (simp_all add: ln_serveRequest_def split: option.splits)

lemma serve_result: "map_of (ln_requests s) rid = Some r \<Longrightarrow> (rid, v) \<in> set (ln_results (ln_serveRequest rid v s))"
  by (simp add: ln_serveRequest_def)

lemma self_ok_fields:
  "net_inv E N \<Longrightarrow> pn_id (ln_self (net_node N p)) = p \<and> nx_printable (pn_data (ln_self (net_node N p))) \<and>
     pn_state (ln_self (net_node N p)) = STATE_LISTENING \<and> ln_peers (net_node N p) \<noteq> []"
  using net_inv_node [of E N p] by (simp add: node_ok_def self_ok_def)

text \<open>A connection that is open on both sides, with the request of the opener on its way.\<close>

definition opened :: "node_env \<Rightarrow> network \<Rightarrow> nat \<Rightarrow> NodeID \<Rightarrow> NodeID \<Rightarrow> uint32 \<Rightarrow> nat \<Rightarrow> bool" where
  "opened E N c p q rid r \<longleftrightarrow>
     p \<noteq> q \<and> q \<noteq> 0 \<and> rid \<noteq> ne_undefined E \<and>
     at_end N c p \<and> at_end N c q \<and> other_end N c p = q \<and> other_end N c q = p \<and>
     c \<in> set (ln_incoming (net_node N p)) \<and> c \<in> set (ln_incoming (net_node N q)) \<and>
     map_of (ln_requests (net_node N p)) rid = Some r \<and> r < length (ln_peers (net_node N p)) \<and>
     map_of (ln_nodes (net_node N p)) q = None \<and> map_of (ln_nodes (net_node N q)) p = None \<and>
     ne_creates E (pn_type (ln_self (net_node N p))) \<and>
     net_channel N c p = [] \<and>
     net_channel N c q = [NODE_CONNECT p rid (pn_type (ln_self (net_node N p))) (ln_serialize E (net_node N p))]"

text \<open>
  The exchange as the sequence of its calls: the opener connects, the acceptor accepts, and the
  command at the head of the connection is handled at the acceptor, at the opener and at the acceptor.
\<close>

definition net_connect :: "node_env \<Rightarrow> uint32 \<Rightarrow> nat \<Rightarrow> NodeID \<Rightarrow> NodeID \<Rightarrow> network \<Rightarrow> network" where
  "net_connect E rid r p q N =
     (case ln_connect E True rid r (length (net_connections N)) (net_node N p) of
        None \<Rightarrow> N
      | Some result \<Rightarrow> net_apply p result (net_open \<lparr>cn_opener = p, cn_acceptor = q, cn_request = rid\<rparr> N))"

definition net_accept :: "nat \<Rightarrow> NodeID \<Rightarrow> network \<Rightarrow> network" where
  "net_accept c q N = net_apply q (ln_handleConnect (Some c) (net_node N q), []) N"

definition net_receive :: "node_env \<Rightarrow> node_data \<Rightarrow> nat \<Rightarrow> NodeID \<Rightarrow> network \<Rightarrow> network" where
  "net_receive E fresh c p N =
     (case net_channel N c p of
        [] \<Rightarrow> N
      | m # ms \<Rightarrow> net_apply p (ln_receive E fresh c m (net_node N p)) (net_take c p N))"

definition net_handshake :: "node_env \<Rightarrow> node_data \<Rightarrow> uint32 \<Rightarrow> nat \<Rightarrow> NodeID \<Rightarrow> NodeID \<Rightarrow> network \<Rightarrow> network" where
  "net_handshake E fresh rid r p q N =
     (let c = length (net_connections N)
      in net_receive E fresh c q (net_receive E fresh c p (net_receive E fresh c q
           (net_accept c q (net_connect E rid r p q N)))))"

lemma connect_opened:
  assumes inv: "net_inv E N" and pq: "p \<noteq> q" "q \<noteq> 0"
    and r: "r < length (ln_peers (net_node N p))" "\<not> referenced r (net_node N p)" "r \<notin> ran (map_of (ln_requests (net_node N p)))"
    and rid: "\<forall>conn\<in>set (net_connections N). cn_opener conn = p \<longrightarrow> cn_request conn \<noteq> rid" "rid \<noteq> ne_undefined E"
    and new: "map_of (ln_nodes (net_node N p)) q = None" "map_of (ln_nodes (net_node N q)) p = None"
    and type: "ne_creates E (pn_type (ln_self (net_node N p)))" "\<not> ne_multicast E (length (net_connections N))"
  shows "(net_step E)\<^sup>*\<^sup>* N (net_accept (length (net_connections N)) q (net_connect E rid r p q N))"
    and "opened E (net_accept (length (net_connections N)) q (net_connect E rid r p q N)) (length (net_connections N)) p q rid r"
proof -
  let ?c = "length (net_connections N)" and ?p = "net_node N p" and ?q = "net_node N q"
  let ?conn = "\<lparr>cn_opener = p, cn_acceptor = q, cn_request = rid\<rparr>"
  note p = self_ok_fields [OF inv, of p]
  have closed: "pn_state (ln_peers ?p ! r) = STATE_CLOSED"
    using net_inv_node [OF inv, of p] r by (auto simp: node_ok_def peers_ok_def referenced_def)
  define m1 where "m1 = NODE_CONNECT p rid (pn_type (ln_self ?p)) (ln_serialize E ?p)"
  define s1 where "s1 = ?p\<lparr>ln_incoming := ln_incoming ?p @ [?c], ln_requests := AList.update rid r (ln_requests ?p)\<rparr>"
  define N1 where "N1 = net_apply p (s1, [Send ?c m1]) (net_open ?conn N)"
  have ends: "at_end (net_open ?conn N) ?c p" "at_end (net_open ?conn N) ?c q"
      "other_end (net_open ?conn N) ?c p = q" "other_end (net_open ?conn N) ?c q = p"
    using pq by (simp_all add: at_end_def other_end_def)
  have conn: "net_connect E rid r p q N = N1"
    using p closed by (simp add: net_connect_def ln_connect_def N1_def s1_def m1_def)
  have 1: "net_step E N N1"
    unfolding N1_def
    by (rule net_step.connect [where up = True, OF pq r(1,3) _ rid(1) type(2)]) (use r(2) p closed in \<open>simp_all add: ln_connect_def s1_def m1_def\<close>)
  have N1: "net_node N1 p = s1" "net_node N1 q = ?q" "net_channel N1 ?c q = [m1]" "net_channel N1 ?c p = []"
    using pq ends new_channel_empty [OF inv] by (simp_all add: N1_def net_fields)
  have len1: "length (net_connections N1) = Suc ?c" "net_connections N1 ! ?c = ?conn" by (simp_all add: N1_def net_apply_def)
  define N2 where "N2 = net_apply q (ln_handleConnect (Some ?c) ?q, []) N1"
  have 2: "net_step E N1 N2"
    unfolding N2_def N1(2) [symmetric] by (rule net_step.accept) (simp_all add: len1)
  have self: "ln_self s1 = ln_self ?p" "ln_serialize E s1 = ln_serialize E ?p" by (simp_all add: s1_def ln_self_def ln_serialize_def)
  have "opened E N2 ?c p q rid r"
    using pq rid(2) ends new type(1) r(1) N1 self
    by (simp add: opened_def N2_def net_fields) (simp add: N1_def s1_def m1_def ln_handleConnect_def update_conv')
  moreover have steps: "(net_step E)\<^sup>*\<^sup>* N N2" using 1 2 by (meson converse_rtranclp_into_rtranclp rtranclp.rtrancl_refl)
  moreover have "net_accept ?c q (net_connect E rid r p q N) = N2" by (simp add: net_accept_def conn N2_def N1(2))
  ultimately show "(net_step E)\<^sup>*\<^sup>* N (net_accept ?c q (net_connect E rid r p q N))"
    "opened E (net_accept ?c q (net_connect E rid r p q N)) ?c p q rid r"
    using steps by simp_all
qed

text \<open>The acceptor handles the request, the opener the reply, the acceptor the acknowledgement.\<close>

lemma opened_exchange:
  fixes fresh :: node_data
  assumes inv: "net_inv E N" and F: "id_format_ok (ne_format E)" and o': "opened E N c p q rid r"
  defines "N' \<equiv> net_receive E fresh c q (net_receive E fresh c p (net_receive E fresh c q N))"
  shows "(net_step E)\<^sup>*\<^sup>* N N' \<and> net_channel N' c p = [] \<and> net_channel N' c q = [] \<and>
    (\<exists>r'. map_of (ln_nodes (net_node N' p)) q = Some r \<and> view (ln_peers (net_node N' p) ! r) = (q, STATE_CONNECTED, Some c) \<and>
    map_of (ln_nodes (net_node N' q)) p = Some r' \<and> view (ln_peers (net_node N' q) ! r') = (p, STATE_CONNECTED, Some c) \<and>
    (rid, True) \<in> set (ln_results (net_node N' p)))"
proof -
  let ?p = "net_node N p" and ?q = "net_node N q" and ?r = "length (ln_peers (net_node N q))"
  have o: "p \<noteq> q" "q \<noteq> p" "q \<noteq> 0" "rid \<noteq> ne_undefined E" "at_end N c p" "at_end N c q" "other_end N c p = q" "other_end N c q = p"
    "c \<in> set (ln_incoming ?p)" "c \<in> set (ln_incoming ?q)" "map_of (ln_requests ?p) rid = Some r" "r < length (ln_peers ?p)"
    "map_of (ln_nodes ?p) q = None" "map_of (ln_nodes ?q) p = None" "ne_creates E (pn_type (ln_self ?p))" "net_channel N c p = []"
    "net_channel N c q = [NODE_CONNECT p rid (pn_type (ln_self ?p)) (ln_serialize E ?p)]"
    using o' unfolding opened_def by auto
  note p = self_ok_fields [OF inv, of p] and q = self_ok_fields [OF inv, of q]
  define s3 where "s3 = accepted E c ?r (?q\<lparr>ln_peers := ln_peers ?q @ [pn_new (pn_type (ln_self ?p)) fresh]\<rparr>) (ln_serialize E ?p)"
  define m3 where "m3 = NODE_CONNECT_REPLY q rid (pn_type (ln_self s3)) (ln_serialize E s3)"
  define N3 where "N3 = net_apply q (s3, [Send c m3]) (net_take c q N)"
  note a = accepted_view [OF F conjunct1 [OF conjunct2 [OF p]], where r = ?r and c = c
      and s = "?q\<lparr>ln_peers := ln_peers ?q @ [pn_new (pn_type (ln_self ?p)) fresh]\<rparr>", simplified, folded s3_def]
  have self3: "ln_self s3 = ln_self ?q" using q by (simp add: ln_self_def a(3) nth_append)
  have rcv3: "ln_receive E fresh c (NODE_CONNECT p rid (pn_type (ln_self ?p)) (ln_serialize E ?p)) ?q = (s3, [Send c m3])"
    using o q self3 by (simp add: ln_receive_def cmdConnect_new Let_def m3_def flip: s3_def)
  from rcv3 have 3: "net_step E N N3" using net_step.receive [of c N q _ "[]" E fresh] o unfolding N3_def by metis
  have r3: "net_receive E fresh c q N = N3" using rcv3 o by (simp add: net_receive_def N3_def)
  have N3: "net_node N3 p = ?p" "net_node N3 q = s3" "net_channel N3 c p = [m3]" "net_channel N3 c q = []"
    using o by (simp_all add: N3_def net_fields)
  define s4 where "s4 = ln_serveRequest rid True (connected E c r ?p (ln_serialize E s3))"
  define N4 where "N4 = net_apply p (s4, [Send c NODE_CONNECT_ACK]) (net_take c p N3)"
  have rcv4: "ln_receive E fresh c m3 (net_node N3 p) = (s4, [Send c NODE_CONNECT_ACK])"
    using o N3 by (simp add: ln_receive_def m3_def s4_def cmdConnectReply_request)
  from rcv4 have 4: "net_step E N3 N4" using net_step.receive [of c N3 p m3 "[]" E fresh] o N3 unfolding N4_def by simp
  have r4: "net_receive E fresh c p N3 = N4" using rcv4 N3 by (simp add: net_receive_def N4_def)
  have N4: "net_node N4 p = s4" "net_node N4 q = s3" "net_channel N4 c q = [NODE_CONNECT_ACK]" "net_channel N4 c p = []"
    using o N3 by (simp_all add: N4_def net_fields) (simp_all add: N3_def)
  define s5 where "s5 = ln_connectMulticast E ?r (ln_update ?r (pn_connect c) s3)"
  define N5 where "N5 = net_apply q (s5, []) (net_take c q N4)"
  have rcv5: "ln_receive E fresh c NODE_CONNECT_ACK (net_node N4 q) = (s5, [])"
    using N4 a(1) by (simp add: ln_receive_def ln_cmdConnectAck_def s5_def)
  from rcv5 have 5: "net_step E N4 N5" using net_step.receive [of c N4 q _ "[]" E fresh] o N4 a(4) unfolding N5_def by simp
  have N5: "net_node N5 p = s4" "net_node N5 q = s5" "net_channel N5 c p = []" "net_channel N5 c q = []"
    using o N4 by (simp_all add: N5_def net_fields)
  have "net_receive E fresh c q N4 = N5" using rcv5 N4 by (simp add: net_receive_def N5_def)
  then have N': "N' = N5" by (simp add: N'_def r3 r4)
  have run: "(net_step E)\<^sup>*\<^sup>* N N5" using 3 4 5 by (meson converse_rtranclp_into_rtranclp r_into_rtranclp)
  have printable: "nx_printable (pn_data (ln_self s3))" using self3 q by simp
  note k = connected_view [OF F printable o(12), of c, folded self3]
  have "map_of (ln_nodes s4) q = Some r" "view (ln_peers s4 ! r) = (q, STATE_CONNECTED, Some c)" "(rid, True) \<in> set (ln_results s4)"
    using k self3 q o(11) serve_result [of "connected E c r ?p (ln_serialize E s3)" rid r True] by (simp_all add: s4_def)
  moreover have "map_of (ln_nodes s5) p = Some ?r" using a(2) p by (simp add: s5_def ln_connectMulticast_def)
  moreover have "view (ln_peers s5 ! ?r) = (p, STATE_CONNECTED, Some c)"
    using p by (simp add: s5_def ln_connectMulticast_def ln_update_nth a(3)) (simp add: view_def pn_connect_def pn_id_def)
  ultimately show ?thesis using N5 run unfolding N' by blast
qed

lemma handshake_run:
  fixes fresh :: node_data
  assumes reach: "net_reach E N" and F: "id_format_ok (ne_format E)" and pq: "p \<noteq> q" "q \<noteq> 0"
    and r: "r < length (ln_peers (net_node N p))" "\<not> referenced r (net_node N p)" "r \<notin> ran (map_of (ln_requests (net_node N p)))"
    and rid: "\<forall>conn\<in>set (net_connections N). cn_opener conn = p \<longrightarrow> cn_request conn \<noteq> rid" "rid \<noteq> ne_undefined E"
    and new: "map_of (ln_nodes (net_node N p)) q = None" "map_of (ln_nodes (net_node N q)) p = None"
    and type: "ne_creates E (pn_type (ln_self (net_node N p)))" "\<not> ne_multicast E (length (net_connections N))"
  defines "N' \<equiv> net_handshake E fresh rid r p q N" and "c \<equiv> length (net_connections N)"
  shows "net_reach E N' \<and> net_channel N' c p = [] \<and> net_channel N' c q = [] \<and>
    (\<exists>r'. map_of (ln_nodes (net_node N' p)) q = Some r \<and> view (ln_peers (net_node N' p) ! r) = (q, STATE_CONNECTED, Some c) \<and>
      map_of (ln_nodes (net_node N' q)) p = Some r' \<and> view (ln_peers (net_node N' q) ! r') = (p, STATE_CONNECTED, Some c) \<and>
      (rid, True) \<in> set (ln_results (net_node N' p)))"
proof -
  have steps: "(net_step E)\<^sup>*\<^sup>* M M' \<Longrightarrow> net_reach E M \<Longrightarrow> net_reach E M'" for M M'
    by (induction rule: rtranclp_induct) (auto intro: net_reach.step)
  let ?N1 = "net_accept c q (net_connect E rid r p q N)"
  have inv: "net_inv E N" using reach F by (rule net_inv_reach)
  note 1 = connect_opened [OF inv pq r rid new type, folded c_def]
  have N1: "net_reach E ?N1" using steps 1(1) reach by blast
  have "N' = net_receive E fresh c q (net_receive E fresh c p (net_receive E fresh c q ?N1))"
    by (simp add: N'_def c_def net_handshake_def Let_def)
  with opened_exchange [OF net_inv_reach [OF N1 F] F 1(2), of fresh] N1 show ?thesis using steps by metis
qed

text \<open>
  C7 (connect_handshake): in every reachable state of the network, when a node opens a connection to
  one that does not know it and is not known to it, and the connect command, its reply and the
  acknowledgement are handled one after the other with nothing else in between, both nodes have a connected
  node object for the other one, with its identifier, in their tables of nodes and over the connection
  just opened; no command is left on the connection and the request of the opener succeeds. The node
  object is not in use, the request is a new one, the connection is not a multicast connection and
  the other node accepts nodes of this type.
\<close>

theorem connect_handshake:
  assumes "net_reach E N" and "id_format_ok (ne_format E)" and "p \<noteq> q" "q \<noteq> 0"
    and "r < length (ln_peers (net_node N p))" "\<not> referenced r (net_node N p)" "r \<notin> ran (map_of (ln_requests (net_node N p)))"
    and "\<forall>conn\<in>set (net_connections N). cn_opener conn = p \<longrightarrow> cn_request conn \<noteq> rid" "rid \<noteq> ne_undefined E"
    and "map_of (ln_nodes (net_node N p)) q = None" "map_of (ln_nodes (net_node N q)) p = None"
    and "ne_creates E (pn_type (ln_self (net_node N p)))" "\<not> ne_multicast E (length (net_connections N))"
  shows "let c = length (net_connections N);
             N' = net_receive E fresh c q (net_receive E fresh c p (net_receive E fresh c q
                    (net_accept c q (net_connect E rid r p q N))))
    in net_channel N' c p = [] \<and> net_channel N' c q = [] \<and>
      (\<exists>r'. map_of (ln_nodes (net_node N' p)) q = Some r \<and>
        view (ln_peers (net_node N' p) ! r) = (q, STATE_CONNECTED, Some c) \<and>
        map_of (ln_nodes (net_node N' q)) p = Some r' \<and>
        view (ln_peers (net_node N' q) ! r') = (p, STATE_CONNECTED, Some c)) \<and>
      (rid, True) \<in> set (ln_results (net_node N' p)) \<and>
      ln_connectResult (Some True) r (net_node N' p) = CONNECT_OK"
  using handshake_run [OF assms, of fresh]
  by (auto simp: net_handshake_def Let_def ln_connectResult_def view_def)

section \<open>A concrete network\<close>

definition sample_data :: "NodeID \<Rightarrow> node_data" where
  "sample_data p = \<lparr>nx_id = p, nx_bigEndian = False, nx_descriptions = []\<rparr>"

definition sample_self :: "NodeID \<Rightarrow> peer" where
  "sample_self p =
     \<lparr>pn_data = sample_data p, pn_type = 1, pn_state = STATE_LISTENING, pn_outgoing = None, pn_outMulticast = None,
      pn_multicasts = []\<rparr>"

text \<open>A local node that listens, with the objects for other nodes that the application made.\<close>

definition sample_local :: "peer list \<Rightarrow> NodeID \<Rightarrow> local_node" where
  "sample_local ns p =
     \<lparr>ln_peers = sample_self p # ns, ln_nodes = [(p, 0)], ln_connectionNodes = [], ln_incoming = [], ln_requests = [],
      ln_results = []\<rparr>"

definition node_sample_env :: node_env where
  "node_sample_env =
     \<lparr>ne_format = decimal_ids, ne_major = 1, ne_minor = 1, ne_undefined = - 1, ne_creates = (\<lambda>t. t = 1), ne_multicast = (\<lambda>c. False),
      ne_descr = (\<lambda>c. cd_new)\<rparr>"

definition sample_net :: network where
  "sample_net =
     net_apply 7 (sample_local [pn_new 1 (sample_data 99)] 7, [])
       \<lparr>net_node = sample_local [], net_connections = [], net_channel = (\<lambda>c p. [])\<rparr>"

lemma decimal_ids_ok: "id_format_ok decimal_ids"
  unfolding id_format_ok_def decimal_ids_def by (simp add: show_nat_no_separator)

lemma sample_net_reach: "net_reach node_sample_env sample_net"
proof -
  let ?N = "\<lparr>net_node = sample_local [], net_connections = [], net_channel = (\<lambda>c p. [])\<rparr>"
  have "net_reach node_sample_env ?N"
    by (rule net_reach.start)
       (simp_all add: ln_listening_def sample_local_def sample_self_def sample_data_def pn_id_def nx_printable_def)
  from net_reach.step [OF this net_step.create [of _ ?N 7 1 "sample_data 99"]] show ?thesis
    by (simp add: sample_net_def sample_local_def)
qed

lemma sample_net_nodes: "net_node sample_net p = (if p = 7 then sample_local [pn_new 1 (sample_data 99)] 7 else sample_local [] p)"
  by (simp add: sample_net_def net_apply_def)

lemma sample_net_connections: "net_connections sample_net = []"
  by (simp add: sample_net_def net_apply_def)

lemmas sample_net_simps = sample_net_nodes sample_net_connections sample_local_def sample_self_def node_sample_env_def ln_self_def

lemma sample_format: "id_format_ok (ne_format node_sample_env)"
  by (simp add: node_sample_env_def decimal_ids_ok)

lemma sample_net_ready:
  "1 < length (ln_peers (net_node sample_net 7))" "\<not> referenced 1 (net_node sample_net 7)"
  "1 \<notin> ran (map_of (ln_requests (net_node sample_net 7)))"
  "\<forall>conn\<in>set (net_connections sample_net). cn_opener conn = 7 \<longrightarrow> cn_request conn \<noteq> 5" "5 \<noteq> ne_undefined node_sample_env"
  "map_of (ln_nodes (net_node sample_net 7)) 8 = None" "map_of (ln_nodes (net_node sample_net 8)) 7 = None"
  "ne_creates node_sample_env (pn_type (ln_self (net_node sample_net 7)))"
  "\<not> ne_multicast node_sample_env (length (net_connections sample_net))"
  by (simp_all add: sample_net_simps referenced_def pn_new_def ran_def)

theorem connect_handshake_witness:
  "let N = net_receive node_sample_env (sample_data 98) 0 8 (net_receive node_sample_env (sample_data 98) 0 7
             (net_receive node_sample_env (sample_data 98) 0 8 (net_accept 0 8 (net_connect node_sample_env 5 1 7 8 sample_net))))
   in net_channel N 0 7 = [] \<and> net_channel N 0 8 = [] \<and>
      (\<exists>r'. map_of (ln_nodes (net_node N 7)) 8 = Some 1 \<and>
        view (ln_peers (net_node N 7) ! 1) = (8, STATE_CONNECTED, Some 0) \<and>
        map_of (ln_nodes (net_node N 8)) 7 = Some r' \<and>
        view (ln_peers (net_node N 8) ! r') = (7, STATE_CONNECTED, Some 0)) \<and>
      (5, True) \<in> set (ln_results (net_node N 7)) \<and> ln_connectResult (Some True) 1 (net_node N 7) = CONNECT_OK"
  using connect_handshake [OF sample_net_reach sample_format _ _ sample_net_ready, of "sample_data 98"]
  by (simp only: sample_net_connections) simp

lemma sample_connected:
  "\<exists>N c. net_reach node_sample_env N \<and> 1 < length (ln_peers (net_node N 7)) \<and>
     view (ln_peers (net_node N 7) ! 1) = (8, STATE_CONNECTED, Some c)"
proof -
  let ?N = "net_handshake node_sample_env (sample_data 98) 5 1 7 8 sample_net"
  have N: "net_reach node_sample_env ?N" "map_of (ln_nodes (net_node ?N 7)) 8 = Some 1"
      "view (ln_peers (net_node ?N 7) ! 1) = (8, STATE_CONNECTED, Some (length (net_connections sample_net)))"
    using handshake_run [OF sample_net_reach sample_format _ _ sample_net_ready, of "sample_data 98"] by simp_all
  have "1 < length (ln_peers (net_node ?N 7))"
    using known_node [OF net_inv_node [OF net_inv_reach [OF N(1) sample_format]] N(2)] by simp
  with N show ?thesis by blast
qed

theorem connection_identity_witness:
  "\<exists>N c. net_reach node_sample_env N \<and> pn_outgoing (ln_peers (net_node N 7) ! 1) = Some c \<and> other_end N c 7 = 8"
proof -
  obtain N c where N: "net_reach node_sample_env N" "1 < length (ln_peers (net_node N 7))"
      "view (ln_peers (net_node N 7) ! 1) = (8, STATE_CONNECTED, Some c)" using sample_connected by blast
  have F: "id_format_ok (ne_format node_sample_env)" by (simp add: node_sample_env_def decimal_ids_ok)
  from connection_identity [OF N(1) F, of 7] N show ?thesis by (fastforce simp: view_def)
qed

section \<open>Connecting at the same time\<close>

text \<open>
  The handlers of two nodes \<open>p\<close> and \<open>q\<close> that open connections 0 and 1 to each other before either request is handled.
  Each side creates a node object for the request of the other one and connects it on the reply; the
  acknowledgement that comes last then moves it to the other connection. So \<open>p\<close> uses connection 1 and \<open>q\<close> uses
  connection 0, the object given to \<^verbatim>\<open>connect\<close> stays closed, and when \<open>p\<close> disconnects it closes its connection
  only: connection 0 stays open on its side, and \<open>q\<close> still has a connected node for \<open>p\<close> after it lost connection 1.
\<close>

definition sim_opened :: "node_env \<Rightarrow> uint32 \<Rightarrow> nat \<Rightarrow> NodeID \<Rightarrow> local_node" where
  "sim_opened E rid c p = fst (the (ln_connect E True rid 1 c (sample_local [pn_new 1 (sample_data 99)] p)))"

text \<open>After the request of the other node on the accepted connection, the reply on the own one, and the acknowledgement.\<close>

definition sim_final :: "node_env \<Rightarrow> uint32 \<Rightarrow> nat \<Rightarrow> nat \<Rightarrow> NodeID \<Rightarrow> NodeID \<Rightarrow> local_node" where
  "sim_final E rid own other p q =
     (let peer = sample_local [] q;
          s = ln_handleConnect (Some other) (sim_opened E rid own p);
          s = fst (ln_receive E (sample_data 98) other (NODE_CONNECT q 0 1 (ln_serialize E peer)) s);
          s = fst (ln_receive E (sample_data 97) own (NODE_CONNECT_REPLY q rid 1 (ln_serialize E peer)) s)
      in fst (ln_receive E (sample_data 96) other NODE_CONNECT_ACK s))"

lemma sim_serialize:
  "id_format_ok (ne_format E) \<Longrightarrow>
   ln_deserialize E r (ln_serialize E (sample_local ns q)) s = ln_update r (\<lambda>n. n\<lparr>pn_data := sample_data q\<rparr>) s"
  by (subst deserialize_serialize) (simp_all add: sample_local_def sample_self_def sample_data_def ln_self_def nx_printable_def)

definition sim_node :: "NodeID \<Rightarrow> node_state \<Rightarrow> nat option \<Rightarrow> peer" where
  "sim_node q st oc = (pn_new 1 (sample_data q))\<lparr>pn_state := st, pn_outgoing := oc\<rparr>"

lemmas sim_defs = sample_local_def sample_self_def sample_data_def pn_new_def pn_id_def ln_self_def ln_update_def ln_setNode_def
  ln_setConnection_def pn_connect_def pn_isReachable_def sim_node_def

lemma sim_opened_eq:
  "sim_opened E rid own p =
    \<lparr>ln_peers = [sample_self p, pn_new 1 (sample_data 99)], ln_nodes = [(p, 0)], ln_connectionNodes = [], ln_incoming = [own],
     ln_requests = [(rid, 1)], ln_results = []\<rparr>"
  by (simp add: sim_opened_def ln_connect_def sim_defs)

lemma sim_connect:
  assumes "id_format_ok (ne_format E)" and "ne_creates E 1" and "p \<noteq> q"
  shows "fst (ln_receive E fresh other (NODE_CONNECT q 0 1 (ln_serialize E (sample_local [] q)))
      (ln_handleConnect (Some other) (sim_opened E rid own p))) =
    \<lparr>ln_peers = [sample_self p, pn_new 1 (sample_data 99), sim_node q STATE_CLOSED None], ln_nodes = [(p, 0), (q, 2)],
     ln_connectionNodes = [(other, 2)], ln_incoming = [own, other], ln_requests = [(rid, 1)], ln_results = []\<rparr>"
  using assms
  by (simp add: sim_opened_eq ln_handleConnect_def ln_receive_def ln_cmdConnect_def ln_createNode_def sim_serialize Let_def)
    (simp add: sim_defs)

lemma no_groups: "nx_descriptions (pn_data self) = [] \<Longrightarrow> pn_connectMulticast descr self n = n"
  by (simp add: pn_connectMulticast_def)

lemma sim_reply:
  assumes "id_format_ok (ne_format E)" and "q \<noteq> 0" and "p \<noteq> q" and "own \<noteq> other"
  shows "fst (ln_receive E fresh own (NODE_CONNECT_REPLY q rid 1 (ln_serialize E (sample_local [] q)))
      \<lparr>ln_peers = [sample_self p, pn_new 1 (sample_data 99), sim_node q STATE_CLOSED None], ln_nodes = [(p, 0), (q, 2)],
       ln_connectionNodes = [(other, 2)], ln_incoming = [own, other], ln_requests = [(rid, k)], ln_results = []\<rparr>) =
    \<lparr>ln_peers = [sample_self p, pn_new 1 (sample_data 99), sim_node q STATE_CONNECTED (Some own)], ln_nodes = [(p, 0), (q, 2)],
     ln_connectionNodes = [(other, 2), (own, 2)], ln_incoming = [own, other], ln_requests = [], ln_results = [(rid, True)]\<rparr>"
  using assms
  by (simp add: ln_receive_def ln_cmdConnectReply_def sim_serialize Let_def pn_isReachable_def)
    (simp add: sim_defs ln_connectMulticast_def no_groups ln_serveRequest_def)

lemma sim_ack:
  assumes "own \<noteq> other"
  shows "fst (ln_receive E fresh other NODE_CONNECT_ACK
      \<lparr>ln_peers = [sample_self p, pn_new 1 (sample_data 99), sim_node q STATE_CONNECTED (Some own)], ln_nodes = ns,
       ln_connectionNodes = [(other, 2), (own, 2)], ln_incoming = cs, ln_requests = rs, ln_results = xs\<rparr>) =
    \<lparr>ln_peers = [sample_self p, pn_new 1 (sample_data 99), sim_node q STATE_CONNECTED (Some other)], ln_nodes = ns,
     ln_connectionNodes = [(other, 2), (own, 2)], ln_incoming = cs, ln_requests = rs, ln_results = xs\<rparr>"
  using assms
  by (simp add: ln_receive_def ln_cmdConnectAck_def) (simp add: sim_defs ln_connectMulticast_def no_groups)

lemma sim_final_eq:
  assumes "id_format_ok (ne_format E)" and "ne_creates E 1" and "p \<noteq> q" and "q \<noteq> 0" and "own \<noteq> other"
  shows "sim_final E rid own other p q =
    \<lparr>ln_peers = [sample_self p, pn_new 1 (sample_data 99), sim_node q STATE_CONNECTED (Some other)],
     ln_nodes = [(p, 0), (q, 2)], ln_connectionNodes = [(other, 2), (own, 2)], ln_incoming = [own, other],
     ln_requests = [], ln_results = [(rid, True)]\<rparr>"
  using assms by (simp add: sim_final_def sim_connect sim_reply sim_ack)

lemma simultaneous_connect_two_connections:
  fixes p q :: NodeID
  assumes "id_format_ok (ne_format E)" and "ne_creates E 1" and "p \<noteq> q" and "p \<noteq> 0" and "q \<noteq> 0" and "\<not> ne_multicast E 1"
  defines "P \<equiv> sim_final E 5 0 1 p q" and "Q \<equiv> sim_final E 6 1 0 q p"
  shows "view (ln_peers P ! 2) = (q, STATE_CONNECTED, Some 1) \<and> view (ln_peers Q ! 2) = (p, STATE_CONNECTED, Some 0) \<and>
    ln_connectResult (Some True) 1 P = CONNECT_TRY_AGAIN \<and>
    ln_incoming (fst (snd (ln_disconnect 2 P))) = [0] \<and>
    view (ln_peers (fst (ln_handleDisconnect E 1 Q)) ! 2) = (p, STATE_CONNECTED, Some 0)"
proof -
  have P: "P = \<lparr>ln_peers = [sample_self p, pn_new 1 (sample_data 99),
        sim_node q STATE_CONNECTED (Some 1)],
     ln_nodes = [(p, 0), (q, 2)], ln_connectionNodes = [(1, 2), (0, 2)], ln_incoming = [0, 1], ln_requests = [], ln_results = [(5, True)]\<rparr>"
    unfolding P_def using assms by (intro sim_final_eq) simp_all
  have Q: "Q = \<lparr>ln_peers = [sample_self q, pn_new 1 (sample_data 99),
        sim_node p STATE_CONNECTED (Some 0)],
     ln_nodes = [(q, 0), (p, 2)], ln_connectionNodes = [(0, 2), (1, 2)], ln_incoming = [1, 0], ln_requests = [], ln_results = [(6, True)]\<rparr>"
    unfolding Q_def using assms by (intro sim_final_eq) simp_all
  show ?thesis
    using assms(6)
    by (simp add: P Q view_def pn_new_def pn_id_def sample_data_def ln_connectResult_def ln_disconnect_def ln_self_def sample_self_def
        sim_node_def ln_closeNode_def ln_dropConnection_def ln_removeConnection_def ln_handleDisconnect_def ln_update_def pn_disconnect_def)
qed

end
