(* ===== verification/Stream_Input.thy ===== *)
theory Stream_Input
  imports Stream_Roundtrip
begin

text \<open>
  The input operators of streams for plain items, vectors and object versions,
  \<^verbatim>\<open>src/co/dataIStream.ipp\<close> and \<^verbatim>\<open>dataOStream.ipp\<close>. They are written over the bytes of the buffers a
  stream still has; \<open>in_read\<close>, the read they rest on, is what \<^const>\<open>is_read\<close> does on a stream of
  object data commands. Reads are those of a node with the byte order of the sender.
\<close>

section \<open>Reading from buffers\<close>

text \<open>The unread part of the current buffer and the buffers after it.\<close>

type_synonym stream_input = "bytes \<times> bytes list"

fun in_read :: "nat \<Rightarrow> stream_input \<Rightarrow> bytes option \<times> stream_input" where
  "in_read n ([], []) = (None, ([], []))"
| "in_read n ([], d # ds) = in_read n (d, ds)"
| "in_read n (b # u, ds) =
     (if n > length (b # u) then (None, (b # u, ds)) else (Some (take n (b # u)), (drop n (b # u), ds)))"

definition in_hasData :: "stream_input \<Rightarrow> bool" where
  "in_hasData i \<longleftrightarrow> concat (fst i # snd i) \<noteq> []"

text \<open>A stream of commands and the buffers it stands for behave alike.\<close>

lemma reader_data: "reader P s u (d # ds) \<Longrightarrow> d \<noteq> []"
  by (auto simp: reader_def list_all2_Cons2 cmd_carries_def)

lemma reader_short:
  assumes "reader P s u ds" and "u \<noteq> []" and "length u < n" and "n < 2 ^ 64"
  shows "is_read P od_getNextBuffer fuel s (of_nat n) = Some (None, s)"
proof -
  have pos: "unat (is_position s) + length u = unat (is_inputSize s)" using assms(1) by (simp add: reader_def)
  then have less: "is_position s < is_inputSize s"
    using assms(2) length_greater_0_conv [of u] unfolding word_less_nat_alt by linarith
  then have "unat (is_inputSize s - is_position s) = length u"
    using pos by (simp add: unat_sub word_le_nat_alt word_less_nat_alt)
  then have "(of_nat n :: uint64) > is_inputSize s - is_position s"
    using assms(3,4) by (simp add: word_less_nat_alt unat_of_nat)
  with less show ?thesis by (simp add: is_read_def is_checkBuffer.simps)
qed

lemma reader_empty:
  assumes "reader P s [] []"
  shows "\<exists>s'. is_read P od_getNextBuffer (Suc fuel) s n = Some (None, s') \<and> reader P s' [] []"
proof -
  have "is_position s = is_inputSize s" and "od_commands s = []"
    using assms by (simp_all add: reader_def word_unat_eq_iff)
  then show ?thesis
    by (simp add: is_read_def is_checkBuffer.simps od_getNextBuffer_def reader_def)
qed

lemma reader_in_read_current:
  assumes "reader P s u ds" and "u \<noteq> []" and "0 < n" and "n < 2 ^ 64"
  shows "\<exists>s'. is_read P od_getNextBuffer fuel s (of_nat n) = Some (fst (in_read n (u, ds)), s') \<and>
           reader P s' (fst (snd (in_read n (u, ds)))) (snd (snd (in_read n (u, ds))))"
proof (cases "n > length u")
  case True
  with reader_short [OF assms(1,2) _ assms(4)] assms(1,2) show ?thesis by (cases u) auto
next
  case False
  with reader_read [of P s "take n u" "drop n u" ds fuel] assms show ?thesis by (cases u) (auto simp: min_absorb2)
qed

lemma in_read_refines:
  assumes "reader P s u ds" and "0 < n" and "n < 2 ^ 64" and "od_nRemainingBuffers s < fuel"
  shows "\<exists>s'. is_read P od_getNextBuffer fuel s (of_nat n) = Some (fst (in_read n (u, ds)), s') \<and>
           reader P s' (fst (snd (in_read n (u, ds)))) (snd (snd (in_read n (u, ds))))"
proof (cases "u = []")
  case False
  with reader_in_read_current assms show ?thesis by blast
next
  case u: True
  obtain fuel' where fuel: "fuel = Suc fuel'" using assms(4) by (cases fuel) auto
  show ?thesis
  proof (cases ds)
    case Nil
    with u reader_empty [of P s fuel'] assms(1) fuel show ?thesis by auto
  next
    case (Cons d ds')
    from reader_next [of P s d ds' fuel'] assms(1) u Cons obtain s1 where
      "is_checkBuffer P od_getNextBuffer fuel s = is_checkBuffer P od_getNextBuffer fuel' s1"
      and r: "reader P s1 d ds'" unfolding fuel by blast
    then have "is_read P od_getNextBuffer fuel s (of_nat n) = is_read P od_getNextBuffer fuel' s1 (of_nat n)"
      by (simp add: is_read_def)
    with reader_in_read_current [OF r _ assms(2,3), of fuel'] reader_data [of P s u d ds'] assms(1) u Cons
    show ?thesis by simp
  qed
qed

section \<open>Buffers that carry writes\<close>

text \<open>The buffers hold the writes in order and none of them is split between two buffers.\<close>

definition feeds :: "stream_input \<Rightarrow> bytes list \<Rightarrow> bool" where
  "feeds i ws \<longleftrightarrow> (\<exists>g gs. i = (concat g, map concat gs) \<and> concat (g # gs) = ws)"

lemma feeds_groups: "feeds ([], map concat gs) (concat gs)"
  unfolding feeds_def by (rule exI [of _ "[]"], rule exI [of _ gs]) simp

lemma feeds_single: "concat ws = bs \<Longrightarrow> feeds ([], [bs]) ws"
  using feeds_groups [of "[ws]"] by simp

lemma concat_prefix_write:
  assumes "concat g = b # u" and "concat (g # gs) = w # ws" and "w \<noteq> []"
  shows "\<exists>g'. g = w # g'"
  using assms by (cases g) auto

lemma feeds_read:
  assumes "feeds i (w # ws)" and "w \<noteq> []"
  shows "\<exists>i'. in_read (length w) i = (Some w, i') \<and> feeds i' ws"
  using assms
proof (induction "length w" i rule: in_read.induct)
  case (1)
  then show ?case by (auto simp: feeds_def)
next
  case (2 d ds)
  then obtain g gs where "concat g = []" "d # ds = map concat gs" "concat (g # gs) = w # ws"
    unfolding feeds_def by (metis prod.inject)
  then obtain g' gs' where gs: "gs = g' # gs'" "d = concat g'" "ds = map concat gs'" by (auto simp: map_eq_Cons_conv)
  have g: "g = []"
  proof (cases g)
    case (Cons x xs)
    with \<open>concat g = []\<close> \<open>concat (g # gs) = w # ws\<close> 2(3) show ?thesis by auto
  qed simp
  with \<open>concat (g # gs) = w # ws\<close> gs have "feeds (d, ds) (w # ws)" unfolding feeds_def by fastforce
  with 2 show ?case by simp
next
  case (3 b u ds)
  then obtain g gs where g: "concat g = b # u" "ds = map concat gs" "concat (g # gs) = w # ws"
    by (auto simp: feeds_def)
  with concat_prefix_write [OF g(1,3) 3(2)] obtain g' where g': "g = w # g'" by blast
  with g have u: "b # u = w @ concat g'" "g' @ concat gs = ws" by simp_all
  then have "feeds (concat g', ds) ws" using g(2) unfolding feeds_def by fastforce
  moreover have "length w \<le> length (b # u)" "take (length w) (b # u) = w" "drop (length w) (b # u) = concat g'"
    using u(1) by simp_all
  ultimately show ?case by (simp del: take_Cons' drop_Cons')
qed

text \<open>One write that is read in parts.\<close>

lemma feeds_split:
  assumes "feeds i (concat vs # ws)"
  shows "feeds i (vs @ ws)"
proof -
  obtain g gs where i: "i = (concat g, map concat gs)" and ws: "concat (g # gs) = concat vs # ws"
    using assms by (auto simp: feeds_def)
  have "\<exists>hs. map concat hs = map concat xs \<and> concat hs = vs @ ys" if "concat xs = concat vs # ys" for xs :: "bytes list list" and ys
    using that
  proof (induction xs)
    case (Cons x xs)
    show ?case
    proof (cases x)
      case Nil
      with Cons obtain hs where "map concat hs = map concat xs" "concat hs = vs @ ys" by auto
      with Nil show ?thesis by (intro exI [of _ "[] # hs"]) simp
    next
      case (Cons y y')
      with Cons.prems have "y = concat vs" "y' @ concat xs = ys" by simp_all
      with Cons show ?thesis by (intro exI [of _ "(vs @ y') # xs"]) simp
    qed
  qed simp
  from this [OF ws] obtain hs where hs: "map concat hs = map concat (g # gs)" "concat hs = vs @ ws" by blast
  then obtain h hs' where "hs = h # hs'" "concat h = concat g" "map concat hs' = map concat gs" by (auto simp: map_eq_Cons_conv)
  with i hs(2) show ?thesis unfolding feeds_def by (metis concat.simps(2))
qed

lemma feeds_hasData:
  assumes "feeds i (w # ws)" and "w \<noteq> []"
  shows "in_hasData i"
proof -
  obtain g gs where i: "i = (concat g, map concat gs)" "concat (g # gs) = w # ws" using assms(1) by (auto simp: feeds_def)
  have "concat (map concat xs) = concat (concat xs)" for xs :: "bytes list list" by (induction xs) simp_all
  with i have "concat (fst i # snd i) = concat (concat (g # gs))" by (metis concat.simps(2) concat_append fst_conv snd_conv)
  with i(2) assms(2) show ?thesis by (simp add: in_hasData_def del: concat.simps)
qed

lemma feeds_Nil: "feeds i [] \<Longrightarrow> \<not> in_hasData i"
  by (fastforce simp: feeds_def in_hasData_def)

section \<open>Input operators\<close>

text \<open>
  A read that fails leaves the item as it was, the argument \<open>x\<close>.
\<close>

definition in_word :: "nat \<Rightarrow> 'a::len word \<Rightarrow> stream_input \<Rightarrow> 'a word \<times> stream_input" where
  "in_word n x i = (case in_read n i of (None, i) \<Rightarrow> (x, i) | (Some bs, i) \<Rightarrow> (of_le bs, i))"

definition ov_bytes :: "object_version \<Rightarrow> bytes" where
  "ov_bytes ov = le_bytes 16 (ov_identifier ov) @ le_bytes 16 (ov_version ov)"

definition in_objectVersion :: "object_version \<Rightarrow> stream_input \<Rightarrow> object_version \<times> stream_input" where
  "in_objectVersion x i =
     (case in_read 32 i of
        (None, i) \<Rightarrow> (x, i)
      | (Some bs, i) \<Rightarrow> (ObjectVersion (of_le (take 16 bs)) (of_le (drop 16 bs)), i))"

text \<open>The elements of a vector, which are first set to their default value.\<close>

fun in_items :: "('a \<Rightarrow> stream_input \<Rightarrow> 'a \<times> stream_input) \<Rightarrow> 'a \<Rightarrow> nat \<Rightarrow> stream_input \<Rightarrow> 'a list \<times> stream_input" where
  "in_items item x 0 i = ([], i)"
| "in_items item x (Suc n) i =
     (case item x i of (y, i) \<Rightarrow> (case in_items item x n i of (ys, i) \<Rightarrow> (y # ys, i)))"

definition in_vector :: "('a \<Rightarrow> stream_input \<Rightarrow> 'a \<times> stream_input) \<Rightarrow> 'a \<Rightarrow> stream_input \<Rightarrow> 'a list \<times> stream_input" where
  "in_vector item x i =
     (case in_word 8 (0 :: uint64) i of (nElems, i) \<Rightarrow> in_items item x (unat nElems) i)"

text \<open>The writes of a vector, one per element or one for all of them.\<close>

definition out_vector :: "('a \<Rightarrow> bytes) \<Rightarrow> 'a list \<Rightarrow> bytes list" where
  "out_vector item xs = le_bytes 8 (of_nat (length xs) :: uint64) # map item xs"

definition out_flatVector :: "('a \<Rightarrow> bytes) \<Rightarrow> 'a list \<Rightarrow> bytes list" where
  "out_flatVector item xs =
     le_bytes 8 (of_nat (length xs) :: uint64) # (if xs = [] then [] else [concat (map item xs)])"

lemma in_word_feeds:
  assumes "feeds i (le_bytes n w # ws)" and "LENGTH('a) = 8 * n" and "0 < n"
  shows "\<exists>i'. in_word n x i = (w :: 'a::len word, i') \<and> feeds i' ws"
proof -
  have "le_bytes n w \<noteq> []" using assms(3) length_greater_0_conv [of "le_bytes n w"] by simp
  with feeds_read [OF assms(1)] obtain i' where "in_read n i = (Some (le_bytes n w), i')" "feeds i' ws" by auto
  with assms(2) show ?thesis by (simp add: in_word_def of_le_bytes)
qed

lemma in_objectVersion_feeds:
  assumes "feeds i (ov_bytes ov # ws)"
  shows "\<exists>i'. in_objectVersion x i = (ov, i') \<and> feeds i' ws"
proof -
  have l: "length (ov_bytes ov) = 32" by (simp add: ov_bytes_def)
  then have "ov_bytes ov \<noteq> []" by auto
  with feeds_read [OF assms] l obtain i' where "in_read 32 i = (Some (ov_bytes ov), i')" "feeds i' ws" by auto
  then show ?thesis by (simp add: in_objectVersion_def ov_bytes_def of_le_bytes)
qed

lemma in_items_feeds:
  assumes item: "\<And>y ws i. feeds i (item y # ws) \<Longrightarrow> \<exists>i'. read x i = (y, i') \<and> feeds i' ws"
  shows "feeds i (map item ys @ ws) \<Longrightarrow> \<exists>i'. in_items read x (length ys) i = (ys, i') \<and> feeds i' ws"
proof (induction ys arbitrary: i)
  case (Cons y ys)
  from item [of i y "map item ys @ ws"] Cons.prems obtain i1 where "read x i = (y, i1)" "feeds i1 (map item ys @ ws)" by auto
  with Cons.IH [of i1] show ?case by auto
qed simp

lemma in_vector_feeds:
  assumes item: "\<And>y ws i. feeds i (item y # ws) \<Longrightarrow> \<exists>i'. read x i = (y, i') \<and> feeds i' ws"
    and "feeds i (out_vector item ys @ ws)" and "length ys < 2 ^ 64"
  shows "\<exists>i'. in_vector read x i = (ys, i') \<and> feeds i' ws"
proof -
  from in_word_feeds [of i 8 "of_nat (length ys) :: uint64" "map item ys @ ws" 0] assms(2)
  obtain i1 where "in_word 8 (0 :: uint64) i = (of_nat (length ys), i1)" "feeds i1 (map item ys @ ws)"
    by (auto simp: out_vector_def)
  with in_items_feeds [where item = item and read = read and x = x, OF item, of i1 ys ws] assms(3) show ?thesis
    by (auto simp: in_vector_def unat_of_nat)
qed

lemma in_flatVector_feeds:
  assumes item: "\<And>y ws i. feeds i (item y # ws) \<Longrightarrow> \<exists>i'. read x i = (y, i') \<and> feeds i' ws"
    and "feeds i (out_flatVector item ys @ ws)" and "length ys < 2 ^ 64"
  shows "\<exists>i'. in_vector read x i = (ys, i') \<and> feeds i' ws"
proof -
  from in_word_feeds [of i 8 "of_nat (length ys) :: uint64" "(if ys = [] then [] else [concat (map item ys)]) @ ws" 0] assms(2)
  obtain i1 where i1: "in_word 8 (0 :: uint64) i = (of_nat (length ys), i1)"
    "feeds i1 ((if ys = [] then [] else [concat (map item ys)]) @ ws)" by (auto simp: out_flatVector_def)
  then have "feeds i1 (map item ys @ ws)" using feeds_split [of i1 "map item ys" ws] by (cases ys) auto
  with in_items_feeds [where item = item and read = read and x = x, OF item, of i1 ys ws] i1(1) assms(3) show ?thesis
    by (auto simp: in_vector_def unat_of_nat)
qed

end
