(* ===== verification/Object_Map.thy ===== *)
theory Object_Map
  imports Stream_Input
begin

unbundle bit_operations_syntax

text \<open>
  Objects that track their changes with dirty bits, \<^verbatim>\<open>src/co/serializable.cpp\<close>, and the distributed map
  of objects built on them, \<^verbatim>\<open>src/co/objectMap.cpp\<close>. The application's \<^verbatim>\<open>serialize\<close> and
  \<^verbatim>\<open>deserialize\<close> are arguments of the former. The interfaces \<^verbatim>\<open>ObjectHandler\<close> and \<^verbatim>\<open>ObjectFactory\<close> and
  the objects themselves are the record \<open>object_env\<close>, over a state of type \<open>'w\<close>; an operation that
  would block is \<^term>\<open>None\<close>. The order of the hash map is that of an association list. Locks are left out.
\<close>

section \<open>Serializable\<close>

record serializable =
  sz_dirty :: uint64

definition DIRTY_NONE :: uint64 where "DIRTY_NONE = 0"
definition DIRTY_ALL :: uint64 where "DIRTY_ALL = 0xFFFFFFFFFFFFFFFF"

definition sz_isDirty :: "'a serializable_scheme \<Rightarrow> bool" where
  "sz_isDirty s \<longleftrightarrow> sz_dirty s \<noteq> DIRTY_NONE"

definition sz_isDirtyBits :: "uint64 \<Rightarrow> 'a serializable_scheme \<Rightarrow> bool" where
  "sz_isDirtyBits dirtyBits s \<longleftrightarrow> sz_dirty s AND dirtyBits = dirtyBits"

definition sz_setDirty :: "uint64 \<Rightarrow> 'a serializable_scheme \<Rightarrow> 'a serializable_scheme" where
  "sz_setDirty bits s = s\<lparr>sz_dirty := sz_dirty s OR bits\<rparr>"

definition sz_unsetDirty :: "uint64 \<Rightarrow> 'a serializable_scheme \<Rightarrow> 'a serializable_scheme" where
  "sz_unsetDirty bits s = s\<lparr>sz_dirty := sz_dirty s AND NOT bits\<rparr>"

definition sz_notifyAttached :: "bool \<Rightarrow> 'a serializable_scheme \<Rightarrow> 'a serializable_scheme" where
  "sz_notifyAttached master s = (if master then s\<lparr>sz_dirty := DIRTY_NONE\<rparr> else s)"

text \<open>The writes of \<open>serialize\<close> for a set of bits, and the object afterwards.\<close>

type_synonym 's serialize = "uint64 \<Rightarrow> 's \<Rightarrow> bytes list \<times> 's"
type_synonym 's deserialize = "stream_input \<Rightarrow> uint64 \<Rightarrow> 's \<Rightarrow> ('s \<times> stream_input) option"

definition sz_getInstanceData :: "'s serialize \<Rightarrow> 's \<Rightarrow> bytes list \<times> 's" where
  "sz_getInstanceData serialize s = serialize DIRTY_ALL s"

definition sz_applyInstanceData :: "'s deserialize \<Rightarrow> stream_input \<Rightarrow> 's \<Rightarrow> ('s \<times> stream_input) option" where
  "sz_applyInstanceData deserialize i s = (if \<not> in_hasData i then Some (s, i) else deserialize i DIRTY_ALL s)"

definition sz_pack :: "('a serializable_scheme) serialize \<Rightarrow> 'a serializable_scheme \<Rightarrow> bytes list \<times> 'a serializable_scheme" where
  "sz_pack serialize s =
     (if sz_dirty s = DIRTY_NONE then ([], s)
      else case serialize (sz_dirty s) s of (ws, s') \<Rightarrow> (le_bytes 8 (sz_dirty s) # ws, s'))"

text \<open>The dirty bits of \<open>unpack\<close> are read into a variable that is not initialised, the argument \<open>x\<close>.\<close>

definition sz_unpack :: "uint64 \<Rightarrow> 's deserialize \<Rightarrow> stream_input \<Rightarrow> 's \<Rightarrow> ('s \<times> stream_input) option" where
  "sz_unpack x deserialize i s =
     (if \<not> in_hasData i then Some (s, i) else (case in_word 8 x i of (dirty, i) \<Rightarrow> deserialize i dirty s))"

text \<open>\<^verbatim>\<open>commit\<close>; \<open>commit\<close> is the one of \<^verbatim>\<open>Object\<close>, whose change manager calls \<open>pack\<close>.\<close>

definition sz_commit ::
  "('a serializable_scheme \<Rightarrow> ('v \<times> 'a serializable_scheme) option) \<Rightarrow> 'a serializable_scheme \<Rightarrow>
   ('v \<times> 'a serializable_scheme) option" where
  "sz_commit commit s = (case commit s of None \<Rightarrow> None | Some (version, s) \<Rightarrow> Some (version, s\<lparr>sz_dirty := DIRTY_NONE\<rparr>))"

text \<open>
  What a subclass promises: what it reads is what it wrote, for deltas in any packets and for instance
  data in one; \<open>effect\<close> says what that does to the receiver.
\<close>

locale serializable_class =
  fixes serialize :: "('a serializable_scheme) serialize" and deserialize :: "'s deserialize"
    and effect :: "uint64 \<Rightarrow> 'a serializable_scheme \<Rightarrow> 's \<Rightarrow> 's option"
    and proper :: "'a serializable_scheme \<Rightarrow> bool"
  assumes delta: "proper m \<Longrightarrow> bits \<noteq> DIRTY_ALL \<Longrightarrow> feeds i (fst (serialize bits m) @ ws) \<Longrightarrow>
      \<exists>i'. deserialize i bits s = map_option (\<lambda>s'. (s', i')) (effect bits m s) \<and> feeds i' ws"
    and full: "proper m \<Longrightarrow>
      \<exists>i'. deserialize ([], [concat (fst (serialize DIRTY_ALL m))]) DIRTY_ALL s =
             map_option (\<lambda>s'. (s', i')) (effect DIRTY_ALL m s) \<and> feeds i' []"
begin

lemma unpack_pack:
  assumes "proper m" and "sz_isDirty m" and "sz_dirty m \<noteq> DIRTY_ALL" and "feeds i (fst (sz_pack serialize m))"
  shows "\<exists>i'. sz_unpack x deserialize i s = map_option (\<lambda>s'. (s', i')) (effect (sz_dirty m) m s) \<and> \<not> in_hasData i'"
proof -
  have feed: "feeds i (le_bytes 8 (sz_dirty m) # fst (serialize (sz_dirty m) m))"
    using assms(2,4) by (simp add: sz_pack_def sz_isDirty_def split: prod.splits)
  have "le_bytes 8 (sz_dirty m) \<noteq> []" using length_greater_0_conv [of "le_bytes 8 (sz_dirty m)"] by simp
  then have "in_hasData i" using feeds_hasData [OF feed] by blast
  moreover obtain i1 where "in_word 8 x i = (sz_dirty m, i1)" and i1: "feeds i1 (fst (serialize (sz_dirty m) m))"
    using in_word_feeds [OF feed, of x] by auto
  moreover obtain i' where "deserialize i1 (sz_dirty m) s = map_option (\<lambda>s'. (s', i')) (effect (sz_dirty m) m s)" "feeds i' []"
    using delta [OF assms(1,3), of i1 "[]" s] i1 by auto
  ultimately show ?thesis using feeds_Nil [of i'] by (intro exI [of _ i']) (simp add: sz_unpack_def)
qed

lemma apply_instance:
  assumes "proper m" and "concat (fst (sz_getInstanceData serialize m)) \<noteq> []"
  shows "\<exists>i'. sz_applyInstanceData deserialize ([], [concat (fst (sz_getInstanceData serialize m))]) s =
    map_option (\<lambda>s'. (s', i')) (effect DIRTY_ALL m s) \<and> \<not> in_hasData i'"
proof -
  from full [OF assms(1), of s] obtain i' where
    "deserialize ([], [concat (fst (serialize DIRTY_ALL m))]) DIRTY_ALL s = map_option (\<lambda>s'. (s', i')) (effect DIRTY_ALL m s)"
    "feeds i' []" by blast
  moreover have "in_hasData ([], [concat (fst (serialize DIRTY_ALL m))])"
    using assms(2) by (simp add: in_hasData_def sz_getInstanceData_def)
  ultimately show ?thesis using feeds_Nil [of i']
    by (intro exI [of _ i']) (simp add: sz_applyInstanceData_def sz_getInstanceData_def)
qed

end

section \<open>The object map\<close>

definition OBJECTTYPE_NONE :: uint32 where "OBJECTTYPE_NONE = 0"

definition DIRTY_ADDED :: uint64 where "DIRTY_ADDED = 1"
definition DIRTY_REMOVED :: uint64 where "DIRTY_REMOVED = 2"
definition DIRTY_CHANGED :: uint64 where "DIRTY_CHANGED = 4"

record map_entry =
  en_version :: uint128
  en_instance :: "nat option"
  en_type :: uint32
  en_own :: bool

definition en_new :: map_entry where
  "en_new = \<lparr>en_version = 0, en_instance = None, en_type = OBJECTTYPE_NONE, en_own = False\<rparr>"

record object_map = serializable +
  om_map :: "(uint128 \<times> map_entry) list"
  om_masters :: "nat list"
  om_added :: "uint128 list"
  om_removed :: "uint128 list"
  om_changed :: "object_version list"

definition omap_new :: object_map where
  "omap_new = \<lparr>sz_dirty = DIRTY_NONE, om_map = [], om_masters = [], om_added = [], om_removed = [], om_changed = []\<rparr>"

record 'w object_env =
  oe_register :: "nat \<Rightarrow> 'w \<Rightarrow> 'w"
  oe_deregister :: "nat \<Rightarrow> 'w \<Rightarrow> 'w"
  oe_map :: "nat \<Rightarrow> uint128 \<Rightarrow> uint128 \<Rightarrow> 'w \<Rightarrow> (bool \<times> 'w) option"
  oe_unmap :: "nat \<Rightarrow> 'w \<Rightarrow> 'w"
  oe_create :: "uint32 \<Rightarrow> 'w \<Rightarrow> nat option \<times> 'w"
  oe_destroy :: "nat \<Rightarrow> uint32 \<Rightarrow> 'w \<Rightarrow> 'w"
  oe_id :: "'w \<Rightarrow> nat \<Rightarrow> uint128"
  oe_version :: "'w \<Rightarrow> nat \<Rightarrow> uint128"
  oe_isDirty :: "'w \<Rightarrow> nat \<Rightarrow> bool"
  oe_isStatic :: "'w \<Rightarrow> nat \<Rightarrow> bool"
  oe_isMaster :: "'w \<Rightarrow> nat \<Rightarrow> bool"
  oe_commit :: "uint32 \<Rightarrow> nat \<Rightarrow> 'w \<Rightarrow> (uint128 \<times> 'w) option"
  oe_sync :: "uint128 \<Rightarrow> nat \<Rightarrow> 'w \<Rightarrow> (uint128 \<times> 'w) option"

text \<open>\<^verbatim>\<open>map[ id ]\<close> creates an entry when there is none.\<close>

definition om_at :: "uint128 \<Rightarrow> object_map \<Rightarrow> map_entry" where
  "om_at i m = (case map_of (om_map m) i of None \<Rightarrow> en_new | Some e \<Rightarrow> e)"

definition om_put :: "uint128 \<Rightarrow> map_entry \<Rightarrow> object_map \<Rightarrow> object_map" where
  "om_put i e m = m\<lparr>om_map := AList.update i e (om_map m)\<rparr>"

definition en_removeObject :: "'w object_env \<Rightarrow> map_entry \<Rightarrow> 'w \<Rightarrow> map_entry \<times> 'w" where
  "en_removeObject E e w =
     (case en_instance e of
        None \<Rightarrow> (e, w)
      | Some r \<Rightarrow>
          (let w = oe_unmap E r w; w = (if en_own e then oe_destroy E r (en_type e) w else w)
           in (e\<lparr>en_instance := None\<rparr>, w)))"

definition om_clear :: "'w object_env \<Rightarrow> object_map \<Rightarrow> 'w \<Rightarrow> object_map \<times> 'w" where
  "om_clear E m w =
     (let (entries, w) =
            fold (\<lambda>r (entries, w). (AList.delete (oe_id E w r) entries, oe_deregister E r w)) (om_masters m) (om_map m, w);
          w = fold (\<lambda>(i, e) w. snd (en_removeObject E e w)) entries w
      in (m\<lparr>om_masters := [], om_map := []\<rparr>, w))"

definition om_isDirty :: "'w object_env \<Rightarrow> 'w \<Rightarrow> object_map \<Rightarrow> bool" where
  "om_isDirty E w m \<longleftrightarrow> sz_isDirty m \<or> list_ex (oe_isDirty E w) (om_masters m)"

fun om_commitObjects :: "'w object_env \<Rightarrow> uint32 \<Rightarrow> nat list \<Rightarrow> object_map \<Rightarrow> 'w \<Rightarrow> (object_map \<times> 'w) option" where
  "om_commitObjects E incarnation [] m w = Some (m, w)"
| "om_commitObjects E incarnation (r # rs) m w =
     (if \<not> oe_isDirty E w r \<or> oe_isStatic E w r then om_commitObjects E incarnation rs m w
      else case oe_commit E incarnation r w of
             None \<Rightarrow> None
           | Some (version, w') \<Rightarrow>
               (let ov = ObjectVersion (oe_id E w r) version; e = om_at (ov_identifier ov) m
                in if en_version e = ov_version ov then om_commitObjects E incarnation rs (om_put (ov_identifier ov) e m) w'
                   else om_commitObjects E incarnation rs
                          ((om_put (ov_identifier ov) (e\<lparr>en_version := ov_version ov\<rparr>) m)\<lparr>om_changed := om_changed m @ [ov]\<rparr>) w'))"

definition om_commitMasters :: "'w object_env \<Rightarrow> uint32 \<Rightarrow> object_map \<Rightarrow> 'w \<Rightarrow> (object_map \<times> 'w) option" where
  "om_commitMasters E incarnation m w =
     (case om_commitObjects E incarnation (om_masters m) m w of
        None \<Rightarrow> None
      | Some (m, w) \<Rightarrow> Some (if om_changed m \<noteq> [] then sz_setDirty DIRTY_CHANGED m else m, w))"

text \<open>The entries of the added objects, in their order.\<close>

fun om_writeEntries :: "uint128 list \<Rightarrow> object_map \<Rightarrow> bytes list \<times> object_map" where
  "om_writeEntries [] m = ([], m)"
| "om_writeEntries (i # is) m =
     (let e = om_at i m
      in case om_writeEntries is (om_put i e m) of
           (ws, m) \<Rightarrow> (le_bytes 16 (en_version e) # le_bytes 4 (en_type e) # ws, m))"

definition om_serialize :: "object_map serialize" where
  "om_serialize dirtyBits m =
     (if dirtyBits = DIRTY_ALL then
        (concat (map (\<lambda>(i, e). [le_bytes 16 i, le_bytes 16 (en_version e), le_bytes 4 (en_type e)]) (om_map m)) @
           [ov_bytes ObjectVersion_default], m)
      else
        (let (ws, m) = (if dirtyBits AND DIRTY_ADDED \<noteq> 0
                        then (case om_writeEntries (om_added m) m of
                                (ws, m) \<Rightarrow> (out_vector (le_bytes 16) (om_added m) @ ws, m))
                        else ([], m));
             ws' = (if dirtyBits AND DIRTY_REMOVED \<noteq> 0 then out_vector (le_bytes 16) (om_removed m) else []);
             ws'' = (if dirtyBits AND DIRTY_CHANGED \<noteq> 0 then out_flatVector ov_bytes (om_changed m) else [])
         in (ws @ ws' @ ws'', m)))"

text \<open>The loop over instance data ends with the default value; it has no other end.\<close>

partial_function (option) om_readAll :: "object_version \<Rightarrow> stream_input \<Rightarrow> object_map \<Rightarrow> (object_map \<times> stream_input) option" where
  "om_readAll ov i m =
     (if ov = ObjectVersion_default then Some (m, i)
      else case in_word 4 (en_type (om_at (ov_identifier ov) m)) i of
             (type, i) \<Rightarrow>
               (case in_objectVersion ov i of
                  (ov', i) \<Rightarrow>
                    om_readAll ov' i
                      (om_put (ov_identifier ov)
                        ((om_at (ov_identifier ov) m)\<lparr>en_version := ov_version ov, en_type := type\<rparr>) m)))"

fun om_readAdded :: "uint128 list \<Rightarrow> stream_input \<Rightarrow> object_map \<Rightarrow> object_map \<times> stream_input" where
  "om_readAdded [] i m = (m, i)"
| "om_readAdded (k # ks) i m =
     (case in_word 16 (en_version (om_at k m)) i of
        (version, i) \<Rightarrow>
          (case in_word 4 (en_type (om_at k m)) i of
             (type, i) \<Rightarrow> om_readAdded ks i (om_put k ((om_at k m)\<lparr>en_version := version, en_type := type\<rparr>) m)))"

text \<open>An identifier that is not in the map is dereferenced in the code; here nothing happens.\<close>

fun om_removeAll :: "'w object_env \<Rightarrow> uint128 list \<Rightarrow> object_map \<Rightarrow> 'w \<Rightarrow> object_map \<times> 'w" where
  "om_removeAll E [] m w = (m, w)"
| "om_removeAll E (k # ks) m w =
     (case map_of (om_map m) k of
        None \<Rightarrow> om_removeAll E ks m w
      | Some e \<Rightarrow> om_removeAll E ks (m\<lparr>om_map := AList.delete k (om_map m)\<rparr>) (snd (en_removeObject E e w)))"

fun om_syncAll :: "'w object_env \<Rightarrow> object_version list \<Rightarrow> object_map \<Rightarrow> 'w \<Rightarrow> (object_map \<times> 'w) option" where
  "om_syncAll E [] m w = Some (m, w)"
| "om_syncAll E (ov # ovs) m w =
     (let e = om_at (ov_identifier ov) m; m = om_put (ov_identifier ov) e m
      in case en_instance e of
           None \<Rightarrow> om_syncAll E ovs m w
         | Some r \<Rightarrow>
             if oe_isMaster E w r \<or> ov_version ov < oe_version E w r then om_syncAll E ovs m w
             else case oe_sync E (ov_version ov) r w of
                    None \<Rightarrow> None
                  | Some (version, w) \<Rightarrow> om_syncAll E ovs (om_put (ov_identifier ov) (e\<lparr>en_version := version\<rparr>) m) w)"

definition om_deserialize :: "'w object_env \<Rightarrow> (object_map \<times> 'w) deserialize" where
  "om_deserialize E i dirtyBits s =
     (case s of (m, w) \<Rightarrow>
        if dirtyBits = DIRTY_ALL then
          (case in_objectVersion ObjectVersion_default i of
             (ov, i) \<Rightarrow> (case om_readAll ov i m of None \<Rightarrow> None | Some (m, i) \<Rightarrow> Some ((m, w), i)))
        else
          (let (m, i) = (if dirtyBits AND DIRTY_ADDED \<noteq> 0
                         then (case in_vector (in_word 16) 0 i of (added, i) \<Rightarrow> om_readAdded added i m) else (m, i));
               ((m, w), i) = (if dirtyBits AND DIRTY_REMOVED \<noteq> 0
                              then (case in_vector (in_word 16) 0 i of (removed, i) \<Rightarrow> (om_removeAll E removed m w, i))
                              else ((m, w), i))
           in if dirtyBits AND DIRTY_CHANGED \<noteq> 0
              then (case in_vector in_objectVersion ObjectVersion_default i of
                      (changed, i) \<Rightarrow>
                        (case om_syncAll E changed m w of None \<Rightarrow> None | Some (m, w) \<Rightarrow> Some ((m, w), i)))
              else Some ((m, w), i)))"

definition om_notifyAttached :: "object_map \<Rightarrow> object_map" where
  "om_notifyAttached m = m\<lparr>om_added := [], om_removed := [], om_changed := []\<rparr>"

text \<open>
  \<^verbatim>\<open>commit\<close>: the masters, then the map itself. Its change manager calls \<open>pack\<close> when the map is dirty and has
  slaves. The result are the writes of the delta.
\<close>

definition om_commit :: "'w object_env \<Rightarrow> bool \<Rightarrow> uint32 \<Rightarrow> object_map \<Rightarrow> 'w \<Rightarrow> (bytes list \<times> object_map \<times> 'w) option" where
  "om_commit E slaves incarnation m w =
     (case om_commitMasters E incarnation m w of
        None \<Rightarrow> None
      | Some (m, w) \<Rightarrow>
          (case sz_commit (\<lambda>m. Some (if om_isDirty E w m \<and> slaves then sz_pack om_serialize m else ([], m))) m of
             None \<Rightarrow> None
           | Some (ws, m) \<Rightarrow> Some (ws, m\<lparr>om_added := [], om_removed := [], om_changed := []\<rparr>, w)))"

definition om_register :: "'w object_env \<Rightarrow> nat \<Rightarrow> uint32 \<Rightarrow> object_map \<Rightarrow> 'w \<Rightarrow> bool \<times> object_map \<times> 'w" where
  "om_register E r type m w =
     (if map_of (om_map m) (oe_id E w r) \<noteq> None then (False, m, w)
      else
        (let w = oe_register E r w; i = oe_id E w r;
             e = \<lparr>en_version = oe_version E w r, en_instance = Some r, en_type = type, en_own = False\<rparr>
         in (True, sz_setDirty DIRTY_ADDED
                     ((om_put i e m)\<lparr>om_masters := om_masters m @ [r], om_added := om_added m @ [i]\<rparr>), w)))"

definition om_deregister :: "'w object_env \<Rightarrow> nat \<Rightarrow> object_map \<Rightarrow> 'w \<Rightarrow> bool \<times> object_map \<times> 'w" where
  "om_deregister E r m w =
     (if map_of (om_map m) (oe_id E w r) = None \<or> r \<notin> set (om_masters m) then (False, m, w)
      else
        (let w' = oe_deregister E r w
         in (True, sz_setDirty DIRTY_REMOVED
                     (m\<lparr>om_map := AList.delete (oe_id E w r) (om_map m), om_masters := remove1 r (om_masters m),
                        om_removed := om_removed m @ [oe_id E w' r]\<rparr>), w')))"

definition om_mapObject ::
  "'w object_env \<Rightarrow> uint128 \<Rightarrow> nat option \<Rightarrow> object_map \<Rightarrow> 'w \<Rightarrow> (nat option \<times> object_map \<times> 'w) option" where
  "om_mapObject E identifier' instance' m w =
     (if identifier' = 0 then Some (None, m, w)
      else case map_of (om_map m) identifier' of
             None \<Rightarrow> Some (None, m, w)
           | Some e \<Rightarrow>
               (case en_instance e of
                  Some r \<Rightarrow> Some (if instance' = None \<or> instance' = Some r then Some r else None, m, w)
                | None \<Rightarrow>
                    (case (case instance' of Some r \<Rightarrow> (Some r, w) | None \<Rightarrow> oe_create E (en_type e) w) of
                       (None, w) \<Rightarrow> Some (None, m, w)
                     | (Some r, w) \<Rightarrow>
                         (case oe_map E r identifier' (en_version e) w of
                            None \<Rightarrow> None
                          | Some (False, w) \<Rightarrow>
                              Some (None, m, if instance' = None then oe_destroy E r (en_type e) w else w)
                          | Some (True, w) \<Rightarrow>
                              Some (Some r, om_put identifier' (e\<lparr>en_instance := Some r, en_own := (instance' = None)\<rparr>) m, w)))))"

definition om_unmap :: "'w object_env \<Rightarrow> nat \<Rightarrow> object_map \<Rightarrow> 'w \<Rightarrow> bool \<times> object_map \<times> 'w" where
  "om_unmap E r m w =
     (case map_of (om_map m) (oe_id E w r) of
        None \<Rightarrow> (False, m, w)
      | Some e \<Rightarrow> (case en_removeObject E e w of (e, w') \<Rightarrow> (True, om_put (oe_id E w r) e m, w')))"

end
