(* ===== verification/Object_Map_Facts.thy ===== *)
theory Object_Map_Facts
  imports Object_Map
begin

unbundle bit_operations_syntax

text \<open>
  A slave instance of an object map follows its master: after every commit both list the same objects with the
  same types. What one instance writes the other reads, in any packets; the one thing to avoid is to
  register and deregister the same identifier between two commits.
\<close>

section \<open>What is read is what was written\<close>

lemma om_at_put [simp]: "om_at k (om_put k' e m) = (if k = k' then e else om_at k m)"
  by (simp add: om_at_def om_put_def update_conv')

lemma om_at_touch [simp]: "om_at k (om_put k' (om_at k' m) m) = om_at k m"
  by simp

lemma om_put_lists [simp]:
  "om_added (om_put k e m) = om_added m" "om_removed (om_put k e m) = om_removed m"
  "om_changed (om_put k e m) = om_changed m" "om_masters (om_put k e m) = om_masters m" "sz_dirty (om_put k e m) = sz_dirty m"
  by (simp_all add: om_put_def)

lemma om_writeEntries_eq:
  "om_writeEntries ks m =
     (concat (map (\<lambda>k. [le_bytes 16 (en_version (om_at k m)), le_bytes 4 (en_type (om_at k m))]) ks),
      fold (\<lambda>k m. om_put k (om_at k m) m) ks m)"
  by (induction ks arbitrary: m) (simp_all add: Let_def del: om_at_put)

definition add_entry :: "object_map \<Rightarrow> uint128 \<Rightarrow> object_map \<Rightarrow> object_map" where
  "add_entry m k s = om_put k ((om_at k s)\<lparr>en_version := en_version (om_at k m), en_type := en_type (om_at k m)\<rparr>) s"

lemma om_readAdded_feeds:
  "feeds i (concat (map (\<lambda>k. [le_bytes 16 (en_version (om_at k m)), le_bytes 4 (en_type (om_at k m))]) ks) @ ws) \<Longrightarrow>
   \<exists>i'. om_readAdded ks i s = (fold (add_entry m) ks s, i') \<and> feeds i' ws"
proof (induction ks arbitrary: i s)
  case (Cons k ks)
  let ?rest = "concat (map (\<lambda>k. [le_bytes 16 (en_version (om_at k m)), le_bytes 4 (en_type (om_at k m))]) ks) @ ws"
  from in_word_feeds [of i 16 "en_version (om_at k m)" _ "en_version (om_at k s)"] Cons.prems obtain i1 where
    i1: "in_word 16 (en_version (om_at k s)) i = (en_version (om_at k m), i1)" "feeds i1 (le_bytes 4 (en_type (om_at k m)) # ?rest)"
    by fastforce
  from in_word_feeds [OF i1(2), of "en_type (om_at k s)"] obtain i2 where
    "in_word 4 (en_type (om_at k s)) i1 = (en_type (om_at k m), i2)" "feeds i2 ?rest" by auto
  with Cons.IH [of i2 "add_entry m k s"] i1(1) show ?case by (simp add: add_entry_def)
qed simp

text \<open>Instance data, in one packet.\<close>

definition put_entry :: "uint128 \<times> map_entry \<Rightarrow> object_map \<Rightarrow> object_map" where
  "put_entry x s =
     om_put (fst x) ((om_at (fst x) s)\<lparr>en_version := en_version (snd x), en_type := en_type (snd x)\<rparr>) s"

definition entry_writes :: "uint128 \<times> map_entry \<Rightarrow> bytes list" where
  "entry_writes x = [ov_bytes (ObjectVersion (fst x) (en_version (snd x))), le_bytes 4 (en_type (snd x))]"

lemma om_readAll_feeds:
  assumes "\<forall>x \<in> set es. ObjectVersion (fst x) (en_version (snd x)) \<noteq> ObjectVersion_default"
    and "feeds i (concat (map entry_writes es) @ ov_bytes ObjectVersion_default # ws)"
  shows "\<exists>ov i1 i'. in_objectVersion x i = (ov, i1) \<and> om_readAll ov i1 s = Some (fold put_entry es s, i') \<and> feeds i' ws"
  using assms
proof (induction es arbitrary: i s x)
  case Nil
  with in_objectVersion_feeds [of i ObjectVersion_default ws x] show ?case
    by (subst om_readAll.simps) auto
next
  case (Cons e es)
  let ?ov = "ObjectVersion (fst e) (en_version (snd e))"
  let ?rest = "concat (map entry_writes es) @ ov_bytes ObjectVersion_default # ws"
  have "feeds i (ov_bytes ?ov # le_bytes 4 (en_type (snd e)) # ?rest)" using Cons.prems(2) by (simp add: entry_writes_def [of e])
  from in_objectVersion_feeds [OF this, of x] obtain i1 where
    i1: "in_objectVersion x i = (?ov, i1)" "feeds i1 (le_bytes 4 (en_type (snd e)) # ?rest)" by blast
  from in_word_feeds [OF i1(2), of "en_type (om_at (fst e) s)"] obtain i2 where
    i2: "in_word 4 (en_type (om_at (fst e) s)) i1 = (en_type (snd e), i2)" "feeds i2 ?rest" by auto
  from Cons.IH [OF _ i2(2), of ?ov "put_entry e s"] Cons.prems(1) obtain ov i3 i' where
    "in_objectVersion ?ov i2 = (ov, i3)" "om_readAll ov i3 (put_entry e s) = Some (fold put_entry es (put_entry e s), i')"
    "feeds i' ws" by auto
  with i1(1) i2(1) Cons.prems(1) show ?case
    by (intro exI [of _ ?ov] exI [of _ i1] exI [of _ i']) (subst om_readAll.simps, simp add: put_entry_def)
qed

text \<open>What deserialization does to the receiver.\<close>

definition om_effect :: "'w object_env \<Rightarrow> uint64 \<Rightarrow> object_map \<Rightarrow> object_map \<times> 'w \<Rightarrow> (object_map \<times> 'w) option" where
  "om_effect E bits m x =
     (if bits = DIRTY_ALL then Some (fold put_entry (om_map m) (fst x), snd x)
      else
        (let s = (if bits AND DIRTY_ADDED \<noteq> 0 then fold (add_entry m) (om_added m) (fst x) else fst x);
             (s, w) = (if bits AND DIRTY_REMOVED \<noteq> 0 then om_removeAll E (om_removed m) s (snd x) else (s, snd x))
         in if bits AND DIRTY_CHANGED \<noteq> 0 then om_syncAll E (om_changed m) s w else Some (s, w)))"

text \<open>What an instance of the map says: the types of the objects by their identifier.\<close>

definition om_dir :: "object_map \<Rightarrow> uint128 \<rightharpoonup> uint32" where
  "om_dir m k = map_option en_type (map_of (om_map m) k)"

definition om_proper :: "object_map \<Rightarrow> bool" where
  "om_proper m \<longleftrightarrow> om_dir m 0 = None \<and>
     length (om_added m) < 2 ^ 64 \<and> length (om_removed m) < 2 ^ 64 \<and> length (om_changed m) < 2 ^ 64"

lemma fold_at_lists [simp]:
  "om_added (fold (\<lambda>k m. om_put k (om_at k m) m) ks m) = om_added m"
  "om_removed (fold (\<lambda>k m. om_put k (om_at k m) m) ks m) = om_removed m"
  "om_changed (fold (\<lambda>k m. om_put k (om_at k m) m) ks m) = om_changed m"
  "om_masters (fold (\<lambda>k m. om_put k (om_at k m) m) ks m) = om_masters m"
  by (induction ks arbitrary: m) simp_all

lemma om_deserialize_delta:
  assumes "om_proper m" and "bits \<noteq> DIRTY_ALL" and "feeds i (fst (om_serialize bits m) @ ws)"
  shows "\<exists>i'. om_deserialize E i bits x = map_option (\<lambda>s'. (s', i')) (om_effect E bits m x) \<and> feeds i' ws"
proof -
  obtain s w where x: "x = (s, w)" by (cases x)
  let ?add = "bits AND DIRTY_ADDED \<noteq> 0" and ?rem = "bits AND DIRTY_REMOVED \<noteq> 0" and ?chg = "bits AND DIRTY_CHANGED \<noteq> 0"
  define C where "C = (if ?chg then out_flatVector ov_bytes (om_changed m) else [])"
  define R where "R = (if ?rem then out_vector (le_bytes 16) (om_removed m) else [])"
  define A where "A = (if ?add then out_vector (le_bytes 16) (om_added m) @
      concat (map (\<lambda>k. [le_bytes 16 (en_version (om_at k m)), le_bytes 4 (en_type (om_at k m))]) (om_added m)) else [])"
  have word: "feeds i (le_bytes 16 y # ws) \<Longrightarrow> \<exists>i'. in_word 16 (0 :: uint128) i = (y, i') \<and> feeds i' ws" for y ws i
    by (rule in_word_feeds) simp_all
  have feed: "feeds i (A @ R @ C @ ws)"
    using assms(2,3) by (simp add: om_serialize_def om_writeEntries_eq A_def R_def C_def Let_def split: if_splits)
  define s1 where "s1 = (if ?add then fold (add_entry m) (om_added m) s else s)"
  obtain i1 where i1: "(if ?add then (case in_vector (in_word 16) 0 i of (added, i) \<Rightarrow> om_readAdded added i s) else (s, i)) = (s1, i1)"
    and f1: "feeds i1 (R @ C @ ws)"
  proof (cases ?add)
    case True
    with feed in_vector_feeds [where item = "le_bytes 16" and read = "in_word 16" and x = "0 :: uint128", OF word, of i "om_added m"]
      assms(1) obtain i0 where i0: "in_vector (in_word 16) 0 i = (om_added m, i0)"
      "feeds i0 (concat (map (\<lambda>k. [le_bytes 16 (en_version (om_at k m)), le_bytes 4 (en_type (om_at k m))]) (om_added m)) @ R @ C @ ws)"
      by (fastforce simp: A_def om_proper_def)
    from om_readAdded_feeds [OF i0(2), of s] obtain i1 where "om_readAdded (om_added m) i0 s = (fold (add_entry m) (om_added m) s, i1)"
      "feeds i1 (R @ C @ ws)" by blast
    with True i0(1) that show thesis by (simp add: s1_def)
  next
    case False
    with feed that show thesis by (simp add: s1_def A_def)
  qed
  define s2 where "s2 = (if ?rem then om_removeAll E (om_removed m) s1 w else (s1, w))"
  obtain i2 where i2: "(if ?rem then (case in_vector (in_word 16) 0 i1 of (removed, i) \<Rightarrow> (om_removeAll E removed s1 w, i)) else ((s1, w), i1)) = (s2, i2)"
    and f2: "feeds i2 (C @ ws)"
  proof (cases ?rem)
    case True
    with f1 in_vector_feeds [where item = "le_bytes 16" and read = "in_word 16" and x = "0 :: uint128", OF word, of i1 "om_removed m" "C @ ws"]
      assms(1) obtain i0 where "in_vector (in_word 16) 0 i1 = (om_removed m, i0)" "feeds i0 (C @ ws)"
      by (auto simp: R_def om_proper_def)
    with True that show thesis by (simp add: s2_def)
  next
    case False
    with f1 that show thesis by (simp add: s2_def R_def)
  qed
  obtain s2' w2 where s2': "s2 = (s2', w2)" by (cases s2)
  have eff: "om_effect E bits m x = (if ?chg then om_syncAll E (om_changed m) s2' w2 else Some (s2', w2))"
    using assms(2) s2' by (auto simp: om_effect_def x s1_def s2_def Let_def split: if_splits)
  have des: "om_deserialize E i bits x =
      (if ?chg then (case in_vector in_objectVersion ObjectVersion_default i2 of
           (changed, i) \<Rightarrow> (case om_syncAll E changed s2' w2 of None \<Rightarrow> None | Some (m, w) \<Rightarrow> Some ((m, w), i)))
       else Some ((s2', w2), i2))"
    using assms(2) i1 i2 s2' by (simp add: om_deserialize_def x Let_def)
  show ?thesis
  proof (cases ?chg)
    case True
    with f2 in_flatVector_feeds [where item = ov_bytes and read = in_objectVersion and x = ObjectVersion_default,
        OF in_objectVersion_feeds, of i2 "om_changed m" ws]
      assms(1) obtain i3 where "in_vector in_objectVersion ObjectVersion_default i2 = (om_changed m, i3)" "feeds i3 ws"
      by (auto simp: C_def om_proper_def)
    with True des eff show ?thesis by (intro exI [of _ i3]) (auto split: option.split)
  next
    case False
    with f2 des eff show ?thesis by (intro exI [of _ i2]) (simp add: C_def)
  qed
qed

lemma om_deserialize_full:
  assumes "om_proper m"
  shows "\<exists>i'. om_deserialize E ([], [concat (fst (om_serialize DIRTY_ALL m))]) DIRTY_ALL x =
      map_option (\<lambda>s'. (s', i')) (om_effect E DIRTY_ALL m x) \<and> feeds i' []"
proof -
  obtain s w where x: "x = (s, w)" by (cases x)
  have "concat (concat (map (\<lambda>(i, e). [le_bytes 16 i, le_bytes 16 (en_version e), le_bytes 4 (en_type e)]) es)) =
      concat (concat (map entry_writes es))" for es :: "(uint128 \<times> map_entry) list"
    by (induction es) (auto simp: entry_writes_def ov_bytes_def)
  then have feed: "feeds ([], [concat (fst (om_serialize DIRTY_ALL m))]) (concat (map entry_writes (om_map m)) @ [ov_bytes ObjectVersion_default])"
    by (intro feeds_single) (simp add: om_serialize_def)
  have "\<forall>x \<in> set (om_map m). ObjectVersion (fst x) (en_version (snd x)) \<noteq> ObjectVersion_default"
    using assms by (force simp: om_proper_def ObjectVersion_default_def om_dir_def map_of_eq_None_iff)
  from om_readAll_feeds [OF this, of _ "[]" ObjectVersion_default s] feed obtain ov i1 i' where
    "in_objectVersion ObjectVersion_default ([], [concat (fst (om_serialize DIRTY_ALL m))]) = (ov, i1)"
    "om_readAll ov i1 s = Some (fold put_entry (om_map m) s, i')" "feeds i' []" by blast
  then show ?thesis by (intro exI [of _ i']) (simp add: om_deserialize_def om_effect_def x)
qed

interpretation map_class: serializable_class om_serialize "om_deserialize E" "om_effect E" om_proper for E
  by unfold_locales (blast intro: om_deserialize_delta om_deserialize_full)+

section \<open>The directory\<close>

lemma om_dir_put [simp]: "om_dir (om_put k e m) = (om_dir m)(k \<mapsto> en_type e)"
  by (auto simp: om_dir_def om_put_def update_conv')

lemma om_dir_at: "om_dir m k = Some t \<Longrightarrow> en_type (om_at k m) = t"
  by (auto simp: om_dir_def om_at_def)

lemma om_dir_frame [simp]:
  "om_dir (m\<lparr>om_changed := cs\<rparr>) = om_dir m" "om_dir (m\<lparr>om_added := is\<rparr>) = om_dir m" "om_dir (m\<lparr>om_removed := js\<rparr>) = om_dir m"
  "om_dir (m\<lparr>om_masters := rs\<rparr>) = om_dir m" "om_dir (m\<lparr>sz_dirty := d\<rparr>) = om_dir m"
  by (auto simp: om_dir_def)

lemma om_dir_delete: "om_dir (m\<lparr>om_map := AList.delete k (om_map m)\<rparr>) = (om_dir m)(k := None)"
  by (auto simp: om_dir_def delete_conv)

lemma om_dir_touch:
  assumes "om_dir m k \<noteq> None"
  shows "om_dir (om_put k (om_at k m) m) = om_dir m"
  using assms om_dir_at [of m k] by auto

lemma fold_touch_dir:
  "\<forall>k \<in> set ks. om_dir m k \<noteq> None \<Longrightarrow> om_dir (fold (\<lambda>k m. om_put k (om_at k m) m) ks m) = om_dir m"
proof (induction ks arbitrary: m)
  case (Cons k ks)
  then have "om_dir (om_put k (om_at k m) m) = om_dir m" using om_dir_touch by simp
  with Cons show ?case by simp
qed simp

lemma fold_add_dir:
  "\<forall>k \<in> set ks. om_dir m k \<noteq> None \<Longrightarrow>
   om_dir (fold (add_entry m) ks s) = (\<lambda>k. if k \<in> set ks then om_dir m k else om_dir s k)"
proof (induction ks arbitrary: s)
  case (Cons k ks)
  then obtain t where "om_dir m k = Some t" by auto
  with om_dir_at have "om_dir (add_entry m k s) = (om_dir s)(k := om_dir m k)" by (simp add: add_entry_def)
  with Cons show ?case by (auto simp: fun_eq_iff)
qed simp

lemma fold_put_dir:
  "distinct (map fst es) \<Longrightarrow> om_dir (fold put_entry es s) =
     (\<lambda>k. case map_of es k of None \<Rightarrow> om_dir s k | Some e \<Rightarrow> Some (en_type e))"
proof (induction es arbitrary: s)
  case (Cons e es)
  have "om_dir (put_entry e s) = (om_dir s)(fst e \<mapsto> en_type (snd e))" by (simp add: put_entry_def)
  with Cons have "om_dir (fold put_entry (e # es) s) =
      (\<lambda>k. case map_of es k of None \<Rightarrow> ((om_dir s)(fst e \<mapsto> en_type (snd e))) k | Some e \<Rightarrow> Some (en_type e))"
    by (auto simp: fun_eq_iff split: option.split)
  moreover have "map_of es (fst e) = None" using Cons.prems by (simp add: map_of_eq_None_iff)
  ultimately show ?case by (auto simp: fun_eq_iff split: option.split)
qed simp

lemma om_removeAll_dir:
  "om_dir (fst (om_removeAll E ks m w)) = (\<lambda>k. if k \<in> set ks then None else om_dir m k)"
proof (induction ks arbitrary: m w)
  case (Cons k ks)
  show ?case
  proof (cases "map_of (om_map m) k")
    case None
    then have "om_dir m k = None" by (simp add: om_dir_def)
    with None Cons show ?thesis by (auto simp: fun_eq_iff)
  next
    case (Some e)
    with Cons show ?thesis by (auto simp: om_dir_delete fun_eq_iff)
  qed
qed simp

lemma om_syncAll_dir:
  "\<forall>ov \<in> set ovs. om_dir m (ov_identifier ov) \<noteq> None \<Longrightarrow> om_syncAll E ovs m w = Some (m', w') \<Longrightarrow> om_dir m' = om_dir m"
proof (induction ovs arbitrary: m w)
  case (Cons ov ovs)
  let ?k = "ov_identifier ov" and ?m = "om_put (ov_identifier ov) (om_at (ov_identifier ov) m) m"
  have touch: "om_dir ?m = om_dir m" using Cons.prems(1) om_dir_touch by simp
  then have set: "om_dir (om_put ?k ((om_at ?k m)\<lparr>en_version := v\<rparr>) ?m) = om_dir m" for v
    using fun_upd_idem_iff by (metis (no_types, lifting) fun_upd_upd map_entry.select_convs(3) map_entry.surjective
      map_entry.update_convs(1) om_dir_put)
  have ih: "om_syncAll E ovs n v = Some (m', w') \<Longrightarrow> om_dir n = om_dir m \<Longrightarrow> om_dir m' = om_dir m" for n v
    using Cons.IH [of n v] Cons.prems(1) by simp
  from Cons.prems(2) touch set show ?case
    by (auto simp: Let_def split: option.splits if_splits elim!: ih)
qed simp

section \<open>Master and slave\<close>

text \<open>What the map relies on: registering, deregistering and committing objects does not change identifiers.\<close>

locale object_handler =
  fixes E :: "'w object_env"
  assumes register_id [simp]: "oe_id E (oe_register E r w) = oe_id E w"
    and deregister_id [simp]: "oe_id E (oe_deregister E r w) = oe_id E w"
    and commit_id: "oe_commit E incarnation r w = Some (v, w') \<Longrightarrow> oe_id E w' = oe_id E w"
begin

lemma commitObjects_frame:
  "om_commitObjects E incarnation rs m w = Some (m', w') \<Longrightarrow> \<forall>r \<in> set rs. om_dir m (oe_id E w r) \<noteq> None \<Longrightarrow>
   om_dir m' = om_dir m \<and> oe_id E w' = oe_id E w \<and> om_added m' = om_added m \<and> om_removed m' = om_removed m \<and>
   om_masters m' = om_masters m \<and> sz_dirty m' = sz_dirty m \<and>
   ov_identifier ` set (om_changed m') \<subseteq> ov_identifier ` set (om_changed m) \<union> oe_id E w ` set rs"
proof (induction rs arbitrary: m w)
  case (Cons r rs)
  show ?case
  proof (cases "\<not> oe_isDirty E w r \<or> oe_isStatic E w r")
    case True
    then have "om_commitObjects E incarnation rs m w = Some (m', w')" using Cons.prems(1) by simp
    from Cons.IH [OF this] Cons.prems(2) show ?thesis by auto
  next
    case False
    with Cons.prems(1) obtain v w1 where commit: "oe_commit E incarnation r w = Some (v, w1)" by (auto split: option.splits)
    let ?k = "oe_id E w r"
    define m1 where "m1 = (if en_version (om_at ?k m) = v then om_put ?k (om_at ?k m) m
       else (om_put ?k ((om_at ?k m)\<lparr>en_version := v\<rparr>) m)\<lparr>om_changed := om_changed m @ [ObjectVersion ?k v]\<rparr>)"
    have run: "om_commitObjects E incarnation rs m1 w1 = Some (m', w')"
      using Cons.prems(1) False commit by (simp add: m1_def Let_def split: if_splits)
    obtain t where "om_dir m ?k = Some t" using Cons.prems(2) by auto
    then have dir: "om_dir m1 = om_dir m" using om_dir_at [of m ?k t] by (auto simp: m1_def)
    have ids: "oe_id E w1 = oe_id E w" using commit by (rule commit_id)
    have "om_added m1 = om_added m" "om_removed m1 = om_removed m" "om_masters m1 = om_masters m" "sz_dirty m1 = sz_dirty m"
      by (auto simp: m1_def)
    moreover have changed: "ov_identifier ` set (om_changed m1) \<subseteq> ov_identifier ` set (om_changed m) \<union> {?k}" by (auto simp: m1_def)
    have "\<forall>r \<in> set rs. om_dir m1 (oe_id E w1 r) \<noteq> None" using Cons.prems(2) dir ids by simp
    note ih = Cons.IH [OF run this]
    have "A \<subseteq> B \<union> C \<Longrightarrow> B \<subseteq> D \<union> {k} \<Longrightarrow> A \<subseteq> D \<union> insert k C" for A B C D :: "uint128 set" and k by blast
    from this [OF _ changed] ih ids have
      "ov_identifier ` set (om_changed m') \<subseteq> ov_identifier ` set (om_changed m) \<union> insert ?k (oe_id E w ` set rs)" by metis
    ultimately show ?thesis using dir ids ih by simp
  qed
qed simp

end

text \<open>
  The states of a master instance and one slave instance of the map, each with the state of its process. The delta of a
  commit is unpacked by the slave, however it was split into packets; a slave that maps the map, then or
  later, applies instance data retained by a commit. Identifiers are registered and deregistered in different commits.
\<close>

inductive om_reach :: "'w object_env \<Rightarrow> 'v object_env \<Rightarrow> object_map \<times> 'w \<Rightarrow> object_map \<times> 'v \<Rightarrow> bool"
  for EM :: "'w object_env" and ES :: "'v object_env" where
  start: "om_reach EM ES (omap_new, wm) (omap_new, ws)"
| register: "om_reach EM ES (m, wm) S \<Longrightarrow> oe_id EM wm r \<noteq> 0 \<Longrightarrow> oe_id EM wm r \<notin> set (om_removed m) \<Longrightarrow>
    om_register EM r type m wm = (b, m', wm') \<Longrightarrow> om_reach EM ES (m', wm') S"
| deregister: "om_reach EM ES (m, wm) S \<Longrightarrow> oe_id EM wm r \<notin> set (om_added m) \<Longrightarrow>
    om_deregister EM r m wm = (b, m', wm') \<Longrightarrow> om_reach EM ES (m', wm') S"
| commit: "om_reach EM ES (m, wm) S \<Longrightarrow> om_commit EM True incarnation m wm = Some (ws, m', wm') \<Longrightarrow>
    length (om_added m) < 2 ^ 64 \<Longrightarrow> length (om_removed m) < 2 ^ 64 \<Longrightarrow> length (om_masters m) < 2 ^ 64 \<Longrightarrow> feeds i ws \<Longrightarrow>
    sz_unpack x (om_deserialize ES) i S = Some (S', i') \<Longrightarrow> om_reach EM ES (m', wm') S'"
| instance_data: "om_reach EM ES (m, wm) (s, w) \<Longrightarrow> om_added m = [] \<Longrightarrow> om_removed m = [] \<Longrightarrow>
    sz_applyInstanceData (om_deserialize ES) ([], [concat (fst (sz_getInstanceData om_serialize m))]) (omap_new, w') = Some (S', i') \<Longrightarrow>
    om_reach EM ES (m, wm) S'"
| master_state: "om_reach EM ES (m, wm) S \<Longrightarrow> oe_id EM wm' = oe_id EM wm \<Longrightarrow> om_reach EM ES (m, wm') S"
| slave_state: "om_reach EM ES M (s, w) \<Longrightarrow> om_reach EM ES M (s, w')"
| slave_map: "om_reach EM ES M (s, w) \<Longrightarrow> om_mapObject ES k r s w = Some (r', s', w') \<Longrightarrow> om_reach EM ES M (s', w')"
| slave_unmap: "om_reach EM ES M (s, w) \<Longrightarrow> om_unmap ES r s w = (b, s', w') \<Longrightarrow> om_reach EM ES M (s', w')"

definition master_ok :: "('w object_env) \<Rightarrow> object_map \<times> 'w \<Rightarrow> bool" where
  "master_ok E M \<longleftrightarrow> (case M of (m, w) \<Rightarrow>
     distinct (map fst (om_map m)) \<and> om_dir m 0 = None \<and> distinct (map (oe_id E w) (om_masters m)) \<and>
     (\<forall>r \<in> set (om_masters m). om_dir m (oe_id E w r) \<noteq> None) \<and> om_changed m = [] \<and> sz_dirty m AND NOT 7 = 0 \<and>
     (om_added m \<noteq> [] \<longrightarrow> sz_dirty m AND DIRTY_ADDED \<noteq> 0) \<and> (om_removed m \<noteq> [] \<longrightarrow> sz_dirty m AND DIRTY_REMOVED \<noteq> 0))"

definition replica_ok :: "object_map \<Rightarrow> object_map \<Rightarrow> bool" where
  "replica_ok m s \<longleftrightarrow>
     (\<forall>k. k \<notin> set (om_added m) \<union> set (om_removed m) \<longrightarrow> om_dir s k = om_dir m k) \<and>
     (\<forall>k \<in> set (om_added m). om_dir s k = None \<and> om_dir m k \<noteq> None) \<and>
     (\<forall>k \<in> set (om_removed m). om_dir s k \<noteq> None \<and> om_dir m k = None)"

lemma om_put_distinct: "distinct (map fst (om_map m)) \<Longrightarrow> distinct (map fst (om_map (om_put k e m)))"
  by (simp add: om_put_def distinct_update)

lemma fold_touch_distinct:
  "distinct (map fst (om_map m)) \<Longrightarrow> distinct (map fst (om_map (fold (\<lambda>k m. om_put k (om_at k m) m) ks m)))"
  by (induction ks arbitrary: m) (simp_all add: om_put_distinct)

lemma commitObjects_distinct:
  "om_commitObjects E incarnation rs m w = Some (m', w') \<Longrightarrow> distinct (map fst (om_map m)) \<Longrightarrow> distinct (map fst (om_map m'))"
  by (induction E incarnation rs m w rule: om_commitObjects.induct)
     (auto simp: Let_def om_put_distinct split: if_splits option.splits)

lemma commitObjects_length:
  "om_commitObjects E incarnation rs m w = Some (m', w') \<Longrightarrow> length (om_changed m') \<le> length (om_changed m) + length rs"
  by (induction E incarnation rs m w rule: om_commitObjects.induct)
     (fastforce simp: Let_def split: if_splits option.splits)+

lemma effect_dir:
  assumes "replica_ok m s" and "om_added m \<noteq> [] \<longrightarrow> bits AND DIRTY_ADDED \<noteq> 0" and "om_removed m \<noteq> [] \<longrightarrow> bits AND DIRTY_REMOVED \<noteq> 0"
    and "bits \<noteq> DIRTY_ALL" and "\<forall>ov \<in> set (om_changed m). om_dir m (ov_identifier ov) \<noteq> None"
    and "om_effect E bits m (s, w) = Some (s', w')"
  shows "om_dir s' = om_dir m"
proof -
  define s1 where "s1 = (if bits AND DIRTY_ADDED \<noteq> 0 then fold (add_entry m) (om_added m) s else s)"
  define x where "x = (if bits AND DIRTY_REMOVED \<noteq> 0 then om_removeAll E (om_removed m) s1 w else (s1, w))"
  have "\<forall>k \<in> set (om_added m). om_dir m k \<noteq> None" using assms(1) by (simp add: replica_ok_def)
  then have s1: "om_dir s1 = (\<lambda>k. if k \<in> set (om_added m) then om_dir m k else om_dir s k)"
    using assms(2) fold_add_dir by (auto simp: s1_def)
  have "om_dir (fst x) = (\<lambda>k. if k \<in> set (om_removed m) then None else om_dir s1 k)"
    using assms(3) om_removeAll_dir by (auto simp: x_def)
  with s1 assms(1) have dir: "om_dir (fst x) = om_dir m" by (auto simp: replica_ok_def fun_eq_iff)
  have "(if bits AND DIRTY_CHANGED \<noteq> 0 then om_syncAll E (om_changed m) (fst x) (snd x) else Some x) = Some (s', w')"
    using assms(4,6) by (auto simp: om_effect_def x_def s1_def Let_def split: if_splits prod.splits)
  with dir om_syncAll_dir [of "om_changed m" "fst x" E "snd x" s' w'] assms(5) show ?thesis by (auto split: if_splits)
qed

lemma mask_or: "(a :: uint64) AND m = 0 \<Longrightarrow> b AND m = 0 \<Longrightarrow> (a OR b) AND m = 0"
  by (simp add: bit.conj_disj_distrib2)

lemma or_bit: "(a :: uint64) AND m \<noteq> 0 \<Longrightarrow> (a OR b) AND m \<noteq> 0"
  by (auto simp: bit.conj_disj_distrib2 or_eq_0_iff)

context object_handler
begin

lemma register_ok:
  assumes "master_ok E (m, w)" and "replica_ok m s" and "oe_id E w r \<noteq> 0"
    and "oe_id E w r \<notin> set (om_removed m)" and "om_register E r type m w = (b, m', w')"
  shows "master_ok E (m', w') \<and> replica_ok m' s"
proof (cases "map_of (om_map m) (oe_id E w r)")
  case (Some e)
  with assms show ?thesis by (simp add: om_register_def)
next
  case None
  let ?k = "oe_id E w r"
  define e where "e = \<lparr>en_version = oe_version E (oe_register E r w) r, en_instance = Some r, en_type = type, en_own = False\<rparr>"
  have m': "m' = sz_setDirty DIRTY_ADDED ((om_put ?k e m)\<lparr>om_masters := om_masters m @ [r], om_added := om_added m @ [?k]\<rparr>)"
    and w': "oe_id E w' = oe_id E w" using assms(5) None by (auto simp: om_register_def Let_def e_def)
  have dir: "om_dir m' = (om_dir m)(?k \<mapsto> type)" by (simp add: m' sz_setDirty_def e_def)
  have k: "om_dir m ?k = None" using None by (simp add: om_dir_def)
  have lists: "om_masters m' = om_masters m @ [r]" "om_added m' = om_added m @ [?k]" "om_removed m' = om_removed m"
    "om_changed m' = om_changed m" "sz_dirty m' = sz_dirty m OR DIRTY_ADDED" by (simp_all add: m' sz_setDirty_def)
  have "distinct (map fst (om_map m'))" using assms(1) by (simp add: m' sz_setDirty_def om_put_distinct master_ok_def)
  moreover have "sz_dirty m' AND NOT 7 = 0" using assms(1) by (simp add: lists mask_or master_ok_def DIRTY_ADDED_def)
  moreover have "sz_dirty m' AND DIRTY_ADDED \<noteq> 0" by (simp add: lists bit.conj_disj_distrib2 DIRTY_ADDED_def)
  moreover have "om_removed m \<noteq> [] \<Longrightarrow> sz_dirty m' AND DIRTY_REMOVED \<noteq> 0" using assms(1) by (simp add: lists or_bit master_ok_def)
  moreover have "distinct (map (oe_id E w) (om_masters m @ [r]))" using assms(1) k by (auto simp: master_ok_def)
  ultimately have "master_ok E (m', w')" using assms(1,3) by (auto simp: master_ok_def dir w' lists)
  moreover have "replica_ok m' s" using assms(2,4) k by (auto simp: replica_ok_def dir lists)
  ultimately show ?thesis by simp
qed

lemma deregister_ok:
  assumes "master_ok E (m, w)" and "replica_ok m s" and "oe_id E w r \<notin> set (om_added m)"
    and "om_deregister E r m w = (b, m', w')"
  shows "master_ok E (m', w') \<and> replica_ok m' s"
proof (cases "map_of (om_map m) (oe_id E w r) = None \<or> r \<notin> set (om_masters m)")
  case True
  with assms show ?thesis by (simp add: om_deregister_def)
next
  case False
  let ?k = "oe_id E w r"
  have m': "m' = sz_setDirty DIRTY_REMOVED (m\<lparr>om_map := AList.delete ?k (om_map m), om_masters := remove1 r (om_masters m),
      om_removed := om_removed m @ [?k]\<rparr>)" and w': "oe_id E w' = oe_id E w"
    using assms(4) False by (auto simp: om_deregister_def Let_def)
  have dir: "om_dir m' = (om_dir m)(?k := None)" by (auto simp: m' sz_setDirty_def om_dir_def delete_conv)
  have k: "om_dir m ?k \<noteq> None" using False by (simp add: om_dir_def)
  have lists: "om_masters m' = remove1 r (om_masters m)" "om_added m' = om_added m" "om_removed m' = om_removed m @ [?k]"
    "om_changed m' = om_changed m" "sz_dirty m' = sz_dirty m OR DIRTY_REMOVED" by (simp_all add: m' sz_setDirty_def)
  have ids: "distinct (map (oe_id E w) (om_masters m))" using assms(1) by (simp add: master_ok_def)
  then have dist: "distinct (om_masters m)" and inj: "inj_on (oe_id E w) (set (om_masters m))" by (simp_all add: distinct_map)
  have "distinct (map (oe_id E w) (remove1 r (om_masters m)))" "set (remove1 r (om_masters m)) = set (om_masters m) - {r}"
    using dist inj by (auto simp: distinct_map set_remove1_eq intro: inj_on_subset distinct_remove1)
  moreover have "r' \<in> set (om_masters m) \<Longrightarrow> r' \<noteq> r \<Longrightarrow> oe_id E w r' \<noteq> ?k" for r' using False inj by (auto dest: inj_onD)
  moreover have "distinct (map fst (om_map m'))" using assms(1) by (simp add: m' sz_setDirty_def master_ok_def distinct_delete)
  moreover have "sz_dirty m' AND NOT 7 = 0" using assms(1) by (simp add: lists mask_or master_ok_def DIRTY_REMOVED_def)
  moreover have "sz_dirty m' AND DIRTY_REMOVED \<noteq> 0" by (simp add: lists bit.conj_disj_distrib2 DIRTY_REMOVED_def)
  moreover have "om_added m \<noteq> [] \<Longrightarrow> sz_dirty m' AND DIRTY_ADDED \<noteq> 0" using assms(1) by (simp add: lists or_bit master_ok_def)
  ultimately have "master_ok E (m', w')" using assms(1) by (auto simp: master_ok_def dir w' lists)
  moreover have "?k \<notin> set (om_removed m)" using assms(2) k by (auto simp: replica_ok_def)
  with assms(2,3) k have "replica_ok m' s" by (auto simp: replica_ok_def dir lists)
  ultimately show ?thesis by simp
qed

lemma commitMasters_ok:
  assumes "master_ok E (m, w)" and "om_commitMasters E incarnation m w = Some (m1, w1)"
  shows "om_dir m1 = om_dir m \<and> oe_id E w1 = oe_id E w \<and> om_added m1 = om_added m \<and> om_removed m1 = om_removed m \<and>
    om_masters m1 = om_masters m \<and> distinct (map fst (om_map m1)) \<and> sz_dirty m1 AND NOT 7 = 0 \<and>
    (om_added m \<noteq> [] \<longrightarrow> sz_dirty m1 AND DIRTY_ADDED \<noteq> 0) \<and> (om_removed m \<noteq> [] \<longrightarrow> sz_dirty m1 AND DIRTY_REMOVED \<noteq> 0) \<and>
    (\<forall>ov \<in> set (om_changed m1). om_dir m (ov_identifier ov) \<noteq> None)"
proof -
  obtain mc where mc: "om_commitObjects E incarnation (om_masters m) m w = Some (mc, w1)"
    and m1: "m1 = (if om_changed mc \<noteq> [] then sz_setDirty DIRTY_CHANGED mc else mc)"
    using assms(2) by (auto simp: om_commitMasters_def split: option.splits)
  have ok: "\<forall>r \<in> set (om_masters m). om_dir m (oe_id E w r) \<noteq> None" "om_changed m = []" "sz_dirty m AND NOT 7 = 0"
    "distinct (map fst (om_map m))"
    "om_added m \<noteq> [] \<longrightarrow> sz_dirty m AND DIRTY_ADDED \<noteq> 0" "om_removed m \<noteq> [] \<longrightarrow> sz_dirty m AND DIRTY_REMOVED \<noteq> 0"
    using assms(1) by (simp_all add: master_ok_def)
  note frame = commitObjects_frame [OF mc ok(1)]
  have dirty: "sz_dirty m1 = sz_dirty m \<or> sz_dirty m1 = sz_dirty m OR DIRTY_CHANGED" using frame by (simp add: m1 sz_setDirty_def)
  have "om_dir m1 = om_dir m" "om_map m1 = om_map mc" "om_changed m1 = om_changed mc" "om_added m1 = om_added m"
    "om_removed m1 = om_removed m" "om_masters m1 = om_masters m" using frame by (simp_all add: m1 sz_setDirty_def)
  moreover have "distinct (map fst (om_map mc))" by (rule commitObjects_distinct [OF mc ok(4)])
  moreover have "sz_dirty m1 AND NOT 7 = 0" using dirty ok(3) by (auto simp: mask_or DIRTY_CHANGED_def)
  moreover have "om_added m \<noteq> [] \<longrightarrow> sz_dirty m1 AND DIRTY_ADDED \<noteq> 0" "om_removed m \<noteq> [] \<longrightarrow> sz_dirty m1 AND DIRTY_REMOVED \<noteq> 0"
    using dirty ok(5,6) or_bit by metis+
  moreover have "\<forall>ov \<in> set (om_changed mc). om_dir m (ov_identifier ov) \<noteq> None"
    using frame ok(1,2) by (auto simp: subset_iff image_iff)
  ultimately show ?thesis using frame by simp
qed

lemma commit_ok:
  assumes "master_ok E (m, w)" and "replica_ok m s" and "om_commit E True incarnation m w = Some (ws, m', w')"
    and "length (om_added m) < 2 ^ 64" and "length (om_removed m) < 2 ^ 64" and "length (om_masters m) < 2 ^ 64" and "feeds i ws"
    and "sz_unpack x (om_deserialize ES) i (s, v) = Some ((s', v'), i')"
  shows "master_ok E (m', w') \<and> replica_ok m' s'"
proof -
  obtain m1 where m1: "om_commitMasters E incarnation m w = Some (m1, w')"
    using assms(3) by (auto simp: om_commit_def sz_commit_def split: option.splits prod.splits)
  note mc = commitMasters_ok [OF assms(1) m1]
  define m2 where "m2 = (if om_isDirty E w' m1 then snd (sz_pack om_serialize m1) else m1)"
  have ws: "ws = (if om_isDirty E w' m1 then fst (sz_pack om_serialize m1) else [])"
    and m': "m' = m2\<lparr>sz_dirty := DIRTY_NONE, om_added := [], om_removed := [], om_changed := []\<rparr>"
    using assms(3) m1 by (auto simp: om_commit_def sz_commit_def m2_def split: option.splits prod.splits if_splits)
  have rep1: "replica_ok m1 s" using assms(2) mc by (simp add: replica_ok_def)
  then have dom: "\<forall>k \<in> set (om_added m1). om_dir m1 k \<noteq> None" by (simp add: replica_ok_def)
  have m2: "om_dir m2 = om_dir m1" "om_masters m2 = om_masters m1" "distinct (map fst (om_map m2))"
    using fold_touch_dir [OF dom] mc fold_touch_distinct [of m1 "om_added m1"]
    by (auto simp: m2_def sz_pack_def om_serialize_def om_writeEntries_eq Let_def split: prod.splits if_splits)
  then have "master_ok E (m', w')" using assms(1) mc by (simp add: master_ok_def m' DIRTY_NONE_def)
  moreover have "om_dir s' = om_dir m"
  proof (cases "sz_dirty m1 = DIRTY_NONE")
    case True
    then have "ws = []" by (simp add: ws sz_pack_def)
    then have "s' = s" using assms(7,8) feeds_Nil [of i] by (simp add: sz_unpack_def)
    moreover have "om_added m = []" "om_removed m = []" using True mc by (auto simp: DIRTY_NONE_def)
    ultimately show ?thesis using assms(2) by (simp add: replica_ok_def fun_eq_iff)
  next
    case False
    then have dirty: "sz_isDirty m1" "om_isDirty E w' m1" by (simp_all add: sz_isDirty_def om_isDirty_def)
    have all: "sz_dirty m1 \<noteq> DIRTY_ALL" using mc by (auto simp: DIRTY_ALL_def)
    have "length (om_changed m1) < 2 ^ 64"
      using m1 assms(1,6) commitObjects_length [of E incarnation "om_masters m" m w]
      by (fastforce simp: om_commitMasters_def sz_setDirty_def master_ok_def split: option.splits if_splits)
    then have "om_proper m1" using mc assms(1,4,5) by (simp add: om_proper_def master_ok_def)
    from map_class.unpack_pack [OF this dirty(1) all, of i x ES "(s, v)"] assms(7,8) dirty
    have "om_effect ES (sz_dirty m1) m1 (s, v) = Some (s', v')" by (auto simp: ws dest!: sym [of "Some _"])
    from effect_dir [OF rep1 _ _ all _ this] mc show ?thesis by simp
  qed
  ultimately show ?thesis using m2(1) mc by (simp add: replica_ok_def m')
qed

lemma instance_ok:
  assumes "master_ok E (m, w)" and "om_added m = []" and "om_removed m = []"
    and "sz_applyInstanceData (om_deserialize ES) ([], [concat (fst (sz_getInstanceData om_serialize m))]) (omap_new, v) = Some ((s', v'), i')"
  shows "replica_ok m s'"
proof -
  have proper: "om_proper m" using assms(1-3) by (simp add: om_proper_def master_ok_def)
  have "length (ov_bytes ObjectVersion_default) = 32" by (simp add: ov_bytes_def)
  then have "concat (fst (sz_getInstanceData om_serialize m)) \<noteq> []"
    by (auto simp: sz_getInstanceData_def om_serialize_def)
  from map_class.apply_instance [OF proper this, of ES "(omap_new, v)"] assms(4)
  have s': "s' = fold put_entry (om_map m) omap_new" by (auto simp: om_effect_def)
  have "om_dir s' = om_dir m" using assms(1) fold_put_dir [of "om_map m" omap_new]
    by (auto simp: s' master_ok_def om_dir_def omap_new_def fun_eq_iff split: option.split)
  then show ?thesis using assms(2,3) by (simp add: replica_ok_def)
qed

end

lemma slave_map_dir: "om_mapObject E k r s w = Some (r', s', w') \<Longrightarrow> om_dir s' = om_dir s"
  by (auto simp: om_mapObject_def om_dir_def om_put_def update_conv' fun_eq_iff split: if_splits option.splits bool.splits prod.splits)

lemma slave_unmap_dir: "om_unmap E r s w = (b, s', w') \<Longrightarrow> om_dir s' = om_dir s"
  by (auto simp: om_unmap_def en_removeObject_def om_dir_def om_put_def update_conv' fun_eq_iff Let_def
      split: if_splits option.splits prod.splits)

lemma om_reach_ok:
  assumes "om_reach EM ES M S" and "object_handler EM"
  shows "master_ok EM M \<and> replica_ok (fst M) (fst S)"
  using assms(1)
proof induction
  case (start wm ws)
  show ?case by (simp add: master_ok_def replica_ok_def omap_new_def om_dir_def DIRTY_NONE_def)
next
  case (register m wm S r type b m' wm')
  then show ?case using object_handler.register_ok [OF assms(2), of m wm "fst S"] by simp
next
  case (deregister m wm S r b m' wm')
  then show ?case using object_handler.deregister_ok [OF assms(2), of m wm "fst S"] by simp
next
  case (commit m wm S incarnation ws m' wm' i x S' i')
  then show ?case
    using object_handler.commit_ok [OF assms(2), of m wm "fst S" incarnation ws m' wm' i x ES "snd S" "fst S'" "snd S'" i'] by simp
next
  case (instance_data m wm s w w' S' i')
  then show ?case using object_handler.instance_ok [OF assms(2), of m wm ES w' "fst S'" "snd S'" i'] by simp
next
  case (master_state m wm S wm')
  then show ?case by (simp add: master_ok_def)
next
  case (slave_state M s w w')
  then show ?case by simp
next
  case (slave_map M s w k r r' s' w')
  then show ?case using slave_map_dir [of ES k r s w] by (simp add: replica_ok_def)
next
  case (slave_unmap M s w r b s' w')
  then show ?case using slave_unmap_dir [of ES r s w] by (simp add: replica_ok_def)
qed

text \<open>
  C19 (object_map_replica): whatever objects are registered and deregistered at the master instance of an object map and
  whenever it is committed, its slave instance lists exactly the same identifiers with the same types, except for those registered
  or deregistered since the last commit; after a commit there is no exception. No identifier is both registered and
  deregistered between two commits, and registering, deregistering or committing an object does not change its identifier.
\<close>

theorem object_map_replica:
  assumes "object_handler EM" and "om_reach EM ES (m, w) (s, v)"
  shows "(\<forall>k. k \<notin> set (om_added m) \<union> set (om_removed m) \<longrightarrow> om_dir s k = om_dir m k) \<and>
    (\<forall>k \<in> set (om_added m). om_dir s k = None \<and> om_dir m k \<noteq> None) \<and>
    (\<forall>k \<in> set (om_removed m). om_dir s k \<noteq> None \<and> om_dir m k = None)"
  using om_reach_ok [OF assms(2,1)] by (simp add: replica_ok_def)

section \<open>Identifiers used twice\<close>

lemma fold_touch_mem:
  "k \<in> set ks \<or> om_dir m k \<noteq> None \<Longrightarrow> om_dir (fold (\<lambda>k m. om_put k (om_at k m) m) ks m) k \<noteq> None"
  by (induction ks arbitrary: m) auto

context object_handler
begin

lemma commit_creates_entry:
  assumes "om_commit E True incarnation m w = Some (ws, m', w')" and "\<forall>r \<in> set (om_masters m). om_dir m (oe_id E w r) \<noteq> None"
    and "k \<in> set (om_added m)" and "sz_dirty m AND DIRTY_ADDED \<noteq> 0" and "sz_dirty m AND NOT 7 = 0"
  shows "om_dir m' k \<noteq> None"
proof -
  obtain mc m1 where mc: "om_commitObjects E incarnation (om_masters m) m w = Some (mc, w')"
    and m1: "m1 = (if om_changed mc \<noteq> [] then sz_setDirty DIRTY_CHANGED mc else mc)"
    and cm: "om_commitMasters E incarnation m w = Some (m1, w')"
    using assms(1) by (auto simp: om_commit_def om_commitMasters_def split: option.splits prod.splits)
  note frame = commitObjects_frame [OF mc assms(2)]
  have dirty: "sz_dirty m1 = sz_dirty m \<or> sz_dirty m1 = sz_dirty m OR DIRTY_CHANGED" and added: "om_added m1 = om_added m"
    using frame by (simp_all add: m1 sz_setDirty_def)
  have bit: "sz_dirty m1 AND DIRTY_ADDED \<noteq> 0" using dirty assms(4) or_bit by metis
  have "sz_dirty m1 AND NOT 7 = 0" using dirty assms(5) by (auto simp: mask_or DIRTY_CHANGED_def)
  then have all: "sz_dirty m1 \<noteq> DIRTY_ALL" "sz_dirty m1 \<noteq> DIRTY_NONE" using bit by (auto simp: DIRTY_ALL_def DIRTY_NONE_def)
  then have "om_isDirty E w' m1" by (simp add: om_isDirty_def sz_isDirty_def)
  with assms(1) cm all bit have "om_dir m' = om_dir (fold (\<lambda>k m. om_put k (om_at k m) m) (om_added m1) m1)"
    by (auto simp: om_commit_def sz_commit_def sz_pack_def om_serialize_def om_writeEntries_eq Let_def split: prod.splits)
  with fold_touch_mem [of k "om_added m1" m1] added assms(3) show ?thesis by simp
qed

text \<open>
  An object registered and deregistered between two commits is back in the master's map after the commit: writing
  the added identifiers looks each of them up, which creates an entry. It can then not be registered any more.
\<close>

lemma register_deregister_ghost:
  assumes "master_ok E (m, w)" and "om_register E r type m w = (True, m1, w1)"
    and "om_deregister E r m1 w1 = (True, m2, w2)" and "om_commit E True incarnation m2 w2 = Some (ws, m3, w3)"
  shows "om_dir m2 (oe_id E w r) = None \<and> om_dir m3 (oe_id E w r) \<noteq> None"
proof -
  let ?k = "oe_id E w r"
  have new: "om_dir m ?k = None" using assms(2) by (auto simp: om_register_def om_dir_def split: if_splits)
  then have fresh: "r \<notin> set (om_masters m)" "r' \<in> set (om_masters m) \<Longrightarrow> oe_id E w r' \<noteq> ?k" for r'
    using assms(1) by (auto simp: master_ok_def)
  have m1: "?k \<in> set (om_added m1)" "sz_dirty m1 = sz_dirty m OR DIRTY_ADDED" "oe_id E w1 = oe_id E w"
    "om_masters m1 = om_masters m @ [r]" "om_dir m1 = (om_dir m)(?k \<mapsto> type)"
    using assms(2) by (auto simp: om_register_def Let_def sz_setDirty_def split: if_splits)
  have m2: "?k \<in> set (om_added m2)" "sz_dirty m2 = (sz_dirty m OR DIRTY_ADDED) OR DIRTY_REMOVED" "om_dir m2 = (om_dir m)(?k := None)"
    "om_masters m2 = om_masters m" "oe_id E w2 = oe_id E w"
    using assms(3) m1 fresh(1) om_dir_delete [where m = m1 and k = ?k]
    by (auto simp: om_deregister_def Let_def sz_setDirty_def remove1_append split: if_splits)
  have "\<forall>r' \<in> set (om_masters m2). om_dir m2 (oe_id E w2 r') \<noteq> None"
    using assms(1) fresh(2) by (auto simp: m2 master_ok_def)
  moreover have "sz_dirty m2 AND DIRTY_ADDED \<noteq> 0" "sz_dirty m2 AND NOT 7 = 0"
    using assms(1) by (simp_all add: m2(2) master_ok_def mask_or DIRTY_ADDED_def DIRTY_REMOVED_def bit.conj_disj_distrib2)
  ultimately show ?thesis using commit_creates_entry [OF assms(4) _ m2(1)] m2(3) by simp
qed

end

text \<open>
  An object deregistered and registered again between two commits is lost at the slave, which adds the identifiers first
  and then removes those deregistered.
\<close>

lemma deregister_register_lost:
  assumes "k \<in> set (om_removed m)" and "bits AND DIRTY_REMOVED \<noteq> 0" and "bits AND DIRTY_CHANGED = 0"
    and "om_effect E bits m (s, w) = Some (s', w')"
  shows "om_dir s' k = None"
proof -
  have "bits \<noteq> DIRTY_ALL" using assms(3) by (auto simp: DIRTY_ALL_def DIRTY_CHANGED_def)
  then obtain s1 where "om_removeAll E (om_removed m) s1 w = (s', w')"
    using assms(2-4) by (auto simp: om_effect_def Let_def split: if_splits prod.splits)
  with om_removeAll_dir [of E "om_removed m" s1 w] assms(1) show ?thesis by (metis fst_conv)
qed

end
