(* ===== verification/Object_Replica.thy ===== *)
theory Object_Replica
  imports Object_Map_Facts Store_Properties
begin

text \<open>
  The handler of an object map is the local node, which passes the calls on to its object store: registration,
  deregistration and commits of \<open>Object_Store\<close> and the change managers fulfil what the map relies on.
\<close>

section \<open>Versioning of objects\<close>

text \<open>
  \<^verbatim>\<open>Object::commit\<close>, passed to the change manager: what the application's \<open>pack\<close> and \<open>getInstanceData\<close> write are
  arguments, \<open>reachable\<close> whether the master node of a slave is.
\<close>

fun cg_commit ::
  "global_config \<Rightarrow> pression \<Rightarrow> bool \<Rightarrow> bool \<Rightarrow> uint32 \<Rightarrow> bytes list \<Rightarrow> bytes list \<Rightarrow> change_manager \<Rightarrow>
   (uint128 \<times> change_manager) option" where
  "cg_commit G P dirty reachable incarnation packData data (UnbufferedMasterCM m) =
     (case um_commit G P dirty packData m of None \<Rightarrow> None | Some (v, m, sent) \<Rightarrow> Some (v, UnbufferedMasterCM m))"
| "cg_commit G P dirty reachable incarnation packData data (FullMasterCM m) =
     (case fm_commit G P dirty incarnation data m of None \<Rightarrow> None | Some (v, m) \<Rightarrow> Some (v, FullMasterCM m))"
| "cg_commit G P dirty reachable incarnation packData data (DeltaMasterCM m) =
     (case dm_commit G P dirty incarnation packData data m of None \<Rightarrow> None | Some (v, m) \<Rightarrow> Some (v, DeltaMasterCM m))"
| "cg_commit G P dirty reachable incarnation packData data (VersionedSlaveCM s) =
     (case sv_commit G P dirty reachable packData s of (v, s) \<Rightarrow> Some (v, VersionedSlaveCM s))"
| "cg_commit G P dirty reachable incarnation packData data cm = Some (VERSION_NONE, cm)"

fun cg_sync :: "uint128 \<Rightarrow> change_manager \<Rightarrow> (uint128 \<times> change_manager) option" where
  "cg_sync version (UnbufferedMasterCM m) =
     (case vm_sync version m of None \<Rightarrow> None | Some (v, m) \<Rightarrow> Some (v, UnbufferedMasterCM m))"
| "cg_sync version (FullMasterCM m) = (case vm_sync version m of None \<Rightarrow> None | Some (v, m) \<Rightarrow> Some (v, FullMasterCM m))"
| "cg_sync version (DeltaMasterCM m) = (case vm_sync version m of None \<Rightarrow> None | Some (v, m) \<Rightarrow> Some (v, DeltaMasterCM m))"
| "cg_sync version (VersionedSlaveCM s) =
     (case sv_sync version s of None \<Rightarrow> None | Some (v, s) \<Rightarrow> Some (v, VersionedSlaveCM s))"
| "cg_sync version cm = Some (VERSION_FIRST, cm)"

definition ob_sync :: "uint128 \<Rightarrow> store_object \<Rightarrow> (uint128 \<times> store_object) option" where
  "ob_sync version o' =
     (if version = VERSION_NONE then Some (cg_getVersion (ob_cm o'), o')
      else case cg_sync version (ob_cm o') of None \<Rightarrow> None | Some (v, cm) \<Rightarrow> Some (v, o'\<lparr>ob_cm := cm\<rparr>))"

section \<open>The object store as handler\<close>

text \<open>
  A process as an object map sees it: the object store, which objects are dirty and what they pack. Mapping an object needs its
  master, the factory is the application's; both are arguments.
\<close>

record store_world =
  sw_store :: object_store
  sw_dirty :: "nat \<Rightarrow> bool"
  sw_pack :: "nat \<Rightarrow> bytes list"

definition sw_update :: "(object_store \<Rightarrow> object_store) \<Rightarrow> store_world \<Rightarrow> store_world" where
  "sw_update f w = w\<lparr>sw_store := f (sw_store w)\<rparr>"

definition sw_onObject ::
  "(store_object \<Rightarrow> (uint128 \<times> store_object) option) \<Rightarrow> nat \<Rightarrow> store_world \<Rightarrow> (uint128 \<times> store_world) option" where
  "sw_onObject f r w =
     (case f (st_object (sw_store w) r) of
        None \<Rightarrow> None
      | Some (v, o') \<Rightarrow> Some (v, sw_update (st_update r (\<lambda>_. o')) w))"

definition store_handler ::
  "global_config \<Rightarrow> pression \<Rightarrow> store_config \<Rightarrow> uint32 \<Rightarrow> (node \<Rightarrow> bool) \<Rightarrow>
   (nat \<Rightarrow> uint128 \<Rightarrow> uint128 \<Rightarrow> store_world \<Rightarrow> (bool \<times> store_world) option) \<Rightarrow>
   (uint32 \<Rightarrow> store_world \<Rightarrow> nat option \<times> store_world) \<Rightarrow> (nat \<Rightarrow> uint32 \<Rightarrow> store_world \<Rightarrow> store_world) \<Rightarrow> store_world object_env" where
  "store_handler G P C rid reachable mapping create destroy =
     \<lparr>oe_register = (\<lambda>r. sw_update (\<lambda>st. fst (st_register G P C r st))),
      oe_deregister = (\<lambda>r. sw_update (\<lambda>st. fst (st_deregister G P C rid r st))),
      oe_map = mapping,
      oe_unmap = (\<lambda>r. sw_update (\<lambda>st. fst (st_unmap G P rid reachable r st))),
      oe_create = create, oe_destroy = destroy,
      oe_id = (\<lambda>w r. ob_id (st_object (sw_store w) r)),
      oe_version = (\<lambda>w r. cg_getVersion (ob_cm (st_object (sw_store w) r))),
      oe_isDirty = sw_dirty,
      oe_isStatic = (\<lambda>w r. ob_changeType (st_object (sw_store w) r) = CHANGE_STATIC),
      oe_isMaster = (\<lambda>w r. ob_isMaster (st_object (sw_store w) r)),
      oe_commit = (\<lambda>incarnation r w. sw_onObject (\<lambda>o'.
        map_option (\<lambda>(v, cm). (v, o'\<lparr>ob_cm := cm\<rparr>))
          (cg_commit G P (sw_dirty w r)
            (case cg_getMasterNode (ob_cm o') of None \<Rightarrow> False | Some n \<Rightarrow> reachable n) incarnation (sw_pack w r) (ob_instanceData o') (ob_cm o')))
        r w),
      oe_sync = (\<lambda>version. sw_onObject (ob_sync version))\<rparr>"

lemma ob_id_setup [simp]: "ob_id (ob_setupChangeManager G P type master localNode i o') = ob_id o'"
  by (simp add: ob_setupChangeManager_def Let_def)

lemma register_ids: "ob_id (st_object (fst (st_register G P C r st)) r') = ob_id (st_object st r')"
  by (simp add: st_register_def st_attach_def st_update_def ob_attach_def Let_def split: prod.splits)

lemma deregister_ids: "ob_id (st_object (fst (st_deregister G P C rid r st)) r') = ob_id (st_object st r')"
  by (simp add: st_deregister_def st_detach_def st_update_def ob_detach_def st_onCache_def st_cmdDeregister_def st_registerRequest_def
      st_serveRequest_def st_getRequestData_def Let_def split: option.splits request_data.splits prod.splits)

interpretation store_map: object_handler "store_handler G P C rid reachable mapping create destroy"
  for G P C rid reachable mapping create destroy
  by unfold_locales
     (auto simp: store_handler_def sw_update_def sw_onObject_def register_ids deregister_ids st_update_def fun_eq_iff split: option.splits prod.splits)

section \<open>An example\<close>

definition sample_handler :: "store_world object_env" where
  "sample_handler = store_handler sample_config sample_pression sample_store_config 9 (\<lambda>_. True)
     (\<lambda>r i v w. None) (\<lambda>type w. (None, w)) (\<lambda>r type w. w)"

definition sample_world :: store_world where
  "sample_world =
     \<lparr>sw_store = st_new \<lparr>nd_id = 3, nd_outgoing = True, nd_multicast = None\<rparr> 100 sample_object, sw_dirty = (\<lambda>_. False), sw_pack = (\<lambda>_. [])\<rparr>"

definition replica_master :: object_map where
  "replica_master = fst (snd (om_register sample_handler 0 16 omap_new sample_world))"

definition sample_world1 :: store_world where
  "sample_world1 = oe_register sample_handler 0 sample_world"

lemma replica_register: "om_register sample_handler 0 16 omap_new sample_world = (True, replica_master, sample_world1)"
  by (simp add: replica_master_def sample_world1_def om_register_def omap_new_def Let_def)

lemma replica_ids: "oe_id sample_handler sample_world 0 = 20" "oe_id sample_handler sample_world1 0 = 20"
  using store_map.register_id [of sample_config sample_pression sample_store_config 9 "\<lambda>_. True" "\<lambda>r i v w. None" "\<lambda>type w. (None, w)"
      "\<lambda>r type w. w" 0 sample_world]
  by (simp_all add: sample_handler_def [symmetric] sample_world1_def)
     (simp_all add: sample_handler_def store_handler_def sample_world_def st_new_def sample_object_def)

lemma replica_clean: "oe_isDirty sample_handler sample_world1 r = False"
  by (simp add: sample_handler_def store_handler_def sample_world1_def sample_world_def sw_update_def)

lemma replica_master_fields:
  "om_added replica_master = [20]" "om_removed replica_master = []" "om_changed replica_master = []" "om_masters replica_master = [0]"
  "sz_dirty replica_master = 1" "om_dir replica_master = [20 \<mapsto> 16]"
  using replica_ids by (simp_all add: replica_master_def om_register_def omap_new_def Let_def sz_setDirty_def sample_world1_def [symmetric]
    DIRTY_NONE_def DIRTY_ADDED_def om_put_def om_dir_def fun_eq_iff)

lemma replica_commit:
  "om_commit sample_handler True 0 replica_master sample_world1 =
     Some (fst (sz_pack om_serialize replica_master),
       (om_put 20 (om_at 20 replica_master) replica_master)\<lparr>sz_dirty := 0, om_added := [], om_removed := [], om_changed := []\<rparr>, sample_world1)"
  by (simp add: om_commit_def om_commitMasters_def sz_commit_def replica_master_fields replica_clean om_isDirty_def sz_isDirty_def
      DIRTY_NONE_def DIRTY_ALL_def DIRTY_ADDED_def sz_pack_def om_serialize_def om_writeEntries_eq Let_def)

theorem object_map_replica_witness:
  "\<exists>m w s v. om_reach sample_handler sample_handler (m, w) (s, v) \<and> om_added m = [] \<and> om_dir s 20 = Some 16"
proof -
  define ws where "ws = fst (sz_pack om_serialize replica_master)"
  have feed: "feeds ([], [concat ws]) ws" by (rule feeds_single) simp
  have "om_reach sample_handler sample_handler (replica_master, sample_world1) (omap_new, sample_world)"
    by (rule om_reach.register [OF om_reach.start _ _ replica_register]) (simp_all add: replica_ids omap_new_def)
  moreover have "om_proper replica_master" by (simp add: om_proper_def replica_master_fields)
  from map_class.unpack_pack [OF this, of "([], [concat ws])" 0 sample_handler "(omap_new, sample_world)"] feed
  obtain i' S' where "sz_unpack 0 (om_deserialize sample_handler) ([], [concat ws]) (omap_new, sample_world) = Some (S', i')"
    by (auto simp: ws_def replica_master_fields sz_isDirty_def DIRTY_NONE_def DIRTY_ALL_def om_effect_def DIRTY_ADDED_def
        DIRTY_REMOVED_def DIRTY_CHANGED_def)
  ultimately have reach: "om_reach sample_handler sample_handler
     ((om_put 20 (om_at 20 replica_master) replica_master)\<lparr>sz_dirty := 0, om_added := [], om_removed := [], om_changed := []\<rparr>, sample_world1)
     (fst S', snd S')"
    by (intro om_reach.commit [OF _ replica_commit, where i = "([], [concat ws])" and x = 0 and S = "(omap_new, sample_world)" and i' = i'])
      (simp_all add: feed [unfolded ws_def] ws_def replica_master_fields)
  have "object_handler sample_handler" unfolding sample_handler_def by (rule store_map.object_handler_axioms)
  from object_map_replica [OF this reach] have "om_dir (fst S') 20 = Some 16"
    using om_dir_at [of replica_master 20 16] by (simp add: replica_master_fields)
  with reach show ?thesis by fastforce
qed

end
