(* ===== verification/Connection_IO.thy ===== *)
theory Connection_IO
  imports Commands "HOL-Library.Sublist"
begin

text \<open>
  Sending and receiving on a connection: \<^verbatim>\<open>src/co/connection.cpp\<close>, whose loops turn partial transfers into
  whole ones, on the file descriptors of \<^verbatim>\<open>src/co/fdConnection.cpp\<close>, and the way a local node reads commands
  off a connection, \<^verbatim>\<open>src/co/localNode.cpp\<close>. The transport of a connection is an argument of the
  loops; what they rely on is the locale \<open>byte_transport\<close>, interpreted on file descriptors. What the
  operating system does in the calls to come is a list; a loop that needs another call is \<^term>\<open>None\<close>.
\<close>

section \<open>Connection\<close>

datatype connection_state = CLOSED | CONNECTING | CONNECTED | LISTENING | CLOSING

record conn =
  cn_state :: connection_state
  cn_buffer :: "bytes option"
  cn_bytes :: nat

text \<open>What \<open>readSync\<close> and \<open>write\<close> of a transport return: negative values, transferred bytes, or an exception.\<close>

datatype read_outcome = READ_TIMEOUT | READ_ERROR | Got bytes | ReadThrow
datatype write_outcome = WriteError | Wrote nat | WriteThrow

definition cn_recvNB :: "bytes \<Rightarrow> nat \<Rightarrow> 'a conn_scheme \<Rightarrow> 'a conn_scheme" where
  "cn_recvNB buffer bytes c = c\<lparr>cn_buffer := Some buffer, cn_bytes := bytes\<rparr>"

definition cn_resetRecvData :: "'a conn_scheme \<Rightarrow> bytes option \<times> 'a conn_scheme" where
  "cn_resetRecvData c = (cn_buffer c, c\<lparr>cn_buffer := None, cn_bytes := 0\<rparr>)"

text \<open>
  The loop of \<open>recvSync\<close>: \<open>got\<close> is the outcome of the last read, \<open>data\<close> what has been read before. The result is
  \<^term>\<open>None\<close> for an exception, else whether everything was read.
\<close>

fun cn_recvLoop ::
  "('c \<Rightarrow> nat \<Rightarrow> 'a conn_scheme \<Rightarrow> read_outcome \<times> 'a conn_scheme) \<Rightarrow> 'c list \<Rightarrow> nat \<Rightarrow> nat \<Rightarrow> read_outcome \<Rightarrow> bytes \<Rightarrow>
   'a conn_scheme \<Rightarrow> (bool option \<times> bytes \<times> 'a conn_scheme \<times> 'c list) option" where
  "cn_recvLoop readSync calls bytes bytesLeft ReadThrow data c = Some (None, data, c, calls)"
| "cn_recvLoop readSync calls bytes bytesLeft READ_TIMEOUT data c = Some (Some False, data, c, calls)"
| "cn_recvLoop readSync calls bytes bytesLeft READ_ERROR data c = Some (Some False, data, c, calls)"
| "cn_recvLoop readSync [] bytes bytesLeft (Got bs) data c =
     (if bs = [] \<and> bytes = bytesLeft then Some (Some False, data, c, [])
      else if bytesLeft > length bs then None
      else Some (Some True, data @ bs, c, []))"
| "cn_recvLoop readSync (call # calls) bytes bytesLeft (Got bs) data c =
     (if bs = [] \<and> bytes = bytesLeft then Some (Some False, data, c, call # calls)
      else if bytesLeft > length bs then
        (case readSync call (bytesLeft - length bs) c of
           (got, c) \<Rightarrow> cn_recvLoop readSync calls bytes (bytesLeft - length bs) got (data @ bs) c)
      else Some (Some True, data @ bs, c, call # calls))"

definition cn_recvSync ::
  "('c \<Rightarrow> nat \<Rightarrow> 'a conn_scheme \<Rightarrow> read_outcome \<times> 'a conn_scheme) \<Rightarrow> 'c list \<Rightarrow> 'a conn_scheme \<Rightarrow>
   (bool option \<times> bytes option \<times> 'a conn_scheme \<times> 'c list) option" where
  "cn_recvSync readSync calls c =
     (let c' = c\<lparr>cn_buffer := None, cn_bytes := 0\<rparr>
      in case cn_buffer c of
           None \<Rightarrow> Some (Some False, None, c', calls)
         | Some outBuffer \<Rightarrow>
             if cn_state c \<noteq> CONNECTED \<or> cn_bytes c = 0 then Some (Some False, Some outBuffer, c', calls)
             else case calls of
               [] \<Rightarrow> None
             | call # calls \<Rightarrow>
                 (case readSync call (cn_bytes c) c' of
                    (got, c') \<Rightarrow>
                      if got = READ_TIMEOUT
                      then Some (Some True, None, c'\<lparr>cn_buffer := Some outBuffer, cn_bytes := cn_bytes c\<rparr>, calls)
                      else (case cn_recvLoop readSync calls (cn_bytes c) (cn_bytes c) got [] c' of
                              None \<Rightarrow> None
                            | Some (ok, data, c', calls) \<Rightarrow> Some (ok, Some (outBuffer @ data), c', calls))))"

text \<open>\<^verbatim>\<open>send\<close>: an error or a timeout closes the connection.\<close>

fun cn_send ::
  "('c \<Rightarrow> bytes \<Rightarrow> 'a conn_scheme \<Rightarrow> write_outcome \<times> 'a conn_scheme) \<Rightarrow> ('a conn_scheme \<Rightarrow> 'a conn_scheme) \<Rightarrow> 'c list \<Rightarrow> bytes \<Rightarrow>
   'a conn_scheme \<Rightarrow> (bool \<times> 'a conn_scheme \<times> 'c list) option" where
  "cn_send write close calls [] c = Some (True, c, calls)"
| "cn_send write close [] (b # bs) c = None"
| "cn_send write close (call # calls) (b # bs) c =
     (case write call (b # bs) c of
        (Wrote n, c) \<Rightarrow> cn_send write close calls (drop n (b # bs)) c
      | (_, c) \<Rightarrow> Some (False, close c, calls))"

section \<open>FDConnection\<close>

text \<open>
  One call of \<open>read\<close> or \<open>write\<close> transfers up to some number of bytes, would block, is interrupted or fails;
  \<open>poll\<close> reports readiness, a timeout or an error. A call of \<open>readSync\<close> or \<open>write\<close> makes up to three of them.
\<close>

datatype sys_result = SysBytes nat | SysAgain | SysIntr | SysError
datatype poll_result = PollReady | PollTimeout | PollError
type_synonym fd_call = "sys_result \<times> poll_result \<times> sys_result"

text \<open>
  The descriptors, the bytes the system has for reading and those written, and whether the stream is broken: a
  stream that failed once delivers nothing any more.
\<close>

record fd_conn = conn +
  fd_readFD :: bool
  fd_writeFD :: bool
  fd_input :: bytes
  fd_output :: bytes
  fd_broken :: bool

definition fd_close :: "fd_conn \<Rightarrow> fd_conn" where
  "fd_close c = (if cn_state c = CLOSED then c else c\<lparr>cn_state := CLOSED, fd_readFD := False, fd_writeFD := False\<rparr>)"

definition sys_read :: "sys_result \<Rightarrow> nat \<Rightarrow> fd_conn \<Rightarrow> (sys_result \<times> bytes) \<times> fd_conn" where
  "sys_read r n c =
     (case r of
        SysBytes k \<Rightarrow>
          if fd_broken c then ((SysError, []), c)
          else (let bs = take (min k n) (fd_input c)
                in ((SysBytes (length bs), bs), c\<lparr>fd_input := drop (min k n) (fd_input c)\<rparr>))
      | SysError \<Rightarrow> ((SysError, []), c\<lparr>fd_broken := True\<rparr>)
      | r \<Rightarrow> ((r, []), c))"

text \<open>What \<open>readSync\<close> makes of its last call to \<open>read\<close>.\<close>

definition fd_readDone :: "(sys_result \<times> bytes) \<times> fd_conn \<Rightarrow> read_outcome \<times> fd_conn" where
  "fd_readDone x =
     (case x of ((r, bs), c) \<Rightarrow>
        (case r of
           SysBytes k \<Rightarrow> if k > 0 then (Got bs, c) else (READ_ERROR, fd_close c)
         | SysIntr \<Rightarrow> (Got [], c)
         | _ \<Rightarrow> (READ_ERROR, c)))"

definition fd_readSync :: "fd_call \<Rightarrow> nat \<Rightarrow> fd_conn \<Rightarrow> read_outcome \<times> fd_conn" where
  "fd_readSync call n c =
     (if \<not> fd_readFD c then (READ_ERROR, c)
      else case call of (r1, p, r2) \<Rightarrow>
        (case sys_read r1 n c of ((r, bs), c) \<Rightarrow>
           if r = SysBytes 0 \<or> r = SysAgain then
             (case p of
                PollError \<Rightarrow> (READ_ERROR, c)
              | PollTimeout \<Rightarrow> (ReadThrow, c)
              | PollReady \<Rightarrow> fd_readDone (sys_read r2 n c))
           else fd_readDone ((r, bs), c)))"

definition sys_write :: "sys_result \<Rightarrow> bytes \<Rightarrow> fd_conn \<Rightarrow> sys_result \<times> fd_conn" where
  "sys_write r bs c =
     (case r of
        SysBytes k \<Rightarrow>
          (let ws = take k bs in (SysBytes (length ws), c\<lparr>fd_output := fd_output c @ ws\<rparr>))
      | r \<Rightarrow> (r, c))"

definition fd_writeDone :: "sys_result \<times> fd_conn \<Rightarrow> write_outcome \<times> fd_conn" where
  "fd_writeDone x =
     (case x of (r, c) \<Rightarrow>
        (case r of
           SysBytes k \<Rightarrow> (Wrote k, c)
         | SysIntr \<Rightarrow> (Wrote 0, c)
         | _ \<Rightarrow> (WriteError, c)))"

definition fd_write :: "fd_call \<Rightarrow> bytes \<Rightarrow> fd_conn \<Rightarrow> write_outcome \<times> fd_conn" where
  "fd_write call bs c =
     (if cn_state c \<noteq> CONNECTED \<or> \<not> fd_writeFD c then (WriteError, c)
      else case call of (w1, p, w2) \<Rightarrow>
        (case sys_write w1 bs c of (w, c) \<Rightarrow>
           if w = SysBytes 0 \<or> w = SysAgain then
             (case p of
                PollError \<Rightarrow> (WriteError, c)
              | PollTimeout \<Rightarrow> (WriteThrow, c)
              | PollReady \<Rightarrow> fd_writeDone (sys_write w2 bs c))
           else fd_writeDone (w, c)))"

section \<open>Reading commands\<close>

text \<open>
  \<^verbatim>\<open>_setupCommand\<close> on a little-endian machine: \<open>node\<close> is the node of the connection and whether it is big-endian.
  The commands that come before the node is known tell the order of their bytes by their number, whose own bytes
  are always in little-endian order.
\<close>

definition im_preNode :: "pression \<Rightarrow> NodeID \<Rightarrow> bytes \<Rightarrow> bool \<Rightarrow> icommand" where
  "im_preNode P local buffer swap = (im_new P local 0 (Some buffer) swap)\<lparr>im_remote := None\<rparr>"

definition CMD_NODE_CONNECT :: uint32 where "CMD_NODE_CONNECT = 0"
definition CMD_NODE_CONNECT_BE :: uint32 where "CMD_NODE_CONNECT_BE = 1"
definition CMD_NODE_CONNECT_REPLY :: uint32 where "CMD_NODE_CONNECT_REPLY = 2"
definition CMD_NODE_CONNECT_REPLY_BE :: uint32 where "CMD_NODE_CONNECT_REPLY_BE = 3"
definition CMD_NODE_ID :: uint32 where "CMD_NODE_ID = 4"
definition CMD_NODE_ID_BE :: uint32 where "CMD_NODE_ID_BE = 5"

definition ln_setupCommand :: "pression \<Rightarrow> NodeID \<Rightarrow> (NodeID \<times> bool) option \<Rightarrow> bytes \<Rightarrow> icommand" where
  "ln_setupCommand P local node buffer =
     (case node of
        Some (remote, swapping) \<Rightarrow> im_new P local remote (Some buffer) swapping
      | None \<Rightarrow>
          (let command = im_preNode P local buffer False; cmd = im_cmd command
           in if cmd = CMD_NODE_CONNECT \<or> cmd = CMD_NODE_CONNECT_REPLY \<or> cmd = CMD_NODE_ID then im_setCommand cmd command
              else if cmd = CMD_NODE_CONNECT_BE \<or> cmd = CMD_NODE_CONNECT_REPLY_BE \<or> cmd = CMD_NODE_ID_BE
              then im_setCommand cmd (im_preNode P local buffer True)
              else im_empty))"

definition ln_commandSize :: "pression \<Rightarrow> NodeID \<Rightarrow> (NodeID \<times> bool) option \<Rightarrow> bytes \<Rightarrow> nat" where
  "ln_commandSize P local node buffer = unat (im_size (ln_setupCommand P local node buffer))"

text \<open>
  \<^verbatim>\<open>_readHead\<close>, \<^verbatim>\<open>_readTail\<close> and \<^verbatim>\<open>_handleData\<close>; \<open>getSize\<close> is the size of the command that starts with the bytes
  of a buffer, \<^const>\<open>ln_commandSize\<close> in the code. The result is the buffer of the command to dispatch; after an exception the receiver thread is gone.
\<close>

definition ln_readHead ::
  "('c \<Rightarrow> nat \<Rightarrow> 'a conn_scheme \<Rightarrow> read_outcome \<times> 'a conn_scheme) \<Rightarrow> 'c list \<Rightarrow> 'a conn_scheme \<Rightarrow>
   (bytes option option \<times> 'a conn_scheme \<times> 'c list) option" where
  "ln_readHead readSync calls c =
     (case cn_recvSync readSync calls c of
        None \<Rightarrow> None
      | Some (None, b, c, calls) \<Rightarrow> Some (None, c, calls)
      | Some (Some gotSize, None, c, calls) \<Rightarrow> Some (Some None, c, calls)
      | Some (Some gotSize, Some buffer, c, calls) \<Rightarrow>
          if gotSize then Some (Some (Some buffer), c, calls)
          else Some (Some None, cn_recvNB [] COMMAND_MINSIZE c, calls))"

definition ln_readTail ::
  "('c \<Rightarrow> nat \<Rightarrow> 'a conn_scheme \<Rightarrow> read_outcome \<times> 'a conn_scheme) \<Rightarrow> 'c list \<Rightarrow> nat \<Rightarrow> bytes \<Rightarrow> 'a conn_scheme \<Rightarrow>
   (bool option \<times> bytes option \<times> 'a conn_scheme \<times> 'c list) option" where
  "ln_readTail readSync calls needed buffer c =
     (if needed \<le> length buffer then Some (Some True, Some buffer, c, calls)
      else cn_recvSync readSync calls (cn_recvNB buffer (needed - length buffer) c))"

definition ln_handleData ::
  "('c \<Rightarrow> nat \<Rightarrow> 'a conn_scheme \<Rightarrow> read_outcome \<times> 'a conn_scheme) \<Rightarrow> (bytes \<Rightarrow> nat) \<Rightarrow> 'c list \<Rightarrow> 'a conn_scheme \<Rightarrow>
   (bytes option option \<times> 'a conn_scheme \<times> 'c list) option" where
  "ln_handleData readSync getSize calls c =
     (case ln_readHead readSync calls c of
        Some (Some (Some buffer), c, calls) \<Rightarrow>
          (case ln_readTail readSync calls (getSize buffer) buffer c of
             None \<Rightarrow> None
           | Some (None, b, c, calls) \<Rightarrow> Some (None, c, calls)
           | Some (Some gotCommand, b, c, calls) \<Rightarrow>
               Some (Some (if gotCommand then Some (case b of None \<Rightarrow> buffer | Some b \<Rightarrow> b) else None), cn_recvNB [] COMMAND_MINSIZE c, calls))
      | x \<Rightarrow> x)"

end
