(* ===== verification/Command_Framing.thy ===== *)
theory Command_Framing
  imports Connection_IO
begin

text \<open>
  Commands on a byte stream: however the operating system splits what is sent, the receiver gets the commands whole
  and in order. What the receive loop needs of its transport is a locale, interpreted on file descriptors.
\<close>

section \<open>Frames\<close>

text \<open>
  A command on the wire: at least the minimal number of bytes, and as many as the size in front says.
\<close>

definition frame :: "(bytes \<Rightarrow> nat) \<Rightarrow> bytes \<Rightarrow> bool" where
  "frame getSize w \<longleftrightarrow> COMMAND_MINSIZE \<le> length w \<and> length w = max COMMAND_MINSIZE (getSize (take COMMAND_MINSIZE w))"

lemma frame_unique:
  assumes "frame getSize w" and "frame getSize w'" and "w @ x = w' @ x'"
  shows "w = w' \<and> x = x'"
proof -
  have "COMMAND_MINSIZE \<le> length w" "COMMAND_MINSIZE \<le> length w'" using assms(1,2) unfolding frame_def by blast+
  then have "take COMMAND_MINSIZE w = take COMMAND_MINSIZE (w @ x)" "take COMMAND_MINSIZE w' = take COMMAND_MINSIZE (w' @ x')"
    by simp_all
  with assms have "length w = length w'" unfolding frame_def by metis
  with assms(3) show ?thesis by simp
qed

lemma frame_nonempty: "frame getSize w \<Longrightarrow> w \<noteq> []"
  by (auto simp: frame_def COMMAND_MINSIZE_def)

text \<open>What the commands put on the wire is a frame, for a receiver that knows the node and for one that does not.\<close>

lemma commandSize_node:
  assumes "b = om_header (of_nat n) type cmd @ r" and "16 \<le> n" and "n < 2 ^ 64"
  shows "ln_commandSize P local (Some (remote, False)) b = n"
  using im_new_loaded [OF assms] assms(3) by (simp add: ln_commandSize_def ln_setupCommand_def im_loaded_def unat_of_nat)

lemma commandSize_preNode:
  assumes "b = om_header (of_nat n) type cmd @ r" and "16 \<le> n" and "n < 2 ^ 64"
    and "cmd = CMD_NODE_CONNECT \<or> cmd = CMD_NODE_CONNECT_REPLY \<or> cmd = CMD_NODE_ID"
  shows "ln_commandSize P local None b = n"
  using im_new_loaded [OF assms(1-3)] assms(3,4)
  by (auto simp: ln_commandSize_def ln_setupCommand_def im_preNode_def Let_def im_setCommand_def im_loaded_def unat_of_nat)

lemma command_frame:
  assumes "w = om_header (of_nat (16 + length r)) type cmd @ r @ padding" and "16 + length r < 2 ^ 64"
    and "length padding = COMMAND_MINSIZE - (16 + length r)"
    and "node = Some (remote, False) \<or> node = None \<and> (cmd = CMD_NODE_CONNECT \<or> cmd = CMD_NODE_CONNECT_REPLY \<or> cmd = CMD_NODE_ID)"
  shows "frame (ln_commandSize P local node) w"
proof -
  have "take COMMAND_MINSIZE w = om_header (of_nat (16 + length r)) type cmd @ take (COMMAND_MINSIZE - 16) (r @ padding)"
    by (simp add: assms(1) COMMAND_MINSIZE_def)
  then have "ln_commandSize P local node (take COMMAND_MINSIZE w) = 16 + length r"
    using assms(2,4) commandSize_node commandSize_preNode by (metis le_add1)
  moreover have "length w = max COMMAND_MINSIZE (16 + length r)" using assms(1,3) by (simp add: max_def)
  ultimately show ?thesis unfolding frame_def by simp
qed

section \<open>Transports\<close>

text \<open>
  \<open>input\<close> are the bytes to be read, \<open>dead\<close> holds after an error, \<open>ok\<close> excludes calls that are interrupted or
  wake up for nothing, and calls that satisfy \<open>brings\<close> find the data that is there.
\<close>

locale byte_transport =
  fixes readSync :: "'c \<Rightarrow> nat \<Rightarrow> 'a conn_scheme \<Rightarrow> read_outcome \<times> 'a conn_scheme"
    and input :: "'a conn_scheme \<Rightarrow> bytes" and dead :: "'a conn_scheme \<Rightarrow> bool"
    and ok :: "'c \<Rightarrow> bool" and brings :: "'c \<Rightarrow> bool"
  assumes got: "ok call \<Longrightarrow> 0 < n \<Longrightarrow> readSync call n c = (Got bs, c') \<Longrightarrow>
      bs \<noteq> [] \<and> length bs \<le> n \<and> input c = bs @ input c' \<and> cn_state c' = cn_state c \<and> \<not> dead c \<and> \<not> dead c'"
    and error: "ok call \<Longrightarrow> cn_state c = CONNECTED \<Longrightarrow> readSync call n c = (READ_ERROR, c') \<Longrightarrow> dead c'"
    and no_timeout: "ok call \<Longrightarrow> fst (readSync call n c) \<noteq> READ_TIMEOUT"
    and brings: "brings call \<Longrightarrow> 0 < n \<Longrightarrow> input c \<noteq> [] \<Longrightarrow> \<not> dead c \<Longrightarrow> \<exists>bs c'. readSync call n c = (Got bs, c')"
    and brings_ok: "brings call \<Longrightarrow> ok call"
    and input_frame [simp]: "input (c\<lparr>cn_buffer := b, cn_bytes := n\<rparr>) = input c"
    and dead_frame [simp]: "dead (c\<lparr>cn_buffer := b, cn_bytes := n\<rparr>) = dead c"
begin

lemma recvLoop_spec:
  assumes "cn_recvLoop readSync calls bytes bytesLeft (Got bs) data c = Some (r, data', c', calls')"
    and "\<forall>call \<in> set calls. ok call" and "bs \<noteq> []" and "length bs \<le> bytesLeft" and "\<not> dead c" and "cn_state c = CONNECTED"
  shows "(r = Some True \<longrightarrow> (\<exists>ds. data' = data @ bs @ ds \<and> length (bs @ ds) = bytesLeft \<and> input c = ds @ input c' \<and>
      cn_state c' = cn_state c \<and> \<not> dead c')) \<and> (r = Some False \<longrightarrow> dead c') \<and> set calls' \<subseteq> set calls"
  using assms
proof (induction calls arbitrary: bytesLeft bs data c)
  case Nil
  then show ?case by (auto split: if_splits)
next
  case (Cons call calls)
  show ?case
  proof (cases "bytesLeft > length bs")
    case False
    with Cons.prems show ?thesis by (auto split: if_splits)
  next
    case True
    obtain o' c1 where o': "readSync call (bytesLeft - length bs) c = (o', c1)" by force
    with Cons.prems(1,3) True have run: "cn_recvLoop readSync calls bytes (bytesLeft - length bs) o' (data @ bs) c1 = Some (r, data', c', calls')"
      by simp
    show ?thesis
    proof (cases o')
      case READ_TIMEOUT
      with o' no_timeout [of call] Cons.prems(2) show ?thesis by (metis fst_conv list.set_intros(1))
    next
      case READ_ERROR
      with o' error [of call c] Cons.prems(2,6) have "dead c1" by simp
      with run READ_ERROR show ?thesis by auto
    next
      case (Got bs')
      have g: "bs' \<noteq> [] \<and> length bs' \<le> bytesLeft - length bs \<and> input c = bs' @ input c1 \<and> cn_state c1 = cn_state c \<and> \<not> dead c \<and> \<not> dead c1"
        using got [of call "bytesLeft - length bs" c bs' c1] o' Got Cons.prems(2) True by simp
      with Cons.IH [of "bytesLeft - length bs" bs' "data @ bs" c1] run Got Cons.prems(2,6) True show ?thesis by auto
    next
      case ReadThrow
      with run show ?thesis by auto
    qed
  qed
qed

lemma recvSync_spec:
  assumes "cn_recvSync readSync calls c = Some (r, ob, c', calls')" and "\<forall>call \<in> set calls. ok call"
    and "cn_buffer c = Some b" and "0 < cn_bytes c"
  shows "(r = Some True \<longrightarrow> (\<exists>ds. ob = Some (b @ ds) \<and> length ds = cn_bytes c \<and> input c = ds @ input c' \<and> cn_state c' = CONNECTED \<and>
      \<not> dead c \<and> \<not> dead c')) \<and> (r = Some False \<longrightarrow> ob \<noteq> None \<and> (dead c' \<or> cn_state c \<noteq> CONNECTED \<and> cn_state c' = cn_state c \<and> input c' = input c \<and> dead c' = dead c)) \<and>
    set calls' \<subseteq> set calls"
proof (cases "cn_state c = CONNECTED")
  case False
  with assms have "r = Some False" "ob = Some b" "c' = c\<lparr>cn_buffer := None, cn_bytes := 0\<rparr>" "calls' = calls"
    by (auto simp: cn_recvSync_def Let_def)
  with False show ?thesis by simp
next
  case True
  with assms obtain call cs where calls: "calls = call # cs" by (cases calls) (auto simp: cn_recvSync_def Let_def)
  define c0 where "c0 = c\<lparr>cn_buffer := None, cn_bytes := 0\<rparr>"
  have c0: "input c0 = input c" "dead c0 = dead c" "cn_state c0 = cn_state c" by (simp_all add: c0_def)
  obtain o' c1 where o': "readSync call (cn_bytes c) c0 = (o', c1)" by force
  have okc: "ok call" "\<forall>call \<in> set cs. ok call" using assms(2) calls by simp_all
  have nt: "o' \<noteq> READ_TIMEOUT" using no_timeout [OF okc(1), of "cn_bytes c" c0] o' by simp
  obtain data where run: "cn_recvLoop readSync cs (cn_bytes c) (cn_bytes c) o' [] c1 = Some (r, data, c', calls')" "ob = Some (b @ data)"
    using assms(1,3,4) True calls o' nt by (auto simp: cn_recvSync_def Let_def c0_def [symmetric] split: option.splits prod.splits)
  show ?thesis
  proof (cases o')
    case READ_TIMEOUT
    with nt show ?thesis by simp
  next
    case READ_ERROR
    with error [OF okc(1), of c0] o' c0 True have "dead c1" by simp
    with run READ_ERROR calls show ?thesis by auto
  next
    case (Got bs)
    have g: "bs \<noteq> [] \<and> length bs \<le> cn_bytes c \<and> input c0 = bs @ input c1 \<and> cn_state c1 = cn_state c0 \<and> \<not> dead c0 \<and> \<not> dead c1"
      using got [OF okc(1) assms(4)] o' Got by simp
    with recvLoop_spec [OF run(1) [unfolded Got] okc(2)] c0 run(2) True calls show ?thesis by auto
  next
    case ReadThrow
    with run calls show ?thesis by auto
  qed
qed

text \<open>Calls that find the data, one for each byte, are enough.\<close>

lemma recvLoop_progress:
  assumes "bs \<noteq> []" and "length bs \<le> bytesLeft" and "bytesLeft \<le> length (bs @ input c)" and "\<not> dead c"
    and "\<forall>call \<in> set calls. brings call" and "bytesLeft \<le> length bs + length calls"
  shows "\<exists>data' c' calls'. cn_recvLoop readSync calls bytes bytesLeft (Got bs) data c = Some (Some True, data', c', calls') \<and>
    length calls \<le> length calls' + (bytesLeft - length bs)"
  using assms
proof (induction calls arbitrary: bytesLeft bs data c)
  case Nil
  then show ?case by simp
next
  case (Cons call calls)
  show ?case
  proof (cases "bytesLeft > length bs")
    case False
    with Cons.prems show ?thesis by simp
  next
    case True
    with Cons.prems(3) have "input c \<noteq> []" by auto
    with brings [of call "bytesLeft - length bs" c] True Cons.prems obtain bs' c1 where
      read: "readSync call (bytesLeft - length bs) c = (Got bs', c1)" by auto
    have g: "bs' \<noteq> []" "length bs' \<le> bytesLeft - length bs" "input c = bs' @ input c1" "\<not> dead c1"
      using got [OF brings_ok _ read] True Cons.prems(5) by auto
    then have "0 < length bs'" by simp
    have "bytesLeft - length bs \<le> length (bs' @ input c1)" using g(3) Cons.prems(3) by simp
    moreover have "bytesLeft - length bs \<le> length bs' + length calls" using \<open>0 < length bs'\<close> Cons.prems(6) by (simp del: length_greater_0_conv)
    moreover have "\<forall>call \<in> set calls. brings call" using Cons.prems(5) by simp
    ultimately obtain data' c' calls' where
      "cn_recvLoop readSync calls bytes (bytesLeft - length bs) (Got bs') (data @ bs) c1 = Some (Some True, data', c', calls')"
      "length calls \<le> length calls' + (bytesLeft - length bs - length bs')" using Cons.IH [OF g(1,2) _ g(4)] by blast
    with read True Cons.prems(1) \<open>0 < length bs'\<close> g(2) show ?thesis by (auto simp del: length_greater_0_conv)
  qed
qed

lemma recvSync_progress:
  assumes "cn_buffer c = Some b" and "0 < cn_bytes c" and "cn_state c = CONNECTED" and "\<not> dead c"
    and "cn_bytes c \<le> length (input c)" and "\<forall>call \<in> set calls. brings call" and "cn_bytes c \<le> length calls"
  shows "\<exists>ob c' calls'. cn_recvSync readSync calls c = Some (Some True, ob, c', calls') \<and> length calls \<le> length calls' + cn_bytes c"
proof -
  from assms(2,7) obtain call cs where calls: "calls = call # cs" by (cases calls) auto
  define c0 where "c0 = c\<lparr>cn_buffer := None, cn_bytes := 0\<rparr>"
  have c0: "input c0 = input c" "dead c0 = dead c" by (simp_all add: c0_def)
  have "input c0 \<noteq> []" using assms(2,5) c0 by auto
  with brings [of call "cn_bytes c" c0] assms calls c0 obtain bs c1 where read: "readSync call (cn_bytes c) c0 = (Got bs, c1)" by auto
  have g: "bs \<noteq> []" "length bs \<le> cn_bytes c" "input c0 = bs @ input c1" "\<not> dead c1"
    using got [OF brings_ok _ read] assms(2,6) calls by auto
  then have "0 < length bs" by simp
  have "cn_bytes c \<le> length (bs @ input c1)" "cn_bytes c \<le> length bs + length cs" "\<forall>call \<in> set cs. brings call"
    using g(3) c0 assms(5-7) calls \<open>0 < length bs\<close> by (auto simp del: length_greater_0_conv)
  with recvLoop_progress [OF g(1,2) _ g(4)] obtain data' c' calls' where
    "cn_recvLoop readSync cs (cn_bytes c) (cn_bytes c) (Got bs) [] c1 = Some (Some True, data', c', calls')"
    "length cs \<le> length calls' + (cn_bytes c - length bs)" by blast
  with g \<open>0 < length bs\<close> read assms(1-3) calls c0_def show ?thesis
    by (auto simp: cn_recvSync_def Let_def simp del: length_greater_0_conv)
qed

text \<open>Between two commands a read of the minimal size is pending on an empty buffer.\<close>

definition armed :: "'a conn_scheme \<Rightarrow> bool" where
  "armed c \<longleftrightarrow> cn_buffer c = Some [] \<and> cn_bytes c = COMMAND_MINSIZE"

lemma armed_recvNB [simp]: "armed (cn_recvNB [] COMMAND_MINSIZE c)"
  by (simp add: armed_def cn_recvNB_def)

lemma recvNB_frame [simp]: "input (cn_recvNB b n c) = input c" "dead (cn_recvNB b n c) = dead c" "cn_state (cn_recvNB b n c) = cn_state c"
  by (simp_all add: cn_recvNB_def)

lemma handleData_spec:
  assumes "ln_handleData readSync getSize calls c = Some (Some x, c', calls')" and "\<forall>call \<in> set calls. ok call" and "armed c"
  shows "armed c' \<and>
    (case x of
       None \<Rightarrow> dead c' \<or> input c' = input c \<and> dead c' = dead c
     | Some w \<Rightarrow> \<not> dead c \<and> \<not> dead c' \<and> input c = w @ input c' \<and> frame getSize w)"
proof -
  have b: "cn_buffer c = Some []" "0 < cn_bytes c" using assms(3) by (simp_all add: armed_def COMMAND_MINSIZE_def)
  from assms(1) obtain r ob c1 calls1 where head: "cn_recvSync readSync calls c = Some (r, ob, c1, calls1)"
    by (cases "cn_recvSync readSync calls c") (auto simp: ln_handleData_def ln_readHead_def)
  note h = recvSync_spec [OF head assms(2) b]
  show ?thesis
  proof (cases "r = Some True")
    case False
    with assms(1) head have "r = Some False" by (cases r) (auto simp: ln_handleData_def ln_readHead_def split: option.splits)
    with h assms(1) head show ?thesis by (auto simp: ln_handleData_def ln_readHead_def)
  next
    case True
    with h obtain ds where ds: "ob = Some ds" "length ds = COMMAND_MINSIZE" "input c = ds @ input c1" "cn_state c1 = CONNECTED"
      "\<not> dead c" "\<not> dead c1" using assms(3) by (auto simp: armed_def)
    have ok1: "\<forall>call \<in> set calls1. ok call" using h assms(2) by blast
    show ?thesis
    proof (cases "getSize ds \<le> COMMAND_MINSIZE")
      case small: True
      with assms(1) head True ds have "x = Some ds" "c' = cn_recvNB [] COMMAND_MINSIZE c1"
        by (auto simp: ln_handleData_def ln_readHead_def ln_readTail_def)
      with ds small show ?thesis by (simp add: frame_def)
    next
      case big: False
      let ?n = "getSize ds - length ds" and ?c = "cn_recvNB ds (getSize ds - length ds) c1"
      from assms(1) head True ds big obtain r2 ob2 c2 calls2 where tail: "cn_recvSync readSync calls1 ?c = Some (r2, ob2, c2, calls2)"
        by (cases "cn_recvSync readSync calls1 ?c") (auto simp: ln_handleData_def ln_readHead_def ln_readTail_def)
      have pend: "cn_buffer ?c = Some ds" "0 < cn_bytes ?c" using big ds(2) by (simp_all add: cn_recvNB_def)
      note t = recvSync_spec [OF tail ok1 pend]
      have res: "r2 \<noteq> None" "c' = cn_recvNB [] COMMAND_MINSIZE c2"
          "x = (if r2 = Some True then Some (case ob2 of None \<Rightarrow> ds | Some b \<Rightarrow> b) else None)"
        using assms(1) head True ds big tail by (auto simp: ln_handleData_def ln_readHead_def ln_readTail_def split: option.splits)
      show ?thesis
      proof (cases "r2 = Some True")
        case True
        with t obtain es where es: "ob2 = Some (ds @ es)" "length es = ?n" "input ?c = es @ input c2" "\<not> dead c2"
          by (auto simp: cn_recvNB_def)
        have "take COMMAND_MINSIZE (ds @ es) = ds" using ds(2) by simp
        moreover have "length (ds @ es) = getSize ds" using es(2) ds(2) big by simp
        ultimately have "frame getSize (ds @ es)" unfolding frame_def using big by (metis max.absorb2 nle_le)
        then show ?thesis using res True es ds by simp
      next
        case False
        with res(1) have "r2 = Some False" by (cases r2) auto
        with t ds(4) res show ?thesis by simp
      qed
    qed
  qed
qed

end

text \<open>Once a whole command is there, it is read.\<close>

context byte_transport
begin

lemma handleData_progress:
  assumes "armed c" and "cn_state c = CONNECTED" and "\<not> dead c" and "input c = w @ rest" and "frame getSize w"
    and "\<forall>call \<in> set calls. brings call" and "length w \<le> length calls"
  shows "\<exists>c' calls'. ln_handleData readSync getSize calls c = Some (Some (Some w), c', calls')"
proof -
  let ?m = COMMAND_MINSIZE
  have b: "cn_buffer c = Some []" "cn_bytes c = ?m" "0 < cn_bytes c" using assms(1) by (simp_all add: armed_def COMMAND_MINSIZE_def)
  have fw: "?m \<le> length w" "length w = max ?m (getSize (take ?m w))" using assms(5) unfolding frame_def by blast+
  have okc: "\<forall>call \<in> set calls. ok call" using assms(6) brings_ok by blast
  obtain ob c1 calls1 where head: "cn_recvSync readSync calls c = Some (Some True, ob, c1, calls1)" "length calls \<le> length calls1 + ?m"
    using recvSync_progress [of c "[]" calls] b assms(2-4,6,7) fw(1) by auto
  from recvSync_spec [OF head(1) okc b(1,3)] b(2) obtain ds where ds: "ob = Some ds" "length ds = ?m" "input c = ds @ input c1"
    "cn_state c1 = CONNECTED" "\<not> dead c1" "set calls1 \<subseteq> set calls" by auto
  have "take ?m (w @ rest) = take ?m (ds @ input c1)" using ds(3) assms(4) by simp
  then have w: "take ?m w = ds" using ds(2) fw(1) by simp
  have "\<exists>x c' calls'. ln_handleData readSync getSize calls c = Some (Some (Some x), c', calls')"
  proof (cases "getSize ds \<le> ?m")
    case True
    with head ds show ?thesis by (simp add: ln_handleData_def ln_readHead_def ln_readTail_def)
  next
    case False
    let ?c = "cn_recvNB ds (getSize ds - length ds) c1"
    have len: "length w = getSize ds" using False fw(2) w by (metis max.absorb2 nle_le)
    have "length (w @ rest) = length (ds @ input c1)" using ds(3) assms(4) by simp
    then have "cn_bytes ?c \<le> length (input ?c)" using len ds(2) by (simp add: cn_recvNB_def)
    moreover have "cn_buffer ?c = Some ds" "cn_bytes ?c = getSize ds - ?m" using ds(2) by (simp_all add: cn_recvNB_def)
    moreover have "\<forall>call \<in> set calls1. brings call" using ds(6) assms(6) by blast
    moreover have "getSize ds - ?m \<le> length calls1" using head(2) assms(7) len by simp
    ultimately obtain ob2 c2 calls2 where "cn_recvSync readSync calls1 ?c = Some (Some True, ob2, c2, calls2)"
      using recvSync_progress [of ?c ds calls1] False ds(4,5) by auto
    with False head ds show ?thesis by (simp add: ln_handleData_def ln_readHead_def ln_readTail_def)
  qed
  then obtain x c' calls' where x: "ln_handleData readSync getSize calls c = Some (Some (Some x), c', calls')" by blast
  from handleData_spec [OF x okc assms(1)] have "input c = x @ input c'" "frame getSize x" by simp_all
  with frame_unique [OF assms(5)] assms(4) x show ?thesis by metis
qed

end

section \<open>File descriptors\<close>

definition fd_dead :: "fd_conn \<Rightarrow> bool" where
  "fd_dead c \<longleftrightarrow> \<not> fd_readFD c \<or> fd_broken c"

fun fd_ok :: "fd_call \<Rightarrow> bool" where
  "fd_ok (r1, p, r2) \<longleftrightarrow> r1 \<noteq> SysIntr \<and> p \<noteq> PollError \<and> r2 \<noteq> SysIntr \<and> r2 \<noteq> SysAgain"

fun fd_brings :: "fd_call \<Rightarrow> bool" where
  "fd_brings (r1, p, r2) \<longleftrightarrow> fd_ok (r1, p, r2) \<and> p = PollReady \<and> r1 \<noteq> SysError \<and> r2 \<noteq> SysError \<and> r1 \<noteq> SysBytes 0 \<and> r2 \<noteq> SysBytes 0"

lemma min_eq_0_iff [simp]: "min (m :: nat) n = 0 \<longleftrightarrow> m = 0 \<or> n = 0"
  by (auto simp: min_def)

lemma sys_read_bytes:
  assumes "sys_read r n c = ((SysBytes k, bs), c')"
  shows "\<not> fd_broken c \<and> k = length bs \<and> length bs \<le> n \<and> fd_input c = bs @ fd_input c' \<and> cn_state c' = cn_state c \<and>
    fd_readFD c' = fd_readFD c \<and> fd_broken c' = fd_broken c"
  using assms by (auto simp: sys_read_def Let_def split: sys_result.splits if_splits)

lemma sys_read_frame:
  "sys_read r n c = ((r', bs), c') \<Longrightarrow> cn_state c' = cn_state c \<and> fd_readFD c' = fd_readFD c \<and> (fd_broken c \<longrightarrow> fd_broken c') \<and>
   (r' = SysError \<longrightarrow> fd_broken c') \<and> (r' = SysIntr \<longrightarrow> r = SysIntr) \<and> (r' = SysAgain \<longrightarrow> r = SysAgain) \<and>
   (r' = SysAgain \<or> r' = SysBytes 0 \<longrightarrow> fd_input c' = fd_input c \<and> fd_broken c' = fd_broken c)"
  by (auto simp: sys_read_def Let_def split: sys_result.splits if_splits)

lemma fd_readDone_got:
  assumes "fd_readDone (sys_read r n c) = (Got bs, c')" and "r \<noteq> SysIntr"
  shows "bs \<noteq> [] \<and> length bs \<le> n \<and> fd_input c = bs @ fd_input c' \<and> cn_state c' = cn_state c \<and>
    fd_readFD c' = fd_readFD c \<and> \<not> fd_broken c \<and> \<not> fd_broken c'"
proof -
  obtain r' bs' c1 where s: "sys_read r n c = ((r', bs'), c1)" by (metis surj_pair)
  with assms sys_read_frame [OF s] obtain k where "r' = SysBytes k" "k > 0" "bs' = bs" "c1 = c'"
    by (cases r') (auto simp: fd_readDone_def split: if_splits)
  with sys_read_bytes [of r n c k bs c1] s show ?thesis by auto
qed

lemma fd_readDone_error:
  assumes "fd_readDone (sys_read r n c) = (READ_ERROR, c')" and "r \<noteq> SysAgain" and "cn_state c = CONNECTED"
  shows "fd_dead c'"
proof -
  obtain r' bs' c1 where s: "sys_read r n c = ((r', bs'), c1)" by (metis surj_pair)
  with assms sys_read_frame [OF s] show ?thesis
    by (cases r') (auto simp: fd_readDone_def fd_dead_def fd_close_def split: if_splits)
qed

lemma fd_readSync_split:
  obtains (closed) "\<not> fd_readFD c" "fd_readSync (r1, p, r2) n c = (READ_ERROR, c)"
  | (first) "fd_readFD c" "fd_readSync (r1, p, r2) n c = fd_readDone (sys_read r1 n c)" "fst (fst (sys_read r1 n c)) \<noteq> SysAgain"
  | (second) bs c1 r where "fd_readFD c" "sys_read r1 n c = ((r, bs), c1)" "r = SysBytes 0 \<or> r = SysAgain"
      "fd_readSync (r1, p, r2) n c = (case p of PollError \<Rightarrow> (READ_ERROR, c1) | PollTimeout \<Rightarrow> (ReadThrow, c1)
        | PollReady \<Rightarrow> fd_readDone (sys_read r2 n c1))"
proof (cases "fd_readFD c")
  case True
  obtain r bs c1 where s: "sys_read r1 n c = ((r, bs), c1)" by (metis surj_pair)
  with True first second show thesis by (cases "r = SysBytes 0 \<or> r = SysAgain") (auto simp: fd_readSync_def)
qed (simp add: fd_readSync_def)

lemma sys_read_brings:
  assumes "r \<noteq> SysError" "r \<noteq> SysIntr" "r \<noteq> SysBytes 0" "fd_input c \<noteq> []" "\<not> fd_broken c" "0 < n"
  shows "sys_read r n c = ((SysAgain, []), c) \<and> r = SysAgain \<or> (\<exists>k bs c'. sys_read r n c = ((SysBytes k, bs), c') \<and> 0 < k)"
  using assms by (cases r) (auto simp: sys_read_def Let_def)

interpretation fd: byte_transport fd_readSync fd_input fd_dead fd_ok fd_brings
proof
  fix call :: fd_call and n :: nat and c c' :: fd_conn and bs :: bytes
  obtain r1 p r2 where call: "call = (r1, p, r2)" by (cases call)
  assume ok: "fd_ok call"
  {
    assume "0 < n" and run: "fd_readSync call n c = (Got bs, c')"
    show "bs \<noteq> [] \<and> length bs \<le> n \<and> fd_input c = bs @ fd_input c' \<and> cn_state c' = cn_state c \<and> \<not> fd_dead c \<and> \<not> fd_dead c'"
    proof (cases rule: fd_readSync_split [of c r1 p r2 n])
      case first
      with fd_readDone_got [of r1 n c bs c'] run ok call show ?thesis by (auto simp: fd_dead_def)
    next
      case (second bs1 c1 r)
      then have "fd_readDone (sys_read r2 n c1) = (Got bs, c')" using run call by (auto split: poll_result.splits)
      with fd_readDone_got [of r2 n c1 bs c'] sys_read_frame [OF second(2)] second(1,3) ok call show ?thesis by (auto simp: fd_dead_def)
    qed (use run call in auto)
  }
  {
    assume st: "cn_state c = CONNECTED" and run: "fd_readSync call n c = (READ_ERROR, c')"
    show "fd_dead c'"
    proof (cases rule: fd_readSync_split [of c r1 p r2 n])
      case first
      show ?thesis
      proof (cases "r1 = SysAgain")
        case True
        with first(3) show ?thesis by (simp add: sys_read_def)
      qed (use first run call st fd_readDone_error in auto)
    next
      case (second bs1 c1 r)
      with run ok call have "fd_readDone (sys_read r2 n c1) = (READ_ERROR, c')" by (auto split: poll_result.splits)
      with fd_readDone_error [of r2 n c1 c'] sys_read_frame [OF second(2)] ok call st show ?thesis by auto
    qed (use run call in \<open>auto simp: fd_dead_def\<close>)
  }
  show "fst (fd_readSync call n c) \<noteq> READ_TIMEOUT"
    by (auto simp: call fd_readSync_def fd_readDone_def split: sys_result.splits poll_result.splits prod.splits)
next
  fix call :: fd_call and n :: nat and c :: fd_conn
  obtain r1 p r2 where call: "call = (r1, p, r2)" by (cases call)
  assume b: "fd_brings call"
  then show "fd_ok call" by (simp add: call)
  assume "0 < n" and "fd_input c \<noteq> []" and "\<not> fd_dead c"
  with b call sys_read_brings [of r1 c n] sys_read_brings [of r2 c n] show "\<exists>bs c'. fd_readSync call n c = (Got bs, c')"
    by (auto simp: fd_readSync_def fd_readDone_def fd_dead_def)
qed (simp_all add: fd_dead_def)

section \<open>From sender to receiver\<close>

text \<open>What \<open>send\<close> puts out is a beginning of the data; it is all of it, or the connection is closed.\<close>

lemma fd_write_cases:
  assumes "fd_write call bs c = (o', c')"
  shows "\<exists>ws. fd_output c' = fd_output c @ ws \<and> prefix ws bs \<and>
    (case o' of Wrote n \<Rightarrow> n = length ws | _ \<Rightarrow> ws = []) \<and> (ws \<noteq> [] \<longrightarrow> cn_state c = CONNECTED) \<and> cn_state c' = cn_state c"
proof -
  obtain w1 p w2 where call: "call = (w1, p, w2)" by (cases call)
  have done': "\<exists>ws. fd_output c' = fd_output d @ ws \<and> prefix ws bs \<and> (case o' of Wrote n \<Rightarrow> n = length ws | _ \<Rightarrow> ws = []) \<and>
      cn_state c' = cn_state d" if "fd_writeDone (sys_write w bs d) = (o', c')" for w d
    using that by (auto simp: fd_writeDone_def sys_write_def Let_def take_is_prefix split: sys_result.splits prod.splits
        intro!: exI [of _ "take _ bs"])
  show ?thesis
  proof (cases "cn_state c \<noteq> CONNECTED \<or> \<not> fd_writeFD c")
    case True
    with assms show ?thesis by (auto simp: fd_write_def)
  next
    case False
    obtain w c1 where w: "sys_write w1 bs c = (w, c1)" by force
    show ?thesis
    proof (cases "w = SysBytes 0 \<or> w = SysAgain")
      case True
      with w have c1: "fd_output c1 = fd_output c" "cn_state c1 = cn_state c"
        by (auto simp: sys_write_def Let_def split: sys_result.splits)
      show ?thesis
      proof (cases p)
        case PollReady
        with assms call False w True have "fd_writeDone (sys_write w2 bs c1) = (o', c')" by (auto simp: fd_write_def)
        from done' [OF this] c1 False show ?thesis by auto
      qed (use assms call False w True c1 in \<open>auto simp: fd_write_def\<close>)
    next
      case no: False
      with assms call False w have "fd_writeDone (sys_write w1 bs c) = (o', c')" by (simp add: fd_write_def)
      from done' [OF this] False show ?thesis by auto
    qed
  qed
qed

lemma cn_send_spec:
  assumes "cn_send fd_write fd_close calls bs c = Some (ok, c', calls')"
  shows "\<exists>ws. fd_output c' = fd_output c @ ws \<and> prefix ws bs \<and> (ok \<longrightarrow> ws = bs \<and> cn_state c' = cn_state c) \<and>
    (\<not> ok \<longrightarrow> ws \<noteq> bs \<and> cn_state c' = CLOSED) \<and> (ws \<noteq> [] \<longrightarrow> cn_state c = CONNECTED)"
  using assms
proof (induction fd_write fd_close calls bs c rule: cn_send.induct)
  case (1 calls c)
  then show ?case by auto
next
  case (2 b bs c)
  then show ?case by simp
next
  case (3 call calls b bs c)
  obtain o' c1 where o': "fd_write call (b # bs) c = (o', c1)" by force
  from fd_write_cases [OF o'] obtain ws where ws: "fd_output c1 = fd_output c @ ws" "prefix ws (b # bs)"
    "(case o' of Wrote n \<Rightarrow> n = length ws | _ \<Rightarrow> ws = [])" "ws \<noteq> [] \<longrightarrow> cn_state c = CONNECTED" "cn_state c1 = cn_state c" by blast
  have failed: ?case if "o' = WriteError \<or> o' = WriteThrow"
  proof -
    have "ws = []" using ws(3) that by (auto split: write_outcome.splits)
    moreover have "ok = False" "c' = fd_close c1" using 3(2) o' that by auto
    ultimately show ?thesis using ws(1) by (intro exI [of _ "[]"]) (auto simp: fd_close_def)
  qed
  show ?case
  proof (cases o')
    case (Wrote n)
    with ws(2,3) have n: "n = length ws" "b # bs = ws @ drop n (b # bs)"
      by (auto simp: prefix_def)
    from 3(2) o' Wrote have run: "cn_send fd_write fd_close calls (drop n (b # bs)) c1 = Some (ok, c', calls')" by simp
    from 3(1) [OF o' [symmetric] Wrote run] obtain vs where vs: "fd_output c' = fd_output c1 @ vs" "prefix vs (drop n (b # bs))"
      "ok \<longrightarrow> vs = drop n (b # bs) \<and> cn_state c' = cn_state c1" "\<not> ok \<longrightarrow> vs \<noteq> drop n (b # bs) \<and> cn_state c' = CLOSED"
      "vs \<noteq> [] \<longrightarrow> cn_state c1 = CONNECTED" by blast
    show ?thesis
    proof (intro exI [of _ "ws @ vs"] conjI)
      show "prefix (ws @ vs) (b # bs)" using vs(2) n(2) by (metis same_prefix_prefix)
      show "ok \<longrightarrow> ws @ vs = b # bs \<and> cn_state c' = cn_state c" using vs(3) n(2) ws(5) by metis
      show "\<not> ok \<longrightarrow> ws @ vs \<noteq> b # bs \<and> cn_state c' = CLOSED" using vs(4) n(2) by (metis same_append_eq)
    qed (use vs ws in auto)
  qed (use failed in auto)
qed

text \<open>
  One direction of a connection: the sender and the commands sent so far, the receiver and the commands it has
  dispatched, and how many of the bytes written have arrived.
\<close>

record io_system =
  io_sender :: fd_conn
  io_sent :: "bytes list"
  io_receiver :: fd_conn
  io_received :: "bytes list"
  io_arrived :: nat

inductive io_reach :: "(bytes \<Rightarrow> nat) \<Rightarrow> io_system \<Rightarrow> bool" for getSize :: "bytes \<Rightarrow> nat" where
  start: "fd_output s = [] \<Longrightarrow> fd_input r = [] \<Longrightarrow>
    io_reach getSize \<lparr>io_sender = s, io_sent = [], io_receiver = cn_recvNB [] COMMAND_MINSIZE r, io_received = [], io_arrived = 0\<rparr>"
| send: "io_reach getSize S \<Longrightarrow> frame getSize w \<Longrightarrow> cn_send fd_write fd_close calls w (io_sender S) = Some (ok, s', calls') \<Longrightarrow>
    io_reach getSize (S\<lparr>io_sender := s', io_sent := io_sent S @ [w]\<rparr>)"
| arrive: "io_reach getSize S \<Longrightarrow> bs = take k (drop (io_arrived S) (fd_output (io_sender S))) \<Longrightarrow>
    io_reach getSize (S\<lparr>io_receiver := (io_receiver S)\<lparr>fd_input := fd_input (io_receiver S) @ bs\<rparr>, io_arrived := io_arrived S + length bs\<rparr>)"
| receive: "io_reach getSize S \<Longrightarrow> \<forall>call \<in> set calls. fd_ok call \<Longrightarrow>
    ln_handleData fd_readSync getSize calls (io_receiver S) = Some (Some x, r', calls') \<Longrightarrow>
    io_reach getSize (S\<lparr>io_receiver := r', io_received := io_received S @ (case x of None \<Rightarrow> [] | Some w \<Rightarrow> [w])\<rparr>)"
| break: "io_reach getSize S \<Longrightarrow> io_reach getSize (S\<lparr>io_receiver := (io_receiver S)\<lparr>fd_broken := True\<rparr>\<rparr>)"
| close_sender: "io_reach getSize S \<Longrightarrow> io_reach getSize (S\<lparr>io_sender := fd_close (io_sender S)\<rparr>)"
| close_receiver: "io_reach getSize S \<Longrightarrow> io_reach getSize (S\<lparr>io_receiver := fd_close (io_receiver S)\<rparr>)"

text \<open>What has been written: all that was sent, or, on a closed connection, a beginning of it.\<close>

definition written_ok :: "(bytes \<Rightarrow> nat) \<Rightarrow> io_system \<Rightarrow> bool" where
  "written_ok getSize S \<longleftrightarrow> (\<forall>w \<in> set (io_sent S). frame getSize w) \<and> prefix (fd_output (io_sender S)) (concat (io_sent S)) \<and>
     (fd_output (io_sender S) = concat (io_sent S) \<or> cn_state (io_sender S) = CLOSED)"

definition received_ok :: "io_system \<Rightarrow> bool" where
  "received_ok S \<longleftrightarrow> fd.armed (io_receiver S) \<and> prefix (io_received S) (io_sent S) \<and>
     (\<not> fd_dead (io_receiver S) \<longrightarrow>
        concat (io_received S) @ fd_input (io_receiver S) = take (io_arrived S) (fd_output (io_sender S)) \<and>
        io_arrived S \<le> length (fd_output (io_sender S)))"

lemma written_send:
  assumes "written_ok getSize S" and "frame getSize w" and "cn_send fd_write fd_close calls w (io_sender S) = Some (ok, s', calls')"
  shows "written_ok getSize (S\<lparr>io_sender := s', io_sent := io_sent S @ [w]\<rparr>) \<and> prefix (fd_output (io_sender S)) (fd_output s')"
proof -
  from cn_send_spec [OF assms(3)] obtain ws where ws: "fd_output s' = fd_output (io_sender S) @ ws" "prefix ws w"
    "ok \<longrightarrow> ws = w \<and> cn_state s' = cn_state (io_sender S)" "\<not> ok \<longrightarrow> ws \<noteq> w \<and> cn_state s' = CLOSED"
    "ws \<noteq> [] \<longrightarrow> cn_state (io_sender S) = CONNECTED" by blast
  show ?thesis
  proof (cases "fd_output (io_sender S) = concat (io_sent S)")
    case True
    with ws assms(1,2) show ?thesis by (cases ok) (auto simp: written_ok_def)
  next
    case False
    with assms(1) have closed: "cn_state (io_sender S) = CLOSED" by (simp add: written_ok_def)
    with ws(5) have "ws = []" by auto
    with ws closed assms(1,2) frame_nonempty show ?thesis by (cases ok) (auto simp: written_ok_def)
  qed
qed

lemma fd_close_frame [simp]:
  "fd_output (fd_close c) = fd_output c" "fd_input (fd_close c) = fd_input c" "fd.armed (fd_close c) = fd.armed c"
  by (auto simp: fd_close_def fd.armed_def)

text \<open>The next command received is the next command sent.\<close>

lemma next_command:
  assumes "prefix vs ws" and "prefix (concat vs @ w @ rest) (concat ws)" and "frame getSize w" and "\<forall>w \<in> set ws. frame getSize w"
  shows "prefix (vs @ [w]) ws"
proof -
  from assms(1) obtain us where us: "ws = vs @ us" by (auto simp: prefix_def)
  with assms(2) obtain zs where zs: "concat us = w @ rest @ zs" by (auto simp: prefix_def)
  show ?thesis
  proof (cases us)
    case Nil
    with zs frame_nonempty [OF assms(3)] show ?thesis by simp
  next
    case (Cons u us')
    with zs have "u @ concat us' = w @ rest @ zs" by simp
    with frame_unique [of getSize u w] assms(3,4) us Cons have "u = w" by auto
    with us Cons show ?thesis by simp
  qed
qed

lemma io_reach_ok: "io_reach getSize S \<Longrightarrow> written_ok getSize S \<and> received_ok S"
proof (induction rule: io_reach.induct)
  case (start s r)
  then show ?case by (simp add: written_ok_def received_ok_def cn_recvNB_def fd.armed_def)
next
  case (send S w calls ok s' calls')
  note w = written_send [OF send.IH [THEN conjunct1] send.hyps(2,3)]
  then have "received_ok (S\<lparr>io_sender := s', io_sent := io_sent S @ [w]\<rparr>)"
    using send.IH by (auto simp: received_ok_def prefix_def)
  with w show ?case by blast
next
  case (arrive S bs k)
  let ?out = "fd_output (io_sender S)"
  have "take (io_arrived S + length bs) ?out = take (io_arrived S) ?out @ bs" by (simp add: arrive.hyps(2) take_add min_def)
  moreover have "io_arrived S \<le> length ?out \<Longrightarrow> io_arrived S + length bs \<le> length ?out" by (simp add: arrive.hyps(2))
  ultimately show ?case using arrive.IH by (auto simp: written_ok_def received_ok_def fd_dead_def fd.armed_def)
next
  case (receive S calls x r' calls')
  have a: "fd.armed (io_receiver S)" using receive.IH by (simp add: received_ok_def)
  note h = fd.handleData_spec [OF receive.hyps(3,2) a]
  show ?case
  proof (cases x)
    case None
    with h receive.IH show ?thesis by (auto simp: written_ok_def received_ok_def)
  next
    case (Some w)
    with h have f: "frame getSize w" and i: "fd_input (io_receiver S) = w @ fd_input r'" and d: "\<not> fd_dead (io_receiver S)"
      by simp_all
    from d i receive.IH have c: "concat (io_received S) @ w @ fd_input r' = take (io_arrived S) (fd_output (io_sender S))"
      by (simp add: received_ok_def)
    then have "prefix (concat (io_received S) @ w @ fd_input r') (concat (io_sent S))"
      using receive.IH by (metis written_ok_def prefix_order.trans take_is_prefix)
    with next_command [of "io_received S" "io_sent S" w "fd_input r'" getSize] f receive.IH
    have "prefix (io_received S @ [w]) (io_sent S)" by (simp add: written_ok_def received_ok_def)
    with Some h c d receive.IH show ?thesis by (simp add: written_ok_def received_ok_def)
  qed
next
  case (break S)
  then show ?case by (auto simp: written_ok_def received_ok_def fd_dead_def fd.armed_def)
next
  case (close_sender S)
  then show ?case by (auto simp: written_ok_def received_ok_def fd_close_def)
next
  case (close_receiver S)
  then show ?case by (auto simp: written_ok_def received_ok_def fd_dead_def fd_close_def fd.armed_def)
qed


text \<open>
  C9 (command_stream): whatever pieces the operating system makes of the bytes, and wherever the connection breaks or is
  closed, the commands the receiver dispatches are the first of the commands sent, whole and in their order.
\<close>

theorem command_stream:
  assumes "io_reach (ln_commandSize P local node) S"
  shows "prefix (io_received S) (io_sent S)"
  using io_reach_ok [OF assms] by (simp add: received_ok_def)

text \<open>
  C10 (command_delivery): while the connection is up, and once the next command sent has arrived, reading as often as it has bytes at most
  returns it, provided every read brings at least one byte: none is interrupted, finds nothing after a successful poll or
  returns zero bytes.
\<close>

theorem command_delivery:
  assumes "io_reach (ln_commandSize P local node) S"
    and "cn_state (io_receiver S) = CONNECTED" and "\<not> fd_dead (io_receiver S)"
    and "length (io_received S) < length (io_sent S)"
    and "length (concat (take (Suc (length (io_received S))) (io_sent S))) \<le> io_arrived S"
    and "\<forall>call \<in> set calls. fd_brings call" and "length (io_sent S ! length (io_received S)) \<le> length calls"
  shows "\<exists>r' calls'. ln_handleData fd_readSync (ln_commandSize P local node) calls (io_receiver S) =
    Some (Some (Some (io_sent S ! length (io_received S))), r', calls')"
proof -
  let ?n = "length (io_received S)" and ?out = "fd_output (io_sender S)"
  note inv = io_reach_ok [OF assms(1)]
  from inv have "prefix (io_received S) (io_sent S)" by (simp add: received_ok_def)
  then have r: "io_received S = take ?n (io_sent S)" by (metis append_eq_conv_conj prefix_def)
  from inv have a: "fd.armed (io_receiver S)"
    and i: "concat (io_received S) @ fd_input (io_receiver S) = take (io_arrived S) ?out" and l: "io_arrived S \<le> length ?out"
    and p: "prefix ?out (concat (io_sent S))" and f: "frame (ln_commandSize P local node) (io_sent S ! ?n)"
    using assms(3,4) by (simp_all add: received_ok_def written_ok_def)
  let ?w = "io_sent S ! ?n"
  have whole: "concat (take (Suc ?n) (io_sent S)) = concat (io_received S) @ ?w"
    by (simp only: take_Suc_conv_app_nth [OF assms(4)] concat_append r [symmetric]) simp
  have "prefix (concat (take (Suc ?n) (io_sent S))) (concat (io_sent S))"
    by (metis append_take_drop_id concat_append prefixI)
  moreover have "prefix (take (io_arrived S) ?out) (concat (io_sent S))"
    using p by (meson prefix_order.trans take_is_prefix)
  ultimately have "prefix (concat (take (Suc ?n) (io_sent S))) (take (io_arrived S) ?out)"
    by (rule prefix_length_prefix) (use assms(5) l in simp)
  then obtain rest where "fd_input (io_receiver S) = ?w @ rest" by (auto simp: whole i [symmetric] prefix_def)
  from fd.handleData_progress [OF a assms(2,3) this f assms(6,7)] show ?thesis .
qed


section \<open>A connection carries a command\<close>

text \<open>A connection request without node data, sent in one piece and received in one.\<close>

definition sample_wire :: bytes where
  "sample_wire = om_header 16 0 CMD_NODE_CONNECT @ replicate 240 0"

definition sample_end :: fd_conn where
  "sample_end = \<lparr>cn_state = CONNECTED, cn_buffer = None, cn_bytes = 0, fd_readFD = True, fd_writeFD = True,
     fd_input = [], fd_output = [], fd_broken = False\<rparr>"

definition sample_arrived :: io_system where
  "sample_arrived = \<lparr>io_sender = sample_end\<lparr>fd_output := sample_wire\<rparr>, io_sent = [sample_wire],
     io_receiver = (cn_recvNB [] COMMAND_MINSIZE sample_end)\<lparr>fd_input := sample_wire\<rparr>, io_received = [], io_arrived = 256\<rparr>"

definition sample_received :: io_system where
  "sample_received = sample_arrived\<lparr>io_receiver := cn_recvNB [] COMMAND_MINSIZE sample_end, io_received := [sample_wire]\<rparr>"

lemma length_sample_wire [simp]: "length sample_wire = 256"
  by (simp add: sample_wire_def)

lemma sample_wire_nonempty [simp]: "sample_wire \<noteq> []"
  using length_sample_wire by fastforce

lemma sample_size: "ln_commandSize sample_pression 1 None sample_wire = 16"
  using commandSize_preNode [of sample_wire 16 0 CMD_NODE_CONNECT "replicate 240 0"] by (simp add: sample_wire_def)

lemma sample_frame: "frame (ln_commandSize sample_pression 1 None) sample_wire"
  by (rule command_frame [of _ "[]" 0 CMD_NODE_CONNECT "replicate 240 0"]) (simp_all add: sample_wire_def COMMAND_MINSIZE_def)

lemma send_at_once:
  assumes "bs \<noteq> []" and "cn_state c = CONNECTED" and "fd_writeFD c"
  shows "cn_send fd_write fd_close [(SysBytes (length bs), p, r)] bs c = Some (True, c\<lparr>fd_output := fd_output c @ bs\<rparr>, [])"
  using assms by (cases bs) (simp_all add: fd_write_def sys_write_def fd_writeDone_def)

lemma sample_send:
  "cn_send fd_write fd_close [(SysBytes 256, PollReady, SysAgain)] sample_wire sample_end = Some (True, sample_end\<lparr>fd_output := sample_wire\<rparr>, [])"
  using send_at_once [of sample_wire sample_end PollReady SysAgain] by (simp add: sample_end_def)

lemma sample_arrives: "io_reach (ln_commandSize sample_pression 1 None) sample_arrived"
proof -
  let ?g = "ln_commandSize sample_pression 1 None"
  have "io_reach ?g \<lparr>io_sender = sample_end, io_sent = [], io_receiver = cn_recvNB [] COMMAND_MINSIZE sample_end,
      io_received = [], io_arrived = 0\<rparr>" by (rule io_reach.start) (simp_all add: sample_end_def)
  from io_reach.arrive [OF io_reach.send [OF this sample_frame, simplified, OF sample_send], of _ 256, OF refl] show ?thesis
    by (simp add: sample_arrived_def) (simp add: sample_end_def cn_recvNB_def)
qed

lemma sample_receives: "io_reach (ln_commandSize sample_pression 1 None) sample_received"
proof -
  have "ln_handleData fd_readSync (ln_commandSize sample_pression 1 None) [(SysBytes 256, PollReady, SysBytes 256)] (io_receiver sample_arrived) =
      Some (Some (Some sample_wire), cn_recvNB [] COMMAND_MINSIZE sample_end, [])"
    by (auto simp: ln_handleData_def ln_readHead_def ln_readTail_def cn_recvSync_def sample_arrived_def sample_end_def cn_recvNB_def
        COMMAND_MINSIZE_def fd_readSync_def sys_read_def fd_readDone_def sample_size)
  from io_reach.receive [OF sample_arrives _ this] show ?thesis by (simp add: sample_received_def) (simp add: sample_arrived_def)
qed

theorem command_stream_witness: "prefix (io_received sample_received) (io_sent sample_received) \<and> io_received sample_received = [sample_wire]"
  using command_stream [OF sample_receives] by (simp add: sample_received_def)

theorem command_delivery_witness:
  "\<exists>r' calls'. ln_handleData fd_readSync (ln_commandSize sample_pression 1 None) (replicate 256 (SysBytes 1, PollReady, SysBytes 1))
     (io_receiver sample_arrived) = Some (Some (Some sample_wire), r', calls')"
  using command_delivery [OF sample_arrives, of "replicate 256 (SysBytes 1, PollReady, SysBytes 1)"]
  by (simp add: sample_arrived_def sample_end_def cn_recvNB_def fd_dead_def)

end
