(* ===== verification/Ring_Buffer.thy ===== *)
theory Ring_Buffer
  imports Collage_Prelude
begin

text \<open>
  Ring pointers, \<^verbatim>\<open>src/co/ring.h\<close>: free-running counters of a machine word, reduced to an index of a ring
  whose length need not be a power of two, and queues of buffers over them. The abstract view of a pointer is the number of entries it has
  ever passed, a natural number that does not wrap.
\<close>

section \<open>RingPtr and Ring\<close>

record 'w ring_ptr =
  ptrVal :: 'w
  ptrAdjust :: 'w

definition rp_new :: "'a::len word ring_ptr" where
  "rp_new = \<lparr>ptrVal = 0, ptrAdjust = 0\<rparr>"

definition rp_clear :: "'a::len word ring_ptr \<Rightarrow> 'a word ring_ptr" where
  "rp_clear p = p\<lparr>ptrVal := 0, ptrAdjust := 0\<rparr>"

definition rp_ptr :: "'a::len word \<Rightarrow> 'a word \<Rightarrow> 'a word ring_ptr \<Rightarrow> 'a word" where
  "rp_ptr num off p = (ptrVal p mod num + ptrAdjust p + off) mod num"

definition rp_incr :: "'a::len word \<Rightarrow> 'a word \<Rightarrow> 'a word ring_ptr \<Rightarrow> 'a word ring_ptr" where
  "rp_incr num amount p =
     (let optrVal = ptrVal p; p = p\<lparr>ptrVal := optrVal + amount\<rparr>
      in if ptrVal p < optrVal then p\<lparr>ptrAdjust := (ptrAdjust p + (- 1 mod num) + 1) mod num\<rparr> else p)"

text \<open>A ring is its length and its pointers; the first is the head, the last the tail.\<close>

record 'w ring =
  rg_num :: 'w
  rg_ptrs :: "'w ring_ptr list"

definition rg_new :: "nat \<Rightarrow> 'a::len word \<Rightarrow> 'a word ring" where
  "rg_new n num = \<lparr>rg_num = num, rg_ptrs = replicate n rp_new\<rparr>"

definition rg_clear :: "'a::len word \<Rightarrow> 'a word ring \<Rightarrow> 'a word ring" where
  "rg_clear num r = r\<lparr>rg_ptrs := map rp_clear (rg_ptrs r), rg_num := num\<rparr>"

definition rg_HEAD :: nat where "rg_HEAD = 0"

definition rg_MIDDLE :: "'a::len word ring \<Rightarrow> nat" where
  "rg_MIDDLE r = length (rg_ptrs r) div 2"

definition rg_TAIL :: "'a::len word ring \<Rightarrow> nat" where
  "rg_TAIL r = length (rg_ptrs r) - 1"

definition rg_value :: "nat \<Rightarrow> 'a::len word ring \<Rightarrow> 'a word" where
  "rg_value i r = ptrVal (rg_ptrs r ! i)"

definition rg_available :: "nat \<Rightarrow> nat \<Rightarrow> 'a::len word ring \<Rightarrow> 'a word" where
  "rg_available i j r = rg_value i r - rg_value j r"

definition rg_isEmpty :: "nat \<Rightarrow> nat \<Rightarrow> 'a::len word ring \<Rightarrow> bool" where
  "rg_isEmpty i j r \<longleftrightarrow> rg_value i r = rg_value j r"

definition rg_isFull :: "nat \<Rightarrow> nat \<Rightarrow> 'a::len word ring \<Rightarrow> bool" where
  "rg_isFull i j r \<longleftrightarrow> rg_available i j r = rg_num r"

definition rg_negAvailable :: "nat \<Rightarrow> nat \<Rightarrow> 'a::len word ring \<Rightarrow> 'a word" where
  "rg_negAvailable i j r = rg_num r - rg_available i j r"

definition rg_incr :: "nat \<Rightarrow> 'a::len word \<Rightarrow> 'a word ring \<Rightarrow> 'a word ring" where
  "rg_incr i amount r = r\<lparr>rg_ptrs := (rg_ptrs r)[i := rp_incr (rg_num r) amount (rg_ptrs r ! i)]\<rparr>"

definition rg_ptr :: "nat \<Rightarrow> 'a::len word \<Rightarrow> 'a word ring \<Rightarrow> 'a word" where
  "rg_ptr i off r = rp_ptr (rg_num r) off (rg_ptrs r ! i)"

definition rg_moveValue :: "nat \<Rightarrow> 'a::len word \<Rightarrow> 'a word ring \<Rightarrow> 'a word ring" where
  "rg_moveValue i val r = rg_incr i (val - rg_value i r) r"

definition rg_linearSize :: "nat \<Rightarrow> nat \<Rightarrow> 'a::len word ring \<Rightarrow> 'a word" where
  "rg_linearSize i j r =
     (let avail = rg_available i j r; left = rg_num r - rg_ptr j 0 r in if avail < left then avail else left)"

definition rg_negLinearSize :: "nat \<Rightarrow> nat \<Rightarrow> 'a::len word ring \<Rightarrow> 'a word" where
  "rg_negLinearSize i j r =
     (let avail = rg_num r - rg_available i j r; left = rg_num r - rg_ptr i 0 r in if avail < left then avail else left)"

definition rg_align :: "nat \<Rightarrow> 'a::len word \<Rightarrow> 'a word ring \<Rightarrow> 'a word ring" where
  "rg_align i a r = rg_incr i ((a - (rg_ptr i 0 r mod a)) mod a) r"

definition rg_updateTail :: "'a::len word ring \<Rightarrow> 'a word ring" where
  "rg_updateTail r =
     (let avail = fold (\<lambda>i avail. let tmp = rg_available rg_HEAD i r in if tmp > avail then tmp else avail) [1..<rg_TAIL r] 0
      in rg_incr (rg_TAIL r) (rg_available rg_HEAD (rg_TAIL r) r - avail) r)"

section \<open>The abstract view\<close>

definition ptr_at :: "'a::len word \<Rightarrow> 'a word ring_ptr \<Rightarrow> nat \<Rightarrow> bool" where
  "ptr_at num p n \<longleftrightarrow> ptrVal p = of_nat n \<and> unat (ptrAdjust p) < unat num \<and>
     (unat (ptrVal p) + unat (ptrAdjust p)) mod unat num = n mod unat num"

text \<open>Rings of at most half the range of the counter, so that the sums of indices do not overflow.\<close>

definition ring_ok :: "'a::len word ring \<Rightarrow> bool" where
  "ring_ok r \<longleftrightarrow> 0 < unat (rg_num r) \<and> 2 * unat (rg_num r) \<le> 2 ^ LENGTH('a)"

definition ring_at :: "'a::len word ring \<Rightarrow> nat list \<Rightarrow> bool" where
  "ring_at r ns \<longleftrightarrow> ring_ok r \<and> list_all2 (ptr_at (rg_num r)) (rg_ptrs r) ns"

text \<open>Positions within one length of the ring have different indices.\<close>

lemma mod_window:
  fixes i :: nat
  assumes "i mod n = j mod n" and "i \<le> j" and "j < i + n"
  shows "i = j"
proof (rule ccontr)
  assume "i \<noteq> j"
  then have "0 < j - i" using assms(2) by simp
  moreover have "n dvd j - i" using assms(1,2) by (metis mod_eq_dvd_iff_nat)
  ultimately have "n \<le> j - i" by (rule dvd_imp_le [rotated])
  then show False using assms(2,3) by linarith
qed

lemma ptr_at_new: "0 < unat num \<Longrightarrow> ptr_at num rp_new 0"
  by (simp add: ptr_at_def rp_new_def)

lemma ptr_at_incr:
  fixes num :: "'a::len word"
  assumes "ptr_at num p n" and "0 < unat num" and "2 * unat num \<le> 2 ^ LENGTH('a)"
  shows "ptr_at num (rp_incr num a p) (n + unat a)"
proof -
  let ?N = "unat num" and ?L = "2 ^ LENGTH('a) :: nat" and ?v = "unat (ptrVal p)" and ?d = "unat (ptrAdjust p)"
  have val: "ptrVal p + a = of_nat (n + unat a)" using assms(1) by (simp add: ptr_at_def)
  have inv: "?d < ?N" "(?v + ?d) mod ?N = n mod ?N" using assms(1) unfolding ptr_at_def by blast+
  have lt: "?v < ?L" "unat a < ?L" by simp_all
  show ?thesis
  proof (cases "ptrVal p + a < ptrVal p")
    case False
    moreover have "unat (ptrVal p + a) < ?v" if "\<not> ?v + unat a < ?L"
      using that lt(2) unfolding unat_plus_if' by (simp only: if_False)
    ultimately have "unat (ptrVal p + a) = ?v + unat a" by (metis word_less_nat_alt unat_plus_if')
    moreover have "(?v + unat a + ?d) mod ?N = (n + unat a) mod ?N"
      using inv(2) by (metis (no_types, lifting) add.commute add.left_commute mod_add_right_eq)
    ultimately show ?thesis using False val inv(1) by (simp add: rp_incr_def Let_def ptr_at_def)
  next
    case True
    then have wrap: "unat (ptrVal p + a) + ?L = ?v + unat a"
      by (simp add: word_less_nat_alt unat_plus_if' split: if_splits)
    let ?m = "unat (- 1 mod num)"
    have m: "?m = (?L - 1) mod ?N" by (simp add: unat_mod unsigned_minus_1_eq_mask mask_eq_exp_minus_1)
    have "?m < ?N" using assms(2) m by simp
    then have small: "?d + ?m + 1 < ?L" using inv(1) assms(3) by simp
    have "unat (ptrAdjust p + (- 1 mod num) + 1) = ?d + ?m + 1"
      using small by (simp add: unat_word_ariths)
    then have adj: "unat ((ptrAdjust p + (- 1 mod num) + 1) mod num) = (?d + ?m + 1) mod ?N" by (simp add: unat_mod)
    have "(?d + ?m + 1) mod ?N = (?d + ?L) mod ?N"
    proof -
      have "(?d + ?m + 1) mod ?N = (?d + 1 + (?L - 1)) mod ?N" using mod_add_right_eq [of "?d + 1" "?L - 1" ?N] by (simp add: m ac_simps)
      moreover have "?d + 1 + (?L - 1) = ?d + ?L" by simp
      ultimately show ?thesis by simp
    qed
    then have "(unat (ptrVal p + a) + (?d + ?m + 1) mod ?N) mod ?N = (unat (ptrVal p + a) + ?L + ?d) mod ?N"
      using mod_add_right_eq [of "unat (ptrVal p + a)" "?d + ?L" ?N] mod_add_right_eq [of "unat (ptrVal p + a)" "?d + ?m + 1" ?N]
      by (metis add.assoc add.commute)
    also have "\<dots> = (?v + ?d + unat a) mod ?N" using wrap by (simp add: ac_simps)
    also have "\<dots> = (n + unat a) mod ?N" using inv(2) by (metis mod_add_left_eq)
    finally show ?thesis using True val adj assms(2) by (simp add: rp_incr_def Let_def ptr_at_def)
  qed
qed

lemma ptr_at_ptr:
  fixes num :: "'a::len word"
  assumes "ptr_at num p n" and "0 < unat num" and "2 * unat num + unat off \<le> 2 ^ LENGTH('a)"
  shows "unat (rp_ptr num off p) = (n + unat off) mod unat num"
proof -
  let ?N = "unat num"
  have inv: "unat (ptrAdjust p) < ?N" "(unat (ptrVal p) + unat (ptrAdjust p)) mod ?N = n mod ?N"
    using assms(1) unfolding ptr_at_def by blast+
  have "unat (ptrVal p) mod ?N < ?N" using assms(2) by simp
  then have "unat (ptrVal p) mod ?N + unat (ptrAdjust p) + unat off < 2 ^ LENGTH('a)" using inv(1) assms(3) by linarith
  then have "unat (ptrVal p mod num + ptrAdjust p + off) = unat (ptrVal p) mod ?N + unat (ptrAdjust p) + unat off"
    by (simp add: unat_word_ariths unat_mod)
  then have "unat (rp_ptr num off p) = (unat (ptrVal p) mod ?N + unat (ptrAdjust p) + unat off) mod ?N"
    by (simp add: rp_ptr_def unat_mod)
  also have "\<dots> = (unat (ptrVal p) + unat (ptrAdjust p) + unat off) mod ?N" by (simp add: mod_simps add.assoc)
  also have "\<dots> = (n + unat off) mod ?N" using inv(2) by (metis mod_add_left_eq)
  finally show ?thesis .
qed


lemma ring_at_new: "ring_ok (rg_new n num) \<Longrightarrow> ring_at (rg_new n num) (replicate n 0)"
  by (simp add: ring_at_def ring_ok_def rg_new_def list_all2_conv_all_nth ptr_at_new)

lemma ring_at_clear: "ring_ok (rg_clear num r) \<Longrightarrow> ring_at (rg_clear num r) (replicate (length (rg_ptrs r)) 0)"
  by (simp add: ring_at_def ring_ok_def rg_clear_def list_all2_conv_all_nth ptr_at_def rp_clear_def)

lemma ring_at_length: "ring_at r ns \<Longrightarrow> length ns = length (rg_ptrs r)"
  by (auto simp: ring_at_def list_all2_lengthD)

lemma rg_incr_num [simp]: "rg_num (rg_incr i a r) = rg_num r" "length (rg_ptrs (rg_incr i a r)) = length (rg_ptrs r)"
  by (simp_all add: rg_incr_def)

lemma ring_at_incr:
  assumes "ring_at r ns" and "i < length ns"
  shows "ring_at (rg_incr i a r) (ns[i := ns ! i + unat a])"
  using assms ptr_at_incr [of "rg_num r" "rg_ptrs r ! i" "ns ! i" a]
  by (auto simp: ring_at_def ring_ok_def rg_incr_def list_all2_conv_all_nth nth_list_update)

lemma ring_at_ptr:
  fixes r :: "'a::len word ring"
  assumes "ring_at r ns" and "i < length ns" and "2 * unat (rg_num r) + unat off \<le> 2 ^ LENGTH('a)"
  shows "unat (rg_ptr i off r) = (ns ! i + unat off) mod unat (rg_num r)"
  using assms ptr_at_ptr [of "rg_num r" "rg_ptrs r ! i" "ns ! i" off] by (auto simp: ring_at_def ring_ok_def rg_ptr_def list_all2_conv_all_nth)

lemma ring_at_index: "ring_at r ns \<Longrightarrow> i < length ns \<Longrightarrow> unat (rg_ptr i 0 r) = ns ! i mod unat (rg_num r)"
  using ring_at_ptr [of r ns i 0] by (simp add: ring_at_def ring_ok_def)

lemma ring_at_available:
  fixes r :: "'a::len word ring"
  assumes "ring_at r ns" and "i < length ns" and "j < length ns" and "ns ! j \<le> ns ! i" and "ns ! i - ns ! j < 2 ^ LENGTH('a)"
  shows "unat (rg_available i j r) = ns ! i - ns ! j"
proof -
  have "rg_available i j r = of_nat (ns ! i) - of_nat (ns ! j)"
    using assms(1-3) by (auto simp: ring_at_def rg_available_def rg_value_def list_all2_conv_all_nth ptr_at_def)
  then have "rg_available i j r = of_nat (ns ! i - ns ! j)" using assms(4) by simp
  then show ?thesis using assms(5) by (simp add: unat_of_nat)
qed

lemma ring_at_negAvailable:
  fixes r :: "'a::len word ring"
  assumes "ring_at r ns" and "i < length ns" and "j < length ns" and "ns ! j \<le> ns ! i" and "ns ! i - ns ! j \<le> unat (rg_num r)"
  shows "unat (rg_negAvailable i j r) = unat (rg_num r) - (ns ! i - ns ! j)"
proof -
  have "unat (rg_num r) < 2 ^ LENGTH('a)" by (rule unsigned_less)
  then have "ns ! i - ns ! j < 2 ^ LENGTH('a)" using assms(5) by linarith
  then have "unat (rg_available i j r) = ns ! i - ns ! j" using assms ring_at_available [of r ns i j] by simp
  then show ?thesis using assms(5) by (simp add: rg_negAvailable_def unat_sub word_le_nat_alt)
qed


section \<open>BufferQ and BufferPool\<close>

text \<open>
  A queue of buffers: \<^verbatim>\<open>get\<close> takes at the head, \<^verbatim>\<open>put\<close> stores at the tail; neither checks anything. A pool of
  message buffers, \<^verbatim>\<open>src/co/rdmaConnection.h\<close>, keeps the numbers of its free buffers in such a queue.
\<close>

record ('w, 'b) buffer_q =
  bq_ring :: "'w ring"
  bq_buffer :: "'b list"

definition bq_new :: "'a::len word \<Rightarrow> ('a word, 'b) buffer_q" where
  "bq_new num = \<lparr>bq_ring = rg_new 2 num, bq_buffer = replicate (unat num) undefined\<rparr>"

definition bq_get :: "('a::len word, 'b) buffer_q \<Rightarrow> 'b \<times> ('a word, 'b) buffer_q" where
  "bq_get q = (bq_buffer q ! unat (rg_ptr rg_HEAD 0 (bq_ring q)), q\<lparr>bq_ring := rg_incr rg_HEAD 1 (bq_ring q)\<rparr>)"

definition bq_put :: "'b \<Rightarrow> ('a::len word, 'b) buffer_q \<Rightarrow> ('a word, 'b) buffer_q" where
  "bq_put val q =
     q\<lparr>bq_buffer := (bq_buffer q)[unat (rg_ptr (rg_TAIL (bq_ring q)) 0 (bq_ring q)) := val],
       bq_ring := rg_incr (rg_TAIL (bq_ring q)) 1 (bq_ring q)\<rparr>"

definition bq_clear :: "'a::len word \<Rightarrow> ('a word, 'b) buffer_q \<Rightarrow> ('a word, 'b) buffer_q" where
  "bq_clear num q =
     q\<lparr>bq_buffer := (if num \<noteq> rg_num (bq_ring q) then replicate (unat num) undefined else bq_buffer q),
       bq_ring := rg_clear num (bq_ring q)\<rparr>"

text \<open>The ring of free buffers of a \<^verbatim>\<open>BufferPool\<close>; whether the memory could be allocated and registered are the first two arguments.\<close>

definition bp_resize :: "bool \<Rightarrow> bool \<Rightarrow> nat \<Rightarrow> (uint64, nat) buffer_q \<Rightarrow> bool \<times> (uint64, nat) buffer_q" where
  "bp_resize allocated registered num_bufs q =
     (let q = bq_clear 0 q
      in if num_bufs = 0 then (True, q)
         else let q = bq_clear (of_nat num_bufs) q
              in if \<not> allocated \<or> \<not> registered then (False, q) else (True, fold bq_put [0..<num_bufs] q))"

text \<open>What users of a bounded queue rely on, and what it gives to a pool.\<close>

locale bounded_fifo =
  fixes ok :: "'q \<Rightarrow> bool" and content :: "'q \<Rightarrow> 'b list" and limit :: "'q \<Rightarrow> nat"
    and put :: "'b \<Rightarrow> 'q \<Rightarrow> 'q" and get :: "'q \<Rightarrow> 'b \<times> 'q"
  assumes put: "ok q \<Longrightarrow> length (content q) < limit q \<Longrightarrow>
      ok (put v q) \<and> content (put v q) = content q @ [v] \<and> limit (put v q) = limit q"
    and get: "ok q \<Longrightarrow> content q = b # bs \<Longrightarrow> get q = (b', q') \<Longrightarrow> b' = b \<and> ok q' \<and> content q' = bs \<and> limit q' = limit q"
begin

lemma put_all:
  "ok q \<Longrightarrow> length (content q) + length vs \<le> limit q \<Longrightarrow>
   ok (fold put vs q) \<and> content (fold put vs q) = content q @ vs \<and> limit (fold put vs q) = limit q"
proof (induction vs arbitrary: q)
  case (Cons v vs)
  with put [of q v] show ?case by simp
qed simp

text \<open>A pool hands out what nobody uses, and takes back what somebody uses.\<close>

definition pool :: "'b set \<Rightarrow> 'b list \<Rightarrow> 'q \<Rightarrow> bool" where
  "pool B used q \<longleftrightarrow> ok q \<and> distinct (used @ content q) \<and> set (used @ content q) = B \<and> card B = limit q"

lemma pool_get:
  assumes "pool B used q" and "content q \<noteq> []" and "get q = (b, q')"
  shows "b \<notin> set used \<and> pool B (b # used) q'"
proof -
  from assms(2) obtain b' bs where c: "content q = b' # bs" by (cases "content q") auto
  with get [of q b' bs b q'] assms show ?thesis by (auto simp: pool_def)
qed

lemma pool_put:
  assumes "pool B used q" and "b \<in> set used"
  shows "pool B (remove1 b used) (put b q)"
proof -
  have d: "distinct (used @ content q)" "set (used @ content q) = B" "card B = limit q" "ok q" using assms(1) by (auto simp: pool_def)
  then have "length used + length (content q) = limit q" by (metis distinct_card length_append)
  moreover have "0 < length used" using assms(2) by (cases used) auto
  ultimately have "length (content q) < limit q" by linarith
  with put [of q b] d assms(2) show ?thesis by (auto simp: pool_def)
qed

end

definition bq_ok :: "('a::len word, 'b) buffer_q \<Rightarrow> bool" where
  "bq_ok q \<longleftrightarrow> (\<exists>h t. ring_at (bq_ring q) [h, t] \<and> h \<le> t \<and> t - h \<le> unat (rg_num (bq_ring q))) \<and>
     length (bq_buffer q) = unat (rg_num (bq_ring q))"

definition bq_content :: "('a::len word, 'b) buffer_q \<Rightarrow> 'b list" where
  "bq_content q =
     map (\<lambda>k. bq_buffer q ! ((unat (rg_ptr rg_HEAD 0 (bq_ring q)) + k) mod unat (rg_num (bq_ring q))))
       [0..<unat (rg_available (rg_TAIL (bq_ring q)) rg_HEAD (bq_ring q))]"

definition bq_limit :: "('a::len word, 'b) buffer_q \<Rightarrow> nat" where
  "bq_limit q = unat (rg_num (bq_ring q))"

lemma bq_content_at:
  fixes q :: "('a::len word, 'b) buffer_q"
  assumes "ring_at (bq_ring q) [h, t]" and "h \<le> t" and "t - h \<le> bq_limit q"
  shows "bq_content q = map (\<lambda>i. bq_buffer q ! (i mod bq_limit q)) [h..<t]"
    and "rg_TAIL (bq_ring q) = 1"
proof -
  show tail: "rg_TAIL (bq_ring q) = 1" using ring_at_length [OF assms(1)] by (simp add: rg_TAIL_def)
  have "unat (rg_num (bq_ring q)) < 2 ^ LENGTH('a)" by (rule unsigned_less)
  then have "t - h < 2 ^ LENGTH('a)" using assms(3) unfolding bq_limit_def by linarith
  then have n: "unat (rg_available 1 0 (bq_ring q)) = t - h"
    using ring_at_available [OF assms(1), of 1 0] assms(2) by simp
  have "unat (rg_ptr 0 0 (bq_ring q)) = h mod bq_limit q" using ring_at_index [OF assms(1), of 0] by (simp add: bq_limit_def)
  then show "bq_content q = map (\<lambda>i. bq_buffer q ! (i mod bq_limit q)) [h..<t]"
    using n assms(2) unfolding bq_content_def tail rg_HEAD_def bq_limit_def [symmetric]
    by (intro nth_equalityI) (simp_all add: mod_add_left_eq)
qed

interpretation bq: bounded_fifo bq_ok bq_content bq_limit bq_put bq_get
proof
  fix q :: "('a::len word, 'b) buffer_q" and v b b' :: 'b and bs q'
  assume ok: "bq_ok q"
  then obtain h t where at: "ring_at (bq_ring q) [h, t]" "h \<le> t" "t - h \<le> bq_limit q" and len: "length (bq_buffer q) = bq_limit q"
    by (auto simp: bq_ok_def bq_limit_def)
  note c = bq_content_at [OF at]
  have pos: "0 < bq_limit q" using at(1) by (simp add: ring_at_def ring_ok_def bq_limit_def)
  have one: "unat (1 :: 'a word) = 1" by simp
  {
    assume room: "length (bq_content q) < bq_limit q"
    let ?q = "bq_put v q"
    have full: "t < h + bq_limit q" using room c(1) by simp
    have at': "ring_at (bq_ring ?q) [h, Suc t]" using ring_at_incr [OF at(1), of 1 1] by (simp add: bq_put_def c(2) one)
    have lim: "bq_limit ?q = bq_limit q" by (simp add: bq_put_def bq_limit_def)
    have "unat (rg_ptr 1 0 (bq_ring q)) = t mod bq_limit q" using ring_at_index [OF at(1), of 1] by (simp add: bq_limit_def)
    then have buf: "bq_buffer ?q = (bq_buffer q)[t mod bq_limit q := v]" by (simp add: bq_put_def c(2))
    have "bq_buffer ?q ! (i mod bq_limit q) = bq_buffer q ! (i mod bq_limit q)" if "h \<le> i" "i < t" for i
    proof -
      have "i mod bq_limit q \<noteq> t mod bq_limit q" using mod_window [of i "bq_limit q" t] that full by auto
      then show ?thesis by (simp add: buf)
    qed
    then have "map (\<lambda>i. bq_buffer ?q ! (i mod bq_limit q)) [h..<Suc t] = map (\<lambda>i. bq_buffer q ! (i mod bq_limit q)) [h..<t] @ [v]"
      using at(2) pos len by (simp add: buf)
    then have "bq_content ?q = bq_content q @ [v]"
      using bq_content_at(1) [OF at'] at(2) full lim c(1) by simp
    moreover have "bq_ok ?q" unfolding bq_ok_def
      using at' at(2) full lim len by (intro conjI exI [of _ h] exI [of _ "Suc t"]) (auto simp: bq_limit_def [symmetric] buf)
    ultimately show "bq_ok (bq_put v q) \<and> bq_content (bq_put v q) = bq_content q @ [v] \<and> bq_limit (bq_put v q) = bq_limit q"
      using lim by simp
  }
  {
    assume cont: "bq_content q = b # bs" and run: "bq_get q = (b', q')"
    have lt: "h < t" using cont c(1) at(2) by (metis le_neq_implies_less list.distinct(1) list.simps(8) upt_conv_Nil order_refl)
    have at': "ring_at (bq_ring q') [Suc h, t]" using ring_at_incr [OF at(1), of 0 1] run by (simp add: bq_get_def rg_HEAD_def one split: prod.splits) auto
    have q': "bq_limit q' = bq_limit q" "bq_buffer q' = bq_buffer q" using run by (auto simp: bq_get_def bq_limit_def)
    have "b' = bq_buffer q ! (h mod bq_limit q)"
      using run ring_at_index [OF at(1), of 0] by (auto simp: bq_get_def rg_HEAD_def bq_limit_def)
    moreover have "bq_content q = bq_buffer q ! (h mod bq_limit q) # bq_content q'"
      using c(1) bq_content_at(1) [OF at'] lt at(3) q' by (simp add: upt_conv_Cons)
    moreover have "bq_ok q'" unfolding bq_ok_def
      using at' lt at(3) q' len by (intro conjI exI [of _ "Suc h"] exI [of _ t]) (auto simp: bq_limit_def [symmetric])
    ultimately show "b' = b \<and> bq_ok q' \<and> bq_content q' = bs \<and> bq_limit q' = bq_limit q" using cont q' by simp
  }
qed


section \<open>Message buffers\<close>

inductive bp_reach :: "nat \<Rightarrow> (uint64, nat) buffer_q \<Rightarrow> nat list \<Rightarrow> bool" for num_bufs :: nat where
  resize: "bp_resize allocated registered num_bufs (bq_new 0) = (True, q) \<Longrightarrow> bp_reach num_bufs q []"
| getBuffer: "bp_reach num_bufs q used \<Longrightarrow> length used < num_bufs \<Longrightarrow> bq_get q = (b, q') \<Longrightarrow> bp_reach num_bufs q' (b # used)"
| freeBuffer: "bp_reach num_bufs q used \<Longrightarrow> b \<in> set used \<Longrightarrow> bp_reach num_bufs (bq_put b q) (remove1 b used)"

lemma bp_resize_content:
  assumes "0 < num_bufs" and "2 * num_bufs \<le> 2 ^ 64" and "bp_resize allocated registered num_bufs (bq_new 0) = (True, q)"
  shows "bq.pool {..<num_bufs} [] q"
proof -
  let ?q = "bq_clear (of_nat num_bufs) (bq_clear 0 (bq_new 0)) :: (uint64, nat) buffer_q"
  have q: "q = fold bq_put [0..<num_bufs] ?q" using assms(1,3) by (auto simp: bp_resize_def Let_def split: if_splits)
  have n: "unat (of_nat num_bufs :: uint64) = num_bufs" using assms(1,2) by (simp add: unat_of_nat)
  then have nz: "(of_nat num_bufs :: uint64) \<noteq> 0" using assms(1) by auto
  have at: "ring_at (bq_ring ?q) [0, 0]"
  proof -
    have r: "bq_ring ?q = rg_clear (of_nat num_bufs) (rg_clear 0 (rg_new 2 0))" by (simp add: bq_clear_def bq_new_def)
    have "ring_ok (bq_ring ?q)" unfolding r ring_ok_def using assms(1,2) n by (simp add: rg_clear_def)
    moreover have "replicate (length (rg_ptrs (rg_clear 0 (rg_new 2 0) :: uint64 ring))) 0 = [0 :: nat, 0]"
      by (simp add: rg_clear_def rg_new_def numeral_2_eq_2)
    ultimately show ?thesis using ring_at_clear unfolding r by metis
  qed
  have lim: "bq_limit ?q = num_bufs" using n by (simp add: bq_limit_def bq_clear_def rg_clear_def)
  have ok: "bq_ok ?q" unfolding bq_ok_def
    using at n nz by (intro conjI exI [of _ 0]) (simp_all add: bq_clear_def rg_clear_def bq_new_def rg_new_def)
  have "bq_content ?q = []" using bq_content_at(1) [OF at] by simp
  with bq.put_all [OF ok, of "[0..<num_bufs]"] lim show ?thesis by (simp add: bq.pool_def q lessThan_atLeast0)
qed

lemma pool_length: "bq.pool {..<n} used q \<Longrightarrow> length (used @ bq_content q) = n"
  using distinct_card [of "used @ bq_content q"] unfolding bq.pool_def by simp

lemma bp_reach_pool:
  assumes "bp_reach num_bufs q used" and "0 < num_bufs" and "2 * num_bufs \<le> 2 ^ 64"
  shows "bq.pool {..<num_bufs} used q"
  using assms(1)
proof (induction rule: bp_reach.induct)
  case (resize allocated registered q)
  then show ?case using bp_resize_content assms(2,3) by blast
next
  case (getBuffer q used b q')
  have "length (used @ bq_content q) = num_bufs" using getBuffer.IH by (rule pool_length)
  with getBuffer.hyps(2) have "bq_content q \<noteq> []" by auto
  from bq.pool_get [OF getBuffer.IH this getBuffer.hyps(3)] show ?case by (rule conjunct2)
next
  case (freeBuffer q used b)
  show ?case by (rule bq.pool_put [OF freeBuffer.IH freeBuffer.hyps(2)])
qed

text \<open>
  A message buffer is never handed out while it is in use, as long as no more buffers are asked for than there are.
\<close>

lemma buffer_pool_exclusive:
  assumes "bp_reach num_bufs q used" and "length used < num_bufs" and "2 * num_bufs \<le> 2 ^ 64" and "bq_get q = (b, q')"
  shows "b < num_bufs \<and> b \<notin> set used"
proof -
  have p: "bq.pool {..<num_bufs} used q" using bp_reach_pool assms(1-3) by simp
  then have "length (used @ bq_content q) = num_bufs" by (rule pool_length)
  then have ne: "bq_content q \<noteq> []" using assms(2) by auto
  have fresh: "b \<notin> set used" "bq.pool {..<num_bufs} (b # used) q'" using bq.pool_get [OF p ne assms(4)] by blast+
  then show ?thesis by (auto simp: bq.pool_def)
qed

section \<open>Ring pointers count modulo the length of the ring\<close>

text \<open>
  C35 (ring_pointer_index): after any sequence of increments the index of a ring pointer is the sum of the increments modulo the
  length of the ring, although the counter itself wraps at a power of two the length need not divide.
\<close>

theorem ring_pointer_index:
  fixes num :: uint32
  assumes "0 < num" and "num \<le> 2 ^ 31"
  shows "unat (rp_ptr num 0 (fold (rp_incr num) amounts rp_new)) = sum_list (map unat amounts) mod unat num"
proof -
  have num: "0 < unat num" "2 * unat num \<le> 2 ^ LENGTH(32)"
    using assms by (simp_all add: word_less_nat_alt word_le_nat_alt)
  have "ptr_at num (fold (rp_incr num) amounts p) (n + sum_list (map unat amounts))" if "ptr_at num p n" for p n
    using that
  proof (induction amounts arbitrary: p n)
    case (Cons a amounts)
    from Cons.IH [OF ptr_at_incr [OF Cons.prems num]] show ?case by (simp add: add.assoc)
  qed simp
  from ptr_at_ptr [OF this [OF ptr_at_new [OF num(1)]] num(1), of 0] num(2) show ?thesis by simp
qed

theorem ring_pointer_index_witness:
  "unat (rp_ptr 1000 0 (fold (rp_incr 1000) [4294967295, 300, 500] rp_new) :: uint32) = 95"
  using ring_pointer_index [of 1000 "[4294967295, 300, 500]"] by simp

end
