(* ===== verification/RDMA_Connection.thy ===== *)
theory RDMA_Connection
  imports Ring_Buffer Connection_IO
begin

text \<open>
  Connections over remote memory writes, \<^verbatim>\<open>src/co/rdmaConnection.cpp\<close>: the sender copies data into a
  ring, has the adapter write it into a ring of the same size at the receiver, and learns from flow control messages how much of it has been read.
  Both kinds of message are limited by credits, since each uses up a receive posted at the other end. Posted requests and completions are queues of the
  record; what the adapter and the connection manager answer in one pass of a retry loop is an \<open>rdma_env\<close>.
\<close>

section \<open>Messages\<close>

definition MAX_BS :: nat where "MAX_BS = 2 ^ 28 - 1"
definition MAX_FC :: uint16 where "MAX_FC = 15"
definition FC_MESSAGE_FREQUENCY :: uint32 where "FC_MESSAGE_FREQUENCY = 12"

record rdma_setup =
  su_rbase :: uint64
  su_rlen :: uint64
  su_rkey :: uint64

record rdma_fc =
  fc_bytes_received :: uint32
  fc_writes_received :: uint32

text \<open>A message is its opcode with the length field and the payload of that opcode.\<close>

datatype rdma_message = SETUP nat rdma_setup | FC nat rdma_fc | OtherMessage

text \<open>The immediate data of a write: 28 bits of byte count, 4 bits of flow control count.\<close>

definition imm_make :: "uint32 \<Rightarrow> uint16 \<Rightarrow> uint32" where
  "imm_make bytes_sent fcs_received = take_bit 28 bytes_sent OR push_bit 28 (ucast (take_bit 4 fcs_received))"

definition imm_bytes_sent :: "uint32 \<Rightarrow> uint32" where
  "imm_bytes_sent val = take_bit 28 val"

definition imm_fcs_received :: "uint32 \<Rightarrow> uint32" where
  "imm_fcs_received val = drop_bit 28 val"

text \<open>Work requests and their completions.\<close>

datatype rdma_wr = WR_RDMA_WRITE uint32 uint32 uint32 uint64 | WR_SEND rdma_message

datatype rdma_wc = WC_RECV_RDMA_WITH_IMM uint32 | WC_RECV rdma_message | WC_SEND | WC_RDMA_WRITE uint64
  | WC_FLUSH_ERR | WC_FATAL

section \<open>State\<close>

record rdma =
  rd_state :: connection_state
  rd_established :: bool
  rd_depth :: int
  rd_writes :: int
  rd_fcs :: int
  rd_wcredits :: int
  rd_fcredits :: int
  rd_readBytes :: uint64
  rd_pipe :: "uint64 list"
  rd_sourcebuf :: bytes
  rd_sourceptr :: "uint32 ring"
  rd_sinkbase :: uint64
  rd_sinkbuf :: bytes
  rd_sinkptr :: "uint32 ring"
  rd_rptr :: "uint32 ring"
  rd_rbase :: uint64
  rd_rkey :: uint64
  rd_sq :: "rdma_wr list"
  rd_cq :: "rdma_wc list"
  rd_receives :: nat

datatype rdma_cm_event = CM_DISCONNECTED | CM_OTHER

record rdma_env =
  ev_events_ok :: bool
  ev_cm :: "rdma_cm_event option"
  ev_cq :: bool
  ev_rearm_ok :: bool
  ev_poll_ok :: bool
  ev_recv_ok :: bool
  ev_send_ok :: bool
  ev_timeout :: bool

abbreviation (input) source_MIDDLE :: nat where "source_MIDDLE \<equiv> 1"
abbreviation (input) source_TAIL :: nat where "source_TAIL \<equiv> 2"
abbreviation (input) sink_TAIL :: nat where "sink_TAIL \<equiv> 1"

definition rdma_new :: "uint64 \<Rightarrow> uint64 \<Rightarrow> rdma" where
  "rdma_new sinkbase rkey =
     \<lparr>rd_state = CLOSED, rd_established = False, rd_depth = 0, rd_writes = 0, rd_fcs = 0, rd_wcredits = 0, rd_fcredits = 0,
      rd_readBytes = 0, rd_pipe = [], rd_sourcebuf = [], rd_sourceptr = rg_new 3 0, rd_sinkbase = sinkbase, rd_sinkbuf = [],
      rd_sinkptr = rg_new 2 0, rd_rptr = rg_new 2 0, rd_rbase = 0, rd_rkey = 0, rd_sq = [], rd_cq = [], rd_receives = 0\<rparr>"

definition rd_initProtocol :: "int \<Rightarrow> rdma \<Rightarrow> rdma option" where
  "rd_initProtocol depth c =
     (if depth < 2 then None
      else Some (c\<lparr>rd_depth := depth, rd_writes := 0, rd_fcs := 0, rd_readBytes := 0,
                   rd_wcredits := depth div 2 - 2, rd_fcredits := depth div 2 + 2\<rparr>))"

text \<open>\<^verbatim>\<open>RingBuffer::resize\<close> maps and clears the memory; the first byte is left over from its self-test.\<close>

definition rb_resize :: "nat \<Rightarrow> bytes" where
  "rb_resize n = (replicate n 0)[0 := 0x45]"

definition rd_initBuffers :: "nat \<Rightarrow> rdma \<Rightarrow> rdma option" where
  "rd_initBuffers rbs c =
     (if rbs = 0 then None
      else Some (c\<lparr>rd_sourcebuf := rb_resize rbs, rd_sinkbuf := rb_resize rbs,
                   rd_sourceptr := rg_clear (of_nat rbs) (rd_sourceptr c), rd_sinkptr := rg_clear (of_nat rbs) (rd_sinkptr c)\<rparr>))"

definition rd_close :: "rdma \<Rightarrow> rdma" where
  "rd_close c =
     (if rd_state c = CLOSED then c
      else c\<lparr>rd_state := CLOSED, rd_sourcebuf := [], rd_sinkbuf := [], rd_rptr := rg_new 2 0, rd_rbase := 0, rd_rkey := 0,
             rd_sq := [], rd_cq := [], rd_receives := 0\<rparr>)"

section \<open>Protocol\<close>

definition rd_needFC :: "rdma \<Rightarrow> bool" where
  "rd_needFC c \<longleftrightarrow> rd_pipe c = [] \<or> FC_MESSAGE_FREQUENCY \<le> (of_int (rd_writes c) :: uint32)"

definition rd_postReceives :: "rdma_env \<Rightarrow> nat \<Rightarrow> rdma \<Rightarrow> bool \<times> rdma" where
  "rd_postReceives ev n c = (if ev_recv_ok ev then (True, c\<lparr>rd_receives := rd_receives c + n\<rparr>) else (False, c))"

definition rd_incrAvailableBytes :: "uint64 \<Rightarrow> rdma \<Rightarrow> rdma" where
  "rd_incrAvailableBytes b c = c\<lparr>rd_pipe := rd_pipe c @ [b]\<rparr>"

definition rd_getAvailableBytes :: "rdma \<Rightarrow> uint64 \<times> rdma" where
  "rd_getAvailableBytes c = (sum_list (rd_pipe c), c\<lparr>rd_pipe := []\<rparr>)"

definition rd_recvRDMAWrite :: "uint32 \<Rightarrow> rdma \<Rightarrow> rdma" where
  "rd_recvRDMAWrite imm_data c =
     (let b = imm_bytes_sent imm_data;
          c = c\<lparr>rd_sinkptr := rg_incr rg_HEAD b (rd_sinkptr c)\<rparr>;
          c = rd_incrAvailableBytes (ucast b) c
      in c\<lparr>rd_fcredits := rd_fcredits c + uint (imm_fcs_received imm_data), rd_writes := rd_writes c + 1\<rparr>)"

definition rd_makeImm :: "uint32 \<Rightarrow> rdma \<Rightarrow> uint32 \<times> rdma" where
  "rd_makeImm b c =
     (let fcs_received = min MAX_FC (of_int (rd_fcs c))
      in (imm_make b fcs_received, c\<lparr>rd_fcs := rd_fcs c - uint fcs_received\<rparr>))"

definition rd_postRDMAWrite :: "rdma_env \<Rightarrow> rdma \<Rightarrow> bool \<times> rdma" where
  "rd_postRDMAWrite ev c =
     (let addr = rg_ptr source_MIDDLE 0 (rd_sourceptr c);
          len = rg_available rg_HEAD source_MIDDLE (rd_sourceptr c);
          c = c\<lparr>rd_sourceptr := rg_incr source_MIDDLE len (rd_sourceptr c)\<rparr>
      in case rd_makeImm len c of (imm_data, c) \<Rightarrow>
        (let remote_addr = rd_rbase c + ucast (rg_ptr rg_HEAD 0 (rd_rptr c));
             c = c\<lparr>rd_rptr := rg_incr rg_HEAD len (rd_rptr c), rd_wcredits := rd_wcredits c - 1\<rparr>
         in if ev_send_ok ev then (True, c\<lparr>rd_sq := rd_sq c @ [WR_RDMA_WRITE addr len imm_data remote_addr]\<rparr>) else (False, c)))"

definition rd_postMessage :: "rdma_env \<Rightarrow> rdma_message \<Rightarrow> rdma \<Rightarrow> bool \<times> rdma" where
  "rd_postMessage ev message c =
     (let c = c\<lparr>rd_fcredits := rd_fcredits c - 1\<rparr>
      in if ev_send_ok ev then (True, c\<lparr>rd_sq := rd_sq c @ [WR_SEND message]\<rparr>) else (False, c))"

definition rd_recvFC :: "rdma_fc \<Rightarrow> rdma \<Rightarrow> rdma" where
  "rd_recvFC fc c =
     c\<lparr>rd_rptr := rg_incr sink_TAIL (fc_bytes_received fc) (rd_rptr c),
       rd_wcredits := rd_wcredits c + uint (fc_writes_received fc), rd_fcs := rd_fcs c + 1\<rparr>"

definition rd_recvSetup :: "rdma_setup \<Rightarrow> rdma \<Rightarrow> rdma" where
  "rd_recvSetup setup c =
     c\<lparr>rd_rbase := su_rbase setup, rd_rptr := rg_clear (ucast (su_rlen setup)) (rd_rptr c), rd_rkey := su_rkey setup\<rparr>"

fun rd_recvMessage :: "rdma_message \<Rightarrow> rdma \<Rightarrow> rdma" where
  "rd_recvMessage (FC len fc) c = (if len = 8 then rd_recvFC fc c else c)"
| "rd_recvMessage (SETUP len setup) c = (if len = 24 then rd_recvSetup setup c else c)"
| "rd_recvMessage OtherMessage c = c"

definition rd_postFC :: "rdma_env \<Rightarrow> rdma \<Rightarrow> bool \<times> rdma" where
  "rd_postFC ev c =
     (let fc = \<lparr>fc_bytes_received = ucast (rd_readBytes c), fc_writes_received = of_int (rd_writes c)\<rparr>;
          c = c\<lparr>rd_writes := rd_writes c - uint (fc_writes_received fc), rd_readBytes := 0\<rparr>
      in rd_postMessage ev (FC 8 fc) c)"

definition rd_postSetup :: "rdma_env \<Rightarrow> uint64 \<Rightarrow> rdma \<Rightarrow> bool \<times> rdma" where
  "rd_postSetup ev rkey c =
     rd_postMessage ev (SETUP 24 \<lparr>su_rbase = rd_sinkbase c, su_rlen = of_nat (length (rd_sinkbuf c)), su_rkey = rkey\<rparr>) c"

section \<open>Completions\<close>

text \<open>One completion: whether it was a receive, or \<^term>\<open>None\<close> for a fatal one.\<close>

fun rd_complete :: "rdma_wc \<Rightarrow> rdma \<Rightarrow> (bool \<times> rdma) option" where
  "rd_complete (WC_RECV_RDMA_WITH_IMM imm_data) c = Some (True, rd_recvRDMAWrite imm_data c)"
| "rd_complete (WC_RECV message) c = Some (True, rd_recvMessage message c)"
| "rd_complete WC_SEND c = Some (False, c)"
| "rd_complete (WC_RDMA_WRITE wr_id) c = Some (False, c\<lparr>rd_sourceptr := rg_incr source_TAIL (ucast wr_id) (rd_sourceptr c)\<rparr>)"
| "rd_complete WC_FLUSH_ERR c = Some (False, c)"
| "rd_complete WC_FATAL c = None"

fun rd_completions :: "rdma_wc list \<Rightarrow> nat \<Rightarrow> rdma \<Rightarrow> (nat \<times> rdma) option" where
  "rd_completions [] num_recvs c = Some (num_recvs, c)"
| "rd_completions (wc # wcs) num_recvs c =
     (case rd_complete wc c of
        None \<Rightarrow> None
      | Some (recv, c) \<Rightarrow> rd_completions wcs (if recv then num_recvs + 1 else num_recvs) c)"

text \<open>One poll of the completion queue, which returns at most \<^verbatim>\<open>_depth\<close> entries.\<close>

definition rd_poll :: "rdma_env \<Rightarrow> rdma \<Rightarrow> rdma option" where
  "rd_poll ev c =
     (if \<not> ev_poll_ok ev then None
      else let n = nat (rd_depth c)
           in case rd_completions (take n (rd_cq c)) 0 (c\<lparr>rd_cq := drop n (rd_cq c)\<rparr>) of
                None \<Rightarrow> None
              | Some (num_recvs, c) \<Rightarrow>
                  if num_recvs > 0 then (case rd_postReceives ev num_recvs c of (ok, c) \<Rightarrow> if ok then Some c else None) else Some c)"

text \<open>
  The completion queue of a connection that is not closed exists. With \<open>drain\<close> the queue is polled until it is empty; entries added meanwhile are part of the queue of the record, so that
  as many polls as there are entries, and one more, are enough.
\<close>

fun rd_pollLoop :: "nat \<Rightarrow> rdma_env \<Rightarrow> rdma \<Rightarrow> rdma option" where
  "rd_pollLoop 0 ev c = Some c"
| "rd_pollLoop (Suc n) ev c =
     (case rd_poll ev c of
        None \<Rightarrow> None
      | Some c' \<Rightarrow> if rd_cq c \<noteq> [] then rd_pollLoop n ev c' else Some c')"

definition rd_checkCQ :: "rdma_env \<Rightarrow> bool \<Rightarrow> rdma \<Rightarrow> rdma option" where
  "rd_checkCQ ev drain c = (if drain then rd_pollLoop (Suc (length (rd_cq c))) ev c else rd_poll ev c)"

definition rd_checkDisconnected :: "rdma_env \<Rightarrow> rdma \<Rightarrow> rdma option" where
  "rd_checkDisconnected ev c =
     (if \<not> ev_events_ok ev then None
      else case ev_cm ev of
        None \<Rightarrow> Some c
      | Some CM_DISCONNECTED \<Rightarrow> Some (c\<lparr>rd_established := False\<rparr>)
      | Some CM_OTHER \<Rightarrow> None)"

text \<open>Waiting for the setup message of the other end, at most as many passes as answers are given.\<close>

fun rd_waitRecvSetup :: "rdma_env list \<Rightarrow> rdma \<Rightarrow> (bool \<times> rdma) option" where
  "rd_waitRecvSetup [] c = None"
| "rd_waitRecvSetup (ev # evs) c =
     (case rd_checkDisconnected ev c of
        None \<Rightarrow> Some (False, c)
      | Some c \<Rightarrow>
          if \<not> rd_established c then Some (False, c)
          else case rd_checkCQ ev True c of
            None \<Rightarrow> Some (False, c)
          | Some c \<Rightarrow>
              if rd_rkey c = 0 then (if ev_timeout ev then Some (False, c) else rd_waitRecvSetup evs c) else Some (True, c))"

section \<open>Reading and writing\<close>

definition mem_write :: "nat \<Rightarrow> bytes \<Rightarrow> bytes \<Rightarrow> bytes" where
  "mem_write base bs m = take base m @ bs @ drop (base + length bs) m"

text \<open>The sink is mapped twice in a row, so a copy that passes its end goes on at its beginning.\<close>

definition rd_drain :: "nat \<Rightarrow> rdma \<Rightarrow> bytes \<times> rdma" where
  "rd_drain bytes c =
     (let b = min (of_nat bytes) (rg_available rg_HEAD sink_TAIL (rd_sinkptr c));
          start = unat (rg_ptr sink_TAIL 0 (rd_sinkptr c))
      in (map (\<lambda>i. rd_sinkbuf c ! ((start + i) mod length (rd_sinkbuf c))) [0..<unat b],
          c\<lparr>rd_sinkptr := rg_incr sink_TAIL b (rd_sinkptr c)\<rparr>))"

definition rd_fill :: "bytes \<Rightarrow> uint32 \<Rightarrow> rdma \<Rightarrow> uint32 \<times> rdma" where
  "rd_fill buffer bytes c =
     (let b = min bytes (min (rg_negAvailable rg_HEAD source_TAIL (rd_sourceptr c)) (rg_negAvailable rg_HEAD sink_TAIL (rd_rptr c)));
          start = rg_ptr rg_HEAD 0 (rd_sourceptr c);
          b = min b (of_nat (length (rd_sourcebuf c)) - start)
      in (b, c\<lparr>rd_sourcebuf := mem_write (unat start) (take (unat b) buffer) (rd_sourcebuf c),
               rd_sourceptr := rg_incr rg_HEAD b (rd_sourceptr c)\<rparr>))"

text \<open>A pass of a retry loop ends with an error, with another try, or with the number of bytes or the data.\<close>

datatype rdma_write_pass = WriteFailed | WriteRetry | WrotePut uint32

definition rd_writePass :: "rdma_env \<Rightarrow> bytes \<Rightarrow> rdma \<Rightarrow> rdma_write_pass \<times> rdma" where
  "rd_writePass ev buffer c =
     (if rd_state c \<noteq> CONNECTED then (WriteFailed, c)
      else case rd_checkDisconnected ev c of
        None \<Rightarrow> (WriteFailed, c)
      | Some c \<Rightarrow>
          if \<not> rd_established c then (WriteFailed, c)
          else case rd_checkCQ ev False c of
            None \<Rightarrow> (WriteFailed, c)
          | Some c \<Rightarrow>
              if rd_wcredits c = 0 then (if ev_timeout ev then WriteFailed else WriteRetry, c)
              else case rd_fill buffer (of_nat (min (length buffer) MAX_BS)) c of (bytes_put, c) \<Rightarrow>
                if bytes_put = 0 then (if ev_timeout ev then WriteFailed else WriteRetry, c)
                else case rd_postRDMAWrite ev c of (ok, c) \<Rightarrow> (if ok then WrotePut bytes_put else WriteFailed, c))"

fun rd_write :: "rdma_env list \<Rightarrow> bytes \<Rightarrow> rdma \<Rightarrow> (write_outcome \<times> rdma) option" where
  "rd_write [] buffer c = None"
| "rd_write (ev # evs) buffer c =
     (case rd_writePass ev buffer c of
        (WriteFailed, c) \<Rightarrow> Some (WriteError, c)
      | (WrotePut n, c) \<Rightarrow> Some (Wrote (unat n), c)
      | (WriteRetry, c) \<Rightarrow> rd_write evs buffer c)"

text \<open>
  A pass of \<^verbatim>\<open>readSync\<close> in two parts, since the thread that writes may poll completions between them: up to the number of bytes
  announced, and from the copy on.
\<close>

datatype rdma_read_begin = BeginFailed | BeginRetry bool | BeginNothing | BeginReady uint64

definition rd_readBegin :: "rdma_env \<Rightarrow> bool \<Rightarrow> bool \<Rightarrow> uint64 \<Rightarrow> rdma \<Rightarrow> rdma_read_begin \<times> rdma" where
  "rd_readBegin ev extra_event block available_bytes c =
     (case rd_checkDisconnected ev c of
        None \<Rightarrow> (BeginFailed, c)
      | Some c \<Rightarrow>
          let buf_event = (rd_pipe c \<noteq> [])
          in if ev_cq ev \<and> \<not> ev_rearm_ok ev then (BeginFailed, c)
             else case rd_checkCQ ev (ev_cq ev) c of
               None \<Rightarrow> (BeginFailed, c)
             | Some c \<Rightarrow>
                 if rd_established c \<and> rd_needFC c \<and> rd_fcredits c = 0
                 then (if ev_timeout ev then BeginFailed else BeginRetry extra_event, c)
                 else if rd_established c \<and> \<not> buf_event
                 then (if extra_event \<and> \<not> block then BeginNothing else BeginRetry True, c)
                 else if buf_event then
                   (case rd_getAvailableBytes c of (available_bytes, c) \<Rightarrow>
                      (if available_bytes = 0 then BeginFailed else BeginReady available_bytes, c))
                 else (BeginReady available_bytes, c))"

datatype rdma_read_end = EndFailed | EndRetry | EndTaken bytes

definition rd_readEnd :: "rdma_env \<Rightarrow> nat \<Rightarrow> uint64 \<Rightarrow> rdma \<Rightarrow> rdma_read_end \<times> rdma" where
  "rd_readEnd ev bytes available_bytes c =
     (case rd_drain bytes c of (data, c) \<Rightarrow>
        if data = [] then
          (if rg_isEmpty rg_HEAD sink_TAIL (rd_sinkptr c) \<and> \<not> rd_established c \<or> ev_timeout ev then EndFailed else EndRetry, c)
        else
          let bytes_taken = of_nat (length data);
              c = (if available_bytes > bytes_taken then rd_incrAvailableBytes (available_bytes - bytes_taken) c else c);
              c = c\<lparr>rd_readBytes := rd_readBytes c + bytes_taken\<rparr>
          in (EndTaken data, if rd_established c \<and> rd_needFC c then snd (rd_postFC ev c) else c))"

fun rd_readLoop :: "(rdma_env \<times> rdma_env) list \<Rightarrow> nat \<Rightarrow> bool \<Rightarrow> bool \<Rightarrow> uint64 \<Rightarrow> rdma \<Rightarrow> (read_outcome \<times> rdma) option" where
  "rd_readLoop [] bytes block extra_event available_bytes c = None"
| "rd_readLoop ((ev, ev') # evs) bytes block extra_event available_bytes c =
     (case rd_readBegin ev extra_event block available_bytes c of
        (BeginFailed, c) \<Rightarrow> Some (READ_ERROR, rd_close c)
      | (BeginNothing, c) \<Rightarrow> Some (Got [], c)
      | (BeginRetry extra_event, c) \<Rightarrow> rd_readLoop evs bytes block extra_event available_bytes c
      | (BeginReady available_bytes, c) \<Rightarrow>
          (case rd_readEnd ev' bytes available_bytes c of
             (EndFailed, c) \<Rightarrow> Some (READ_ERROR, rd_close c)
           | (EndTaken data, c) \<Rightarrow> Some (Got data, c)
           | (EndRetry, c) \<Rightarrow> rd_readLoop evs bytes block extra_event available_bytes c))"

definition rd_readSync :: "(rdma_env \<times> rdma_env) list \<Rightarrow> nat \<Rightarrow> bool \<Rightarrow> rdma \<Rightarrow> (read_outcome \<times> rdma) option" where
  "rd_readSync evs bytes block c =
     (if rd_state c \<noteq> CONNECTED then Some (READ_ERROR, rd_close c) else rd_readLoop evs bytes block False 0 c)"

end
