(* ===== verification/RDMA_Stream.thy ===== *)
theory RDMA_Stream
  imports RDMA_Connection
begin

text \<open>
  Two ends of an RDMA connection and the adapters between them, which carry out the posted requests of each end in order. Whatever
  the interleaving, the bytes read at one end are those written at the other: the sender never overwrites
  data that the adapter has still to fetch or the receiver has still to read.
\<close>

section \<open>Memory of a ring\<close>

text \<open>The positions from \<open>a\<close> up to \<open>b\<close> of the stream \<open>xs\<close> are in the ring.\<close>

definition ring_mem :: "nat \<Rightarrow> bytes \<Rightarrow> bytes \<Rightarrow> nat \<Rightarrow> nat \<Rightarrow> bool" where
  "ring_mem n m xs a b \<longleftrightarrow> length m = n \<and> (\<forall>i. a \<le> i \<and> i < b \<longrightarrow> m ! (i mod n) = xs ! i)"

lemma length_mem_write [simp]: "base + length bs \<le> length m \<Longrightarrow> length (mem_write base bs m) = length m"
  by (simp add: mem_write_def)

lemma mem_write_nil [simp]: "mem_write base [] m = m"
  by (simp add: mem_write_def)

lemma nth_mem_write:
  assumes "base + length bs \<le> length m" and "j < length m"
  shows "mem_write base bs m ! j = (if base \<le> j \<and> j < base + length bs then bs ! (j - base) else m ! j)"
  using assms by (auto simp: mem_write_def nth_append min_def)

lemma mod_contiguous:
  fixes k :: nat
  assumes "k mod n + l \<le> n" and "d < l"
  shows "(k + d) mod n = k mod n + d"
proof -
  have "(k + d) mod n = (k mod n + d) mod n" by (simp add: mod_simps)
  with assms show ?thesis by simp
qed

lemma ring_mem_write:
  assumes "ring_mem n m xs a b" and "b mod n + length bs \<le> n" and "b + length bs \<le> a + n" and "a \<le> b" and "0 < n"
    and "\<forall>i. a \<le> i \<and> i < b \<longrightarrow> ys ! i = xs ! i" and "\<forall>d < length bs. ys ! (b + d) = bs ! d"
  shows "ring_mem n (mem_write (b mod n) bs m) ys a (b + length bs)"
proof -
  have len: "length m = n" and old: "\<And>i. a \<le> i \<Longrightarrow> i < b \<Longrightarrow> m ! (i mod n) = xs ! i" using assms(1) by (auto simp: ring_mem_def)
  have "mem_write (b mod n) bs m ! (i mod n) = ys ! i" if i: "a \<le> i" "i < b + length bs" for i
  proof (cases "b \<le> i")
    case True
    then obtain d where d: "i = b + d" "d < length bs" using i(2) by (metis add_less_cancel_left le_Suc_ex)
    then have "i mod n = b mod n + d" using mod_contiguous [OF assms(2)] by simp
    then show ?thesis using nth_mem_write [of "b mod n" bs m "i mod n"] assms(2,5,7) d len by simp
  next
    case False
    have "\<not> (b mod n \<le> i mod n \<and> i mod n < b mod n + length bs)"
    proof
      assume "b mod n \<le> i mod n \<and> i mod n < b mod n + length bs"
      then obtain d where d: "i mod n = b mod n + d" "d < length bs" by (metis add_less_cancel_left le_Suc_ex)
      then have "i mod n = (b + d) mod n" using mod_contiguous [OF assms(2)] by simp
      then have "i = b + d" using mod_window [of i n "b + d"] False i(1) assms(3) d(2) by simp
      then show False using False by simp
    qed
    then show ?thesis using nth_mem_write [of "b mod n" bs m "i mod n"] assms(2,5,6) len old i(1) False by auto
  qed
  then show ?thesis using len assms(2) by (simp add: ring_mem_def)
qed

lemma ring_mem_contiguous:
  assumes "ring_mem n m xs a b" and "a \<le> k" and "k + l \<le> b" and "k mod n + l \<le> n" and "b \<le> length xs"
  shows "take l (drop (k mod n) m) = take l (drop k xs)"
proof (rule nth_equalityI)
  have len: "length m = n" using assms(1) by (simp add: ring_mem_def)
  show "length (take l (drop (k mod n) m)) = length (take l (drop k xs))" using assms(3-5) len by simp
  fix i assume "i < length (take l (drop (k mod n) m))"
  then have "i < l" by simp
  moreover from this have "m ! ((k + i) mod n) = xs ! (k + i)" using assms(1-3) by (simp add: ring_mem_def)
  ultimately show "take l (drop (k mod n) m) ! i = take l (drop k xs) ! i"
    using assms(3-5) len mod_contiguous [OF assms(4), of i] by simp
qed

lemma ring_mem_read:
  assumes "ring_mem n m xs a b" and "a \<le> k" and "k + l \<le> b" and "b \<le> length xs"
  shows "map (\<lambda>i. m ! ((k mod n + i) mod n)) [0..<l] = take l (drop k xs)"
proof (rule nth_equalityI)
  show "length (map (\<lambda>i. m ! ((k mod n + i) mod n)) [0..<l]) = length (take l (drop k xs))" using assms(3,4) by simp
  fix i assume "i < length (map (\<lambda>i. m ! ((k mod n + i) mod n)) [0..<l])"
  then have i: "i < l" by simp
  then have "m ! ((k + i) mod n) = xs ! (k + i)" using assms(1-3) by (simp add: ring_mem_def)
  then show "map (\<lambda>i. m ! ((k mod n + i) mod n)) [0..<l] ! i = take l (drop k xs) ! i"
    using i assms(3,4) by (simp add: mod_add_left_eq)
qed

lemma ring_mem_sub: "ring_mem n m xs a b \<Longrightarrow> a \<le> a' \<Longrightarrow> b' \<le> b \<Longrightarrow> ring_mem n m xs a' b'"
  by (simp add: ring_mem_def)

lemma ring_mem_append: "ring_mem n m xs a b \<Longrightarrow> b \<le> length xs \<Longrightarrow> ring_mem n m (xs @ ys) a b"
  by (simp add: ring_mem_def nth_append)

section \<open>Completions one by one\<close>

definition rd_one :: "rdma \<Rightarrow> rdma option" where
  "rd_one c =
     (case rd_cq c of
        [] \<Rightarrow> None
      | wc # wcs \<Rightarrow>
          (case rd_complete wc (c\<lparr>rd_cq := wcs\<rparr>) of
             None \<Rightarrow> None
           | Some (recv, c) \<Rightarrow> Some (c\<lparr>rd_receives := rd_receives c + (if recv then 1 else 0)\<rparr>)))"

lemma rd_recvMessage_frame:
  "rd_recvMessage m (c\<lparr>rd_receives := r, rd_cq := q\<rparr>) = (rd_recvMessage m c)\<lparr>rd_cq := q, rd_receives := r\<rparr>"
  "rd_cq (rd_recvMessage m c) = rd_cq c" "rd_receives (rd_recvMessage m c) = rd_receives c" "rd_depth (rd_recvMessage m c) = rd_depth c"
  by (cases "(m, c)" rule: rd_recvMessage.cases; simp add: rd_recvFC_def rd_recvSetup_def)+

lemma rd_complete_frame:
  "rd_complete wc (c\<lparr>rd_receives := r, rd_cq := q\<rparr>) = map_option (\<lambda>(b, c). (b, c\<lparr>rd_cq := q, rd_receives := r\<rparr>)) (rd_complete wc c)"
  by (cases wc) (simp_all add: rd_recvMessage_frame rd_recvRDMAWrite_def rd_incrAvailableBytes_def Let_def)

lemma rd_complete_keeps:
  "rd_complete wc c = Some (b, c') \<Longrightarrow> rd_cq c' = rd_cq c \<and> rd_receives c' = rd_receives c \<and> rd_depth c' = rd_depth c"
  by (cases wc) (auto simp: rd_recvMessage_frame rd_recvRDMAWrite_def rd_incrAvailableBytes_def Let_def)

text \<open>A property that every single completion keeps is kept by a poll and by \<^verbatim>\<open>_checkCQ\<close>.\<close>

definition one_keeps :: "(rdma \<Rightarrow> bool) \<Rightarrow> bool" where
  "one_keeps Q \<longleftrightarrow> (\<forall>c c'. Q c \<longrightarrow> rd_one c = Some c' \<longrightarrow> Q c')"

lemma rd_completions_keep:
  assumes one: "one_keeps Q" and "rd_completions wcs k c = Some (m, c')" and "Q (c\<lparr>rd_cq := wcs @ rd_cq c, rd_receives := rd_receives c + k\<rparr>)"
  shows "Q (c'\<lparr>rd_receives := rd_receives c' + m\<rparr>) \<and> rd_cq c' = rd_cq c"
  using assms(2,3)
proof (induction wcs arbitrary: k c)
  case Nil
  then show ?case by simp
next
  case (Cons wc wcs)
  from Cons.prems(1) obtain b c1 where c1: "rd_complete wc c = Some (b, c1)"
    and run: "rd_completions wcs (if b then k + 1 else k) c1 = Some (m, c')" by (auto split: option.splits)
  note keep = rd_complete_keeps [OF c1]
  let ?c = "c\<lparr>rd_cq := (wc # wcs) @ rd_cq c, rd_receives := rd_receives c + k\<rparr>"
  have "rd_one ?c = Some (c1\<lparr>rd_cq := wcs @ rd_cq c, rd_receives := rd_receives c + k + (if b then 1 else 0)\<rparr>)"
    using rd_complete_frame [where q = "wcs @ rd_cq c" and r = "rd_receives c + k" and wc = wc and c = c] c1 unfolding rd_one_def by simp
  with one Cons.prems(2) have "Q (c1\<lparr>rd_cq := wcs @ rd_cq c1, rd_receives := rd_receives c1 + (if b then k + 1 else k)\<rparr>)"
    using keep unfolding one_keeps_def by (simp add: add.assoc split: if_splits)
  from Cons.IH [OF run this] keep show ?case by simp
qed

lemma rd_poll_keeps:
  assumes "one_keeps Q" and "Q c" and "rd_poll ev c = Some c'"
  shows "Q c'"
proof -
  let ?n = "nat (rd_depth c)"
  from assms(3) obtain m c1 where run: "rd_completions (take ?n (rd_cq c)) 0 (c\<lparr>rd_cq := drop ?n (rd_cq c)\<rparr>) = Some (m, c1)"
    and c': "c' = c1\<lparr>rd_receives := rd_receives c1 + m\<rparr>"
    by (auto simp: rd_poll_def Let_def rd_postReceives_def split: option.splits if_splits)
  from rd_completions_keep [OF assms(1) run] assms(2) show ?thesis by (simp add: c')
qed

lemma rd_checkCQ_keeps:
  assumes one: "one_keeps Q" and "Q c" and "rd_checkCQ ev drain c = Some c'"
  shows "Q c'"
proof -
  have "Q c'" if "rd_pollLoop k ev c = Some c'" "Q c" for k c
    using that
  proof (induction k arbitrary: c)
    case (Suc k)
    then show ?case using rd_poll_keeps [OF one] by (auto split: option.splits if_splits)
  qed simp
  with assms show ?thesis using rd_poll_keeps [OF one] by (auto simp: rd_checkCQ_def simp del: rd_pollLoop.simps split: if_splits)
qed


section \<open>Messages under way\<close>

lemma take_bit_small: "unat (w :: 'a::len word) < 2 ^ k \<Longrightarrow> take_bit k w = w"
  by (simp add: word_unat_eq_iff unsigned_take_bit_eq take_bit_nat_eq_self)

lemma imm_bytes_sent_make: "unat b \<le> MAX_BS \<Longrightarrow> imm_bytes_sent (imm_make b f) = b"
proof -
  assume "unat b \<le> MAX_BS"
  then have "take_bit 28 b = b" by (intro take_bit_small) (simp add: MAX_BS_def)
  moreover have "take_bit 28 (take_bit 28 b OR push_bit 28 x) = take_bit 28 b" for x :: uint32
    by (rule bit_word_eqI) (auto simp: bit_simps)
  ultimately show ?thesis by (simp add: imm_bytes_sent_def imm_make_def)
qed

lemma imm_fcs_received_make: "f \<le> MAX_FC \<Longrightarrow> imm_fcs_received (imm_make b f) = ucast f"
proof -
  assume "f \<le> MAX_FC"
  then have "take_bit 4 f = f" by (intro take_bit_small) (simp add: word_le_nat_alt MAX_FC_def)
  moreover have "drop_bit 28 (take_bit 28 b OR push_bit 28 (ucast (take_bit 4 f))) = (ucast (take_bit 4 f) :: uint32)" for f :: uint16
    by (rule bit_word_eqI) (auto simp: bit_simps)
  ultimately show ?thesis unfolding imm_fcs_received_def imm_make_def by metis
qed

text \<open>Bytes announced by received writes, bytes of completed writes, and flow control messages, in a completion queue or posted.\<close>

fun wc_bytes :: "rdma_wc \<Rightarrow> nat" where
  "wc_bytes (WC_RECV_RDMA_WITH_IMM imm_data) = unat (imm_bytes_sent imm_data)"
| "wc_bytes _ = 0"

fun wc_done :: "rdma_wc \<Rightarrow> nat" where
  "wc_done (WC_RDMA_WRITE wr_id) = unat (ucast wr_id :: uint32)"
| "wc_done _ = 0"

fun wc_fc :: "rdma_wc \<Rightarrow> rdma_fc list" where
  "wc_fc (WC_RECV (FC len fc)) = [fc]"
| "wc_fc _ = []"

fun wr_fc :: "rdma_wr \<Rightarrow> rdma_fc list" where
  "wr_fc (WR_SEND (FC len fc)) = [fc]"
| "wr_fc _ = []"

fun wc_ok :: "rdma_wc \<Rightarrow> bool" where
  "wc_ok (WC_RECV (FC len fc)) \<longleftrightarrow> len = 8"
| "wc_ok (WC_RECV _) \<longleftrightarrow> False"
| "wc_ok _ \<longleftrightarrow> True"

fun wr_ok :: "rdma_wr \<Rightarrow> bool" where
  "wr_ok (WR_SEND (FC len fc)) \<longleftrightarrow> len = 8"
| "wr_ok (WR_SEND _) \<longleftrightarrow> False"
| "wr_ok _ \<longleftrightarrow> True"

definition fcs_under_way :: "rdma \<Rightarrow> rdma \<Rightarrow> rdma_fc list" where
  "fcs_under_way s t = concat (map wc_fc (rd_cq s)) @ concat (map wr_fc (rd_sq t))"

text \<open>The writes posted are consecutive pieces of the stream, none of which passes the end of the ring.\<close>

fun sq_at :: "nat \<Rightarrow> uint64 \<Rightarrow> nat \<Rightarrow> rdma_wr list \<Rightarrow> nat \<Rightarrow> bool" where
  "sq_at n base k [] e \<longleftrightarrow> k = e"
| "sq_at n base k (WR_RDMA_WRITE addr len imm_data remote_addr # wrs) e \<longleftrightarrow>
     unat addr = k mod n \<and> remote_addr = base + of_nat (k mod n) \<and> k mod n + unat len \<le> n \<and> imm_bytes_sent imm_data = len \<and>
     sq_at n base (k + unat len) wrs e"
| "sq_at n base k (WR_SEND message # wrs) e \<longleftrightarrow> sq_at n base k wrs e"

lemma sq_at_le: "sq_at n base k wrs e \<Longrightarrow> k \<le> e"
  by (induction n base k wrs e rule: sq_at.induct) auto

lemma sq_at_append: "sq_at n base k (wrs @ vs) e \<longleftrightarrow> (\<exists>j. sq_at n base k wrs j \<and> sq_at n base j vs e)"
  by (induction n base k wrs e rule: sq_at.induct) auto

section \<open>The invariant of one direction\<close>

text \<open>
  \<open>out\<close> is what has been written at the sender, \<open>inp\<close> what has been read at the receiver, \<open>k\<close> how much the adapter has transferred;
  \<open>n\<close> is the size of the rings.
\<close>

definition recv_inv :: "nat \<Rightarrow> bytes \<Rightarrow> bytes \<Rightarrow> nat \<Rightarrow> rdma \<Rightarrow> bool" where
  "recv_inv n out inp k t \<longleftrightarrow>
     (\<exists>h. ring_at (rd_sinkptr t) [h, length inp] \<and> unat (rg_num (rd_sinkptr t)) = n \<and> length inp \<le> h \<and>
        h + sum_list (map wc_bytes (rd_cq t)) = k \<and> k \<le> length out \<and> k \<le> length inp + n \<and> inp = take (length inp) out \<and>
        ring_mem n (rd_sinkbuf t) out (length inp) k)"

definition send_inv :: "nat \<Rightarrow> bytes \<Rightarrow> nat \<Rightarrow> rdma \<Rightarrow> bool" where
  "send_inv n out k s \<longleftrightarrow>
     (\<exists>l. ring_at (rd_sourceptr s) [length out, length out, l] \<and> unat (rg_num (rd_sourceptr s)) = n \<and>
        l + sum_list (map wc_done (rd_cq s)) = k \<and> length out \<le> l + n \<and> sq_at n (rd_rbase s) k (rd_sq s) (length out) \<and>
        ring_mem n (rd_sourcebuf s) out k (length out))"

definition ack_inv :: "nat \<Rightarrow> bytes \<Rightarrow> bytes \<Rightarrow> rdma \<Rightarrow> rdma \<Rightarrow> bool" where
  "ack_inv n out inp s t \<longleftrightarrow>
     (\<exists>f. ring_at (rd_rptr s) [length out, f] \<and> unat (rg_num (rd_rptr s)) = n \<and> length out \<le> f + n \<and>
        f + sum_list (map (unat \<circ> fc_bytes_received) (fcs_under_way s t)) + unat (rd_readBytes t) = length inp \<and>
        list_all wc_ok (rd_cq s) \<and> list_all wr_ok (rd_sq t) \<and> rd_rbase s = rd_sinkbase t)"

lemma ring_at_1: "ring_at r [a, b] \<Longrightarrow> ring_at (rg_incr (Suc 0) x r) [a, b + unat x]"
  using ring_at_incr [of r "[a, b]" "Suc 0" x] by simp

lemma ring_at_0: "ring_at r [a, b] \<Longrightarrow> ring_at (rg_incr rg_HEAD x r) [a + unat x, b]"
  using ring_at_incr [of r "[a, b]" 0 x] by (simp add: rg_HEAD_def)

lemma ring_at_3:
  "ring_at r [a, b, c] \<Longrightarrow> ring_at (rg_incr rg_HEAD x r) [a + unat x, b, c]"
  "ring_at r [a, b, c] \<Longrightarrow> ring_at (rg_incr (Suc 0) x r) [a, b + unat x, c]"
  "ring_at r [a, b, c] \<Longrightarrow> ring_at (rg_incr 2 x r) [a, b, c + unat x]"
  using ring_at_incr [of r "[a, b, c]" 0 x] ring_at_incr [of r "[a, b, c]" "Suc 0" x] ring_at_incr [of r "[a, b, c]" 2 x]
  by (simp_all add: rg_HEAD_def numeral_2_eq_2)

lemma recv_inv_one: "one_keeps (recv_inv n out inp k)"
proof (unfold one_keeps_def, intro allI impI)
  fix c c' assume inv: "recv_inv n out inp k c" and one: "rd_one c = Some c'"
  then obtain wc wcs where cq: "rd_cq c = wc # wcs" by (auto simp: rd_one_def split: list.splits)
  show "recv_inv n out inp k c'"
  proof (cases wc)
    case (WC_RECV_RDMA_WITH_IMM imm)
    with inv one cq ring_at_0 [of "rd_sinkptr c" _ "length inp" "imm_bytes_sent imm"] show ?thesis
      by (fastforce simp: recv_inv_def rd_one_def rd_recvRDMAWrite_def rd_incrAvailableBytes_def Let_def add.assoc)
  next
    case (WC_RECV m)
    with inv one cq show ?thesis by (cases m) (auto simp: recv_inv_def rd_one_def rd_recvFC_def rd_recvSetup_def)
  qed (use inv one cq in \<open>auto simp: recv_inv_def rd_one_def\<close>)
qed

lemma send_inv_one: "one_keeps (\<lambda>c. send_inv n out k c \<and> list_all wc_ok (rd_cq c))"
proof (unfold one_keeps_def, intro allI impI)
  fix c c' assume inv: "send_inv n out k c \<and> list_all wc_ok (rd_cq c)" and one: "rd_one c = Some c'"
  then obtain wc wcs where cq: "rd_cq c = wc # wcs" by (auto simp: rd_one_def split: list.splits)
  show "send_inv n out k c' \<and> list_all wc_ok (rd_cq c')"
  proof (cases wc)
    case (WC_RECV_RDMA_WITH_IMM imm)
    with inv one cq show ?thesis
      by (auto simp: send_inv_def rd_one_def rd_recvRDMAWrite_def rd_incrAvailableBytes_def Let_def)
  next
    case (WC_RECV m)
    with inv one cq show ?thesis by (cases m) (auto simp: send_inv_def rd_one_def rd_recvFC_def)
  next
    case (WC_RDMA_WRITE wr_id)
    from inv obtain l where l: "ring_at (rd_sourceptr c) [length out, length out, l]" "l + sum_list (map wc_done (rd_cq c)) = k" "length out \<le> l + n"
      by (auto simp: send_inv_def)
    from ring_at_3(3) [OF l(1), of "ucast wr_id"] l(2,3) inv one cq WC_RDMA_WRITE show ?thesis
      by (auto simp: send_inv_def rd_one_def intro!: exI [of _ "l + unat (ucast wr_id :: uint32)"])
  qed (use inv one cq in \<open>auto simp: send_inv_def rd_one_def\<close>)
qed

lemma ack_inv_one_s: "one_keeps (\<lambda>c. ack_inv n out inp c t)"
proof (unfold one_keeps_def, intro allI impI)
  fix c c' assume inv: "ack_inv n out inp c t" and one: "rd_one c = Some c'"
  then obtain wc wcs where cq: "rd_cq c = wc # wcs" by (auto simp: rd_one_def split: list.splits)
  show "ack_inv n out inp c' t"
  proof (cases wc)
    case (WC_RECV_RDMA_WITH_IMM imm)
    with inv one cq show ?thesis
      by (auto simp: ack_inv_def rd_one_def rd_recvRDMAWrite_def rd_incrAvailableBytes_def Let_def fcs_under_way_def)
  next
    case (WC_RECV m)
    with inv cq obtain fc where m: "m = FC 8 fc" by (cases m) (auto simp: ack_inv_def)
    from inv obtain f where f: "ring_at (rd_rptr c) [length out, f]" "length out \<le> f + n"
      "f + sum_list (map (unat \<circ> fc_bytes_received) (fcs_under_way c t)) + unat (rd_readBytes t) = length inp" by (auto simp: ack_inv_def)
    from ring_at_1 [OF f(1), of "fc_bytes_received fc"] f(2,3) inv one cq WC_RECV m show ?thesis
      by (auto simp: ack_inv_def rd_one_def rd_recvFC_def fcs_under_way_def intro!: exI [of _ "f + unat (fc_bytes_received fc)"])
  qed (use inv one cq in \<open>auto simp: ack_inv_def rd_one_def fcs_under_way_def\<close>)
qed

lemma ack_inv_one_t: "one_keeps (ack_inv n out inp s)"
proof (unfold one_keeps_def, intro allI impI)
  fix c c' assume inv: "ack_inv n out inp s c" and one: "rd_one c = Some c'"
  then obtain wc wcs where cq: "rd_cq c = wc # wcs" by (auto simp: rd_one_def split: list.splits)
  have "rd_readBytes c' = rd_readBytes c \<and> rd_sq c' = rd_sq c \<and> rd_sinkbase c' = rd_sinkbase c"
  proof (cases wc)
    case (WC_RECV m)
    with one cq show ?thesis by (cases m) (auto simp: rd_one_def rd_recvFC_def rd_recvSetup_def split: if_splits)
  qed (use one cq in \<open>auto simp: rd_one_def rd_recvRDMAWrite_def rd_incrAvailableBytes_def Let_def\<close>)
  with inv show "ack_inv n out inp s c'" by (simp add: ack_inv_def fcs_under_way_def)
qed


section \<open>Reading and writing\<close>

lemma rd_drain_spec:
  assumes "recv_inv n out inp k t" and "rd_drain bytes t = (data, t')"
  shows "recv_inv n out (inp @ data) k t' \<and> length data \<le> n"
proof -
  from assms(1) obtain h where h: "ring_at (rd_sinkptr t) [h, length inp]" "unat (rg_num (rd_sinkptr t)) = n" "length inp \<le> h"
    "h + sum_list (map wc_bytes (rd_cq t)) = k" "k \<le> length out" "k \<le> length inp + n" "inp = take (length inp) out"
    "ring_mem n (rd_sinkbuf t) out (length inp) k" unfolding recv_inv_def by blast
  have "n < 2 ^ 32" using h(1,2) by (simp add: ring_at_def ring_ok_def)
  then have av: "unat (rg_available 0 (Suc 0) (rd_sinkptr t)) = h - length inp"
    using ring_at_available [OF h(1), of 0 "Suc 0"] h(3,4,6) by simp
  define b where "b = min (of_nat bytes) (rg_available rg_HEAD (Suc 0) (rd_sinkptr t))"
  have b: "unat b \<le> h - length inp" unfolding b_def using av by (simp add: rg_HEAD_def min_def word_le_nat_alt)
  have len: "length (rd_sinkbuf t) = n" using h(8) by (simp add: ring_mem_def)
  have start: "unat (rg_ptr (Suc 0) 0 (rd_sinkptr t)) = length inp mod n" using ring_at_index [OF h(1), of "Suc 0"] h(2) by simp
  have "data = take (unat b) (drop (length inp) out)"
    using assms(2) ring_mem_read [OF h(8), of "length inp" "unat b"] b h(3-5) by (simp add: rd_drain_def Let_def b_def [symmetric] start len)
  moreover have t': "t' = t\<lparr>rd_sinkptr := rg_incr (Suc 0) b (rd_sinkptr t)\<rparr>"
    using assms(2) by (simp add: rd_drain_def Let_def b_def)
  moreover have "inp @ take (unat b) (drop (length inp) out) = take (length inp + unat b) out"
    using h(7) by (metis take_add)
  moreover have "length (take (unat b) (drop (length inp) out)) = unat b" using b h(3-5) by simp
  moreover have "ring_mem n (rd_sinkbuf t) out (length inp + unat b) k" using h(8) by (rule ring_mem_sub) simp_all
  ultimately show "recv_inv n out (inp @ data) k t' \<and> length data \<le> n"
    using ring_at_1 [OF h(1), of b] h b by (auto simp: recv_inv_def intro!: exI [of _ h])
qed

lemma rd_drain_frame: "rd_drain bytes t = (data, t') \<Longrightarrow> \<exists>q. t' = t\<lparr>rd_sinkptr := q\<rparr>"
  by (auto simp: rd_drain_def Let_def)

text \<open>A write: copying into the source ring and posting the request.\<close>

lemma rd_fill_zero: "rd_fill buffer bytes s = (0, s') \<Longrightarrow> s' = s"
proof -
  assume "rd_fill buffer bytes s = (0, s')"
  then have "s' = s\<lparr>rd_sourceptr := rg_incr rg_HEAD 0 (rd_sourceptr s)\<rparr>" by (auto simp: rd_fill_def Let_def)
  moreover have "rg_incr i 0 r = r" for i and r :: "uint32 ring" by (simp add: rg_incr_def rp_incr_def Let_def)
  ultimately show "s' = s" by simp
qed

lemma rd_fill_spec:
  assumes "send_inv n out k s" and "ack_inv n out inp s t" and "rd_fill buffer (of_nat (min (length buffer) MAX_BS)) s = (b, s')" and "b \<noteq> 0"
  shows "ring_mem n (rd_sourcebuf s') (out @ take (unat b) buffer) k (length out + unat b)"
    and "s' = s\<lparr>rd_sourcebuf := rd_sourcebuf s', rd_sourceptr := rg_incr rg_HEAD b (rd_sourceptr s)\<rparr>"
    and "unat b \<le> length buffer" and "unat b \<le> MAX_BS" and "length out mod n + unat b \<le> n"
    and "\<And>l. ring_at (rd_sourceptr s) [length out, length out, l] \<Longrightarrow> length out \<le> l + n \<Longrightarrow> l \<le> length out \<Longrightarrow> length out + unat b \<le> l + n"
    and "\<And>f. ring_at (rd_rptr s) [length out, f] \<Longrightarrow> length out \<le> f + n \<Longrightarrow> f \<le> length out \<Longrightarrow> length out + unat b \<le> f + n"
proof -
  from assms(1) obtain l where l: "ring_at (rd_sourceptr s) [length out, length out, l]" "unat (rg_num (rd_sourceptr s)) = n"
    "l + sum_list (map wc_done (rd_cq s)) = k" "length out \<le> l + n" "sq_at n (rd_rbase s) k (rd_sq s) (length out)"
    "ring_mem n (rd_sourcebuf s) out k (length out)" unfolding send_inv_def by blast
  from assms(2) have rn: "unat (rg_num (rd_rptr s)) = n" unfolding ack_inv_def by blast
  have len: "length (rd_sourcebuf s) = n" using l(6) by (simp add: ring_mem_def)
  have n: "0 < n" "n < 2 ^ 32" using l(1,2) by (simp_all add: ring_at_def ring_ok_def)
  define m where "m = min (of_nat (min (length buffer) MAX_BS)) (min (rg_negAvailable rg_HEAD 2 (rd_sourceptr s)) (rg_negAvailable rg_HEAD (Suc 0) (rd_rptr s)))"
  define start where "start = rg_ptr rg_HEAD 0 (rd_sourceptr s)"
  have st: "unat start = length out mod n" using ring_at_index [OF l(1), of 0] l(2) by (simp add: start_def rg_HEAD_def)
  then have "unat start < n" using n(1) by simp
  then have room: "unat (of_nat (length (rd_sourcebuf s)) - start) = n - length out mod n"
    using n(2) st by (simp add: len unat_sub word_le_nat_alt unat_of_nat)
  have b: "b = min m (of_nat (length (rd_sourcebuf s)) - start)" using assms(3) by (simp add: rd_fill_def Let_def m_def start_def)
  then have bm: "unat b \<le> unat m" "unat b \<le> n - length out mod n" using room by (auto simp: min_def word_le_nat_alt)
  have "MAX_BS < 2 ^ 32" by (simp add: MAX_BS_def)
  then have "unat (of_nat (min (length buffer) MAX_BS) :: uint32) = min (length buffer) MAX_BS" by (simp add: unat_of_nat min_def)
  then have "unat m \<le> min (length buffer) MAX_BS" by (auto simp: m_def min_def word_le_nat_alt)
  then show bl: "unat b \<le> length buffer" and "unat b \<le> MAX_BS" using bm(1) by simp_all
  show fits: "length out mod n + unat b \<le> n" using bm(2) n(1) by (metis add.commute le_diff_conv2 less_imp_le mod_less_divisor)
  have neg: "unat m \<le> unat (rg_negAvailable 0 2 (rd_sourceptr s))" "unat m \<le> unat (rg_negAvailable 0 (Suc 0) (rd_rptr s))"
    by (auto simp: m_def rg_HEAD_def min_def word_le_nat_alt)
  show lb: "length out + unat b \<le> l + n" if "ring_at (rd_sourceptr s) [length out, length out, l]" "length out \<le> l + n" "l \<le> length out" for l
    using ring_at_negAvailable [OF that(1), of 0 2] l(2) that(2,3) neg(1) bm(1) by (simp add: numeral_2_eq_2)
  show "length out + unat b \<le> f + n" if "ring_at (rd_rptr s) [length out, f]" "length out \<le> f + n" "f \<le> length out" for f
    using ring_at_negAvailable [OF that(1), of 0 "Suc 0"] rn that(2,3) neg(2) bm(1) by simp
  have s': "rd_sourcebuf s' = mem_write (unat start) (take (unat b) buffer) (rd_sourcebuf s)"
      "s' = s\<lparr>rd_sourcebuf := rd_sourcebuf s', rd_sourceptr := rg_incr rg_HEAD b (rd_sourceptr s)\<rparr>"
    using assms(3) by (auto simp: rd_fill_def Let_def m_def [symmetric] start_def [symmetric] b)
  then show "s' = s\<lparr>rd_sourcebuf := rd_sourcebuf s', rd_sourceptr := rg_incr rg_HEAD b (rd_sourceptr s)\<rparr>" by simp
  have le: "k \<le> length out" "l \<le> k" using l(3) sq_at_le [OF l(5)] by simp_all
  then have "length out + unat b \<le> k + n" using lb [OF l(1,4)] by simp
  then have "ring_mem n (mem_write (length out mod n) (take (unat b) buffer) (rd_sourcebuf s)) (out @ take (unat b) buffer) k
      (length out + length (take (unat b) buffer))"
    using fits bl le n(1) by (intro ring_mem_write [OF l(6)]) (auto simp: nth_append)
  then show "ring_mem n (rd_sourcebuf s') (out @ take (unat b) buffer) k (length out + unat b)" using s'(1) st bl by simp
qed

lemma rd_post_spec:
  assumes "send_inv n out k s" and "ack_inv n out inp s t" and "rd_fill buffer (of_nat (min (length buffer) MAX_BS)) s = (b, s1)" and "b \<noteq> 0"
    and "rd_postRDMAWrite ev s1 = (True, s')" and "recv_inv n out inp k t"
  shows "send_inv n (out @ take (unat b) buffer) k s' \<and> ack_inv n (out @ take (unat b) buffer) inp s' t"
proof -
  note f = rd_fill_spec [OF assms(1-4)]
  from assms(1) obtain l where l: "ring_at (rd_sourceptr s) [length out, length out, l]" "unat (rg_num (rd_sourceptr s)) = n"
    "l + sum_list (map wc_done (rd_cq s)) = k" "length out \<le> l + n" "sq_at n (rd_rbase s) k (rd_sq s) (length out)" unfolding send_inv_def by blast
  from assms(2) obtain g where g: "ring_at (rd_rptr s) [length out, g]" "unat (rg_num (rd_rptr s)) = n" "length out \<le> g + n"
    "g + sum_list (map (unat \<circ> fc_bytes_received) (fcs_under_way s t)) + unat (rd_readBytes t) = length inp"
    "list_all wc_ok (rd_cq s)" "list_all wr_ok (rd_sq t)" "rd_rbase s = rd_sinkbase t" unfolding ack_inv_def by blast
  have le: "l \<le> length out" using l(3) sq_at_le [OF l(5)] by simp
  have "length inp \<le> length out" using assms(6) unfolding recv_inv_def by linarith
  then have gle: "g \<le> length out" using g(4) by linarith
  have n: "0 < n" "2 * n \<le> 2 ^ 32" using l(1,2) by (simp_all add: ring_at_def ring_ok_def)
  let ?sp = "rg_incr rg_HEAD b (rd_sourceptr s)"
  have at1: "ring_at ?sp [length out + unat b, length out, l]" by (rule ring_at_3(1) [OF l(1)])
  have "unat b < 2 ^ 32" using unsigned_less [of b] by simp
  then have "unat (rg_available 0 (Suc 0) ?sp) = unat b" using ring_at_available [OF at1, of 0 "Suc 0"] by simp
  then have av: "rg_available rg_HEAD (Suc 0) ?sp = b" by (simp add: rg_HEAD_def word_unat_eq_iff)
  have addr: "unat (rg_ptr (Suc 0) 0 ?sp) = length out mod n" using ring_at_index [OF at1, of "Suc 0"] l(2) by simp
  have "unat (rg_ptr rg_HEAD 0 (rd_rptr s)) = length out mod n" using ring_at_index [OF g(1), of 0] g(2) by (simp add: rg_HEAD_def)
  then have remote: "(ucast (rg_ptr rg_HEAD 0 (rd_rptr s)) :: uint64) = of_nat (length out mod n)" by (metis of_nat_unat)
  obtain mem where s1: "s1 = s\<lparr>rd_sourcebuf := mem, rd_sourceptr := ?sp\<rparr>" using f(2) by blast
  let ?s2 = "s\<lparr>rd_sourcebuf := mem, rd_sourceptr := rg_incr (Suc 0) b ?sp\<rparr>"
  obtain imm v x where imm: "rd_makeImm b ?s2 = (imm, ?s2\<lparr>rd_fcs := v\<rparr>)" "imm = imm_make b x"
    by (simp add: rd_makeImm_def Let_def)
  let ?wr = "WR_RDMA_WRITE (rg_ptr (Suc 0) 0 ?sp) b imm (rd_rbase s + ucast (rg_ptr rg_HEAD 0 (rd_rptr s)))"
  have s': "s' = ?s2\<lparr>rd_fcs := v, rd_rptr := rg_incr rg_HEAD b (rd_rptr s), rd_wcredits := rd_wcredits s - 1, rd_sq := rd_sq s @ [?wr]\<rparr>"
    using assms(5) imm(1) by (simp add: s1 rd_postRDMAWrite_def Let_def av split: if_splits)
  have len: "length (out @ take (unat b) buffer) = length out + unat b" using f(3) by simp
  have sq: "sq_at n (rd_rbase s) k (rd_sq s @ [?wr]) (length out + unat b)"
    unfolding sq_at_append using l(5) addr remote f(5) imm_bytes_sent_make [OF f(4)] imm(2)
    by (intro exI [of _ "length out"]) simp
  have "send_inv n (out @ take (unat b) buffer) k s'" unfolding send_inv_def len
    using ring_at_3(2) [OF at1, of b] l f(1) f(6) [OF l(1,4) le] sq by (intro exI [of _ l]) (simp add: s' s1)
  moreover have "ack_inv n (out @ take (unat b) buffer) inp s' t" unfolding ack_inv_def len
    using ring_at_0 [OF g(1), of b] g f(7) [OF g(1,3) gle] by (intro exI [of _ g]) (simp add: s' fcs_under_way_def)
  ultimately show ?thesis by blast
qed

text \<open>Data read is acknowledged, and flow control messages carry the acknowledgement.\<close>

lemma ack_inv_read:
  assumes "ack_inv n out inp s t" and "length data \<le> n" and "unat (rd_readBytes t) \<le> n"
  shows "ack_inv n out (inp @ data) s (t\<lparr>rd_readBytes := rd_readBytes t + of_nat (length data)\<rparr>)"
proof -
  have "n < 2 ^ 32" using assms(1) by (auto simp: ack_inv_def ring_at_def ring_ok_def)
  then have d: "unat (of_nat (length data) :: uint64) = length data" using assms(2) by (simp add: unat_of_nat)
  then have "unat (rd_readBytes t + of_nat (length data)) = unat (rd_readBytes t) + length data"
    using assms(2,3) \<open>n < 2 ^ 32\<close> by (simp add: unat_word_ariths)
  then show ?thesis using assms(1) by (auto simp: ack_inv_def fcs_under_way_def)
qed

lemma ack_inv_postFC:
  assumes "ack_inv n out inp s t" and "rd_postFC ev t = (True, t')" and "unat (rd_readBytes t) < 2 ^ 32"
  shows "ack_inv n out inp s t'"
proof -
  have "unat (ucast (rd_readBytes t) :: uint32) = unat (rd_readBytes t)" using assms(3) by (simp add: unsigned_ucast_eq take_bit_nat_eq_self)
  then show ?thesis using assms(1,2) by (auto simp: ack_inv_def fcs_under_way_def rd_postFC_def rd_postMessage_def Let_def split: if_splits)
qed


section \<open>Two ends and their adapters\<close>

text \<open>
  What the adapter does with the first request posted at \<open>s\<close>: a write copies from the source memory of \<open>s\<close> into the sink memory of \<open>t\<close>, a
  message is handed over; each uses up a receive posted at \<open>t\<close> and completes at both ends.
\<close>

fun adapter_do :: "rdma_wr \<Rightarrow> rdma \<Rightarrow> rdma \<Rightarrow> rdma \<times> rdma" where
  "adapter_do (WR_RDMA_WRITE addr len imm_data remote_addr) s t =
     (s\<lparr>rd_cq := rd_cq s @ [WC_RDMA_WRITE (ucast len)]\<rparr>,
      t\<lparr>rd_sinkbuf := mem_write (unat (remote_addr - rd_sinkbase t)) (take (unat len) (drop (unat addr) (rd_sourcebuf s))) (rd_sinkbuf t),
        rd_cq := rd_cq t @ [WC_RECV_RDMA_WITH_IMM imm_data], rd_receives := rd_receives t - 1\<rparr>)"
| "adapter_do (WR_SEND message) s t =
     (s\<lparr>rd_cq := rd_cq s @ [WC_SEND]\<rparr>, t\<lparr>rd_cq := rd_cq t @ [WC_RECV message], rd_receives := rd_receives t - 1\<rparr>)"

lemma ucast_back [simp]: "(ucast (ucast (w :: uint32) :: uint64) :: uint32) = w"
  by (rule bit_word_eqI) (simp add: bit_simps)

lemma adapter_forward:
  assumes "recv_inv n out inp k t" and "send_inv n out k s" and "ack_inv n out inp s t" and "rd_sq s = wr # wrs"
    and "adapter_do wr (s\<lparr>rd_sq := wrs\<rparr>) t = (s', t')"
  shows "\<exists>k'. recv_inv n out inp k' t' \<and> send_inv n out k' s' \<and> ack_inv n out inp s' t'"
proof (cases wr)
  case (WR_RDMA_WRITE addr len imm remote)
  from assms(1) obtain h where h: "ring_at (rd_sinkptr t) [h, length inp]" "unat (rg_num (rd_sinkptr t)) = n" "length inp \<le> h"
    "h + sum_list (map wc_bytes (rd_cq t)) = k" "k \<le> length out" "k \<le> length inp + n" "inp = take (length inp) out"
    "ring_mem n (rd_sinkbuf t) out (length inp) k" unfolding recv_inv_def by blast
  from assms(2) obtain l where l: "ring_at (rd_sourceptr s) [length out, length out, l]" "unat (rg_num (rd_sourceptr s)) = n"
    "l + sum_list (map wc_done (rd_cq s)) = k" "length out \<le> l + n" "sq_at n (rd_rbase s) k (rd_sq s) (length out)"
    "ring_mem n (rd_sourcebuf s) out k (length out)" unfolding send_inv_def by blast
  from assms(3) obtain f where f: "length out \<le> f + n" "f \<le> length inp" "rd_rbase s = rd_sinkbase t" unfolding ack_inv_def by auto
  have n: "0 < n" "2 * n \<le> 2 ^ 32" using l(1,2) by (simp_all add: ring_at_def ring_ok_def)
  from l(5) assms(4) WR_RDMA_WRITE have sq: "unat addr = k mod n" "remote = rd_rbase s + of_nat (k mod n)" "k mod n + unat len \<le> n"
    "imm_bytes_sent imm = len" "sq_at n (rd_rbase s) (k + unat len) wrs (length out)" by simp_all
  have kl: "k + unat len \<le> length out" using sq_at_le [OF sq(5)] .
  let ?bs = "take (unat len) (drop (unat addr) (rd_sourcebuf s))"
  have bs: "?bs = take (unat len) (drop k out)" unfolding sq(1) using ring_mem_contiguous [OF l(6) le_refl kl sq(3)] by simp
  then have lbs: "length ?bs = unat len" using kl by simp
  have "k mod n < n" using n(1) by simp
  then have "k mod n < 2 ^ 64" using n(2) by simp
  then have off: "unat (remote - rd_sinkbase t) = k mod n" using sq(2) f(3) by (simp add: unat_of_nat)
  have "ring_mem n (mem_write (k mod n) ?bs (rd_sinkbuf t)) out (length inp) (k + length ?bs)"
    using h(3,4) sq(3) n(1) kl f(1,2) by (intro ring_mem_write [OF h(8)]) (simp_all only: lbs, simp_all add: bs)
  then have mem: "ring_mem n (mem_write (k mod n) ?bs (rd_sinkbuf t)) out (length inp) (k + unat len)" by (simp only: lbs)
  have st: "s' = s\<lparr>rd_sq := wrs, rd_cq := rd_cq s @ [WC_RDMA_WRITE (ucast len)]\<rparr>"
    "t' = t\<lparr>rd_sinkbuf := mem_write (k mod n) ?bs (rd_sinkbuf t), rd_cq := rd_cq t @ [WC_RECV_RDMA_WITH_IMM imm], rd_receives := rd_receives t - 1\<rparr>"
    using assms(5) by (auto simp: WR_RDMA_WRITE off)
  have "recv_inv n out inp (k + unat len) t'" unfolding recv_inv_def
    using h kl f(1,2) mem sq(4) by (intro exI [of _ h]) (simp add: st(2))
  moreover have "send_inv n out (k + unat len) s'" unfolding send_inv_def
    using l sq(5) ring_mem_sub [OF l(6), of "k + unat len" "length out"] by (intro exI [of _ l]) (simp add: st(1))
  moreover have "ack_inv n out inp s' t'" using assms(3,4) WR_RDMA_WRITE by (auto simp: ack_inv_def st fcs_under_way_def)
  ultimately show ?thesis by blast
next
  case (WR_SEND m)
  with assms have "recv_inv n out inp k t'" "send_inv n out k s'" "ack_inv n out inp s' t'"
    by (auto simp: recv_inv_def send_inv_def ack_inv_def fcs_under_way_def)
  then show ?thesis by blast
qed

lemma adapter_backward:
  assumes "recv_inv n out inp k s" and "send_inv n out k t" and "ack_inv n out inp t s" and "rd_sq s = wr # wrs"
    and "adapter_do wr (s\<lparr>rd_sq := wrs\<rparr>) t = (s', t')"
  shows "recv_inv n out inp k s' \<and> send_inv n out k t' \<and> ack_inv n out inp t' s'"
proof (cases wr)
  case (WR_RDMA_WRITE addr len imm remote)
  with assms show ?thesis by (auto simp: recv_inv_def send_inv_def ack_inv_def fcs_under_way_def)
next
  case (WR_SEND m)
  with assms(3,4) obtain fc where "m = FC 8 fc" by (cases m) (auto simp: ack_inv_def)
  with WR_SEND assms show ?thesis by (auto simp: recv_inv_def send_inv_def ack_inv_def fcs_under_way_def)
qed

end
