(* ===== verification/RDMA_System.thy ===== *)
theory RDMA_System
  imports RDMA_Stream
begin

text \<open>
  Two ends of an RDMA connection that write and read in any order while their adapters carry out what was posted: what is read at one end is
  what was written at the other.
\<close>

section \<open>Steps\<close>

record rdma_system =
  sy_end :: "bool \<Rightarrow> rdma"
  sy_out :: "bool \<Rightarrow> bytes"
  sy_in :: "bool \<Rightarrow> bytes"
  sy_held :: "bool \<Rightarrow> uint64 option"

abbreviation rd_open :: "rdma \<Rightarrow> bool" where
  "rd_open c \<equiv> rd_state c = CONNECTED"

text \<open>An end after the exchange of the setup messages, with the receives posted.\<close>

definition rdma_verbs_ok :: rdma_env where
  "rdma_verbs_ok = \<lparr>ev_events_ok = True, ev_cm = None, ev_cq = True, ev_rearm_ok = True, ev_poll_ok = True, ev_recv_ok = True, ev_send_ok = True,
     ev_timeout = False\<rparr>"

definition rd_prepare :: "int \<Rightarrow> nat \<Rightarrow> uint64 \<Rightarrow> rdma option" where
  "rd_prepare depth rbs sinkbase =
     (case rd_initProtocol depth (rdma_new sinkbase 0) of
        None \<Rightarrow> None
      | Some c \<Rightarrow>
          (case rd_initBuffers rbs c of
             None \<Rightarrow> None
           | Some c \<Rightarrow> (case rd_postReceives rdma_verbs_ok (nat depth) c of (ok, c) \<Rightarrow> Some (c\<lparr>rd_established := True\<rparr>))))"

definition rd_connected :: "rdma \<Rightarrow> rdma \<Rightarrow> rdma" where
  "rd_connected c peer =
     (rd_recvSetup \<lparr>su_rbase = rd_sinkbase peer, su_rlen = of_nat (length (rd_sinkbuf peer)), su_rkey = 1\<rparr>
        (snd (rd_postSetup rdma_verbs_ok 1 c)))\<lparr>rd_sq := [], rd_state := CONNECTED\<rparr>"

text \<open>That is the state both ends are in after posting their setup messages, having them carried over and waiting for the other's.\<close>

lemma rd_connected_setup:
  assumes "rd_prepare depth rbs base = Some a" and "rd_prepare depth rbs base' = Some b"
    and "rd_postSetup rdma_verbs_ok 1 a = (x, a1)" and "rd_postSetup rdma_verbs_ok 1 b = (y, b1)"
    and "adapter_do (hd (rd_sq a1)) (a1\<lparr>rd_sq := tl (rd_sq a1)\<rparr>) b1 = (a2, b2)"
    and "adapter_do (hd (rd_sq b2)) (b2\<lparr>rd_sq := tl (rd_sq b2)\<rparr>) a2 = (b3, a3)"
  shows "\<exists>c. rd_waitRecvSetup [rdma_verbs_ok] a3 = Some (True, c) \<and> c\<lparr>rd_state := CONNECTED\<rparr> = rd_connected a b"
proof -
  have "rd_cq a = []" "rd_sq a = []" "rd_cq b = []" "rd_sq b = []" "rd_depth a = depth" "2 \<le> depth" "rd_established a" "rd_receives a = nat depth"
    using assms(1,2) by (auto simp: rd_prepare_def rd_initProtocol_def rd_initBuffers_def rd_postReceives_def rdma_verbs_ok_def rdma_new_def split: if_splits)
  moreover obtain n where "nat depth = Suc (Suc n)" using calculation(6) by (metis add_2_eq_Suc le_add_diff_inverse nat_le_iff nat_numeral nat_mono)
  ultimately show ?thesis
    using assms(3-6)
    by (auto simp: rd_postSetup_def rd_postMessage_def rdma_verbs_ok_def rd_checkDisconnected_def rd_checkCQ_def rd_poll_def rd_postReceives_def
        rd_recvSetup_def rd_connected_def Let_def)
qed

definition sy_start :: "rdma \<Rightarrow> rdma \<Rightarrow> rdma_system" where
  "sy_start a b = \<lparr>sy_end = (\<lambda>s. if s then rd_connected a b else rd_connected b a), sy_out = (\<lambda>_. []), sy_in = (\<lambda>_. []), sy_held = (\<lambda>_. None)\<rparr>"

definition sy_wrote :: "bool \<Rightarrow> bytes \<Rightarrow> rdma_write_pass \<times> rdma \<Rightarrow> rdma_system \<Rightarrow> rdma_system" where
  "sy_wrote s buffer x S =
     (case x of
        (WriteFailed, c) \<Rightarrow> S\<lparr>sy_end := (sy_end S)(s := rd_close c)\<rparr>
      | (WriteRetry, c) \<Rightarrow> S\<lparr>sy_end := (sy_end S)(s := c)\<rparr>
      | (WrotePut b, c) \<Rightarrow> S\<lparr>sy_end := (sy_end S)(s := c), sy_out := (sy_out S)(s := sy_out S s @ take (unat b) buffer)\<rparr>)"

definition sy_began :: "bool \<Rightarrow> rdma_read_begin \<times> rdma \<Rightarrow> rdma_system \<Rightarrow> rdma_system" where
  "sy_began s x S =
     (case x of
        (BeginFailed, c) \<Rightarrow> S\<lparr>sy_end := (sy_end S)(s := rd_close c)\<rparr>
      | (BeginReady av, c) \<Rightarrow> S\<lparr>sy_end := (sy_end S)(s := c), sy_held := (sy_held S)(s := Some av)\<rparr>
      | (_, c) \<Rightarrow> S\<lparr>sy_end := (sy_end S)(s := c)\<rparr>)"

definition sy_ended :: "bool \<Rightarrow> rdma_read_end \<times> rdma \<Rightarrow> rdma_system \<Rightarrow> rdma_system" where
  "sy_ended s x S =
     (case x of
        (EndFailed, c) \<Rightarrow> S\<lparr>sy_end := (sy_end S)(s := rd_close c)\<rparr>
      | (EndRetry, c) \<Rightarrow> S\<lparr>sy_end := (sy_end S)(s := c), sy_held := (sy_held S)(s := None)\<rparr>
      | (EndTaken data, c) \<Rightarrow>
          S\<lparr>sy_end := (sy_end S)(s := c), sy_held := (sy_held S)(s := None), sy_in := (sy_in S)(s := sy_in S s @ data)\<rparr>)"

text \<open>
  The steps of either end \<open>s\<close>: its adapter, a pass of a write, the two parts of a pass of a read. A request posted to a queue that works
  is accepted.
\<close>

inductive rdma_reach :: "int \<Rightarrow> nat \<Rightarrow> rdma_system \<Rightarrow> bool" for depth :: int and rbs :: nat where
  start: "rd_prepare depth rbs base = Some a \<Longrightarrow> rd_prepare depth rbs base' = Some b \<Longrightarrow> rdma_reach depth rbs (sy_start a b)"
| adapter: "rdma_reach depth rbs S \<Longrightarrow> rd_open (sy_end S s) \<Longrightarrow> rd_open (sy_end S (\<not> s)) \<Longrightarrow> rd_sq (sy_end S s) = wr # wrs \<Longrightarrow>
    0 < rd_receives (sy_end S (\<not> s)) \<Longrightarrow> adapter_do wr ((sy_end S s)\<lparr>rd_sq := wrs\<rparr>) (sy_end S (\<not> s)) = (a, b) \<Longrightarrow>
    rdma_reach depth rbs (S\<lparr>sy_end := (sy_end S)(s := a, (\<not> s) := b)\<rparr>)"
| write_pass: "rdma_reach depth rbs S \<Longrightarrow> rd_open (sy_end S s) \<Longrightarrow> ev_send_ok ev \<Longrightarrow>
    rdma_reach depth rbs (sy_wrote s buffer (rd_writePass ev buffer (sy_end S s)) S)"
| read_begin: "rdma_reach depth rbs S \<Longrightarrow> rd_open (sy_end S s) \<Longrightarrow> sy_held S s = None \<Longrightarrow>
    rdma_reach depth rbs (sy_began s (rd_readBegin ev extra_event block old (sy_end S s)) S)"
| read_end: "rdma_reach depth rbs S \<Longrightarrow> rd_open (sy_end S s) \<Longrightarrow> sy_held S s = Some av \<Longrightarrow> ev_send_ok ev \<Longrightarrow>
    rdma_reach depth rbs (sy_ended s (rd_readEnd ev bytes av (sy_end S s)) S)"

text \<open>What a pass does, as completions followed by the action proper.\<close>

lemma rd_writePass_cases:
  assumes "rd_writePass ev buffer c = (p, c')" and "ev_send_ok ev"
  obtains (failed) "p = WriteFailed"
  | (retry) e where "p = WriteRetry" "rd_checkCQ ev False (c\<lparr>rd_established := e\<rparr>) = Some c'" "e \<longrightarrow> rd_established c"
  | (put) e c1 b c2 where "rd_checkCQ ev False (c\<lparr>rd_established := e\<rparr>) = Some c1" "rd_wcredits c1 \<noteq> 0" "p = WrotePut b" "b \<noteq> 0"
      "rd_fill buffer (of_nat (min (length buffer) MAX_BS)) c1 = (b, c2)" "rd_postRDMAWrite ev c2 = (True, c')" "e \<longrightarrow> rd_established c"
proof -
  have dis: "\<exists>e. d = c\<lparr>rd_established := e\<rparr> \<and> (e \<longrightarrow> rd_established c)" if "rd_checkDisconnected ev c = Some d" for d
    using that by (auto simp: rd_checkDisconnected_def split: if_splits option.splits rdma_cm_event.splits intro: exI [of _ "rd_established c"])
  have ok: "fst (rd_postRDMAWrite ev x)" for x
    using assms(2) by (simp add: rd_postRDMAWrite_def Let_def split: prod.splits)
  show thesis
  proof (cases "p = WriteFailed")
    case False
    with assms(1) obtain d c1 where d: "rd_checkDisconnected ev c = Some d" "rd_checkCQ ev False d = Some c1"
      by (auto simp: rd_writePass_def split: if_splits option.splits)
    from dis [OF d(1)] obtain e where e: "d = c\<lparr>rd_established := e\<rparr>" "e \<longrightarrow> rd_established c" by blast
    obtain b c2 where b: "rd_fill buffer (of_nat (min (length buffer) MAX_BS)) c1 = (b, c2)" by force
    obtain o' c3 where o': "rd_postRDMAWrite ev c2 = (o', c3)" by force
    show thesis
    proof (cases "rd_wcredits c1 = 0 \<or> b = 0")
      case True
      with assms(1) False d b rd_fill_zero [of buffer _ c1 c2] have "p = WriteRetry" "c' = c1"
        by (auto simp: rd_writePass_def split: if_splits)
      with retry [of e] d(2) e show thesis by simp
    next
      case no: False
      with assms(1) False d b o' ok [of c2] have "p = WrotePut b" "c' = c3" "o'"
        by (auto simp: rd_writePass_def split: if_splits)
      with put [of e c1 b c2] d(2) e b o' no show thesis by simp
    qed
  qed (rule failed)
qed

lemma rd_readBegin_cases:
  assumes "rd_readBegin ev extra_event block old c = (p, c')"
  obtains (failed) "p = BeginFailed"
  | (idle) e where "(\<exists>x. p = BeginRetry x) \<or> p = BeginNothing" "rd_checkCQ ev (ev_cq ev) (c\<lparr>rd_established := e\<rparr>) = Some c'" "e \<longrightarrow> rd_established c"
  | (closing) e where "p = BeginReady old" "rd_checkCQ ev (ev_cq ev) (c\<lparr>rd_established := e\<rparr>) = Some c'" "\<not> rd_established c'" "rd_pipe c = []" "e \<longrightarrow> rd_established c"
  | (ready) e c1 where "p = BeginReady (sum_list (rd_pipe c1))" "rd_checkCQ ev (ev_cq ev) (c\<lparr>rd_established := e\<rparr>) = Some c1"
      "c' = c1\<lparr>rd_pipe := []\<rparr>" "rd_pipe c \<noteq> []" "e \<longrightarrow> rd_established c"
proof -
  have dis: "\<exists>e. d = c\<lparr>rd_established := e\<rparr> \<and> (e \<longrightarrow> rd_established c)" if "rd_checkDisconnected ev c = Some d" for d
    using that by (auto simp: rd_checkDisconnected_def split: if_splits option.splits rdma_cm_event.splits intro: exI [of _ "rd_established c"])
  show thesis
  proof (cases "p = BeginFailed")
    case False
    with assms obtain d c1 where d: "rd_checkDisconnected ev c = Some d" "rd_checkCQ ev (ev_cq ev) d = Some c1"
      by (auto simp: rd_readBegin_def Let_def split: if_splits option.splits)
    from dis [OF d(1)] obtain e where e: "d = c\<lparr>rd_established := e\<rparr>" "e \<longrightarrow> rd_established c" by blast
    have pipe: "rd_pipe d = rd_pipe c" by (simp add: e(1))
    have cq: "\<not> (ev_cq ev \<and> \<not> ev_rearm_ok ev)" using assms False d(1) by (auto simp: rd_readBegin_def Let_def split: if_splits)
    show thesis
    proof (cases "rd_established c1 \<and> rd_needFC c1 \<and> rd_fcredits c1 = 0 \<or> rd_established c1 \<and> rd_pipe c = []")
      case True
      with assms False d cq pipe have "((\<exists>x. p = BeginRetry x) \<or> p = BeginNothing) \<and> c' = c1"
        unfolding rd_readBegin_def Let_def d(1) option.case d(2) by (auto split: if_splits)
      with idle [of e] d(2) e show thesis by simp
    next
      case no: False
      show thesis
      proof (cases "rd_pipe c = []")
        case True
        with assms False d cq pipe no have "p = BeginReady old \<and> c' = c1 \<and> \<not> rd_established c1"
          unfolding rd_readBegin_def Let_def d(1) option.case d(2) by (simp split: if_splits)
        with closing [of e] d(2) e True show thesis by simp
      next
        case pn: False
        with assms False d cq pipe no have "p = BeginReady (sum_list (rd_pipe c1)) \<and> c' = c1\<lparr>rd_pipe := []\<rparr>"
          unfolding rd_readBegin_def Let_def d(1) option.case d(2) rd_getAvailableBytes_def by (simp split: if_splits)
        with ready [of c1 e] d(2) e pn show thesis by simp
      qed
    qed
  qed (rule failed)
qed

lemma rd_readEnd_cases:
  assumes "rd_readEnd ev bytes av c = (p, c')" and "ev_send_ok ev"
  obtains (failed) "p = EndFailed"
  | (retry) "p = EndRetry" "rd_drain bytes c = ([], c')"
  | (taken) data c1 c2 where "rd_drain bytes c = (data, c1)" "data \<noteq> []" "p = EndTaken data"
      "c2 = c1\<lparr>rd_readBytes := rd_readBytes c1 + of_nat (length data),
               rd_pipe := rd_pipe c1 @ (if av > of_nat (length data) then [av - of_nat (length data)] else [])\<rparr>"
      "(if rd_established c2 \<and> rd_needFC c2 then rd_postFC ev c2 = (True, c') else c' = c2)"
proof -
  obtain data c1 where d: "rd_drain bytes c = (data, c1)" by force
  have swap: "c\<lparr>rd_pipe := x, rd_readBytes := y\<rparr> = c\<lparr>rd_readBytes := y, rd_pipe := x\<rparr>" for c :: rdma and x y by simp
  have ok: "rd_postFC ev x = (True, snd (rd_postFC ev x))" for x
    using assms(2) by (simp add: rd_postFC_def rd_postMessage_def Let_def)
  show thesis
  proof (cases "data = []")
    case True
    with assms(1) d failed retry show thesis by (auto simp: rd_readEnd_def split: if_splits)
  next
    case False
    let ?c2 = "c1\<lparr>rd_readBytes := rd_readBytes c1 + of_nat (length data),
               rd_pipe := rd_pipe c1 @ (if av > of_nat (length data) then [av - of_nat (length data)] else [])\<rparr>"
    from assms(1) d False have "p = EndTaken data" "c' = (if rd_established ?c2 \<and> rd_needFC ?c2 then snd (rd_postFC ev ?c2) else ?c2)"
      by (auto simp: rd_readEnd_def Let_def rd_incrAvailableBytes_def swap split: if_splits)
    with taken [OF d False, of ?c2] ok show thesis by (metis (no_types, lifting))
  qed
qed


section \<open>The invariant of the stream\<close>

text \<open>What holds of an end that receives, and of an end \<open>a\<close> that sends to \<open>b\<close>; neither depends on the fields the other operations change.\<close>

lemma inv_frame [simp]:
  "recv_inv n out inp k (c\<lparr>rd_established := e\<rparr>) = recv_inv n out inp k c"
  "send_inv n out k (c\<lparr>rd_established := e\<rparr>) = send_inv n out k c"
  "ack_inv n out inp (c\<lparr>rd_established := e\<rparr>) d = ack_inv n out inp c d"
  "ack_inv n out inp d (c\<lparr>rd_established := e\<rparr>) = ack_inv n out inp d c"
  "recv_inv n out inp k (c\<lparr>rd_pipe := p\<rparr>) = recv_inv n out inp k c"
  "send_inv n out k (c\<lparr>rd_pipe := p\<rparr>) = send_inv n out k c"
  "ack_inv n out inp (c\<lparr>rd_pipe := p\<rparr>) d = ack_inv n out inp c d"
  "ack_inv n out inp d (c\<lparr>rd_pipe := p\<rparr>) = ack_inv n out inp d c"
  "recv_inv n out inp k (c\<lparr>rd_readBytes := r\<rparr>) = recv_inv n out inp k c"
  "send_inv n out k (c\<lparr>rd_readBytes := r\<rparr>) = send_inv n out k c"
  "ack_inv n out inp (c\<lparr>rd_readBytes := r\<rparr>) d = ack_inv n out inp c d"
  "send_inv n out k (c\<lparr>rd_sinkptr := q\<rparr>) = send_inv n out k c"
  "ack_inv n out inp (c\<lparr>rd_sinkptr := q\<rparr>) d = ack_inv n out inp c d"
  "ack_inv n out inp d (c\<lparr>rd_sinkptr := q\<rparr>) = ack_inv n out inp d c"
  by (simp_all add: recv_inv_def send_inv_def ack_inv_def fcs_under_way_def)

definition pair_inv :: "nat \<Rightarrow> bytes \<Rightarrow> bytes \<Rightarrow> bytes \<Rightarrow> bytes \<Rightarrow> nat \<Rightarrow> nat \<Rightarrow> rdma \<Rightarrow> rdma \<Rightarrow> bool" where
  "pair_inv n oa ob ia ib ka kb a b \<longleftrightarrow>
     recv_inv n oa ib ka b \<and> send_inv n oa ka a \<and> ack_inv n oa ib a b \<and> recv_inv n ob ia kb a \<and> send_inv n ob kb b \<and> ack_inv n ob ia b a"

lemma one_keeps_conj: "one_keeps P \<Longrightarrow> one_keeps Q \<Longrightarrow> one_keeps (\<lambda>c. P c \<and> Q c)"
  by (auto simp: one_keeps_def)

lemma pair_inv_one: "one_keeps (\<lambda>a. pair_inv n oa ob ia ib ka kb a b)"
proof -
  have "one_keeps (\<lambda>a. (recv_inv n ob ia kb a \<and> (send_inv n oa ka a \<and> list_all wc_ok (rd_cq a))) \<and> ack_inv n oa ib a b \<and> ack_inv n ob ia b a)"
    by (intro one_keeps_conj recv_inv_one send_inv_one ack_inv_one_s ack_inv_one_t)
  moreover have "ack_inv n oa ib a b \<Longrightarrow> list_all wc_ok (rd_cq a)" for a by (auto simp: ack_inv_def)
  ultimately show ?thesis unfolding one_keeps_def pair_inv_def by blast
qed

lemma rd_checkCQ_state: "rd_checkCQ ev drain c = Some c' \<Longrightarrow> rd_state c' = rd_state c"
proof -
  have "one_keeps (\<lambda>d. rd_state d = rd_state c)"
    unfolding one_keeps_def
  proof (intro allI impI)
    fix d d' assume "rd_state d = rd_state c" and one: "rd_one d = Some d'"
    from one obtain wc wcs where cq: "rd_cq d = wc # wcs" by (auto simp: rd_one_def split: list.splits)
    have "rd_state d' = rd_state d"
    proof (cases wc)
      case (WC_RECV m)
      with one cq show ?thesis by (cases m) (auto simp: rd_one_def rd_recvFC_def rd_recvSetup_def split: if_splits)
    qed (use one cq in \<open>auto simp: rd_one_def rd_recvRDMAWrite_def rd_incrAvailableBytes_def Let_def\<close>)
    with \<open>rd_state d = rd_state c\<close> show "rd_state d' = rd_state c" by simp
  qed
  then show "rd_checkCQ ev drain c = Some c' \<Longrightarrow> rd_state c' = rd_state c" by (rule rd_checkCQ_keeps [where Q = "\<lambda>d. rd_state d = rd_state c"]) simp_all
qed

lemma rd_write_shape:
  assumes "rd_fill buffer bytes c = (b, c1)" and "rd_postRDMAWrite ev c1 = (True, c')"
  shows "\<exists>m sp f r x y z v. c' = c\<lparr>rd_sourcebuf := m, rd_sourceptr := sp, rd_fcs := f, rd_rptr := r, rd_wcredits := rd_wcredits c - 1,
    rd_sq := rd_sq c @ [WR_RDMA_WRITE x y z v]\<rparr>"
proof -
  obtain m sp where c1: "c1 = c\<lparr>rd_sourcebuf := m, rd_sourceptr := sp\<rparr>" using assms(1) by (auto simp: rd_fill_def Let_def)
  show ?thesis using assms(2) by (simp add: c1 rd_postRDMAWrite_def rd_makeImm_def Let_def split: if_splits) blast
qed

lemma rd_postRDMAWrite_frame:
  assumes "rd_fill buffer bytes c = (b, c1)" and "rd_postRDMAWrite ev c1 = (True, c')"
  shows "recv_inv n out inp k c' = recv_inv n out inp k c" and "rd_state c' = rd_state c" and "ack_inv n out inp d c' = ack_inv n out inp d c"
proof -
  obtain m sp f r x y z v where "c' = c\<lparr>rd_sourcebuf := m, rd_sourceptr := sp, rd_fcs := f, rd_rptr := r, rd_wcredits := rd_wcredits c - 1,
    rd_sq := rd_sq c @ [WR_RDMA_WRITE x y z v]\<rparr>" using rd_write_shape [OF assms] by blast
  then show "recv_inv n out inp k c' = recv_inv n out inp k c" "rd_state c' = rd_state c" "ack_inv n out inp d c' = ack_inv n out inp d c"
    by (simp_all add: recv_inv_def ack_inv_def fcs_under_way_def)
qed

lemma rd_postFC_shape:
  assumes "rd_postFC ev c = (True, c')"
  shows "c' = c\<lparr>rd_writes := rd_writes c - uint (of_int (rd_writes c) :: uint32), rd_readBytes := 0, rd_fcredits := rd_fcredits c - 1,
    rd_sq := rd_sq c @ [WR_SEND (FC 8 \<lparr>fc_bytes_received = ucast (rd_readBytes c), fc_writes_received = of_int (rd_writes c)\<rparr>)]\<rparr>"
  using assms by (simp add: rd_postFC_def rd_postMessage_def Let_def split: if_splits)

lemma rd_postFC_frame:
  assumes "rd_postFC ev c = (True, c')"
  shows "recv_inv n out inp k c' = recv_inv n out inp k c" and "rd_state c' = rd_state c" and "ack_inv n out inp c' d = ack_inv n out inp c d"
    and "send_inv n out k c' = send_inv n out k c"
  by (simp_all add: rd_postFC_shape [OF assms] recv_inv_def ack_inv_def send_inv_def fcs_under_way_def sq_at_append)

text \<open>A pass of a write at \<open>a\<close>.\<close>

lemma pair_inv_write:
  assumes "pair_inv n oa ob ia ib ka kb a b" and "rd_fill buffer (of_nat (min (length buffer) MAX_BS)) a = (x, a1)" and "x \<noteq> 0"
    and "rd_postRDMAWrite ev a1 = (True, a')"
  shows "pair_inv n (oa @ take (unat x) buffer) ob ia ib ka kb a' b"
proof -
  from assms(1) have inv: "send_inv n oa ka a" "ack_inv n oa ib a b" "recv_inv n oa ib ka b" by (simp_all add: pair_inv_def)
  have "recv_inv n (oa @ take (unat x) buffer) ib ka b"
    using inv(3) by (auto simp: recv_inv_def intro: ring_mem_append)
  with rd_post_spec [OF inv(1,2) assms(2-4) inv(3)] rd_postRDMAWrite_frame [OF assms(2,4)] assms(1) show ?thesis by (simp add: pair_inv_def)
qed

text \<open>The second part of a pass of a read at \<open>a\<close>.\<close>

lemma pair_inv_read:
  assumes "pair_inv n oa ob ia ib ka kb a b" and "rd_readEnd ev bytes av a = (p, a')" and "ev_send_ok ev" and "p \<noteq> EndFailed"
  shows "pair_inv n oa ob (case p of EndTaken data \<Rightarrow> ia @ data | _ \<Rightarrow> ia) ib ka kb a' b"
  using assms(2,3)
proof (cases rule: rd_readEnd_cases)
  case failed
  with assms(4) show ?thesis by simp
next
  case retry
  obtain q where a': "a' = a\<lparr>rd_sinkptr := q\<rparr>" using rd_drain_frame [OF retry(2)] by blast
  have "recv_inv n ob ia kb a'" using rd_drain_spec [of n ob ia kb a bytes "[]" a'] retry(2) assms(1) by (simp add: pair_inv_def)
  with assms(1) retry(1) show ?thesis by (simp add: pair_inv_def a')
next
  case (taken data c1 c2)
  from assms(1) have recv: "recv_inv n ob ia kb a" and ack: "ack_inv n ob ia b a" by (simp_all add: pair_inv_def)
  note d = rd_drain_spec [OF recv taken(1)]
  obtain q where c1: "c1 = a\<lparr>rd_sinkptr := q\<rparr>" using rd_drain_frame [OF taken(1)] by blast
  have "length ia \<le> length ob" using recv unfolding recv_inv_def by linarith
  moreover from ack obtain f where "length ob \<le> f + n" "f + unat (rd_readBytes a) \<le> length ia" unfolding ack_inv_def by auto
  ultimately have rb: "unat (rd_readBytes a) \<le> n" by linarith
  have n: "2 * n \<le> 2 ^ 32" using ack by (auto simp: ack_inv_def ring_at_def ring_ok_def)
  have ack2: "ack_inv n ob (ia @ data) b c2"
    using ack_inv_read [of n ob ia b c1 data] ack rb d unfolding taken(4) by (simp add: c1)
  have rest: "recv_inv n ob (ia @ data) kb c2" "send_inv n oa ka c2" "ack_inv n oa ib c2 b"
    using d assms(1) unfolding taken(4) by (simp_all add: c1 pair_inv_def)
  have small: "unat (rd_readBytes c2) < 2 ^ 32"
  proof -
    have "length (ia @ data) \<le> length ob" using rest(1) unfolding recv_inv_def by linarith
    moreover from ack2 obtain f where "length ob \<le> f + n" "f + unat (rd_readBytes c2) \<le> length (ia @ data)" unfolding ack_inv_def by auto
    moreover have "0 < n" using ack by (auto simp: ack_inv_def ring_at_def ring_ok_def)
    ultimately show ?thesis using n by linarith
  qed
  have "pair_inv n oa ob (ia @ data) ib ka kb a' b"
  proof (cases "rd_postFC ev c2 = (True, a')")
    case True
    with rest ack2 small assms(1) show ?thesis by (simp add: pair_inv_def rd_postFC_frame [OF True] ack_inv_postFC [OF ack2 True])
  next
    case False
    with taken(5) have "a' = c2" by (simp split: if_splits)
    with rest ack2 assms(1) show ?thesis by (simp add: pair_inv_def)
  qed
  with taken(3) show ?thesis by simp
qed


lemma pair_inv_sym: "pair_inv n oa ob ia ib ka kb a b \<longleftrightarrow> pair_inv n ob oa ib ia kb ka b a"
  by (auto simp: pair_inv_def)

definition sys_inv :: "nat \<Rightarrow> rdma_system \<Rightarrow> bool" where
  "sys_inv n S \<longleftrightarrow> (\<forall>s. prefix (sy_in S (\<not> s)) (sy_out S s)) \<and>
     (\<exists>k. (\<forall>s. rd_open (sy_end S s) \<longrightarrow> recv_inv n (sy_out S (\<not> s)) (sy_in S s) (k (\<not> s)) (sy_end S s)) \<and>
        ((\<forall>s. rd_open (sy_end S s)) \<longrightarrow>
           pair_inv n (sy_out S True) (sy_out S False) (sy_in S True) (sy_in S False) (k True) (k False) (sy_end S True) (sy_end S False)))"

text \<open>It is enough to look at one end \<open>s\<close>, alone or with the other.\<close>

lemma sys_invI:
  assumes "\<And>r. prefix (sy_in S (\<not> r)) (sy_out S r)"
    and "rd_open (sy_end S s) \<Longrightarrow> recv_inv n (sy_out S (\<not> s)) (sy_in S s) ko (sy_end S s)"
    and "rd_open (sy_end S (\<not> s)) \<Longrightarrow> recv_inv n (sy_out S s) (sy_in S (\<not> s)) ks (sy_end S (\<not> s))"
    and "rd_open (sy_end S s) \<Longrightarrow> rd_open (sy_end S (\<not> s)) \<Longrightarrow>
      pair_inv n (sy_out S s) (sy_out S (\<not> s)) (sy_in S s) (sy_in S (\<not> s)) ks ko (sy_end S s) (sy_end S (\<not> s))"
  shows "sys_inv n S"
  unfolding sys_inv_def
proof (intro conjI allI exI [of _ "\<lambda>r. if r = s then ks else ko"] impI)
  fix r
  show "prefix (sy_in S (\<not> r)) (sy_out S r)" by (rule assms(1))
  show "recv_inv n (sy_out S (\<not> r)) (sy_in S r) (if (\<not> r) = s then ks else ko) (sy_end S r)" if "rd_open (sy_end S r)"
    using that assms(2,3) by (cases r; cases s) auto
next
  assume "\<forall>s. rd_open (sy_end S s)"
  then show "pair_inv n (sy_out S True) (sy_out S False) (sy_in S True) (sy_in S False) (if True = s then ks else ko)
      (if False = s then ks else ko) (sy_end S True) (sy_end S False)"
    using assms(4) pair_inv_sym by (cases s) auto
qed

lemma sys_invE:
  assumes "sys_inv n S"
  obtains ks ko where "\<And>r. prefix (sy_in S (\<not> r)) (sy_out S r)"
    and "rd_open (sy_end S s) \<Longrightarrow> recv_inv n (sy_out S (\<not> s)) (sy_in S s) ko (sy_end S s)"
    and "rd_open (sy_end S (\<not> s)) \<Longrightarrow> recv_inv n (sy_out S s) (sy_in S (\<not> s)) ks (sy_end S (\<not> s))"
    and "rd_open (sy_end S s) \<Longrightarrow> rd_open (sy_end S (\<not> s)) \<Longrightarrow>
      pair_inv n (sy_out S s) (sy_out S (\<not> s)) (sy_in S s) (sy_in S (\<not> s)) ks ko (sy_end S s) (sy_end S (\<not> s))"
proof -
  from assms obtain k where k: "\<And>s. prefix (sy_in S (\<not> s)) (sy_out S s)"
    "\<And>s. rd_open (sy_end S s) \<Longrightarrow> recv_inv n (sy_out S (\<not> s)) (sy_in S s) (k (\<not> s)) (sy_end S s)"
    "(\<forall>s. rd_open (sy_end S s)) \<Longrightarrow>
       pair_inv n (sy_out S True) (sy_out S False) (sy_in S True) (sy_in S False) (k True) (k False) (sy_end S True) (sy_end S False)"
    unfolding sys_inv_def by blast
  have both: "(\<forall>s. rd_open (sy_end S s)) \<longleftrightarrow> rd_open (sy_end S s) \<and> rd_open (sy_end S (\<not> s))" by (cases s) (auto simp: all_bool_eq)
  show thesis
  proof (rule that [of "k (\<not> s)" "k s"])
    show "recv_inv n (sy_out S s) (sy_in S (\<not> s)) (k s) (sy_end S (\<not> s))" if "rd_open (sy_end S (\<not> s))" using k(2) [OF that] by simp
    show "pair_inv n (sy_out S s) (sy_out S (\<not> s)) (sy_in S s) (sy_in S (\<not> s)) (k s) (k (\<not> s)) (sy_end S s) (sy_end S (\<not> s))"
      if "rd_open (sy_end S s)" "rd_open (sy_end S (\<not> s))"
      using k(3) both that pair_inv_sym by (cases s) auto
  qed (use k in auto)
qed

lemma rd_close_closed [simp]: "\<not> rd_open (rd_close c)"
  by (simp add: rd_close_def)


text \<open>Closing an end leaves the other one to read what has arrived.\<close>

lemma sys_inv_close:
  assumes "sys_inv n S"
  shows "sys_inv n (S\<lparr>sy_end := (sy_end S)(s := rd_close c)\<rparr>)"
proof -
  from sys_invE [OF assms, of s] obtain ks where k: "\<And>r. prefix (sy_in S (\<not> r)) (sy_out S r)"
    "rd_open (sy_end S (\<not> s)) \<Longrightarrow> recv_inv n (sy_out S s) (sy_in S (\<not> s)) ks (sy_end S (\<not> s))" by metis
  show ?thesis by (rule sys_invI [of _ s _ 0 ks]) (use k in auto)
qed

text \<open>An operation of the open end \<open>s\<close> that keeps what concerns \<open>s\<close> alone and what concerns both keeps the invariant.\<close>

lemma sys_inv_step:
  assumes "sys_inv n S" and "rd_open (sy_end S s)" and "rd_open c"
    and recv: "\<And>k. recv_inv n (sy_out S (\<not> s)) (sy_in S s) k (sy_end S s) \<Longrightarrow> recv_inv n (sy_out S (\<not> s)) (sy_in S s @ data) k c"
    and pair: "\<And>ks ko. rd_open (sy_end S (\<not> s)) \<Longrightarrow>
      pair_inv n (sy_out S s) (sy_out S (\<not> s)) (sy_in S s) (sy_in S (\<not> s)) ks ko (sy_end S s) (sy_end S (\<not> s)) \<Longrightarrow>
      pair_inv n (sy_out S s @ new) (sy_out S (\<not> s)) (sy_in S s @ data) (sy_in S (\<not> s)) ks ko c (sy_end S (\<not> s))"
    and S': "sy_end S' = (sy_end S)(s := c)" "sy_out S' = (sy_out S)(s := sy_out S s @ new)" "sy_in S' = (sy_in S)(s := sy_in S s @ data)"
  shows "sys_inv n S'"
proof -
  from sys_invE [OF assms(1), of s] obtain ks ko where k: "\<And>r. prefix (sy_in S (\<not> r)) (sy_out S r)"
    "recv_inv n (sy_out S (\<not> s)) (sy_in S s) ko (sy_end S s)"
    "rd_open (sy_end S (\<not> s)) \<Longrightarrow> recv_inv n (sy_out S s) (sy_in S (\<not> s)) ks (sy_end S (\<not> s))"
    "rd_open (sy_end S (\<not> s)) \<Longrightarrow>
      pair_inv n (sy_out S s) (sy_out S (\<not> s)) (sy_in S s) (sy_in S (\<not> s)) ks ko (sy_end S s) (sy_end S (\<not> s))"
    using assms(2) by metis
  have r: "recv_inv n (sy_out S (\<not> s)) (sy_in S s @ data) ko c" by (rule recv [OF k(2)])
  then have "sy_in S s @ data = take (length (sy_in S s @ data)) (sy_out S (\<not> s))" unfolding recv_inv_def by blast
  then have "prefix (sy_in S s @ data) (sy_out S (\<not> s))" by (metis take_is_prefix)
  moreover have "prefix (sy_in S (\<not> s)) (sy_out S s @ new)" using k(1) [of s] by (simp add: prefix_prefix)
  ultimately have p: "prefix (sy_in S' (\<not> r)) (sy_out S' r)" for r by (cases "r = s") (auto simp: S')
  have rt: "recv_inv n (sy_out S s @ new) (sy_in S (\<not> s)) ks (sy_end S (\<not> s))" if "rd_open (sy_end S (\<not> s))"
    using pair [OF that k(4) [OF that]] by (simp add: pair_inv_def)
  show ?thesis by (rule sys_invI [of _ s _ ko ks]) (use p r rt pair k(4) in \<open>auto simp: S'\<close>)
qed

lemma checkCQ_recv: "rd_checkCQ ev drain (c\<lparr>rd_established := e\<rparr>) = Some c' \<Longrightarrow> recv_inv n out inp k c \<Longrightarrow> recv_inv n out inp k c'"
  using rd_checkCQ_keeps [OF recv_inv_one, of n out inp k "c\<lparr>rd_established := e\<rparr>"] by simp

lemma checkCQ_pair:
  assumes "rd_checkCQ ev drain (a\<lparr>rd_established := e\<rparr>) = Some a'" and "pair_inv n oa ob ia ib ka kb a b"
  shows "pair_inv n oa ob ia ib ka kb a' b"
proof -
  have "pair_inv n oa ob ia ib ka kb (a\<lparr>rd_established := e\<rparr>) b" using assms(2) by (simp add: pair_inv_def)
  from rd_checkCQ_keeps [OF pair_inv_one this assms(1)] show ?thesis .
qed

lemma sys_inv_write:
  assumes "sys_inv n S" and "rd_open (sy_end S s)" and "ev_send_ok ev"
  shows "sys_inv n (sy_wrote s buffer (rd_writePass ev buffer (sy_end S s)) S)"
proof -
  obtain p c where x: "rd_writePass ev buffer (sy_end S s) = (p, c)" by force
  from x assms(3) show ?thesis
  proof (cases rule: rd_writePass_cases)
    case failed
    with x sys_inv_close [OF assms(1)] show ?thesis by (simp add: sy_wrote_def)
  next
    case (retry e)
    have "rd_open c" using rd_checkCQ_state [OF retry(2)] assms(2) by simp
    with checkCQ_recv [OF retry(2)] checkCQ_pair [OF retry(2)] show ?thesis
      by (intro sys_inv_step [OF assms(1,2), where c = c and data = "[]" and new = "[]"]) (auto simp: x retry(1) sy_wrote_def)
  next
    case (put e c1 b c2)
    note f = rd_postRDMAWrite_frame [OF put(5,6)]
    have "rd_open c" using rd_checkCQ_state [OF put(1)] f(2) assms(2) by simp
    with checkCQ_recv [OF put(1)] checkCQ_pair [OF put(1)] pair_inv_write [OF _ put(5,4,6)] show ?thesis
      by (intro sys_inv_step [OF assms(1,2), where c = c and data = "[]" and new = "take (unat b) buffer"]) (auto simp: x put(3) sy_wrote_def f(1))
  qed
qed

lemma sys_inv_began:
  assumes "sys_inv n S" and "rd_open (sy_end S s)"
  shows "sys_inv n (sy_began s (rd_readBegin ev extra_event block old (sy_end S s)) S)"
proof -
  obtain p c where x: "rd_readBegin ev extra_event block old (sy_end S s) = (p, c)" by force
  have step: "sys_inv n S'" if "rd_checkCQ ev d ((sy_end S s)\<lparr>rd_established := e\<rparr>) = Some c1" "c = c1\<lparr>rd_pipe := q\<rparr>"
    "sy_end S' = (sy_end S)(s := c)" "sy_out S' = sy_out S" "sy_in S' = sy_in S" for d e c1 q S'
  proof -
    have "rd_open c" using rd_checkCQ_state [OF that(1)] assms(2) that(2) by simp
    with checkCQ_recv [OF that(1)] checkCQ_pair [OF that(1)] that(2-5) show ?thesis
      by (intro sys_inv_step [OF assms, where c = c and data = "[]" and new = "[]"]) (auto simp: pair_inv_def)
  qed
  from x show ?thesis
  proof (cases rule: rd_readBegin_cases)
    case failed
    with x sys_inv_close [OF assms(1)] show ?thesis by (simp add: sy_began_def)
  next
    case (idle e)
    then show ?thesis using x by (auto simp: sy_began_def intro!: step [OF idle(2), of "rd_pipe c"])
  next
    case (closing e)
    then show ?thesis using x by (auto simp: sy_began_def intro!: step [OF closing(2), of "rd_pipe c"])
  next
    case (ready e c1)
    then show ?thesis using x by (auto simp: sy_began_def intro!: step [OF ready(2,3)])
  qed
qed


lemma sys_inv_ended:
  assumes "sys_inv n S" and "rd_open (sy_end S s)" and "ev_send_ok ev"
  shows "sys_inv n (sy_ended s (rd_readEnd ev bytes av (sy_end S s)) S)"
proof -
  obtain p c where x: "rd_readEnd ev bytes av (sy_end S s) = (p, c)" by force
  show ?thesis
  proof (cases "p = EndFailed")
    case True
    with x sys_inv_close [OF assms(1)] show ?thesis by (simp add: sy_ended_def)
  next
    case False
    define data where "data = (case p of EndTaken d \<Rightarrow> d | _ \<Rightarrow> [])"
    have recv: "recv_inv n out (inp @ data) k c \<and> rd_open c" if "recv_inv n out inp k (sy_end S s)" for n out inp k
      using x assms(3)
    proof (cases rule: rd_readEnd_cases)
      case failed
      with False show ?thesis by simp
    next
      case retry
      then show ?thesis using rd_drain_spec [OF that retry(2)] rd_drain_frame [OF retry(2)] assms(2) by (auto simp: data_def)
    next
      case (taken d c1 c2)
      obtain q where c1: "c1 = (sy_end S s)\<lparr>rd_sinkptr := q\<rparr>" using rd_drain_frame [OF taken(1)] by blast
      have c2: "recv_inv n out (inp @ d) k c2" "rd_open c2" using rd_drain_spec [OF that taken(1)] assms(2) unfolding taken(4) by (simp_all add: c1)
      then show ?thesis using taken(3,5) rd_postFC_frame by (auto simp: data_def split: if_splits)
    qed
    have pair: "pair_inv n oa ob (ia @ data) ib ka kb c b" if "pair_inv n oa ob ia ib ka kb (sy_end S s) b" for oa ob ia ib ka kb b
      using pair_inv_read [OF that x assms(3) False] by (cases p) (simp_all add: data_def)
    from sys_invE [OF assms(1), of s] assms(2) recv have open': "rd_open c" by metis
    show ?thesis
      by (rule sys_inv_step [OF assms(1,2) open', where data = data and new = "[]"])
        (use recv pair False in \<open>auto simp: x sy_ended_def data_def split: rdma_read_end.splits\<close>)
  qed
qed

lemma sys_inv_adapter:
  assumes "sys_inv n S" and "rd_open (sy_end S s)" and "rd_open (sy_end S (\<not> s))" and "rd_sq (sy_end S s) = wr # wrs"
    and "adapter_do wr ((sy_end S s)\<lparr>rd_sq := wrs\<rparr>) (sy_end S (\<not> s)) = (a, b)"
  shows "sys_inv n (S\<lparr>sy_end := (sy_end S)(s := a, (\<not> s) := b)\<rparr>)"
proof -
  from sys_invE [OF assms(1), of s] assms(2,3) obtain ks ko where k: "\<And>r. prefix (sy_in S (\<not> r)) (sy_out S r)"
    "pair_inv n (sy_out S s) (sy_out S (\<not> s)) (sy_in S s) (sy_in S (\<not> s)) ks ko (sy_end S s) (sy_end S (\<not> s))" by metis
  from adapter_forward [OF _ _ _ assms(4,5)] k(2) obtain k' where
    "recv_inv n (sy_out S s) (sy_in S (\<not> s)) k' b" "send_inv n (sy_out S s) k' a" "ack_inv n (sy_out S s) (sy_in S (\<not> s)) a b"
    unfolding pair_inv_def by blast
  moreover from adapter_backward [OF _ _ _ assms(4,5)] k(2) have
    "recv_inv n (sy_out S (\<not> s)) (sy_in S s) ko a" "send_inv n (sy_out S (\<not> s)) ko b" "ack_inv n (sy_out S (\<not> s)) (sy_in S s) b a"
    unfolding pair_inv_def by blast+
  ultimately show ?thesis using k(1) by (intro sys_invI [of _ s _ ko k']) (auto simp: pair_inv_def)
qed

lemma rd_prepare_shape:
  assumes "rd_prepare depth rbs base = Some a" and "rbs \<le> 2 ^ 31"
  shows "0 < rbs \<and> 2 \<le> depth \<and> length (rd_sinkbuf a) = rbs \<and> ring_at (rd_sourceptr a) [0, 0, 0] \<and> unat (rg_num (rd_sourceptr a)) = rbs \<and>
    ring_at (rd_sinkptr a) [0, 0] \<and> unat (rg_num (rd_sinkptr a)) = rbs \<and> length (rd_sourcebuf a) = rbs \<and> length (rg_ptrs (rd_rptr a)) = 2 \<and>
    rd_cq a = [] \<and> rd_sq a = [] \<and> rd_readBytes a = 0 \<and> rd_depth a = depth \<and> rd_writes a = 0 \<and> rd_fcs a = 0 \<and>
    rd_wcredits a = depth div 2 - 2 \<and> rd_fcredits a = depth div 2 + 2 \<and> rd_pipe a = [] \<and> rd_receives a = nat depth"
proof -
  from assms(1) have pos: "0 < rbs" "2 \<le> depth"
    by (auto simp: rd_prepare_def rd_initProtocol_def rd_initBuffers_def split: if_splits option.splits)
  have num: "unat (of_nat rbs :: uint32) = rbs" using assms(2) by (simp add: unat_of_nat)
  have ok: "ring_ok (rg_clear (of_nat rbs) r :: uint32 ring)" for r using pos num assms(2) by (simp add: ring_ok_def rg_clear_def)
  have "ring_at (rg_clear (of_nat rbs) (rg_new 3 0) :: uint32 ring) [0, 0, 0]" "ring_at (rg_clear (of_nat rbs) (rg_new 2 0) :: uint32 ring) [0, 0]"
    using ring_at_clear [OF ok, of "rg_new 3 0"] ring_at_clear [OF ok, of "rg_new 2 0"]
    by (simp_all add: rg_new_def eval_nat_numeral)
  with assms(1) pos num show ?thesis
    by (auto simp: rd_prepare_def rd_initProtocol_def rd_initBuffers_def rdma_new_def rd_postReceives_def rdma_verbs_ok_def rb_resize_def
        rg_clear_def rg_new_def split: if_splits option.splits)
qed


lemma rd_connected_inv:
  assumes "rd_prepare depth rbs base = Some a" and "rd_prepare depth rbs base' = Some b" and "rbs \<le> 2 ^ 31"
  shows "rd_open (rd_connected a b) \<and> recv_inv rbs [] [] 0 (rd_connected a b) \<and> send_inv rbs [] 0 (rd_connected a b) \<and>
    ack_inv rbs [] [] (rd_connected a b) (rd_connected b a)"
proof -
  note sa = rd_prepare_shape [OF assms(1,3)] and sb = rd_prepare_shape [OF assms(2,3)]
  have num: "unat (ucast (of_nat rbs :: uint64) :: uint32) = rbs"
    using assms(3) by (simp add: unsigned_ucast_eq unat_of_nat take_bit_nat_eq_self)
  have ok: "ring_ok (rg_clear (ucast (of_nat rbs :: uint64)) (rd_rptr a) :: uint32 ring)"
    using sa num assms(3) unfolding ring_ok_def rg_clear_def by simp
  have "ring_at (rg_clear (ucast (of_nat rbs :: uint64)) (rd_rptr a)) [0, 0]"
    using ring_at_clear [OF ok] sa by (simp add: numeral_2_eq_2)
  moreover have "unat (rg_num (rg_clear (ucast (of_nat rbs :: uint64)) (rd_rptr a))) = rbs" using num by (simp add: rg_clear_def)
  ultimately show ?thesis using sa sb
    by (simp add: rd_connected_def rd_postSetup_def rd_postMessage_def rdma_verbs_ok_def rd_recvSetup_def recv_inv_def send_inv_def ack_inv_def
        ring_mem_def fcs_under_way_def)
qed

lemma sys_inv_start:
  assumes "rd_prepare depth rbs base = Some a" and "rd_prepare depth rbs base' = Some b" and "rbs \<le> 2 ^ 31"
  shows "sys_inv rbs (sy_start a b)"
  using rd_connected_inv [OF assms] rd_connected_inv [OF assms(2,1,3)]
  by (intro sys_invI [of _ True _ 0 0]) (simp_all add: sy_start_def pair_inv_def)

lemma rdma_reach_inv:
  assumes "rdma_reach depth rbs S" and "rbs \<le> 2 ^ 31"
  shows "sys_inv rbs S"
  using assms(1)
proof (induction rule: rdma_reach.induct)
  case (start base a base' b)
  then show ?case using sys_inv_start assms(2) by blast
next
  case (adapter S s wr wrs a b)
  then show ?case using sys_inv_adapter by blast
next
  case (write_pass S s ev buffer)
  then show ?case using sys_inv_write by blast
next
  case (read_begin S s ev extra_event block old)
  then show ?case using sys_inv_began by blast
next
  case (read_end S s av ev bytes)
  then show ?case using sys_inv_ended by blast
qed


text \<open>A run: one end writes three bytes, the adapters carry them, the other end sees them announced, takes them and sends a flow control message.\<close>

definition rdma_sample_ring :: "uint32 list \<Rightarrow> uint32 ring" where
  "rdma_sample_ring vals = \<lparr>rg_num = 4, rg_ptrs = map (\<lambda>v. \<lparr>ptrVal = v, ptrAdjust = 0\<rparr>) vals\<rparr>"

definition rdma_sample_end :: "uint64 \<Rightarrow> uint64 \<Rightarrow> rdma" where
  "rdma_sample_end base rbase =
     \<lparr>rd_state = CONNECTED, rd_established = True, rd_depth = 8, rd_writes = 0, rd_fcs = 0, rd_wcredits = 2, rd_fcredits = 5,
      rd_readBytes = 0, rd_pipe = [], rd_sourcebuf = [69, 0, 0, 0], rd_sourceptr = rdma_sample_ring [0, 0, 0], rd_sinkbase = base,
      rd_sinkbuf = [69, 0, 0, 0], rd_sinkptr = rdma_sample_ring [0, 0], rd_rptr = rdma_sample_ring [0, 0], rd_rbase = rbase, rd_rkey = 1,
      rd_sq = [], rd_cq = [], rd_receives = 8\<rparr>"

definition rdma_sample_written :: rdma where
  "rdma_sample_written =
     (rdma_sample_end 0 64)\<lparr>rd_wcredits := 1, rd_sourcebuf := [1, 2, 3, 0], rd_sourceptr := rdma_sample_ring [3, 3, 0],
       rd_rptr := rdma_sample_ring [3, 0], rd_sq := [WR_RDMA_WRITE 0 3 3 64]\<rparr>"

definition rdma_sample_arrived :: rdma where
  "rdma_sample_arrived = (rdma_sample_end 64 0)\<lparr>rd_sinkbuf := [1, 2, 3, 0], rd_cq := [WC_RECV_RDMA_WITH_IMM 3], rd_receives := 7\<rparr>"

definition rdma_sample_announced :: rdma where
  "rdma_sample_announced = (rdma_sample_end 64 0)\<lparr>rd_sinkbuf := [1, 2, 3, 0], rd_sinkptr := rdma_sample_ring [3, 0], rd_writes := 1, rd_pipe := [3]\<rparr>"

definition rdma_sample_taken :: rdma where
  "rdma_sample_taken =
     (rdma_sample_end 64 0)\<lparr>rd_sinkbuf := [1, 2, 3, 0], rd_sinkptr := rdma_sample_ring [3, 3], rd_fcredits := 4,
       rd_sq := [WR_SEND (FC 8 \<lparr>fc_bytes_received = 3, fc_writes_received = 1\<rparr>)]\<rparr>"

definition rdma_sample_system :: "rdma \<Rightarrow> rdma \<Rightarrow> bytes \<Rightarrow> bytes \<Rightarrow> uint64 option \<Rightarrow> rdma_system" where
  "rdma_sample_system a b out inp held =
     \<lparr>sy_end = (\<lambda>s. if s then a else b), sy_out = (\<lambda>s. if s then out else []), sy_in = (\<lambda>s. if s then [] else inp),
      sy_held = (\<lambda>s. if s then None else held)\<rparr>"

lemmas rdma_sample_simps = rdma_verbs_ok_def rd_checkDisconnected_def rd_checkCQ_def rd_poll_def rd_postReceives_def rd_fill_def rd_postRDMAWrite_def
  rd_makeImm_def imm_make_def imm_bytes_sent_def imm_fcs_received_def rd_recvRDMAWrite_def rd_incrAvailableBytes_def rd_getAvailableBytes_def
  rd_needFC_def rd_drain_def rd_postFC_def rd_postMessage_def rg_isEmpty_def rg_available_def rg_negAvailable_def rg_value_def rg_incr_def
  rg_ptr_def rp_ptr_def rp_incr_def rg_HEAD_def MAX_BS_def MAX_FC_def FC_MESSAGE_FREQUENCY_def mem_write_def rdma_sample_end_def rdma_sample_ring_def

lemma rdma_sample_prepared: "\<exists>a b. rd_prepare 8 4 base = Some a \<and> rd_prepare 8 4 base' = Some b \<and> rd_connected a b = rdma_sample_end base base'"
proof -
  have "replicate 4 0 = [0, 0, 0, 0 :: 8 word]" "replicate 3 x = [x, x, x]" "replicate 2 x = [x, x]" for x :: "uint32 ring_ptr"
    by (simp_all add: numeral_eq_Suc)
  then show ?thesis
    by (simp add: rd_connected_def rd_prepare_def rd_initProtocol_def rd_initBuffers_def rdma_new_def rb_resize_def rd_postSetup_def rd_recvSetup_def
        rg_new_def rg_clear_def rp_new_def rp_clear_def rdma_sample_simps)
qed

lemma rdma_sample_write_pass: "rd_writePass rdma_verbs_ok [1, 2, 3] (rdma_sample_end 0 64) = (WrotePut 3, rdma_sample_written)"
  by (simp add: rd_writePass_def rdma_sample_written_def rdma_sample_simps Let_def)

lemma rdma_sample_adapter:
  "adapter_do (WR_RDMA_WRITE 0 3 3 64) (rdma_sample_written\<lparr>rd_sq := []\<rparr>) (rdma_sample_end 64 0) =
     (rdma_sample_written\<lparr>rd_sq := [], rd_cq := [WC_RDMA_WRITE 3]\<rparr>, rdma_sample_arrived)"
  by (simp add: rdma_sample_written_def rdma_sample_arrived_def rdma_sample_simps)

lemma rdma_sample_begin:
  "rd_readBegin rdma_verbs_ok False False 0 rdma_sample_arrived = (BeginRetry True, rdma_sample_announced)"
  "rd_readBegin rdma_verbs_ok True False 0 rdma_sample_announced = (BeginReady 3, rdma_sample_announced\<lparr>rd_pipe := []\<rparr>)"
  by (simp_all add: rd_readBegin_def rdma_sample_arrived_def rdma_sample_announced_def rdma_sample_simps Let_def)

lemma rdma_sample_end_pass: "rd_readEnd rdma_verbs_ok 8 3 (rdma_sample_announced\<lparr>rd_pipe := []\<rparr>) = (EndTaken [1, 2, 3], rdma_sample_taken)"
proof -
  have "[0..<3] = [0, 1, 2 :: nat]" by code_simp
  then show ?thesis by (simp add: rd_readEnd_def rdma_sample_announced_def rdma_sample_taken_def rdma_sample_simps Let_def)
qed

lemma rdma_sample_reach:
  "rdma_reach 8 4 (rdma_sample_system rdma_sample_written (rdma_sample_end 64 0) [1, 2, 3] [] None)"
  "rdma_reach 8 4 (rdma_sample_system (rdma_sample_written\<lparr>rd_sq := [], rd_cq := [WC_RDMA_WRITE 3]\<rparr>) rdma_sample_taken [1, 2, 3] [1, 2, 3] None)"
proof -
  let ?w = "rdma_sample_written\<lparr>rd_sq := [], rd_cq := [WC_RDMA_WRITE 3]\<rparr>" and ?out = "[1, 2, 3] :: bytes"
  have upd: "(\<lambda>s. if s then x else y)(True := x') = (\<lambda>s. if s then x' else y)" "(\<lambda>s. if s then x else y)(False := y') = (\<lambda>s. if s then x else y')"
    "(\<lambda>s. x)(True := x') = (\<lambda>s. if s then x' else x)" "(\<lambda>s. x)(False := y') = (\<lambda>s. if s then x else y')"
    for x y x' y' :: 'x by auto
  have open_ends: "rd_open (rdma_sample_end base rbase)" "rd_open rdma_sample_written" "rd_open rdma_sample_arrived" "rd_open rdma_sample_announced" for base rbase
    by (simp_all add: rdma_sample_end_def rdma_sample_written_def rdma_sample_arrived_def rdma_sample_announced_def)
  have ok: "ev_send_ok rdma_verbs_ok" by (simp add: rdma_verbs_ok_def)
  obtain a b where ab: "rd_prepare 8 4 0 = Some a" "rd_prepare 8 4 64 = Some b" "rd_connected a b = rdma_sample_end 0 64"
    using rdma_sample_prepared by blast
  obtain a' b' where "rd_prepare 8 4 64 = Some b'" "rd_prepare 8 4 0 = Some a'" "rd_connected b' a' = rdma_sample_end 64 0"
    using rdma_sample_prepared by blast
  with ab have ba: "rd_connected b a = rdma_sample_end 64 0" by simp
  have "rdma_reach 8 4 (rdma_sample_system (rdma_sample_end 0 64) (rdma_sample_end 64 0) [] [] None)"
    using rdma_reach.start [OF ab(1,2)] by (simp add: sy_start_def rdma_sample_system_def ab(3) ba if_distrib cong: if_cong)
  from rdma_reach.write_pass [OF this _ ok, of True ?out]
  show w: "rdma_reach 8 4 (rdma_sample_system rdma_sample_written (rdma_sample_end 64 0) ?out [] None)"
    by (simp add: rdma_sample_system_def open_ends rdma_sample_write_pass sy_wrote_def upd)
  have "rd_sq rdma_sample_written = [WR_RDMA_WRITE 0 3 3 64]" "0 < rd_receives (rdma_sample_end 64 0)" by (simp_all add: rdma_sample_written_def rdma_sample_end_def)
  with rdma_reach.adapter [OF w, of True] open_ends rdma_sample_adapter
  have "rdma_reach 8 4 (rdma_sample_system ?w rdma_sample_arrived ?out [] None)" by (simp add: rdma_sample_system_def upd)
  from rdma_reach.read_begin [OF this, of False rdma_verbs_ok False False 0]
  have "rdma_reach 8 4 (rdma_sample_system ?w rdma_sample_announced ?out [] None)" by (simp add: rdma_sample_system_def open_ends rdma_sample_begin sy_began_def upd)
  from rdma_reach.read_begin [OF this, of False rdma_verbs_ok True False 0]
  have "rdma_reach 8 4 (rdma_sample_system ?w (rdma_sample_announced\<lparr>rd_pipe := []\<rparr>) ?out [] (Some 3))"
    by (simp add: rdma_sample_system_def open_ends rdma_sample_begin sy_began_def upd)
  from rdma_reach.read_end [OF this _ _ ok, of False 3 8]
  show "rdma_reach 8 4 (rdma_sample_system ?w rdma_sample_taken ?out ?out None)"
    by (simp add: rdma_sample_system_def open_ends rdma_sample_end_pass sy_ended_def upd)
qed

text \<open>
  C11 (rdma_stream): with rings of the same size at both ends, the bytes read at one end of an RDMA connection are the first of the
  bytes written at the other, in order, however the adapters, the writing and the reading threads interleave.
\<close>

theorem rdma_stream:
  assumes "rdma_reach depth rbs S" and "rbs \<le> 2 ^ 31"
  shows "prefix (sy_in S (\<not> s)) (sy_out S s)"
  using rdma_reach_inv [OF assms] by (simp add: sys_inv_def)

theorem rdma_stream_witness:
  "prefix [1, 2, 3 :: 8 word] (sy_out (rdma_sample_system (rdma_sample_written\<lparr>rd_sq := [], rd_cq := [WC_RDMA_WRITE 3]\<rparr>) rdma_sample_taken [1, 2, 3] [1, 2, 3] None) True)"
  using rdma_stream [OF rdma_sample_reach(2), of True] by (simp add: rdma_sample_system_def)

end
