(* ===== verification/RDMA_Flow.thy ===== *)
theory RDMA_Flow
  imports RDMA_System
begin

text \<open>
  The credits of an RDMA connection. Every write and every flow control message uses up a receive at the other end, so their number is
  bounded by credits: those for writes come back with flow control messages, those for flow control messages with writes. The credits never run
  out for the side that has to send flow control, and a receive is always posted for what arrives.
\<close>

section \<open>Messages under way\<close>

fun wc_imm :: "rdma_wc \<Rightarrow> nat list" where
  "wc_imm (WC_RECV_RDMA_WITH_IMM imm_data) = [unat (imm_fcs_received imm_data)]"
| "wc_imm _ = []"

fun wr_imm :: "rdma_wr \<Rightarrow> nat list" where
  "wr_imm (WR_RDMA_WRITE addr len imm_data remote_addr) = [unat (imm_fcs_received imm_data)]"
| "wr_imm _ = []"

text \<open>
  The writes under way from \<open>s\<close> to \<open>t\<close>, each with the number of flow control messages it confirms, and the flow control messages under
  way from \<open>t\<close> to \<open>s\<close>, each with the number of writes it confirms; the oldest first.
\<close>

definition imms :: "rdma \<Rightarrow> rdma \<Rightarrow> nat list" where
  "imms s t = concat (map wc_imm (rd_cq t)) @ concat (map wr_imm (rd_sq s))"

definition acks :: "rdma \<Rightarrow> rdma \<Rightarrow> nat list" where
  "acks s t = map (unat \<circ> fc_writes_received) (fcs_under_way s t)"

text \<open>
  Whether data announced to \<open>t\<close> has not been taken yet, and how many flow control messages it may send before it receives another write,
  after \<open>k\<close> writes it has not confirmed.
\<close>

definition unread :: "uint64 option \<Rightarrow> rdma \<Rightarrow> bool" where
  "unread held t \<longleftrightarrow> rd_established t \<and> (rd_pipe t \<noteq> [] \<or> held \<noteq> None)"

definition fc_budget :: "bool \<Rightarrow> int \<Rightarrow> int" where
  "fc_budget u k = (if u then if k \<ge> 2 then 2 else 1 else if k \<ge> 1 then 1 else 0)"

lemma fc_budget_bounds: "0 \<le> fc_budget u k" "0 \<le> k \<Longrightarrow> fc_budget u k \<le> k + 1" "0 \<le> k \<Longrightarrow> fc_budget True (k + 1) \<le> fc_budget u k + 1"
  "fc_budget False k \<le> fc_budget u k" "fc_budget u k \<le> fc_budget True k" "fc_budget False 0 = 0" "fc_budget True 0 = 1" "1 \<le> fc_budget True k"
  "2 \<le> k \<Longrightarrow> fc_budget True k = 2"
  by (auto simp: fc_budget_def)

section \<open>The invariant\<close>

definition suffixes_ok :: "bool \<Rightarrow> nat list \<Rightarrow> bool" where
  "suffixes_ok again ls \<longleftrightarrow> (\<forall>i \<le> length ls. length (drop i ls) + of_bool again \<le> sum_list (drop i ls) + 1)"

definition budget_ok :: "int \<Rightarrow> int \<Rightarrow> int \<Rightarrow> nat list \<Rightarrow> bool" where
  "budget_ok w n budget is \<longleftrightarrow> (\<forall>j \<le> length is. n + int (sum_list (drop j is)) + budget + int j \<le> w + 3)"

text \<open>
  \<open>s\<close> writes, \<open>t\<close> confirms; \<open>w\<close> is the number of credits for writes. Credits are neither lost nor created, and whatever part
  of the writes under way \<open>t\<close> has received, its credits cover the flow control messages it may send then.
\<close>

definition flow_inv :: "int \<Rightarrow> bool \<Rightarrow> rdma \<Rightarrow> rdma \<Rightarrow> bool" where
  "flow_inv w u s t \<longleftrightarrow>
     0 \<le> rd_writes t \<and> 0 \<le> rd_fcs s \<and> 0 \<le> rd_wcredits s \<and>
     int (length (imms s t)) + rd_writes t + int (sum_list (acks s t)) + rd_wcredits s = w \<and>
     rd_fcredits t + int (length (acks s t)) + rd_fcs s + int (sum_list (imms s t)) = w + 3 \<and>
     budget_ok w (int (length (acks s t)) + rd_fcs s) (fc_budget u (rd_writes t)) (imms s t) \<and>
     suffixes_ok (rd_writes t = 0 \<and> u) (acks s t) \<and> list_all wc_ok (rd_cq s) \<and> list_all wr_ok (rd_sq t)"

lemma budget_mono: "budget_ok w n b is \<Longrightarrow> n' + b' \<le> n + b \<Longrightarrow> budget_ok w n' b' is"
  unfolding budget_ok_def by force

lemma budget_tail: "budget_ok w n b (i # is) \<Longrightarrow> b' \<le> b + 1 \<Longrightarrow> budget_ok w n b' is"
  unfolding budget_ok_def by (auto dest: spec [of _ "Suc _"])

lemma budget_snoc:
  assumes "budget_ok w n b is" and "int x \<le> n" and "n - int x + b + int (length is) + 1 \<le> w + 3"
  shows "budget_ok w (n - int x) b (is @ [x])"
  unfolding budget_ok_def
proof (intro allI impI)
  fix j assume "j \<le> length (is @ [x])"
  then show "n - int x + int (sum_list (drop j (is @ [x]))) + b + int j \<le> w + 3"
    using assms by (cases "j \<le> length is") (auto simp: budget_ok_def not_le)
qed

lemma suffixes_weaken: "suffixes_ok u ls \<Longrightarrow> (u' \<Longrightarrow> u) \<Longrightarrow> suffixes_ok u' ls"
  unfolding suffixes_ok_def using of_bool_def [of u, where 'a = nat] of_bool_def [of u', where 'a = nat]
  by (metis (no_types, lifting) add.right_neutral add_leD1)

lemma suffixes_tail: "suffixes_ok u (l # ls) \<Longrightarrow> suffixes_ok u ls"
  unfolding suffixes_ok_def by (auto dest: spec [of _ "Suc _"])

lemma suffixes_snoc:
  assumes "suffixes_ok u ls" and "k = 0 \<Longrightarrow> u" and "u' \<Longrightarrow> 2 \<le> k"
  shows "suffixes_ok u' (ls @ [k])"
  unfolding suffixes_ok_def
proof (intro allI impI)
  fix i assume "i \<le> length (ls @ [k])"
  show "length (drop i (ls @ [k])) + of_bool u' \<le> sum_list (drop i (ls @ [k])) + 1"
  proof (cases "i \<le> length ls")
    case True
    then have "length (drop i ls) + of_bool u \<le> sum_list (drop i ls) + 1" using assms(1) by (simp add: suffixes_ok_def)
    with True assms(2,3) show ?thesis by (cases "k = 0"; cases u'; cases u) auto
  qed (simp add: not_le)
qed

section \<open>Completions\<close>

lemma flow_one_t: "one_keeps (\<lambda>t. flow_inv w (unread h t) s t)"
proof (unfold one_keeps_def, intro allI impI)
  fix c c' assume inv: "flow_inv w (unread h c) s c" and one: "rd_one c = Some c'"
  then obtain wc wcs where cq: "rd_cq c = wc # wcs" by (auto simp: rd_one_def split: list.splits)
  show "flow_inv w (unread h c') s c'"
  proof (cases wc)
    case (WC_RECV_RDMA_WITH_IMM imm)
    with one cq have c': "rd_writes c' = rd_writes c + 1" "rd_fcredits c' = rd_fcredits c + int (unat (imm_fcs_received imm))" "rd_sq c' = rd_sq c"
      "rd_cq c' = wcs"
      by (auto simp: rd_one_def rd_recvRDMAWrite_def rd_incrAvailableBytes_def Let_def unread_def)
    have i: "imms s c = unat (imm_fcs_received imm) # imms s c'" "acks s c' = acks s c"
      using cq WC_RECV_RDMA_WITH_IMM c' by (simp_all add: imms_def acks_def fcs_under_way_def)
    have "0 \<le> rd_writes c" using inv by (simp add: flow_inv_def)
    then have "fc_budget (unread h c') (rd_writes c') \<le> fc_budget (unread h c) (rd_writes c) + 1"
      using fc_budget_bounds(3) [of "rd_writes c" "unread h c"] fc_budget_bounds(5) [of "unread h c'" "rd_writes c'"] c'(1) by simp
    then have "budget_ok w (int (length (acks s c')) + rd_fcs s) (fc_budget (unread h c') (rd_writes c')) (imms s c')"
      using inv i budget_tail unfolding flow_inv_def by (metis (no_types, lifting))
    moreover have "suffixes_ok False (acks s c')" using inv i(2) suffixes_weaken unfolding flow_inv_def by metis
    ultimately show ?thesis using inv i c' by (simp add: flow_inv_def)
  next
    case (WC_RECV m)
    with one cq have "rd_writes c' = rd_writes c" "rd_fcredits c' = rd_fcredits c" "rd_sq c' = rd_sq c" "rd_cq c' = wcs" "unread h c' = unread h c"
      by (cases m; auto simp: rd_one_def rd_recvFC_def rd_recvSetup_def unread_def split: if_splits)+
    with inv cq WC_RECV show ?thesis by (simp add: flow_inv_def imms_def acks_def fcs_under_way_def)
  qed (use inv one cq in \<open>auto simp: flow_inv_def rd_one_def imms_def acks_def fcs_under_way_def unread_def\<close>)
qed

lemma flow_one_s: "one_keeps (\<lambda>s. flow_inv w u s t)"
proof (unfold one_keeps_def, intro allI impI)
  fix c c' assume inv: "flow_inv w u c t" and one: "rd_one c = Some c'"
  then obtain wc wcs where cq: "rd_cq c = wc # wcs" by (auto simp: rd_one_def split: list.splits)
  show "flow_inv w u c' t"
  proof (cases wc)
    case (WC_RECV_RDMA_WITH_IMM imm)
    with inv one cq show ?thesis
      by (auto simp: flow_inv_def rd_one_def rd_recvRDMAWrite_def rd_incrAvailableBytes_def Let_def imms_def acks_def fcs_under_way_def)
  next
    case (WC_RECV m)
    with inv cq obtain fc where m: "m = FC 8 fc" by (cases m) (auto simp: flow_inv_def)
    with one cq WC_RECV have c': "rd_wcredits c' = rd_wcredits c + int (unat (fc_writes_received fc))" "rd_fcs c' = rd_fcs c + 1"
      "rd_sq c' = rd_sq c" "rd_cq c' = wcs" by (auto simp: rd_one_def rd_recvFC_def)
    have a: "acks c t = unat (fc_writes_received fc) # acks c' t" "imms c' t = imms c t"
      using cq WC_RECV m c' by (simp_all add: imms_def acks_def fcs_under_way_def)
    have "suffixes_ok (rd_writes t = 0 \<and> u) (acks c' t)" using inv a suffixes_tail unfolding flow_inv_def by metis
    moreover have "budget_ok w (int (length (acks c' t)) + rd_fcs c') (fc_budget u (rd_writes t)) (imms c' t)"
      using inv a c' by (simp add: flow_inv_def ac_simps)
    ultimately show ?thesis using inv a c' cq by (simp add: flow_inv_def)
  qed (use inv one cq in \<open>auto simp: flow_inv_def rd_one_def imms_def acks_def fcs_under_way_def\<close>)
qed


section \<open>Writing, reading and the adapter\<close>

lemma flow_write:
  assumes "flow_inv w u s t" and "w \<le> 2 ^ 15" and "rd_wcredits s \<noteq> 0"
    and "rd_fill buffer (of_nat (min (length buffer) MAX_BS)) s = (b, s1)" and "rd_postRDMAWrite ev s1 = (True, s')"
  shows "flow_inv w u s' t"
proof -
  have budget: "budget_ok w (int (length (acks s t)) + rd_fcs s) (fc_budget u (rd_writes t)) (imms s t)" and pos: "0 \<le> rd_writes t" "0 \<le> rd_fcs s"
    "1 \<le> rd_wcredits s" using assms(1,3) by (simp_all add: flow_inv_def)
  obtain m sp where s1: "s1 = s\<lparr>rd_sourcebuf := m, rd_sourceptr := sp\<rparr>" using assms(4) by (auto simp: rd_fill_def Let_def)
  define x where "x = min MAX_FC (of_int (rd_fcs s))"
  have "int (length (acks s t)) + rd_fcs s + int (sum_list (imms s t)) + fc_budget u (rd_writes t) \<le> w + 3"
    using budget unfolding budget_ok_def by (force dest: spec [of _ 0])
  then have "rd_fcs s \<le> w + 3" using fc_budget_bounds(1) [of u "rd_writes t"] by linarith
  then have "rd_fcs s < 2 ^ 16" using assms(2) by simp
  then have "uint (of_int (rd_fcs s) :: uint16) = rd_fcs s" using pos(2) by (simp add: uint_word_of_int)
  then have x: "int (unat x) = min 15 (rd_fcs s)" "uint x = min 15 (rd_fcs s)" "x \<le> MAX_FC"
    by (auto simp: x_def MAX_FC_def min_def word_le_def)
  obtain a l r sq where s': "s' = s\<lparr>rd_sourcebuf := m, rd_sourceptr := sq, rd_fcs := rd_fcs s - uint x, rd_rptr := r, rd_wcredits := rd_wcredits s - 1,
      rd_sq := rd_sq s @ [WR_RDMA_WRITE a l (imm_make l x) (rd_rbase s + ucast (rg_ptr rg_HEAD 0 (rd_rptr s)))]\<rparr>"
    using assms(5) by (auto simp: s1 rd_postRDMAWrite_def rd_makeImm_def Let_def x_def split: if_splits)
  have "unat x \<le> 15" using x(3) by (simp add: word_le_nat_alt MAX_FC_def)
  then have "unat (imm_fcs_received (imm_make l x)) = unat x"
    unfolding imm_fcs_received_make [OF x(3)] by (simp add: unsigned_ucast_eq take_bit_nat_eq_self)
  then have i: "imms s' t = imms s t @ [unat x]" "acks s' t = acks s t" by (simp_all add: s' imms_def acks_def fcs_under_way_def)
  have room: "int (length (acks s t)) + rd_fcs s - int (unat x) + fc_budget u (rd_writes t) + int (length (imms s t)) + 1 \<le> w + 3"
  proof (cases "rd_fcs s \<le> 15")
    case True
    have "int (length (acks s t)) \<le> int (sum_list (acks s t)) + 1" using assms(1) by (auto simp: flow_inv_def suffixes_ok_def)
    moreover have "int (length (imms s t)) + 1 \<le> w - rd_writes t - int (sum_list (acks s t))" using assms(1) pos(3) by (simp add: flow_inv_def)
    ultimately show ?thesis using True x(1) fc_budget_bounds(2) [OF pos(1), of u] by simp
  next
    case False
    have "int (length (acks s t)) + rd_fcs s + fc_budget u (rd_writes t) + int (length (imms s t)) \<le> w + 3"
      using budget unfolding budget_ok_def by (force dest: spec [of _ "length (imms s t)"])
    with False x(1) show ?thesis by simp
  qed
  have "int (unat x) \<le> int (length (acks s t)) + rd_fcs s" using x(1) by simp
  note b' = budget_snoc [OF budget this room]
  have f: "rd_fcs s' = rd_fcs s - int (unat x)" "rd_wcredits s' = rd_wcredits s - 1" "rd_cq s' = rd_cq s" by (simp_all add: s' x)
  have "int (length (acks s' t)) + rd_fcs s' = int (length (acks s t)) + rd_fcs s - int (unat x)" by (simp add: i(2) f(1))
  with b' have "budget_ok w (int (length (acks s' t)) + rd_fcs s') (fc_budget u (rd_writes t)) (imms s' t)" by (simp only: i(1))
  with assms(1) i pos x(1) f show ?thesis by (auto simp: flow_inv_def)
qed

lemma flow_write_t:
  assumes "rd_fill buffer bytes t = (b, t1)" and "rd_postRDMAWrite ev t1 = (True, t')"
  shows "flow_inv w (unread h t') s t' = flow_inv w (unread h t) s t"
proof -
  obtain m sp f r x y z v where "t' = t\<lparr>rd_sourcebuf := m, rd_sourceptr := sp, rd_fcs := f, rd_rptr := r, rd_wcredits := rd_wcredits t - 1,
    rd_sq := rd_sq t @ [WR_RDMA_WRITE x y z v]\<rparr>" using rd_write_shape [OF assms] by blast
  then show ?thesis by (simp add: flow_inv_def imms_def acks_def fcs_under_way_def unread_def)
qed

text \<open>Flow control: sent when everything announced has been taken, or after twelve writes.\<close>

lemma flow_weaken:
  assumes "flow_inv w u s t" and "u' \<Longrightarrow> u"
  shows "flow_inv w u' s t"
proof -
  have "fc_budget u' (rd_writes t) \<le> fc_budget u (rd_writes t)" using assms(2) fc_budget_bounds(4,5) by (cases u; cases u') auto
  then have "budget_ok w (int (length (acks s t)) + rd_fcs s) (fc_budget u' (rd_writes t)) (imms s t)"
    using assms(1) budget_mono unfolding flow_inv_def by (metis add_left_mono)
  moreover have "suffixes_ok (rd_writes t = 0 \<and> u') (acks s t)"
    using assms suffixes_weaken unfolding flow_inv_def by metis
  ultimately show ?thesis using assms(1) by (simp add: flow_inv_def)
qed

lemma flow_postFC:
  assumes "flow_inv w True s t" and "rd_needFC t" and "rd_postFC ev t = (True, t')" and "w \<le> 2 ^ 15"
  shows "flow_inv w (rd_pipe t \<noteq> []) s t'" and "0 \<le> rd_fcredits t'"
proof -
  let ?k = "rd_writes t"
  have k: "0 \<le> ?k" "?k \<le> w" using assms(1) by (auto simp: flow_inv_def)
  then have uk: "uint (of_int ?k :: uint32) = ?k" using assms(4) by (simp add: uint_word_of_int)
  then have un: "unat (of_int ?k :: uint32) = nat ?k" by (simp add: unat_eq_nat_uint)
  note t' = rd_postFC_shape [OF assms(3)]
  have often: "rd_pipe t \<noteq> [] \<Longrightarrow> 12 \<le> ?k" using assms(2) uk by (simp add: rd_needFC_def FC_MESSAGE_FREQUENCY_def word_le_def)
  have a: "acks s t' = acks s t @ [nat ?k]" "imms s t' = imms s t" by (simp_all add: t' un acks_def imms_def fcs_under_way_def)
  have f: "rd_writes t' = 0" "rd_fcredits t' = rd_fcredits t - 1" by (simp_all add: t' uk)
  have budget: "budget_ok w (int (length (acks s t)) + rd_fcs s) (fc_budget True ?k) (imms s t)" using assms(1) by (simp add: flow_inv_def)
  have less: "fc_budget (rd_pipe t \<noteq> []) 0 + 1 \<le> fc_budget True ?k"
    using often fc_budget_bounds(6,7) fc_budget_bounds(8,9) [of ?k] by (cases "rd_pipe t = []") auto
  have b': "budget_ok w (int (length (acks s t')) + rd_fcs s) (fc_budget (rd_pipe t \<noteq> []) (rd_writes t')) (imms s t')"
    unfolding a(2) f(1) by (rule budget_mono [OF budget]) (use less a(1) in simp)
  have s': "suffixes_ok (rd_writes t' = 0 \<and> rd_pipe t \<noteq> []) (acks s t')"
    unfolding a(1) by (rule suffixes_snoc [of "?k = 0"]) (use assms(1) often k in \<open>auto simp: flow_inv_def\<close>)
  show inv: "flow_inv w (rd_pipe t \<noteq> []) s t'"
    using assms(1) a f b' s' k by (simp add: flow_inv_def) (simp add: t')
  have "int (length (acks s t')) + rd_fcs s + int (sum_list (imms s t')) + fc_budget (rd_pipe t \<noteq> []) (rd_writes t') \<le> w + 3"
    using b' unfolding budget_ok_def by (force dest: spec [of _ 0])
  then show "0 \<le> rd_fcredits t'" using inv fc_budget_bounds(1) [of "rd_pipe t \<noteq> []" "rd_writes t'"] by (simp add: flow_inv_def)
qed

lemma flow_postFC_s:
  assumes "rd_postFC ev s = (True, s')"
  shows "flow_inv w u s' t = flow_inv w u s t"
  by (simp add: rd_postFC_shape [OF assms] flow_inv_def imms_def acks_def fcs_under_way_def)

lemma adapter_messages:
  assumes "rd_sq s = wr # wrs" and "adapter_do wr (s\<lparr>rd_sq := wrs\<rparr>) t = (s', t')"
  shows "imms s' t' = imms s t" and "imms t' s' = imms t s" and "fcs_under_way s' t' = fcs_under_way s t"
    and "wr_ok wr \<Longrightarrow> fcs_under_way t' s' = fcs_under_way t s"
    and "unread h s' = unread h s" and "unread h t' = unread h t"
    and "list_all wr_ok (rd_sq s) \<Longrightarrow> list_all wc_ok (rd_cq t) \<Longrightarrow> list_all wc_ok (rd_cq t')" and "list_all wc_ok (rd_cq s) \<Longrightarrow> list_all wc_ok (rd_cq s')"
    and "list_all wr_ok (rd_sq s) \<Longrightarrow> list_all wr_ok (rd_sq s')" and "rd_sq t' = rd_sq t"
    and "rd_writes s' = rd_writes s" "rd_fcs s' = rd_fcs s" "rd_wcredits s' = rd_wcredits s" "rd_fcredits s' = rd_fcredits s"
    and "rd_writes t' = rd_writes t" "rd_fcs t' = rd_fcs t" "rd_wcredits t' = rd_wcredits t" "rd_fcredits t' = rd_fcredits t"
  using assms by (cases wr; auto simp: imms_def fcs_under_way_def unread_def elim: wr_ok.elims)+

lemma flow_adapter:
  assumes "flow_inv w u s t" and "flow_inv w v t s" and "rd_sq s = wr # wrs" and "adapter_do wr (s\<lparr>rd_sq := wrs\<rparr>) t = (s', t')"
  shows "flow_inv w u s' t' \<and> flow_inv w v t' s'"
proof -
  have "wr_ok wr" using assms(2,3) by (simp add: flow_inv_def)
  note m = adapter_messages [OF assms(3,4)] and this
  then show ?thesis using assms(1,2) unfolding flow_inv_def acks_def by simp
qed

section \<open>The system\<close>

fun wc_recv :: "rdma_wc \<Rightarrow> nat" where
  "wc_recv (WC_RECV_RDMA_WITH_IMM imm_data) = 1"
| "wc_recv (WC_RECV message) = 1"
| "wc_recv _ = 0"

text \<open>Every receive used up is posted again when its completion is handled.\<close>

definition receives_inv :: "int \<Rightarrow> rdma \<Rightarrow> bool" where
  "receives_inv depth c \<longleftrightarrow> int (rd_receives c) + int (sum_list (map wc_recv (rd_cq c))) = depth"

lemma receives_one: "one_keeps (receives_inv depth)"
proof (unfold one_keeps_def, intro allI impI)
  fix c c' assume inv: "receives_inv depth c" and one: "rd_one c = Some c'"
  then obtain wc wcs where cq: "rd_cq c = wc # wcs" by (auto simp: rd_one_def split: list.splits)
  with one obtain b c1 where c1: "rd_complete wc (c\<lparr>rd_cq := wcs\<rparr>) = Some (b, c1)" "c' = c1\<lparr>rd_receives := rd_receives c1 + (if b then 1 else 0)\<rparr>"
    by (auto simp: rd_one_def split: option.splits)
  have "wc_recv wc = (if b then 1 else 0)" using c1(1) by (cases wc) auto
  with rd_complete_keeps [OF c1(1)] inv cq c1(2) show "receives_inv depth c'" by (simp add: receives_inv_def)
qed

definition flow_pair :: "int \<Rightarrow> uint64 option \<Rightarrow> uint64 option \<Rightarrow> rdma \<Rightarrow> rdma \<Rightarrow> bool" where
  "flow_pair depth ha hb a b \<longleftrightarrow>
     flow_inv (depth div 2 - 2) (unread hb b) a b \<and> flow_inv (depth div 2 - 2) (unread ha a) b a \<and> receives_inv depth a \<and> receives_inv depth b"

lemma flow_pair_sym: "flow_pair depth ha hb a b \<longleftrightarrow> flow_pair depth hb ha b a"
  by (auto simp: flow_pair_def)

lemma flow_pair_one: "one_keeps (\<lambda>a. flow_pair depth ha hb a b)"
proof -
  have "one_keeps (\<lambda>a. (flow_inv (depth div 2 - 2) (unread hb b) a b \<and> flow_inv (depth div 2 - 2) (unread ha a) b a) \<and> receives_inv depth a)"
    by (intro one_keeps_conj flow_one_s flow_one_t receives_one)
  then show ?thesis unfolding one_keeps_def flow_pair_def by blast
qed

lemma checkCQ_flow:
  assumes "rd_checkCQ ev drain (a\<lparr>rd_established := e\<rparr>) = Some a'" and "e \<longrightarrow> rd_established a" and "flow_pair depth ha hb a b"
  shows "flow_pair depth ha hb a' b"
proof -
  let ?a = "a\<lparr>rd_established := e\<rparr>"
  have "flow_inv (depth div 2 - 2) (unread ha ?a) b a"
    using assms(2,3) flow_weaken [of _ "unread ha a"] by (auto simp: flow_pair_def unread_def)
  then have "flow_pair depth ha hb ?a b"
    using assms(3) by (simp add: flow_pair_def flow_inv_def imms_def acks_def fcs_under_way_def receives_inv_def)
  from rd_checkCQ_keeps [OF flow_pair_one this assms(1)] show ?thesis .
qed

lemma flow_pair_write:
  assumes "flow_pair depth ha hb a b" and "depth \<le> 2 ^ 16" and "rd_wcredits a \<noteq> 0"
    and "rd_fill buffer (of_nat (min (length buffer) MAX_BS)) a = (x, a1)" and "rd_postRDMAWrite ev a1 = (True, a')"
  shows "flow_pair depth ha hb a' b"
proof -
  have "depth div 2 - 2 \<le> 2 ^ 15" using assms(2) by simp
  then have "flow_inv (depth div 2 - 2) (unread hb b) a' b" using flow_write [OF _ _ assms(3-5)] assms(1) by (simp add: flow_pair_def)
  moreover obtain m sp f r x y z v where "a' = a\<lparr>rd_sourcebuf := m, rd_sourceptr := sp, rd_fcs := f, rd_rptr := r, rd_wcredits := rd_wcredits a - 1,
    rd_sq := rd_sq a @ [WR_RDMA_WRITE x y z v]\<rparr>" using rd_write_shape [OF assms(4,5)] by blast
  ultimately show ?thesis using assms(1) flow_write_t [OF assms(4,5)] by (simp add: flow_pair_def receives_inv_def)
qed

lemma flow_pair_read:
  assumes "flow_pair depth (Some av) hb a b" and "depth \<le> 2 ^ 16" and "rd_readEnd ev bytes av a = (p, a')" and "ev_send_ok ev" and "p \<noteq> EndFailed"
  shows "flow_pair depth None hb a' b"
  using assms(3,4)
proof (cases rule: rd_readEnd_cases)
  case failed
  with assms(5) show ?thesis by simp
next
  case retry
  obtain q where a': "a' = a\<lparr>rd_sinkptr := q\<rparr>" using rd_drain_frame [OF retry(2)] by blast
  have "flow_inv (depth div 2 - 2) (unread None a) b a"
    using assms(1) flow_weaken [of _ "unread (Some av) a"] by (auto simp: flow_pair_def unread_def)
  with assms(1) show ?thesis by (simp add: flow_pair_def a' flow_inv_def imms_def acks_def fcs_under_way_def receives_inv_def unread_def)
next
  case (taken data c1 c2)
  obtain q where c1: "c1 = a\<lparr>rd_sinkptr := q\<rparr>" using rd_drain_frame [OF taken(1)] by blast
  have c2: "flow_inv w u b c2 = flow_inv w u b a" "flow_inv w u c2 b = flow_inv w u a b" "receives_inv depth c2 = receives_inv depth a"
    "rd_established c2 = rd_established a" for w u
    unfolding taken(4) c1 by (simp_all add: flow_inv_def imms_def acks_def fcs_under_way_def receives_inv_def)
  have w: "depth div 2 - 2 \<le> 2 ^ 15" using assms(2) by simp
  show ?thesis
  proof (cases "rd_established c2 \<and> rd_needFC c2")
    case True
    then have run: "rd_postFC ev c2 = (True, a')" using taken(5) by simp
    have "unread (Some av) a" using True c2(4) by (simp add: unread_def)
    then have "flow_inv (depth div 2 - 2) True b c2" using assms(1) c2(1) by (simp add: flow_pair_def)
    from flow_postFC(1) [OF this _ run w] True have "flow_inv (depth div 2 - 2) (rd_pipe c2 \<noteq> []) b a'" by simp
    moreover have "unread None a' \<longleftrightarrow> rd_pipe c2 \<noteq> []" using True by (simp add: rd_postFC_shape [OF run] unread_def)
    moreover have "receives_inv depth a'" using assms(1) c2(3) by (simp add: rd_postFC_shape [OF run] receives_inv_def flow_pair_def)
    ultimately show ?thesis using assms(1) c2(2) flow_postFC_s [OF run] by (simp add: flow_pair_def)
  next
    case False
    then have a': "a' = c2" using taken(5) by argo
    have "flow_inv (depth div 2 - 2) (unread None c2) b c2"
      using assms(1) c2(1,4) flow_weaken [of _ "unread (Some av) a"] by (auto simp: flow_pair_def unread_def)
    with assms(1) c2(2,3) show ?thesis by (simp add: flow_pair_def a')
  qed
qed

lemma flow_pair_adapter:
  assumes "flow_pair depth ha hb a b" and "rd_sq a = wr # wrs" and "0 < rd_receives b" and "adapter_do wr (a\<lparr>rd_sq := wrs\<rparr>) b = (a', b')"
  shows "flow_pair depth ha hb a' b'"
proof -
  have "receives_inv depth a'" "receives_inv depth b'"
    using assms by (cases wr; auto simp: flow_pair_def receives_inv_def)+
  moreover have "unread ha a' = unread ha a" "unread hb b' = unread hb b" using adapter_messages(5,6) [OF assms(2,4)] by simp_all
  ultimately show ?thesis using flow_adapter [OF _ _ assms(2,4)] assms(1) by (auto simp: flow_pair_def)
qed

definition flow_sys :: "int \<Rightarrow> rdma_system \<Rightarrow> bool" where
  "flow_sys depth S \<longleftrightarrow> ((\<forall>s. rd_open (sy_end S s)) \<longrightarrow> flow_pair depth (sy_held S True) (sy_held S False) (sy_end S True) (sy_end S False))"

lemma flow_sys_at:
  "flow_sys depth S \<longleftrightarrow> (rd_open (sy_end S s) \<longrightarrow> rd_open (sy_end S (\<not> s)) \<longrightarrow>
     flow_pair depth (sy_held S s) (sy_held S (\<not> s)) (sy_end S s) (sy_end S (\<not> s)))"
  unfolding flow_sys_def using flow_pair_sym by (cases s) (auto simp: all_bool_eq)


lemma rd_checkCQ_pipe:
  assumes "rd_checkCQ ev drain c = Some c'" and "rd_pipe c \<noteq> []"
  shows "rd_pipe c' \<noteq> []"
proof -
  have "one_keeps (\<lambda>d. rd_pipe d \<noteq> [])"
    unfolding one_keeps_def
  proof (intro allI impI)
    fix d d' assume p: "rd_pipe d \<noteq> []" and one: "rd_one d = Some d'"
    from one obtain wc wcs where cq: "rd_cq d = wc # wcs" by (auto simp: rd_one_def split: list.splits)
    show "rd_pipe d' \<noteq> []"
    proof (cases wc)
      case (WC_RECV m)
      with one cq p show ?thesis by (cases m) (auto simp: rd_one_def rd_recvFC_def rd_recvSetup_def split: if_splits)
    qed (use one cq p in \<open>auto simp: rd_one_def rd_recvRDMAWrite_def rd_incrAvailableBytes_def Let_def\<close>)
  qed
  from rd_checkCQ_keeps [OF this assms(2,1)] show ?thesis .
qed

lemma flow_sys_wrote:
  assumes "flow_sys depth S" and "depth \<le> 2 ^ 16" and "rd_open (sy_end S s)" and "ev_send_ok ev"
  shows "flow_sys depth (sy_wrote s buffer (rd_writePass ev buffer (sy_end S s)) S)"
proof -
  obtain p c where x: "rd_writePass ev buffer (sy_end S s) = (p, c)" by force
  have fp: "rd_open (sy_end S (\<not> s)) \<Longrightarrow> flow_pair depth (sy_held S s) (sy_held S (\<not> s)) (sy_end S s) (sy_end S (\<not> s))"
    using assms(1,3) flow_sys_at [of depth S s] by blast
  from x assms(4) show ?thesis
  proof (cases rule: rd_writePass_cases)
    case failed
    then show ?thesis by (simp add: x sy_wrote_def flow_sys_at [where s = s])
  next
    case (retry e)
    then show ?thesis using checkCQ_flow [OF retry(2,3) fp] by (simp add: x sy_wrote_def flow_sys_at [where s = s])
  next
    case (put e c1 b c2)
    then show ?thesis using flow_pair_write [OF checkCQ_flow [OF put(1,7) fp] assms(2) put(2,5,6)]
      by (simp add: x sy_wrote_def flow_sys_at [where s = s])
  qed
qed

lemma flow_sys_began:
  assumes "flow_sys depth S" and "rd_open (sy_end S s)" and "sy_held S s = None"
  shows "flow_sys depth (sy_began s (rd_readBegin ev extra_event block old (sy_end S s)) S)"
proof -
  obtain p c where x: "rd_readBegin ev extra_event block old (sy_end S s) = (p, c)" by force
  have fp: "rd_open (sy_end S (\<not> s)) \<Longrightarrow> flow_pair depth None (sy_held S (\<not> s)) (sy_end S s) (sy_end S (\<not> s))"
    using assms flow_sys_at [of depth S s] by simp
  from x show ?thesis
  proof (cases rule: rd_readBegin_cases)
    case failed
    then show ?thesis by (simp add: x sy_began_def flow_sys_at [where s = s])
  next
    case (idle e)
    then show ?thesis using checkCQ_flow [OF idle(2,3) fp] assms(3) by (auto simp: x sy_began_def flow_sys_at [where s = s])
  next
    case (closing e)
    then show ?thesis using checkCQ_flow [OF closing(2,5) fp]
      by (auto simp: x sy_began_def flow_sys_at [where s = s] flow_pair_def unread_def)
  next
    case (ready e c1)
    have "rd_pipe c1 \<noteq> []" using rd_checkCQ_pipe [OF ready(2)] ready(4) by simp
    then have "unread (Some av) c = unread None c1" for av by (simp add: ready(3) unread_def)
    moreover have "flow_inv w u (sy_end S (\<not> s)) c = flow_inv w u (sy_end S (\<not> s)) c1" "flow_inv w u c (sy_end S (\<not> s)) = flow_inv w u c1 (sy_end S (\<not> s))"
      "receives_inv depth c = receives_inv depth c1" for w u
      unfolding ready(3) by (simp_all add: flow_inv_def imms_def acks_def fcs_under_way_def receives_inv_def)
    ultimately show ?thesis using checkCQ_flow [OF ready(2,5) fp] ready(1)
      by (auto simp: x sy_began_def flow_sys_at [where s = s] flow_pair_def)
  qed
qed

lemma flow_sys_ended:
  assumes "flow_sys depth S" and "depth \<le> 2 ^ 16" and "rd_open (sy_end S s)" and "sy_held S s = Some av" and "ev_send_ok ev"
  shows "flow_sys depth (sy_ended s (rd_readEnd ev bytes av (sy_end S s)) S)"
proof -
  obtain p c where x: "rd_readEnd ev bytes av (sy_end S s) = (p, c)" by force
  have fp: "rd_open (sy_end S (\<not> s)) \<Longrightarrow> flow_pair depth (Some av) (sy_held S (\<not> s)) (sy_end S s) (sy_end S (\<not> s))"
    using assms flow_sys_at [of depth S s] by simp
  show ?thesis
    using flow_pair_read [OF fp assms(2) x assms(5)] by (cases p) (simp_all add: x sy_ended_def flow_sys_at [where s = s])
qed

lemma rd_connected_flow:
  assumes "rd_prepare depth rbs base = Some a" and "rd_prepare depth rbs base' = Some b" and "rbs \<le> 2 ^ 31" and "4 \<le> depth"
  shows "flow_inv (depth div 2 - 2) (unread None (rd_connected b a)) (rd_connected a b) (rd_connected b a) \<and> receives_inv depth (rd_connected a b)"
  using rd_prepare_shape [OF assms(1,3)] rd_prepare_shape [OF assms(2,3)] assms(4)
  by (simp add: rd_connected_def rd_postSetup_def rd_postMessage_def rdma_verbs_ok_def rd_recvSetup_def flow_inv_def imms_def acks_def fcs_under_way_def
      unread_def fc_budget_def budget_ok_def suffixes_ok_def receives_inv_def)

lemma rdma_reach_flow:
  assumes "rdma_reach depth rbs S" and "rbs \<le> 2 ^ 31" and "4 \<le> depth" and "depth \<le> 2 ^ 16"
  shows "flow_sys depth S"
  using assms(1)
proof (induction rule: rdma_reach.induct)
  case (start base a base' b)
  then show ?case using rd_connected_flow [OF start(1,2) assms(2,3)] rd_connected_flow [OF start(2,1) assms(2,3)]
    by (simp add: flow_sys_def sy_start_def flow_pair_def)
next
  case (adapter S s wr wrs a b)
  then have "flow_pair depth (sy_held S s) (sy_held S (\<not> s)) (sy_end S s) (sy_end S (\<not> s))" using flow_sys_at by blast
  from flow_pair_adapter [OF this adapter.hyps(4-6)] show ?case by (simp add: flow_sys_at [where s = s])
next
  case (write_pass S s ev buffer)
  then show ?case using flow_sys_wrote assms(4) by blast
next
  case (read_begin S s ev extra_event block old)
  then show ?case using flow_sys_began by blast
next
  case (read_end S s av ev bytes)
  then show ?case using flow_sys_ended assms(4) by blast
qed

lemma flow_credits: "flow_inv w u s t \<Longrightarrow> 0 \<le> rd_fcredits t \<and> int (length (imms s t)) \<le> w \<and> int (length (acks s t)) \<le> w + 3"
proof -
  assume inv: "flow_inv w u s t"
  then have "int (length (acks s t)) + rd_fcs s + int (sum_list (imms s t)) + fc_budget u (rd_writes t) \<le> w + 3"
    unfolding flow_inv_def budget_ok_def by (force dest: spec [of _ 0])
  with inv fc_budget_bounds(1) [of u "rd_writes t"] show ?thesis by (simp add: flow_inv_def)
qed

lemma posted_received:
  assumes "list_all wr_ok (rd_sq s)" and "list_all wc_ok (rd_cq t)"
  shows "length (rd_sq s) + sum_list (map wc_recv (rd_cq t)) = length (imms s t) + length (acks t s)"
proof -
  have "length sq = length (concat (map wr_imm sq)) + length (concat (map wr_fc sq))" if "list_all wr_ok sq" for sq
    using that
  proof (induction sq)
    case (Cons wr sq)
    then show ?case by (cases wr rule: wr_ok.cases) auto
  qed simp
  moreover have "sum_list (map wc_recv cq) = length (concat (map wc_imm cq)) + length (concat (map wc_fc cq))" if "list_all wc_ok cq" for cq
    using that
  proof (induction cq)
    case (Cons wc cq)
    then show ?case by (cases wc rule: wc_ok.cases) auto
  qed simp
  ultimately show ?thesis using assms by (simp add: imms_def acks_def fcs_under_way_def)
qed

text \<open>
  C12 (rdma_credits): with the same depth between 4 and \<open>2 ^ 16\<close> and the same ring size of at most \<open>2 ^ 31\<close> bytes at both ends,
  while both ends are open, neither end's credits for writes or for flow control messages ever become negative, and there is a receive posted at
  the other end for every request that has been posted.
\<close>

theorem rdma_credits:
  assumes "rdma_reach depth rbs S" and "rbs \<le> 2 ^ 31" and "4 \<le> depth" and "depth \<le> 2 ^ 16"
    and "rd_open (sy_end S s)" and "rd_open (sy_end S (\<not> s))"
  shows "0 \<le> rd_wcredits (sy_end S s) \<and> 0 \<le> rd_fcredits (sy_end S s) \<and> length (rd_sq (sy_end S s)) \<le> rd_receives (sy_end S (\<not> s))"
proof -
  let ?w = "depth div 2 - 2" and ?a = "sy_end S s" and ?b = "sy_end S (\<not> s)"
  have p: "flow_pair depth (sy_held S s) (sy_held S (\<not> s)) ?a ?b" using rdma_reach_flow [OF assms(1-4)] assms(5,6) flow_sys_at by blast
  then have ab: "flow_inv ?w (unread (sy_held S (\<not> s)) ?b) ?a ?b" and ba: "flow_inv ?w (unread (sy_held S s) ?a) ?b ?a"
    and r: "int (rd_receives ?b) + int (sum_list (map wc_recv (rd_cq ?b))) = depth" by (simp_all add: flow_pair_def receives_inv_def)
  have "length (rd_sq ?a) + sum_list (map wc_recv (rd_cq ?b)) = length (imms ?a ?b) + length (acks ?b ?a)"
    using ba by (intro posted_received) (simp_all add: flow_inv_def)
  moreover have "int (length (imms ?a ?b)) + int (length (acks ?b ?a)) \<le> 2 * ?w + 3" using flow_credits [OF ab] flow_credits [OF ba] by simp
  moreover have "2 * ?w + 3 \<le> depth" by simp
  ultimately have "int (length (rd_sq ?a)) \<le> int (rd_receives ?b)" using r by linarith
  then show ?thesis using ab flow_credits [OF ba] by (simp add: flow_inv_def)
qed


theorem rdma_credits_witness:
  "length (rd_sq (sy_end (rdma_sample_system rdma_sample_written (rdma_sample_end 64 0) [1, 2, 3] [] None) True))
     \<le> rd_receives (sy_end (rdma_sample_system rdma_sample_written (rdma_sample_end 64 0) [1, 2, 3] [] None) False)"
  using rdma_credits [OF rdma_sample_reach(1), of True] by (simp add: rdma_sample_system_def rdma_sample_written_def rdma_sample_end_def)

end
