(* ===== verification/Connection_Set.thy ===== *)
theory Connection_Set
  imports Collage_Prelude
begin

text \<open>
  Waiting for any of several connections, \<^verbatim>\<open>src/co/connectionSet.cpp\<close> for POSIX systems, and the event connection
  that interrupts the wait, \<^verbatim>\<open>src/co/eventConnection.cpp\<close>. Connections are numbers; their descriptors and whether
  they are listening are parameters. What \<^verbatim>\<open>poll\<close> reports is an argument.
\<close>

section \<open>Event connection\<close>

text \<open>A flag and the number of bytes in the pipe behind it.\<close>

record event_connection =
  ec_set :: bool
  ec_pipe :: nat

definition ec_new :: event_connection where
  "ec_new = \<lparr>ec_set = False, ec_pipe = 0\<rparr>"

definition ec_setEvent :: "event_connection \<Rightarrow> event_connection" where
  "ec_setEvent e = (if ec_set e then e else e\<lparr>ec_pipe := ec_pipe e + 1, ec_set := True\<rparr>)"

definition ec_reset :: "event_connection \<Rightarrow> event_connection" where
  "ec_reset e = (if \<not> ec_set e then e else e\<lparr>ec_pipe := ec_pipe e - 1, ec_set := False\<rparr>)"

text \<open>The descriptor is readable exactly while the event is set, and the pipe never holds more than one byte.\<close>

definition ec_ok :: "event_connection \<Rightarrow> bool" where
  "ec_ok e \<longleftrightarrow> ec_pipe e = of_bool (ec_set e)"

lemma ec_ok_steps [simp]: "ec_ok ec_new" "ec_ok e \<Longrightarrow> ec_ok (ec_setEvent e)" "ec_ok e \<Longrightarrow> ec_ok (ec_reset e)"
  by (auto simp: ec_ok_def ec_new_def ec_setEvent_def ec_reset_def)

lemma ec_set_steps [simp]: "ec_set (ec_setEvent e)" "\<not> ec_set (ec_reset e)" "\<not> ec_set ec_new"
  by (simp_all add: ec_setEvent_def ec_reset_def ec_new_def)

section \<open>Connection set\<close>

datatype select_event =
    EVENT_NONE | EVENT_CONNECT | EVENT_DISCONNECT | EVENT_DATA | EVENT_TIMEOUT | EVENT_INTERRUPT | EVENT_ERROR | EVENT_SELECT_ERROR
  | EVENT_INVALID_HANDLE

datatype poll_flag = POLLIN | POLLPRI | POLLERR | POLLHUP | POLLNVAL | POLL_OTHER

type_synonym poll_fd = "int \<times> poll_flag list"

datatype selected = Self | Conn nat

record connection_set =
  cs_allConnections :: "nat list"
  cs_fdSetCopy :: "poll_fd list"
  cs_fdSet :: "poll_fd list"
  cs_fdSetResult :: "selected list"
  cs_selfConnection :: event_connection
  cs_connection :: "selected option"
  cs_error :: int
  cs_dirty :: bool

definition cs_new :: connection_set where
  "cs_new =
     \<lparr>cs_allConnections = [], cs_fdSetCopy = [], cs_fdSet = [], cs_fdSetResult = [], cs_selfConnection = ec_new, cs_connection = None,
      cs_error = 0, cs_dirty = True\<rparr>"

definition cs_interrupt :: "connection_set \<Rightarrow> connection_set" where
  "cs_interrupt s = s\<lparr>cs_selfConnection := ec_setEvent (cs_selfConnection s)\<rparr>"

definition cs_setDirty :: "connection_set \<Rightarrow> connection_set" where
  "cs_setDirty s = (if cs_dirty s then s else cs_interrupt (s\<lparr>cs_dirty := True\<rparr>))"

text \<open>The part of adding and removing done under the lock.\<close>

definition cs_push :: "nat \<Rightarrow> connection_set \<Rightarrow> connection_set" where
  "cs_push c s = s\<lparr>cs_allConnections := cs_allConnections s @ [c]\<rparr>"

definition cs_erase :: "nat \<Rightarrow> connection_set \<Rightarrow> connection_set" where
  "cs_erase c s =
     s\<lparr>cs_connection := (if cs_connection s = Some (Conn c) then None else cs_connection s),
       cs_allConnections := remove1 c (cs_allConnections s)\<rparr>"

definition cs_addConnection :: "nat \<Rightarrow> connection_set \<Rightarrow> connection_set" where
  "cs_addConnection c s = cs_setDirty (cs_push c s)"

definition cs_removeConnection :: "nat \<Rightarrow> connection_set \<Rightarrow> bool \<times> connection_set" where
  "cs_removeConnection c s = (if c \<notin> set (cs_allConnections s) then (False, s) else (True, cs_setDirty (cs_erase c s)))"

definition cs_clear :: "connection_set \<Rightarrow> connection_set" where
  "cs_clear s = (cs_setDirty (s\<lparr>cs_connection := None, cs_allConnections := []\<rparr>))\<lparr>cs_fdSet := [], cs_fdSetResult := []\<rparr>"

section \<open>Selection\<close>

text \<open>The descriptors up to the first connection that has none.\<close>

fun cs_collect :: "(nat \<Rightarrow> int) \<Rightarrow> nat list \<Rightarrow> poll_fd list \<Rightarrow> selected list \<Rightarrow> poll_fd list \<times> selected list \<times> nat option" where
  "cs_collect fd [] fds results = (fds, results, None)"
| "cs_collect fd (c # cs) fds results =
     (if fd c \<le> 0 then (fds, results, Some c) else cs_collect fd cs (fds @ [(fd c, [])]) (results @ [Conn c]))"

definition cs_buildFDSet :: "int \<Rightarrow> (nat \<Rightarrow> int) \<Rightarrow> connection_set \<Rightarrow> bool \<times> connection_set" where
  "cs_buildFDSet self_fd fd s =
     (case cs_collect fd (cs_allConnections s) [(self_fd, [])] [Self] of
        (fds, results, bad) \<Rightarrow>
          (let s = s\<lparr>cs_fdSet := fds, cs_fdSetResult := results\<rparr>
           in case bad of
                Some c \<Rightarrow> (False, s\<lparr>cs_connection := Some (Conn c)\<rparr>)
              | None \<Rightarrow> (True, s\<lparr>cs_fdSetCopy := fds\<rparr>)))"

definition cs_setupFDSet :: "int \<Rightarrow> (nat \<Rightarrow> int) \<Rightarrow> connection_set \<Rightarrow> bool \<times> connection_set" where
  "cs_setupFDSet self_fd fd s =
     (if \<not> cs_dirty s then (True, s\<lparr>cs_fdSet := cs_fdSetCopy s\<rparr>) else cs_buildFDSet self_fd fd (s\<lparr>cs_dirty := False\<rparr>))"

text \<open>The event of one descriptor; \<^term>\<open>None\<close> is the call to \<^verbatim>\<open>abort\<close>.\<close>

definition poll_event :: "poll_flag list \<Rightarrow> select_event option" where
  "poll_event revents =
     (if POLLERR \<in> set revents then Some EVENT_ERROR
      else if POLLHUP \<in> set revents \<or> POLLNVAL \<in> set revents then Some EVENT_DISCONNECT
      else if POLLIN \<in> set revents \<or> POLLPRI \<in> set revents then Some EVENT_DATA
      else None)"

fun first_event :: "poll_fd list \<Rightarrow> nat \<Rightarrow> (nat \<times> poll_flag list) option" where
  "first_event [] i = None"
| "first_event ((f, revents) # fds) i = (if revents = [] then first_event fds (Suc i) else Some (i, revents))"

definition cs_parseSelect :: "connection_set \<Rightarrow> (select_event \<times> connection_set) option" where
  "cs_parseSelect s =
     (case first_event (cs_fdSet s) 0 of
        None \<Rightarrow> Some (EVENT_NONE, s)
      | Some (i, revents) \<Rightarrow>
          (let s = s\<lparr>cs_fdSet := (cs_fdSet s)[i := (fst (cs_fdSet s ! i), [])], cs_connection := Some (cs_fdSetResult s ! i)\<rparr>
           in map_option (\<lambda>event. (event, s)) (poll_event revents)))"

definition cs_getSelectResult :: "(nat \<Rightarrow> bool) \<Rightarrow> connection_set \<Rightarrow> (select_event \<times> connection_set) option" where
  "cs_getSelectResult listening s =
     (case cs_parseSelect s of
        None \<Rightarrow> None
      | Some (event, s) \<Rightarrow>
          (case cs_connection s of
             Some Self \<Rightarrow> Some (EVENT_INTERRUPT, s\<lparr>cs_connection := None, cs_selfConnection := ec_reset (cs_selfConnection s)\<rparr>)
           | Some (Conn c) \<Rightarrow> Some (if event = EVENT_DATA \<and> listening c then EVENT_CONNECT else event, s)
           | None \<Rightarrow> Some (event, s)))"

text \<open>What one call of \<^verbatim>\<open>poll\<close> gives: the events of the descriptors in order, nothing in time, an interruption, or another error.\<close>

datatype poll_result = Polled "poll_flag list list" | PollTimeout | PollInterrupted | PollError int

definition cs_polled :: "poll_flag list list \<Rightarrow> connection_set \<Rightarrow> connection_set" where
  "cs_polled revents s = s\<lparr>cs_fdSet := map2 (\<lambda>(f, _) r. (f, r)) (cs_fdSet s) revents\<rparr>"

text \<open>\<^verbatim>\<open>select\<close>: events left over from the last poll come first; \<^term>\<open>None\<close> when the calls of \<^verbatim>\<open>poll\<close> to come are used up, or on abort.\<close>

fun cs_select :: "int \<Rightarrow> (nat \<Rightarrow> int) \<Rightarrow> (nat \<Rightarrow> bool) \<Rightarrow> poll_result list \<Rightarrow> connection_set \<Rightarrow> (select_event \<times> connection_set) option" where
  "cs_select self_fd fd listening polls s =
     (let s = s\<lparr>cs_connection := None, cs_error := 0\<rparr>
      in case (if cs_dirty s then Some (EVENT_NONE, s) else cs_getSelectResult listening s) of
           None \<Rightarrow> None
         | Some (event, s) \<Rightarrow>
             if event \<noteq> EVENT_NONE then Some (event, s)
             else (case cs_setupFDSet self_fd fd s of
                     (False, s) \<Rightarrow> Some (EVENT_INVALID_HANDLE, s)
                   | (True, s) \<Rightarrow>
                       (case polls of
                          [] \<Rightarrow> None
                        | PollTimeout # _ \<Rightarrow> Some (EVENT_TIMEOUT, s)
                        | PollInterrupted # polls \<Rightarrow> cs_select self_fd fd listening polls s
                        | PollError errno # _ \<Rightarrow> Some (EVENT_SELECT_ERROR, s\<lparr>cs_error := errno\<rparr>)
                        | Polled revents # polls \<Rightarrow>
                            (case cs_getSelectResult listening (cs_polled revents s) of
                               None \<Rightarrow> None
                             | Some (event, s) \<Rightarrow>
                                 if event = EVENT_NONE then cs_select self_fd fd listening polls s else Some (event, s)))))"

declare cs_select.simps [simp del]

section \<open>Every event of a poll is delivered\<close>

text \<open>The descriptors with events not delivered yet, and what select returns for one of them.\<close>

definition cs_ready :: "connection_set \<Rightarrow> (selected \<times> poll_flag list) list" where
  "cs_ready s = filter (\<lambda>(r, revents). revents \<noteq> []) (zip (cs_fdSetResult s) (map snd (cs_fdSet s)))"

fun select_outcome :: "(nat \<Rightarrow> bool) \<Rightarrow> selected \<times> poll_flag list \<Rightarrow> select_event \<times> selected option" where
  "select_outcome listening (Self, revents) = (EVENT_INTERRUPT, None)"
| "select_outcome listening (Conn c, revents) =
     (case the (poll_event revents) of EVENT_DATA \<Rightarrow> if listening c then EVENT_CONNECT else EVENT_DATA | e \<Rightarrow> e, Some (Conn c))"

lemma first_event_ready:
  assumes "length fds = length results" and "filter (\<lambda>(r, revents). revents \<noteq> []) (zip results (map snd fds)) = (r, revents) # rest"
  obtains i where "first_event fds k = Some (k + i, revents)" and "i < length fds" and "results ! i = r"
    and "filter (\<lambda>(r, revents). revents \<noteq> []) (zip results (map snd (fds[i := (fst (fds ! i), [])]))) = rest"
proof -
  have "\<exists>i. first_event fds k = Some (k + i, revents) \<and> i < length fds \<and> results ! i = r \<and>
      filter (\<lambda>(r, revents). revents \<noteq> []) (zip results (map snd (fds[i := (fst (fds ! i), [])]))) = rest"
    using assms
  proof (induction fds results arbitrary: k rule: list_induct2)
    case (Cons x xs y ys)
    obtain f ev where x: "x = (f, ev)" by (cases x)
    show ?case
    proof (cases "ev = []")
      case True
      with Cons.prems Cons.IH [of "Suc k"] x show ?thesis by (auto intro: exI [of _ "Suc _"])
    next
      case False
      with Cons.prems x show ?thesis by (intro exI [of _ 0]) auto
    qed
  qed simp
  then show thesis using that by blast
qed

definition cs_settled :: "connection_set \<Rightarrow> bool" where
  "cs_settled s \<longleftrightarrow> \<not> cs_dirty s \<and> length (cs_fdSet s) = length (cs_fdSetResult s)"

lemma poll_event_not_NONE: "poll_event revents \<noteq> Some EVENT_NONE"
  by (simp add: poll_event_def)

lemma select_left_over:
  assumes "cs_settled s" and "cs_ready s = (r, revents) # rest" and "poll_event revents \<noteq> None"
  obtains s' where "cs_select self_fd fd listening polls s = Some (fst (select_outcome listening (r, revents)), s')"
    and "cs_connection s' = snd (select_outcome listening (r, revents))" and "cs_settled s'" and "cs_ready s' = rest"
proof -
  from assms(1) have len: "length (cs_fdSet s) = length (cs_fdSetResult s)" and nd: "\<not> cs_dirty s" by (simp_all add: cs_settled_def)
  obtain i where i: "first_event (cs_fdSet s) 0 = Some (i, revents)" "i < length (cs_fdSet s)" "cs_fdSetResult s ! i = r"
    "filter (\<lambda>(r, revents). revents \<noteq> []) (zip (cs_fdSetResult s) (map snd ((cs_fdSet s)[i := (fst (cs_fdSet s ! i), [])]))) = rest"
    using first_event_ready [OF len, of r revents rest 0] assms(2) unfolding cs_ready_def by auto
  obtain e where e: "poll_event revents = Some e" using assms(3) by blast
  then have "e \<noteq> EVENT_NONE" using poll_event_not_NONE by metis
  with i e nd len that show thesis
    by (cases r; cases "e = EVENT_DATA")
       (auto simp: cs_select.simps [of _ _ _ _ s] cs_getSelectResult_def cs_parseSelect_def cs_settled_def cs_ready_def Let_def
         split: select_event.splits)
qed

text \<open>As many selections in a row as asked for, without another poll.\<close>

fun cs_selections :: "int \<Rightarrow> (nat \<Rightarrow> int) \<Rightarrow> (nat \<Rightarrow> bool) \<Rightarrow> nat \<Rightarrow> connection_set \<Rightarrow>
    ((select_event \<times> selected option) list \<times> connection_set) option" where
  "cs_selections self_fd fd listening 0 s = Some ([], s)"
| "cs_selections self_fd fd listening (Suc n) s =
     (case cs_select self_fd fd listening [] s of
        None \<Rightarrow> None
      | Some (event, s) \<Rightarrow> map_option (\<lambda>(es, s'). ((event, cs_connection s) # es, s')) (cs_selections self_fd fd listening n s))"

lemma selections_drain:
  assumes "cs_settled s" and "cs_ready s = rs" and "\<forall>(r, revents) \<in> set rs. poll_event revents \<noteq> None"
  shows "\<exists>s'. cs_selections self_fd fd listening (length rs) s = Some (map (select_outcome listening) rs, s') \<and> cs_ready s' = []"
  using assms
proof (induction rs arbitrary: s)
  case (Cons x rest)
  obtain r revents where x: "x = (r, revents)" by (cases x)
  with Cons.prems(3) have "poll_event revents \<noteq> None" by simp
  then obtain s1 where s1: "cs_select self_fd fd listening [] s = Some (fst (select_outcome listening x), s1)"
    "cs_connection s1 = snd (select_outcome listening x)" "cs_settled s1" "cs_ready s1 = rest"
    using select_left_over [OF Cons.prems(1), of r revents rest] Cons.prems(2) x by metis
  from Cons.IH [OF s1(3,4)] Cons.prems(3) obtain s' where
    "cs_selections self_fd fd listening (length rest) s1 = Some (map (select_outcome listening) rest, s')" "cs_ready s' = []" by auto
  with s1(1,2) show ?case by simp
qed simp

lemma cs_collect_all: "cs_collect fd cs fds results = (fds', results', None) \<Longrightarrow> fds' = fds @ map (\<lambda>c. (fd c, [])) cs \<and> results' = results @ map Conn cs"
proof (induction cs arbitrary: fds results)
  case (Cons c cs)
  from Cons.prems have "cs_collect fd cs (fds @ [(fd c, [])]) (results @ [Conn c]) = (fds', results', None)" by (simp split: if_splits)
  from Cons.IH [OF this] show ?case by simp
qed simp

lemma cs_buildFDSet_done:
  assumes "cs_buildFDSet self_fd fd s = (True, s')"
  shows "s' = s\<lparr>cs_fdSet := (self_fd, []) # map (\<lambda>c. (fd c, [])) (cs_allConnections s), cs_fdSetResult := Self # map Conn (cs_allConnections s),
    cs_fdSetCopy := (self_fd, []) # map (\<lambda>c. (fd c, [])) (cs_allConnections s)\<rparr>"
  using assms by (auto simp: cs_buildFDSet_def Let_def dest!: cs_collect_all split: prod.splits option.splits)

lemma poll_drained:
  assumes "cs_setupFDSet self_fd fd s = (True, s1)" and "cs_dirty s \<or> length (cs_fdSetCopy s) = length (cs_fdSetResult s)"
    and "length revents = length (cs_fdSet s1)" and "\<forall>r \<in> set revents. r \<noteq> [] \<longrightarrow> poll_event r \<noteq> None"
    and "rs = filter (\<lambda>(c, r). r \<noteq> []) (zip (cs_fdSetResult s1) revents)"
  shows "\<exists>s'. cs_selections self_fd fd listening (length rs) (cs_polled revents s1) = Some (map (select_outcome listening) rs, s') \<and> cs_ready s' = []"
proof -
  have "\<not> cs_dirty s1 \<and> length (cs_fdSet s1) = length (cs_fdSetResult s1)"
    using assms(1,2) by (auto simp: cs_setupFDSet_def split: if_splits dest!: cs_buildFDSet_done)
  moreover have "map snd (map2 (\<lambda>(f, _) r. (f, r)) xs ys) = ys" if "length xs = length ys" for xs :: "poll_fd list" and ys :: "poll_flag list list"
    using that by (induction xs ys rule: list_induct2) auto
  ultimately have "cs_settled (cs_polled revents s1)" "cs_ready (cs_polled revents s1) = rs"
    using assms(3,5) by (simp_all add: cs_settled_def cs_ready_def cs_polled_def)
  moreover have "\<forall>(r, revents) \<in> set rs. poll_event revents \<noteq> None" using assms(4,5) by (auto dest: set_zip_rightD)
  ultimately show ?thesis by (rule selections_drain)
qed

text \<open>
  A connection without descriptor ends the selection before the new set is complete. The selection after that polls the
  old one again, unless the set has changed meanwhile, although the results belong to the incomplete one.
\<close>

lemma connection_set_stale_results:
  assumes "0 < fd 1" and "fd 2 \<le> 0"
    and "s = cs_new\<lparr>cs_allConnections := [2, 1], cs_fdSetCopy := [(3, []), (fd 1, [])]\<rparr>"
    and "cs_select 3 fd listening [] s = Some (event, s1)" and "cs_setupFDSet 3 fd s1 = (ok, s2)"
  shows "event = EVENT_INVALID_HANDLE \<and> ok \<and> length (cs_fdSet s2) = 2 \<and> length (cs_fdSetResult s2) = 1"
proof -
  have "event = EVENT_INVALID_HANDLE \<and> s1 = s\<lparr>cs_dirty := False, cs_fdSet := [(3, [])], cs_fdSetResult := [Self], cs_connection := Some (Conn 2)\<rparr>"
    using assms(2,4) by (subst (asm) cs_select.simps) (simp add: assms(3) cs_setupFDSet_def cs_buildFDSet_def cs_new_def Let_def)
  with assms(3,5) show ?thesis by (auto simp: cs_setupFDSet_def cs_new_def)
qed

section \<open>Changes from other threads\<close>

text \<open>
  Any thread may add or remove a connection, interrupt, or change the state of a connection, and with it its descriptor,
  while one thread selects. A change is made first, for the list of connections under the lock, then \<^verbatim>\<open>setDirty\<close> reads the
  flag, sets it and interrupts, in three steps. The selecting thread clears the flag before it takes the lock to read the
  connections. A setup that meets a connection without descriptor fails; \<open>sh_failed\<close> records that the last setup failed
  and that nothing has changed since then.
\<close>

datatype dirty_stage = Outside | CheckDirty | MarkDirty | Interrupting

datatype select_phase = Between | Building | Polling

record shared_set =
  sh_set :: connection_set
  sh_fd :: "nat \<Rightarrow> int"
  sh_thread :: "nat \<Rightarrow> dirty_stage"
  sh_phase :: select_phase
  sh_failed :: bool

definition sh_changed :: "nat \<Rightarrow> dirty_stage \<Rightarrow> connection_set \<Rightarrow> shared_set \<Rightarrow> shared_set" where
  "sh_changed t stage s S = S\<lparr>sh_set := s, sh_thread := (sh_thread S)(t := stage)\<rparr>"

definition sh_start :: "(nat \<Rightarrow> int) \<Rightarrow> shared_set" where
  "sh_start fd = \<lparr>sh_set = cs_new, sh_fd = fd, sh_thread = (\<lambda>_. Outside), sh_phase = Between, sh_failed = False\<rparr>"

inductive shared_step :: "int \<Rightarrow> shared_set \<Rightarrow> shared_set \<Rightarrow> bool" for self_fd :: int where
  add: "sh_thread S t = Outside \<Longrightarrow>
    shared_step self_fd S (sh_changed t CheckDirty (cs_push c (sh_set S)) (S\<lparr>sh_failed := False\<rparr>))"
| remove: "sh_thread S t = Outside \<Longrightarrow> c \<in> set (cs_allConnections (sh_set S)) \<Longrightarrow>
    shared_step self_fd S (sh_changed t CheckDirty (cs_erase c (sh_set S)) (S\<lparr>sh_failed := False\<rparr>))"
| state: "sh_thread S t = Outside \<Longrightarrow>
    shared_step self_fd S (sh_changed t CheckDirty (sh_set S) (S\<lparr>sh_fd := (sh_fd S)(c := f), sh_failed := False\<rparr>))"
| unlisted: "c \<notin> set (cs_allConnections (sh_set S)) \<Longrightarrow> shared_step self_fd S (S\<lparr>sh_fd := (sh_fd S)(c := f)\<rparr>)"
| already: "sh_thread S t = CheckDirty \<Longrightarrow> cs_dirty (sh_set S) \<Longrightarrow> shared_step self_fd S (sh_changed t Outside (sh_set S) S)"
| clean: "sh_thread S t = CheckDirty \<Longrightarrow> \<not> cs_dirty (sh_set S) \<Longrightarrow> shared_step self_fd S (sh_changed t MarkDirty (sh_set S) S)"
| mark: "sh_thread S t = MarkDirty \<Longrightarrow>
    shared_step self_fd S (sh_changed t Interrupting ((sh_set S)\<lparr>cs_dirty := True\<rparr>) S)"
| wake: "sh_thread S t = Interrupting \<Longrightarrow> shared_step self_fd S (sh_changed t Outside (cs_interrupt (sh_set S)) S)"
| interrupt: "shared_step self_fd S (S\<lparr>sh_set := cs_interrupt (sh_set S)\<rparr>)"
| rebuild: "sh_phase S = Between \<Longrightarrow> cs_dirty (sh_set S) \<Longrightarrow>
    shared_step self_fd S (S\<lparr>sh_set := (sh_set S)\<lparr>cs_dirty := False\<rparr>, sh_phase := Building\<rparr>)"
| build: "sh_phase S = Building \<Longrightarrow> cs_buildFDSet self_fd (sh_fd S) (sh_set S) = (True, s) \<Longrightarrow>
    shared_step self_fd S (S\<lparr>sh_set := s, sh_phase := Polling, sh_failed := False\<rparr>)"
| fail: "sh_phase S = Building \<Longrightarrow> cs_buildFDSet self_fd (sh_fd S) (sh_set S) = (False, s) \<Longrightarrow>
    shared_step self_fd S (S\<lparr>sh_set := s, sh_phase := Between, sh_failed := True\<rparr>)"
| reuse: "sh_phase S = Between \<Longrightarrow> \<not> cs_dirty (sh_set S) \<Longrightarrow> cs_setupFDSet self_fd (sh_fd S) (sh_set S) = (True, s) \<Longrightarrow>
    shared_step self_fd S (S\<lparr>sh_set := s, sh_phase := Polling\<rparr>)"
| timeout: "sh_phase S = Polling \<Longrightarrow> shared_step self_fd S (S\<lparr>sh_phase := Between\<rparr>)"
| polled: "sh_phase S = Polling \<Longrightarrow> length revents = length (cs_fdSet (sh_set S)) \<Longrightarrow>
    cs_getSelectResult listening (cs_polled revents (sh_set S)) = Some (event, s) \<Longrightarrow>
    shared_step self_fd S (S\<lparr>sh_set := s, sh_phase := Between\<rparr>)"
| left_over: "sh_phase S = Between \<Longrightarrow> \<not> cs_dirty (sh_set S) \<Longrightarrow>
    cs_getSelectResult listening ((sh_set S)\<lparr>cs_connection := None\<rparr>) = Some (event, s) \<Longrightarrow>
    shared_step self_fd S (S\<lparr>sh_set := s\<rparr>)"

inductive shared_reach :: "int \<Rightarrow> shared_set \<Rightarrow> bool" for self_fd :: int where
  start: "shared_reach self_fd (sh_start fd)"
| step: "shared_reach self_fd S \<Longrightarrow> shared_step self_fd S S' \<Longrightarrow> shared_reach self_fd S'"

definition at_stage :: "dirty_stage \<Rightarrow> shared_set \<Rightarrow> bool" where
  "at_stage stage S \<longleftrightarrow> (\<exists>t. sh_thread S t = stage)"

lemma at_stage_changed [simp]:
  "at_stage stage (sh_changed t stage s S)"
  "sh_thread S t \<noteq> stage \<Longrightarrow> at_stage stage S \<Longrightarrow> at_stage stage (sh_changed t stage' s S)"
  "at_stage stage (S\<lparr>sh_set := s\<rparr>) = at_stage stage S" "at_stage stage (S\<lparr>sh_phase := phase\<rparr>) = at_stage stage S"
  "at_stage stage (S\<lparr>sh_fd := fd\<rparr>) = at_stage stage S" "at_stage stage (S\<lparr>sh_failed := b\<rparr>) = at_stage stage S"
  by (auto simp: at_stage_def sh_changed_def)

text \<open>
  The set polled is the current one, or it will be built anew: a thread that has made a change has not read the flag
  or not set it yet, or the flag is set, or the last setup failed; and while the selecting thread waits with the flag
  set, it has been or will be interrupted.
\<close>

definition in_sync :: "int \<Rightarrow> (nat \<Rightarrow> int) \<Rightarrow> connection_set \<Rightarrow> bool" where
  "in_sync self_fd fd s \<longleftrightarrow>
     cs_fdSetResult s = Self # map Conn (cs_allConnections s) \<and>
     map fst (cs_fdSet s) = self_fd # map fd (cs_allConnections s) \<and>
     map fst (cs_fdSetCopy s) = self_fd # map fd (cs_allConnections s)"

definition shared_inv :: "int \<Rightarrow> shared_set \<Rightarrow> bool" where
  "shared_inv self_fd S \<longleftrightarrow>
     (sh_phase S \<noteq> Between \<and> cs_dirty (sh_set S) \<longrightarrow> ec_set (cs_selfConnection (sh_set S)) \<or> at_stage Interrupting S) \<and>
     (sh_phase S \<noteq> Building \<longrightarrow> in_sync self_fd (sh_fd S) (sh_set S) \<or> cs_dirty (sh_set S) \<or>
        at_stage CheckDirty S \<or> at_stage MarkDirty S \<or> sh_failed S)"

lemma getSelectResult_frame:
  assumes "cs_getSelectResult listening s = Some (event, s')"
  shows "cs_fdSetResult s' = cs_fdSetResult s" and "cs_allConnections s' = cs_allConnections s" and "cs_dirty s' = cs_dirty s"
    and "cs_fdSetCopy s' = cs_fdSetCopy s" and "map fst (cs_fdSet s') = map fst (cs_fdSet s)"
proof -
  have upd: "map fst (xs[i := (fst (xs ! i), [])]) = map fst xs" for xs :: "poll_fd list" and i
    by (cases "i < length xs") (simp_all add: map_update list_update_same_conv list_update_beyond)
  show "cs_fdSetResult s' = cs_fdSetResult s" "cs_allConnections s' = cs_allConnections s" "cs_dirty s' = cs_dirty s"
    "cs_fdSetCopy s' = cs_fdSetCopy s" "map fst (cs_fdSet s') = map fst (cs_fdSet s)"
    using assms upd by (auto simp: cs_getSelectResult_def cs_parseSelect_def Let_def split: option.splits selected.splits prod.splits)
qed

lemma polled_frame:
  assumes "length revents = length (cs_fdSet s)"
  shows "map fst (cs_fdSet (cs_polled revents s)) = map fst (cs_fdSet s)"
proof -
  have "map fst (map2 (\<lambda>(f, _) r. (f, r)) xs ys) = map fst xs" if "length xs = length ys" for xs :: "poll_fd list" and ys :: "poll_flag list list"
    using that by (induction xs ys rule: list_induct2) auto
  from this [OF assms [symmetric]] show ?thesis by (simp add: cs_polled_def)
qed

lemma sh_changed_simps [simp]:
  "sh_set (sh_changed t stage s S) = s" "sh_phase (sh_changed t stage s S) = sh_phase S"
  "sh_fd (sh_changed t stage s S) = sh_fd S" "sh_failed (sh_changed t stage s S) = sh_failed S"
  by (simp_all add: sh_changed_def)

lemma in_sync_interrupt [simp]: "in_sync self_fd fd (cs_interrupt s) = in_sync self_fd fd s"
  by (simp add: in_sync_def cs_interrupt_def)

lemma in_sync_unlisted: "c \<notin> set (cs_allConnections s) \<Longrightarrow> in_sync self_fd (fd(c := f)) s = in_sync self_fd fd s"
proof -
  assume "c \<notin> set (cs_allConnections s)"
  then have "map (fd(c := f)) (cs_allConnections s) = map fd (cs_allConnections s)" by (auto simp: map_eq_conv)
  then show ?thesis unfolding in_sync_def by (simp only:)
qed

lemma shared_inv_step:
  assumes "shared_step self_fd S S'" and inv: "shared_inv self_fd S"
  shows "shared_inv self_fd S'"
  using assms(1)
proof cases
  case (unlisted c f)
  with inv show ?thesis by (simp add: shared_inv_def in_sync_unlisted)
next
  case (already t)
  with inv show ?thesis by (auto simp: shared_inv_def)
next
  case (mark t)
  with inv show ?thesis by (auto simp: shared_inv_def)
next
  case (wake t)
  with inv show ?thesis by (auto simp: shared_inv_def cs_interrupt_def in_sync_def)
next
  case (interrupt)
  with inv show ?thesis by (auto simp: shared_inv_def cs_interrupt_def in_sync_def)
next
  case (build s)
  then have "in_sync self_fd (sh_fd S) s" "cs_dirty s = cs_dirty (sh_set S)" "cs_selfConnection s = cs_selfConnection (sh_set S)"
    by (auto simp: in_sync_def comp_def dest!: cs_buildFDSet_done)
  with build inv show ?thesis by (simp add: shared_inv_def)
next
  case (reuse s)
  with inv show ?thesis by (auto simp: shared_inv_def cs_setupFDSet_def in_sync_def)
next
  case (polled revents listening event s)
  note f = getSelectResult_frame [OF polled(4)]
  have "in_sync self_fd (sh_fd S) s = in_sync self_fd (sh_fd S) (sh_set S)" "cs_dirty s = cs_dirty (sh_set S)"
    using f polled_frame [OF polled(3)] by (simp_all add: cs_polled_def in_sync_def)
  with polled inv show ?thesis by (simp add: shared_inv_def)
next
  case (left_over listening event s)
  have "in_sync self_fd (sh_fd S) s = in_sync self_fd (sh_fd S) (sh_set S)" "cs_dirty s = cs_dirty (sh_set S)"
    using getSelectResult_frame [OF left_over(4)] by (simp_all add: in_sync_def)
  with left_over inv show ?thesis by (simp add: shared_inv_def)
qed (use inv in \<open>auto simp: shared_inv_def cs_push_def cs_erase_def\<close>)

lemma shared_reach_inv: "shared_reach self_fd S \<Longrightarrow> shared_inv self_fd S"
proof (induction rule: shared_reach.induct)
  case (start fd)
  then show ?case by (simp add: shared_inv_def sh_start_def cs_new_def)
next
  case (step S S')
  then show ?case by (blast intro: shared_inv_step)
qed

lemma shared_reach_sync:
  assumes "shared_reach self_fd S" and "sh_phase S \<noteq> Building" and "\<forall>t. sh_thread S t = Outside" and "\<not> sh_failed S"
  shows "in_sync self_fd (sh_fd S) (sh_set S) \<or> cs_dirty (sh_set S)"
  using shared_reach_inv [OF assms(1)] assms(2-4) by (auto simp: shared_inv_def at_stage_def)

text \<open>
  C13 (connection_set_no_lost_change): however additions, removals, changes of descriptors and interruptions by other
  threads interleave with a selection, while it waits without an interruption pending and no change is under way, the
  descriptors it waits for are exactly those of the connections in the set, unless the last setup met a connection
  without descriptor and nothing has changed since.
\<close>

theorem connection_set_no_lost_change:
  assumes "shared_reach self_fd S" and "sh_phase S = Polling" and "\<forall>t. sh_thread S t = Outside"
    and "\<not> ec_set (cs_selfConnection (sh_set S))" and "\<not> sh_failed S"
  shows "cs_fdSetResult (sh_set S) = Self # map Conn (cs_allConnections (sh_set S)) \<and>
    map fst (cs_fdSet (sh_set S)) = self_fd # map (sh_fd S) (cs_allConnections (sh_set S))"
proof -
  have "\<not> cs_dirty (sh_set S)" using shared_reach_inv [OF assms(1)] assms(2-4) by (simp add: shared_inv_def at_stage_def)
  with shared_reach_sync [OF assms(1) _ assms(3,5)] assms(2) show ?thesis by (simp add: in_sync_def)
qed

text \<open>A thread adds a connection, then the set is built and polled.\<close>

definition sample_fd :: "nat \<Rightarrow> int" where "sample_fd c = 4 + int c"

definition sample_added :: shared_set where
  "sample_added = (sh_start sample_fd)\<lparr>sh_set := cs_push 2 (cs_push 1 cs_new)\<rparr>"

lemma sample_added_reach: "shared_reach 3 sample_added"
proof -
  let ?S = "\<lambda>s. (sh_start sample_fd)\<lparr>sh_set := s\<rparr>"
  have restored: "(\<lambda>_ :: nat. Outside)(0 := Outside) = (\<lambda>_. Outside)" by auto
  have push: "shared_reach 3 (?S (cs_push c s))" if "shared_reach 3 (?S s)" "cs_dirty s" for c s
  proof -
    let ?T = "sh_changed 0 CheckDirty (cs_push c s) (?S s)"
    have "shared_reach 3 ?T"
      using shared_reach.step [OF that(1) shared_step.add [of _ 0 _ c]] by (simp add: sh_start_def)
    from shared_reach.step [OF this shared_step.already [of _ 0]] that(2) show ?thesis
      by (simp add: sh_changed_def cs_push_def sh_start_def restored)
  qed
  have "?S cs_new = sh_start sample_fd" by (simp add: sh_start_def)
  with shared_reach.start [of 3 sample_fd] have "shared_reach 3 (?S cs_new)" by simp
  from push [OF push [OF this]] show ?thesis by (simp add: sample_added_def cs_push_def cs_new_def)
qed

definition sample_polling :: shared_set where
  "sample_polling =
     sample_added\<lparr>sh_set := snd (cs_setupFDSet 3 sample_fd (sh_set sample_added)), sh_phase := Polling\<rparr>"

lemmas sample_polling_simps =
  sample_polling_def sample_added_def sh_start_def sample_fd_def cs_setupFDSet_def cs_buildFDSet_def cs_push_def cs_new_def Let_def

lemma sample_polling_reach: "shared_reach 3 sample_polling"
proof -
  have 1: "shared_reach 3 (sample_added\<lparr>sh_set := (sh_set sample_added)\<lparr>cs_dirty := False\<rparr>, sh_phase := Building\<rparr>)"
    by (rule shared_reach.step [OF sample_added_reach shared_step.rebuild]) (simp_all add: sample_polling_simps)
  have "cs_buildFDSet 3 sample_fd ((sh_set sample_added)\<lparr>cs_dirty := False\<rparr>) = (True, sh_set sample_polling)"
    by (simp add: sample_polling_simps)
  with shared_reach.step [OF 1 shared_step.build] show ?thesis
    by (simp add: sample_polling_def sample_added_def sh_start_def)
qed

theorem connection_set_no_lost_change_witness:
  "map fst (cs_fdSet (sh_set sample_polling)) = [3, 5, 6] \<and> \<not> ec_set (cs_selfConnection (sh_set sample_polling))"
proof -
  have "\<not> ec_set (cs_selfConnection (sh_set sample_polling))" "cs_allConnections (sh_set sample_polling) = [1, 2]"
    "sh_fd sample_polling = sample_fd" "sh_phase sample_polling = Polling" "\<forall>t. sh_thread sample_polling t = Outside"
    "\<not> sh_failed sample_polling"
    by (simp_all add: sample_polling_simps)
  with connection_set_no_lost_change [OF sample_polling_reach] show ?thesis by (simp add: sample_fd_def)
qed

text \<open>
  C14 (connection_set_fair): in every reachable state of a set that is not being changed and whose last setup has not
  failed, whatever events \<^verbatim>\<open>poll\<close> reports, of those the code handles, the selections that follow return each connection
  with an event once, in the order of the set, and none of them polls again before all are returned.
\<close>

theorem connection_set_fair:
  assumes "shared_reach self_fd S" and "sh_phase S = Between" and "\<forall>t. sh_thread S t = Outside" and "\<not> sh_failed S"
    and "cs_setupFDSet self_fd (sh_fd S) (sh_set S) = (True, s1)"
    and "length revents = length (cs_fdSet s1)" and "\<forall>r \<in> set revents. r \<noteq> [] \<longrightarrow> poll_event r \<noteq> None"
    and "rs = filter (\<lambda>(c, r). r \<noteq> []) (zip (Self # map Conn (cs_allConnections (sh_set S))) revents)"
  shows "\<exists>s'. cs_selections self_fd (sh_fd S) listening (length rs) (cs_polled revents s1) =
      Some (map (select_outcome listening) rs, s') \<and> cs_ready s' = []"
proof -
  have sync: "in_sync self_fd (sh_fd S) (sh_set S) \<or> cs_dirty (sh_set S)"
    using shared_reach_sync [OF assms(1) _ assms(3,4)] assms(2) by simp
  have results: "cs_fdSetResult s1 = Self # map Conn (cs_allConnections (sh_set S))"
    using sync assms(5) by (auto simp: cs_setupFDSet_def in_sync_def split: if_splits dest!: cs_buildFDSet_done)
  have "cs_dirty (sh_set S) \<or> length (cs_fdSetCopy (sh_set S)) = length (cs_fdSetResult (sh_set S))"
    using sync unfolding in_sync_def by (metis length_map list.size(4))
  from poll_drained [OF assms(5) this assms(6,7) assms(8) [folded results]] show ?thesis .
qed

theorem connection_set_fair_witness:
  "\<exists>s'. cs_selections 3 sample_fd (\<lambda>c. c = 2) 2
      (cs_polled [[], [POLLIN], [POLLIN]] (sh_set sample_polling)) =
    Some ([(EVENT_DATA, Some (Conn 1)), (EVENT_CONNECT, Some (Conn 2))], s') \<and> cs_ready s' = []"
proof -
  have s: "cs_setupFDSet 3 (sh_fd sample_added) (sh_set sample_added) = (True, sh_set sample_polling)"
    "cs_allConnections (sh_set sample_added) = [1, 2]" "length (cs_fdSet (sh_set sample_polling)) = 3" "sh_fd sample_added = sample_fd"
    "sh_phase sample_added = Between" "\<forall>t. sh_thread sample_added t = Outside" "\<not> sh_failed sample_added"
    by (simp_all add: sample_polling_simps)
  from connection_set_fair [OF sample_added_reach s(5-7,1) _ _ refl, of "[[], [POLLIN], [POLLIN]]" "\<lambda>c. c = 2"] s(2-4) show ?thesis
    by (simp add: poll_event_def numeral_2_eq_2)
qed

end
