(* ===== verification/Node_Operations.thy ===== *)
theory Node_Operations
  imports Local_Node Connection_Set "HOL-Library.Multiset"
begin

text \<open>
  What a local node does besides the handshake, \<^verbatim>\<open>src/co/localNode.cpp\<close>: looking up nodes and connecting them by identifier, listeners,
  custom command handlers, pings, start and shutdown of the receiver thread. What happens while a thread waits for an answer
  is a function from the state before to the answer and the state after; operating system and zeroconf services are parameters.
\<close>

section \<open>Looking up nodes\<close>

definition ln_getNode :: "NodeID \<Rightarrow> local_node \<Rightarrow> nat option" where
  "ln_getNode i s =
     (case map_of (ln_nodes s) i of
        None \<Rightarrow> None
      | Some r \<Rightarrow> if pn_isReachable (ln_peers s ! r) then Some r else None)"

definition ln_getNodes :: "bool \<Rightarrow> local_node \<Rightarrow> nat list" where
  "ln_getNodes addSelf s = filter (\<lambda>r. pn_isReachable (ln_peers s ! r) \<and> (addSelf \<or> r \<noteq> 0)) (map snd (ln_nodes s))"

section \<open>Node data\<close>

definition NODETYPE_INVALID :: uint32 where "NODETYPE_INVALID = 0"

record node_data_reply =
  nr_nodeID :: NodeID
  nr_requestID :: uint32
  nr_nodeType :: uint32
  nr_nodeData :: string

definition ln_cmdGetNodeData :: "node_env \<Rightarrow> NodeID \<Rightarrow> uint32 \<Rightarrow> local_node \<Rightarrow> node_data_reply" where
  "ln_cmdGetNodeData E nodeID requestID s =
     (case ln_getNode nodeID s of
        None \<Rightarrow> \<lparr>nr_nodeID = nodeID, nr_requestID = requestID, nr_nodeType = NODETYPE_INVALID, nr_nodeData = []\<rparr>
      | Some r \<Rightarrow>
          \<lparr>nr_nodeID = nodeID, nr_requestID = requestID, nr_nodeType = pn_type (ln_peers s ! r),
           nr_nodeData = nx_serialize (ne_format E) (ne_major E) (ne_minor E) (pn_data (ln_peers s ! r))\<rparr>)"

text \<open>The node the request is served with; \<open>fresh\<close> is the data of a node just constructed.\<close>

definition ln_cmdGetNodeDataReply :: "node_env \<Rightarrow> node_data \<Rightarrow> node_data_reply \<Rightarrow> local_node \<Rightarrow> nat option \<times> local_node" where
  "ln_cmdGetNodeDataReply E fresh m s =
     (case map_of (ln_nodes s) (nr_nodeID m) of
        Some r \<Rightarrow> (Some r, s)
      | None \<Rightarrow>
          if nr_nodeType m = NODETYPE_INVALID then (None, s)
          else (case ln_createNode E (nr_nodeType m) fresh s of
                  (None, s) \<Rightarrow> (None, s)
                | (Some r, s) \<Rightarrow> (Some r, ln_deserialize E r (nr_nodeData m) s)))"

section \<open>Connecting a node by its identifier\<close>

text \<open>
  One attempt: which descriptions can be opened and the connection that gives, the request registered, and
  what happens until the request is answered or times out.
\<close>

record connect_attempt =
  at_opens :: "connection_description \<Rightarrow> nat option"
  at_request :: uint32
  at_await :: "local_node \<Rightarrow> bool option \<times> local_node"

fun first_open :: "(connection_description \<Rightarrow> nat option) \<Rightarrow> connection_description list \<Rightarrow> nat option" where
  "first_open opens [] = None"
| "first_open opens (d # ds) =
     (if isMulticastType (cd_type d) then first_open opens ds
      else (case opens d of None \<Rightarrow> first_open opens ds | Some c \<Rightarrow> Some c))"

definition ln_connectNode :: "node_env \<Rightarrow> connect_attempt \<Rightarrow> nat \<Rightarrow> local_node \<Rightarrow> connect_result \<times> local_node \<times> node_effect list" where
  "ln_connectNode E a r s =
     (if pn_isReachable (ln_peers s ! r) then (CONNECT_OK, s, [])
      else (case first_open (at_opens a) (nx_descriptions (pn_data (ln_peers s ! r))) of
              None \<Rightarrow> (CONNECT_UNREACHABLE, s, [])
            | Some c \<Rightarrow>
                (case ln_connect E True (at_request a) r c s of
                   None \<Rightarrow> (CONNECT_BAD_STATE, s, [])
                 | Some (s, es) \<Rightarrow>
                     (case at_await a s of
                        (answer, s) \<Rightarrow>
                          (ln_connectResult answer r s, if answer = None then ln_unregister (at_request a) s else s, es)))))"

text \<open>The attempts of \<^verbatim>\<open>_connect( nodeID, peer )\<close>; after a failure the node may have connected by itself.\<close>

fun ln_connectTries ::
  "node_env \<Rightarrow> NodeID \<Rightarrow> connect_attempt list \<Rightarrow> nat \<Rightarrow> local_node \<Rightarrow> nat option \<times> local_node \<times> node_effect list" where
  "ln_connectTries E nodeID [] r s = (if pn_isReachable (ln_peers s ! r) then Some r else None, s, [])"
| "ln_connectTries E nodeID (a # as) r s =
     (case ln_connectNode E a r s of
        (res, s, es) \<Rightarrow>
          (case res of
             CONNECT_OK \<Rightarrow> (Some r, s, es)
           | CONNECT_BAD_STATE \<Rightarrow> (None, s, es)
           | CONNECT_TIMEOUT \<Rightarrow> (None, s, es)
           | _ \<Rightarrow>
               (case ln_connectTries E nodeID as (case map_of (ln_nodes s) nodeID of Some r' \<Rightarrow> r' | None \<Rightarrow> r) s of
                  (x, s, es') \<Rightarrow> (x, s, es @ es'))))"

text \<open>\<open>ask\<close> sends the request for the node data to the peer and waits for the node the request is served with.\<close>

definition ln_connectVia ::
  "node_env \<Rightarrow> NodeID \<Rightarrow> (local_node \<Rightarrow> nat option \<times> local_node) \<Rightarrow> connect_attempt list \<Rightarrow> local_node \<Rightarrow>
   nat option \<times> local_node \<times> node_effect list" where
  "ln_connectVia E nodeID ask as s =
     (let go = (\<lambda>r s. if pn_isReachable (ln_peers s ! r) then (Some r, s, []) else ln_connectTries E nodeID (take 9 as) r s)
      in case map_of (ln_nodes s) nodeID of
           Some r \<Rightarrow> go r s
         | None \<Rightarrow> (case ask s of (None, s) \<Rightarrow> (None, s, []) | (Some r, s) \<Rightarrow> go r s))"

fun ln_askPeers ::
  "node_env \<Rightarrow> NodeID \<Rightarrow> (nat \<Rightarrow> local_node \<Rightarrow> nat option \<times> local_node) \<Rightarrow> (nat \<Rightarrow> connect_attempt list) \<Rightarrow> nat list \<Rightarrow> local_node \<Rightarrow>
   nat option \<times> local_node \<times> node_effect list" where
  "ln_askPeers E nodeID ask as [] s = (None, s, [])"
| "ln_askPeers E nodeID ask as (p # ps) s =
     (case ln_connectVia E nodeID (ask p) (as p) s of
        (Some r, s, es) \<Rightarrow> (Some r, s, es)
      | (None, s, es) \<Rightarrow> (case ln_askPeers E nodeID ask as ps s of (x, s, es') \<Rightarrow> (x, s, es @ es')))"

text \<open>An instance discovered by zeroconf: its name and its keys and values.\<close>

record zeroconf_instance =
  zc_name :: string
  zc_get :: "string \<Rightarrow> string"
  zc_fresh :: node_data
  zc_attempt :: connect_attempt

definition zc_descriptions :: "zeroconf_instance \<Rightarrow> connection_description list" where
  "zc_descriptions i =
     map (\<lambda>j. fst (snd (cd_fromString cd_new (zc_get i (''co_port'' @ show_nat j))))) [0..<nat (atoi (zc_get i ''co_numPorts''))]"

text \<open>\<^verbatim>\<open>_connect\<close> returns zero for success, and a result that is not zero is taken for it.\<close>

fun ln_connectFromZeroconf ::
  "node_env \<Rightarrow> NodeID \<Rightarrow> zeroconf_instance list \<Rightarrow> local_node \<Rightarrow> nat option \<times> local_node \<times> node_effect list" where
  "ln_connectFromZeroconf E nodeID [] s = (None, s, [])"
| "ln_connectFromZeroconf E nodeID (i # is) s =
     (if read_id (ne_format E) (zc_name i) \<noteq> nodeID then ln_connectFromZeroconf E nodeID is s
      else if zc_get i ''co_type'' = [] then (None, s, [])
      else (case ln_createNode E (of_int (atoi (zc_get i ''co_type''))) (zc_fresh i) s of
              (None, s) \<Rightarrow> ln_connectFromZeroconf E nodeID is s
            | (Some r, s) \<Rightarrow>
                (let s = ln_update r (\<lambda>n. n\<lparr>pn_data := fold nx_addConnectionDescription (zc_descriptions i) (pn_data n)\<rparr>) s
                 in case ln_connectNode E (zc_attempt i) r s of
                      (res, s, es) \<Rightarrow>
                        if res \<noteq> CONNECT_OK then (Some r, s, es)
                        else (case ln_connectFromZeroconf E nodeID is s of (x, s, es') \<Rightarrow> (x, s, es @ es')))))"

definition ln_findNode :: "NodeID \<Rightarrow> local_node \<Rightarrow> nat option" where
  "ln_findNode nodeID s =
     find (\<lambda>r. pn_id (ln_peers s ! r) = nodeID \<and> pn_isReachable (ln_peers s ! r)) (ln_getNodes True s)"

definition ln_connectID ::
  "node_env \<Rightarrow> NodeID \<Rightarrow> (nat \<Rightarrow> local_node \<Rightarrow> nat option \<times> local_node) \<Rightarrow> (nat \<Rightarrow> connect_attempt list) \<Rightarrow> zeroconf_instance list \<Rightarrow>
   local_node \<Rightarrow> nat option \<times> local_node \<times> node_effect list" where
  "ln_connectID E nodeID ask as instances s =
     (case ln_findNode nodeID s of
        Some r \<Rightarrow> (Some r, s, [])
      | None \<Rightarrow>
          (case ln_askPeers E nodeID ask as (ln_getNodes True s) s of
             (Some r, s, es) \<Rightarrow> (Some r, s, es)
           | (None, s, es) \<Rightarrow>
               (case ln_connectFromZeroconf E nodeID instances s of
                  (Some r, s, es') \<Rightarrow> (Some r, s, es @ es')
                | (None, s, es') \<Rightarrow> (ln_findNode nodeID s, s, es @ es'))))"

text \<open>The master of an object: found in the store, then connected.\<close>

definition ln_connectObjectMaster ::
  "(uint128 \<Rightarrow> NodeID) \<Rightarrow> (NodeID \<Rightarrow> local_node \<Rightarrow> nat option \<times> local_node \<times> node_effect list) \<Rightarrow> (uint128 \<Rightarrow> bool) \<Rightarrow> uint128 \<Rightarrow> local_node \<Rightarrow>
   nat option \<times> local_node \<times> node_effect list" where
  "ln_connectObjectMaster findMasterNodeID connect isUUID i s =
     (if \<not> isUUID i then (None, s, [])
      else let masterNodeID = findMasterNodeID i
           in if masterNodeID = 0 then (None, s, [])
              else (case connect masterNodeID s of
                      (None, s, es) \<Rightarrow> (None, s, es)
                    | (Some r, s, es) \<Rightarrow> (if pn_state (ln_peers s ! r) \<noteq> STATE_CLOSED then Some r else None, s, es)))"

section \<open>Listeners\<close>

text \<open>Commands sent to every reachable node, the sending one included; a connection is sent as its address.\<close>

datatype listener_command = ADD_LISTENER nat string | REMOVE_LISTENER uint32 nat string

definition ln_addListener :: "node_env \<Rightarrow> bool \<Rightarrow> nat \<Rightarrow> local_node \<Rightarrow> (nat \<times> listener_command) list" where
  "ln_addListener E listening c s =
     (if pn_state (ln_self s) \<noteq> STATE_LISTENING \<or> \<not> listening then []
      else map (\<lambda>r. (r, ADD_LISTENER c (cd_serialize (ne_descr E c)))) (ln_getNodes True s))"

definition ln_removeListener :: "node_env \<Rightarrow> uint32 \<Rightarrow> nat \<Rightarrow> local_node \<Rightarrow> (nat \<times> listener_command) list" where
  "ln_removeListener E requestID c s =
     map (\<lambda>r. (r, REMOVE_LISTENER requestID c (cd_serialize (ne_descr E c)))) (ln_getNodes True s)"

text \<open>The new listener itself, at the node that owns it.\<close>

definition ln_listenOn :: "node_env \<Rightarrow> nat \<Rightarrow> local_node \<Rightarrow> local_node" where
  "ln_listenOn E c s =
     (let s = ln_setConnection c 0 s;
          s = (if ne_multicast E c then ln_update 0 (pn_addMulticast 0 c) s else s)
      in s\<lparr>ln_incoming := ln_incoming s @ [c]\<rparr>)"

definition ln_describe :: "(node_data \<Rightarrow> node_data) \<Rightarrow> nat \<Rightarrow> local_node \<Rightarrow> local_node" where
  "ln_describe f r = ln_update r (\<lambda>n. n\<lparr>pn_data := f (pn_data n)\<rparr>)"

definition ln_cmdAddListener :: "node_env \<Rightarrow> nat \<Rightarrow> nat \<Rightarrow> string \<Rightarrow> local_node \<Rightarrow> local_node" where
  "ln_cmdAddListener E sender c data s =
     (let description = fst (snd (cd_fromString cd_new data));
          s = ln_describe (nx_addConnectionDescription description) sender s
      in if sender \<noteq> 0 then s else ln_listenOn E c s)"

definition ln_cmdRemoveListener :: "node_env \<Rightarrow> nat \<Rightarrow> uint32 \<Rightarrow> nat \<Rightarrow> string \<Rightarrow> local_node \<Rightarrow> local_node" where
  "ln_cmdRemoveListener E sender requestID c data s =
     (let description = fst (snd (cd_fromString cd_new data));
          s = ln_describe (\<lambda>d. snd (nx_removeConnectionDescription description d)) sender s
      in if sender \<noteq> 0 then s
         else let s = (if ne_multicast E c then ln_update 0 (pn_removeMulticast c) s else s);
                  s = s\<lparr>ln_incoming := remove1 c (ln_incoming s), ln_connectionNodes := AList.delete c (ln_connectionNodes s)\<rparr>
              in ln_serveRequest requestID True s)"

definition ln_cmdListener :: "node_env \<Rightarrow> nat \<Rightarrow> listener_command \<Rightarrow> local_node \<Rightarrow> local_node" where
  "ln_cmdListener E sender m s =
     (case m of
        ADD_LISTENER c data \<Rightarrow> ln_cmdAddListener E sender c data s
      | REMOVE_LISTENER requestID c data \<Rightarrow> ln_cmdRemoveListener E sender requestID c data s)"

section \<open>Custom commands and pushes\<close>

text \<open>Handlers by identifier, each with the queue it runs on, if any.\<close>

type_synonym 'h command_handlers = "(uint128 \<times> 'h \<times> nat option) list"

definition ln_registerCommandHandler :: "uint128 \<Rightarrow> 'h \<Rightarrow> nat option \<Rightarrow> 'h command_handlers \<Rightarrow> bool \<times> 'h command_handlers" where
  "ln_registerCommandHandler command func queue hs =
     (case map_of hs command of
        Some h \<Rightarrow> (False, hs)
      | None \<Rightarrow> (True, (command, func, queue) # hs))"

datatype 'h command_outcome = NotHandled | PushedTo nat | Called 'h

definition ln_cmdCommand :: "uint128 \<Rightarrow> 'h command_handlers \<Rightarrow> 'h command_outcome" where
  "ln_cmdCommand commandID hs =
     (case map_of hs commandID of
        None \<Rightarrow> NotHandled
      | Some (func, Some queue) \<Rightarrow> PushedTo queue
      | Some (func, None) \<Rightarrow> Called func)"

text \<open>The handler called when the command is taken from the queue; none when it has been deregistered meanwhile.\<close>

definition ln_cmdCommandAsync :: "uint128 \<Rightarrow> 'h command_handlers \<Rightarrow> 'h option" where
  "ln_cmdCommandAsync commandID hs = map_option fst (map_of hs commandID)"

definition ln_registerPushHandler :: "uint128 \<Rightarrow> 'h \<Rightarrow> (uint128 \<times> 'h) list \<Rightarrow> (uint128 \<times> 'h) list" where
  "ln_registerPushHandler groupID handler hs = AList.update groupID handler hs"

definition ln_objectPush :: "uint128 \<Rightarrow> (uint128 \<times> 'h) list \<Rightarrow> 'h option" where
  "ln_objectPush groupID hs = map_of hs groupID"

section \<open>Pings and acknowledgements\<close>

datatype node_answer = NoAnswer | Serve uint32 | AckTo nat uint32

definition ln_ackRequest :: "node_env \<Rightarrow> nat \<Rightarrow> uint32 \<Rightarrow> node_answer" where
  "ln_ackRequest E r requestID = (if requestID = ne_undefined E then NoAnswer else if r = 0 then Serve requestID else AckTo r requestID)"

text \<open>The nodes pinged: those not heard of for half the keep-alive timeout.\<close>

definition ln_pingIdleNodes :: "int \<Rightarrow> int \<Rightarrow> (nat \<Rightarrow> int) \<Rightarrow> local_node \<Rightarrow> bool \<times> nat list" where
  "ln_pingIdleNodes keepaliveTimeout now lastReceiveTime s =
     (let pinged = filter (\<lambda>r. now - lastReceiveTime r > keepaliveTimeout div 2) (ln_getNodes False s)
      in (pinged \<noteq> [], pinged))"

section \<open>Start and shutdown\<close>

text \<open>The two ends of the pipe to the own receiver thread, when it could be made.\<close>

definition ln_connectSelf :: "(nat \<times> nat) option \<Rightarrow> local_node \<Rightarrow> bool \<times> local_node" where
  "ln_connectSelf pipe s =
     (case pipe of
        None \<Rightarrow> (False, s)
      | Some (c, sibling) \<Rightarrow>
          (let s = ln_update 0 (\<lambda>n. (pn_connect sibling n)\<lparr>pn_state := STATE_CLOSED\<rparr>) s;
               s = ln_setNode 0 (ln_setConnection c 0 s)
           in (True, s\<lparr>ln_incoming := ln_incoming s @ [c]\<rparr>)))"

fun ln_openListeners :: "node_env \<Rightarrow> (connection_description \<Rightarrow> nat option) \<Rightarrow> connection_description list \<Rightarrow> local_node \<Rightarrow> bool \<times> local_node" where
  "ln_openListeners E opens [] s = (True, s)"
| "ln_openListeners E opens (d # ds) s =
     (case opens d of None \<Rightarrow> (False, s) | Some c \<Rightarrow> ln_openListeners E opens ds (ln_listenOn E c s))"

definition ln_setState :: "node_state \<Rightarrow> local_node \<Rightarrow> local_node" where
  "ln_setState st = ln_update 0 (\<lambda>n. n\<lparr>pn_state := st\<rparr>)"

definition ln_listen :: "node_env \<Rightarrow> (nat \<times> nat) option \<Rightarrow> (connection_description \<Rightarrow> nat option) \<Rightarrow> local_node \<Rightarrow> bool \<times> local_node" where
  "ln_listen E pipe opens s =
     (if pn_state (ln_self s) \<noteq> STATE_CLOSED then (False, s)
      else case ln_connectSelf pipe s of
        (False, s) \<Rightarrow> (False, s)
      | (True, s) \<Rightarrow>
          (case ln_openListeners E opens (nx_descriptions (pn_data (ln_self s))) s of
             (False, s) \<Rightarrow> (False, s)
           | (True, s) \<Rightarrow> (True, ln_setState STATE_LISTENING s)))"

text \<open>The arguments of the command line: descriptions to listen on, and strings for the global variables.\<close>

fun ln_arguments :: "uint16 \<Rightarrow> string list \<Rightarrow> connection_description list \<times> string list" where
  "ln_arguments port [] = ([], [])"
| "ln_arguments port (arg # args) =
     (if arg = ''--eq-listen'' \<or> arg = ''--co-listen'' then
        (case args of
           [] \<Rightarrow> ([], [])
         | data # args' \<Rightarrow>
             if data \<noteq> [] \<and> hd data = CHR ''-'' then ln_arguments port args
             else (case cd_fromString (cd_new\<lparr>cd_port := port\<rparr>) data of
                     (ok, d, rest) \<Rightarrow> (case ln_arguments port args' of (ds, gs) \<Rightarrow> (if ok then d # ds else ds, gs))))
      else if arg = ''--co-globals'' then
        (case args of
           [] \<Rightarrow> ([], [])
         | data # args' \<Rightarrow>
             if data \<noteq> [] \<and> hd data = CHR ''-'' then ln_arguments port args
             else (case ln_arguments port args' of (ds, gs) \<Rightarrow> (ds, data # gs)))
      else ln_arguments port args)"

definition ln_initLocal ::
  "node_env \<Rightarrow> uint16 \<Rightarrow> string list \<Rightarrow> (nat \<times> nat) option \<Rightarrow> (connection_description \<Rightarrow> nat option) \<Rightarrow> local_node \<Rightarrow> bool \<times> local_node" where
  "ln_initLocal E port args pipe opens s =
     ln_listen E pipe opens (ln_describe (fold nx_addConnectionDescription (fst (ln_arguments port args))) 0 s)"

text \<open>What the receiver thread does for an event of its connection set, and the number of errors in a row.\<close>

datatype receiver_action = HandleConnect | HandleData | HandleDisconnect | RedispatchCommands | Ignore | Unimplemented

definition ln_receiverAction :: "select_event \<Rightarrow> nat \<Rightarrow> receiver_action \<times> nat" where
  "ln_receiverAction event nErrors =
     (case event of
        EVENT_CONNECT \<Rightarrow> (HandleConnect, 0)
      | EVENT_DATA \<Rightarrow> (HandleData, 0)
      | EVENT_DISCONNECT \<Rightarrow> (HandleDisconnect, 0)
      | EVENT_INVALID_HANDLE \<Rightarrow> (HandleDisconnect, 0)
      | EVENT_TIMEOUT \<Rightarrow> (Ignore, 0)
      | EVENT_ERROR \<Rightarrow> (if nErrors + 1 > 100 then HandleDisconnect else Ignore, nErrors + 1)
      | EVENT_SELECT_ERROR \<Rightarrow> (if nErrors + 1 > 10 then Unimplemented else Ignore, nErrors + 1)
      | EVENT_INTERRUPT \<Rightarrow> (RedispatchCommands, 0)
      | EVENT_NONE \<Rightarrow> (Unimplemented, 0))"

text \<open>
  Leaving the receiver thread: the pipe first, then all connections left, the last one first. The lookup with \<^verbatim>\<open>connectionNodes[]\<close> leaves an
  empty entry for a connection without node, in a table that is cleared right afterwards.
\<close>

function ln_closeAll :: "local_node \<Rightarrow> local_node \<times> node_effect list" where
  "ln_closeAll s =
     (if ln_incoming s = [] then (s, [])
      else let c = last (ln_incoming s);
               (s1, es1) = (case map_of (ln_connectionNodes s) c of None \<Rightarrow> (s, []) | Some r \<Rightarrow> ln_closeNode r s);
               (s2, es2) = ln_removeConnection c s1;
               (s3, es3) = ln_closeAll s2
           in (s3, es1 @ es2 @ es3))"
  by auto

text \<open>Connections only leave the set by being closed.\<close>

definition closes :: "local_node \<Rightarrow> node_effect list \<Rightarrow> local_node \<Rightarrow> bool" where
  "closes s es s' \<longleftrightarrow>
     mset (ln_incoming s') \<subseteq># mset (ln_incoming s) \<and>
     (\<forall>c \<in> set (ln_incoming s) - set (ln_incoming s'). Close c \<in> set es)"

lemma closes_refl: "closes s es s"
  by (simp add: closes_def)

lemma closes_trans: "closes s es s1 \<Longrightarrow> closes s1 es' s' \<Longrightarrow> closes s (es @ es') s'"
  unfolding closes_def by (auto intro: subset_mset.order_trans)

lemma closes_less:
  assumes "closes s es s'" and "c \<in> set (ln_incoming s)" and "c \<notin> set (ln_incoming s')"
  shows "length (ln_incoming s') < length (ln_incoming s)"
proof -
  have "mset (ln_incoming s') \<subset># mset (ln_incoming s)"
    using assms by (metis closes_def set_mset_mset subset_mset.le_neq_trans)
  then show ?thesis by (metis mset_subset_size size_mset)
qed

lemma removeConnection_closes: "ln_removeConnection c s = (s', es) \<Longrightarrow> closes s es s'"
  by (auto simp: ln_removeConnection_def closes_def mset_remove1 in_set_remove1 subset_eq_diff_conv intro: ccontr)

lemma dropConnection_closes: "ln_dropConnection oc s = (s', es) \<Longrightarrow> closes s es s'"
proof (cases oc)
  case (Some c)
  moreover assume "ln_dropConnection oc s = (s', es)"
  ultimately obtain s1 where "ln_removeConnection c s = (s1, es)" "s' = s1\<lparr>ln_connectionNodes := AList.delete c (ln_connectionNodes s1)\<rparr>"
    by (auto simp: ln_dropConnection_def split: prod.splits)
  then show ?thesis using removeConnection_closes [of c s s1 es] by (simp add: closes_def)
qed (auto simp: ln_dropConnection_def closes_refl)

lemma closeNode_closes: "ln_closeNode r s = (s', es) \<Longrightarrow> closes s es s'"
proof -
  assume run: "ln_closeNode r s = (s', es)"
  obtain s1 es1 where 1: "ln_dropConnection (pn_outgoing (ln_peers s ! r)) (ln_update r pn_disconnect s) = (s1, es1)" by force
  obtain s2 es2 where 2: "ln_dropConnection (pn_outMulticast (ln_peers s ! r)) s1 = (s2, es2)" by force
  have "closes (ln_update r pn_disconnect s) (es1 @ es2) s2" using closes_trans dropConnection_closes 1 2 by blast
  moreover have "ln_incoming s' = ln_incoming s2" "es = es1 @ es2 @ [RemoveInstanceData (pn_id (ln_peers s ! r))]"
    using run by (auto simp: ln_closeNode_def Let_def 1 2)
  ultimately show ?thesis by (auto simp: closes_def ln_update_def)
qed

lemma closeAll_step_closes:
  assumes "(case map_of (ln_connectionNodes s) c of None \<Rightarrow> (s, []) | Some r \<Rightarrow> ln_closeNode r s) = (s1, es1)" and "ln_removeConnection c s1 = (s2, es2)"
  shows "closes s (es1 @ es2) s2" and "c \<in> set (ln_incoming s) \<Longrightarrow> length (ln_incoming s2) < length (ln_incoming s)"
proof -
  have first: "closes s es1 s1" using assms(1) closeNode_closes closes_refl by (auto split: option.splits)
  then show "closes s (es1 @ es2) s2" using removeConnection_closes [OF assms(2)] closes_trans by blast
  assume c: "c \<in> set (ln_incoming s)"
  show "length (ln_incoming s2) < length (ln_incoming s)"
  proof (cases "c \<in> set (ln_incoming s1)")
    case True
    then have "length (ln_incoming s2) < length (ln_incoming s1)"
      using assms(2) length_pos_if_in_set [OF True] by (auto simp: ln_removeConnection_def length_remove1)
    moreover have "length (ln_incoming s1) \<le> length (ln_incoming s)" using first by (metis closes_def size_mset size_mset_mono)
    ultimately show ?thesis by simp
  next
    case False
    with closes_less [OF first c] assms(2) show ?thesis by (auto simp: ln_removeConnection_def remove1_idem)
  qed
qed

termination ln_closeAll
proof (relation "measure (\<lambda>s. length (ln_incoming s))", goal_cases)
  case (2 s c p s1 es1 q s2 es2)
  have "(case map_of (ln_connectionNodes s) c of None \<Rightarrow> (s, []) | Some r \<Rightarrow> ln_closeNode r s) = (s1, es1)" "ln_removeConnection c s1 = (s2, es2)"
    using 2 by simp_all
  from closeAll_step_closes(2) [OF this] 2 show ?case by simp
qed simp

declare ln_closeAll.simps [simp del]

text \<open>What the receiver thread does when it has left its loop, and the cleanup.\<close>

definition ln_leaveReceiver :: "nat \<Rightarrow> local_node \<Rightarrow> local_node \<times> node_effect list" where
  "ln_leaveReceiver pipe s =
     (let (s, es) = ln_dropConnection (Some pipe) s;
          s = ln_update 0 pn_disconnect s;
          (s, es') = ln_closeAll s
      in (s, es @ es'))"

definition ln_cleanup :: "local_node \<Rightarrow> local_node" where
  "ln_cleanup s = s\<lparr>ln_connectionNodes := [], ln_nodes := []\<rparr>"

section \<open>Shutdown closes everything\<close>

lemma closeAll_closes: "ln_closeAll s = (s', es) \<Longrightarrow> ln_incoming s' = [] \<and> closes s es s'"
proof (induction s arbitrary: s' es rule: ln_closeAll.induct)
  case (1 s)
  show ?case
  proof (cases "ln_incoming s = []")
    case True
    with "1.prems" show ?thesis by (simp add: ln_closeAll.simps [of s] closes_refl)
  next
    case False
    define c where "c = last (ln_incoming s)"
    obtain s1 es1 where s1: "(case map_of (ln_connectionNodes s) c of None \<Rightarrow> (s, []) | Some r \<Rightarrow> ln_closeNode r s) = (s1, es1)" by force
    obtain s2 es2 where s2: "ln_removeConnection c s1 = (s2, es2)" by force
    obtain s3 es3 where s3: "ln_closeAll s2 = (s3, es3)" by force
    have res: "s' = s3" "es = (es1 @ es2) @ es3" using "1.prems" False by (simp_all add: ln_closeAll.simps [of s] Let_def s1 s2 s3 flip: c_def)
    have "ln_incoming s3 = [] \<and> closes s2 es3 s3" using "1.IH" [OF False c_def s1 [symmetric] refl s2 [symmetric] refl s3] .
    then show ?thesis using closes_trans [OF closeAll_step_closes(1) [OF s1 s2]] res by blast
  qed
qed

text \<open>A node is closed, or will be when its own connection is reached.\<close>

definition closing_due :: "nat \<Rightarrow> nat \<Rightarrow> local_node \<Rightarrow> bool" where
  "closing_due r c s \<longleftrightarrow>
     r < length (ln_peers s) \<and>
     (pn_state (ln_peers s ! r) = STATE_CLOSED \<or>
      c \<in> set (ln_incoming s) \<and> map_of (ln_connectionNodes s) c = Some r \<and>
      (\<forall>r' < length (ln_peers s). r' \<noteq> r \<longrightarrow> pn_outgoing (ln_peers s ! r') \<noteq> Some c \<and> pn_outMulticast (ln_peers s ! r') \<noteq> Some c))"

lemma dropConnection_frame:
  assumes "ln_dropConnection oc s = (s', es)"
  shows "ln_peers s' = ln_peers s" and "oc \<noteq> Some c \<Longrightarrow> c \<in> set (ln_incoming s) \<Longrightarrow> c \<in> set (ln_incoming s')"
    and "oc \<noteq> Some c \<Longrightarrow> map_of (ln_connectionNodes s') c = map_of (ln_connectionNodes s) c"
  using assms by (auto simp: ln_dropConnection_def ln_removeConnection_def delete_conv' split: option.splits)

lemma closeNode_frame:
  assumes "ln_closeNode q s = (s', es)"
  shows "ln_peers s' = (ln_peers s)[q := pn_disconnect (ln_peers s ! q)]"
    and "pn_outgoing (ln_peers s ! q) \<noteq> Some c \<Longrightarrow> pn_outMulticast (ln_peers s ! q) \<noteq> Some c \<Longrightarrow>
      (c \<in> set (ln_incoming s) \<longrightarrow> c \<in> set (ln_incoming s')) \<and> map_of (ln_connectionNodes s') c = map_of (ln_connectionNodes s) c"
proof -
  obtain s1 es1 where 1: "ln_dropConnection (pn_outgoing (ln_peers s ! q)) (ln_update q pn_disconnect s) = (s1, es1)" by force
  obtain s2 es2 where 2: "ln_dropConnection (pn_outMulticast (ln_peers s ! q)) s1 = (s2, es2)" by force
  have s': "ln_peers s' = ln_peers s2" "ln_incoming s' = ln_incoming s2" "ln_connectionNodes s' = ln_connectionNodes s2"
    using assms by (auto simp: ln_closeNode_def Let_def 1 2)
  show "ln_peers s' = (ln_peers s)[q := pn_disconnect (ln_peers s ! q)]"
    using s'(1) dropConnection_frame(1) [OF 1] dropConnection_frame(1) [OF 2] by (simp add: ln_update_def)
  show "pn_outgoing (ln_peers s ! q) \<noteq> Some c \<Longrightarrow> pn_outMulticast (ln_peers s ! q) \<noteq> Some c \<Longrightarrow>
      (c \<in> set (ln_incoming s) \<longrightarrow> c \<in> set (ln_incoming s')) \<and> map_of (ln_connectionNodes s') c = map_of (ln_connectionNodes s) c"
    using s'(2,3) dropConnection_frame(2,3) [OF 1, of c] dropConnection_frame(2,3) [OF 2, of c] by (auto simp: ln_update_def)
qed

lemma closing_due_step:
  assumes "closing_due r c s" and "(case map_of (ln_connectionNodes s) d of None \<Rightarrow> (s, []) | Some r \<Rightarrow> ln_closeNode r s) = (s1, es1)"
    and "ln_removeConnection d s1 = (s2, es2)" and "\<forall>r \<in> ran (map_of (ln_connectionNodes s)). r < length (ln_peers s)"
  shows "closing_due r c s2"
proof (cases "map_of (ln_connectionNodes s) d")
  case None
  then have "s1 = s" using assms(2) by simp
  with None assms(1,3) show ?thesis by (cases "c = d") (auto simp: closing_due_def ln_removeConnection_def in_set_remove1)
next
  case (Some q)
  then have run: "ln_closeNode q s = (s1, es1)" and q: "q < length (ln_peers s)" using assms(2,4) by (auto simp: ran_def)
  note f = closeNode_frame [OF run]
  have peers: "ln_peers s2 = (ln_peers s)[q := pn_disconnect (ln_peers s ! q)]" using f(1) assms(3) by (auto simp: ln_removeConnection_def)
  show ?thesis
  proof (cases "q = r \<or> pn_state (ln_peers s ! r) = STATE_CLOSED")
    case True
    then show ?thesis using assms(1) q by (auto simp: closing_due_def peers nth_list_update pn_disconnect_def)
  next
    case False
    with assms(1) have c: "c \<in> set (ln_incoming s)" "map_of (ln_connectionNodes s) c = Some r" "r < length (ln_peers s)"
      "\<forall>r' < length (ln_peers s). r' \<noteq> r \<longrightarrow> pn_outgoing (ln_peers s ! r') \<noteq> Some c \<and> pn_outMulticast (ln_peers s ! r') \<noteq> Some c"
      by (auto simp: closing_due_def)
    have "c \<noteq> d" using Some c(2) False by auto
    moreover have "c \<in> set (ln_incoming s1)" "map_of (ln_connectionNodes s1) c = Some r" using f(2) [of c] c q False by auto
    ultimately have "c \<in> set (ln_incoming s2)" "map_of (ln_connectionNodes s2) c = Some r" using assms(3) by (auto simp: ln_removeConnection_def)
    then show ?thesis using c(3,4) q by (auto simp: closing_due_def peers nth_list_update pn_disconnect_def)
  qed
qed

lemma ln_peers_update:
  "ln_peers (ln_update r f s) ! q = (if q = r \<and> r < length (ln_peers s) then f (ln_peers s ! r) else ln_peers s ! q)"
  "length (ln_peers (ln_update r f s)) = length (ln_peers s)" "ln_incoming (ln_update r f s) = ln_incoming s"
  "ln_connectionNodes (ln_update r f s) = ln_connectionNodes s" "ln_nodes (ln_update r f s) = ln_nodes s"
  by (cases "r < length (ln_peers s)") (auto simp: ln_update_def nth_list_update list_update_beyond)

definition refs_ok :: "local_node \<Rightarrow> bool" where
  "refs_ok s \<longleftrightarrow> (\<forall>r \<in> ran (map_of (ln_connectionNodes s)). r < length (ln_peers s))"

lemma refs_ok_smaller: "refs_ok s \<Longrightarrow> length (ln_peers s') = length (ln_peers s) \<Longrightarrow>
    map_of (ln_connectionNodes s') \<subseteq>\<^sub>m map_of (ln_connectionNodes s) \<Longrightarrow> refs_ok s'"
  by (force simp: refs_ok_def ran_def map_le_def dom_def)

lemma delete_map_le: "map_of (AList.delete k xs) \<subseteq>\<^sub>m map_of xs"
  by (simp add: delete_conv' map_le_def)

lemma dropConnection_refs: "refs_ok s \<Longrightarrow> ln_dropConnection oc s = (s', es) \<Longrightarrow> refs_ok s'"
  by (rule refs_ok_smaller [of s]) (auto simp: ln_dropConnection_def ln_removeConnection_def delete_map_le split: option.splits)

lemma closeNode_refs:
  assumes "refs_ok s" and "ln_closeNode q s = (s', es)"
  shows "refs_ok s'"
proof -
  obtain s1 es1 where 1: "ln_dropConnection (pn_outgoing (ln_peers s ! q)) (ln_update q pn_disconnect s) = (s1, es1)" by force
  obtain s2 es2 where 2: "ln_dropConnection (pn_outMulticast (ln_peers s ! q)) s1 = (s2, es2)" by force
  have "refs_ok (ln_update q pn_disconnect s)" using assms(1) by (simp add: refs_ok_def ln_update_def)
  then have "refs_ok s2" using dropConnection_refs 1 2 by blast
  moreover have "ln_peers s' = ln_peers s2" "ln_connectionNodes s' = ln_connectionNodes s2" using assms(2) by (auto simp: ln_closeNode_def Let_def 1 2)
  ultimately show ?thesis by (simp add: refs_ok_def)
qed

lemma closeAll_due: "ln_closeAll s = (s', es) \<Longrightarrow> refs_ok s \<Longrightarrow> closing_due r c s \<Longrightarrow> pn_state (ln_peers s' ! r) = STATE_CLOSED"
proof (induction s arbitrary: s' es rule: ln_closeAll.induct)
  case (1 s)
  show ?case
  proof (cases "ln_incoming s = []")
    case True
    with "1.prems" show ?thesis by (auto simp: ln_closeAll.simps [of s] closing_due_def)
  next
    case False
    define d where "d = last (ln_incoming s)"
    obtain s1 es1 where s1: "(case map_of (ln_connectionNodes s) d of None \<Rightarrow> (s, []) | Some r \<Rightarrow> ln_closeNode r s) = (s1, es1)" by force
    obtain s2 es2 where s2: "ln_removeConnection d s1 = (s2, es2)" by force
    obtain s3 es3 where s3: "ln_closeAll s2 = (s3, es3)" by force
    have "s' = s3" using "1.prems" False by (simp add: ln_closeAll.simps [of s] Let_def s1 s2 s3 flip: d_def)
    moreover have "refs_ok s1" using "1.prems"(2) s1 closeNode_refs by (auto split: option.splits)
    then have "refs_ok s2" using s2 by (auto simp: ln_removeConnection_def refs_ok_def)
    moreover have "closing_due r c s2" using closing_due_step [OF "1.prems"(3) s1 s2] "1.prems"(2) by (simp add: refs_ok_def)
    ultimately show ?thesis using "1.IH" [OF False d_def s1 [symmetric] refl s2 [symmetric] refl s3] by simp
  qed
qed

lemma leaveReceiver_closes:
  assumes "ln_leaveReceiver pipe s = (s', es)" and "c \<in> set (ln_incoming s)"
  shows "ln_incoming s' = [] \<and> Close c \<in> set es"
proof -
  obtain s1 es1 where 1: "ln_dropConnection (Some pipe) s = (s1, es1)" by force
  obtain s2 es2 where 2: "ln_closeAll (ln_update 0 pn_disconnect s1) = (s2, es2)" by force
  have "s' = s2" "es = es1 @ es2" using assms(1) by (simp_all add: ln_leaveReceiver_def 1 2)
  moreover have "ln_incoming s2 = []" using closeAll_closes [OF 2] ..
  moreover have "closes s1 es2 s2" using closeAll_closes [OF 2] unfolding closes_def ln_peers_update by (rule conjunct2)
  from closes_trans [OF dropConnection_closes [OF 1] this] have "\<forall>c \<in> set (ln_incoming s) - set (ln_incoming s2). Close c \<in> set (es1 @ es2)"
    unfolding closes_def by blast
  ultimately show ?thesis using assms(2) by simp
qed

text \<open>What leaving the receiver thread does to the nodes: those of connections that no other node uses are closed.\<close>

lemma leaveReceiver_due:
  assumes "ln_leaveReceiver pipe s = (s', es)" and "refs_ok s" and "c \<noteq> pipe" and "c \<in> set (ln_incoming s)"
    and "map_of (ln_connectionNodes s) c = Some r"
    and "\<forall>r' < length (ln_peers s). r' \<noteq> r \<longrightarrow> pn_outgoing (ln_peers s ! r') \<noteq> Some c \<and> pn_outMulticast (ln_peers s ! r') \<noteq> Some c"
  shows "pn_state (ln_peers s' ! r) = STATE_CLOSED"
proof -
  obtain s2 es2 where 1: "ln_dropConnection (Some pipe) s = (s2, es2)" by force
  obtain s3 es3 where 2: "ln_closeAll (ln_update 0 pn_disconnect s2) = (s3, es3)" by force
  have "s' = s3" using assms(1) by (simp add: ln_leaveReceiver_def 1 2)
  have "refs_ok (ln_update 0 pn_disconnect s2)" using dropConnection_refs [OF assms(2) 1] by (simp add: refs_ok_def ln_update_def)
  moreover have "r < length (ln_peers s)" using assms(2,5) by (auto simp: refs_ok_def ran_def)
  then have "closing_due r c (ln_update 0 pn_disconnect s2)"
    using dropConnection_frame [OF 1] assms(3-6) by (auto simp: closing_due_def ln_peers_update pn_disconnect_def)
  ultimately show ?thesis using closeAll_due [OF 2] by (simp add: \<open>s' = s3\<close>)
qed

definition sample_host :: local_node where
  "sample_host =
     \<lparr>ln_peers = [(pn_new 1 \<lparr>nx_id = 7, nx_bigEndian = False, nx_descriptions = []\<rparr>)\<lparr>pn_state := STATE_LISTENING, pn_outgoing := Some 1\<rparr>,
                  pn_connect 2 (pn_new 1 \<lparr>nx_id = 8, nx_bigEndian = False, nx_descriptions = []\<rparr>)],
      ln_nodes = [(7, 0), (8, 1)], ln_connectionNodes = [(0, 0), (2, 1)], ln_incoming = [0, 2], ln_requests = [], ln_results = []\<rparr>"

section \<open>Node data tell how to reach a node\<close>

text \<open>What a peer answers about a node it is connected to becomes a node with the same data.\<close>

lemma node_data_exchange:
  assumes "id_format_ok (ne_format E)" and "ln_getNode nodeID a = Some r" and "nx_printable (pn_data (ln_peers a ! r))"
    and "map_of (ln_nodes b) nodeID = None" and "pn_type (ln_peers a ! r) \<noteq> NODETYPE_INVALID" and "ne_creates E (pn_type (ln_peers a ! r))"
    and "ln_cmdGetNodeDataReply E fresh (ln_cmdGetNodeData E nodeID requestID a) b = (x, b')"
  shows "x = Some (length (ln_peers b)) \<and> b' = b\<lparr>ln_peers := ln_peers b @ [pn_new (pn_type (ln_peers a ! r)) (pn_data (ln_peers a ! r))]\<rparr>"
  using assms nx_deserialize_node [OF assms(1,3), of "ne_major E" "ne_minor E" "ne_major E" "ne_minor E" fresh]
  by (auto simp: ln_cmdGetNodeDataReply_def ln_cmdGetNodeData_def ln_createNode_def ln_deserialize_def ln_update_def pn_new_def nth_append)

section \<open>Connecting by identifier\<close>

lemma connectNode_ok: "ln_connectNode E a r s = (CONNECT_OK, s', es) \<Longrightarrow> pn_isReachable (ln_peers s' ! r)"
  by (auto simp: ln_connectNode_def ln_connectResult_def pn_isReachable_def split: if_splits option.splits prod.splits)

lemma connectTries_reachable: "ln_connectTries E nodeID as r s = (Some q, s', es) \<Longrightarrow> pn_isReachable (ln_peers s' ! q)"
proof (induction as arbitrary: r s es)
  case (Cons a as)
  then show ?case using connectNode_ok
    by (auto split: prod.splits connect_result.splits option.splits)
qed (auto split: if_splits)

lemma connectVia_reachable: "ln_connectVia E nodeID ask as s = (Some q, s', es) \<Longrightarrow> pn_isReachable (ln_peers s' ! q)"
  using connectTries_reachable by (auto simp: ln_connectVia_def Let_def split: option.splits prod.splits if_splits)

lemma askPeers_reachable: "ln_askPeers E nodeID ask as ps s = (Some q, s', es) \<Longrightarrow> pn_isReachable (ln_peers s' ! q)"
proof (induction ps arbitrary: s es)
  case (Cons p ps)
  then show ?case using connectVia_reachable by (auto split: prod.splits option.splits)
qed simp

lemma findNode_reachable: "ln_findNode nodeID s = Some q \<Longrightarrow> pn_isReachable (ln_peers s ! q)"
  by (auto simp: ln_findNode_def find_Some_iff)

lemma zeroconf_other: "\<forall>i \<in> set is. read_id (ne_format E) (zc_name i) \<noteq> nodeID \<Longrightarrow> ln_connectFromZeroconf E nodeID is s = (None, s, [])"
  by (induction "is") auto

text \<open>
  A node returned by \<^verbatim>\<open>connect( nodeID )\<close> is reachable, whatever the peers answer and however many attempts fail,
  as long as zeroconf does not announce it.
\<close>

theorem connect_by_id:
  assumes "ln_connectID E nodeID ask as instances s = (Some r, s', es)" and "\<forall>i \<in> set instances. read_id (ne_format E) (zc_name i) \<noteq> nodeID"
  shows "pn_isReachable (ln_peers s' ! r)"
  using assms(1) findNode_reachable askPeers_reachable zeroconf_other [OF assms(2)]
  by (auto simp: ln_connectID_def split: option.splits prod.splits)

definition plain_env :: node_env where
  "plain_env = \<lparr>ne_format = decimal_ids, ne_major = 1, ne_minor = 1, ne_undefined = - 1, ne_creates = (\<lambda>_. True), ne_multicast = (\<lambda>_. False),
     ne_descr = (\<lambda>_. cd_new)\<rparr>"

theorem connect_by_id_witness: "pn_isReachable (ln_peers sample_host ! 1)"
proof -
  have "ln_connectID plain_env 8 (\<lambda>_ s. (None, s)) (\<lambda>_. []) [] sample_host = (Some 1, sample_host, [])"
    by (simp add: ln_connectID_def ln_findNode_def ln_getNodes_def sample_host_def pn_isReachable_def pn_connect_def pn_new_def pn_id_def)
  from connect_by_id [OF this] show ?thesis by simp
qed

text \<open>A node found by zeroconf is returned when it could not be connected.\<close>

lemma zeroconf_returns_unreachable:
  assumes "read_id (ne_format E) (zc_name i) = nodeID" and "zc_get i ''co_type'' \<noteq> []" and "ne_creates E (of_int (atoi (zc_get i ''co_type'')))"
    and "\<forall>d. at_opens (zc_attempt i) d = None"
  shows "\<exists>r s'. ln_connectFromZeroconf E nodeID [i] s = (Some r, s', []) \<and> \<not> pn_isReachable (ln_peers s' ! r)"
proof -
  have "first_open (at_opens (zc_attempt i)) ds = None" for ds using assms(4) by (induction ds) auto
  then show ?thesis using assms(1-3)
    by (auto simp: ln_createNode_def ln_connectNode_def Let_def ln_peers_update pn_new_def pn_isReachable_def nth_append)
qed

section \<open>Custom commands\<close>

text \<open>A handler stays registered: later registrations for the same command are refused.\<close>

lemma command_handler_first:
  assumes "ln_registerCommandHandler command func queue hs = (True, hs')"
  shows "ln_cmdCommand command (fold (\<lambda>(c, f, q) hs. snd (ln_registerCommandHandler c f q hs)) later hs') =
    (case queue of None \<Rightarrow> Called func | Some q \<Rightarrow> PushedTo q)"
proof -
  have "map_of (fold (\<lambda>(c, f, q) hs. snd (ln_registerCommandHandler c f q hs)) later hs) command = Some (func, queue)"
    if "map_of hs command = Some (func, queue)" for hs
    using that
  proof (induction later arbitrary: hs)
    case (Cons x later)
    obtain c f q where "x = (c, f, q)" by (cases x)
    with Cons.prems have "map_of (snd (ln_registerCommandHandler c f q hs)) command = Some (func, queue)"
      by (auto simp: ln_registerCommandHandler_def split: option.splits)
    from Cons.IH [OF this] show ?case by (simp add: \<open>x = (c, f, q)\<close>)
  qed simp
  moreover have "map_of hs' command = Some (func, queue)" using assms by (auto simp: ln_registerCommandHandler_def split: option.splits)
  ultimately show ?thesis by (simp add: ln_cmdCommand_def split: option.splits)
qed

section \<open>Everybody knows the listeners of a node\<close>

lemma serveRequest_peers: "ln_peers (ln_serveRequest requestID v s) = ln_peers s"
  by (simp add: ln_serveRequest_def split: option.splits)

lemma listener_data:
  assumes "sender < length (ln_peers s)"
  shows "length (ln_peers (ln_cmdListener E sender m s)) = length (ln_peers s)"
    and "pn_data (ln_peers (ln_cmdListener E sender m s) ! sender) =
      (case m of
         ADD_LISTENER c data \<Rightarrow> nx_addConnectionDescription (fst (snd (cd_fromString cd_new data)))
       | REMOVE_LISTENER requestID c data \<Rightarrow> \<lambda>d. snd (nx_removeConnectionDescription (fst (snd (cd_fromString cd_new data))) d))
      (pn_data (ln_peers s ! sender))"
proof -
  have set_conn: "ln_peers (ln_setConnection c r s) = ln_peers s" for c r s by (simp add: ln_setConnection_def)
  have multicast: "pn_data (pn_addMulticast r c n) = pn_data n" "pn_data (pn_removeMulticast c n) = pn_data n" for r c n
    by (simp_all add: pn_addMulticast_def pn_removeMulticast_def)
  show "length (ln_peers (ln_cmdListener E sender m s)) = length (ln_peers s)"
    by (simp add: ln_cmdListener_def ln_cmdAddListener_def ln_cmdRemoveListener_def ln_listenOn_def ln_describe_def Let_def serveRequest_peers set_conn ln_peers_update
        split: listener_command.splits)
  show "pn_data (ln_peers (ln_cmdListener E sender m s) ! sender) =
      (case m of
         ADD_LISTENER c data \<Rightarrow> nx_addConnectionDescription (fst (snd (cd_fromString cd_new data)))
       | REMOVE_LISTENER requestID c data \<Rightarrow> \<lambda>d. snd (nx_removeConnectionDescription (fst (snd (cd_fromString cd_new data))) d))
      (pn_data (ln_peers s ! sender))"
    using assms by (cases m; cases "sender = 0")
      (auto simp: ln_cmdListener_def ln_cmdAddListener_def ln_cmdRemoveListener_def ln_listenOn_def ln_describe_def Let_def serveRequest_peers
        set_conn multicast ln_peers_update)
qed

lemma listeners_agree:
  assumes "r < length (ln_peers b)" and "0 < length (ln_peers a)" and "pn_data (ln_peers b ! r) = pn_data (ln_self a)"
  shows "pn_data (ln_peers (fold (ln_cmdListener E r) ms b) ! r) = pn_data (ln_self (fold (ln_cmdListener E 0) ms a))"
  using assms
proof (induction ms arbitrary: a b)
  case (Cons m ms)
  have "pn_data (ln_peers (ln_cmdListener E r m b) ! r) = pn_data (ln_self (ln_cmdListener E 0 m a))"
    using listener_data(2) [OF Cons.prems(1), of E m] listener_data(2) [OF Cons.prems(2), of E m] Cons.prems(3) by (simp add: ln_self_def)
  moreover have "r < length (ln_peers (ln_cmdListener E r m b))" "0 < length (ln_peers (ln_cmdListener E 0 m a))"
    using listener_data(1) [OF Cons.prems(1)] listener_data(1) [OF Cons.prems(2)] Cons.prems by simp_all
  ultimately show ?case using Cons.IH [of "ln_cmdListener E r m b" "ln_cmdListener E 0 m a"] by simp
qed (simp add: ln_self_def)

text \<open>A listener added and removed again leaves the descriptions as they were, unless the node has another one like it.\<close>

lemma listener_add_remove:
  assumes "cd_printable (ne_descr E c)" and "ne_descr E c \<notin> set (nx_descriptions (pn_data (ln_peers s ! sender)))" and "sender < length (ln_peers s)"
  shows "pn_data (ln_peers (ln_cmdListener E sender (REMOVE_LISTENER requestID c (cd_serialize (ne_descr E c)))
      (ln_cmdListener E sender (ADD_LISTENER c (cd_serialize (ne_descr E c))) s)) ! sender) = pn_data (ln_peers s ! sender)"
proof -
  have parse: "cd_fromString cd_new (cd_serialize (ne_descr E c)) = (True, ne_descr E c, [])"
    using cd_fromString_serialize [OF assms(1), of cd_new "[]"] by simp
  have erase: "d \<notin> set ds \<Longrightarrow> erase_description d (ds @ [d]) = Some ds" for d ds by (induction ds) auto
  show ?thesis using listener_data [OF assms(3)] assms(2,3) erase
    by (simp add: listener_data parse nx_addConnectionDescription_def nx_removeConnectionDescription_def)
qed

end
