(* ===== verification/Node_Shutdown.thy ===== *)
theory Node_Shutdown
  imports Node_Operations Dispatch_Table
begin

text \<open>
  Stopping a local node, \<^verbatim>\<open>LocalNode::close\<close> in \<^verbatim>\<open>src/co/localNode.cpp\<close>, with the three threads that take part: the caller
  sends the stop command through the pipe of the node and joins the receiver thread; the receiver thread passes the stop on to the
  command thread, leaves its loop, joins the command thread and closes what is left; the command thread works off its queue,
  \<^verbatim>\<open>src/co/worker.ipp\<close>. Every blocking call is a step that is not enabled, so that a thread that is waited for in vain shows
  as a run that stops before the caller has returned. The events of other connections that the receiver thread gets before the stop
  command are a given list, which ends the waiting of its selections.
\<close>

section \<open>Threads\<close>

text \<open>Commands for the command thread: the one that stops it, and any other.\<close>

datatype thread_command = STOP_CMD | Other_Command nat

text \<open>What a selection of the receiver thread leads to: the handlers of other nodes' connections, a command that is handled in the
  command thread, or the stop command.\<close>

datatype receiver_event =
    Accepted "nat option"
  | Received node_data nat message
  | Disconnected nat
  | Forward nat
  | STOP_RCV

definition ln_cmdStopRcv :: "local_node \<Rightarrow> local_node \<times> thread_command option" where
  "ln_cmdStopRcv s = (ln_setState STATE_CLOSING s, Some STOP_CMD)"

definition ln_cmdStopCmd :: "local_node \<Rightarrow> local_node" where
  "ln_cmdStopCmd = ln_setState STATE_CLOSED"

text \<open>The handler of an event: the state of the node and the command it passes on.\<close>

fun rcv_handle :: "node_env \<Rightarrow> receiver_event \<Rightarrow> local_node \<Rightarrow> local_node \<times> thread_command option" where
  "rcv_handle E (Accepted c) s = (ln_handleConnect c s, None)"
| "rcv_handle E (Received fresh c m) s = (fst (ln_receive E fresh c m s), None)"
| "rcv_handle E (Disconnected c) s = (fst (ln_handleDisconnect E c s), None)"
| "rcv_handle E (Forward n) s = (s, Some (Other_Command n))"
| "rcv_handle E STOP_RCV s = ln_cmdStopRcv s"

fun cmd_handle :: "thread_command \<Rightarrow> local_node \<Rightarrow> local_node" where
  "cmd_handle STOP_CMD s = ln_cmdStopCmd s"
| "cmd_handle (Other_Command n) s = s"

datatype caller_phase = Calling | Joining | Returned bool

datatype receiver_phase = Looping | Dispatching thread_command | Leaving | Receiver_Done

record shutdown =
  sd_node :: local_node
  sd_caller :: caller_phase
  sd_receiver :: receiver_phase
  sd_events :: "receiver_event list"
  sd_queue :: "thread_command command_queue"
  sd_batch :: "thread_command list"
  sd_running :: bool
  sd_effects :: "node_effect list"

definition sd_listening :: "shutdown \<Rightarrow> bool" where
  "sd_listening S \<longleftrightarrow> pn_state (ln_self (sd_node S)) = STATE_LISTENING"

definition sd_closed :: "shutdown \<Rightarrow> bool" where
  "sd_closed S \<longleftrightarrow> pn_state (ln_self (sd_node S)) = STATE_CLOSED"

text \<open>\<^verbatim>\<open>close\<close>.\<close>

definition sd_callerStep :: "shutdown \<Rightarrow> shutdown option" where
  "sd_callerStep S =
     (case sd_caller S of
        Calling \<Rightarrow>
          if \<not> sd_listening S then Some (S\<lparr>sd_caller := Returned False\<rparr>)
          else Some (S\<lparr>sd_events := sd_events S @ [STOP_RCV], sd_caller := Joining\<rparr>)
      | Joining \<Rightarrow>
          if sd_receiver S = Receiver_Done then Some (S\<lparr>sd_node := ln_cleanup (sd_node S), sd_caller := Returned True\<rparr>) else None
      | Returned _ \<Rightarrow> None)"

text \<open>\<^verbatim>\<open>_runReceiverThread\<close>; \<open>pipe\<close> is the end of the pipe it reads the commands of the own node from.\<close>

definition sd_receiverStep :: "node_env \<Rightarrow> nat \<Rightarrow> shutdown \<Rightarrow> shutdown option" where
  "sd_receiverStep E pipe S =
     (case sd_receiver S of
        Looping \<Rightarrow>
          if \<not> sd_listening S then Some (S\<lparr>sd_receiver := Leaving\<rparr>)
          else (case sd_events S of
                  [] \<Rightarrow> None
                | e # es \<Rightarrow>
                    (case rcv_handle E e (sd_node S) of
                       (s, command) \<Rightarrow>
                         Some (S\<lparr>sd_node := s, sd_events := es,
                                 sd_receiver := (case command of None \<Rightarrow> Looping | Some c \<Rightarrow> Dispatching c)\<rparr>)))
      | Dispatching c \<Rightarrow> map_option (\<lambda>q. S\<lparr>sd_queue := q, sd_receiver := Looping\<rparr>) (cq_push c (sd_queue S))
      | Leaving \<Rightarrow>
          if sd_running S then None
          else (case ln_leaveReceiver pipe (sd_node S) of
                  (s, es) \<Rightarrow> Some (S\<lparr>sd_node := s, sd_effects := es, sd_receiver := Receiver_Done\<rparr>))
      | Receiver_Done \<Rightarrow> None)"

text \<open>\<^verbatim>\<open>run\<close> of the command thread, whose \<^verbatim>\<open>stopRunning\<close> is \<^verbatim>\<open>isClosed\<close>.\<close>

definition sd_stopped :: "shutdown \<Rightarrow> shutdown" where
  "sd_stopped S = S\<lparr>sd_batch := [], sd_queue := cq_flush (sd_queue S), sd_running := False\<rparr>"

definition sd_commandStep :: "shutdown \<Rightarrow> shutdown option" where
  "sd_commandStep S =
     (if \<not> sd_running S then None
      else case sd_batch S of
        [] \<Rightarrow>
          if sd_closed S then Some (sd_stopped S)
          else map_option (\<lambda>(commands, q). S\<lparr>sd_batch := commands, sd_queue := q\<rparr>) (cq_popAll (sd_queue S))
      | c # cs \<Rightarrow>
          (let S = S\<lparr>sd_node := cmd_handle c (sd_node S), sd_batch := cs\<rparr>
           in Some (if sd_closed S then sd_stopped S else S)))"

inductive sd_step :: "node_env \<Rightarrow> nat \<Rightarrow> shutdown \<Rightarrow> shutdown \<Rightarrow> bool" for E pipe where
  caller: "sd_callerStep S = Some S' \<Longrightarrow> sd_step E pipe S S'"
| receiver: "sd_receiverStep E pipe S = Some S' \<Longrightarrow> sd_step E pipe S S'"
| command: "sd_commandStep S = Some S' \<Longrightarrow> sd_step E pipe S S'"

section \<open>Every run ends\<close>

text \<open>What the threads have left to do: every event may become a command that is queued, popped and handled.\<close>

fun caller_work :: "caller_phase \<Rightarrow> nat" where
  "caller_work Calling = 10" | "caller_work Joining = 1" | "caller_work (Returned b) = 0"

fun receiver_work :: "receiver_phase \<Rightarrow> nat" where
  "receiver_work Looping = 3" | "receiver_work (Dispatching c) = 7" | "receiver_work Leaving = 2" | "receiver_work Receiver_Done = 0"

definition sd_work :: "shutdown \<Rightarrow> nat" where
  "sd_work S =
     caller_work (sd_caller S) + receiver_work (sd_receiver S) + 5 * length (sd_events S) + 3 * length (cq_commands (sd_queue S)) +
     2 * length (sd_batch S) + of_bool (sd_running S)"

lemma sd_step_work: "sd_step E pipe S S' \<Longrightarrow> sd_work S' < sd_work S"
proof (induction rule: sd_step.induct)
  case (caller S S')
  then show ?case by (auto simp: sd_callerStep_def sd_work_def split: caller_phase.splits if_splits)
next
  case (receiver S S')
  then show ?case
    by (auto simp: sd_receiverStep_def sd_work_def cq_push_def
        split: receiver_phase.splits if_splits list.splits prod.splits option.splits)
next
  case (command S S')
  then show ?case
    by (auto simp: sd_commandStep_def sd_stopped_def sd_work_def cq_popAll_def cq_isEmpty_def cq_flush_def Let_def
        split: if_splits list.splits)
qed

lemma sd_steps_work: "(sd_step E pipe ^^ n) S S' \<Longrightarrow> n + sd_work S' \<le> sd_work S"
  by (induction n arbitrary: S') (auto dest!: sd_step_work, fastforce)

lemma sd_run_ends: "\<exists>S'. (sd_step E pipe)\<^sup>*\<^sup>* S S' \<and> \<not> (\<exists>S''. sd_step E pipe S' S'')"
proof (induction "sd_work S" arbitrary: S rule: less_induct)
  case less
  show ?case
  proof (cases "\<exists>S''. sd_step E pipe S S''")
    case True
    then obtain S1 where "sd_step E pipe S S1" by blast
    with less [OF sd_step_work [OF this]] show ?thesis by (meson converse_rtranclp_into_rtranclp)
  qed auto
qed

section \<open>No thread is waited for in vain\<close>

text \<open>The node after the first events; while they are handled it stays listening, and its tables refer to node objects.\<close>

definition rcv_run :: "node_env \<Rightarrow> receiver_event list \<Rightarrow> local_node \<Rightarrow> local_node" where
  "rcv_run E es s = fold (\<lambda>e s. fst (rcv_handle E e s)) es s"

definition rcv_ok :: "node_env \<Rightarrow> receiver_event list \<Rightarrow> local_node \<Rightarrow> bool" where
  "rcv_ok E es s \<longleftrightarrow>
     STOP_RCV \<notin> set es \<and>
     (\<forall>k \<le> length es. pn_state (ln_self (rcv_run E (take k es) s)) = STATE_LISTENING \<and> ln_peers (rcv_run E (take k es) s) \<noteq> [] \<and>
        refs_ok (rcv_run E (take k es) s))"

definition sd_start :: "local_node \<Rightarrow> receiver_event list \<Rightarrow> thread_command command_queue \<Rightarrow> thread_command list \<Rightarrow> shutdown" where
  "sd_start s es q batch =
     \<lparr>sd_node = s, sd_caller = Calling, sd_receiver = Looping, sd_events = es, sd_queue = q, sd_batch = batch, sd_running = True,
      sd_effects = []\<rparr>"

text \<open>The node after each part of the shutdown, when \<open>s\<close> is its state after all events.\<close>

definition sd_stopping :: "local_node \<Rightarrow> local_node" where
  "sd_stopping s = fst (ln_cmdStopRcv s)"

definition sd_left :: "nat \<Rightarrow> local_node \<Rightarrow> local_node \<times> node_effect list" where
  "sd_left pipe s = ln_leaveReceiver pipe (ln_cmdStopCmd (sd_stopping s))"

text \<open>
  Where a run can be: before the stop command is handled, before it is passed on, with the stop in the queue of the
  command thread, with the command thread stopped, with both threads stopped, and at the end.
\<close>

definition sd_before :: "node_env \<Rightarrow> local_node \<Rightarrow> receiver_event list \<Rightarrow> shutdown \<Rightarrow> bool" where
  "sd_before E s es S \<longleftrightarrow>
     (\<exists>k \<le> length es. sd_node S = rcv_run E (take k es) s \<and>
        (sd_caller S = Calling \<and> sd_events S = drop k es \<or> sd_caller S = Joining \<and> sd_events S = drop k es @ [STOP_RCV])) \<and>
     (sd_receiver S = Looping \<or> (\<exists>n. sd_receiver S = Dispatching (Other_Command n))) \<and>
     STOP_CMD \<notin> set (sd_batch S @ cq_commands (sd_queue S)) \<and> sd_running S"

definition sd_passing :: "local_node \<Rightarrow> shutdown \<Rightarrow> bool" where
  "sd_passing s1 S \<longleftrightarrow>
     sd_node S = sd_stopping s1 \<and> sd_events S = [] \<and> sd_caller S = Joining \<and> sd_receiver S = Dispatching STOP_CMD \<and>
     STOP_CMD \<notin> set (sd_batch S @ cq_commands (sd_queue S)) \<and> sd_running S"

definition sd_passed :: "local_node \<Rightarrow> shutdown \<Rightarrow> bool" where
  "sd_passed s1 S \<longleftrightarrow>
     sd_node S = sd_stopping s1 \<and> sd_events S = [] \<and> sd_caller S = Joining \<and> (sd_receiver S = Looping \<or> sd_receiver S = Leaving) \<and>
     (\<exists>cs. sd_batch S @ cq_commands (sd_queue S) = cs @ [STOP_CMD] \<and> STOP_CMD \<notin> set cs) \<and> sd_running S"

definition sd_command_done :: "local_node \<Rightarrow> shutdown \<Rightarrow> bool" where
  "sd_command_done s1 S \<longleftrightarrow>
     sd_node S = ln_cmdStopCmd (sd_stopping s1) \<and> sd_caller S = Joining \<and> (sd_receiver S = Looping \<or> sd_receiver S = Leaving) \<and>
     \<not> sd_running S"

definition sd_receiver_done :: "nat \<Rightarrow> local_node \<Rightarrow> shutdown \<Rightarrow> bool" where
  "sd_receiver_done pipe s1 S \<longleftrightarrow>
     sd_node S = fst (sd_left pipe s1) \<and> sd_effects S = snd (sd_left pipe s1) \<and> sd_caller S = Joining \<and> sd_receiver S = Receiver_Done \<and>
     \<not> sd_running S"

definition sd_finished :: "nat \<Rightarrow> local_node \<Rightarrow> shutdown \<Rightarrow> bool" where
  "sd_finished pipe s1 S \<longleftrightarrow>
     sd_node S = ln_cleanup (fst (sd_left pipe s1)) \<and> sd_effects S = snd (sd_left pipe s1) \<and> sd_caller S = Returned True \<and>
     sd_receiver S = Receiver_Done \<and> \<not> sd_running S"

lemmas sd_phases = sd_before_def sd_passing_def sd_passed_def sd_command_done_def sd_receiver_done_def sd_finished_def

definition sd_inv :: "node_env \<Rightarrow> nat \<Rightarrow> local_node \<Rightarrow> receiver_event list \<Rightarrow> shutdown \<Rightarrow> bool" where
  "sd_inv E pipe s es S \<longleftrightarrow>
     (let s1 = rcv_run E es s
      in sd_before E s es S \<or> sd_passing s1 S \<or> sd_passed s1 S \<or> sd_command_done s1 S \<or> sd_receiver_done pipe s1 S \<or>
         sd_finished pipe s1 S) \<and>
     0 < cq_maxSize (sd_queue S)"

lemma setState_state: "ln_peers s \<noteq> [] \<Longrightarrow> pn_state (ln_self (ln_setState st s)) = st"
  by (cases "ln_peers s") (simp_all add: ln_setState_def ln_update_def ln_self_def)

lemma setState_peers: "ln_peers (ln_setState st s) = [] \<longleftrightarrow> ln_peers s = []"
  by (simp add: ln_setState_def ln_update_def)

lemma rcv_ok_all:
  assumes "rcv_ok E es s"
  shows "pn_state (ln_self (rcv_run E es s)) = STATE_LISTENING" and "ln_peers (rcv_run E es s) \<noteq> []" and "refs_ok (rcv_run E es s)"
  using assms [unfolded rcv_ok_def] by (metis order_refl take_all)+

lemma stopping_state:
  assumes "ln_peers s \<noteq> []"
  shows "pn_state (ln_self (sd_stopping s)) = STATE_CLOSING" and "pn_state (ln_self (ln_cmdStopCmd (sd_stopping s))) = STATE_CLOSED"
  using assms by (simp_all add: sd_stopping_def ln_cmdStopRcv_def ln_cmdStopCmd_def setState_state setState_peers)

lemma rcv_run_next: "k < length es \<Longrightarrow> rcv_run E (take (Suc k) es) s = fst (rcv_handle E (es ! k) (rcv_run E (take k es) s))"
  by (simp add: rcv_run_def take_Suc_conv_app_nth)

lemma sd_before_receiver:
  assumes "sd_before E s es S" and "rcv_ok E es s" and "sd_receiverStep E pipe S = Some S'"
  shows "sd_before E s es S' \<or> sd_passing (rcv_run E es s) S'"
proof -
  obtain k where k: "k \<le> length es" "sd_node S = rcv_run E (take k es) s"
      "sd_caller S = Calling \<and> sd_events S = drop k es \<or> sd_caller S = Joining \<and> sd_events S = drop k es @ [STOP_RCV]"
    using assms(1) by (auto simp: sd_before_def)
  have up: "sd_listening S" using assms(2) k by (simp add: rcv_ok_def sd_listening_def)
  from assms(1) consider "sd_receiver S = Looping" | n where "sd_receiver S = Dispatching (Other_Command n)" by (auto simp: sd_before_def)
  then show ?thesis
  proof cases
    case 1
    show ?thesis
    proof (cases "k < length es")
      case True
      define e where "e = es ! k"
      have e: "drop k es = e # drop (Suc k) es" using True by (simp add: e_def Cons_nth_drop_Suc)
      obtain s' command where h: "rcv_handle E e (sd_node S) = (s', command)" by fastforce
      have "e \<noteq> STOP_RCV" using assms(2) nth_mem [OF True] by (auto simp: rcv_ok_def e_def)
      then have c: "command = None \<or> (\<exists>n. command = Some (Other_Command n))" using h by (cases e) auto
      have s': "s' = rcv_run E (take (Suc k) es) s" using h k(2) rcv_run_next [OF True] by (simp add: e_def)
      have S': "sd_node S' = s'" "sd_events S' = tl (sd_events S)" "sd_caller S' = sd_caller S" "sd_queue S' = sd_queue S"
          "sd_batch S' = sd_batch S" "sd_running S' = sd_running S"
          "sd_receiver S' = (case command of None \<Rightarrow> Looping | Some c \<Rightarrow> Dispatching c)"
        using assms(3) 1 up k(3) e h by (auto simp: sd_receiverStep_def)
      have "sd_node S' = rcv_run E (take (Suc k) es) s \<and>
          (sd_caller S' = Calling \<and> sd_events S' = drop (Suc k) es \<or> sd_caller S' = Joining \<and> sd_events S' = drop (Suc k) es @ [STOP_RCV])"
        using k(3) S' s' e by auto
      moreover have "sd_receiver S' = Looping \<or> (\<exists>n. sd_receiver S' = Dispatching (Other_Command n))" using c S' by auto
      moreover have "STOP_CMD \<notin> set (sd_batch S' @ cq_commands (sd_queue S'))" "sd_running S'" using assms(1) S' by (simp_all add: sd_before_def)
      ultimately have "sd_before E s es S'" using Suc_leI [OF True] unfolding sd_before_def by blast
      then show ?thesis ..
    next
      case False
      with k(1) have "k = length es" by simp
      with k(3) assms(3) 1 up have ev: "sd_events S = [STOP_RCV]" "sd_caller S = Joining"
        by (auto simp: sd_receiverStep_def)
      then have "S' = S\<lparr>sd_node := sd_stopping (sd_node S), sd_events := [], sd_receiver := Dispatching STOP_CMD\<rparr>"
        using assms(3) 1 up by (simp add: sd_receiverStep_def sd_stopping_def ln_cmdStopRcv_def)
      moreover have "sd_node S = rcv_run E es s" using k(2) \<open>k = length es\<close> by simp
      ultimately have "sd_passing (rcv_run E es s) S'" using assms(1) ev(2) by (simp add: sd_passing_def sd_before_def)
      then show ?thesis ..
    qed
  next
    case 2
    with assms(1,3) have "sd_before E s es S'" by (auto simp: sd_receiverStep_def sd_before_def cq_push_def split: if_splits)
    then show ?thesis ..
  qed
qed

lemma sd_before_command:
  assumes "sd_before E s es S" and "rcv_ok E es s" and "sd_commandStep S = Some S'"
  shows "sd_before E s es S'"
proof -
  have open': "\<not> sd_closed S"
    using assms(1,2) by (auto simp: sd_before_def rcv_ok_def sd_closed_def)
  show ?thesis
  proof (cases "sd_batch S")
    case Nil
    with assms(1,3) open' show ?thesis
      by (auto simp: sd_commandStep_def sd_before_def cq_popAll_def split: if_splits)
  next
    case (Cons c cs)
    then obtain n where "c = Other_Command n" using assms(1) by (cases c) (auto simp: sd_before_def)
    then have "S' = S\<lparr>sd_batch := cs\<rparr>"
      using assms(3) Cons open' by (auto simp: sd_commandStep_def sd_closed_def Let_def split: if_splits)
    with assms(1) Cons show ?thesis by (auto simp: sd_before_def)
  qed
qed

lemma sd_stop_command:
  assumes "ln_peers s1 \<noteq> []" and "sd_node S = sd_stopping s1" and "sd_commandStep S = Some S'"
  shows "(sd_batch S \<noteq> [] \<and> hd (sd_batch S) = STOP_CMD \<and> S' = sd_stopped (S\<lparr>sd_node := ln_cmdStopCmd (sd_stopping s1), sd_batch := tl (sd_batch S)\<rparr>)) \<or>
    (sd_node S' = sd_node S \<and> sd_events S' = sd_events S \<and> sd_caller S' = sd_caller S \<and> sd_receiver S' = sd_receiver S \<and> sd_running S' \<and>
     (\<exists>cs. STOP_CMD \<notin> set cs \<and> sd_batch S @ cq_commands (sd_queue S) = cs @ sd_batch S' @ cq_commands (sd_queue S')))"
proof (cases "sd_batch S")
  case Nil
  with assms stopping_state [OF assms(1)] show ?thesis
    by (auto simp: sd_commandStep_def sd_closed_def cq_popAll_def intro!: exI [of _ "[]"] split: if_splits)
next
  case (Cons c cs)
  with assms stopping_state [OF assms(1)] show ?thesis
    by (cases c) (auto simp: sd_commandStep_def sd_closed_def Let_def intro!: exI [of _ "[c]"] split: if_splits)
qed

lemma sd_queue_size: "sd_step E pipe S S' \<Longrightarrow> cq_maxSize (sd_queue S') = cq_maxSize (sd_queue S)"
  by (induction rule: sd_step.induct)
    (auto simp: sd_callerStep_def sd_receiverStep_def sd_commandStep_def sd_stopped_def cq_push_def cq_popAll_def cq_flush_def Let_def
      split: caller_phase.splits receiver_phase.splits if_splits list.splits prod.splits option.splits)

lemma sd_before_step:
  assumes "sd_before E s es S" and "rcv_ok E es s" and "sd_step E pipe S S'"
  shows "sd_before E s es S' \<or> sd_passing (rcv_run E es s) S'"
  using assms(3)
proof cases
  case caller
  have "sd_listening S" using assms(1,2) by (auto simp: sd_before_def rcv_ok_def sd_listening_def)
  with caller assms(1) show ?thesis by (auto simp: sd_callerStep_def sd_before_def split: caller_phase.splits if_splits)
next
  case receiver
  with sd_before_receiver [OF assms(1,2)] show ?thesis .
next
  case command
  with sd_before_command [OF assms(1,2)] show ?thesis by blast
qed

lemma sd_passing_step:
  assumes "sd_passing s1 S" and "ln_peers s1 \<noteq> []" and "sd_step E pipe S S'"
  shows "sd_passing s1 S' \<or> sd_passed s1 S'"
  using assms(3)
proof cases
  case caller
  with assms(1) show ?thesis by (auto simp: sd_callerStep_def sd_passing_def)
next
  case receiver
  with assms(1) show ?thesis by (auto simp: sd_receiverStep_def sd_passing_def sd_passed_def cq_push_def split: if_splits)
next
  case command
  from assms(1) have none: "STOP_CMD \<notin> set (sd_batch S)" by (simp add: sd_passing_def)
  from assms(1) have node: "sd_node S = sd_stopping s1" by (simp add: sd_passing_def)
  then have "sd_batch S \<noteq> [] \<Longrightarrow> hd (sd_batch S) \<noteq> STOP_CMD" using none by (metis hd_in_set)
  with sd_stop_command [OF assms(2) node command] obtain cs where
    keep: "sd_node S' = sd_node S" "sd_events S' = sd_events S" "sd_caller S' = sd_caller S" "sd_receiver S' = sd_receiver S" "sd_running S'"
      and cs: "sd_batch S @ cq_commands (sd_queue S) = cs @ sd_batch S' @ cq_commands (sd_queue S')" by blast
  have "STOP_CMD \<notin> set (sd_batch S' @ cq_commands (sd_queue S'))"
    using arg_cong [OF cs, of set] assms(1) by (auto simp: sd_passing_def)
  with keep assms(1) show ?thesis by (simp add: sd_passing_def)
qed

lemma sd_passed_step:
  assumes "sd_passed s1 S" and "ln_peers s1 \<noteq> []" and "sd_step E pipe S S'"
  shows "sd_passed s1 S' \<or> sd_command_done s1 S'"
  using assms(3)
proof cases
  case caller
  with assms(1) show ?thesis by (auto simp: sd_callerStep_def sd_passed_def)
next
  case receiver
  with assms(1) stopping_state [OF assms(2)] show ?thesis
    by (auto simp: sd_receiverStep_def sd_passed_def sd_listening_def split: if_splits)
next
  case command
  from assms(1) have node: "sd_node S = sd_stopping s1" by (simp add: sd_passed_def)
  obtain cs where cs: "sd_batch S @ cq_commands (sd_queue S) = cs @ [STOP_CMD]" "STOP_CMD \<notin> set cs"
    using assms(1) by (auto simp: sd_passed_def)
  from sd_stop_command [OF assms(2) node command] show ?thesis
  proof
    assume "sd_batch S \<noteq> [] \<and> hd (sd_batch S) = STOP_CMD \<and>
      S' = sd_stopped (S\<lparr>sd_node := ln_cmdStopCmd (sd_stopping s1), sd_batch := tl (sd_batch S)\<rparr>)"
    with assms(1) show ?thesis by (auto simp: sd_passed_def sd_command_done_def sd_stopped_def)
  next
    assume keep: "sd_node S' = sd_node S \<and> sd_events S' = sd_events S \<and> sd_caller S' = sd_caller S \<and> sd_receiver S' = sd_receiver S \<and>
      sd_running S' \<and> (\<exists>cs. STOP_CMD \<notin> set cs \<and> sd_batch S @ cq_commands (sd_queue S) = cs @ sd_batch S' @ cq_commands (sd_queue S'))"
    then obtain ds where ds: "STOP_CMD \<notin> set ds" "ds @ (sd_batch S' @ cq_commands (sd_queue S')) = cs @ [STOP_CMD]" using cs(1) by auto
    then obtain us where "cs = ds @ us" "sd_batch S' @ cq_commands (sd_queue S') = us @ [STOP_CMD]"
      by (cases "sd_batch S' @ cq_commands (sd_queue S')" rule: rev_cases) auto
    with cs(2) keep assms(1) show ?thesis by (auto simp: sd_passed_def)
  qed
qed

lemma sd_command_done_step:
  assumes "sd_command_done s1 S" and "ln_peers s1 \<noteq> []" and "sd_step E pipe S S'"
  shows "sd_command_done s1 S' \<or> sd_receiver_done pipe s1 S'"
  using assms(3)
proof cases
  case receiver
  with assms(1) stopping_state [OF assms(2)] show ?thesis
    by (auto simp: sd_receiverStep_def sd_command_done_def sd_receiver_done_def sd_left_def sd_listening_def split: prod.splits)
qed (use assms(1) in \<open>auto simp: sd_callerStep_def sd_commandStep_def sd_command_done_def\<close>)

lemma sd_receiver_done_step:
  assumes "sd_receiver_done pipe s1 S" and "sd_step E pipe S S'"
  shows "sd_finished pipe s1 S'"
  using assms(2)
  by cases (use assms(1) in \<open>auto simp: sd_callerStep_def sd_receiverStep_def sd_commandStep_def sd_receiver_done_def sd_finished_def\<close>)

lemma sd_finished_step: "sd_finished pipe s1 S \<Longrightarrow> \<not> sd_step E pipe S S'"
  by (auto simp: sd_step.simps sd_callerStep_def sd_receiverStep_def sd_commandStep_def sd_finished_def)

lemma sd_inv_step:
  assumes "sd_inv E pipe s es S" and "rcv_ok E es s" and "sd_step E pipe S S'"
  shows "sd_inv E pipe s es S'"
proof -
  note peers = rcv_ok_all(2) [OF assms(2)]
  have "0 < cq_maxSize (sd_queue S')" using sd_queue_size [OF assms(3)] assms(1) by (simp add: sd_inv_def)
  moreover from assms(1) have "sd_before E s es S \<or> sd_passing (rcv_run E es s) S \<or> sd_passed (rcv_run E es s) S \<or>
      sd_command_done (rcv_run E es s) S \<or> sd_receiver_done pipe (rcv_run E es s) S \<or> sd_finished pipe (rcv_run E es s) S"
    by (simp add: sd_inv_def Let_def)
  ultimately show ?thesis
    unfolding sd_inv_def Let_def
    using sd_before_step [OF _ assms(2,3)] sd_passing_step [OF _ peers assms(3)] sd_passed_step [OF _ peers assms(3)]
      sd_command_done_step [OF _ peers assms(3)] sd_receiver_done_step [OF _ assms(3)] sd_finished_step [of pipe _ S E S'] assms(3)
    by blast
qed

text \<open>A full queue is not empty, so the command thread can go on when the receiver thread cannot.\<close>

lemma command_can_step:
  assumes "sd_running S" and "\<not> sd_closed S" and "sd_batch S \<noteq> [] \<or> cq_commands (sd_queue S) \<noteq> []"
  shows "\<exists>S'. sd_step E pipe S S'"
proof -
  have "\<exists>S'. sd_commandStep S = Some S'"
    using assms by (auto simp: sd_commandStep_def cq_popAll_def cq_isEmpty_def Let_def split: list.splits)
  then show ?thesis using sd_step.command by blast
qed

lemma dispatch_can_step:
  assumes "sd_receiver S = Dispatching c" and "sd_running S" and "\<not> sd_closed S" and "0 < cq_maxSize (sd_queue S)"
  shows "\<exists>S'. sd_step E pipe S S'"
proof (cases "cq_getSize (sd_queue S) < cq_maxSize (sd_queue S)")
  case True
  then have "\<exists>S'. sd_receiverStep E pipe S = Some S'" using assms(1) by (simp add: sd_receiverStep_def cq_push_def)
  then show ?thesis using sd_step.receiver by blast
next
  case False
  with assms(4) have "cq_commands (sd_queue S) \<noteq> []" by (auto simp: cq_getSize_def)
  then show ?thesis using command_can_step [OF assms(2,3)] by blast
qed

lemma sd_before_can_step:
  assumes "sd_before E s es S" and "rcv_ok E es s" and "0 < cq_maxSize (sd_queue S)"
  shows "\<exists>S'. sd_step E pipe S S'"
proof -
  have up: "sd_listening S" "\<not> sd_closed S" using assms(1,2) by (auto simp: sd_before_def rcv_ok_def sd_listening_def sd_closed_def)
  have run: "sd_running S" using assms(1) by (simp add: sd_before_def)
  from assms(1) consider "sd_receiver S = Looping" | n where "sd_receiver S = Dispatching (Other_Command n)" by (auto simp: sd_before_def)
  then show ?thesis
  proof cases
    case 1
    show ?thesis
    proof (cases "sd_events S")
      case Nil
      then have "sd_caller S = Calling" using assms(1) by (auto simp: sd_before_def)
      then have "\<exists>S'. sd_callerStep S = Some S'" by (simp add: sd_callerStep_def)
      then show ?thesis using sd_step.caller by blast
    next
      case (Cons e es')
      then have "\<exists>S'. sd_receiverStep E pipe S = Some S'" using 1 up by (auto simp: sd_receiverStep_def split: prod.splits)
      then show ?thesis using sd_step.receiver by blast
    qed
  next
    case 2
    then show ?thesis using dispatch_can_step run up(2) assms(3) by blast
  qed
qed

lemma sd_inv_can_step:
  assumes "sd_inv E pipe s es S" and "rcv_ok E es s" and "\<not> sd_finished pipe (rcv_run E es s) S"
  shows "\<exists>S'. sd_step E pipe S S'"
proof -
  let ?s1 = "rcv_run E es s"
  note st = stopping_state [OF rcv_ok_all(2) [OF assms(2)]]
  have room: "0 < cq_maxSize (sd_queue S)" using assms(1) by (simp add: sd_inv_def)
  from assms(1,3) consider "sd_before E s es S" | "sd_passing ?s1 S" | "sd_passed ?s1 S" | "sd_command_done ?s1 S" | "sd_receiver_done pipe ?s1 S"
    by (auto simp: sd_inv_def Let_def)
  then show ?thesis
  proof cases
    case 1
    then show ?thesis using sd_before_can_step assms(2) room by blast
  next
    case 2
    then show ?thesis using dispatch_can_step [of S STOP_CMD] room st by (simp add: sd_passing_def sd_closed_def)
  next
    case 3
    then have "\<not> sd_closed S" "sd_running S" using st by (simp_all add: sd_passed_def sd_closed_def)
    moreover have "sd_batch S \<noteq> [] \<or> cq_commands (sd_queue S) \<noteq> []" using 3 by (auto simp: sd_passed_def)
    ultimately show ?thesis using command_can_step by blast
  next
    case 4
    then have "\<exists>S'. sd_receiverStep E pipe S = Some S'"
      using st by (auto simp: sd_receiverStep_def sd_command_done_def sd_listening_def split: prod.splits)
    then show ?thesis using sd_step.receiver by blast
  next
    case 5
    then have "\<exists>S'. sd_callerStep S = Some S'" by (simp add: sd_callerStep_def sd_receiver_done_def)
    then show ?thesis using sd_step.caller by blast
  qed
qed

text \<open>The invariant at the start, and the tables at the end.\<close>

lemma sd_inv_start:
  assumes "STOP_CMD \<notin> set (batch @ cq_commands q)" and "0 < cq_maxSize q"
  shows "sd_inv E pipe s es (sd_start s es q batch)"
proof -
  have "sd_before E s es (sd_start s es q batch)"
    using assms(1) by (auto simp: sd_before_def sd_start_def rcv_run_def intro!: exI [of _ 0])
  with assms(2) show ?thesis by (simp add: sd_inv_def sd_start_def)
qed

lemma stop_frame:
  "ln_incoming (ln_cmdStopCmd (sd_stopping s)) = ln_incoming s" "ln_connectionNodes (ln_cmdStopCmd (sd_stopping s)) = ln_connectionNodes s"
  "length (ln_peers (ln_cmdStopCmd (sd_stopping s))) = length (ln_peers s)"
  "pn_outgoing (ln_peers (ln_cmdStopCmd (sd_stopping s)) ! r) = pn_outgoing (ln_peers s ! r)"
  "pn_outMulticast (ln_peers (ln_cmdStopCmd (sd_stopping s)) ! r) = pn_outMulticast (ln_peers s ! r)"
  by (simp_all add: sd_stopping_def ln_cmdStopCmd_def ln_cmdStopRcv_def ln_setState_def ln_peers_update)

lemma leaveReceiver_empty: "ln_leaveReceiver pipe s = (s', es) \<Longrightarrow> ln_incoming s' = []"
  using closeAll_closes by (auto simp: ln_leaveReceiver_def Let_def split: prod.splits)

lemma sd_finished_tables:
  assumes "sd_finished pipe s1 S" and "refs_ok s1"
  shows "ln_nodes (sd_node S) = [] \<and> ln_connectionNodes (sd_node S) = [] \<and> ln_incoming (sd_node S) = [] \<and>
    (\<forall>c \<in> set (ln_incoming s1). Close c \<in> set (sd_effects S)) \<and>
    (\<forall>r c. c \<noteq> pipe \<longrightarrow> c \<in> set (ln_incoming s1) \<longrightarrow> map_of (ln_connectionNodes s1) c = Some r \<longrightarrow>
      (\<forall>r' < length (ln_peers s1). r' \<noteq> r \<longrightarrow> pn_outgoing (ln_peers s1 ! r') \<noteq> Some c \<and> pn_outMulticast (ln_peers s1 ! r') \<noteq> Some c) \<longrightarrow>
      pn_state (ln_peers (sd_node S) ! r) = STATE_CLOSED)"
proof -
  let ?s = "ln_cmdStopCmd (sd_stopping s1)"
  obtain s2 es where run: "ln_leaveReceiver pipe ?s = (s2, es)" by fastforce
  then have S: "sd_node S = ln_cleanup s2" "sd_effects S = es" using assms(1) by (simp_all add: sd_finished_def sd_left_def)
  have refs: "refs_ok ?s" using assms(2) by (simp add: refs_ok_def stop_frame)
  show ?thesis
    using leaveReceiver_closes [OF run] leaveReceiver_due [OF run refs] leaveReceiver_empty [OF run]
    by (auto simp: S ln_cleanup_def stop_frame)
qed

text \<open>
  C15 (node_shutdown): \<^verbatim>\<open>close\<close> of a listening node always returns. However the calling, the receiver and the command thread are
  scheduled, whatever commands are queued and whatever events of other connections come before the stop command, as long as none
  of these closes the node itself, there is a bound on the number of steps, and a run that cannot go on has both threads stopped and
  \<^verbatim>\<open>close\<close> returned; then no connection is in the set and no node in the tables, every connection that was in the set has been
  closed, and so has the node of every connection that no other node uses.
\<close>

theorem node_shutdown:
  assumes "rcv_ok E es s" and "0 < cq_maxSize q" and "STOP_CMD \<notin> set (batch @ cq_commands q)"
  shows "(\<forall>n S. (sd_step E pipe ^^ n) (sd_start s es q batch) S \<longrightarrow> n \<le> sd_work (sd_start s es q batch)) \<and>
    (\<forall>S. (sd_step E pipe)\<^sup>*\<^sup>* (sd_start s es q batch) S \<longrightarrow> \<not> (\<exists>S'. sd_step E pipe S S') \<longrightarrow>
      sd_caller S = Returned True \<and> sd_receiver S = Receiver_Done \<and> \<not> sd_running S \<and>
      ln_nodes (sd_node S) = [] \<and> ln_connectionNodes (sd_node S) = [] \<and> ln_incoming (sd_node S) = [] \<and>
      (\<forall>c \<in> set (ln_incoming (rcv_run E es s)). Close c \<in> set (sd_effects S)) \<and>
      (\<forall>r c. c \<noteq> pipe \<longrightarrow> c \<in> set (ln_incoming (rcv_run E es s)) \<longrightarrow> map_of (ln_connectionNodes (rcv_run E es s)) c = Some r \<longrightarrow>
        (\<forall>r' < length (ln_peers (rcv_run E es s)). r' \<noteq> r \<longrightarrow>
           pn_outgoing (ln_peers (rcv_run E es s) ! r') \<noteq> Some c \<and> pn_outMulticast (ln_peers (rcv_run E es s) ! r') \<noteq> Some c) \<longrightarrow>
        pn_state (ln_peers (sd_node S) ! r) = STATE_CLOSED))"
proof (intro conjI allI impI)
  fix n S assume "(sd_step E pipe ^^ n) (sd_start s es q batch) S"
  from sd_steps_work [OF this] show "n \<le> sd_work (sd_start s es q batch)" by simp
next
  fix S assume run: "(sd_step E pipe)\<^sup>*\<^sup>* (sd_start s es q batch) S" and stuck: "\<not> (\<exists>S'. sd_step E pipe S S')"
  from run have "sd_inv E pipe s es S"
    using sd_inv_start [OF assms(3,2)] by (induction rule: rtranclp_induct) (auto intro: sd_inv_step [OF _ assms(1)])
  then have fin: "sd_finished pipe (rcv_run E es s) S" using sd_inv_can_step [OF _ assms(1)] stuck by blast
  then show "sd_caller S = Returned True" "sd_receiver S = Receiver_Done" "\<not> sd_running S" by (simp_all add: sd_finished_def)
  note t = sd_finished_tables [OF fin rcv_ok_all(3) [OF assms(1)]]
  then show "ln_nodes (sd_node S) = []" "ln_connectionNodes (sd_node S) = []" "ln_incoming (sd_node S) = []"
    "\<forall>c \<in> set (ln_incoming (rcv_run E es s)). Close c \<in> set (sd_effects S)" by blast+
  show "\<And>r c. c \<noteq> pipe \<Longrightarrow> c \<in> set (ln_incoming (rcv_run E es s)) \<Longrightarrow> map_of (ln_connectionNodes (rcv_run E es s)) c = Some r \<Longrightarrow>
      \<forall>r' < length (ln_peers (rcv_run E es s)). r' \<noteq> r \<longrightarrow>
         pn_outgoing (ln_peers (rcv_run E es s) ! r') \<noteq> Some c \<and> pn_outMulticast (ln_peers (rcv_run E es s) ! r') \<noteq> Some c \<Longrightarrow>
      pn_state (ln_peers (sd_node S) ! r) = STATE_CLOSED"
    using t by blast
qed

definition sample_shutdown_events :: "receiver_event list" where
  "sample_shutdown_events = [Forward 5, Accepted (Some 3)]"

text \<open>
  The queue of the command thread has room for one command only and one command is being handled; meanwhile a command is
  forwarded and another connection accepted.
\<close>

theorem node_shutdown_witness:
  "\<exists>S. (sd_step plain_env 0)\<^sup>*\<^sup>* (sd_start sample_host sample_shutdown_events (cq_new 1) [Other_Command 1]) S \<and>
     sd_caller S = Returned True \<and> ln_incoming (sd_node S) = [] \<and> Close 2 \<in> set (sd_effects S) \<and> Close 3 \<in> set (sd_effects S) \<and>
     pn_state (ln_peers (sd_node S) ! 1) = STATE_CLOSED"
proof -
  let ?S = "sd_start sample_host sample_shutdown_events (cq_new 1) [Other_Command 1]"
  let ?s = "sample_host\<lparr>ln_incoming := [0, 2, 3]\<rparr>"
  have runs: "rcv_run plain_env (take k sample_shutdown_events) sample_host = (if k < 2 then sample_host else ?s)"
    if "k \<le> length sample_shutdown_events" for k
  proof -
    from that consider "k = 0" | "k = 1" | "k = 2" by (fastforce simp: sample_shutdown_events_def)
    then show ?thesis
      by cases (simp_all add: rcv_run_def sample_shutdown_events_def ln_handleConnect_def sample_host_def)
  qed
  have s: "rcv_run plain_env sample_shutdown_events sample_host = ?s"
    using runs [of 2] by (simp add: sample_shutdown_events_def)
  have good: "pn_state (ln_self t) = STATE_LISTENING \<and> ln_peers t \<noteq> [] \<and> refs_ok t" if "t = sample_host \<or> t = ?s" for t
    using that by (auto simp: sample_host_def ln_self_def refs_ok_def ran_def split: if_splits)
  have ok: "rcv_ok plain_env sample_shutdown_events sample_host"
    unfolding rcv_ok_def using good runs by (simp add: sample_shutdown_events_def)
  obtain S where run: "(sd_step plain_env 0)\<^sup>*\<^sup>* ?S S" and stuck: "\<not> (\<exists>S'. sd_step plain_env 0 S S')"
    using sd_run_ends by blast
  have q: "0 < cq_maxSize (cq_new 1 :: thread_command command_queue)" "STOP_CMD \<notin> set ([Other_Command 1] @ cq_commands (cq_new 1))"
    by (simp_all add: cq_new_def)
  note fin = node_shutdown [OF ok q, THEN conjunct2, rule_format, OF run stuck, unfolded s]
  have used: "pn_outgoing (ln_peers ?s ! r') \<noteq> Some 2 \<and> pn_outMulticast (ln_peers ?s ! r') \<noteq> Some 2"
    if "r' < length (ln_peers ?s)" "r' \<noteq> 1" for r'
    using that by (auto simp: sample_host_def pn_new_def less_Suc_eq)
  have "pn_state (ln_peers (sd_node S) ! 1) = STATE_CLOSED"
    using fin used by (simp add: sample_host_def)
  with fin run show ?thesis by auto
qed

end
