(* ===== verification/Spec2Isabelle.thy ===== *)
theory Spec2Isabelle
  imports Instance_Cache Stream_Roundtrip Mapping_Protocol RSP_Nacks RSP_Acks Barrier_Facts Distributed_Queue Buffer_Cache Store_Properties
    Dispatch_Table Pending_Commands Send_Token Connect_Handshake Object_Replica Command_Framing RDMA_Flow Node_Operations Node_Shutdown
begin

text \<open>
  \<^bold>\<open>Collage\<close> is a C++ library for distributed programs: nodes connect to each other, send each other commands, and share
  versioned objects. This development models the library proper, \<^verbatim>\<open>src/co\<close>, as functions on records
  and step relations, and proves what makes its parts correct.

  \<^bold>\<open>The parts and how they interact.\<close> An application registers an object at the object store of its local node, which makes it the master
  instance; other nodes map it and get slave instances. A change manager on each side moves the data. The
  master's commit serializes the object into an output stream, which compresses and cuts the data into object data commands; these go out on the connections
  of the subscribed nodes, unicast or multicast. The receiver thread of a node reads commands off its connections into buffers of a
  cache, dispatches them to a handler, a command queue or an object, and keeps them pending while the object is not
  mapped. Data commands are collected in input streams, one per version, and in the instance
  cache; the application applies them with sync. Barriers, queues and object maps are distributed objects built on that.

  \<^bold>\<open>Prelude.\<close> \<open>Collage_Prelude\<close>: machine integers, little-endian byte images with their codec lemmas, association lists for hash maps.

  \<^bold>\<open>Streams and commands.\<close>
  \<^item> \<open>Object_Version\<close> (\<^verbatim>\<open>objectVersion\<close>): identifier and version pairs and their order, an instance of \<^verbatim>\<open>linorder\<close>.
  \<^item> \<open>Connections\<close> (\<^verbatim>\<open>connections.h\<close>): which connections reach a set of nodes; each node is reached once,
    over multicast exactly when another receiver shares its group.
  \<^item> \<open>Data_OStream\<close>, \<open>Data_IStream\<close> (\<^verbatim>\<open>dataOStream\<close>, \<^verbatim>\<open>dataIStream\<close>): buffering, compression, saving and resending on the one side, the buffer loop and
    decompression on the other. What a subclass provides is a locale (\<open>buffer_source\<close>), interpreted on commands and object data streams.
  \<^item> \<open>Commands\<close> (\<^verbatim>\<open>oCommand\<close>, \<^verbatim>\<open>iCommand\<close> and the object, data and custom variants): the byte format; a data command read back has the fields written.
  \<^item> \<open>Object_Data_OStream\<close>, \<open>Object_Data_IStream\<close> (\<^verbatim>\<open>object*DataOStream\<close>, \<^verbatim>\<open>objectDataIStream\<close>, \<^verbatim>\<open>dataIStreamQueue\<close>): the data of one version as a
    sequence of commands. \<open>Stream_Roundtrip\<close> shows that delta and instance data arrive as written; \<open>Stream_Input\<close> adds the typed
    operators and refines reading from buffers to reading from one byte list.

  \<^bold>\<open>Objects.\<close>
  \<^item> \<open>Master_CM\<close> (\<^verbatim>\<open>objectCM\<close>, \<^verbatim>\<open>versionedMasterCM\<close>, \<^verbatim>\<open>fullMasterCM\<close>, \<^verbatim>\<open>deltaMasterCM\<close>, \<^verbatim>\<open>unbufferedMasterCM\<close>) and \<open>Slave_CM\<close> (\<^verbatim>\<open>versionedSlaveCM\<close>, \<^verbatim>\<open>staticSlaveCM\<close>): the change managers.
    \<open>Master_Facts\<close>: retained versions are an unbroken run that ends at the head, commits obey the flow control of the slowest slave;
    \<open>Mapping_Protocol\<close>: what a mapping slave gets is what it asked for, from its cache and the master together.
  \<^item> \<open>Instance_Cache\<close> (\<^verbatim>\<open>instanceCache\<close>) with \<open>Cache_Pins\<close>: structure, byte accounting, capacity and pinning of cached instance data.
  \<^item> \<open>Object_Store\<close> (\<^verbatim>\<open>object\<close>, \<^verbatim>\<open>objectStore\<close>): the table of attached objects and every command handler. \<open>Store_Protocol\<close> is the store as a state
    machine with its invariant, \<open>Store_Properties\<close> what follows from it.
  \<^item> \<open>Object_Map\<close> (\<^verbatim>\<open>serializable\<close>, \<^verbatim>\<open>objectMap\<close>): dirty bits and the distributed map; \<open>Object_Map_Facts\<close>: a slave map replicates its master, for any
    handler with the laws of the locale \<open>object_handler\<close>; \<open>Object_Replica\<close> interprets the handler on the object store.
  \<^item> \<open>Barrier\<close>, \<open>Barrier_Facts\<close> (\<^verbatim>\<open>barrier\<close>): with indefinite timeouts, one version and as many participants as the height,
    nobody leaves early and nobody is left behind; what a timeout breaks.
  \<^item> \<open>Distributed_Queue\<close> (\<^verbatim>\<open>queueMaster\<close>, \<^verbatim>\<open>queueSlave\<close> and package distributors): every item is handed out once, with one slave per node.

  \<^bold>\<open>Nodes.\<close>
  \<^item> \<open>Node_Data\<close> (\<^verbatim>\<open>connectionDescription\<close>, \<^verbatim>\<open>node\<close>): string forms and their round trip, with the comparison of versions.
  \<^item> \<open>Local_Node\<close> (\<^verbatim>\<open>localNode\<close>, \<^verbatim>\<open>node\<close>): node and connection tables, the handshake handlers. \<open>Connect_Protocol\<close> is a network of nodes and
    \<open>Connect_Handshake\<close> the handshake step by step. \<open>Node_Operations\<close> has the rest of a local node: connecting by identifier, listeners, custom
    commands, start and the parts of shutdown. \<open>Node_Shutdown\<close> has the calling, the receiver and the command thread of \<^verbatim>\<open>close\<close> as a step relation, where
    a join or a full queue blocks: every run is bounded and ends with \<^verbatim>\<open>close\<close> returned and every connection closed.
  \<^item> \<open>Connection_Set\<close> (\<^verbatim>\<open>connectionSet\<close>, \<^verbatim>\<open>eventConnection\<close>): waiting for events; every event of a poll is delivered, and
    no change made by another thread is missed, as long as every connection has a descriptor; a setup that failed leaves stale results.
  \<^item> \<open>Dispatch_Table\<close> (\<^verbatim>\<open>dispatcher\<close>, \<^verbatim>\<open>commandQueue\<close>, \<^verbatim>\<open>worker\<close>): handler tables and command queues; \<open>Pending_Commands\<close>: the receiver thread's dispatch with commands
    kept for objects to come; \<open>Send_Token\<close>: the token that serializes senders.
  \<^item> \<open>Buffer_Cache\<close> (\<^verbatim>\<open>bufferCache\<close>, \<^verbatim>\<open>buffer\<close>): allocation and compaction while other threads release buffers.

  \<^bold>\<open>Transports.\<close>
  \<^item> \<open>Connection_IO\<close> (\<^verbatim>\<open>connection\<close>, \<^verbatim>\<open>fdConnection\<close>, \<^verbatim>\<open>localNode\<close>): send and receive loops over partial transfers and reading commands;
    \<open>Command_Framing\<close>: commands arrive whole and in order. The transport is the locale \<open>byte_transport\<close>, interpreted on file descriptors.
  \<^item> \<open>RSP_Connection\<close> (\<^verbatim>\<open>rspConnection\<close>): reliable multicast over datagrams. \<open>RSP_Facts\<close>: in-order delivery and progress of readers; \<open>RSP_Nacks\<close>:
    every missing datagram is asked for if the nacks fit their array, and when they do; \<open>RSP_Writer\<close>, \<open>RSP_Acks\<close>: the sender's
    stream, and which datagrams are released in the runs of a writer whose readers joined before its first datagram.
  \<^item> \<open>Ring_Buffer\<close> (\<^verbatim>\<open>ring.h\<close>): ring pointers over wrapping counters, the queue and the buffer pool on them (locale \<open>bounded_fifo\<close>).
    \<open>RDMA_Connection\<close> (\<^verbatim>\<open>rdmaConnection\<close>): remote writes into a ring at the other end, with credits. \<open>RDMA_Stream\<close> relates the rings and queues of the two
    ends, \<open>RDMA_System\<close> is the pair of ends with their adapters and shows that bytes arrive in order, \<open>RDMA_Flow\<close> that credits never run out.

  \<^bold>\<open>Conventions.\<close> Release builds: assertions are compiled out, logging has no effect. An exception or error return is a value; a call that blocks is
  \<^term>\<open>None\<close>. Containers and locks of lunchbox are lists and sequential steps; interleavings with other threads are explicit steps
  where the code allows them (\<open>Buffer_Cache\<close>, \<open>Store_Protocol\<close>, \<open>Connect_Protocol\<close>, \<open>RDMA_System\<close>, \<open>Connection_Set\<close>, \<open>Node_Shutdown\<close>). A hash map is an association list in iteration
  order. The clock is an argument or
  a field that passing time advances. The compressor, a third-party library, is a record of functions with its decompression
  law as a hypothesis. An application's object data is the list of its writes. A command that the same thread waits for is run in place.

  \<^bold>\<open>Fuel and bounds.\<close> Reading from a command takes two rounds of the buffer loop, shown sufficient (\<open>im_fuel\<close>); loops over operating system calls take the list of
  outcomes to come as fuel, and one call per byte is enough (\<open>command_delivery\<close>); everything else recurses on its data or has a
  termination proof. Machine integers are words of their width; size bounds are hypotheses where wrap-around would matter.

  \<^bold>\<open>Not modelled.\<close> The UDT transport, RDMA connection management and memory mapping, Windows and named pipe variants, socket creation and name
  resolution: operating system and third-party interfaces. Floating point load scores of the load-aware
  distributors and the RSP send rate. Boost archives, zeroconf, start-up, command line tools, examples and tests.
\<close>

end
